(* ===== verification/Prelude.thy ===== *)
theory Prelude
  imports Main "HOL-Library.Monad_Syntax" "HOL-Library.Word" "HOL-Library.Signed_Division"
begin

text \<open>
  Shared vocabulary of the development: loops over index lists in the option monad, the
  do/while walk along a circular linked list (the most frequent loop of the source), rings
  of pointers, and a few list facts. \<open>None\<close> always means that a loop of the source does
  not return.
\<close>

named_theorems wf_intros \<open>introduction rules for the well-formedness invariant\<close>
named_theorems board_simps \<open>unfolding and field-access equations of the board model\<close>

section \<open>Loops over a fixed list of indices\<close>

fun foldM :: "('a \<Rightarrow> 's \<Rightarrow> 's option) \<Rightarrow> 'a list \<Rightarrow> 's \<Rightarrow> 's option" where
  "foldM f [] s = Some s"
| "foldM f (x # xs) s = Option.bind (f x s) (foldM f xs)"

lemma foldM_append: "foldM f (xs @ ys) s = Option.bind (foldM f xs s) (foldM f ys)"
  by (induction xs arbitrary: s) (auto split: bind_splits)

lemma foldM_Some_fold: "(\<And>x s. f x s = Some (g x s)) \<Longrightarrow> foldM f xs s = Some (fold g xs s)"
  by (induction xs arbitrary: s) auto

lemma foldM_cong [fundef_cong]:
  "xs = ys \<Longrightarrow> s = t \<Longrightarrow> (\<And>x u. x \<in> set ys \<Longrightarrow> f x u = g x u) \<Longrightarrow> foldM f xs s = foldM g ys t"
proof (induction ys arbitrary: xs s t)
  case Nil
  then show ?case by simp
next
  case (Cons y ys)
  have "foldM f ys = foldM g ys" using Cons.prems(3) by (intro ext Cons.IH) auto
  with Cons.prems show ?case by simp
qed

text \<open>
  Total correctness of such a loop: an invariant of the indices still to come, kept by every
  step, holds of the final state, and the loop returns.
\<close>

lemma foldM_total:
  assumes "I xs s" and "\<And>x ys u. I (x # ys) u \<Longrightarrow> \<exists>v. f x u = Some v \<and> I ys v"
  shows "\<exists>t. foldM f xs s = Some t \<and> I [] t"
  using assms(1)
proof (induction xs arbitrary: s)
  case Nil
  then show ?case by simp
next
  case (Cons x xs)
  from assms(2) [OF Cons.prems] obtain v where "f x s = Some v" and "I xs v" by blast
  with Cons.IH [OF this(2)] show ?case by simp
qed

text \<open>
  A loop whose body may return early with a value (\<open>Inl\<close>) or go on (\<open>Inr\<close>), without and
  with inner loops that may not end.
\<close>

fun foldR :: "('a \<Rightarrow> 's \<Rightarrow> 'r + 's) \<Rightarrow> 'a list \<Rightarrow> 's \<Rightarrow> 'r + 's" where
  "foldR f [] s = Inr s"
| "foldR f (x # xs) s = (case f x s of Inl r \<Rightarrow> Inl r | Inr t \<Rightarrow> foldR f xs t)"

fun foldRM :: "('a \<Rightarrow> 's \<Rightarrow> ('r + 's) option) \<Rightarrow> 'a list \<Rightarrow> 's \<Rightarrow> ('r + 's) option" where
  "foldRM f [] s = Some (Inr s)"
| "foldRM f (x # xs) s =
     Option.bind (f x s) (\<lambda>v. case v of Inl r \<Rightarrow> Some (Inl r) | Inr t \<Rightarrow> foldRM f xs t)"

lemma foldRM_total:
  assumes "I xs s" and "\<And>x ys u. I (x # ys) u \<Longrightarrow> \<exists>v. f x u = Some (Inr v) \<and> I ys v"
  shows "\<exists>t. foldRM f xs s = Some (Inr t) \<and> I [] t"
  using assms(1)
proof (induction xs arbitrary: s)
  case Nil
  then show ?case by simp
next
  case (Cons x xs)
  from assms(2) [OF Cons.prems] obtain v where "f x s = Some (Inr v)" and "I xs v" by blast
  with Cons.IH [OF this(2)] show ?case by simp
qed

text \<open>Recursive functions of the option monad may call themselves from the body of such a loop.\<close>

lemma foldM_mono [partial_function_mono]:
  assumes "\<And>x s. mono_option (\<lambda>F. f F x s)"
  shows "mono_option (\<lambda>F. foldM (f F) xs s)"
proof (induction xs arbitrary: s)
  case Nil
  then show ?case by (simp add: option.const_mono)
next
  case (Cons x xs)
  show ?case by (simp only: foldM.simps) (intro bind_mono assms Cons.IH)
qed

text \<open>What a C++ exception carries: the class thrown and its message.\<close>

datatype error = StringError string | IOError string | AssertionFailure

section \<open>The do/while walk along a chain\<close>

text \<open>
  \<open>do \<lbrace>body; cur = next[cur];\<rbrace> while(cur != start)\<close>: the body may return early with a
  value (\<open>Inl\<close>) or go on (\<open>Inr\<close>); \<open>next\<close> is read in the state the body leaves.
\<close>

partial_function (option) walk_chain ::
  "('s \<Rightarrow> int \<Rightarrow> int) \<Rightarrow> (int \<Rightarrow> 's \<Rightarrow> 'r + 's) \<Rightarrow> int \<Rightarrow> int \<Rightarrow> 's \<Rightarrow> ('r + 's) option" where
  "walk_chain nxt body start cur s =
     (case body cur s of
        Inl r \<Rightarrow> Some (Inl r)
      | Inr s' \<Rightarrow>
          (if nxt s' cur \<noteq> start then walk_chain nxt body start (nxt s' cur) s'
           else Some (Inr s')))"

declare walk_chain.simps [code]

text \<open>The walk whose body never returns early.\<close>

definition walk_all ::
  "('s \<Rightarrow> int \<Rightarrow> int) \<Rightarrow> (int \<Rightarrow> 's \<Rightarrow> 's) \<Rightarrow> int \<Rightarrow> 's \<Rightarrow> 's option" where
  "walk_all nxt body start s =
     (case walk_chain nxt (\<lambda>l s. Inr (body l s) :: unit + 's) start start s of
        None \<Rightarrow> None | Some (Inl _) \<Rightarrow> None | Some (Inr t) \<Rightarrow> Some t)"

section \<open>Rings of pointers\<close>

fun path :: "(int \<Rightarrow> int) \<Rightarrow> int \<Rightarrow> int list \<Rightarrow> int \<Rightarrow> bool" where
  "path nx a [] z = (a = z)"
| "path nx a (x # xs) z = (a = x \<and> path nx (nx x) xs z)"

text \<open>\<open>ring nx l xs\<close>: following \<open>nx\<close> from \<open>l\<close> visits exactly \<open>l # xs\<close>, once each, and is back at \<open>l\<close>.\<close>

definition ring :: "(int \<Rightarrow> int) \<Rightarrow> int \<Rightarrow> int list \<Rightarrow> bool" where
  "ring nx l xs \<longleftrightarrow> path nx (nx l) xs l \<and> distinct (l # xs)"

lemma path_append [simp]: "path nx a (xs @ ys) z \<longleftrightarrow> (\<exists>m. path nx a xs m \<and> path nx m ys z)"
  by (induction xs arbitrary: a) auto

lemma path_cong: "path nx a xs z \<Longrightarrow> (\<And>x. x \<in> set xs \<Longrightarrow> nx x = ny x) \<Longrightarrow> path ny a xs z"
  by (induction xs arbitrary: a) auto

lemma ring_cong: "ring nx l xs \<Longrightarrow> (\<And>x. x \<in> set (l # xs) \<Longrightarrow> nx x = ny x) \<Longrightarrow> ring ny l xs"
  by (auto simp: ring_def intro: path_cong)

lemma ring_rotate:
  assumes "ring nx l xs" and "m \<in> set (l # xs)"
  shows "\<exists>ys. ring nx m ys \<and> set (m # ys) = set (l # xs)"
proof (cases "m = l")
  case True
  with assms show ?thesis by auto
next
  case False
  with assms(2) have "m \<in> set xs" by simp
  then obtain as bs where xs: "xs = as @ m # bs" by (auto simp: in_set_conv_decomp)
  from assms(1) xs have "path nx (nx m) (bs @ l # as) m"
    and "distinct (m # bs @ l # as)"
    by (auto simp: ring_def)
  then have "ring nx m (bs @ l # as)" by (simp add: ring_def)
  moreover have "set (m # bs @ l # as) = set (l # xs)" using xs by auto
  ultimately show ?thesis by blast
qed

lemma path_upd_last:
  "path nx a xs w \<Longrightarrow> xs \<noteq> [] \<Longrightarrow> distinct xs \<Longrightarrow> path (nx(last xs := m)) a xs m"
proof (induction xs arbitrary: a)
  case Nil
  then show ?case by simp
next
  case (Cons x xs)
  show ?case
  proof (cases xs)
    case Nil
    with Cons.prems show ?thesis by simp
  next
    case (Cons y ys)
    then have "x \<noteq> last xs" using Cons.prems(3) by (metis distinct.simps(2) last_in_set list.distinct(1))
    with Cons.IH [of "nx x"] Cons.prems Cons show ?thesis by simp
  qed
qed

text \<open>Splicing one ring into another after the first element.\<close>

lemma ring_splice:
  assumes "ring nx h xs" "ring nx k ys" "set (h # xs) \<inter> set (k # ys) = {}"
  shows "ring (nx(last (k # ys) := nx h, h := k)) h ((k # ys) @ xs)"
proof -
  let ?n = "nx(last (k # ys) := nx h, h := k)"
  have p: "path nx k (k # ys) k" "distinct (k # ys)" and q: "path nx (nx h) xs h" "distinct (h # xs)"
    using assms(1,2) by (auto simp: ring_def)
  have "path (nx(last (k # ys) := nx h)) k (k # ys) (nx h)"
    by (rule path_upd_last) (use p in auto)
  then have 1: "path ?n k (k # ys) (nx h)"
    by (rule path_cong) (use assms(3) in auto)
  have "last (k # ys) \<in> set (k # ys)" by (rule last_in_set) simp
  then have 2: "path ?n (nx h) xs h"
    by (intro path_cong [OF q(1)]) (use assms(3) q(2) in auto)
  from 1 2 have "path ?n k ((k # ys) @ xs) h" by (simp only: path_append) blast
  with assms(3) p(2) q(2) show ?thesis by (auto simp: ring_def)
qed

lemma ring_last: "ring nx l xs \<Longrightarrow> nx (last (l # xs)) = l"
proof (cases xs rule: rev_cases)
  case Nil
  then show "ring nx l xs \<Longrightarrow> ?thesis" by (simp add: ring_def)
next
  case (snoc ys y)
  then show "ring nx l xs \<Longrightarrow> ?thesis" by (auto simp: ring_def)
qed

text \<open>
  The walk visits the ring in order: with a body that keeps the \<open>next\<close> pointers of the
  ring, the state after the walk is the fold of the body over the visited list.
\<close>

lemma walk_chain_path:
  assumes "path nx cur (cur # xs) start" and "start \<notin> set xs" and "I s"
    and "\<And>l s. I s \<Longrightarrow> l \<in> set (cur # xs) \<Longrightarrow> I (body l s) \<and> nxt (body l s) l = nx l"
  shows "walk_chain nxt (\<lambda>l s. Inr (body l s) :: 'r + 's) start cur s = Some (Inr (fold body (cur # xs) s))"
  using assms
proof (induction xs arbitrary: cur s)
  case Nil
  from Nil.prems(4) [OF Nil.prems(3), of cur] have "nxt (body cur s) cur = nx cur" by simp
  with Nil.prems(1) show ?case by (simp add: walk_chain.simps)
next
  case (Cons x xs)
  from Cons.prems(4) [OF Cons.prems(3), of cur]
  have iv: "I (body cur s)" and nx: "nxt (body cur s) cur = nx cur" by simp_all
  from Cons.prems(1) have x: "nx cur = x" and p: "path nx x (x # xs) start" by auto
  from Cons.prems(2) have "x \<noteq> start" and s: "start \<notin> set xs" by auto
  have "walk_chain nxt (\<lambda>l s. Inr (body l s) :: 'r + 's) start x (body cur s)
      = Some (Inr (fold body (x # xs) (body cur s)))"
    by (rule Cons.IH [OF p s iv]) (use Cons.prems(4) in auto)
  with nx x \<open>x \<noteq> start\<close> show ?case by (subst walk_chain.simps) simp
qed

lemma walk_all_ring:
  assumes "ring nx start xs" and "I s"
    and "\<And>l s. I s \<Longrightarrow> l \<in> set (start # xs) \<Longrightarrow> I (body l s) \<and> nxt (body l s) l = nx l"
  shows "walk_all nxt body start s = Some (fold body (start # xs) s)"
proof -
  have "walk_chain nxt (\<lambda>l s. Inr (body l s) :: unit + 'a) start start s
      = Some (Inr (fold body (start # xs) s))"
    by (rule walk_chain_path [where I = I and nx = nx]) (use assms in \<open>auto simp: ring_def\<close>)
  then show ?thesis by (simp add: walk_all_def)
qed

end
