(* ===== verification/HashModel.thy ===== *)
theory HashModel
  imports Prelude
begin

unbundle bit_operations_syntax

text \<open>
  \<open>core/hash.h\<close> and \<open>core/hash.cpp\<close>: the 64-bit mixers of namespace \<open>Hash\<close> on
  machine words and the 128-bit hash \<open>Hash128\<close> with its bitwise operators and its order
  (high word first), which makes it an instance of \<open>linorder\<close>. The lemmas show that the
  mixers lose no information and that exclusive or on hashes is a commutative group of
  exponent two, which is what makes incremental (Zobrist) hashing work.
\<close>

type_synonym u32 = "32 word"
type_synonym u64 = "64 word"

section \<open>Namespace Hash\<close>

definition highBits :: "u64 \<Rightarrow> u32" where
  "highBits x = ucast (drop_bit 32 x AND 0xFFFFFFFF)"

definition lowBits :: "u64 \<Rightarrow> u32" where
  "lowBits x = ucast (x AND 0xFFFFFFFF)"

definition combine :: "u32 \<Rightarrow> u32 \<Rightarrow> u64" where
  "combine hi lo = push_bit 32 (ucast hi) OR ucast lo"

definition basicLCong :: "u64 \<Rightarrow> u64" where
  "basicLCong x = 2862933555777941757 * x + 3037000493"

definition basicLCong2 :: "u64 \<Rightarrow> u64" where
  "basicLCong2 x = 6364136223846793005 * x + 1442695040888963407"

text \<open>The step \<open>x ^= x >> k\<close> that most mixers are made of.\<close>

definition xorshr :: "nat \<Rightarrow> u64 \<Rightarrow> u64" where
  "xorshr k x = x XOR drop_bit k x"

definition murmurMix :: "u64 \<Rightarrow> u64" where
  "murmurMix x =
     (let x = xorshr 33 x;
          x = x * 0xff51afd7ed558ccd;
          x = xorshr 33 x;
          x = x * 0xc4ceb9fe1a85ec53;
          x = xorshr 33 x
      in x)"

definition splitMix64 :: "u64 \<Rightarrow> u64" where
  "splitMix64 x =
     (let x = x + 0x9e3779b97f4a7c15;
          x = xorshr 30 x * 0xbf58476d1ce4e5b9;
          x = xorshr 27 x * 0x94d049bb133111eb
      in xorshr 31 x)"

definition rotateRight :: "u64 \<Rightarrow> nat \<Rightarrow> u64" where
  "rotateRight x r = drop_bit r x OR push_bit (64 - r) x"

definition rrmxmx :: "u64 \<Rightarrow> u64" where
  "rrmxmx x =
     (let x = x XOR (rotateRight x 49 XOR rotateRight x 24);
          x = x * 0x9fb21c651e98df25;
          x = xorshr 28 x;
          x = x * 0x9fb21c651e98df25
      in xorshr 28 x)"

definition nasam :: "u64 \<Rightarrow> u64" where
  "nasam x =
     (let x = x XOR (rotateRight x 25 XOR rotateRight x 47);
          x = x * 0x9e6c63d0676a9a99;
          x = x XOR (drop_bit 23 x XOR drop_bit 51 x);
          x = x * 0x9e6d62d06f6a9a9b;
          x = x XOR (drop_bit 23 x XOR drop_bit 51 x)
      in x)"

definition jenkinsMix :: "u32 \<Rightarrow> u32 \<Rightarrow> u32 \<Rightarrow> u32 \<times> u32 \<times> u32" where
  "jenkinsMix a b c =
     (let a = a - b; a = a - c; a = a XOR drop_bit 13 c;
          b = b - c; b = b - a; b = b XOR push_bit 8 a;
          c = c - a; c = c - b; c = c XOR drop_bit 13 b;
          a = a - b; a = a - c; a = a XOR drop_bit 12 c;
          b = b - c; b = b - a; b = b XOR push_bit 16 a;
          c = c - a; c = c - b; c = c XOR drop_bit 5 b;
          a = a - b; a = a - c; a = a XOR drop_bit 3 c;
          b = b - c; b = b - a; b = b XOR push_bit 10 a;
          c = c - a; c = c - b; c = c XOR drop_bit 15 b
      in (a, b, c))"

definition jenkinsMixSingle :: "u32 \<Rightarrow> u32 \<Rightarrow> u32 \<Rightarrow> u32" where
  "jenkinsMixSingle a b c =
     (let a = a - b; a = a - c; a = a XOR drop_bit 13 c;
          b = b - c; b = b - a; b = b XOR push_bit 8 a;
          c = c - a; c = c - b; c = c XOR drop_bit 13 b;
          a = a - b; a = a - c; a = a XOR drop_bit 12 c;
          b = b - c; b = b - a; b = b XOR push_bit 16 a;
          c = c - a; c = c - b; c = c XOR drop_bit 5 b;
          a = a - b; a = a - c; a = a XOR drop_bit 3 c;
          b = b - c; b = b - a; b = b XOR push_bit 10 a;
          c = c - a; c = c - b; c = c XOR drop_bit 15 b
      in c)"

lemma snd_Let: "snd (Let e f) = Let e (\<lambda>x. snd (f x))"
  by (simp add: Let_def)

lemma jenkinsMixSingle_third: "jenkinsMixSingle a b c = snd (snd (jenkinsMix a b c))"
  by (simp only: jenkinsMixSingle_def jenkinsMix_def snd_Let snd_conv)

text \<open>\<open>simpleHash(const int*, int)\<close>: three 64-bit and one 32-bit accumulator over the input.\<close>

fun simpleHash_loop ::
  "int list \<Rightarrow> u64 \<Rightarrow> u64 \<Rightarrow> u64 \<Rightarrow> u32 \<Rightarrow> u64 \<times> u64 \<times> u64 \<times> u32" where
  "simpleHash_loop [] m1 m2 m3 m4 = (m1, m2, m3, m4)"
| "simpleHash_loop (c # cs) m1 m2 m3 m4 =
     (let m4 = m4 + word_of_int c;
          m4 = m4 + push_bit 10 m4;
          m4 = m4 XOR drop_bit 6 m4
      in simpleHash_loop cs (m1 * 31 + word_of_int c) (m2 * 317 + word_of_int c)
           (m3 * 1609 + word_of_int c) m4)"

definition simpleHash :: "int list \<Rightarrow> u64" where
  "simpleHash input =
     (let (m1, m2, m3, m4) = simpleHash_loop input 123456789 314159265 958473711 0xCAFEBABE;
          m4 = m4 + push_bit 3 m4;
          m4 = m4 XOR drop_bit 11 m4;
          m4 = m4 + push_bit 15 m4;
          lo = jenkinsMixSingle (lowBits m1) (highBits m2) (lowBits m3);
          hi = jenkinsMixSingle (highBits m1) (lowBits m2) (highBits m3)
      in combine (hi XOR m4) (lo + m4))"

section \<open>Hash128\<close>

datatype hash128 = Hash128 (hash0: u64) (hash1: u64)

definition hash128_zero :: hash128 where
  "hash128_zero = Hash128 0 0"

definition hxor :: "hash128 \<Rightarrow> hash128 \<Rightarrow> hash128" where
  "hxor a b = Hash128 (hash0 a XOR hash0 b) (hash1 a XOR hash1 b)"

definition hor :: "hash128 \<Rightarrow> hash128 \<Rightarrow> hash128" where
  "hor a b = Hash128 (hash0 a OR hash0 b) (hash1 a OR hash1 b)"

definition hand :: "hash128 \<Rightarrow> hash128 \<Rightarrow> hash128" where
  "hand a b = Hash128 (hash0 a AND hash0 b) (hash1 a AND hash1 b)"

text \<open>\<open>operator<\<close> and \<open>operator<=\<close>: the second word first.\<close>

definition hash128_lt :: "hash128 \<Rightarrow> hash128 \<Rightarrow> bool" where
  "hash128_lt a b =
     (if hash1 a < hash1 b then True
      else if hash1 a > hash1 b then False
      else hash0 a < hash0 b)"

definition hash128_le :: "hash128 \<Rightarrow> hash128 \<Rightarrow> bool" where
  "hash128_le a b =
     (if hash1 a < hash1 b then True
      else if hash1 a > hash1 b then False
      else hash0 a \<le> hash0 b)"

instantiation hash128 :: linorder
begin

definition less_hash128 :: "hash128 \<Rightarrow> hash128 \<Rightarrow> bool" where
  "less_hash128 = hash128_lt"

definition less_eq_hash128 :: "hash128 \<Rightarrow> hash128 \<Rightarrow> bool" where
  "less_eq_hash128 = hash128_le"

instance
proof
  fix a b c :: hash128
  have le: "a \<le> b \<longleftrightarrow> hash1 a < hash1 b \<or> (hash1 a = hash1 b \<and> hash0 a \<le> hash0 b)" for a b :: hash128
    by (auto simp: less_eq_hash128_def hash128_le_def)
  have lt: "a < b \<longleftrightarrow> hash1 a < hash1 b \<or> (hash1 a = hash1 b \<and> hash0 a < hash0 b)" for a b :: hash128
    by (auto simp: less_hash128_def hash128_lt_def)
  show "a < b \<longleftrightarrow> a \<le> b \<and> \<not> b \<le> a" unfolding le lt by auto
  show "a \<le> a" unfolding le by simp
  show "a \<le> b \<Longrightarrow> b \<le> c \<Longrightarrow> a \<le> c" unfolding le by auto
  show "a \<le> b \<Longrightarrow> b \<le> a \<Longrightarrow> a = b" unfolding le by (auto intro: hash128.expand)
  show "a \<le> b \<or> b \<le> a" unfolding le by auto
qed

end

section \<open>The mixers lose no information\<close>

lemma xorshr_inverse_half:
  assumes "32 \<le> k"
  shows "xorshr k (xorshr k x) = x"
proof -
  have "drop_bit (k + k) x = 0"
    using assms by (intro bit_eqI) (auto simp: bit_simps dest: bit_imp_le_length)
  then show ?thesis
    by (simp add: xorshr_def drop_bit_drop_bit ac_simps)
qed

lemma xorshr_inverse_third:
  assumes "22 \<le> k"
  shows "(xorshr k x) XOR drop_bit k (xorshr k x) XOR drop_bit (k + k) (xorshr k x) = x"
proof -
  have "drop_bit (k + (k + k)) x = 0"
    using assms by (intro bit_eqI) (auto simp: bit_simps dest: bit_imp_le_length)
  then show ?thesis
    by (simp add: xorshr_def drop_bit_drop_bit ac_simps)
qed

lemma inj_xorshr: "22 \<le> k \<Longrightarrow> inj (xorshr k)"
  by (rule inj_on_inverseI
      [where g = "\<lambda>y. y XOR drop_bit k y XOR drop_bit (k + k) y"]) (rule xorshr_inverse_third)

lemma inj_mult_unit: "c * d = (1 :: u64) \<Longrightarrow> inj (\<lambda>x. x * c)"
  by (rule inj_on_inverseI [where g = "\<lambda>y. y * d"]) (simp add: mult.assoc)

text \<open>\<open>MurmurHash3 finalization ... Reversible, but maps 0 -> 0\<close>, as the comment says.\<close>

lemma murmurMix_zero [simp]: "murmurMix 0 = 0"
  by (simp add: murmurMix_def xorshr_def)

lemma inj_add_const: "inj (\<lambda>x :: u64. x + c)"
  by (simp add: inj_def)

lemma murmurMix_inj: "inj murmurMix"
proof -
  have eq: "murmurMix = xorshr 33 \<circ> (\<lambda>x. x * 0xc4ceb9fe1a85ec53) \<circ> xorshr 33
      \<circ> (\<lambda>x. x * 0xff51afd7ed558ccd) \<circ> xorshr 33"
    by (rule ext) (simp add: murmurMix_def Let_def)
  have m: "inj (\<lambda>x :: u64. x * 0xff51afd7ed558ccd)" "inj (\<lambda>x :: u64. x * 0xc4ceb9fe1a85ec53)"
    by (rule inj_mult_unit [where d = "0x4f74430c22a54005"], simp)
      (rule inj_mult_unit [where d = "0x9cb4b2f8129337db"], simp)
  show ?thesis
    unfolding eq by (intro inj_compose m inj_xorshr) simp_all
qed

lemma splitMix64_inj: "inj splitMix64"
proof -
  have eq: "splitMix64 = xorshr 31 \<circ> (\<lambda>x. x * 0x94d049bb133111eb) \<circ> xorshr 27
      \<circ> (\<lambda>x. x * 0xbf58476d1ce4e5b9) \<circ> xorshr 30 \<circ> (\<lambda>x. x + 0x9e3779b97f4a7c15)"
    by (rule ext) (simp add: splitMix64_def Let_def)
  have m: "inj (\<lambda>x :: u64. x * 0xbf58476d1ce4e5b9)" "inj (\<lambda>x :: u64. x * 0x94d049bb133111eb)"
    by (rule inj_mult_unit [where d = "0x96de1b173f119089"], simp)
      (rule inj_mult_unit [where d = "0x319642b2d24d8ec3"], simp)
  show ?thesis
    unfolding eq by (intro inj_compose m inj_xorshr inj_add_const) simp_all
qed

lemma basicLCong_inj: "inj basicLCong"
proof -
  have eq: "basicLCong = (\<lambda>x. x + 3037000493) \<circ> (\<lambda>x. x * 2862933555777941757)"
    by (rule ext) (simp add: basicLCong_def mult.commute)
  have m: "inj (\<lambda>x :: u64. x * 2862933555777941757)"
    by (rule inj_mult_unit [where d = "0xdfe66807999cec55"]) simp
  show ?thesis
    unfolding eq by (intro inj_compose m inj_add_const)
qed

lemma combine_high_low: "combine (highBits x) (lowBits x) = x"
proof -
  have eq: "(0xFFFFFFFF :: u64) = mask 32" by (simp add: mask_eq_exp_minus_1)
  show ?thesis
    unfolding combine_def highBits_def lowBits_def eq
    by (intro bit_eqI) (auto simp: bit_simps simp del: mask_numeral)
qed

section \<open>Exclusive or on hashes\<close>

lemma hxor_assoc: "hxor (hxor a b) c = hxor a (hxor b c)"
  by (simp add: hxor_def xor.assoc)

lemma hxor_commute: "hxor a b = hxor b a"
  by (simp add: hxor_def xor.commute)

lemma hxor_left_commute: "hxor a (hxor b c) = hxor b (hxor a c)"
  by (simp add: hxor_def xor.left_commute)

lemma hxor_self [simp]: "hxor a a = hash128_zero"
  by (simp add: hxor_def hash128_zero_def)

lemma hxor_zero [simp]: "hxor a hash128_zero = a" "hxor hash128_zero a = a"
  by (simp_all add: hxor_def hash128_zero_def)

lemma hxor_cancel [simp]: "hxor a (hxor a b) = b"
  by (simp flip: hxor_assoc)

lemmas hxor_ac = hxor_assoc hxor_commute hxor_left_commute

text \<open>The exclusive or of a list of hashes, as the incremental hash updates accumulate it.\<close>

definition hxor_list :: "hash128 list \<Rightarrow> hash128" where
  "hxor_list hs = foldr hxor hs hash128_zero"

lemma hxor_list_simps [simp]:
  "hxor_list [] = hash128_zero" "hxor_list (h # hs) = hxor h (hxor_list hs)"
  by (simp_all add: hxor_list_def)

lemma hxor_list_append [simp]: "hxor_list (xs @ ys) = hxor (hxor_list xs) (hxor_list ys)"
  by (induction xs) (simp_all add: hxor_assoc)

lemma hxor_list_map_hxor:
  "hxor_list (map (\<lambda>x. hxor (f x) (g x)) xs) = hxor (hxor_list (map f xs)) (hxor_list (map g xs))"
  by (induction xs) (simp_all add: hxor_ac)

text \<open>Changing one summand changes the sum by the old and the new value.\<close>

lemma hxor_list_update:
  assumes "distinct xs" and "l \<in> set xs"
  shows "hxor_list (map (\<lambda>x. if x = l then v else f x) xs) = hxor (hxor_list (map f xs)) (hxor (f l) v)"
  using assms
proof (induction xs)
  case Nil
  then show ?case by simp
next
  case (Cons x xs)
  show ?case
  proof (cases "x = l")
    case True
    with Cons.prems have eq: "map (\<lambda>x. if x = l then v else f x) xs = map f xs" by auto
    from True show ?thesis by (simp only: list.map eq) (simp add: hxor_ac)
  next
    case False
    with Cons show ?thesis by (simp add: hxor_ac)
  qed
qed

end
