(* ===== verification/Board.thy ===== *)
theory Board
  imports HashModel
begin

text \<open>
  \<open>game/board.h\<close> and the observers of \<open>game/board.cpp\<close>: colours, locations, the Zobrist
  tables, the board state, its initialisation, and the queries that do not change the board.

  A point \<open>(x,y)\<close> is the index \<open>(x+1) + (y+1)*(x_size+1)\<close> of arrays of fixed size; the four
  neighbours of a point are at fixed offsets, and a border of \<open>C_WALL\<close> surrounds the board.
  Arrays are total functions on indices; what lies outside the initialised part is whatever the
  state held before, exactly as the code leaves it.
\<close>

section \<open>Colours, players, locations\<close>

datatype color = C_EMPTY | C_BLACK | C_WHITE | C_WALL

type_synonym player = color

abbreviation P_BLACK :: player where "P_BLACK \<equiv> C_BLACK"
abbreviation P_WHITE :: player where "P_WHITE \<equiv> C_WHITE"

text \<open>\<open>c ^ 3\<close> on the colour numbers 0, 1, 2, 3.\<close>

fun getOpp :: "color \<Rightarrow> color" where
  "getOpp C_EMPTY = C_WALL"
| "getOpp C_BLACK = C_WHITE"
| "getOpp C_WHITE = C_BLACK"
| "getOpp C_WALL = C_EMPTY"

definition is_stone :: "color \<Rightarrow> bool" where
  "is_stone c \<longleftrightarrow> c = C_BLACK \<or> c = C_WHITE"

type_synonym loc = int

text \<open>The cast \<open>(Loc)\<close> to \<open>short\<close>.\<close>

definition to_loc :: "int \<Rightarrow> loc" where
  "to_loc i = signed_take_bit 15 i"

definition getLoc :: "int \<Rightarrow> int \<Rightarrow> int \<Rightarrow> loc" where
  "getLoc x y x_size = to_loc ((x + 1) + (y + 1) * (x_size + 1))"

definition getX :: "loc \<Rightarrow> int \<Rightarrow> int" where
  "getX loc x_size = loc smod (x_size + 1) - 1"

definition getY :: "loc \<Rightarrow> int \<Rightarrow> int" where
  "getY loc x_size = loc sdiv (x_size + 1) - 1"

definition getAdjacentOffsets :: "int \<Rightarrow> int list" where
  "getAdjacentOffsets x_size =
     [-(x_size + 1), -1, 1, x_size + 1,
      -(x_size + 1) - 1, -(x_size + 1) + 1, (x_size + 1) - 1, (x_size + 1) + 1]"

definition isAdjacent :: "loc \<Rightarrow> loc \<Rightarrow> int \<Rightarrow> bool" where
  "isAdjacent loc0 loc1 x_size \<longleftrightarrow>
     loc0 = loc1 - (x_size + 1) \<or> loc0 = loc1 - 1 \<or> loc0 = loc1 + 1 \<or> loc0 = loc1 + (x_size + 1)"

definition MAX_LEN :: int where "MAX_LEN = 19"
definition DEFAULT_LEN :: int where "DEFAULT_LEN = min MAX_LEN 19"
definition MAX_PLAY_SIZE :: int where "MAX_PLAY_SIZE = MAX_LEN * MAX_LEN"
definition MAX_ARR_SIZE :: int where "MAX_ARR_SIZE = (MAX_LEN + 1) * (MAX_LEN + 2) + 1"
definition NULL_LOC :: loc where "NULL_LOC = 0"
definition PASS_LOC :: loc where "PASS_LOC = 1"

definition getMirrorLoc :: "loc \<Rightarrow> int \<Rightarrow> int \<Rightarrow> loc" where
  "getMirrorLoc loc x_size y_size =
     (if loc = NULL_LOC \<or> loc = PASS_LOC then loc
      else getLoc (x_size - 1 - getX loc x_size) (y_size - 1 - getY loc x_size) x_size)"

definition getCenterLoc :: "int \<Rightarrow> int \<Rightarrow> loc" where
  "getCenterLoc x_size y_size =
     (if x_size smod 2 = 0 \<or> y_size smod 2 = 0 then NULL_LOC
      else getLoc (x_size sdiv 2) (y_size sdiv 2) x_size)"

definition isCentral :: "loc \<Rightarrow> int \<Rightarrow> int \<Rightarrow> bool" where
  "isCentral loc x_size y_size =
     (let x = getX loc x_size; y = getY loc x_size
      in x \<ge> (x_size - 1) sdiv 2 \<and> x \<le> x_size sdiv 2 \<and>
         y \<ge> (y_size - 1) sdiv 2 \<and> y \<le> y_size sdiv 2)"

definition isNearCentral :: "loc \<Rightarrow> int \<Rightarrow> int \<Rightarrow> bool" where
  "isNearCentral loc x_size y_size =
     (let x = getX loc x_size; y = getY loc x_size
      in x \<ge> (x_size - 1) sdiv 2 - 1 \<and> x \<le> x_size sdiv 2 + 1 \<and>
         y \<ge> (y_size - 1) sdiv 2 - 1 \<and> y \<le> y_size sdiv 2 + 1)"

definition distance :: "loc \<Rightarrow> loc \<Rightarrow> int \<Rightarrow> int" where
  "distance loc0 loc1 x_size =
     (let dx = getX loc1 x_size - getX loc0 x_size;
          dy = (loc1 - loc0 - dx) sdiv (x_size + 1)
      in (if dx \<ge> 0 then dx else - dx) + (if dy \<ge> 0 then dy else - dy))"

definition euclideanDistanceSquared :: "loc \<Rightarrow> loc \<Rightarrow> int \<Rightarrow> int" where
  "euclideanDistanceSquared loc0 loc1 x_size =
     (let dx = getX loc1 x_size - getX loc0 x_size;
          dy = (loc1 - loc0 - dx) sdiv (x_size + 1)
      in dx * dx + dy * dy)"

section \<open>The Zobrist tables\<close>

text \<open>The static tables of struct \<open>Board\<close>, filled once by \<open>Board::initHash\<close>.\<close>

record zobrist =
  ZOBRIST_SIZE_X_HASH :: "int \<Rightarrow> hash128"
  ZOBRIST_SIZE_Y_HASH :: "int \<Rightarrow> hash128"
  ZOBRIST_BOARD_HASH :: "loc \<Rightarrow> color \<Rightarrow> hash128"
  ZOBRIST_BOARD_HASH2 :: "loc \<Rightarrow> color \<Rightarrow> hash128"
  ZOBRIST_PLAYER_HASH :: "color \<Rightarrow> hash128"
  ZOBRIST_KO_LOC_HASH :: "loc \<Rightarrow> hash128"
  ZOBRIST_KO_MARK_HASH :: "loc \<Rightarrow> color \<Rightarrow> hash128"
  ZOBRIST_ENCORE_HASH :: "int \<Rightarrow> hash128"
  ZOBRIST_SECOND_ENCORE_START_HASH :: "loc \<Rightarrow> color \<Rightarrow> hash128"

definition ZOBRIST_PASS_ENDS_PHASE :: hash128 where
  "ZOBRIST_PASS_ENDS_PHASE = Hash128 0x853E097C279EBF4E 0xE3153DEF9E14A62C"

definition ZOBRIST_GAME_IS_OVER :: hash128 where
  "ZOBRIST_GAME_IS_OVER = Hash128 0xb6f9e465597a77ee 0xf1d583d960a4ce7f"

text \<open>The loop \<open>for(Color j = 0; j<4; j++)\<close>.\<close>

definition all_colors :: "color list" where
  "all_colors = [C_EMPTY, C_BLACK, C_WHITE, C_WALL]"

text \<open>
  \<open>Board::initHash\<close>, for any generator: \<open>rand_init\<close> seeds it with a string and \<open>next\<close> is
  \<open>nextUInt64\<close>. The tables are those of \<open>Z\<close> where the loops do not write.
\<close>

definition nextHash :: "('r \<Rightarrow> u64 \<times> 'r) \<Rightarrow> 'r \<Rightarrow> hash128 \<times> 'r" where
  "nextHash next r = (let (h0, r) = next r; (h1, r) = next r in (Hash128 h0 h1, r))"

definition init_player :: "('r \<Rightarrow> u64 \<times> 'r) \<Rightarrow> color \<Rightarrow> zobrist \<times> 'r \<Rightarrow> zobrist \<times> 'r" where
  "init_player next i = (\<lambda>(Z, r). let (h, r) = nextHash next r
     in (Z\<lparr>ZOBRIST_PLAYER_HASH := (ZOBRIST_PLAYER_HASH Z)(i := h)\<rparr>, r))"

definition init_encore :: "('r \<Rightarrow> u64 \<times> 'r) \<Rightarrow> int \<Rightarrow> zobrist \<times> 'r \<Rightarrow> zobrist \<times> 'r" where
  "init_encore next i = (\<lambda>(Z, r). let (h, r) = nextHash next r
     in (Z\<lparr>ZOBRIST_ENCORE_HASH := (ZOBRIST_ENCORE_HASH Z)(i := h)\<rparr>, r))"

definition init_board_color :: "('r \<Rightarrow> u64 \<times> 'r) \<Rightarrow> loc \<Rightarrow> color \<Rightarrow> zobrist \<times> 'r \<Rightarrow> zobrist \<times> 'r" where
  "init_board_color next i j = (\<lambda>(Z, r).
     let (h, r) = (if j = C_EMPTY \<or> j = C_WALL then (Hash128 0 0, r) else nextHash next r);
         Z = Z\<lparr>ZOBRIST_BOARD_HASH := (ZOBRIST_BOARD_HASH Z)(i := (ZOBRIST_BOARD_HASH Z i)(j := h))\<rparr>;
         (h, r) = (if j = C_EMPTY \<or> j = C_WALL then (Hash128 0 0, r) else nextHash next r)
     in (Z\<lparr>ZOBRIST_KO_MARK_HASH := (ZOBRIST_KO_MARK_HASH Z)(i := (ZOBRIST_KO_MARK_HASH Z i)(j := h))\<rparr>, r))"

definition init_board_loc :: "('r \<Rightarrow> u64 \<times> 'r) \<Rightarrow> loc \<Rightarrow> zobrist \<times> 'r \<Rightarrow> zobrist \<times> 'r" where
  "init_board_loc next i s =
     (let (Z, r) = fold (init_board_color next i) all_colors s;
          (h, r) = nextHash next r
      in (Z\<lparr>ZOBRIST_KO_LOC_HASH := (ZOBRIST_KO_LOC_HASH Z)(i := h)\<rparr>, r))"

definition init_second :: "('r \<Rightarrow> u64 \<times> 'r) \<Rightarrow> loc \<Rightarrow> color \<Rightarrow> zobrist \<times> 'r \<Rightarrow> zobrist \<times> 'r" where
  "init_second next i j = (\<lambda>(Z, r).
     let (h, r) = (if j = C_EMPTY \<or> j = C_WALL then (Hash128 0 0, r) else nextHash next r)
     in (Z\<lparr>ZOBRIST_SECOND_ENCORE_START_HASH :=
            (ZOBRIST_SECOND_ENCORE_START_HASH Z)(i := (ZOBRIST_SECOND_ENCORE_START_HASH Z i)(j := h))\<rparr>, r))"

definition init_size :: "('r \<Rightarrow> u64 \<times> 'r) \<Rightarrow> int \<Rightarrow> zobrist \<times> 'r \<Rightarrow> zobrist \<times> 'r" where
  "init_size next i = (\<lambda>(Z, r).
     let (h, r) = nextHash next r; Z = Z\<lparr>ZOBRIST_SIZE_X_HASH := (ZOBRIST_SIZE_X_HASH Z)(i := h)\<rparr>;
         (h, r) = nextHash next r
     in (Z\<lparr>ZOBRIST_SIZE_Y_HASH := (ZOBRIST_SIZE_Y_HASH Z)(i := h)\<rparr>, r))"

definition init_hash2 :: "('r \<Rightarrow> u64 \<times> 'r) \<Rightarrow> loc \<Rightarrow> color \<Rightarrow> zobrist \<times> 'r \<Rightarrow> zobrist \<times> 'r" where
  "init_hash2 next i j = (\<lambda>(Z, r).
     let (h, r) = nextHash next r; h = Hash128 (murmurMix (hash0 h)) (splitMix64 (hash1 h))
     in (Z\<lparr>ZOBRIST_BOARD_HASH2 := (ZOBRIST_BOARD_HASH2 Z)(i := (ZOBRIST_BOARD_HASH2 Z i)(j := h))\<rparr>, r))"

definition initHash :: "(string \<Rightarrow> 'r) \<Rightarrow> ('r \<Rightarrow> u64 \<times> 'r) \<Rightarrow> zobrist \<Rightarrow> zobrist" where
  "initHash rand_init next Z =
     (let locs = [0..MAX_ARR_SIZE - 1];
          s = fold (init_player next) all_colors (Z, rand_init ''Board::initHash()'');
          s = fold (init_encore next) [0, 1, 2] s;
          (Z, _) = fold (init_board_loc next) locs s;
          (Z, _) = fold (\<lambda>i. fold (init_second next i) all_colors) locs
                     (Z, rand_init ''Board::initHash() for ZOBRIST_SECOND_ENCORE_START hashes'');
          (Z, _) = fold (init_size next) [0..MAX_LEN]
                     (Z, rand_init ''Board::initHash() for ZOBRIST_SIZE hashes'');
          (Z, _) = fold (\<lambda>i. fold (init_hash2 next i) all_colors) locs
                     (Z, rand_init ''Board::initHash() for second set of ZOBRIST hashes'')
      in Z)"

section \<open>The board\<close>

record ChainData =
  owner :: player
  num_locs :: int
  num_liberties :: int

record board =
  x_size :: int
  y_size :: int
  colors :: "loc \<Rightarrow> color"
  chain_data :: "loc \<Rightarrow> ChainData"
  chain_head :: "loc \<Rightarrow> loc"
  next_in_chain :: "loc \<Rightarrow> loc"
  ko_loc :: loc
  pos_hash :: hash128
  numBlackCaptures :: int
  numWhiteCaptures :: int
  adj_offsets :: "int list"

text \<open>\<open>FOREACHADJ\<close>: the four neighbours, in the order up, left, right, down of the macro.\<close>

definition adjs :: "int \<Rightarrow> loc \<Rightarrow> loc list" where
  "adjs xs loc = [loc + - (xs + 1), loc + - 1, loc + 1, loc + (xs + 1)]"

text \<open>\<open>for(int i = 0; i < 4; i++) adj = loc + adj_offsets[i]\<close>: the same four points from the table.\<close>

definition adj4 :: "board \<Rightarrow> loc \<Rightarrow> loc list" where
  "adj4 b loc = map (\<lambda>i. loc + adj_offsets b ! i) [0, 1, 2, 3]"

text \<open>\<open>for(int y = 0; y < y_size; y++) for(int x = 0; x < x_size; x++) loc = getLoc(x,y,x_size)\<close>\<close>

definition board_locs :: "board \<Rightarrow> loc list" where
  "board_locs b = [getLoc x y (x_size b). y \<leftarrow> [0..y_size b - 1], x \<leftarrow> [0..x_size b - 1]]"

text \<open>
  \<open>Board::init\<close> on the object \<open>b\<close>: the arrays \<open>chain_data\<close>, \<open>chain_head\<close> and
  \<open>next_in_chain\<close> keep what they held.
\<close>

definition Board_init :: "zobrist \<Rightarrow> board \<Rightarrow> int \<Rightarrow> int \<Rightarrow> error + board" where
  "Board_init Z b xS yS =
     (if xS < 0 \<or> yS < 0 \<or> xS > MAX_LEN \<or> yS > MAX_LEN
      then Inl (StringError ''Board::init - invalid board size'')
      else
        let b = b\<lparr>x_size := xS, y_size := yS\<rparr>;
            b = b\<lparr>colors := (\<lambda>_. C_WALL)\<rparr>;
            locs = [(x + 1) + (y + 1) * (x_size b + 1). y \<leftarrow> [0..y_size b - 1], x \<leftarrow> [0..x_size b - 1]];
            b = fold (\<lambda>loc b. b\<lparr>colors := (colors b)(loc := C_EMPTY)\<rparr>) locs b
        in Inr (b\<lparr>ko_loc := NULL_LOC,
                  pos_hash := hxor (ZOBRIST_SIZE_X_HASH Z (x_size b)) (ZOBRIST_SIZE_Y_HASH Z (y_size b)),
                  numBlackCaptures := 0, numWhiteCaptures := 0,
                  adj_offsets := getAdjacentOffsets (x_size b)\<rparr>))"

definition getSitHashWithSimpleKo :: "zobrist \<Rightarrow> board \<Rightarrow> player \<Rightarrow> hash128" where
  "getSitHashWithSimpleKo Z b pla =
     (let h = pos_hash b;
          h = (if ko_loc b \<noteq> NULL_LOC then hxor h (ZOBRIST_KO_LOC_HASH Z (ko_loc b)) else h)
      in hxor h (ZOBRIST_PLAYER_HASH Z pla))"

definition clearSimpleKoLoc :: "board \<Rightarrow> board" where
  "clearSimpleKoLoc b = b\<lparr>ko_loc := NULL_LOC\<rparr>"

definition setSimpleKoLoc :: "board \<Rightarrow> loc \<Rightarrow> board" where
  "setSimpleKoLoc b loc = b\<lparr>ko_loc := loc\<rparr>"

section \<open>Queries\<close>

definition getChainSize :: "board \<Rightarrow> loc \<Rightarrow> int" where
  "getChainSize b loc = num_locs (chain_data b (chain_head b loc))"

definition getNumLiberties :: "board \<Rightarrow> loc \<Rightarrow> int" where
  "getNumLiberties b loc = num_liberties (chain_data b (chain_head b loc))"

definition isSuicide :: "board \<Rightarrow> loc \<Rightarrow> player \<Rightarrow> bool" where
  "isSuicide b loc pla =
     (if loc = PASS_LOC then False
      else
        let opp = getOpp pla
        in list_all (\<lambda>adj.
             if colors b adj = C_EMPTY then False
             else if colors b adj = pla then \<not> getNumLiberties b adj > 1
             else if colors b adj = opp then \<not> getNumLiberties b adj = 1
             else True) (adjs (x_size b) loc))"

definition isIllegalSuicide :: "board \<Rightarrow> loc \<Rightarrow> player \<Rightarrow> bool \<Rightarrow> bool" where
  "isIllegalSuicide b loc pla isMultiStoneSuicideLegal =
     (let opp = getOpp pla
      in list_all (\<lambda>adj.
           if colors b adj = C_EMPTY then False
           else if colors b adj = pla then \<not> (isMultiStoneSuicideLegal \<or> getNumLiberties b adj > 1)
           else if colors b adj = opp then \<not> getNumLiberties b adj = 1
           else True) (adjs (x_size b) loc))"

text \<open>
  \<open>getBoundNumLibertiesAfterPlay\<close>: the accumulators are \<open>numImmediateLibs\<close>, \<open>numCaps\<close>,
  \<open>potentialLibsFromCaps\<close>, \<open>numConnectionLibs\<close>, \<open>maxConnectionLibs\<close>; the result is the pair
  of the two reference parameters \<open>lowerBound\<close> and \<open>upperBound\<close>.
\<close>

definition getBoundNumLibertiesAfterPlay :: "board \<Rightarrow> loc \<Rightarrow> player \<Rightarrow> int \<times> int" where
  "getBoundNumLibertiesAfterPlay b loc pla =
     (let opp = getOpp pla;
          (imm, caps, potl, conn, maxc) =
            fold (\<lambda>adj (imm, caps, potl, conn, maxc).
              if colors b adj = C_EMPTY then (imm + 1, caps, potl, conn, maxc)
              else if colors b adj = opp then
                (let libs = num_liberties (chain_data b (chain_head b adj))
                 in if libs = 1
                    then (imm, caps + 1, potl + num_locs (chain_data b (chain_head b adj)), conn, maxc)
                    else (imm, caps, potl, conn, maxc))
              else if colors b adj = pla then
                (let libs = num_liberties (chain_data b (chain_head b adj));
                     connLibs = libs - 1
                 in (imm, caps, potl, conn + connLibs, if connLibs > maxc then connLibs else maxc))
              else (imm, caps, potl, conn, maxc))
            (adj4 b loc) (0, 0, 0, 0, 0)
      in (caps + (if maxc > imm then maxc else imm), imm + potl + conn))"

text \<open>
  \<open>getNumLibertiesAfterPlay\<close>: \<open>libs\<close> is the array of liberties found, whose length is
  \<open>numLibs\<close>; reaching \<open>max\<close> returns at once.
\<close>

definition push_lib :: "int \<Rightarrow> loc \<Rightarrow> loc list \<Rightarrow> int + loc list" where
  "push_lib mx l libs =
     (let libs' = libs @ [l] in if int (length libs') \<ge> mx then Inl mx else Inr libs')"

definition wouldBeEmpty :: "board \<Rightarrow> player \<Rightarrow> loc list \<Rightarrow> loc \<Rightarrow> bool" where
  "wouldBeEmpty b opp capturedGroupHeads lc =
     (if colors b lc = C_EMPTY then True
      else if colors b lc = opp then chain_head b lc \<in> set capturedGroupHeads
      else False)"

definition getNumLibertiesAfterPlay :: "board \<Rightarrow> loc \<Rightarrow> player \<Rightarrow> int \<Rightarrow> int option" where
  "getNumLibertiesAfterPlay b loc pla mx =
     (let opp = getOpp pla;
          phase1 = foldR (\<lambda>adj (libs, caps).
            if colors b adj = C_EMPTY then
              (case push_lib mx adj libs of Inl r \<Rightarrow> Inl r | Inr libs' \<Rightarrow> Inr (libs', caps))
            else if colors b adj = opp \<and> getNumLiberties b adj = 1 then
              (case push_lib mx adj libs of Inl r \<Rightarrow> Inl r
               | Inr libs' \<Rightarrow>
                   let head = chain_head b adj
                   in Inr (libs', if head \<in> set caps then caps else caps @ [head]))
            else Inr (libs, caps)) (adj4 b loc) ([], [])
      in case phase1 of Inl r \<Rightarrow> Some r
         | Inr (libs, caps) \<Rightarrow>
             (case foldRM (\<lambda>adj (libs, conn).
                if colors b adj = pla then
                  (let head = chain_head b adj
                   in if head \<in> set conn then Some (Inr (libs, conn))
                      else
                        Option.bind
                          (walk_chain (\<lambda>_. next_in_chain b)
                             (\<lambda>cur libs. foldR (\<lambda>possibleLib libs.
                                if possibleLib \<noteq> loc \<and> wouldBeEmpty b opp caps possibleLib
                                   \<and> possibleLib \<notin> set libs
                                then push_lib mx possibleLib libs else Inr libs)
                                (adj4 b cur) libs) adj adj libs)
                          (\<lambda>v. Some (case v of Inl r \<Rightarrow> Inl r | Inr libs' \<Rightarrow> Inr (libs', conn @ [head]))))
                else Some (Inr (libs, conn))) (adj4 b loc) (libs, []) of
                None \<Rightarrow> None
              | Some (Inl r) \<Rightarrow> Some r
              | Some (Inr (libs, conn)) \<Rightarrow> Some (int (length libs))))"

definition isKoBanned :: "board \<Rightarrow> loc \<Rightarrow> bool" where
  "isKoBanned b loc \<longleftrightarrow> loc = ko_loc b"

definition isOnBoard :: "board \<Rightarrow> loc \<Rightarrow> bool" where
  "isOnBoard b loc \<longleftrightarrow> loc \<ge> 0 \<and> loc < MAX_ARR_SIZE \<and> colors b loc \<noteq> C_WALL"

definition isLegal :: "board \<Rightarrow> loc \<Rightarrow> player \<Rightarrow> bool \<Rightarrow> bool" where
  "isLegal b loc pla isMultiStoneSuicideLegal =
     (if pla \<noteq> P_BLACK \<and> pla \<noteq> P_WHITE then False
      else loc = PASS_LOC \<or>
        (loc \<ge> 0 \<and> loc < MAX_ARR_SIZE \<and> colors b loc = C_EMPTY \<and> \<not> isKoBanned b loc \<and>
         \<not> isIllegalSuicide b loc pla isMultiStoneSuicideLegal))"

definition isLegalIgnoringKo :: "board \<Rightarrow> loc \<Rightarrow> player \<Rightarrow> bool \<Rightarrow> bool" where
  "isLegalIgnoringKo b loc pla isMultiStoneSuicideLegal =
     (if pla \<noteq> P_BLACK \<and> pla \<noteq> P_WHITE then False
      else loc = PASS_LOC \<or>
        (loc \<ge> 0 \<and> loc < MAX_ARR_SIZE \<and> colors b loc = C_EMPTY \<and>
         \<not> isIllegalSuicide b loc pla isMultiStoneSuicideLegal))"

text \<open>\<open>isSimpleEye\<close>: the first loop may return \<open>false\<close>; it yields whether the point touches a wall.\<close>

definition isSimpleEye :: "board \<Rightarrow> loc \<Rightarrow> player \<Rightarrow> bool" where
  "isSimpleEye b loc pla =
     (if colors b loc \<noteq> C_EMPTY then False
      else
        case foldR (\<lambda>adj against_wall.
               if colors b adj = C_WALL then Inr True
               else if colors b adj \<noteq> pla then Inl False
               else Inr against_wall) (adj4 b loc) False of
          Inl r \<Rightarrow> r
        | Inr against_wall \<Rightarrow>
            let opp = getOpp pla;
                corners = map (\<lambda>i. loc + adj_offsets b ! i) [4, 5, 6, 7];
                num_opp_corners = length (filter (\<lambda>c. colors b c = opp) corners)
            in \<not> (num_opp_corners \<ge> 2 \<or> (against_wall \<and> num_opp_corners \<ge> 1)))"

definition wouldBeCapture :: "board \<Rightarrow> loc \<Rightarrow> player \<Rightarrow> bool" where
  "wouldBeCapture b loc pla =
     (if colors b loc \<noteq> C_EMPTY then False
      else
        let opp = getOpp pla
        in list_ex (\<lambda>adj. colors b adj = opp \<and> getNumLiberties b adj = 1) (adjs (x_size b) loc))"

text \<open>The scan shared by \<open>wouldBeKoCapture\<close> and \<open>getKoCaptureLoc\<close>: \<open>Inl\<close> where they return early.\<close>

definition ko_scan :: "board \<Rightarrow> loc \<Rightarrow> player \<Rightarrow> unit + loc" where
  "ko_scan b loc opp =
     foldR (\<lambda>adj oppCapturableLoc.
       if colors b adj \<noteq> C_WALL \<and> colors b adj \<noteq> opp then Inl ()
       else if colors b adj = opp \<and> getNumLiberties b adj = 1 then
         (if oppCapturableLoc \<noteq> NULL_LOC then Inl () else Inr adj)
       else Inr oppCapturableLoc) (adj4 b loc) NULL_LOC"

definition wouldBeKoCapture :: "board \<Rightarrow> loc \<Rightarrow> player \<Rightarrow> bool" where
  "wouldBeKoCapture b loc pla =
     (if colors b loc \<noteq> C_EMPTY then False
      else case ko_scan b loc (getOpp pla) of
        Inl _ \<Rightarrow> False
      | Inr oppCapturableLoc \<Rightarrow>
          if oppCapturableLoc = NULL_LOC then False
          else if num_locs (chain_data b (chain_head b oppCapturableLoc)) \<noteq> 1 then False
          else True)"

definition getKoCaptureLoc :: "board \<Rightarrow> loc \<Rightarrow> player \<Rightarrow> loc" where
  "getKoCaptureLoc b loc pla =
     (if colors b loc \<noteq> C_EMPTY then NULL_LOC
      else case ko_scan b loc (getOpp pla) of
        Inl _ \<Rightarrow> NULL_LOC
      | Inr oppCapturableLoc \<Rightarrow>
          if oppCapturableLoc = NULL_LOC then NULL_LOC
          else if num_locs (chain_data b (chain_head b oppCapturableLoc)) \<noteq> 1 then NULL_LOC
          else oppCapturableLoc)"

definition isAdjacentToPla :: "board \<Rightarrow> loc \<Rightarrow> player \<Rightarrow> bool" where
  "isAdjacentToPla b loc pla = list_ex (\<lambda>adj. colors b adj = pla) (adjs (x_size b) loc)"

definition isAdjacentOrDiagonalToPla :: "board \<Rightarrow> loc \<Rightarrow> player \<Rightarrow> bool" where
  "isAdjacentOrDiagonalToPla b loc pla =
     list_ex (\<lambda>i. colors b (loc + adj_offsets b ! i) = pla) [0, 1, 2, 3, 4, 5, 6, 7]"

definition isAdjacentToChain :: "board \<Rightarrow> loc \<Rightarrow> loc \<Rightarrow> bool" where
  "isAdjacentToChain b loc chain =
     (if colors b chain = C_EMPTY then False
      else list_ex (\<lambda>adj. colors b adj = colors b chain \<and> chain_head b adj = chain_head b chain)
             (adjs (x_size b) loc))"

definition isNonPassAliveSelfConnection :: "board \<Rightarrow> loc \<Rightarrow> player \<Rightarrow> (loc \<Rightarrow> color) \<Rightarrow> bool" where
  "isNonPassAliveSelfConnection b loc pla passAliveArea =
     (if colors b loc \<noteq> C_EMPTY \<or> passAliveArea loc = pla then False
      else
        let nonPassAliveAdjHead =
              (case find (\<lambda>adj. colors b adj = pla \<and> passAliveArea adj = C_EMPTY) (adj4 b loc) of
                 None \<Rightarrow> NULL_LOC | Some adj \<Rightarrow> chain_head b adj)
        in if nonPassAliveAdjHead = NULL_LOC then False
           else list_ex (\<lambda>adj. colors b adj = pla \<and> chain_head b adj \<noteq> nonPassAliveAdjHead) (adj4 b loc))"

definition isEmpty :: "board \<Rightarrow> bool" where
  "isEmpty b = list_all (\<lambda>loc. \<not> colors b loc \<noteq> C_EMPTY) (board_locs b)"

definition numStonesOnBoard :: "board \<Rightarrow> int" where
  "numStonesOnBoard b =
     fold (\<lambda>loc num. if colors b loc = C_BLACK \<or> colors b loc = C_WHITE then num + 1 else num)
       (board_locs b) 0"

definition numPlaStonesOnBoard :: "board \<Rightarrow> player \<Rightarrow> int" where
  "numPlaStonesOnBoard b pla =
     fold (\<lambda>loc num. if colors b loc = pla then num + 1 else num) (board_locs b) 0"

definition getNumImmediateLiberties :: "board \<Rightarrow> loc \<Rightarrow> int" where
  "getNumImmediateLiberties b loc =
     fold (\<lambda>adj num_libs. if colors b adj = C_EMPTY then num_libs + 1 else num_libs)
       (adjs (x_size b) loc) 0"

definition countHeuristicConnectionLibertiesX2 :: "board \<Rightarrow> loc \<Rightarrow> player \<Rightarrow> int" where
  "countHeuristicConnectionLibertiesX2 b loc pla =
     fold (\<lambda>adj num_libsX2.
       if colors b adj = pla then
         (let libs = num_liberties (chain_data b (chain_head b adj))
          in if libs > 1 then num_libsX2 + (libs * 2 - 3) else num_libsX2)
       else num_libsX2) (adj4 b loc) 0"

definition isLibertyOf :: "board \<Rightarrow> loc \<Rightarrow> loc \<Rightarrow> bool" where
  "isLibertyOf b loc head =
     list_ex (\<lambda>adj. colors b adj = colors b head \<and> chain_head b adj = head) (adjs (x_size b) loc)"

definition isAdjacentToPlaHead :: "board \<Rightarrow> player \<Rightarrow> loc \<Rightarrow> loc \<Rightarrow> bool" where
  "isAdjacentToPlaHead b pla loc plaHead =
     list_ex (\<lambda>adj. colors b adj = pla \<and> chain_head b adj = plaHead) (adjs (x_size b) loc)"

end
