(* ===== verification/Chains.thy ===== *)
theory Chains
  imports Board
begin

unbundle bit_operations_syntax

text \<open>
  The operations of \<open>game/board.cpp\<close> that change the board: stones are kept in chains, each a
  circular list through \<open>next_in_chain\<close> whose stones point to one head, and the head's
  \<open>chain_data\<close> counts the stones and the liberties. Playing a move merges chains, eats
  liberties and removes captured chains; undoing a move refills and splits them.

  Every operation returns \<open>None\<close> where the code would not return: a walk along a broken list,
  or a failed \<open>assert\<close>.
\<close>

section \<open>Updating one chain\<close>

text \<open>\<open>chain_data[head].num_liberties += delta\<close> and \<open>chain_data[head].num_locs += delta\<close>\<close>

definition add_liberties :: "loc \<Rightarrow> int \<Rightarrow> board \<Rightarrow> board" where
  "add_liberties head delta b =
     b\<lparr>chain_data := (chain_data b)(head :=
         (chain_data b head)\<lparr>num_liberties := num_liberties (chain_data b head) + delta\<rparr>)\<rparr>"

definition add_locs :: "loc \<Rightarrow> int \<Rightarrow> board \<Rightarrow> board" where
  "add_locs head delta b =
     b\<lparr>chain_data := (chain_data b)(head :=
         (chain_data b head)\<lparr>num_locs := num_locs (chain_data b head) + delta\<rparr>)\<rparr>"

definition set_color :: "loc \<Rightarrow> color \<Rightarrow> board \<Rightarrow> board" where
  "set_color loc c b = b\<lparr>colors := (colors b)(loc := c)\<rparr>"

definition set_head :: "loc \<Rightarrow> loc \<Rightarrow> board \<Rightarrow> board" where
  "set_head loc h b = b\<lparr>chain_head := (chain_head b)(loc := h)\<rparr>"

definition set_next :: "loc \<Rightarrow> loc \<Rightarrow> board \<Rightarrow> board" where
  "set_next loc n b = b\<lparr>next_in_chain := (next_in_chain b)(loc := n)\<rparr>"

definition set_chain_data :: "loc \<Rightarrow> ChainData \<Rightarrow> board \<Rightarrow> board" where
  "set_chain_data loc d b = b\<lparr>chain_data := (chain_data b)(loc := d)\<rparr>"

text \<open>\<open>pos_hash ^= ZOBRIST_BOARD_HASH[loc][c]\<close>\<close>

definition xor_hash :: "zobrist \<Rightarrow> loc \<Rightarrow> color \<Rightarrow> board \<Rightarrow> board" where
  "xor_hash Z loc c b = b\<lparr>pos_hash := hxor (pos_hash b) (ZOBRIST_BOARD_HASH Z loc c)\<rparr>"

lemmas update_defs =
  add_liberties_def add_locs_def set_color_def set_head_def set_next_def set_chain_data_def
  xor_hash_def

section \<open>Fields an update leaves alone\<close>

lemma update_frame [simp, board_simps]:
  "x_size (add_liberties h d b) = x_size b" "y_size (add_liberties h d b) = y_size b"
  "colors (add_liberties h d b) = colors b" "chain_head (add_liberties h d b) = chain_head b"
  "next_in_chain (add_liberties h d b) = next_in_chain b" "ko_loc (add_liberties h d b) = ko_loc b"
  "pos_hash (add_liberties h d b) = pos_hash b" "numBlackCaptures (add_liberties h d b) = numBlackCaptures b"
  "numWhiteCaptures (add_liberties h d b) = numWhiteCaptures b" "adj_offsets (add_liberties h d b) = adj_offsets b"
  "x_size (add_locs h d b) = x_size b" "y_size (add_locs h d b) = y_size b"
  "colors (add_locs h d b) = colors b" "chain_head (add_locs h d b) = chain_head b"
  "next_in_chain (add_locs h d b) = next_in_chain b" "ko_loc (add_locs h d b) = ko_loc b"
  "pos_hash (add_locs h d b) = pos_hash b" "numBlackCaptures (add_locs h d b) = numBlackCaptures b"
  "numWhiteCaptures (add_locs h d b) = numWhiteCaptures b" "adj_offsets (add_locs h d b) = adj_offsets b"
  "x_size (set_color l c b) = x_size b" "y_size (set_color l c b) = y_size b"
  "chain_data (set_color l c b) = chain_data b" "chain_head (set_color l c b) = chain_head b"
  "next_in_chain (set_color l c b) = next_in_chain b" "ko_loc (set_color l c b) = ko_loc b"
  "pos_hash (set_color l c b) = pos_hash b" "numBlackCaptures (set_color l c b) = numBlackCaptures b"
  "numWhiteCaptures (set_color l c b) = numWhiteCaptures b" "adj_offsets (set_color l c b) = adj_offsets b"
  "x_size (set_head l h b) = x_size b" "y_size (set_head l h b) = y_size b"
  "colors (set_head l h b) = colors b" "chain_data (set_head l h b) = chain_data b"
  "next_in_chain (set_head l h b) = next_in_chain b" "ko_loc (set_head l h b) = ko_loc b"
  "pos_hash (set_head l h b) = pos_hash b" "numBlackCaptures (set_head l h b) = numBlackCaptures b"
  "numWhiteCaptures (set_head l h b) = numWhiteCaptures b" "adj_offsets (set_head l h b) = adj_offsets b"
  "x_size (set_next l n b) = x_size b" "y_size (set_next l n b) = y_size b"
  "colors (set_next l n b) = colors b" "chain_data (set_next l n b) = chain_data b"
  "chain_head (set_next l n b) = chain_head b" "ko_loc (set_next l n b) = ko_loc b"
  "pos_hash (set_next l n b) = pos_hash b" "numBlackCaptures (set_next l n b) = numBlackCaptures b"
  "numWhiteCaptures (set_next l n b) = numWhiteCaptures b" "adj_offsets (set_next l n b) = adj_offsets b"
  "x_size (set_chain_data l cd b) = x_size b" "y_size (set_chain_data l cd b) = y_size b"
  "colors (set_chain_data l cd b) = colors b" "chain_head (set_chain_data l cd b) = chain_head b"
  "next_in_chain (set_chain_data l cd b) = next_in_chain b" "ko_loc (set_chain_data l cd b) = ko_loc b"
  "pos_hash (set_chain_data l cd b) = pos_hash b" "numBlackCaptures (set_chain_data l cd b) = numBlackCaptures b"
  "numWhiteCaptures (set_chain_data l cd b) = numWhiteCaptures b" "adj_offsets (set_chain_data l cd b) = adj_offsets b"
  "x_size (xor_hash Z l c b) = x_size b" "y_size (xor_hash Z l c b) = y_size b"
  "colors (xor_hash Z l c b) = colors b" "chain_data (xor_hash Z l c b) = chain_data b"
  "chain_head (xor_hash Z l c b) = chain_head b" "next_in_chain (xor_hash Z l c b) = next_in_chain b"
  "ko_loc (xor_hash Z l c b) = ko_loc b" "numBlackCaptures (xor_hash Z l c b) = numBlackCaptures b"
  "numWhiteCaptures (xor_hash Z l c b) = numWhiteCaptures b" "adj_offsets (xor_hash Z l c b) = adj_offsets b"
  by (simp_all add: update_defs)

lemma update_field [simp, board_simps]:
  "colors (set_color l c b) = (colors b)(l := c)"
  "chain_head (set_head l h b) = (chain_head b)(l := h)"
  "next_in_chain (set_next l n b) = (next_in_chain b)(l := n)"
  "chain_data (set_chain_data l cd b) = (chain_data b)(l := cd)"
  "pos_hash (xor_hash Z l c b) = hxor (pos_hash b) (ZOBRIST_BOARD_HASH Z l c)"
  "chain_data (add_liberties h d b) = (chain_data b)(h := (chain_data b h)\<lparr>num_liberties := num_liberties (chain_data b h) + d\<rparr>)"
  "chain_data (add_locs h d b) = (chain_data b)(h := (chain_data b h)\<lparr>num_locs := num_locs (chain_data b h) + d\<rparr>)"
  by (simp_all add: update_defs)

section \<open>Liberties of the surrounding chains\<close>

definition changeSurroundingLiberties :: "loc \<Rightarrow> player \<Rightarrow> int \<Rightarrow> board \<Rightarrow> board" where
  "changeSurroundingLiberties loc pla delta b =
     (let adj0 = loc + - (x_size b + 1);
          adj1 = loc + - 1;
          adj2 = loc + 1;
          adj3 = loc + (x_size b + 1);
          c = colors b;
          h = chain_head b;
          b = (if c adj0 = pla then add_liberties (h adj0) delta b else b);
          b = (if c adj1 = pla \<and> \<not> (c adj0 = pla \<and> h adj0 = h adj1)
               then add_liberties (h adj1) delta b else b);
          b = (if c adj2 = pla \<and> \<not> (c adj0 = pla \<and> h adj0 = h adj2)
                 \<and> \<not> (c adj1 = pla \<and> h adj1 = h adj2)
               then add_liberties (h adj2) delta b else b);
          b = (if c adj3 = pla \<and> \<not> (c adj0 = pla \<and> h adj0 = h adj3)
                 \<and> \<not> (c adj1 = pla \<and> h adj1 = h adj3) \<and> \<not> (c adj2 = pla \<and> h adj2 = h adj3)
               then add_liberties (h adj3) delta b else b)
      in b)"

section \<open>Merging and removing chains\<close>

text \<open>
  The loop of \<open>mergeChains\<close>: it makes the stones of \<open>head2\<close>'s chain members of \<open>head1\<close>'s,
  counts the liberties this adds, and yields the last stone it visited.
\<close>

partial_function (option) mergeChains_loop ::
  "loc \<Rightarrow> loc \<Rightarrow> loc \<Rightarrow> board \<Rightarrow> int \<Rightarrow> (board \<times> int \<times> loc) option" where
  "mergeChains_loop head1 head2 loc b numNewLiberties =
     (let numNewLiberties =
            fold (\<lambda>adj n. if colors b adj = C_EMPTY \<and> \<not> isLibertyOf b adj head1 then n + 1 else n)
              (adjs (x_size b) loc) numNewLiberties;
          b = set_head loc head1 b
      in if next_in_chain b loc \<noteq> head2
         then mergeChains_loop head1 head2 (next_in_chain b loc) b numNewLiberties
         else Some (b, numNewLiberties, loc))"

declare mergeChains_loop.simps [code]

definition mergeChains :: "loc \<Rightarrow> loc \<Rightarrow> board \<Rightarrow> board option" where
  "mergeChains loc1 loc2 b =
     (let head1 = chain_head b loc1;
          head2 = chain_head b loc2
      in if head1 = head2 \<or> owner (chain_data b head1) \<noteq> owner (chain_data b head2) then None
         else
           let (head1, head2) =
                 (if num_locs (chain_data b head1) < num_locs (chain_data b head2)
                  then (head2, head1) else (head1, head2));
               b = add_locs head1 (num_locs (chain_data b head2)) b
           in Option.bind (mergeChains_loop head1 head2 head2 b 0)
                (\<lambda>(b, numNewLiberties, loc).
                   let b = add_liberties head1 numNewLiberties b;
                       b = set_next loc (next_in_chain b head1) b;
                       b = set_next head1 head2 b
                   in Some b))"

definition removeChain_body :: "zobrist \<Rightarrow> player \<Rightarrow> loc \<Rightarrow> board \<times> int \<Rightarrow> board \<times> int" where
  "removeChain_body Z opp cur = (\<lambda>(b, num_stones_removed).
     let b = xor_hash Z cur (colors b cur) b;
         b = set_color cur C_EMPTY b;
         num_stones_removed = num_stones_removed + 1;
         b = changeSurroundingLiberties cur opp 1 b
     in (b, num_stones_removed))"

definition removeChain :: "zobrist \<Rightarrow> loc \<Rightarrow> board \<Rightarrow> (board \<times> int) option" where
  "removeChain Z loc b =
     (let opp = getOpp (colors b loc)
      in walk_all (\<lambda>(b, _). next_in_chain b) (removeChain_body Z opp) loc (b, 0))"

section \<open>Playing a move\<close>

text \<open>
  One direction of the loop of \<open>playMoveAssumeLegal\<close>; besides the board it carries
  \<open>num_captured\<close>, \<open>possible_ko_loc\<close> and the array \<open>opp_heads_seen\<close>.
\<close>

definition play_dir ::
  "zobrist \<Rightarrow> loc \<Rightarrow> player \<Rightarrow> loc \<Rightarrow> board \<times> int \<times> loc \<times> loc list \<Rightarrow>
   (board \<times> int \<times> loc \<times> loc list) option" where
  "play_dir Z loc pla adj = (\<lambda>(b, num_captured, possible_ko_loc, opp_heads_seen).
     let opp = getOpp pla
     in if colors b adj = pla then
          (if chain_head b adj = chain_head b loc
           then Some (b, num_captured, possible_ko_loc, opp_heads_seen)
           else
             let b = add_liberties (chain_head b adj) (-1) b
             in Option.bind (mergeChains adj loc b)
                  (\<lambda>b. Some (b, num_captured, possible_ko_loc, opp_heads_seen)))
        else if colors b adj = opp then
          (let opp_head = chain_head b adj
           in if opp_head \<in> set opp_heads_seen
              then Some (b, num_captured, possible_ko_loc, opp_heads_seen)
              else
                let b = add_liberties opp_head (-1) b;
                    opp_heads_seen = opp_heads_seen @ [opp_head]
                in if getNumLiberties b adj = 0
                   then Option.bind (removeChain Z adj b)
                          (\<lambda>(b, n). Some (b, num_captured + n, adj, opp_heads_seen))
                   else Some (b, num_captured, possible_ko_loc, opp_heads_seen))
        else Some (b, num_captured, possible_ko_loc, opp_heads_seen))"

text \<open>\<open>Add the new stone as an independent group\<close>\<close>

definition place_stone :: "zobrist \<Rightarrow> loc \<Rightarrow> player \<Rightarrow> board \<Rightarrow> board" where
  "place_stone Z loc pla b =
     (let b = set_color loc pla b;
          b = xor_hash Z loc pla b;
          b = set_chain_data loc \<lparr>owner = pla, num_locs = 1,
                                   num_liberties = getNumImmediateLiberties b loc\<rparr> b;
          b = set_head loc loc b;
          b = set_next loc loc b
      in b)"

text \<open>What follows the loop: the ko point, the capture counts, and suicide.\<close>

definition play_finish ::
  "zobrist \<Rightarrow> loc \<Rightarrow> player \<Rightarrow> board \<times> int \<times> loc \<times> loc list \<Rightarrow> board option" where
  "play_finish Z loc pla = (\<lambda>(b, num_captured, possible_ko_loc, _).
     let b = (if num_captured = 1 \<and> num_locs (chain_data b (chain_head b loc)) = 1
                 \<and> num_liberties (chain_data b (chain_head b loc)) = 1
              then b\<lparr>ko_loc := possible_ko_loc\<rparr> else b\<lparr>ko_loc := NULL_LOC\<rparr>);
         b = (if pla = P_BLACK
              then b\<lparr>numWhiteCaptures := numWhiteCaptures b + num_captured\<rparr>
              else b\<lparr>numBlackCaptures := numBlackCaptures b + num_captured\<rparr>)
     in if getNumLiberties b loc = 0
        then (let numSuicided = num_locs (chain_data b (chain_head b loc))
              in Option.bind (removeChain Z loc b)
                   (\<lambda>(b, _). Some (if pla = P_BLACK
                      then b\<lparr>numBlackCaptures := numBlackCaptures b + numSuicided\<rparr>
                      else b\<lparr>numWhiteCaptures := numWhiteCaptures b + numSuicided\<rparr>)))
        else Some b)"

definition playMoveAssumeLegal :: "zobrist \<Rightarrow> loc \<Rightarrow> player \<Rightarrow> board \<Rightarrow> board option" where
  "playMoveAssumeLegal Z loc pla b =
     (if loc = PASS_LOC then Some (b\<lparr>ko_loc := NULL_LOC\<rparr>)
      else
        let b = place_stone Z loc pla b
        in Option.bind (foldM (play_dir Z loc pla) (adj4 b loc) (b, 0, NULL_LOC, []))
             (play_finish Z loc pla))"

definition playMove :: "zobrist \<Rightarrow> loc \<Rightarrow> player \<Rightarrow> bool \<Rightarrow> board \<Rightarrow> (board \<times> bool) option" where
  "playMove Z loc pla isMultiStoneSuicideLegal b =
     (if isLegal b loc pla isMultiStoneSuicideLegal
      then Option.bind (playMoveAssumeLegal Z loc pla b) (\<lambda>b. Some (b, True))
      else Some (b, False))"

section \<open>Recording and undoing a move\<close>

record MoveRecord =
  mr_pla :: player
  mr_loc :: loc
  mr_ko_loc :: loc
  mr_capDirs :: "8 word"

text \<open>The four blocks that set the capture bit of one direction.\<close>

definition capture_bits :: "board \<Rightarrow> loc \<Rightarrow> player \<Rightarrow> 8 word" where
  "capture_bits b loc opp =
     fold (\<lambda>(i, adj) capDirs.
        if colors b adj = opp \<and> getNumLiberties b adj = 1
        then capDirs OR push_bit i 1 else capDirs)
       (zip [0, 1, 2, 3] (adjs (x_size b) loc)) 0"

definition playMoveRecorded ::
  "zobrist \<Rightarrow> loc \<Rightarrow> player \<Rightarrow> board \<Rightarrow> (board \<times> MoveRecord) option" where
  "playMoveRecorded Z loc pla b =
     (let capDirs =
            (if loc \<noteq> PASS_LOC then
               (let opp = getOpp pla; capDirs = capture_bits b loc opp
                in if capDirs = 0 \<and> isSuicide b loc pla then 0x10 else capDirs)
             else 0);
          record = \<lparr>mr_pla = pla, mr_loc = loc, mr_ko_loc = ko_loc b, mr_capDirs = capDirs\<rparr>
      in Option.bind (playMoveAssumeLegal Z loc pla b) (\<lambda>b. Some (b, record)))"

text \<open>Flood fill of an empty region with stones; the list it builds ends at \<open>tailTarget\<close>.\<close>

partial_function (option) addChainHelper ::
  "zobrist \<Rightarrow> loc \<Rightarrow> player \<Rightarrow> loc \<Rightarrow> loc \<Rightarrow> board \<Rightarrow> (board \<times> loc) option" where
  "addChainHelper Z head pla tailTarget loc b =
     (let b = set_color loc pla b;
          b = xor_hash Z loc pla b;
          b = set_head loc head b;
          b = add_locs head 1 b;
          b = set_next loc tailTarget b;
          b = changeSurroundingLiberties loc (getOpp pla) (-1) b
      in foldM (\<lambda>adj (b, nextTailTarget).
                  if colors b adj = C_EMPTY then addChainHelper Z head pla nextTailTarget adj b
                  else Some (b, nextTailTarget))
           (adj4 b loc) (b, loc))"

declare addChainHelper.simps [code]

definition addChain :: "zobrist \<Rightarrow> loc \<Rightarrow> player \<Rightarrow> board \<Rightarrow> board option" where
  "addChain Z loc pla b =
     (let b = set_chain_data loc \<lparr>owner = pla, num_locs = 0, num_liberties = 0\<rparr> b
      in Option.bind (addChainHelper Z loc pla loc loc b)
           (\<lambda>(b, front). Some (set_next loc front b)))"

text \<open>Flood through stones already on the board whose heads point elsewhere.\<close>

partial_function (option) rebuildChainHelper ::
  "loc \<Rightarrow> player \<Rightarrow> loc \<Rightarrow> loc \<Rightarrow> board \<Rightarrow> (board \<times> loc) option" where
  "rebuildChainHelper head pla tailTarget loc b =
     (let numHeadLibertiesToAdd =
            fold (\<lambda>adj n. if colors b adj = C_EMPTY \<and> \<not> isLibertyOf b adj head then n + 1 else n)
              (adjs (x_size b) loc) 0;
          b = add_liberties head numHeadLibertiesToAdd b;
          b = set_head loc head b;
          b = add_locs head 1 b;
          b = set_next loc tailTarget b
      in foldM (\<lambda>adj (b, nextTailTarget).
                  if colors b adj = pla \<and> chain_head b adj \<noteq> head
                  then rebuildChainHelper head pla nextTailTarget adj b
                  else Some (b, nextTailTarget))
           (adjs (x_size b) loc) (b, loc))"

declare rebuildChainHelper.simps [code]

definition rebuildChain :: "loc \<Rightarrow> player \<Rightarrow> board \<Rightarrow> board option" where
  "rebuildChain loc pla b =
     (let b = set_chain_data loc \<lparr>owner = pla, num_locs = 0, num_liberties = 0\<rparr> b
      in Option.bind (rebuildChainHelper loc pla loc loc b)
           (\<lambda>(b, front). Some (set_next loc front b)))"

text \<open>\<open>while(next_in_chain[cur] != loc) cur = next_in_chain[cur]\<close>\<close>

partial_function (option) find_prev :: "(loc \<Rightarrow> loc) \<Rightarrow> loc \<Rightarrow> loc \<Rightarrow> loc option" where
  "find_prev nx loc cur = (if nx cur \<noteq> loc then find_prev nx loc (nx cur) else Some cur)"

declare find_prev.simps [code]

text \<open>\<open>Re-fill stones in all captured directions\<close>\<close>

definition undo_refill :: "zobrist \<Rightarrow> MoveRecord \<Rightarrow> nat \<Rightarrow> board \<Rightarrow> board option" where
  "undo_refill Z record i b =
     (let adj = mr_loc record + adj_offsets b ! i
      in if bit (mr_capDirs record) i \<and> colors b adj = C_EMPTY
         then Option.bind (addChain Z adj (getOpp (mr_pla record)) b)
                (\<lambda>b. let numUncaptured = num_locs (chain_data b (chain_head b adj))
                     in Some (if mr_pla record = P_BLACK
                              then b\<lparr>numWhiteCaptures := numWhiteCaptures b - numUncaptured\<rparr>
                              else b\<lparr>numBlackCaptures := numBlackCaptures b - numUncaptured\<rparr>))
         else Some b)"

text \<open>\<open>Re-fill suicided stones\<close>\<close>

definition undo_suicide :: "zobrist \<Rightarrow> MoveRecord \<Rightarrow> board \<Rightarrow> board option" where
  "undo_suicide Z record b =
     (let loc = mr_loc record
      in if mr_capDirs record = 0x10
         then (if colors b loc \<noteq> C_EMPTY then None
               else Option.bind (addChain Z loc (mr_pla record) b)
                 (\<lambda>b. let numUncaptured = num_locs (chain_data b (chain_head b loc))
                      in Some (if mr_pla record = P_BLACK
                               then b\<lparr>numBlackCaptures := numBlackCaptures b - numUncaptured\<rparr>
                               else b\<lparr>numWhiteCaptures := numWhiteCaptures b - numUncaptured\<rparr>)))
         else Some b)"

text \<open>At most one friendly neighbour: take the stone out of its chain in place.\<close>

definition undo_unlink :: "loc \<Rightarrow> board \<Rightarrow> board option" where
  "undo_unlink loc b =
     (let head = chain_head b loc
      in Option.bind
           (if head = loc then
              (let newHead = next_in_chain b loc
               in Option.bind (walk_all next_in_chain (\<lambda>cur b. set_head cur newHead b) loc b)
                    (\<lambda>b. Some (set_chain_data newHead (chain_data b head) b, newHead)))
            else Some (b, head))
           (\<lambda>(b, head).
              Option.bind (find_prev (next_in_chain b) loc head)
                (\<lambda>cur.
                   let b = set_next cur (next_in_chain b loc) b;
                       libertyDelta =
                         fold (\<lambda>adj n. if colors b adj = C_EMPTY \<and> \<not> isLibertyOf b adj head
                                      then n - 1 else n) (adjs (x_size b) loc) 0;
                       libertyDelta = libertyDelta + 1;
                       b = add_liberties head libertyDelta b;
                       b = add_locs head (-1) b
                   in Some b)))"

text \<open>More friendly neighbours: forget the chain and rebuild each piece around the point.\<close>

definition undo_split :: "MoveRecord \<Rightarrow> board \<Rightarrow> board option" where
  "undo_split record b =
     (let loc = mr_loc record
      in Option.bind (walk_all next_in_chain (\<lambda>cur b. set_head cur NULL_LOC b) loc b)
           (\<lambda>b. foldM (\<lambda>adj b.
                    if colors b adj = mr_pla record \<and> chain_head b adj = NULL_LOC
                    then rebuildChain adj (mr_pla record) b else Some b)
                  (adj4 b loc) b))"

definition undo :: "zobrist \<Rightarrow> MoveRecord \<Rightarrow> board \<Rightarrow> board option" where
  "undo Z record b =
     (let b = b\<lparr>ko_loc := mr_ko_loc record\<rparr>;
          loc = mr_loc record
      in if loc = PASS_LOC then Some b
         else
           Option.bind (foldM (undo_refill Z record) [0, 1, 2, 3] b) (\<lambda>b.
           Option.bind (undo_suicide Z record b) (\<lambda>b.
             let b = xor_hash Z loc (colors b loc) b;
                 b = set_color loc C_EMPTY b;
                 b = changeSurroundingLiberties loc (getOpp (mr_pla record)) 1 b
             in if num_locs (chain_data b (chain_head b loc)) > 1 then
                  (let numNeighbors =
                         fold (\<lambda>adj n. if colors b adj = mr_pla record then n + 1 else n)
                           (adjs (x_size b) loc) (0 :: int)
                   in if numNeighbors \<le> 1 then undo_unlink loc b else undo_split record b)
                else Some b)))"

section \<open>The hash after a move, without playing it\<close>

text \<open>The walk that adds a chain's stones to the hash.\<close>

definition hash_chain :: "zobrist \<Rightarrow> board \<Rightarrow> color \<Rightarrow> loc \<Rightarrow> hash128 \<Rightarrow> hash128 option" where
  "hash_chain Z b c adj h =
     walk_all (\<lambda>_. next_in_chain b) (\<lambda>cur h. hxor h (ZOBRIST_BOARD_HASH Z cur c)) adj h"

text \<open>One direction of each of its two loops over the neighbours.\<close>

definition hash_dir ::
  "zobrist \<Rightarrow> board \<Rightarrow> player \<Rightarrow> loc \<Rightarrow> hash128 \<times> bool \<times> loc list \<Rightarrow> (hash128 \<times> bool \<times> loc list) option" where
  "hash_dir Z b pla adj = (\<lambda>(hash, wouldBeSuicide, capturedGroupHeads).
     let opp = getOpp pla
     in if colors b adj = C_EMPTY then Some (hash, False, capturedGroupHeads)
        else if colors b adj = pla \<and> getNumLiberties b adj > 1 then Some (hash, False, capturedGroupHeads)
        else if colors b adj = opp then
          (if getNumLiberties b adj = 1 then
             (let head = chain_head b adj
              in if head \<in> set capturedGroupHeads then Some (hash, wouldBeSuicide, capturedGroupHeads)
                 else Option.bind (hash_chain Z b opp adj hash)
                        (\<lambda>hash. Some (hash, False, capturedGroupHeads @ [head])))
           else Some (hash, wouldBeSuicide, capturedGroupHeads))
        else Some (hash, wouldBeSuicide, capturedGroupHeads))"

definition hash_own_dir ::
  "zobrist \<Rightarrow> board \<Rightarrow> player \<Rightarrow> loc \<Rightarrow> hash128 \<times> loc list \<Rightarrow> (hash128 \<times> loc list) option" where
  "hash_own_dir Z b pla adj = (\<lambda>(hash, capturedGroupHeads).
     if colors b adj = pla \<and> getNumLiberties b adj = 1 then
       (let head = chain_head b adj
        in if head \<in> set capturedGroupHeads then Some (hash, capturedGroupHeads)
           else Option.bind (hash_chain Z b pla adj hash)
                  (\<lambda>hash. Some (hash, capturedGroupHeads @ [head])))
     else Some (hash, capturedGroupHeads))"

definition getPosHashAfterMove :: "zobrist \<Rightarrow> board \<Rightarrow> loc \<Rightarrow> player \<Rightarrow> hash128 option" where
  "getPosHashAfterMove Z b loc pla =
     (if loc = PASS_LOC then Some (pos_hash b)
      else if loc = NULL_LOC then None
      else
        let hash = hxor (pos_hash b) (ZOBRIST_BOARD_HASH Z loc pla)
        in Option.bind (foldM (hash_dir Z b pla) (adj4 b loc) (hash, True, []))
             (\<lambda>(hash, wouldBeSuicide, capturedGroupHeads).
                if wouldBeSuicide then
                  (if capturedGroupHeads \<noteq> [] then None
                   else
                     Option.bind (foldM (hash_own_dir Z b pla) (adj4 b loc) (hash, capturedGroupHeads))
                       (\<lambda>(hash, _). Some (hxor hash (ZOBRIST_BOARD_HASH Z loc pla))))
                else Some hash))"

end
