(* ===== verification/BoardInv.thy ===== *)
theory BoardInv
  imports Chains
begin

text \<open>
  The well-formedness invariant of a board and the effect of the chain operations on it.

  The invariant is stated in layers, so that the states inside an operation can be described
  too: the geometry (walls exactly outside the board), the position hash, the bookkeeping of
  every chain up to an offset in its liberty count (\<open>chains_ok\<close>), and the maximality of the
  chains up to a set of excepted pairs (\<open>max_ok\<close>).
\<close>

section \<open>Adjacency\<close>

definition adjacent :: "int \<Rightarrow> loc \<Rightarrow> loc \<Rightarrow> bool" where
  "adjacent xs l m \<longleftrightarrow> m \<in> set (adjs xs l)"

lemma adjacent_iff:
  "adjacent xs l m \<longleftrightarrow> m = l - (xs + 1) \<or> m = l - 1 \<or> m = l + 1 \<or> m = l + (xs + 1)"
  by (auto simp: adjacent_def adjs_def)

lemma adjacent_sym: "adjacent xs l m \<longleftrightarrow> adjacent xs m l"
  by (auto simp: adjacent_iff)

lemma adjacent_irrefl: "0 \<le> xs \<Longrightarrow> \<not> adjacent xs l l"
  by (auto simp: adjacent_iff)

lemma set_adjs: "set (adjs xs l) = {m. adjacent xs l m}"
  by (auto simp: adjacent_def)

lemma distinct_adjs: "1 \<le> xs \<Longrightarrow> distinct (adjs xs l)"
  by (auto simp: adjs_def)

lemma finite_adjacent [simp]: "finite {m. adjacent xs l m}"
  unfolding set_adjs [symmetric] by simp

text \<open>A counter that a loop increments is the number of elements that pass its test.\<close>

lemma fold_count:
  "fold (\<lambda>x n. if P x then n + 1 else n) xs n = n + int (length (filter P xs))"
  by (induction xs arbitrary: n) simp_all

lemma fold_count_down:
  "fold (\<lambda>x n. if P x then n - 1 else n) xs n = n - int (length (filter P xs))"
  by (induction xs arbitrary: n) simp_all

lemma length_filter_adjs:
  assumes "1 \<le> xs"
  shows "length (filter P (adjs xs l)) = card {m. adjacent xs l m \<and> P m}"
proof -
  have "length (filter P (adjs xs l)) = card (set (filter P (adjs xs l)))"
    by (rule distinct_card [symmetric]) (simp add: distinct_adjs assms)
  also have "set (filter P (adjs xs l)) = {m. adjacent xs l m \<and> P m}"
    by (auto simp: adjacent_def)
  finally show ?thesis .
qed

section \<open>Geometry\<close>

definition on_board :: "int \<Rightarrow> int \<Rightarrow> loc \<Rightarrow> bool" where
  "on_board xs ys l \<longleftrightarrow>
     (\<exists>x y. 0 \<le> x \<and> x < xs \<and> 0 \<le> y \<and> y < ys \<and> l = (x + 1) + (y + 1) * (xs + 1))"

definition geom_ok :: "board \<Rightarrow> bool" where
  "geom_ok b \<longleftrightarrow> 0 \<le> x_size b \<and> x_size b \<le> MAX_LEN \<and> 0 \<le> y_size b \<and> y_size b \<le> MAX_LEN \<and>
     adj_offsets b = getAdjacentOffsets (x_size b) \<and>
     (\<forall>l. colors b l = C_WALL \<longleftrightarrow> \<not> on_board (x_size b) (y_size b) l)"

text \<open>The list of the points of the board, row by row, without the cast of \<open>getLoc\<close>.\<close>

definition locs_of :: "int \<Rightarrow> int \<Rightarrow> loc list" where
  "locs_of xs ys = [(x + 1) + (y + 1) * (xs + 1). y \<leftarrow> [0..ys - 1], x \<leftarrow> [0..xs - 1]]"

lemma set_locs_of: "set (locs_of xs ys) = {l. on_board xs ys l}"
  by (auto simp: locs_of_def on_board_def)

lemma loc_inj:
  assumes "(x + 1) + (y + 1) * (xs + 1) = (x' + 1) + (y' + 1) * (xs + 1)"
    and "0 \<le> x" "x < xs" "0 \<le> x'" "x' < (xs :: int)"
  shows "x = x' \<and> y = y'"
proof -
  have "(x' + 1 + (y' + 1) * (xs + 1)) mod (xs + 1) = x' + 1"
    and "(x + 1 + (y + 1) * (xs + 1)) mod (xs + 1) = x + 1"
    using assms(2-5) by simp_all
  with assms(1) have "x = x'" by (metis add_right_cancel)
  with assms show ?thesis by simp
qed

lemma distinct_locs_of: "distinct (locs_of xs ys)"
proof -
  have "distinct (concat (map (\<lambda>y. map (\<lambda>x. (x + 1) + (y + 1) * (xs + 1)) [0..xs - 1]) zs))"
    if "distinct zs" for zs :: "int list"
    using that
  proof (induction zs)
    case Nil
    then show ?case by simp
  next
    case (Cons z zs)
    have "distinct (map (\<lambda>x. (x + 1) + (z + 1) * (xs + 1)) [0..xs - 1])"
      by (simp add: distinct_map inj_on_def)
    moreover have "set (map (\<lambda>x. (x + 1) + (z + 1) * (xs + 1)) [0..xs - 1]) \<inter>
        set (concat (map (\<lambda>y. map (\<lambda>x. (x + 1) + (y + 1) * (xs + 1)) [0..xs - 1]) zs)) = {}"
      using Cons.prems by (auto dest!: loc_inj)
    ultimately show ?case using Cons by simp
  qed
  from this [of "[0..ys - 1]"] show ?thesis by (simp add: locs_of_def)
qed

lemma on_board_range:
  assumes "on_board xs ys l" and "xs \<le> MAX_LEN" and "ys \<le> MAX_LEN"
  shows "3 \<le> l" and "l < MAX_ARR_SIZE"
proof -
  from assms(1) obtain x y where xy: "0 \<le> x" "x < xs" "0 \<le> y" "y < ys"
    and l: "l = (x + 1) + (y + 1) * (xs + 1)"
    by (auto simp: on_board_def)
  have "1 * 2 \<le> (y + 1) * (xs + 1)" using xy by (intro mult_mono) auto
  with l xy show "3 \<le> l" by linarith
  have "(y + 1) * (xs + 1) \<le> 19 * 20"
    using xy assms(2,3) by (intro mult_mono) (auto simp: MAX_LEN_def)
  with l xy assms(2) show "l < MAX_ARR_SIZE" by (simp add: MAX_ARR_SIZE_def MAX_LEN_def)
qed

text \<open>Every array access at a neighbour of a point of the board stays inside the arrays.\<close>

lemma adjacent_in_array:
  assumes "on_board xs ys l" and "xs \<le> MAX_LEN" and "ys \<le> MAX_LEN" and "adjacent xs l m"
  shows "0 \<le> m \<and> m < MAX_ARR_SIZE"
proof -
  from assms(1) obtain x y where xy: "0 \<le> x" "x < xs" "0 \<le> y" "y < ys"
    and l: "l = (x + 1) + (y + 1) * (xs + 1)"
    by (auto simp: on_board_def)
  have "1 * (xs + 1) \<le> (y + 1) * (xs + 1)" using xy by (intro mult_right_mono) auto
  moreover have "(y + 2) * (xs + 1) \<le> 20 * 20"
    using xy assms(2,3) by (intro mult_mono) (auto simp: MAX_LEN_def)
  ultimately show ?thesis using assms(4,2) l xy
    by (auto simp: adjacent_iff MAX_ARR_SIZE_def MAX_LEN_def algebra_simps)
qed

lemma finite_on_board [simp]: "finite {l. on_board xs ys l}"
  unfolding set_locs_of [symmetric] by simp

lemma on_board_xs: "on_board xs ys l \<Longrightarrow> 1 \<le> xs"
  by (auto simp: on_board_def)

lemma to_loc_id: "- 32768 \<le> i \<Longrightarrow> i < 32768 \<Longrightarrow> to_loc i = i"
  unfolding to_loc_def by (rule signed_take_bit_int_eq_self) simp_all

lemma getLoc_eq:
  assumes "0 \<le> x" "x < xs" "0 \<le> y" "y < ys" "xs \<le> MAX_LEN" "ys \<le> MAX_LEN"
  shows "getLoc x y xs = (x + 1) + (y + 1) * (xs + 1)"
proof -
  have "on_board xs ys ((x + 1) + (y + 1) * (xs + 1))"
    using assms by (auto simp: on_board_def)
  from on_board_range [OF this] assms show ?thesis
    unfolding getLoc_def by (intro to_loc_id) (auto simp: MAX_ARR_SIZE_def MAX_LEN_def)
qed

lemma board_locs_eq:
  assumes "x_size b \<le> MAX_LEN" "y_size b \<le> MAX_LEN"
  shows "board_locs b = locs_of (x_size b) (y_size b)"
  unfolding board_locs_def locs_of_def
  using assms by (intro arg_cong [where f = concat] map_cong refl) (auto intro!: getLoc_eq)

lemma adj4_adjs: "geom_ok b \<Longrightarrow> adj4 b loc = adjs (x_size b) loc"
  by (simp add: geom_ok_def adj4_def adjs_def getAdjacentOffsets_def)

section \<open>Connected sets\<close>

definition step_in :: "int \<Rightarrow> loc set \<Rightarrow> (loc \<times> loc) set" where
  "step_in xs S = {(a, b). a \<in> S \<and> b \<in> S \<and> adjacent xs a b}"

definition conn :: "int \<Rightarrow> loc set \<Rightarrow> bool" where
  "conn xs S \<longleftrightarrow> (\<forall>a\<in>S. \<forall>b\<in>S. (a, b) \<in> (step_in xs S)\<^sup>*)"

lemma step_in_mono: "S \<subseteq> T \<Longrightarrow> step_in xs S \<subseteq> step_in xs T"
  by (auto simp: step_in_def)

lemma step_in_sym: "(a, b) \<in> step_in xs S \<Longrightarrow> (b, a) \<in> step_in xs S"
  by (auto simp: step_in_def adjacent_sym)

lemma step_in_rtrancl_sym: "(a, b) \<in> (step_in xs S)\<^sup>* \<Longrightarrow> (b, a) \<in> (step_in xs S)\<^sup>*"
  by (rule symD [OF sym_rtrancl]) (auto simp: sym_def intro: step_in_sym)

lemma conn_single [simp]: "conn xs {a}"
  by (simp add: conn_def)

lemma conn_union:
  assumes "conn xs S" "conn xs T" "a \<in> S" "b \<in> T" "adjacent xs a b"
  shows "conn xs (S \<union> T)"
proof -
  let ?R = "(step_in xs (S \<union> T))\<^sup>*"
  have S: "(u, v) \<in> ?R" if "u \<in> S" "v \<in> S" for u v
    using assms(1) that rtrancl_mono [OF step_in_mono [of S "S \<union> T"]] by (auto simp: conn_def)
  have T: "(u, v) \<in> ?R" if "u \<in> T" "v \<in> T" for u v
    using assms(2) that rtrancl_mono [OF step_in_mono [of T "S \<union> T"]] by (auto simp: conn_def)
  have ab: "(a, b) \<in> ?R" using assms(3-5) by (auto simp: step_in_def)
  have ST: "(u, v) \<in> ?R" if "u \<in> S" "v \<in> T" for u v
    using S [OF that(1) assms(3)] ab T [OF assms(4) that(2)] by (meson rtrancl_trans)
  show ?thesis
    unfolding conn_def using S T ST step_in_rtrancl_sym [OF ST] by blast
qed

section \<open>Chains\<close>

definition chain_of :: "board \<Rightarrow> loc \<Rightarrow> loc set" where
  "chain_of b h = {l. is_stone (colors b l) \<and> chain_head b l = h}"

definition libs_of :: "board \<Rightarrow> loc set \<Rightarrow> loc set" where
  "libs_of b S = {e. colors b e = C_EMPTY \<and> (\<exists>l\<in>S. adjacent (x_size b) l e)}"

definition heads :: "board \<Rightarrow> loc set" where
  "heads b = {h. is_stone (colors b h) \<and> chain_head b h = h}"

definition chain_ok :: "board \<Rightarrow> int \<Rightarrow> loc \<Rightarrow> bool" where
  "chain_ok b k h \<longleftrightarrow>
     (\<exists>ps. ring (next_in_chain b) h ps \<and> set (h # ps) = chain_of b h) \<and>
     (\<forall>l\<in>chain_of b h. colors b l = colors b h) \<and>
     owner (chain_data b h) = colors b h \<and>
     num_locs (chain_data b h) = int (card (chain_of b h)) \<and>
     num_liberties (chain_data b h) = int (card (libs_of b (chain_of b h))) + k \<and>
     conn (x_size b) (chain_of b h)"

definition chains_ok :: "board \<Rightarrow> (loc \<Rightarrow> int) \<Rightarrow> bool" where
  "chains_ok b off \<longleftrightarrow>
     (\<forall>l. is_stone (colors b l) \<longrightarrow> chain_head b l \<in> heads b) \<and>
     (\<forall>h\<in>heads b. chain_ok b (off h) h)"

definition max_ok :: "board \<Rightarrow> (loc \<times> loc) set \<Rightarrow> bool" where
  "max_ok b E \<longleftrightarrow>
     (\<forall>l m. adjacent (x_size b) l m \<and> is_stone (colors b l) \<and> colors b m = colors b l \<longrightarrow>
        chain_head b l = chain_head b m \<or> (l, m) \<in> E \<or> (m, l) \<in> E)"

definition stone_hash :: "zobrist \<Rightarrow> loc \<Rightarrow> color \<Rightarrow> hash128" where
  "stone_hash Z l c = (if is_stone c then ZOBRIST_BOARD_HASH Z l c else hash128_zero)"

definition position_hash :: "zobrist \<Rightarrow> int \<Rightarrow> int \<Rightarrow> (loc \<Rightarrow> color) \<Rightarrow> hash128" where
  "position_hash Z xs ys c =
     hxor (hxor (ZOBRIST_SIZE_X_HASH Z xs) (ZOBRIST_SIZE_Y_HASH Z ys))
       (hxor_list (map (\<lambda>l. stone_hash Z l (c l)) (locs_of xs ys)))"

definition hash_ok :: "zobrist \<Rightarrow> board \<Rightarrow> bool" where
  "hash_ok Z b \<longleftrightarrow> pos_hash b = position_hash Z (x_size b) (y_size b) (colors b)"

definition core :: "zobrist \<Rightarrow> (loc \<Rightarrow> int) \<Rightarrow> (loc \<times> loc) set \<Rightarrow> board \<Rightarrow> bool" where
  "core Z off E b \<longleftrightarrow> geom_ok b \<and> hash_ok Z b \<and> chains_ok b off \<and> max_ok b E"

text \<open>The simple ko point, if any, is a point of the board without empty neighbours.\<close>

definition ko_ok :: "board \<Rightarrow> bool" where
  "ko_ok b \<longleftrightarrow> ko_loc b = NULL_LOC \<or>
     (on_board (x_size b) (y_size b) (ko_loc b) \<and>
      (\<forall>m. adjacent (x_size b) (ko_loc b) m \<longrightarrow> colors b m \<noteq> C_EMPTY))"

text \<open>The invariant between operations.\<close>

definition wf_board :: "zobrist \<Rightarrow> board \<Rightarrow> bool" where
  "wf_board Z b \<longleftrightarrow> core Z (\<lambda>_. 0) {} b \<and> (\<forall>h\<in>heads b. 0 < num_liberties (chain_data b h)) \<and> ko_ok b"

text \<open>The part of it that playing a move needs: the simple ko point does not matter.\<close>

definition live_board :: "zobrist \<Rightarrow> board \<Rightarrow> bool" where
  "live_board Z b \<longleftrightarrow> core Z (\<lambda>_. 0) {} b \<and> (\<forall>h\<in>heads b. 0 < num_liberties (chain_data b h))"

lemma wf_board_live: "wf_board Z b \<longleftrightarrow> live_board Z b \<and> ko_ok b"
  by (auto simp: wf_board_def live_board_def)

lemma is_stone_simps [simp]:
  "is_stone C_BLACK" "is_stone C_WHITE" "\<not> is_stone C_EMPTY" "\<not> is_stone C_WALL"
  by (simp_all add: is_stone_def)

lemma getOpp_simps [simp]:
  "getOpp (getOpp c) = c" "getOpp c \<noteq> c" "c \<noteq> getOpp c" "is_stone (getOpp c) = is_stone c"
  "(getOpp c = getOpp d) = (c = d)"
  by (cases c; cases d; simp)+

lemma stone_colors: "is_stone c \<Longrightarrow> is_stone p \<Longrightarrow> c = p \<or> c = getOpp p"
  by (cases p) (auto simp: is_stone_def)

lemma getOpp_stone_neq [simp]:
  "is_stone p \<Longrightarrow> getOpp p \<noteq> C_EMPTY" "is_stone p \<Longrightarrow> p \<noteq> C_EMPTY"
  "is_stone p \<Longrightarrow> C_EMPTY \<noteq> getOpp p" "is_stone p \<Longrightarrow> C_WALL \<noteq> getOpp p"
  "is_stone p \<Longrightarrow> C_EMPTY \<noteq> p" "is_stone p \<Longrightarrow> C_WALL \<noteq> p"
  "is_stone p \<Longrightarrow> getOpp p \<noteq> C_WALL" "is_stone p \<Longrightarrow> p \<noteq> C_WALL"
  by (auto simp: is_stone_def)

lemma geom_wall: "geom_ok b \<Longrightarrow> colors b l = C_WALL \<longleftrightarrow> \<not> on_board (x_size b) (y_size b) l"
  by (simp add: geom_ok_def)

lemma geom_stone_on_board:
  "geom_ok b \<Longrightarrow> is_stone (colors b l) \<Longrightarrow> on_board (x_size b) (y_size b) l"
  by (metis geom_wall is_stone_simps(4))

lemma geom_empty_on_board:
  "geom_ok b \<Longrightarrow> colors b l = C_EMPTY \<Longrightarrow> on_board (x_size b) (y_size b) l"
  by (metis geom_wall color.distinct(5))

lemma chain_of_subset: "geom_ok b \<Longrightarrow> chain_of b h \<subseteq> {l. on_board (x_size b) (y_size b) l}"
  by (auto simp: chain_of_def geom_stone_on_board)

lemma finite_chain_of: "geom_ok b \<Longrightarrow> finite (chain_of b h)"
  by (rule finite_subset [OF chain_of_subset finite_on_board])

lemma libs_of_subset: "geom_ok b \<Longrightarrow> libs_of b S \<subseteq> {l. on_board (x_size b) (y_size b) l}"
  by (auto simp: libs_of_def geom_empty_on_board)

lemma finite_libs_of: "geom_ok b \<Longrightarrow> finite (libs_of b S)"
  by (rule finite_subset [OF libs_of_subset finite_on_board])

lemma libs_of_Un: "libs_of b (S \<union> T) = libs_of b S \<union> libs_of b T"
  by (auto simp: libs_of_def)

lemma heads_stone: "h \<in> heads b \<Longrightarrow> is_stone (colors b h)"
  by (simp add: heads_def)

lemma heads_self: "h \<in> heads b \<Longrightarrow> chain_head b h = h"
  by (simp add: heads_def)

lemma chain_of_self: "h \<in> heads b \<Longrightarrow> h \<in> chain_of b h"
  by (simp add: heads_def chain_of_def)

lemma chain_of_mem: "is_stone (colors b l) \<Longrightarrow> l \<in> chain_of b (chain_head b l)"
  by (simp add: chain_of_def)

lemma chain_of_disjoint: "h \<noteq> k \<Longrightarrow> chain_of b h \<inter> chain_of b k = {}"
  by (auto simp: chain_of_def)

lemma chains_ok_head: "chains_ok b off \<Longrightarrow> is_stone (colors b l) \<Longrightarrow> chain_head b l \<in> heads b"
  by (simp add: chains_ok_def)

lemma chains_ok_chain: "chains_ok b off \<Longrightarrow> h \<in> heads b \<Longrightarrow> chain_ok b (off h) h"
  by (simp add: chains_ok_def)

lemma chain_ok_color: "chain_ok b k h \<Longrightarrow> l \<in> chain_of b h \<Longrightarrow> colors b l = colors b h"
  by (simp add: chain_ok_def)

lemma head_color:
  assumes "chains_ok b off" "is_stone (colors b l)"
  shows "colors b (chain_head b l) = colors b l"
  using chain_ok_color [OF chains_ok_chain [OF assms(1) chains_ok_head [OF assms]]
      chain_of_mem [OF assms(2)]] by simp

text \<open>From any stone of a chain, the pointers run once around the whole chain.\<close>

lemma chain_ring:
  assumes "chains_ok b off" "is_stone (colors b l)"
  shows "\<exists>ps. ring (next_in_chain b) l ps \<and> set (l # ps) = chain_of b (chain_head b l)"
proof -
  from chains_ok_chain [OF assms(1) chains_ok_head [OF assms]]
  obtain ps where r: "ring (next_in_chain b) (chain_head b l) ps"
    and s: "set (chain_head b l # ps) = chain_of b (chain_head b l)"
    by (auto simp: chain_ok_def)
  have "l \<in> set (chain_head b l # ps)" using chain_of_mem [OF assms(2)] s by simp
  from ring_rotate [OF r this] s show ?thesis by simp
qed

section \<open>The position hash under a change of one point\<close>

lemma position_hash_update:
  assumes "on_board xs ys l"
  shows "position_hash Z xs ys (c(l := v)) =
    hxor (position_hash Z xs ys c) (hxor (stone_hash Z l (c l)) (stone_hash Z l v))"
proof -
  have eq: "map (\<lambda>k. stone_hash Z k ((c(l := v)) k)) (locs_of xs ys)
      = map (\<lambda>k. if k = l then stone_hash Z l v else stone_hash Z k (c k)) (locs_of xs ys)"
    by simp
  have "l \<in> set (locs_of xs ys)" using assms by (simp add: set_locs_of)
  from hxor_list_update [OF distinct_locs_of this] show ?thesis
    unfolding position_hash_def eq by (simp add: hxor_assoc)
qed

end
