(* ===== verification/BoardOps.thy ===== *)
theory BoardOps
  imports BoardInv
begin

text \<open>
  The effect of the chain operations on a well-formed state: counting the liberties around a
  point, removing a chain, merging two chains. Each lemma says that the operation returns and
  what the state is afterwards.
\<close>

section \<open>Liberties of the surrounding chains\<close>

definition adj_heads :: "board \<Rightarrow> loc \<Rightarrow> player \<Rightarrow> loc set" where
  "adj_heads b loc p = {chain_head b a | a. adjacent (x_size b) loc a \<and> colors b a = p}"

lemma adj_heads_iff:
  "k \<in> adj_heads b loc p \<longleftrightarrow>
     (colors b (loc - (x_size b + 1)) = p \<and> chain_head b (loc - (x_size b + 1)) = k) \<or>
     (colors b (loc - 1) = p \<and> chain_head b (loc - 1) = k) \<or>
     (colors b (loc + 1) = p \<and> chain_head b (loc + 1) = k) \<or>
     (colors b (loc + (x_size b + 1)) = p \<and> chain_head b (loc + (x_size b + 1)) = k)"
  unfolding adj_heads_def adjacent_iff by blast

text \<open>Add \<open>d\<close> to the liberties of a set of chains.\<close>

definition bump :: "(loc \<Rightarrow> int) \<Rightarrow> board \<Rightarrow> board" where
  "bump d b = b\<lparr>chain_data := (\<lambda>k. (chain_data b k)
     \<lparr>num_liberties := num_liberties (chain_data b k) + d k\<rparr>)\<rparr>"

lemma bump_simps [simp]:
  "x_size (bump d b) = x_size b" "y_size (bump d b) = y_size b" "colors (bump d b) = colors b"
  "chain_head (bump d b) = chain_head b" "next_in_chain (bump d b) = next_in_chain b"
  "ko_loc (bump d b) = ko_loc b" "pos_hash (bump d b) = pos_hash b"
  "numBlackCaptures (bump d b) = numBlackCaptures b"
  "numWhiteCaptures (bump d b) = numWhiteCaptures b"
  "adj_offsets (bump d b) = adj_offsets b"
  "owner (chain_data (bump d b) k) = owner (chain_data b k)"
  "num_locs (chain_data (bump d b) k) = num_locs (chain_data b k)"
  "num_liberties (chain_data (bump d b) k) = num_liberties (chain_data b k) + d k"
  by (simp_all add: bump_def)

lemma add_liberties_bump: "add_liberties h d b = bump (\<lambda>k. if k = h then d else 0) b"
  by (simp add: add_liberties_def bump_def fun_eq_iff)

lemma bump_bump: "bump d (bump e b) = bump (\<lambda>k. e k + d k) b"
  by (simp add: bump_def add.assoc)

lemma bump_zero: "bump (\<lambda>_. 0) b = b"
  by (simp add: bump_def)

text \<open>The chained tests of the code add \<open>d\<close> once per distinct head.\<close>

lemma distinct_heads_sum:
  fixes d :: int
  shows
  "(if P0 then if k = h0 then d else 0 else 0) +
   ((if P1 \<and> \<not> (P0 \<and> h0 = h1) then if k = h1 then d else 0 else 0) +
   ((if P2 \<and> \<not> (P0 \<and> h0 = h2) \<and> \<not> (P1 \<and> h1 = h2) then if k = h2 then d else 0 else 0) +
   (if P3 \<and> \<not> (P0 \<and> h0 = h3) \<and> \<not> (P1 \<and> h1 = h3) \<and> \<not> (P2 \<and> h2 = h3)
    then if k = h3 then d else 0 else 0)))
   = (if P0 \<and> h0 = k \<or> P1 \<and> h1 = k \<or> P2 \<and> h2 = k \<or> P3 \<and> h3 = k then d else 0)"
  (is "?t0 + (?t1 + (?t2 + ?t3)) = ?r")
proof -
  have 0: "?t0 = (if P0 \<and> h0 = k then d else 0)" by simp
  have 1: "?t1 = (if (P1 \<and> h1 = k) \<and> \<not> (P0 \<and> h0 = k) then d else 0)" by auto
  have 2: "?t2 = (if (P2 \<and> h2 = k) \<and> \<not> (P0 \<and> h0 = k) \<and> \<not> (P1 \<and> h1 = k) then d else 0)" by auto
  have 3: "?t3 = (if (P3 \<and> h3 = k) \<and> \<not> (P0 \<and> h0 = k) \<and> \<not> (P1 \<and> h1 = k) \<and> \<not> (P2 \<and> h2 = k)
      then d else 0)" by auto
  have "(if a then d else 0) + ((if b \<and> \<not> a then d else 0) + ((if c \<and> \<not> a \<and> \<not> b then d else 0)
      + (if e \<and> \<not> a \<and> \<not> b \<and> \<not> c then d else 0))) = (if a \<or> b \<or> c \<or> e then d else 0)"
    for a b c e by (cases a; cases b; cases c; cases e) simp_all
  then show ?thesis unfolding 0 1 2 3 .
qed

lemma changeSurroundingLiberties_bump:
  "changeSurroundingLiberties loc p d b = bump (\<lambda>k. if k \<in> adj_heads b loc p then d else 0) b"
proof -
  have sub: "loc + - (x_size b + 1) = loc - (x_size b + 1)" "loc + - 1 = loc - 1" by simp_all
  have if_bump: "(if P then bump e b' else b') = bump (\<lambda>k. if P then e k else 0) b'" for P e b'
    by (simp add: bump_zero)
  show ?thesis
    unfolding changeSurroundingLiberties_def Let_def add_liberties_bump sub if_bump bump_bump
      adj_heads_iff distinct_heads_sum ..
qed

section \<open>Removing a chain\<close>

text \<open>The state after the stones \<open>S\<close> of one colour, whose opponent is \<open>opp\<close>, are gone.\<close>

definition removed :: "zobrist \<Rightarrow> player \<Rightarrow> loc set \<Rightarrow> board \<Rightarrow> board" where
  "removed Z opp S b =
     (let c = (\<lambda>l. if l \<in> S then C_EMPTY else colors b l)
      in bump (\<lambda>k. int (card {l\<in>S. k \<in> adj_heads b l opp}))
           (b\<lparr>colors := c, pos_hash := position_hash Z (x_size b) (y_size b) c\<rparr>))"

lemma removed_simps [simp]:
  "x_size (removed Z p S b) = x_size b" "y_size (removed Z p S b) = y_size b"
  "colors (removed Z p S b) = (\<lambda>l. if l \<in> S then C_EMPTY else colors b l)"
  "chain_head (removed Z p S b) = chain_head b"
  "next_in_chain (removed Z p S b) = next_in_chain b"
  "ko_loc (removed Z p S b) = ko_loc b"
  "numBlackCaptures (removed Z p S b) = numBlackCaptures b"
  "numWhiteCaptures (removed Z p S b) = numWhiteCaptures b"
  "adj_offsets (removed Z p S b) = adj_offsets b"
  "owner (chain_data (removed Z p S b) k) = owner (chain_data b k)"
  "num_locs (chain_data (removed Z p S b) k) = num_locs (chain_data b k)"
  "num_liberties (chain_data (removed Z p S b) k) =
     num_liberties (chain_data b k) + int (card {l\<in>S. k \<in> adj_heads b l p})"
  "pos_hash (removed Z p S b) =
     position_hash Z (x_size b) (y_size b) (\<lambda>l. if l \<in> S then C_EMPTY else colors b l)"
  by (simp_all add: removed_def Let_def)

lemma removed_empty: "hash_ok Z b \<Longrightarrow> removed Z p {} b = b"
  by (simp add: removed_def hash_ok_def bump_zero)

lemma removed_insert:
  assumes "finite S" "cur \<notin> S" "on_board (x_size b) (y_size b) cur"
    and opp: "colors b cur = getOpp p" "\<And>l. l \<in> S \<Longrightarrow> colors b l = getOpp p" "is_stone p"
  shows "removeChain_body Z p cur (removed Z p S b, n) = (removed Z p (insert cur S) b, n + 1)"
proof -
  let ?r = "removed Z p S b"
  let ?b1 = "set_color cur C_EMPTY (xor_hash Z cur (colors ?r cur) ?r)"
  have c: "colors ?b1 = (\<lambda>l. if l \<in> insert cur S then C_EMPTY else colors b l)"
    by (auto simp: set_color_def xor_hash_def)
  have heads: "adj_heads ?b1 cur p = adj_heads b cur p"
  proof -
    have "colors ?b1 a = p \<longleftrightarrow> colors b a = p" for a
      unfolding c using opp by auto
    moreover have "chain_head ?b1 = chain_head b" "x_size ?b1 = x_size b"
      by (simp_all add: set_color_def xor_hash_def)
    ultimately show ?thesis by (simp add: adj_heads_def)
  qed
  have h: "pos_hash ?b1 = position_hash Z (x_size b) (y_size b) (colors ?b1)"
    using position_hash_update [OF assms(3), of Z "colors ?r" C_EMPTY] assms(2) opp(1,3)
    by (simp add: set_color_def xor_hash_def stone_hash_def)
  have card: "card {l \<in> insert cur S. k \<in> adj_heads b l p}
      = card {l\<in>S. k \<in> adj_heads b l p} + (if k \<in> adj_heads b cur p then 1 else 0)" for k
  proof (cases "k \<in> adj_heads b cur p")
    case True
    then have "{l \<in> insert cur S. k \<in> adj_heads b l p} = insert cur {l\<in>S. k \<in> adj_heads b l p}"
      by auto
    with True assms(1,2) show ?thesis by simp
  next
    case False
    then have "{l \<in> insert cur S. k \<in> adj_heads b l p} = {l\<in>S. k \<in> adj_heads b l p}" by auto
    with False show ?thesis by simp
  qed
  have "removeChain_body Z p cur (?r, n) = (bump (\<lambda>k. if k \<in> adj_heads b cur p then 1 else 0) ?b1, n + 1)"
    by (simp only: removeChain_body_def Let_def prod.case changeSurroundingLiberties_bump heads)
  also have "bump (\<lambda>k. if k \<in> adj_heads b cur p then 1 else 0) ?b1 = removed Z p (insert cur S) b"
  proof (rule board.equality)
    show "colors (bump (\<lambda>k. if k \<in> adj_heads b cur p then 1 else 0) ?b1) = colors (removed Z p (insert cur S) b)"
      unfolding bump_simps(3) c unfolding removed_simps(3) ..
    show "pos_hash (bump (\<lambda>k. if k \<in> adj_heads b cur p then 1 else 0) ?b1) = pos_hash (removed Z p (insert cur S) b)"
      unfolding bump_simps(7) h c unfolding removed_simps(13) by (simp add: set_color_def xor_hash_def)
    show "chain_data (bump (\<lambda>k. if k \<in> adj_heads b cur p then 1 else 0) ?b1) = chain_data (removed Z p (insert cur S) b)"
      by (rule ext, rule ChainData.equality) (simp_all only: bump_simps removed_simps card,
          simp_all add: set_color_def xor_hash_def)
  qed (simp_all add: set_color_def xor_hash_def)
  finally show ?thesis .
qed

lemma fold_removeChain_body:
  assumes "finite S" "S \<inter> set xs = {}" "distinct xs"
    and "\<And>l. l \<in> set xs \<Longrightarrow> on_board (x_size b) (y_size b) l"
    and "\<And>l. l \<in> S \<union> set xs \<Longrightarrow> colors b l = getOpp p" "is_stone p"
  shows "fold (removeChain_body Z p) xs (removed Z p S b, n)
       = (removed Z p (S \<union> set xs) b, n + int (length xs))"
  using assms
proof (induction xs arbitrary: S n)
  case Nil
  then show ?case by simp
next
  case (Cons x xs)
  have "removeChain_body Z p x (removed Z p S b, n) = (removed Z p (insert x S) b, n + 1)"
    by (rule removed_insert) (use Cons.prems in auto)
  moreover have "fold (removeChain_body Z p) xs (removed Z p (insert x S) b, n + 1)
       = (removed Z p (insert x S \<union> set xs) b, n + 1 + int (length xs))"
    by (rule Cons.IH) (use Cons.prems in auto)
  ultimately show ?case by simp
qed

lemma removeChain_eq:
  assumes "core Z off E b" "is_stone (colors b loc)"
  shows "removeChain Z loc b =
    Some (removed Z (getOpp (colors b loc)) (chain_of b (chain_head b loc)) b,
          int (card (chain_of b (chain_head b loc))))"
proof -
  let ?S = "chain_of b (chain_head b loc)"
  let ?p = "getOpp (colors b loc)"
  from assms have g: "geom_ok b" and h: "hash_ok Z b" and c: "chains_ok b off" by (simp_all add: core_def)
  from chain_ring [OF c assms(2)] obtain ps
    where r: "ring (next_in_chain b) loc ps" and s: "set (loc # ps) = ?S" by blast
  have d: "distinct (loc # ps)" using r by (simp add: ring_def)
  have walk: "walk_all (\<lambda>(b, _). next_in_chain b) (removeChain_body Z ?p) loc (b, 0)
      = Some (fold (removeChain_body Z ?p) (loc # ps) (b, 0))"
    by (rule walk_all_ring [OF r, where I = "\<lambda>s. next_in_chain (fst s) = next_in_chain b"])
      (auto simp: removeChain_body_def Let_def changeSurroundingLiberties_bump set_color_def xor_hash_def)
  have col: "colors b l = colors b loc" if "l \<in> ?S" for l
    using chain_ok_color [OF chains_ok_chain [OF c chains_ok_head [OF c assms(2)]] that]
      head_color [OF c assms(2)] by simp
  have "fold (removeChain_body Z ?p) (loc # ps) (removed Z ?p {} b, 0)
      = (removed Z ?p ({} \<union> set (loc # ps)) b, 0 + int (length (loc # ps)))"
  proof (rule fold_removeChain_body)
    show "on_board (x_size b) (y_size b) l" if "l \<in> set (loc # ps)" for l
      using that s chain_of_subset [OF g] by blast
    show "colors b l = getOpp ?p" if "l \<in> {} \<union> set (loc # ps)" for l
      using col that s by auto
  qed (use d assms(2) in simp_all)
  with walk s distinct_card [OF d] show ?thesis
    by (simp add: removeChain_def removed_empty [OF h] del: fold_simps)
qed

text \<open>
  Removing a whole chain with no neighbour of its own colour outside it keeps the invariant,
  offsets included, and every other chain.
\<close>

lemma heads_removed:
  assumes "S = chain_of b h"
  shows "heads (removed Z p S b) = heads b - {h}"
  using assms by (auto simp: heads_def chain_of_def)

lemma libs_of_removed:
  assumes "T \<inter> S = {}"
  shows "libs_of (removed Z p S b) T = libs_of b T \<union> {e\<in>S. \<exists>l\<in>T. adjacent (x_size b) l e}"
  using assms by (auto simp: libs_of_def)

lemma geom_removed:
  assumes "geom_ok b" "\<And>l. l \<in> S \<Longrightarrow> on_board (x_size b) (y_size b) l"
  shows "geom_ok (removed Z p S b)"
  using assms by (auto simp: geom_ok_def)

lemma chain_ok_removed:
  assumes core: "core Z off E b" and h: "h \<in> heads b" and S: "S \<subseteq> chain_of b h"
    and k: "k \<in> heads b" "k \<noteq> h"
    and closed: "\<And>l m. l \<in> S \<Longrightarrow> adjacent (x_size b) l m \<Longrightarrow> colors b m = colors b l \<Longrightarrow> m \<in> chain_of b h"
  shows "chain_ok (removed Z (getOpp (colors b h)) S b) (off k) k"
    "chain_of (removed Z (getOpp (colors b h)) S b) k = chain_of b k"
proof -
  let ?p = "getOpp (colors b h)" let ?b = "removed Z ?p S b"
  from core have g: "geom_ok b" and c: "chains_ok b off" by (simp_all add: core_def)
  have col: "colors b l = colors b h" if "l \<in> S" for l
    using chain_ok_color [OF chains_ok_chain [OF c h]] that S by blast
  have fin: "finite S" using finite_subset [OF S finite_chain_of [OF g]] .
  from chains_ok_chain [OF c k(1)] have ok: "chain_ok b (off k) k" .
  have dis: "chain_of b k \<inter> chain_of b h = {}" using chain_of_disjoint [OF k(2)] .
  then have disS: "chain_of b k \<inter> S = {}" using S by blast
  show ch: "chain_of ?b k = chain_of b k" using disS by (auto simp: chain_of_def)
  have kS: "k \<notin> S" using disS chain_of_self [OF k(1)] by blast
  have eq: "{e\<in>S. \<exists>l\<in>chain_of b k. adjacent (x_size b) l e} = {l\<in>S. k \<in> adj_heads b l ?p}"
  proof (cases "colors b k = ?p")
    case True
    have "colors b a = ?p \<longleftrightarrow> is_stone (colors b a)" if "chain_head b a = k" for a
      using that True head_color [OF c, of a] heads_stone [OF h] by (metis getOpp_simps(4))
    then show ?thesis by (auto simp: adj_heads_def chain_of_def adjacent_sym)
  next
    case False
    with stone_colors [OF heads_stone [OF k(1)] heads_stone [OF h]] have kc: "colors b k = colors b h" by simp
    have "e \<notin> S" if "l \<in> chain_of b k" "adjacent (x_size b) l e" for l e
      using closed [of e l] that dis col [of e] chain_ok_color [OF ok that(1)] kc
      by (auto simp: adjacent_sym)
    moreover have "k \<notin> adj_heads b l ?p" for l
      using False head_color [OF c] heads_stone [OF h] by (auto simp: adj_heads_def)
    ultimately show ?thesis by auto
  qed
  have "card (libs_of ?b (chain_of ?b k)) = card (libs_of b (chain_of b k)) + card {l\<in>S. k \<in> adj_heads b l ?p}"
    unfolding ch libs_of_removed [OF disS] eq
    using col heads_stone [OF h] fin finite_libs_of [OF g]
    by (intro card_Un_disjoint) (auto simp: libs_of_def)
  moreover have "\<forall>l\<in>chain_of b k. l \<notin> S" using disS by blast
  ultimately show "chain_ok ?b (off k) k" using ok kS by (simp add: chain_ok_def ch)
qed

lemma core_removed:
  assumes core: "core Z off E b" and h: "h \<in> heads b" and S: "S = chain_of b h"
    and closed: "\<And>l m. l \<in> S \<Longrightarrow> adjacent (x_size b) l m \<Longrightarrow> colors b m = colors b l \<Longrightarrow> m \<in> S"
  shows "core Z off E (removed Z (getOpp (colors b h)) S b)"
proof -
  let ?p = "getOpp (colors b h)" let ?b = "removed Z ?p S b"
  from core have g: "geom_ok b" and c: "chains_ok b off" and m: "max_ok b E" by (simp_all add: core_def)
  have "chain_ok ?b (off k) k" if "k \<in> heads b" "k \<noteq> h" for k
    by (rule chain_ok_removed(1) [OF core h _ that]) (use S closed in auto)
  then have "chains_ok ?b off"
    using c unfolding chains_ok_def heads_removed [OF S] by (auto simp: S chain_of_def)
  moreover have "geom_ok ?b"
    using chain_of_subset [OF g] S by (intro geom_removed g) auto
  moreover have "max_ok ?b E"
    using m unfolding max_ok_def removed_simps by (metis is_stone_simps(3))
  ultimately show ?thesis by (simp add: core_def hash_ok_def)
qed

section \<open>Merging two chains\<close>

definition rehead :: "loc set \<Rightarrow> loc \<Rightarrow> board \<Rightarrow> board" where
  "rehead P h b = b\<lparr>chain_head := (\<lambda>l. if l \<in> P then h else chain_head b l)\<rparr>"

lemma rehead_simps [simp]:
  "x_size (rehead P h b) = x_size b" "y_size (rehead P h b) = y_size b"
  "colors (rehead P h b) = colors b" "chain_data (rehead P h b) = chain_data b"
  "next_in_chain (rehead P h b) = next_in_chain b" "pos_hash (rehead P h b) = pos_hash b"
  "chain_head (rehead P h b) = (\<lambda>l. if l \<in> P then h else chain_head b l)"
  "ko_loc (rehead P h b) = ko_loc b" "numBlackCaptures (rehead P h b) = numBlackCaptures b"
  "numWhiteCaptures (rehead P h b) = numWhiteCaptures b" "adj_offsets (rehead P h b) = adj_offsets b"
  "rehead {} h b = b"
  by (simp_all add: rehead_def)

lemma set_head_rehead: "set_head l h (rehead P h b) = rehead (insert l P) h b"
  by (simp add: set_head_def rehead_def fun_eq_iff)

text \<open>
  Counting the empty neighbours of \<open>loc\<close> that are no liberty of a set of stones \<open>A\<close> yet gives
  the liberties that \<open>loc\<close> adds to \<open>A\<close>.
\<close>

lemma count_new_liberties:
  assumes "1 \<le> x_size b"
    and A: "\<And>l. colors b' l = colors b' h \<and> chain_head b' l = h \<longleftrightarrow> l \<in> A"
    and eq: "colors b' = colors b" "x_size b' = x_size b"
  shows "length (filter (\<lambda>adj. colors b' adj = C_EMPTY \<and> \<not> isLibertyOf b' adj h) (adjs (x_size b') loc))
    = card (libs_of b (insert loc A) - libs_of b A)"
proof -
  have lib: "isLibertyOf b' e h \<longleftrightarrow> (\<exists>a\<in>A. adjacent (x_size b) a e)" for e
    unfolding isLibertyOf_def list_ex_iff A set_adjs
    by (auto simp: adjacent_sym eq)
  have "{e. adjacent (x_size b) loc e \<and> colors b' e = C_EMPTY \<and> \<not> isLibertyOf b' e h}
      = libs_of b (insert loc A) - libs_of b A"
    unfolding lib by (auto simp: libs_of_def eq)
  then show ?thesis using length_filter_adjs [OF assms(1)] eq by simp
qed

lemma mergeChains_loop_path:
  assumes "path (next_in_chain b) loc (loc # xs) h2" "h2 \<notin> set xs" "distinct (loc # xs)"
    and g: "geom_ok b" "1 \<le> x_size b" "is_stone (colors b h1)"
    and A: "\<And>l. colors b l = colors b h1 \<and> chain_head b l = h1 \<longleftrightarrow> l \<in> A"
    and "\<And>l. l \<in> P \<union> set (loc # xs) \<Longrightarrow> colors b l = colors b h1"
    and "set (loc # xs) \<inter> P = {}"
  shows "mergeChains_loop h1 h2 loc (rehead P h1 b) n =
    Some (rehead (P \<union> set (loc # xs)) h1 b,
      n + int (card (libs_of b (A \<union> P \<union> set (loc # xs)) - libs_of b (A \<union> P))), last (loc # xs))"
proof -
  have cnt: "fold (\<lambda>adj n. if colors (rehead P h1 b) adj = C_EMPTY \<and> \<not> isLibertyOf (rehead P h1 b) adj h1
        then n + 1 else n) (adjs (x_size (rehead P h1 b)) loc) n
      = n + int (card (libs_of b (A \<union> insert loc P) - libs_of b (A \<union> P)))"
    if "\<And>l. l \<in> P \<Longrightarrow> colors b l = colors b h1" for P loc n
  proof -
    have A': "colors (rehead P h1 b) l = colors (rehead P h1 b) h1 \<and> chain_head (rehead P h1 b) l = h1
        \<longleftrightarrow> l \<in> A \<union> P" for l
      using A [of l] that by auto
    show ?thesis
      unfolding fold_count count_new_liberties [OF g(2) A' rehead_simps(3,1), of loc] Un_insert_right ..
  qed
  show ?thesis
    using assms(1-3,8,9)
  proof (induction xs arbitrary: loc P n)
    case Nil
    from Nil.prems(1) cnt [of P loc n] Nil.prems(4) show ?case
      by (subst mergeChains_loop.simps) (simp add: set_head_rehead)
  next
    case (Cons x xs)
    let ?Q = "insert loc P"
    have IH: "mergeChains_loop h1 h2 x (rehead ?Q h1 b) m =
      Some (rehead (?Q \<union> set (x # xs)) h1 b,
        m + int (card (libs_of b (A \<union> ?Q \<union> set (x # xs)) - libs_of b (A \<union> ?Q))), last (x # xs))" for m
      by (rule Cons.IH) (use Cons.prems in auto)
    have sets: "A \<union> ?Q \<union> set (x # xs) = A \<union> P \<union> set (loc # x # xs)"
        "?Q \<union> set (x # xs) = P \<union> set (loc # x # xs)" by auto
    have card: "card (libs_of b (A \<union> ?Q) - libs_of b (A \<union> P))
          + card (libs_of b (A \<union> P \<union> set (loc # x # xs)) - libs_of b (A \<union> ?Q))
        = card (libs_of b (A \<union> P \<union> set (loc # x # xs)) - libs_of b (A \<union> P))"
      by (subst card_Un_disjoint [symmetric])
        (auto simp: finite_libs_of [OF g(1)] libs_of_Un intro!: arg_cong [where f = card], auto simp: libs_of_def)
    have nx: "next_in_chain b loc = x" "x \<noteq> h2" using Cons.prems(1,2) by auto
    have "mergeChains_loop h1 h2 loc (rehead P h1 b) n
        = mergeChains_loop h1 h2 x (rehead ?Q h1 b)
            (n + int (card (libs_of b (A \<union> ?Q) - libs_of b (A \<union> P))))"
      using cnt [of P loc n] Cons.prems(4) nx
      by (subst mergeChains_loop.simps) (simp add: set_head_rehead)
    then show ?case
      unfolding IH sets using card by simp
  qed
qed

text \<open>The part of \<open>mergeChains\<close> after the two heads are ordered.\<close>

definition absorb :: "loc \<Rightarrow> loc \<Rightarrow> board \<Rightarrow> board option" where
  "absorb head1 head2 b =
     (let b = add_locs head1 (num_locs (chain_data b head2)) b
      in Option.bind (mergeChains_loop head1 head2 head2 b 0)
           (\<lambda>(b, numNewLiberties, loc).
              let b = add_liberties head1 numNewLiberties b;
                  b = set_next loc (next_in_chain b head1) b;
                  b = set_next head1 head2 b
              in Some b))"

lemma mergeChains_absorb:
  "mergeChains loc1 loc2 b =
     (let head1 = chain_head b loc1; head2 = chain_head b loc2
      in if head1 = head2 \<or> owner (chain_data b head1) \<noteq> owner (chain_data b head2) then None
         else if num_locs (chain_data b head1) < num_locs (chain_data b head2)
         then absorb head2 head1 b else absorb head1 head2 b)"
  unfolding mergeChains_def absorb_def Let_def by (simp split: if_split)

text \<open>What a merge changes: one chain takes over the stones of the other.\<close>

definition merged :: "loc \<Rightarrow> loc \<Rightarrow> board \<Rightarrow> board \<Rightarrow> bool" where
  "merged h k b b' \<longleftrightarrow>
     x_size b' = x_size b \<and> y_size b' = y_size b \<and> adj_offsets b' = adj_offsets b \<and>
     colors b' = colors b \<and> pos_hash b' = pos_hash b \<and> ko_loc b' = ko_loc b \<and>
     numBlackCaptures b' = numBlackCaptures b \<and> numWhiteCaptures b' = numWhiteCaptures b \<and>
     chain_head b' = (\<lambda>l. if l \<in> chain_of b k then h else chain_head b l) \<and>
     (\<forall>j. j \<noteq> h \<longrightarrow> chain_data b' j = chain_data b j) \<and>
     owner (chain_data b' h) = owner (chain_data b h) \<and>
     num_locs (chain_data b' h) = num_locs (chain_data b h) + num_locs (chain_data b k) \<and>
     num_liberties (chain_data b' h) = num_liberties (chain_data b h) +
       int (card (libs_of b (chain_of b h \<union> chain_of b k) - libs_of b (chain_of b h)))"

lemma absorb_merged:
  assumes core: "core Z off E b" and h: "h \<in> heads b" and k: "k \<in> heads b"
    and ne: "h \<noteq> k" and col: "colors b h = colors b k"
  shows "\<exists>b' ps. absorb h k b = Some b' \<and> merged h k b b' \<and>
    ring (next_in_chain b') h ps \<and> set (h # ps) = chain_of b h \<union> chain_of b k \<and>
    (\<forall>l. l \<notin> chain_of b h \<union> chain_of b k \<longrightarrow> next_in_chain b' l = next_in_chain b l)"
proof -
  from core have g: "geom_ok b" and c: "chains_ok b off" by (simp_all add: core_def)
  let ?A = "chain_of b h" let ?B = "chain_of b k"
  from chains_ok_chain [OF c h] obtain ps where rh: "ring (next_in_chain b) h ps" "set (h # ps) = ?A"
    by (auto simp: chain_ok_def)
  from chains_ok_chain [OF c k] obtain qs where rk: "ring (next_in_chain b) k qs" "set (k # qs) = ?B"
    by (auto simp: chain_ok_def)
  let ?b0 = "add_locs h (num_locs (chain_data b k)) b" let ?z = "last (k # qs)"
  let ?new = "int (card (libs_of b (?A \<union> ?B) - libs_of b ?A))"
  have colA: "colors b l = colors b h" if "l \<in> ?A \<union> ?B" for l
    using that chain_ok_color [OF chains_ok_chain [OF c h]] chain_ok_color [OF chains_ok_chain [OF c k]] col
    by auto
  have memA: "colors ?b0 l = colors ?b0 h \<and> chain_head ?b0 l = h \<longleftrightarrow> l \<in> ?A" for l
    using colA [of l] heads_stone [OF h] by (auto simp: add_locs_def chain_of_def)
  have lib0: "libs_of ?b0 S = libs_of b S" for S by (simp add: libs_of_def add_locs_def)
  have "mergeChains_loop h k k (rehead {} h ?b0) 0 =
    Some (rehead ({} \<union> set (k # qs)) h ?b0,
      0 + int (card (libs_of ?b0 (?A \<union> {} \<union> set (k # qs)) - libs_of ?b0 (?A \<union> {}))), ?z)"
  proof (rule mergeChains_loop_path)
    show "path (next_in_chain ?b0) k (k # qs) k" "k \<notin> set qs" "distinct (k # qs)"
      using rk(1) by (auto simp: ring_def add_locs_def)
    show "geom_ok ?b0" using g by (simp add: geom_ok_def add_locs_def)
    show "1 \<le> x_size ?b0"
      using on_board_xs [OF geom_stone_on_board [OF g heads_stone [OF h]]] by (simp add: add_locs_def)
    show "is_stone (colors ?b0 h)" using heads_stone [OF h] by (simp add: add_locs_def)
    show "colors ?b0 l = colors ?b0 h" if "l \<in> {} \<union> set (k # qs)" for l
      using that rk(2) colA by (auto simp: add_locs_def)
  qed (rule memA, simp)
  then have loop: "mergeChains_loop h k k ?b0 0 = Some (rehead ?B h ?b0, ?new, ?z)"
    using rk(2) by (simp add: lib0 del: set_simps)
  define b' where "b' = set_next h k (set_next ?z (next_in_chain b h)
      (add_liberties h ?new (rehead ?B h ?b0)))"
  have ab: "absorb h k b = Some b'"
    by (simp add: absorb_def loop b'_def Let_def update_defs)
  have dis: "?A \<inter> ?B = {}" by (rule chain_of_disjoint [OF ne])
  have nx: "next_in_chain b' = (next_in_chain b)(?z := next_in_chain b h, h := k)"
    by (simp add: b'_def update_defs)
  have "ring (next_in_chain b') h ((k # qs) @ ps)"
    unfolding nx by (rule ring_splice [OF rh(1) rk(1)]) (use dis rh(2) rk(2) in auto)
  moreover have "set (h # (k # qs) @ ps) = ?A \<union> ?B" using rh(2) rk(2) by auto
  moreover have "next_in_chain b' l = next_in_chain b l" if "l \<notin> ?A \<union> ?B" for l
  proof -
    have "?z \<in> ?B" "h \<in> ?A" using rk(2) last_in_set [of "k # qs"] chain_of_self [OF h] by auto
    with that show ?thesis unfolding nx by auto
  qed
  moreover have "merged h k b b'"
    using ne by (auto simp: merged_def b'_def update_defs)
  ultimately show ?thesis using ab by blast
qed

lemma merged_chains:
  assumes m: "merged h k b b'" and h: "h \<in> heads b" and k: "k \<in> heads b" and ne: "h \<noteq> k"
  shows "heads b' = heads b - {k}" and "chain_of b' h = chain_of b h \<union> chain_of b k"
    and "j \<noteq> h \<Longrightarrow> j \<noteq> k \<Longrightarrow> chain_of b' j = chain_of b j"
proof -
  have kk: "k \<in> chain_of b k" by (rule chain_of_self [OF k])
  have hk: "h \<notin> chain_of b k" using heads_self [OF h] ne by (auto simp: chain_of_def)
  show "heads b' = heads b - {k}"
    using m h ne kk hk by (auto simp: merged_def heads_def chain_of_def split: if_splits)
  show "chain_of b' h = chain_of b h \<union> chain_of b k"
    using m by (auto simp: merged_def chain_of_def split: if_splits)
  show "j \<noteq> h \<Longrightarrow> j \<noteq> k \<Longrightarrow> chain_of b' j = chain_of b j"
    using m by (auto simp: merged_def chain_of_def split: if_splits)
qed

lemma core_merged:
  assumes core: "core Z off E b" and h: "h \<in> heads b" and k: "k \<in> heads b"
    and ne: "h \<noteq> k" and col: "colors b h = colors b k"
    and adj: "u \<in> chain_of b h" "v \<in> chain_of b k" "adjacent (x_size b) u v"
    and m: "merged h k b b'"
    and r: "ring (next_in_chain b') h ps" "set (h # ps) = chain_of b h \<union> chain_of b k"
    and nx: "\<And>l. l \<notin> chain_of b h \<union> chain_of b k \<Longrightarrow> next_in_chain b' l = next_in_chain b l"
  shows "core Z off E b'"
proof -
  from core have g: "geom_ok b" and hs: "hash_ok Z b" and c: "chains_ok b off" and mx: "max_ok b E"
    by (simp_all add: core_def)
  let ?A = "chain_of b h" let ?B = "chain_of b k"
  note mc = merged_chains [OF m h k ne]
  have col': "colors b' = colors b" and xs: "x_size b' = x_size b" using m by (simp_all add: merged_def)
  have lib: "libs_of b' S = libs_of b S" for S by (simp add: libs_of_def col' xs)
  have okh: "chain_ok b (off h) h" and okk: "chain_ok b (off k) k"
    using chains_ok_chain [OF c] h k by blast+
  have dis: "?A \<inter> ?B = {}" by (rule chain_of_disjoint [OF ne])
  have "chain_ok b' (off h) h"
  proof -
    have "card (libs_of b (?A \<union> ?B) - libs_of b ?A) + card (libs_of b ?A) = card (libs_of b (?A \<union> ?B))"
      by (subst card_Un_disjoint [symmetric]) (auto simp: finite_libs_of [OF g] libs_of_Un intro!: arg_cong [where f = card])
    moreover have "card (?A \<union> ?B) = card ?A + card ?B"
      by (rule card_Un_disjoint [OF finite_chain_of [OF g] finite_chain_of [OF g] dis])
    moreover have "conn (x_size b) (?A \<union> ?B)"
      using okh okk adj by (intro conn_union [of _ _ _ u v]) (auto simp: chain_ok_def)
    moreover have "\<forall>l\<in>?A \<union> ?B. colors b l = colors b h"
      using chain_ok_color [OF okh] chain_ok_color [OF okk] col by auto
    moreover have "owner (chain_data b' h) = colors b h"
        "num_locs (chain_data b' h) = int (card ?A) + int (card ?B)"
        "num_liberties (chain_data b' h) =
           int (card (libs_of b ?A)) + off h + int (card (libs_of b (?A \<union> ?B) - libs_of b ?A))"
      using m okh okk by (simp_all add: merged_def chain_ok_def)
    ultimately show ?thesis
      using r unfolding chain_ok_def mc(2) lib col' xs by auto
  qed
  moreover have "chain_ok b' (off j) j" if j: "j \<in> heads b" "j \<noteq> h" "j \<noteq> k" for j
  proof -
    from chains_ok_chain [OF c j(1)] have ok: "chain_ok b (off j) j" .
    then obtain qs where q: "ring (next_in_chain b) j qs" "set (j # qs) = chain_of b j"
      by (auto simp: chain_ok_def)
    have "chain_of b j \<inter> (?A \<union> ?B) = {}" using chain_of_disjoint j(2,3) by blast
    then have "ring (next_in_chain b') j qs"
      using q by (intro ring_cong [OF q(1)] nx [symmetric]) auto
    moreover have "chain_data b' j = chain_data b j" using m j(2) by (simp add: merged_def)
    ultimately show ?thesis
      using ok q unfolding chain_ok_def mc(3) [OF j(2,3)] lib col' xs by auto
  qed
  moreover have "chain_head b' l \<in> heads b - {k}" if "is_stone (colors b l)" for l
    using chains_ok_head [OF c that] m h ne that by (auto simp: merged_def chain_of_def)
  ultimately have "chains_ok b' off"
    unfolding chains_ok_def mc(1) col' by auto
  moreover have "geom_ok b'" using g m by (simp add: geom_ok_def merged_def)
  moreover have "hash_ok Z b'" using hs m by (simp add: hash_ok_def merged_def)
  moreover have "max_ok b' E"
    unfolding max_ok_def xs col'
  proof (intro allI impI, elim conjE)
    fix l j assume lj: "adjacent (x_size b) l j" "is_stone (colors b l)" "colors b j = colors b l"
    have hd: "chain_head b' = (\<lambda>l. if l \<in> chain_of b k then h else chain_head b l)"
      using m by (simp add: merged_def)
    have "chain_head b l = chain_head b j \<or> (l, j) \<in> E \<or> (j, l) \<in> E"
      using mx lj unfolding max_ok_def by blast
    moreover have "chain_head b' l = chain_head b' j" if "chain_head b l = chain_head b j"
      using that lj unfolding hd by (simp add: chain_of_def)
    ultimately show "chain_head b' l = chain_head b' j \<or> (l, j) \<in> E \<or> (j, l) \<in> E" by blast
  qed
  ultimately show ?thesis by (simp add: core_def)
qed

text \<open>\<open>mergeChains\<close> on two adjacent chains of one colour.\<close>

lemma mergeChains_core:
  assumes core: "core Z off E b" and s: "is_stone (colors b l1)" and col: "colors b l1 = colors b l2"
    and ne: "chain_head b l1 \<noteq> chain_head b l2" and adj: "adjacent (x_size b) l1 l2"
  shows "\<exists>b' h k. mergeChains l1 l2 b = Some b' \<and> core Z off E b' \<and> merged h k b b' \<and>
    {h, k} = {chain_head b l1, chain_head b l2} \<and> h \<noteq> k \<and> h \<in> heads b \<and> k \<in> heads b"
proof -
  let ?h1 = "chain_head b l1" let ?h2 = "chain_head b l2"
  from core have c: "chains_ok b off" by (simp add: core_def)
  have s2: "is_stone (colors b l2)" using s col by simp
  have h1: "?h1 \<in> heads b" and h2: "?h2 \<in> heads b"
    using chains_ok_head [OF c] s s2 by auto
  have colh: "colors b ?h1 = colors b ?h2" using head_color [OF c s] head_color [OF c s2] col by simp
  have ow: "owner (chain_data b ?h1) = owner (chain_data b ?h2)"
    using chains_ok_chain [OF c h1] chains_ok_chain [OF c h2] colh by (simp add: chain_ok_def)
  have mem: "l1 \<in> chain_of b ?h1" "l2 \<in> chain_of b ?h2" using chain_of_mem s s2 by auto
  show ?thesis
  proof (cases "num_locs (chain_data b ?h1) < num_locs (chain_data b ?h2)")
    case True
    from absorb_merged [OF core h2 h1 ne [symmetric] colh [symmetric]] obtain b' ps
      where b': "absorb ?h2 ?h1 b = Some b'" "merged ?h2 ?h1 b b'"
        "ring (next_in_chain b') ?h2 ps" "set (?h2 # ps) = chain_of b ?h2 \<union> chain_of b ?h1"
        "\<forall>l. l \<notin> chain_of b ?h2 \<union> chain_of b ?h1 \<longrightarrow> next_in_chain b' l = next_in_chain b l"
      by blast
    have "core Z off E b'"
      by (rule core_merged [OF core h2 h1 ne [symmetric] colh [symmetric] mem(2,1) _ b'(2-4)])
        (use adj b'(5) in \<open>auto simp: adjacent_sym\<close>)
    moreover have "mergeChains l1 l2 b = Some b'"
      using True ne ow b'(1) by (simp add: mergeChains_absorb Let_def)
    ultimately show ?thesis using b'(2) ne h1 h2
      by (intro exI [of _ b'] exI [of _ ?h2] exI [of _ ?h1]) auto
  next
    case False
    from absorb_merged [OF core h1 h2 ne colh] obtain b' ps
      where b': "absorb ?h1 ?h2 b = Some b'" "merged ?h1 ?h2 b b'"
        "ring (next_in_chain b') ?h1 ps" "set (?h1 # ps) = chain_of b ?h1 \<union> chain_of b ?h2"
        "\<forall>l. l \<notin> chain_of b ?h1 \<union> chain_of b ?h2 \<longrightarrow> next_in_chain b' l = next_in_chain b l"
      by blast
    have "core Z off E b'"
      by (rule core_merged [OF core h1 h2 ne colh mem _ b'(2-4)])
        (use adj b'(5) in auto)
    moreover have "mergeChains l1 l2 b = Some b'"
      using False ne ow b'(1) by (simp add: mergeChains_absorb Let_def)
    ultimately show ?thesis using b'(2) ne h1 h2
      by (intro exI [of _ b'] exI [of _ ?h1] exI [of _ ?h2]) auto
  qed
qed

end
