(* ===== verification/BoardPlay.thy ===== *)
theory BoardPlay
  imports BoardOps
begin

text \<open>
  Playing a move: \<open>playMoveAssumeLegal\<close> keeps the invariant of the board and does what the
  Tromp-Taylor rules of Go say a move does. The abstract specification speaks of colours
  only; chains, heads, liberty counts and hashes are the implementation's.
\<close>

section \<open>The rules, on colours alone\<close>

text \<open>The stones connected to a stone, and whether one of them has an empty neighbour.\<close>

definition group :: "int \<Rightarrow> (loc \<Rightarrow> color) \<Rightarrow> loc \<Rightarrow> loc set" where
  "group xs c l = {m. (l, m) \<in> {(u, v). adjacent xs u v \<and> c u = c l \<and> c v = c l}\<^sup>*}"

definition has_liberty :: "int \<Rightarrow> (loc \<Rightarrow> color) \<Rightarrow> loc \<Rightarrow> bool" where
  "has_liberty xs c l \<longleftrightarrow> (\<exists>m\<in>group xs c l. \<exists>e. adjacent xs m e \<and> c e = C_EMPTY)"

text \<open>Clearing a colour: every stone of that colour that does not reach empty goes.\<close>

definition tt_clear :: "int \<Rightarrow> player \<Rightarrow> (loc \<Rightarrow> color) \<Rightarrow> loc \<Rightarrow> color" where
  "tt_clear xs p c = (\<lambda>l. if c l = p \<and> \<not> has_liberty xs c l then C_EMPTY else c l)"

text \<open>A move: place the stone, clear the opponent, clear the mover.\<close>

definition tt_play :: "int \<Rightarrow> loc \<Rightarrow> player \<Rightarrow> (loc \<Rightarrow> color) \<Rightarrow> loc \<Rightarrow> color" where
  "tt_play xs loc p c = tt_clear xs p (tt_clear xs (getOpp p) (c(loc := p)))"

text \<open>The stones that each of the two clearings takes.\<close>

definition tt_captured :: "int \<Rightarrow> loc \<Rightarrow> player \<Rightarrow> (loc \<Rightarrow> color) \<Rightarrow> loc set" where
  "tt_captured xs loc p c =
     {l. (c(loc := p)) l = getOpp p \<and> \<not> has_liberty xs (c(loc := p)) l}"

definition tt_suicided :: "int \<Rightarrow> loc \<Rightarrow> player \<Rightarrow> (loc \<Rightarrow> color) \<Rightarrow> loc set" where
  "tt_suicided xs loc p c =
     (let c = tt_clear xs (getOpp p) (c(loc := p)) in {l. c l = p \<and> \<not> has_liberty xs c l})"

text \<open>A connected, maximal set of stones of one colour is a group.\<close>

lemma group_eq:
  assumes "conn xs S" "l \<in> S" "\<And>m. m \<in> S \<Longrightarrow> c m = c l"
    and closed: "\<And>u v. u \<in> S \<Longrightarrow> adjacent xs u v \<Longrightarrow> c v = c l \<Longrightarrow> v \<in> S"
  shows "group xs c l = S"
proof
  show "S \<subseteq> group xs c l"
  proof
    fix m assume "m \<in> S"
    with assms(1,2) have "(l, m) \<in> (step_in xs S)\<^sup>*" by (auto simp: conn_def)
    moreover have "step_in xs S \<subseteq> {(u, v). adjacent xs u v \<and> c u = c l \<and> c v = c l}"
      using assms(3) by (auto simp: step_in_def)
    ultimately show "m \<in> group xs c l"
      unfolding group_def using rtrancl_mono [of "step_in xs S"] by blast
  qed
  show "group xs c l \<subseteq> S"
  proof
    fix m assume "m \<in> group xs c l"
    then have "(l, m) \<in> {(u, v). adjacent xs u v \<and> c u = c l \<and> c v = c l}\<^sup>*" by (simp add: group_def)
    then show "m \<in> S"
      by (induction rule: rtrancl_induct) (use assms(2) closed in auto)
  qed
qed

text \<open>In a state whose chains of one colour are maximal, chains of that colour are groups.\<close>

lemma chain_group:
  assumes c: "chains_ok b off" and s: "is_stone (colors b l)"
    and mx: "\<And>u v. adjacent (x_size b) u v \<Longrightarrow> colors b u = colors b l \<Longrightarrow> colors b v = colors b l
        \<Longrightarrow> chain_head b u = chain_head b v"
  shows "group (x_size b) (colors b) l = chain_of b (chain_head b l)"
proof -
  let ?h = "chain_head b l"
  note ok = chains_ok_chain [OF c chains_ok_head [OF c s]]
  have col: "colors b m = colors b l" if "m \<in> chain_of b ?h" for m
    using chain_ok_color [OF ok that] head_color [OF c s] by simp
  show ?thesis
  proof (rule group_eq)
    show "conn (x_size b) (chain_of b ?h)" using ok by (simp add: chain_ok_def)
    show "l \<in> chain_of b ?h" by (rule chain_of_mem [OF s])
    show "colors b m = colors b l" if "m \<in> chain_of b ?h" for m by (rule col [OF that])
    show "v \<in> chain_of b ?h"
      if uv: "u \<in> chain_of b ?h" "adjacent (x_size b) u v" "colors b v = colors b l" for u v
    proof -
      have "chain_head b v = chain_head b u" using mx [OF uv(2) col [OF uv(1)] uv(3)] by simp
      then show ?thesis using uv s by (simp add: chain_of_def)
    qed
  qed
qed

lemma has_liberty_chain:
  assumes c: "chains_ok b off" and s: "is_stone (colors b l)"
    and mx: "\<And>u v. adjacent (x_size b) u v \<Longrightarrow> colors b u = colors b l \<Longrightarrow> colors b v = colors b l
        \<Longrightarrow> chain_head b u = chain_head b v"
  shows "has_liberty (x_size b) (colors b) l \<longleftrightarrow> libs_of b (chain_of b (chain_head b l)) \<noteq> {}"
proof -
  have eq: "group (x_size b) (colors b) l = chain_of b (chain_head b l)"
    by (rule chain_group [OF c s mx])
  show ?thesis unfolding has_liberty_def eq libs_of_def by blast
qed

section \<open>Adjusting the layers of the invariant\<close>

lemma core_weaken:
  assumes "core Z off E b" and "\<And>h. h \<in> heads b \<Longrightarrow> off h = off' h"
    and "\<And>l m. (l, m) \<in> E \<Longrightarrow> adjacent (x_size b) l m \<Longrightarrow> is_stone (colors b l) \<Longrightarrow>
        colors b m = colors b l \<Longrightarrow> chain_head b l = chain_head b m \<or> (l, m) \<in> E'"
  shows "core Z off' E' b"
proof -
  have "max_ok b E'"
    unfolding max_ok_def
  proof (intro allI impI, elim conjE)
    fix l m assume lm: "adjacent (x_size b) l m" "is_stone (colors b l)" "colors b m = colors b l"
    then have "chain_head b l = chain_head b m \<or> (l, m) \<in> E \<or> (m, l) \<in> E"
      using assms(1) unfolding core_def max_ok_def by blast
    moreover have "adjacent (x_size b) m l" "is_stone (colors b m)"
      using lm adjacent_sym by auto
    ultimately show "chain_head b l = chain_head b m \<or> (l, m) \<in> E' \<or> (m, l) \<in> E'"
      using assms(3) [of l m] assms(3) [of m l] lm by metis
  qed
  then show ?thesis using assms(1,2) by (auto simp: core_def chains_ok_def)
qed

lemma chain_of_add_liberties [simp]: "chain_of (add_liberties h d b) k = chain_of b k"
  by (simp add: chain_of_def)

lemma libs_of_add_liberties [simp]: "libs_of (add_liberties h d b) S = libs_of b S"
  by (simp add: libs_of_def)

lemma heads_add_liberties [simp]: "heads (add_liberties h d b) = heads b"
  by (simp add: heads_def)

lemma core_add_liberties:
  assumes "core Z off E b"
  shows "core Z (off(h := off h + d)) E (add_liberties h d b)"
  using assms
  by (auto simp: core_def geom_ok_def hash_ok_def max_ok_def chains_ok_def chain_ok_def)

text \<open>\<open>core\<close> does not read the ko point or the capture counts.\<close>

lemma core_cong:
  assumes "x_size b' = x_size b" "y_size b' = y_size b" "colors b' = colors b"
    "chain_data b' = chain_data b" "chain_head b' = chain_head b"
    "next_in_chain b' = next_in_chain b" "pos_hash b' = pos_hash b" "adj_offsets b' = adj_offsets b"
  shows "core Z off E b' = core Z off E b"
  using assms
  by (simp add: core_def geom_ok_def hash_ok_def max_ok_def chains_ok_def chain_ok_def heads_def
      chain_of_def libs_of_def)

section \<open>Placing the stone\<close>

text \<open>
  The chains whose liberty count still includes the point just played: those with a stone
  among the directions \<open>R\<close> still to be handled, the mover's own new chain and the opponent
  chains already seen excepted.
\<close>

definition play_off :: "board \<Rightarrow> loc \<Rightarrow> loc list \<Rightarrow> loc list \<Rightarrow> loc \<Rightarrow> int" where
  "play_off b loc seen R h =
     (if h \<noteq> chain_head b loc \<and> h \<notin> set seen \<and>
         (\<exists>a\<in>set R. is_stone (colors b a) \<and> chain_head b a = h) then 1 else 0)"

lemma play_off_cases: "play_off b loc seen R h \<noteq> 1 \<Longrightarrow> play_off b loc seen R h = 0"
  by (simp add: play_off_def split: if_splits)

lemma place_stone_simps [simp]:
  "x_size (place_stone Z loc pla b) = x_size b" "y_size (place_stone Z loc pla b) = y_size b"
  "adj_offsets (place_stone Z loc pla b) = adj_offsets b"
  "colors (place_stone Z loc pla b) = (colors b)(loc := pla)"
  "chain_head (place_stone Z loc pla b) = (chain_head b)(loc := loc)"
  "next_in_chain (place_stone Z loc pla b) = (next_in_chain b)(loc := loc)"
  "numBlackCaptures (place_stone Z loc pla b) = numBlackCaptures b"
  "numWhiteCaptures (place_stone Z loc pla b) = numWhiteCaptures b"
  "ko_loc (place_stone Z loc pla b) = ko_loc b"
  "pos_hash (place_stone Z loc pla b) = hxor (pos_hash b) (ZOBRIST_BOARD_HASH Z loc pla)"
  "k \<noteq> loc \<Longrightarrow> chain_data (place_stone Z loc pla b) k = chain_data b k"
  by (simp_all add: place_stone_def Let_def)

lemma getNumImmediateLiberties_eq:
  assumes "geom_ok b" "1 \<le> x_size b"
  shows "getNumImmediateLiberties b loc = int (card (libs_of b {loc}))"
proof -
  have "{m. adjacent (x_size b) loc m \<and> colors b m = C_EMPTY} = libs_of b {loc}"
    by (auto simp: libs_of_def)
  then show ?thesis
    using length_filter_adjs [OF assms(2)] by (simp add: getNumImmediateLiberties_def fold_count)
qed

lemma place_stone_core:
  assumes core: "core Z (\<lambda>_. 0) {} b" and ob: "on_board (x_size b) (y_size b) loc"
    and e: "colors b loc = C_EMPTY" and p: "is_stone pla"
  shows "core Z (play_off (place_stone Z loc pla b) loc [] (adjs (x_size b) loc))
     {(loc, a) | a. a \<in> set (adjs (x_size b) loc)} (place_stone Z loc pla b)"
    and "heads (place_stone Z loc pla b) = insert loc (heads b)"
    and "h \<noteq> loc \<Longrightarrow> chain_of (place_stone Z loc pla b) h = chain_of b h"
proof -
  from core have g: "geom_ok b" and hs: "hash_ok Z b" and c: "chains_ok b (\<lambda>_. 0)" and mx: "max_ok b {}"
    by (simp_all add: core_def)
  let ?b = "place_stone Z loc pla b"
  have hl: "chain_head b l \<noteq> loc" if "is_stone (colors b l)" for l
    using heads_stone [OF chains_ok_head [OF c that]] e by auto
  show hd: "heads ?b = insert loc (heads b)"
    using p e hl by (auto simp: heads_def)
  have lh: "loc \<notin> heads b" using heads_stone e by fastforce
  have ch: "chain_of ?b h = chain_of b h" if "h \<noteq> loc" for h
    using that e p by (auto simp: chain_of_def)
  then show "h \<noteq> loc \<Longrightarrow> chain_of ?b h = chain_of b h" .
  have cl: "chain_of ?b loc = {loc}"
    using p hl by (auto simp: chain_of_def)
  have g': "geom_ok ?b" using g ob p by (auto simp: geom_ok_def)
  have nd: "chain_data ?b loc = \<lparr>owner = pla, num_locs = 1, num_liberties = int (card (libs_of ?b {loc}))\<rparr>"
  proof -
    have "getNumImmediateLiberties (xor_hash Z loc pla (set_color loc pla b)) loc
        = int (card (libs_of (xor_hash Z loc pla (set_color loc pla b)) {loc}))"
      using g' on_board_xs [OF ob]
      by (intro getNumImmediateLiberties_eq) (auto simp: geom_ok_def)
    then show ?thesis by (simp add: place_stone_def Let_def libs_of_def)
  qed
  have "hash_ok Z ?b"
    using hs position_hash_update [OF ob, of Z "colors b" pla] e p
    by (simp add: hash_ok_def stone_hash_def)
  moreover have "max_ok ?b {(loc, a) | a. a \<in> set (adjs (x_size b) loc)}"
    unfolding max_ok_def
  proof (intro allI impI, elim conjE)
    fix l m assume lm: "adjacent (x_size ?b) l m" "is_stone (colors ?b l)" "colors ?b m = colors ?b l"
    show "chain_head ?b l = chain_head ?b m \<or> (l, m) \<in> {(loc, a) | a. a \<in> set (adjs (x_size b) loc)} \<or>
        (m, l) \<in> {(loc, a) | a. a \<in> set (adjs (x_size b) loc)}"
    proof (cases "l = loc \<or> m = loc")
      case True
      then show ?thesis using lm(1) by (auto simp: set_adjs adjacent_sym)
    next
      case False
      then show ?thesis using mx lm by (auto simp: max_ok_def)
    qed
  qed
  moreover have "chain_ok ?b (play_off ?b loc [] (adjs (x_size b) loc) loc) loc"
    using nd by (simp add: chain_ok_def cl play_off_def) (intro exI [of _ "[]"], simp add: ring_def)
  moreover have "chain_ok ?b (play_off ?b loc [] (adjs (x_size b) loc) h) h" if h: "h \<in> heads b" for h
  proof -
    from chains_ok_chain [OF c h] have ok: "chain_ok b 0 h" .
    have ne: "h \<noteq> loc" using h lh by auto
    have nin: "loc \<notin> chain_of b h" using e by (auto simp: chain_of_def)
    have libs: "libs_of ?b (chain_of b h) = libs_of b (chain_of b h) - {loc}"
      using p by (auto simp: libs_of_def)
    have iff: "loc \<in> libs_of b (chain_of b h) \<longleftrightarrow> play_off ?b loc [] (adjs (x_size b) loc) h = 1"
      using ne e adjacent_irrefl [of "x_size b" loc] on_board_xs [OF ob]
      by (auto simp: play_off_def libs_of_def chain_of_def set_adjs adjacent_sym)
    have "int (card (libs_of b (chain_of b h))) = int (card (libs_of ?b (chain_of b h))) +
        play_off ?b loc [] (adjs (x_size b) loc) h"
    proof (cases "loc \<in> libs_of b (chain_of b h)")
      case True
      then show ?thesis
        using iff card_Suc_Diff1 [OF finite_libs_of [OF g] True] unfolding libs by simp
    next
      case False
      then have "play_off ?b loc [] (adjs (x_size b) loc) h = 0"
        using iff by (intro play_off_cases) simp
      then show ?thesis using False unfolding libs by simp
    qed
    moreover obtain ps where r: "ring (next_in_chain b) h ps" and rs: "set (h # ps) = chain_of b h"
      using ok by (auto simp: chain_ok_def)
    have "ring (next_in_chain ?b) h ps"
      by (rule ring_cong [OF r]) (use nin rs in auto)
    then have "\<exists>ps. ring (next_in_chain ?b) h ps \<and> set (h # ps) = chain_of b h"
      using rs by blast
    moreover have "\<forall>l\<in>chain_of b h. colors ?b l = colors ?b h"
    proof
      fix l assume "l \<in> chain_of b h"
      with nin ne chain_ok_color [OF ok this] show "colors ?b l = colors ?b h" by auto
    qed
    moreover have "chain_data ?b h = chain_data b h" using ne by simp
    ultimately show ?thesis
      using ok ne unfolding chain_ok_def ch [OF ne] by simp
  qed
  moreover have "chain_head ?b l \<in> heads ?b" if "is_stone (colors ?b l)" for l
    using that chains_ok_head [OF c] unfolding hd by (auto split: if_splits)
  ultimately show "core Z (play_off ?b loc [] (adjs (x_size b) loc))
     {(loc, a) | a. a \<in> set (adjs (x_size b) loc)} ?b"
    using g' unfolding core_def chains_ok_def hd by blast
qed

section \<open>The loop over the four directions\<close>

text \<open>The stones of the opponent chains seen so far that had the point played as last liberty.\<close>

definition caught :: "board \<Rightarrow> loc list \<Rightarrow> loc set" where
  "caught b0 seen = \<Union>{chain_of b0 h | h. h \<in> set seen \<and> num_liberties (chain_data b0 h) = 1}"

definition play_pre :: "zobrist \<Rightarrow> board \<Rightarrow> loc \<Rightarrow> player \<Rightarrow> bool" where
  "play_pre Z b0 loc pla \<longleftrightarrow> core Z (\<lambda>_. 0) {} b0 \<and> (\<forall>h\<in>heads b0. 0 < num_liberties (chain_data b0 h)) \<and>
     on_board (x_size b0) (y_size b0) loc \<and> colors b0 loc = C_EMPTY \<and> is_stone pla"

definition play_inv ::
  "zobrist \<Rightarrow> board \<Rightarrow> loc \<Rightarrow> player \<Rightarrow> loc list \<Rightarrow> board \<times> int \<times> loc \<times> loc list \<Rightarrow> bool" where
  "play_inv Z b0 loc pla R = (\<lambda>(b, cap, kl, seen).
     (\<forall>a\<in>set R. adjacent (x_size b0) loc a) \<and>
     x_size b = x_size b0 \<and> y_size b = y_size b0 \<and>
     numBlackCaptures b = numBlackCaptures b0 \<and> numWhiteCaptures b = numWhiteCaptures b0 \<and>
     core Z (play_off b loc seen R) {(loc, a) | a. a \<in> set R} b \<and>
     colors b = (\<lambda>l. if l \<in> caught b0 seen then C_EMPTY else ((colors b0)(loc := pla)) l) \<and>
     cap = int (card (caught b0 seen)) \<and>
     (caught b0 seen \<noteq> {} \<longrightarrow> kl \<in> caught b0 seen) \<and>
     set seen \<subseteq> {chain_head b0 a | a. adjacent (x_size b0) loc a \<and> colors b0 a = getOpp pla} \<and>
     {chain_head b0 a | a. adjacent (x_size b0) loc a \<and> a \<notin> set R \<and> colors b0 a = getOpp pla} \<subseteq> set seen \<and>
     (\<forall>l. colors b l = getOpp pla \<longrightarrow> chain_head b l = chain_head b0 l) \<and>
     (\<forall>h\<in>heads b. colors b h = getOpp pla \<and> h \<notin> set seen \<longrightarrow>
        num_liberties (chain_data b h) = num_liberties (chain_data b0 h)) \<and>
     (\<forall>h\<in>heads b. h \<noteq> chain_head b loc \<longrightarrow> 0 < num_liberties (chain_data b h)))"

lemma play_invI:
  assumes "\<forall>a\<in>set R. adjacent (x_size b0) loc a" "x_size b = x_size b0" "y_size b = y_size b0"
    "numBlackCaptures b = numBlackCaptures b0" "numWhiteCaptures b = numWhiteCaptures b0"
    "core Z (play_off b loc seen R) {(loc, a) | a. a \<in> set R} b"
    "colors b = (\<lambda>l. if l \<in> caught b0 seen then C_EMPTY else ((colors b0)(loc := pla)) l)"
    "cap = int (card (caught b0 seen))" "caught b0 seen \<noteq> {} \<longrightarrow> kl \<in> caught b0 seen"
    "set seen \<subseteq> {chain_head b0 a | a. adjacent (x_size b0) loc a \<and> colors b0 a = getOpp pla}"
    "{chain_head b0 a | a. adjacent (x_size b0) loc a \<and> a \<notin> set R \<and> colors b0 a = getOpp pla} \<subseteq> set seen"
    "\<And>l. colors b l = getOpp pla \<Longrightarrow> chain_head b l = chain_head b0 l"
    "\<And>h. h \<in> heads b \<Longrightarrow> colors b h = getOpp pla \<Longrightarrow> h \<notin> set seen \<Longrightarrow>
        num_liberties (chain_data b h) = num_liberties (chain_data b0 h)"
    "\<And>h. h \<in> heads b \<Longrightarrow> h \<noteq> chain_head b loc \<Longrightarrow> 0 < num_liberties (chain_data b h)"
  shows "play_inv Z b0 loc pla R (b, cap, kl, seen)"
  unfolding play_inv_def prod.case
  by (intro conjI assms(1-11)) (use assms(12-14) in blast)+

lemma caught_Nil [simp]: "caught b [] = {}"
  by (simp add: caught_def)

lemma caught_snoc:
  "caught b (seen @ [h]) = caught b seen \<union> (if num_liberties (chain_data b h) = 1 then chain_of b h else {})"
  by (auto simp: caught_def)

lemma caught_color:
  assumes c: "chains_ok b0 off" and p: "is_stone pla"
    and s: "set seen \<subseteq> {chain_head b0 a | a. adjacent xs loc a \<and> colors b0 a = getOpp pla}"
    and l: "l \<in> caught b0 seen"
  shows "colors b0 l = getOpp pla" and "chain_head b0 l \<in> set seen"
proof -
  from l obtain h where h: "l \<in> chain_of b0 h" "h \<in> set seen" by (auto simp: caught_def)
  with s obtain a where a: "h = chain_head b0 a" "colors b0 a = getOpp pla" by blast
  then have sa: "is_stone (colors b0 a)" using p by simp
  show "colors b0 l = getOpp pla"
    using chain_ok_color [OF chains_ok_chain [OF c chains_ok_head [OF c sa]], of l] h a head_color [OF c sa]
    by simp
  show "chain_head b0 l \<in> set seen" using h by (simp add: chain_of_def)
qed

lemma play_inv_colors:
  assumes "play_pre Z b0 loc pla" "play_inv Z b0 loc pla R (b, cap, kl, seen)"
  shows "colors b loc = pla"
    and "colors b l = getOpp pla \<Longrightarrow> colors b0 l = getOpp pla"
    and "colors b0 l = getOpp pla \<Longrightarrow> colors b l = C_EMPTY \<or> colors b l = getOpp pla"
    and "h \<in> set seen \<Longrightarrow> colors b h = C_EMPTY \<or> colors b h = getOpp pla"
    and "l \<in> caught b0 seen \<Longrightarrow> colors b0 l = getOpp pla"
    and "l \<in> caught b0 seen \<Longrightarrow> chain_head b0 l \<in> set seen"
proof -
  from assms have p: "is_stone pla" and e: "colors b0 loc = C_EMPTY" and c: "chains_ok b0 (\<lambda>_. 0)"
    by (simp_all add: play_pre_def core_def)
  from assms(2) have col: "colors b = (\<lambda>l. if l \<in> caught b0 seen then C_EMPTY else ((colors b0)(loc := pla)) l)"
    and s: "set seen \<subseteq> {chain_head b0 a | a. adjacent (x_size b0) loc a \<and> colors b0 a = getOpp pla}"
    by (simp_all add: play_inv_def)
  note cc = caught_color [OF c p s]
  show "l \<in> caught b0 seen \<Longrightarrow> colors b0 l = getOpp pla" "l \<in> caught b0 seen \<Longrightarrow> chain_head b0 l \<in> set seen"
    using cc by auto
  have "loc \<notin> caught b0 seen" using cc(1) [of loc] e getOpp_stone_neq(1) [OF p] by metis
  then show "colors b loc = pla" by (simp add: col)
  show "colors b l = getOpp pla \<Longrightarrow> colors b0 l = getOpp pla"
    using p by (auto simp: col split: if_splits)
  show opp: "colors b0 l = getOpp pla \<Longrightarrow> colors b l = C_EMPTY \<or> colors b l = getOpp pla" for l
    using p e by (auto simp: col)
  show "colors b h = C_EMPTY \<or> colors b h = getOpp pla" if "h \<in> set seen"
  proof -
    from that s obtain a where a: "h = chain_head b0 a" "colors b0 a = getOpp pla" by blast
    then show ?thesis using head_color [OF c, of a] p opp [of h] by simp
  qed
qed

lemma play_dir_other:
  assumes pre: "play_pre Z b0 loc pla" and inv: "play_inv Z b0 loc pla (a # R) (b, cap, kl, seen)"
    and off: "\<And>h. h \<in> heads b \<Longrightarrow> play_off b loc seen (a # R) h = play_off b loc seen R h"
    and head: "colors b a = pla \<Longrightarrow> chain_head b a = chain_head b loc"
    and seen: "colors b a = getOpp pla \<Longrightarrow> chain_head b a \<in> set seen"
    and emp: "colors b a = C_EMPTY \<Longrightarrow> colors b0 a = getOpp pla \<Longrightarrow> chain_head b0 a \<in> set seen"
  shows "play_inv Z b0 loc pla R (b, cap, kl, seen)"
proof -
  note col = play_inv_colors [OF pre inv]
  have "core Z (play_off b loc seen R) {(loc, a) | a. a \<in> set R} b"
    by (rule core_weaken [where off = "play_off b loc seen (a # R)" and E = "{(loc, x) | x. x \<in> set (a # R)}"])
      (use inv off head col in \<open>auto simp: play_inv_def\<close>)
  moreover have "{chain_head b0 x | x. adjacent (x_size b0) loc x \<and> x \<notin> set R \<and> colors b0 x = getOpp pla}
      \<subseteq> set seen"
  proof -
    have "chain_head b0 a \<in> set seen" if "colors b0 a = getOpp pla"
      using col(3) [OF that] seen emp that inv by (auto simp: play_inv_def)
    moreover have "{chain_head b0 x | x. adjacent (x_size b0) loc x \<and> x \<notin> set (a # R) \<and> colors b0 x = getOpp pla}
      \<subseteq> set seen" using inv by (simp add: play_inv_def)
    ultimately show ?thesis by auto
  qed
  ultimately show ?thesis using inv by (simp add: play_inv_def)
qed

text \<open>A neighbouring chain of the mover's is merged with the new stone's chain.\<close>

lemma play_dir_own:
  assumes pre: "play_pre Z b0 loc pla" and inv: "play_inv Z b0 loc pla (a # R) (b, cap, kl, seen)"
    and ca: "colors b a = pla" and ne: "chain_head b a \<noteq> chain_head b loc"
  shows "\<exists>b'. mergeChains a loc (add_liberties (chain_head b a) (-1) b) = Some b' \<and>
    play_inv Z b0 loc pla R (b', cap, kl, seen)"
proof -
  let ?h = "chain_head b a" let ?b1 = "add_liberties ?h (-1) b"
  let ?E = "{(loc, x) | x. x \<in> set (a # R)}"
  note col = play_inv_colors [OF pre inv]
  have p: "is_stone pla" using pre by (simp add: play_pre_def)
  have core: "core Z (play_off b loc seen (a # R)) ?E b" and xs: "x_size b = x_size b0"
    and adj: "adjacent (x_size b0) loc a"
    using inv by (simp_all add: play_inv_def)
  from core have c: "chains_ok b (play_off b loc seen (a # R))" by (simp add: core_def)
  have hs: "?h \<notin> set seen"
    using col(4) [of ?h] head_color [OF c, of a] ca p by auto
  then have o1: "play_off b loc seen (a # R) ?h = 1"
    using ne ca p by (simp add: play_off_def)
  from core_add_liberties [OF core, of ?h "-1"]
  have core1: "core Z ((play_off b loc seen (a # R))(?h := 0)) ?E ?b1" by (simp add: o1)
  have adj': "adjacent (x_size ?b1) a loc" using adj xs adjacent_sym by simp
  obtain b' h k where b': "mergeChains a loc ?b1 = Some b'"
    and core': "core Z ((play_off b loc seen (a # R))(?h := 0)) ?E b'"
    and m: "merged h k ?b1 b'" and hk: "{h, k} = {?h, chain_head b loc}" "h \<noteq> k"
    and heads: "h \<in> heads b" "k \<in> heads b"
    using mergeChains_core [OF core1, of a loc] ca col(1) p ne adj' by auto
  have colk: "colors b j = pla" if "j = h \<or> j = k" for j
    using that hk(1) head_color [OF c, of a] head_color [OF c, of loc] ca col(1) p by (auto simp: doubleton_eq_iff)
  have hd: "chain_head b' = (\<lambda>l. if l \<in> chain_of b k then h else chain_head b l)"
    and cols: "colors b' = colors b" and xs': "x_size b' = x_size b"
    and data: "\<And>j. j \<noteq> h \<Longrightarrow> chain_data b' j = chain_data ?b1 j"
    using m by (simp_all add: merged_def cong: if_cong)
  have hds: "heads b' = heads b - {k}"
    using merged_chains(1) [OF m] heads hk(2) by simp
  have hl: "chain_head b' loc = h" and ha: "chain_head b' a = h"
    using hk ca col(1) p by (auto simp: hd chain_of_def doubleton_eq_iff)
  have colchain: "colors b l = pla" if "l \<in> chain_of b k" for l
    using chain_ok_color [OF chains_ok_chain [OF c heads(2)] that] colk by simp
  have off: "((play_off b loc seen (a # R))(?h := 0)) j = play_off b' loc seen R j" if j: "j \<in> heads b'" for j
  proof (cases "j = h")
    case True
    then show ?thesis using hl hk by (auto simp: play_off_def doubleton_eq_iff)
  next
    case False
    moreover from j hds have "j \<noteq> k" by simp
    ultimately have "j \<noteq> ?h" "j \<noteq> chain_head b loc" using hk by (auto simp: doubleton_eq_iff)
    moreover have "chain_head b' x = j \<longleftrightarrow> chain_head b x = j" if "is_stone (colors b x)" for x
      using that False \<open>j \<noteq> k\<close> by (auto simp: hd chain_of_def)
    ultimately show ?thesis using False by (auto simp: play_off_def hl cols)
  qed
  have "core Z (play_off b' loc seen R) {(loc, x) | x. x \<in> set R} b'"
    by (rule core_weaken [OF core' off]) (auto simp: hl ha)
  moreover have "chain_head b' l = chain_head b0 l" if "colors b' l = getOpp pla" for l
    using that colchain [of l] inv by (auto simp: hd cols play_inv_def)
  moreover have "num_liberties (chain_data b' j) = num_liberties (chain_data b0 j)"
    if "j \<in> heads b'" "colors b' j = getOpp pla" "j \<notin> set seen" for j
  proof -
    have "j \<noteq> h" "j \<noteq> k" using that(2) colk by (auto simp: cols)
    then have "j \<noteq> ?h" using hk by (auto simp: doubleton_eq_iff)
    then show ?thesis using that data [OF \<open>j \<noteq> h\<close>] hds inv by (auto simp: cols play_inv_def)
  qed
  moreover have "0 < num_liberties (chain_data b' j)" if "j \<in> heads b'" "j \<noteq> chain_head b' loc" for j
  proof -
    have "j \<noteq> h" "j \<noteq> k" using that hl hds by auto
    then have "j \<noteq> ?h" "j \<noteq> chain_head b loc" using hk by (auto simp: doubleton_eq_iff)
    then show ?thesis using that(1) data [OF \<open>j \<noteq> h\<close>] hds inv by (auto simp: play_inv_def)
  qed
  moreover have "{chain_head b0 x | x. adjacent (x_size b0) loc x \<and> x \<notin> set R \<and> colors b0 x = getOpp pla}
      \<subseteq> set seen"
  proof -
    have "colors b0 a \<noteq> getOpp pla" using col(3) [of a] ca p by auto
    then have "{chain_head b0 x | x. adjacent (x_size b0) loc x \<and> x \<notin> set R \<and> colors b0 x = getOpp pla}
       = {chain_head b0 x | x. adjacent (x_size b0) loc x \<and> x \<notin> set (a # R) \<and> colors b0 x = getOpp pla}"
      by auto
    then show ?thesis using inv by (simp add: play_inv_def)
  qed
  ultimately have "play_inv Z b0 loc pla R (b', cap, kl, seen)"
    using inv m by (simp add: play_inv_def merged_def)
  with b' show ?thesis by blast
qed

text \<open>An opponent chain seen for the first time loses a liberty, and is removed if it was the last.\<close>

lemma play_dir_opp:
  assumes pre: "play_pre Z b0 loc pla" and inv: "play_inv Z b0 loc pla (a # R) (b, cap, kl, seen)"
    and ca: "colors b a = getOpp pla" and new: "chain_head b a \<notin> set seen"
  shows "\<exists>st. play_dir Z loc pla a (b, cap, kl, seen) = Some st \<and> play_inv Z b0 loc pla R st"
proof -
  let ?h = "chain_head b a" let ?b1 = "add_liberties ?h (-1) b" let ?seen = "seen @ [?h]"
  let ?E = "{(loc, x) | x. x \<in> set R}"
  note col = play_inv_colors [OF pre inv]
  have p: "is_stone pla" and core0: "core Z (\<lambda>_. 0) {} b0" using pre by (simp_all add: play_pre_def)
  have core: "core Z (play_off b loc seen (a # R)) {(loc, x) | x. x \<in> set (a # R)} b"
    and xs: "x_size b = x_size b0" and adj: "adjacent (x_size b0) loc a"
    and opph: "\<And>l. colors b l = getOpp pla \<Longrightarrow> chain_head b l = chain_head b0 l"
    and cols: "colors b = (\<lambda>l. if l \<in> caught b0 seen then C_EMPTY else ((colors b0)(loc := pla)) l)"
    using inv by (simp_all add: play_inv_def)
  from core have c: "chains_ok b (play_off b loc seen (a # R))" and g: "geom_ok b" by (simp_all add: core_def)
  from core0 have c0: "chains_ok b0 (\<lambda>_. 0)" by (simp add: core_def)
  have sa: "is_stone (colors b a)" using ca p by simp
  have hh: "?h \<in> heads b" by (rule chains_ok_head [OF c sa])
  have colh: "colors b ?h = getOpp pla" using head_color [OF c sa] ca by simp
  have hl: "?h \<noteq> chain_head b loc"
  proof
    assume "?h = chain_head b loc"
    then have "colors b loc = getOpp pla" using head_color [OF c, of loc] colh col(1) p by simp
    then show False using col(1) by simp
  qed
  have head0: "chain_head b0 a = ?h" using opph [OF ca] by simp
  have chain: "chain_of b ?h = chain_of b0 ?h"
  proof (intro equalityI subsetI)
    fix l assume l: "l \<in> chain_of b ?h"
    then have "colors b l = getOpp pla" using chain_ok_color [OF chains_ok_chain [OF c hh] l] colh by simp
    then show "l \<in> chain_of b0 ?h" using l opph [of l] col(2) [of l] p by (simp add: chain_of_def)
  next
    fix l assume l: "l \<in> chain_of b0 ?h"
    have "colors b0 l = getOpp pla"
      using l head_color [OF c0, of l] head_color [OF c0, of a] col(2) [OF ca] head0 p
      by (simp add: chain_of_def)
    moreover have "l \<notin> caught b0 seen" using col(6) [of l] l new by (auto simp: chain_of_def)
    moreover have "l \<noteq> loc" using \<open>colors b0 l = getOpp pla\<close> pre by (auto simp: play_pre_def)
    ultimately have "colors b l = getOpp pla" by (simp add: cols)
    then show "l \<in> chain_of b ?h" using l opph [of l] p by (simp add: chain_of_def)
  qed
  have core1: "core Z (play_off ?b1 loc ?seen R) ?E ?b1"
  proof (rule core_weaken [OF core_add_liberties [OF core, of ?h "-1"]])
    have "play_off b loc seen (a # R) ?h = 1" using hl new sa by (simp add: play_off_def)
    then show "((play_off b loc seen (a # R))(?h := play_off b loc seen (a # R) ?h + -1)) j
        = play_off ?b1 loc ?seen R j" for j
      by (auto simp: play_off_def)
    show "chain_head ?b1 l = chain_head ?b1 m \<or> (l, m) \<in> ?E"
      if "(l, m) \<in> {(loc, x) | x. x \<in> set (a # R)}" "colors ?b1 m = colors ?b1 l" for l m
      using that ca col(1) by auto
  qed
  have nl: "num_liberties (chain_data b ?h) = num_liberties (chain_data b0 ?h)"
    using inv hh colh new by (simp add: play_inv_def)
  have seen1: "set ?seen \<subseteq> {chain_head b0 x | x. adjacent (x_size b0) loc x \<and> colors b0 x = getOpp pla}"
  proof -
    have "?h \<in> {chain_head b0 x | x. adjacent (x_size b0) loc x \<and> colors b0 x = getOpp pla}"
      using adj col(2) [OF ca] head0 by (intro CollectI exI [of _ a]) simp
    moreover have "set seen \<subseteq> {chain_head b0 x | x. adjacent (x_size b0) loc x \<and> colors b0 x = getOpp pla}"
      using inv by (simp add: play_inv_def)
    ultimately show ?thesis by simp
  qed
  have seen2: "{chain_head b0 x | x. adjacent (x_size b0) loc x \<and> x \<notin> set R \<and> colors b0 x = getOpp pla}
      \<subseteq> set ?seen"
  proof -
    have "{chain_head b0 x | x. adjacent (x_size b0) loc x \<and> x \<notin> set (a # R) \<and> colors b0 x = getOpp pla}
      \<subseteq> set seen" using inv by (simp add: play_inv_def)
    then show ?thesis using head0 by auto
  qed
  have pos: "0 < num_liberties (chain_data b j)" if "j \<in> heads b" "j \<noteq> chain_head b loc" for j
    using that inv by (simp add: play_inv_def)
  have ldata: "num_liberties (chain_data b j) = num_liberties (chain_data b0 j)"
    if "j \<in> heads b" "colors b j = getOpp pla" "j \<notin> set seen" for j
    using that inv by (simp add: play_inv_def)
  show ?thesis
  proof (cases "num_liberties (chain_data b ?h) = 1")
    case False
    then have "play_dir Z loc pla a (b, cap, kl, seen) = Some (?b1, cap, kl, ?seen)"
      using ca new by (simp add: play_dir_def Let_def getNumLiberties_def)
    moreover have "play_inv Z b0 loc pla R (?b1, cap, kl, ?seen)"
    proof -
      have "0 < num_liberties (chain_data ?b1 j)" if "j \<in> heads ?b1" "j \<noteq> chain_head ?b1 loc" for j
        using that pos False by fastforce
      moreover have "num_liberties (chain_data ?b1 j) = num_liberties (chain_data b0 j)"
        if "j \<in> heads ?b1" "colors ?b1 j = getOpp pla" "j \<notin> set ?seen" for j
        using that ldata by auto
      moreover have "caught b0 ?seen = caught b0 seen" using False nl by (simp add: caught_snoc)
      ultimately show ?thesis
        using inv core1 seen1 seen2 unfolding play_inv_def prod.case by simp
    qed
    ultimately show ?thesis by blast
  next
    case True
    let ?S = "chain_of b ?h" let ?b2 = "removed Z pla ?S ?b1"
    have rm: "removeChain Z a ?b1 = Some (?b2, int (card ?S))"
      using removeChain_eq [OF core1, of a] sa ca by simp
    have cS: "caught b0 ?seen = caught b0 seen \<union> ?S"
      using True nl chain by (simp add: caught_snoc)
    have disj: "caught b0 seen \<inter> ?S = {}"
    proof (intro equals0I, elim IntE)
      fix l assume "l \<in> caught b0 seen" "l \<in> ?S"
      then show False using col(6) [of l] new unfolding chain by (simp add: chain_of_def)
    qed
    have colS: "colors b l = getOpp pla" if "l \<in> ?S" for l
      using chain_ok_color [OF chains_ok_chain [OF c hh] that] colh by simp
    have closed: "m \<in> ?S" if l: "l \<in> ?S" "adjacent (x_size ?b1) l m" "colors ?b1 m = colors ?b1 l" for l m
    proof -
      have "chain_head b l = chain_head b m \<or> (l, m) \<in> ?E \<or> (m, l) \<in> ?E"
        using core1 l colS [OF l(1)] p by (auto simp: core_def max_ok_def)
      moreover have "l \<noteq> loc" "m \<noteq> loc" using colS [OF l(1)] l(3) col(1) by auto
      ultimately show ?thesis using l p by (auto simp: chain_of_def)
    qed
    have core2: "core Z (play_off ?b1 loc ?seen R) ?E ?b2"
      using core_removed [OF core1, of ?h ?S] hh colh closed by simp
    have core2': "core Z (play_off ?b2 loc ?seen R) ?E ?b2"
    proof (rule core_weaken [OF core2])
      fix j assume "j \<in> heads ?b2"
      then have "j \<noteq> ?h" by (auto simp: heads_def chain_of_def split: if_splits)
      then have "is_stone (colors ?b2 x) \<and> chain_head b x = j \<longleftrightarrow> is_stone (colors b x) \<and> chain_head b x = j" for x
        by (auto simp: chain_of_def)
      then show "play_off ?b1 loc ?seen R j = play_off ?b2 loc ?seen R j"
        unfolding play_off_def removed_simps update_frame by simp
    qed blast
    have hd2: "heads ?b2 = heads b - {?h}"
      using heads_removed [of ?S ?b1 ?h] by simp
    have fin: "finite (caught b0 seen)"
      using finite_chain_of [of b0] core0 by (auto simp: caught_def core_def)
    have "play_dir Z loc pla a (b, cap, kl, seen) = Some (?b2, cap + int (card ?S), a, ?seen)"
      using ca new True rm by (simp add: play_dir_def Let_def getNumLiberties_def)
    moreover have "play_inv Z b0 loc pla R (?b2, cap + int (card ?S), a, ?seen)"
    proof (rule play_invI)
      show "colors ?b2 = (\<lambda>l. if l \<in> caught b0 ?seen then C_EMPTY else ((colors b0)(loc := pla)) l)"
        unfolding cS by (auto simp: cols)
      show "cap + int (card ?S) = int (card (caught b0 ?seen))"
        unfolding cS using card_Un_disjoint [OF fin finite_chain_of [OF g] disj] inv by (simp add: play_inv_def)
      show "caught b0 ?seen \<noteq> {} \<longrightarrow> a \<in> caught b0 ?seen" unfolding cS using chain_of_mem [OF sa] by simp
      show "chain_head ?b2 l = chain_head b0 l" if "colors ?b2 l = getOpp pla" for l
        using opph [of l] that p by (simp split: if_splits)
      show "num_liberties (chain_data ?b2 j) = num_liberties (chain_data b0 j)"
        if j: "j \<in> heads ?b2" "colors ?b2 j = getOpp pla" "j \<notin> set ?seen" for j
      proof -
        have cj: "colors b j = getOpp pla" using j p by (auto split: if_splits)
        have "j \<notin> adj_heads ?b1 l pla" for l
          using cj head_color [OF c] p by (auto simp: adj_heads_def)
        then show ?thesis using j ldata cj hd2 by auto
      qed
      show "0 < num_liberties (chain_data ?b2 j)" if "j \<in> heads ?b2" "j \<noteq> chain_head ?b2 loc" for j
        using that pos [of j] hd2 by auto
    qed (use inv core2' seen1 seen2 in \<open>simp_all add: play_inv_def\<close>)
    ultimately show ?thesis by blast
  qed
qed

text \<open>One direction, whatever is there.\<close>

lemma play_dir_inv:
  assumes pre: "play_pre Z b0 loc pla" and inv: "play_inv Z b0 loc pla (a # R) st"
  shows "\<exists>st'. play_dir Z loc pla a st = Some st' \<and> play_inv Z b0 loc pla R st'"
proof -
  obtain b cap kl seen where st: "st = (b, cap, kl, seen)" by (cases st)
  note inv' = inv [unfolded st] note col = play_inv_colors [OF pre inv']
  have p: "is_stone pla" using pre by (simp add: play_pre_def)
  consider (own) "colors b a = pla" "chain_head b a \<noteq> chain_head b loc"
    | (same) "colors b a = pla" "chain_head b a = chain_head b loc"
    | (opp) "colors b a = getOpp pla" "chain_head b a \<notin> set seen"
    | (seen) "colors b a = getOpp pla" "chain_head b a \<in> set seen"
    | (other) "\<not> is_stone (colors b a)"
    using stone_colors [OF _ p] by blast
  then show ?thesis
  proof cases
    case own
    with play_dir_own [OF pre inv'] show ?thesis
      by (force simp: st play_dir_def Let_def)
  next
    case opp
    from play_dir_opp [OF pre inv' this] show ?thesis by (simp add: st)
  next
    case same
    have "play_inv Z b0 loc pla R st"
      unfolding st by (rule play_dir_other [OF pre inv']) (use same p in \<open>auto simp: play_off_def\<close>)
    with same show ?thesis by (auto simp: st play_dir_def Let_def)
  next
    case seen
    have "play_inv Z b0 loc pla R st"
      unfolding st by (rule play_dir_other [OF pre inv']) (use seen p in \<open>auto simp: play_off_def\<close>)
    with seen p show ?thesis by (auto simp: st play_dir_def Let_def)
  next
    case other
    have "chain_head b0 a \<in> set seen" if "colors b a = C_EMPTY" "colors b0 a = getOpp pla"
    proof -
      have "a \<in> caught b0 seen"
        using that inv' p by (auto simp: play_inv_def play_pre_def split: if_splits)
      then show ?thesis by (rule col(6))
    qed
    then have "play_inv Z b0 loc pla R st"
      unfolding st by (intro play_dir_other [OF pre inv']) (use other p in \<open>auto simp: play_off_def\<close>)
    moreover have "colors b a \<noteq> pla" "colors b a \<noteq> getOpp pla" using other p by auto
    ultimately show ?thesis by (auto simp: st play_dir_def Let_def)
  qed
qed

section \<open>The whole move\<close>

lemma play_loop:
  assumes pre: "play_pre Z b0 loc pla"
  shows "\<exists>st. foldM (play_dir Z loc pla) (adjs (x_size b0) loc) (place_stone Z loc pla b0, 0, NULL_LOC, [])
      = Some st \<and> play_inv Z b0 loc pla [] st"
proof (rule foldM_total [where I = "play_inv Z b0 loc pla"])
  from pre have core: "core Z (\<lambda>_. 0) {} b0" and ob: "on_board (x_size b0) (y_size b0) loc"
    and e: "colors b0 loc = C_EMPTY" and p: "is_stone pla" by (simp_all add: play_pre_def)
  let ?b = "place_stone Z loc pla b0"
  note place = place_stone_core [OF core ob e p]
  have lh: "j \<noteq> loc" if "j \<in> heads b0" for j using heads_stone [OF that] e by auto
  have o1: "chain_head ?b l = chain_head b0 l" if "colors ?b l = getOpp pla" for l
    using that by (auto split: if_splits)
  have o2: "chain_data ?b j = chain_data b0 j" if "j \<in> heads ?b" "j \<noteq> loc" for j
    using that by simp
  have o3: "0 < num_liberties (chain_data ?b j)" if "j \<in> heads ?b" "j \<noteq> loc" for j
    using that place(2) pre by (simp add: play_pre_def)
  have o4: "j \<noteq> loc" if "colors ?b j = getOpp pla" for j using that by auto
  show "play_inv Z b0 loc pla (adjs (x_size b0) loc) (?b, 0, NULL_LOC, [])"
  proof (rule play_invI)
    show "core Z (play_off ?b loc [] (adjs (x_size b0) loc)) {(loc, a) | a. a \<in> set (adjs (x_size b0) loc)} ?b"
      by (rule place(1))
    show "chain_head ?b l = chain_head b0 l" if "colors ?b l = getOpp pla" for l by (rule o1 [OF that])
    show "num_liberties (chain_data ?b h) = num_liberties (chain_data b0 h)"
      if "h \<in> heads ?b" "colors ?b h = getOpp pla" for h using o2 [OF that(1) o4 [OF that(2)]] by simp
    show "0 < num_liberties (chain_data ?b h)" if "h \<in> heads ?b" "h \<noteq> chain_head ?b loc" for h
      using o3 that by simp
  qed (simp_all add: set_adjs fun_eq_iff)
next
  fix x ys u assume "play_inv Z b0 loc pla (x # ys) u"
  then show "\<exists>v. play_dir Z loc pla x u = Some v \<and> play_inv Z b0 loc pla ys v"
    by (rule play_dir_inv [OF pre])
qed

text \<open>What the loop leaves: the captured stones are those the rules clear.\<close>

lemma caught_iff:
  assumes pre: "play_pre Z b0 loc pla" and inv: "play_inv Z b0 loc pla [] (b, cap, kl, seen)"
  shows "l \<in> caught b0 seen \<longleftrightarrow> ((colors b0)(loc := pla)) l = getOpp pla \<and>
     \<not> has_liberty (x_size b0) ((colors b0)(loc := pla)) l"
proof (cases "colors b0 l = getOpp pla")
  case False
  then show ?thesis using play_inv_colors(5) [OF pre inv] by auto
next
  case True
  from pre have core: "core Z (\<lambda>_. 0) {} b0" and ob: "on_board (x_size b0) (y_size b0) loc"
    and e: "colors b0 loc = C_EMPTY" and p: "is_stone pla" by (simp_all add: play_pre_def)
  let ?b = "place_stone Z loc pla b0" let ?h = "chain_head b0 l"
  note place = place_stone_core [OF core ob e p]
  have sl: "is_stone (colors b0 l)" and nl: "l \<noteq> loc" using True p e by auto
  from core have c0: "chains_ok b0 (\<lambda>_. 0)" and mx: "max_ok b0 {}" and g: "geom_ok b0" by (simp_all add: core_def)
  have hh: "?h \<in> heads b0" by (rule chains_ok_head [OF c0 sl])
  then have hl: "?h \<noteq> loc" using heads_stone e by fastforce
  have ok: "chain_ok b0 0 ?h" by (rule chains_ok_chain [OF c0 hh])
  have colh: "colors b0 ?h = getOpp pla" using head_color [OF c0 sl] True by simp
  have "has_liberty (x_size ?b) (colors ?b) l \<longleftrightarrow> libs_of ?b (chain_of ?b (chain_head ?b l)) \<noteq> {}"
  proof (rule has_liberty_chain)
    show "chains_ok ?b (play_off ?b loc [] (adjs (x_size b0) loc))" using place(1) by (simp add: core_def)
    show "is_stone (colors ?b l)" using sl nl by simp
    show "chain_head ?b u = chain_head ?b v"
      if "adjacent (x_size ?b) u v" "colors ?b u = colors ?b l" "colors ?b v = colors ?b l" for u v
    proof -
      have "u \<noteq> loc" "v \<noteq> loc" using that True nl by auto
      then show ?thesis using that mx sl nl by (auto simp: max_ok_def)
    qed
  qed
  also have "libs_of ?b (chain_of ?b (chain_head ?b l)) = libs_of b0 (chain_of b0 ?h) - {loc}"
    using nl place(3) [OF hl] p by (auto simp: libs_of_def)
  finally have lib: "has_liberty (x_size b0) ((colors b0)(loc := pla)) l \<longleftrightarrow>
      libs_of b0 (chain_of b0 ?h) - {loc} \<noteq> {}" unfolding place_stone_simps .
  have seen: "set seen = {chain_head b0 a | a. adjacent (x_size b0) loc a \<and> colors b0 a = getOpp pla}"
    using inv by (intro equalityI) (simp_all add: play_inv_def)
  have num: "num_liberties (chain_data b0 ?h) = int (card (libs_of b0 (chain_of b0 ?h)))"
    using ok by (simp add: chain_ok_def)
  have pos: "libs_of b0 (chain_of b0 ?h) \<noteq> {}"
    using num pre hh by (auto simp: play_pre_def)
  have "l \<in> caught b0 seen \<longleftrightarrow> ?h \<in> set seen \<and> num_liberties (chain_data b0 ?h) = 1"
    using sl by (auto simp: caught_def chain_of_def)
  also have "\<dots> \<longleftrightarrow> libs_of b0 (chain_of b0 ?h) = {loc}"
  proof
    assume a: "?h \<in> set seen \<and> num_liberties (chain_data b0 ?h) = 1"
    then obtain x where x: "adjacent (x_size b0) loc x" "?h = chain_head b0 x" "colors b0 x = getOpp pla"
      unfolding seen by blast
    have "x \<in> chain_of b0 ?h" using x(2,3) p by (simp add: chain_of_def)
    then have "loc \<in> libs_of b0 (chain_of b0 ?h)"
      using x(1) e adjacent_sym unfolding libs_of_def by blast
    moreover obtain y where "libs_of b0 (chain_of b0 ?h) = {y}"
      using a num card_1_singletonE [of "libs_of b0 (chain_of b0 ?h)"] by auto
    ultimately show "libs_of b0 (chain_of b0 ?h) = {loc}" by simp
  next
    assume a: "libs_of b0 (chain_of b0 ?h) = {loc}"
    then have "loc \<in> libs_of b0 (chain_of b0 ?h)" by simp
    then obtain x where x: "x \<in> chain_of b0 ?h" "adjacent (x_size b0) loc x"
      using adjacent_sym unfolding libs_of_def by blast
    have "colors b0 x = getOpp pla" "chain_head b0 x = ?h"
      using x(1) chain_ok_color [OF ok x(1)] colh by (simp_all add: chain_of_def)
    then have "?h \<in> {chain_head b0 a | a. adjacent (x_size b0) loc a \<and> colors b0 a = getOpp pla}"
      using x(2) by (intro CollectI exI [of _ x]) simp
    then show "?h \<in> set seen \<and> num_liberties (chain_data b0 ?h) = 1"
      using a num unfolding seen by simp
  qed
  also have "\<dots> \<longleftrightarrow> \<not> has_liberty (x_size b0) ((colors b0)(loc := pla)) l"
    using lib pos by auto
  finally show ?thesis using True nl by simp
qed

text \<open>The state between the loop and the removal of the mover's own stones.\<close>

definition play_mid :: "player \<Rightarrow> int \<Rightarrow> loc \<Rightarrow> loc \<Rightarrow> board \<Rightarrow> board" where
  "play_mid pla cap kl loc b =
     (let b = (if cap = 1 \<and> num_locs (chain_data b (chain_head b loc)) = 1
                  \<and> num_liberties (chain_data b (chain_head b loc)) = 1
               then b\<lparr>ko_loc := kl\<rparr> else b\<lparr>ko_loc := NULL_LOC\<rparr>)
      in if pla = P_BLACK then b\<lparr>numWhiteCaptures := numWhiteCaptures b + cap\<rparr>
         else b\<lparr>numBlackCaptures := numBlackCaptures b + cap\<rparr>)"

lemma play_mid_simps [simp]:
  "x_size (play_mid p c k l b) = x_size b" "y_size (play_mid p c k l b) = y_size b"
  "colors (play_mid p c k l b) = colors b" "chain_data (play_mid p c k l b) = chain_data b"
  "chain_head (play_mid p c k l b) = chain_head b" "next_in_chain (play_mid p c k l b) = next_in_chain b"
  "pos_hash (play_mid p c k l b) = pos_hash b" "adj_offsets (play_mid p c k l b) = adj_offsets b"
  "ko_loc (play_mid p c k l b) =
     (if c = 1 \<and> num_locs (chain_data b (chain_head b l)) = 1
         \<and> num_liberties (chain_data b (chain_head b l)) = 1 then k else NULL_LOC)"
  "numWhiteCaptures (play_mid p c k l b) = numWhiteCaptures b + (if p = P_BLACK then c else 0)"
  "numBlackCaptures (play_mid p c k l b) = numBlackCaptures b + (if p = P_BLACK then 0 else c)"
  by (simp_all add: play_mid_def Let_def)

lemma play_finish_mid:
  "play_finish Z loc pla (b, cap, kl, seen) =
     (let b = play_mid pla cap kl loc b
      in if getNumLiberties b loc = 0
         then Option.bind (removeChain Z loc b)
                (\<lambda>(b', _). let n = num_locs (chain_data b (chain_head b loc))
                  in Some (if pla = P_BLACK then b'\<lparr>numBlackCaptures := numBlackCaptures b' + n\<rparr>
                        else b'\<lparr>numWhiteCaptures := numWhiteCaptures b' + n\<rparr>))
         else Some b)"
  unfolding play_finish_def play_mid_def Let_def prod.case
  by (cases "pla = P_BLACK") (simp_all split del: if_split)

text \<open>Facts about the state the loop leaves.\<close>

lemma play_loop_facts:
  assumes pre: "play_pre Z b0 loc pla" and inv: "play_inv Z b0 loc pla [] (b, cap, kl, seen)"
  shows "core Z (\<lambda>_. 0) {} b"
    and "colors b = tt_clear (x_size b0) (getOpp pla) ((colors b0)(loc := pla))"
    and "caught b0 seen = tt_captured (x_size b0) loc pla (colors b0)"
    and "tt_suicided (x_size b0) loc pla (colors b0) =
       (if getNumLiberties b loc = 0 then chain_of b (chain_head b loc) else {})"
proof -
  note col = play_inv_colors [OF pre inv]
  have p: "is_stone pla" using pre by (simp add: play_pre_def)
  have off: "play_off b loc seen [] = (\<lambda>_. 0)" by (simp add: play_off_def fun_eq_iff)
  show core: "core Z (\<lambda>_. 0) {} b"
    using inv by (simp add: play_inv_def off)
  have xs: "x_size b = x_size b0" using inv by (simp add: play_inv_def)
  show ct: "caught b0 seen = tt_captured (x_size b0) loc pla (colors b0)"
    by (rule set_eqI) (simp only: caught_iff [OF pre inv] tt_captured_def mem_Collect_eq)
  show cc: "colors b = tt_clear (x_size b0) (getOpp pla) ((colors b0)(loc := pla))"
    using inv ct unfolding tt_clear_def tt_captured_def by (simp add: play_inv_def)
  from core have c: "chains_ok b (\<lambda>_. 0)" and g: "geom_ok b" and mx: "max_ok b {}" by (simp_all add: core_def)
  have lib: "has_liberty (x_size b) (colors b) l \<longleftrightarrow> num_liberties (chain_data b (chain_head b l)) \<noteq> 0"
    if l: "colors b l = pla" for l
  proof -
    have s: "is_stone (colors b l)" using l p by simp
    have "has_liberty (x_size b) (colors b) l \<longleftrightarrow> libs_of b (chain_of b (chain_head b l)) \<noteq> {}"
      by (rule has_liberty_chain [OF c s]) (use mx s in \<open>auto simp: max_ok_def\<close>)
    then show ?thesis
      using chains_ok_chain [OF c chains_ok_head [OF c s]] finite_libs_of [OF g] by (auto simp: chain_ok_def)
  qed
  have other: "num_liberties (chain_data b (chain_head b l)) \<noteq> 0"
    if "colors b l = pla" "chain_head b l \<noteq> chain_head b loc" for l
    using inv chains_ok_head [OF c, of l] that p by (force simp: play_inv_def)
  have hc: "colors b l = pla" if "l \<in> chain_of b (chain_head b loc)" for l
    using that head_color [OF c, of l] head_color [OF c, of loc] col(1) p by (simp add: chain_of_def)
  show "tt_suicided (x_size b0) loc pla (colors b0) =
       (if getNumLiberties b loc = 0 then chain_of b (chain_head b loc) else {})"
  proof (rule set_eqI)
    fix l
    have "l \<in> tt_suicided (x_size b0) loc pla (colors b0) \<longleftrightarrow>
        colors b l = pla \<and> num_liberties (chain_data b (chain_head b l)) = 0"
      unfolding tt_suicided_def Let_def cc [symmetric] mem_Collect_eq unfolding xs [symmetric] using lib by blast
    also have "\<dots> \<longleftrightarrow> colors b l = pla \<and> chain_head b l = chain_head b loc \<and> getNumLiberties b loc = 0"
      using other [of l] by (cases "chain_head b l = chain_head b loc") (auto simp: getNumLiberties_def)
    also have "\<dots> \<longleftrightarrow> l \<in> chain_of b (chain_head b loc) \<and> getNumLiberties b loc = 0"
      using hc [of l] p by (auto simp: chain_of_def)
    finally show "l \<in> tt_suicided (x_size b0) loc pla (colors b0) \<longleftrightarrow>
        l \<in> (if getNumLiberties b loc = 0 then chain_of b (chain_head b loc) else {})" by simp
  qed
qed

text \<open>A captured stone's neighbours were all occupied, and by stones that stay unless captured too.\<close>

lemma captured_neighbours:
  assumes "l \<in> tt_captured xs loc pla c" "adjacent xs l m"
  shows "(c(loc := pla)) m \<noteq> C_EMPTY" and "(c(loc := pla)) m = getOpp pla \<Longrightarrow> m \<in> tt_captured xs loc pla c"
proof -
  let ?c = "c(loc := pla)"
  from assms(1) have l: "?c l = getOpp pla" "\<not> has_liberty xs ?c l" by (simp_all add: tt_captured_def)
  have "l \<in> group xs ?c l" by (simp add: group_def)
  with l(2) assms(2) show "?c m \<noteq> C_EMPTY" unfolding has_liberty_def by blast
  assume m: "?c m = getOpp pla"
  let ?R = "{(u, v). adjacent xs u v \<and> ?c u = getOpp pla \<and> ?c v = getOpp pla}"
  have "group xs ?c m \<subseteq> group xs ?c l"
  proof
    fix x assume "x \<in> group xs ?c m"
    then have "(m, x) \<in> ?R\<^sup>*" unfolding group_def m by simp
    moreover have "(l, m) \<in> ?R" using assms(2) l(1) m by simp
    ultimately have "(l, x) \<in> ?R\<^sup>*" by (rule converse_rtrancl_into_rtrancl [rotated])
    then show "x \<in> group xs ?c l" unfolding group_def l(1) by simp
  qed
  then have "\<not> has_liberty xs ?c m" using l(2) unfolding has_liberty_def by blast
  with m show "m \<in> tt_captured xs loc pla c" by (simp add: tt_captured_def)
qed

lemma ko_ok_mid:
  assumes pre: "play_pre Z b0 loc pla" and inv: "play_inv Z b0 loc pla [] (b, cap, kl, seen)"
  shows "ko_ok (play_mid pla cap kl loc b)"
proof (cases "ko_loc (play_mid pla cap kl loc b) = NULL_LOC")
  case True
  then show ?thesis by (simp add: ko_ok_def)
next
  case False
  then have c1: "cap = 1" and ko: "ko_loc (play_mid pla cap kl loc b) = kl"
    by (simp_all split: if_splits)
  note f = play_loop_facts [OF pre inv]
  have "card (caught b0 seen) = 1" and "kl \<in> caught b0 seen"
    using inv c1 by (auto simp: play_inv_def)
  then have K: "tt_captured (x_size b0) loc pla (colors b0) = {kl}"
    unfolding f(3) [symmetric] by (metis card_1_singletonE singletonD)
  have xs: "x_size b = x_size b0" "y_size b = y_size b0" using inv by (simp_all add: play_inv_def)
  have cols: "colors b = (\<lambda>l. if l = kl then C_EMPTY else ((colors b0)(loc := pla)) l)"
    using inv f(3) K by (simp add: play_inv_def)
  have "colors b m \<noteq> C_EMPTY" if m: "adjacent (x_size b) kl m" for m
  proof -
    have "m \<noteq> kl" using m adjacent_irrefl [of "x_size b" kl] f(1) by (auto simp: core_def geom_ok_def)
    then show ?thesis
      using captured_neighbours(1) [of kl "x_size b0" loc pla "colors b0" m] K m xs by (simp add: cols)
  qed
  moreover have "on_board (x_size b) (y_size b) kl"
    using f(1) by (intro geom_empty_on_board) (simp_all add: core_def cols)
  ultimately show ?thesis by (simp add: ko_ok_def ko)
qed

text \<open>The theorem on a move: it returns, keeps the invariant and refines the rules.\<close>

lemma playMove_total:
  assumes live: "live_board Z b" and ob: "on_board (x_size b) (y_size b) loc"
    and e: "colors b loc = C_EMPTY" and p: "is_stone pla"
  shows "\<exists>b'. playMoveAssumeLegal Z loc pla b = Some b' \<and> wf_board Z b' \<and>
    x_size b' = x_size b \<and> y_size b' = y_size b \<and>
    colors b' = tt_play (x_size b) loc pla (colors b) \<and>
    numWhiteCaptures b' = numWhiteCaptures b +
      int (card (if pla = P_BLACK then tt_captured (x_size b) loc pla (colors b)
                 else tt_suicided (x_size b) loc pla (colors b))) \<and>
    numBlackCaptures b' = numBlackCaptures b +
      int (card (if pla = P_BLACK then tt_suicided (x_size b) loc pla (colors b)
                 else tt_captured (x_size b) loc pla (colors b)))"
proof -
  from live ob e p have pre: "play_pre Z b loc pla" by (simp add: play_pre_def live_board_def)
  from live have g0: "geom_ok b" by (simp add: live_board_def core_def)
  have np: "loc \<noteq> PASS_LOC"
    using on_board_range(1) [OF ob] g0 by (auto simp: geom_ok_def PASS_LOC_def)
  from play_loop [OF pre] obtain b1 cap kl seen
    where loop: "foldM (play_dir Z loc pla) (adjs (x_size b) loc) (place_stone Z loc pla b, 0, NULL_LOC, [])
        = Some (b1, cap, kl, seen)"
      and inv: "play_inv Z b loc pla [] (b1, cap, kl, seen)" by fast
  note f = play_loop_facts [OF pre inv]
  let ?m = "play_mid pla cap kl loc b1"
  have corem: "core Z (\<lambda>_. 0) {} ?m" using f(1) by (simp add: core_cong [of ?m b1])
  have adj: "adj4 (place_stone Z loc pla b) loc = adjs (x_size b) loc"
    using adj4_adjs [OF g0] by (simp add: adj4_def)
  have play: "playMoveAssumeLegal Z loc pla b = play_finish Z loc pla (b1, cap, kl, seen)"
    unfolding playMoveAssumeLegal_def Let_def adj loop using np by simp
  have cap: "cap = int (card (tt_captured (x_size b) loc pla (colors b)))"
    using inv f(3) by (simp add: play_inv_def)
  have dims: "x_size b1 = x_size b" "y_size b1 = y_size b" "numBlackCaptures b1 = numBlackCaptures b"
      "numWhiteCaptures b1 = numWhiteCaptures b"
    using inv by (simp_all add: play_inv_def)
  have cl: "colors b1 loc = pla" using play_inv_colors(1) [OF pre inv] .
  have c1: "chains_ok b1 (\<lambda>_. 0)" using f(1) by (simp add: core_def)
  have play2: "tt_play (x_size b) loc pla (colors b)
      = (\<lambda>l. if l \<in> tt_suicided (x_size b) loc pla (colors b) then C_EMPTY else colors b1 l)"
    unfolding tt_play_def f(2) [symmetric] tt_suicided_def Let_def by (simp add: tt_clear_def)
  let ?h = "chain_head b1 loc"
  have hh: "?h \<in> heads b1" using chains_ok_head [OF c1] cl p by simp
  have hm: "heads ?m = heads b1" "chain_of ?m = chain_of b1" by (simp_all add: heads_def chain_of_def fun_eq_iff)
  have pos: "0 < num_liberties (chain_data b1 h)" if "h \<in> heads b1" "h \<noteq> ?h" for h
    using inv that by (simp add: play_inv_def)
  show ?thesis
  proof (cases "getNumLiberties ?m loc = 0")
    case False
    then have r: "playMoveAssumeLegal Z loc pla b = Some ?m"
      unfolding play play_finish_mid by simp
    have suic: "tt_suicided (x_size b) loc pla (colors b) = {}"
      using f(4) False by (simp add: getNumLiberties_def)
    have "0 \<le> num_liberties (chain_data b1 ?h)"
      using chains_ok_chain [OF c1 hh] by (simp add: chain_ok_def)
    then have "0 < num_liberties (chain_data b1 h)" if "h \<in> heads b1" for h
      using pos [OF that] False by (cases "h = ?h") (auto simp: getNumLiberties_def)
    then have "wf_board Z ?m" using corem ko_ok_mid [OF pre inv] by (simp add: wf_board_def hm)
    moreover have "tt_play (x_size b) loc pla (colors b) = colors b1" by (simp add: play2 suic)
    ultimately show ?thesis using r suic cap dims by (cases "pla = P_BLACK") auto
  next
    case True
    let ?S = "chain_of b1 ?h" let ?r = "removed Z (getOpp pla) ?S ?m"
    let ?n = "num_locs (chain_data b1 ?h)"
    let ?f = "if pla = P_BLACK then ?r\<lparr>numBlackCaptures := numBlackCaptures ?r + ?n\<rparr>
              else ?r\<lparr>numWhiteCaptures := numWhiteCaptures ?r + ?n\<rparr>"
    have rm: "removeChain Z loc ?m = Some (?r, int (card ?S))"
      using removeChain_eq [OF corem, of loc] cl p by (simp add: hm)
    have r: "playMoveAssumeLegal Z loc pla b = Some ?f"
      unfolding play play_finish_mid Let_def using True rm by simp
    have suic: "tt_suicided (x_size b) loc pla (colors b) = ?S"
      using f(4) True by (simp add: getNumLiberties_def)
    have n: "?n = int (card ?S)" using chains_ok_chain [OF c1 hh] by (simp add: chain_ok_def)
    have colh: "colors b1 ?h = pla" using head_color [OF c1, of loc] cl p by simp
    have "core Z (\<lambda>_. 0) {} ?r"
    proof -
      have "m \<in> ?S" if l: "l \<in> ?S" "adjacent (x_size ?m) l m" "colors ?m m = colors ?m l" for l m
        using l f(1) by (auto simp: chain_of_def core_def max_ok_def)
      from core_removed [OF corem, of ?h ?S, OF _ _ this] hh colh show ?thesis by (simp add: hm)
    qed
    moreover have "core Z (\<lambda>_. 0) {} ?f = core Z (\<lambda>_. 0) {} ?r"
      by (rule core_cong; cases "pla = P_BLACK"; simp)
    ultimately have core: "core Z (\<lambda>_. 0) {} ?f" by simp
    have hf: "heads ?f = heads b1 - {?h}"
    proof -
      have "heads ?f = heads ?r" by (cases "pla = P_BLACK"; simp add: heads_def)
      then show ?thesis using heads_removed [of ?S ?m ?h Z "getOpp pla"] by (simp add: hm)
    qed
    have "num_liberties (chain_data ?m ?h) = 0" using True by (simp add: getNumLiberties_def)
    then have "ko_loc ?f = NULL_LOC" by simp
    moreover have "0 < num_liberties (chain_data ?f h)" if "h \<in> heads ?f" for h
      using that hf pos [of h] by simp
    ultimately have "wf_board Z ?f" using core by (simp add: wf_board_def ko_ok_def)
    moreover have "colors ?f = tt_play (x_size b) loc pla (colors b)"
      unfolding play2 suic by (cases "pla = P_BLACK") (simp_all add: fun_eq_iff)
    moreover have "x_size ?f = x_size b" "y_size ?f = y_size b"
      by (simp_all add: dims)
    moreover have "numWhiteCaptures ?f = numWhiteCaptures b + int (card (if pla = P_BLACK
        then tt_captured (x_size b) loc pla (colors b) else tt_suicided (x_size b) loc pla (colors b)))"
      unfolding suic using cap dims n by (cases "pla = P_BLACK") auto
    moreover have "numBlackCaptures ?f = numBlackCaptures b + int (card (if pla = P_BLACK
        then tt_suicided (x_size b) loc pla (colors b) else tt_captured (x_size b) loc pla (colors b)))"
      unfolding suic using cap dims n by (cases "pla = P_BLACK") auto
    ultimately show ?thesis using r by (intro exI [of _ ?f]) blast
  qed
qed

end
