(* ===== verification/BoardQueries.thy ===== *)
theory BoardQueries
  imports BoardPlay
begin

text \<open>
  The questions the search asks of a board without playing: whether a move captures, whether it
  is suicide, and which hash the position would have afterwards. Each is answered from the
  liberty counts of the neighbouring chains; the lemmas here show that on a well-formed board
  the answer is the one of the rules on colours.
\<close>

section \<open>What a move would do, in terms of chains\<close>

definition atari_heads :: "board \<Rightarrow> loc \<Rightarrow> player \<Rightarrow> loc set" where
  "atari_heads b loc p =
     {chain_head b a | a. adjacent (x_size b) loc a \<and> colors b a = p \<and> getNumLiberties b a = 1}"

definition own_chains :: "board \<Rightarrow> loc \<Rightarrow> player \<Rightarrow> loc set" where
  "own_chains b loc p =
     (\<Union>a\<in>{a. adjacent (x_size b) loc a \<and> colors b a = p}. chain_of b (chain_head b a))"

text \<open>The situation in which all these questions are asked.\<close>

definition move_at :: "zobrist \<Rightarrow> board \<Rightarrow> loc \<Rightarrow> player \<Rightarrow> bool" where
  "move_at Z b loc p \<longleftrightarrow> live_board Z b \<and> on_board (x_size b) (y_size b) loc \<and>
     colors b loc = C_EMPTY \<and> is_stone p"

lemma move_at_pre: "move_at Z b loc p \<Longrightarrow> play_pre Z b loc p"
  by (simp add: move_at_def play_pre_def live_board_def)

lemma move_at_core:
  assumes "move_at Z b loc p"
  shows "geom_ok b" "hash_ok Z b" "chains_ok b (\<lambda>_. 0)" "max_ok b {}"
    "\<And>h. h \<in> heads b \<Longrightarrow> 0 < num_liberties (chain_data b h)"
  using assms by (simp_all add: move_at_def live_board_def core_def)

lemma chain_at:
  assumes "move_at Z b loc p" "is_stone (colors b a)"
  shows "chain_head b a \<in> heads b" "chain_ok b 0 (chain_head b a)" "colors b (chain_head b a) = colors b a"
  using chains_ok_head [OF move_at_core(3) [OF assms(1)] assms(2)]
    chains_ok_chain [OF move_at_core(3) [OF assms(1)]] head_color [OF move_at_core(3) [OF assms(1)] assms(2)]
  by auto

text \<open>The liberties of a neighbouring chain of the point: at least the point itself.\<close>

lemma neighbour_liberties:
  assumes m: "move_at Z b loc p" and a: "adjacent (x_size b) loc a" "is_stone (colors b a)"
  shows "getNumLiberties b a = int (card (libs_of b (chain_of b (chain_head b a))))"
    and "loc \<in> libs_of b (chain_of b (chain_head b a))"
    and "getNumLiberties b a = 1 \<longleftrightarrow> libs_of b (chain_of b (chain_head b a)) = {loc}"
    and "getNumLiberties b a > 1 \<longleftrightarrow> libs_of b (chain_of b (chain_head b a)) - {loc} \<noteq> {}"
proof -
  let ?L = "libs_of b (chain_of b (chain_head b a))"
  show n: "getNumLiberties b a = int (card ?L)"
    using chain_at(2) [OF m a(2)] by (simp add: chain_ok_def getNumLiberties_def)
  have "a \<in> chain_of b (chain_head b a)" by (rule chain_of_mem [OF a(2)])
  then show l: "loc \<in> ?L"
    using a(1) m adjacent_sym by (auto simp: libs_of_def move_at_def)
  have fin: "finite ?L" by (rule finite_libs_of [OF move_at_core(1) [OF m]])
  have c: "card ?L = Suc (card (?L - {loc}))" by (rule card.remove [OF fin l])
  have z: "card (?L - {loc}) = 0 \<longleftrightarrow> ?L - {loc} = {}" using fin by (intro card_0_eq) simp
  have e: "?L - {loc} = {} \<longleftrightarrow> ?L = {loc}" using l by blast
  have "getNumLiberties b a = 1 \<longleftrightarrow> card (?L - {loc}) = 0"
    "getNumLiberties b a > 1 \<longleftrightarrow> card (?L - {loc}) \<noteq> 0" unfolding n c by linarith+
  then show "getNumLiberties b a = 1 \<longleftrightarrow> ?L = {loc}" "getNumLiberties b a > 1 \<longleftrightarrow> ?L - {loc} \<noteq> {}"
    unfolding z e by blast+
qed

lemma tt_captured_chains:
  assumes m: "move_at Z b loc p"
  shows "tt_captured (x_size b) loc p (colors b) = \<Union>(chain_of b ` atari_heads b loc (getOpp p))"
proof -
  note pre = move_at_pre [OF m]
  from play_loop [OF pre] obtain b1 cap kl seen
    where inv: "play_inv Z b loc p [] (b1, cap, kl, seen)" by fast
  have "set seen = {chain_head b a | a. adjacent (x_size b) loc a \<and> colors b a = getOpp p}"
    using inv by (intro equalityI) (simp_all add: play_inv_def)
  then have "caught b seen = \<Union>(chain_of b ` atari_heads b loc (getOpp p))"
    unfolding caught_def atari_heads_def getNumLiberties_def by auto
  then show ?thesis using play_loop_facts(3) [OF pre inv] by simp
qed

text \<open>The board after the opponent's stones are taken.\<close>

definition cleared :: "board \<Rightarrow> loc \<Rightarrow> player \<Rightarrow> loc \<Rightarrow> color" where
  "cleared b loc p = tt_clear (x_size b) (getOpp p) ((colors b)(loc := p))"

lemma cleared_eq:
  assumes "is_stone p"
  shows "cleared b loc p = (\<lambda>l. if l \<in> tt_captured (x_size b) loc p (colors b) then C_EMPTY
      else ((colors b)(loc := p)) l)"
  by (auto simp: cleared_def tt_clear_def tt_captured_def fun_eq_iff)

lemma tt_captured_opp:
  assumes "l \<in> tt_captured (x_size b) loc p (colors b)"
  shows "colors b l = getOpp p" "l \<noteq> loc"
  using assms by (auto simp: tt_captured_def split: if_splits)

lemma cleared_own:
  assumes "is_stone p" shows "cleared b loc p l = p \<longleftrightarrow> l = loc \<or> colors b l = p"
  unfolding cleared_eq [OF assms] using tt_captured_opp [of l b loc p] assms by auto

text \<open>The group of the new stone: the point and the own chains around it.\<close>

lemma group_cleared:
  assumes m: "move_at Z b loc p"
  shows "group (x_size b) (cleared b loc p) loc = insert loc (own_chains b loc p)"
proof -
  have p: "is_stone p" and g: "geom_ok b" using m move_at_core(1) by (auto simp: move_at_def)
  have cl: "cleared b loc p loc = p" using cleared_own [OF p] by simp
  have own: "colors b x = p \<and> x \<in> chain_of b (chain_head b x)" if "x \<in> own_chains b loc p" for x
  proof -
    from that obtain a where a: "x \<in> chain_of b (chain_head b a)" "colors b a = p"
      by (auto simp: own_chains_def)
    have sa: "is_stone (colors b a)" using a p by simp
    have "colors b x = p" using chain_ok_color [OF chain_at(2) [OF m sa] a(1)] chain_at(3) [OF m sa] a by simp
    then show ?thesis using p by (simp add: chain_of_def)
  qed
  show ?thesis
  proof (rule group_eq)
    have cc: "conn (x_size b) (insert loc (\<Union>a\<in>A. chain_of b (chain_head b a)))"
      if "finite A" "\<forall>a\<in>A. adjacent (x_size b) loc a \<and> colors b a = p" for A
      using that
    proof (induction A)
      case empty
      then show ?case by simp
    next
      case (insert a A)
      have sa: "is_stone (colors b a)" using insert.prems p by simp
      have "conn (x_size b) (insert loc (\<Union>a\<in>A. chain_of b (chain_head b a)) \<union> chain_of b (chain_head b a))"
      proof (rule conn_union)
        show "conn (x_size b) (insert loc (\<Union>a\<in>A. chain_of b (chain_head b a)))" using insert by simp
        show "conn (x_size b) (chain_of b (chain_head b a))"
          using chain_at(2) [OF m sa] by (simp add: chain_ok_def)
        show "a \<in> chain_of b (chain_head b a)" by (rule chain_of_mem [OF sa])
        show "adjacent (x_size b) loc a" using insert.prems by simp
      qed simp
      then show ?case by (simp add: Un_commute)
    qed
    let ?A = "{a. adjacent (x_size b) loc a \<and> colors b a = p}"
    have "finite ?A" by (rule finite_subset [of _ "{a. adjacent (x_size b) loc a}"]) auto
    from cc [OF this] show "conn (x_size b) (insert loc (own_chains b loc p))"
      by (simp add: own_chains_def)
    show "loc \<in> insert loc (own_chains b loc p)" by simp
    show "cleared b loc p x = cleared b loc p loc" if "x \<in> insert loc (own_chains b loc p)" for x
      using that own cleared_own [OF p] cl by (metis insert_iff)
    show "v \<in> insert loc (own_chains b loc p)"
      if uv: "u \<in> insert loc (own_chains b loc p)" "adjacent (x_size b) u v" "cleared b loc p v = cleared b loc p loc" for u v
    proof (cases "v = loc")
      case False
      then have cv: "colors b v = p" using uv(3) cl cleared_own [OF p] by simp
      show ?thesis
      proof (cases "u = loc")
        case True
        then have "v \<in> own_chains b loc p"
          using uv(2) cv p by (auto simp: own_chains_def chain_of_def)
        then show ?thesis by simp
      next
        case False
        then have u: "u \<in> own_chains b loc p" using uv(1) by simp
        then obtain a where a: "u \<in> chain_of b (chain_head b a)" "adjacent (x_size b) loc a" "colors b a = p"
          by (auto simp: own_chains_def)
        have "chain_head b u = chain_head b v"
          using move_at_core(4) [OF m] uv(2) own [OF u] cv p unfolding max_ok_def by blast
        then have "v \<in> chain_of b (chain_head b a)" using a(1) cv p by (simp add: chain_of_def)
        then show ?thesis using a by (auto simp: own_chains_def)
      qed
    qed simp
  qed
qed

lemma captured_iff_head:
  assumes "move_at Z b loc p"
  shows "l \<in> tt_captured (x_size b) loc p (colors b) \<longleftrightarrow>
     (\<exists>a. adjacent (x_size b) loc a \<and> colors b a = getOpp p \<and> getNumLiberties b a = 1 \<and>
          l \<in> chain_of b (chain_head b a))"
  unfolding tt_captured_chains [OF assms] atari_heads_def by blast

lemma captured_neighbour:
  assumes "move_at Z b loc p" "adjacent (x_size b) loc a" "colors b a = getOpp p" "getNumLiberties b a = 1"
  shows "a \<in> tt_captured (x_size b) loc p (colors b)"
  unfolding captured_iff_head [OF assms(1)]
  using assms by (intro exI [of _ a]) (simp add: chain_of_mem move_at_def)

lemma has_liberty_cleared:
  assumes m: "move_at Z b loc p"
  shows "has_liberty (x_size b) (cleared b loc p) loc \<longleftrightarrow>
    (\<exists>a. adjacent (x_size b) loc a \<and>
         (colors b a = C_EMPTY \<or> colors b a = p \<and> getNumLiberties b a > 1 \<or>
          colors b a = getOpp p \<and> getNumLiberties b a = 1))" (is "_ \<longleftrightarrow> (\<exists>a. ?Q a)")
proof
  have p: "is_stone p" and e: "colors b loc = C_EMPTY" and xs: "0 \<le> x_size b"
    using m move_at_core(1) [OF m] by (auto simp: move_at_def geom_ok_def)
  assume "has_liberty (x_size b) (cleared b loc p) loc"
  then obtain x e where x: "x \<in> insert loc (own_chains b loc p)" and xe: "adjacent (x_size b) x e"
    and ce: "cleared b loc p e = C_EMPTY"
    unfolding has_liberty_def group_cleared [OF m] by blast
  show "\<exists>a. ?Q a"
  proof (cases "e \<in> tt_captured (x_size b) loc p (colors b)")
    case True
    then show ?thesis unfolding captured_iff_head [OF m] by blast
  next
    case False
    then have ee: "e \<noteq> loc" "colors b e = C_EMPTY"
      using ce p unfolding cleared_eq [OF p] by (auto split: if_splits)
    show ?thesis
    proof (cases "x = loc")
      case True
      then show ?thesis using xe ee by blast
    next
      case False
      then obtain a where a: "x \<in> chain_of b (chain_head b a)" "adjacent (x_size b) loc a" "colors b a = p"
        using x by (auto simp: own_chains_def)
      have "e \<in> libs_of b (chain_of b (chain_head b a)) - {loc}"
        using a(1) xe ee by (auto simp: libs_of_def)
      then have "getNumLiberties b a > 1"
        using neighbour_liberties(4) [OF m a(2)] a(3) p by blast
      then show ?thesis using a by blast
    qed
  qed
next
  have p: "is_stone p" and e: "colors b loc = C_EMPTY" and xs: "0 \<le> x_size b"
    using m move_at_core(1) [OF m] by (auto simp: move_at_def geom_ok_def)
  have emp: "cleared b loc p x = C_EMPTY" if "colors b x = C_EMPTY" "x \<noteq> loc" for x
    using that unfolding cleared_eq [OF p] by simp
  assume "\<exists>a. ?Q a"
  then obtain a where a: "adjacent (x_size b) loc a" and q: "?Q a" by blast
  have ne: "a \<noteq> loc" using a adjacent_irrefl [OF xs] by blast
  have "\<exists>x\<in>insert loc (own_chains b loc p). \<exists>e. adjacent (x_size b) x e \<and> cleared b loc p e = C_EMPTY"
    using q
  proof (elim conjE disjE)
    assume "colors b a = C_EMPTY"
    then show ?thesis using a emp ne by blast
  next
    assume o: "colors b a = p" and "getNumLiberties b a > 1"
    then obtain y where "y \<in> libs_of b (chain_of b (chain_head b a))" "y \<noteq> loc"
      using neighbour_liberties(4) [OF m a] p by blast
    then obtain x where "x \<in> chain_of b (chain_head b a)" "adjacent (x_size b) x y" "cleared b loc p y = C_EMPTY"
      using emp by (auto simp: libs_of_def)
    then show ?thesis using a o by (auto simp: own_chains_def)
  next
    assume "colors b a = getOpp p" "getNumLiberties b a = 1"
    then have "cleared b loc p a = C_EMPTY"
      using captured_neighbour [OF m a] unfolding cleared_eq [OF p] by simp
    then show ?thesis using a by blast
  qed
  then show "has_liberty (x_size b) (cleared b loc p) loc"
    unfolding has_liberty_def group_cleared [OF m] .
qed

lemma tt_suicided_eq:
  assumes m: "move_at Z b loc p"
  shows "tt_suicided (x_size b) loc p (colors b) =
    (if has_liberty (x_size b) (cleared b loc p) loc then {} else insert loc (own_chains b loc p))"
proof -
  note pre = move_at_pre [OF m]
  have p: "is_stone p" using m by (simp add: move_at_def)
  from play_loop [OF pre] obtain b1 cap kl seen
    where inv: "play_inv Z b loc p [] (b1, cap, kl, seen)" by fast
  note f = play_loop_facts [OF pre inv]
  have xs: "x_size b1 = x_size b" using inv by (simp add: play_inv_def)
  have cols: "colors b1 = cleared b loc p" unfolding cleared_def by (rule f(2))
  from f(1) have c: "chains_ok b1 (\<lambda>_. 0)" and g: "geom_ok b1" and mx: "max_ok b1 {}" by (simp_all add: core_def)
  have cl: "colors b1 loc = p" unfolding cols using cleared_own [OF p] by simp
  have s: "is_stone (colors b1 loc)" using cl p by simp
  have mxl: "chain_head b1 u = chain_head b1 v"
    if "adjacent (x_size b1) u v" "colors b1 u = colors b1 loc" "colors b1 v = colors b1 loc" for u v
    using mx that s by (auto simp: max_ok_def)
  have gr: "chain_of b1 (chain_head b1 loc) = insert loc (own_chains b loc p)"
    using chain_group [OF c s mxl] group_cleared [OF m] by (simp add: cols xs)
  have "has_liberty (x_size b) (cleared b loc p) loc \<longleftrightarrow> libs_of b1 (chain_of b1 (chain_head b1 loc)) \<noteq> {}"
    using has_liberty_chain [OF c s mxl] by (simp add: cols xs)
  also have "\<dots> \<longleftrightarrow> getNumLiberties b1 loc \<noteq> 0"
    using chains_ok_chain [OF c chains_ok_head [OF c s]] finite_libs_of [OF g]
    by (auto simp: chain_ok_def getNumLiberties_def)
  finally show ?thesis using f(4) gr by simp
qed

section \<open>Captures and suicide\<close>

lemma wouldBeCapture_eq:
  assumes m: "move_at Z b loc p"
  shows "wouldBeCapture b loc p \<longleftrightarrow> tt_captured (x_size b) loc p (colors b) \<noteq> {}"
proof -
  have e: "colors b loc = C_EMPTY" using m by (simp add: move_at_def)
  have "wouldBeCapture b loc p \<longleftrightarrow>
      (\<exists>a. adjacent (x_size b) loc a \<and> colors b a = getOpp p \<and> getNumLiberties b a = 1)"
    using e unfolding wouldBeCapture_def by (simp add: list_ex_iff set_adjs Bex_def)
  also have "\<dots> \<longleftrightarrow> tt_captured (x_size b) loc p (colors b) \<noteq> {}"
    using captured_iff_head [OF m] captured_neighbour [OF m] by blast
  finally show ?thesis .
qed

lemma isSuicide_eq:
  assumes m: "move_at Z b loc p"
  shows "isSuicide b loc p \<longleftrightarrow> tt_suicided (x_size b) loc p (colors b) \<noteq> {}"
proof -
  have p: "is_stone p" and ob: "on_board (x_size b) (y_size b) loc" using m by (simp_all add: move_at_def)
  have np: "loc \<noteq> PASS_LOC"
    using on_board_range(1) [OF ob] move_at_core(1) [OF m] by (auto simp: geom_ok_def PASS_LOC_def)
  have pt: "(if colors b a = C_EMPTY then False
      else if colors b a = p then \<not> getNumLiberties b a > 1
      else if colors b a = getOpp p then \<not> getNumLiberties b a = 1 else True) \<longleftrightarrow>
      \<not> (colors b a = C_EMPTY \<or> colors b a = p \<and> getNumLiberties b a > 1 \<or>
         colors b a = getOpp p \<and> getNumLiberties b a = 1)" for a
    by (simp add: p)
  have "isSuicide b loc p \<longleftrightarrow> \<not> has_liberty (x_size b) (cleared b loc p) loc"
    unfolding has_liberty_cleared [OF m] isSuicide_def list_all_iff set_adjs Let_def if_not_P [OF np] pt
    by blast
  then show ?thesis unfolding tt_suicided_eq [OF m] by simp
qed

lemma isIllegalSuicide_eq:
  assumes m: "move_at Z b loc p"
  shows "isIllegalSuicide b loc p multi \<longleftrightarrow>
    tt_suicided (x_size b) loc p (colors b) \<noteq> {} \<and> (multi \<longrightarrow> tt_suicided (x_size b) loc p (colors b) = {loc})"
proof -
  have p: "is_stone p" and e: "colors b loc = C_EMPTY" using m by (simp_all add: move_at_def)
  have own: "own_chains b loc p = {} \<longleftrightarrow> (\<forall>a. adjacent (x_size b) loc a \<longrightarrow> colors b a \<noteq> p)"
    using chain_of_mem [of b] p by (auto simp: own_chains_def)
  have nl: "loc \<notin> own_chains b loc p" using e by (auto simp: own_chains_def chain_of_def)
  have pt: "(if colors b a = C_EMPTY then False
      else if colors b a = p then \<not> (multi \<or> getNumLiberties b a > 1)
      else if colors b a = getOpp p then \<not> getNumLiberties b a = 1 else True) \<longleftrightarrow>
      \<not> (colors b a = C_EMPTY \<or> colors b a = p \<and> getNumLiberties b a > 1 \<or>
         colors b a = getOpp p \<and> getNumLiberties b a = 1) \<and> (multi \<longrightarrow> colors b a \<noteq> p)" for a
    by (simp add: p conj_commute)
  have "isIllegalSuicide b loc p multi \<longleftrightarrow> \<not> has_liberty (x_size b) (cleared b loc p) loc \<and>
      (multi \<longrightarrow> own_chains b loc p = {})"
    unfolding has_liberty_cleared [OF m] isIllegalSuicide_def list_all_iff set_adjs own Let_def pt
    by blast
  also have "\<dots> \<longleftrightarrow> tt_suicided (x_size b) loc p (colors b) \<noteq> {} \<and>
      (multi \<longrightarrow> tt_suicided (x_size b) loc p (colors b) = {loc})"
    unfolding tt_suicided_eq [OF m] using nl by auto
  finally show ?thesis .
qed

section \<open>The hash after a move\<close>

text \<open>Taking stones off one by one is one exclusive or each.\<close>

lemma hash_take:
  assumes "distinct xs" "\<And>l. l \<in> set xs \<Longrightarrow> on_board X Y l \<and> c l = p" "is_stone p"
  shows "fold (\<lambda>cur h. hxor h (ZOBRIST_BOARD_HASH Z cur p)) xs (position_hash Z X Y c) =
    position_hash Z X Y (\<lambda>l. if l \<in> set xs then C_EMPTY else c l)"
  using assms
proof (induction xs arbitrary: c)
  case Nil
  then show ?case by simp
next
  case (Cons x xs)
  have "hxor (position_hash Z X Y c) (ZOBRIST_BOARD_HASH Z x p) = position_hash Z X Y (c(x := C_EMPTY))"
    using Cons.prems(2) [of x] Cons.prems(3) by (simp add: position_hash_update stone_hash_def)
  moreover have "fold (\<lambda>cur h. hxor h (ZOBRIST_BOARD_HASH Z cur p)) xs (position_hash Z X Y (c(x := C_EMPTY))) =
      position_hash Z X Y (\<lambda>l. if l \<in> set xs then C_EMPTY else (c(x := C_EMPTY)) l)"
    using Cons.prems by (intro Cons.IH) auto
  moreover have "(\<lambda>l. if l \<in> set xs then C_EMPTY else (c(x := C_EMPTY)) l) =
      (\<lambda>l. if l \<in> set (x # xs) then C_EMPTY else c l)" by auto
  ultimately show ?case by simp
qed

text \<open>The walk along one chain.\<close>

lemma hash_chain_eq:
  assumes m: "move_at Z b loc p" and s: "is_stone (colors b a)"
    and c: "\<And>l. l \<in> chain_of b (chain_head b a) \<Longrightarrow> c l = colors b a"
  shows "hash_chain Z b (colors b a) a (position_hash Z (x_size b) (y_size b) c) =
    Some (position_hash Z (x_size b) (y_size b)
      (\<lambda>l. if l \<in> chain_of b (chain_head b a) then C_EMPTY else c l))"
proof -
  from chain_ring [OF move_at_core(3) [OF m] s] obtain ps
    where r: "ring (next_in_chain b) a ps" and ps: "set (a # ps) = chain_of b (chain_head b a)" by blast
  have "hash_chain Z b (colors b a) a (position_hash Z (x_size b) (y_size b) c) =
      Some (fold (\<lambda>cur h. hxor h (ZOBRIST_BOARD_HASH Z cur (colors b a))) (a # ps)
        (position_hash Z (x_size b) (y_size b) c))"
    unfolding hash_chain_def by (rule walk_all_ring [OF r, where I = "\<lambda>_. True"]) simp_all
  also have "\<dots> = Some (position_hash Z (x_size b) (y_size b)
      (\<lambda>l. if l \<in> chain_of b (chain_head b a) then C_EMPTY else c l))"
    unfolding ps [symmetric]
  proof (intro arg_cong [where f = Some] hash_take s)
    show "distinct (a # ps)" using r by (simp add: ring_def)
    show "on_board (x_size b) (y_size b) l \<and> c l = colors b a" if "l \<in> set (a # ps)" for l
      using that ps c chain_of_subset [OF move_at_core(1) [OF m]] by auto
  qed
  finally show ?thesis .
qed

definition chains_in :: "board \<Rightarrow> loc list \<Rightarrow> loc set" where
  "chains_in b hs = \<Union>(chain_of b ` set hs)"

text \<open>
  The state of the first loop: the chains taken so far, and whether something already seen
  rules suicide out.
\<close>

definition scanned :: "board \<Rightarrow> loc \<Rightarrow> player \<Rightarrow> loc list \<Rightarrow> loc set" where
  "scanned b loc q R = {chain_head b a | a. adjacent (x_size b) loc a \<and> a \<notin> set R \<and>
     colors b a = q \<and> getNumLiberties b a = 1}"

definition after_taking :: "zobrist \<Rightarrow> board \<Rightarrow> loc \<Rightarrow> player \<Rightarrow> loc list \<Rightarrow> hash128" where
  "after_taking Z b loc p caps = position_hash Z (x_size b) (y_size b)
     (\<lambda>l. if l \<in> chains_in b caps then C_EMPTY else ((colors b)(loc := p)) l)"

definition frees :: "board \<Rightarrow> player \<Rightarrow> loc \<Rightarrow> bool" where
  "frees b p a \<longleftrightarrow> colors b a = C_EMPTY \<or> colors b a = p \<and> getNumLiberties b a > 1 \<or>
     colors b a = getOpp p \<and> getNumLiberties b a = 1"

definition scan_inv ::
  "zobrist \<Rightarrow> board \<Rightarrow> loc \<Rightarrow> player \<Rightarrow> loc list \<Rightarrow> hash128 \<times> bool \<times> loc list \<Rightarrow> bool" where
  "scan_inv Z b loc p R = (\<lambda>(h, suic, caps).
     distinct R \<and> (\<forall>a\<in>set R. adjacent (x_size b) loc a) \<and> h = after_taking Z b loc p caps \<and>
     set caps = scanned b loc (getOpp p) R \<and>
     suic = (\<forall>a. adjacent (x_size b) loc a \<and> a \<notin> set R \<longrightarrow> \<not> frees b p a))"

definition own_inv :: "zobrist \<Rightarrow> board \<Rightarrow> loc \<Rightarrow> player \<Rightarrow> loc list \<Rightarrow> hash128 \<times> loc list \<Rightarrow> bool" where
  "own_inv Z b loc p R = (\<lambda>(h, caps).
     distinct R \<and> (\<forall>a\<in>set R. adjacent (x_size b) loc a) \<and> h = after_taking Z b loc p caps \<and>
     set caps = scanned b loc p R)"

lemma scanned_step:
  assumes "distinct (x # R)" "adjacent (x_size b) loc x"
  shows "scanned b loc q R = scanned b loc q (x # R) \<union>
    (if colors b x = q \<and> getNumLiberties b x = 1 then {chain_head b x} else {})"
  using assms unfolding scanned_def by auto

lemma frees_step:
  assumes "distinct (x # R)" "adjacent (x_size b) loc x"
  shows "(\<forall>a. adjacent (x_size b) loc a \<and> a \<notin> set R \<longrightarrow> \<not> frees b p a) \<longleftrightarrow>
    (\<forall>a. adjacent (x_size b) loc a \<and> a \<notin> set (x # R) \<longrightarrow> \<not> frees b p a) \<and> \<not> frees b p x"
  using assms by auto

text \<open>Taking one more chain of the colour \<open>q\<close>.\<close>

lemma after_taking_snoc:
  assumes m: "move_at Z b loc p" and q: "is_stone q" and a: "colors b a = q"
    and n: "chain_head b a \<notin> set caps"
  shows "hash_chain Z b q a (after_taking Z b loc p caps) = Some (after_taking Z b loc p (caps @ [chain_head b a]))"
proof -
  let ?c = "\<lambda>l. if l \<in> chains_in b caps then C_EMPTY else ((colors b)(loc := p)) l"
  have sa: "is_stone (colors b a)" using a q by simp
  have e: "colors b loc = C_EMPTY" using m by (simp add: move_at_def)
  have c: "?c l = colors b a" if l: "l \<in> chain_of b (chain_head b a)" for l
  proof -
    have "l \<notin> chains_in b caps" using l n by (auto simp: chains_in_def chain_of_def)
    moreover have "l \<noteq> loc" using l e by (auto simp: chain_of_def)
    ultimately show ?thesis
      using chain_ok_color [OF chain_at(2) [OF m sa] l] chain_at(3) [OF m sa] by simp
  qed
  have "hash_chain Z b (colors b a) a (position_hash Z (x_size b) (y_size b) ?c) =
      Some (position_hash Z (x_size b) (y_size b)
        (\<lambda>l. if l \<in> chain_of b (chain_head b a) then C_EMPTY else ?c l))"
    by (rule hash_chain_eq [OF m sa c])
  moreover have "(\<lambda>l. if l \<in> chain_of b (chain_head b a) then C_EMPTY else ?c l) =
      (\<lambda>l. if l \<in> chains_in b (caps @ [chain_head b a]) then C_EMPTY else ((colors b)(loc := p)) l)"
    by (auto simp: chains_in_def)
  ultimately show ?thesis unfolding after_taking_def using a by simp
qed

lemma scan_step:
  assumes m: "move_at Z b loc p" and inv: "scan_inv Z b loc p (x # R) u"
  shows "\<exists>v. hash_dir Z b p x u = Some v \<and> scan_inv Z b loc p R v"
proof -
  obtain h suic caps where u: "u = (h, suic, caps)" using prod_cases3 by blast
  from inv have d: "distinct (x # R)" "adjacent (x_size b) loc x" and R: "\<forall>a\<in>set R. adjacent (x_size b) loc a"
    and h: "h = after_taking Z b loc p caps" and caps: "set caps = scanned b loc (getOpp p) (x # R)"
    and suic: "suic = (\<forall>a. adjacent (x_size b) loc a \<and> a \<notin> set (x # R) \<longrightarrow> \<not> frees b p a)"
    unfolding u scan_inv_def by auto
  have p: "is_stone p" using m by (simp add: move_at_def)
  have dR: "distinct R" using d(1) by simp
  note step = scanned_step [OF d, of "getOpp p"] frees_step [OF d, of p]
  have keep: "scan_inv Z b loc p R (h, suic \<and> \<not> frees b p x, caps)"
    if "\<not> (colors b x = getOpp p \<and> getNumLiberties b x = 1 \<and> chain_head b x \<notin> set caps)"
  proof -
    have "set caps = scanned b loc (getOpp p) R" using that caps step(1) by auto
    then show ?thesis unfolding scan_inv_def prod.case step(2) using dR R h suic by blast
  qed
  show ?thesis
  proof (cases "colors b x = getOpp p \<and> getNumLiberties b x = 1 \<and> chain_head b x \<notin> set caps")
    case True
    then have f: "frees b p x" by (simp add: frees_def)
    have hc: "hash_chain Z b (getOpp p) x h = Some (after_taking Z b loc p (caps @ [chain_head b x]))"
      unfolding h by (rule after_taking_snoc [OF m]) (use True p in auto)
    have "hash_dir Z b p x u = Some (after_taking Z b loc p (caps @ [chain_head b x]), False, caps @ [chain_head b x])"
      unfolding u hash_dir_def using True p hc by (simp add: Let_def)
    moreover have "scan_inv Z b loc p R (after_taking Z b loc p (caps @ [chain_head b x]), False, caps @ [chain_head b x])"
      unfolding scan_inv_def prod.case step(2) using dR R f True caps step(1) by auto
    ultimately show ?thesis by blast
  next
    case False
    have "\<not> frees b p x \<or> \<not> suic \<or> hash_dir Z b p x u = Some (h, False, caps)"
    proof (cases "colors b x = getOpp p \<and> getNumLiberties b x = 1")
      case True
      then have "chain_head b x \<in> scanned b loc (getOpp p) (x # R)" using False caps by auto
      then obtain a where "adjacent (x_size b) loc a" "a \<notin> set (x # R)" "colors b a = getOpp p" "getNumLiberties b a = 1"
        unfolding scanned_def by blast
      then have "\<not> suic" unfolding suic frees_def by blast
      then show ?thesis by blast
    next
      case False
      then show ?thesis unfolding u hash_dir_def frees_def by (auto simp: Let_def)
    qed
    moreover have "frees b p x \<and> \<not> suic \<Longrightarrow> hash_dir Z b p x u = Some (h, suic, caps)"
      using False p unfolding u hash_dir_def frees_def by (auto simp: Let_def)
    moreover have "\<not> frees b p x \<Longrightarrow> hash_dir Z b p x u = Some (h, suic, caps)"
      unfolding u hash_dir_def frees_def by (auto simp: Let_def)
    ultimately have "hash_dir Z b p x u = Some (h, suic \<and> \<not> frees b p x, caps)"
      by (cases "frees b p x"; cases suic; simp)
    with keep [OF False] show ?thesis by blast
  qed
qed

lemma own_step:
  assumes m: "move_at Z b loc p" and inv: "own_inv Z b loc p (x # R) u"
  shows "\<exists>v. hash_own_dir Z b p x u = Some v \<and> own_inv Z b loc p R v"
proof -
  obtain h caps where u: "u = (h, caps)" by fastforce
  from inv have d: "distinct (x # R)" "adjacent (x_size b) loc x" and R: "\<forall>a\<in>set R. adjacent (x_size b) loc a"
    and h: "h = after_taking Z b loc p caps" and caps: "set caps = scanned b loc p (x # R)"
    unfolding u own_inv_def by auto
  have p: "is_stone p" using m by (simp add: move_at_def)
  have dR: "distinct R" using d(1) by simp
  show ?thesis
  proof (cases "colors b x = p \<and> getNumLiberties b x = 1 \<and> chain_head b x \<notin> set caps")
    case True
    have "hash_chain Z b p x h = Some (after_taking Z b loc p (caps @ [chain_head b x]))"
      unfolding h by (rule after_taking_snoc [OF m]) (use True p in auto)
    then have "hash_own_dir Z b p x u = Some (after_taking Z b loc p (caps @ [chain_head b x]), caps @ [chain_head b x])"
      unfolding u hash_own_dir_def using True by (simp add: Let_def)
    moreover have "own_inv Z b loc p R (after_taking Z b loc p (caps @ [chain_head b x]), caps @ [chain_head b x])"
      unfolding own_inv_def prod.case using dR R True caps scanned_step [OF d, of p] by auto
    ultimately show ?thesis by blast
  next
    case False
    then have "hash_own_dir Z b p x u = Some u" unfolding u hash_own_dir_def by auto
    moreover have "own_inv Z b loc p R u"
      unfolding u own_inv_def prod.case using dR R False h caps scanned_step [OF d, of p] by auto
    ultimately show ?thesis by blast
  qed
qed

lemma tt_play_eq:
  "tt_play (x_size b) loc p (colors b) =
    (\<lambda>l. if l \<in> tt_suicided (x_size b) loc p (colors b) then C_EMPTY else cleared b loc p l)"
  by (auto simp: tt_play_def tt_suicided_def cleared_def tt_clear_def [of _ p] fun_eq_iff Let_def)

lemma getPosHashAfterMove_eq:
  assumes m: "move_at Z b loc p"
  shows "getPosHashAfterMove Z b loc p =
    Some (position_hash Z (x_size b) (y_size b) (tt_play (x_size b) loc p (colors b)))"
proof -
  let ?A = "adjs (x_size b) loc" let ?ph = "position_hash Z (x_size b) (y_size b)"
  have p: "is_stone p" and e: "colors b loc = C_EMPTY" and ob: "on_board (x_size b) (y_size b) loc"
    using m by (simp_all add: move_at_def)
  have np: "loc \<noteq> PASS_LOC" "loc \<noteq> NULL_LOC"
    using on_board_range(1) [OF ob] move_at_core(1) [OF m] by (auto simp: geom_ok_def PASS_LOC_def NULL_LOC_def)
  have adj: "adj4 b loc = ?A" by (rule adj4_adjs [OF move_at_core(1) [OF m]])
  have dA: "distinct ?A" by (rule distinct_adjs [OF on_board_xs [OF ob]])
  have h0: "hxor (pos_hash b) (ZOBRIST_BOARD_HASH Z loc p) = after_taking Z b loc p []"
  proof -
    have "pos_hash b = ?ph (colors b)" using move_at_core(2) [OF m] by (simp add: hash_ok_def)
    moreover have "after_taking Z b loc p [] = ?ph ((colors b)(loc := p))"
      by (simp add: after_taking_def chains_in_def fun_upd_def)
    ultimately show ?thesis
      using e p by (simp only: position_hash_update [OF ob]) (simp add: stone_hash_def)
  qed
  have "scan_inv Z b loc p ?A (after_taking Z b loc p [], True, [])"
    using dA by (auto simp: scan_inv_def set_adjs scanned_def)
  from foldM_total [where f = "hash_dir Z b p" and I = "scan_inv Z b loc p", OF this scan_step [OF m]] obtain h suic caps
    where loop: "foldM (hash_dir Z b p) ?A (after_taking Z b loc p [], True, []) = Some (h, suic, caps)"
      and "scan_inv Z b loc p [] (h, suic, caps)" by fast
  then have h: "h = after_taking Z b loc p caps" and caps: "set caps = scanned b loc (getOpp p) []"
    and suic: "suic = (\<not> has_liberty (x_size b) (cleared b loc p) loc)"
    unfolding scan_inv_def has_liberty_cleared [OF m] frees_def by auto
  have "scanned b loc (getOpp p) [] = atari_heads b loc (getOpp p)"
    unfolding scanned_def atari_heads_def by auto
  then have capt: "chains_in b caps = tt_captured (x_size b) loc p (colors b)"
    unfolding chains_in_def caps tt_captured_chains [OF m] by simp
  have hc: "h = ?ph (cleared b loc p)"
    unfolding h after_taking_def capt cleared_eq [OF p] by simp
  show ?thesis
  proof (cases suic)
    case False
    then have "tt_suicided (x_size b) loc p (colors b) = {}" using suic tt_suicided_eq [OF m] by simp
    then show ?thesis
      unfolding getPosHashAfterMove_def Let_def adj h0 loop tt_play_eq using np hc False by simp
  next
    case True
    have nf: "\<not> frees b p a" if "adjacent (x_size b) loc a" for a
      using True that unfolding suic has_liberty_cleared [OF m] frees_def by blast
    then have "set caps = {}" unfolding caps scanned_def frees_def by blast
    then have caps0: "caps = []" by simp
    have "own_inv Z b loc p ?A (h, [])"
      using dA h caps0 by (auto simp: own_inv_def set_adjs scanned_def)
    from foldM_total [where f = "hash_own_dir Z b p" and I = "own_inv Z b loc p", OF this own_step [OF m]] obtain h2 caps2
      where loop2: "foldM (hash_own_dir Z b p) ?A (h, []) = Some (h2, caps2)"
        and inv2: "own_inv Z b loc p [] (h2, caps2)" by fast
    have one: "getNumLiberties b a = 1" if a: "adjacent (x_size b) loc a" "colors b a = p" for a
      using nf [OF a(1)] a neighbour_liberties(2-4) [OF m a(1)] p unfolding frees_def by blast
    have own: "chains_in b caps2 = own_chains b loc p"
      using inv2 one unfolding own_inv_def chains_in_def own_chains_def scanned_def by auto
    have no: "tt_captured (x_size b) loc p (colors b) = {}"
      using capt caps0 by (simp add: chains_in_def)
    have nl: "loc \<notin> own_chains b loc p" using e by (auto simp: own_chains_def chain_of_def)
    have ts: "tt_suicided (x_size b) loc p (colors b) = insert loc (own_chains b loc p)"
      using True suic tt_suicided_eq [OF m] by simp
    have "h2 = ?ph (\<lambda>l. if l \<in> own_chains b loc p then C_EMPTY else ((colors b)(loc := p)) l)"
      using inv2 own by (simp add: own_inv_def after_taking_def)
    then have "hxor h2 (ZOBRIST_BOARD_HASH Z loc p) =
        ?ph ((\<lambda>l. if l \<in> own_chains b loc p then C_EMPTY else ((colors b)(loc := p)) l)(loc := C_EMPTY))"
      using nl p by (simp add: position_hash_update [OF ob] stone_hash_def)
    also have "(\<lambda>l. if l \<in> own_chains b loc p then C_EMPTY else ((colors b)(loc := p)) l)(loc := C_EMPTY) =
        tt_play (x_size b) loc p (colors b)"
      unfolding tt_play_eq ts cleared_eq [OF p] no by (auto simp: fun_eq_iff)
    finally show ?thesis
      unfolding getPosHashAfterMove_def Let_def adj h0 loop using np True caps0 loop2 by simp
  qed
qed

text \<open>A played move in full, for the queries that are compared with it.\<close>

lemma played:
  assumes m: "move_at Z b loc p"
  obtains b' where "playMoveAssumeLegal Z loc p b = Some b'" "wf_board Z b'"
    "x_size b' = x_size b" "y_size b' = y_size b" "colors b' = tt_play (x_size b) loc p (colors b)"
    "pos_hash b' = position_hash Z (x_size b) (y_size b) (tt_play (x_size b) loc p (colors b))"
  using playMove_total [of Z b loc p] m unfolding move_at_def
  by (auto simp: wf_board_def core_def hash_ok_def)

section \<open>The simple ko point\<close>

lemma own_chains_self: "move_at Z b loc p \<Longrightarrow> loc \<notin> own_chains b loc p"
  by (auto simp: own_chains_def chain_of_def move_at_def)

lemma finite_own_chains: "move_at Z b loc p \<Longrightarrow> finite (own_chains b loc p)"
  using finite_chain_of [OF move_at_core(1)] finite_subset [of "{a. adjacent (x_size b) loc a \<and> colors b a = p}"
      "{a. adjacent (x_size b) loc a}"]
  by (auto simp: own_chains_def)

lemma playMove_ko:
  assumes m: "move_at Z b loc p" and r: "playMoveAssumeLegal Z loc p b = Some b'"
  shows "ko_loc b' = (if card (tt_captured (x_size b) loc p (colors b)) = 1 \<and> own_chains b loc p = {} \<and>
        card {e. adjacent (x_size b) loc e \<and> cleared b loc p e = C_EMPTY} = 1
      then the_elem (tt_captured (x_size b) loc p (colors b)) else NULL_LOC)"
proof -
  note pre = move_at_pre [OF m]
  have p: "is_stone p" and ob: "on_board (x_size b) (y_size b) loc" using m by (simp_all add: move_at_def)
  have np: "loc \<noteq> PASS_LOC"
    using on_board_range(1) [OF ob] move_at_core(1) [OF m] by (auto simp: geom_ok_def PASS_LOC_def)
  from play_loop [OF pre] obtain b1 cap kl seen
    where loop: "foldM (play_dir Z loc p) (adjs (x_size b) loc) (place_stone Z loc p b, 0, NULL_LOC, [])
        = Some (b1, cap, kl, seen)"
      and inv: "play_inv Z b loc p [] (b1, cap, kl, seen)" by fast
  note f = play_loop_facts [OF pre inv]
  let ?m = "play_mid p cap kl loc b1" let ?K = "tt_captured (x_size b) loc p (colors b)"
  let ?L = "{e. adjacent (x_size b) loc e \<and> cleared b loc p e = C_EMPTY}"
  have adj: "adj4 (place_stone Z loc p b) loc = adjs (x_size b) loc"
    using adj4_adjs [OF move_at_core(1) [OF m]] by (simp add: adj4_def)
  have play: "playMoveAssumeLegal Z loc p b = play_finish Z loc p (b1, cap, kl, seen)"
    unfolding playMoveAssumeLegal_def Let_def adj loop using np by simp
  have xs: "x_size b1 = x_size b" using inv by (simp add: play_inv_def)
  have cols: "colors b1 = cleared b loc p" unfolding cleared_def by (rule f(2))
  from f(1) have c: "chains_ok b1 (\<lambda>_. 0)" and mx: "max_ok b1 {}" by (simp_all add: core_def)
  have cl: "colors b1 loc = p" unfolding cols using cleared_own [OF p] by simp
  have s: "is_stone (colors b1 loc)" using cl p by simp
  have mxl: "chain_head b1 u = chain_head b1 v"
    if "adjacent (x_size b1) u v" "colors b1 u = colors b1 loc" "colors b1 v = colors b1 loc" for u v
    using mx that s by (auto simp: max_ok_def)
  have gr: "chain_of b1 (chain_head b1 loc) = insert loc (own_chains b loc p)"
    using chain_group [OF c s mxl] group_cleared [OF m] by (simp add: cols xs)
  note ok = chains_ok_chain [OF c chains_ok_head [OF c s]]
  have n1: "num_locs (chain_data b1 (chain_head b1 loc)) = 1 \<longleftrightarrow> own_chains b loc p = {}"
    using ok own_chains_self [OF m] finite_own_chains [OF m] by (simp add: chain_ok_def gr)
  have n2: "num_liberties (chain_data b1 (chain_head b1 loc)) = int (card ?L)" if "own_chains b loc p = {}"
    using ok that by (simp add: chain_ok_def gr libs_of_def cols xs conj_commute)
  have cap: "cap = int (card ?K)" using inv f(3) by (simp add: play_inv_def)
  have kl: "kl = the_elem ?K" if one: "card ?K = 1"
  proof -
    obtain k where k: "?K = {k}" using one by (auto simp: card_1_singleton_iff)
    then have "kl = k" using inv f(3) by (simp add: play_inv_def)
    then show ?thesis using k by simp
  qed
  have "ko_loc b' = ko_loc ?m"
  proof (cases "getNumLiberties ?m loc = 0")
    case True
    have corem: "core Z (\<lambda>_. 0) {} ?m" using f(1) by (simp add: core_cong [of ?m b1])
    have "removeChain Z loc ?m = Some (removed Z (getOpp p) (chain_of ?m (chain_head ?m loc)) ?m,
        int (card (chain_of ?m (chain_head ?m loc))))"
      using removeChain_eq [OF corem, of loc] cl p by simp
    then show ?thesis using r True unfolding play play_finish_mid by (auto simp: Let_def split: if_splits)
  next
    case False
    then show ?thesis using r unfolding play play_finish_mid by simp
  qed
  then show ?thesis using n1 n2 cap kl by auto
qed

text \<open>
  A move that is not a one-stone suicide bans a point exactly when retaking there would repeat
  the position before it: the simple ko rule.
\<close>

lemma ko_iff:
  assumes m: "move_at Z b loc p" and r: "playMoveAssumeLegal Z loc p b = Some b'" and k: "k \<noteq> NULL_LOC"
  shows "ko_loc b' = k \<longleftrightarrow> tt_captured (x_size b) loc p (colors b) = {k} \<and> own_chains b loc p = {} \<and>
        {e. adjacent (x_size b) loc e \<and> cleared b loc p e = C_EMPTY} = {k}"
proof -
  let ?K = "tt_captured (x_size b) loc p (colors b)"
  let ?L = "{e. adjacent (x_size b) loc e \<and> cleared b loc p e = C_EMPTY}"
  have p: "is_stone p" using m by (simp add: move_at_def)
  have kL: "k \<in> ?L" if K1: "?K = {k}"
  proof -
    from K1 obtain a where a: "adjacent (x_size b) loc a" "colors b a = getOpp p" "getNumLiberties b a = 1"
      using captured_iff_head [OF m, of k] by auto
    then have "a \<in> ?K" by (rule captured_neighbour [OF m])
    then show ?thesis using K1 a unfolding cleared_eq [OF p] by auto
  qed
  have mem: "k \<in> A \<Longrightarrow> card A = 1 \<longleftrightarrow> A = {k}" for A :: "loc set"
    by (auto simp: card_1_singleton_iff)
  have L: "card ?L = 1 \<longleftrightarrow> ?L = {k}" if "?K = {k}"
    by (rule mem [OF kL [OF that]])
  have one: "card A = 1 \<and> the_elem A = k \<longleftrightarrow> A = {k}" for A :: "loc set"
    by (auto simp: card_1_singleton_iff)
  note K = one [of ?K]
  have "ko_loc b' = k \<longleftrightarrow> (card ?K = 1 \<and> the_elem ?K = k) \<and> own_chains b loc p = {} \<and> card ?L = 1"
    unfolding playMove_ko [OF m r] using k by (cases "card ?K = 1"; cases "own_chains b loc p = {}") simp_all
  also have "\<dots> \<longleftrightarrow> ?K = {k} \<and> own_chains b loc p = {} \<and> ?L = {k}"
    unfolding K using L by blast
  finally show ?thesis .
qed

lemma self_in_group: "l \<in> group xs c l"
  by (simp add: group_def)

lemma tt_captured_if_cleared:
  "tt_captured (x_size b) loc p (colors b) \<noteq> {} \<Longrightarrow> move_at Z b loc p \<Longrightarrow>
   tt_suicided (x_size b) loc p (colors b) = {}"
  using captured_iff_head [of Z b loc p] has_liberty_cleared [of Z b loc p] tt_suicided_eq [of Z b loc p]
  by fastforce

lemma ko_repeats:
  assumes m: "move_at Z b loc p" and r: "playMoveAssumeLegal Z loc p b = Some b'"
    and ko: "ko_loc b' = k" and m': "move_at Z b' k (getOpp p)" and k: "k \<noteq> NULL_LOC"
  shows "tt_play (x_size b) k (getOpp p) (colors b') = colors b"
proof -
  have p: "is_stone p" and e: "colors b loc = C_EMPTY" using m by (simp_all add: move_at_def)
  let ?c = "(colors b)(loc := p)"
  from ko_iff [OF m r k] ko have K: "tt_captured (x_size b) loc p (colors b) = {k}"
    and own: "own_chains b loc p = {}" and L: "{e. adjacent (x_size b) loc e \<and> cleared b loc p e = C_EMPTY} = {k}"
    by simp_all
  have ns: "tt_suicided (x_size b) loc p (colors b) = {}"
    using tt_captured_if_cleared [OF _ m] K by simp
  from r played [OF m] have xs: "x_size b' = x_size b" and cb': "colors b' = tt_play (x_size b) loc p (colors b)"
    by auto
  have c': "colors b' = ?c(k := C_EMPTY)"
    unfolding cb' tt_play_eq ns cleared_eq [OF p] K by auto
  have kq: "colors b k = getOpp p" "k \<noteq> loc" using K tt_captured_opp [of k b loc p] by auto
  then have c2: "(colors b')(k := getOpp p) = ?c" unfolding c' by auto
  have cl: "cleared b loc p = ?c(k := C_EMPTY)" unfolding cleared_eq [OF p] K by auto
  have gl: "group (x_size b) ?c loc = {loc}"
  proof (rule group_eq)
    show "v \<in> {loc}" if "u \<in> {loc}" "adjacent (x_size b) u v" "?c v = ?c loc" for u v
    proof (rule ccontr)
      assume "v \<notin> {loc}"
      then have "colors b v = p" "adjacent (x_size b) loc v" using that by auto
      then have "v \<in> own_chains b loc p" using chain_of_mem [of b v] p by (auto simp: own_chains_def)
      then show False using own by simp
    qed
  qed simp_all
  have "\<not> has_liberty (x_size b) ?c loc"
  proof -
    have "?c x \<noteq> C_EMPTY" if "adjacent (x_size b) loc x" for x
    proof
      assume x: "?c x = C_EMPTY"
      then have "x \<noteq> k" using kq p by auto
      moreover have "x \<in> {e. adjacent (x_size b) loc e \<and> cleared b loc p e = C_EMPTY}"
        using that x unfolding cl by simp
      ultimately show False unfolding L by simp
    qed
    then show ?thesis unfolding has_liberty_def gl by blast
  qed
  moreover have "has_liberty (x_size b) ?c l" if l: "l \<noteq> loc" "colors b l = p" for l
  proof -
    have sl: "is_stone (colors b l)" using l p by simp
    let ?S = "chain_of b (chain_head b l)"
    note ok = chain_at(2) [OF m sl]
    have col: "colors b x = p" if "x \<in> ?S" for x
      using chain_ok_color [OF ok that] chain_at(3) [OF m sl] l by simp
    have off: "\<not> adjacent (x_size b) x loc" if "x \<in> ?S" for x
    proof
      assume "adjacent (x_size b) x loc"
      then have "adjacent (x_size b) loc x" using adjacent_sym by simp
      then have "x \<in> own_chains b loc p"
        using col [OF that] chain_of_mem [of b x] p by (auto simp: own_chains_def)
      then show False using own by simp
    qed
    have "group (x_size b) ?c l = ?S"
    proof (rule group_eq)
      show "conn (x_size b) ?S" using ok by (simp add: chain_ok_def)
      show "l \<in> ?S" by (rule chain_of_mem [OF sl])
      show "?c x = ?c l" if "x \<in> ?S" for x using col that l e by auto
      show "v \<in> ?S" if uv: "u \<in> ?S" "adjacent (x_size b) u v" "?c v = ?c l" for u v
      proof -
        have "v \<noteq> loc" using off uv by blast
        then have "colors b v = colors b u" using uv col [OF uv(1)] l by simp
        then have "chain_head b u = chain_head b v"
          using move_at_core(4) [OF m] uv col [OF uv(1)] p by (auto simp: max_ok_def)
        then show ?thesis using uv(1) \<open>colors b v = colors b u\<close> by (simp add: chain_of_def)
      qed
    qed
    moreover have "libs_of b ?S \<noteq> {}"
      using ok move_at_core(5) [OF m chain_at(1) [OF m sl]] by (auto simp: chain_ok_def)
    then obtain x y where "x \<in> ?S" "adjacent (x_size b) x y" "colors b y = C_EMPTY" "y \<noteq> loc"
      using off by (auto simp: libs_of_def)
    ultimately show ?thesis unfolding has_liberty_def by (metis fun_upd_other)
  qed
  ultimately have cap: "tt_captured (x_size b) k (getOpp p) (colors b') = {loc}"
    unfolding tt_captured_def c2 by (auto split: if_splits)
  have "tt_suicided (x_size b) k (getOpp p) (colors b') = {}"
    using tt_captured_if_cleared [OF _ m'] cap xs by simp
  moreover have "cleared b' k (getOpp p) = colors b"
    using cleared_eq [of "getOpp p" b' k] p cap c2 xs e by auto
  ultimately show ?thesis using tt_play_eq [of b' k "getOpp p"] xs by simp
qed

text \<open>Stones of one group are captured together.\<close>

lemma captured_chain:
  assumes m: "move_at Z b loc p" and l: "l \<in> tt_captured (x_size b) loc p (colors b)"
    and x: "x \<in> group (x_size b) (colors b) l"
  shows "x \<in> tt_captured (x_size b) loc p (colors b)"
proof -
  from l obtain a where a: "adjacent (x_size b) loc a" "colors b a = getOpp p" "getNumLiberties b a = 1"
    and la: "l \<in> chain_of b (chain_head b a)" unfolding captured_iff_head [OF m] by blast
  have sl: "is_stone (colors b l)" using la by (simp add: chain_of_def)
  have "group (x_size b) (colors b) l = chain_of b (chain_head b l)"
    by (rule chain_group [OF move_at_core(3) [OF m] sl])
      (use move_at_core(4) [OF m] sl in \<open>auto simp: max_ok_def\<close>)
  with x la have "x \<in> chain_of b (chain_head b a)" by (simp add: chain_of_def)
  with a show ?thesis unfolding captured_iff_head [OF m] by blast
qed

lemma repeats_ko:
  assumes m: "move_at Z b loc p" and r: "playMoveAssumeLegal Z loc p b = Some b'"
    and ns1: "tt_suicided (x_size b) loc p (colors b) \<noteq> {loc}"
    and m': "move_at Z b' k (getOpp p)" and k: "k \<noteq> NULL_LOC"
    and rep: "tt_play (x_size b) k (getOpp p) (colors b') = colors b"
  shows "ko_loc b' = k"
proof -
  let ?q = "getOpp p" let ?c' = "colors b'"
  let ?K = "tt_captured (x_size b) loc p (colors b)" let ?K' = "tt_captured (x_size b) k ?q ?c'"
  have p: "is_stone p" and e: "colors b loc = C_EMPTY" using m by (simp_all add: move_at_def)
  have ck: "?c' k = C_EMPTY" using m' by (simp add: move_at_def)
  from r played [OF m] have xs: "x_size b' = x_size b" and cb': "?c' = tt_play (x_size b) loc p (colors b)"
    by auto
  have play': "tt_play (x_size b) k ?q ?c' =
      (\<lambda>l. if l \<in> tt_suicided (x_size b) k ?q ?c' then C_EMPTY else cleared b' k ?q l)"
    using tt_play_eq [of b' k ?q] by (simp add: xs)
  have own': "?c' x = p" if "tt_play (x_size b) k ?q ?c' x = p" for x
    using that p unfolding tt_play_def tt_clear_def by (auto split: if_splits)
  have ns: "tt_suicided (x_size b) loc p (colors b) = {}"
  proof (rule ccontr)
    assume "tt_suicided (x_size b) loc p (colors b) \<noteq> {}"
    then have S: "tt_suicided (x_size b) loc p (colors b) = insert loc (own_chains b loc p)"
      using tt_suicided_eq [OF m] by (simp split: if_splits)
    then obtain x where x: "x \<in> own_chains b loc p" "x \<noteq> loc" using ns1 by auto
    then have "cleared b loc p x = p" using group_cleared [OF m] S
      by (auto simp: tt_suicided_def cleared_def Let_def)
    then have "colors b x = p" using cleared_own [OF p] x(2) by simp
    then have "?c' x = p" using own' [of x] rep by simp
    then show False unfolding cb' tt_play_eq using S x p by auto
  qed
  have c': "?c' = cleared b loc p" unfolding cb' tt_play_eq ns by simp
  have cl: "?c' loc = p" unfolding c' using cleared_own [OF p] by simp
  have kl: "k \<noteq> loc" using cl ck p by auto
  have locK': "loc \<in> ?K'"
  proof (rule ccontr)
    assume "loc \<notin> ?K'"
    then have "cleared b' k ?q loc = p"
      using cleared_eq [of ?q b' k] p cl kl xs by simp
    moreover have "loc \<notin> tt_suicided (x_size b) k ?q ?c'"
      using calculation p xs by (auto simp: tt_suicided_def cleared_def Let_def)
    ultimately show False using rep play' e p by (metis is_stone_simps(3))
  qed
  then have "tt_suicided (x_size b) k ?q ?c' = {}" using tt_captured_if_cleared [OF _ m'] xs by auto
  then have restored: "colors b = (\<lambda>l. if l \<in> ?K' then C_EMPTY else (?c'(k := ?q)) l)"
    using rep play' cleared_eq [of ?q b' k] p xs by simp
  have bk: "colors b k = ?q"
  proof -
    have "k \<notin> ?K'" using p by (auto simp: tt_captured_def)
    then show ?thesis unfolding restored by simp
  qed
  have K': "x = loc" if "x \<in> ?K'" for x
  proof (rule ccontr)
    assume ne: "x \<noteq> loc"
    have "?c' x = p" using that by (auto simp: tt_captured_def split: if_splits)
    then have "colors b x = p" using ne cleared_own [OF p] c' by simp
    then show False using that p unfolding restored by auto
  qed
  have K: "?K = {k}"
  proof (intro equalityI subsetI)
    fix x assume x: "x \<in> ?K"
    then have "colors b x = ?q" "?c' x = C_EMPTY" "x \<noteq> loc"
      using tt_captured_opp [OF x] x unfolding c' cleared_eq [OF p] by simp_all
    then show "x \<in> {k}" using p unfolding restored by (auto split: if_splits)
  next
    fix x assume "x \<in> {k}"
    then show "x \<in> ?K" using ck bk kl p unfolding c' cleared_eq [OF p] by (auto split: if_splits)
  qed
  have own: "own_chains b loc p = {}"
  proof (rule ccontr)
    assume "own_chains b loc p \<noteq> {}"
    then obtain x where x: "x \<in> own_chains b loc p" by blast
    then have "x \<in> group (x_size b') ?c' loc" using group_cleared [OF m] c' xs by simp
    then have "x \<in> ?K'" using captured_chain [OF m'] locK' xs by simp
    then show False using K' x own_chains_self [OF m] by blast
  qed
  have L: "{e. adjacent (x_size b) loc e \<and> cleared b loc p e = C_EMPTY} = {k}" (is "?L = _")
  proof -
    have "x = k" if "adjacent (x_size b) loc x" "?c' x = C_EMPTY" for x
    proof (rule ccontr)
      assume "x \<noteq> k"
      then have "(?c'(k := ?q)) x = C_EMPTY" using that by simp
      then have "has_liberty (x_size b) (?c'(k := ?q)) loc"
        unfolding has_liberty_def using that(1) self_in_group by blast
      then show False using locK' by (simp add: tt_captured_def)
    qed
    moreover have "has_liberty (x_size b) (cleared b loc p) loc"
      using ns tt_suicided_eq [OF m] by (simp split: if_splits)
    then have "?L \<noteq> {}" unfolding has_liberty_def group_cleared [OF m] own by blast
    ultimately show ?thesis unfolding c' by blast
  qed
  show ?thesis using ko_iff [OF m r k] K own L by simp
qed

end
