(* ===== verification/BoardEdit.thy ===== *)
theory BoardEdit
  imports Chains
begin

text \<open>
  The operations of \<open>game/board.cpp\<close> that set and remove single stones, and the setup of whole
  positions. \<open>None\<close> means, as in \<open>Chains\<close>, a walk that does not end or a failed \<open>assert\<close>. A
  placement is the code's struct \<open>Move\<close>: a point and a colour.
\<close>

record Move =
  mv_loc :: loc
  mv_pla :: player

section \<open>One stone\<close>

definition removeSingleStone :: "zobrist \<Rightarrow> loc \<Rightarrow> board \<Rightarrow> board option" where
  "removeSingleStone Z loc b =
     (let pla = colors b loc;
          num_locs = num_locs (chain_data b (chain_head b loc))
      in Option.bind (walk_all (\<lambda>_. next_in_chain b) (\<lambda>cur locs. locs @ [cur]) loc [])
           (\<lambda>locs.
              if int (length locs) \<noteq> num_locs then None
              else Option.bind (removeChain Z loc b)
                     (\<lambda>(b, _). foldM (\<lambda>l b. if l \<noteq> loc then playMoveAssumeLegal Z l pla b else Some b) locs b)))"

definition setStone :: "zobrist \<Rightarrow> loc \<Rightarrow> color \<Rightarrow> board \<Rightarrow> (board \<times> bool) option" where
  "setStone Z loc color b =
     (if loc < 0 \<or> loc \<ge> MAX_ARR_SIZE \<or> colors b loc = C_WALL then Some (b, False)
      else if color \<noteq> C_BLACK \<and> color \<noteq> C_WHITE \<and> color \<noteq> C_EMPTY then Some (b, False)
      else
        Option.bind
          (if colors b loc = color then Some b
           else if colors b loc = C_EMPTY then
             (if \<not> isIllegalSuicide b loc color True then playMoveAssumeLegal Z loc color b else Some b)
           else if color = C_EMPTY then removeSingleStone Z loc b
           else Option.bind (removeSingleStone Z loc b)
                  (\<lambda>b. if \<not> isSuicide b loc color then playMoveAssumeLegal Z loc color b else Some b))
          (\<lambda>b. Some (b\<lparr>ko_loc := NULL_LOC\<rparr>, True)))"

definition setStoneFailIfNoLibs :: "zobrist \<Rightarrow> loc \<Rightarrow> color \<Rightarrow> board \<Rightarrow> (board \<times> bool) option" where
  "setStoneFailIfNoLibs Z loc color b =
     (if loc < 0 \<or> loc \<ge> MAX_ARR_SIZE \<or> colors b loc = C_WALL then Some (b, False)
      else if color \<noteq> C_BLACK \<and> color \<noteq> C_WHITE \<and> color \<noteq> C_EMPTY then Some (b, False)
      else
        let oldKoLoc = ko_loc b;
            done = (\<lambda>b. Some (b\<lparr>ko_loc := NULL_LOC\<rparr>, True))
        in if colors b loc = color then done b
           else if colors b loc = C_EMPTY then
             (if isSuicide b loc color \<or> wouldBeCapture b loc color then Some (b, False)
              else Option.bind (playMoveAssumeLegal Z loc color b) done)
           else if color = C_EMPTY then Option.bind (removeSingleStone Z loc b) done
           else if colors b loc \<noteq> getOpp color then None
           else Option.bind (removeSingleStone Z loc b)
                  (\<lambda>b. if isSuicide b loc color \<or> wouldBeCapture b loc color
                       then Option.bind (playMoveAssumeLegal Z loc (getOpp color) b)
                              (\<lambda>b. Some (b\<lparr>ko_loc := oldKoLoc\<rparr>, False))
                       else Option.bind (playMoveAssumeLegal Z loc color b) done))"

section \<open>Whole positions\<close>

text \<open>The loops of \<open>setStonesFailIfNoLibs\<close>; \<open>False\<close> is its early return.\<close>

fun set_all :: "zobrist \<Rightarrow> (loc \<times> color) list \<Rightarrow> board \<Rightarrow> (board \<times> bool) option" where
  "set_all Z [] b = Some (b, True)"
| "set_all Z ((loc, c) # ps) b =
     Option.bind (setStoneFailIfNoLibs Z loc c b)
       (\<lambda>(b, suc). if suc then set_all Z ps b else Some (b, False))"

definition setStonesFailIfNoLibs :: "zobrist \<Rightarrow> Move list \<Rightarrow> board \<Rightarrow> (board \<times> bool) option" where
  "setStonesFailIfNoLibs Z placements b =
     (if \<not> distinct (map mv_loc placements) then Some (b, False)
      else Option.bind (set_all Z (map (\<lambda>m. (mv_loc m, C_EMPTY)) placements) b)
             (\<lambda>(b, suc). if suc then set_all Z (map (\<lambda>m. (mv_loc m, mv_pla m)) placements) b
                         else Some (b, False)))"

definition regenChainsFromColors :: "zobrist \<Rightarrow> board \<Rightarrow> board option" where
  "regenChainsFromColors Z b =
     (let b = b\<lparr>pos_hash := hxor (ZOBRIST_SIZE_X_HASH Z (x_size b)) (ZOBRIST_SIZE_Y_HASH Z (y_size b))\<rparr>;
          b = fold (\<lambda>loc b.
                let c = colors b loc
                in if c = C_BLACK \<or> c = C_WHITE then set_head loc NULL_LOC (xor_hash Z loc c b) else b)
                (board_locs b) b
      in foldM (\<lambda>loc b.
           let c = colors b loc
           in if (c = C_BLACK \<or> c = C_WHITE) \<and> chain_head b loc = NULL_LOC
              then rebuildChain loc c b else Some b) (board_locs b) b)"

definition setStonesTolerant :: "zobrist \<Rightarrow> Move list \<Rightarrow> board \<Rightarrow> (board \<times> int) option" where
  "setStonesTolerant Z placements b =
     (let b = fold (\<lambda>placement b.
                let loc = mv_loc placement; color = mv_pla placement
                in if loc < 0 \<or> loc \<ge> MAX_ARR_SIZE \<or> colors b loc = C_WALL then b
                   else if color \<noteq> C_EMPTY \<and> color \<noteq> C_BLACK \<and> color \<noteq> C_WHITE then b
                   else set_color loc color b) placements b
      in Option.bind (regenChainsFromColors Z b) (\<lambda>b.
           let (b, numRemoved) =
                 fold (\<lambda>loc (b, numRemoved).
                   let c = colors b loc
                   in if (c = C_BLACK \<or> c = C_WHITE) \<and> num_liberties (chain_data b (chain_head b loc)) = 0
                      then (set_color loc C_EMPTY b, numRemoved + 1) else (b, numRemoved))
                   (board_locs b) (b, 0)
           in Option.bind (if numRemoved > 0 then regenChainsFromColors Z b else Some b)
                (\<lambda>b. Some (b\<lparr>ko_loc := NULL_LOC\<rparr>, numRemoved))))"

section \<open>The repetition bound\<close>

text \<open>
  \<open>countEmptyHelper\<close>: a breadth-first flood over empty points. The marks \<open>emptyCounted\<close> are
  the set of marked points, the part of \<open>toExpand\<close> still to be expanded is the queue. \<open>Inl\<close>
  is \<open>return true\<close> with the count reached, \<open>Inr\<close> the marks and the count after
  \<open>return false\<close>.
\<close>

definition count_adj ::
  "board \<Rightarrow> int \<Rightarrow> loc \<Rightarrow> loc set \<times> int \<times> loc list \<Rightarrow> int + loc set \<times> int \<times> loc list" where
  "count_adj b bound adj = (\<lambda>(marks, count, queue).
     if colors b adj = C_EMPTY \<and> adj \<notin> marks then
       (let count = count + 1; marks = insert adj marks
        in if count > bound then Inl count else Inr (marks, count, queue @ [adj]))
     else Inr (marks, count, queue))"

partial_function (option) count_loop ::
  "board \<Rightarrow> int \<Rightarrow> loc set \<Rightarrow> int \<Rightarrow> loc list \<Rightarrow> (int + loc set \<times> int) option" where
  "count_loop b bound marks count queue =
     (case queue of
        [] \<Rightarrow> Some (Inr (marks, count))
      | loc # rest \<Rightarrow>
          (case foldR (count_adj b bound) (adjs (x_size b) loc) (marks, count, rest) of
             Inl c \<Rightarrow> Some (Inl c)
           | Inr st \<Rightarrow> count_loop b bound (fst st) (fst (snd st)) (snd (snd st))))"

declare count_loop.simps [code]

definition countEmptyHelper ::
  "board \<Rightarrow> loc \<Rightarrow> int \<Rightarrow> loc set \<times> int \<Rightarrow> (int + loc set \<times> int) option" where
  "countEmptyHelper b initialLoc bound = (\<lambda>(emptyCounted, count).
     if initialLoc \<in> emptyCounted then Some (Inr (emptyCounted, count))
     else
       let count = count + 1; emptyCounted = insert initialLoc emptyCounted
       in if count > bound then Some (Inl count)
          else count_loop b bound emptyCounted count [initialLoc])"

text \<open>
  The walk of \<open>simpleRepetitionBoundGt\<close> over a chain: each stone's four neighbours are given to
  \<open>countEmptyHelper\<close>. The helper may run forever, so the walk is a loop of its own.
\<close>

partial_function (option) repetition_walk ::
  "board \<Rightarrow> loc \<Rightarrow> int \<Rightarrow> loc \<Rightarrow> loc set \<times> int \<Rightarrow> bool option" where
  "repetition_walk b loc bound cur st =
     Option.bind
       (foldRM (\<lambda>lib st. if colors b lib = C_EMPTY then countEmptyHelper b lib bound st
                        else Some (Inr st)) (adj4 b cur) st)
       (\<lambda>r. case r of
              Inl _ \<Rightarrow> Some True
            | Inr st \<Rightarrow>
                (if next_in_chain b cur \<noteq> loc then repetition_walk b loc bound (next_in_chain b cur) st
                 else Some False))"

declare repetition_walk.simps [code]

definition simpleRepetitionBoundGt :: "board \<Rightarrow> loc \<Rightarrow> int \<Rightarrow> bool option" where
  "simpleRepetitionBoundGt b loc bound =
     (if loc = NULL_LOC \<or> loc = PASS_LOC then Some False
      else if colors b loc \<noteq> C_EMPTY \<and>
          num_locs (chain_data b (chain_head b loc)) + num_liberties (chain_data b (chain_head b loc)) > bound
      then Some True
      else if colors b loc = C_EMPTY
      then Option.bind (countEmptyHelper b loc bound ({}, 0))
             (\<lambda>r. Some (case r of Inl _ \<Rightarrow> True | Inr _ \<Rightarrow> False))
      else repetition_walk b loc bound loc ({}, num_locs (chain_data b (chain_head b loc))))"

end
