(* ===== verification/BoardSetup.thy ===== *)
theory BoardSetup
  imports BoardQueries BoardEdit
begin

text \<open>
  Making and editing boards: a fresh board is well formed, and the editing operations of
  \<open>game/board.cpp\<close> keep it so while they change exactly the points they are told to.
\<close>

section \<open>Guarded moves\<close>

lemma heads_cong: "colors b' = colors b \<Longrightarrow> chain_head b' = chain_head b \<Longrightarrow> heads b' = heads b"
  by (simp add: heads_def)

text \<open>Fields outside the invariant, and the ko point, may be changed freely.\<close>

lemma wf_board_cong:
  assumes "x_size b' = x_size b" "y_size b' = y_size b" "colors b' = colors b"
    "chain_data b' = chain_data b" "chain_head b' = chain_head b"
    "next_in_chain b' = next_in_chain b" "pos_hash b' = pos_hash b" "adj_offsets b' = adj_offsets b"
    "ko_ok b'" "wf_board Z b"
  shows "wf_board Z b'"
  using assms core_cong [OF assms(1-8), of Z "\<lambda>_. 0" "{}"] heads_cong [OF assms(3,5)]
  by (simp add: wf_board_def)

lemma ko_ok_null [simp]: "ko_ok (b\<lparr>ko_loc := NULL_LOC\<rparr>)"
  by (simp add: ko_ok_def)

lemma wf_clear_ko: "wf_board Z b \<Longrightarrow> wf_board Z (b\<lparr>ko_loc := NULL_LOC\<rparr>)"
  by (rule wf_board_cong [of _ b]) simp_all

lemma on_board_iff: "wf_board Z b \<Longrightarrow> colors b l \<noteq> C_WALL \<longleftrightarrow> on_board (x_size b) (y_size b) l"
  by (simp add: wf_board_def core_def geom_ok_def)

lemma stone_cases: "is_stone p \<longleftrightarrow> p = P_BLACK \<or> p = P_WHITE"
  by (cases p) (simp_all add: is_stone_def)

lemma move_atI:
  "wf_board Z b \<Longrightarrow> colors b loc = C_EMPTY \<Longrightarrow> is_stone p \<Longrightarrow> move_at Z b loc p"
  using on_board_iff [of Z b loc] by (simp add: move_at_def wf_board_live)

lemma on_board_in_array:
  "wf_board Z b \<Longrightarrow> on_board (x_size b) (y_size b) l \<Longrightarrow> 0 \<le> l \<and> l < MAX_ARR_SIZE \<and> l \<noteq> PASS_LOC \<and> l \<noteq> NULL_LOC"
  using on_board_range [of "x_size b" "y_size b" l]
  by (auto simp: wf_board_def core_def geom_ok_def PASS_LOC_def NULL_LOC_def)

lemma isLegal_eq:
  assumes wf: "wf_board Z b"
  shows "isLegal b loc p multi \<longleftrightarrow> is_stone p \<and>
    (loc = PASS_LOC \<or> colors b loc = C_EMPTY \<and> loc \<noteq> ko_loc b \<and>
       \<not> (tt_suicided (x_size b) loc p (colors b) \<noteq> {} \<and>
          (multi \<longrightarrow> tt_suicided (x_size b) loc p (colors b) = {loc})))"
proof (cases "is_stone p \<and> colors b loc = C_EMPTY")
  case True
  then have m: "move_at Z b loc p" using move_atI [OF wf] by blast
  then have "0 \<le> loc \<and> loc < MAX_ARR_SIZE" using on_board_in_array [OF wf] by (simp add: move_at_def)
  then show ?thesis
    using True unfolding isLegal_def isIllegalSuicide_eq [OF m] isKoBanned_def stone_cases
    by (cases "loc = PASS_LOC") auto
next
  case False
  then show ?thesis unfolding isLegal_def stone_cases by (cases "loc = PASS_LOC") auto
qed

lemma playMove_wf:
  assumes wf: "wf_board Z b"
  shows "\<exists>b'. playMove Z loc p multi b = Some (b', isLegal b loc p multi) \<and> wf_board Z b' \<and>
    x_size b' = x_size b \<and> y_size b' = y_size b \<and>
    (\<not> isLegal b loc p multi \<longrightarrow> b' = b) \<and>
    (isLegal b loc p multi \<longrightarrow> colors b' =
       (if loc = PASS_LOC then colors b else tt_play (x_size b) loc p (colors b)))"
proof (cases "isLegal b loc p multi")
  case False
  then show ?thesis using wf by (simp add: playMove_def)
next
  case True
  show ?thesis
  proof (cases "loc = PASS_LOC")
    case pass: True
    then show ?thesis using wf_clear_ko [OF wf] True by (simp add: playMove_def playMoveAssumeLegal_def)
  next
    case False
    then have "colors b loc = C_EMPTY" "is_stone p" using iffD1 [OF isLegal_eq [OF wf] True] by blast+
    then have "move_at Z b loc p" by (rule move_atI [OF wf])
    from played [OF this] obtain b' where "playMoveAssumeLegal Z loc p b = Some b'" "wf_board Z b'"
      "x_size b' = x_size b" "y_size b' = y_size b" "colors b' = tt_play (x_size b) loc p (colors b)"
      by blast
    then show ?thesis using False True by (intro exI [of _ b']) (simp add: playMove_def)
  qed
qed

section \<open>The empty board\<close>

lemma fold_set_empty:
  "fold (\<lambda>loc b. b\<lparr>colors := (colors b)(loc := C_EMPTY)\<rparr>) ls b =
    b\<lparr>colors := \<lambda>l. if l \<in> set ls then C_EMPTY else colors b l\<rparr>"
  by (induction ls arbitrary: b) (auto simp: fun_eq_iff)

lemma hxor_list_zero: "(\<And>x. x \<in> set xs \<Longrightarrow> x = hash128_zero) \<Longrightarrow> hxor_list xs = hash128_zero"
  by (induction xs) (auto simp: hxor_list_def)

lemma Board_init_facts:
  assumes "Board_init Z b0 xS yS = Inr b"
  shows "x_size b = xS" "y_size b = yS" "0 \<le> xS" "xS \<le> MAX_LEN" "0 \<le> yS" "yS \<le> MAX_LEN"
    "colors b = (\<lambda>l. if on_board xS yS l then C_EMPTY else C_WALL)" "ko_loc b = NULL_LOC"
    "pos_hash b = hxor (ZOBRIST_SIZE_X_HASH Z xS) (ZOBRIST_SIZE_Y_HASH Z yS)"
    "adj_offsets b = getAdjacentOffsets xS" "numBlackCaptures b = 0" "numWhiteCaptures b = 0"
proof -
  have locs: "set [(x + 1) + (y + 1) * (xS + 1). y \<leftarrow> [0..yS - 1], x \<leftarrow> [0..xS - 1]] = {l. on_board xS yS l}"
    using set_locs_of [of xS yS] by (simp add: locs_of_def)
  show "x_size b = xS" "y_size b = yS" "0 \<le> xS" "xS \<le> MAX_LEN" "0 \<le> yS" "yS \<le> MAX_LEN"
    "ko_loc b = NULL_LOC" "pos_hash b = hxor (ZOBRIST_SIZE_X_HASH Z xS) (ZOBRIST_SIZE_Y_HASH Z yS)"
    "adj_offsets b = getAdjacentOffsets xS" "numBlackCaptures b = 0" "numWhiteCaptures b = 0"
    using assms unfolding Board_init_def Let_def fold_set_empty by (auto split: if_splits)
  show "colors b = (\<lambda>l. if on_board xS yS l then C_EMPTY else C_WALL)"
    using assms locs unfolding Board_init_def Let_def fold_set_empty
    by (auto simp: fun_eq_iff split: if_splits)
qed

lemma Board_init_wf:
  assumes "Board_init Z b0 xS yS = Inr b"
  shows "wf_board Z b"
proof -
  note f = Board_init_facts [OF assms]
  have ns: "\<not> is_stone (colors b l)" for l unfolding f(7) by simp
  have "geom_ok b" unfolding geom_ok_def f(1,2,7,10) using f(3-6) by simp
  moreover have "hash_ok Z b"
    unfolding hash_ok_def position_hash_def f(1,2,9)
    using ns by (subst hxor_list_zero) (auto simp: stone_hash_def)
  moreover have "heads b = {}" using ns by (simp add: heads_def)
  ultimately show ?thesis
    using ns f(8) by (simp add: wf_board_def core_def chains_ok_def max_ok_def ko_ok_def)
qed

lemma Board_init_ok:
  "(\<exists>b. Board_init Z b0 xS yS = Inr b) \<longleftrightarrow> 0 \<le> xS \<and> xS \<le> MAX_LEN \<and> 0 \<le> yS \<and> yS \<le> MAX_LEN"
  unfolding Board_init_def by (auto simp: Let_def not_less split: if_splits)

end
