(* ===== verification/Demo.thy ===== *)
theory Demo
  imports BoardSetup
begin

text \<open>
  Concrete tables and boards at which the theorems with hypotheses are instantiated: hash
  tables whose entries tell the points and colours apart, and the fresh board of a given size.
\<close>

definition demo_zobrist :: zobrist where
  "demo_zobrist =
     \<lparr>ZOBRIST_SIZE_X_HASH = (\<lambda>_. hash128_zero), ZOBRIST_SIZE_Y_HASH = (\<lambda>_. hash128_zero),
      ZOBRIST_BOARD_HASH = (\<lambda>l c. Hash128 (word_of_int l) (if c = C_BLACK then 1 else 2)),
      ZOBRIST_BOARD_HASH2 = (\<lambda>l c. hash128_zero),
      ZOBRIST_PLAYER_HASH = (\<lambda>c. Hash128 0 (if c = C_BLACK then 1024 else 2048)),
      ZOBRIST_KO_LOC_HASH = (\<lambda>l. Hash128 (word_of_int l) 4),
      ZOBRIST_KO_MARK_HASH = (\<lambda>l c. Hash128 (word_of_int l) (if c = C_BLACK then 8 else 16)),
      ZOBRIST_ENCORE_HASH = (\<lambda>i. Hash128 (word_of_int i) 32),
      ZOBRIST_SECOND_ENCORE_START_HASH = (\<lambda>l c. Hash128 (word_of_int l) 64)\<rparr>"

definition blank_board :: board where
  "blank_board =
     \<lparr>x_size = 0, y_size = 0, colors = (\<lambda>_. C_WALL),
      chain_data = (\<lambda>_. \<lparr>owner = C_EMPTY, num_locs = 0, num_liberties = 0\<rparr>),
      chain_head = (\<lambda>_. 0), next_in_chain = (\<lambda>_. 0), ko_loc = NULL_LOC, pos_hash = hash128_zero,
      numBlackCaptures = 0, numWhiteCaptures = 0, adj_offsets = []\<rparr>"

definition fresh :: "int \<Rightarrow> board" where
  "fresh n = (case Board_init demo_zobrist blank_board n n of Inr b \<Rightarrow> b | Inl _ \<Rightarrow> blank_board)"

lemma fresh_init: "0 \<le> n \<Longrightarrow> n \<le> MAX_LEN \<Longrightarrow> Board_init demo_zobrist blank_board n n = Inr (fresh n)"
  using Board_init_ok [of demo_zobrist blank_board n n] by (auto simp: fresh_def)

lemma fresh_facts:
  assumes "0 \<le> n" "n \<le> 19"
  shows "wf_board demo_zobrist (fresh n)" "x_size (fresh n) = n" "y_size (fresh n) = n"
    "colors (fresh n) = (\<lambda>l. if on_board n n l then C_EMPTY else C_WALL)" "ko_loc (fresh n) = NULL_LOC"
  using Board_init_wf Board_init_facts fresh_init [OF assms(1)] assms(2) by (auto simp: MAX_LEN_def)

text \<open>The play sequences that the instances use: moves are played one after the other.\<close>

definition play_all :: "(loc \<times> player) list \<Rightarrow> board \<Rightarrow> board option" where
  "play_all ms b = foldM (\<lambda>(l, p) b. map_option fst (playMove demo_zobrist l p True b)) ms b"

lemma play_all_wf:
  assumes "wf_board demo_zobrist b"
  shows "\<exists>b'. play_all ms b = Some b' \<and> wf_board demo_zobrist b' \<and> x_size b' = x_size b \<and> y_size b' = y_size b"
  using assms
proof (induction ms arbitrary: b)
  case Nil
  then show ?case by (simp add: play_all_def)
next
  case (Cons m ms)
  obtain l p where m: "m = (l, p)" by fastforce
  from playMove_wf [OF Cons.prems, of l p True] obtain b1
    where "playMove demo_zobrist l p True b = Some (b1, isLegal b l p True)" "wf_board demo_zobrist b1"
      "x_size b1 = x_size b" "y_size b1 = y_size b" by blast
  then show ?case using Cons.IH [of b1] m by (auto simp: play_all_def)
qed

text \<open>A board of the given size after a sequence of moves.\<close>

definition demo :: "int \<Rightarrow> (loc \<times> player) list \<Rightarrow> board" where
  "demo n ms = (case play_all ms (fresh n) of Some b \<Rightarrow> b | None \<Rightarrow> fresh n)"

lemma demo_wf:
  assumes "0 \<le> n" "n \<le> 19"
  shows "wf_board demo_zobrist (demo n ms)" "x_size (demo n ms) = n" "y_size (demo n ms) = n"
  using play_all_wf [OF fresh_facts(1) [OF assms], of ms] fresh_facts(2,3) [OF assms] by (auto simp: demo_def)

lemma on_board_code [code]: "on_board xs ys l \<longleftrightarrow> l \<in> set (locs_of xs ys)"
  by (simp add: set_locs_of)

end
