(* ===== verification/BoardProps.thy ===== *)
theory BoardProps
  imports Demo
begin

text \<open>
  The properties of the board and of playing moves, each stated over the model's own
  definitions and proved from the lemmas of the board theories, with instances on small
  boards.
\<close>

section \<open>Playing\<close>

text \<open>
  C1: \<open>Board::playMoveAssumeLegal\<close> refines the rules of Go. On a well-formed board, at an
  empty point and for either player, the incremental bookkeeping (merging chains, eating
  liberties, removing captured chains) always returns, keeps the whole invariant (chains,
  liberty counts, position hash, ko point), leaves exactly the colours that placing the
  stone and clearing first the opponent and then the mover leaves, and adds the number of
  stones so cleared to the two capture counters.
\<close>

theorem playMove_refines_rules:
  assumes "wf_board Z b" and "colors b loc = C_EMPTY" and "is_stone pla"
  shows "\<exists>b'. playMoveAssumeLegal Z loc pla b = Some b' \<and> wf_board Z b' \<and>
    x_size b' = x_size b \<and> y_size b' = y_size b \<and>
    colors b' = tt_play (x_size b) loc pla (colors b) \<and>
    numWhiteCaptures b' = numWhiteCaptures b +
      int (card (if pla = P_BLACK then tt_captured (x_size b) loc pla (colors b)
                 else tt_suicided (x_size b) loc pla (colors b))) \<and>
    numBlackCaptures b' = numBlackCaptures b +
      int (card (if pla = P_BLACK then tt_suicided (x_size b) loc pla (colors b)
                 else tt_captured (x_size b) loc pla (colors b)))"
  using move_atI [OF assms] playMove_total [of Z b loc pla] by (simp add: move_at_def)

text \<open>On a 3x3 board, Black captures the white corner stone at 5.\<close>

definition corner :: board where
  "corner = demo 3 [(5, C_WHITE), (6, C_BLACK)]"

lemma corner_wf: "wf_board demo_zobrist corner"
  by (simp add: corner_def demo_wf)

theorem playMove_refines_rules_witness:
  "(\<exists>b'. playMoveAssumeLegal demo_zobrist 9 C_BLACK corner = Some b' \<and> wf_board demo_zobrist b' \<and>
     colors b' = tt_play (x_size corner) 9 C_BLACK (colors corner)) \<and>
   map_option (\<lambda>b. (colors b 5, colors b 9, numWhiteCaptures b))
     (playMoveAssumeLegal demo_zobrist 9 C_BLACK corner) = Some (C_EMPTY, C_BLACK, 1)"
proof
  have "colors corner 9 = C_EMPTY" by code_simp
  from playMove_refines_rules [OF corner_wf this, of C_BLACK]
  show "\<exists>b'. playMoveAssumeLegal demo_zobrist 9 C_BLACK corner = Some b' \<and> wf_board demo_zobrist b' \<and>
     colors b' = tt_play (x_size corner) 9 C_BLACK (colors corner)" by auto
  show "map_option (\<lambda>b. (colors b 5, colors b 9, numWhiteCaptures b))
     (playMoveAssumeLegal demo_zobrist 9 C_BLACK corner) = Some (C_EMPTY, C_BLACK, 1)" by code_simp
qed

text \<open>
  C2: \<open>Board::getPosHashAfterMove\<close>, which superko detection calls for every point, computes
  without playing the very hash the board would have after the move, captures and multi-stone
  suicide included.
\<close>

theorem posHash_predicts_move:
  assumes "wf_board Z b" and "colors b loc = C_EMPTY" and "is_stone pla"
  shows "\<exists>b'. playMoveAssumeLegal Z loc pla b = Some b' \<and>
    getPosHashAfterMove Z b loc pla = Some (pos_hash b') \<and>
    pos_hash b' = position_hash Z (x_size b) (y_size b) (colors b')"
proof -
  note m = move_atI [OF assms]
  show ?thesis by (rule played [OF m]) (use getPosHashAfterMove_eq [OF m] in auto)
qed

theorem posHash_predicts_move_witness:
  "\<exists>b'. playMoveAssumeLegal demo_zobrist 9 C_BLACK corner = Some b' \<and>
    getPosHashAfterMove demo_zobrist corner 9 C_BLACK = Some (pos_hash b') \<and>
    pos_hash b' = position_hash demo_zobrist (x_size corner) (y_size corner) (colors b')"
proof -
  have "colors corner 9 = C_EMPTY" by code_simp
  from posHash_predicts_move [OF corner_wf this, of C_BLACK] show ?thesis by simp
qed

text \<open>
  C3: The simple ko ban is exact. After a move that is not a one-stone suicide (which no rule
  set allows), the point \<open>ko_loc\<close> is precisely the empty point at which the opponent's reply
  would put every stone back where it was before the move.
\<close>

theorem ko_ban_exact:
  assumes "wf_board Z b" and "colors b loc = C_EMPTY" and "is_stone pla"
    and "\<not> isIllegalSuicide b loc pla True"
    and "playMoveAssumeLegal Z loc pla b = Some b'" and "colors b' k = C_EMPTY"
  shows "ko_loc b' = k \<longleftrightarrow> tt_play (x_size b) k (getOpp pla) (colors b') = colors b"
proof -
  note m = move_atI [OF assms(1-3)]
  from assms(5) played [OF m] have wf: "wf_board Z b'" by auto
  have m': "move_at Z b' k (getOpp pla)" using move_atI [OF wf assms(6)] assms(3) by simp
  then have k: "k \<noteq> NULL_LOC" using on_board_in_array [OF wf] by (simp add: move_at_def)
  have "tt_suicided (x_size b) loc pla (colors b) \<noteq> {loc}"
    using assms(4) isIllegalSuicide_eq [OF m, of True] by auto
  then show ?thesis using repeats_ko [OF m assms(5) _ m' k] ko_repeats [OF m assms(5) _ m' k] by blast
qed

definition ko_shape :: board where
  "ko_shape = demo 3 [(10, C_BLACK), (9, C_WHITE), (7, C_BLACK), (6, C_WHITE)]"

theorem ko_ban_exact_witness:
  "\<exists>b'. playMoveAssumeLegal demo_zobrist 5 C_BLACK ko_shape = Some b' \<and> ko_loc b' = 6 \<and>
     tt_play (x_size ko_shape) 6 (getOpp C_BLACK) (colors b') = colors ko_shape"
proof -
  have e: "colors ko_shape 5 = C_EMPTY" "\<not> isIllegalSuicide ko_shape 5 C_BLACK True" by code_simp+
  have "map_option (\<lambda>b. (ko_loc b, colors b 6)) (playMoveAssumeLegal demo_zobrist 5 C_BLACK ko_shape)
      = Some (6, C_EMPTY)" by code_simp
  then obtain b' where b': "playMoveAssumeLegal demo_zobrist 5 C_BLACK ko_shape = Some b'"
    "ko_loc b' = 6" "colors b' 6 = C_EMPTY" by auto
  have wf: "wf_board demo_zobrist ko_shape" by (simp add: ko_shape_def demo_wf)
  from ko_ban_exact [OF wf e(1) _ e(2) b'(1) b'(3)] b' show ?thesis by auto
qed

text \<open>
  C4: \<open>Board::isLegal\<close> decides legality as the rules state it, from liberty counts alone: a
  pass, or an empty point that is not the ko point and where the move does not take its own
  stones, unless multi-stone suicide is allowed and it takes more than the stone played. The
  point may be any integer: outside the board the answer is that the move is illegal.
\<close>

theorem isLegal_decides_rules:
  assumes "wf_board Z b"
  shows "isLegal b loc pla multi \<longleftrightarrow> (pla = P_BLACK \<or> pla = P_WHITE) \<and>
    (loc = PASS_LOC \<or>
     on_board (x_size b) (y_size b) loc \<and> colors b loc = C_EMPTY \<and> loc \<noteq> ko_loc b \<and>
     (tt_suicided (x_size b) loc pla (colors b) = {} \<or>
      multi \<and> tt_suicided (x_size b) loc pla (colors b) \<noteq> {loc}))"
  using isLegal_eq [OF assms, of loc pla multi] on_board_iff [OF assms, of loc]
  unfolding stone_cases by (cases "loc = PASS_LOC") auto

theorem isLegal_decides_rules_witness:
  "isLegal corner 5 C_BLACK True \<longleftrightarrow> (C_BLACK = P_BLACK \<or> C_BLACK = P_WHITE) \<and>
    (5 = PASS_LOC \<or>
     on_board (x_size corner) (y_size corner) 5 \<and> colors corner 5 = C_EMPTY \<and> 5 \<noteq> ko_loc corner \<and>
     (tt_suicided (x_size corner) 5 C_BLACK (colors corner) = {} \<or>
      True \<and> tt_suicided (x_size corner) 5 C_BLACK (colors corner) \<noteq> {5}))"
  by (rule isLegal_decides_rules [OF corner_wf])

text \<open>
  C5: \<open>Board::playMove\<close> is total and safe: for every integer point and every colour value it
  returns, with a well-formed board of the same size and its legality verdict; an illegal
  move changes nothing, a pass changes no stone, and a legal move is the move of the rules.
\<close>

theorem playMove_guarded:
  assumes "wf_board Z b"
  shows "\<exists>b'. playMove Z loc pla multi b = Some (b', isLegal b loc pla multi) \<and> wf_board Z b' \<and>
    (\<not> isLegal b loc pla multi \<longrightarrow> b' = b) \<and>
    (isLegal b loc pla multi \<longrightarrow> colors b' =
       (if loc = PASS_LOC then colors b else tt_play (x_size b) loc pla (colors b)))"
  using playMove_wf [OF assms, of loc pla multi] by blast

theorem playMove_guarded_witness:
  "\<exists>b'. playMove demo_zobrist 1000 C_WALL True corner = Some (b', isLegal corner 1000 C_WALL True) \<and>
    wf_board demo_zobrist b' \<and> (\<not> isLegal corner 1000 C_WALL True \<longrightarrow> b' = corner)"
  using playMove_guarded [OF corner_wf, of 1000 C_WALL True] by blast

text \<open>
  C6: \<open>Board::isSuicide\<close>, \<open>Board::isIllegalSuicide\<close> and \<open>Board::wouldBeCapture\<close> answer, from
  the liberty counts of the neighbours, what the rules on colours say: the move would clear
  some of the mover's own stones, only the stone played when multi-stone suicide is allowed,
  or some of the opponent's.
\<close>

theorem suicide_and_capture_tests:
  assumes "wf_board Z b" and "colors b loc = C_EMPTY" and "is_stone pla"
  shows "(isSuicide b loc pla \<longleftrightarrow> tt_suicided (x_size b) loc pla (colors b) \<noteq> {}) \<and>
    (isIllegalSuicide b loc pla multi \<longleftrightarrow> tt_suicided (x_size b) loc pla (colors b) \<noteq> {} \<and>
       (multi \<longrightarrow> tt_suicided (x_size b) loc pla (colors b) = {loc})) \<and>
    (wouldBeCapture b loc pla \<longleftrightarrow> tt_captured (x_size b) loc pla (colors b) \<noteq> {})"
proof -
  note m = move_atI [OF assms]
  show ?thesis
    by (intro conjI isSuicide_eq [OF m] isIllegalSuicide_eq [OF m] wouldBeCapture_eq [OF m])
qed

theorem suicide_and_capture_tests_witness:
  "wouldBeCapture corner 9 C_BLACK \<and> tt_captured (x_size corner) 9 C_BLACK (colors corner) \<noteq> {} \<and>
   \<not> isSuicide corner 9 C_BLACK \<and> tt_suicided (x_size corner) 9 C_BLACK (colors corner) = {}"
proof -
  have e: "colors corner 9 = C_EMPTY" and w: "wouldBeCapture corner 9 C_BLACK" "\<not> isSuicide corner 9 C_BLACK"
    by code_simp+
  from suicide_and_capture_tests [OF corner_wf e, of C_BLACK] w show ?thesis by simp
qed

end
