(* ===== verification/BoardArea.thy ===== *)
theory BoardArea
  imports Chains
begin

text \<open>
  Area computation of \<open>game/board.cpp\<close>: pass-alive groups and territory by Benson's algorithm
  (\<open>calculateAreaForPla\<close>), the area of both players, and the regions that live independently
  of seki. The arrays of the code are functions; the queue of a flood fill is the list of the
  points not popped yet. \<open>None\<close> means a loop that does not end or a failed \<open>assert\<close>.
\<close>

section \<open>Benson's algorithm\<close>

definition maxRegions :: int where
  "maxRegions = (MAX_LEN * MAX_LEN + 1) div 2 + 1"

definition vitalForPlaHeadsListsMaxLen :: int where
  "vitalForPlaHeadsListsMaxLen = maxRegions * 4"

text \<open>The local variables of \<open>calculateAreaForPla\<close> that describe the regions.\<close>

record regions =
  regionIdxByLoc :: "loc \<Rightarrow> int"
  nextEmptyOrOpp :: "loc \<Rightarrow> loc"
  vitalForPlaHeadsLists :: "int \<Rightarrow> loc"
  vitalForPlaHeadsListsTotal :: int
  numRegions :: int
  regionHeads :: "int \<Rightarrow> loc"
  vitalStart :: "int \<Rightarrow> int"
  vitalLen :: "int \<Rightarrow> int"
  numInternalSpacesMax2 :: "int \<Rightarrow> int"
  containsOpp :: "int \<Rightarrow> bool"
  atLeastOnePla :: bool

definition regions_start :: regions where
  "regions_start =
     \<lparr>regionIdxByLoc = (\<lambda>_. - 1), nextEmptyOrOpp = (\<lambda>_. NULL_LOC),
      vitalForPlaHeadsLists = (\<lambda>_. 0), vitalForPlaHeadsListsTotal = 0, numRegions = 0,
      regionHeads = (\<lambda>_. 0), vitalStart = (\<lambda>_. 0), vitalLen = (\<lambda>_. 0),
      numInternalSpacesMax2 = (\<lambda>_. 0), containsOpp = (\<lambda>_. False), atLeastOnePla = False\<rparr>"

text \<open>Keep only the vital heads that \<open>loc\<close> is adjacent to, compacting the list in place.\<close>

definition filter_vital :: "board \<Rightarrow> player \<Rightarrow> loc \<Rightarrow> int \<Rightarrow> regions \<Rightarrow> regions" where
  "filter_vital b pla loc regionIdx r =
     (let vStart = vitalStart r regionIdx;
          oldVLen = vitalLen r regionIdx;
          (lists, newVLen) =
            fold (\<lambda>i (lists, newVLen).
                if isAdjacentToPlaHead b pla loc (lists (vStart + i))
                then (lists(vStart + newVLen := lists (vStart + i)), newVLen + 1)
                else (lists, newVLen))
              [0..oldVLen - 1] (vitalForPlaHeadsLists r, 0)
      in r\<lparr>vitalForPlaHeadsLists := lists, vitalLen := (vitalLen r)(regionIdx := newVLen)\<rparr>)"

text \<open>What the flood does with one popped point, before pushing its neighbours.\<close>

definition region_visit ::
  "board \<Rightarrow> player \<Rightarrow> bool \<Rightarrow> int \<Rightarrow> loc \<Rightarrow> loc \<Rightarrow> bool \<Rightarrow> regions \<Rightarrow> regions \<times> bool" where
  "region_visit b pla isMultiStoneSuicideLegal regionIdx loc tailTarget isVlenNonZero r =
     (let opp = getOpp pla;
          (r, isVlenNonZero) =
            (if isVlenNonZero \<and> (isMultiStoneSuicideLegal \<or> colors b loc = C_EMPTY)
             then (let r = filter_vital b pla loc regionIdx r in (r, vitalLen r regionIdx > 0))
             else (r, isVlenNonZero));
          r = (if numInternalSpacesMax2 r regionIdx < 2 \<and> \<not> isAdjacentToPla b loc pla
               then r\<lparr>numInternalSpacesMax2 := (numInternalSpacesMax2 r)
                       (regionIdx := numInternalSpacesMax2 r regionIdx + 1)\<rparr> else r);
          r = (if colors b loc = opp then r\<lparr>containsOpp := (containsOpp r)(regionIdx := True)\<rparr> else r);
          r = r\<lparr>nextEmptyOrOpp := (nextEmptyOrOpp r)(loc := tailTarget)\<rparr>
      in (r, isVlenNonZero))"

definition region_push ::
  "board \<Rightarrow> player \<Rightarrow> int \<Rightarrow> loc \<Rightarrow> regions \<times> loc list \<times> int \<Rightarrow> regions \<times> loc list \<times> int" where
  "region_push b opp regionIdx adj = (\<lambda>(r, queue, queueTail).
     if (colors b adj = C_EMPTY \<or> colors b adj = opp) \<and> regionIdxByLoc r adj = - 1
     then (r\<lparr>regionIdxByLoc := (regionIdxByLoc r)(adj := regionIdx)\<rparr>, queue @ [adj], queueTail + 1)
     else (r, queue, queueTail))"

partial_function (option) buildRegion_loop ::
  "board \<Rightarrow> player \<Rightarrow> bool \<Rightarrow> int \<Rightarrow> loc list \<Rightarrow> int \<Rightarrow> loc \<Rightarrow> bool \<Rightarrow> regions \<Rightarrow>
   (regions \<times> loc \<times> int) option" where
  "buildRegion_loop b pla multi regionIdx queue queueTail tailTarget isVlenNonZero r =
     (case queue of
        [] \<Rightarrow> Some (r, tailTarget, queueTail)
      | loc # rest \<Rightarrow>
          (let (r, nz) = region_visit b pla multi regionIdx loc tailTarget isVlenNonZero r;
               (r, rest, queueTail) =
                 fold (region_push b (getOpp pla) regionIdx) (adjs (x_size b) loc) (r, rest, queueTail)
           in buildRegion_loop b pla multi regionIdx rest queueTail loc nz r))"

declare buildRegion_loop.simps [code]

definition buildRegion ::
  "board \<Rightarrow> player \<Rightarrow> bool \<Rightarrow> loc \<Rightarrow> int \<Rightarrow> regions \<Rightarrow> (regions \<times> loc) option" where
  "buildRegion b pla multi initialLoc regionIdx r =
     (let isVlenNonZero = vitalLen r regionIdx > 0;
          r = r\<lparr>regionIdxByLoc := (regionIdxByLoc r)(initialLoc := regionIdx)\<rparr>
      in Option.bind (buildRegion_loop b pla multi regionIdx [initialLoc] 1 initialLoc isVlenNonZero r)
           (\<lambda>(r, tailTarget, queueTail).
              if queueTail < MAX_ARR_SIZE then Some (r, tailTarget) else None))"

text \<open>The adjacent heads of \<open>pla\<close>, without duplicates, are the first candidates of a region.\<close>

definition init_vital :: "board \<Rightarrow> player \<Rightarrow> loc \<Rightarrow> int \<Rightarrow> regions \<Rightarrow> regions" where
  "init_vital b pla loc regionIdx r =
     (let vStart = vitalStart r regionIdx;
          (lists, initialVLen) =
            fold (\<lambda>adj (lists, initialVLen).
                if colors b adj = pla then
                  (let plaHead = chain_head b adj
                   in if list_ex (\<lambda>j. lists (vStart + j) = plaHead) [0..initialVLen - 1]
                      then (lists, initialVLen)
                      else (lists(vStart + initialVLen := plaHead), initialVLen + 1))
                else (lists, initialVLen))
              (adj4 b loc) (vitalForPlaHeadsLists r, 0)
      in r\<lparr>vitalForPlaHeadsLists := lists, vitalLen := (vitalLen r)(regionIdx := initialVLen)\<rparr>)"

text \<open>One point of the scan that finds the regions.\<close>

definition region_scan ::
  "board \<Rightarrow> player \<Rightarrow> bool \<Rightarrow> loc \<Rightarrow> regions \<Rightarrow> regions option" where
  "region_scan b pla multi loc r =
     (if regionIdxByLoc r loc \<noteq> - 1 then Some r
      else if colors b loc \<noteq> C_EMPTY
      then Some (r\<lparr>atLeastOnePla := (atLeastOnePla r \<or> colors b loc = pla)\<rparr>)
      else
        let regionIdx = numRegions r;
            r = r\<lparr>numRegions := numRegions r + 1\<rparr>
        in if \<not> numRegions r \<le> maxRegions then None
           else
             let r = r\<lparr>regionHeads := (regionHeads r)(regionIdx := loc),
                       vitalStart := (vitalStart r)(regionIdx := vitalForPlaHeadsListsTotal r),
                       vitalLen := (vitalLen r)(regionIdx := 0),
                       numInternalSpacesMax2 := (numInternalSpacesMax2 r)(regionIdx := 0),
                       containsOpp := (containsOpp r)(regionIdx := False)\<rparr>
             in if \<not> vitalStart r regionIdx + 4 \<le> vitalForPlaHeadsListsMaxLen then None
                else Option.bind (buildRegion b pla multi loc regionIdx (init_vital b pla loc regionIdx r))
                       (\<lambda>(r, tailTarget).
                          Some (r\<lparr>nextEmptyOrOpp := (nextEmptyOrOpp r)(loc := tailTarget),
                                  vitalForPlaHeadsListsTotal :=
                                    vitalForPlaHeadsListsTotal r + vitalLen r regionIdx\<rparr>)))"

text \<open>
  The state of Benson's iteration: the marks \<open>bordersNonPassAlivePlaByHead\<close>, the counts
  \<open>vitalCountByPlaHead\<close> (\<open>uint16_t\<close>), the chains killed (by head, each head having one index),
  and \<open>killedAnything\<close>.
\<close>

record benson =
  bordersNonPassAlivePla :: "loc \<Rightarrow> bool"
  vitalCountByPlaHead :: "loc \<Rightarrow> 16 word"
  plaHasBeenKilled :: "loc \<Rightarrow> bool"
  killedAnything :: bool

text \<open>The heads of the regions a list of vitals names, from its start and length.\<close>

definition vitals_of :: "regions \<Rightarrow> int \<Rightarrow> loc list" where
  "vitals_of r i = map (\<lambda>j. vitalForPlaHeadsLists r (vitalStart r i + j)) [0..vitalLen r i - 1]"

definition count_vitals :: "regions \<Rightarrow> (loc \<Rightarrow> 16 word) \<Rightarrow> loc \<Rightarrow> 16 word" where
  "count_vitals r =
     fold (\<lambda>i cnt. fold (\<lambda>plaHead cnt. cnt(plaHead := cnt plaHead + 1)) (vitals_of r i) cnt)
       [0..numRegions r - 1]"

text \<open>A killed chain's neighbouring regions stop being vital for anyone.\<close>

definition kill_adj :: "board \<Rightarrow> player \<Rightarrow> regions \<Rightarrow> loc \<Rightarrow> benson \<Rightarrow> benson" where
  "kill_adj b opp r adj s =
     (let regionIdx = regionIdxByLoc r adj
      in if regionIdx \<ge> 0 \<and> \<not> bordersNonPassAlivePla s (regionHeads r regionIdx)
            \<and> (colors b adj = C_EMPTY \<or> colors b adj = opp)
         then s\<lparr>bordersNonPassAlivePla := (bordersNonPassAlivePla s)(regionHeads r regionIdx := True),
                vitalCountByPlaHead :=
                  fold (\<lambda>plaH cnt. cnt(plaH := cnt plaH - 1)) (vitals_of r regionIdx) (vitalCountByPlaHead s)\<rparr>
         else s)"

definition kill_head :: "board \<Rightarrow> player \<Rightarrow> regions \<Rightarrow> loc \<Rightarrow> benson \<Rightarrow> benson option" where
  "kill_head b opp r plaHead s =
     (if plaHasBeenKilled s plaHead then Some s
      else if vitalCountByPlaHead s plaHead < 2 then
        (let s = s\<lparr>plaHasBeenKilled := (plaHasBeenKilled s)(plaHead := True), killedAnything := True\<rparr>
         in walk_all (\<lambda>_. next_in_chain b) (\<lambda>cur s. fold (kill_adj b opp r) (adj4 b cur) s) plaHead s)
      else Some s)"

partial_function (option) benson_loop ::
  "board \<Rightarrow> player \<Rightarrow> regions \<Rightarrow> loc list \<Rightarrow> benson \<Rightarrow> benson option" where
  "benson_loop b opp r allPlaHeads s =
     Option.bind (foldM (kill_head b opp r) allPlaHeads (s\<lparr>killedAnything := False\<rparr>))
       (\<lambda>s. if \<not> killedAnything s then Some s else benson_loop b opp r allPlaHeads s)"

declare benson_loop.simps [code]

text \<open>Marking the result: pass-alive groups, then territory.\<close>

definition mark_group :: "board \<Rightarrow> player \<Rightarrow> benson \<Rightarrow> loc \<Rightarrow> (loc \<Rightarrow> color) \<Rightarrow> (loc \<Rightarrow> color) option" where
  "mark_group b pla s plaHead result =
     (if \<not> plaHasBeenKilled s plaHead
      then walk_all (\<lambda>_. next_in_chain b) (\<lambda>cur result. result(cur := pla)) plaHead result
      else Some result)"

definition mark_region ::
  "player \<Rightarrow> bool \<Rightarrow> bool \<Rightarrow> regions \<Rightarrow> benson \<Rightarrow> int \<Rightarrow> (loc \<Rightarrow> color) \<Rightarrow> (loc \<Rightarrow> color) option" where
  "mark_region pla safeBigTerritories unsafeBigTerritories r s i result =
     (let head = regionHeads r i;
          shouldMark = (numInternalSpacesMax2 r i \<le> 1 \<and> \<not> bordersNonPassAlivePla s head \<and> atLeastOnePla r);
          shouldMark = (shouldMark \<or> (safeBigTerritories \<and> \<not> containsOpp r i
                          \<and> \<not> bordersNonPassAlivePla s head \<and> atLeastOnePla r))
      in if shouldMark
         then walk_all (\<lambda>_. nextEmptyOrOpp r) (\<lambda>cur result. result(cur := pla)) head result
         else
           let shouldMarkIfEmpty = (unsafeBigTerritories \<and> \<not> containsOpp r i \<and> atLeastOnePla r)
           in if shouldMarkIfEmpty
              then walk_all (\<lambda>_. nextEmptyOrOpp r)
                     (\<lambda>cur result. if result cur = C_EMPTY then result(cur := pla) else result) head result
              else Some result)"

definition calculateAreaForPla ::
  "board \<Rightarrow> player \<Rightarrow> bool \<Rightarrow> bool \<Rightarrow> bool \<Rightarrow> (loc \<Rightarrow> color) \<Rightarrow> (loc \<Rightarrow> color) option" where
  "calculateAreaForPla b pla safeBigTerritories unsafeBigTerritories isMultiStoneSuicideLegal result =
     (let opp = getOpp pla
      in Option.bind (foldM (region_scan b pla isMultiStoneSuicideLegal) (board_locs b) regions_start)
         (\<lambda>r.
           let allPlaHeads = filter (\<lambda>loc. colors b loc = pla \<and> chain_head b loc = loc) [0..MAX_ARR_SIZE - 1];
               s = \<lparr>bordersNonPassAlivePla = (\<lambda>_. False), vitalCountByPlaHead = count_vitals r (\<lambda>_. 0),
                    plaHasBeenKilled = (\<lambda>_. False), killedAnything = False\<rparr>
           in Option.bind (benson_loop b opp r allPlaHeads s) (\<lambda>s.
              Option.bind (foldM (mark_group b pla s) allPlaHeads result)
                (foldM (mark_region pla safeBigTerritories unsafeBigTerritories r s) [0..numRegions r - 1]))))"

section \<open>The area of both players\<close>

text \<open>\<open>if(result[loc] == C_EMPTY) result[loc] = colors[loc]\<close> over the board\<close>

definition fill_colors :: "board \<Rightarrow> (loc \<Rightarrow> color) \<Rightarrow> loc \<Rightarrow> color" where
  "fill_colors b = fold (\<lambda>loc result. if result loc = C_EMPTY then result(loc := colors b loc) else result)
     (board_locs b)"

definition calculateArea :: "board \<Rightarrow> bool \<Rightarrow> bool \<Rightarrow> bool \<Rightarrow> bool \<Rightarrow> (loc \<Rightarrow> color) option" where
  "calculateArea b nonPassAliveStones safeBigTerritories unsafeBigTerritories isMultiStoneSuicideLegal =
     Option.bind (calculateAreaForPla b P_BLACK safeBigTerritories unsafeBigTerritories
                    isMultiStoneSuicideLegal (\<lambda>_. C_EMPTY)) (\<lambda>result.
     Option.bind (calculateAreaForPla b P_WHITE safeBigTerritories unsafeBigTerritories
                    isMultiStoneSuicideLegal result) (\<lambda>result.
       Some (if nonPassAliveStones then fill_colors b result else result)))"

section \<open>Independent life\<close>

text \<open>
  The flood of \<open>calculateIndependentLifeAreaHelper\<close> through the area of one player: \<open>marked\<close>
  tells which points it has taken.
\<close>

partial_function (option) life_flood ::
  "board \<Rightarrow> (loc \<Rightarrow> color) \<Rightarrow> player \<Rightarrow> ('m \<Rightarrow> loc \<Rightarrow> bool) \<Rightarrow> (loc \<Rightarrow> 'm \<Rightarrow> 'm) \<Rightarrow> loc list \<Rightarrow> 'm \<Rightarrow> 'm option" where
  "life_flood b basicArea pla marked mark queue m =
     (case queue of
        [] \<Rightarrow> Some m
      | nextLoc # rest \<Rightarrow>
          (let (m, rest) =
                 fold (\<lambda>adj (m, rest).
                     if basicArea adj = pla \<and> \<not> marked m adj then (mark adj m, rest @ [adj]) else (m, rest))
                   (adjs (x_size b) nextLoc) (m, rest)
           in life_flood b basicArea pla marked mark rest m))"

declare life_flood.simps [code]

definition seki_seed :: "board \<Rightarrow> (loc \<Rightarrow> color) \<Rightarrow> loc \<Rightarrow> bool" where
  "seki_seed b basicArea loc \<longleftrightarrow>
     (colors b loc = basicArea loc \<and> getNumLiberties b loc = 1) \<or>
     list_ex (\<lambda>adj. colors b adj = C_EMPTY \<and> basicArea adj = C_EMPTY) (adjs (x_size b) loc)"

definition mark_seki :: "board \<Rightarrow> (loc \<Rightarrow> color) \<Rightarrow> loc \<Rightarrow> (loc \<Rightarrow> bool) \<Rightarrow> (loc \<Rightarrow> bool) option" where
  "mark_seki b basicArea loc isSeki =
     (if basicArea loc \<noteq> C_EMPTY \<and> \<not> isSeki loc \<and> seki_seed b basicArea loc
      then life_flood b basicArea (basicArea loc) (\<lambda>s. s) (\<lambda>l s. s(l := True)) [loc] (isSeki(loc := True))
      else Some isSeki)"

definition copy_life ::
  "board \<Rightarrow> (loc \<Rightarrow> color) \<Rightarrow> (loc \<Rightarrow> bool) \<Rightarrow> loc \<Rightarrow> (loc \<Rightarrow> color) \<times> int \<Rightarrow> ((loc \<Rightarrow> color) \<times> int) option" where
  "copy_life b basicArea isSeki loc = (\<lambda>(result, count).
     if basicArea loc \<noteq> C_EMPTY \<and> \<not> isSeki loc \<and> result loc \<noteq> basicArea loc then
       (let pla = basicArea loc
        in Option.bind (life_flood b basicArea pla (\<lambda>res l. res l = basicArea l)
                          (\<lambda>l res. res(l := basicArea l)) [loc] (result(loc := basicArea loc)))
             (\<lambda>result. Some (result, count + (if pla = P_WHITE then 1 else - 1))))
     else Some (result, count))"

definition calculateIndependentLifeAreaHelper ::
  "board \<Rightarrow> (loc \<Rightarrow> color) \<Rightarrow> (loc \<Rightarrow> color) \<Rightarrow> ((loc \<Rightarrow> color) \<times> int) option" where
  "calculateIndependentLifeAreaHelper b basicArea result =
     Option.bind (foldM (mark_seki b basicArea) (board_locs b) (\<lambda>_. False)) (\<lambda>isSeki.
     foldM (copy_life b basicArea isSeki) (board_locs b) (result, 0))"

definition calculateIndependentLifeArea ::
  "board \<Rightarrow> bool \<Rightarrow> bool \<Rightarrow> bool \<Rightarrow> bool \<Rightarrow> ((loc \<Rightarrow> color) \<times> int) option" where
  "calculateIndependentLifeArea b keepTerritories keepStones excludeTerritoryAdjacentToAtari
       isMultiStoneSuicideLegal =
     Option.bind (calculateAreaForPla b P_BLACK True True isMultiStoneSuicideLegal (\<lambda>_. C_EMPTY)) (\<lambda>basicArea.
     Option.bind (calculateAreaForPla b P_WHITE True True isMultiStoneSuicideLegal basicArea) (\<lambda>basicArea.
     let basicArea = fill_colors b basicArea
     in Option.bind (calculateIndependentLifeAreaHelper b basicArea (\<lambda>_. C_EMPTY)) (\<lambda>(result, count).
       let result =
             (if keepTerritories then
                fold (\<lambda>loc result.
                    if basicArea loc \<noteq> C_EMPTY \<and> basicArea loc \<noteq> colors b loc then
                      (let adjChainInAtari =
                             (excludeTerritoryAdjacentToAtari \<and> colors b loc = C_EMPTY \<and>
                              list_ex (\<lambda>adj. colors b adj = basicArea loc \<and> getNumLiberties b adj = 1)
                                (adjs (x_size b) loc))
                       in if \<not> adjChainInAtari then result(loc := basicArea loc) else result)
                    else result) (board_locs b) result
              else result);
           result =
             (if keepStones then
                fold (\<lambda>loc result.
                    if basicArea loc \<noteq> C_EMPTY \<and> basicArea loc = colors b loc
                    then result(loc := basicArea loc) else result) (board_locs b) result
              else result)
       in Some (result, count))))"

end
