(* ===== verification/Ladder.thy ===== *)
theory Ladder
  imports Chains
begin

text \<open>
  Liberty lists and the ladder search of \<open>game/board.cpp\<close>. The vector \<open>buf\<close> is a list;
  writing past its end resizes it as the code does. The search keeps its own stack of move
  lists and move records; one turn of its \<open>while(true)\<close> is \<open>ladder_turn\<close>. \<open>None\<close> means a walk
  that does not end or a failed \<open>assert\<close>.
\<close>

section \<open>Liberty lists\<close>

text \<open>\<open>if(i >= buf.size()) buf.resize(buf.size() * 3/2 + 64); buf[i] = v\<close>\<close>

definition buf_put :: "int \<Rightarrow> loc \<Rightarrow> loc list \<Rightarrow> loc list" where
  "buf_put i v buf =
     (let buf = (if i \<ge> int (length buf)
                 then buf @ replicate (length buf * 3 div 2 + 64 - length buf) 0 else buf)
      in buf[nat i := v])"

definition buf_get :: "loc list \<Rightarrow> int \<Rightarrow> loc" where
  "buf_get buf i = buf ! nat i"

definition findLiberties_adj :: "board \<Rightarrow> int \<Rightarrow> int \<Rightarrow> loc \<Rightarrow> loc list \<times> int \<Rightarrow> loc list \<times> int" where
  "findLiberties_adj b bufStart bufIdx lib = (\<lambda>(buf, numFound).
     if colors b lib = C_EMPTY then
       (let foundDup = list_ex (\<lambda>j. buf_get buf j = lib) [bufStart..bufIdx + numFound - 1]
        in if \<not> foundDup then (buf_put (bufIdx + numFound) lib buf, numFound + 1) else (buf, numFound))
     else (buf, numFound))"

text \<open>\<open>findLiberties\<close>: the new buffer and the number found.\<close>

definition findLiberties :: "board \<Rightarrow> loc \<Rightarrow> loc list \<Rightarrow> int \<Rightarrow> int \<Rightarrow> (loc list \<times> int) option" where
  "findLiberties b loc buf bufStart bufIdx =
     walk_all (\<lambda>_. next_in_chain b)
       (\<lambda>cur s. fold (findLiberties_adj b bufStart bufIdx) (adj4 b cur) s) loc (buf, 0)"

text \<open>
  \<open>findLibertyGainingCaptures\<close>: its walk calls \<open>findLiberties\<close>, so it is a loop of its own; the
  state is the buffer, the number found and \<open>chainHeadsChecked\<close>.
\<close>

definition gaining_adj ::
  "board \<Rightarrow> player \<Rightarrow> int \<Rightarrow> int \<Rightarrow> loc \<Rightarrow> loc list \<times> int \<times> loc list \<Rightarrow> (loc list \<times> int \<times> loc list) option" where
  "gaining_adj b opp bufStart bufIdx adj = (\<lambda>(buf, numFound, chainHeadsChecked).
     if colors b adj = opp then
       (let head = chain_head b adj
        in if num_liberties (chain_data b head) = 1 then
             (if head \<notin> set chainHeadsChecked
              then Option.bind (findLiberties b adj buf bufStart (bufIdx + numFound))
                     (\<lambda>(buf, n). Some (buf, numFound + n, chainHeadsChecked @ [head]))
              else Some (buf, numFound, chainHeadsChecked))
           else Some (buf, numFound, chainHeadsChecked))
     else Some (buf, numFound, chainHeadsChecked))"

partial_function (option) gaining_walk ::
  "board \<Rightarrow> player \<Rightarrow> int \<Rightarrow> int \<Rightarrow> loc \<Rightarrow> loc \<Rightarrow> loc list \<times> int \<times> loc list \<Rightarrow> (loc list \<times> int \<times> loc list) option" where
  "gaining_walk b opp bufStart bufIdx loc cur s =
     Option.bind (foldM (gaining_adj b opp bufStart bufIdx) (adj4 b cur) s)
       (\<lambda>s. if next_in_chain b cur \<noteq> loc
            then gaining_walk b opp bufStart bufIdx loc (next_in_chain b cur) s else Some s)"

declare gaining_walk.simps [code]

definition findLibertyGainingCaptures ::
  "board \<Rightarrow> loc \<Rightarrow> loc list \<Rightarrow> int \<Rightarrow> int \<Rightarrow> (loc list \<times> int) option" where
  "findLibertyGainingCaptures b loc buf bufStart bufIdx =
     Option.bind (gaining_walk b (getOpp (colors b loc)) bufStart bufIdx loc loc (buf, 0, []))
       (\<lambda>(buf, numFound, _). Some (buf, numFound))"

definition hasLibertyGainingCaptures :: "board \<Rightarrow> loc \<Rightarrow> bool option" where
  "hasLibertyGainingCaptures b loc =
     (let opp = getOpp (colors b loc)
      in Option.bind
           (walk_chain (\<lambda>_. next_in_chain b)
              (\<lambda>cur (s :: unit).
                 if list_ex (\<lambda>adj. colors b adj = opp \<and> num_liberties (chain_data b (chain_head b adj)) = 1)
                      (adjs (x_size b) cur)
                 then Inl True else Inr s) loc loc ())
           (\<lambda>r. Some (case r of Inl v \<Rightarrow> v | Inr _ \<Rightarrow> False)))"

section \<open>The ladder search\<close>

text \<open>The local variables of \<open>searchIsLadderCaptured\<close> and the board it works on.\<close>

record ladder =
  ld_board :: board
  ld_buf :: "loc list"
  moveListStarts :: "int \<Rightarrow> int"
  moveListLens :: "int \<Rightarrow> int"
  moveListCur :: "int \<Rightarrow> int"
  ld_records :: "int \<Rightarrow> MoveRecord"
  stackIdx :: int
  searchNodeCount :: int
  returnValue :: bool
  returnedFromDeeper :: bool

definition MAX_LADDER_SEARCH_NODE_BUDGET :: int where
  "MAX_LADDER_SEARCH_NODE_BUDGET = 25000"

text \<open>\<open>returnValue = v; returnedFromDeeper = true; stackIdx--; continue;\<close>\<close>

definition ladder_pop :: "bool \<Rightarrow> ladder \<Rightarrow> ladder" where
  "ladder_pop v s = s\<lparr>returnValue := v, returnedFromDeeper := True, stackIdx := stackIdx s - 1\<rparr>"

text \<open>
  The move lists generated on entering a level: \<open>Inl\<close> is an immediate result of the level,
  \<open>Inr\<close> the buffer and the length of the list.
\<close>

definition defender_moves ::
  "board \<Rightarrow> loc \<Rightarrow> player \<Rightarrow> int \<Rightarrow> loc list \<Rightarrow> (bool \<times> loc list + loc list \<times> int) option" where
  "defender_moves b loc pla start buf =
     Option.bind (findLibertyGainingCaptures b loc buf start start) (\<lambda>(buf, n0).
     Option.bind (findLiberties b loc buf start (start + n0)) (\<lambda>(buf, n1).
       let moveListLen = n0 + n1;
           (lowerBoundLibs, upperBoundLibs) =
             getBoundNumLibertiesAfterPlay b (buf_get buf (start + moveListLen - 1)) pla
       in Some (if lowerBoundLibs \<ge> 3 then Inl (False, buf)
                else if moveListLen = 1 \<and> upperBoundLibs \<le> 1 then Inl (True, buf)
                else Inr (buf, moveListLen))))"

text \<open>The double ko death test of the attacker.\<close>

definition double_ko_death :: "board \<Rightarrow> loc \<Rightarrow> player \<Rightarrow> loc \<Rightarrow> loc \<Rightarrow> int \<Rightarrow> int \<Rightarrow> bool option" where
  "double_ko_death b loc pla m0 m1 libs0 libs1 =
     (let opp = getOpp pla
      in if libs0 = 0 \<and> libs1 = 0 \<and> wouldBeKoCapture b m0 opp \<and> wouldBeKoCapture b m1 opp then
           Option.bind (getNumLibertiesAfterPlay b m0 pla 3) (\<lambda>n0.
             if n0 \<le> 2 then
               Option.bind (getNumLibertiesAfterPlay b m1 pla 3) (\<lambda>n1.
                 if n1 \<le> 2
                 then Option.bind (hasLibertyGainingCaptures b loc) (\<lambda>g. Some (\<not> g))
                 else Some False)
             else Some False)
         else Some False)"

definition attacker_moves ::
  "board \<Rightarrow> loc \<Rightarrow> player \<Rightarrow> int \<Rightarrow> loc list \<Rightarrow> (bool \<times> loc list + loc list \<times> int) option" where
  "attacker_moves b loc pla start buf =
     Option.bind (findLiberties b loc buf start start) (\<lambda>(buf, moveListLen).
       if moveListLen \<noteq> 2 then None
       else
         let m0 = buf_get buf start; m1 = buf_get buf (start + 1);
             libs0 = getNumImmediateLiberties b m0;
             libs1 = getNumImmediateLiberties b m1
         in Option.bind (double_ko_death b loc pla m0 m1 libs0 libs1) (\<lambda>dk.
              if dk then Some (Inl (True, buf))
              else if \<not> isAdjacent m0 m1 (x_size b) \<and> libs0 \<ge> 3 \<and> libs1 \<ge> 3
              then Some (Inl (False, buf))
              else
                let (buf, moveListLen) =
                      (if \<not> isAdjacent m0 m1 (x_size b) then
                         (if libs0 \<ge> 3 then (buf, 1)
                          else if libs1 \<ge> 3 then (buf_put start m1 buf, 1)
                          else (buf, moveListLen))
                       else (buf, moveListLen));
                    buf =
                      (if moveListLen > 1 then
                         (let h0 = libs0 * 2 + countHeuristicConnectionLibertiesX2 b (buf_get buf start) pla;
                              h1 = libs1 * 2 + countHeuristicConnectionLibertiesX2 b (buf_get buf (start + 1)) pla
                          in if h1 > h0
                             then (let tmp = buf_get buf start
                                   in buf_put (start + 1) tmp (buf_put start (buf_get buf (start + 1)) buf))
                             else buf)
                       else buf)
                in Some (Inr (buf, moveListLen))))"

text \<open>Entering a level (\<open>moveListCur[stackIdx] == -1\<close>): \<open>Inl\<close> is a \<open>continue\<close>.\<close>

definition ladder_enter :: "loc \<Rightarrow> player \<Rightarrow> bool \<Rightarrow> ladder \<Rightarrow> (ladder + ladder) option" where
  "ladder_enter loc pla isDefender s =
     (let b = ld_board s;
          libs = num_liberties (chain_data b (chain_head b loc))
      in if \<not> isDefender \<and> libs \<le> 1 then Some (Inl (ladder_pop True s))
         else if \<not> isDefender \<and> libs \<ge> 3 then Some (Inl (ladder_pop False s))
         else if isDefender \<and> libs \<ge> 2 then Some (Inl (ladder_pop False s))
         else if isDefender \<and> ko_loc b \<noteq> NULL_LOC then Some (Inl (ladder_pop False s))
         else
           let start = moveListStarts s (stackIdx s)
           in Option.bind (if isDefender then defender_moves b loc pla start (ld_buf s)
                           else attacker_moves b loc pla start (ld_buf s))
                (\<lambda>r. case r of
                       Inl (v, buf) \<Rightarrow> Some (Inl (ladder_pop v (s\<lparr>ld_buf := buf\<rparr>)))
                     | Inr (buf, len) \<Rightarrow>
                         Some (Inr (s\<lparr>ld_buf := buf,
                                      moveListLens := (moveListLens s)(stackIdx s := len),
                                      moveListCur := (moveListCur s)(stackIdx s := 0)\<rparr>))))"

text \<open>Coming back to a level: \<open>Inl\<close> is a \<open>continue\<close>.\<close>

definition ladder_return :: "zobrist \<Rightarrow> bool \<Rightarrow> ladder \<Rightarrow> (ladder + ladder) option" where
  "ladder_return Z isDefender s =
     (if \<not> (moveListCur s (stackIdx s) \<ge> 0 \<and> moveListCur s (stackIdx s) < moveListLens s (stackIdx s))
      then None
      else
        Option.bind (if returnedFromDeeper s
                     then Option.bind (undo Z (ld_records s (stackIdx s)) (ld_board s))
                            (\<lambda>b. Some (s\<lparr>ld_board := b\<rparr>))
                     else Some s)
          (\<lambda>s. if isDefender \<and> \<not> returnValue s
               then Some (Inl (s\<lparr>returnedFromDeeper := True, stackIdx := stackIdx s - 1\<rparr>))
               else if \<not> isDefender \<and> returnValue s
               then Some (Inl (s\<lparr>returnedFromDeeper := True, stackIdx := stackIdx s - 1\<rparr>))
               else Some (Inr (s\<lparr>moveListCur := (moveListCur s)
                                   (stackIdx s := moveListCur s (stackIdx s) + 1)\<rparr>))))"

text \<open>Trying the current move of the level.\<close>

definition ladder_move :: "zobrist \<Rightarrow> player \<Rightarrow> bool \<Rightarrow> ladder \<Rightarrow> ladder option" where
  "ladder_move Z pla isDefender s =
     (let i = stackIdx s
      in if moveListCur s i \<ge> moveListLens s i then Some (ladder_pop isDefender s)
         else
           let move = buf_get (ld_buf s) (moveListStarts s i + moveListCur s i);
               p = (if isDefender then pla else getOpp pla)
           in if \<not> isLegal (ld_board s) move p False
              then Some (s\<lparr>returnValue := isDefender, returnedFromDeeper := False\<rparr>)
              else
                Option.bind (playMoveRecorded Z move p (ld_board s)) (\<lambda>(b, r).
                  Some (s\<lparr>ld_board := b, ld_records := (ld_records s)(i := r),
                          searchNodeCount := searchNodeCount s + 1,
                          stackIdx := i + 1,
                          moveListCur := (moveListCur s)(i + 1 := - 1),
                          moveListStarts := (moveListStarts s)(i + 1 := moveListStarts s i + moveListLens s i),
                          moveListLens := (moveListLens s)(i + 1 := 0)\<rparr>)))"

text \<open>\<open>while(stackIdx >= 0) \<lbrace>undo(records[stackIdx]); stackIdx -= 1;\<rbrace>\<close>, from the level below\<close>

definition ladder_unwind :: "zobrist \<Rightarrow> ladder \<Rightarrow> board option" where
  "ladder_unwind Z s = foldM (\<lambda>i b. undo Z (ld_records s i) b) (rev [0..stackIdx s - 1]) (ld_board s)"

text \<open>
  One turn of the loop: \<open>Inl\<close> is the value returned, with the board and the buffer left;
  \<open>savedKo\<close> is \<open>ko_loc_saved\<close> and \<open>stackSize\<close> the bound of the stack.
\<close>

definition ladder_turn ::
  "zobrist \<Rightarrow> loc \<Rightarrow> player \<Rightarrow> bool \<Rightarrow> loc \<Rightarrow> int \<Rightarrow> ladder \<Rightarrow> (bool \<times> board \<times> loc list + ladder) option" where
  "ladder_turn Z loc pla defenderFirst savedKo stackSize s =
     (if stackIdx s \<le> - 1 then
        (if stackIdx s \<noteq> - 1 then None
         else Some (Inl (returnValue s, (ld_board s)\<lparr>ko_loc := savedKo\<rparr>, ld_buf s)))
      else if stackIdx s \<ge> stackSize - 1 then Some (Inr (ladder_pop True s))
      else if searchNodeCount s \<ge> MAX_LADDER_SEARCH_NODE_BUDGET then
        Option.bind (ladder_unwind Z s) (\<lambda>b. Some (Inl (False, b, ld_buf s)))
      else
        let isDefender = ((defenderFirst \<and> stackIdx s mod 2 = 0) \<or> (\<not> defenderFirst \<and> stackIdx s mod 2 = 1))
        in Option.bind (if moveListCur s (stackIdx s) = - 1 then ladder_enter loc pla isDefender s
                        else ladder_return Z isDefender s)
             (\<lambda>r. case r of
                    Inl s \<Rightarrow> Some (Inr s)
                  | Inr s \<Rightarrow> Option.bind (ladder_move Z pla isDefender s) (\<lambda>s. Some (Inr s))))"

partial_function (option) ladder_loop ::
  "zobrist \<Rightarrow> loc \<Rightarrow> player \<Rightarrow> bool \<Rightarrow> loc \<Rightarrow> int \<Rightarrow> ladder \<Rightarrow> (bool \<times> board \<times> loc list) option" where
  "ladder_loop Z loc pla defenderFirst savedKo stackSize s =
     Option.bind (ladder_turn Z loc pla defenderFirst savedKo stackSize s)
       (\<lambda>r. case r of Inl v \<Rightarrow> Some v | Inr s \<Rightarrow> ladder_loop Z loc pla defenderFirst savedKo stackSize s)"

declare ladder_loop.simps [code]

text \<open>The result is the answer, the board left and the buffer left.\<close>

definition searchIsLadderCaptured ::
  "zobrist \<Rightarrow> loc \<Rightarrow> bool \<Rightarrow> board \<times> loc list \<Rightarrow> (bool \<times> board \<times> loc list) option" where
  "searchIsLadderCaptured Z loc defenderFirst = (\<lambda>(b, buf).
     if loc < 0 \<or> loc \<ge> MAX_ARR_SIZE then Some (False, b, buf)
     else if colors b loc \<noteq> C_BLACK \<and> colors b loc \<noteq> C_WHITE then Some (False, b, buf)
     else if num_liberties (chain_data b (chain_head b loc)) > 2 \<or>
             (defenderFirst \<and> num_liberties (chain_data b (chain_head b loc)) > 1)
     then Some (False, b, buf)
     else
       let pla = colors b loc;
           ko_loc_saved = ko_loc b;
           b = (if defenderFirst then b\<lparr>ko_loc := NULL_LOC\<rparr> else b);
           stackSize = x_size b * y_size b * 3 div 2 + 1;
           s = \<lparr>ld_board = b, ld_buf = buf, moveListStarts = (\<lambda>_. 0), moveListLens = (\<lambda>_. 0),
                moveListCur = (\<lambda>_. - 1),
                ld_records = (\<lambda>_. \<lparr>mr_pla = C_EMPTY, mr_loc = 0, mr_ko_loc = 0, mr_capDirs = 0\<rparr>),
                stackIdx = 0, searchNodeCount = 0, returnValue = False, returnedFromDeeper = False\<rparr>
       in ladder_loop Z loc pla defenderFirst ko_loc_saved stackSize s)"

text \<open>One of the two tries of the attacker: play, search, undo.\<close>

definition try_ladder_move ::
  "zobrist \<Rightarrow> loc \<Rightarrow> player \<Rightarrow> loc \<Rightarrow> board \<times> loc list \<Rightarrow> (bool \<times> board \<times> loc list) option" where
  "try_ladder_move Z loc opp move = (\<lambda>(b, buf).
     if isLegal b move opp False then
       Option.bind (playMoveRecorded Z move opp b) (\<lambda>(b, record).
       Option.bind (searchIsLadderCaptured Z loc True (b, buf)) (\<lambda>(works, b, buf).
       Option.bind (undo Z record b) (\<lambda>b. Some (works, b, buf))))
     else Some (False, b, buf))"

text \<open>\<open>workingMoves\<close> is changed only when the answer is \<open>true\<close>.\<close>

definition searchIsLadderCapturedAttackerFirst2Libs ::
  "zobrist \<Rightarrow> loc \<Rightarrow> board \<times> loc list \<times> loc list \<Rightarrow> (bool \<times> board \<times> loc list \<times> loc list) option" where
  "searchIsLadderCapturedAttackerFirst2Libs Z loc = (\<lambda>(b, buf, workingMoves).
     if loc < 0 \<or> loc \<ge> MAX_ARR_SIZE then Some (False, b, buf, workingMoves)
     else if colors b loc \<noteq> C_BLACK \<and> colors b loc \<noteq> C_WHITE then Some (False, b, buf, workingMoves)
     else if num_liberties (chain_data b (chain_head b loc)) \<noteq> 2 then Some (False, b, buf, workingMoves)
     else
       let opp = getOpp (colors b loc)
       in Option.bind (findLiberties b loc buf 0 0) (\<lambda>(buf, numLibs).
            if numLibs \<noteq> 2 then None
            else
              let move0 = buf_get buf 0; move1 = buf_get buf 1
              in Option.bind (try_ladder_move Z loc opp move0 (b, buf)) (\<lambda>(move0Works, b, buf).
                 Option.bind (try_ladder_move Z loc opp move1 (b, buf)) (\<lambda>(move1Works, b, buf).
                   Some (if move0Works \<or> move1Works
                         then (True, b, buf, (if move0Works then [move0] else []) @ (if move1Works then [move1] else []))
                         else (False, b, buf, workingMoves))))))"

end
