(* ===== verification/GlobalStrings.thy ===== *)
theory GlobalStrings
  imports HashModel Prelude "HOL-Library.Char_ord"
begin

unbundle bit_operations_syntax

text \<open>
  The string functions of \<open>core/global.cpp\<close> and the text form of \<open>Hash128\<close>. A \<open>std::string\<close>
  is a list of characters. The streams of the standard library are modelled where the code
  uses them: \<open>getline\<close> with a delimiter, and \<open>in >> val\<close> for integers followed by the test for
  the end of the stream. A \<open>bool tryX(..., T& x)\<close> is an option; a function that throws yields
  a sum.
\<close>

section \<open>Characters\<close>

definition whitespace_chars :: string where
  "whitespace_chars = [CHR '' '', CHR 0x09, CHR 0x0D, CHR 0x0A, CHR 0x0B, CHR 0x0C]"

text \<open>\<open>contains(const char* str, char c)\<close>: \<open>strchr\<close> also finds the terminating zero.\<close>

definition contains_chr :: "string \<Rightarrow> char \<Rightarrow> bool" where
  "contains_chr str c \<longleftrightarrow> c = CHR 0x00 \<or> c \<in> set (takeWhile (\<lambda>d. d \<noteq> CHR 0x00) str)"

definition isWhitespace_char :: "char \<Rightarrow> bool" where
  "isWhitespace_char c \<longleftrightarrow> contains_chr whitespace_chars c"

definition isWhitespace :: "string \<Rightarrow> bool" where
  "isWhitespace s \<longleftrightarrow> list_all (\<lambda>c. c \<in> set whitespace_chars) s"

definition isDigit :: "char \<Rightarrow> bool" where
  "isDigit c \<longleftrightarrow> CHR ''0'' \<le> c \<and> c \<le> CHR ''9''"

definition isAlpha :: "char \<Rightarrow> bool" where
  "isAlpha c \<longleftrightarrow> (CHR ''A'' \<le> c \<and> c \<le> CHR ''Z'') \<or> (CHR ''a'' \<le> c \<and> c \<le> CHR ''z'')"

definition tolower :: "char \<Rightarrow> char" where
  "tolower c = (if CHR ''A'' \<le> c \<and> c \<le> CHR ''Z'' then char_of (of_char c + 32 :: nat) else c)"

definition toupper :: "char \<Rightarrow> char" where
  "toupper c = (if CHR ''a'' \<le> c \<and> c \<le> CHR ''z'' then char_of (of_char c - 32 :: nat) else c)"

definition toUpper :: "string \<Rightarrow> string" where
  "toUpper s = map toupper s"

definition toLower :: "string \<Rightarrow> string" where
  "toLower s = map tolower s"

definition isEqualCaseInsensitive :: "string \<Rightarrow> string \<Rightarrow> bool" where
  "isEqualCaseInsensitive s0 s1 \<longleftrightarrow> list_all2 (\<lambda>a b. tolower a = tolower b) s0 s1"

definition stringCharsAllAllowed :: "string \<Rightarrow> string \<Rightarrow> bool" where
  "stringCharsAllAllowed str allowedChars \<longleftrightarrow> list_all (contains_chr allowedChars) str"

section \<open>Prefixes, trimming, splitting\<close>

definition isPrefix :: "string \<Rightarrow> string \<Rightarrow> bool" where
  "isPrefix s pre \<longleftrightarrow> \<not> length s < length pre \<and> take (length pre) s = pre"

definition isSuffix :: "string \<Rightarrow> string \<Rightarrow> bool" where
  "isSuffix s suf \<longleftrightarrow> \<not> length s < length suf \<and> drop (length s - length suf) s = suf"

definition chopPrefix :: "string \<Rightarrow> string \<Rightarrow> error + string" where
  "chopPrefix s pre =
     (if \<not> isPrefix s pre
      then Inl (StringError (''Global::chopPrefix: '' @ [CHR 0x0A] @ pre @ [CHR 0x0A] @ ''is not a prefix of''
                  @ [CHR 0x0A] @ s))
      else Inr (drop (length pre) s))"

definition chopSuffix :: "string \<Rightarrow> string \<Rightarrow> error + string" where
  "chopSuffix s suf =
     (if \<not> isSuffix s suf
      then Inl (StringError (''Global::chopSuffix: '' @ [CHR 0x0A] @ suf @ [CHR 0x0A] @ ''is not a suffix of''
                  @ [CHR 0x0A] @ s))
      else Inr (take (length s - length suf) s))"

text \<open>\<open>trim\<close> between the first and the last character not in \<open>delims\<close>\<close>

definition trim_delims :: "string \<Rightarrow> string \<Rightarrow> string" where
  "trim_delims s delims =
     (let keep = (\<lambda>i. s ! i \<notin> set delims); idxs = filter keep [0..<length s]
      in if idxs = [] then [] else take (last idxs - hd idxs + 1) (drop (hd idxs) s))"

definition trim :: "string \<Rightarrow> string" where
  "trim s = trim_delims s whitespace_chars"

text \<open>\<open>split(s, delim)\<close>: the \<open>getline\<close> loop; a trailing empty piece is not produced.\<close>

fun split_on :: "char \<Rightarrow> string \<Rightarrow> string \<Rightarrow> string list" where
  "split_on d acc [] = (if acc = [] then [] else [rev acc])"
| "split_on d acc (c # cs) = (if c = d then rev acc # split_on d [] cs else split_on d (c # acc) cs)"

definition split :: "string \<Rightarrow> char \<Rightarrow> string list" where
  "split s delim = split_on delim [] s"

text \<open>\<open>split(s)\<close>: the tokens of \<open>in >> token\<close>, trimmed.\<close>

fun tokens :: "string \<Rightarrow> string \<Rightarrow> string list" where
  "tokens acc [] = (if acc = [] then [] else [rev acc])"
| "tokens acc (c # cs) =
     (if c \<in> set whitespace_chars then (if acc = [] then tokens [] cs else rev acc # tokens [] cs)
      else tokens (c # acc) cs)"

definition split_ws :: "string \<Rightarrow> string list" where
  "split_ws s = map trim (tokens [] s)"

text \<open>\<open>concat(strs, delim, start, end)\<close> and \<open>concat(strs, delim)\<close>\<close>

definition concat_range :: "string list \<Rightarrow> string \<Rightarrow> nat \<Rightarrow> nat \<Rightarrow> string" where
  "concat_range strs delim start end =
     fold (\<lambda>i s. (if i > start then s @ delim else s) @ strs ! i) [start..<end] []"

definition concat_strings :: "string list \<Rightarrow> string \<Rightarrow> string" where
  "concat_strings strs delim = concat_range strs delim 0 (length strs)"

section \<open>Numbers as text\<close>

definition boolToString :: "bool \<Rightarrow> string" where
  "boolToString b = (if b then ''true'' else ''false'')"

definition digit_char :: "nat \<Rightarrow> char" where
  "digit_char d = char_of (48 + d)"

definition digit_val :: "char \<Rightarrow> nat" where
  "digit_val c = of_char c - 48"

fun nat_to_string :: "nat \<Rightarrow> string" where
  "nat_to_string n = (if n < 10 then [digit_char n] else nat_to_string (n div 10) @ [digit_char (n mod 10)])"

declare nat_to_string.simps [simp del]

definition intToString :: "int \<Rightarrow> string" where
  "intToString x = (if x < 0 then CHR ''-'' # nat_to_string (nat (- x)) else nat_to_string (nat x))"

definition digits_val :: "string \<Rightarrow> nat" where
  "digits_val s = fold (\<lambda>c v. v * 10 + digit_val c) s 0"

text \<open>
  Reading an integer from a whole string: an optional sign and at least one digit, and the
  value in the range of the type; the test \<open>in.fail() || in.peek() != EOF\<close> rejects the rest.
\<close>

definition read_integer :: "int \<Rightarrow> int \<Rightarrow> string \<Rightarrow> int option" where
  "read_integer lo hi s =
     (let (neg, ds) =
            (case s of
               [] \<Rightarrow> (False, [])
             | c # cs \<Rightarrow> if c = CHR ''-'' then (True, cs) else if c = CHR ''+'' then (False, cs) else (False, s));
          v = (if neg then - int (digits_val ds) else int (digits_val ds))
      in if ds \<noteq> [] \<and> list_all isDigit ds \<and> lo \<le> v \<and> v \<le> hi then Some v else None)"

definition tryStringToInt :: "string \<Rightarrow> int option" where
  "tryStringToInt str = read_integer (- (2 ^ 31)) (2 ^ 31 - 1) (trim str)"

definition stringToInt :: "string \<Rightarrow> error + int" where
  "stringToInt str =
     (case read_integer (- (2 ^ 31)) (2 ^ 31 - 1) (trim str) of
        None \<Rightarrow> Inl (IOError (''could not parse int: '' @ str)) | Some v \<Rightarrow> Inr v)"

definition tryStringToInt64 :: "string \<Rightarrow> int option" where
  "tryStringToInt64 str = read_integer (- (2 ^ 63)) (2 ^ 63 - 1) (trim str)"

definition stringToInt64 :: "string \<Rightarrow> error + int" where
  "stringToInt64 str =
     (case read_integer (- (2 ^ 63)) (2 ^ 63 - 1) (trim str) of
        None \<Rightarrow> Inl (IOError (''could not parse int: '' @ str)) | Some v \<Rightarrow> Inr v)"

definition tryStringToUInt64 :: "string \<Rightarrow> u64 option" where
  "tryStringToUInt64 str =
     (let s = trim str
      in if s \<noteq> [] \<and> hd s = CHR ''-'' then None
         else map_option word_of_int (read_integer 0 (2 ^ 64 - 1) s))"

definition stringToUInt64 :: "string \<Rightarrow> error + u64" where
  "stringToUInt64 str =
     (case tryStringToUInt64 str of
        None \<Rightarrow> Inl (IOError (''could not parse uint64: '' @ str)) | Some v \<Rightarrow> Inr v)"

definition tryStringToBool :: "string \<Rightarrow> bool option" where
  "tryStringToBool str =
     (let s = toLower (trim str)
      in if s = ''false'' then Some False else if s = ''true'' then Some True else None)"

definition stringToBool :: "string \<Rightarrow> error + bool" where
  "stringToBool str =
     (let s = toLower (trim str)
      in if s = ''false'' then Inr False else if s = ''true'' then Inr True
         else Inl (IOError (''could not parse bool: '' @ str)))"

text \<open>\<open>isDigits\<close> and \<open>parseDigits\<close> on a range; the two end tests of the loop are on indices.\<close>

fun digits_loop :: "string \<Rightarrow> int \<Rightarrow> int option" where
  "digits_loop [] v = Some v"
| "digits_loop (c # cs) v =
     (if \<not> isDigit c then None else digits_loop cs (v * 10 + int (digit_val c)))"

definition isDigits_range :: "string \<Rightarrow> nat \<Rightarrow> nat \<Rightarrow> bool" where
  "isDigits_range str start end =
     (if end \<le> start then False
      else if end - start > 9 then False
      else case digits_loop (take (end - start) (drop start str)) 0 of
        None \<Rightarrow> False
      | Some value \<Rightarrow> \<not> take_bit 31 value \<noteq> value)"

definition isDigits :: "string \<Rightarrow> bool" where
  "isDigits str = isDigits_range str 0 (length str)"

definition parseDigits_range :: "string \<Rightarrow> nat \<Rightarrow> nat \<Rightarrow> error + int" where
  "parseDigits_range str start end =
     (if end \<le> start then Inl (IOError ''Could not parse digits, end <= start, or empty string'')
      else if end - start > 9
      then Inl (IOError (''Could not parse digits, overflow: '' @ take (end - start) (drop start str)))
      else case digits_loop (take (end - start) (drop start str)) 0 of
        None \<Rightarrow> Inr 0
      | Some value \<Rightarrow>
          if take_bit 31 value \<noteq> value
          then Inl (IOError (''Could not parse digits, overflow: '' @ take (end - start) (drop start str)))
          else Inr value)"

definition parseDigits :: "string \<Rightarrow> error + int" where
  "parseDigits str = parseDigits_range str 0 (length str)"

section \<open>Hexadecimal\<close>

definition hex_digits :: string where
  "hex_digits = ''0123456789ABCDEF''"

definition uint32ToHexString :: "u32 \<Rightarrow> string" where
  "uint32ToHexString x =
     fold (\<lambda>i s. s[8 - i - 1 := hex_digits ! unat (drop_bit (i * 4) x AND 0x0f)]) [0..<8] (replicate 8 (CHR ''0''))"

definition uint64ToHexString :: "u64 \<Rightarrow> string" where
  "uint64ToHexString x =
     fold (\<lambda>i s. s[16 - i - 1 := hex_digits ! unat (drop_bit (i * 4) x AND 0x0f)]) [0..<16] (replicate 16 (CHR ''0''))"

definition is_hex :: "char \<Rightarrow> bool" where
  "is_hex c \<longleftrightarrow> (CHR ''0'' \<le> c \<and> c \<le> CHR ''9'') \<or> (CHR ''A'' \<le> c \<and> c \<le> CHR ''F'')
     \<or> (CHR ''a'' \<le> c \<and> c \<le> CHR ''f'')"

definition hex_val :: "char \<Rightarrow> nat" where
  "hex_val c =
     (if c \<le> CHR ''9'' then of_char c - 48
      else if c \<le> CHR ''F'' then of_char c - 55 else of_char c - 87)"

definition tryHexStringToUInt64 :: "string \<Rightarrow> u64 option" where
  "tryHexStringToUInt64 str =
     (if \<not> list_all is_hex str then None
      else
        let v = fold (\<lambda>c v. v * 16 + hex_val c) str 0
        in if str \<noteq> [] \<and> v < 2 ^ 64 then Some (word_of_nat v) else None)"

definition hexStringToUInt64 :: "string \<Rightarrow> error + u64" where
  "hexStringToUInt64 str =
     (case tryHexStringToUInt64 str of
        None \<Rightarrow> Inl (IOError (''could not parse uint64 from hex: '' @ str)) | Some v \<Rightarrow> Inr v)"

definition Hash128_toString :: "hash128 \<Rightarrow> string" where
  "Hash128_toString h = uint64ToHexString (hash1 h) @ uint64ToHexString (hash0 h)"

definition Hash128_ofString :: "string \<Rightarrow> error + hash128" where
  "Hash128_ofString s =
     (if length s \<noteq> 32 then Inl (IOError (''Could not parse as Hash128: '' @ s))
      else if \<not> list_all is_hex s then Inl (IOError (''Could not parse as Hash128: '' @ s))
      else case hexStringToUInt64 (take 16 s) of
        Inl e \<Rightarrow> Inl e
      | Inr h1 \<Rightarrow>
          (case hexStringToUInt64 (take 16 (drop 16 s)) of
             Inl e \<Rightarrow> Inl e | Inr h0 \<Rightarrow> Inr (Hash128 h0 h1)))"

section \<open>Key-value pairs, comments, memory sizes\<close>

text \<open>One chunk of a line of \<open>readKeyValues\<close>.\<close>

definition kv_chunk :: "string \<Rightarrow> string \<Rightarrow> (string \<rightharpoonup> string) \<Rightarrow> error + (string \<rightharpoonup> string)" where
  "kv_chunk line commaChunk keyValues =
     (if commaChunk = [] then Inr keyValues
      else if CHR ''='' \<notin> set commaChunk then Inr keyValues
      else
        let leftChunk = trim (takeWhile (\<lambda>c. c \<noteq> CHR ''='') commaChunk);
            rightChunk = trim (tl (dropWhile (\<lambda>c. c \<noteq> CHR ''='') commaChunk))
        in if leftChunk = [] then Inl (IOError (''readKeyValues: key value pair without key: '' @ line))
           else if rightChunk = [] then Inl (IOError (''readKeyValues: key value pair without value: '' @ line))
           else if keyValues leftChunk \<noteq> None then Inl (IOError (''readKeyValues: duplicate key: '' @ leftChunk))
           else Inr (keyValues(leftChunk \<mapsto> rightChunk)))"

definition readKeyValues :: "string \<Rightarrow> error + (string \<rightharpoonup> string)" where
  "readKeyValues contents =
     foldR (\<lambda>line keyValues.
         if line = [] then Inr keyValues
         else foldR (kv_chunk line) (split line (CHR '','')) keyValues)
       (split contents (CHR 0x0A)) Map.empty"

definition stripComments :: "string \<Rightarrow> string" where
  "stripComments str =
     (if CHR ''#'' \<notin> set str then str
      else fold (\<lambda>line result. result @ takeWhile (\<lambda>c. c \<noteq> CHR ''#'') line @ [CHR 0x0A])
             (split str (CHR 0x0A)) [])"

text \<open>\<open>str.find_first_of(chars)\<close>: the index of the first character of \<open>str\<close> in \<open>chars\<close>.\<close>

definition find_first_of :: "string \<Rightarrow> string \<Rightarrow> nat option" where
  "find_first_of str chars = find (\<lambda>i. str ! i \<in> set chars) [0..<length str]"

text \<open>The numeric part of a memory size and the shift its suffix asks for.\<close>

definition mem_suffix :: "string \<Rightarrow> string \<times> nat" where
  "mem_suffix str =
     (let e = length str - 1; snd = length str - 2;
          at = (\<lambda>cs i. find_first_of str cs = Some i)
      in if at ''K'' e then (take e str, 10)
         else if at ''KB'' snd then (take snd str, 10)
         else if at ''M'' e then (take e str, 20)
         else if at ''MB'' snd then (take snd str, 20)
         else if at ''G'' e then (take e str, 30)
         else if at ''GB'' snd then (take snd str, 30)
         else if at ''T'' e then (take e str, 40)
         else if at ''TB'' snd then (take snd str, 40)
         else if at ''P'' e then (take e str, 50)
         else if at ''PB'' snd then (take snd str, 50)
         else if at ''B'' e then (take e str, 0)
         else (str, 0))"

fun shift_mem :: "string \<Rightarrow> nat \<Rightarrow> u64 \<Rightarrow> error + u64" where
  "shift_mem str 0 mem = Inr mem"
| "shift_mem str (Suc n) mem =
     (let newMem = push_bit 1 mem
      in if newMem < mem
         then Inl (IOError (''Global::readMem: Could not parse amount of memory (too large): '' @ str))
         else shift_mem str n newMem)"

definition readMem :: "string \<Rightarrow> error + u64" where
  "readMem str =
     (if length str < 2 then Inl (IOError (''Global::readMem: Could not parse amount of memory: '' @ str))
      else
        let (numericPart, shiftFactor) = mem_suffix str
        in if \<not> isDigits numericPart
           then Inl (IOError (''Global::readMem: Could not parse amount of memory: '' @ str))
           else shift_mem str shiftFactor (word_of_nat (digits_val numericPart)))"

end
