(* ===== verification/BoardIO.thy ===== *)
theory BoardIO
  imports BoardEdit Ladder GlobalStrings
begin

text \<open>
  The self-check of the board and the text forms of players, points and boards
  (\<open>game/board.cpp\<close>). Text written to an output stream is the string returned. A board
  constructed without arguments for its arrays starts from an arbitrary object \<open>b0\<close>, as the
  code leaves \<open>chain_data\<close>, \<open>chain_head\<close> and \<open>next_in_chain\<close> uninitialised.
\<close>

section \<open>Consistency\<close>

definition errLabel :: string where
  "errLabel = ''Board::checkConsistency(): ''"

definition check_fail :: "string \<Rightarrow> error" where
  "check_fail msg = StringError (errLabel @ msg)"

text \<open>
  One turn of the loop of \<open>checkChainConsistency\<close>; the state is \<open>chainLocChecked\<close>,
  \<open>stoneCount\<close>, \<open>pseudoLibs\<close> and \<open>foundChainHead\<close>.
\<close>

definition check_chain_body ::
  "board \<Rightarrow> player \<Rightarrow> loc \<Rightarrow> loc \<Rightarrow> loc set \<times> int \<times> int \<times> bool \<Rightarrow> error + loc set \<times> int \<times> int \<times> bool" where
  "check_chain_body b pla head cur = (\<lambda>(checked, stoneCount, pseudoLibs, foundChainHead).
     let checked = insert cur checked
     in if colors b cur \<noteq> pla then Inl (check_fail ''Chain is not all the same color'')
        else if chain_head b cur \<noteq> head then Inl (check_fail ''Chain does not all have the same head'')
        else
          let stoneCount = stoneCount + 1;
              pseudoLibs = pseudoLibs + getNumImmediateLiberties b cur;
              foundChainHead = (foundChainHead \<or> cur = head)
          in if stoneCount > MAX_PLAY_SIZE
             then Inl (check_fail ''Chain exceeds size of board - broken circular list?'')
             else if next_in_chain b cur < 0 \<or> next_in_chain b cur \<ge> MAX_ARR_SIZE
             then Inl (check_fail ''Chain location is outside of board bounds, data corruption?'')
             else Inr (checked, stoneCount, pseudoLibs, foundChainHead))"

definition checkChainConsistency :: "board \<Rightarrow> loc \<Rightarrow> loc set \<Rightarrow> (error + loc set) option" where
  "checkChainConsistency b loc checked =
     (let pla = colors b loc; head = chain_head b loc
      in Option.bind (walk_chain (\<lambda>_. next_in_chain b) (check_chain_body b pla head) loc loc (checked, 0, 0, False))
           (\<lambda>r. case r of
                  Inl e \<Rightarrow> Some (Inl e)
                | Inr (checked, stoneCount, pseudoLibs, foundChainHead) \<Rightarrow>
                    (let data = chain_data b head
                     in if \<not> foundChainHead then Some (Inl (check_fail ''Chain loop does not contain head''))
                        else if owner data \<noteq> pla
                        then Some (Inl (check_fail ''Chain data owner does not match stones''))
                        else if num_locs data \<noteq> stoneCount
                        then Some (Inl (check_fail ''Chain data num_locs does not match actual stone count''))
                        else if num_liberties data > pseudoLibs
                        then Some (Inl (check_fail ''Chain data liberties exceeds pseudoliberties''))
                        else if num_liberties data \<le> 0
                        then Some (Inl (check_fail ''Chain data liberties is nonpositive''))
                        else Option.bind (findLiberties b loc [] 0 0)
                               (\<lambda>(_, numFoundLibs). Some
                                  (if numFoundLibs \<noteq> num_liberties data
                                   then Inl (check_fail ''FindLiberties found a different number of libs'')
                                   else Inr checked)))))"

definition check_point ::
  "zobrist \<Rightarrow> board \<Rightarrow> loc \<Rightarrow> loc set \<times> hash128 \<Rightarrow> (error + loc set \<times> hash128) option" where
  "check_point Z b loc = (\<lambda>(checked, tmp_pos_hash).
     let x = getX loc (x_size b); y = getY loc (x_size b)
     in if x < 0 \<or> x \<ge> x_size b \<or> y < 0 \<or> y \<ge> y_size b then
          Some (if colors b loc \<noteq> C_WALL
                then Inl (check_fail ''Non-WALL value outside of board legal area'')
                else Inr (checked, tmp_pos_hash))
        else if colors b loc = C_BLACK \<or> colors b loc = C_WHITE then
          Option.bind (if loc \<notin> checked then checkChainConsistency b loc checked else Some (Inr checked))
            (\<lambda>r. case r of
                   Inl e \<Rightarrow> Some (Inl e)
                 | Inr checked \<Rightarrow>
                     (let tmp_pos_hash = hxor tmp_pos_hash (ZOBRIST_BOARD_HASH Z loc (colors b loc));
                          tmp_pos_hash = hxor tmp_pos_hash (ZOBRIST_BOARD_HASH Z loc C_EMPTY)
                      in Some (Inr (checked, tmp_pos_hash))))
        else if colors b loc = C_EMPTY then Some (Inr (checked, tmp_pos_hash))
        else Some (Inl (check_fail ''Non-(black,white,empty) value within board legal area'')))"

definition check_ko :: "board \<Rightarrow> error + unit" where
  "check_ko b =
     (if ko_loc b \<noteq> NULL_LOC then
        (let x = getX (ko_loc b) (x_size b); y = getY (ko_loc b) (x_size b)
         in if x < 0 \<or> x \<ge> x_size b \<or> y < 0 \<or> y \<ge> y_size b then Inl (check_fail ''Invalid simple ko loc'')
            else if getNumImmediateLiberties b (ko_loc b) \<noteq> 0
            then Inl (check_fail ''Simple ko loc has immediate liberties'')
            else Inr ())
      else Inr ())"

definition checkConsistency :: "zobrist \<Rightarrow> board \<Rightarrow> (error + unit) option" where
  "checkConsistency Z b =
     Option.bind
       (foldRM (check_point Z b) [0..MAX_ARR_SIZE - 1]
          ({}, hxor (ZOBRIST_SIZE_X_HASH Z (x_size b)) (ZOBRIST_SIZE_Y_HASH Z (y_size b))))
       (\<lambda>r. case r of
              Inl e \<Rightarrow> Some (Inl e)
            | Inr (_, tmp_pos_hash) \<Rightarrow>
                Some (if pos_hash b \<noteq> tmp_pos_hash then Inl (check_fail ''Pos hash does not match expected'')
                      else case check_ko b of
                        Inl e \<Rightarrow> Inl e
                      | Inr _ \<Rightarrow>
                          if list_ex (\<lambda>i. getAdjacentOffsets (x_size b) ! i \<noteq> adj_offsets b ! i) [0..<8]
                          then Inl (check_fail ''Corrupted adj_offsets array'') else Inr ()))"

definition isEqualForTesting :: "zobrist \<Rightarrow> board \<Rightarrow> board \<Rightarrow> bool \<Rightarrow> bool \<Rightarrow> (error + bool) option" where
  "isEqualForTesting Z b other checkNumCaptures checkSimpleKo =
     Option.bind (checkConsistency Z b) (\<lambda>r. case r of Inl e \<Rightarrow> Some (Inl e) | Inr _ \<Rightarrow>
     Option.bind (checkConsistency Z other) (\<lambda>r. case r of Inl e \<Rightarrow> Some (Inl e) | Inr _ \<Rightarrow>
       Some (Inr
         (if x_size b \<noteq> x_size other then False
          else if y_size b \<noteq> y_size other then False
          else if checkSimpleKo \<and> ko_loc b \<noteq> ko_loc other then False
          else if checkNumCaptures \<and> numBlackCaptures b \<noteq> numBlackCaptures other then False
          else if checkNumCaptures \<and> numWhiteCaptures b \<noteq> numWhiteCaptures other then False
          else if pos_hash b \<noteq> pos_hash other then False
          else list_all (\<lambda>i. colors b i = colors other i) [0..MAX_ARR_SIZE - 1]))))"

section \<open>Players\<close>

fun colorToChar :: "color \<Rightarrow> char" where
  "colorToChar C_BLACK = CHR ''X''"
| "colorToChar C_WHITE = CHR ''O''"
| "colorToChar C_EMPTY = CHR ''.''"
| "colorToChar C_WALL = CHR ''#''"

fun playerToString :: "color \<Rightarrow> string" where
  "playerToString C_BLACK = ''Black''"
| "playerToString C_WHITE = ''White''"
| "playerToString C_EMPTY = ''Empty''"
| "playerToString C_WALL = ''Wall''"

fun playerToStringShort :: "color \<Rightarrow> string" where
  "playerToStringShort C_BLACK = ''B''"
| "playerToStringShort C_WHITE = ''W''"
| "playerToStringShort C_EMPTY = ''E''"
| "playerToStringShort C_WALL = ''''"

definition tryParsePlayer :: "string \<Rightarrow> player option" where
  "tryParsePlayer s =
     (let str = toLower s
      in if str = ''black'' \<or> str = ''b'' then Some P_BLACK
         else if str = ''white'' \<or> str = ''w'' then Some P_WHITE
         else None)"

definition parsePlayer :: "string \<Rightarrow> error + player" where
  "parsePlayer s =
     (case tryParsePlayer s of
        None \<Rightarrow> Inl (StringError (''Could not parse player: '' @ s)) | Some pla \<Rightarrow> Inr pla)"

section \<open>Points\<close>

definition Location_toStringMach :: "loc \<Rightarrow> int \<Rightarrow> string" where
  "Location_toStringMach loc xs =
     (if loc = PASS_LOC then ''pass''
      else if loc = NULL_LOC then ''null''
      else ''('' @ intToString (getX loc xs) @ '','' @ intToString (getY loc xs) @ '')'')"

definition xChar :: string where
  "xChar = ''ABCDEFGHJKLMNOPQRSTUVWXYZ''"

definition Location_toString :: "loc \<Rightarrow> int \<Rightarrow> int \<Rightarrow> string" where
  "Location_toString loc xs ys =
     (if xs > 25 * 25 then Location_toStringMach loc xs
      else if loc = PASS_LOC then ''pass''
      else if loc = NULL_LOC then ''null''
      else
        let x = getX loc xs; y = getY loc xs
        in if x \<ge> xs \<or> x < 0 \<or> y < 0 \<or> y \<ge> ys then Location_toStringMach loc xs
           else if x \<le> 24 then xChar ! nat x # intToString (ys - y)
           else xChar ! nat (x div 25 - 1) # xChar ! nat (x mod 25) # intToString (ys - y))"

definition tryParseLetterCoordinate :: "char \<Rightarrow> int option" where
  "tryParseLetterCoordinate c =
     (if CHR ''A'' \<le> c \<and> c \<le> CHR ''H'' then Some (of_char c - 65)
      else if CHR ''a'' \<le> c \<and> c \<le> CHR ''h'' then Some (of_char c - 97)
      else if CHR ''J'' \<le> c \<and> c \<le> CHR ''Z'' then Some (of_char c - 65 - 1)
      else if CHR ''j'' \<le> c \<and> c \<le> CHR ''z'' then Some (of_char c - 97 - 1)
      else None)"

text \<open>The two formats of \<open>tryOfString\<close> after trimming: \<open>(x,y)\<close>, and letters with a number.\<close>

definition tryOfString_pair :: "string \<Rightarrow> int \<Rightarrow> loc option" where
  "tryOfString_pair s xs =
     (if last s \<noteq> CHR '')'' then None
      else
        let s = take (length s - 2) (drop 1 s);
            pieces = split s (CHR '','')
        in if length pieces \<noteq> 2 then None
           else case (tryStringToInt (pieces ! 0), tryStringToInt (pieces ! 1)) of
             (Some x, Some y) \<Rightarrow> Some (getLoc x y xs)
           | _ \<Rightarrow> None)"

definition tryOfString_letter :: "string \<Rightarrow> int \<Rightarrow> int \<Rightarrow> loc option" where
  "tryOfString_letter s xs ys =
     Option.bind (tryParseLetterCoordinate (s ! 0)) (\<lambda>x.
     Option.bind
       (if isAlpha (s ! 1)
        then Option.bind (tryParseLetterCoordinate (s ! 1)) (\<lambda>x1. Some ((x + 1) * 25 + x1, drop 2 s))
        else Some (x, drop 1 s))
       (\<lambda>(x, s).
          Option.bind (tryStringToInt s) (\<lambda>y.
            let y = ys - y
            in if x < 0 \<or> y < 0 \<or> x \<ge> xs \<or> y \<ge> ys then None else Some (getLoc x y xs))))"

definition tryOfString :: "string \<Rightarrow> int \<Rightarrow> int \<Rightarrow> loc option" where
  "tryOfString str xs ys =
     (let s = trim str
      in if length s < 2 then None
         else if isEqualCaseInsensitive s ''pass'' \<or> isEqualCaseInsensitive s ''pss'' then Some PASS_LOC
         else if s ! 0 = CHR ''('' then tryOfString_pair s xs
         else tryOfString_letter s xs ys)"

definition tryOfStringAllowNull :: "string \<Rightarrow> int \<Rightarrow> int \<Rightarrow> loc option" where
  "tryOfStringAllowNull str xs ys = (if str = ''null'' then Some NULL_LOC else tryOfString str xs ys)"

definition Location_ofString :: "string \<Rightarrow> int \<Rightarrow> int \<Rightarrow> error + loc" where
  "Location_ofString str xs ys =
     (case tryOfString str xs ys of
        Some r \<Rightarrow> Inr r | None \<Rightarrow> Inl (StringError (''Could not parse board location: '' @ str)))"

definition Location_ofStringAllowNull :: "string \<Rightarrow> int \<Rightarrow> int \<Rightarrow> error + loc" where
  "Location_ofStringAllowNull str xs ys =
     (case tryOfStringAllowNull str xs ys of
        Some r \<Rightarrow> Inr r | None \<Rightarrow> Inl (StringError (''Could not parse board location: '' @ str)))"

definition parseSequence :: "string \<Rightarrow> board \<Rightarrow> error + loc list" where
  "parseSequence str b =
     foldR (\<lambda>piece locs.
         let piece = trim piece
         in if piece = [] then Inr locs
            else case Location_ofString piece (x_size b) (y_size b) of
              Inl e \<Rightarrow> Inl e | Inr l \<Rightarrow> Inr (locs @ [l]))
       (split (trim str) (CHR '' '')) []"

section \<open>Boards\<close>

text \<open>\<open>printBoard\<close>; \<open>hist\<close> is \<open>None\<close> for the null pointer. \<open>%2d\<close> pads to two characters.\<close>

definition print_hist_mark :: "Move list option \<Rightarrow> loc \<Rightarrow> string option" where
  "print_hist_mark hist loc =
     Option.bind hist (\<lambda>hist.
       let start = (if length hist \<ge> 3 then length hist - 3 else 0)
       in map_option (\<lambda>i. nat_to_string (1 + i))
            (find (\<lambda>i. mv_loc (hist ! (start + i)) = loc) [0..<length hist - start]))"

definition print_point :: "board \<Rightarrow> loc \<Rightarrow> Move list option \<Rightarrow> int \<Rightarrow> int \<Rightarrow> string" where
  "print_point b markLoc hist y x =
     (let loc = getLoc x y (x_size b);
          s = colorToChar (colors b loc);
          mark = print_hist_mark hist loc
      in (if colors b loc = C_EMPTY \<and> markLoc = loc then ''@'' else [s]) @
         (case mark of Some m \<Rightarrow> m | None \<Rightarrow> []) @
         (if x < x_size b - 1 \<and> mark = None then '' '' else []))"

definition printBoard :: "board \<Rightarrow> loc \<Rightarrow> Move list option \<Rightarrow> string" where
  "printBoard b markLoc hist =
     (let showCoords = (x_size b \<le> 50 \<and> y_size b \<le> 50)
      in (case hist of None \<Rightarrow> [] | Some h \<Rightarrow> ''MoveNum: '' @ nat_to_string (length h) @ '' '') @
         ''HASH: '' @ Hash128_toString (pos_hash b) @ [CHR 0x0A] @
         (if showCoords
          then ''  '' @ concat (map (\<lambda>x. if x \<le> 24 then '' '' @ [xChar ! nat x]
                                        else ''A'' @ [xChar ! nat (x - 25)]) [0..x_size b - 1]) @ [CHR 0x0A]
          else []) @
         concat (map (\<lambda>y.
             (if showCoords
              then (let n = intToString (y_size b - y)
                    in replicate (2 - length n) (CHR '' '') @ n @ '' '')
              else []) @
             concat (map (print_point b markLoc hist y) [0..x_size b - 1]) @ [CHR 0x0A]) [0..y_size b - 1]) @
         [CHR 0x0A])"

definition toStringSimple :: "board \<Rightarrow> char \<Rightarrow> string" where
  "toStringSimple b lineDelimiter =
     fold (\<lambda>y s. fold (\<lambda>x s. s @ [colorToChar (colors b (getLoc x y (x_size b)))]) [0..x_size b - 1] s
                  @ [lineDelimiter]) [0..y_size b - 1] []"

text \<open>One character and one line of \<open>parseBoard\<close>.\<close>

definition parse_char ::
  "zobrist \<Rightarrow> string \<Rightarrow> int \<Rightarrow> int \<Rightarrow> int \<Rightarrow> board \<Rightarrow> (error + board) option" where
  "parse_char Z line xSize y x b =
     (let c = (if int (length line) = xSize then line ! nat x else line ! nat (x * 2));
          loc = getLoc x y (x_size b);
          set = (\<lambda>pla. Option.bind (setStoneFailIfNoLibs Z loc pla b)
            (\<lambda>(b, suc). Some (if \<not> suc
               then Inl (StringError (''Board::parseBoard - zero-liberty group near ''
                      @ Location_toString loc (x_size b) (y_size b)))
               else Inr b)))
      in if c = CHR ''.'' \<or> c = CHR '' '' \<or> c = CHR ''*'' \<or> c = CHR '','' \<or> c = CHR 0x60 then Some (Inr b)
         else if c = CHR ''o'' \<or> c = CHR ''O'' then set P_WHITE
         else if c = CHR ''x'' \<or> c = CHR ''X'' then set P_BLACK
         else Some (Inl (StringError (''Board::parseBoard - could not parse board character: '' @ [c]))))"

definition parse_line :: "zobrist \<Rightarrow> string list \<Rightarrow> int \<Rightarrow> int \<Rightarrow> board \<Rightarrow> (error + board) option" where
  "parse_line Z lines xSize y b =
     (let line = trim (lines ! nat y);
          line = dropWhile isDigit line;
          line = trim line
      in if int (length line) \<noteq> xSize \<and> int (length line) \<noteq> 2 * xSize - 1
         then Some (Inl (StringError ''Board::parseBoard - line length not compatible with xSize''))
         else foldRM (parse_char Z line xSize y) [0..xSize - 1] b)"

definition parseBoard ::
  "zobrist \<Rightarrow> board \<Rightarrow> int \<Rightarrow> int \<Rightarrow> string \<Rightarrow> char \<Rightarrow> (error + board) option" where
  "parseBoard Z b0 xSize ySize s lineDelimiter =
     (case Board_init Z b0 xSize ySize of
        Inl e \<Rightarrow> Some (Inl e)
      | Inr b \<Rightarrow>
          let lines = split (trim s) lineDelimiter;
              lines = (if int (length lines) = ySize + 1 \<and> isPrefix (lines ! 0) ''A'' then tl lines else lines)
          in if int (length lines) \<noteq> ySize
             then Some (Inl (StringError ''Board::parseBoard - string has different number of board rows than ySize''))
             else foldRM (parse_line Z lines xSize) [0..ySize - 1] b)"

text \<open>The JSON object of \<open>toJson\<close> and \<open>ofJson\<close>, with its six members.\<close>

record board_json =
  js_xSize :: int
  js_ySize :: int
  js_stones :: string
  js_koLoc :: string
  js_numBlackCaptures :: int
  js_numWhiteCaptures :: int

definition Board_toJson :: "board \<Rightarrow> board_json" where
  "Board_toJson b =
     \<lparr>js_xSize = x_size b, js_ySize = y_size b, js_stones = toStringSimple b (CHR ''|''),
      js_koLoc = Location_toString (ko_loc b) (x_size b) (y_size b),
      js_numBlackCaptures = numBlackCaptures b, js_numWhiteCaptures = numWhiteCaptures b\<rparr>"

definition Board_ofJson :: "zobrist \<Rightarrow> board \<Rightarrow> board_json \<Rightarrow> (error + board) option" where
  "Board_ofJson Z b0 data =
     Option.bind (parseBoard Z b0 (js_xSize data) (js_ySize data) (js_stones data) (CHR ''|''))
       (\<lambda>r. Some (case r of
              Inl e \<Rightarrow> Inl e
            | Inr b \<Rightarrow>
                (case Location_ofStringAllowNull (js_koLoc data) (x_size b) (y_size b) of
                   Inl e \<Rightarrow> Inl e
                 | Inr l \<Rightarrow>
                     (let b = setSimpleKoLoc b l
                      in Inr (b\<lparr>numBlackCaptures := js_numBlackCaptures data,
                               numWhiteCaptures := js_numWhiteCaptures data\<rparr>)))))"

end
