(* ===== verification/Rules.thy ===== *)
theory Rules
  imports Complex_Main GlobalStrings
begin

text \<open>
  The rules of a game (\<open>game/rules.h\<close>, \<open>game/rules.cpp\<close>): their data, their names, and the
  parser of rule strings. A \<open>float\<close> is an exact rational here: the values the program computes
  with are multiples of one half far below the range where a \<open>float\<close> rounds them. The JSON
  library is a parameter: it turns a text into the members of an object, or throws (\<open>None\<close>).
\<close>

section \<open>Data\<close>

definition KO_SIMPLE :: int where "KO_SIMPLE = 0"
definition KO_POSITIONAL :: int where "KO_POSITIONAL = 1"
definition KO_SITUATIONAL :: int where "KO_SITUATIONAL = 2"
definition KO_SPIGHT :: int where "KO_SPIGHT = 3"
definition SCORING_AREA :: int where "SCORING_AREA = 0"
definition SCORING_TERRITORY :: int where "SCORING_TERRITORY = 1"
definition TAX_NONE :: int where "TAX_NONE = 0"
definition TAX_SEKI :: int where "TAX_SEKI = 1"
definition TAX_ALL :: int where "TAX_ALL = 2"
definition WHB_ZERO :: int where "WHB_ZERO = 0"
definition WHB_N :: int where "WHB_N = 1"
definition WHB_N_MINUS_ONE :: int where "WHB_N_MINUS_ONE = 2"

lemmas rule_consts =
  KO_SIMPLE_def KO_POSITIONAL_def KO_SITUATIONAL_def KO_SPIGHT_def SCORING_AREA_def
  SCORING_TERRITORY_def TAX_NONE_def TAX_SEKI_def TAX_ALL_def WHB_ZERO_def WHB_N_def
  WHB_N_MINUS_ONE_def

record rules =
  koRule :: int
  scoringRule :: int
  taxRule :: int
  multiStoneSuicideLegal :: bool
  rules_hasButton :: bool
  whiteHandicapBonusRule :: int
  friendlyPassOk :: bool
  komi :: rat

text \<open>The values the four enumerated rules take.\<close>

definition rules_ok :: "rules \<Rightarrow> bool" where
  "rules_ok r \<longleftrightarrow> koRule r \<in> {KO_SIMPLE, KO_POSITIONAL, KO_SITUATIONAL, KO_SPIGHT} \<and>
     scoringRule r \<in> {SCORING_AREA, SCORING_TERRITORY} \<and> taxRule r \<in> {TAX_NONE, TAX_SEKI, TAX_ALL} \<and>
     whiteHandicapBonusRule r \<in> {WHB_ZERO, WHB_N, WHB_N_MINUS_ONE}"

definition MIN_USER_KOMI :: rat where "MIN_USER_KOMI = -400"
definition MAX_USER_KOMI :: rat where "MAX_USER_KOMI = 400"

definition Rules_default :: rules where
  "Rules_default =
     \<lparr>koRule = KO_POSITIONAL, scoringRule = SCORING_AREA, taxRule = TAX_NONE,
      multiStoneSuicideLegal = True, rules_hasButton = False, whiteHandicapBonusRule = WHB_ZERO,
      friendlyPassOk = False, komi = 15 / 2\<rparr>"

definition equalsIgnoringKomi :: "rules \<Rightarrow> rules \<Rightarrow> bool" where
  "equalsIgnoringKomi r other \<longleftrightarrow>
     koRule r = koRule other \<and> scoringRule r = scoringRule other \<and> taxRule r = taxRule other \<and>
     multiStoneSuicideLegal r = multiStoneSuicideLegal other \<and>
     rules_hasButton r = rules_hasButton other \<and>
     whiteHandicapBonusRule r = whiteHandicapBonusRule other \<and>
     friendlyPassOk r = friendlyPassOk other"

text \<open>The cast of a \<open>float\<close> to an integer type truncates.\<close>

definition trunc :: "rat \<Rightarrow> int" where
  "trunc x = (if x < 0 then \<lceil>x\<rceil> else \<lfloor>x\<rfloor>)"

definition gameResultWillBeInteger :: "rules \<Rightarrow> bool" where
  "gameResultWillBeInteger r =
     (let komiIsInteger = (of_int (trunc (komi r)) = komi r) in komiIsInteger \<noteq> rules_hasButton r)"

definition getTrompTaylorish :: rules where
  "getTrompTaylorish =
     Rules_default\<lparr>koRule := KO_POSITIONAL, scoringRule := SCORING_AREA, taxRule := TAX_NONE,
       multiStoneSuicideLegal := True, rules_hasButton := False, whiteHandicapBonusRule := WHB_ZERO,
       friendlyPassOk := False, komi := 15 / 2\<rparr>"

definition getSimpleTerritory :: rules where
  "getSimpleTerritory =
     Rules_default\<lparr>koRule := KO_SIMPLE, scoringRule := SCORING_TERRITORY, taxRule := TAX_SEKI,
       multiStoneSuicideLegal := False, rules_hasButton := False, whiteHandicapBonusRule := WHB_ZERO,
       friendlyPassOk := False, komi := 15 / 2\<rparr>"

definition komiIsIntOrHalfInt :: "rat \<Rightarrow> bool" where
  "komiIsIntOrHalfInt k \<longleftrightarrow> k * 2 = of_int (trunc (k * 2))"

section \<open>Names of the rules\<close>

definition parseKoRule :: "string \<Rightarrow> error + int" where
  "parseKoRule s =
     (if s = ''SIMPLE'' then Inr KO_SIMPLE
      else if s = ''POSITIONAL'' then Inr KO_POSITIONAL
      else if s = ''SITUATIONAL'' then Inr KO_SITUATIONAL
      else if s = ''SPIGHT'' then Inr KO_SPIGHT
      else Inl (IOError (''Rules::parseKoRule: Invalid ko rule: '' @ s)))"

definition parseScoringRule :: "string \<Rightarrow> error + int" where
  "parseScoringRule s =
     (if s = ''AREA'' then Inr SCORING_AREA
      else if s = ''TERRITORY'' then Inr SCORING_TERRITORY
      else Inl (IOError (''Rules::parseScoringRule: Invalid scoring rule: '' @ s)))"

definition parseTaxRule :: "string \<Rightarrow> error + int" where
  "parseTaxRule s =
     (if s = ''NONE'' then Inr TAX_NONE
      else if s = ''SEKI'' then Inr TAX_SEKI
      else if s = ''ALL'' then Inr TAX_ALL
      else Inl (IOError (''Rules::parseTaxRule: Invalid tax rule: '' @ s)))"

definition parseWhiteHandicapBonusRule :: "string \<Rightarrow> error + int" where
  "parseWhiteHandicapBonusRule s =
     (if s = ''0'' then Inr WHB_ZERO
      else if s = ''N'' then Inr WHB_N
      else if s = ''N-1'' then Inr WHB_N_MINUS_ONE
      else Inl (IOError (''Rules::parseWhiteHandicapBonusRule: Invalid whiteHandicapBonus rule: '' @ s)))"

definition writeKoRule :: "int \<Rightarrow> string" where
  "writeKoRule r =
     (if r = KO_SIMPLE then ''SIMPLE'' else if r = KO_POSITIONAL then ''POSITIONAL''
      else if r = KO_SITUATIONAL then ''SITUATIONAL'' else if r = KO_SPIGHT then ''SPIGHT''
      else ''UNKNOWN'')"

definition writeScoringRule :: "int \<Rightarrow> string" where
  "writeScoringRule r =
     (if r = SCORING_AREA then ''AREA'' else if r = SCORING_TERRITORY then ''TERRITORY'' else ''UNKNOWN'')"

definition writeTaxRule :: "int \<Rightarrow> string" where
  "writeTaxRule r =
     (if r = TAX_NONE then ''NONE'' else if r = TAX_SEKI then ''SEKI'' else if r = TAX_ALL then ''ALL''
      else ''UNKNOWN'')"

definition writeWhiteHandicapBonusRule :: "int \<Rightarrow> string" where
  "writeWhiteHandicapBonusRule r =
     (if r = WHB_ZERO then ''0'' else if r = WHB_N then ''N'' else if r = WHB_N_MINUS_ONE then ''N-1''
      else ''UNKNOWN'')"

text \<open>A \<open>bool\<close> on a stream without \<open>boolalpha\<close>.\<close>

definition show_bit :: "bool \<Rightarrow> string" where
  "show_bit b = (if b then ''1'' else ''0'')"

definition toStringNoKomi :: "rules \<Rightarrow> string" where
  "toStringNoKomi r =
     ''ko'' @ writeKoRule (koRule r) @ ''score'' @ writeScoringRule (scoringRule r) @
     ''tax'' @ writeTaxRule (taxRule r) @ ''sui'' @ show_bit (multiStoneSuicideLegal r) @
     (if rules_hasButton r then ''button'' @ show_bit (rules_hasButton r) else []) @
     (if whiteHandicapBonusRule r \<noteq> WHB_ZERO
      then ''whb'' @ writeWhiteHandicapBonusRule (whiteHandicapBonusRule r) else []) @
     (if friendlyPassOk r then ''fpok'' @ show_bit (friendlyPassOk r) else [])"

section \<open>JSON\<close>

datatype json_value = JString string | JBool bool | JNumber rat | JOther

text \<open>\<open>toJsonHelper\<close>: the members of the object.\<close>

definition toJsonHelper :: "rules \<Rightarrow> bool \<Rightarrow> bool \<Rightarrow> string \<rightharpoonup> json_value" where
  "toJsonHelper r omitKomi omitDefaults =
     (let ret = [''ko'' \<mapsto> JString (writeKoRule (koRule r)),
                 ''scoring'' \<mapsto> JString (writeScoringRule (scoringRule r)),
                 ''tax'' \<mapsto> JString (writeTaxRule (taxRule r)),
                 ''suicide'' \<mapsto> JBool (multiStoneSuicideLegal r)];
          ret = (if \<not> omitDefaults \<or> rules_hasButton r
                 then ret(''hasButton'' \<mapsto> JBool (rules_hasButton r)) else ret);
          ret = (if \<not> omitDefaults \<or> whiteHandicapBonusRule r \<noteq> WHB_ZERO
                 then ret(''whiteHandicapBonus'' \<mapsto>
                        JString (writeWhiteHandicapBonusRule (whiteHandicapBonusRule r))) else ret);
          ret = (if \<not> omitDefaults \<or> friendlyPassOk r \<noteq> False
                 then ret(''friendlyPassOk'' \<mapsto> JBool (friendlyPassOk r)) else ret);
          ret = (if \<not> omitKomi then ret(''komi'' \<mapsto> JNumber (komi r)) else ret)
      in ret)"

section \<open>Changing one rule\<close>

definition map_result :: "('a \<Rightarrow> 'b) \<Rightarrow> error + 'a \<Rightarrow> error + 'b" where
  "map_result f r = (case r of Inl e \<Rightarrow> Inl e | Inr x \<Rightarrow> Inr (f x))"

definition updateRules :: "string \<Rightarrow> string \<Rightarrow> rules \<Rightarrow> error + rules" where
  "updateRules k v oldRules =
     (let key = trim k; val = trim (toUpper v)
      in if key = ''ko'' then map_result (\<lambda>x. oldRules\<lparr>koRule := x\<rparr>) (parseKoRule val)
         else if key = ''score'' then map_result (\<lambda>x. oldRules\<lparr>scoringRule := x\<rparr>) (parseScoringRule val)
         else if key = ''scoring'' then map_result (\<lambda>x. oldRules\<lparr>scoringRule := x\<rparr>) (parseScoringRule val)
         else if key = ''tax'' then map_result (\<lambda>x. oldRules\<lparr>taxRule := x\<rparr>) (parseTaxRule val)
         else if key = ''suicide''
         then map_result (\<lambda>x. oldRules\<lparr>multiStoneSuicideLegal := x\<rparr>) (stringToBool val)
         else if key = ''hasButton'' then map_result (\<lambda>x. oldRules\<lparr>rules_hasButton := x\<rparr>) (stringToBool val)
         else if key = ''whiteHandicapBonus''
         then map_result (\<lambda>x. oldRules\<lparr>whiteHandicapBonusRule := x\<rparr>) (parseWhiteHandicapBonusRule val)
         else if key = ''friendlyPassOk'' then map_result (\<lambda>x. oldRules\<lparr>friendlyPassOk := x\<rparr>) (stringToBool val)
         else Inl (IOError (''Unknown rules option: '' @ key)))"

section \<open>Parsing\<close>

text \<open>
  \<open>in >> val\<close> for a \<open>float\<close> on a whole string: sign, digits with an optional point, optional
  exponent; a value out of range fails.
\<close>

definition read_exponent :: "string \<Rightarrow> int option" where
  "read_exponent s =
     (case s of
        [] \<Rightarrow> Some 0
      | c # cs \<Rightarrow> if c = CHR ''e'' \<or> c = CHR ''E'' then read_integer (- 1000) 1000 cs else None)"

definition pow10 :: "int \<Rightarrow> rat" where
  "pow10 e = (if e \<ge> 0 then 10 ^ nat e else 1 / 10 ^ nat (- e))"

definition read_float :: "string \<Rightarrow> rat option" where
  "read_float s =
     (let neg = (s \<noteq> [] \<and> hd s = CHR ''-'');
          s = (if s \<noteq> [] \<and> (hd s = CHR ''-'' \<or> hd s = CHR ''+'') then tl s else s);
          ip = takeWhile isDigit s;
          r = dropWhile isDigit s;
          fp = (if r \<noteq> [] \<and> hd r = CHR ''.'' then takeWhile isDigit (tl r) else []);
          r = (if r \<noteq> [] \<and> hd r = CHR ''.'' then dropWhile isDigit (tl r) else r)
      in if ip @ fp = [] then None
         else case read_exponent r of
           None \<Rightarrow> None
         | Some e \<Rightarrow>
             let v = of_nat (digits_val (ip @ fp)) * pow10 (e - int (length fp))
             in if v > 340282346638528859811704183484516925440 then None
                else Some (if neg then - v else v))"

definition tryStringToFloat :: "string \<Rightarrow> rat option" where
  "tryStringToFloat str = read_float (trim str)"

text \<open>The named rule sets of \<open>parseRulesHelper\<close>, by the trimmed, lower-case name.\<close>

definition mk_rules :: "int \<Rightarrow> int \<Rightarrow> int \<Rightarrow> bool \<Rightarrow> bool \<Rightarrow> int \<Rightarrow> bool \<Rightarrow> rat \<Rightarrow> rules" where
  "mk_rules sco ko tax sui but whb fpok km =
     \<lparr>koRule = ko, scoringRule = sco, taxRule = tax, multiStoneSuicideLegal = sui,
      rules_hasButton = but, whiteHandicapBonusRule = whb, friendlyPassOk = fpok, komi = km\<rparr>"

definition named_rules :: "string \<Rightarrow> rules option" where
  "named_rules n =
     (if n \<in> {''japanese'', ''korean''}
      then Some (mk_rules SCORING_TERRITORY KO_SIMPLE TAX_SEKI False False WHB_ZERO False (13 / 2))
      else if n = ''chinese''
      then Some (mk_rules SCORING_AREA KO_SIMPLE TAX_NONE False False WHB_N True (15 / 2))
      else if n \<in> {''chineseogs'', ''chinese_ogs'', ''chinese-ogs'', ''chinesekgs'', ''chinese_kgs'', ''chinese-kgs''}
      then Some (mk_rules SCORING_AREA KO_POSITIONAL TAX_NONE False False WHB_N True (15 / 2))
      else if n \<in> {''ancientarea'', ''ancient-area'', ''ancient_area'', ''ancient area'',
                   ''stonescoring'', ''stone-scoring'', ''stone_scoring'', ''stone scoring''}
      then Some (mk_rules SCORING_AREA KO_SIMPLE TAX_ALL False False WHB_ZERO True (15 / 2))
      else if n \<in> {''ancientterritory'', ''ancient-territory'', ''ancient_territory'', ''ancient territory''}
      then Some (mk_rules SCORING_TERRITORY KO_SIMPLE TAX_ALL False False WHB_ZERO False (13 / 2))
      else if n \<in> {''agabutton'', ''aga-button'', ''aga_button'', ''aga button''}
      then Some (mk_rules SCORING_AREA KO_SITUATIONAL TAX_NONE False True WHB_N_MINUS_ONE True 7)
      else if n \<in> {''aga'', ''bga'', ''french''}
      then Some (mk_rules SCORING_AREA KO_SITUATIONAL TAX_NONE False False WHB_N_MINUS_ONE True (15 / 2))
      else if n \<in> {''nz'', ''newzealand'', ''new zealand'', ''new-zealand'', ''new_zealand''}
      then Some (mk_rules SCORING_AREA KO_SITUATIONAL TAX_NONE True False WHB_ZERO True 7)
      else if n \<in> {''tromp-taylor'', ''tromp_taylor'', ''tromp taylor'', ''tromptaylor''}
      then Some (mk_rules SCORING_AREA KO_POSITIONAL TAX_NONE True False WHB_ZERO False (15 / 2))
      else if n \<in> {''goe'', ''ing''}
      then Some (mk_rules SCORING_AREA KO_POSITIONAL TAX_NONE True False WHB_ZERO True (15 / 2))
      else None)"

text \<open>The defaults of the tax and the komi where a rule string does not give them.\<close>

definition fill_defaults :: "bool \<Rightarrow> bool \<Rightarrow> rules \<Rightarrow> rules" where
  "fill_defaults taxSpecified komiSpecified r =
     (let r = (if \<not> taxSpecified
               then r\<lparr>taxRule := (if scoringRule r = SCORING_TERRITORY then TAX_SEKI else TAX_NONE)\<rparr> else r)
      in if \<not> komiSpecified then
           (if scoringRule r = SCORING_TERRITORY then r\<lparr>komi := 13 / 2\<rparr>
            else if rules_hasButton r then r\<lparr>komi := 7\<rparr> else r)
         else r)"

text \<open>One member of the JSON object; the state is the rules, \<open>komiSpecified\<close> and \<open>taxSpecified\<close>.\<close>

definition get_string :: "string \<Rightarrow> json_value \<Rightarrow> error + string" where
  "get_string sOrig v =
     (case v of JString s \<Rightarrow> Inr s | _ \<Rightarrow> Inl (IOError (''Could not parse rules: '' @ sOrig)))"

definition get_bool :: "string \<Rightarrow> json_value \<Rightarrow> error + bool" where
  "get_bool sOrig v =
     (case v of JBool s \<Rightarrow> Inr s | _ \<Rightarrow> Inl (IOError (''Could not parse rules: '' @ sOrig)))"

definition bind_result :: "error + 'a \<Rightarrow> ('a \<Rightarrow> error + 'b) \<Rightarrow> error + 'b" where
  "bind_result r f = (case r of Inl e \<Rightarrow> Inl e | Inr x \<Rightarrow> f x)"

definition parse_member ::
  "string \<Rightarrow> bool \<Rightarrow> string \<times> json_value \<Rightarrow> rules \<times> bool \<times> bool \<Rightarrow> error + rules \<times> bool \<times> bool" where
  "parse_member sOrig allowKomi = (\<lambda>(key, v) (r, komiSpecified, taxSpecified).
     if key = ''ko'' then
       map_result (\<lambda>x. (r\<lparr>koRule := x\<rparr>, komiSpecified, taxSpecified)) (bind_result (get_string sOrig v) parseKoRule)
     else if key = ''score'' \<or> key = ''scoring'' then
       map_result (\<lambda>x. (r\<lparr>scoringRule := x\<rparr>, komiSpecified, taxSpecified))
         (bind_result (get_string sOrig v) parseScoringRule)
     else if key = ''tax'' then
       map_result (\<lambda>x. (r\<lparr>taxRule := x\<rparr>, komiSpecified, True)) (bind_result (get_string sOrig v) parseTaxRule)
     else if key = ''suicide'' then
       map_result (\<lambda>x. (r\<lparr>multiStoneSuicideLegal := x\<rparr>, komiSpecified, taxSpecified)) (get_bool sOrig v)
     else if key = ''hasButton'' then
       map_result (\<lambda>x. (r\<lparr>rules_hasButton := x\<rparr>, komiSpecified, taxSpecified)) (get_bool sOrig v)
     else if key = ''whiteHandicapBonus'' then
       map_result (\<lambda>x. (r\<lparr>whiteHandicapBonusRule := x\<rparr>, komiSpecified, taxSpecified))
         (bind_result (get_string sOrig v) parseWhiteHandicapBonusRule)
     else if key = ''friendlyPassOk'' then
       map_result (\<lambda>x. (r\<lparr>friendlyPassOk := x\<rparr>, komiSpecified, taxSpecified)) (get_bool sOrig v)
     else if key = ''komi'' then
       (if \<not> allowKomi then Inl (IOError (''Unknown rules option: '' @ key))
        else case v of
          JNumber x \<Rightarrow>
            if x < MIN_USER_KOMI \<or> x > MAX_USER_KOMI \<or> \<not> komiIsIntOrHalfInt x
            then Inl (IOError ''Komi value is not a half-integer or is too extreme'')
            else Inr (r\<lparr>komi := x\<rparr>, True, taxSpecified)
        | JBool x \<Rightarrow> Inr (r\<lparr>komi := (if x then 1 else 0)\<rparr>, True, taxSpecified)
        | _ \<Rightarrow> Inl (IOError (''Could not parse rules: '' @ sOrig)))
     else Inl (IOError (''Unknown rules option: '' @ key)))"

definition parse_json_rules ::
  "(string \<Rightarrow> (string \<times> json_value) list option) \<Rightarrow> string \<Rightarrow> bool \<Rightarrow> error + rules" where
  "parse_json_rules json_parse sOrig allowKomi =
     (case json_parse sOrig of
        None \<Rightarrow> Inl (IOError (''Could not parse rules: '' @ sOrig))
      | Some members \<Rightarrow>
          map_result (\<lambda>(r, komiSpecified, taxSpecified). fill_defaults taxSpecified komiSpecified r)
            (foldR (parse_member sOrig allowKomi) members (getTrompTaylorish, False, False)))"

text \<open>
  \<open>startsWithAndStrip\<close>: whether the prefix matches, and the string without it, trimmed (it is
  trimmed in both cases). \<open>pick_option\<close> tries prefixes in turn on the string as each try leaves it.
\<close>

definition startsWithAndStrip :: "string \<Rightarrow> string \<Rightarrow> bool \<times> string" where
  "startsWithAndStrip str prefix =
     (let matches = (length str \<ge> length prefix \<and> take (length prefix) str = prefix);
          str = (if matches then drop (length prefix) str else str)
      in (matches, trim str))"

fun pick_option :: "string \<Rightarrow> (string \<times> 'a) list \<Rightarrow> ('a \<times> string) option" where
  "pick_option s [] = None"
| "pick_option s ((p, v) # ps) =
     (let (m, s) = startsWithAndStrip s p in if m then Some (v, s) else pick_option s ps)"

text \<open>The options of the legacy format after \<open>komi\<close>, in the order they are tried.\<close>

definition legacy_option ::
  "string \<Rightarrow> rules \<Rightarrow> bool \<Rightarrow> ((rules \<times> bool) \<times> string) option option" where
  "legacy_option s r taxSpecified =
     (case pick_option s [(''ko'', 0 :: nat), (''scoring'', 1), (''score'', 2), (''tax'', 3), (''sui'', 4),
                     (''button'', 5), (''whb'', 6), (''fpok'', 7)] of
        None \<Rightarrow> None
      | Some (k, s) \<Rightarrow> Some
          (if k = 0 then
             pick_option s (map (\<lambda>(p, x). (p, (r\<lparr>koRule := x\<rparr>, taxSpecified)))
               [(''SIMPLE'', KO_SIMPLE), (''POSITIONAL'', KO_POSITIONAL),
                (''SITUATIONAL'', KO_SITUATIONAL), (''SPIGHT'', KO_SPIGHT)])
           else if k = 1 \<or> k = 2 then
             pick_option s (map (\<lambda>(p, x). (p, (r\<lparr>scoringRule := x\<rparr>, taxSpecified)))
               [(''AREA'', SCORING_AREA), (''TERRITORY'', SCORING_TERRITORY)])
           else if k = 3 then
             pick_option s (map (\<lambda>(p, x). (p, (r\<lparr>taxRule := x\<rparr>, True)))
               [(''NONE'', TAX_NONE), (''SEKI'', TAX_SEKI), (''ALL'', TAX_ALL)])
           else if k = 4 then
             pick_option s (map (\<lambda>(p, x). (p, (r\<lparr>multiStoneSuicideLegal := x\<rparr>, taxSpecified)))
               [(''1'', True), (''0'', False)])
           else if k = 5 then
             pick_option s (map (\<lambda>(p, x). (p, (r\<lparr>rules_hasButton := x\<rparr>, taxSpecified)))
               [(''1'', True), (''0'', False)])
           else if k = 6 then
             pick_option s (map (\<lambda>(p, x). (p, (r\<lparr>whiteHandicapBonusRule := x\<rparr>, taxSpecified)))
               [(''0'', WHB_ZERO), (''N-1'', WHB_N_MINUS_ONE), (''N'', WHB_N)])
           else
             pick_option s (map (\<lambda>(p, x). (p, (r\<lparr>friendlyPassOk := x\<rparr>, taxSpecified)))
               [(''1'', True), (''0'', False)])))"

text \<open>One turn of the loop on a non-empty string: the state is the string left, the rules, and the two flags.\<close>

type_synonym parse_state = "string \<times> rules \<times> bool \<times> bool"

definition legacy_step :: "string \<Rightarrow> bool \<Rightarrow> parse_state \<Rightarrow> error + parse_state" where
  "legacy_step sOrig allowKomi = (\<lambda>(s, r, komiSpecified, taxSpecified).
     let fail = Inl (IOError (''Could not parse rules: '' @ sOrig));
         (isKomi, s) = startsWithAndStrip s ''komi''
     in if isKomi then
          (if \<not> allowKomi then fail
           else
             let num = takeWhile (\<lambda>c. \<not> isAlpha c \<and> \<not> isWhitespace_char c) s
             in case tryStringToFloat num of
                  None \<Rightarrow> fail
                | Some k \<Rightarrow>
                    if k > 100000 \<or> k < - 100000 then fail
                    else Inr (trim (drop (length num) s), r\<lparr>komi := k\<rparr>, True, taxSpecified))
        else case legacy_option s r taxSpecified of
          None \<Rightarrow> fail
        | Some None \<Rightarrow> fail
        | Some (Some ((r, tax), s)) \<Rightarrow> Inr (s, r, komiSpecified, tax))"

lemma length_trim: "length (trim s) \<le> length s"
  by (simp add: trim_def trim_delims_def Let_def min_le_iff_disj)

lemma startsWithAndStrip_shorter:
  "startsWithAndStrip s p = (m, s') \<Longrightarrow> length s' \<le> length s \<and> (m \<longrightarrow> p \<noteq> [] \<longrightarrow> length s' < length s)"
  using length_trim [of s] length_trim [of "drop (length p) s"]
  by (cases p; cases s) (auto simp: startsWithAndStrip_def Let_def split: if_splits)

lemma pick_option_shorter:
  "pick_option s ps = Some (v, s') \<Longrightarrow> list_all (\<lambda>p. fst p \<noteq> []) ps \<Longrightarrow> length s' < length s"
proof (induction ps arbitrary: s)
  case Nil
  then show ?case by simp
next
  case (Cons q ps)
  obtain p w where q: "q = (p, w)" by (cases q)
  obtain m t where st: "startsWithAndStrip s p = (m, t)" by (cases "startsWithAndStrip s p")
  note sh = startsWithAndStrip_shorter [OF st]
  show ?case
  proof (cases m)
    case True
    with Cons.prems st q sh show ?thesis by simp
  next
    case False
    with Cons.prems st q have "pick_option t ps = Some (v, s')" "list_all (\<lambda>p. fst p \<noteq> []) ps" by simp_all
    with Cons.IH sh show ?thesis by fastforce
  qed
qed

lemma legacy_option_shorter:
  assumes "legacy_option s r t = Some (Some (x, s'))"
  shows "length s' < length s"
proof -
  let ?ps = "[(''ko'', 0 :: nat), (''scoring'', 1), (''score'', 2), (''tax'', 3), (''sui'', 4),
      (''button'', 5), (''whb'', 6), (''fpok'', 7)]"
  from assms obtain k u where c: "pick_option s ?ps = Some (k, u)"
    by (auto simp only: legacy_option_def split: option.splits)
  have "length u < length s" by (rule pick_option_shorter [OF c]) simp
  moreover have "length s' < length u"
    using assms unfolding legacy_option_def c option.case prod.case option.inject
    by (simp only: split: if_splits) (erule pick_option_shorter; simp)+
  ultimately show ?thesis by simp
qed

lemma legacy_step_shorter:
  assumes "legacy_step sOrig allowKomi (s, r, k, t) = Inr (s', x)"
  shows "length s' < length s"
proof -
  obtain m u where st: "startsWithAndStrip s ''komi'' = (m, u)" by (cases "startsWithAndStrip s ''komi''")
  note sh = startsWithAndStrip_shorter [OF st]
  show ?thesis
  proof (cases m)
    case True
    let ?num = "takeWhile (\<lambda>c. \<not> isAlpha c \<and> \<not> isWhitespace_char c) u"
    have "s' = trim (drop (length ?num) u)"
      using assms st True by (auto simp: legacy_step_def Let_def split: if_splits option.splits)
    then have "length s' \<le> length u" using length_trim [of "drop (length ?num) u"] by simp
    moreover have "length u < length s" using sh True by simp
    ultimately show ?thesis by simp
  next
    case False
    then obtain y where "legacy_option u r t = Some (Some (y, s'))"
      using assms st by (auto simp: legacy_step_def Let_def split: if_splits option.splits)
    from legacy_option_shorter [OF this] sh show ?thesis by simp
  qed
qed

function (sequential) legacy_loop :: "string \<Rightarrow> bool \<Rightarrow> parse_state \<Rightarrow> error + parse_state" where
  "legacy_loop sOrig allowKomi st =
     (if fst st = [] then Inr st
      else case legacy_step sOrig allowKomi st of
        Inl e \<Rightarrow> Inl e
      | Inr st' \<Rightarrow> legacy_loop sOrig allowKomi st')"
  by pat_completeness auto
termination
  by (relation "measure (\<lambda>(_, _, st). length (fst st))") (auto dest: legacy_step_shorter)

declare legacy_loop.simps [simp del]

definition parse_legacy_rules :: "string \<Rightarrow> bool \<Rightarrow> error + rules" where
  "parse_legacy_rules sOrig allowKomi =
     (let s = trim sOrig
      in if s = [] then Inl (IOError (''Could not parse rules: '' @ sOrig))
         else map_result (\<lambda>(_, r, komiSpecified, taxSpecified). fill_defaults taxSpecified komiSpecified r)
                (legacy_loop sOrig allowKomi (s, getTrompTaylorish, False, False)))"

definition parseRulesHelper ::
  "(string \<Rightarrow> (string \<times> json_value) list option) \<Rightarrow> string \<Rightarrow> bool \<Rightarrow> error + rules" where
  "parseRulesHelper json_parse sOrig allowKomi =
     (case named_rules (trim (toLower sOrig)) of
        Some r \<Rightarrow> Inr r
      | None \<Rightarrow>
          if sOrig \<noteq> [] \<and> hd sOrig = CHR 0x7B then parse_json_rules json_parse sOrig allowKomi
          else parse_legacy_rules sOrig allowKomi)"

definition parseRules where
  "parseRules json_parse sOrig = parseRulesHelper json_parse sOrig True"

definition parseRulesWithoutKomi where
  "parseRulesWithoutKomi json_parse sOrig k =
     map_result (\<lambda>r. r\<lparr>komi := k\<rparr>) (parseRulesHelper json_parse sOrig False)"

definition tryParseRules where
  "tryParseRules json_parse sOrig =
     (case parseRulesHelper json_parse sOrig True of Inl _ \<Rightarrow> None | Inr r \<Rightarrow> Some r)"

definition tryParseRulesWithoutKomi where
  "tryParseRulesWithoutKomi json_parse sOrig k =
     (case parseRulesHelper json_parse sOrig False of Inl _ \<Rightarrow> None | Inr r \<Rightarrow> Some (r\<lparr>komi := k\<rparr>))"

text \<open>\<open>toStringNoKomiMaybeNice\<close>: the first of the named rule sets that the rules equal.\<close>

definition nice_names :: "string list" where
  "nice_names = [''TrompTaylor'', ''Japanese'', ''Chinese'', ''Chinese-OGS'', ''AGA'', ''StoneScoring'',
     ''NewZealand'']"

definition toStringNoKomiMaybeNice ::
  "(string \<Rightarrow> (string \<times> json_value) list option) \<Rightarrow> rules \<Rightarrow> error + string" where
  "toStringNoKomiMaybeNice json_parse r =
     (case foldR (\<lambda>n _. case parseRulesHelper json_parse n False of
               Inl e \<Rightarrow> Inl (Inl e)
             | Inr q \<Rightarrow> if equalsIgnoringKomi r q then Inl (Inr n) else Inr ()) nice_names () of
        Inl res \<Rightarrow> res
      | Inr _ \<Rightarrow> Inr (toStringNoKomi r))"

section \<open>Hashes of the rules\<close>

unbundle bit_operations_syntax

definition ZOBRIST_KO_RULE_HASH :: "int \<Rightarrow> hash128" where
  "ZOBRIST_KO_RULE_HASH i =
     [Hash128 0x3cc7e0bf846820f6 0x1fb7fbde5fc6ba4e,
      Hash128 0xcc18f5d47188554a 0x3a63152c23e4128d,
      Hash128 0x3bc55e42b23b35bf 0xc75fa1e615621dcd,
      Hash128 0x5b2096e48241d21b 0x23cc18d4e85cd67f] ! nat i"

definition ZOBRIST_SCORING_RULE_HASH :: "int \<Rightarrow> hash128" where
  "ZOBRIST_SCORING_RULE_HASH i =
     [Hash128 (0x8b3ed7598f901494 XOR 0x72eeccc72c82a5e7) (0x1dfd47ac77bce5f8 XOR 0x0d1265e413623e2b),
      Hash128 (0x381345dc357ec982 XOR 0x125bfe48a41042d5) (0x03ba55c026026b56 XOR 0x061866b5f2b98a79)] ! nat i"

definition ZOBRIST_TAX_RULE_HASH :: "int \<Rightarrow> hash128" where
  "ZOBRIST_TAX_RULE_HASH i =
     [Hash128 0x72eeccc72c82a5e7 0x0d1265e413623e2b,
      Hash128 0x125bfe48a41042d5 0x061866b5f2b98a79,
      Hash128 0xa384ece9d8ee713c 0xfdc9f3b5d1f3732b] ! nat i"

definition ZOBRIST_MULTI_STONE_SUICIDE_HASH :: hash128 where
  "ZOBRIST_MULTI_STONE_SUICIDE_HASH = Hash128 0xf9b475b3bbf35e37 0xefa19d8b1e5b3e5a"

definition ZOBRIST_BUTTON_HASH :: hash128 where
  "ZOBRIST_BUTTON_HASH = Hash128 0xb8b914c9234ece84 0x3d759cddebe29c14"

definition ZOBRIST_FRIENDLY_PASS_OK_HASH :: hash128 where
  "ZOBRIST_FRIENDLY_PASS_OK_HASH = Hash128 0x0113655998ef0a25 0x99c9d04ecd964874"

definition ZOBRIST_PASS_ALIVE_UNDER_SUICIDE_HASH :: hash128 where
  "ZOBRIST_PASS_ALIVE_UNDER_SUICIDE_HASH = Hash128 0x3094018861134017 0x706330a293e266aa"

definition ZOBRIST_EXCLUDE_TERRITORY_ADJ_ATARI_HASH :: hash128 where
  "ZOBRIST_EXCLUDE_TERRITORY_ADJ_ATARI_HASH = Hash128 0x02755c10129903ce 0x786bb096ee2f483d"

end
