(* ===== verification/History.thy ===== *)
theory History
  imports BoardEdit BoardArea Rules "HOL-Library.Product_Lexorder"
begin

unbundle bit_operations_syntax

text \<open>
  The history of a game (\<open>game/boardhistory.h\<close>, \<open>game/boardhistory.cpp\<close>): legality including
  superko and the ko rules of the encore, passes and the end of phases and of the game, and
  scoring. \<open>None\<close> is a failed assertion, or a board operation that does not return. A \<open>float\<close>
  is an exact rational, as in \<open>Rules\<close>.
\<close>

section \<open>Data\<close>

record BoardHistoryModes =
  alwaysComputePassAliveUnderSuicideRules :: bool
  excludeTerritoryAdjacentToAtari :: bool

record EncoreKoCapture =
  ek_posHashBeforeMove :: hash128
  ek_moveLoc :: loc
  ek_movePla :: player

record history =
  hist_rules :: rules
  moveHistory :: "Move list"
  preventEncoreHistory :: "bool list"
  koHashHistory :: "hash128 list"
  firstTurnIdxWithKoHistory :: nat
  initialBoard :: board
  initialPla :: player
  initialEncorePhase :: int
  initialTurnNumber :: int
  assumeMultipleStartingBlackMovesAreHandicap :: bool
  whiteHasMoved :: bool
  overrideNumHandicapStones :: int
  modes :: BoardHistoryModes
  recentBoards :: "int \<Rightarrow> board"
  currentRecentBoardIdx :: int
  presumedNextMovePla :: player
  wasEverOccupiedOrPlayed :: "loc \<Rightarrow> bool"
  superKoBanned :: "loc \<Rightarrow> bool"
  consecutiveEndingPasses :: int
  hashesBeforeBlackPass :: "hash128 list"
  hashesBeforeWhitePass :: "hash128 list"
  encorePhase :: int
  numTurnsThisPhase :: int
  numApproxValidTurnsThisPhase :: int
  numConsecValidTurnsThisGame :: int
  koRecapBlocked :: "loc \<Rightarrow> bool"
  koRecapBlockHash :: hash128
  koCapturesInEncore :: "EncoreKoCapture list"
  secondEncoreStartColors :: "loc \<Rightarrow> color"
  whiteBonusScore :: rat
  whiteHandicapBonusScore :: rat
  hasButton :: bool
  isPastNormalPhaseEnd :: bool
  isGameFinished :: bool
  winner :: player
  finalWhiteMinusBlackScore :: rat
  isScored :: bool
  isNoResult :: bool
  isResignation :: bool

definition NUM_RECENT_BOARDS :: int where "NUM_RECENT_BOARDS = 6"

section \<open>Ko hashes\<close>

definition getKoHash :: "zobrist \<Rightarrow> rules \<Rightarrow> board \<Rightarrow> player \<Rightarrow> int \<Rightarrow> hash128 \<Rightarrow> hash128" where
  "getKoHash Z r b pla phase blockHash =
     (if koRule r = KO_SITUATIONAL \<or> koRule r = KO_SIMPLE \<or> phase > 0
      then hxor (hxor (pos_hash b) (ZOBRIST_PLAYER_HASH Z pla)) blockHash
      else hxor (pos_hash b) blockHash)"

definition getKoHashAfterMoveNonEncore :: "zobrist \<Rightarrow> rules \<Rightarrow> hash128 \<Rightarrow> player \<Rightarrow> hash128" where
  "getKoHashAfterMoveNonEncore Z r posHashAfterMove pla =
     (if koRule r = KO_SITUATIONAL \<or> koRule r = KO_SIMPLE
      then hxor posHashAfterMove (ZOBRIST_PLAYER_HASH Z pla) else posHashAfterMove)"

text \<open>The hash table of \<open>KoHashTable\<close>: the hashes sorted by their low bits, and an index into them.\<close>

record KoHashTable =
  idxTable :: "nat \<Rightarrow> nat"
  koHashHistorySortedByLowBits :: "hash128 list"
  kt_firstTurnIdxWithKoHistory :: nat

definition TABLE_SIZE :: nat where "TABLE_SIZE = 1024"
definition TABLE_MASK :: u64 where "TABLE_MASK = word_of_nat TABLE_SIZE - 1"

definition low_bits :: "hash128 \<Rightarrow> nat" where
  "low_bits h = unat (hash0 h AND TABLE_MASK)"

definition KoHashTable_new :: KoHashTable where
  "KoHashTable_new =
     \<lparr>idxTable = (\<lambda>_. 0), koHashHistorySortedByLowBits = [], kt_firstTurnIdxWithKoHistory = 0\<rparr>"

definition kt_size :: "KoHashTable \<Rightarrow> nat" where
  "kt_size t = length (koHashHistorySortedByLowBits t)"

text \<open>\<open>while(idx < size && low bits of the entry < bits) idx++\<close> for each \<open>bits\<close> in turn\<close>

definition fill_index :: "hash128 list \<Rightarrow> nat \<Rightarrow> nat \<times> (nat \<Rightarrow> nat) \<Rightarrow> nat \<times> (nat \<Rightarrow> nat)" where
  "fill_index hs bits = (\<lambda>(idx, tab).
     let idx = idx + length (takeWhile (\<lambda>h. low_bits h < bits) (drop idx hs)) in (idx, tab(bits := idx)))"

definition kt_recompute :: "hash128 list \<Rightarrow> nat \<Rightarrow> KoHashTable \<Rightarrow> error + KoHashTable" where
  "kt_recompute hashes firstTurn t =
     (let hs = sort_key (\<lambda>h. (low_bits h, h)) hashes
      in if length hs > 1000000000
         then Inl (StringError ''Board history length longer than 1000000000, not supported'')
         else
           let (_, tab) = fold (fill_index hs) [0..<TABLE_SIZE] (0, idxTable t)
           in Inr \<lparr>idxTable = tab, koHashHistorySortedByLowBits = hs, kt_firstTurnIdxWithKoHistory = firstTurn\<rparr>)"

definition recompute :: "history \<Rightarrow> KoHashTable \<Rightarrow> error + KoHashTable" where
  "recompute hist t = kt_recompute (koHashHistory hist) (firstTurnIdxWithKoHistory hist) t"

text \<open>The entries a lookup visits: from the index of the low bits while the low bits agree.\<close>

definition kt_bucket :: "KoHashTable \<Rightarrow> hash128 \<Rightarrow> hash128 list" where
  "kt_bucket t hash =
     (let bits = low_bits hash
      in takeWhile (\<lambda>h. low_bits h = bits) (drop (idxTable t bits) (koHashHistorySortedByLowBits t)))"

definition containsHash :: "KoHashTable \<Rightarrow> hash128 \<Rightarrow> bool" where
  "containsHash t hash = list_ex (\<lambda>h. hash = h) (kt_bucket t hash)"

definition numberOfOccurrencesOfHash :: "KoHashTable \<Rightarrow> hash128 \<Rightarrow> int" where
  "numberOfOccurrencesOfHash t hash =
     fold (\<lambda>h count. if hash = h then count + 1 else count) (kt_bucket t hash) 0"

text \<open>The searches in the history, with the optional table; \<open>None\<close> for a failed assertion.\<close>

definition koHashOccursInHistory :: "history \<Rightarrow> hash128 \<Rightarrow> KoHashTable option \<Rightarrow> bool option" where
  "koHashOccursInHistory hist koHash table =
     (case table of
        Some t \<Rightarrow>
          if firstTurnIdxWithKoHistory hist = kt_firstTurnIdxWithKoHistory t then
            (if firstTurnIdxWithKoHistory hist + length (koHashHistory hist) \<noteq> length (moveHistory hist) + 1
                \<or> \<not> kt_size t \<le> length (koHashHistory hist) then None
             else if containsHash t koHash then Some True
             else Some (list_ex (\<lambda>h. h = koHash) (drop (kt_size t) (koHashHistory hist))))
          else Some (list_ex (\<lambda>h. h = koHash) (koHashHistory hist))
      | None \<Rightarrow> Some (list_ex (\<lambda>h. h = koHash) (koHashHistory hist)))"

definition count_hash :: "hash128 \<Rightarrow> hash128 list \<Rightarrow> int \<Rightarrow> int" where
  "count_hash koHash hs count = fold (\<lambda>h count. if h = koHash then count + 1 else count) hs count"

definition numberOfKoHashOccurrencesInHistory :: "history \<Rightarrow> hash128 \<Rightarrow> KoHashTable option \<Rightarrow> int option" where
  "numberOfKoHashOccurrencesInHistory hist koHash table =
     (case table of
        Some t \<Rightarrow>
          if firstTurnIdxWithKoHistory hist = kt_firstTurnIdxWithKoHistory t then
            (if firstTurnIdxWithKoHistory hist + length (koHashHistory hist) \<noteq> length (moveHistory hist) + 1
                \<or> \<not> kt_size t \<le> length (koHashHistory hist) then None
             else Some (count_hash koHash (drop (kt_size t) (koHashHistory hist))
                          (0 + numberOfOccurrencesOfHash t koHash)))
          else Some (count_hash koHash (koHashHistory hist) 0)
      | None \<Rightarrow> Some (count_hash koHash (koHashHistory hist) 0))"

section \<open>Handicap\<close>

definition numHandicapStonesOnBoardHelper :: "board \<Rightarrow> int \<Rightarrow> int" where
  "numHandicapStonesOnBoardHelper b blackNonPassTurnsToStart =
     (let (nb, nw) = fold (\<lambda>loc (nb, nw).
              if colors b loc = C_BLACK then (nb + 1, nw)
              else if colors b loc = C_WHITE then (nb, nw + 1) else (nb, nw)) (board_locs b) (0, 0 :: int)
      in if nw \<noteq> 0 then 0
         else
           let blackTurnAdvantage = nb + blackNonPassTurnsToStart
           in if blackTurnAdvantage \<le> 1 then 0 else blackTurnAdvantage)"

definition numHandicapStonesOnBoard :: "board \<Rightarrow> int" where
  "numHandicapStonesOnBoard b = numHandicapStonesOnBoardHelper b 0"

text \<open>The loop over the moves in \<open>computeNumHandicapStones\<close>.\<close>

fun count_handicap_moves :: "Move list \<Rightarrow> int \<Rightarrow> int" where
  "count_handicap_moves [] n = n"
| "count_handicap_moves (m # ms) n =
     (if mv_pla m \<noteq> P_BLACK then
        (if ms \<noteq> [] \<and> mv_pla (hd ms) \<noteq> P_BLACK then 0
         else if mv_loc m = PASS_LOC then count_handicap_moves ms n
         else n)
      else if mv_loc m \<noteq> PASS_LOC \<and> mv_loc m \<noteq> NULL_LOC then count_handicap_moves ms (n + 1)
      else count_handicap_moves ms n)"

definition computeNumHandicapStones :: "history \<Rightarrow> int" where
  "computeNumHandicapStones h =
     (if overrideNumHandicapStones h \<ge> 0 then overrideNumHandicapStones h
      else numHandicapStonesOnBoardHelper (initialBoard h)
             (if assumeMultipleStartingBlackMovesAreHandicap h
              then count_handicap_moves (moveHistory h) 0 else 0))"

definition computeWhiteHandicapBonus :: "history \<Rightarrow> int option" where
  "computeWhiteHandicapBonus h =
     (let whb = whiteHandicapBonusRule (hist_rules h)
      in if whb = WHB_ZERO then Some 0
         else
           let n = computeNumHandicapStones h
           in if whb = WHB_N then Some n
              else if whb = WHB_N_MINUS_ONE then Some (if n > 1 then n - 1 else 0)
              else None)"

definition setHandicapBonus :: "history \<Rightarrow> history option" where
  "setHandicapBonus h =
     map_option (\<lambda>n. h\<lparr>whiteHandicapBonusScore := of_int n\<rparr>) (computeWhiteHandicapBonus h)"

section \<open>Starting a history\<close>

text \<open>
  The fields as the constructor leaves them before it calls \<open>clear\<close>, which overwrites the
  boards that are default constructed there.
\<close>

definition history_blank :: "board \<Rightarrow> player \<Rightarrow> rules \<Rightarrow> BoardHistoryModes \<Rightarrow> history" where
  "history_blank b pla r m =
     \<lparr>hist_rules = r, moveHistory = [], preventEncoreHistory = [], koHashHistory = [],
      firstTurnIdxWithKoHistory = 0, initialBoard = b, initialPla = C_EMPTY, initialEncorePhase = 0,
      initialTurnNumber = 0, assumeMultipleStartingBlackMovesAreHandicap = False,
      whiteHasMoved = False, overrideNumHandicapStones = - 1, modes = m,
      recentBoards = (\<lambda>_. b), currentRecentBoardIdx = 0, presumedNextMovePla = pla,
      wasEverOccupiedOrPlayed = (\<lambda>_. False), superKoBanned = (\<lambda>_. False),
      consecutiveEndingPasses = 0, hashesBeforeBlackPass = [], hashesBeforeWhitePass = [],
      encorePhase = 0, numTurnsThisPhase = 0, numApproxValidTurnsThisPhase = 0,
      numConsecValidTurnsThisGame = 0, koRecapBlocked = (\<lambda>_. False),
      koRecapBlockHash = hash128_zero, koCapturesInEncore = [],
      secondEncoreStartColors = (\<lambda>_. C_EMPTY), whiteBonusScore = 0, whiteHandicapBonusScore = 0,
      hasButton = False, isPastNormalPhaseEnd = False, isGameFinished = False, winner = C_EMPTY,
      finalWhiteMinusBlackScore = 0, isScored = False, isNoResult = False, isResignation = False\<rparr>"

text \<open>The score that offsets the stones and captures of the starting position under territory scoring.\<close>

definition clear_bonus :: "board \<Rightarrow> rat" where
  "clear_bonus b =
     (let s = fold (\<lambda>loc s.
                if colors b loc = P_BLACK then s + 1
                else if colors b loc = P_WHITE then s - 1 else s) (board_locs b) 0;
          netWhiteCaptures = numWhiteCaptures b - numBlackCaptures b
      in s - of_int netWhiteCaptures)"

text \<open>The fields that \<open>clear\<close> resets; the button looks at the phase of the game before.\<close>

definition clear_fields :: "board \<Rightarrow> player \<Rightarrow> rules \<Rightarrow> int \<Rightarrow> history \<Rightarrow> history" where
  "clear_fields b pla r ePhase h =
     h\<lparr>hist_rules := r, moveHistory := [], preventEncoreHistory := [], koHashHistory := [],
       firstTurnIdxWithKoHistory := 0, initialBoard := b, initialPla := pla,
       initialEncorePhase := ePhase, initialTurnNumber := 0,
       assumeMultipleStartingBlackMovesAreHandicap := False, whiteHasMoved := False,
       overrideNumHandicapStones := - 1,
       recentBoards := (\<lambda>i. if 0 \<le> i \<and> i < NUM_RECENT_BOARDS then b else recentBoards h i),
       currentRecentBoardIdx := 0, presumedNextMovePla := pla,
       wasEverOccupiedOrPlayed :=
         fold (\<lambda>loc w. w(loc := (colors b loc \<noteq> C_EMPTY))) (board_locs b) (wasEverOccupiedOrPlayed h),
       superKoBanned := (\<lambda>_. False), consecutiveEndingPasses := 0,
       hashesBeforeBlackPass := [], hashesBeforeWhitePass := [], numTurnsThisPhase := 0,
       numApproxValidTurnsThisPhase := 0, numConsecValidTurnsThisGame := 0,
       koRecapBlocked := (\<lambda>_. False), koRecapBlockHash := hash128_zero,
       koCapturesInEncore := [], whiteBonusScore := 0, whiteHandicapBonusScore := 0,
       hasButton := (rules_hasButton r \<and> encorePhase h = 0),
       isPastNormalPhaseEnd := False, isGameFinished := False, winner := C_EMPTY,
       finalWhiteMinusBlackScore := 0, isScored := False, isNoResult := False,
       isResignation := False, encorePhase := ePhase\<rparr>"

definition clear :: "zobrist \<Rightarrow> board \<Rightarrow> player \<Rightarrow> rules \<Rightarrow> int \<Rightarrow> history \<Rightarrow> history option" where
  "clear Z b pla r ePhase h =
     (let h = clear_fields b pla r ePhase h
      in if \<not> (0 \<le> ePhase \<and> ePhase \<le> 2) then None
         else if ePhase > 0 \<and> scoringRule r \<noteq> SCORING_TERRITORY then None
         else
           let h = h\<lparr>secondEncoreStartColors := (if ePhase = 2 then colors b else (\<lambda>_. C_EMPTY))\<rparr>;
               h = h\<lparr>koHashHistory := koHashHistory h @ [getKoHash Z r b pla (encorePhase h) (koRecapBlockHash h)]\<rparr>;
               h = (if scoringRule r = SCORING_TERRITORY
                    then h\<lparr>whiteBonusScore := whiteBonusScore h + clear_bonus b\<rparr> else h)
           in setHandicapBonus h)"

definition BoardHistory_new :: "zobrist \<Rightarrow> board \<Rightarrow> player \<Rightarrow> rules \<Rightarrow> int \<Rightarrow> BoardHistoryModes \<Rightarrow> history option" where
  "BoardHistory_new Z b pla r ePhase m = clear Z b pla r ePhase (history_blank b pla r m)"

definition setInitialTurnNumber :: "int \<Rightarrow> history \<Rightarrow> history" where
  "setInitialTurnNumber n h = h\<lparr>initialTurnNumber := n\<rparr>"

definition setAssumeMultipleStartingBlackMovesAreHandicap :: "bool \<Rightarrow> history \<Rightarrow> history option" where
  "setAssumeMultipleStartingBlackMovesAreHandicap b h =
     setHandicapBonus (h\<lparr>assumeMultipleStartingBlackMovesAreHandicap := b\<rparr>)"

definition setOverrideNumHandicapStones :: "int \<Rightarrow> history \<Rightarrow> history option" where
  "setOverrideNumHandicapStones n h = setHandicapBonus (h\<lparr>overrideNumHandicapStones := n\<rparr>)"

definition setModes :: "BoardHistoryModes \<Rightarrow> history \<Rightarrow> history" where
  "setModes m h = h\<lparr>modes := m\<rparr>"

definition suicideLegalForPassAlive :: "history \<Rightarrow> bool" where
  "suicideLegalForPassAlive h \<longleftrightarrow>
     multiStoneSuicideLegal (hist_rules h) \<or> alwaysComputePassAliveUnderSuicideRules (modes h)"

definition copyToInitial :: "zobrist \<Rightarrow> history \<Rightarrow> history option" where
  "copyToInitial Z h =
     Option.bind (BoardHistory_new Z (initialBoard h) (initialPla h) (hist_rules h)
                    (initialEncorePhase h) (modes h)) (\<lambda>hist.
       let hist = setInitialTurnNumber (initialTurnNumber h) hist
       in Option.bind (setAssumeMultipleStartingBlackMovesAreHandicap
                         (assumeMultipleStartingBlackMovesAreHandicap h) hist)
            (setOverrideNumHandicapStones (overrideNumHandicapStones h)))"

definition getRecentBoard :: "history \<Rightarrow> int \<Rightarrow> board option" where
  "getRecentBoard h numMovesAgo =
     (if \<not> (numMovesAgo \<ge> 0 \<and> numMovesAgo < NUM_RECENT_BOARDS) then None
      else Some (recentBoards h ((currentRecentBoardIdx h - numMovesAgo + NUM_RECENT_BOARDS) mod NUM_RECENT_BOARDS)))"

end
