(* ===== verification/Scoring.thy ===== *)
theory Scoring
  imports History
begin

text \<open>
  Scoring and the end of the game (\<open>game/boardhistory.cpp\<close>). Where the code fills the array
  \<open>area\<close> of the caller, the model returns it with the score.
\<close>

definition whiteKomiAdjustmentForDraws :: "history \<Rightarrow> rat \<Rightarrow> rat" where
  "whiteKomiAdjustmentForDraws h drawEquivalentWinsForWhite =
     (if gameResultWillBeInteger (hist_rules h) then drawEquivalentWinsForWhite - 1 / 2 else 0)"

definition currentSelfKomi :: "history \<Rightarrow> player \<Rightarrow> rat \<Rightarrow> rat option" where
  "currentSelfKomi h pla drawEquivalentWinsForWhite =
     (let whiteKomiAdjusted = whiteBonusScore h + whiteHandicapBonusScore h + komi (hist_rules h)
                              + whiteKomiAdjustmentForDraws h drawEquivalentWinsForWhite
      in if pla = P_WHITE then Some whiteKomiAdjusted
         else if pla = P_BLACK then Some (- whiteKomiAdjusted)
         else None)"

text \<open>\<open>if(area[loc] == C_WHITE) score += 1; else if(area[loc] == C_BLACK) score -= 1;\<close>\<close>

definition sum_area :: "board \<Rightarrow> (loc \<Rightarrow> color) \<Rightarrow> int \<Rightarrow> int" where
  "sum_area b area score =
     fold (\<lambda>loc score. if area loc = C_WHITE then score + 1
                       else if area loc = C_BLACK then score - 1 else score) (board_locs b) score"

definition countAreaScoreWhiteMinusBlack :: "history \<Rightarrow> board \<Rightarrow> (int \<times> (loc \<Rightarrow> color)) option" where
  "countAreaScoreWhiteMinusBlack h b =
     (let tax = taxRule (hist_rules h)
      in if tax = TAX_NONE then
           Option.bind (calculateArea b True True True (suicideLegalForPassAlive h))
             (\<lambda>area. Some (sum_area b area 0, area))
         else if tax = TAX_SEKI \<or> tax = TAX_ALL then
           Option.bind (calculateIndependentLifeArea b False True
                          (excludeTerritoryAdjacentToAtari (modes h)) (suicideLegalForPassAlive h))
             (\<lambda>(area, count). Some (sum_area b area (if tax = TAX_ALL then 0 - 2 * count else 0), area))
         else None)"

text \<open>One point of the territory count; it also colours the points it scores.\<close>

definition territory_point ::
  "history \<Rightarrow> board \<Rightarrow> loc \<Rightarrow> int \<times> (loc \<Rightarrow> color) \<Rightarrow> int \<times> (loc \<Rightarrow> color)" where
  "territory_point h b loc = (\<lambda>(score, area).
     if area loc = C_WHITE then (score + 1, area)
     else if area loc = C_BLACK then (score - 1, area)
     else
       let (score, area) =
             (if colors b loc = C_WHITE \<and> (encorePhase h < 2 \<or> secondEncoreStartColors h loc = C_WHITE)
              then (score + 1, area(loc := C_WHITE)) else (score, area))
       in if colors b loc = C_BLACK \<and> (encorePhase h < 2 \<or> secondEncoreStartColors h loc = C_BLACK)
          then (score - 1, area(loc := C_BLACK)) else (score, area))"

definition countTerritoryAreaScoreWhiteMinusBlack :: "history \<Rightarrow> board \<Rightarrow> (int \<times> (loc \<Rightarrow> color)) option" where
  "countTerritoryAreaScoreWhiteMinusBlack h b =
     (let tax = taxRule (hist_rules h)
      in if tax \<noteq> TAX_NONE \<and> tax \<noteq> TAX_SEKI \<and> tax \<noteq> TAX_ALL then None
         else
           Option.bind (calculateIndependentLifeArea b (tax = TAX_NONE) False
                          (excludeTerritoryAdjacentToAtari (modes h)) (suicideLegalForPassAlive h))
             (\<lambda>(area, count).
                let (score, area) = fold (territory_point h b) (board_locs b) (0, area)
                in Some (if tax = TAX_ALL then score - 2 * count else score, area)))"

definition setFinalScoreAndWinner :: "rat \<Rightarrow> history \<Rightarrow> history" where
  "setFinalScoreAndWinner score h =
     h\<lparr>finalWhiteMinusBlackScore := score,
       winner := (if score > 0 then C_WHITE else if score < 0 then C_BLACK else C_EMPTY)\<rparr>"

definition setKomi :: "rat \<Rightarrow> history \<Rightarrow> history" where
  "setKomi newKomi h =
     (let oldKomi = komi (hist_rules h);
          h = h\<lparr>hist_rules := (hist_rules h)\<lparr>komi := newKomi\<rparr>\<rparr>
      in if isGameFinished h \<and> isScored h
         then setFinalScoreAndWinner (finalWhiteMinusBlackScore h - oldKomi + newKomi) h else h)"

definition score_now :: "history \<Rightarrow> board \<Rightarrow> (int \<times> (loc \<Rightarrow> color)) option" where
  "score_now h b =
     (if scoringRule (hist_rules h) = SCORING_AREA then countAreaScoreWhiteMinusBlack h b
      else if scoringRule (hist_rules h) = SCORING_TERRITORY then countTerritoryAreaScoreWhiteMinusBlack h b
      else None)"

definition getAreaNow :: "history \<Rightarrow> board \<Rightarrow> (loc \<Rightarrow> color) option" where
  "getAreaNow h b = map_option snd (score_now h b)"

text \<open>The button goes to the player to move; then the score and the flags of a scored game.\<close>

definition take_button :: "history \<Rightarrow> history" where
  "take_button h =
     (if hasButton h
      then h\<lparr>hasButton := False,
             whiteBonusScore := whiteBonusScore h + (if presumedNextMovePla h = P_WHITE then 1 / 2 else - (1 / 2))\<rparr>
      else h)"

definition finish_scored :: "int \<Rightarrow> history \<Rightarrow> history" where
  "finish_scored boardScore h =
     (let h = setFinalScoreAndWinner
                (of_int boardScore + whiteBonusScore h + whiteHandicapBonusScore h + komi (hist_rules h)) h
      in h\<lparr>isScored := True, isNoResult := False, isResignation := False, isGameFinished := True,
           isPastNormalPhaseEnd := False\<rparr>)"

definition endAndScoreGameNow :: "board \<Rightarrow> history \<Rightarrow> (history \<times> (loc \<Rightarrow> color)) option" where
  "endAndScoreGameNow b h =
     Option.bind (score_now h b) (\<lambda>(boardScore, area). Some (finish_scored boardScore (take_button h), area))"

text \<open>\<open>endGameIfAllPassAlive\<close>: the scan returns at the first point that is nobody's.\<close>

definition endGameIfAllPassAlive :: "board \<Rightarrow> history \<Rightarrow> history option" where
  "endGameIfAllPassAlive b h =
     Option.bind (calculateArea b False False False (suicideLegalForPassAlive h)) (\<lambda>area.
       case foldR (\<lambda>loc boardScore.
              if area loc = C_WHITE then Inr (boardScore + 1)
              else if area loc = C_BLACK then Inr (boardScore - 1)
              else Inl ()) (board_locs b) 0 of
         Inl _ \<Rightarrow> Some h
       | Inr boardScore \<Rightarrow>
           if taxRule (hist_rules h) = TAX_ALL then map_option fst (endAndScoreGameNow b h)
           else Some (finish_scored boardScore (take_button h)))"

definition setWinnerByResignation :: "player \<Rightarrow> history \<Rightarrow> history" where
  "setWinnerByResignation pla h =
     h\<lparr>isGameFinished := True, isPastNormalPhaseEnd := False, isScored := False, isNoResult := False,
       isResignation := True, winner := pla, finalWhiteMinusBlackScore := 0\<rparr>"

end
