(* ===== verification/Moves.thy ===== *)
theory Moves
  imports Scoring
begin

unbundle bit_operations_syntax

text \<open>
  Legality and the making of moves in a game (\<open>game/boardhistory.cpp\<close>), the situation hashes,
  and the graph hash of a game (\<open>game/graphhash.cpp\<close>).
\<close>

section \<open>Legality\<close>

definition setKoRecapBlocked :: "zobrist \<Rightarrow> loc \<Rightarrow> bool \<Rightarrow> history \<Rightarrow> history" where
  "setKoRecapBlocked Z loc v h =
     (if koRecapBlocked h loc \<noteq> v
      then h\<lparr>koRecapBlocked := (koRecapBlocked h)(loc := v),
             koRecapBlockHash := hxor (koRecapBlockHash h)
               (hxor (ZOBRIST_KO_MARK_HASH Z loc C_BLACK) (ZOBRIST_KO_MARK_HASH Z loc C_WHITE))\<rparr>
      else h)"

text \<open>The two ways a move of the encore is a pass for ko.\<close>

definition blocked_stone :: "history \<Rightarrow> board \<Rightarrow> loc \<Rightarrow> player \<Rightarrow> bool" where
  "blocked_stone h b moveLoc movePla \<longleftrightarrow>
     colors b moveLoc = getOpp movePla \<and> koRecapBlocked h moveLoc \<and>
     getChainSize b moveLoc = 1 \<and> getNumLiberties b moveLoc = 1"

definition blocked_capture :: "history \<Rightarrow> board \<Rightarrow> loc \<Rightarrow> player \<Rightarrow> bool" where
  "blocked_capture h b moveLoc movePla \<longleftrightarrow>
     (let koCaptureLoc = getKoCaptureLoc b moveLoc movePla
      in koCaptureLoc \<noteq> NULL_LOC \<and> koRecapBlocked h koCaptureLoc \<and> colors b koCaptureLoc = getOpp movePla)"

definition isPassForKo :: "history \<Rightarrow> board \<Rightarrow> loc \<Rightarrow> player \<Rightarrow> bool" where
  "isPassForKo h b moveLoc movePla \<longleftrightarrow>
     encorePhase h > 0 \<and> moveLoc \<ge> 0 \<and> moveLoc < MAX_ARR_SIZE \<and> moveLoc \<noteq> PASS_LOC \<and>
     (blocked_stone h b moveLoc movePla \<or> blocked_capture h b moveLoc movePla)"

definition hist_isLegal :: "history \<Rightarrow> board \<Rightarrow> loc \<Rightarrow> player \<Rightarrow> bool" where
  "hist_isLegal h b moveLoc movePla =
     (if movePla \<noteq> presumedNextMovePla h then False
      else if encorePhase h > 0 \<and> moveLoc \<ge> 0 \<and> moveLoc < MAX_ARR_SIZE \<and> moveLoc \<noteq> PASS_LOC \<and>
              (blocked_stone h b moveLoc movePla \<or> blocked_capture h b moveLoc movePla) then True
      else if \<not> encorePhase h > 0 \<and> isKoBanned b moveLoc then False
      else if \<not> isLegalIgnoringKo b moveLoc movePla (multiStoneSuicideLegal (hist_rules h)) then False
      else if superKoBanned h moveLoc then False
      else True)"

definition getCurrentTurnNumber :: "history \<Rightarrow> int" where
  "getCurrentTurnNumber h = max 0 (initialTurnNumber h + int (length (moveHistory h)))"

section \<open>Passes and the ends of phases\<close>

definition newConsecutiveEndingPassesAfterPass :: "history \<Rightarrow> int option" where
  "newConsecutiveEndingPassesAfterPass h =
     (if encorePhase h > 0 then Some (consecutiveEndingPasses h + 1)
      else
        let r = koRule (hist_rules h)
        in if r = KO_SIMPLE \<or> r = KO_POSITIONAL \<or> r = KO_SITUATIONAL then Some (consecutiveEndingPasses h + 1)
           else if r = KO_SPIGHT then Some 0
           else None)"

definition phaseHasSpightlikeEndingAndPassHistoryClearing :: "history \<Rightarrow> bool" where
  "phaseHasSpightlikeEndingAndPassHistoryClearing h \<longleftrightarrow>
     encorePhase h > 0 \<or> koRule (hist_rules h) = KO_SIMPLE \<or> koRule (hist_rules h) = KO_SPIGHT"

definition wouldBeSpightlikeEndingPass :: "history \<Rightarrow> player \<Rightarrow> hash128 \<Rightarrow> bool" where
  "wouldBeSpightlikeEndingPass h movePla koHashBeforeMove \<longleftrightarrow>
     phaseHasSpightlikeEndingAndPassHistoryClearing h \<and>
     ((movePla = P_BLACK \<and> koHashBeforeMove \<in> set (hashesBeforeBlackPass h)) \<or>
      (movePla = P_WHITE \<and> koHashBeforeMove \<in> set (hashesBeforeWhitePass h)))"

definition passWouldEndPhase :: "zobrist \<Rightarrow> history \<Rightarrow> board \<Rightarrow> player \<Rightarrow> bool option" where
  "passWouldEndPhase Z h b movePla =
     map_option (\<lambda>n. n \<ge> 2 \<or> wouldBeSpightlikeEndingPass h movePla
         (getKoHash Z (hist_rules h) b movePla (encorePhase h) (koRecapBlockHash h)))
       (newConsecutiveEndingPassesAfterPass h)"

definition isFinalPhase :: "history \<Rightarrow> bool" where
  "isFinalPhase h \<longleftrightarrow>
     scoringRule (hist_rules h) = SCORING_AREA \<or>
     (scoringRule (hist_rules h) = SCORING_TERRITORY \<and> encorePhase h \<ge> 2)"

definition passWouldEndGame :: "zobrist \<Rightarrow> history \<Rightarrow> board \<Rightarrow> player \<Rightarrow> bool option" where
  "passWouldEndGame Z h b movePla =
     map_option (\<lambda>v. v \<and> (scoringRule (hist_rules h) = SCORING_AREA \<or>
         (scoringRule (hist_rules h) = SCORING_TERRITORY \<and> encorePhase h \<ge> 2)))
       (passWouldEndPhase Z h b movePla)"

definition shouldSuppressEndGameFromFriendlyPass :: "zobrist \<Rightarrow> history \<Rightarrow> board \<Rightarrow> player \<Rightarrow> bool option" where
  "shouldSuppressEndGameFromFriendlyPass Z h b movePla =
     (if \<not> (friendlyPassOk (hist_rules h) \<and> scoringRule (hist_rules h) = SCORING_AREA) then Some False
      else map_option (\<lambda>n. n = 2 \<and> \<not> wouldBeSpightlikeEndingPass h movePla
               (getKoHash Z (hist_rules h) b movePla (encorePhase h) (koRecapBlockHash h)))
             (newConsecutiveEndingPassesAfterPass h))"

section \<open>Making a move\<close>

text \<open>\<open>numApproxValidTurnsThisPhase\<close> and \<open>numConsecValidTurnsThisGame\<close> capped at one.\<close>

definition cap_valid_turns :: "history \<Rightarrow> history" where
  "cap_valid_turns h =
     h\<lparr>numApproxValidTurnsThisPhase := min (numApproxValidTurnsThisPhase h) 1,
       numConsecValidTurnsThisGame := min (numConsecValidTurnsThisGame h) 1\<rparr>"

definition clear_result :: "history \<Rightarrow> history" where
  "clear_result h =
     h\<lparr>isGameFinished := False, isPastNormalPhaseEnd := False, winner := C_EMPTY,
       finalWhiteMinusBlackScore := 0, isScored := False, isNoResult := False, isResignation := False\<rparr>"

text \<open>Passes and the button; the second component is \<open>isSpightlikeEndingPass\<close>.\<close>

definition update_passes ::
  "zobrist \<Rightarrow> board \<Rightarrow> loc \<Rightarrow> player \<Rightarrow> history \<Rightarrow> (history \<times> bool) option" where
  "update_passes Z b moveLoc movePla h =
     (if moveLoc \<noteq> PASS_LOC then Some (h\<lparr>consecutiveEndingPasses := 0\<rparr>, False)
      else if hasButton h then
        (if \<not> (encorePhase h = 0 \<and> rules_hasButton (hist_rules h)) then None
         else Some (h\<lparr>hasButton := False,
                      whiteBonusScore := whiteBonusScore h + (if movePla = P_WHITE then 1 / 2 else - (1 / 2)),
                      consecutiveEndingPasses := 0, hashesBeforeBlackPass := [],
                      hashesBeforeWhitePass := [], koHashHistory := [],
                      firstTurnIdxWithKoHistory := length (moveHistory h) + 1\<rparr>, False))
      else
        let h = (if phaseHasSpightlikeEndingAndPassHistoryClearing h
                 then h\<lparr>koHashHistory := [], firstTurnIdxWithKoHistory := length (moveHistory h) + 1\<rparr> else h);
            koHashBeforeThisMove = getKoHash Z (hist_rules h) b movePla (encorePhase h) (koRecapBlockHash h)
        in Option.bind (newConsecutiveEndingPassesAfterPass h) (\<lambda>n.
             let h = h\<lparr>consecutiveEndingPasses := n\<rparr>;
                 spight = wouldBeSpightlikeEndingPass h movePla koHashBeforeThisMove
             in if movePla = P_BLACK
                then Some (h\<lparr>hashesBeforeBlackPass := hashesBeforeBlackPass h @ [koHashBeforeThisMove]\<rparr>, spight)
                else if movePla = P_WHITE
                then Some (h\<lparr>hashesBeforeWhitePass := hashesBeforeWhitePass h @ [koHashBeforeThisMove]\<rparr>, spight)
                else None))"

text \<open>Pass-for-ko moves of the encore; the last component is \<open>wasPassForKo\<close>.\<close>

definition try_pass_for_ko ::
  "zobrist \<Rightarrow> loc \<Rightarrow> player \<Rightarrow> board \<times> history \<Rightarrow> board \<times> history \<times> bool" where
  "try_pass_for_ko Z moveLoc movePla = (\<lambda>(b, h).
     if encorePhase h > 0 \<and> moveLoc \<noteq> PASS_LOC then
       (if colors b moveLoc = getOpp movePla \<and> koRecapBlocked h moveLoc
        then (clearSimpleKoLoc b, setKoRecapBlocked Z moveLoc False h, True)
        else if blocked_capture h b moveLoc movePla
        then (clearSimpleKoLoc b, setKoRecapBlocked Z (getKoCaptureLoc b moveLoc movePla) False h, True)
        else (b, h, False))
     else (b, h, False))"

text \<open>A regular move on the board, and the ko recapture blocks of the encore.\<close>

definition play_regular ::
  "zobrist \<Rightarrow> hash128 \<Rightarrow> loc \<Rightarrow> player \<Rightarrow> board \<times> history \<Rightarrow> (board \<times> history) option" where
  "play_regular Z posHashBeforeMove moveLoc movePla = (\<lambda>(b, h).
     Option.bind (playMoveAssumeLegal Z moveLoc movePla b) (\<lambda>b.
       Some (if encorePhase h > 0 then
               (let (b, h) =
                      (if ko_loc b \<noteq> NULL_LOC then
                         (let h = setKoRecapBlocked Z moveLoc True h;
                              h = h\<lparr>koCapturesInEncore := koCapturesInEncore h @
                                [\<lparr>ek_posHashBeforeMove = posHashBeforeMove, ek_moveLoc = moveLoc, ek_movePla = movePla\<rparr>]\<rparr>
                          in (clearSimpleKoLoc b, h))
                       else (b, h));
                    h = fold (\<lambda>loc h. if colors b loc = C_EMPTY \<and> koRecapBlocked h loc
                                      then setKoRecapBlocked Z loc False h else h) (board_locs b) h
                in (b, h))
             else (b, h))))"

text \<open>Recording the move.\<close>

definition record_move ::
  "zobrist \<Rightarrow> board \<Rightarrow> loc \<Rightarrow> player \<Rightarrow> bool \<Rightarrow> bool \<Rightarrow> history \<Rightarrow> history" where
  "record_move Z b moveLoc movePla preventEncore moveIsIllegal h =
     (let idx = (currentRecentBoardIdx h + 1) mod NUM_RECENT_BOARDS;
          h = h\<lparr>currentRecentBoardIdx := idx, recentBoards := (recentBoards h)(idx := b)\<rparr>;
          koHashAfterThisMove =
            getKoHash Z (hist_rules h) b (getOpp movePla) (encorePhase h) (koRecapBlockHash h);
          h = h\<lparr>koHashHistory := koHashHistory h @ [koHashAfterThisMove],
                moveHistory := moveHistory h @ [\<lparr>mv_loc = moveLoc, mv_pla = movePla\<rparr>],
                preventEncoreHistory := preventEncoreHistory h @ [preventEncore],
                numTurnsThisPhase := numTurnsThisPhase h + 1,
                numApproxValidTurnsThisPhase := numApproxValidTurnsThisPhase h + 1,
                numConsecValidTurnsThisGame := numConsecValidTurnsThisGame h + 1,
                presumedNextMovePla := getOpp movePla\<rparr>;
          h = (if moveIsIllegal then h\<lparr>numConsecValidTurnsThisGame := 0\<rparr> else h)
      in if moveLoc \<noteq> PASS_LOC
         then h\<lparr>wasEverOccupiedOrPlayed := (wasEverOccupiedOrPlayed h)(moveLoc := True)\<rparr> else h)"

text \<open>The superko ban of one point for the next player in the main phase.\<close>

definition superko_point ::
  "zobrist \<Rightarrow> board \<Rightarrow> player \<Rightarrow> KoHashTable option \<Rightarrow> loc \<Rightarrow> history \<Rightarrow> history option" where
  "superko_point Z b nextPla table loc h =
     (let ban = (\<lambda>v. h\<lparr>superKoBanned := (superKoBanned h)(loc := v)\<rparr>)
      in if colors b loc \<noteq> C_EMPTY then Some (ban False)
         else if \<not> wasEverOccupiedOrPlayed h loc \<and> \<not> isSuicide b loc nextPla then Some (ban False)
         else if isIllegalSuicide b loc nextPla (multiStoneSuicideLegal (hist_rules h)) \<or> loc = ko_loc b
         then Some (ban False)
         else
           Option.bind (getPosHashAfterMove Z b loc nextPla) (\<lambda>posHashAfterMove.
             let koHashAfterMove = getKoHashAfterMoveNonEncore Z (hist_rules h) posHashAfterMove (getOpp nextPla)
             in map_option ban (koHashOccursInHistory h koHashAfterMove table)))"

definition update_superko ::
  "zobrist \<Rightarrow> board \<Rightarrow> player \<Rightarrow> KoHashTable option \<Rightarrow> history \<Rightarrow> history option" where
  "update_superko Z b nextPla table h =
     (if encorePhase h \<le> 0 \<and> koRule (hist_rules h) \<noteq> KO_SIMPLE then
        (if koRecapBlockHash h \<noteq> hash128_zero then None
         else foldM (superko_point Z b nextPla table) (board_locs b) h)
      else if encorePhase h > 0 then
        Some (h\<lparr>superKoBanned :=
          fold (\<lambda>ekc banned. if ek_posHashBeforeMove ekc = pos_hash b \<and> ek_movePla ekc = nextPla
                             then banned(ek_moveLoc ekc := True) else banned)
            (koCapturesInEncore h) (\<lambda>_. False)\<rparr>)
      else Some h)"

text \<open>Bonus points for moves under territory scoring, and the handicap bonus.\<close>

definition update_bonus :: "loc \<Rightarrow> player \<Rightarrow> bool \<Rightarrow> history \<Rightarrow> history option" where
  "update_bonus moveLoc movePla wasPassForKo h =
     Option.bind
       (if scoringRule (hist_rules h) = SCORING_TERRITORY \<and> encorePhase h \<le> 1 \<and> moveLoc \<noteq> PASS_LOC \<and> \<not> wasPassForKo
        then (if movePla = P_BLACK then Some (h\<lparr>whiteBonusScore := whiteBonusScore h + 1\<rparr>)
              else if movePla = P_WHITE then Some (h\<lparr>whiteBonusScore := whiteBonusScore h - 1\<rparr>)
              else None)
        else Some h)
       (\<lambda>h. let h = (if movePla = P_WHITE \<and> moveLoc \<noteq> PASS_LOC then h\<lparr>whiteHasMoved := True\<rparr> else h)
            in if assumeMultipleStartingBlackMovesAreHandicap h \<and> \<not> whiteHasMoved h \<and> movePla = P_BLACK
                  \<and> whiteHandicapBonusRule (hist_rules h) \<noteq> WHB_ZERO
               then setHandicapBonus h else Some h)"

definition next_encore :: "zobrist \<Rightarrow> board \<Rightarrow> player \<Rightarrow> history \<Rightarrow> history" where
  "next_encore Z b movePla h =
     (let h = h\<lparr>encorePhase := encorePhase h + 1, numTurnsThisPhase := 0, numApproxValidTurnsThisPhase := 0\<rparr>;
          h = (if encorePhase h = 2 then h\<lparr>secondEncoreStartColors := colors b\<rparr> else h);
          h = h\<lparr>superKoBanned := (\<lambda>_. False), consecutiveEndingPasses := 0, hashesBeforeBlackPass := [],
                hashesBeforeWhitePass := [], koRecapBlocked := (\<lambda>_. False),
                koRecapBlockHash := hash128_zero, koCapturesInEncore := []\<rparr>
      in h\<lparr>koHashHistory := [getKoHash Z (hist_rules h) b (getOpp movePla) (encorePhase h) (koRecapBlockHash h)],
           firstTurnIdxWithKoHistory := length (moveHistory h)\<rparr>)"

definition update_phase ::
  "zobrist \<Rightarrow> board \<Rightarrow> player \<Rightarrow> bool \<Rightarrow> bool \<Rightarrow> history \<Rightarrow> history option" where
  "update_phase Z b movePla preventEncore isSpightlikeEndingPass h =
     (if consecutiveEndingPasses h \<ge> 2 \<or> isSpightlikeEndingPass then
        (if scoringRule (hist_rules h) = SCORING_AREA then
           (if \<not> encorePhase h \<le> 0 then None else map_option fst (endAndScoreGameNow b h))
         else if scoringRule (hist_rules h) = SCORING_TERRITORY then
           (if encorePhase h \<ge> 2 then map_option fst (endAndScoreGameNow b h)
            else if preventEncore then Some (cap_valid_turns (h\<lparr>isPastNormalPhaseEnd := True\<rparr>))
            else Some (next_encore Z b movePla h))
         else None)
      else Some h)"

definition update_cycles :: "loc \<Rightarrow> KoHashTable option \<Rightarrow> history \<Rightarrow> history option" where
  "update_cycles moveLoc table h =
     (if moveLoc \<noteq> PASS_LOC \<and> (encorePhase h > 0 \<or> koRule (hist_rules h) = KO_SIMPLE) then
        Option.bind (numberOfKoHashOccurrencesInHistory h (koHashHistory h ! (length (koHashHistory h) - 1)) table)
          (\<lambda>n. Some (if n \<ge> 3 then h\<lparr>isNoResult := True, isGameFinished := True\<rparr> else h))
      else Some h)"

definition makeBoardMoveAssumeLegal ::
  "zobrist \<Rightarrow> loc \<Rightarrow> player \<Rightarrow> KoHashTable option \<Rightarrow> bool \<Rightarrow> board \<times> history \<Rightarrow> (board \<times> history) option" where
  "makeBoardMoveAssumeLegal Z moveLoc movePla table preventEncore = (\<lambda>(b, h).
     let posHashBeforeMove = pos_hash b;
         h = (if isGameFinished h \<or> isPastNormalPhaseEnd h then cap_valid_turns h else h);
         moveIsIllegal = (\<not> hist_isLegal h b moveLoc movePla);
         h = clear_result h
     in Option.bind (update_passes Z b moveLoc movePla h) (\<lambda>(h, spight).
        let (b, h, wasPassForKo) = try_pass_for_ko Z moveLoc movePla (b, h)
        in Option.bind (if wasPassForKo then Some (b, h)
                        else play_regular Z posHashBeforeMove moveLoc movePla (b, h)) (\<lambda>(b, h).
           let h = record_move Z b moveLoc movePla preventEncore moveIsIllegal h
           in Option.bind (update_superko Z b (getOpp movePla) table h) (\<lambda>h.
              Option.bind (update_bonus moveLoc movePla wasPassForKo h) (\<lambda>h.
              Option.bind (update_phase Z b movePla preventEncore spight h) (\<lambda>h.
              Option.bind (update_cycles moveLoc table h) (\<lambda>h. Some (b, h))))))))"

definition isLegalTolerant :: "history \<Rightarrow> board \<Rightarrow> loc \<Rightarrow> player \<Rightarrow> bool" where
  "isLegalTolerant h b moveLoc movePla =
     (if movePla \<noteq> P_BLACK \<and> movePla \<noteq> P_WHITE then False
      else if \<not> isPassForKo h b moveLoc movePla \<and> \<not> isLegalIgnoringKo b moveLoc movePla True then False
      else True)"

definition makeBoardMoveTolerant ::
  "zobrist \<Rightarrow> loc \<Rightarrow> player \<Rightarrow> board \<times> history \<Rightarrow> ((board \<times> history) \<times> bool) option" where
  "makeBoardMoveTolerant Z moveLoc movePla = (\<lambda>(b, h).
     if movePla \<noteq> P_BLACK \<and> movePla \<noteq> P_WHITE then Some ((b, h), False)
     else if \<not> isPassForKo h b moveLoc movePla \<and> \<not> isLegalIgnoringKo b moveLoc movePla True
     then Some ((b, h), False)
     else Option.bind (makeBoardMoveAssumeLegal Z moveLoc movePla None False (b, h)) (\<lambda>s. Some (s, True)))"

text \<open>The overload with \<open>preventEncore\<close>, with its own test of the player.\<close>

definition makeBoardMoveTolerantPreventEncore ::
  "zobrist \<Rightarrow> loc \<Rightarrow> player \<Rightarrow> bool \<Rightarrow> board \<times> history \<Rightarrow> ((board \<times> history) \<times> bool) option" where
  "makeBoardMoveTolerantPreventEncore Z moveLoc movePla preventEncore = (\<lambda>(b, h).
     if movePla \<noteq> P_BLACK \<and> movePla = presumedNextMovePla h \<and> movePla \<noteq> P_WHITE then Some ((b, h), False)
     else if \<not> isPassForKo h b moveLoc movePla \<and> \<not> isLegalIgnoringKo b moveLoc movePla True
     then Some ((b, h), False)
     else Option.bind (makeBoardMoveAssumeLegal Z moveLoc movePla None preventEncore (b, h)) (\<lambda>s. Some (s, True)))"

section \<open>Who moves first\<close>

definition count_moves :: "(Move \<Rightarrow> bool) \<Rightarrow> Move list \<Rightarrow> int" where
  "count_moves P ms = fold (\<lambda>m n. if P m then n + 1 else n) ms 0"

definition count_double :: "player \<Rightarrow> Move list \<Rightarrow> int" where
  "count_double p ms =
     fold (\<lambda>i n. if i > 0 \<and> mv_pla (ms ! i) = p \<and> mv_pla (ms ! (i - 1)) = p then n + 1 else n) [0..<length ms] 0"

definition hasBlackPassOrWhiteFirst :: "history \<Rightarrow> bool" where
  "hasBlackPassOrWhiteFirst h =
     (let ms = moveHistory h
      in if isEmpty (initialBoard h) \<and> length ms > 0 \<and> mv_pla (ms ! 0) = P_WHITE then True
         else
           let numBlackPasses = count_moves (\<lambda>m. mv_loc m = PASS_LOC \<and> mv_pla m = P_BLACK) ms;
               numWhitePasses = count_moves (\<lambda>m. mv_loc m = PASS_LOC \<and> mv_pla m = P_WHITE) ms;
               numBlackDoubleMoves = count_double P_BLACK ms;
               numWhiteDoubleMoves = count_double P_WHITE ms
           in if numBlackPasses = 1 \<and> numWhitePasses = 0 \<and> numBlackDoubleMoves = 0 \<and> numWhiteDoubleMoves = 0
              then True
              else if numBlackPasses = 0 \<and> numWhitePasses = 0 \<and> numBlackDoubleMoves = 0 \<and> numWhiteDoubleMoves = 1
              then True
              else False)"

section \<open>Situation hashes\<close>

definition getSituationAndSimpleKoHash :: "zobrist \<Rightarrow> board \<Rightarrow> player \<Rightarrow> hash128" where
  "getSituationAndSimpleKoHash Z b nextPlayer =
     (let hash = pos_hash b;
          hash = hxor hash (ZOBRIST_PLAYER_HASH Z nextPlayer)
      in if ko_loc b \<noteq> NULL_LOC then hxor hash (ZOBRIST_KO_LOC_HASH Z (ko_loc b)) else hash)"

definition getSituationAndSimpleKoAndPrevPosHash ::
  "zobrist \<Rightarrow> board \<Rightarrow> history \<Rightarrow> player \<Rightarrow> hash128 option" where
  "getSituationAndSimpleKoAndPrevPosHash Z b h nextPlayer =
     (let hash = pos_hash b;
          hash = hxor hash (ZOBRIST_PLAYER_HASH Z nextPlayer);
          hash = (if ko_loc b \<noteq> NULL_LOC then hxor hash (ZOBRIST_KO_LOC_HASH Z (ko_loc b)) else hash);
          mixed = Hash128 (splitMix64 (hash1 hash)) (rrmxmx (hash0 hash))
      in if length (moveHistory h) > 0
         then map_option (\<lambda>prev. hxor mixed (pos_hash prev)) (getRecentBoard h 1)
         else Some mixed)"

text \<open>\<open>if(c) hash ^= h\<close>\<close>

definition hxor_if :: "bool \<Rightarrow> hash128 \<Rightarrow> hash128 \<Rightarrow> hash128" where
  "hxor_if c h hash = (if c then hxor hash h else hash)"

definition ko_part_hash :: "zobrist \<Rightarrow> board \<Rightarrow> history \<Rightarrow> hash128 \<Rightarrow> hash128" where
  "ko_part_hash Z b h hash =
     (if encorePhase h = 0 then
        (let hash = hxor_if (ko_loc b \<noteq> NULL_LOC) (ZOBRIST_KO_LOC_HASH Z (ko_loc b)) hash
         in fold (\<lambda>loc. hxor_if (superKoBanned h loc \<and> loc \<noteq> ko_loc b) (ZOBRIST_KO_LOC_HASH Z loc))
              (board_locs b) hash)
      else
        (let hash = fold (\<lambda>loc hash.
               let hash = hxor_if (superKoBanned h loc) (ZOBRIST_KO_LOC_HASH Z loc) hash
               in hxor_if (koRecapBlocked h loc)
                    (hxor (ZOBRIST_KO_MARK_HASH Z loc P_BLACK) (ZOBRIST_KO_MARK_HASH Z loc P_WHITE)) hash)
               (board_locs b) hash
         in if encorePhase h = 2
            then fold (\<lambda>loc. let c = secondEncoreStartColors h loc
                             in hxor_if (c \<noteq> C_EMPTY) (ZOBRIST_SECOND_ENCORE_START_HASH Z loc c))
                   (board_locs b) hash
            else hash))"

definition rules_part_hash :: "history \<Rightarrow> BoardHistoryModes \<Rightarrow> hash128 \<Rightarrow> hash128" where
  "rules_part_hash h m hash =
     (let r = hist_rules h;
          hash = hxor hash (ZOBRIST_KO_RULE_HASH (koRule r));
          hash = hxor hash (ZOBRIST_SCORING_RULE_HASH (scoringRule r));
          hash = hxor hash (ZOBRIST_TAX_RULE_HASH (taxRule r));
          hash = hxor_if (multiStoneSuicideLegal r) ZOBRIST_MULTI_STONE_SUICIDE_HASH hash;
          hash = hxor_if (hasButton h) ZOBRIST_BUTTON_HASH hash;
          hash = hxor_if (friendlyPassOk r) ZOBRIST_FRIENDLY_PASS_OK_HASH hash;
          hash = hxor_if (alwaysComputePassAliveUnderSuicideRules m \<and> \<not> multiStoneSuicideLegal r)
                   ZOBRIST_PASS_ALIVE_UNDER_SUICIDE_HASH hash
      in hxor_if (excludeTerritoryAdjacentToAtari m \<and> scoringRule r = SCORING_TERRITORY \<and> taxRule r = TAX_NONE)
           ZOBRIST_EXCLUDE_TERRITORY_ADJ_ATARI_HASH hash)"

definition getSituationRulesAndKoHashModes ::
  "zobrist \<Rightarrow> board \<Rightarrow> history \<Rightarrow> player \<Rightarrow> rat \<Rightarrow> BoardHistoryModes \<Rightarrow> hash128 option" where
  "getSituationRulesAndKoHashModes Z b h nextPlayer drawEquivalentWinsForWhite m =
     (let hash = hxor (pos_hash b) (ZOBRIST_PLAYER_HASH Z nextPlayer)
      in if \<not> (0 \<le> encorePhase h \<and> encorePhase h \<le> 2) then None
         else
           let hash = hxor hash (ZOBRIST_ENCORE_HASH Z (encorePhase h));
               hash = ko_part_hash Z b h hash
           in Option.bind (currentSelfKomi h nextPlayer drawEquivalentWinsForWhite) (\<lambda>selfKomi.
                let komiDiscretized = trunc (selfKomi * 256);
                    komiHash = murmurMix (word_of_int komiDiscretized);
                    hash = Hash128 (hash0 hash XOR komiHash) (hash1 hash XOR basicLCong komiHash)
                in Some (rules_part_hash h m hash)))"

definition getSituationRulesAndKoHash ::
  "zobrist \<Rightarrow> board \<Rightarrow> history \<Rightarrow> player \<Rightarrow> rat \<Rightarrow> hash128 option" where
  "getSituationRulesAndKoHash Z b h nextPlayer drawEquivalentWinsForWhite =
     getSituationRulesAndKoHashModes Z b h nextPlayer drawEquivalentWinsForWhite (modes h)"

section \<open>Graph hashes\<close>

definition CONSECPASS_MULT0 :: u64 where "CONSECPASS_MULT0 = 2862933555777941757"
definition CONSECPASS_MULT1 :: u64 where "CONSECPASS_MULT1 = 3202034522624059733"

definition getStateHash :: "zobrist \<Rightarrow> history \<Rightarrow> player \<Rightarrow> rat \<Rightarrow> hash128 option" where
  "getStateHash Z h nextPlayer drawEq =
     Option.bind (getRecentBoard h 0) (\<lambda>b.
     Option.bind (getSituationRulesAndKoHash Z b h nextPlayer drawEq) (\<lambda>hash.
     Option.bind (passWouldEndPhase Z h b nextPlayer) (\<lambda>passEndsPhase.
       let hash = hxor_if passEndsPhase ZOBRIST_PASS_ENDS_PHASE hash;
           hash = hxor_if (isGameFinished h) ZOBRIST_GAME_IS_OVER hash
       in Some (Hash128 (hash0 hash + CONSECPASS_MULT0 * word_of_int (consecutiveEndingPasses h))
                        (hash1 hash + CONSECPASS_MULT1 * word_of_int (consecutiveEndingPasses h))))))"

definition getGraphHash :: "zobrist \<Rightarrow> hash128 \<Rightarrow> history \<Rightarrow> player \<Rightarrow> int \<Rightarrow> rat \<Rightarrow> hash128 option" where
  "getGraphHash Z prevGraphHash h nextPlayer repBound drawEq =
     Option.bind (getRecentBoard h 0) (\<lambda>b.
       let prevMoveLoc = (if length (moveHistory h) \<le> 0 then NULL_LOC
                          else mv_loc (moveHistory h ! (length (moveHistory h) - 1)))
       in Option.bind (if prevMoveLoc = NULL_LOC then Some True else simpleRepetitionBoundGt b prevMoveLoc repBound)
            (\<lambda>fresh.
               if fresh then getStateHash Z h nextPlayer drawEq
               else
                 let n0 = splitMix64 (hash0 prevGraphHash XOR hash1 prevGraphHash);
                     n1 = nasam (hash1 prevGraphHash) + n0
                 in Option.bind (getStateHash Z h nextPlayer drawEq)
                      (\<lambda>s. Some (Hash128 (n0 + hash0 s) (n1 + hash1 s)))))"

definition graph_hash_step ::
  "zobrist \<Rightarrow> int \<Rightarrow> rat \<Rightarrow> Move \<times> bool \<Rightarrow> (board \<times> history) \<times> hash128 \<Rightarrow> ((board \<times> history) \<times> hash128) option" where
  "graph_hash_step Z repBound drawEq = (\<lambda>(m, preventEncore) ((b, h), graphHash).
     Option.bind (getGraphHash Z graphHash h (mv_pla m) repBound drawEq) (\<lambda>graphHash.
     Option.bind (makeBoardMoveTolerantPreventEncore Z (mv_loc m) (mv_pla m) preventEncore (b, h)) (\<lambda>(s, suc).
       if suc then Some (s, graphHash) else None)))"

definition getGraphHashFromScratch :: "zobrist \<Rightarrow> history \<Rightarrow> player \<Rightarrow> int \<Rightarrow> rat \<Rightarrow> hash128 option" where
  "getGraphHashFromScratch Z histOrig nextPlayer repBound drawEq =
     Option.bind (copyToInitial Z histOrig) (\<lambda>hist.
     Option.bind (getRecentBoard hist 0) (\<lambda>b.
     Option.bind (foldM (graph_hash_step Z repBound drawEq)
                    (zip (moveHistory histOrig) (preventEncoreHistory histOrig)) ((b, hist), Hash128 0 0))
       (\<lambda>((b, hist), graphHash).
          Option.bind (getSituationRulesAndKoHash Z b hist nextPlayer drawEq) (\<lambda>k1.
          Option.bind (getRecentBoard histOrig 0) (\<lambda>ob.
          Option.bind (getSituationRulesAndKoHash Z ob histOrig nextPlayer drawEq) (\<lambda>k2.
            if k1 \<noteq> k2 then None else getGraphHash Z graphHash hist nextPlayer repBound drawEq))))))"

end
