(* ===== verification/KoTable.thy ===== *)
theory KoTable
  imports History "HOL-Library.Multiset"
begin

text \<open>
  The ko hash table is an index into a list of hashes. Its contract with the searches of the
  history is stated as a locale: what a lookup and a count say about the list the table was
  built from. The searches are proved once under that contract, which the table of the code
  then provides.
\<close>

section \<open>The contract\<close>

locale hash_index =
  fixes holds :: "'t \<Rightarrow> 'k list \<Rightarrow> bool"
    and entries :: "'t \<Rightarrow> nat"
    and contains :: "'t \<Rightarrow> 'k \<Rightarrow> bool"
    and occurrences :: "'t \<Rightarrow> 'k \<Rightarrow> int"
  assumes entries_holds: "holds t ks \<Longrightarrow> entries t = length ks"
    and contains_holds: "holds t ks \<Longrightarrow> contains t k \<longleftrightarrow> k \<in> set ks"
    and occurrences_holds: "holds t ks \<Longrightarrow> occurrences t k = int (count_list ks k)"
begin

text \<open>Searching the table for a prefix of the list and the rest one by one is searching the list.\<close>

lemma search_split:
  assumes "holds t ks"
  shows "contains t k \<or> k \<in> set (drop (entries t) (ks @ ls)) \<longleftrightarrow> k \<in> set (ks @ ls)"
  using assms by (simp add: entries_holds contains_holds)

lemma count_split:
  assumes "holds t ks"
  shows "occurrences t k + int (count_list (drop (entries t) (ks @ ls)) k) = int (count_list (ks @ ls) k)"
  using assms by (simp add: entries_holds occurrences_holds)

lemma contains_iff_occurs:
  assumes "holds t ks"
  shows "contains t k \<longleftrightarrow> 0 < occurrences t k"
  using assms by (simp add: contains_holds occurrences_holds) (metis count_list_0_iff gr0I less_irrefl)

end

section \<open>The sorted table\<close>

lemma length_takeWhile_add:
  assumes "\<And>x. P x \<Longrightarrow> Q x"
  shows "length (takeWhile P xs) + length (takeWhile Q (drop (length (takeWhile P xs)) xs)) = length (takeWhile Q xs)"
  using assms by (induction xs) auto

lemma bucket_sorted:
  assumes "sorted (map f hs)"
  shows "takeWhile (\<lambda>h. f h = b) (drop (length (takeWhile (\<lambda>h. f h < b) hs)) hs) = filter (\<lambda>h. f h = (b :: nat)) hs"
  using assms
proof (induction hs)
  case Nil
  then show ?case by simp
next
  case (Cons h hs)
  have tail: "\<forall>x\<in>set hs. f h \<le> f x" and s: "sorted (map f hs)" using Cons.prems by auto
  have up: "takeWhile (\<lambda>x. f x = b) xs = filter (\<lambda>x. f x = b) xs"
    if "sorted (map f xs)" "\<forall>x\<in>set xs. b \<le> f x" for xs
    using that
  proof (induction xs)
    case (Cons x xs)
    have "filter (\<lambda>x. f x = b) xs = []" if "f x \<noteq> b"
      using that Cons.prems by (fastforce simp: filter_empty_conv)
    then show ?case using Cons by simp
  qed simp
  show ?case
  proof (cases "f h < b")
    case True
    then show ?thesis using Cons.IH [OF s] by simp
  next
    case False
    then have "\<forall>x\<in>set (h # hs). b \<le> f x" using tail by auto
    then have "takeWhile (\<lambda>x. f x = b) (h # hs) = filter (\<lambda>x. f x = b) (h # hs)"
      by (rule up [OF Cons.prems])
    then show ?thesis using False by simp
  qed
qed

lemma low_bits_less: "low_bits h < TABLE_SIZE"
proof -
  have "TABLE_MASK = mask 10" by (simp add: TABLE_MASK_def TABLE_SIZE_def mask_eq_exp_minus_1)
  then have "low_bits h = unat (take_bit 10 (hash0 h))"
    unfolding low_bits_def by (simp add: take_bit_eq_mask)
  then have "low_bits h = take_bit 10 (unat (hash0 h))" by (simp add: unsigned_take_bit_eq)
  then show ?thesis by (simp add: TABLE_SIZE_def take_bit_eq_mod)
qed

lemma fill_index_fold:
  "\<exists>i. fold (fill_index hs) [0..<n] (0, tab) =
     (i, \<lambda>b. if b < n then length (takeWhile (\<lambda>h. low_bits h < b) hs) else tab b) \<and>
     (if n = 0 then i = 0 else i = length (takeWhile (\<lambda>h. low_bits h < n - 1) hs))"
proof (induction n)
  case 0
  then show ?case by (simp add: fun_eq_iff)
next
  case (Suc n)
  then obtain i where f: "fold (fill_index hs) [0..<n] (0, tab) =
     (i, \<lambda>b. if b < n then length (takeWhile (\<lambda>h. low_bits h < b) hs) else tab b)"
    and i: "if n = 0 then i = 0 else i = length (takeWhile (\<lambda>h. low_bits h < n - 1) hs)" by blast
  have "i + length (takeWhile (\<lambda>h. low_bits h < n) (drop i hs)) = length (takeWhile (\<lambda>h. low_bits h < n) hs)"
  proof (cases "n = 0")
    case True
    then show ?thesis using i by simp
  next
    case False
    then show ?thesis
      using i length_takeWhile_add [of "\<lambda>h. low_bits h < n - 1" "\<lambda>h. low_bits h < n" hs] by simp
  qed
  then show ?case using f by (simp add: fill_index_def [of hs n] Let_def fun_eq_iff)
qed

text \<open>What a table holds: it was recomputed from the list, in whatever state it was before.\<close>

definition table_holds :: "KoHashTable \<Rightarrow> hash128 list \<Rightarrow> bool" where
  "table_holds t hashes \<longleftrightarrow> (\<exists>firstTurn t0. kt_recompute hashes firstTurn t0 = Inr t)"

lemma table_facts:
  assumes "table_holds t hashes"
  shows "mset (koHashHistorySortedByLowBits t) = mset hashes"
    and "kt_bucket t h = filter (\<lambda>x. low_bits x = low_bits h) (koHashHistorySortedByLowBits t)"
proof -
  let ?hs = "sort_key (\<lambda>h. (low_bits h, h)) hashes"
  from assms obtain first t0 where r: "kt_recompute hashes first t0 = Inr t" by (auto simp: table_holds_def)
  obtain i where f: "fold (fill_index ?hs) [0..<TABLE_SIZE] (0, idxTable t0) =
     (i, \<lambda>b. if b < TABLE_SIZE then length (takeWhile (\<lambda>h. low_bits h < b) ?hs) else idxTable t0 b)"
    using fill_index_fold [of ?hs TABLE_SIZE "idxTable t0"] by blast
  have t: "koHashHistorySortedByLowBits t = ?hs"
    "idxTable t = (\<lambda>b. if b < TABLE_SIZE then length (takeWhile (\<lambda>h. low_bits h < b) ?hs) else idxTable t0 b)"
    using r unfolding kt_recompute_def Let_def f by (auto split: if_splits)
  show "mset (koHashHistorySortedByLowBits t) = mset hashes" by (simp add: t)
  have "sorted (map (\<lambda>h. (low_bits h, h)) ?hs)" by simp
  then have s: "sorted (map low_bits ?hs)"
    unfolding sorted_map by (rule sorted_wrt_mono_rel [rotated]) (auto simp: less_eq_prod_def)
  show "kt_bucket t h = filter (\<lambda>x. low_bits x = low_bits h) (koHashHistorySortedByLowBits t)"
    unfolding kt_bucket_def Let_def t using bucket_sorted [OF s] low_bits_less by simp
qed

lemma count_filter_bucket: "count_list (filter (\<lambda>x. f x = f h) xs) h = count_list xs h"
  by (induction xs) auto

lemma count_list_mset: "count_list xs x = count (mset xs) x"
  by (induction xs) auto

lemma fold_count_list:
  "fold (\<lambda>h count. if h = k then count + 1 else count) hs n = n + int (count_list hs k)"
  by (induction hs arbitrary: n) auto

interpretation ko_table: hash_index table_holds kt_size containsHash numberOfOccurrencesOfHash
proof
  fix t ks and k :: hash128
  assume a: "table_holds t ks"
  note f = table_facts [OF a]
  show "kt_size t = length ks" using f(1) unfolding kt_size_def by (metis size_mset)
  have "set (koHashHistorySortedByLowBits t) = set ks" using f(1) by (metis set_mset_mset)
  then show "containsHash t k \<longleftrightarrow> k \<in> set ks" unfolding containsHash_def f(2) by (auto simp: list_ex_iff)
  have "numberOfOccurrencesOfHash t k = int (count_list (kt_bucket t k) k)"
    using fold_count_list [of k "kt_bucket t k" 0] unfolding numberOfOccurrencesOfHash_def
    by (simp add: eq_commute [of k])
  then show "numberOfOccurrencesOfHash t k = int (count_list ks k)"
    unfolding f(2) count_filter_bucket by (simp add: count_list_mset f(1))
qed

end
