(* ===== verification/HistoryInv.thy ===== *)
theory HistoryInv
  imports KoTable Moves BoardSetup
begin

text \<open>
  The invariant of a game in progress, and how each part of
  \<open>BoardHistory::makeBoardMoveAssumeLegal\<close> keeps it: the ko hash history reaches from its first
  turn to the last move, the hash of the ko recapture blocks is the hash of the blocked points,
  the button is only there in the main phase with no passes counted, and the recorded board,
  winner and score agree with each other.
\<close>

section \<open>Searching the history\<close>

definition index_ok :: "history \<Rightarrow> bool" where
  "index_ok h \<longleftrightarrow> firstTurnIdxWithKoHistory h + length (koHashHistory h) = length (moveHistory h) + 1 \<and>
     koHashHistory h \<noteq> []"

text \<open>
  The table of the root of a search: recomputed from an earlier state of the same game, so that
  its list is a prefix of the present one unless the list was started anew since.
\<close>

definition table_for :: "history \<Rightarrow> KoHashTable option \<Rightarrow> bool" where
  "table_for h table \<longleftrightarrow> (\<forall>t. table = Some t \<longrightarrow>
     (\<exists>base t0. recompute base t0 = Inr t \<and> firstTurnIdxWithKoHistory base \<le> firstTurnIdxWithKoHistory h \<and>
        (firstTurnIdxWithKoHistory base = firstTurnIdxWithKoHistory h \<longrightarrow>
           (\<exists>ls. koHashHistory h = koHashHistory base @ ls))))"

lemma table_for_None [simp]: "table_for h None"
  by (simp add: table_for_def)

lemma recompute_first:
  "recompute base t0 = Inr t \<Longrightarrow> kt_firstTurnIdxWithKoHistory t = firstTurnIdxWithKoHistory base"
  by (auto simp: recompute_def kt_recompute_def Let_def split: if_splits prod.splits)

lemma count_hash_eq: "count_hash k hs n = n + int (count_list hs k)"
  unfolding count_hash_def by (rule fold_count_list)

lemma table_search:
  assumes h: "index_ok h" and t: "table_for h table"
  shows "koHashOccursInHistory h k table = Some (k \<in> set (koHashHistory h))"
    and "numberOfKoHashOccurrencesInHistory h k table = Some (int (count_list (koHashHistory h) k))"
proof -
  have "koHashOccursInHistory h k table = Some (k \<in> set (koHashHistory h)) \<and>
      numberOfKoHashOccurrencesInHistory h k table = Some (int (count_list (koHashHistory h) k))"
  proof (cases table)
    case None
    then show ?thesis
      by (auto simp: koHashOccursInHistory_def numberOfKoHashOccurrencesInHistory_def list_ex_iff count_hash_eq)
  next
    case (Some t)
    then obtain base t0 where r: "recompute base t0 = Inr t"
      and pre: "firstTurnIdxWithKoHistory base = firstTurnIdxWithKoHistory h \<Longrightarrow>
        \<exists>ls. koHashHistory h = koHashHistory base @ ls"
      using assms(2) by (auto simp: table_for_def)
    show ?thesis
    proof (cases "firstTurnIdxWithKoHistory h = kt_firstTurnIdxWithKoHistory t")
      case False
      then show ?thesis using Some
        by (auto simp: koHashOccursInHistory_def numberOfKoHashOccurrencesInHistory_def list_ex_iff count_hash_eq)
    next
      case True
      then obtain ls where ls: "koHashHistory h = koHashHistory base @ ls"
        using pre recompute_first [OF r] by auto
      have holds: "table_holds t (koHashHistory base)"
        using r by (auto simp: table_holds_def recompute_def)
      show ?thesis
        using True Some h ls ko_table.search_split [OF holds, of k ls] ko_table.count_split [OF holds, of k ls]
          ko_table.entries_holds [OF holds]
        by (auto simp: koHashOccursInHistory_def numberOfKoHashOccurrencesInHistory_def list_ex_iff
            count_hash_eq index_ok_def)
    qed
  qed
  then show "koHashOccursInHistory h k table = Some (k \<in> set (koHashHistory h))"
    and "numberOfKoHashOccurrencesInHistory h k table = Some (int (count_list (koHashHistory h) k))"
    by simp_all
qed

section \<open>The blocked points and their hash\<close>

definition mark_hash :: "zobrist \<Rightarrow> loc \<Rightarrow> hash128" where
  "mark_hash Z l = hxor (ZOBRIST_KO_MARK_HASH Z l C_BLACK) (ZOBRIST_KO_MARK_HASH Z l C_WHITE)"

definition block_hash :: "zobrist \<Rightarrow> int \<Rightarrow> int \<Rightarrow> (loc \<Rightarrow> bool) \<Rightarrow> hash128" where
  "block_hash Z xs ys B = hxor_list (map (\<lambda>l. if B l then mark_hash Z l else hash128_zero) (locs_of xs ys))"

definition blocks_ok :: "zobrist \<Rightarrow> int \<Rightarrow> int \<Rightarrow> history \<Rightarrow> bool" where
  "blocks_ok Z xs ys h \<longleftrightarrow> (\<forall>l. koRecapBlocked h l \<longrightarrow> on_board xs ys l) \<and>
     koRecapBlockHash h = block_hash Z xs ys (koRecapBlocked h)"

lemma block_hash_update:
  assumes "on_board xs ys l" "B l \<noteq> v"
  shows "block_hash Z xs ys (B(l := v)) = hxor (block_hash Z xs ys B) (mark_hash Z l)"
proof -
  let ?f = "\<lambda>k. if B k then mark_hash Z k else hash128_zero"
  have eq: "map (\<lambda>k. if (B(l := v)) k then mark_hash Z k else hash128_zero) (locs_of xs ys) =
      map (\<lambda>k. if k = l then (if v then mark_hash Z l else hash128_zero) else ?f k) (locs_of xs ys)"
    by simp
  have "l \<in> set (locs_of xs ys)" using assms(1) by (simp add: set_locs_of)
  from hxor_list_update [OF distinct_locs_of this, of "if v then mark_hash Z l else hash128_zero" ?f] assms(2)
  show ?thesis unfolding block_hash_def eq by (cases v) simp_all
qed

lemma setKoRecapBlocked_ok:
  assumes "blocks_ok Z xs ys h" "v \<Longrightarrow> on_board xs ys l"
  shows "blocks_ok Z xs ys (setKoRecapBlocked Z l v h)"
proof (cases "koRecapBlocked h l = v")
  case True
  then show ?thesis using assms by (simp add: setKoRecapBlocked_def)
next
  case False
  then have "on_board xs ys l" using assms by (cases v) (auto simp: blocks_ok_def)
  then show ?thesis
    using False assms block_hash_update [of xs ys l "koRecapBlocked h" v Z]
    by (simp add: blocks_ok_def setKoRecapBlocked_def mark_hash_def)
qed

lemma setKoRecapBlocked_frame:
  "\<exists>B H. setKoRecapBlocked Z l v h = h\<lparr>koRecapBlocked := B, koRecapBlockHash := H\<rparr>"
proof (cases "koRecapBlocked h l = v")
  case True
  then show ?thesis by (intro exI [of _ "koRecapBlocked h"] exI [of _ "koRecapBlockHash h"]) (simp add: setKoRecapBlocked_def)
next
  case False
  then show ?thesis unfolding setKoRecapBlocked_def by auto
qed

lemma setKoRecapBlocked_blocked [simp]:
  "koRecapBlocked (setKoRecapBlocked Z l v h) = (koRecapBlocked h)(l := v)"
  by (simp add: setKoRecapBlocked_def fun_upd_idem)

section \<open>What the parts of a move leave alone\<close>

text \<open>Passes touch the pass counters, the button, the bonus and the ko hashes.\<close>

definition pass_erased :: "history \<Rightarrow> history" where
  "pass_erased h = h\<lparr>consecutiveEndingPasses := 0, hasButton := False, whiteBonusScore := 0,
     hashesBeforeBlackPass := [], hashesBeforeWhitePass := [], koHashHistory := [], firstTurnIdxWithKoHistory := 0\<rparr>"

lemma update_passes_erased:
  "update_passes Z b l p h = Some (h', spight) \<Longrightarrow> pass_erased h' = pass_erased h"
  unfolding update_passes_def pass_erased_def Let_def by (auto split: if_splits bind_splits)

lemma update_passes_hashes:
  "update_passes Z b l p h = Some (h', spight) \<Longrightarrow>
     koHashHistory h' = koHashHistory h \<and> firstTurnIdxWithKoHistory h' = firstTurnIdxWithKoHistory h \<or>
     koHashHistory h' = [] \<and> firstTurnIdxWithKoHistory h' = length (moveHistory h) + 1"
  unfolding update_passes_def Let_def by (auto split: if_splits bind_splits)

lemma update_passes_button:
  "update_passes Z b l p h = Some (h', spight) \<Longrightarrow> hasButton h' \<longleftrightarrow> hasButton h \<and> l \<noteq> PASS_LOC"
  unfolding update_passes_def Let_def by (auto split: if_splits bind_splits)

lemma update_passes_counts:
  "update_passes Z b l p h = Some (h', spight) \<Longrightarrow> hasButton h' \<or> l \<noteq> PASS_LOC \<Longrightarrow>
     consecutiveEndingPasses h' = 0 \<and> \<not> spight \<and>
     hashesBeforeBlackPass h' = hashesBeforeBlackPass h \<and> hashesBeforeWhitePass h' = hashesBeforeWhitePass h"
  unfolding update_passes_def Let_def by (auto split: if_splits bind_splits)

lemma pass_erased_fields:
  assumes "pass_erased h' = pass_erased h"
  shows "hist_rules h' = hist_rules h" "moveHistory h' = moveHistory h"
    "preventEncoreHistory h' = preventEncoreHistory h" "currentRecentBoardIdx h' = currentRecentBoardIdx h"
    "encorePhase h' = encorePhase h" "koRecapBlocked h' = koRecapBlocked h" "koRecapBlockHash h' = koRecapBlockHash h"
    "isGameFinished h' = isGameFinished h" "isScored h' = isScored h" "isNoResult h' = isNoResult h"
    "isResignation h' = isResignation h" "isPastNormalPhaseEnd h' = isPastNormalPhaseEnd h"
  using arg_cong [OF assms, of hist_rules] arg_cong [OF assms, of moveHistory]
    arg_cong [OF assms, of preventEncoreHistory] arg_cong [OF assms, of currentRecentBoardIdx]
    arg_cong [OF assms, of encorePhase] arg_cong [OF assms, of koRecapBlocked]
    arg_cong [OF assms, of koRecapBlockHash] arg_cong [OF assms, of isGameFinished]
    arg_cong [OF assms, of isScored] arg_cong [OF assms, of isNoResult]
    arg_cong [OF assms, of isResignation] arg_cong [OF assms, of isPastNormalPhaseEnd]
  by (simp_all add: pass_erased_def)

lemma superko_point_frame:
  "superko_point Z b p table l h = Some h' \<Longrightarrow> \<exists>s. h' = h\<lparr>superKoBanned := s\<rparr>"
  unfolding superko_point_def Let_def by (auto split: if_splits bind_splits)

lemma foldM_superko_frame:
  "foldM (superko_point Z b p table) ls h = Some h' \<Longrightarrow> \<exists>s. h' = h\<lparr>superKoBanned := s\<rparr>"
proof (induction ls arbitrary: h)
  case Nil
  then show ?case by (intro exI [of _ "superKoBanned h"]) simp
next
  case (Cons l ls)
  from Cons.prems obtain h1 where h1: "superko_point Z b p table l h = Some h1"
    "foldM (superko_point Z b p table) ls h1 = Some h'"
    by (auto split: bind_splits)
  obtain s where "h1 = h\<lparr>superKoBanned := s\<rparr>" using superko_point_frame [OF h1(1)] by blast
  with Cons.IH [OF h1(2)] show ?case by auto
qed

lemma update_superko_frame:
  assumes "update_superko Z b p table h = Some h'"
  shows "\<exists>s. h' = h\<lparr>superKoBanned := s\<rparr>"
proof (cases "encorePhase h \<le> 0 \<and> koRule (hist_rules h) \<noteq> KO_SIMPLE")
  case True
  then show ?thesis using assms foldM_superko_frame [of Z b p table "board_locs b" h h']
    by (auto simp: update_superko_def split: if_splits)
next
  case False
  show ?thesis
  proof (cases "encorePhase h > 0")
    case True
    then show ?thesis using False assms by (auto simp: update_superko_def)
  next
    case no: False
    then have "h' = h" using False assms by (auto simp: update_superko_def)
    then show ?thesis by (intro exI [of _ "superKoBanned h"]) simp
  qed
qed

lemma setHandicapBonus_frame:
  "setHandicapBonus h = Some h' \<Longrightarrow> \<exists>y. h' = h\<lparr>whiteHandicapBonusScore := y\<rparr>"
  by (auto simp: setHandicapBonus_def)

definition bonus_erased :: "history \<Rightarrow> history" where
  "bonus_erased h = h\<lparr>whiteBonusScore := 0, whiteHasMoved := False, whiteHandicapBonusScore := 0\<rparr>"

lemma update_bonus_erased:
  "update_bonus l p w h = Some h' \<Longrightarrow> bonus_erased h' = bonus_erased h"
  unfolding update_bonus_def bonus_erased_def setHandicapBonus_def Let_def
  by (auto split: if_splits bind_splits)

lemma update_cycles_frame:
  "update_cycles l table h = Some h' \<Longrightarrow>
     h' = h \<or> l \<noteq> PASS_LOC \<and> h' = h\<lparr>isNoResult := True, isGameFinished := True\<rparr>"
  by (auto simp: update_cycles_def split: if_splits bind_splits)

end
