(* ===== verification/HistoryStep.thy ===== *)
theory HistoryStep
  imports HistoryInv
begin

text \<open>
  The state invariant of a game and its preservation by
  \<open>BoardHistory::makeBoardMoveAssumeLegal\<close>. A move is taken apart once, into the parts of the
  code in their order; every part has one lemma saying which facts it keeps, and the move
  composes them.
\<close>

section \<open>The invariant\<close>

definition turns_ok :: "history \<Rightarrow> bool" where
  "turns_ok h \<longleftrightarrow> index_ok h \<and> length (preventEncoreHistory h) = length (moveHistory h)"

definition recent_ok :: "board \<Rightarrow> history \<Rightarrow> bool" where
  "recent_ok b h \<longleftrightarrow> 0 \<le> currentRecentBoardIdx h \<and> currentRecentBoardIdx h < NUM_RECENT_BOARDS \<and>
     recentBoards h (currentRecentBoardIdx h) = b"

definition phase_ok :: "history \<Rightarrow> bool" where
  "phase_ok h \<longleftrightarrow> 0 \<le> encorePhase h \<and> encorePhase h \<le> 2 \<and>
     (encorePhase h > 0 \<longrightarrow> scoringRule (hist_rules h) = SCORING_TERRITORY) \<and>
     (encorePhase h = 0 \<longrightarrow> koRecapBlocked h = (\<lambda>_. False)) \<and>
     (hasButton h \<longrightarrow> encorePhase h = 0 \<and> rules_hasButton (hist_rules h) \<and>
        consecutiveEndingPasses h = 0 \<and> hashesBeforeBlackPass h = [] \<and> hashesBeforeWhitePass h = [])"

definition last_ok :: "zobrist \<Rightarrow> board \<Rightarrow> history \<Rightarrow> bool" where
  "last_ok Z b h \<longleftrightarrow> last (koHashHistory h) =
     getKoHash Z (hist_rules h) b (presumedNextMovePla h) (encorePhase h) (koRecapBlockHash h)"

definition result_ok :: "history \<Rightarrow> bool" where
  "result_ok h \<longleftrightarrow>
     (isScored h \<longrightarrow> isGameFinished h \<and> \<not> isNoResult h \<and> \<not> isResignation h \<and>
        winner h = (if finalWhiteMinusBlackScore h > 0 then C_WHITE
                    else if finalWhiteMinusBlackScore h < 0 then C_BLACK else C_EMPTY)) \<and>
     (isNoResult h \<longrightarrow> isGameFinished h \<and> \<not> isResignation h) \<and>
     (isResignation h \<longrightarrow> isGameFinished h) \<and>
     (isPastNormalPhaseEnd h \<longrightarrow> \<not> isGameFinished h)"

definition game_core :: "zobrist \<Rightarrow> board \<Rightarrow> history \<Rightarrow> bool" where
  "game_core Z b h \<longleftrightarrow> wf_board Z b \<and> turns_ok h \<and> recent_ok b h \<and> phase_ok h \<and>
     blocks_ok Z (x_size b) (y_size b) h \<and> last_ok Z b h"

definition hist_ok :: "zobrist \<Rightarrow> board \<Rightarrow> history \<Rightarrow> bool" where
  "hist_ok Z b h \<longleftrightarrow> game_core Z b h \<and> result_ok h"

lemmas game_defs = game_core_def turns_ok_def index_ok_def recent_ok_def phase_ok_def blocks_ok_def last_ok_def

section \<open>A move in parts\<close>

definition started :: "history \<Rightarrow> history" where
  "started h = clear_result (if isGameFinished h \<or> isPastNormalPhaseEnd h then cap_valid_turns h else h)"

lemma move_parts:
  assumes "makeBoardMoveAssumeLegal Z l p table pe (b, h) = Some (b', h')"
  obtains h1 spight b2 h2 wko h3 ill h5 h6 h7 where
    "update_passes Z b l p (started h) = Some (h1, spight)"
    "try_pass_for_ko Z l p (b, h1) = (b2, h2, wko)"
    "(if wko then Some (b2, h2) else play_regular Z (pos_hash b) l p (b2, h2)) = Some (b', h3)"
    "update_superko Z b' (getOpp p) table (record_move Z b' l p pe ill h3) = Some h5"
    "update_bonus l p wko h5 = Some h6"
    "update_phase Z b' p pe spight h6 = Some h7"
    "update_cycles l table h7 = Some h'"
proof -
  let ?h = "if isGameFinished h \<or> isPastNormalPhaseEnd h then cap_valid_turns h else h"
  let ?ill = "\<not> hist_isLegal ?h b l p"
  note a = assms [unfolded makeBoardMoveAssumeLegal_def Let_def prod.case, folded started_def]
  from a obtain h1 spight where 1: "update_passes Z b l p (started h) = Some (h1, spight)"
    by (cases "update_passes Z b l p (started h)") auto
  obtain b2 h2 wko where 2: "try_pass_for_ko Z l p (b, h1) = (b2, h2, wko)" by (rule prod_cases3)
  let ?play = "if wko then Some (b2, h2) else play_regular Z (pos_hash b) l p (b2, h2)"
  note a = a [unfolded 1 bind.bind_lunit prod.case 2]
  from a obtain b3 h3 where 3: "?play = Some (b3, h3)" by (cases ?play) auto
  note a = a [unfolded 3 bind.bind_lunit prod.case]
  from a obtain h5 where 5: "update_superko Z b3 (getOpp p) table (record_move Z b3 l p pe ?ill h3) = Some h5"
    by (cases "update_superko Z b3 (getOpp p) table (record_move Z b3 l p pe ?ill h3)") auto
  note a = a [unfolded 5 bind.bind_lunit]
  from a obtain h6 where 6: "update_bonus l p wko h5 = Some h6" by (cases "update_bonus l p wko h5") auto
  note a = a [unfolded 6 bind.bind_lunit]
  from a obtain h7 where 7: "update_phase Z b3 p pe spight h6 = Some h7" by (cases "update_phase Z b3 p pe spight h6") auto
  note a = a [unfolded 7 bind.bind_lunit]
  from a obtain 8: "update_cycles l table h7 = Some h'" and b: "b3 = b'" by (cases "update_cycles l table h7") auto
  show ?thesis using that 1 2 3 5 6 7 8 unfolding b by blast
qed

lemma started_core:
  "game_core Z b (started h) \<longleftrightarrow> game_core Z b h"
  "moveHistory (started h) = moveHistory h" "preventEncoreHistory (started h) = preventEncoreHistory h"
  "result_ok (started h)" "\<not> isScored (started h)" "\<not> isGameFinished (started h)"
  "\<not> isPastNormalPhaseEnd (started h)" "\<not> isNoResult (started h)" "\<not> isResignation (started h)"
  by (simp_all add: started_def clear_result_def cap_valid_turns_def game_defs result_ok_def)

lemma game_core_superko [simp]: "game_core Z b (h\<lparr>superKoBanned := s\<rparr>) \<longleftrightarrow> game_core Z b h"
  by (simp add: game_defs)

lemma game_core_bonus: "bonus_erased h' = bonus_erased h \<Longrightarrow> game_core Z b h' \<longleftrightarrow> game_core Z b h"
proof -
  have "game_core Z b (bonus_erased h) \<longleftrightarrow> game_core Z b h" for h
    by (simp add: bonus_erased_def game_defs)
  then show "bonus_erased h' = bonus_erased h \<Longrightarrow> ?thesis" by metis
qed

section \<open>Up to the recording of the move\<close>

text \<open>What holds of the history while the move is played, before it is recorded.\<close>

definition mid_core :: "zobrist \<Rightarrow> int \<Rightarrow> int \<Rightarrow> history \<Rightarrow> bool" where
  "mid_core Z xs ys h \<longleftrightarrow>
     firstTurnIdxWithKoHistory h + length (koHashHistory h) = length (moveHistory h) + 1 \<and>
     length (preventEncoreHistory h) = length (moveHistory h) \<and>
     0 \<le> currentRecentBoardIdx h \<and> phase_ok h \<and> blocks_ok Z xs ys h"

text \<open>What a move may play: a pass, an empty point, or a pass for ko.\<close>

definition playable :: "board \<Rightarrow> history \<Rightarrow> loc \<Rightarrow> player \<Rightarrow> bool" where
  "playable b h l p \<longleftrightarrow> l = PASS_LOC \<or> colors b l = C_EMPTY \<or> isPassForKo h b l p"

lemma update_passes_mid:
  assumes "game_core Z b h" "update_passes Z b l p h = Some (h1, spight)"
  shows "mid_core Z (x_size b) (y_size b) h1"
proof -
  note f = pass_erased_fields [OF update_passes_erased [OF assms(2)]]
  show ?thesis
    using assms(1) update_passes_hashes [OF assms(2)] update_passes_button [OF assms(2)]
      update_passes_counts [OF assms(2)]
    by (auto simp: mid_core_def game_defs f)
qed

lemma setKoRecapBlocked_mid:
  assumes "mid_core Z xs ys h" "v \<Longrightarrow> encorePhase h > 0 \<and> on_board xs ys l"
  shows "mid_core Z xs ys (setKoRecapBlocked Z l v h)"
proof -
  have "blocks_ok Z xs ys (setKoRecapBlocked Z l v h)"
    using assms by (intro setKoRecapBlocked_ok) (simp_all add: mid_core_def)
  moreover have "phase_ok (setKoRecapBlocked Z l v h)"
    using assms by (cases v) (auto simp: mid_core_def phase_ok_def setKoRecapBlocked_def)
  ultimately show ?thesis using assms(1) by (auto simp: mid_core_def setKoRecapBlocked_def)
qed

lemma try_pass_for_ko_mid:
  assumes "try_pass_for_ko Z l p (b, h1) = (b2, h2, wko)" "mid_core Z (x_size b) (y_size b) h1" "wf_board Z b"
  shows "mid_core Z (x_size b2) (y_size b2) h2" "wf_board Z b2" "x_size b2 = x_size b" "y_size b2 = y_size b"
    "\<not> wko \<Longrightarrow> b2 = b \<and> h2 = h1"
proof -
  have "b2 = clearSimpleKoLoc b \<and> (\<exists>k. h2 = setKoRecapBlocked Z k False h1) \<and> wko \<or> b2 = b \<and> h2 = h1 \<and> \<not> wko"
    using assms(1) unfolding try_pass_for_ko_def by (auto split: if_splits)
  then show "mid_core Z (x_size b2) (y_size b2) h2" "wf_board Z b2" "x_size b2 = x_size b" "y_size b2 = y_size b"
    "\<not> wko \<Longrightarrow> b2 = b \<and> h2 = h1"
    using assms(2,3) setKoRecapBlocked_mid [OF assms(2), of False] wf_clear_ko
    by (auto simp: clearSimpleKoLoc_def)
qed

lemma fold_unblock_mid:
  "mid_core Z xs ys h \<Longrightarrow>
     mid_core Z xs ys (fold (\<lambda>loc h. if P loc \<and> koRecapBlocked h loc then setKoRecapBlocked Z loc False h else h) ls h)"
proof (induction ls arbitrary: h)
  case (Cons l ls)
  then show ?case using setKoRecapBlocked_mid [OF Cons.prems, of False l] by simp
qed simp

lemma play_regular_mid:
  assumes "play_regular Z ph l p (b, h) = Some (b', h')" "mid_core Z (x_size b) (y_size b) h" "wf_board Z b"
    "l = PASS_LOC \<or> colors b l = C_EMPTY" "is_stone p"
  shows "mid_core Z (x_size b) (y_size b) h'" "wf_board Z b'" "x_size b' = x_size b" "y_size b' = y_size b"
proof -
  from assms(1) obtain b1 where b1: "playMoveAssumeLegal Z l p b = Some b1"
    by (cases "playMoveAssumeLegal Z l p b") (auto simp: play_regular_def)
  have wf: "wf_board Z b1 \<and> x_size b1 = x_size b \<and> y_size b1 = y_size b"
  proof (cases "l = PASS_LOC")
    case True
    then show ?thesis using b1 assms(3) wf_clear_ko by (auto simp: playMoveAssumeLegal_def)
  next
    case False
    then have m: "move_at Z b l p" using assms(3-5) move_atI by blast
    show ?thesis by (rule played [OF m]) (use b1 in auto)
  qed
  let ?h1 = "setKoRecapBlocked Z l True h"
  let ?h2 = "?h1\<lparr>koCapturesInEncore := koCapturesInEncore ?h1 @
      [\<lparr>ek_posHashBeforeMove = ph, ek_moveLoc = l, ek_movePla = p\<rparr>]\<rparr>"
  have ko: "mid_core Z (x_size b) (y_size b) ?h2" if "encorePhase h > 0" "ko_loc b1 \<noteq> NULL_LOC"
  proof -
    have "l \<noteq> PASS_LOC" using that(2) b1 by (auto simp: playMoveAssumeLegal_def)
    then have "on_board (x_size b) (y_size b) l"
      using assms(4) on_board_iff [OF assms(3), of l] by auto
    then have "mid_core Z (x_size b) (y_size b) ?h1" using that assms(2) by (intro setKoRecapBlocked_mid) auto
    then show ?thesis by (simp add: mid_core_def phase_ok_def blocks_ok_def)
  qed
  let ?s = "if ko_loc b1 \<noteq> NULL_LOC then (clearSimpleKoLoc b1, ?h2) else (b1, h)"
  let ?f = "\<lambda>b. fold (\<lambda>loc h. if colors b loc = C_EMPTY \<and> koRecapBlocked h loc then setKoRecapBlocked Z loc False h else h)
      (board_locs b)"
  have "(b', h') = (if encorePhase h > 0 then (fst ?s, ?f (fst ?s) (snd ?s)) else (b1, h))"
    using assms(1) unfolding play_regular_def by (auto simp: b1 Let_def split: if_splits)
  moreover have "mid_core Z (x_size b) (y_size b) (snd ?s)" if "encorePhase h > 0"
    using assms(2) ko [OF that] by simp
  moreover have "wf_board Z (fst ?s) \<and> x_size (fst ?s) = x_size b \<and> y_size (fst ?s) = y_size b"
    using wf wf_clear_ko by (simp add: clearSimpleKoLoc_def)
  ultimately show "mid_core Z (x_size b) (y_size b) h'" "wf_board Z b'" "x_size b' = x_size b" "y_size b' = y_size b"
    using assms(2) wf fold_unblock_mid [of Z "x_size b" "y_size b" "snd ?s" "\<lambda>loc. colors (fst ?s) loc = C_EMPTY"]
    by (simp_all only: prod.inject fst_conv snd_conv split: if_splits)
qed

lemma record_move_fields [simp]:
  "hist_rules (record_move Z b l p pe ill h) = hist_rules h"
  "encorePhase (record_move Z b l p pe ill h) = encorePhase h"
  "koRecapBlocked (record_move Z b l p pe ill h) = koRecapBlocked h"
  "koRecapBlockHash (record_move Z b l p pe ill h) = koRecapBlockHash h"
  "hasButton (record_move Z b l p pe ill h) = hasButton h"
  "consecutiveEndingPasses (record_move Z b l p pe ill h) = consecutiveEndingPasses h"
  "hashesBeforeBlackPass (record_move Z b l p pe ill h) = hashesBeforeBlackPass h"
  "hashesBeforeWhitePass (record_move Z b l p pe ill h) = hashesBeforeWhitePass h"
  "firstTurnIdxWithKoHistory (record_move Z b l p pe ill h) = firstTurnIdxWithKoHistory h"
  "moveHistory (record_move Z b l p pe ill h) = moveHistory h @ [\<lparr>mv_loc = l, mv_pla = p\<rparr>]"
  "preventEncoreHistory (record_move Z b l p pe ill h) = preventEncoreHistory h @ [pe]"
  "presumedNextMovePla (record_move Z b l p pe ill h) = getOpp p"
  "koHashHistory (record_move Z b l p pe ill h) = koHashHistory h @
     [getKoHash Z (hist_rules h) b (getOpp p) (encorePhase h) (koRecapBlockHash h)]"
  "currentRecentBoardIdx (record_move Z b l p pe ill h) = (currentRecentBoardIdx h + 1) mod NUM_RECENT_BOARDS"
  "recentBoards (record_move Z b l p pe ill h) =
     (recentBoards h)((currentRecentBoardIdx h + 1) mod NUM_RECENT_BOARDS := b)"
  "wasEverOccupiedOrPlayed (record_move Z b l p pe ill h) =
     (if l \<noteq> PASS_LOC then (wasEverOccupiedOrPlayed h)(l := True) else wasEverOccupiedOrPlayed h)"
  "isGameFinished (record_move Z b l p pe ill h) = isGameFinished h"
  "isScored (record_move Z b l p pe ill h) = isScored h"
  "isNoResult (record_move Z b l p pe ill h) = isNoResult h"
  "isResignation (record_move Z b l p pe ill h) = isResignation h"
  "isPastNormalPhaseEnd (record_move Z b l p pe ill h) = isPastNormalPhaseEnd h"
  by (simp_all add: record_move_def Let_def)

lemma record_move_core:
  assumes "mid_core Z (x_size b) (y_size b) h" "wf_board Z b"
  shows "game_core Z b (record_move Z b l p pe ill h)"
proof -
  have "0 \<le> (currentRecentBoardIdx h + 1) mod NUM_RECENT_BOARDS"
    "(currentRecentBoardIdx h + 1) mod NUM_RECENT_BOARDS < NUM_RECENT_BOARDS"
    by (simp_all add: NUM_RECENT_BOARDS_def)
  then show ?thesis
    using assms unfolding mid_core_def game_defs by simp
qed

section \<open>The ends of phases and of the game\<close>

definition running :: "history \<Rightarrow> bool" where
  "running h \<longleftrightarrow> \<not> isScored h \<and> \<not> isGameFinished h \<and> \<not> isPastNormalPhaseEnd h \<and> \<not> isNoResult h \<and> \<not> isResignation h"

lemma running_result_ok: "running h \<Longrightarrow> result_ok h"
  by (simp add: running_def result_ok_def)

lemma block_hash_none [simp]: "block_hash Z xs ys (\<lambda>_. False) = hash128_zero"
  unfolding block_hash_def by (rule hxor_list_zero) auto

lemma take_button_core: "game_core Z b h \<Longrightarrow> game_core Z b (take_button h)"
  by (simp add: take_button_def game_defs)

lemma finish_scored_core: "game_core Z b (finish_scored s h) \<longleftrightarrow> game_core Z b h"
  by (simp add: finish_scored_def setFinalScoreAndWinner_def Let_def game_defs)

lemma finish_scored_result: "result_ok (finish_scored s h)"
  by (simp add: finish_scored_def setFinalScoreAndWinner_def Let_def result_ok_def)

lemma endAndScoreGameNow_ok:
  assumes "game_core Z b h" "endAndScoreGameNow b h = Some (h', area)"
  shows "hist_ok Z b h'"
proof -
  from assms(2) obtain s where "h' = finish_scored s (take_button h)"
    by (auto simp: endAndScoreGameNow_def split: bind_splits)
  then show ?thesis
    using assms(1) by (simp add: hist_ok_def finish_scored_core take_button_core finish_scored_result)
qed

lemma next_encore_core:
  assumes "game_core Z b h" "encorePhase h < 2" "\<not> hasButton h" "scoringRule (hist_rules h) = SCORING_TERRITORY"
    "presumedNextMovePla h = getOpp p"
  shows "game_core Z b (next_encore Z b p h)"
proof -
  have "hist_rules (next_encore Z b p h) = hist_rules h" "moveHistory (next_encore Z b p h) = moveHistory h"
    "preventEncoreHistory (next_encore Z b p h) = preventEncoreHistory h"
    "encorePhase (next_encore Z b p h) = encorePhase h + 1" "koRecapBlocked (next_encore Z b p h) = (\<lambda>_. False)"
    "koRecapBlockHash (next_encore Z b p h) = hash128_zero" "hasButton (next_encore Z b p h) = hasButton h"
    "presumedNextMovePla (next_encore Z b p h) = presumedNextMovePla h"
    "koHashHistory (next_encore Z b p h) = [getKoHash Z (hist_rules h) b (getOpp p) (encorePhase h + 1) hash128_zero]"
    "firstTurnIdxWithKoHistory (next_encore Z b p h) = length (moveHistory h)"
    "currentRecentBoardIdx (next_encore Z b p h) = currentRecentBoardIdx h"
    "recentBoards (next_encore Z b p h) = recentBoards h"
    by (simp_all add: next_encore_def Let_def)
  then show ?thesis using assms unfolding game_defs by simp
qed

lemma update_phase_ok:
  assumes "update_phase Z b p pe spight h = Some h'" "game_core Z b h" "running h"
    "presumedNextMovePla h = getOpp p" "hasButton h \<longrightarrow> consecutiveEndingPasses h = 0 \<and> \<not> spight"
  shows "hist_ok Z b h'" "consecutiveEndingPasses h < 2 \<Longrightarrow> \<not> spight \<Longrightarrow> h' = h"
proof -
  show "consecutiveEndingPasses h < 2 \<Longrightarrow> \<not> spight \<Longrightarrow> h' = h"
    using assms(1) by (simp add: update_phase_def)
  have score: "hist_ok Z b h'" if "map_option fst (endAndScoreGameNow b h) = Some h'"
    using that endAndScoreGameNow_ok [OF assms(2)] by auto
  show "hist_ok Z b h'"
  proof (cases "consecutiveEndingPasses h \<ge> 2 \<or> spight")
    case False
    then have "h' = h" using assms(1) by (simp add: update_phase_def)
    then show ?thesis using assms(2,3) by (simp add: hist_ok_def running_result_ok)
  next
    case True
    then have nb: "\<not> hasButton h" using assms(5) by auto
    show ?thesis
    proof (cases "scoringRule (hist_rules h) = SCORING_AREA \<or> encorePhase h \<ge> 2")
      case sc: True
      then have "map_option fst (endAndScoreGameNow b h) = Some h'"
        using assms(1) True by (auto simp: update_phase_def split: if_splits)
      then show ?thesis by (rule score)
    next
      case no: False
      then have t: "scoringRule (hist_rules h) = SCORING_TERRITORY"
        using assms(1) True by (auto simp: update_phase_def split: if_splits)
      show ?thesis
      proof (cases pe)
        case pe: True
        have "h' = cap_valid_turns (h\<lparr>isPastNormalPhaseEnd := True\<rparr>)"
          using assms(1) True no t pe by (auto simp: update_phase_def)
        moreover have "game_core Z b (cap_valid_turns (h\<lparr>isPastNormalPhaseEnd := True\<rparr>)) \<longleftrightarrow> game_core Z b h"
          by (simp add: cap_valid_turns_def game_defs)
        moreover have "result_ok (cap_valid_turns (h\<lparr>isPastNormalPhaseEnd := True\<rparr>))"
          using assms(3) by (simp add: cap_valid_turns_def running_def result_ok_def)
        ultimately show ?thesis using assms(2) by (simp add: hist_ok_def)
      next
        case False
        then have h': "h' = next_encore Z b p h"
          using assms(1) True no t by (auto simp: update_phase_def)
        have "running h'" using assms(3) unfolding h' running_def next_encore_def Let_def by simp
        then show ?thesis
          unfolding h' hist_ok_def using assms no t nb by (auto intro: next_encore_core running_result_ok)
      qed
    qed
  qed
qed

section \<open>A move keeps the invariant\<close>

lemma running_superko [simp]: "running (h\<lparr>superKoBanned := s\<rparr>) \<longleftrightarrow> running h"
  by (simp add: running_def)

lemma bonus_erased_fields:
  assumes "bonus_erased h' = bonus_erased h"
  shows "running h' \<longleftrightarrow> running h" "presumedNextMovePla h' = presumedNextMovePla h" "hasButton h' \<longleftrightarrow> hasButton h"
    "consecutiveEndingPasses h' = consecutiveEndingPasses h"
    "firstTurnIdxWithKoHistory h' = firstTurnIdxWithKoHistory h" "koHashHistory h' = koHashHistory h"
    "superKoBanned h' = superKoBanned h" "moveHistory h' = moveHistory h" "encorePhase h' = encorePhase h"
    "hist_rules h' = hist_rules h" "koRecapBlockHash h' = koRecapBlockHash h"
  using arg_cong [OF assms, of running] arg_cong [OF assms, of presumedNextMovePla]
    arg_cong [OF assms, of hasButton] arg_cong [OF assms, of consecutiveEndingPasses]
    arg_cong [OF assms, of firstTurnIdxWithKoHistory] arg_cong [OF assms, of koHashHistory]
    arg_cong [OF assms, of superKoBanned] arg_cong [OF assms, of moveHistory]
    arg_cong [OF assms, of encorePhase] arg_cong [OF assms, of hist_rules] arg_cong [OF assms, of koRecapBlockHash]
  by (simp_all add: bonus_erased_def running_def)

lemma passes_for_ko:
  assumes "isPassForKo h b l p" "try_pass_for_ko Z l p (b, h1) = (b2, h2, wko)"
    "encorePhase h1 = encorePhase h" "koRecapBlocked h1 = koRecapBlocked h"
  shows wko
proof -
  have "blocked_capture h1 b l p \<longleftrightarrow> blocked_capture h b l p" by (simp add: blocked_capture_def assms(4))
  then show ?thesis
    using assms by (auto simp: isPassForKo_def blocked_stone_def try_pass_for_ko_def split: if_splits)
qed

text \<open>The blocks of the encore are all that playing changes in the history.\<close>

definition blocks_erased :: "history \<Rightarrow> history" where
  "blocks_erased h = h\<lparr>koRecapBlocked := (\<lambda>_. False), koRecapBlockHash := hash128_zero, koCapturesInEncore := []\<rparr>"

lemma blocks_erased_set [simp]: "blocks_erased (setKoRecapBlocked Z l v h) = blocks_erased h"
  by (simp add: blocks_erased_def setKoRecapBlocked_def)

lemma blocks_erased_captures [simp]: "blocks_erased (h\<lparr>koCapturesInEncore := c\<rparr>) = blocks_erased h"
  by (simp add: blocks_erased_def)

lemma blocks_erased_fold [simp]:
  "blocks_erased (fold (\<lambda>loc h. if P loc \<and> koRecapBlocked h loc then setKoRecapBlocked Z loc False h else h) ls h) =
     blocks_erased h"
  by (induction ls arbitrary: h) simp_all

lemma try_pass_for_ko_erased:
  "try_pass_for_ko Z l p (b, h) = (b', h', wko) \<Longrightarrow> blocks_erased h' = blocks_erased h"
  by (auto simp: try_pass_for_ko_def split: if_splits)

lemma play_regular_erased:
  "play_regular Z ph l p (b, h) = Some (b', h') \<Longrightarrow> blocks_erased h' = blocks_erased h"
  by (auto simp: play_regular_def Let_def split: if_splits bind_splits)

lemma blocks_erased_fields:
  assumes "blocks_erased h' = blocks_erased h"
  shows "running h' \<longleftrightarrow> running h" "hasButton h' \<longleftrightarrow> hasButton h"
    "consecutiveEndingPasses h' = consecutiveEndingPasses h" "encorePhase h' = encorePhase h"
    "firstTurnIdxWithKoHistory h' = firstTurnIdxWithKoHistory h" "koHashHistory h' = koHashHistory h"
    "hist_rules h' = hist_rules h" "moveHistory h' = moveHistory h"
  using arg_cong [OF assms, of running] arg_cong [OF assms, of hasButton]
    arg_cong [OF assms, of consecutiveEndingPasses] arg_cong [OF assms, of encorePhase]
    arg_cong [OF assms, of firstTurnIdxWithKoHistory] arg_cong [OF assms, of koHashHistory]
    arg_cong [OF assms, of hist_rules] arg_cong [OF assms, of moveHistory]
  by (simp_all add: blocks_erased_def running_def)

text \<open>The state in which the move has just been recorded.\<close>

definition recorded :: "zobrist \<Rightarrow> loc \<Rightarrow> bool \<Rightarrow> history \<Rightarrow> history \<Rightarrow> board \<Rightarrow> player \<Rightarrow> history \<Rightarrow> bool" where
  "recorded Z l spight h h1 b' p h4 \<longleftrightarrow> game_core Z b' h4 \<and> running h4 \<and> presumedNextMovePla h4 = getOpp p \<and>
     hist_rules h4 = hist_rules h \<and> encorePhase h4 = encorePhase h \<and>
     moveHistory h4 = moveHistory h @ [\<lparr>mv_loc = l, mv_pla = p\<rparr>] \<and>
     consecutiveEndingPasses h4 = consecutiveEndingPasses h1 \<and> hasButton h4 = hasButton h1 \<and>
     firstTurnIdxWithKoHistory h4 = firstTurnIdxWithKoHistory h1 \<and>
     (\<exists>k. koHashHistory h4 = koHashHistory h1 @ [k])"

lemma move_recorded:
  assumes core: "game_core Z b h" and pl: "playable b h l p" and p: "is_stone p"
    and 1: "update_passes Z b l p (started h) = Some (h1, spight)"
    and 2: "try_pass_for_ko Z l p (b, h1) = (b2, h2, wko)"
    and 3: "(if wko then Some (b2, h2) else play_regular Z (pos_hash b) l p (b2, h2)) = Some (b', h3)"
  shows "recorded Z l spight h h1 b' p (record_move Z b' l p pe ill h3)"
    "wf_board Z b'" "x_size b' = x_size b" "y_size b' = y_size b"
proof -
  note s = started_core
  have wf: "wf_board Z b" using core by (simp add: game_core_def)
  note e1 = pass_erased_fields [OF update_passes_erased [OF 1]]
  have c0: "game_core Z b (started h)" using core by (simp add: s)
  note m1 = update_passes_mid [OF c0 1]
  note m2 = try_pass_for_ko_mid [OF 2 m1 wf]
  have np: "l = PASS_LOC \<or> colors b2 l = C_EMPTY" if "\<not> wko"
  proof -
    have "encorePhase h1 = encorePhase h" "koRecapBlocked h1 = koRecapBlocked h"
      using e1 by (simp_all add: started_def clear_result_def cap_valid_turns_def)
    then have "\<not> isPassForKo h b l p" using passes_for_ko [OF _ 2] that by blast
    then show ?thesis using pl m2(5) [OF that] by (auto simp: playable_def)
  qed
  have b': "mid_core Z (x_size b') (y_size b') h3 \<and> wf_board Z b' \<and> x_size b' = x_size b \<and> y_size b' = y_size b"
  proof (cases wko)
    case True
    then show ?thesis using 3 m2 by auto
  next
    case False
    then have r: "play_regular Z (pos_hash b) l p (b2, h2) = Some (b', h3)" using 3 by simp
    note q = play_regular_mid [OF r m2(1,2) np [OF False] p]
    from q show ?thesis using m2(3,4) by simp
  qed
  then show "wf_board Z b'" "x_size b' = x_size b" "y_size b' = y_size b" by simp_all
  have "blocks_erased h3 = blocks_erased h1"
    using 3 try_pass_for_ko_erased [OF 2] play_regular_erased by (cases wko) fastforce+
  note e3 = blocks_erased_fields [OF this]
  have "running h3" using e3(1) e1 s by (simp add: running_def)
  moreover have "hist_rules (started h) = hist_rules h" "encorePhase (started h) = encorePhase h"
    by (simp_all add: started_def clear_result_def cap_valid_turns_def)
  ultimately show "recorded Z l spight h h1 b' p (record_move Z b' l p pe ill h3)"
    using record_move_core b' e3 e1 s(2) by (auto simp: recorded_def running_def)
qed

text \<open>What the parts after the recording do to the invariant and to the result.\<close>

lemma move_keeps:
  assumes core: "game_core Z b h" and pl: "playable b h l p" and p: "is_stone p"
    and m: "makeBoardMoveAssumeLegal Z l p table pe (b, h) = Some (b', h')"
  shows "hist_ok Z b' h'" "x_size b' = x_size b" "y_size b' = y_size b"
proof -
  from m obtain h1 spight b2 h2 wko h3 ill h5 h6 h7 where
    1: "update_passes Z b l p (started h) = Some (h1, spight)"
    and 2: "try_pass_for_ko Z l p (b, h1) = (b2, h2, wko)"
    and 3: "(if wko then Some (b2, h2) else play_regular Z (pos_hash b) l p (b2, h2)) = Some (b', h3)"
    and 5: "update_superko Z b' (getOpp p) table (record_move Z b' l p pe ill h3) = Some h5"
    and 6: "update_bonus l p wko h5 = Some h6"
    and 7: "update_phase Z b' p pe spight h6 = Some h7"
    and 8: "update_cycles l table h7 = Some h'"
    by (rule move_parts)
  let ?h4 = "record_move Z b' l p pe ill h3"
  note rec = move_recorded(1) [OF core pl p 1 2 3, of pe ill]
  show "x_size b' = x_size b" "y_size b' = y_size b" using move_recorded(3,4) [OF core pl p 1 2 3] by simp_all
  obtain s where h5: "h5 = ?h4\<lparr>superKoBanned := s\<rparr>" using update_superko_frame [OF 5] by blast
  note be = update_bonus_erased [OF 6]
  note e6 = bonus_erased_fields [OF be]
  have c6: "game_core Z b' h6" "running h6" "presumedNextMovePla h6 = getOpp p"
    using rec game_core_bonus [OF be] e6 by (simp_all add: h5 recorded_def)
  have nb: "hasButton h6 \<longrightarrow> consecutiveEndingPasses h6 = 0 \<and> \<not> spight"
    using update_passes_counts [OF 1] rec e6 by (simp add: h5 recorded_def)
  note u7 = update_phase_ok [OF 7 c6 nb]
  from update_cycles_frame [OF 8] show "hist_ok Z b' h'"
  proof
    assume "h' = h7"
    then show ?thesis using u7(1) by simp
  next
    assume a: "l \<noteq> PASS_LOC \<and> h' = h7\<lparr>isNoResult := True, isGameFinished := True\<rparr>"
    then have "consecutiveEndingPasses h1 = 0" "\<not> spight" using update_passes_counts [OF 1] by simp_all
    then have "h7 = h6" using u7(2) rec e6 by (simp add: h5 recorded_def)
    moreover have "game_core Z b' (h6\<lparr>isNoResult := True, isGameFinished := True\<rparr>)"
      using c6(1) by (simp add: game_defs)
    moreover have "result_ok (h6\<lparr>isNoResult := True, isGameFinished := True\<rparr>)"
      using c6(2) by (simp add: running_def result_ok_def)
    ultimately show ?thesis using a by (simp add: hist_ok_def)
  qed
qed

end
