(* ===== verification/HistoryGame.thy ===== *)
theory HistoryGame
  imports HistoryStep
begin

text \<open>
  Whole games: starting a history, the ko table against the plain search, what superko bans
  after a move, and the states that a game reaches through the operations a client calls.
\<close>

section \<open>The table and the plain search\<close>

lemma table_irrelevant:
  assumes "index_ok h" "table_for h table"
  shows "koHashOccursInHistory h k table = koHashOccursInHistory h k None"
    "numberOfKoHashOccurrencesInHistory h k table = numberOfKoHashOccurrencesInHistory h k None"
  using table_search [OF assms] table_search [OF assms(1) table_for_None] by simp_all

lemma index_ok_superko [simp]: "index_ok (h\<lparr>superKoBanned := s\<rparr>) \<longleftrightarrow> index_ok h"
  by (simp add: index_ok_def)

lemma table_for_superko [simp]: "table_for (h\<lparr>superKoBanned := s\<rparr>) table \<longleftrightarrow> table_for h table"
  by (simp add: table_for_def)

lemma superko_point_table:
  assumes "index_ok h" "table_for h table"
  shows "superko_point Z b p table l h = superko_point Z b p None l h"
  using table_irrelevant [OF assms] by (simp add: superko_point_def Let_def)

lemma foldM_superko_table:
  "index_ok h \<Longrightarrow> table_for h table \<Longrightarrow>
     foldM (superko_point Z b p table) ls h = foldM (superko_point Z b p None) ls h"
proof (induction ls arbitrary: h)
  case (Cons l ls)
  show ?case
  proof (cases "superko_point Z b p None l h")
    case None
    then show ?thesis using superko_point_table [OF Cons.prems] by simp
  next
    case (Some h1)
    then obtain s where "h1 = h\<lparr>superKoBanned := s\<rparr>" using superko_point_frame by blast
    then show ?thesis using Cons.IH [of h1] Cons.prems superko_point_table [OF Cons.prems] Some by simp
  qed
qed simp

lemma update_superko_table:
  "index_ok h \<Longrightarrow> table_for h table \<Longrightarrow> update_superko Z b p table h = update_superko Z b p None h"
  by (simp only: update_superko_def foldM_superko_table [of h table])

lemma update_cycles_table:
  "index_ok h \<Longrightarrow> table_for h table \<Longrightarrow> update_cycles l table h = update_cycles l None h"
  by (simp only: update_cycles_def table_irrelevant(2) [of h table])

text \<open>The table stays usable in the positions a search reaches by making moves.\<close>

lemma table_for_recorded:
  assumes "game_core Z b h" "table_for h table" "update_passes Z b l p (started h) = Some (h1, spight)"
    "recorded Z l spight h h1 b' p h4"
  shows "table_for h4 table"
proof -
  have s: "koHashHistory (started h) = koHashHistory h" "firstTurnIdxWithKoHistory (started h) = firstTurnIdxWithKoHistory h"
    "moveHistory (started h) = moveHistory h"
    by (simp_all add: started_def clear_result_def cap_valid_turns_def)
  obtain k where k: "koHashHistory h4 = koHashHistory h1 @ [k]"
    "firstTurnIdxWithKoHistory h4 = firstTurnIdxWithKoHistory h1"
    using assms(4) by (auto simp: recorded_def)
  have "firstTurnIdxWithKoHistory h + length (koHashHistory h) = length (moveHistory h) + 1" "koHashHistory h \<noteq> []"
    using assms(1) by (simp_all add: game_defs)
  then have lt: "firstTurnIdxWithKoHistory h < length (moveHistory h) + 1" by (cases "koHashHistory h") auto
  show ?thesis
    using update_passes_hashes [OF assms(3)] assms(2) lt k unfolding table_for_def s by fastforce
qed

definition after_record ::
  "zobrist \<Rightarrow> board \<Rightarrow> loc \<Rightarrow> player \<Rightarrow> KoHashTable option \<Rightarrow> bool \<Rightarrow> bool \<Rightarrow> bool \<Rightarrow> history \<Rightarrow> (board \<times> history) option" where
  "after_record Z b l p table pe spight wko h4 =
     Option.bind (update_superko Z b (getOpp p) table h4) (\<lambda>h.
     Option.bind (update_bonus l p wko h) (\<lambda>h.
     Option.bind (update_phase Z b p pe spight h) (\<lambda>h.
     Option.bind (update_cycles l table h) (\<lambda>h. Some (b, h)))))"

lemma after_record_table:
  assumes r: "recorded Z l spight h h1 b p h4" and t: "table_for h4 table"
    and 1: "update_passes Z b0 l p h0 = Some (h1, spight)"
  shows "after_record Z b l p table pe spight wko h4 = after_record Z b l p None pe spight wko h4"
proof -
  have i4: "index_ok h4" using r by (simp add: recorded_def game_core_def turns_ok_def)
  show ?thesis
  proof (cases "update_superko Z b (getOpp p) None h4")
    case None
    then show ?thesis using update_superko_table [OF i4 t] by (simp add: after_record_def)
  next
    case (Some h5)
    then obtain s where h5: "h5 = h4\<lparr>superKoBanned := s\<rparr>" using update_superko_frame by blast
    have cyc: "update_cycles l table h7 = update_cycles l None h7"
      if 6: "update_bonus l p wko h5 = Some h6" and 7: "update_phase Z b p pe spight h6 = Some h7" for h6 h7
    proof (cases "l = PASS_LOC")
      case True
      then show ?thesis by (simp add: update_cycles_def)
    next
      case False
      note e6 = bonus_erased_fields [OF update_bonus_erased [OF 6]]
      have "h7 = h6"
        using 7 False update_passes_counts [OF 1] r e6
        by (simp add: update_phase_def recorded_def h5)
      moreover have "index_ok h6" "table_for h6 table"
        using i4 t e6 by (simp_all add: index_ok_def table_for_def h5)
      ultimately show ?thesis using update_cycles_table by blast
    qed
    show ?thesis
      unfolding after_record_def update_superko_table [OF i4 t] Some
      using cyc by (cases "update_bonus l p wko h5") (auto split: bind_splits)
  qed
qed

lemma move_eq_after_record:
  assumes 1: "update_passes Z b l p (started h) = Some (h1, spight)"
    and 2: "try_pass_for_ko Z l p (b, h1) = (b2, h2, wko)"
    and 3: "(if wko then Some (b2, h2) else play_regular Z (pos_hash b) l p (b2, h2)) = Some (b', h3)"
  shows "\<exists>ill. \<forall>table. makeBoardMoveAssumeLegal Z l p table pe (b, h) =
    after_record Z b' l p table pe spight wko (record_move Z b' l p pe ill h3)"
proof -
  let ?ill = "\<not> hist_isLegal (if isGameFinished h \<or> isPastNormalPhaseEnd h then cap_valid_turns h else h) b l p"
  show ?thesis
    by (rule exI [of _ ?ill])
       (use 1 2 3 in \<open>simp only: makeBoardMoveAssumeLegal_def Let_def after_record_def started_def
          prod.case bind.bind_lunit simp_thms\<close>)
qed

lemma move_table_irrelevant:
  assumes core: "game_core Z b h" and pl: "playable b h l p" and p: "is_stone p" and t: "table_for h table"
  shows "makeBoardMoveAssumeLegal Z l p table pe (b, h) = makeBoardMoveAssumeLegal Z l p None pe (b, h)"
proof (cases "update_passes Z b l p (started h)")
  case None
  then show ?thesis by (simp add: makeBoardMoveAssumeLegal_def started_def)
next
  case (Some r)
  then obtain h1 spight where 1: "update_passes Z b l p (started h) = Some (h1, spight)" by (cases r) auto
  obtain b2 h2 wko where 2: "try_pass_for_ko Z l p (b, h1) = (b2, h2, wko)" by (rule prod_cases3)
  show ?thesis
  proof (cases "if wko then Some (b2, h2) else play_regular Z (pos_hash b) l p (b2, h2)")
    case None
    then show ?thesis using 1 2 by (auto simp: makeBoardMoveAssumeLegal_def Let_def started_def split: if_splits)
  next
    case (Some s)
    then obtain b' h3 where 3: "(if wko then Some (b2, h2) else play_regular Z (pos_hash b) l p (b2, h2)) = Some (b', h3)"
      by (cases s) auto
    obtain ill where eq: "makeBoardMoveAssumeLegal Z l p table pe (b, h) =
        after_record Z b' l p table pe spight wko (record_move Z b' l p pe ill h3)" for table
      using move_eq_after_record [OF 1 2 3] by blast
    note rec = move_recorded(1) [OF core pl p 1 2 3, of pe ill]
    show ?thesis unfolding eq by (rule after_record_table [OF rec table_for_recorded [OF core t 1 rec] 1])
  qed
qed

section \<open>What superko bans\<close>

text \<open>
  The points the next player may not play: an empty point, not the simple ko point and not an
  illegal suicide, that was occupied before or where the move takes its own stones, and where
  the position after the move is one of the hashes recorded.
\<close>

definition superko_ban :: "zobrist \<Rightarrow> board \<Rightarrow> player \<Rightarrow> history \<Rightarrow> loc \<Rightarrow> bool" where
  "superko_ban Z b p h l \<longleftrightarrow> colors b l = C_EMPTY \<and> (wasEverOccupiedOrPlayed h l \<or> isSuicide b l p) \<and>
     \<not> isIllegalSuicide b l p (multiStoneSuicideLegal (hist_rules h)) \<and> l \<noteq> ko_loc b \<and>
     (\<exists>b'. playMoveAssumeLegal Z l p b = Some b' \<and>
        getKoHashAfterMoveNonEncore Z (hist_rules h) (pos_hash b') (getOpp p) \<in> set (koHashHistory h))"

lemma superko_ban_frame [simp]: "superko_ban Z b p (h\<lparr>superKoBanned := s\<rparr>) = superko_ban Z b p h"
  by (simp add: superko_ban_def fun_eq_iff)

lemma superko_point_value:
  assumes wf: "wf_board Z b" and p: "is_stone p"
  shows "superko_point Z b p None l h = Some (h\<lparr>superKoBanned := (superKoBanned h)(l := superko_ban Z b p h l)\<rparr>)"
proof (cases "colors b l = C_EMPTY")
  case True
  then have m: "move_at Z b l p" using move_atI [OF wf] p by blast
  obtain b' where b': "playMoveAssumeLegal Z l p b = Some b'"
    and h: "getPosHashAfterMove Z b l p = Some (pos_hash b')"
    by (rule played [OF m]) (use getPosHashAfterMove_eq [OF m] in auto)
  have "(\<exists>x. x \<in> set (koHashHistory h) \<and> x = k) \<longleftrightarrow> k \<in> set (koHashHistory h)" for k by blast
  then show ?thesis
    using True unfolding superko_point_def superko_ban_def Let_def koHashOccursInHistory_def
    by (auto simp: h b' list_ex_iff)
next
  case False
  then show ?thesis by (simp add: superko_point_def superko_ban_def Let_def)
qed

lemma superko_fold:
  assumes wf: "wf_board Z b" and p: "is_stone p"
  shows "foldM (superko_point Z b p None) ls h =
    Some (h\<lparr>superKoBanned := \<lambda>l. if l \<in> set ls then superko_ban Z b p h l else superKoBanned h l\<rparr>)"
proof (induction ls arbitrary: h)
  case Nil
  then show ?case by simp
next
  case (Cons l ls)
  let ?h1 = "h\<lparr>superKoBanned := (superKoBanned h)(l := superko_ban Z b p h l)\<rparr>"
  have "foldM (superko_point Z b p None) (l # ls) h = foldM (superko_point Z b p None) ls ?h1"
    by (subst foldM.simps, subst superko_point_value [OF assms]) (rule bind.bind_lunit)
  also have "\<dots> = Some (h\<lparr>superKoBanned := \<lambda>k. if k \<in> set ls then superko_ban Z b p h k else superKoBanned ?h1 k\<rparr>)"
    unfolding Cons.IH by simp
  also have "(\<lambda>k. if k \<in> set ls then superko_ban Z b p h k else superKoBanned ?h1 k) =
      (\<lambda>k. if k \<in> set (l # ls) then superko_ban Z b p h k else superKoBanned h k)" by auto
  finally show ?case .
qed

lemma no_blocks_zero: "phase_ok h \<Longrightarrow> blocks_ok Z xs ys h \<Longrightarrow> encorePhase h \<le> 0 \<Longrightarrow> koRecapBlockHash h = hash128_zero"
  by (simp add: phase_ok_def blocks_ok_def)

lemma update_superko_main:
  assumes core: "game_core Z b h" and p: "is_stone p" and e: "encorePhase h \<le> 0" "koRule (hist_rules h) \<noteq> KO_SIMPLE"
  shows "update_superko Z b p None h =
    Some (h\<lparr>superKoBanned := \<lambda>l. if on_board (x_size b) (y_size b) l then superko_ban Z b p h l else superKoBanned h l\<rparr>)"
proof -
  have "geom_ok b" "wf_board Z b" using core by (simp_all add: game_core_def wf_board_def core_def)
  then have "set (board_locs b) = {l. on_board (x_size b) (y_size b) l}" by (simp add: geom_ok_def board_locs_eq set_locs_of)
  moreover have "koRecapBlockHash h = hash128_zero"
    using core no_blocks_zero [OF _ _ e(1)] unfolding game_core_def by blast
  ultimately show ?thesis
    using e superko_fold [OF \<open>wf_board Z b\<close> p, of "board_locs b" h] by (simp add: update_superko_def)
qed

text \<open>What the ban of a point depends on, and how the last parts of a move leave it.\<close>

definition ko_view :: "history \<Rightarrow> (loc \<Rightarrow> bool) \<times> hash128 list \<times> (loc \<Rightarrow> bool) \<times> rules \<times> int" where
  "ko_view h = (superKoBanned h, koHashHistory h, wasEverOccupiedOrPlayed h, hist_rules h, encorePhase h)"

lemma ko_view_bonus:
  assumes "update_bonus l p w h = Some h'"
  shows "ko_view h' = ko_view h"
proof -
  have "ko_view (bonus_erased h) = ko_view h" for h by (simp add: ko_view_def bonus_erased_def)
  then show ?thesis using update_bonus_erased [OF assms] by metis
qed

lemma ko_view_phase:
  assumes "update_phase Z b p pe spight h = Some h'"
  shows "ko_view h' = ko_view h \<or> encorePhase h' = encorePhase h + 1"
proof -
  have "ko_view (finish_scored s (take_button h)) = ko_view h" for s
    by (simp add: ko_view_def finish_scored_def setFinalScoreAndWinner_def take_button_def Let_def)
  moreover have "ko_view (cap_valid_turns (h\<lparr>isPastNormalPhaseEnd := True\<rparr>)) = ko_view h"
    by (simp add: ko_view_def cap_valid_turns_def)
  moreover have "encorePhase (next_encore Z b p h) = encorePhase h + 1" by (simp add: next_encore_def Let_def)
  ultimately show ?thesis
    using assms by (auto simp: update_phase_def endAndScoreGameNow_def split: if_splits bind_splits)
qed

lemma ko_view_cycles: "update_cycles l table h = Some h' \<Longrightarrow> ko_view h' = ko_view h"
  using update_cycles_frame [of l table h h'] by (auto simp: ko_view_def)

lemma move_superko:
  assumes core: "game_core Z b h" and pl: "playable b h l p" and p: "is_stone p" and t: "table_for h table"
    and m: "makeBoardMoveAssumeLegal Z l p table pe (b, h) = Some (b', h')"
    and e: "encorePhase h' = 0" "koRule (hist_rules h) \<noteq> KO_SIMPLE" and ob: "on_board (x_size b') (y_size b') q"
  shows "superKoBanned h' q \<longleftrightarrow> superko_ban Z b' (getOpp p) h' q"
proof -
  from m have "makeBoardMoveAssumeLegal Z l p None pe (b, h) = Some (b', h')"
    using move_table_irrelevant [OF core pl p t] by simp
  then obtain h1 spight b2 h2 wko h3 ill h5 h6 h7 where
    1: "update_passes Z b l p (started h) = Some (h1, spight)"
    and 2: "try_pass_for_ko Z l p (b, h1) = (b2, h2, wko)"
    and 3: "(if wko then Some (b2, h2) else play_regular Z (pos_hash b) l p (b2, h2)) = Some (b', h3)"
    and 5: "update_superko Z b' (getOpp p) None (record_move Z b' l p pe ill h3) = Some h5"
    and 6: "update_bonus l p wko h5 = Some h6"
    and 7: "update_phase Z b' p pe spight h6 = Some h7"
    and 8: "update_cycles l None h7 = Some h'"
    by (rule move_parts)
  let ?h4 = "record_move Z b' l p pe ill h3"
  note rec = move_recorded(1) [OF core pl p 1 2 3, of pe ill]
  obtain sk where h5: "h5 = ?h4\<lparr>superKoBanned := sk\<rparr>" using update_superko_frame [OF 5] by blast
  have v6: "ko_view h6 = ko_view h5" by (rule ko_view_bonus [OF 6])
  have "encorePhase h6 \<ge> 0" using v6 rec by (simp add: ko_view_def h5 recorded_def game_core_def phase_ok_def)
  then have v7: "ko_view h' = ko_view h6" using ko_view_phase [OF 7] ko_view_cycles [OF 8] e(1) by (auto simp: ko_view_def)
  have v: "ko_view h' = ko_view h5" using v6 v7 by simp
  have p': "is_stone (getOpp p)" using p by (cases p) simp_all
  have "encorePhase ?h4 \<le> 0" "koRule (hist_rules ?h4) \<noteq> KO_SIMPLE" "game_core Z b' ?h4"
    using v e rec by (simp_all add: ko_view_def h5 recorded_def)
  from update_superko_main [OF this(3) p' this(1,2)] 5
  have "superKoBanned h5 q = superko_ban Z b' (getOpp p) ?h4 q" using ob by auto
  also have "\<dots> = superko_ban Z b' (getOpp p) h5 q" by (simp add: h5)
  also have "\<dots> = superko_ban Z b' (getOpp p) h' q" using v by (simp add: superko_ban_def ko_view_def)
  finally show ?thesis using v by (simp add: ko_view_def)
qed

section \<open>Starting a game\<close>

lemma setHandicapBonus_total:
  "rules_ok (hist_rules h) \<Longrightarrow> \<exists>y. setHandicapBonus h = Some (h\<lparr>whiteHandicapBonusScore := y\<rparr>)"
proof -
  assume "rules_ok (hist_rules h)"
  then have "whiteHandicapBonusRule (hist_rules h) \<in> {WHB_ZERO, WHB_N, WHB_N_MINUS_ONE}"
    by (simp add: rules_ok_def)
  then obtain n where "computeWhiteHandicapBonus h = Some n"
    unfolding computeWhiteHandicapBonus_def Let_def by fastforce
  then have "setHandicapBonus h = Some (h\<lparr>whiteHandicapBonusScore := of_int n\<rparr>)"
    by (simp only: setHandicapBonus_def option.map)
  then show ?thesis by (rule exI)
qed

lemma clear_fields_simps [simp]:
  "hist_rules (clear_fields b pla r e h) = r" "moveHistory (clear_fields b pla r e h) = []"
  "preventEncoreHistory (clear_fields b pla r e h) = []" "encorePhase (clear_fields b pla r e h) = e"
  "koRecapBlocked (clear_fields b pla r e h) = (\<lambda>_. False)"
  "koRecapBlockHash (clear_fields b pla r e h) = hash128_zero"
  "presumedNextMovePla (clear_fields b pla r e h) = pla" "koHashHistory (clear_fields b pla r e h) = []"
  "firstTurnIdxWithKoHistory (clear_fields b pla r e h) = 0" "currentRecentBoardIdx (clear_fields b pla r e h) = 0"
  "recentBoards (clear_fields b pla r e h) 0 = b" "running (clear_fields b pla r e h)"
  "consecutiveEndingPasses (clear_fields b pla r e h) = 0"
  "hashesBeforeBlackPass (clear_fields b pla r e h) = []" "hashesBeforeWhitePass (clear_fields b pla r e h) = []"
  "hasButton (clear_fields b pla r e h) \<longleftrightarrow> rules_hasButton r \<and> encorePhase h = 0"
  by (simp_all add: clear_fields_def running_def NUM_RECENT_BOARDS_def)

lemma clear_cases:
  assumes "clear Z b pla r e h = Some h'"
  shows "0 \<le> e \<and> e \<le> 2 \<and> (e > 0 \<longrightarrow> scoringRule r = SCORING_TERRITORY)"
    "\<exists>x y s. h' = (clear_fields b pla r e h)\<lparr>secondEncoreStartColors := s,
       koHashHistory := [getKoHash Z r b pla e hash128_zero], whiteBonusScore := x, whiteHandicapBonusScore := y\<rparr>"
proof -
  show "0 \<le> e \<and> e \<le> 2 \<and> (e > 0 \<longrightarrow> scoringRule r = SCORING_TERRITORY)"
    using assms by (auto simp: clear_def Let_def split: if_splits)
  let ?c = "clear_fields b pla r e h"
  let ?s = "if e = 2 then colors b else (\<lambda>_. C_EMPTY)"
  let ?h = "?c\<lparr>secondEncoreStartColors := ?s, koHashHistory := [getKoHash Z r b pla e hash128_zero]\<rparr>"
  let ?w = "if scoringRule r = SCORING_TERRITORY then whiteBonusScore ?c + clear_bonus b else whiteBonusScore ?c"
  have "setHandicapBonus (?h\<lparr>whiteBonusScore := ?w\<rparr>) = Some h'"
    using assms unfolding clear_def Let_def by (simp split: if_splits)
  then obtain y where "h' = ?h\<lparr>whiteBonusScore := ?w, whiteHandicapBonusScore := y\<rparr>"
    using setHandicapBonus_frame by blast
  then show "\<exists>x y s. h' = ?c\<lparr>secondEncoreStartColors := s,
       koHashHistory := [getKoHash Z r b pla e hash128_zero], whiteBonusScore := x, whiteHandicapBonusScore := y\<rparr>"
    by (intro exI)
qed

lemma clear_hasButton:
  assumes "clear Z b pla r e h = Some h'"
  shows "hasButton h' \<longleftrightarrow> rules_hasButton r \<and> encorePhase h = 0"
  using clear_cases(2) [OF assms] by auto

lemma clear_ok:
  assumes wf: "wf_board Z b" and c: "clear Z b pla r e h = Some h'"
    and b: "rules_hasButton r \<Longrightarrow> encorePhase h = 0 \<Longrightarrow> e = 0"
  shows "hist_ok Z b h'" "running h'"
proof -
  obtain x y s where h': "h' = (clear_fields b pla r e h)\<lparr>secondEncoreStartColors := s,
       koHashHistory := [getKoHash Z r b pla e hash128_zero], whiteBonusScore := x, whiteHandicapBonusScore := y\<rparr>"
    using clear_cases(2) [OF c] by blast
  have "running (clear_fields b pla r e h)" by simp
  then show r: "running h'" unfolding h' running_def by simp
  have "game_core Z b h'"
    using wf clear_cases(1) [OF c] b unfolding game_defs h' NUM_RECENT_BOARDS_def by auto
  then show "hist_ok Z b h'" using running_result_ok [OF r] by (simp add: hist_ok_def)
qed

lemma clear_total:
  assumes "rules_ok r" "0 \<le> e" "e \<le> 2" "e > 0 \<Longrightarrow> scoringRule r = SCORING_TERRITORY"
  shows "\<exists>h'. clear Z b pla r e h = Some h'"
proof -
  have "\<exists>h'. setHandicapBonus h = Some h'" if "hist_rules h = r" for h
    using setHandicapBonus_total [of h] that assms(1) by auto
  moreover have "\<not> (e > 0 \<and> scoringRule r \<noteq> SCORING_TERRITORY)" using assms(4) by blast
  ultimately show ?thesis using assms(2,3) unfolding clear_def Let_def by simp
qed

section \<open>The operations of a client\<close>

text \<open>
  One operation on a game as the rest of the program uses it: moves, the end of the game, and
  the setters. A move gets a table of the same game, as the search passes it.
\<close>

inductive client_step :: "zobrist \<Rightarrow> board \<times> history \<Rightarrow> board \<times> history \<Rightarrow> bool" for Z where
  make_move: "is_stone p \<Longrightarrow> playable b h l p \<Longrightarrow> table_for h table \<Longrightarrow>
    makeBoardMoveAssumeLegal Z l p table pe (b, h) = Some s \<Longrightarrow> client_step Z (b, h) s"
| make_tolerant: "makeBoardMoveTolerant Z l p (b, h) = Some (s, ok) \<Longrightarrow> client_step Z (b, h) s"
| score_now: "endAndScoreGameNow b h = Some (h', area) \<Longrightarrow> client_step Z (b, h) (b, h')"
| all_pass_alive: "endGameIfAllPassAlive b h = Some h' \<Longrightarrow> client_step Z (b, h) (b, h')"
| resign: "client_step Z (b, h) (b, setWinnerByResignation p h)"
| set_komi: "client_step Z (b, h) (b, setKomi k h)"
| set_modes: "client_step Z (b, h) (b, setModes m h)"
| set_turn: "client_step Z (b, h) (b, setInitialTurnNumber n h)"
| set_multiple: "setAssumeMultipleStartingBlackMovesAreHandicap v h = Some h' \<Longrightarrow> client_step Z (b, h) (b, h')"
| set_handicap: "setOverrideNumHandicapStones n h = Some h' \<Longrightarrow> client_step Z (b, h) (b, h')"

inductive_cases client_stepE: "client_step Z (b, h) (b', h')"

lemma legal_playable: "isLegalIgnoringKo b l p multi \<Longrightarrow> l = PASS_LOC \<or> colors b l = C_EMPTY"
  by (auto simp: isLegalIgnoringKo_def split: if_splits)

lemma tolerant_playable:
  assumes "makeBoardMoveTolerant Z l p (b, h) = Some (s, True)"
  shows "is_stone p \<and> playable b h l p \<and> makeBoardMoveAssumeLegal Z l p None False (b, h) = Some s"
proof -
  have "is_stone p" using assms by (auto simp: makeBoardMoveTolerant_def stone_cases split: if_splits)
  moreover have "isPassForKo h b l p \<or> isLegalIgnoringKo b l p True"
    using assms by (auto simp: makeBoardMoveTolerant_def split: if_splits)
  ultimately show ?thesis
    using assms legal_playable [of b l p True]
    by (auto simp: makeBoardMoveTolerant_def playable_def split: if_splits bind_splits)
qed

lemma setKomi_core: "game_core Z b (setKomi k h) \<longleftrightarrow> game_core Z b h"
  by (simp add: setKomi_def setFinalScoreAndWinner_def Let_def game_defs getKoHash_def)

lemma setKomi_result: "result_ok h \<Longrightarrow> result_ok (setKomi k h)"
proof (cases "isGameFinished h \<and> isScored h")
  case True
  then show "result_ok h \<Longrightarrow> ?thesis"
    unfolding setKomi_def setFinalScoreAndWinner_def Let_def result_ok_def by simp
next
  case False
  then have "setKomi k h = h\<lparr>hist_rules := (hist_rules h)\<lparr>komi := k\<rparr>\<rparr>"
    unfolding setKomi_def Let_def by (cases "isGameFinished h") simp_all
  then show "result_ok h \<Longrightarrow> ?thesis" by (simp only: result_ok_def) simp
qed

lemma setHandicapBonus_keeps: "setHandicapBonus h = Some h' \<Longrightarrow> hist_ok Z b h' \<longleftrightarrow> hist_ok Z b h"
  by (drule setHandicapBonus_frame) (elim exE, simp add: hist_ok_def game_defs result_ok_def)

lemma client_step_ok:
  assumes "client_step Z s s'" "hist_ok Z (fst s) (snd s)"
  shows "hist_ok Z (fst s') (snd s')"
  using assms
proof (cases rule: client_step.cases)
  case (make_move p b h l table pe)
  then show ?thesis using assms(2) move_keeps(1) [of Z b h l p table pe "fst s'" "snd s'"] by (simp add: hist_ok_def)
next
  case (make_tolerant l p b h ok)
  show ?thesis
  proof (cases ok)
    case True
    then show ?thesis
      using make_tolerant assms(2) tolerant_playable [of Z l p b h s']
        move_keeps(1) [of Z b h l p None False "fst s'" "snd s'"] by (simp add: hist_ok_def)
  next
    case False
    then have "s' = (b, h)"
      using make_tolerant by (auto simp: makeBoardMoveTolerant_def split: if_splits bind_splits)
    then show ?thesis using make_tolerant assms(2) by simp
  qed
next
  case (score_now b h h' area)
  then show ?thesis using assms(2) endAndScoreGameNow_ok by (auto simp: hist_ok_def)
next
  case (all_pass_alive b h h')
  then have "h' = h \<or> (\<exists>s. h' = finish_scored s (take_button h)) \<or> (\<exists>a. endAndScoreGameNow b h = Some (h', a))"
    by (auto simp: endGameIfAllPassAlive_def split: bind_splits sum.splits if_splits)
  then show ?thesis
    using all_pass_alive assms(2) endAndScoreGameNow_ok [of Z b h h']
    by (auto simp: hist_ok_def finish_scored_core take_button_core finish_scored_result)
next
  case (resign b h p)
  then show ?thesis
    using assms(2) by (simp add: hist_ok_def setWinnerByResignation_def game_defs result_ok_def)
next
  case (set_komi b h k)
  then show ?thesis using assms(2) by (simp add: hist_ok_def setKomi_core setKomi_result)
next
  case (set_modes b h m)
  then show ?thesis using assms(2) by (simp add: hist_ok_def setModes_def game_defs result_ok_def)
next
  case (set_turn b h n)
  then show ?thesis using assms(2) by (simp add: hist_ok_def setInitialTurnNumber_def game_defs result_ok_def)
next
  case (set_multiple v h h' b)
  have "hist_ok Z b (h\<lparr>assumeMultipleStartingBlackMovesAreHandicap := v\<rparr>) \<longleftrightarrow> hist_ok Z b h"
    by (simp add: hist_ok_def game_defs result_ok_def)
  then show ?thesis
    using set_multiple assms(2) setHandicapBonus_keeps by (simp add: setAssumeMultipleStartingBlackMovesAreHandicap_def)
next
  case (set_handicap n h h' b)
  have "hist_ok Z b (h\<lparr>overrideNumHandicapStones := n\<rparr>) \<longleftrightarrow> hist_ok Z b h"
    by (simp add: hist_ok_def game_defs result_ok_def)
  then show ?thesis
    using set_handicap assms(2) setHandicapBonus_keeps by (simp add: setOverrideNumHandicapStones_def)
qed

lemma reachable_ok:
  assumes "(client_step Z)\<^sup>*\<^sup>* s s'" "hist_ok Z (fst s) (snd s)"
  shows "hist_ok Z (fst s') (snd s')"
  using assms by (induction rule: rtranclp_induct) (simp_all add: client_step_ok)

section \<open>The table of the root of a search\<close>

lemma update_phase_hashes:
  assumes "update_phase Z b p pe spight h = Some h'"
  shows "koHashHistory h' = koHashHistory h \<and> firstTurnIdxWithKoHistory h' = firstTurnIdxWithKoHistory h \<or>
    firstTurnIdxWithKoHistory h' = length (moveHistory h)"
proof -
  have "koHashHistory (finish_scored s (take_button h)) = koHashHistory h"
    "firstTurnIdxWithKoHistory (finish_scored s (take_button h)) = firstTurnIdxWithKoHistory h" for s
    by (simp_all add: finish_scored_def setFinalScoreAndWinner_def take_button_def Let_def)
  moreover have "koHashHistory (cap_valid_turns (h\<lparr>isPastNormalPhaseEnd := True\<rparr>)) = koHashHistory h"
    "firstTurnIdxWithKoHistory (cap_valid_turns (h\<lparr>isPastNormalPhaseEnd := True\<rparr>)) = firstTurnIdxWithKoHistory h"
    by (simp_all add: cap_valid_turns_def)
  moreover have "firstTurnIdxWithKoHistory (next_encore Z b p h) = length (moveHistory h)"
    by (simp add: next_encore_def Let_def)
  ultimately show ?thesis
    using assms by (auto simp: update_phase_def endAndScoreGameNow_def split: if_splits bind_splits)
qed

lemma table_for_cong:
  "koHashHistory h' = koHashHistory h \<Longrightarrow> firstTurnIdxWithKoHistory h' = firstTurnIdxWithKoHistory h \<Longrightarrow>
     table_for h' table \<longleftrightarrow> table_for h table"
  by (simp add: table_for_def)

lemma move_table_for:
  assumes core: "game_core Z b h" and pl: "playable b h l p" and p: "is_stone p" and t: "table_for h table"
    and m: "makeBoardMoveAssumeLegal Z l p table' pe (b, h) = Some (b', h')"
  shows "table_for h' table"
proof -
  from m obtain h1 spight b2 h2 wko h3 ill h5 h6 h7 where
    1: "update_passes Z b l p (started h) = Some (h1, spight)"
    and 2: "try_pass_for_ko Z l p (b, h1) = (b2, h2, wko)"
    and 3: "(if wko then Some (b2, h2) else play_regular Z (pos_hash b) l p (b2, h2)) = Some (b', h3)"
    and 5: "update_superko Z b' (getOpp p) table' (record_move Z b' l p pe ill h3) = Some h5"
    and 6: "update_bonus l p wko h5 = Some h6"
    and 7: "update_phase Z b' p pe spight h6 = Some h7"
    and 8: "update_cycles l table' h7 = Some h'"
    by (rule move_parts)
  let ?h4 = "record_move Z b' l p pe ill h3"
  note rec = move_recorded(1) [OF core pl p 1 2 3, of pe ill]
  have t4: "table_for ?h4 table" by (rule table_for_recorded [OF core t 1 rec])
  obtain sk where h5: "h5 = ?h4\<lparr>superKoBanned := sk\<rparr>" using update_superko_frame [OF 5] by blast
  note e6 = bonus_erased_fields [OF update_bonus_erased [OF 6]]
  have t6: "table_for h6 table" using t4 table_for_cong [of h6 ?h4] e6 by (simp add: h5)
  have "firstTurnIdxWithKoHistory h + length (koHashHistory h) = length (moveHistory h) + 1" "koHashHistory h \<noteq> []"
    using core by (simp_all add: game_defs)
  then have "firstTurnIdxWithKoHistory h < length (moveHistory h) + 1" by (cases "koHashHistory h") auto
  then have lt: "firstTurnIdxWithKoHistory h < length (moveHistory h6)"
    using rec e6 by (simp add: h5 recorded_def)
  have t7: "table_for h7 table" using update_phase_hashes [OF 7]
  proof
    assume "koHashHistory h7 = koHashHistory h6 \<and> firstTurnIdxWithKoHistory h7 = firstTurnIdxWithKoHistory h6"
    then show ?thesis using t6 table_for_cong [of h7 h6] by simp
  next
    assume "firstTurnIdxWithKoHistory h7 = length (moveHistory h6)"
    then show ?thesis using t lt unfolding table_for_def by fastforce
  qed
  have "koHashHistory h' = koHashHistory h7" "firstTurnIdxWithKoHistory h' = firstTurnIdxWithKoHistory h7"
    using update_cycles_frame [OF 8] by auto
  then show ?thesis using t7 table_for_cong [of h' h7] by simp
qed

lemma setHandicapBonus_table: "setHandicapBonus h = Some h' \<Longrightarrow> table_for h' table \<longleftrightarrow> table_for h table"
  by (drule setHandicapBonus_frame) (elim exE, simp add: table_for_def)

lemma finish_take_table: "table_for (finish_scored s (take_button h)) table \<longleftrightarrow> table_for h table"
  by (rule table_for_cong) (simp_all add: finish_scored_def setFinalScoreAndWinner_def take_button_def Let_def)

lemma client_step_table:
  assumes "client_step Z s s'" "hist_ok Z (fst s) (snd s)" "table_for (snd s) table"
  shows "table_for (snd s') table"
  using assms
proof (cases rule: client_step.cases)
  case (make_move p b h l table' pe)
  then show ?thesis
    using assms(2,3) move_table_for [of Z b h l p table table' pe "fst s'" "snd s'"] by (simp add: hist_ok_def)
next
  case (make_tolerant l p b h ok)
  show ?thesis
  proof (cases ok)
    case True
    then show ?thesis
      using make_tolerant assms(2,3) tolerant_playable [of Z l p b h s']
        move_table_for [of Z b h l p table None False "fst s'" "snd s'"] by (simp add: hist_ok_def)
  next
    case False
    then have "s' = (b, h)"
      using make_tolerant by (auto simp: makeBoardMoveTolerant_def split: if_splits bind_splits)
    then show ?thesis using make_tolerant assms(3) by simp
  qed
next
  case (score_now b h h' area)
  then obtain c where "h' = finish_scored c (take_button h)"
    by (auto simp: endAndScoreGameNow_def split: bind_splits)
  then show ?thesis using score_now assms(3) by (simp add: finish_take_table)
next
  case (all_pass_alive b h h')
  then have "h' = h \<or> (\<exists>s. h' = finish_scored s (take_button h))"
    by (auto simp: endGameIfAllPassAlive_def endAndScoreGameNow_def split: bind_splits sum.splits if_splits)
  then show ?thesis using all_pass_alive assms(3) by (auto simp: finish_take_table)
next
  case (resign b h p)
  then show ?thesis using assms(3) by (simp add: setWinnerByResignation_def table_for_def)
next
  case (set_komi b h k)
  then show ?thesis
    using assms(3) table_for_cong [of "setKomi k h" h] by (simp add: setKomi_def setFinalScoreAndWinner_def Let_def)
next
  case (set_modes b h m)
  then show ?thesis using assms(3) by (simp add: setModes_def table_for_def)
next
  case (set_turn b h n)
  then show ?thesis using assms(3) by (simp add: setInitialTurnNumber_def table_for_def)
next
  case (set_multiple v h h' b)
  then show ?thesis
    using assms(3) setHandicapBonus_table [of "h\<lparr>assumeMultipleStartingBlackMovesAreHandicap := v\<rparr>" h' table]
    by (simp add: setAssumeMultipleStartingBlackMovesAreHandicap_def table_for_def)
next
  case (set_handicap n h h' b)
  then show ?thesis
    using assms(3) setHandicapBonus_table [of "h\<lparr>overrideNumHandicapStones := n\<rparr>" h' table]
    by (simp add: setOverrideNumHandicapStones_def table_for_def)
qed

lemma reachable_table:
  assumes "(client_step Z)\<^sup>*\<^sup>* s s'" "hist_ok Z (fst s) (snd s)" "table_for (snd s) table"
  shows "table_for (snd s') table"
  using assms
proof (induction rule: rtranclp_induct)
  case (step u v)
  then show ?case using client_step_table reachable_ok [OF step.hyps(1)] by blast
qed simp

lemma recompute_returns:
  assumes "length (koHashHistory h) \<le> 1000000000"
  shows "\<exists>t. recompute h t0 = Inr t"
proof -
  let ?hs = "sort_key (\<lambda>k. (low_bits k, k)) (koHashHistory h)"
  obtain i tab where "fold (fill_index ?hs) [0..<TABLE_SIZE] (0, idxTable t0) = (i, tab)" by fastforce
  moreover have "\<not> length ?hs > 1000000000" using assms by simp
  ultimately show ?thesis unfolding recompute_def kt_recompute_def Let_def by simp
qed

lemma table_of_root: "recompute h t0 = Inr t \<Longrightarrow> table_for h (Some t)"
  by (auto simp: table_for_def)

section \<open>What a pass does\<close>

lemma newConsecutive_total: "rules_ok (hist_rules h) \<Longrightarrow> \<exists>n. newConsecutiveEndingPassesAfterPass h = Some n \<and>
    (n = consecutiveEndingPasses h + 1 \<or> n = 0)"
  by (auto simp: newConsecutiveEndingPassesAfterPass_def rules_ok_def Let_def)

text \<open>The fields a prediction about a pass reads.\<close>

lemma pass_reads:
  assumes "hist_rules g = hist_rules h" "encorePhase g = encorePhase h"
    "consecutiveEndingPasses g = consecutiveEndingPasses h"
    "hashesBeforeBlackPass g = hashesBeforeBlackPass h" "hashesBeforeWhitePass g = hashesBeforeWhitePass h"
  shows "newConsecutiveEndingPassesAfterPass g = newConsecutiveEndingPassesAfterPass h"
    "phaseHasSpightlikeEndingAndPassHistoryClearing g = phaseHasSpightlikeEndingAndPassHistoryClearing h"
  using assms by (simp_all add: newConsecutiveEndingPassesAfterPass_def Let_def phaseHasSpightlikeEndingAndPassHistoryClearing_def)

lemma spight_reads:
  assumes "hist_rules g = hist_rules h" "encorePhase g = encorePhase h"
    "hashesBeforeBlackPass g = hashesBeforeBlackPass h" "hashesBeforeWhitePass g = hashesBeforeWhitePass h"
  shows "wouldBeSpightlikeEndingPass g p k = wouldBeSpightlikeEndingPass h p k"
  using assms by (simp add: wouldBeSpightlikeEndingPass_def phaseHasSpightlikeEndingAndPassHistoryClearing_def)

lemma update_passes_pass:
  assumes core: "game_core Z b h" and r: "rules_ok (hist_rules h)"
    and 1: "update_passes Z b PASS_LOC p (started h) = Some (h1, spight)"
  shows "passWouldEndPhase Z h b p = Some (consecutiveEndingPasses h1 \<ge> 2 \<or> spight)"
proof -
  let ?s = "started h"
  let ?k = "getKoHash Z (hist_rules h) b p (encorePhase h) (koRecapBlockHash h)"
  have f: "hist_rules ?s = hist_rules h" "encorePhase ?s = encorePhase h" "koRecapBlockHash ?s = koRecapBlockHash h"
    "consecutiveEndingPasses ?s = consecutiveEndingPasses h" "hasButton ?s = hasButton h"
    "hashesBeforeBlackPass ?s = hashesBeforeBlackPass h" "hashesBeforeWhitePass ?s = hashesBeforeWhitePass h"
    by (simp_all add: started_def clear_result_def cap_valid_turns_def)
  obtain n where n: "newConsecutiveEndingPassesAfterPass h = Some n" "n = consecutiveEndingPasses h + 1 \<or> n = 0"
    using newConsecutive_total [OF r] by blast
  show ?thesis
  proof (cases "hasButton h")
    case True
    then have "consecutiveEndingPasses h1 = 0 \<and> \<not> spight"
      using 1 f by (auto simp: update_passes_def split: if_splits)
    moreover have "consecutiveEndingPasses h = 0" "hashesBeforeBlackPass h = []" "hashesBeforeWhitePass h = []"
      using core True by (simp_all add: game_core_def phase_ok_def)
    ultimately show ?thesis using n by (auto simp: passWouldEndPhase_def wouldBeSpightlikeEndingPass_def)
  next
    case False
    let ?g = "if phaseHasSpightlikeEndingAndPassHistoryClearing ?s
      then ?s\<lparr>koHashHistory := [], firstTurnIdxWithKoHistory := length (moveHistory ?s) + 1\<rparr> else ?s"
    have g: "hist_rules ?g = hist_rules h" "encorePhase ?g = encorePhase h" "koRecapBlockHash ?g = koRecapBlockHash h"
      "consecutiveEndingPasses ?g = consecutiveEndingPasses h"
      "hashesBeforeBlackPass ?g = hashesBeforeBlackPass h" "hashesBeforeWhitePass ?g = hashesBeforeWhitePass h"
      using f by simp_all
    have c: "newConsecutiveEndingPassesAfterPass ?g = Some n" using pass_reads(1) [of ?g h] g n by simp
    have sp: "wouldBeSpightlikeEndingPass (?g\<lparr>consecutiveEndingPasses := n\<rparr>) p ?k = wouldBeSpightlikeEndingPass h p ?k"
      by (rule spight_reads) (simp_all add: g)
    have "update_passes Z b PASS_LOC p ?s =
        (let g = ?g\<lparr>consecutiveEndingPasses := n\<rparr> in
          if p = P_BLACK then Some (g\<lparr>hashesBeforeBlackPass := hashesBeforeBlackPass g @ [?k]\<rparr>, wouldBeSpightlikeEndingPass h p ?k)
          else if p = P_WHITE then Some (g\<lparr>hashesBeforeWhitePass := hashesBeforeWhitePass g @ [?k]\<rparr>, wouldBeSpightlikeEndingPass h p ?k)
          else None)"
      unfolding update_passes_def Let_def [of ?g] g using False f(5)
      by (simp only: c bind.bind_lunit Let_def sp if_False simp_thms)
    then have "consecutiveEndingPasses h1 = n \<and> spight = wouldBeSpightlikeEndingPass h p ?k"
      using 1 by (auto simp: Let_def split: if_splits)
    then show ?thesis using n(1) by (simp add: passWouldEndPhase_def)
  qed
qed

lemma update_phase_effect:
  assumes "update_phase Z b p False spight h = Some h'" "running h" "rules_ok (hist_rules h)"
  shows "isGameFinished h' \<longleftrightarrow> (consecutiveEndingPasses h \<ge> 2 \<or> spight) \<and>
      (scoringRule (hist_rules h) = SCORING_AREA \<or> (scoringRule (hist_rules h) = SCORING_TERRITORY \<and> encorePhase h \<ge> 2))"
    "encorePhase h' = (if (consecutiveEndingPasses h \<ge> 2 \<or> spight) \<and> \<not> isGameFinished h' then encorePhase h + 1 else encorePhase h)"
proof -
  have f: "isGameFinished (finish_scored s (take_button h))"
    "encorePhase (finish_scored s (take_button h)) = encorePhase h" for s
    by (simp_all add: finish_scored_def setFinalScoreAndWinner_def take_button_def Let_def)
  have n: "\<not> isGameFinished (next_encore Z b p h)" "encorePhase (next_encore Z b p h) = encorePhase h + 1"
    using assms(2) by (simp_all add: next_encore_def Let_def running_def)
  have r: "scoringRule (hist_rules h) = SCORING_AREA \<or> scoringRule (hist_rules h) = SCORING_TERRITORY"
    "SCORING_AREA \<noteq> SCORING_TERRITORY"
    using assms(3) by (auto simp: rules_ok_def SCORING_AREA_def SCORING_TERRITORY_def)
  have "if consecutiveEndingPasses h \<ge> 2 \<or> spight
      then (if scoringRule (hist_rules h) = SCORING_AREA \<or> encorePhase h \<ge> 2
            then (\<exists>s. h' = finish_scored s (take_button h)) else h' = next_encore Z b p h)
      else h' = h"
    using assms(1) r by (auto simp: update_phase_def endAndScoreGameNow_def split: if_splits bind_splits)
  then show "isGameFinished h' \<longleftrightarrow> (consecutiveEndingPasses h \<ge> 2 \<or> spight) \<and>
      (scoringRule (hist_rules h) = SCORING_AREA \<or> (scoringRule (hist_rules h) = SCORING_TERRITORY \<and> encorePhase h \<ge> 2))"
    "encorePhase h' = (if (consecutiveEndingPasses h \<ge> 2 \<or> spight) \<and> \<not> isGameFinished h' then encorePhase h + 1 else encorePhase h)"
    using f n r assms(2) by (auto simp: running_def split: if_splits)
qed

lemma pass_effect:
  assumes core: "game_core Z b h" and r: "rules_ok (hist_rules h)" and p: "is_stone p"
    and m: "makeBoardMoveAssumeLegal Z PASS_LOC p table False (b, h) = Some (b', h')"
  shows "\<exists>v. passWouldEndPhase Z h b p = Some v \<and> (v \<longleftrightarrow> isGameFinished h' \<or> encorePhase h' = encorePhase h + 1)"
    "passWouldEndGame Z h b p = Some (isGameFinished h')"
proof -
  have pl: "playable b h PASS_LOC p" by (simp add: playable_def)
  from m obtain h1 spight b2 h2 wko h3 ill h5 h6 h7 where
    1: "update_passes Z b PASS_LOC p (started h) = Some (h1, spight)"
    and 2: "try_pass_for_ko Z PASS_LOC p (b, h1) = (b2, h2, wko)"
    and 3: "(if wko then Some (b2, h2) else play_regular Z (pos_hash b) PASS_LOC p (b2, h2)) = Some (b', h3)"
    and 5: "update_superko Z b' (getOpp p) table (record_move Z b' PASS_LOC p False ill h3) = Some h5"
    and 6: "update_bonus PASS_LOC p wko h5 = Some h6"
    and 7: "update_phase Z b' p False spight h6 = Some h7"
    and 8: "update_cycles PASS_LOC table h7 = Some h'"
    by (rule move_parts)
  note rec = move_recorded(1) [OF core pl p 1 2 3, of False ill]
  obtain sk where h5: "h5 = (record_move Z b' PASS_LOC p False ill h3)\<lparr>superKoBanned := sk\<rparr>"
    using update_superko_frame [OF 5] by blast
  note e6 = bonus_erased_fields [OF update_bonus_erased [OF 6]]
  have f6: "hist_rules h6 = hist_rules h" "encorePhase h6 = encorePhase h" "running h6"
    "consecutiveEndingPasses h6 = consecutiveEndingPasses h1"
    using rec e6 by (simp_all add: h5 recorded_def)
  have h': "h' = h7" using 8 by (simp add: update_cycles_def)
  have v: "passWouldEndPhase Z h b p = Some (consecutiveEndingPasses h1 \<ge> 2 \<or> spight)"
    by (rule update_passes_pass [OF core r 1])
  note u = update_phase_effect [OF 7 f6(3)]
  show "\<exists>v. passWouldEndPhase Z h b p = Some v \<and> (v \<longleftrightarrow> isGameFinished h' \<or> encorePhase h' = encorePhase h + 1)"
    using v u f6 r unfolding h' by (auto split: if_splits)
  show "passWouldEndGame Z h b p = Some (isGameFinished h')"
    using v u(1) f6 r unfolding h' passWouldEndGame_def by simp
qed

end
