(* ===== verification/Benson.thy ===== *)
theory Benson
  imports BoardSetup BoardArea
begin

text \<open>
  Benson's characterisation of unconditionally alive chains, stated on sets: chains, regions,
  the chains a region is vital for and the chains it borders. The greatest family of chains
  that keep two vital regions each, bordered by the family only, is what is alive. A process
  that removes chains with fewer than two such regions until none is left finds exactly it.
\<close>

section \<open>Alive chains\<close>

locale life =
  fixes chains :: "'h set" and regs :: "'r set"
    and vital :: "'r \<Rightarrow> 'h set" and borders :: "'r \<Rightarrow> 'h set"
  assumes finite_regs: "finite regs"
begin

definition good :: "'h set \<Rightarrow> 'h \<Rightarrow> 'r set" where
  "good A h = {r \<in> regs. h \<in> vital r \<and> borders r \<subseteq> A}"

definition safe_family :: "'h set \<Rightarrow> bool" where
  "safe_family A \<longleftrightarrow> A \<subseteq> chains \<and> (\<forall>h\<in>A. 2 \<le> card (good A h))"

definition alive :: "'h set" where
  "alive = \<Union> {A. safe_family A}"

lemma good_mono: "A \<subseteq> B \<Longrightarrow> good A h \<subseteq> good B h"
  by (auto simp: good_def)

lemma finite_good [simp]: "finite (good A h)"
  using finite_regs by (simp add: good_def)

lemma alive_safe: "safe_family alive"
  unfolding safe_family_def
proof (intro conjI ballI)
  show "alive \<subseteq> chains" by (auto simp: alive_def safe_family_def)
  fix h assume "h \<in> alive"
  then obtain A where A: "safe_family A" "h \<in> A" by (auto simp: alive_def)
  then have "A \<subseteq> alive" by (auto simp: alive_def)
  then have "card (good A h) \<le> card (good alive h)" by (intro card_mono good_mono) simp_all
  then show "2 \<le> card (good alive h)" using A by (auto simp: safe_family_def)
qed

text \<open>A chain that has fewer than two good regions among the chains not removed is not alive.\<close>

lemma remove_sound:
  assumes "alive \<inter> K = {}" "card {r \<in> regs. h \<in> vital r \<and> borders r \<inter> K = {}} < 2"
  shows "h \<notin> alive"
proof
  assume h: "h \<in> alive"
  have "good alive h \<subseteq> {r \<in> regs. h \<in> vital r \<and> borders r \<inter> K = {}}"
    using assms(1) by (auto simp: good_def)
  then have "card (good alive h) \<le> card {r \<in> regs. h \<in> vital r \<and> borders r \<inter> K = {}}"
    using finite_regs by (intro card_mono) simp_all
  moreover have "2 \<le> card (good alive h)" using alive_safe h by (simp add: safe_family_def)
  ultimately show False using assms(2) by simp
qed

text \<open>When nothing more can be removed, exactly the alive chains are left.\<close>

lemma fixpoint_alive:
  assumes "alive \<inter> K = {}" "\<And>r. r \<in> regs \<Longrightarrow> borders r \<subseteq> chains"
    and "\<And>h. h \<in> chains \<Longrightarrow> h \<notin> K \<Longrightarrow> 2 \<le> card {r \<in> regs. h \<in> vital r \<and> borders r \<inter> K = {}}"
  shows "alive = chains - K"
proof
  show "alive \<subseteq> chains - K" using assms(1) alive_safe by (auto simp: safe_family_def)
  have "good (chains - K) h = {r \<in> regs. h \<in> vital r \<and> borders r \<inter> K = {}}" for h
    using assms(2) by (auto simp: good_def)
  then have "safe_family (chains - K)" using assms(3) by (auto simp: safe_family_def)
  then show "chains - K \<subseteq> alive" by (auto simp: alive_def)
qed

end

section \<open>The regions of a board\<close>

definition open_points :: "board \<Rightarrow> player \<Rightarrow> loc set" where
  "open_points b pla = {l. colors b l = C_EMPTY \<or> colors b l = getOpp pla}"

definition region_at :: "board \<Rightarrow> player \<Rightarrow> loc \<Rightarrow> loc set" where
  "region_at b pla e = {m. (e, m) \<in> (step_in (x_size b) (open_points b pla))\<^sup>*}"

text \<open>The regions that contain an empty point.\<close>

definition regions_of :: "board \<Rightarrow> player \<Rightarrow> loc set set" where
  "regions_of b pla = {region_at b pla e | e. e \<in> set (board_locs b) \<and> colors b e = C_EMPTY}"

definition pla_heads :: "board \<Rightarrow> player \<Rightarrow> loc set" where
  "pla_heads b pla = {h \<in> heads b. colors b h = pla}"

definition touches :: "board \<Rightarrow> player \<Rightarrow> loc \<Rightarrow> loc \<Rightarrow> bool" where
  "touches b pla l h \<longleftrightarrow> (\<exists>m. adjacent (x_size b) l m \<and> colors b m = pla \<and> chain_head b m = h)"

text \<open>
  A region is vital for a chain that all its empty points touch, or all its points when
  suicide of several stones is allowed; it borders every chain that one of its points touches.
\<close>

definition vital_heads :: "board \<Rightarrow> player \<Rightarrow> bool \<Rightarrow> loc set \<Rightarrow> loc set" where
  "vital_heads b pla multi R = {h \<in> pla_heads b pla. \<forall>l\<in>R. multi \<or> colors b l = C_EMPTY \<longrightarrow> touches b pla l h}"

definition border_heads :: "board \<Rightarrow> player \<Rightarrow> loc set \<Rightarrow> loc set" where
  "border_heads b pla R = {h. \<exists>l\<in>R. touches b pla l h}"

lemma isAdjacentToPlaHead_touches: "isAdjacentToPlaHead b pla l h \<longleftrightarrow> touches b pla l h"
  by (auto simp: isAdjacentToPlaHead_def touches_def list_ex_iff set_adjs)

lemma region_at_self [simp]: "e \<in> region_at b pla e"
  by (simp add: region_at_def)

lemma region_at_open: "e \<in> open_points b pla \<Longrightarrow> region_at b pla e \<subseteq> open_points b pla"
proof
  fix m assume e: "e \<in> open_points b pla" and "m \<in> region_at b pla e"
  then have "(e, m) \<in> (step_in (x_size b) (open_points b pla))\<^sup>*" by (simp add: region_at_def)
  then show "m \<in> open_points b pla"
    by (induction rule: rtrancl_induct) (use e in \<open>auto simp: step_in_def\<close>)
qed

lemma region_at_closed:
  "l \<in> region_at b pla e \<Longrightarrow> l \<in> open_points b pla \<Longrightarrow> adjacent (x_size b) l m \<Longrightarrow> m \<in> open_points b pla \<Longrightarrow>
     m \<in> region_at b pla e"
  by (auto simp: region_at_def step_in_def intro: rtrancl.rtrancl_into_rtrancl)

lemma region_at_eq:
  assumes "l \<in> region_at b pla e"
  shows "region_at b pla l = region_at b pla e"
proof -
  let ?S = "step_in (x_size b) (open_points b pla)"
  have "(e, l) \<in> ?S\<^sup>*" "(l, e) \<in> ?S\<^sup>*"
    using assms step_in_rtrancl_sym by (auto simp: region_at_def)
  then show ?thesis by (auto simp: region_at_def intro: rtrancl_trans)
qed

lemma open_on_board: "geom_ok b \<Longrightarrow> is_stone pla \<Longrightarrow> l \<in> open_points b pla \<Longrightarrow> on_board (x_size b) (y_size b) l"
  using geom_wall [of b l] by (cases pla) (auto simp: open_points_def)

lemma finite_open: "geom_ok b \<Longrightarrow> is_stone pla \<Longrightarrow> finite (open_points b pla)"
  by (rule finite_subset [OF _ finite_on_board [of "x_size b" "y_size b"]]) (auto dest: open_on_board)

lemma empty_open: "colors b e = C_EMPTY \<Longrightarrow> e \<in> open_points b pla"
  by (simp add: open_points_def)

lemma finite_regions [simp]: "finite (regions_of b pla)"
  by (simp add: regions_of_def)

text \<open>The chains and regions of any board are an instance; its alive chains are Benson's.\<close>

interpretation board_life: life "pla_heads b pla" "regions_of b pla" "vital_heads b pla multi" "border_heads b pla"
  for b pla multi
  by unfold_locales simp

definition benson_alive :: "board \<Rightarrow> player \<Rightarrow> bool \<Rightarrow> loc set" where
  "benson_alive b pla multi = board_life.alive b pla multi"

end
