(* ===== verification/BensonFlood.thy ===== *)
theory BensonFlood
  imports Benson
begin

text \<open>
  The first part of \<open>Board::calculateAreaForPla\<close>: the scan that floods every region, threads it
  into a circular list and keeps the list of its vital chains in a segment of one shared array.
\<close>

section \<open>Segments of the shared array\<close>

definition segment :: "(int \<Rightarrow> 'a) \<Rightarrow> int \<Rightarrow> int \<Rightarrow> 'a list" where
  "segment f s n = map (\<lambda>j. f (s + j)) [0..n - 1]"

lemma upto_snoc: "0 \<le> n \<Longrightarrow> [0..n] = [0..n - 1] @ [n :: int]"
  by (simp add: upto_rec2)

lemma segment_0 [simp]: "segment f s 0 = []"
  by (simp add: segment_def)

lemma segment_Suc: "0 \<le> n \<Longrightarrow> segment f s (n + 1) = segment f s n @ [f (s + n)]"
  by (simp add: segment_def upto_snoc)

lemma length_segment [simp]: "0 \<le> n \<Longrightarrow> int (length (segment f s n)) = n"
  by (simp add: segment_def)

lemma segment_cong: "(\<And>j. s \<le> j \<Longrightarrow> j < s + n \<Longrightarrow> f j = g j) \<Longrightarrow> segment f s n = segment g s n"
  by (simp add: segment_def)

lemma segment_upd_outside: "k < s \<or> s + n \<le> k \<Longrightarrow> segment (f(k := v)) s n = segment f s n"
  by (rule segment_cong) auto

lemma vitals_of_segment: "vitals_of r i = segment (vitalForPlaHeadsLists r) (vitalStart r i) (vitalLen r i)"
  by (simp add: vitals_of_def segment_def)

text \<open>Compacting a segment in place keeps the elements that pass the test, in order.\<close>

lemma compact_segment:
  assumes "0 \<le> n"
  shows "\<exists>g m. fold (\<lambda>i (f, m). if P (f (s + i)) then (f(s + m := f (s + i)), m + 1) else (f, m)) [0..n - 1] (f, 0) = (g, m) \<and>
    0 \<le> m \<and> m \<le> n \<and> segment g s m = filter P (segment f s n) \<and>
    (\<forall>k. k < s \<or> s + m \<le> k \<longrightarrow> g k = f k)"
  using assms
proof (induction n rule: int_ge_induct)
  case base
  then show ?case by simp
next
  case (step n)
  let ?F = "\<lambda>i (f, m). if P (f (s + i)) then (f(s + m := f (s + i)), m + 1) else (f, m)"
  obtain g m where g: "fold ?F [0..n - 1] (f, 0) = (g, m)" and m: "0 \<le> m" "m \<le> n"
    and seg: "segment g s m = filter P (segment f s n)" and out: "\<And>k. k < s \<or> s + m \<le> k \<Longrightarrow> g k = f k"
    using step.IH by blast
  have fo: "fold ?F [0..(n + 1) - 1] (f, 0) = ?F n (g, m)" using step.hyps g by (simp add: upto_snoc)
  have gn: "g (s + n) = f (s + n)" using out m by simp
  show ?case
  proof (cases "P (f (s + n))")
    case True
    have "segment (g(s + m := f (s + n))) s (m + 1) = filter P (segment f s n) @ [f (s + n)]"
      using m seg by (simp add: segment_Suc segment_upd_outside)
    moreover have "segment f s (n + 1) = segment f s n @ [f (s + n)]" using step.hyps by (rule segment_Suc)
    moreover have "?F n (g, m) = (g(s + m := f (s + n)), m + 1)" using True gn by simp
    moreover have "(g(s + m := f (s + n))) k = f k" if "k < s \<or> s + (m + 1) \<le> k" for k using that out m by auto
    ultimately show ?thesis
      unfolding fo using True m
      by (intro exI [of _ "g(s + m := f (s + n))"] exI [of _ "m + 1"]) (simp del: fun_upd_apply)
  next
    case False
    then have "?F n (g, m) = (g, m)" using gn by simp
    then show ?thesis
      unfolding fo using False m seg out step.hyps
      by (intro exI [of _ g] exI [of _ m]) (simp add: segment_Suc)
  qed
qed

text \<open>Appending the elements of a list that are not there yet.\<close>

lemma dedup_segment:
  "\<exists>g m. fold (\<lambda>x (f, m). if c x then (if list_ex (\<lambda>j. f (s + j) = h x) [0..m - 1] then (f, m) else (f(s + m := h x), m + 1))
      else (f, m)) xs (f, 0 :: int) = (g, m) \<and> 0 \<le> m \<and> m \<le> int (length xs) \<and> distinct (segment g s m) \<and>
    set (segment g s m) = h ` {x \<in> set xs. c x} \<and> (\<forall>k. k < s \<or> s + m \<le> k \<longrightarrow> g k = f k)"
proof (induction xs rule: rev_induct)
  case Nil
  then show ?case by simp
next
  case (snoc x xs)
  let ?F = "\<lambda>x (f, m). if c x then (if list_ex (\<lambda>j. f (s + j) = h x) [0..m - 1] then (f, m) else (f(s + m := h x), m + 1)) else (f, m)"
  obtain g m where g: "fold ?F xs (f, 0) = (g, m)" and m: "0 \<le> m" "m \<le> int (length xs)"
    and d: "distinct (segment g s m)" and st: "set (segment g s m) = h ` {x \<in> set xs. c x}"
    and out: "\<And>k. k < s \<or> s + m \<le> k \<Longrightarrow> g k = f k"
    using snoc.IH by blast
  have ex: "list_ex (\<lambda>j. g (s + j) = h x) [0..m - 1] \<longleftrightarrow> h x \<in> set (segment g s m)"
    by (force simp: list_ex_iff segment_def)
  have fo: "fold ?F (xs @ [x]) (f, 0) = ?F x (g, m)" by (simp add: g)
  show ?case
  proof (cases "c x \<and> h x \<notin> set (segment g s m)")
    case True
    then have "?F x (g, m) = (g(s + m := h x), m + 1)" using ex by simp
    moreover have "segment (g(s + m := h x)) s (m + 1) = segment g s m @ [h x]"
      using m by (simp add: segment_Suc segment_upd_outside)
    moreover have "distinct (segment g s m @ [h x]) \<and> set (segment g s m @ [h x]) = h ` {y \<in> set (xs @ [x]). c y}"
      using True d st by auto
    ultimately show ?thesis using m out unfolding fo by auto
  next
    case False
    then have "?F x (g, m) = (g, m)" using ex by auto
    moreover have "h ` {y \<in> set (xs @ [x]). c y} = h ` {y \<in> set xs. c y}" using False st by auto
    ultimately show ?thesis using m d st out unfolding fo by auto
  qed
qed

section \<open>Flooding one region\<close>

text \<open>What a flood of region \<open>i\<close> leaves alone.\<close>

definition others :: "int \<Rightarrow> regions \<Rightarrow> regions \<Rightarrow> bool" where
  "others i r r' \<longleftrightarrow> numRegions r' = numRegions r \<and> regionHeads r' = regionHeads r \<and> vitalStart r' = vitalStart r \<and>
     vitalForPlaHeadsListsTotal r' = vitalForPlaHeadsListsTotal r \<and> atLeastOnePla r' = atLeastOnePla r \<and>
     (\<forall>j. j \<noteq> i \<longrightarrow> vitalLen r' j = vitalLen r j \<and> numInternalSpacesMax2 r' j = numInternalSpacesMax2 r j \<and>
        containsOpp r' j = containsOpp r j) \<and>
     (\<forall>k. k < vitalStart r i \<longrightarrow> vitalForPlaHeadsLists r' k = vitalForPlaHeadsLists r k)"

lemma others_refl [simp]: "others i r r"
  by (simp add: others_def)

lemma others_trans: "others i r r' \<Longrightarrow> others i r' r'' \<Longrightarrow> others i r r''"
  by (simp add: others_def)

lemma filter_vital_effect:
  fixes b :: board and pla :: player and loc :: loc
  assumes "0 \<le> vitalLen r i"
  defines "r' \<equiv> filter_vital b pla loc i r"
  shows "vitals_of r' i = filter (touches b pla loc) (vitals_of r i)" "0 \<le> vitalLen r' i" "vitalLen r' i \<le> vitalLen r i"
    "others i r r'" "regionIdxByLoc r' = regionIdxByLoc r" "nextEmptyOrOpp r' = nextEmptyOrOpp r"
    "numInternalSpacesMax2 r' = numInternalSpacesMax2 r" "containsOpp r' = containsOpp r"
proof -
  let ?s = "vitalStart r i"
  obtain g m where g: "fold (\<lambda>k (lists, newVLen).
                if isAdjacentToPlaHead b pla loc (lists (?s + k))
                then (lists(?s + newVLen := lists (?s + k)), newVLen + 1)
                else (lists, newVLen)) [0..vitalLen r i - 1] (vitalForPlaHeadsLists r, 0) = (g, m)"
    and m: "0 \<le> m" "m \<le> vitalLen r i"
    and seg: "segment g ?s m = filter (isAdjacentToPlaHead b pla loc) (segment (vitalForPlaHeadsLists r) ?s (vitalLen r i))"
    and out: "\<And>k. k < ?s \<or> ?s + m \<le> k \<Longrightarrow> g k = vitalForPlaHeadsLists r k"
    using compact_segment [OF assms(1), where P = "isAdjacentToPlaHead b pla loc" and f = "vitalForPlaHeadsLists r" and s = ?s] by blast
  have r': "r' = r\<lparr>vitalForPlaHeadsLists := g, vitalLen := (vitalLen r)(i := m)\<rparr>"
    unfolding r'_def filter_vital_def Let_def g by simp
  have "isAdjacentToPlaHead b pla loc = touches b pla loc" by (simp add: fun_eq_iff isAdjacentToPlaHead_touches)
  then show "vitals_of r' i = filter (touches b pla loc) (vitals_of r i)"
    using seg by (simp add: vitals_of_segment r')
  show "0 \<le> vitalLen r' i" "vitalLen r' i \<le> vitalLen r i" "others i r r'" "regionIdxByLoc r' = regionIdxByLoc r"
    "nextEmptyOrOpp r' = nextEmptyOrOpp r" "numInternalSpacesMax2 r' = numInternalSpacesMax2 r"
    "containsOpp r' = containsOpp r"
    using m out by (simp_all add: r' others_def)
qed

text \<open>One popped point.\<close>

lemma region_visit_effect:
  assumes v: "region_visit b pla multi i loc tail nz r = (r', nz')" and len: "0 \<le> vitalLen r i" and nz: "nz \<longleftrightarrow> vitalLen r i > 0"
  shows "vitals_of r' i = (if multi \<or> colors b loc = C_EMPTY then filter (touches b pla loc) (vitals_of r i) else vitals_of r i)"
    "0 \<le> vitalLen r' i" "vitalLen r' i \<le> vitalLen r i" "nz' \<longleftrightarrow> vitalLen r' i > 0" "others i r r'"
    "regionIdxByLoc r' = regionIdxByLoc r" "nextEmptyOrOpp r' = (nextEmptyOrOpp r)(loc := tail)"
    "numInternalSpacesMax2 r' i = numInternalSpacesMax2 r i +
       (if numInternalSpacesMax2 r i < 2 \<and> \<not> isAdjacentToPla b loc pla then 1 else 0)"
    "containsOpp r' i \<longleftrightarrow> containsOpp r i \<or> colors b loc = getOpp pla"
proof -
  let ?c = "nz \<and> (multi \<or> colors b loc = C_EMPTY)"
  define r1 where "r1 = (if ?c then filter_vital b pla loc i r else r)"
  define r2 where "r2 = (if numInternalSpacesMax2 r1 i < 2 \<and> \<not> isAdjacentToPla b loc pla
      then r1\<lparr>numInternalSpacesMax2 := (numInternalSpacesMax2 r1)(i := numInternalSpacesMax2 r1 i + 1)\<rparr> else r1)"
  define r3 where "r3 = (if colors b loc = getOpp pla then r2\<lparr>containsOpp := (containsOpp r2)(i := True)\<rparr> else r2)"
  have "region_visit b pla multi i loc tail nz r =
      (r3\<lparr>nextEmptyOrOpp := (nextEmptyOrOpp r3)(loc := tail)\<rparr>, if ?c then vitalLen r1 i > 0 else nz)"
  proof (cases ?c)
    case True
    then have "r1 = filter_vital b pla loc i r" by (simp add: r1_def)
    then show ?thesis using True unfolding region_visit_def r2_def r3_def by (simp only: Let_def if_True prod.case simp_thms)
  next
    case False
    then have "r1 = r" by (auto simp: r1_def)
    then show ?thesis using False unfolding region_visit_def r2_def r3_def by (simp only: Let_def if_False prod.case simp_thms)
  qed
  then have r': "r' = r3\<lparr>nextEmptyOrOpp := (nextEmptyOrOpp r3)(loc := tail)\<rparr>"
    and nz': "nz' \<longleftrightarrow> (if ?c then vitalLen r1 i > 0 else nz)"
    using v by simp_all
  note f = filter_vital_effect [OF len, of b pla loc]
  have empty: "vitals_of r i = []" if "\<not> nz" using that nz len by (simp add: vitals_of_segment)
  have v1: "vitals_of r1 i = (if multi \<or> colors b loc = C_EMPTY then filter (touches b pla loc) (vitals_of r i) else vitals_of r i)"
    and l1: "0 \<le> vitalLen r1 i" "vitalLen r1 i \<le> vitalLen r i" and o1: "others i r r1"
    and s1: "regionIdxByLoc r1 = regionIdxByLoc r" "nextEmptyOrOpp r1 = nextEmptyOrOpp r"
      "numInternalSpacesMax2 r1 = numInternalSpacesMax2 r" "containsOpp r1 = containsOpp r"
    using f len empty by (auto simp: r1_def)
  have vl: "vitals_of r' i = vitals_of r1 i" "vitalLen r' = vitalLen r1"
    by (simp_all add: r' r3_def r2_def vitals_of_def)
  then show "vitals_of r' i = (if multi \<or> colors b loc = C_EMPTY then filter (touches b pla loc) (vitals_of r i) else vitals_of r i)"
    "0 \<le> vitalLen r' i" "vitalLen r' i \<le> vitalLen r i" using v1 l1 by simp_all
  show "nz' \<longleftrightarrow> vitalLen r' i > 0" using nz' nz vl by (auto simp: r1_def)
  have "others i r1 r'" by (simp add: others_def r' r3_def r2_def)
  then show "others i r r'" using o1 others_trans by blast
  show "regionIdxByLoc r' = regionIdxByLoc r" "nextEmptyOrOpp r' = (nextEmptyOrOpp r)(loc := tail)"
    "numInternalSpacesMax2 r' i = numInternalSpacesMax2 r i +
       (if numInternalSpacesMax2 r i < 2 \<and> \<not> isAdjacentToPla b loc pla then 1 else 0)"
    "containsOpp r' i \<longleftrightarrow> containsOpp r i \<or> colors b loc = getOpp pla"
    using s1 by (simp_all add: r' r3_def r2_def)
qed

text \<open>Pushing the neighbours that are not in a region yet.\<close>

lemma region_push_fold:
  assumes "fold (region_push b opp i) ms (r, Q, qt) = (r', Q', qt')" "i \<noteq> - 1"
  shows "\<exists>N. Q' = Q @ N \<and> qt' = qt + int (length N) \<and> distinct N \<and>
    set N = {m \<in> set ms. (colors b m = C_EMPTY \<or> colors b m = opp) \<and> regionIdxByLoc r m = - 1} \<and>
    r' = r\<lparr>regionIdxByLoc := \<lambda>l. if l \<in> set N then i else regionIdxByLoc r l\<rparr>"
  using assms
proof (induction ms arbitrary: r Q qt)
  case Nil
  then show ?case by simp
next
  case (Cons m ms)
  show ?case
  proof (cases "(colors b m = C_EMPTY \<or> colors b m = opp) \<and> regionIdxByLoc r m = - 1")
    case True
    let ?r = "r\<lparr>regionIdxByLoc := (regionIdxByLoc r)(m := i)\<rparr>"
    have "region_push b opp i m (r, Q, qt) = (?r, Q @ [m], qt + 1)" using True by (simp add: region_push_def)
    then have "fold (region_push b opp i) ms (?r, Q @ [m], qt + 1) = (r', Q', qt')"
      using Cons.prems(1) by (simp only: fold_simps)
    from Cons.IH [OF this Cons.prems(2)] obtain N where N: "Q' = (Q @ [m]) @ N" "qt' = qt + 1 + int (length N)" "distinct N"
      "set N = {k \<in> set ms. (colors b k = C_EMPTY \<or> colors b k = opp) \<and> regionIdxByLoc ?r k = - 1}"
      "r' = ?r\<lparr>regionIdxByLoc := \<lambda>l. if l \<in> set N then i else regionIdxByLoc ?r l\<rparr>" by blast
    have "m \<notin> set N" using N(4) Cons.prems(2) by simp
    moreover have "set (m # N) = {k \<in> set (m # ms). (colors b k = C_EMPTY \<or> colors b k = opp) \<and> regionIdxByLoc r k = - 1}"
      using N(4) True Cons.prems(2) by auto
    moreover have "(\<lambda>l. if l \<in> set N then i else regionIdxByLoc ?r l) = (\<lambda>l. if l \<in> set (m # N) then i else regionIdxByLoc r l)"
      by auto
    ultimately show ?thesis using N(1,2,3,5) by (intro exI [of _ "m # N"]) simp
  next
    case False
    then have "region_push b opp i m (r, Q, qt) = (r, Q, qt)" by (auto simp: region_push_def)
    then have "fold (region_push b opp i) ms (r, Q, qt) = (r', Q', qt')"
      using Cons.prems(1) by (simp only: fold_simps)
    from Cons.IH [OF this Cons.prems(2)] obtain N where N: "Q' = Q @ N" "qt' = qt + int (length N)" "distinct N"
      "set N = {k \<in> set ms. (colors b k = C_EMPTY \<or> colors b k = opp) \<and> regionIdxByLoc r k = - 1}"
      "r' = r\<lparr>regionIdxByLoc := \<lambda>l. if l \<in> set N then i else regionIdxByLoc r l\<rparr>" by blast
    moreover have "set N = {k \<in> set (m # ms). (colors b k = C_EMPTY \<or> colors b k = opp) \<and> regionIdxByLoc r k = - 1}"
      using N(4) False by auto
    ultimately show ?thesis by blast
  qed
qed

text \<open>The pointers that the flood writes: every popped point to the one popped before it.\<close>

fun link :: "loc \<Rightarrow> loc list \<Rightarrow> (loc \<Rightarrow> loc) \<Rightarrow> loc \<Rightarrow> loc" where
  "link t [] n = n"
| "link t (v # vs) n = (link v vs n)(v := t)"

lemma link_snoc: "v \<notin> set vs \<Longrightarrow> link t (vs @ [v]) n = (link t vs n)(v := last (t # vs))"
  by (induction vs arbitrary: t) (auto simp: fun_eq_iff)

lemma link_outside: "l \<notin> set vs \<Longrightarrow> link t vs n l = n l"
  by (induction vs arbitrary: t) auto

text \<open>With the first point linked to the last one, the pointers run once through all of them.\<close>

lemma link_path:
  "distinct (t # vs) \<Longrightarrow> path (link t vs n) (last (t # vs)) (rev vs) t"
proof (induction vs arbitrary: t n)
  case Nil
  then show ?case by simp
next
  case (Cons v vs)
  define L where "L = link t (v # vs) n"
  have "path (link v vs n) (last (v # vs)) (rev vs) v" using Cons by simp
  then have "path L (last (v # vs)) (rev vs) v"
    by (rule path_cong) (use Cons.prems in \<open>auto simp: L_def\<close>)
  moreover have "L v = t" by (simp add: L_def)
  ultimately show ?case unfolding L_def [symmetric] by auto
qed

lemma link_ring:
  assumes "distinct (e # vs)"
  shows "ring ((link e (e # vs) n)(e := last (e # vs))) e (rev vs)"
proof -
  let ?n = "(link e (e # vs) n)(e := last (e # vs))"
  have "path (link e vs n) (last (e # vs)) (rev vs) e" by (rule link_path [OF assms])
  then have "path ?n (last (e # vs)) (rev vs) e" by (rule path_cong) (use assms in auto)
  then show ?thesis using assms by (simp add: ring_def)
qed

definition closed_regions :: "board \<Rightarrow> player \<Rightarrow> regions \<Rightarrow> bool" where
  "closed_regions b pla r \<longleftrightarrow> (\<forall>l m. regionIdxByLoc r l \<noteq> - 1 \<and> l \<in> open_points b pla \<and> adjacent (x_size b) l m \<and>
     m \<in> open_points b pla \<longrightarrow> regionIdxByLoc r m \<noteq> - 1)"

text \<open>The state of the flood of region \<open>i\<close> from \<open>e\<close>: the points popped and those in the queue.\<close>

definition flooding ::
  "board \<Rightarrow> player \<Rightarrow> bool \<Rightarrow> loc \<Rightarrow> int \<Rightarrow> regions \<Rightarrow> loc list \<Rightarrow> loc list \<Rightarrow> regions \<Rightarrow> bool" where
  "flooding b pla multi e i r0 V Q r \<longleftrightarrow>
     distinct (V @ Q) \<and> (\<exists>T. V @ Q = e # T) \<and>
     (\<forall>l. regionIdxByLoc r l = (if l \<in> set (V @ Q) then i else regionIdxByLoc r0 l)) \<and>
     set (V @ Q) \<subseteq> region_at b pla e \<and> (\<forall>l\<in>set (V @ Q). regionIdxByLoc r0 l = - 1) \<and>
     (\<forall>l\<in>set V. \<forall>m. adjacent (x_size b) l m \<and> m \<in> open_points b pla \<longrightarrow> m \<in> set (V @ Q)) \<and>
     nextEmptyOrOpp r = link e V (nextEmptyOrOpp r0) \<and>
     vitals_of r i = filter (\<lambda>h. \<forall>l\<in>set V. multi \<or> colors b l = C_EMPTY \<longrightarrow> touches b pla l h) (vitals_of r0 i) \<and>
     0 \<le> vitalLen r i \<and> vitalLen r i \<le> vitalLen r0 i \<and>
     numInternalSpacesMax2 r i = min 2 (int (length (filter (\<lambda>l. \<not> isAdjacentToPla b l pla) V))) \<and>
     (containsOpp r i \<longleftrightarrow> (\<exists>l\<in>set V. colors b l = getOpp pla)) \<and> others i r0 r"

lemma flooding_step:
  assumes fl: "flooding b pla multi e i r0 V (loc # Q) r" and cl: "closed_regions b pla r0" and e: "colors b e = C_EMPTY"
    and i: "i \<noteq> - 1" and nz: "nz \<longleftrightarrow> vitalLen r i > 0"
    and v: "region_visit b pla multi i loc (last (e # V)) nz r = (r1, nz1)"
    and pu: "fold (region_push b (getOpp pla) i) (adjs (x_size b) loc) (r1, Q, int (length (V @ loc # Q))) = (r2, Q2, qt2)"
  shows "flooding b pla multi e i r0 (V @ [loc]) Q2 r2" "nz1 \<longleftrightarrow> vitalLen r2 i > 0" "qt2 = int (length ((V @ [loc]) @ Q2))"
proof -
  note f = fl [unfolded flooding_def]
  have len: "0 \<le> vitalLen r i" using f by blast
  note w = region_visit_effect [OF v len nz]
  obtain N where N: "Q2 = Q @ N" "qt2 = int (length (V @ loc # Q)) + int (length N)" "distinct N"
    "set N = {m \<in> set (adjs (x_size b) loc). (colors b m = C_EMPTY \<or> colors b m = getOpp pla) \<and> regionIdxByLoc r1 m = - 1}"
    "r2 = r1\<lparr>regionIdxByLoc := \<lambda>l. if l \<in> set N then i else regionIdxByLoc r1 l\<rparr>"
    using region_push_fold [OF pu i] by blast
  have idx: "regionIdxByLoc r1 l = (if l \<in> set (V @ loc # Q) then i else regionIdxByLoc r0 l)" for l
    using f w(6) by simp
  have Nset: "set N = {m. adjacent (x_size b) loc m \<and> m \<in> open_points b pla \<and> m \<notin> set (V @ loc # Q) \<and> regionIdxByLoc r0 m = - 1}"
    unfolding N(4) idx using i by (auto simp: set_adjs open_points_def)
  have loc: "loc \<in> region_at b pla e" using f by auto
  have lo: "loc \<in> open_points b pla" using region_at_open [OF empty_open [OF e]] loc by blast
  have Nr: "m \<in> region_at b pla e" if "m \<in> set N" for m
    using that region_at_closed [OF loc lo] by (simp add: Nset)
  have new: "m \<in> set (V @ loc # Q) \<or> m \<in> set N" if "adjacent (x_size b) loc m" "m \<in> open_points b pla" for m
  proof (rule ccontr)
    assume "\<not> ?thesis"
    then have "regionIdxByLoc r0 m \<noteq> - 1" using that by (auto simp: Nset)
    then have "regionIdxByLoc r0 loc \<noteq> - 1" using cl that lo adjacent_sym unfolding closed_regions_def by blast
    then show False using f by simp
  qed
  have r2: "vitals_of r2 i = vitals_of r1 i" "vitalLen r2 = vitalLen r1" "nextEmptyOrOpp r2 = nextEmptyOrOpp r1"
    "numInternalSpacesMax2 r2 = numInternalSpacesMax2 r1" "containsOpp r2 = containsOpp r1" "others i r1 r2"
    by (simp_all add: N(5) vitals_of_def others_def)
  show "nz1 \<longleftrightarrow> vitalLen r2 i > 0" using w(4) r2(2) by simp
  show "qt2 = int (length ((V @ [loc]) @ Q2))" by (simp add: N(1,2))
  have "loc \<notin> set V" using f by auto
  then have lk: "nextEmptyOrOpp r2 = link e (V @ [loc]) (nextEmptyOrOpp r0)"
    using f w(7) r2(3) by (simp add: link_snoc)
  have vit: "vitals_of r2 i = filter (\<lambda>h. \<forall>l\<in>set (V @ [loc]). multi \<or> colors b l = C_EMPTY \<longrightarrow> touches b pla l h) (vitals_of r0 i)"
    using f w(1) r2(1) by (auto intro!: filter_cong)
  have num: "numInternalSpacesMax2 r2 i = min 2 (int (length (filter (\<lambda>l. \<not> isAdjacentToPla b l pla) (V @ [loc]))))"
    using f w(8) r2(4) by (auto simp: min_def)
  have dist: "distinct ((V @ [loc]) @ Q2)" using f N(3) by (auto simp: N(1) Nset)
  have hd: "\<exists>T. (V @ [loc]) @ Q2 = e # T" using f by (cases V) (auto simp: N(1))
  have idx2: "\<forall>l. regionIdxByLoc r2 l = (if l \<in> set ((V @ [loc]) @ Q2) then i else regionIdxByLoc r0 l)"
    using idx by (auto simp: N(1,5))
  have reg: "set ((V @ [loc]) @ Q2) \<subseteq> region_at b pla e" "\<forall>l\<in>set ((V @ [loc]) @ Q2). regionIdxByLoc r0 l = - 1"
    using f Nr by (auto simp: N(1) Nset)
  have cls: "\<forall>l\<in>set (V @ [loc]). \<forall>m. adjacent (x_size b) l m \<and> m \<in> open_points b pla \<longrightarrow> m \<in> set ((V @ [loc]) @ Q2)"
    using f new by (auto simp: N(1))
  have rest: "0 \<le> vitalLen r2 i" "vitalLen r2 i \<le> vitalLen r0 i"
  proof -
    have "vitalLen r i \<le> vitalLen r0 i" using f by blast
    then show "0 \<le> vitalLen r2 i" "vitalLen r2 i \<le> vitalLen r0 i" using w(2,3) r2(2) by simp_all
  qed
  have oth: "others i r0 r2" using f w(5) r2(6) others_trans by blast
  have opp: "containsOpp r2 i \<longleftrightarrow> (\<exists>l\<in>set (V @ [loc]). colors b l = getOpp pla)"
    using f w(9) r2(5) by auto
  show "flooding b pla multi e i r0 (V @ [loc]) Q2 r2"
    unfolding flooding_def using dist hd idx2 reg cls lk vit num rest oth opp by blast
qed

lemma flood_total:
  assumes fl: "flooding b pla multi e i r0 V Q r" and cl: "closed_regions b pla r0" and e: "colors b e = C_EMPTY"
    and i: "i \<noteq> - 1" and nz: "nz \<longleftrightarrow> vitalLen r i > 0" and fin: "finite (open_points b pla)"
  shows "\<exists>V' r'. buildRegion_loop b pla multi i Q (int (length (V @ Q))) (last (e # V)) nz r =
      Some (r', last (e # V'), int (length V')) \<and> flooding b pla multi e i r0 V' [] r'"
  using fl nz
proof (induction "card (open_points b pla) - length V" arbitrary: V Q r nz rule: less_induct)
  case less
  show ?case
  proof (cases Q)
    case Nil
    then show ?thesis using less.prems(1) by (subst buildRegion_loop.simps) auto
  next
    case (Cons loc Q1)
    obtain r1 nz1 where v: "region_visit b pla multi i loc (last (e # V)) nz r = (r1, nz1)" by fastforce
    obtain r2 Q2 qt2 where pu: "fold (region_push b (getOpp pla) i) (adjs (x_size b) loc) (r1, Q1, int (length (V @ loc # Q1))) = (r2, Q2, qt2)"
      by (rule prod_cases3)
    note st = flooding_step [OF less.prems(1) [unfolded Cons] cl e i less.prems(2) v pu]
    have "set ((V @ [loc]) @ Q2) \<subseteq> open_points b pla" "distinct ((V @ [loc]) @ Q2)"
      using st(1) region_at_open [OF empty_open [OF e]] unfolding flooding_def by blast+
    then have "length ((V @ [loc]) @ Q2) \<le> card (open_points b pla)"
      using card_mono [OF fin] distinct_card by metis
    then have "card (open_points b pla) - length (V @ [loc]) < card (open_points b pla) - length V" by simp
    from less.hyps [OF this st(1,2)] obtain V' r' where
      "buildRegion_loop b pla multi i Q2 qt2 loc nz1 r2 = Some (r', last (e # V'), int (length V'))"
      "flooding b pla multi e i r0 V' [] r'" using st(3) by auto
    then show ?thesis
      unfolding Cons using v pu by (subst buildRegion_loop.simps) (auto simp: Let_def)
  qed
qed

section \<open>How many regions there can be\<close>

text \<open>
  A walk through the board row by row, every second row backwards, steps from neighbour to
  neighbour. Cut into pairs, it shows that at most half the points are pairwise not adjacent.
\<close>

definition snake :: "int \<Rightarrow> loc \<Rightarrow> int" where
  "snake xs l =
     (let y = (l div (xs + 1)) - 1; x = l mod (xs + 1) - 1
      in y * xs + (if even y then x else xs - 1 - x))"

lemma snake_at:
  assumes "0 \<le> x" "x < xs"
  shows "snake xs ((x + 1) + (y + 1) * (xs + 1)) = y * xs + (if even y then x else xs - 1 - x)"
proof -
  have "((x + 1) + (y + 1) * (xs + 1)) div (xs + 1) = y + 1" "((x + 1) + (y + 1) * (xs + 1)) mod (xs + 1) = x + 1"
    using assms by simp_all
  then show ?thesis by (simp add: snake_def)
qed

lemma snake_next:
  assumes l: "on_board xs ys l" and m: "on_board xs ys m" and s: "snake xs m = snake xs l \<or> snake xs m = snake xs l + 1"
  shows "m = l \<or> adjacent xs l m"
proof -
  obtain x y where xy: "0 \<le> x" "x < xs" "0 \<le> y" "l = (x + 1) + (y + 1) * (xs + 1)"
    using l by (auto simp: on_board_def)
  obtain x' y' where xy': "0 \<le> x'" "x' < xs" "0 \<le> y'" "m = (x' + 1) + (y' + 1) * (xs + 1)"
    using m by (auto simp: on_board_def)
  let ?c = "\<lambda>x y. if even y then x else xs - 1 - x"
  have c: "0 \<le> ?c x y" "?c x y < xs" "0 \<le> ?c x' y'" "?c x' y' < xs" using xy xy' by auto
  have eq: "y' * xs + ?c x' y' = y * xs + ?c x y \<or> y' * xs + ?c x' y' = y * xs + ?c x y + 1"
    using s snake_at [OF xy(1,2), of y] snake_at [OF xy'(1,2), of y'] by (simp add: xy(4) xy'(4))
  have y1: "y' \<le> y + 1"
  proof (rule ccontr)
    assume "\<not> ?thesis"
    then have "(y + 2) * xs \<le> y' * xs" using xy by (intro mult_right_mono) auto
    then have "y * xs + 2 * xs \<le> y' * xs" by (simp add: distrib_right)
    then show False using eq c by linarith
  qed
  have y2: "y \<le> y'"
  proof (rule ccontr)
    assume "\<not> ?thesis"
    then have "(y' + 1) * xs \<le> y * xs" using xy by (intro mult_right_mono) auto
    then have "y' * xs + xs \<le> y * xs" by (simp add: distrib_right)
    then show False using eq c by linarith
  qed
  from y1 y2 consider "y' = y" | "y' = y + 1" by linarith
  then show ?thesis
  proof cases
    case 1
    then have "x' = x \<or> x' = x + 1 \<or> x' = x - 1" using eq by (auto split: if_splits)
    then show ?thesis using 1 by (auto simp: xy(4) xy'(4) adjacent_iff)
  next
    case 2
    then have "y' * xs = y * xs + xs" by (simp add: distrib_right)
    then have "?c x' y' + xs = ?c x y \<or> ?c x' y' + xs = ?c x y + 1" using eq by linarith
    then have "?c x' y' = 0 \<and> ?c x y = xs - 1" using c by linarith
    then have "x' = x" using 2 by (auto split: if_splits)
    then have "m = l + (xs + 1)" using 2 by (simp add: xy(4) xy'(4) algebra_simps)
    then show ?thesis by (simp add: adjacent_iff)
  qed
qed

lemma snake_range:
  assumes "on_board xs ys l" "xs \<le> MAX_LEN" "ys \<le> MAX_LEN"
  shows "0 \<le> snake xs l" "snake xs l \<le> 360"
proof -
  obtain x y where xy: "0 \<le> x" "x < xs" "0 \<le> y" "y < ys" "l = (x + 1) + (y + 1) * (xs + 1)"
    using assms(1) by (auto simp: on_board_def)
  have s: "snake xs l = y * xs + (if even y then x else xs - 1 - x)" using snake_at [OF xy(1,2)] by (simp add: xy(5))
  have "0 \<le> y * xs" using xy by simp
  then show "0 \<le> snake xs l" unfolding s using xy by auto
  have "(y + 1) * xs \<le> 19 * 19" using xy assms by (intro mult_mono) (auto simp: MAX_LEN_def)
  then have "y * xs + xs \<le> 361" by (simp add: distrib_right)
  then show "snake xs l \<le> 360" unfolding s using xy by auto
qed

lemma independent_bound:
  assumes "\<And>l. l \<in> S \<Longrightarrow> on_board xs ys l" "xs \<le> MAX_LEN" "ys \<le> MAX_LEN"
    and "\<And>l m. l \<in> S \<Longrightarrow> m \<in> S \<Longrightarrow> \<not> adjacent xs l m"
  shows "card S \<le> 181"
proof -
  have "inj_on (\<lambda>l. snake xs l div 2) S"
  proof (rule inj_onI)
    fix l m assume lm: "l \<in> S" "m \<in> S" "snake xs l div 2 = snake xs m div 2"
    then have "snake xs m = snake xs l \<or> snake xs m = snake xs l + 1 \<or> snake xs l = snake xs m + 1" by presburger
    then have "m = l \<or> adjacent xs l m \<or> l = m \<or> adjacent xs m l"
      using snake_next [OF assms(1) [OF lm(1)] assms(1) [OF lm(2)]] snake_next [OF assms(1) [OF lm(2)] assms(1) [OF lm(1)]]
      by blast
    then show "l = m" using assms(4) lm by blast
  qed
  moreover have "(\<lambda>l. snake xs l div 2) ` S \<subseteq> {0..180}"
  proof
    fix k assume "k \<in> (\<lambda>l. snake xs l div 2) ` S"
    then obtain l where "l \<in> S" "k = snake xs l div 2" by blast
    then show "k \<in> {0..180}" using snake_range [OF assms(1) assms(2,3)] by fastforce
  qed
  ultimately have "card S \<le> card {0..180 :: int}" by (intro card_inj_on_le) auto
  then show ?thesis by simp
qed

end
