(* ===== verification/BensonScan.thy ===== *)
theory BensonScan
  imports BensonFlood
begin

text \<open>
  The scan of \<open>Board::calculateAreaForPla\<close> finds exactly the regions that contain an empty
  point, one flood each, within the sizes of its arrays.
\<close>

section \<open>The first candidates of a region\<close>

lemma init_vital_effect:
  fixes b :: board and pla :: player and e :: loc and i :: int and r :: regions
  assumes g: "geom_ok b"
  defines "r' \<equiv> init_vital b pla e i r"
  shows "distinct (vitals_of r' i)" "set (vitals_of r' i) = {h. touches b pla e h}" "0 \<le> vitalLen r' i" "vitalLen r' i \<le> 4"
    "others i r r'" "regionIdxByLoc r' = regionIdxByLoc r" "nextEmptyOrOpp r' = nextEmptyOrOpp r"
    "numInternalSpacesMax2 r' = numInternalSpacesMax2 r" "containsOpp r' = containsOpp r"
proof -
  let ?s = "vitalStart r i"
  let ?F = "\<lambda>adj (lists, initialVLen).
                if colors b adj = pla then
                  (let plaHead = chain_head b adj
                   in if list_ex (\<lambda>j. lists (?s + j) = plaHead) [0..initialVLen - 1]
                      then (lists, initialVLen)
                      else (lists(?s + initialVLen := plaHead), initialVLen + 1))
                else (lists, initialVLen)"
  obtain gg m where gg: "fold ?F (adj4 b e) (vitalForPlaHeadsLists r, 0) = (gg, m)"
    and m: "0 \<le> m" "m \<le> int (length (adj4 b e))" and d: "distinct (segment gg ?s m)"
    and st: "set (segment gg ?s m) = chain_head b ` {x \<in> set (adj4 b e). colors b x = pla}"
    and out: "\<And>k. k < ?s \<or> ?s + m \<le> k \<Longrightarrow> gg k = vitalForPlaHeadsLists r k"
    using dedup_segment [where c = "\<lambda>x. colors b x = pla" and h = "chain_head b" and s = ?s
        and f = "vitalForPlaHeadsLists r" and xs = "adj4 b e"] unfolding Let_def by blast
  have r': "r' = r\<lparr>vitalForPlaHeadsLists := gg, vitalLen := (vitalLen r)(i := m)\<rparr>"
    unfolding r'_def init_vital_def Let_def [of ?s] gg by (simp only: Let_def prod.case)
  show "distinct (vitals_of r' i)" using d by (simp add: vitals_of_segment r')
  have "chain_head b ` {x \<in> set (adj4 b e). colors b x = pla} = {h. touches b pla e h}"
    by (auto simp: adj4_adjs [OF g] set_adjs touches_def)
  then show "set (vitals_of r' i) = {h. touches b pla e h}" using st by (simp add: vitals_of_segment r')
  have "length (adj4 b e) = 4" by (simp add: adj4_adjs [OF g] adjs_def)
  then show "0 \<le> vitalLen r' i" "vitalLen r' i \<le> 4" "others i r r'" "regionIdxByLoc r' = regionIdxByLoc r"
    "nextEmptyOrOpp r' = nextEmptyOrOpp r" "numInternalSpacesMax2 r' = numInternalSpacesMax2 r"
    "containsOpp r' = containsOpp r"
    using m out by (simp_all add: r' others_def)
qed

section \<open>What the scan establishes\<close>

text \<open>What is recorded of region \<open>i\<close>.\<close>

definition region_ok :: "board \<Rightarrow> player \<Rightarrow> bool \<Rightarrow> regions \<Rightarrow> int \<Rightarrow> bool" where
  "region_ok b pla multi r i \<longleftrightarrow>
     (let e = regionHeads r i; R = region_at b pla e
      in colors b e = C_EMPTY \<and> {l. regionIdxByLoc r l = i} = R \<and>
         (\<exists>xs. ring (nextEmptyOrOpp r) e xs \<and> set (e # xs) = R) \<and>
         distinct (vitals_of r i) \<and> set (vitals_of r i) = vital_heads b pla multi R \<and>
         numInternalSpacesMax2 r i = min 2 (int (card {l \<in> R. \<not> isAdjacentToPla b l pla})) \<and>
         (containsOpp r i \<longleftrightarrow> (\<exists>l\<in>R. colors b l = getOpp pla)) \<and>
         0 \<le> vitalStart r i \<and> 0 \<le> vitalLen r i \<and> vitalStart r i + vitalLen r i \<le> vitalForPlaHeadsListsTotal r)"

definition scan_ok :: "board \<Rightarrow> player \<Rightarrow> bool \<Rightarrow> loc set \<Rightarrow> regions \<Rightarrow> bool" where
  "scan_ok b pla multi S r \<longleftrightarrow> 0 \<le> numRegions r \<and>
     (\<forall>l. regionIdxByLoc r l \<noteq> - 1 \<longrightarrow> 0 \<le> regionIdxByLoc r l \<and> regionIdxByLoc r l < numRegions r) \<and>
     (\<forall>i. 0 \<le> i \<and> i < numRegions r \<longrightarrow> region_ok b pla multi r i) \<and>
     0 \<le> vitalForPlaHeadsListsTotal r \<and> vitalForPlaHeadsListsTotal r \<le> 4 * numRegions r \<and>
     (\<forall>l\<in>S. colors b l = C_EMPTY \<longrightarrow> regionIdxByLoc r l \<noteq> - 1) \<and>
     (atLeastOnePla r \<longleftrightarrow> (\<exists>l\<in>S. colors b l = pla))"

lemma scan_closed:
  assumes "scan_ok b pla multi S r"
  shows "closed_regions b pla r"
  unfolding closed_regions_def
proof (intro allI impI, elim conjE)
  fix l m assume l: "regionIdxByLoc r l \<noteq> - 1" "l \<in> open_points b pla" "adjacent (x_size b) l m" "m \<in> open_points b pla"
  let ?i = "regionIdxByLoc r l"
  have i: "0 \<le> ?i \<and> ?i < numRegions r" using assms l(1) unfolding scan_ok_def by blast
  then have "region_ok b pla multi r ?i" using assms unfolding scan_ok_def by blast
  then have eq: "{l. regionIdxByLoc r l = ?i} = region_at b pla (regionHeads r ?i)"
    unfolding region_ok_def Let_def by blast
  then have "l \<in> region_at b pla (regionHeads r ?i)" by blast
  from region_at_closed [OF this l(2,3,4)] eq have "regionIdxByLoc r m = ?i" by blast
  then show "regionIdxByLoc r m \<noteq> - 1" using i by simp
qed

text \<open>The heads of the regions are pairwise not adjacent, so there are at most 181.\<close>

lemma scan_heads:
  assumes s: "scan_ok b pla multi S r" and i: "0 \<le> i" "i < numRegions r"
  shows "colors b (regionHeads r i) = C_EMPTY" "regionIdxByLoc r (regionHeads r i) = i"
proof -
  have k: "region_ok b pla multi r i" using s i by (simp add: scan_ok_def)
  then show "colors b (regionHeads r i) = C_EMPTY" by (simp add: region_ok_def Let_def)
  have "regionHeads r i \<in> region_at b pla (regionHeads r i)" by simp
  then show "regionIdxByLoc r (regionHeads r i) = i" using k unfolding region_ok_def Let_def by blast
qed

lemma scan_bound:
  assumes s: "scan_ok b pla multi S r" and g: "geom_ok b" and p: "is_stone pla"
  shows "numRegions r \<le> 181"
proof -
  let ?H = "regionHeads r ` {0..<numRegions r}"
  have inj: "inj_on (regionHeads r) {0..<numRegions r}"
    by (rule inj_onI) (metis atLeastLessThan_iff scan_heads(2) [OF s])
  have "card ?H \<le> 181"
  proof (rule independent_bound [where xs = "x_size b" and ys = "y_size b"])
    show "x_size b \<le> MAX_LEN" "y_size b \<le> MAX_LEN" using g by (simp_all add: geom_ok_def)
    fix l assume "l \<in> ?H"
    then show "on_board (x_size b) (y_size b) l"
      using open_on_board [OF g p] empty_open scan_heads(1) [OF s] by fastforce
  next
    fix l m assume "l \<in> ?H" "m \<in> ?H"
    then obtain i j where ij: "l = regionHeads r i" "m = regionHeads r j" "0 \<le> i" "i < numRegions r" "0 \<le> j" "j < numRegions r"
      by auto
    show "\<not> adjacent (x_size b) l m"
    proof
      assume a: "adjacent (x_size b) l m"
      have o: "l \<in> open_points b pla" "m \<in> open_points b pla"
        using ij scan_heads(1) [OF s] empty_open by simp_all
      have "region_ok b pla multi r i" using s ij by (simp add: scan_ok_def)
      then have "{l. regionIdxByLoc r l = i} = region_at b pla l" unfolding region_ok_def Let_def ij by blast
      moreover have "m \<in> region_at b pla l" using region_at_closed [OF region_at_self o(1) a o(2)] .
      ultimately have "regionIdxByLoc r m = i" by blast
      then have "i = j" using ij scan_heads(2) [OF s] by simp
      then show False using a ij adjacent_irrefl [of "x_size b" l] g by (simp add: geom_ok_def)
    qed
  qed
  then show ?thesis using card_image [OF inj] scan_ok_def s by simp
qed

section \<open>Keeping the regions found\<close>

text \<open>A region already found does not notice the flood of a later one.\<close>

lemma region_ok_keep:
  assumes k: "region_ok b pla multi r j" and j: "j \<noteq> i"
    and heads: "regionHeads r' j = regionHeads r j"
    and idx: "\<And>l. regionIdxByLoc r' l = j \<longleftrightarrow> regionIdxByLoc r l = j"
    and nxt: "\<And>l. regionIdxByLoc r l = j \<Longrightarrow> nextEmptyOrOpp r' l = nextEmptyOrOpp r l"
    and seg: "vitalStart r' j = vitalStart r j" "vitalLen r' j = vitalLen r j"
      "\<And>k. k < vitalForPlaHeadsListsTotal r \<Longrightarrow> vitalForPlaHeadsLists r' k = vitalForPlaHeadsLists r k"
    and rest: "numInternalSpacesMax2 r' j = numInternalSpacesMax2 r j" "containsOpp r' j = containsOpp r j"
      "vitalForPlaHeadsListsTotal r \<le> vitalForPlaHeadsListsTotal r'"
  shows "region_ok b pla multi r' j"
proof -
  let ?e = "regionHeads r j" let ?R = "region_at b pla ?e"
  note f = k [unfolded region_ok_def Let_def]
  have R: "{l. regionIdxByLoc r l = j} = ?R" using f by blast
  obtain xs where xs: "ring (nextEmptyOrOpp r) ?e xs" "set (?e # xs) = ?R" using f by blast
  have "ring (nextEmptyOrOpp r') ?e xs"
  proof (rule ring_cong [OF xs(1)])
    fix l assume "l \<in> set (?e # xs)"
    then have "l \<in> {l. regionIdxByLoc r l = j}" unfolding R xs(2) .
    then show "nextEmptyOrOpp r l = nextEmptyOrOpp r' l" using nxt by simp
  qed
  moreover have "vitals_of r' j = vitals_of r j"
  proof -
    have "segment (vitalForPlaHeadsLists r') (vitalStart r j) (vitalLen r j) =
        segment (vitalForPlaHeadsLists r) (vitalStart r j) (vitalLen r j)"
      using f seg(3) by (intro segment_cong) auto
    then show ?thesis by (simp add: vitals_of_segment seg(1,2))
  qed
  moreover have "{l. regionIdxByLoc r' l = j} = ?R" using R idx by simp
  moreover have "vitalStart r' j + vitalLen r' j \<le> vitalForPlaHeadsListsTotal r'" using f seg(1,2) rest(3) by linarith
  ultimately show ?thesis
    unfolding region_ok_def Let_def heads using f xs(2) seg(1,2) rest(1,2) by auto
qed

section \<open>One point of the scan\<close>

lemma region_scan_new:
  assumes s: "scan_ok b pla multi S r" and wf: "wf_board Z b" and p: "is_stone pla"
    and e: "colors b e = C_EMPTY" "regionIdxByLoc r e = - 1"
  shows "\<exists>r'. region_scan b pla multi e r = Some r' \<and> scan_ok b pla multi (insert e S) r'"
proof -
  have g: "geom_ok b" and ch: "chains_ok b (\<lambda>_. 0)" using wf by (simp_all add: wf_board_def core_def)
  define i where "i = numRegions r"
  have n: "0 \<le> i" "i \<le> 181" using s scan_bound [OF s g p] by (simp_all add: scan_ok_def i_def)
  have tot: "0 \<le> vitalForPlaHeadsListsTotal r" "vitalForPlaHeadsListsTotal r \<le> 4 * i"
    using s by (simp_all add: scan_ok_def i_def)
  define r1 where "r1 = r\<lparr>numRegions := i + 1, regionHeads := (regionHeads r)(i := e),
      vitalStart := (vitalStart r)(i := vitalForPlaHeadsListsTotal r), vitalLen := (vitalLen r)(i := 0),
      numInternalSpacesMax2 := (numInternalSpacesMax2 r)(i := 0), containsOpp := (containsOpp r)(i := False)\<rparr>"
  define r2 where "r2 = init_vital b pla e i r1"
  note iv = init_vital_effect [OF g, where pla = pla and e = e and i = i and r = r1, folded r2_def]
  have r1f: "regionIdxByLoc r1 = regionIdxByLoc r" "numInternalSpacesMax2 r1 i = 0" "\<not> containsOpp r1 i"
    by (simp_all add: r1_def)
  define r3 where "r3 = r2\<lparr>regionIdxByLoc := (regionIdxByLoc r2)(e := i)\<rparr>"
  have ni: "i \<noteq> - 1" using n by simp
  have fin: "finite (open_points b pla)" by (rule finite_open [OF g p])
  have cl: "closed_regions b pla r2"
    using scan_closed [OF s] by (simp add: closed_regions_def iv(6) r1f)
  have "flooding b pla multi e i r2 [] [e] r3"
    unfolding flooding_def r3_def
    using e iv(2,3,6,8,9) r1f by (auto simp: others_def vitals_of_def)
  from flood_total [OF this cl e(1) ni _ fin, of "vitalLen r3 i > 0"]
  obtain V r4 where loop: "buildRegion_loop b pla multi i [e] 1 e (vitalLen r2 i > 0) r3 = Some (r4, last (e # V), int (length V))"
    and fl: "flooding b pla multi e i r2 V [] r4" by (auto simp: r3_def)
  note f = fl [unfolded flooding_def append_Nil2]
  have V: "distinct V" "\<exists>T. V = e # T" using f by blast+
  then obtain T where T: "V = e # T" "distinct (e # T)" by auto
  have Vo: "set V \<subseteq> region_at b pla e" using f by blast
  have oe: "e \<in> open_points b pla" by (rule empty_open [OF e(1)])
  have VR: "set V = region_at b pla e"
  proof (rule equalityI [OF Vo], rule subsetI)
    fix m assume "m \<in> region_at b pla e"
    then have "(e, m) \<in> (step_in (x_size b) (open_points b pla))\<^sup>*" by (simp add: region_at_def)
    then show "m \<in> set V"
    proof (induction rule: rtrancl_induct)
      case base
      then show ?case using T by simp
    next
      case (step u v)
      then show ?case using f unfolding step_in_def by blast
    qed
  qed
  have "set V \<subseteq> {3..<MAX_ARR_SIZE}"
  proof
    fix l assume "l \<in> set V"
    then have "on_board (x_size b) (y_size b) l" using Vo region_at_open [OF oe] open_on_board [OF g p] by blast
    then show "l \<in> {3..<MAX_ARR_SIZE}" using on_board_range [of "x_size b" "y_size b" l] g by (simp add: geom_ok_def)
  qed
  then have "length V \<le> card {3..<MAX_ARR_SIZE}" using card_mono [of "{3..<MAX_ARR_SIZE}" "set V"] distinct_card [OF V(1)] by simp
  then have lenV: "int (length V) < MAX_ARR_SIZE" by (simp add: MAX_ARR_SIZE_def MAX_LEN_def)
  define r5 where "r5 = r4\<lparr>nextEmptyOrOpp := (nextEmptyOrOpp r4)(e := last V),
      vitalForPlaHeadsListsTotal := vitalForPlaHeadsListsTotal r4 + vitalLen r4 i\<rparr>"
  have build: "buildRegion b pla multi e i r2 = Some (r4, last V)"
    using loop lenV T unfolding buildRegion_def Let_def r3_def by simp
  have scan: "region_scan b pla multi e r = Some r5"
  proof -
    have "i + 1 \<le> maxRegions" "vitalForPlaHeadsListsTotal r + 4 \<le> vitalForPlaHeadsListsMaxLen"
      using n tot by (simp_all add: maxRegions_def vitalForPlaHeadsListsMaxLen_def MAX_LEN_def)
    moreover have "r1 = (let r = r\<lparr>numRegions := numRegions r + 1\<rparr> in
        r\<lparr>regionHeads := (regionHeads r)(i := e), vitalStart := (vitalStart r)(i := vitalForPlaHeadsListsTotal r),
          vitalLen := (vitalLen r)(i := 0), numInternalSpacesMax2 := (numInternalSpacesMax2 r)(i := 0),
          containsOpp := (containsOpp r)(i := False)\<rparr>)"
      by (simp add: r1_def i_def)
    ultimately show ?thesis
      using e build unfolding region_scan_def r5_def r2_def by (simp add: i_def Let_def)
  qed
  have o: "others i r2 r4" using f by blast
  have o1: "others i r1 r2" by (rule iv(5))
  have oo: "others i r1 r4" by (rule others_trans [OF o1 o])
  have idx5: "regionIdxByLoc r5 l = (if l \<in> region_at b pla e then i else regionIdxByLoc r l)" for l
  proof -
    have "regionIdxByLoc r4 l = (if l \<in> set V then i else regionIdxByLoc r2 l)" using f by blast
    then show ?thesis using VR iv(6) r1f by (simp add: r5_def)
  qed
  have fresh: "regionIdxByLoc r l = - 1" if "l \<in> region_at b pla e" for l
  proof -
    have "regionIdxByLoc r2 l = - 1" using f that VR by blast
    then show ?thesis using iv(6) r1f by simp
  qed
  have less: "regionIdxByLoc r l < i" for l
    using s n by (cases "regionIdxByLoc r l = - 1") (auto simp: scan_ok_def i_def)
  have fields: "numRegions r5 = i + 1" "regionHeads r5 = (regionHeads r)(i := e)"
    "vitalStart r5 = (vitalStart r)(i := vitalForPlaHeadsListsTotal r)" "atLeastOnePla r5 = atLeastOnePla r"
    "vitalForPlaHeadsListsTotal r5 = vitalForPlaHeadsListsTotal r + vitalLen r4 i" "vitals_of r5 i = vitals_of r4 i"
    "vitalLen r5 = vitalLen r4" "numInternalSpacesMax2 r5 = numInternalSpacesMax2 r4" "containsOpp r5 = containsOpp r4"
    "nextEmptyOrOpp r5 = (nextEmptyOrOpp r4)(e := last V)" "vitalForPlaHeadsLists r5 = vitalForPlaHeadsLists r4"
    using oo by (simp_all add: r5_def others_def r1_def vitals_of_def)
  have vl: "0 \<le> vitalLen r4 i" "vitalLen r4 i \<le> 4" using f iv(4) by linarith+
  have new: "region_ok b pla multi r5 i"
  proof -
    have rg: "ring (nextEmptyOrOpp r5) e (rev T)"
      using link_ring [OF T(2), of "nextEmptyOrOpp r2"] f fields(10) T(1) by simp
    have st: "set (e # rev T) = region_at b pla e" using VR T(1) by simp
    have vt: "set (vitals_of r5 i) = vital_heads b pla multi (region_at b pla e)"
    proof -
      have "vitals_of r4 i = filter (\<lambda>h. \<forall>l\<in>set V. multi \<or> colors b l = C_EMPTY \<longrightarrow> touches b pla l h) (vitals_of r2 i)"
        using f by blast
      moreover have "h \<in> pla_heads b pla" if th: "touches b pla e h" for h
      proof -
        obtain m where m: "colors b m = pla" "chain_head b m = h" using th by (auto simp: touches_def)
        then have "is_stone (colors b m)" using p by simp
        then show ?thesis using chains_ok_head [OF ch] head_color [OF ch] m by (auto simp: pla_heads_def)
      qed
      ultimately show ?thesis unfolding vital_heads_def VR [symmetric] fields(6) using e(1) iv(2) T(1) by auto
    qed
    have dv: "distinct (vitals_of r5 i)"
    proof -
      have "vitals_of r4 i = filter (\<lambda>h. \<forall>l\<in>set V. multi \<or> colors b l = C_EMPTY \<longrightarrow> touches b pla l h) (vitals_of r2 i)"
        using f by blast
      then show ?thesis using iv(1) fields(6) by simp
    qed
    have cd: "length (filter (\<lambda>l. \<not> isAdjacentToPla b l pla) V) = card {l \<in> region_at b pla e. \<not> isAdjacentToPla b l pla}"
      using distinct_card [of "filter (\<lambda>l. \<not> isAdjacentToPla b l pla) V"] V(1) by (simp add: VR)
    have ix: "{l. regionIdxByLoc r5 l = i} = region_at b pla e"
      using less idx5 by (auto simp: less_le)
    have co: "containsOpp r5 i \<longleftrightarrow> (\<exists>l\<in>region_at b pla e. colors b l = getOpp pla)" unfolding fields(9) using f VR by blast
    have "numInternalSpacesMax2 r4 i = min 2 (int (length (filter (\<lambda>l. \<not> isAdjacentToPla b l pla) V)))"
      using f by blast
    then have nu: "numInternalSpacesMax2 r5 i = min 2 (int (card {l \<in> region_at b pla e. \<not> isAdjacentToPla b l pla}))"
      by (simp add: fields(8) cd)
    have sg: "0 \<le> vitalStart r5 i" "0 \<le> vitalLen r5 i" "vitalStart r5 i + vitalLen r5 i \<le> vitalForPlaHeadsListsTotal r5"
      using fields(3,5,7) tot vl by simp_all
    have he: "regionHeads r5 i = e" using fields(2) by simp
    show ?thesis
      unfolding region_ok_def Let_def he using e(1) ix rg st dv vt nu co sg by blast
  qed
  have old: "region_ok b pla multi r5 j" if j: "0 \<le> j" "j < i" for j
  proof (rule region_ok_keep [where r = r and i = i])
    show "region_ok b pla multi r j" using s j by (simp add: scan_ok_def i_def)
    show "j \<noteq> i" using j by simp
    show "regionHeads r5 j = regionHeads r j" "vitalStart r5 j = vitalStart r j" using fields j by simp_all
    show "regionIdxByLoc r5 l = j \<longleftrightarrow> regionIdxByLoc r l = j" for l
      using idx5 [of l] fresh [of l] j by auto
    show "nextEmptyOrOpp r5 l = nextEmptyOrOpp r l" if "regionIdxByLoc r l = j" for l
    proof -
      have "l \<notin> set V" using that fresh [of l] VR j by auto
      then have "nextEmptyOrOpp r4 l = nextEmptyOrOpp r2 l" "l \<noteq> e" using f T link_outside by auto
      then show ?thesis using fields(10) iv(7) by (simp add: r1_def)
    qed
    show "vitalLen r5 j = vitalLen r j" "numInternalSpacesMax2 r5 j = numInternalSpacesMax2 r j" "containsOpp r5 j = containsOpp r j"
      using oo j fields by (simp_all add: others_def r1_def)
    show "vitalForPlaHeadsLists r5 k = vitalForPlaHeadsLists r k" if "k < vitalForPlaHeadsListsTotal r" for k
      using oo that fields(11) by (simp add: others_def r1_def)
    show "vitalForPlaHeadsListsTotal r \<le> vitalForPlaHeadsListsTotal r5" using fields vl by simp
  qed
  have "region_ok b pla multi r5 j" if "0 \<le> j" "j < numRegions r5" for j
    using that new old fields(1) by (cases "j = i") auto
  moreover have "regionIdxByLoc r5 l \<noteq> - 1 \<longrightarrow> 0 \<le> regionIdxByLoc r5 l \<and> regionIdxByLoc r5 l < numRegions r5" for l
    using s idx5 [of l] fields(1) n less [of l] by (auto simp: scan_ok_def i_def)
  moreover have "regionIdxByLoc r5 l \<noteq> - 1" if "l \<in> insert e S" "colors b l = C_EMPTY" for l
    using that s idx5 [of l] ni by (auto simp: scan_ok_def)
  moreover have "atLeastOnePla r5 \<longleftrightarrow> (\<exists>l\<in>insert e S. colors b l = pla)"
    using s fields(4) e(1) p by (auto simp: scan_ok_def)
  ultimately show ?thesis
    using scan fields(1,5) n tot vl by (auto simp: scan_ok_def)
qed

lemma region_scan_total:
  assumes s: "scan_ok b pla multi S r" and wf: "wf_board Z b" and p: "is_stone pla"
  shows "\<exists>r'. region_scan b pla multi l r = Some r' \<and> scan_ok b pla multi (insert l S) r'"
proof (cases "regionIdxByLoc r l = - 1 \<and> colors b l = C_EMPTY")
  case True
  then show ?thesis using region_scan_new [OF s wf p] by blast
next
  case False
  show ?thesis
  proof (cases "regionIdxByLoc r l = - 1")
    case True
    then have c: "colors b l \<noteq> C_EMPTY" using False by simp
    let ?r = "r\<lparr>atLeastOnePla := (atLeastOnePla r \<or> colors b l = pla)\<rparr>"
    have "region_ok b pla multi ?r i = region_ok b pla multi r i" for i
      by (simp add: region_ok_def Let_def vitals_of_def)
    then have "scan_ok b pla multi (insert l S) ?r" using s c by (auto simp: scan_ok_def)
    then show ?thesis using c True by (simp add: region_scan_def)
  next
    case in_region: False
    then obtain i where i: "regionIdxByLoc r l = i" "0 \<le> i" "i < numRegions r" using s by (auto simp: scan_ok_def)
    then have "region_ok b pla multi r i" using s by (simp add: scan_ok_def)
    then have "l \<in> region_at b pla (regionHeads r i)" "colors b (regionHeads r i) = C_EMPTY"
      using i unfolding region_ok_def Let_def by blast+
    then have "l \<in> open_points b pla" using region_at_open [OF empty_open] by blast
    then have "colors b l \<noteq> pla" using p by (cases pla) (auto simp: open_points_def)
    then have "scan_ok b pla multi (insert l S) r" using s in_region by (auto simp: scan_ok_def)
    then show ?thesis using in_region by (simp add: region_scan_def)
  qed
qed

lemma scan_total:
  assumes wf: "wf_board Z b" and p: "is_stone pla"
  shows "\<exists>r. foldM (region_scan b pla multi) (board_locs b) regions_start = Some r \<and>
    scan_ok b pla multi {l. on_board (x_size b) (y_size b) l} r"
proof -
  have "scan_ok b pla multi {} regions_start" by (auto simp: scan_ok_def regions_start_def)
  moreover have "\<exists>r'. foldM (region_scan b pla multi) ls r = Some r' \<and> scan_ok b pla multi (S \<union> set ls) r'"
    if "scan_ok b pla multi S r" for ls S r
    using that
  proof (induction ls arbitrary: S r)
    case (Cons l ls)
    obtain r1 where r1: "region_scan b pla multi l r = Some r1" "scan_ok b pla multi (insert l S) r1"
      using region_scan_total [OF Cons.prems wf p] by blast
    from Cons.IH [OF r1(2)] show ?case using r1(1) by simp
  qed simp
  moreover have "set (board_locs b) = {l. on_board (x_size b) (y_size b) l}"
    using wf by (simp add: wf_board_def core_def geom_ok_def board_locs_eq set_locs_of)
  ultimately show ?thesis by fastforce
qed

end
