(* ===== verification/BensonLoop.thy ===== *)
theory BensonLoop
  imports BensonScan
begin

text \<open>
  The second part of \<open>Board::calculateAreaForPla\<close>: the iteration that removes chains with fewer
  than two vital regions ends, and what it leaves are the chains alive in Benson's sense.
\<close>

section \<open>Counting vital regions\<close>

lemma fold_increments:
  "fold (\<lambda>h cnt. cnt(h := cnt h + (1 :: 16 word))) xs cnt = (\<lambda>h. cnt h + of_nat (count_list xs h))"
  by (induction xs arbitrary: cnt) (auto simp: fun_eq_iff)

lemma fold_decrements:
  "fold (\<lambda>h cnt. cnt(h := cnt h - (1 :: 16 word))) xs cnt = (\<lambda>h. cnt h - of_nat (count_list xs h))"
  by (induction xs arbitrary: cnt) (auto simp: fun_eq_iff)

lemma count_list_distinct: "distinct xs \<Longrightarrow> count_list xs h = (if h \<in> set xs then 1 else 0)"
  by (induction xs) auto

text \<open>The regions not in \<open>M\<close> that are vital for \<open>h\<close>.\<close>

definition open_vitals :: "regions \<Rightarrow> int set \<Rightarrow> loc \<Rightarrow> int set" where
  "open_vitals r M h = {i \<in> {0..<numRegions r}. h \<in> set (vitals_of r i) \<and> i \<notin> M}"

lemma finite_open_vitals [simp]: "finite (open_vitals r M h)"
  by (rule finite_subset [of _ "{0..<numRegions r}"]) (auto simp: open_vitals_def)

lemma card_open_vitals: "0 \<le> numRegions r \<Longrightarrow> int (card (open_vitals r M h)) \<le> numRegions r"
proof -
  have "card (open_vitals r M h) \<le> card {0..<numRegions r}"
    by (intro card_mono) (auto simp: open_vitals_def)
  then show "0 \<le> numRegions r \<Longrightarrow> ?thesis" by simp
qed

lemma count_vitals_eq:
  assumes "\<And>i. 0 \<le> i \<Longrightarrow> i < numRegions r \<Longrightarrow> distinct (vitals_of r i)" "0 \<le> numRegions r"
  shows "count_vitals r (\<lambda>_. 0) = (\<lambda>h. of_nat (card (open_vitals r {} h)))"
proof -
  have "fold (\<lambda>i cnt. fold (\<lambda>plaHead cnt. cnt(plaHead := cnt plaHead + (1 :: 16 word))) (vitals_of r i) cnt) [0..n - 1] (\<lambda>_. 0) =
      (\<lambda>h. of_nat (card {i \<in> {0..<n}. h \<in> set (vitals_of r i)}))" if "0 \<le> n" "n \<le> numRegions r" for n
    using that
  proof (induction n rule: int_ge_induct)
    case base
    then show ?case by simp
  next
    case (step n)
    have s: "{i \<in> {0..<n + 1}. h \<in> set (vitals_of r i)} =
        (if h \<in> set (vitals_of r n) then insert n {i \<in> {0..<n}. h \<in> set (vitals_of r i)}
         else {i \<in> {0..<n}. h \<in> set (vitals_of r i)})" for h
      using step.hyps by (auto simp: less_le)
    have d: "distinct (vitals_of r n)" using assms(1) step by simp
    let ?F = "\<lambda>i cnt. fold (\<lambda>plaHead cnt. cnt(plaHead := cnt plaHead + (1 :: 16 word))) (vitals_of r i) cnt"
    have "fold ?F [0..(n + 1) - 1] (\<lambda>_. 0) = ?F n (fold ?F [0..n - 1] (\<lambda>_. 0))"
      using step.hyps by (simp add: upto_snoc)
    also have "fold ?F [0..n - 1] (\<lambda>_. 0) = (\<lambda>h. of_nat (card {i \<in> {0..<n}. h \<in> set (vitals_of r i)}))"
      by (rule step.IH) (use step.prems in simp)
    also have "?F n \<dots> = (\<lambda>h. of_nat (card {i \<in> {0..<n}. h \<in> set (vitals_of r i)}) + of_nat (count_list (vitals_of r n) h))"
      by (rule fold_increments)
    also have "\<dots> = (\<lambda>h. of_nat (card {i \<in> {0..<n + 1}. h \<in> set (vitals_of r i)}))"
    proof
      fix h
      have "finite {i \<in> {0..<n}. h \<in> set (vitals_of r i)}" by (rule finite_subset [of _ "{0..<n}"]) auto
      then show "of_nat (card {i \<in> {0..<n}. h \<in> set (vitals_of r i)}) + of_nat (count_list (vitals_of r n) h) =
          (of_nat (card {i \<in> {0..<n + 1}. h \<in> set (vitals_of r i)}) :: 16 word)"
        unfolding s count_list_distinct [OF d] by simp
    qed
    finally show ?case .
  qed
  from this [OF assms(2)] show ?thesis by (simp add: count_vitals_def open_vitals_def)
qed

section \<open>The state of the iteration\<close>

definition bstate :: "regions \<Rightarrow> int set \<Rightarrow> loc set \<Rightarrow> benson \<Rightarrow> bool" where
  "bstate r M K s \<longleftrightarrow> M \<subseteq> {0..<numRegions r} \<and>
     bordersNonPassAlivePla s = (\<lambda>l. \<exists>i\<in>M. regionHeads r i = l) \<and>
     vitalCountByPlaHead s = (\<lambda>h. of_nat (card (open_vitals r M h))) \<and>
     plaHasBeenKilled s = (\<lambda>h. h \<in> K)"

text \<open>The regions that one of the points of a list is adjacent to.\<close>

definition idx_of :: "regions \<Rightarrow> loc list \<Rightarrow> int set" where
  "idx_of r ls = {i. 0 \<le> i \<and> (\<exists>l\<in>set ls. regionIdxByLoc r l = i)}"

lemma kill_adj_effect:
  assumes s: "scan_ok b pla multi S r" and bs: "bstate r M K s"
  shows "bstate r (M \<union> idx_of r [adj]) K (kill_adj b (getOpp pla) r adj s)"
    "killedAnything (kill_adj b (getOpp pla) r adj s) = killedAnything s"
proof -
  let ?i = "regionIdxByLoc r adj"
  show "killedAnything (kill_adj b (getOpp pla) r adj s) = killedAnything s"
    by (simp add: kill_adj_def Let_def)
  show "bstate r (M \<union> idx_of r [adj]) K (kill_adj b (getOpp pla) r adj s)"
  proof (cases "0 \<le> ?i")
    case False
    then have "idx_of r [adj] = {}" by (auto simp: idx_of_def)
    then show ?thesis using bs False by (simp add: kill_adj_def Let_def)
  next
    case True
    then have i: "0 \<le> ?i" "?i < numRegions r" using s by (auto simp: scan_ok_def)
    then have k: "region_ok b pla multi r ?i" using s by (simp add: scan_ok_def)
    then have "adj \<in> region_at b pla (regionHeads r ?i)" "colors b (regionHeads r ?i) = C_EMPTY"
      unfolding region_ok_def Let_def by blast+
    then have op: "colors b adj = C_EMPTY \<or> colors b adj = getOpp pla"
      using region_at_open [OF empty_open] by (fastforce simp: open_points_def)
    have inj: "regionHeads r j = regionHeads r ?i \<longleftrightarrow> j = ?i" if "j \<in> M" for j
      using scan_heads(2) [OF s] i that bs by (metis atLeastLessThan_iff bstate_def subsetD)
    have idx: "idx_of r [adj] = {?i}" using True by (auto simp: idx_of_def)
    have b: "bordersNonPassAlivePla s (regionHeads r ?i) \<longleftrightarrow> ?i \<in> M" using bs inj by (auto simp: bstate_def)
    show ?thesis
    proof (cases "?i \<in> M")
      case mem: True
      then have "M \<union> idx_of r [adj] = M" using idx by auto
      moreover have "kill_adj b (getOpp pla) r adj s = s" using b mem by (simp add: kill_adj_def Let_def)
      ultimately show ?thesis using bs by simp
    next
      case nm: False
      have d: "distinct (vitals_of r ?i)" using k unfolding region_ok_def Let_def by blast
      have ov: "open_vitals r (M \<union> {?i}) h = open_vitals r M h - {?i}" for h by (auto simp: open_vitals_def)
      have mem: "?i \<in> open_vitals r M h \<longleftrightarrow> h \<in> set (vitals_of r ?i)" for h using i nm by (auto simp: open_vitals_def)
      have w: "(of_nat (card (open_vitals r M h)) :: 16 word) - of_nat (count_list (vitals_of r ?i) h) =
          of_nat (card (open_vitals r (M \<union> {?i}) h))" for h
      proof (cases "h \<in> set (vitals_of r ?i)")
        case True
        then have "card (open_vitals r M h) = Suc (card (open_vitals r (M \<union> {?i}) h))"
          unfolding ov using mem [of h] by (metis card_Suc_Diff1 finite_open_vitals)
        then show ?thesis using True by (simp add: count_list_distinct [OF d])
      next
        case False
        then have "open_vitals r (M \<union> {?i}) h = open_vitals r M h" using ov mem by auto
        then show ?thesis using False by (simp add: count_list_distinct [OF d])
      qed
      have "kill_adj b (getOpp pla) r adj s =
          s\<lparr>bordersNonPassAlivePla := (bordersNonPassAlivePla s)(regionHeads r ?i := True),
            vitalCountByPlaHead := fold (\<lambda>plaH cnt. cnt(plaH := cnt plaH - 1)) (vitals_of r ?i) (vitalCountByPlaHead s)\<rparr>"
        using b nm True op by (simp add: kill_adj_def Let_def)
      moreover have "(bordersNonPassAlivePla s)(regionHeads r ?i := True) = (\<lambda>l. \<exists>j\<in>M \<union> {?i}. regionHeads r j = l)"
        using bs by (auto simp: bstate_def fun_eq_iff)
      ultimately show ?thesis
        using bs i w unfolding idx by (simp add: bstate_def fold_decrements)
    qed
  qed
qed

lemma kill_adj_fold:
  assumes s: "scan_ok b pla multi S r" and bs: "bstate r M K s"
  shows "bstate r (M \<union> idx_of r ls) K (fold (kill_adj b (getOpp pla) r) ls s) \<and>
    killedAnything (fold (kill_adj b (getOpp pla) r) ls s) = killedAnything s"
  using bs
proof (induction ls arbitrary: M s)
  case Nil
  then show ?case by (simp add: idx_of_def)
next
  case (Cons l ls)
  have "(M \<union> idx_of r [l]) \<union> idx_of r ls = M \<union> idx_of r (l # ls)" by (auto simp: idx_of_def)
  then show ?case
    using Cons.IH [OF kill_adj_effect(1) [OF s Cons.prems, of l]] kill_adj_effect(2) [OF s Cons.prems, of l] by simp
qed

lemma kill_chain_fold:
  assumes s: "scan_ok b pla multi S r" and bs: "bstate r M K s"
  shows "bstate r (M \<union> {i. 0 \<le> i \<and> (\<exists>l\<in>set cs. \<exists>m\<in>set (adj4 b l). regionIdxByLoc r m = i)}) K
      (fold (\<lambda>cur s. fold (kill_adj b (getOpp pla) r) (adj4 b cur) s) cs s) \<and>
    killedAnything (fold (\<lambda>cur s. fold (kill_adj b (getOpp pla) r) (adj4 b cur) s) cs s) = killedAnything s"
  using bs
proof (induction cs arbitrary: M s)
  case Nil
  then show ?case by simp
next
  case (Cons c cs)
  have "(M \<union> idx_of r (adj4 b c)) \<union> {i. 0 \<le> i \<and> (\<exists>l\<in>set cs. \<exists>m\<in>set (adj4 b l). regionIdxByLoc r m = i)} =
      M \<union> {i. 0 \<le> i \<and> (\<exists>l\<in>set (c # cs). \<exists>m\<in>set (adj4 b l). regionIdxByLoc r m = i)}"
    by (auto simp: idx_of_def)
  then show ?case
    using Cons.IH [of "M \<union> idx_of r (adj4 b c)"] kill_adj_fold [OF s Cons.prems, of "adj4 b c"] by simp
qed

section \<open>Indices and regions\<close>

text \<open>The scan of the whole board: every region has exactly one index.\<close>

definition scanned :: "zobrist \<Rightarrow> board \<Rightarrow> player \<Rightarrow> bool \<Rightarrow> regions \<Rightarrow> bool" where
  "scanned Z b pla multi r \<longleftrightarrow> wf_board Z b \<and> is_stone pla \<and>
     scan_ok b pla multi {l. on_board (x_size b) (y_size b) l} r"

definition reg :: "board \<Rightarrow> player \<Rightarrow> regions \<Rightarrow> int \<Rightarrow> loc set" where
  "reg b pla r i = region_at b pla (regionHeads r i)"

lemma scanned_facts:
  assumes "scanned Z b pla multi r"
  shows "geom_ok b" "chains_ok b (\<lambda>_. 0)" "scan_ok b pla multi {l. on_board (x_size b) (y_size b) l} r"
    "0 \<le> numRegions r" "numRegions r \<le> 181"
proof -
  show g: "geom_ok b" "chains_ok b (\<lambda>_. 0)" and s: "scan_ok b pla multi {l. on_board (x_size b) (y_size b) l} r"
    using assms by (simp_all add: scanned_def wf_board_def core_def)
  show "0 \<le> numRegions r" using s by (simp add: scan_ok_def)
  show "numRegions r \<le> 181" using scan_bound [OF s g(1)] assms by (simp add: scanned_def)
qed

lemma reg_facts:
  assumes s: "scanned Z b pla multi r" and i: "0 \<le> i" "i < numRegions r"
  shows "l \<in> reg b pla r i \<longleftrightarrow> regionIdxByLoc r l = i" "set (vitals_of r i) = vital_heads b pla multi (reg b pla r i)"
    "distinct (vitals_of r i)" "\<exists>xs. ring (nextEmptyOrOpp r) (regionHeads r i) xs \<and> set (regionHeads r i # xs) = reg b pla r i"
    "numInternalSpacesMax2 r i = min 2 (int (card {l \<in> reg b pla r i. \<not> isAdjacentToPla b l pla}))"
    "containsOpp r i \<longleftrightarrow> (\<exists>l\<in>reg b pla r i. colors b l = getOpp pla)"
    "colors b (regionHeads r i) = C_EMPTY" "reg b pla r i \<subseteq> open_points b pla"
proof -
  have k: "region_ok b pla multi r i" using scanned_facts(3) [OF s] i by (simp add: scan_ok_def)
  note f = k [unfolded region_ok_def Let_def, folded reg_def]
  show "l \<in> reg b pla r i \<longleftrightarrow> regionIdxByLoc r l = i" using f by blast
  show "set (vitals_of r i) = vital_heads b pla multi (reg b pla r i)" "distinct (vitals_of r i)"
    "\<exists>xs. ring (nextEmptyOrOpp r) (regionHeads r i) xs \<and> set (regionHeads r i # xs) = reg b pla r i"
    "numInternalSpacesMax2 r i = min 2 (int (card {l \<in> reg b pla r i. \<not> isAdjacentToPla b l pla}))"
    "containsOpp r i \<longleftrightarrow> (\<exists>l\<in>reg b pla r i. colors b l = getOpp pla)" using f by blast+
  show e: "colors b (regionHeads r i) = C_EMPTY" using f by blast
  show "reg b pla r i \<subseteq> open_points b pla" unfolding reg_def by (rule region_at_open [OF empty_open [OF e]])
qed

lemma reg_inj: "scanned Z b pla multi r \<Longrightarrow> inj_on (reg b pla r) {0..<numRegions r}"
proof (rule inj_onI)
  fix i j assume s: "scanned Z b pla multi r" and ij: "i \<in> {0..<numRegions r}" "j \<in> {0..<numRegions r}"
    and eq: "reg b pla r i = reg b pla r j"
  have "regionHeads r i \<in> reg b pla r i" by (simp add: reg_def)
  then have "regionHeads r i \<in> reg b pla r j" using eq by simp
  then show "i = j"
    using reg_facts(1) [OF s, of j "regionHeads r i"] ij scan_heads(2) [OF scanned_facts(3) [OF s], of i] by simp
qed

lemma reg_image:
  assumes s: "scanned Z b pla multi r"
  shows "reg b pla r ` {0..<numRegions r} = regions_of b pla"
proof -
  note g = scanned_facts(1) [OF s]
  have locs: "set (board_locs b) = {l. on_board (x_size b) (y_size b) l}"
    using g by (simp add: geom_ok_def board_locs_eq set_locs_of)
  show ?thesis
  proof
    show "reg b pla r ` {0..<numRegions r} \<subseteq> regions_of b pla"
    proof
      fix R assume "R \<in> reg b pla r ` {0..<numRegions r}"
      then obtain i where i: "0 \<le> i" "i < numRegions r" "R = region_at b pla (regionHeads r i)" by (auto simp: reg_def)
      have e: "colors b (regionHeads r i) = C_EMPTY" by (rule reg_facts(7) [OF s i(1,2)])
      then have "regionHeads r i \<in> set (board_locs b)" using geom_wall [OF g, of "regionHeads r i"] locs by simp
      then show "R \<in> regions_of b pla" using e i(3) by (auto simp: regions_of_def)
    qed
    show "regions_of b pla \<subseteq> reg b pla r ` {0..<numRegions r}"
    proof
      fix R assume "R \<in> regions_of b pla"
      then obtain e where e: "R = region_at b pla e" "e \<in> set (board_locs b)" "colors b e = C_EMPTY"
        by (auto simp: regions_of_def)
      let ?i = "regionIdxByLoc r e"
      have i: "0 \<le> ?i" "?i < numRegions r"
        using scanned_facts(3) [OF s] e(2,3) locs unfolding scan_ok_def by blast+
      then have "e \<in> reg b pla r ?i" using reg_facts(1) [OF s i] by simp
      then have "R = reg b pla r ?i" unfolding e(1) reg_def by (rule region_at_eq)
      then show "R \<in> reg b pla r ` {0..<numRegions r}" using i by auto
    qed
  qed
qed

text \<open>The regions marked once the chains in \<open>K\<close> are removed.\<close>

definition marked :: "board \<Rightarrow> player \<Rightarrow> regions \<Rightarrow> loc set \<Rightarrow> int set" where
  "marked b pla r K = {i \<in> {0..<numRegions r}. border_heads b pla (reg b pla r i) \<inter> K \<noteq> {}}"

lemma card_vitals:
  assumes s: "scanned Z b pla multi r"
  shows "card (open_vitals r (marked b pla r K) h) =
    card {R \<in> regions_of b pla. h \<in> vital_heads b pla multi R \<and> border_heads b pla R \<inter> K = {}}"
proof -
  have "reg b pla r ` open_vitals r (marked b pla r K) h =
      {R \<in> regions_of b pla. h \<in> vital_heads b pla multi R \<and> border_heads b pla R \<inter> K = {}}"
    unfolding reg_image [OF s, symmetric] open_vitals_def marked_def using reg_facts(2) [OF s] by auto
  moreover have "inj_on (reg b pla r) (open_vitals r (marked b pla r K) h)"
    by (rule inj_on_subset [OF reg_inj [OF s]]) (auto simp: open_vitals_def)
  ultimately show ?thesis using card_image by fastforce
qed

section \<open>The iteration\<close>

definition binv :: "board \<Rightarrow> player \<Rightarrow> bool \<Rightarrow> regions \<Rightarrow> loc set \<Rightarrow> benson \<Rightarrow> bool" where
  "binv b pla multi r K s \<longleftrightarrow> bstate r (marked b pla r K) K s \<and> K \<subseteq> pla_heads b pla \<and> benson_alive b pla multi \<inter> K = {}"

lemma touches_chain:
  assumes c: "chains_ok b off" and h: "h \<in> pla_heads b pla"
  shows "touches b pla m h \<longleftrightarrow> (\<exists>l\<in>chain_of b h. adjacent (x_size b) l m)"
proof -
  have h': "h \<in> heads b" "colors b h = pla" using h by (simp_all add: pla_heads_def)
  have "colors b l = pla" if "l \<in> chain_of b h" for l
    using chain_ok_color [OF chains_ok_chain [OF c h'(1)] that] h' by simp
  moreover have "is_stone pla" using h' heads_stone by blast
  ultimately show ?thesis unfolding touches_def chain_of_def using adjacent_sym by auto
qed

lemma kill_head_effect:
  assumes s: "scanned Z b pla multi r" and bi: "binv b pla multi r K st" and h: "h \<in> pla_heads b pla"
  shows "\<exists>st'. kill_head b (getOpp pla) r h st = Some st' \<and>
    (if h \<in> K \<or> 2 \<le> card (open_vitals r (marked b pla r K) h) then st' = st
     else binv b pla multi r (insert h K) st' \<and> killedAnything st')"
proof -
  note f = scanned_facts [OF s]
  have bs: "bstate r (marked b pla r K) K st" using bi by (simp add: binv_def)
  have "card (open_vitals r (marked b pla r K) h) \<le> 181" using card_open_vitals [OF f(4), of "marked b pla r K" h] f(5) by linarith
  then have "take_bit 16 (card (open_vitals r (marked b pla r K) h)) = card (open_vitals r (marked b pla r K) h)"
    by (simp add: take_bit_nat_eq_self)
  then have cnt: "vitalCountByPlaHead st h < 2 \<longleftrightarrow> card (open_vitals r (marked b pla r K) h) < 2"
    using bs by (simp add: bstate_def word_less_nat_alt unsigned_of_nat)
  show ?thesis
  proof (cases "h \<in> K \<or> 2 \<le> card (open_vitals r (marked b pla r K) h)")
    case True
    then show ?thesis using bs cnt by (auto simp: kill_head_def bstate_def)
  next
    case False
    let ?st = "st\<lparr>plaHasBeenKilled := (plaHasBeenKilled st)(h := True), killedAnything := True\<rparr>"
    have h': "h \<in> heads b" using h by (simp add: pla_heads_def)
    obtain ps where ps: "ring (next_in_chain b) h ps" "set (h # ps) = chain_of b h"
      using chains_ok_chain [OF f(2) h'] by (auto simp: chain_ok_def)
    let ?f = "\<lambda>cur s. fold (kill_adj b (getOpp pla) r) (adj4 b cur) s"
    have "walk_all (\<lambda>_. next_in_chain b) ?f h ?st = Some (fold ?f (h # ps) ?st)"
      by (rule walk_all_ring [OF ps(1), where I = "\<lambda>_. True"]) simp_all
    moreover have "kill_head b (getOpp pla) r h st = walk_all (\<lambda>_. next_in_chain b) ?f h ?st"
      using False cnt bs by (simp add: kill_head_def Let_def bstate_def)
    ultimately have res: "kill_head b (getOpp pla) r h st = Some (fold ?f (h # ps) ?st)" by simp
    have "bstate r (marked b pla r K) (insert h K) ?st" using bs by (auto simp: bstate_def fun_eq_iff)
    note kc = kill_chain_fold [OF f(3) this, of "h # ps"]
    have "marked b pla r K \<union> {i. 0 \<le> i \<and> (\<exists>l\<in>set (h # ps). \<exists>m\<in>set (adj4 b l). regionIdxByLoc r m = i)} =
        marked b pla r (insert h K)"
    proof -
      have "(0 \<le> i \<and> (\<exists>l\<in>set (h # ps). \<exists>m\<in>set (adj4 b l). regionIdxByLoc r m = i)) \<longleftrightarrow>
          i \<in> {0..<numRegions r} \<and> h \<in> border_heads b pla (reg b pla r i)" for i
      proof
        assume a: "0 \<le> i \<and> (\<exists>l\<in>set (h # ps). \<exists>m\<in>set (adj4 b l). regionIdxByLoc r m = i)"
        then obtain l m where lm: "l \<in> chain_of b h" "adjacent (x_size b) l m" "regionIdxByLoc r m = i"
          unfolding ps(2) adj4_adjs [OF f(1)] set_adjs by blast
        have i: "0 \<le> i" "i < numRegions r" using a lm(3) f(3) unfolding scan_ok_def by force+
        then have "m \<in> reg b pla r i" using reg_facts(1) [OF s i] lm(3) by blast
        then show "i \<in> {0..<numRegions r} \<and> h \<in> border_heads b pla (reg b pla r i)"
          using i lm touches_chain [OF f(2) h] by (auto simp: border_heads_def)
      next
        assume a: "i \<in> {0..<numRegions r} \<and> h \<in> border_heads b pla (reg b pla r i)"
        then obtain m where m: "m \<in> reg b pla r i" "touches b pla m h" by (auto simp: border_heads_def)
        then obtain l where l: "l \<in> chain_of b h" "adjacent (x_size b) l m" using touches_chain [OF f(2) h] by blast
        have "regionIdxByLoc r m = i" using reg_facts(1) [OF s, of i m] a m(1) by simp
        then show "0 \<le> i \<and> (\<exists>l\<in>set (h # ps). \<exists>m\<in>set (adj4 b l). regionIdxByLoc r m = i)"
          unfolding ps(2) adj4_adjs [OF f(1)] set_adjs using a l by auto
      qed
      then show ?thesis by (auto simp: marked_def)
    qed
    then have "bstate r (marked b pla r (insert h K)) (insert h K) (fold ?f (h # ps) ?st)" and
      ka: "killedAnything (fold ?f (h # ps) ?st)" using kc by simp_all
    moreover have "h \<notin> benson_alive b pla multi"
      unfolding benson_alive_def
    proof (rule board_life.remove_sound [where K = K])
      show "board_life.alive b pla multi \<inter> K = {}" using bi by (simp add: binv_def benson_alive_def)
      show "card {R \<in> regions_of b pla. h \<in> vital_heads b pla multi R \<and> border_heads b pla R \<inter> K = {}} < 2"
        using False card_vitals [OF s, of K h] by simp
    qed
    ultimately have "binv b pla multi r (insert h K) (fold ?f (h # ps) ?st)"
      using bi h by (auto simp: binv_def)
    then show ?thesis using res ka False by auto
  qed
qed

text \<open>One pass over all chains.\<close>

lemma kill_pass:
  assumes s: "scanned Z b pla multi r" and bi: "binv b pla multi r K st" and hs: "set hs \<subseteq> pla_heads b pla"
  shows "\<exists>K' st'. foldM (kill_head b (getOpp pla) r) hs st = Some st' \<and> binv b pla multi r K' st' \<and> K \<subseteq> K' \<and>
    (killedAnything st' \<longrightarrow> killedAnything st \<or> K \<noteq> K') \<and> (killedAnything st \<longrightarrow> killedAnything st') \<and>
    (\<not> killedAnything st' \<longrightarrow> K' = K \<and> (\<forall>h\<in>set hs. h \<in> K \<or> 2 \<le> card (open_vitals r (marked b pla r K) h)))"
  using bi hs
proof (induction hs arbitrary: K st)
  case Nil
  then show ?case by auto
next
  case (Cons h hs)
  let ?ok = "h \<in> K \<or> 2 \<le> card (open_vitals r (marked b pla r K) h)"
  obtain st1 where st1: "kill_head b (getOpp pla) r h st = Some st1"
    and e: "if ?ok then st1 = st else binv b pla multi r (insert h K) st1 \<and> killedAnything st1"
    using kill_head_effect [OF s Cons.prems(1)] Cons.prems(2) by fastforce
  have hs: "set hs \<subseteq> pla_heads b pla" using Cons.prems(2) by simp
  show ?case
  proof (cases ?ok)
    case True
    then have "st1 = st" using e by simp
    then show ?thesis using Cons.IH [OF Cons.prems(1) hs] st1 True by auto
  next
    case False
    then have b1: "binv b pla multi r (insert h K) st1" and k1: "killedAnything st1" using e by simp_all
    from Cons.IH [OF b1 hs] obtain K' st' where
      "foldM (kill_head b (getOpp pla) r) hs st1 = Some st'" "binv b pla multi r K' st'" "insert h K \<subseteq> K'"
      "killedAnything st'" using k1 by blast
    then show ?thesis using st1 False by (intro exI [of _ K'] exI [of _ st']) auto
  qed
qed

lemma binv_flag [simp]: "binv b pla multi r K (st\<lparr>killedAnything := v\<rparr>) \<longleftrightarrow> binv b pla multi r K st"
  by (simp add: binv_def bstate_def)

lemma finite_pla_heads: "geom_ok b \<Longrightarrow> finite (pla_heads b pla)"
  by (rule finite_subset [OF _ finite_on_board [of "x_size b" "y_size b"]])
     (auto simp: pla_heads_def heads_def intro: geom_stone_on_board)

lemma benson_loop_total:
  assumes s: "scanned Z b pla multi r" and bi: "binv b pla multi r K st" and hs: "set hs = pla_heads b pla"
  shows "\<exists>st'. benson_loop b (getOpp pla) r hs st = Some st' \<and>
    binv b pla multi r (pla_heads b pla - benson_alive b pla multi) st'"
  using bi
proof (induction "card (pla_heads b pla) - card K" arbitrary: K st rule: less_induct)
  case less
  have fin: "finite (pla_heads b pla)" by (rule finite_pla_heads [OF scanned_facts(1) [OF s]])
  have "binv b pla multi r K (st\<lparr>killedAnything := False\<rparr>)" using less.prems by simp
  from kill_pass [OF s this, of hs] hs obtain K' st' where
    p: "foldM (kill_head b (getOpp pla) r) hs (st\<lparr>killedAnything := False\<rparr>) = Some st'"
    and b': "binv b pla multi r K' st'" and sub: "K \<subseteq> K'" and ch: "killedAnything st' \<longrightarrow> K \<noteq> K'"
    and fix_: "\<not> killedAnything st' \<longrightarrow> K' = K \<and>
      (\<forall>h\<in>pla_heads b pla. h \<in> K \<or> 2 \<le> card (open_vitals r (marked b pla r K) h))"
    by auto
  show ?case
  proof (cases "killedAnything st'")
    case True
    have "K' \<subseteq> pla_heads b pla" using b' by (simp add: binv_def)
    moreover have "K \<subset> K'" using sub ch True by blast
    ultimately have "card K < card K'" "card K' \<le> card (pla_heads b pla)"
      using fin by (auto intro: psubset_card_mono card_mono finite_subset)
    then have "card (pla_heads b pla) - card K' < card (pla_heads b pla) - card K" by simp
    from less.hyps [OF this b'] show ?thesis
      using p True by (subst benson_loop.simps) simp
  next
    case False
    have "board_life.alive b pla multi = pla_heads b pla - K"
    proof (rule board_life.fixpoint_alive)
      show "board_life.alive b pla multi \<inter> K = {}" using less.prems by (simp add: binv_def benson_alive_def)
      show "border_heads b pla R \<subseteq> pla_heads b pla" if "R \<in> regions_of b pla" for R
      proof
        fix h assume "h \<in> border_heads b pla R"
        then obtain m where "colors b m = pla" "chain_head b m = h" by (auto simp: border_heads_def touches_def)
        then show "h \<in> pla_heads b pla"
          using chains_ok_head [OF scanned_facts(2) [OF s], of m] head_color [OF scanned_facts(2) [OF s], of m] s
          by (simp add: pla_heads_def scanned_def)
      qed
      show "2 \<le> card {R \<in> regions_of b pla. h \<in> vital_heads b pla multi R \<and> border_heads b pla R \<inter> K = {}}"
        if "h \<in> pla_heads b pla" "h \<notin> K" for h
        using fix_ False that card_vitals [OF s, of K h] by auto
    qed
    moreover have "K \<subseteq> pla_heads b pla" using less.prems by (simp add: binv_def)
    ultimately have "pla_heads b pla - benson_alive b pla multi = K" by (auto simp: benson_alive_def)
    then show ?thesis using p False fix_ b' by (subst benson_loop.simps) simp
  qed
qed

section \<open>Marking\<close>

lemma fold_colour: "fold (\<lambda>cur result. result(cur := pla)) xs result = (\<lambda>l. if l \<in> set xs then pla else result l)"
  by (induction xs arbitrary: result) (auto simp: fun_eq_iff)

lemma fold_colour_empty:
  "fold (\<lambda>cur result. if result cur = C_EMPTY then result(cur := pla) else result) xs result =
    (\<lambda>l. if l \<in> set xs \<and> result l = C_EMPTY then pla else result l)"
proof (induction xs arbitrary: result)
  case Nil
  then show ?case by (simp add: fun_eq_iff)
next
  case (Cons x xs)
  show ?case by (simp add: Cons.IH) (auto simp: fun_eq_iff)
qed

lemma mark_groups:
  assumes c: "chains_ok b off" and hs: "set hs \<subseteq> heads b"
  shows "foldM (mark_group b pla st) hs result =
    Some (\<lambda>l. if \<exists>h\<in>set hs. \<not> plaHasBeenKilled st h \<and> l \<in> chain_of b h then pla else result l)"
  using hs
proof (induction hs arbitrary: result)
  case Nil
  then show ?case by simp
next
  case (Cons h hs)
  obtain ps where ps: "ring (next_in_chain b) h ps" "set (h # ps) = chain_of b h"
    using chains_ok_chain [OF c, of h] Cons.prems by (auto simp: chain_ok_def)
  have "walk_all (\<lambda>_. next_in_chain b) (\<lambda>cur result. result(cur := pla)) h result =
      Some (fold (\<lambda>cur result. result(cur := pla)) (h # ps) result)"
    by (rule walk_all_ring [OF ps(1), where I = "\<lambda>_. True"]) simp_all
  then have "mark_group b pla st h result =
      Some (\<lambda>l. if \<not> plaHasBeenKilled st h \<and> l \<in> chain_of b h then pla else result l)"
    unfolding mark_group_def fold_colour ps(2) by simp
  then show ?case using Cons by (auto simp: fun_eq_iff)
qed

end
