(* ===== verification/BensonArea.thy ===== *)
theory BensonArea
  imports BensonLoop
begin

text \<open>
  The result of \<open>Board::calculateAreaForPla\<close> and of \<open>Board::calculateArea\<close>, stated on the
  chains and regions of the board.
\<close>

section \<open>The area of one player\<close>

definition sure_region :: "board \<Rightarrow> player \<Rightarrow> bool \<Rightarrow> bool \<Rightarrow> loc set \<Rightarrow> bool" where
  "sure_region b pla multi safeBig R \<longleftrightarrow> (\<exists>l. colors b l = pla) \<and> border_heads b pla R \<subseteq> benson_alive b pla multi \<and>
     (card {l \<in> R. \<not> isAdjacentToPla b l pla} \<le> 1 \<or> safeBig \<and> (\<forall>l\<in>R. colors b l \<noteq> getOpp pla))"

definition likely_region :: "board \<Rightarrow> player \<Rightarrow> bool \<Rightarrow> loc set \<Rightarrow> bool" where
  "likely_region b pla unsafeBig R \<longleftrightarrow> unsafeBig \<and> (\<exists>l. colors b l = pla) \<and> (\<forall>l\<in>R. colors b l \<noteq> getOpp pla)"

definition pla_area ::
  "board \<Rightarrow> player \<Rightarrow> bool \<Rightarrow> bool \<Rightarrow> bool \<Rightarrow> (loc \<Rightarrow> color) \<Rightarrow> loc \<Rightarrow> color" where
  "pla_area b pla safeBig unsafeBig multi result = (\<lambda>l.
     if colors b l = pla then (if chain_head b l \<in> benson_alive b pla multi then pla else result l)
     else if \<exists>R\<in>regions_of b pla. l \<in> R \<and>
         (sure_region b pla multi safeBig R \<or> likely_region b pla unsafeBig R \<and> result l = C_EMPTY)
     then pla else result l)"

lemma bind_foldM_Nil: "Option.bind x (foldM f []) = x"
  by (cases x) simp_all

text \<open>Marking the regions one by one, each point being in at most one of them.\<close>

lemma mark_region_effect:
  assumes s: "scanned Z b pla multi r" and bs: "bstate r (marked b pla r (pla_heads b pla - benson_alive b pla multi)) K st"
    and i: "0 \<le> i" "i < numRegions r"
  shows "mark_region pla safeBig unsafeBig r st i result =
    Some (\<lambda>l. if l \<in> reg b pla r i \<and> (sure_region b pla multi safeBig (reg b pla r i) \<or>
        likely_region b pla unsafeBig (reg b pla r i) \<and> result l = C_EMPTY) then pla else result l)"
proof -
  let ?R = "reg b pla r i"
  note f = scanned_facts [OF s] and rf = reg_facts [OF s i]
  obtain xs where xs: "ring (nextEmptyOrOpp r) (regionHeads r i) xs" "set (regionHeads r i # xs) = ?R"
    using rf(4) by blast
  have w: "walk_all (\<lambda>_. nextEmptyOrOpp r) body (regionHeads r i) result = Some (fold body (regionHeads r i # xs) result)"
    for body :: "loc \<Rightarrow> (loc \<Rightarrow> color) \<Rightarrow> loc \<Rightarrow> color"
    by (rule walk_all_ring [OF xs(1), where I = "\<lambda>_. True"]) simp_all
  have inj: "regionHeads r j = regionHeads r i \<longleftrightarrow> j = i" if "j \<in> {0..<numRegions r}" for j
    using scan_heads(2) [OF f(3)] i that by (metis atLeastLessThan_iff)
  have "bordersNonPassAlivePla st (regionHeads r i) \<longleftrightarrow> i \<in> marked b pla r (pla_heads b pla - benson_alive b pla multi)"
    using bs inj by (auto simp: bstate_def marked_def)
  moreover have "border_heads b pla ?R \<subseteq> pla_heads b pla"
  proof
    fix h assume "h \<in> border_heads b pla ?R"
    then obtain m where "colors b m = pla" "chain_head b m = h" by (auto simp: border_heads_def touches_def)
    then show "h \<in> pla_heads b pla"
      using chains_ok_head [OF f(2), of m] head_color [OF f(2), of m] s by (simp add: pla_heads_def scanned_def)
  qed
  ultimately have bo: "bordersNonPassAlivePla st (regionHeads r i) \<longleftrightarrow> \<not> border_heads b pla ?R \<subseteq> benson_alive b pla multi"
    using i by (auto simp: marked_def)
  have num: "numInternalSpacesMax2 r i \<le> 1 \<longleftrightarrow> card {l \<in> ?R. \<not> isAdjacentToPla b l pla} \<le> 1"
    unfolding rf(5) by (simp add: min_def)
  have at: "atLeastOnePla r \<longleftrightarrow> (\<exists>l. colors b l = pla)"
  proof -
    have "is_stone pla" using s by (simp add: scanned_def)
    then have "on_board (x_size b) (y_size b) l" if "colors b l = pla" for l
      using geom_stone_on_board [OF f(1)] that by simp
    then show ?thesis using f(3) by (auto simp: scan_ok_def)
  qed
  have op: "containsOpp r i \<longleftrightarrow> \<not> (\<forall>l\<in>?R. colors b l \<noteq> getOpp pla)" using rf(6) by blast
  show ?thesis
    unfolding mark_region_def Let_def w fold_colour fold_colour_empty xs(2) bo num at op sure_region_def likely_region_def
    by (auto simp: fun_eq_iff)
qed

lemma mark_regions:
  assumes s: "scanned Z b pla multi r" and bs: "bstate r (marked b pla r (pla_heads b pla - benson_alive b pla multi)) K st"
    and n: "0 \<le> n" "n \<le> numRegions r"
  shows "foldM (mark_region pla safeBig unsafeBig r st) [0..n - 1] result =
    Some (\<lambda>l. if \<exists>i. 0 \<le> i \<and> i < n \<and> l \<in> reg b pla r i \<and> (sure_region b pla multi safeBig (reg b pla r i) \<or>
        likely_region b pla unsafeBig (reg b pla r i) \<and> result l = C_EMPTY) then pla else result l)"
  using n
proof (induction n rule: int_ge_induct)
  case base
  have no: "\<not> (\<exists>i\<ge>0 :: int. i < 0 \<and> Q i)" for Q by auto
  show ?case by (simp add: no)
next
  case (step n)
  let ?P = "\<lambda>i l. sure_region b pla multi safeBig (reg b pla r i) \<or> likely_region b pla unsafeBig (reg b pla r i) \<and> result l = C_EMPTY"
  let ?g = "\<lambda>l. if \<exists>i. 0 \<le> i \<and> i < n \<and> l \<in> reg b pla r i \<and> ?P i l then pla else result l"
  have i: "0 \<le> n" "n < numRegions r" using step by simp_all
  have IH: "foldM (mark_region pla safeBig unsafeBig r st) [0..n - 1] result = Some ?g"
    by (rule step.IH) (use step.prems in simp)
  have one: "?g l = result l" if "l \<in> reg b pla r n" for l
  proof -
    have "j = n" if j: "0 \<le> j" "j < n" "l \<in> reg b pla r j" for j
      using reg_facts(1) [OF s, of j l] reg_facts(1) [OF s i, of l] j i \<open>l \<in> reg b pla r n\<close> by simp
    then show ?thesis by auto
  qed
  have "foldM (mark_region pla safeBig unsafeBig r st) [0..n + 1 - 1] result =
      mark_region pla safeBig unsafeBig r st n ?g"
    using step.hyps by (simp add: upto_snoc foldM_append IH bind_foldM_Nil del: foldM.simps(1))
  also have "\<dots> = Some (\<lambda>l. if l \<in> reg b pla r n \<and> (sure_region b pla multi safeBig (reg b pla r n) \<or>
        likely_region b pla unsafeBig (reg b pla r n) \<and> ?g l = C_EMPTY) then pla else ?g l)"
    by (rule mark_region_effect [OF s bs i])
  also have "(\<lambda>l. if l \<in> reg b pla r n \<and> (sure_region b pla multi safeBig (reg b pla r n) \<or>
        likely_region b pla unsafeBig (reg b pla r n) \<and> ?g l = C_EMPTY) then pla else ?g l) =
      (\<lambda>l. if \<exists>i. 0 \<le> i \<and> i < n + 1 \<and> l \<in> reg b pla r i \<and> ?P i l then pla else result l)"
  proof
    fix l
    have ex: "(\<exists>i. 0 \<le> i \<and> i < n + 1 \<and> l \<in> reg b pla r i \<and> ?P i l) \<longleftrightarrow>
        (\<exists>i. 0 \<le> i \<and> i < n \<and> l \<in> reg b pla r i \<and> ?P i l) \<or> l \<in> reg b pla r n \<and> ?P n l"
      using step.hyps by (auto simp: less_le)
    show "(if l \<in> reg b pla r n \<and> (sure_region b pla multi safeBig (reg b pla r n) \<or>
        likely_region b pla unsafeBig (reg b pla r n) \<and> ?g l = C_EMPTY) then pla else ?g l) =
      (if \<exists>i. 0 \<le> i \<and> i < n + 1 \<and> l \<in> reg b pla r i \<and> ?P i l then pla else result l)"
    proof (cases "l \<in> reg b pla r n")
      case True
      then show ?thesis unfolding ex one [OF True] using one [OF True] by (auto split: if_splits)
    next
      case False
      then show ?thesis unfolding ex by simp
    qed
  qed
  finally show ?case .
qed

lemma calculateAreaForPla_eq:
  assumes wf: "wf_board Z b" and p: "is_stone pla"
  shows "calculateAreaForPla b pla safeBig unsafeBig multi result = Some (pla_area b pla safeBig unsafeBig multi result)"
proof -
  obtain r where r: "foldM (region_scan b pla multi) (board_locs b) regions_start = Some r"
    and so: "scan_ok b pla multi {l. on_board (x_size b) (y_size b) l} r"
    using scan_total [OF wf p] by blast
  have s: "scanned Z b pla multi r" using wf p so by (simp add: scanned_def)
  note f = scanned_facts [OF s]
  let ?hs = "filter (\<lambda>loc. colors b loc = pla \<and> chain_head b loc = loc) [0..MAX_ARR_SIZE - 1]"
  have hs: "set ?hs = pla_heads b pla"
  proof -
    have "0 \<le> h \<and> h < MAX_ARR_SIZE" if "is_stone (colors b h)" for h
      using on_board_in_array [OF wf] geom_stone_on_board [OF f(1) that] by blast
    then show ?thesis using p by (auto simp: pla_heads_def heads_def)
  qed
  let ?st = "\<lparr>bordersNonPassAlivePla = (\<lambda>_. False), vitalCountByPlaHead = count_vitals r (\<lambda>_. 0),
      plaHasBeenKilled = (\<lambda>_. False), killedAnything = False\<rparr>"
  have "count_vitals r (\<lambda>_. 0) = (\<lambda>h. of_nat (card (open_vitals r {} h)))"
    by (rule count_vitals_eq) (use reg_facts(3) [OF s] f(4) in auto)
  then have "binv b pla multi r {} ?st" by (simp add: binv_def bstate_def marked_def)
  from benson_loop_total [OF s this hs] obtain st
    where st: "benson_loop b (getOpp pla) r ?hs ?st = Some st"
      and bi: "binv b pla multi r (pla_heads b pla - benson_alive b pla multi) st" by blast
  have bs: "bstate r (marked b pla r (pla_heads b pla - benson_alive b pla multi)) (pla_heads b pla - benson_alive b pla multi) st"
    using bi by (simp add: binv_def)
  let ?g = "\<lambda>l. if \<exists>h\<in>set ?hs. \<not> plaHasBeenKilled st h \<and> l \<in> chain_of b h then pla else result l"
  have g: "foldM (mark_group b pla st) ?hs result = Some ?g"
    by (rule mark_groups [OF f(2)]) (use hs in \<open>auto simp: pla_heads_def\<close>)
  have ge: "?g l = (if colors b l = pla \<and> chain_head b l \<in> benson_alive b pla multi then pla else result l)" for l
  proof -
    have "(\<exists>h\<in>pla_heads b pla. \<not> plaHasBeenKilled st h \<and> l \<in> chain_of b h) \<longleftrightarrow>
        colors b l = pla \<and> chain_head b l \<in> benson_alive b pla multi"
    proof
      assume "\<exists>h\<in>pla_heads b pla. \<not> plaHasBeenKilled st h \<and> l \<in> chain_of b h"
      then obtain h where h: "h \<in> pla_heads b pla" "\<not> plaHasBeenKilled st h" "l \<in> chain_of b h" by blast
      then have hh: "h \<in> heads b" "colors b h = pla" by (simp_all add: pla_heads_def)
      have "colors b l = pla" using chain_ok_color [OF chains_ok_chain [OF f(2) hh(1)] h(3)] hh(2) by simp
      moreover have "chain_head b l = h" using h(3) by (simp add: chain_of_def)
      ultimately show "colors b l = pla \<and> chain_head b l \<in> benson_alive b pla multi"
        using h bs by (auto simp: bstate_def pla_heads_def)
    next
      assume a: "colors b l = pla \<and> chain_head b l \<in> benson_alive b pla multi"
      then have "chain_head b l \<in> pla_heads b pla"
        using chains_ok_head [OF f(2), of l] head_color [OF f(2), of l] p by (simp add: pla_heads_def)
      moreover have "l \<in> chain_of b (chain_head b l)" using a p by (intro chain_of_mem) simp
      ultimately show "\<exists>h\<in>pla_heads b pla. \<not> plaHasBeenKilled st h \<and> l \<in> chain_of b h"
        using a bs by (auto simp: bstate_def)
    qed
    then show ?thesis unfolding hs by (simp only:)
  qed
  have nr: "colors b l \<noteq> pla" if "0 \<le> i" "i < numRegions r" "l \<in> reg b pla r i" for i l
    using reg_facts(8) [OF s that(1,2)] that(3) p by (cases pla) (auto simp: open_points_def)
  have ex: "(\<exists>i. 0 \<le> i \<and> i < numRegions r \<and> l \<in> reg b pla r i \<and> Q (reg b pla r i)) \<longleftrightarrow>
      (\<exists>R\<in>regions_of b pla. l \<in> R \<and> Q R)" for l and Q :: "loc set \<Rightarrow> bool"
    unfolding reg_image [OF s, symmetric] by auto
  have "foldM (mark_region pla safeBig unsafeBig r st) [0..numRegions r - 1] ?g =
      Some (pla_area b pla safeBig unsafeBig multi result)"
    unfolding mark_regions [OF s bs f(4) order_refl] ge pla_area_def option.inject
  proof
    fix l
    show "(if \<exists>i. 0 \<le> i \<and> i < numRegions r \<and> l \<in> reg b pla r i \<and> (sure_region b pla multi safeBig (reg b pla r i) \<or>
            likely_region b pla unsafeBig (reg b pla r i) \<and>
            (if colors b l = pla \<and> chain_head b l \<in> benson_alive b pla multi then pla else result l) = C_EMPTY)
          then pla else if colors b l = pla \<and> chain_head b l \<in> benson_alive b pla multi then pla else result l) =
        (if colors b l = pla then (if chain_head b l \<in> benson_alive b pla multi then pla else result l)
         else if \<exists>R\<in>regions_of b pla. l \<in> R \<and>
             (sure_region b pla multi safeBig R \<or> likely_region b pla unsafeBig R \<and> result l = C_EMPTY)
         then pla else result l)"
    proof (cases "colors b l = pla")
      case True
      then show ?thesis using nr by auto
    next
      case False
      then show ?thesis
        using ex [of l "\<lambda>R. sure_region b pla multi safeBig R \<or> likely_region b pla unsafeBig R \<and> result l = C_EMPTY"] by auto
    qed
  qed
  then show ?thesis unfolding calculateAreaForPla_def Let_def using r st g by simp
qed

section \<open>The area of both players\<close>

definition both_areas :: "board \<Rightarrow> bool \<Rightarrow> bool \<Rightarrow> bool \<Rightarrow> loc \<Rightarrow> color" where
  "both_areas b safeBig unsafeBig multi =
     pla_area b P_WHITE safeBig unsafeBig multi (pla_area b P_BLACK safeBig unsafeBig multi (\<lambda>_. C_EMPTY))"

lemma fill_colors_fold:
  "fold (\<lambda>loc result. if result loc = C_EMPTY then result(loc := colors b loc) else result) ls result =
    (\<lambda>l. if l \<in> set ls \<and> result l = C_EMPTY then colors b l else result l)"
proof (induction ls arbitrary: result)
  case Nil
  then show ?case by (simp add: fun_eq_iff)
next
  case (Cons l ls)
  show ?case by (simp add: Cons.IH) (auto simp: fun_eq_iff)
qed

lemma fill_colors_eq:
  assumes "geom_ok b"
  shows "fill_colors b result = (\<lambda>l. if on_board (x_size b) (y_size b) l \<and> result l = C_EMPTY then colors b l else result l)"
proof -
  have "set (board_locs b) = {l. on_board (x_size b) (y_size b) l}"
    using assms by (simp add: geom_ok_def board_locs_eq set_locs_of)
  then show ?thesis unfolding fill_colors_def fill_colors_fold by simp
qed

lemma calculateArea_eq:
  assumes wf: "wf_board Z b"
  shows "calculateArea b nonPassAlive safeBig unsafeBig multi =
    Some (if nonPassAlive then fill_colors b (both_areas b safeBig unsafeBig multi) else both_areas b safeBig unsafeBig multi)"
  unfolding calculateArea_def both_areas_def using calculateAreaForPla_eq [OF wf] by simp

lemma pla_area_outside:
  assumes g: "geom_ok b" and p: "is_stone pla" and l: "\<not> on_board (x_size b) (y_size b) l"
  shows "pla_area b pla safeBig unsafeBig multi result l = result l"
proof -
  have w: "colors b l = C_WALL" using geom_wall [OF g] l by blast
  have "l \<notin> R" if R: "R \<in> regions_of b pla" for R
  proof -
    obtain e where "R = region_at b pla e" "colors b e = C_EMPTY" using R by (auto simp: regions_of_def)
    then have "R \<subseteq> open_points b pla" using region_at_open [OF empty_open] by blast
    then show ?thesis using w p by (cases pla) (auto simp: open_points_def)
  qed
  then show ?thesis using w p by (cases pla) (auto simp: pla_area_def)
qed

lemma both_areas_outside:
  "geom_ok b \<Longrightarrow> \<not> on_board (x_size b) (y_size b) l \<Longrightarrow> both_areas b safeBig unsafeBig multi l = C_EMPTY"
  by (simp add: both_areas_def pla_area_outside)

section \<open>Independent life\<close>

text \<open>
  A flood through the points of one colour ends: a point is pushed only when it gets its mark.
\<close>

definition unmarked :: "(loc \<Rightarrow> color) \<Rightarrow> player \<Rightarrow> ('m \<Rightarrow> loc \<Rightarrow> bool) \<Rightarrow> 'm \<Rightarrow> loc set" where
  "unmarked basicArea pla tst m = {l. basicArea l = pla \<and> \<not> tst m l}"

lemma life_push:
  assumes mk: "\<And>m l k. basicArea l = pla \<Longrightarrow> basicArea k = pla \<Longrightarrow> tst (mark l m) k \<longleftrightarrow> k = l \<or> tst m k"
    and r: "fold (\<lambda>adj (m, rest). if basicArea adj = pla \<and> \<not> tst m adj then (mark adj m, rest @ [adj]) else (m, rest))
      ls (m, rest) = (m', rest')"
    and f: "finite (unmarked basicArea pla tst m)"
  shows "finite (unmarked basicArea pla tst m') \<and>
    2 * card (unmarked basicArea pla tst m') + length rest' \<le> 2 * card (unmarked basicArea pla tst m) + length rest"
  using r f
proof (induction ls arbitrary: m rest)
  case Nil
  then show ?case by simp
next
  case (Cons l ls)
  let ?F = "\<lambda>adj (m, rest). if basicArea adj = pla \<and> \<not> tst m adj then (mark adj m, rest @ [adj]) else (m, rest)"
  show ?case
  proof (cases "basicArea l = pla \<and> \<not> tst m l")
    case True
    have eq: "unmarked basicArea pla tst (mark l m) = unmarked basicArea pla tst m - {l}"
      using mk True by (auto simp: unmarked_def)
    have "l \<in> unmarked basicArea pla tst m" using True by (simp add: unmarked_def)
    then have c: "card (unmarked basicArea pla tst m) = Suc (card (unmarked basicArea pla tst (mark l m)))"
      unfolding eq using Cons.prems(2) by (metis card_Suc_Diff1)
    have "?F l (m, rest) = (mark l m, rest @ [l])" using True by simp
    then have "fold ?F ls (mark l m, rest @ [l]) = (m', rest')" using Cons.prems(1) by (simp only: fold_simps)
    moreover have "finite (unmarked basicArea pla tst (mark l m))" unfolding eq using Cons.prems(2) by simp
    ultimately have "finite (unmarked basicArea pla tst m') \<and> 2 * card (unmarked basicArea pla tst m') + length rest' \<le>
        2 * card (unmarked basicArea pla tst (mark l m)) + length (rest @ [l])" by (rule Cons.IH)
    then show ?thesis using c by simp
  next
    case False
    then have "?F l (m, rest) = (m, rest)" by auto
    then have "fold ?F ls (m, rest) = (m', rest')" using Cons.prems(1) by (simp only: fold_simps)
    then show ?thesis using Cons.prems(2) by (rule Cons.IH)
  qed
qed

lemma life_flood_total:
  assumes mk: "\<And>m l k. basicArea l = pla \<Longrightarrow> basicArea k = pla \<Longrightarrow> tst (mark l m) k \<longleftrightarrow> k = l \<or> tst m k"
    and f: "finite (unmarked basicArea pla tst m)"
  shows "\<exists>m'. life_flood b basicArea pla tst mark queue m = Some m'"
  using f
proof (induction "2 * card (unmarked basicArea pla tst m) + length queue" arbitrary: m queue rule: less_induct)
  case less
  show ?case
  proof (cases queue)
    case Nil
    then show ?thesis by (subst life_flood.simps) simp
  next
    case (Cons l rest)
    obtain m' rest' where r: "fold (\<lambda>adj (m, rest). if basicArea adj = pla \<and> \<not> tst m adj then (mark adj m, rest @ [adj]) else (m, rest))
        (adjs (x_size b) l) (m, rest) = (m', rest')" by fastforce
    have p: "finite (unmarked basicArea pla tst m')"
      "2 * card (unmarked basicArea pla tst m') + length rest' \<le> 2 * card (unmarked basicArea pla tst m) + length rest"
      using life_push [OF mk r less.prems] by blast+
    then have "2 * card (unmarked basicArea pla tst m') + length rest' < 2 * card (unmarked basicArea pla tst m) + length queue"
      using Cons by simp
    from less.hyps [OF this p(1)] obtain m'' where "life_flood b basicArea pla tst mark rest' m' = Some m''" by blast
    then show ?thesis unfolding Cons using r by (subst life_flood.simps) simp
  qed
qed

lemma foldM_total_all:
  assumes "\<And>x s. x \<in> set xs \<Longrightarrow> \<exists>t. f x s = Some t"
  shows "\<exists>t. foldM f xs s = Some t"
  using assms
proof (induction xs arbitrary: s)
  case (Cons x xs)
  then obtain t where "f x s = Some t" by fastforce
  then show ?case using Cons.IH [of t] Cons.prems by simp
qed simp

lemma finite_unmarked: "finite {l. basicArea l = pla} \<Longrightarrow> finite (unmarked basicArea pla tst m)"
  by (rule finite_subset [of _ "{l. basicArea l = pla}"]) (auto simp: unmarked_def)

lemma independentHelper_total:
  assumes "\<And>pla. is_stone pla \<Longrightarrow> finite {l. basicArea l = pla}" "\<And>l. basicArea l \<noteq> C_WALL"
  shows "\<exists>x. calculateIndependentLifeAreaHelper b basicArea result = Some x"
proof -
  have st: "is_stone (basicArea l) \<longleftrightarrow> basicArea l \<noteq> C_EMPTY" for l using assms(2) [of l] by (cases "basicArea l") auto
  have "\<exists>t. mark_seki b basicArea l s = Some t" for l s
  proof -
    have "\<exists>t. life_flood b basicArea (basicArea l) (\<lambda>s. s) (\<lambda>l s. s(l := True)) [l] m = Some t"
      if "basicArea l \<noteq> C_EMPTY" for m
      by (rule life_flood_total) (use st that in \<open>auto intro!: finite_unmarked assms(1)\<close>)
    then show ?thesis by (simp add: mark_seki_def)
  qed
  then obtain isSeki where 1: "foldM (mark_seki b basicArea) (board_locs b) (\<lambda>_. False) = Some isSeki"
    using foldM_total_all [of "board_locs b" "mark_seki b basicArea"] by blast
  have "\<exists>t. copy_life b basicArea isSeki l s = Some t" for l s
  proof -
    obtain res c where s: "s = (res, c)" by fastforce
    have "\<exists>t. life_flood b basicArea (basicArea l) (\<lambda>res l. res l = basicArea l) (\<lambda>l res. res(l := basicArea l)) [l] r = Some t"
      if "basicArea l \<noteq> C_EMPTY" for r
      by (rule life_flood_total) (use st that in \<open>auto intro!: finite_unmarked assms(1)\<close>)
    from this [of "res(l := basicArea l)"] show ?thesis
      unfolding s copy_life_def by (cases "basicArea l = C_EMPTY") (auto simp: Let_def)
  qed
  then show ?thesis
    unfolding calculateIndependentLifeAreaHelper_def 1 using foldM_total_all [of "board_locs b" "copy_life b basicArea isSeki"] by auto
qed

lemma calculateIndependentLifeArea_total:
  assumes wf: "wf_board Z b"
  shows "\<exists>area count. calculateIndependentLifeArea b keepTerritories keepStones exclude multi = Some (area, count)"
proof -
  have g: "geom_ok b" using wf by (simp add: wf_board_def core_def)
  let ?A = "fill_colors b (both_areas b True True multi)"
  have off: "?A l = C_EMPTY" if "\<not> on_board (x_size b) (y_size b) l" for l
    using that both_areas_outside [OF g] by (simp add: fill_colors_eq [OF g])
  have fin: "finite {l. ?A l = pla}" if "is_stone pla" for pla
    by (rule finite_subset [OF _ finite_on_board [of "x_size b" "y_size b"]]) (use off that in force)
  have wall: "?A l \<noteq> C_WALL" for l
  proof (cases "on_board (x_size b) (y_size b) l")
    case True
    then have "colors b l \<noteq> C_WALL" using geom_wall [OF g] by blast
    moreover have "both_areas b True True multi l \<noteq> C_WALL" by (simp add: both_areas_def pla_area_def)
    ultimately show ?thesis by (simp add: fill_colors_eq [OF g])
  qed (simp add: off)
  obtain x where "calculateIndependentLifeAreaHelper b ?A (\<lambda>_. C_EMPTY) = Some x"
    using independentHelper_total [of ?A b "\<lambda>_. C_EMPTY"] fin wall by blast
  then show ?thesis
    unfolding calculateIndependentLifeArea_def using calculateAreaForPla_eq [OF wf]
    by (cases x) (simp add: both_areas_def Let_def)
qed

end
