(* ===== verification/GameTotal.thy ===== *)
theory GameTotal
  imports HistoryGame BensonArea
begin

text \<open>
  Totality of the game operations: no assertion of the code fails and no loop runs forever, in
  any state a game reaches, so that scoring and moves always return.
\<close>

section \<open>Scoring\<close>

lemma score_now_total:
  assumes wf: "wf_board Z b" and r: "rules_ok (hist_rules h)"
  shows "\<exists>score area. score_now h b = Some (score, area)"
proof -
  let ?t = "taxRule (hist_rules h)"
  have t: "?t = TAX_NONE \<or> ?t = TAX_SEKI \<or> ?t = TAX_ALL" using r by (auto simp: rules_ok_def)
  have sc: "scoringRule (hist_rules h) = SCORING_AREA \<or> scoringRule (hist_rules h) = SCORING_TERRITORY"
    using r by (auto simp: rules_ok_def)
  have life: "\<exists>area count. calculateIndependentLifeArea b k s (excludeTerritoryAdjacentToAtari (modes h))
      (suicideLegalForPassAlive h) = Some (area, count)" for k s
    by (rule calculateIndependentLifeArea_total [OF wf])
  obtain a1 c1 where l1: "calculateIndependentLifeArea b False True (excludeTerritoryAdjacentToAtari (modes h))
      (suicideLegalForPassAlive h) = Some (a1, c1)" using life by blast
  obtain a2 c2 where l2: "calculateIndependentLifeArea b (?t = TAX_NONE) False (excludeTerritoryAdjacentToAtari (modes h))
      (suicideLegalForPassAlive h) = Some (a2, c2)" using life by blast
  have "\<exists>score area. countAreaScoreWhiteMinusBlack h b = Some (score, area)"
  proof (cases "?t = TAX_NONE")
    case True
    then show ?thesis by (simp add: countAreaScoreWhiteMinusBlack_def Let_def calculateArea_eq [OF wf])
  next
    case False
    then show ?thesis using t l1 by (auto simp: countAreaScoreWhiteMinusBlack_def Let_def)
  qed
  moreover have "\<exists>score area. countTerritoryAreaScoreWhiteMinusBlack h b = Some (score, area)"
    using t l2 by (auto simp: countTerritoryAreaScoreWhiteMinusBlack_def Let_def split: prod.splits)
  ultimately show ?thesis using sc by (auto simp: score_now_def)
qed

lemma endAndScoreGameNow_total:
  "wf_board Z b \<Longrightarrow> rules_ok (hist_rules h) \<Longrightarrow> \<exists>h' area. endAndScoreGameNow b h = Some (h', area)"
  using score_now_total [of Z b h] by (auto simp: endAndScoreGameNow_def)

lemma endGameIfAllPassAlive_total:
  assumes "wf_board Z b" "rules_ok (hist_rules h)"
  shows "\<exists>h'. endGameIfAllPassAlive b h = Some h'"
  using endAndScoreGameNow_total [OF assms]
  by (auto simp: endGameIfAllPassAlive_def calculateArea_eq [OF assms(1)] split: sum.split)

section \<open>Moves\<close>

lemma update_passes_total:
  assumes "phase_ok h" "rules_ok (hist_rules h)" "is_stone p"
  shows "\<exists>h' spight. update_passes Z b l p h = Some (h', spight)"
proof (cases "l \<noteq> PASS_LOC")
  case True
  then have "update_passes Z b l p h = Some (h\<lparr>consecutiveEndingPasses := 0\<rparr>, False)" by (simp add: update_passes_def)
  then show ?thesis by blast
next
  case pass: False
  show ?thesis
  proof (cases "hasButton h")
    case True
    then have "\<exists>h'. update_passes Z b l p h = Some (h', False)"
      using pass assms(1) by (simp add: update_passes_def phase_ok_def)
    then show ?thesis by blast
  next
    case False
    let ?g = "if phaseHasSpightlikeEndingAndPassHistoryClearing h
      then h\<lparr>koHashHistory := [], firstTurnIdxWithKoHistory := length (moveHistory h) + 1\<rparr> else h"
    have "rules_ok (hist_rules ?g)" using assms(2) by simp
    then obtain n where "newConsecutiveEndingPassesAfterPass ?g = Some n" using newConsecutive_total by blast
    then show ?thesis
      using pass False assms(3) unfolding update_passes_def Let_def by (auto simp: stone_cases)
  qed
qed

lemma update_bonus_total:
  assumes "rules_ok (hist_rules h)" "is_stone p"
  shows "\<exists>h'. update_bonus l p w h = Some h'"
proof -
  let ?first = "if scoringRule (hist_rules h) = SCORING_TERRITORY \<and> encorePhase h \<le> 1 \<and> l \<noteq> PASS_LOC \<and> \<not> w
        then (if p = P_BLACK then Some (h\<lparr>whiteBonusScore := whiteBonusScore h + 1\<rparr>)
              else if p = P_WHITE then Some (h\<lparr>whiteBonusScore := whiteBonusScore h - 1\<rparr>)
              else None)
        else Some h"
  let ?x = "if scoringRule (hist_rules h) = SCORING_TERRITORY \<and> encorePhase h \<le> 1 \<and> l \<noteq> PASS_LOC \<and> \<not> w
      then (if p = P_BLACK then whiteBonusScore h + 1 else whiteBonusScore h - 1) else whiteBonusScore h"
  have "?first = Some (h\<lparr>whiteBonusScore := ?x\<rparr>)" using assms(2) unfolding stone_cases by auto
  then obtain h1 where h1: "?first = Some h1" "hist_rules h1 = hist_rules h" by simp
  let ?h2 = "if p = P_WHITE \<and> l \<noteq> PASS_LOC then h1\<lparr>whiteHasMoved := True\<rparr> else h1"
  have "rules_ok (hist_rules ?h2)" using assms(1) h1(2) by simp
  then obtain y where "setHandicapBonus ?h2 = Some (?h2\<lparr>whiteHandicapBonusScore := y\<rparr>)"
    using setHandicapBonus_total by blast
  then show ?thesis unfolding update_bonus_def h1(1) Let_def by auto
qed

lemma update_superko_total:
  assumes core: "game_core Z b h" and p: "is_stone p"
  shows "\<exists>h'. update_superko Z b p None h = Some h'"
proof (cases "encorePhase h \<le> 0 \<and> koRule (hist_rules h) \<noteq> KO_SIMPLE")
  case True
  then show ?thesis using update_superko_main [OF core p] by simp
next
  case False
  then show ?thesis by (auto simp: update_superko_def)
qed

lemma update_phase_total:
  assumes core: "game_core Z b h" and r: "rules_ok (hist_rules h)"
  shows "\<exists>h'. update_phase Z b p pe spight h = Some h'"
proof -
  have wf: "wf_board Z b" and ph: "phase_ok h" using core by (simp_all add: game_core_def)
  obtain g a where s: "endAndScoreGameNow b h = Some (g, a)" using endAndScoreGameNow_total [OF wf r] by blast
  have "scoringRule (hist_rules h) = SCORING_AREA \<or> scoringRule (hist_rules h) = SCORING_TERRITORY"
    using r by (auto simp: rules_ok_def)
  moreover have "scoringRule (hist_rules h) = SCORING_AREA \<Longrightarrow> encorePhase h \<le> 0"
    using ph by (auto simp: phase_ok_def SCORING_AREA_def SCORING_TERRITORY_def not_less)
  ultimately show ?thesis using s by (auto simp: update_phase_def)
qed

lemma play_regular_total:
  assumes "wf_board Z b" "l = PASS_LOC \<or> colors b l = C_EMPTY" "is_stone p"
  shows "\<exists>s. play_regular Z ph l p (b, h) = Some s"
proof -
  have "\<exists>b'. playMoveAssumeLegal Z l p b = Some b'"
  proof (cases "l = PASS_LOC")
    case True
    then show ?thesis by (simp add: playMoveAssumeLegal_def)
  next
    case False
    then have "move_at Z b l p" using assms move_atI by blast
    then show ?thesis by (rule played) blast
  qed
  then show ?thesis by (auto simp: play_regular_def)
qed

lemma update_cycles_total: "\<exists>h'. update_cycles l None h = Some h'"
  unfolding update_cycles_def numberOfKoHashOccurrencesInHistory_def
  by (cases "l \<noteq> PASS_LOC \<and> (encorePhase h > 0 \<or> koRule (hist_rules h) = KO_SIMPLE)") auto

lemma move_total:
  assumes core: "game_core Z b h" and r: "rules_ok (hist_rules h)" and pl: "playable b h l p" and p: "is_stone p"
    and t: "table_for h table"
  shows "\<exists>b' h'. makeBoardMoveAssumeLegal Z l p table pe (b, h) = Some (b', h')"
proof -
  have wf: "wf_board Z b" using core by (simp add: game_core_def)
  have s: "game_core Z b (started h)" "hist_rules (started h) = hist_rules h"
    using core by (simp_all add: started_core) (simp add: started_def clear_result_def cap_valid_turns_def)
  then have "phase_ok (started h)" by (simp add: game_core_def)
  then obtain h1 spight where 1: "update_passes Z b l p (started h) = Some (h1, spight)"
    using update_passes_total [of "started h" p Z b l] r p s(2) by auto
  obtain b2 h2 wko where 2: "try_pass_for_ko Z l p (b, h1) = (b2, h2, wko)" by (rule prod_cases3)
  have "\<exists>b' h3. (if wko then Some (b2, h2) else play_regular Z (pos_hash b) l p (b2, h2)) = Some (b', h3)"
  proof (cases wko)
    case False
    note e1 = pass_erased_fields [OF update_passes_erased [OF 1]]
    have e: "encorePhase h1 = encorePhase h" "koRecapBlocked h1 = koRecapBlocked h"
      using e1 by (simp_all add: started_def clear_result_def cap_valid_turns_def)
    have "\<not> isPassForKo h b l p" using passes_for_ko [OF _ 2 e] False by blast
    moreover have "b2 = b" using try_pass_for_ko_mid(5) [OF 2 update_passes_mid [OF s(1) 1] wf] False by simp
    ultimately show ?thesis using play_regular_total [OF wf _ p, of l "pos_hash b" h2] pl False by (auto simp: playable_def)
  qed simp
  then obtain b' h3 where 3: "(if wko then Some (b2, h2) else play_regular Z (pos_hash b) l p (b2, h2)) = Some (b', h3)" by blast
  obtain ill where eq: "makeBoardMoveAssumeLegal Z l p None pe (b, h) =
      after_record Z b' l p None pe spight wko (record_move Z b' l p pe ill h3)"
    using move_eq_after_record [OF 1 2 3] by blast
  let ?h4 = "record_move Z b' l p pe ill h3"
  note rec = move_recorded(1) [OF core pl p 1 2 3, of pe ill]
  have p': "is_stone (getOpp p)" using p by (cases p) simp_all
  have c4: "game_core Z b' ?h4" "hist_rules ?h4 = hist_rules h" using rec by (simp_all add: recorded_def)
  obtain h5 where 5: "update_superko Z b' (getOpp p) None ?h4 = Some h5" using update_superko_total [OF c4(1) p'] by blast
  then obtain sk where h5: "h5 = ?h4\<lparr>superKoBanned := sk\<rparr>" using update_superko_frame by blast
  obtain h6 where 6: "update_bonus l p wko h5 = Some h6" using update_bonus_total [of h5 p l wko] r c4(2) p by (auto simp: h5)
  note e6 = bonus_erased_fields [OF update_bonus_erased [OF 6]]
  have c6: "game_core Z b' h6" "hist_rules h6 = hist_rules h"
    using game_core_bonus [OF update_bonus_erased [OF 6]] c4 e6 by (simp_all add: h5)
  obtain h7 where 7: "update_phase Z b' p pe spight h6 = Some h7"
    using update_phase_total [OF c6(1)] c6(2) r by metis
  obtain h8 where "update_cycles l None h7 = Some h8" using update_cycles_total by blast
  then show ?thesis
    unfolding move_table_irrelevant [OF core pl p t] eq after_record_def using 5 6 7 by simp
qed

lemma tolerant_total:
  assumes "hist_ok Z b h" "rules_ok (hist_rules h)"
  shows "\<exists>s. makeBoardMoveTolerant Z l p (b, h) = Some s"
proof (cases "is_stone p \<and> (isPassForKo h b l p \<or> isLegalIgnoringKo b l p True)")
  case True
  then have "playable b h l p" using legal_playable by (auto simp: playable_def)
  then have "\<exists>b' h'. makeBoardMoveAssumeLegal Z l p None False (b, h) = Some (b', h')"
    using move_total [of Z b h l p None False] assms True by (simp add: hist_ok_def)
  then show ?thesis by (auto simp: makeBoardMoveTolerant_def)
next
  case False
  then show ?thesis by (auto simp: makeBoardMoveTolerant_def stone_cases)
qed

lemma tolerant_answer:
  assumes "makeBoardMoveTolerant Z l p (b, h) = Some (s, ok)"
  shows "(ok \<longleftrightarrow> isLegalTolerant h b l p) \<and> (\<not> ok \<longrightarrow> s = (b, h))"
proof (cases "isLegalTolerant h b l p")
  case True
  then have "\<not> (p \<noteq> P_BLACK \<and> p \<noteq> P_WHITE)" "\<not> (\<not> isPassForKo h b l p \<and> \<not> isLegalIgnoringKo b l p True)"
    by (auto simp: isLegalTolerant_def split: if_splits)
  then have "Option.bind (makeBoardMoveAssumeLegal Z l p None False (b, h)) (\<lambda>s. Some (s, True)) = Some (s, ok)"
    using assms by (simp only: makeBoardMoveTolerant_def prod.case if_False)
  then have ok by (cases "makeBoardMoveAssumeLegal Z l p None False (b, h)") auto
  then show ?thesis using True by simp
next
  case False
  then have "p \<noteq> P_BLACK \<and> p \<noteq> P_WHITE \<or> \<not> isPassForKo h b l p \<and> \<not> isLegalIgnoringKo b l p True"
    by (simp add: isLegalTolerant_def split: if_splits)
  then have "makeBoardMoveTolerant Z l p (b, h) = Some ((b, h), False)"
    by (cases "p \<noteq> P_BLACK \<and> p \<noteq> P_WHITE") (auto simp: makeBoardMoveTolerant_def)
  then show ?thesis using assms False by simp
qed

section \<open>Rules stay what they are\<close>

lemma finish_take_rules: "hist_rules (finish_scored s (take_button h)) = hist_rules h"
  by (simp add: finish_scored_def setFinalScoreAndWinner_def take_button_def Let_def)

lemma update_phase_rules: "update_phase Z b p pe spight h = Some h' \<Longrightarrow> hist_rules h' = hist_rules h"
proof -
  have "hist_rules (cap_valid_turns (h\<lparr>isPastNormalPhaseEnd := True\<rparr>)) = hist_rules h"
    "hist_rules (next_encore Z b p h) = hist_rules h"
    by (simp_all add: cap_valid_turns_def next_encore_def Let_def)
  then show "update_phase Z b p pe spight h = Some h' \<Longrightarrow> ?thesis"
    by (auto simp: update_phase_def endAndScoreGameNow_def finish_take_rules split: if_splits bind_splits)
qed

lemma move_rules:
  assumes core: "game_core Z b h" and pl: "playable b h l p" and p: "is_stone p"
    and m: "makeBoardMoveAssumeLegal Z l p table pe (b, h) = Some (b', h')"
  shows "hist_rules h' = hist_rules h"
proof -
  from m obtain h1 spight b2 h2 wko h3 ill h5 h6 h7 where
    1: "update_passes Z b l p (started h) = Some (h1, spight)"
    and 2: "try_pass_for_ko Z l p (b, h1) = (b2, h2, wko)"
    and 3: "(if wko then Some (b2, h2) else play_regular Z (pos_hash b) l p (b2, h2)) = Some (b', h3)"
    and 5: "update_superko Z b' (getOpp p) table (record_move Z b' l p pe ill h3) = Some h5"
    and 6: "update_bonus l p wko h5 = Some h6"
    and 7: "update_phase Z b' p pe spight h6 = Some h7"
    and 8: "update_cycles l table h7 = Some h'"
    by (rule move_parts)
  note rec = move_recorded(1) [OF core pl p 1 2 3, of pe ill]
  obtain sk where h5: "h5 = (record_move Z b' l p pe ill h3)\<lparr>superKoBanned := sk\<rparr>"
    using update_superko_frame [OF 5] by blast
  note e6 = bonus_erased_fields [OF update_bonus_erased [OF 6]]
  have "hist_rules h6 = hist_rules h" using rec e6 by (simp add: h5 recorded_def)
  then show ?thesis using update_phase_rules [OF 7] update_cycles_frame [OF 8] by auto
qed

lemma setHandicapBonus_rules: "setHandicapBonus h = Some h' \<Longrightarrow> hist_rules h' = hist_rules h"
  by (drule setHandicapBonus_frame) (elim exE, simp)

lemma client_step_rules:
  assumes "client_step Z s s'" "hist_ok Z (fst s) (snd s)" "rules_ok (hist_rules (snd s))"
  shows "rules_ok (hist_rules (snd s'))"
  using assms(1)
proof (cases rule: client_step.cases)
  case (make_move p b h l table' pe)
  then show ?thesis
    using assms(2,3) move_rules [of Z b h l p table' pe "fst s'" "snd s'"] by (simp add: hist_ok_def)
next
  case (make_tolerant l p b h ok)
  show ?thesis
  proof (cases ok)
    case True
    then show ?thesis
      using make_tolerant assms(2,3) tolerant_playable [of Z l p b h s']
        move_rules [of Z b h l p None False "fst s'" "snd s'"] by (simp add: hist_ok_def)
  next
    case False
    then have "s' = (b, h)"
      using make_tolerant by (auto simp: makeBoardMoveTolerant_def split: if_splits bind_splits)
    then show ?thesis using make_tolerant assms(3) by simp
  qed
next
  case (score_now b h h' area)
  then obtain c where "h' = finish_scored c (take_button h)"
    by (auto simp: endAndScoreGameNow_def split: bind_splits)
  then show ?thesis using score_now assms(3) by (simp add: finish_take_rules)
next
  case (all_pass_alive b h h')
  then have "h' = h \<or> (\<exists>s. h' = finish_scored s (take_button h))"
    by (auto simp: endGameIfAllPassAlive_def endAndScoreGameNow_def split: bind_splits sum.splits if_splits)
  then show ?thesis using all_pass_alive assms(3) by (auto simp: finish_take_rules)
next
  case (resign b h p)
  then show ?thesis using assms(3) by (simp add: setWinnerByResignation_def)
next
  case (set_komi b h k)
  then show ?thesis using assms(3) by (simp add: setKomi_def setFinalScoreAndWinner_def Let_def rules_ok_def)
next
  case (set_modes b h m)
  then show ?thesis using assms(3) by (simp add: setModes_def)
next
  case (set_turn b h n)
  then show ?thesis using assms(3) by (simp add: setInitialTurnNumber_def)
next
  case (set_multiple v h h' b)
  then show ?thesis
    using assms(3) setHandicapBonus_rules [of "h\<lparr>assumeMultipleStartingBlackMovesAreHandicap := v\<rparr>" h']
    by (simp add: setAssumeMultipleStartingBlackMovesAreHandicap_def)
next
  case (set_handicap n h h' b)
  then show ?thesis
    using assms(3) setHandicapBonus_rules [of "h\<lparr>overrideNumHandicapStones := n\<rparr>" h']
    by (simp add: setOverrideNumHandicapStones_def)
qed

lemma reachable_rules:
  assumes "(client_step Z)\<^sup>*\<^sup>* s s'" "hist_ok Z (fst s) (snd s)" "rules_ok (hist_rules (snd s))"
  shows "hist_ok Z (fst s') (snd s') \<and> rules_ok (hist_rules (snd s'))"
  using assms
proof (induction rule: rtranclp_induct)
  case (step u v)
  then show ?case using client_step_rules client_step_ok by blast
qed simp

text \<open>Only a pass ends a phase.\<close>

lemma move_phase:
  assumes core: "game_core Z b h" and pl: "playable b h l p" and p: "is_stone p" and l: "l \<noteq> PASS_LOC"
    and m: "makeBoardMoveAssumeLegal Z l p table pe (b, h) = Some (b', h')"
  shows "encorePhase h' = encorePhase h"
proof -
  from m obtain h1 spight b2 h2 wko h3 ill h5 h6 h7 where
    1: "update_passes Z b l p (started h) = Some (h1, spight)"
    and 2: "try_pass_for_ko Z l p (b, h1) = (b2, h2, wko)"
    and 3: "(if wko then Some (b2, h2) else play_regular Z (pos_hash b) l p (b2, h2)) = Some (b', h3)"
    and 5: "update_superko Z b' (getOpp p) table (record_move Z b' l p pe ill h3) = Some h5"
    and 6: "update_bonus l p wko h5 = Some h6"
    and 7: "update_phase Z b' p pe spight h6 = Some h7"
    and 8: "update_cycles l table h7 = Some h'"
    by (rule move_parts)
  note rec = move_recorded(1) [OF core pl p 1 2 3, of pe ill]
  obtain sk where h5: "h5 = (record_move Z b' l p pe ill h3)\<lparr>superKoBanned := sk\<rparr>"
    using update_superko_frame [OF 5] by blast
  note e6 = bonus_erased_fields [OF update_bonus_erased [OF 6]]
  have e: "encorePhase h6 = encorePhase h" using rec e6 by (simp add: h5 recorded_def)
  have "consecutiveEndingPasses h6 = 0" "\<not> spight" using update_passes_counts [OF 1] l rec e6 by (simp_all add: h5 recorded_def)
  then have "h7 = h6" using 7 by (simp add: update_phase_def)
  then show ?thesis using e update_cycles_frame [OF 8] by auto
qed

section \<open>Counting an area\<close>

lemma sum_area_eq:
  assumes "geom_ok b"
  shows "sum_area b area n = n + int (card {l. on_board (x_size b) (y_size b) l \<and> area l = C_WHITE})
    - int (card {l. on_board (x_size b) (y_size b) l \<and> area l = C_BLACK})"
proof -
  have "fold (\<lambda>l s. if area l = C_WHITE then s + 1 else if area l = C_BLACK then s - 1 else s) ls n =
      n + int (length (filter (\<lambda>l. area l = C_WHITE) ls)) - int (length (filter (\<lambda>l. area l = C_BLACK) ls))" for ls and n :: int
    by (induction ls arbitrary: n) auto
  moreover have "length (filter P (board_locs b)) = card {l. on_board (x_size b) (y_size b) l \<and> P l}" for P
  proof -
    have l: "board_locs b = locs_of (x_size b) (y_size b)" using assms by (simp add: geom_ok_def board_locs_eq)
    have "length (filter P (board_locs b)) = card (set (filter P (board_locs b)))"
      unfolding l by (rule distinct_card [symmetric]) (simp add: distinct_locs_of)
    also have "set (filter P (board_locs b)) = {l. on_board (x_size b) (y_size b) l \<and> P l}"
      unfolding l by (auto simp: set_locs_of)
    finally show ?thesis .
  qed
  ultimately show ?thesis by (simp add: sum_area_def)
qed

section \<open>Komi and scoring\<close>

lemma score_now_cong:
  assumes "scoringRule (hist_rules g) = scoringRule (hist_rules h)" "taxRule (hist_rules g) = taxRule (hist_rules h)"
    "multiStoneSuicideLegal (hist_rules g) = multiStoneSuicideLegal (hist_rules h)" "modes g = modes h"
    "encorePhase g = encorePhase h" "secondEncoreStartColors g = secondEncoreStartColors h"
  shows "score_now g b = score_now h b"
proof -
  have s: "suicideLegalForPassAlive g = suicideLegalForPassAlive h" using assms by (simp add: suicideLegalForPassAlive_def)
  have t: "territory_point g b = territory_point h b" by (intro ext) (simp only: territory_point_def assms)
  show ?thesis
    by (simp only: score_now_def countAreaScoreWhiteMinusBlack_def countTerritoryAreaScoreWhiteMinusBlack_def s t assms)
qed

lemma score_now_komi: "score_now (setKomi k h) b = score_now h b"
  by (rule score_now_cong) (simp_all add: setKomi_def setFinalScoreAndWinner_def Let_def)

lemma finish_komi:
  "finish_scored s (take_button (setKomi k h)) = setKomi k (finish_scored s (take_button h))"
proof (cases "isGameFinished h \<and> isScored h")
  case True
  then show ?thesis
    by (cases "hasButton h") (simp_all add: finish_scored_def setFinalScoreAndWinner_def take_button_def setKomi_def Let_def)
next
  case False
  then have "setKomi k h = h\<lparr>hist_rules := (hist_rules h)\<lparr>komi := k\<rparr>\<rparr>"
    unfolding setKomi_def Let_def by (cases "isGameFinished h") simp_all
  then show ?thesis
    by (cases "hasButton h") (simp_all add: finish_scored_def setFinalScoreAndWinner_def take_button_def setKomi_def Let_def)
qed

section \<open>Games from the start\<close>

text \<open>The states of a game begun by the constructor on a well-formed board.\<close>

definition game_state :: "zobrist \<Rightarrow> board \<times> history \<Rightarrow> bool" where
  "game_state Z s \<longleftrightarrow> (\<exists>b0 h0 pla r e m. wf_board Z b0 \<and> rules_ok r \<and> (rules_hasButton r \<longrightarrow> e = 0) \<and>
     BoardHistory_new Z b0 pla r e m = Some h0 \<and> (client_step Z)\<^sup>*\<^sup>* (b0, h0) s)"

lemma game_state_ok:
  assumes "game_state Z (b, h)"
  shows "hist_ok Z b h" "rules_ok (hist_rules h)"
proof -
  from assms obtain b0 h0 pla r e m where g: "wf_board Z b0" "rules_ok r" "rules_hasButton r \<longrightarrow> e = 0"
    "clear Z b0 pla r e (history_blank b0 pla r m) = Some h0" "(client_step Z)\<^sup>*\<^sup>* (b0, h0) (b, h)"
    unfolding game_state_def BoardHistory_new_def by blast
  have "hist_ok Z b0 h0" by (rule clear_ok(1) [OF g(1,4)]) (use g(3) in simp)
  moreover have "hist_rules h0 = r" using clear_cases(2) [OF g(4)] by auto
  ultimately show "hist_ok Z b h" "rules_ok (hist_rules h)" using reachable_rules [OF g(5)] g(2) by simp_all
qed

lemma game_state_step: "game_state Z s \<Longrightarrow> client_step Z s s' \<Longrightarrow> game_state Z s'"
  unfolding game_state_def by (blast intro: rtranclp.rtrancl_into_rtrancl)

end
