(* ===== verification/HistoryTrail.thy ===== *)
theory HistoryTrail
  imports GameTotal
begin

text \<open>
  What a history remembers of the past: the ring of recent boards, the moves, and the count of
  turns of the phase. In every state of a game the recent boards are well-formed boards of the
  same size, the moves are points of the board or passes, and the count does not exceed them.
\<close>

definition trail_ok :: "zobrist \<Rightarrow> int \<Rightarrow> int \<Rightarrow> history \<Rightarrow> bool" where
  "trail_ok Z xs ys h \<longleftrightarrow>
     (\<forall>i. 0 \<le> i \<and> i < NUM_RECENT_BOARDS \<longrightarrow>
        wf_board Z (recentBoards h i) \<and> x_size (recentBoards h i) = xs \<and> y_size (recentBoards h i) = ys) \<and>
     numApproxValidTurnsThisPhase h \<le> int (length (moveHistory h)) \<and>
     (\<forall>m\<in>set (moveHistory h). mv_loc m = PASS_LOC \<or> on_board xs ys (mv_loc m))"

lemma trail_ok_cong:
  "recentBoards h' = recentBoards h \<Longrightarrow> moveHistory h' = moveHistory h \<Longrightarrow>
   numApproxValidTurnsThisPhase h' \<le> numApproxValidTurnsThisPhase h \<Longrightarrow> trail_ok Z xs ys h \<Longrightarrow> trail_ok Z xs ys h'"
  by (simp add: trail_ok_def)

section \<open>The parts of a move\<close>

lemma pass_erased_trail:
  assumes "pass_erased h' = pass_erased h"
  shows "recentBoards h' = recentBoards h" "moveHistory h' = moveHistory h"
    "numApproxValidTurnsThisPhase h' = numApproxValidTurnsThisPhase h"
  using arg_cong [OF assms, of recentBoards] arg_cong [OF assms, of moveHistory]
    arg_cong [OF assms, of numApproxValidTurnsThisPhase] by (simp_all add: pass_erased_def)

lemma blocks_erased_trail:
  assumes "blocks_erased h' = blocks_erased h"
  shows "recentBoards h' = recentBoards h" "moveHistory h' = moveHistory h"
    "numApproxValidTurnsThisPhase h' = numApproxValidTurnsThisPhase h"
  using arg_cong [OF assms, of recentBoards] arg_cong [OF assms, of moveHistory]
    arg_cong [OF assms, of numApproxValidTurnsThisPhase] by (simp_all add: blocks_erased_def)

lemma bonus_erased_trail:
  assumes "bonus_erased h' = bonus_erased h"
  shows "recentBoards h' = recentBoards h" "moveHistory h' = moveHistory h"
    "numApproxValidTurnsThisPhase h' = numApproxValidTurnsThisPhase h"
  using arg_cong [OF assms, of recentBoards] arg_cong [OF assms, of moveHistory]
    arg_cong [OF assms, of numApproxValidTurnsThisPhase] by (simp_all add: bonus_erased_def)

lemma started_trail: "trail_ok Z xs ys h \<Longrightarrow> trail_ok Z xs ys (started h)"
  by (rule trail_ok_cong [of _ h]) (simp_all add: started_def clear_result_def cap_valid_turns_def)

lemma record_move_trail:
  assumes "trail_ok Z xs ys h" "wf_board Z b" "x_size b = xs" "y_size b = ys" "l = PASS_LOC \<or> on_board xs ys l"
  shows "trail_ok Z xs ys (record_move Z b l p pe ill h)"
  using assms by (auto simp: trail_ok_def record_move_def Let_def)

lemma finished_trail: "trail_ok Z xs ys (finish_scored s (take_button h)) \<longleftrightarrow> trail_ok Z xs ys h"
  by (simp add: finish_scored_def setFinalScoreAndWinner_def take_button_def Let_def trail_ok_def)

lemma update_phase_trail:
  assumes "update_phase Z b p pe spight h = Some h'" "trail_ok Z xs ys h"
  shows "trail_ok Z xs ys h'"
proof -
  have "trail_ok Z xs ys (cap_valid_turns (h\<lparr>isPastNormalPhaseEnd := True\<rparr>))"
    by (rule trail_ok_cong [OF _ _ _ assms(2)]) (simp_all add: cap_valid_turns_def)
  moreover have "trail_ok Z xs ys (next_encore Z b p h)"
    using assms(2) by (simp add: trail_ok_def next_encore_def Let_def)
  ultimately show ?thesis
    using assms by (auto simp: update_phase_def endAndScoreGameNow_def finished_trail split: if_splits bind_splits)
qed

lemma playable_point:
  assumes wf: "wf_board Z b" and pl: "playable b h l p" and p: "is_stone p"
  shows "l = PASS_LOC \<or> on_board (x_size b) (y_size b) l"
proof -
  have "colors b l = C_EMPTY \<or> colors b l = getOpp p" if "isPassForKo h b l p"
    using that by (auto simp: isPassForKo_def blocked_stone_def blocked_capture_def getKoCaptureLoc_def Let_def split: if_splits)
  then have "l = PASS_LOC \<or> colors b l \<noteq> C_WALL"
    using pl p by (auto simp: playable_def)
  then show ?thesis using on_board_iff [OF wf] by blast
qed

lemma move_trail:
  assumes core: "game_core Z b h" and pl: "playable b h l p" and p: "is_stone p"
    and m: "makeBoardMoveAssumeLegal Z l p table pe (b, h) = Some (b', h')" and t: "trail_ok Z (x_size b) (y_size b) h"
  shows "trail_ok Z (x_size b') (y_size b') h'"
proof -
  from m obtain h1 spight b2 h2 wko h3 ill h5 h6 h7 where
    1: "update_passes Z b l p (started h) = Some (h1, spight)"
    and 2: "try_pass_for_ko Z l p (b, h1) = (b2, h2, wko)"
    and 3: "(if wko then Some (b2, h2) else play_regular Z (pos_hash b) l p (b2, h2)) = Some (b', h3)"
    and 5: "update_superko Z b' (getOpp p) table (record_move Z b' l p pe ill h3) = Some h5"
    and 6: "update_bonus l p wko h5 = Some h6"
    and 7: "update_phase Z b' p pe spight h6 = Some h7"
    and 8: "update_cycles l table h7 = Some h'"
    by (rule move_parts)
  let ?h4 = "record_move Z b' l p pe ill h3"
  have wf: "wf_board Z b" using core by (simp add: game_core_def)
  note r = move_recorded(2-4) [OF core pl p 1 2 3]
  note e1 = pass_erased_trail [OF update_passes_erased [OF 1]]
  have "blocks_erased h3 = blocks_erased h1"
    using 3 try_pass_for_ko_erased [OF 2] play_regular_erased by (cases wko) fastforce+
  note e3 = blocks_erased_trail [OF this]
  have "trail_ok Z (x_size b) (y_size b) h3"
    by (rule trail_ok_cong [OF _ _ _ started_trail [OF t]]) (simp_all add: e1 e3)
  then have t4: "trail_ok Z (x_size b) (y_size b) ?h4"
    by (rule record_move_trail [OF _ r playable_point [OF wf pl p]])
  obtain s where h5: "h5 = ?h4\<lparr>superKoBanned := s\<rparr>" using update_superko_frame [OF 5] by blast
  have t5: "trail_ok Z (x_size b) (y_size b) h5" by (rule trail_ok_cong [OF _ _ _ t4]) (simp_all add: h5)
  note e6 = bonus_erased_trail [OF update_bonus_erased [OF 6]]
  have t6: "trail_ok Z (x_size b) (y_size b) h6" by (rule trail_ok_cong [OF _ _ _ t5]) (simp_all add: e6)
  have t7: "trail_ok Z (x_size b) (y_size b) h7" by (rule update_phase_trail [OF 7 t6])
  have "trail_ok Z (x_size b) (y_size b) h'"
    by (rule trail_ok_cong [OF _ _ _ t7]) (use update_cycles_frame [OF 8] in auto)
  then show ?thesis by (simp add: r)
qed

section \<open>Games\<close>

lemma client_step_trail:
  assumes "client_step Z s s'" "hist_ok Z (fst s) (snd s)" "trail_ok Z (x_size (fst s)) (y_size (fst s)) (snd s)"
  shows "trail_ok Z (x_size (fst s')) (y_size (fst s')) (snd s')"
  using assms
proof (cases rule: client_step.cases)
  case (make_move p b h l table pe)
  then show ?thesis using assms(2,3) move_trail [of Z b h l p table pe "fst s'" "snd s'"] by (simp add: hist_ok_def)
next
  case (make_tolerant l p b h ok)
  show ?thesis
  proof (cases ok)
    case True
    then show ?thesis
      using make_tolerant assms(2,3) tolerant_playable [of Z l p b h s']
        move_trail [of Z b h l p None False "fst s'" "snd s'"] by (simp add: hist_ok_def)
  next
    case False
    then have "s' = (b, h)"
      using make_tolerant by (auto simp: makeBoardMoveTolerant_def split: if_splits bind_splits)
    then show ?thesis using make_tolerant assms(3) by simp
  qed
next
  case (score_now b h h' area)
  then show ?thesis using assms(3) by (auto simp: endAndScoreGameNow_def finished_trail split: bind_splits)
next
  case (all_pass_alive b h h')
  then have "h' = h \<or> (\<exists>s. h' = finish_scored s (take_button h)) \<or> (\<exists>a. endAndScoreGameNow b h = Some (h', a))"
    by (auto simp: endGameIfAllPassAlive_def split: bind_splits sum.splits if_splits)
  then show ?thesis using all_pass_alive assms(3) by (auto simp: endAndScoreGameNow_def finished_trail split: bind_splits)
next
  case (resign b h p)
  then show ?thesis using assms(3) by (simp add: setWinnerByResignation_def trail_ok_def)
next
  case (set_komi b h k)
  then show ?thesis using assms(3) by (simp add: setKomi_def setFinalScoreAndWinner_def Let_def trail_ok_def)
next
  case (set_modes b h m)
  then show ?thesis using assms(3) by (simp add: setModes_def trail_ok_def)
next
  case (set_turn b h n)
  then show ?thesis using assms(3) by (simp add: setInitialTurnNumber_def trail_ok_def)
next
  case (set_multiple v h h' b)
  then obtain y where "h' = h\<lparr>assumeMultipleStartingBlackMovesAreHandicap := v, whiteHandicapBonusScore := y\<rparr>"
    using setHandicapBonus_frame by (fastforce simp: setAssumeMultipleStartingBlackMovesAreHandicap_def)
  then show ?thesis using set_multiple assms(3) by (simp add: trail_ok_def)
next
  case (set_handicap n h h' b)
  then obtain y where "h' = h\<lparr>overrideNumHandicapStones := n, whiteHandicapBonusScore := y\<rparr>"
    using setHandicapBonus_frame by (fastforce simp: setOverrideNumHandicapStones_def)
  then show ?thesis using set_handicap assms(3) by (simp add: trail_ok_def)
qed

lemma new_trail:
  assumes "wf_board Z b" "BoardHistory_new Z b pla r e m = Some h"
  shows "trail_ok Z (x_size b) (y_size b) h"
proof -
  from clear_cases(2) [OF assms(2) [unfolded BoardHistory_new_def]] obtain x y s
    where "h = (clear_fields b pla r e (history_blank b pla r m))\<lparr>secondEncoreStartColors := s,
      koHashHistory := [getKoHash Z r b pla e hash128_zero], whiteBonusScore := x, whiteHandicapBonusScore := y\<rparr>" by blast
  then show ?thesis using assms(1) by (simp add: trail_ok_def clear_fields_def)
qed

lemma game_state_trail:
  assumes "game_state Z (b, h)"
  shows "trail_ok Z (x_size b) (y_size b) h"
proof -
  obtain b0 h0 pla r e m where 0: "wf_board Z b0" "rules_ok r" "rules_hasButton r \<longrightarrow> e = 0"
    "BoardHistory_new Z b0 pla r e m = Some h0" and st: "(client_step Z)\<^sup>*\<^sup>* (b0, h0) (b, h)"
    using assms unfolding game_state_def by blast
  from st have "game_state Z (b, h) \<and> trail_ok Z (x_size b) (y_size b) h"
  proof (induction rule: rtranclp_induct2)
    case refl
    show ?case using 0 new_trail [OF 0(1,4)] unfolding game_state_def by blast
  next
    case (step b1 h1 b2 h2)
    have "(client_step Z)\<^sup>*\<^sup>* (b0, h0) (b2, h2)" using step(1,2) by (rule rtranclp.rtrancl_into_rtrancl)
    with 0 have "game_state Z (b2, h2)" unfolding game_state_def by blast
    then show ?case using client_step_trail [OF step(2)] step(3) game_state_ok(1) by simp
  qed
  then show ?thesis by simp
qed

lemma recent_board:
  assumes "hist_ok Z b h" "trail_ok Z xs ys h" "0 \<le> k" "k < NUM_RECENT_BOARDS"
  shows "\<exists>c. getRecentBoard h k = Some c \<and> wf_board Z c \<and> x_size c = xs \<and> y_size c = ys"
proof -
  have "0 < NUM_RECENT_BOARDS" by (simp add: NUM_RECENT_BOARDS_def)
  then show ?thesis using assms(2-4) by (simp add: getRecentBoard_def trail_ok_def)
qed

end
