(* ===== verification/HistorySeen.thy ===== *)
theory HistorySeen
  imports HistoryTrail
begin

text \<open>
  The situations of a game, boards with the player to move, as a run of the game goes through
  them, and what a history keeps of them: in the main phase its hashes are those of the
  situations since the last pass that clears them, and every stone they had is on a point it has
  marked. From this, what superko bans: the points whose moves repeat a situation.
\<close>

section \<open>The situations of a game\<close>

text \<open>A pass clears the history if it takes the button, or under the simple and the Spight ko rule.\<close>

definition situations_kept :: "history \<Rightarrow> loc \<Rightarrow> (board \<times> player) list \<Rightarrow> (board \<times> player) list" where
  "situations_kept h l cs =
     (if l = PASS_LOC \<and> (hasButton h \<or> koRule (hist_rules h) = KO_SIMPLE \<or> koRule (hist_rules h) = KO_SPIGHT)
      then [] else cs)"

inductive situations :: "zobrist \<Rightarrow> (board \<times> player) list \<Rightarrow> board \<times> history \<Rightarrow> bool" for Z where
  new: "wf_board Z b \<Longrightarrow> rules_ok r \<Longrightarrow> (rules_hasButton r \<longrightarrow> e = 0) \<Longrightarrow>
    BoardHistory_new Z b pla r e m = Some h \<Longrightarrow> situations Z [(b, pla)] (b, h)"
| move: "situations Z cs (b, h) \<Longrightarrow> is_stone p \<Longrightarrow> playable b h l p \<Longrightarrow> table_for h table \<Longrightarrow>
    makeBoardMoveAssumeLegal Z l p table pe (b, h) = Some (b', h') \<Longrightarrow>
    situations Z (situations_kept h l cs @ [(b', getOpp p)]) (b', h')"
| other: "situations Z cs (b, h) \<Longrightarrow> client_step Z (b, h) (b', h') \<Longrightarrow> moveHistory h' = moveHistory h \<Longrightarrow>
    situations Z cs (b', h')"

definition ko_hash :: "zobrist \<Rightarrow> rules \<Rightarrow> board \<times> player \<Rightarrow> hash128" where
  "ko_hash Z r = (\<lambda>(c, pla). getKoHash Z r c pla 0 hash128_zero)"

definition stones_marked :: "history \<Rightarrow> board \<Rightarrow> bool" where
  "stones_marked h c \<longleftrightarrow> (\<forall>l. on_board (x_size c) (y_size c) l \<and> is_stone (colors c l) \<longrightarrow> wasEverOccupiedOrPlayed h l)"

definition seen_ok :: "(board \<times> player) list \<Rightarrow> zobrist \<Rightarrow> board \<Rightarrow> history \<Rightarrow> bool" where
  "seen_ok cs Z b h \<longleftrightarrow> stones_marked h b \<and>
     (\<forall>s\<in>set cs. wf_board Z (fst s) \<and> x_size (fst s) = x_size b \<and> y_size (fst s) = y_size b \<and> stones_marked h (fst s)) \<and>
     (encorePhase h = 0 \<longrightarrow> koHashHistory h = map (ko_hash Z (hist_rules h)) cs)"

lemma seen_ok_cong:
  assumes "seen_ok cs Z b h" "wasEverOccupiedOrPlayed h' = wasEverOccupiedOrPlayed h" "encorePhase h' = encorePhase h"
    "koHashHistory h' = koHashHistory h" "koRule (hist_rules h') = koRule (hist_rules h)"
  shows "seen_ok cs Z b h'"
proof -
  have "ko_hash Z (hist_rules h') s = ko_hash Z (hist_rules h) s" for s
    using assms(5) by (simp add: ko_hash_def getKoHash_def split_beta)
  then show ?thesis using assms(1-4) by (simp add: seen_ok_def stones_marked_def)
qed

section \<open>A move\<close>

text \<open>The stones after a move were there before or have just been played.\<close>

lemma tt_play_stones: "is_stone (tt_play xs l p c k) \<Longrightarrow> k \<noteq> l \<Longrightarrow> is_stone (c k)"
  by (auto simp: tt_play_def tt_clear_def split: if_splits)

lemma playMove_stones:
  assumes "wf_board Z b" "l = PASS_LOC \<or> colors b l = C_EMPTY" "is_stone p"
    "playMoveAssumeLegal Z l p b = Some b'" "is_stone (colors b' k)"
  shows "is_stone (colors b k) \<or> k = l \<and> l \<noteq> PASS_LOC"
proof (cases "l = PASS_LOC")
  case True
  then show ?thesis using assms(4,5) by (auto simp: playMoveAssumeLegal_def)
next
  case False
  then have m: "move_at Z b l p" using assms(2) move_atI [OF assms(1) _ assms(3)] by blast
  obtain b'' where "playMoveAssumeLegal Z l p b = Some b''" "colors b'' = tt_play (x_size b) l p (colors b)" by (rule played [OF m])
  then show ?thesis using assms(4,5) tt_play_stones [of "x_size b" l p "colors b" k] False by auto
qed

lemma move_stones:
  assumes wf: "wf_board Z b" and mid: "mid_core Z (x_size b) (y_size b) h1" and np: "\<not> wko \<Longrightarrow> l = PASS_LOC \<or> colors b l = C_EMPTY"
    and p: "is_stone p"
    and 2: "try_pass_for_ko Z l p (b, h1) = (b2, h2, wko)"
    and 3: "(if wko then Some (b2, h2) else play_regular Z (pos_hash b) l p (b2, h2)) = Some (b', h3)"
    and k: "is_stone (colors b' k)"
  shows "is_stone (colors b k) \<or> k = l \<and> l \<noteq> PASS_LOC"
proof (cases wko)
  case True
  then have "b' = b2" using 3 by simp
  then show ?thesis using 2 k by (auto simp: try_pass_for_ko_def clearSimpleKoLoc_def split: if_splits)
next
  case False
  then have b2: "b2 = b" using try_pass_for_ko_mid(5) [OF 2 mid wf] by simp
  obtain b4 where b4: "playMoveAssumeLegal Z l p b = Some b4" "colors b' = colors b4"
    using 3 False unfolding b2 by (auto simp: play_regular_def clearSimpleKoLoc_def Let_def split: if_splits bind_splits)
  then show ?thesis using playMove_stones [OF wf np [OF False] p b4(1), of k] k by simp
qed

text \<open>Clearing in the main phase.\<close>

lemma update_passes_kept:
  assumes "update_passes Z b l p h = Some (h1, spight)" "encorePhase h = 0"
  shows "koHashHistory h1 =
    (if l = PASS_LOC \<and> (hasButton h \<or> koRule (hist_rules h) = KO_SIMPLE \<or> koRule (hist_rules h) = KO_SPIGHT)
     then [] else koHashHistory h)"
  using assms unfolding update_passes_def phaseHasSpightlikeEndingAndPassHistoryClearing_def Let_def
  by (auto split: if_splits bind_splits)

text \<open>The marks, which the parts of a move after its recording keep.\<close>

lemma marks_bonus: "update_bonus l p w h = Some h' \<Longrightarrow> wasEverOccupiedOrPlayed h' = wasEverOccupiedOrPlayed h"
  using ko_view_bonus [of l p w h h'] by (simp add: ko_view_def)

lemma marks_phase: "update_phase Z b p pe spight h = Some h' \<Longrightarrow> wasEverOccupiedOrPlayed h' = wasEverOccupiedOrPlayed h"
  by (auto simp: update_phase_def endAndScoreGameNow_def finish_scored_def setFinalScoreAndWinner_def take_button_def
      cap_valid_turns_def next_encore_def Let_def split: if_splits bind_splits)

lemma marks_cycles: "update_cycles l table h = Some h' \<Longrightarrow> wasEverOccupiedOrPlayed h' = wasEverOccupiedOrPlayed h"
  using ko_view_cycles [of l table h h'] by (simp add: ko_view_def)

lemma move_records:
  assumes m: "makeBoardMoveAssumeLegal Z l p table pe (b, h) = Some (b', h')"
  shows "moveHistory h' = moveHistory h @ [\<lparr>mv_loc = l, mv_pla = p\<rparr>]"
proof -
  from m obtain h1 spight b2 h2 wko h3 ill h5 h6 h7 where
    1: "update_passes Z b l p (started h) = Some (h1, spight)"
    and 2: "try_pass_for_ko Z l p (b, h1) = (b2, h2, wko)"
    and 3: "(if wko then Some (b2, h2) else play_regular Z (pos_hash b) l p (b2, h2)) = Some (b', h3)"
    and 5: "update_superko Z b' (getOpp p) table (record_move Z b' l p pe ill h3) = Some h5"
    and 6: "update_bonus l p wko h5 = Some h6"
    and 7: "update_phase Z b' p pe spight h6 = Some h7"
    and 8: "update_cycles l table h7 = Some h'"
    by (rule move_parts)
  have "blocks_erased h3 = blocks_erased h1"
    using 3 try_pass_for_ko_erased [OF 2] play_regular_erased by (cases wko) fastforce+
  then have "moveHistory h3 = moveHistory (started h)"
    using blocks_erased_trail(2) pass_erased_trail(2) [OF update_passes_erased [OF 1]] by metis
  moreover obtain sk where "h5 = (record_move Z b' l p pe ill h3)\<lparr>superKoBanned := sk\<rparr>" using update_superko_frame [OF 5] by blast
  moreover have "moveHistory h7 = moveHistory h6"
    using 7 by (auto simp: update_phase_def endAndScoreGameNow_def finish_scored_def setFinalScoreAndWinner_def take_button_def
      cap_valid_turns_def next_encore_def Let_def split: if_splits bind_splits)
  moreover have "moveHistory h' = moveHistory h7" using update_cycles_frame [OF 8] by auto
  ultimately show ?thesis using bonus_erased_trail(2) [OF update_bonus_erased [OF 6]]
    by (simp add: record_move_def Let_def started_def clear_result_def cap_valid_turns_def)
qed

text \<open>A move on the board in the main phase.\<close>

lemma main_phase_move:
  assumes m: "makeBoardMoveAssumeLegal Z l p table pe (b, h) = Some (b', h')" and l: "l \<noteq> PASS_LOC" and e: "encorePhase h = 0"
  shows "playMoveAssumeLegal Z l p b = Some b'"
    "moveHistory h' = moveHistory h @ [\<lparr>mv_loc = l, mv_pla = p\<rparr>]"
    "numApproxValidTurnsThisPhase h' = numApproxValidTurnsThisPhase (started h) + 1"
    "\<exists>i. recentBoards h' = (recentBoards h)(i := b')" "consecutiveEndingPasses h' = 0"
proof -
  from m obtain h1 spight b2 h2 wko h3 ill h5 h6 h7 where
    1: "update_passes Z b l p (started h) = Some (h1, spight)"
    and 2: "try_pass_for_ko Z l p (b, h1) = (b2, h2, wko)"
    and 3: "(if wko then Some (b2, h2) else play_regular Z (pos_hash b) l p (b2, h2)) = Some (b', h3)"
    and 5: "update_superko Z b' (getOpp p) table (record_move Z b' l p pe ill h3) = Some h5"
    and 6: "update_bonus l p wko h5 = Some h6"
    and 7: "update_phase Z b' p pe spight h6 = Some h7"
    and 8: "update_cycles l table h7 = Some h'"
    by (rule move_parts)
  let ?s = "(started h)\<lparr>consecutiveEndingPasses := 0\<rparr>"
  have s: "encorePhase (started h) = 0" "moveHistory (started h) = moveHistory h" "recentBoards (started h) = recentBoards h"
    using e by (simp_all add: started_def clear_result_def cap_valid_turns_def)
  have h1: "h1 = ?s" "\<not> spight" using 1 l by (auto simp: update_passes_def)
  have h2: "b2 = b" "h2 = ?s" "\<not> wko" using 2 s(1) by (auto simp: try_pass_for_ko_def h1(1))
  have pl: "playMoveAssumeLegal Z l p b = Some b'" and h3: "h3 = ?s"
    using 3 s(1) h2 by (auto simp: play_regular_def bind_eq_Some_conv)
  show "playMoveAssumeLegal Z l p b = Some b'" by (rule pl)
  obtain sk where h5: "h5 = (record_move Z b' l p pe ill ?s)\<lparr>superKoBanned := sk\<rparr>"
    using update_superko_frame [OF 5] unfolding h3 by blast
  note e6 = bonus_erased_trail [OF update_bonus_erased [OF 6]]
  have c6: "consecutiveEndingPasses h6 = 0"
    using arg_cong [OF update_bonus_erased [OF 6], of consecutiveEndingPasses] by (simp add: h5 record_move_def bonus_erased_def Let_def)
  then have h7: "h7 = h6" using 7 h1(2) by (simp add: update_phase_def)
  have f: "moveHistory h' = moveHistory h6" "numApproxValidTurnsThisPhase h' = numApproxValidTurnsThisPhase h6"
    "recentBoards h' = recentBoards h6" "consecutiveEndingPasses h' = consecutiveEndingPasses h6"
    using update_cycles_frame [OF 8] h7 by auto
  show "consecutiveEndingPasses h' = 0" using f(4) c6 by simp
  show "moveHistory h' = moveHistory h @ [\<lparr>mv_loc = l, mv_pla = p\<rparr>]"
    "numApproxValidTurnsThisPhase h' = numApproxValidTurnsThisPhase (started h) + 1"
    "\<exists>i. recentBoards h' = (recentBoards h)(i := b')"
    unfolding f(1-3) e6 by (auto simp: h5 record_move_def Let_def s)
qed

lemma move_seen:
  assumes core: "game_core Z b h" and pl: "playable b h l p" and p: "is_stone p"
    and m: "makeBoardMoveAssumeLegal Z l p table pe (b, h) = Some (b', h')" and seen: "seen_ok cs Z b h"
  shows "seen_ok (situations_kept h l cs @ [(b', getOpp p)]) Z b' h'"
proof -
  from m obtain h1 spight b2 h2 wko h3 ill h5 h6 h7 where
    1: "update_passes Z b l p (started h) = Some (h1, spight)"
    and 2: "try_pass_for_ko Z l p (b, h1) = (b2, h2, wko)"
    and 3: "(if wko then Some (b2, h2) else play_regular Z (pos_hash b) l p (b2, h2)) = Some (b', h3)"
    and 5: "update_superko Z b' (getOpp p) table (record_move Z b' l p pe ill h3) = Some h5"
    and 6: "update_bonus l p wko h5 = Some h6"
    and 7: "update_phase Z b' p pe spight h6 = Some h7"
    and 8: "update_cycles l table h7 = Some h'"
    by (rule move_parts)
  let ?h4 = "record_move Z b' l p pe ill h3"
  have wf: "wf_board Z b" using core by (simp add: game_core_def)
  note r = move_recorded [OF core pl p 1 2 3]
  have rec: "game_core Z b' ?h4" "hist_rules ?h4 = hist_rules h" "encorePhase ?h4 = encorePhase h"
    using r(1) [of pe ill] by (simp_all add: recorded_def)
  have s: "hasButton (started h) = hasButton h" "hist_rules (started h) = hist_rules h" "encorePhase (started h) = encorePhase h"
    "koHashHistory (started h) = koHashHistory h" "wasEverOccupiedOrPlayed (started h) = wasEverOccupiedOrPlayed h"
    "koRecapBlocked (started h) = koRecapBlocked h"
    by (simp_all add: started_def clear_result_def cap_valid_turns_def)
  note e1 = update_passes_erased [OF 1]
  have w1: "wasEverOccupiedOrPlayed h1 = wasEverOccupiedOrPlayed h"
    using arg_cong [OF e1, of wasEverOccupiedOrPlayed] s by (simp add: pass_erased_def)
  have e3: "blocks_erased h3 = blocks_erased h1"
    using 3 try_pass_for_ko_erased [OF 2] play_regular_erased by (cases wko) fastforce+
  have w3: "wasEverOccupiedOrPlayed h3 = wasEverOccupiedOrPlayed h" "koHashHistory h3 = koHashHistory h1"
    using arg_cong [OF e3, of wasEverOccupiedOrPlayed] arg_cong [OF e3, of koHashHistory] w1 by (simp_all add: blocks_erased_def)
  obtain sk where h5: "h5 = ?h4\<lparr>superKoBanned := sk\<rparr>" using update_superko_frame [OF 5] by blast
  have w: "wasEverOccupiedOrPlayed h' k \<longleftrightarrow> wasEverOccupiedOrPlayed h k \<or> k = l \<and> l \<noteq> PASS_LOC" for k
    using marks_bonus [OF 6] marks_phase [OF 7] marks_cycles [OF 8] w3(1) by (auto simp: h5 record_move_def Let_def)
  have "game_core Z b (started h)" using core by (simp add: started_core)
  note mid = update_passes_mid [OF this 1]
  have np: "l = PASS_LOC \<or> colors b l = C_EMPTY" if "\<not> wko"
  proof -
    have "encorePhase h1 = encorePhase h" "koRecapBlocked h1 = koRecapBlocked h"
      using pass_erased_fields [OF e1] s by simp_all
    then have "\<not> isPassForKo h b l p" using passes_for_ko [OF _ 2] that by blast
    then show ?thesis using pl by (auto simp: playable_def)
  qed
  have mb: "stones_marked h' b'"
    unfolding stones_marked_def
  proof (intro allI impI)
    fix k assume k: "on_board (x_size b') (y_size b') k \<and> is_stone (colors b' k)"
    then have "is_stone (colors b k) \<or> k = l \<and> l \<noteq> PASS_LOC" using move_stones [OF wf mid np p 2 3, of k] by blast
    then show "wasEverOccupiedOrPlayed h' k" using w [of k] seen k by (auto simp: stones_marked_def seen_ok_def r(3,4))
  qed
  have mono: "stones_marked h' c" if "stones_marked h c" for c using that w by (simp add: stones_marked_def)
  have old: "\<forall>s\<in>set (situations_kept h l cs). wf_board Z (fst s) \<and> x_size (fst s) = x_size b' \<and>
      y_size (fst s) = y_size b' \<and> stones_marked h' (fst s)"
    using seen mono by (simp add: seen_ok_def situations_kept_def r(3,4))
  have hashes: "koHashHistory h' = map (ko_hash Z (hist_rules h')) (situations_kept h l cs @ [(b', getOpp p)])"
    if e: "encorePhase h' = 0"
  proof -
    have v6: "ko_view h6 = ko_view h5" by (rule ko_view_bonus [OF 6])
    have "encorePhase h6 \<ge> 0" using v6 rec(1) by (simp add: ko_view_def h5 game_core_def phase_ok_def)
    then have "ko_view h' = ko_view h6" using ko_view_phase [OF 7] ko_view_cycles [OF 8] e by (auto simp: ko_view_def)
    then have v: "encorePhase h = 0" "koHashHistory h' = koHashHistory ?h4" "hist_rules h' = hist_rules h"
      using v6 e rec(2,3) by (simp_all add: ko_view_def h5)
    have z: "koRecapBlockHash h3 = hash128_zero" "encorePhase h3 = 0" "hist_rules h3 = hist_rules h"
    proof -
      have "encorePhase ?h4 \<le> 0" using rec(3) v(1) by simp
      then have "koRecapBlockHash ?h4 = hash128_zero" using rec(1) no_blocks_zero unfolding game_core_def by blast
      then show "koRecapBlockHash h3 = hash128_zero" "encorePhase h3 = 0" "hist_rules h3 = hist_rules h"
        using rec(2,3) v(1) by (simp_all add: record_move_def Let_def split: if_splits)
    qed
    have "koHashHistory ?h4 = koHashHistory h1 @ [ko_hash Z (hist_rules h) (b', getOpp p)]"
      using w3(2) z by (simp add: record_move_def Let_def ko_hash_def)
    moreover have "koHashHistory h1 = map (ko_hash Z (hist_rules h)) (situations_kept h l cs)"
      using update_passes_kept [OF 1] s v(1) seen by (auto simp: situations_kept_def seen_ok_def)
    ultimately show ?thesis using v(2,3) by simp
  qed
  show ?thesis unfolding seen_ok_def using mb old hashes r(2) by auto
qed

section \<open>The other operations\<close>

lemma new_seen:
  assumes "wf_board Z b" "BoardHistory_new Z b pla r e m = Some h"
  shows "seen_ok [(b, pla)] Z b h"
proof -
  from clear_cases(2) [OF assms(2) [unfolded BoardHistory_new_def]] obtain x y s
    where h: "h = (clear_fields b pla r e (history_blank b pla r m))\<lparr>secondEncoreStartColors := s,
      koHashHistory := [getKoHash Z r b pla e hash128_zero], whiteBonusScore := x, whiteHandicapBonusScore := y\<rparr>" by blast
  have "fold (\<lambda>loc w. w(loc := (colors b loc \<noteq> C_EMPTY))) ls w l = (if l \<in> set ls then colors b l \<noteq> C_EMPTY else w l)" for ls w l
    by (induction ls arbitrary: w) auto
  moreover have "set (board_locs b) = {l. on_board (x_size b) (y_size b) l}"
    using assms(1) by (simp add: wf_board_def core_def geom_ok_def board_locs_eq set_locs_of)
  ultimately have "stones_marked h b" by (auto simp: stones_marked_def h clear_fields_def is_stone_def)
  then show ?thesis using assms(1) by (simp add: seen_ok_def h ko_hash_def)
qed

lemma finished_seen: "seen_ok cs Z b h \<Longrightarrow> seen_ok cs Z b (finish_scored s (take_button h))"
  by (erule seen_ok_cong) (simp_all add: finish_scored_def setFinalScoreAndWinner_def take_button_def Let_def)

lemma scored_seen: "seen_ok cs Z b h \<Longrightarrow> endAndScoreGameNow b h = Some (h', area) \<Longrightarrow> seen_ok cs Z b h'"
  by (auto simp: endAndScoreGameNow_def finished_seen split: bind_splits)

lemma other_seen:
  assumes "client_step Z (b, h) (b', h')" "hist_ok Z b h" "moveHistory h' = moveHistory h" "seen_ok cs Z b h"
  shows "seen_ok cs Z b' h'"
  using assms(1)
proof (cases rule: client_step.cases)
  case (make_move p l table pe)
  then show ?thesis using move_records assms(3) by fastforce
next
  case (make_tolerant l p ok)
  show ?thesis
  proof (cases ok)
    case True
    then show ?thesis using make_tolerant tolerant_playable [of Z l p b h "(b', h')"] move_records assms(3) by fastforce
  next
    case False
    then have "(b', h') = (b, h)"
      using make_tolerant by (auto simp: makeBoardMoveTolerant_def split: if_splits bind_splits)
    then show ?thesis using assms(4) by simp
  qed
next
  case (score_now area)
  then show ?thesis using scored_seen [OF assms(4)] by simp
next
  case all_pass_alive
  then have "h' = h \<or> (\<exists>s. h' = finish_scored s (take_button h)) \<or> (\<exists>a. endAndScoreGameNow b h = Some (h', a))"
    by (auto simp: endGameIfAllPassAlive_def split: bind_splits sum.splits if_splits)
  then show ?thesis using all_pass_alive assms(4) finished_seen scored_seen [OF assms(4)] by auto
next
  case (resign p)
  then show ?thesis using assms(4) by (auto simp: setWinnerByResignation_def elim!: seen_ok_cong)
next
  case (set_komi k)
  then show ?thesis using assms(4)
    by (auto simp: setKomi_def setFinalScoreAndWinner_def Let_def elim!: seen_ok_cong split: if_splits)
next
  case (set_modes m)
  then show ?thesis using assms(4) by (auto simp: setModes_def elim!: seen_ok_cong)
next
  case (set_turn n)
  then show ?thesis using assms(4) by (auto simp: setInitialTurnNumber_def elim!: seen_ok_cong)
next
  case (set_multiple v)
  then obtain y where "h' = h\<lparr>assumeMultipleStartingBlackMovesAreHandicap := v, whiteHandicapBonusScore := y\<rparr>"
    using setHandicapBonus_frame by (fastforce simp: setAssumeMultipleStartingBlackMovesAreHandicap_def)
  then show ?thesis using set_multiple assms(4) by (auto elim!: seen_ok_cong)
next
  case (set_handicap n)
  then obtain y where "h' = h\<lparr>overrideNumHandicapStones := n, whiteHandicapBonusScore := y\<rparr>"
    using setHandicapBonus_frame by (fastforce simp: setOverrideNumHandicapStones_def)
  then show ?thesis using set_handicap assms(4) by (auto elim!: seen_ok_cong)
qed

section \<open>Runs\<close>

lemma scored_history: "endAndScoreGameNow b h = Some (h', area) \<Longrightarrow> moveHistory h' = moveHistory h"
  by (auto simp: endAndScoreGameNow_def finish_scored_def setFinalScoreAndWinner_def take_button_def Let_def split: bind_splits)

lemma step_kind:
  assumes "client_step Z (b, h) (b', h')"
  shows "moveHistory h' = moveHistory h \<or>
    (\<exists>p l table pe. is_stone p \<and> playable b h l p \<and> table_for h table \<and>
       makeBoardMoveAssumeLegal Z l p table pe (b, h) = Some (b', h'))"
  using assms
proof (cases rule: client_step.cases)
  case (make_move p l table pe)
  then show ?thesis by blast
next
  case (make_tolerant l p ok)
  show ?thesis
  proof (cases ok)
    case True
    then have "is_stone p \<and> playable b h l p \<and> makeBoardMoveAssumeLegal Z l p None False (b, h) = Some (b', h')"
      using make_tolerant tolerant_playable [of Z l p b h "(b', h')"] by simp
    then show ?thesis using table_for_None by blast
  next
    case False
    then have "(b', h') = (b, h)"
      using make_tolerant by (auto simp: makeBoardMoveTolerant_def split: if_splits bind_splits)
    then show ?thesis by simp
  qed
next
  case (score_now area)
  then show ?thesis using scored_history by blast
next
  case all_pass_alive
  then have "h' = h \<or> (\<exists>s. h' = finish_scored s (take_button h)) \<or> (\<exists>a. endAndScoreGameNow b h = Some (h', a))"
    by (auto simp: endGameIfAllPassAlive_def split: bind_splits sum.splits if_splits)
  then show ?thesis using scored_history
    by (auto simp: finish_scored_def setFinalScoreAndWinner_def take_button_def Let_def)
next
  case (resign p)
  then show ?thesis by (simp add: setWinnerByResignation_def)
next
  case (set_komi k)
  then show ?thesis by (simp add: setKomi_def setFinalScoreAndWinner_def Let_def)
next
  case (set_modes m)
  then show ?thesis by (simp add: setModes_def)
next
  case (set_turn n)
  then show ?thesis by (simp add: setInitialTurnNumber_def)
next
  case (set_multiple v)
  then show ?thesis using setHandicapBonus_frame by (fastforce simp: setAssumeMultipleStartingBlackMovesAreHandicap_def)
next
  case (set_handicap n)
  then show ?thesis using setHandicapBonus_frame by (fastforce simp: setOverrideNumHandicapStones_def)
qed

lemma situations_ok:
  assumes "situations Z cs (b, h)"
  shows "game_state Z (b, h) \<and> seen_ok cs Z b h"
  using assms
proof (induction cs "(b, h)" arbitrary: b h rule: situations.induct)
  case (new b r e pla m h)
  then show ?case using new_seen [OF new(1,4)] unfolding game_state_def by blast
next
  case (move cs b h p l table pe b' h')
  then have g: "game_state Z (b, h)" "game_core Z b h" using game_state_ok by (auto simp: hist_ok_def)
  show ?case using game_state_step [OF g(1) make_move [OF move(3-6)]] move_seen [OF g(2) move(4,3,6)] move(2) by blast
next
  case (other cs b h b' h')
  then have g: "game_state Z (b, h)" "hist_ok Z b h" using game_state_ok by auto
  show ?case using game_state_step [OF g(1) other(3)] other_seen [OF other(3) g(2) other(4)] other(2) by blast
qed

lemma game_situations:
  assumes "game_state Z (b, h)"
  shows "\<exists>cs. situations Z cs (b, h)"
proof -
  obtain b0 h0 pla r e m where 0: "wf_board Z b0" "rules_ok r" "rules_hasButton r \<longrightarrow> e = 0"
    "BoardHistory_new Z b0 pla r e m = Some h0" and st: "(client_step Z)\<^sup>*\<^sup>* (b0, h0) (b, h)"
    using assms unfolding game_state_def by blast
  from st show ?thesis
  proof (induction rule: rtranclp_induct2)
    case refl
    show ?case using situations.new [OF 0] by blast
  next
    case (step b1 h1 b2 h2)
    then obtain cs where cs: "situations Z cs (b1, h1)" by blast
    then show ?case
      using step_kind [OF step(2)] situations.other [OF cs step(2)] situations.move [OF cs] by blast
  qed
qed

section \<open>Superko\<close>

text \<open>The same situation, where the player to move counts only under situational superko.\<close>

definition same_situation :: "rules \<Rightarrow> board \<times> player \<Rightarrow> board \<times> player \<Rightarrow> bool" where
  "same_situation r s t \<longleftrightarrow> colors (fst s) = colors (fst t) \<and> (koRule r = KO_SITUATIONAL \<longrightarrow> snd s = snd t)"

definition hash_collision :: "zobrist \<Rightarrow> rules \<Rightarrow> (board \<times> player) list \<Rightarrow> board \<times> player \<Rightarrow> bool" where
  "hash_collision Z r cs t \<longleftrightarrow> (\<exists>s\<in>set cs. ko_hash Z r s = ko_hash Z r t \<and> \<not> same_situation r s t)"

lemma same_situation_hash:
  assumes "wf_board Z (fst s)" "wf_board Z (fst t)" "x_size (fst s) = x_size (fst t)" "y_size (fst s) = y_size (fst t)"
    "same_situation r s t" "koRule r \<noteq> KO_SIMPLE"
  shows "ko_hash Z r s = ko_hash Z r t"
  using assms by (simp add: same_situation_def ko_hash_def getKoHash_def wf_board_def core_def hash_ok_def split_beta)

lemma not_suicide_stays:
  assumes m: "move_at Z b q p" and s: "\<not> isSuicide b q p"
  shows "tt_play (x_size b) q p (colors b) q = p"
proof -
  have p: "is_stone p" using m by (simp add: move_at_def)
  then have o: "getOpp p \<noteq> p" by (cases p) simp_all
  have "tt_suicided (x_size b) q p (colors b) = {}" using isSuicide_eq [OF m] s by simp
  then show ?thesis using o by (auto simp: tt_suicided_def tt_play_def tt_clear_def [of _ p] Let_def) (simp add: tt_clear_def)
qed

lemma superko_repeats:
  assumes st: "situations Z cs (b, h)" and p: "is_stone p" and pl: "playable b h l p" and t: "table_for h table"
    and m: "makeBoardMoveAssumeLegal Z l p table pe (b, h) = Some (b', h')"
    and e: "encorePhase h' = 0" and k: "koRule (hist_rules h) \<noteq> KO_SIMPLE" and q: "on_board (x_size b') (y_size b') q"
    and cs': "cs' = situations_kept h l cs @ [(b', getOpp p)]"
    and nc: "\<And>b''. playMoveAssumeLegal Z q (getOpp p) b' = Some b'' \<Longrightarrow> \<not> hash_collision Z (hist_rules h) cs' (b'', p)"
  shows "superKoBanned h' q \<longleftrightarrow> colors b' q = C_EMPTY \<and> q \<noteq> ko_loc b' \<and>
    \<not> isIllegalSuicide b' q (getOpp p) (multiStoneSuicideLegal (hist_rules h)) \<and>
    (\<exists>(c, pla)\<in>set cs'. colors c = tt_play (x_size b') q (getOpp p) (colors b') \<and>
       (koRule (hist_rules h) = KO_SITUATIONAL \<longrightarrow> pla = p))"
proof (cases "colors b' q = C_EMPTY")
  case True
  let ?p = "getOpp p" and ?r = "hist_rules h"
  have pp: "is_stone ?p" "getOpp ?p = p" using p by (cases p; simp)+
  have core: "game_core Z b h" using situations_ok [OF st] game_state_ok by (auto simp: hist_ok_def)
  have seen: "seen_ok cs' Z b' h'" using move_seen [OF core pl p m] situations_ok [OF st] cs' by blast
  have r: "hist_rules h' = ?r" by (rule move_rules [OF core pl p m])
  have wf: "wf_board Z b'" using seen cs' by (simp add: seen_ok_def)
  have at: "move_at Z b' q ?p" by (rule move_atI [OF wf True pp(1)])
  obtain b'' where b'': "playMoveAssumeLegal Z q ?p b' = Some b''" "wf_board Z b''" "x_size b'' = x_size b'" "y_size b'' = y_size b'"
    "colors b'' = tt_play (x_size b') q ?p (colors b')" by (rule played [OF at])
  have hash: "getKoHashAfterMoveNonEncore Z ?r (pos_hash b'') p = ko_hash Z ?r (b'', p)"
    by (simp add: getKoHashAfterMoveNonEncore_def ko_hash_def getKoHash_def)
  have occurs: "ko_hash Z ?r (b'', p) \<in> set (koHashHistory h') \<longleftrightarrow> (\<exists>s\<in>set cs'. same_situation ?r s (b'', p))"
  proof
    assume "ko_hash Z ?r (b'', p) \<in> set (koHashHistory h')"
    then obtain s where "s \<in> set cs'" "ko_hash Z ?r s = ko_hash Z ?r (b'', p)" using seen e by (auto simp: seen_ok_def r)
    then show "\<exists>s\<in>set cs'. same_situation ?r s (b'', p)" using nc [OF b''(1)] unfolding hash_collision_def by blast
  next
    assume "\<exists>s\<in>set cs'. same_situation ?r s (b'', p)"
    then obtain s where s: "s \<in> set cs'" "same_situation ?r s (b'', p)" ..
    have "ko_hash Z ?r s = ko_hash Z ?r (b'', p)"
      by (rule same_situation_hash [OF _ _ _ _ s(2) k]) (use seen s(1) b'' in \<open>auto simp: seen_ok_def\<close>)
    then show "ko_hash Z ?r (b'', p) \<in> set (koHashHistory h')" using s(1) seen e by (auto simp: seen_ok_def r intro: rev_image_eqI)
  qed
  have marks: "wasEverOccupiedOrPlayed h' q \<or> isSuicide b' q ?p" if "s \<in> set cs'" "same_situation ?r s (b'', p)" for s
  proof (cases "isSuicide b' q ?p")
    case False
    then have "colors (fst s) q = ?p" using not_suicide_stays [OF at] that(2) b''(5) by (simp add: same_situation_def)
    then show ?thesis using seen that(1) q pp(1) by (auto simp: seen_ok_def stones_marked_def)
  qed simp
  have "superKoBanned h' q \<longleftrightarrow> superko_ban Z b' ?p h' q" by (rule move_superko [OF core pl p t m e k q])
  also have "\<dots> \<longleftrightarrow> q \<noteq> ko_loc b' \<and> \<not> isIllegalSuicide b' q ?p (multiStoneSuicideLegal ?r) \<and>
      (\<exists>s\<in>set cs'. same_situation ?r s (b'', p))"
    using marks by (auto simp: superko_ban_def True r pp(2) b''(1) hash occurs)
  also have "(\<exists>s\<in>set cs'. same_situation ?r s (b'', p)) \<longleftrightarrow>
      (\<exists>(c, pla)\<in>set cs'. colors c = tt_play (x_size b') q ?p (colors b') \<and> (koRule ?r = KO_SITUATIONAL \<longrightarrow> pla = p))"
    by (simp add: same_situation_def b''(5) split_beta)
  finally show ?thesis using True by simp
next
  case False
  have core: "game_core Z b h" using situations_ok [OF st] game_state_ok by (auto simp: hist_ok_def)
  have "superKoBanned h' q \<longleftrightarrow> superko_ban Z b' (getOpp p) h' q" by (rule move_superko [OF core pl p t m e k q])
  then show ?thesis using False by (simp add: superko_ban_def)
qed

end
