(* ===== verification/GameProps.thy ===== *)
theory GameProps
  imports HistorySeen BoardProps
begin

text \<open>
  The properties of games: the invariant of every reachable state, that moves and scoring return,
  the ko table, superko, passes, scoring and Benson's algorithm, with instances on small boards.
\<close>

section \<open>A small game\<close>

definition demo_modes :: BoardHistoryModes where
  "demo_modes = \<lparr>alwaysComputePassAliveUnderSuicideRules = False, excludeTerritoryAdjacentToAtari = False\<rparr>"

definition demo_hist :: "rules \<Rightarrow> history" where
  "demo_hist r = (case BoardHistory_new demo_zobrist ko_shape P_BLACK r 0 demo_modes of
     Some h \<Rightarrow> h | None \<Rightarrow> history_blank ko_shape P_BLACK r demo_modes)"

lemma ko_shape_wf: "wf_board demo_zobrist ko_shape"
  by (simp add: ko_shape_def demo_wf)

lemma demo_hist_new:
  "rules_ok r \<Longrightarrow> BoardHistory_new demo_zobrist ko_shape P_BLACK r 0 demo_modes = Some (demo_hist r)"
  using clear_total [of r 0 demo_zobrist ko_shape P_BLACK "history_blank ko_shape P_BLACK r demo_modes"]
  by (auto simp: demo_hist_def BoardHistory_new_def)

lemma demo_game: "rules_ok r \<Longrightarrow> game_state demo_zobrist (ko_shape, demo_hist r)"
  unfolding game_state_def using ko_shape_wf demo_hist_new by blast

lemma Rules_default_ok: "rules_ok Rules_default" "koRule Rules_default \<noteq> KO_SIMPLE" "koRule Rules_default \<noteq> KO_SITUATIONAL"
  "multiStoneSuicideLegal Rules_default"
  by (simp_all add: rules_ok_def Rules_default_def rule_consts)

lemma demo_hist_fields:
  assumes "rules_ok r"
  shows "hist_rules (demo_hist r) = r" "encorePhase (demo_hist r) = 0" "length (koHashHistory (demo_hist r)) = 1"
proof -
  have "clear demo_zobrist ko_shape P_BLACK r 0 (history_blank ko_shape P_BLACK r demo_modes) = Some (demo_hist r)"
    using demo_hist_new [OF assms] by (simp add: BoardHistory_new_def)
  from clear_cases(2) [OF this] show "hist_rules (demo_hist r) = r" "encorePhase (demo_hist r) = 0"
    "length (koHashHistory (demo_hist r)) = 1" by auto
qed

text \<open>A new game on a board.\<close>

definition new_hist :: "board \<Rightarrow> history" where
  "new_hist b = (case BoardHistory_new demo_zobrist b P_BLACK Rules_default 0 demo_modes of
     Some h \<Rightarrow> h | None \<Rightarrow> history_blank b P_BLACK Rules_default demo_modes)"

lemma new_hist_new: "BoardHistory_new demo_zobrist b P_BLACK Rules_default 0 demo_modes = Some (new_hist b)"
  using clear_total [OF Rules_default_ok(1), of 0 demo_zobrist b P_BLACK "history_blank b P_BLACK Rules_default demo_modes"]
  by (auto simp: new_hist_def BoardHistory_new_def)

lemma new_hist_game: "wf_board demo_zobrist b \<Longrightarrow> game_state demo_zobrist (b, new_hist b)"
  unfolding game_state_def using new_hist_new Rules_default_ok(1) by blast

lemma new_hist_fields: "hist_rules (new_hist b) = Rules_default" "encorePhase (new_hist b) = 0"
proof -
  have "clear demo_zobrist b P_BLACK Rules_default 0 (history_blank b P_BLACK Rules_default demo_modes) = Some (new_hist b)"
    using new_hist_new by (simp add: BoardHistory_new_def)
  from clear_cases(2) [OF this] show "hist_rules (new_hist b) = Rules_default" "encorePhase (new_hist b) = 0" by auto
qed

section \<open>Games\<close>

text \<open>
  C7: The invariant of a game. In every state that a client reaches from the constructor of
  \<open>BoardHistory\<close> by moves (with or without the ko table of an earlier state), scoring,
  resignation and the setters, the board is well formed and is the recorded recent board, the
  move lists have equal length, the ko hashes start at their first turn and end with the hash
  of the present situation, the hash of the ko recapture blocks is the hash of the blocked
  points, none is blocked in the main phase, the button is there only in the main phase before
  any pass, and winner, score and the flags of the result agree.
\<close>

theorem game_invariant:
  assumes "wf_board Z b0" and "rules_hasButton r \<longrightarrow> e = 0"
    and "BoardHistory_new Z b0 pla r e m = Some h0" and "(client_step Z)\<^sup>*\<^sup>* (b0, h0) (b, h)"
  shows "hist_ok Z b h"
proof -
  have "hist_ok Z b0 h0"
    using clear_ok(1) [OF assms(1), of pla r e "history_blank b0 pla r m" h0] assms(2,3) by (simp add: BoardHistory_new_def)
  then show ?thesis using reachable_ok [OF assms(4)] by simp
qed

theorem game_invariant_witness:
  "\<exists>h. client_step demo_zobrist (ko_shape, demo_hist Rules_default) (ko_shape, h) \<and> isResignation h \<and>
     hist_ok demo_zobrist ko_shape h"
proof -
  let ?h = "setWinnerByResignation P_WHITE (demo_hist Rules_default)"
  have step: "client_step demo_zobrist (ko_shape, demo_hist Rules_default) (ko_shape, ?h)" by (rule resign)
  have "rules_hasButton Rules_default \<longrightarrow> (0 :: int) = 0" by simp
  from game_invariant [OF ko_shape_wf this demo_hist_new [OF Rules_default_ok(1)] r_into_rtranclp [of "client_step demo_zobrist", OF step]]
  have "hist_ok demo_zobrist ko_shape ?h" .
  moreover have "isResignation ?h" by (simp add: setWinnerByResignation_def)
  ultimately show ?thesis using step by blast
qed

text \<open>
  C8: Tolerant moves always return. In every state of a game, for any integer as a point and
  any colour as a player, \<open>makeBoardMoveTolerant\<close> runs to its end: no assertion fails and no
  loop runs on, superko detection and the scoring of a game that ends included. It accepts
  exactly what \<open>isLegalTolerant\<close> accepts, changes nothing otherwise, and leads to a state of the
  game again.
\<close>

theorem tolerant_moves_return:
  assumes "game_state Z (b, h)"
  shows "\<exists>s ok. makeBoardMoveTolerant Z l p (b, h) = Some (s, ok) \<and> (ok \<longleftrightarrow> isLegalTolerant h b l p) \<and>
    (\<not> ok \<longrightarrow> s = (b, h)) \<and> game_state Z s"
proof -
  obtain s ok where m: "makeBoardMoveTolerant Z l p (b, h) = Some (s, ok)"
    using tolerant_total [of Z b h l p] game_state_ok [OF assms] by auto
  show ?thesis using m tolerant_answer [OF m] game_state_step [OF assms make_tolerant [OF m]] by blast
qed

theorem tolerant_moves_return_witness:
  "\<exists>s ok. makeBoardMoveTolerant demo_zobrist 5 C_BLACK (ko_shape, demo_hist Rules_default) = Some (s, ok) \<and>
     (ok \<longleftrightarrow> isLegalTolerant (demo_hist Rules_default) ko_shape 5 C_BLACK) \<and> game_state demo_zobrist s"
  using tolerant_moves_return [OF demo_game [OF Rules_default_ok(1)], of 5 C_BLACK] by blast

text \<open>
  C9: The ko table changes nothing. A search builds one table from its root and passes it to
  every move below it. In every state reached from the root, a move with the root's table has
  the same result as a move that searches the whole history, even where the history of hashes
  was cleared by passes or a new phase in between.
\<close>

theorem root_table_equivalent:
  assumes "hist_ok Z b0 h0" and "recompute h0 t0 = Inr t" and "(client_step Z)\<^sup>*\<^sup>* (b0, h0) (b, h)"
    and "is_stone p" and "playable b h l p"
  shows "makeBoardMoveAssumeLegal Z l p (Some t) pe (b, h) = makeBoardMoveAssumeLegal Z l p None pe (b, h)"
proof -
  have "hist_ok Z b h" using reachable_ok [OF assms(3)] assms(1) by simp
  then have core: "game_core Z b h" by (simp add: hist_ok_def)
  have "table_for h (Some t)"
    using reachable_table [OF assms(3)] assms(1) table_of_root [OF assms(2)] by simp
  then show ?thesis by (rule move_table_irrelevant [OF core assms(5,4)])
qed

theorem root_table_equivalent_witness:
  "\<exists>t. recompute (demo_hist Rules_default) KoHashTable_new = Inr t \<and>
     makeBoardMoveAssumeLegal demo_zobrist 5 C_BLACK (Some t) False (ko_shape, demo_hist Rules_default) =
     makeBoardMoveAssumeLegal demo_zobrist 5 C_BLACK None False (ko_shape, demo_hist Rules_default)"
proof -
  have ok: "hist_ok demo_zobrist ko_shape (demo_hist Rules_default)"
    using game_state_ok(1) [OF demo_game [OF Rules_default_ok(1)]] .
  have "length (koHashHistory (demo_hist Rules_default)) \<le> 1000000000"
    unfolding demo_hist_fields(3) [OF Rules_default_ok(1)] by simp
  then obtain t where t: "recompute (demo_hist Rules_default) KoHashTable_new = Inr t"
    using recompute_returns by blast
  have "colors ko_shape 5 = C_EMPTY" by code_simp
  then have "playable ko_shape (demo_hist Rules_default) 5 C_BLACK" by (simp add: playable_def)
  from root_table_equivalent [OF ok t rtranclp.rtrancl_refl _ this, of False] show ?thesis using t by simp
qed

text \<open>
  C10: Superko is exact. Take a run of a game with its situations, the boards and who was to move,
  of which a pass forgets the earlier ones if it takes the button or under Spight rules. After a
  move in the main phase under a superko rule, a point of the board is banned for the next player
  exactly when it is empty, not the simple ko point (which is kept on the board and forbidden
  there), not an illegal suicide, and a stone on it, with its captures, would lead to the stones of
  a remembered situation, under situational superko with the same player to move. The one
  assumption is that the hash of the position after the move is not by accident that of a
  remembered situation with other stones.
\<close>

theorem superko_exact:
  assumes "situations Z cs (b, h)" and "is_stone p" and "playable b h l p" and "table_for h table"
    and "makeBoardMoveAssumeLegal Z l p table pe (b, h) = Some (b', h')"
    and "encorePhase h' = 0" and "koRule (hist_rules h) \<noteq> KO_SIMPLE" and "on_board (x_size b') (y_size b') q"
    and "cs' = situations_kept h l cs @ [(b', getOpp p)]"
    and "\<And>b''. playMoveAssumeLegal Z q (getOpp p) b' = Some b'' \<Longrightarrow> \<not> hash_collision Z (hist_rules h) cs' (b'', p)"
  shows "superKoBanned h' q \<longleftrightarrow> colors b' q = C_EMPTY \<and> q \<noteq> ko_loc b' \<and>
    \<not> isIllegalSuicide b' q (getOpp p) (multiStoneSuicideLegal (hist_rules h)) \<and>
    (\<exists>(c, pla)\<in>set cs'. colors c = tt_play (x_size b') q (getOpp p) (colors b') \<and>
       (koRule (hist_rules h) = KO_SITUATIONAL \<longrightarrow> pla = p))"
  by (rule superko_repeats [OF assms])

text \<open>
  On a 3x1 board with a black stone on the left and a white one on the right, Black captures in the
  middle and White captures two stones back: Black on the left would repeat the start.
\<close>

definition line_start :: board where
  "line_start = (case Board_init demo_zobrist blank_board 3 1 of Inl _ \<Rightarrow> blank_board | Inr b \<Rightarrow>
     (case play_all [(5, C_BLACK), (7, C_WHITE)] b of None \<Rightarrow> b | Some b' \<Rightarrow> b'))"

lemma line_start_wf: "wf_board demo_zobrist line_start" "x_size line_start = 3" "y_size line_start = 1"
proof -
  obtain b where b: "Board_init demo_zobrist blank_board 3 1 = Inr b"
    using Board_init_ok [of demo_zobrist blank_board 3 1] by (auto simp: MAX_LEN_def)
  obtain b' where "play_all [(5, C_BLACK), (7, C_WHITE)] b = Some b'" "wf_board demo_zobrist b'" "x_size b' = x_size b" "y_size b' = y_size b"
    using play_all_wf [OF Board_init_wf [OF b]] by blast
  then show "wf_board demo_zobrist line_start" "x_size line_start = 3" "y_size line_start = 1"
    using b Board_init_facts(1,2) [OF b] by (simp_all add: line_start_def)
qed

definition line_mid :: board where
  "line_mid = (case playMoveAssumeLegal demo_zobrist 6 C_BLACK line_start of Some b \<Rightarrow> b | None \<Rightarrow> line_start)"

definition line_end :: board where
  "line_end = (case playMoveAssumeLegal demo_zobrist 7 C_WHITE line_mid of Some b \<Rightarrow> b | None \<Rightarrow> line_mid)"

definition line_view :: "board \<Rightarrow> color list \<times> hash128" where
  "line_view b = (map (colors b) [5, 6, 7], pos_hash b)"

lemma line_view_start: "line_view line_start = ([C_BLACK, C_EMPTY, C_WHITE], Hash128 2 3)"
  by code_simp

lemma line_view_mid: "line_view line_mid = ([C_BLACK, C_BLACK, C_EMPTY], Hash128 3 0)"
  by code_simp

lemma line_view_end: "line_view line_end = ([C_EMPTY, C_EMPTY, C_WHITE], Hash128 7 2)"
  by code_simp

lemma line_view_left:
  "map_option line_view (playMoveAssumeLegal demo_zobrist 5 C_BLACK line_end) = Some ([C_BLACK, C_EMPTY, C_WHITE], Hash128 2 3)"
  by code_simp

lemma line_view_middle:
  "map_option line_view (playMoveAssumeLegal demo_zobrist 6 C_BLACK line_end) = Some ([C_EMPTY, C_BLACK, C_EMPTY], Hash128 6 1)"
  by code_simp

lemma line_end_legal: "ko_loc line_end = NULL_LOC" "\<not> isIllegalSuicide line_end 5 C_BLACK True" "locs_of 3 1 = [5, 6, 7]"
  by code_simp+

lemma line_stones:
  "colors line_start 5 = C_BLACK" "colors line_start 6 = C_EMPTY" "colors line_start 7 = C_WHITE"
  "colors line_mid 5 = C_BLACK" "colors line_mid 7 = C_EMPTY"
  "colors line_end 5 = C_EMPTY" "colors line_end 6 = C_EMPTY" "colors line_end 7 = C_WHITE"
  "pos_hash line_start = Hash128 2 3" "pos_hash line_mid = Hash128 3 0" "pos_hash line_end = Hash128 7 2"
  using line_view_start line_view_mid line_view_end by (simp_all add: line_view_def)

lemma line_played:
  "playMoveAssumeLegal demo_zobrist 6 C_BLACK line_start = Some line_mid"
  "playMoveAssumeLegal demo_zobrist 7 C_WHITE line_mid = Some line_end"
  "wf_board demo_zobrist line_end" "x_size line_end = 3" "y_size line_end = 1"
proof -
  have st: "is_stone C_BLACK" "is_stone C_WHITE" by simp_all
  obtain b where b: "playMoveAssumeLegal demo_zobrist 6 C_BLACK line_start = Some b" "wf_board demo_zobrist b"
    "x_size b = x_size line_start" "y_size b = y_size line_start"
    by (rule played [OF move_atI [OF line_start_wf(1) line_stones(2) st(1)]])
  then have m: "line_mid = b" by (simp add: line_mid_def)
  then show 1: "playMoveAssumeLegal demo_zobrist 6 C_BLACK line_start = Some line_mid" using b(1) by simp
  have wf: "wf_board demo_zobrist line_mid" using b(2) m by simp
  obtain c where c: "playMoveAssumeLegal demo_zobrist 7 C_WHITE line_mid = Some c" "wf_board demo_zobrist c"
    "x_size c = x_size line_mid" "y_size c = y_size line_mid"
    by (rule played [OF move_atI [OF wf line_stones(5) st(2)]])
  then have e: "line_end = c" by (simp add: line_end_def)
  show "playMoveAssumeLegal demo_zobrist 7 C_WHITE line_mid = Some line_end" "wf_board demo_zobrist line_end"
    "x_size line_end = 3" "y_size line_end = 1"
    using b c m e line_start_wf(2,3) by simp_all
qed

lemma line_next:
  assumes "colors line_end q = C_EMPTY"
  obtains b where "playMoveAssumeLegal demo_zobrist q C_BLACK line_end = Some b" "colors b = tt_play 3 q C_BLACK (colors line_end)"
    "\<forall>l. l \<notin> {5, 6, 7} \<longrightarrow> colors b l = colors line_start l"
proof -
  have "is_stone C_BLACK" by simp
  from played [OF move_atI [OF line_played(3) assms this]] obtain b where
    b: "playMoveAssumeLegal demo_zobrist q C_BLACK line_end = Some b" "wf_board demo_zobrist b" "x_size b = x_size line_end"
    "y_size b = y_size line_end" "colors b = tt_play (x_size line_end) q C_BLACK (colors line_end)" by blast
  have "colors b l = colors line_start l" if "l \<notin> {5, 6, 7}" for l
  proof -
    have "l \<notin> set (locs_of 3 1)" using that by (simp add: line_end_legal(3))
    then have "\<not> on_board 3 1 l" by (simp add: set_locs_of)
    then have "colors b l = C_WALL" "colors line_start l = C_WALL"
      using on_board_iff [OF b(2), of l] on_board_iff [OF line_start_wf(1), of l] b(3,4) line_played(4,5) line_start_wf(2,3) by simp_all
    then show ?thesis by simp
  qed
  then show thesis using that b(1,5) line_played(4) by simp
qed

lemma line_run:
  obtains h1 h2 where
    "makeBoardMoveAssumeLegal demo_zobrist 6 C_BLACK None False (line_start, new_hist line_start) = Some (line_mid, h1)"
    "makeBoardMoveAssumeLegal demo_zobrist 7 C_WHITE None False (line_mid, h1) = Some (line_end, h2)"
    "situations demo_zobrist [(line_start, P_BLACK), (line_mid, C_WHITE)] (line_mid, h1)"
    "playable line_mid h1 7 C_WHITE" "hist_rules h1 = Rules_default" "encorePhase h2 = 0"
proof -
  let ?Z = demo_zobrist and ?h = "new_hist line_start"
  have st: "is_stone C_BLACK" "is_stone C_WHITE" by simp_all
  have np: "(6 :: loc) \<noteq> PASS_LOC" "(7 :: loc) \<noteq> PASS_LOC" by (simp_all add: PASS_LOC_def)
  have s0: "situations ?Z [(line_start, P_BLACK)] (line_start, ?h)"
    by (rule situations.new [OF line_start_wf(1) Rules_default_ok(1) _ new_hist_new]) simp
  note g0 = situations_ok [OF s0, THEN conjunct1]
  have c0: "game_core ?Z line_start ?h" using game_state_ok(1) [OF g0] by (simp add: hist_ok_def)
  have pl0: "playable line_start ?h 6 C_BLACK" by (simp add: playable_def line_stones)
  obtain b1 h1 where m1: "makeBoardMoveAssumeLegal ?Z 6 C_BLACK None False (line_start, ?h) = Some (b1, h1)"
    using move_total [OF c0 game_state_ok(2) [OF g0] pl0 st(1) table_for_None] by blast
  have b1: "b1 = line_mid" using main_phase_move(1) [OF m1 np(1) new_hist_fields(2)] line_played(1) by simp
  note m1 = m1 [unfolded b1]
  have s1: "situations ?Z [(line_start, P_BLACK), (line_mid, C_WHITE)] (line_mid, h1)"
    using situations.move [OF s0 st(1) pl0 table_for_None m1] np by (simp add: situations_kept_def)
  note g1 = situations_ok [OF s1, THEN conjunct1]
  have c1: "game_core ?Z line_mid h1" using game_state_ok(1) [OF g1] by (simp add: hist_ok_def)
  have r1: "hist_rules h1 = Rules_default" "encorePhase h1 = 0"
    using move_rules [OF c0 pl0 st(1) m1] move_phase [OF c0 pl0 st(1) np(1) m1] new_hist_fields by simp_all
  have pl1: "playable line_mid h1 7 C_WHITE" by (simp add: playable_def line_stones)
  obtain b2 h2 where m2: "makeBoardMoveAssumeLegal ?Z 7 C_WHITE None False (line_mid, h1) = Some (b2, h2)"
    using move_total [OF c1 game_state_ok(2) [OF g1] pl1 st(2) table_for_None] by blast
  have b2: "b2 = line_end" using main_phase_move(1) [OF m2 np(2) r1(2)] line_played(2) by simp
  note m2 = m2 [unfolded b2]
  have "encorePhase h2 = 0" using move_phase [OF c1 pl1 st(2) np(2) m2] r1(2) by simp
  then show thesis using that m1 m2 s1 pl1 r1(1) by blast
qed

theorem superko_exact_witness:
  "\<exists>h1 h2. makeBoardMoveAssumeLegal demo_zobrist 6 C_BLACK None False (line_start, new_hist line_start) = Some (line_mid, h1) \<and>
     makeBoardMoveAssumeLegal demo_zobrist 7 C_WHITE None False (line_mid, h1) = Some (line_end, h2) \<and>
     superKoBanned h2 5 \<and> \<not> superKoBanned h2 6"
proof -
  obtain h1 h2 where m: "makeBoardMoveAssumeLegal demo_zobrist 6 C_BLACK None False (line_start, new_hist line_start) = Some (line_mid, h1)"
    "makeBoardMoveAssumeLegal demo_zobrist 7 C_WHITE None False (line_mid, h1) = Some (line_end, h2)"
    and s: "situations demo_zobrist [(line_start, P_BLACK), (line_mid, C_WHITE)] (line_mid, h1)" "playable line_mid h1 7 C_WHITE"
    and r: "hist_rules h1 = Rules_default" "encorePhase h2 = 0" by (rule line_run)
  let ?cs = "[(line_start, P_BLACK), (line_mid, C_WHITE), (line_end, C_BLACK)]"
  have cs: "?cs = situations_kept h1 7 [(line_start, P_BLACK), (line_mid, C_WHITE)] @ [(line_end, getOpp C_WHITE)]"
    by (simp add: situations_kept_def PASS_LOC_def)
  have w: "is_stone C_WHITE" "koRule (hist_rules h1) \<noteq> KO_SIMPLE" using r(1) Rules_default_ok(2) by simp_all
  have ob: "on_board (x_size line_end) (y_size line_end) q" if "q = 5 \<or> q = 6" for q
    using that set_locs_of [of 3 1] by (auto simp: line_played(4,5) line_end_legal(3))
  have opp: "getOpp C_WHITE = C_BLACK" by simp
  note exact = superko_exact [OF s(1) w(1) s(2) table_for_None m(2) r(2) w(2) ob cs, unfolded opp]
  obtain b5 where b5: "playMoveAssumeLegal demo_zobrist 5 C_BLACK line_end = Some b5" "colors b5 = tt_play 3 5 C_BLACK (colors line_end)"
    "\<forall>l. l \<notin> {5, 6, 7} \<longrightarrow> colors b5 l = colors line_start l" by (rule line_next [OF line_stones(6)])
  have v5: "pos_hash b5 = Hash128 2 3" "colors b5 5 = C_BLACK" "colors b5 6 = C_EMPTY" "colors b5 7 = C_WHITE"
    using line_view_left by (simp_all add: b5(1) line_view_def)
  have same: "colors line_start = colors b5"
  proof
    fix l show "colors line_start l = colors b5 l"
      using b5(3) v5 line_stones(1-3) by (cases "l \<in> {5, 6, 7}") auto
  qed
  obtain b6 where b6: "playMoveAssumeLegal demo_zobrist 6 C_BLACK line_end = Some b6" "colors b6 = tt_play 3 6 C_BLACK (colors line_end)"
    by (rule line_next [OF line_stones(7)])
  have v6: "pos_hash b6 = Hash128 6 1" "colors b6 5 = C_EMPTY" "colors b6 7 = C_EMPTY"
    using line_view_middle by (simp_all add: b6(1) line_view_def)
  have hash: "ko_hash demo_zobrist Rules_default (c, pl) = pos_hash c" for c pl
    by (simp add: ko_hash_def getKoHash_def Rules_default_def rule_consts)
  have "\<not> hash_collision demo_zobrist (hist_rules h1) ?cs (b5, C_WHITE)" "\<not> hash_collision demo_zobrist (hist_rules h1) ?cs (b6, C_WHITE)"
    using Rules_default_ok(3) by (simp_all add: hash_collision_def hash line_stones(9-11) v5(1) v6(1) same_situation_def same r(1))
  then have "superKoBanned h2 5 \<longleftrightarrow> (\<exists>(c, pla)\<in>set ?cs. colors c = colors b5)"
    "superKoBanned h2 6 \<Longrightarrow> (\<exists>(c, pla)\<in>set ?cs. colors c = colors b6)"
    using exact [of 5] exact [of 6] b5 b6 Rules_default_ok(3,4) line_end_legal line_stones(6) by (simp_all add: r(1) line_played(4) NULL_LOC_def)
  moreover have "colors c \<noteq> colors b6" if "colors c k \<noteq> colors b6 k" for c k using that by auto
  then have "colors line_start \<noteq> colors b6" "colors line_mid \<noteq> colors b6" "colors line_end \<noteq> colors b6"
    using line_stones(1,4,8) v6(2,3) by force+
  ultimately show ?thesis using m same by auto
qed

text \<open>
  C11: What a pass does is what is predicted. \<open>passWouldEndPhase\<close> says, before a pass is made,
  exactly whether it ends the game or leads into the next encore phase, and \<open>passWouldEndGame\<close>
  whether the game is finished after it: two passes in a row, spight-like repeated passes, the
  button and all phases included.
\<close>

theorem pass_predicted:
  assumes "game_state Z (b, h)" and "is_stone p"
    and "makeBoardMoveAssumeLegal Z PASS_LOC p table False (b, h) = Some (b', h')"
  shows "(\<exists>v. passWouldEndPhase Z h b p = Some v \<and> (v \<longleftrightarrow> isGameFinished h' \<or> encorePhase h' = encorePhase h + 1)) \<and>
    passWouldEndGame Z h b p = Some (isGameFinished h')"
proof -
  have c: "game_core Z b h" "rules_ok (hist_rules h)" using game_state_ok [OF assms(1)] by (simp_all add: hist_ok_def)
  show ?thesis using pass_effect [OF c assms(2,3)] by blast
qed

theorem pass_predicted_witness:
  "\<exists>b' h'. makeBoardMoveAssumeLegal demo_zobrist PASS_LOC C_BLACK None False (ko_shape, demo_hist Rules_default) = Some (b', h') \<and>
     passWouldEndGame demo_zobrist (demo_hist Rules_default) ko_shape C_BLACK = Some (isGameFinished h')"
proof -
  note g = demo_game [OF Rules_default_ok(1)]
  let ?h = "demo_hist Rules_default"
  have core: "game_core demo_zobrist ko_shape ?h" using game_state_ok(1) [OF g] by (simp add: hist_ok_def)
  have pl: "playable ko_shape ?h PASS_LOC C_BLACK" by (simp add: playable_def)
  have st: "is_stone C_BLACK" by simp
  obtain b' h' where m: "makeBoardMoveAssumeLegal demo_zobrist PASS_LOC C_BLACK None False (ko_shape, ?h) = Some (b', h')"
    using move_total [OF core game_state_ok(2) [OF g] pl st table_for_None] by blast
  from pass_predicted [OF g st m] show ?thesis using m by blast
qed

section \<open>Scoring\<close>

text \<open>
  Changing komi and scoring commute. Whether \<open>setKomi\<close> is called before a game is scored or
  after, the final score, the winner and every other field come out the same.
\<close>

theorem komi_commutes:
  "endAndScoreGameNow b (setKomi k h) = map_option (\<lambda>(h', area). (setKomi k h', area)) (endAndScoreGameNow b h)"
  unfolding endAndScoreGameNow_def score_now_komi
  by (cases "score_now h b") (auto simp: finish_komi)

text \<open>
  C12: Area scoring is what Benson's algorithm and counting say. Under area scoring without tax,
  scoring a game returns, marks it finished and scored, and its final score is the number of
  points that are White's minus those that are Black's in the area of both players, plus the
  bonuses and komi: a point belongs to a player by pass-alive chains and territory, otherwise to
  the colour of the stone on it.
\<close>

theorem area_score:
  assumes "wf_board Z b" and "scoringRule (hist_rules h) = SCORING_AREA" and "taxRule (hist_rules h) = TAX_NONE"
    and "\<not> hasButton h"
  shows "\<exists>h' area. endAndScoreGameNow b h = Some (h', area) \<and> isGameFinished h' \<and> isScored h' \<and>
    area = fill_colors b (both_areas b True True (suicideLegalForPassAlive h)) \<and>
    finalWhiteMinusBlackScore h' =
      of_int (int (card {l. on_board (x_size b) (y_size b) l \<and> area l = C_WHITE}) -
              int (card {l. on_board (x_size b) (y_size b) l \<and> area l = C_BLACK}))
      + whiteBonusScore h + whiteHandicapBonusScore h + komi (hist_rules h)"
proof -
  have g: "geom_ok b" using assms(1) by (simp add: wf_board_def core_def)
  let ?A = "fill_colors b (both_areas b True True (suicideLegalForPassAlive h))"
  have "score_now h b = Some (sum_area b ?A 0, ?A)"
    using assms(2,3) by (simp add: score_now_def countAreaScoreWhiteMinusBlack_def Let_def calculateArea_eq [OF assms(1)])
  then have "endAndScoreGameNow b h = Some (finish_scored (sum_area b ?A 0) h, ?A)"
    using assms(4) by (simp add: endAndScoreGameNow_def take_button_def)
  then show ?thesis
    by (simp add: finish_scored_def setFinalScoreAndWinner_def Let_def sum_area_eq [OF g])
qed

theorem area_score_witness:
  "\<exists>h' area. endAndScoreGameNow ko_shape (demo_hist Rules_default) = Some (h', area) \<and> isScored h' \<and>
     area = fill_colors ko_shape (both_areas ko_shape True True (suicideLegalForPassAlive (demo_hist Rules_default)))"
proof -
  let ?h = "demo_hist Rules_default"
  have r: "hist_rules ?h = Rules_default" by (rule demo_hist_fields(1) [OF Rules_default_ok(1)])
  have "scoringRule (hist_rules ?h) = SCORING_AREA" "taxRule (hist_rules ?h) = TAX_NONE"
    unfolding r by (simp_all add: Rules_default_def)
  moreover have "\<not> hasButton ?h"
    using clear_hasButton [of demo_zobrist ko_shape P_BLACK Rules_default 0] demo_hist_new [OF Rules_default_ok(1)]
    by (simp add: BoardHistory_new_def Rules_default_def)
  ultimately show ?thesis using area_score [OF ko_shape_wf, of ?h] by blast
qed

section \<open>Benson's algorithm\<close>

text \<open>
  C13: \<open>Board::calculateAreaForPla\<close> computes Benson's unconditional life. On a well-formed board
  it returns, and the points it gives to the player are exactly the stones of the chains in the
  greatest family in which every chain has two vital regions bordered by the family alone, the
  regions bordered by such chains with at most one point away from the player's stones or, if
  asked for, without opponent stones, and, if asked for, any other region without opponent
  stones where nobody has been given the point before.
\<close>

theorem benson_area:
  assumes "wf_board Z b" and "is_stone pla"
  shows "calculateAreaForPla b pla safeBig unsafeBig multi result = Some (\<lambda>l.
     if colors b l = pla
     then (if chain_head b l \<in> benson_alive b pla multi then pla else result l)
     else if \<exists>R\<in>regions_of b pla. l \<in> R \<and>
         (sure_region b pla multi safeBig R \<or> likely_region b pla unsafeBig R \<and> result l = C_EMPTY)
     then pla else result l)"
  by (simp only: calculateAreaForPla_eq [OF assms] pla_area_def)

theorem benson_area_witness:
  "\<exists>area. calculateAreaForPla corner C_BLACK True False True (\<lambda>_. C_EMPTY) = Some area \<and>
     (area 5 = C_BLACK \<or> area 5 = C_EMPTY)"
proof -
  have "is_stone C_BLACK" by simp
  from benson_area [OF corner_wf this, of True False True "\<lambda>_. C_EMPTY"] show ?thesis by auto
qed

text \<open>
  C14: The arrays of \<open>calculateAreaForPla\<close> never overflow. The scan returns, it finds every
  region that contains an empty point exactly once, there are at most 181 of them, so that one
  more fits the arrays, and the shared list of vital chains always has room for four more.
\<close>

theorem region_arrays_fit:
  assumes "wf_board Z b" and "is_stone pla"
  shows "\<exists>r. foldM (region_scan b pla multi) (board_locs b) regions_start = Some r \<and>
    numRegions r < maxRegions \<and> vitalForPlaHeadsListsTotal r + 4 \<le> vitalForPlaHeadsListsMaxLen \<and>
    inj_on (reg b pla r) {0..<numRegions r} \<and> reg b pla r ` {0..<numRegions r} = regions_of b pla"
proof -
  obtain r where r: "foldM (region_scan b pla multi) (board_locs b) regions_start = Some r"
    and so: "scan_ok b pla multi {l. on_board (x_size b) (y_size b) l} r"
    using scan_total [OF assms] by blast
  have s: "scanned Z b pla multi r" using assms so by (simp add: scanned_def)
  have "vitalForPlaHeadsListsTotal r \<le> 4 * numRegions r" using so by (simp add: scan_ok_def)
  then have "numRegions r < maxRegions" "vitalForPlaHeadsListsTotal r + 4 \<le> vitalForPlaHeadsListsMaxLen"
    using scanned_facts(5) [OF s] by (simp_all add: maxRegions_def vitalForPlaHeadsListsMaxLen_def MAX_LEN_def)
  then show ?thesis using r reg_inj [OF s] reg_image [OF s] by blast
qed

theorem region_arrays_fit_witness:
  "\<exists>r. foldM (region_scan corner C_WHITE True) (board_locs corner) regions_start = Some r \<and>
     numRegions r < maxRegions"
  using region_arrays_fit [OF corner_wf, of C_WHITE True] by auto

section \<open>Reusing a history\<close>

text \<open>
  C15: \<open>BoardHistory::clear\<close> decides about the button with the phase of the game before it, which
  it overwrites only later: a history that was in an encore phase loses the button of the new
  rules, although the new game starts in the main phase.
\<close>

theorem clear_button_stale:
  assumes "clear Z b pla r ePhase h = Some h'"
  shows "hasButton h' \<longleftrightarrow> rules_hasButton r \<and> encorePhase h = 0"
  by (rule clear_hasButton [OF assms])

theorem clear_button_stale_witness:
  "\<exists>h'. clear demo_zobrist ko_shape P_BLACK (Rules_default\<lparr>rules_hasButton := True\<rparr>) 0
      ((demo_hist Rules_default)\<lparr>encorePhase := 1\<rparr>) = Some h' \<and> encorePhase h' = 0 \<and>
      rules_hasButton (hist_rules h') \<and> \<not> hasButton h'"
proof -
  let ?r = "Rules_default\<lparr>rules_hasButton := True\<rparr>" let ?h = "(demo_hist Rules_default)\<lparr>encorePhase := 1\<rparr>"
  have "rules_ok ?r" using Rules_default_ok(1) by (simp add: rules_ok_def)
  then have "\<exists>h'. clear demo_zobrist ko_shape P_BLACK ?r 0 ?h = Some h'"
    by (rule clear_total) simp_all
  then obtain h' where c: "clear demo_zobrist ko_shape P_BLACK ?r 0 ?h = Some h'" ..
  have "encorePhase h' = 0 \<and> rules_hasButton (hist_rules h')" using clear_cases(2) [OF c] by auto
  then show ?thesis using clear_button_stale [OF c] c by auto
qed

end
