(* ===== verification/TextLaws.thy ===== *)
theory TextLaws
  imports GlobalStrings
begin

text \<open>
  Laws of the string functions. A printer and a parser that invert each other are an interface,
  \<open>text_form\<close>; forms whose texts are non-empty words are \<open>word_form\<close>, and lists of them can be
  written with separators and read back by splitting. Booleans, integers of every width, hash
  values and, in a later theory, points of a board provide it.
\<close>

section \<open>Trimming\<close>

lemma trim_delims_split:
  assumes s: "s = p @ m @ q" and p: "set p \<subseteq> set ds" and q: "set q \<subseteq> set ds"
    and m: "m \<noteq> [] \<Longrightarrow> hd m \<notin> set ds \<and> last m \<notin> set ds"
  shows "trim_delims s ds = m"
proof -
  let ?P = "\<lambda>i. s ! i \<notin> set ds" let ?a = "length p" let ?b = "length p + length m"
  have pre: "filter ?P [0..<?a] = []"
    using p by (auto simp: filter_empty_conv s nth_append dest: nth_mem)
  have post: "filter ?P [?b..<length s] = []"
    by (auto simp: filter_empty_conv s nth_append intro!: subsetD [OF q] nth_mem)
  have "[0..<length s] = [0..<?a] @ [?a..<?b] @ [?b..<length s]"
    using upt_add_eq_append [of 0 ?a "length m"] upt_add_eq_append [of 0 ?b "length q"] by (simp add: s add.assoc)
  then have idxs: "filter ?P [0..<length s] = filter ?P [?a..<?b]"
    using pre post by simp
  show ?thesis
  proof (cases "m = []")
    case True
    then show ?thesis by (simp add: trim_delims_def idxs Let_def)
  next
    case False
    then have "s ! ?a = hd m" "s ! (?b - 1) = last m"
      by (cases m rule: rev_cases; simp add: s nth_append hd_conv_nth)+
    then have ends: "?P ?a" "?P (?b - 1)" using m [OF False] by simp_all
    have "[?a..<?b] = ?a # [Suc ?a..<?b]" using False by (simp add: upt_conv_Cons)
    then have h: "filter ?P [?a..<?b] = ?a # filter ?P [Suc ?a..<?b]" using ends(1) by simp
    have "[?a..<?b] = [?a..<?b - 1] @ [?b - 1]" using False by (cases m) simp_all
    then have "filter ?P [?a..<?b] = filter ?P [?a..<?b - 1] @ [?b - 1]" using ends(2) by simp
    then have "last (filter ?P [?a..<?b]) = ?b - 1" by simp
    moreover have "hd (filter ?P [?a..<?b]) = ?a" "filter ?P [?a..<?b] \<noteq> []" using h by simp_all
    moreover have "?b - 1 - ?a + 1 = length m" using False by (cases m) simp_all
    ultimately show ?thesis unfolding trim_delims_def Let_def idxs by (simp add: s)
  qed
qed

lemma trim_delims_parts:
  obtains p q where "s = p @ trim_delims s ds @ q" "set p \<subseteq> set ds" "set q \<subseteq> set ds"
    "trim_delims s ds \<noteq> [] \<Longrightarrow> hd (trim_delims s ds) \<notin> set ds \<and> last (trim_delims s ds) \<notin> set ds"
proof -
  let ?in = "\<lambda>c. c \<in> set ds"
  define r where "r = dropWhile ?in s"
  define q where "q = rev (takeWhile ?in (rev r))"
  define m where "m = rev (dropWhile ?in (rev r))"
  have r: "r = m @ q" unfolding m_def q_def by (metis rev_append rev_rev_ident takeWhile_dropWhile_id)
  have s: "s = takeWhile ?in s @ m @ q" using r unfolding r_def by (metis takeWhile_dropWhile_id)
  have p: "set (takeWhile ?in s) \<subseteq> set ds" and q: "set q \<subseteq> set ds"
    by (auto simp: q_def dest: set_takeWhileD)
  have ends: "hd m \<notin> set ds \<and> last m \<notin> set ds" if "m \<noteq> []"
  proof
    have "hd r = hd m" "r \<noteq> []" using that r by simp_all
    then show "hd m \<notin> set ds" unfolding r_def by (metis hd_dropWhile)
    have "dropWhile ?in (rev r) \<noteq> []" using that by (simp add: m_def)
    then show "last m \<notin> set ds" unfolding m_def last_rev using hd_dropWhile by blast
  qed
  have "trim_delims s ds = m" by (rule trim_delims_split [OF s p q ends])
  then show thesis using that [OF _ p q] s ends by simp
qed

lemma trim_word: "(s \<noteq> [] \<Longrightarrow> hd s \<notin> set whitespace_chars \<and> last s \<notin> set whitespace_chars) \<Longrightarrow> trim s = s"
  unfolding trim_def using trim_delims_split [of s "[]" s "[]"] by simp

lemma trim_parts:
  obtains p q where "s = p @ trim s @ q" "set p \<subseteq> set whitespace_chars" "set q \<subseteq> set whitespace_chars"
  unfolding trim_def using trim_delims_parts [of s whitespace_chars] by metis

lemma trim_ends: "trim s \<noteq> [] \<Longrightarrow> hd (trim s) \<notin> set whitespace_chars \<and> last (trim s) \<notin> set whitespace_chars"
  unfolding trim_def using trim_delims_parts [of s whitespace_chars] by metis

lemma trim_trim [simp]: "trim (trim s) = trim s"
  by (rule trim_word) (rule trim_ends)

lemma trim_no_white: "set s \<inter> set whitespace_chars = {} \<Longrightarrow> trim s = s"
  by (rule trim_word) (auto dest: hd_in_set last_in_set)

section \<open>Splitting and joining\<close>

lemma split_on_word:
  "d \<notin> set w \<Longrightarrow> split_on d acc (w @ d # cs) = (rev acc @ w) # split_on d [] cs"
  "d \<notin> set w \<Longrightarrow> split_on d acc w = (if acc = [] \<and> w = [] then [] else [rev acc @ w])"
  by (induction w arbitrary: acc) auto

text \<open>Pieces without the separator, each followed by it but perhaps the last, come back.\<close>

lemma split_terminated:
  "list_all (\<lambda>w. d \<notin> set w) ws \<Longrightarrow> split (concat (map (\<lambda>w. w @ [d]) ws)) d = ws"
  by (induction ws) (simp_all add: split_def split_on_word)

fun join :: "char \<Rightarrow> string list \<Rightarrow> string" where
  "join d [] = []"
| "join d [w] = w"
| "join d (w # ws) = w @ d # join d ws"

lemma split_join:
  "list_all (\<lambda>w. d \<notin> set w) ws \<Longrightarrow> ws \<noteq> [] \<Longrightarrow> last ws \<noteq> [] \<Longrightarrow> split (join d ws) d = ws"
  by (induction d ws rule: join.induct) (auto simp: split_def split_on_word)

lemma concat_range_join:
  "n \<le> length ws \<Longrightarrow> concat_range ws [d] 0 n = join d (take n ws)"
proof (induction n)
  case 0
  then show ?case by (simp add: concat_range_def)
next
  case (Suc n)
  have "take (Suc n) ws = take n ws @ [ws ! n]" using Suc.prems by (simp add: take_Suc_conv_app_nth)
  moreover have snoc: "join d (xs @ [w]) = (if xs = [] then w else join d xs @ d # w)" for xs w
    by (induction d xs rule: join.induct) auto
  have "concat_range ws [d] 0 (Suc n) = (if n > 0 then concat_range ws [d] 0 n @ [d] else concat_range ws [d] 0 n) @ ws ! n"
    by (simp add: concat_range_def)
  ultimately show ?case
    using Suc by (cases "n = 0") (auto simp: snoc concat_range_def)
qed

lemma concat_strings_join: "concat_strings ws [d] = join d ws"
  by (simp add: concat_strings_def concat_range_join)

section \<open>The contract of a text form\<close>

locale text_form =
  fixes valid :: "'a \<Rightarrow> bool"
    and print :: "'a \<Rightarrow> string"
    and parse :: "string \<Rightarrow> 'a option"
  assumes parse_print: "valid x \<Longrightarrow> parse (print x) = Some x"
begin

lemma print_inj: "valid x \<Longrightarrow> valid y \<Longrightarrow> print x = print y \<longleftrightarrow> x = y"
  using parse_print by (metis option.inject)

end

text \<open>Texts that are words: not empty, and without blanks and separators.\<close>

locale word_form = text_form +
  fixes separator :: "char \<Rightarrow> bool"
  assumes print_nonempty: "valid x \<Longrightarrow> print x \<noteq> []"
    and print_clean: "valid x \<Longrightarrow> c \<in> set (print x) \<Longrightarrow> \<not> separator c"
    and separator_white: "c \<in> set whitespace_chars \<Longrightarrow> separator c"
begin

lemma trim_print: "valid x \<Longrightarrow> trim (print x) = print x"
  using print_clean separator_white by (intro trim_no_white) blast

lemma split_prints:
  assumes "separator d" and "list_all valid xs" and "xs \<noteq> []"
  shows "split (join d (map print xs)) d = map print xs"
proof (rule split_join)
  show "list_all (\<lambda>w. d \<notin> set w) (map print xs)" using assms print_clean by (auto simp: list_all_iff)
  show "last (map print xs) \<noteq> []" using assms print_nonempty by (simp add: last_map list_all_iff)
qed (simp add: assms(3))

lemma parse_prints: "list_all valid xs \<Longrightarrow> map (\<lambda>w. parse (trim w)) (map print xs) = map Some xs"
  by (induction xs) (auto simp: trim_print parse_print)

end

end
