(* ===== verification/NumberText.thy ===== *)
theory NumberText
  imports TextLaws
begin

unbundle bit_operations_syntax

text \<open>
  Numbers as text: decimal integers, hexadecimal words and 128-bit hashes are words that their
  parsers read back, and the sizes of memory are read exactly.
\<close>

section \<open>Decimal\<close>

lemma of_char_digit: "d < 10 \<Longrightarrow> (of_char (digit_char d) :: nat) = 48 + d"
  by (simp add: digit_char_def)

lemma digit_char_facts:
  assumes "d < 10"
  shows "isDigit (digit_char d)" "digit_val (digit_char d) = d"
  using of_char_digit [OF assms] assms by (simp_all add: isDigit_def less_eq_char_def digit_val_def)

lemma isDigit_of_char: "isDigit c \<longleftrightarrow> 48 \<le> (of_char c :: nat) \<and> of_char c \<le> (57 :: nat)"
  by (simp add: isDigit_def less_eq_char_def)

lemma nat_to_string_digits: "nat_to_string n \<noteq> [] \<and> list_all isDigit (nat_to_string n)"
proof (induction n rule: nat_to_string.induct)
  case (1 n)
  then show ?case by (cases "n < 10") (simp_all add: nat_to_string.simps [of n] digit_char_facts)
qed

lemma digits_val_snoc: "digits_val (s @ [c]) = digits_val s * 10 + digit_val c"
  by (simp add: digits_val_def)

lemma digits_val_nat_to_string: "digits_val (nat_to_string n) = n"
proof (induction n rule: nat_to_string.induct)
  case (1 n)
  then show ?case
    by (subst nat_to_string.simps) (simp add: digits_val_snoc digit_char_facts, simp add: digits_val_def digit_char_facts)
qed

lemma digits_clean: "list_all isDigit s \<Longrightarrow> c \<in> set s \<Longrightarrow> c \<noteq> CHR ''-'' \<and> c \<noteq> CHR ''+'' \<and> c \<notin> set whitespace_chars"
  by (auto simp: list_all_iff isDigit_of_char whitespace_chars_def)

definition is_word :: "string \<Rightarrow> bool" where
  "is_word s \<longleftrightarrow> s \<noteq> [] \<and> list_all (\<lambda>c. isAlpha c \<or> isDigit c \<or> c = CHR ''-'') s"

lemma intToString_word: "is_word (intToString v)"
  using nat_to_string_digits [of "nat v"] nat_to_string_digits [of "nat (- v)"]
  by (auto simp: intToString_def is_word_def list_all_iff)

lemma read_intToString:
  assumes "lo \<le> v" and "v \<le> hi"
  shows "read_integer lo hi (intToString v) = Some v"
proof (cases "v < 0")
  case True
  then show ?thesis
    using assms nat_to_string_digits [of "nat (- v)"]
    by (simp add: read_integer_def intToString_def digits_val_nat_to_string)
next
  case False
  obtain c cs where c: "nat_to_string (nat v) = c # cs" using nat_to_string_digits by (meson neq_Nil_conv)
  have d: "list_all isDigit (c # cs)" "digits_val (c # cs) = nat v"
    using nat_to_string_digits digits_val_nat_to_string unfolding c [symmetric] by simp_all
  then have "c \<noteq> CHR ''-''" "c \<noteq> CHR ''+''" using digits_clean [of "c # cs" c] by simp_all
  then show ?thesis using False assms d by (simp add: read_integer_def intToString_def c)
qed

text \<open>Characters that separate words: anything but letters, digits and the sign.\<close>

definition breaks :: "char \<Rightarrow> bool" where
  "breaks c \<longleftrightarrow> \<not> (isAlpha c \<or> isDigit c \<or> c = CHR ''-'')"

lemma breaks_white: "c \<in> set whitespace_chars \<Longrightarrow> breaks c"
  by (auto simp: breaks_def whitespace_chars_def isAlpha_def isDigit_def less_eq_char_def)

lemma is_wordD: "is_word s \<Longrightarrow> c \<in> set s \<Longrightarrow> \<not> breaks c" "is_word s \<Longrightarrow> s \<noteq> []"
  by (auto simp: is_word_def breaks_def list_all_iff)

lemma trim_is_word: "is_word s \<Longrightarrow> trim s = s"
  using is_wordD breaks_white by (intro trim_no_white) blast

lemma tryStringToInt_print: "- (2 ^ 31) \<le> v \<and> v \<le> 2 ^ 31 - 1 \<Longrightarrow> tryStringToInt (intToString v) = Some v"
  by (simp add: tryStringToInt_def trim_is_word [OF intToString_word] read_intToString)

lemma tryStringToInt64_print: "- (2 ^ 63) \<le> v \<and> v \<le> 2 ^ 63 - 1 \<Longrightarrow> tryStringToInt64 (intToString v) = Some v"
  by (simp add: tryStringToInt64_def trim_is_word [OF intToString_word] read_intToString)

interpretation int_text: word_form "\<lambda>v. - (2 ^ 31) \<le> v \<and> v \<le> 2 ^ 31 - 1" intToString tryStringToInt breaks
  by unfold_locales (use is_wordD [OF intToString_word] in \<open>auto simp: tryStringToInt_print breaks_white\<close>)

interpretation int64_text: word_form "\<lambda>v. - (2 ^ 63) \<le> v \<and> v \<le> 2 ^ 63 - 1" intToString tryStringToInt64 breaks
  by unfold_locales (use is_wordD [OF intToString_word] in \<open>auto simp: tryStringToInt64_print breaks_white\<close>)

section \<open>Booleans\<close>

lemma boolToString_word: "is_word (boolToString b)"
  by (cases b) (simp_all add: boolToString_def is_word_def isAlpha_def less_eq_char_def)

lemma tryStringToBool_print: "tryStringToBool (boolToString b) = Some b"
  unfolding tryStringToBool_def trim_is_word [OF boolToString_word]
  by (cases b) (simp_all add: boolToString_def toLower_def tolower_def less_eq_char_def)

interpretation bool_text: word_form "\<lambda>_. True" boolToString tryStringToBool breaks
  by unfold_locales (use is_wordD [OF boolToString_word] in \<open>auto simp: tryStringToBool_print breaks_white\<close>)

section \<open>Hexadecimal\<close>

lemma fold_fill_back:
  "k \<le> n \<Longrightarrow> fold (\<lambda>i s. s[n - i - 1 := g i]) [0..<k] (replicate n c) =
    map (\<lambda>j. if n - k \<le> j then g (n - 1 - j) else c) [0..<n]"
proof (induction k)
  case 0
  then show ?case by (simp add: map_replicate_trivial [symmetric])
next
  case (Suc k)
  then show ?case by (auto intro!: nth_equalityI simp: nth_list_update)
qed

definition hex_char :: "nat \<Rightarrow> char" where
  "hex_char d = hex_digits ! d"

lemma hex_char_facts: "d < 16 \<Longrightarrow> is_hex (hex_char d) \<and> hex_val (hex_char d) = d \<and> \<not> breaks (hex_char d)"
proof -
  have "\<forall>d\<in>set [0..<16]. is_hex (hex_char d) \<and> hex_val (hex_char d) = d \<and> \<not> breaks (hex_char d)"
    by code_simp
  then show "d < 16 \<Longrightarrow> is_hex (hex_char d) \<and> hex_val (hex_char d) = d \<and> \<not> breaks (hex_char d)" by simp
qed

text \<open>The text of \<open>n\<close> digits, for both word sizes, and its value\<close>

definition hex_text :: "nat \<Rightarrow> nat \<Rightarrow> string" where
  "hex_text n v = map (\<lambda>j. hex_char (v div 16 ^ (n - 1 - j) mod 16)) [0..<n]"

lemma hex_text_facts: "length (hex_text n v) = n" "list_all is_hex (hex_text n v)" "c \<in> set (hex_text n v) \<Longrightarrow> \<not> breaks c"
  by (auto simp: hex_text_def list_all_iff hex_char_facts)

lemma hex_text_val:
  assumes "v < 16 ^ n"
  shows "fold (\<lambda>c v. v * 16 + hex_val c) (hex_text n v) 0 = v"
proof -
  have "fold (\<lambda>c v. v * 16 + hex_val c) (map (\<lambda>j. hex_char (v div 16 ^ (n - 1 - j) mod 16)) [0..<k]) 0 = v div 16 ^ (n - k)"
    if "k \<le> n" for k
    using that
  proof (induction k)
    case 0
    then show ?case using assms by simp
  next
    case (Suc k)
    then have "n - k = Suc (n - Suc k)" by simp
    then have "v div 16 ^ (n - k) = v div 16 ^ (n - Suc k) div 16" by (simp only: power_Suc2 div_mult2_eq)
    then show ?case using Suc by (simp add: hex_char_facts Suc_diff_Suc)
  qed
  from this [of n] show ?thesis by (simp add: hex_text_def)
qed

lemma hex_nibble: "unat (drop_bit (i * 4) (x :: 'a :: len word) AND 0x0f) = unat x div 16 ^ i mod 16" if "4 \<le> LENGTH('a)"
proof -
  have "(0x0f :: 'a word) = mask 4" by (simp add: mask_eq_exp_minus_1)
  then have "unat (drop_bit (i * 4) x AND 0x0f) = unat (take_bit 4 (drop_bit (i * 4) x))"
    by (simp add: take_bit_eq_mask)
  also have "\<dots> = take_bit 4 (drop_bit (i * 4) (unat x))"
    by (simp only: unsigned_take_bit_eq unat_drop_bit_eq)
  finally show ?thesis by (simp add: take_bit_eq_mod drop_bit_eq_div power_mult mult.commute [of i])
qed

lemma uint64ToHexString_text: "uint64ToHexString x = hex_text 16 (unat x)"
  unfolding uint64ToHexString_def fold_fill_back [OF order_refl, of 16] hex_text_def hex_char_def
  by (simp add: hex_nibble)

lemma uint32ToHexString_text: "uint32ToHexString x = hex_text 8 (unat x)"
  unfolding uint32ToHexString_def fold_fill_back [OF order_refl, of 8] hex_text_def hex_char_def
  by (simp add: hex_nibble)

lemma tryHexStringToUInt64_print: "tryHexStringToUInt64 (uint64ToHexString x) = Some x"
proof -
  have x: "unat x < 2 ^ 64" using unsigned_less [of x] by simp
  then have "unat x < 16 ^ 16" by simp
  note v = hex_text_val [OF this]
  have "hex_text 16 (unat x) \<noteq> []" using hex_text_facts(1) [of 16 "unat x"] by (metis length_0_conv zero_neq_numeral)
  then show ?thesis
    using v hex_text_facts(2) [of 16 "unat x"] x
    by (simp add: tryHexStringToUInt64_def uint64ToHexString_text Let_def)
qed

lemma uint64ToHexString_word:
  "uint64ToHexString x \<noteq> []" "c \<in> set (uint64ToHexString x) \<Longrightarrow> \<not> breaks c"
  using hex_text_facts(1) [of 16 "unat x"] hex_text_facts(3) [of c 16 "unat x"]
  by (auto simp: uint64ToHexString_text simp flip: length_greater_0_conv)

interpretation hex_form: word_form "\<lambda>_. True" uint64ToHexString tryHexStringToUInt64 breaks
  by unfold_locales (use uint64ToHexString_word in \<open>auto simp: tryHexStringToUInt64_print breaks_white\<close>)

lemma Hash128_ofString_print: "Hash128_ofString (Hash128_toString h) = Inr h"
proof -
  have l: "length (uint64ToHexString x) = 16" and a: "list_all is_hex (uint64ToHexString x)" for x
    using hex_text_facts by (simp_all add: uint64ToHexString_text)
  show ?thesis
    by (cases h) (simp add: Hash128_ofString_def Hash128_toString_def l a hexStringToUInt64_def hex_form.parse_print)
qed

section \<open>Strings of digits\<close>

lemma digits_loop_eq:
  "digits_loop s v = (if list_all isDigit s then Some (fold (\<lambda>c v. v * 10 + int (digit_val c)) s v) else None)"
  by (induction s arbitrary: v) auto

lemma fold_digits_int: "fold (\<lambda>c v. v * 10 + int (digit_val c)) s (int n) = int (fold (\<lambda>c v. v * 10 + digit_val c) s n)"
proof (induction s arbitrary: n)
  case (Cons c s)
  from Cons [of "n * 10 + digit_val c"] show ?case by simp
qed simp

lemma digits_loop_val: "digits_loop s 0 = (if list_all isDigit s then Some (int (digits_val s)) else None)"
  using fold_digits_int [of s 0] by (simp add: digits_loop_eq digits_val_def)

lemma digit_val_less: "isDigit c \<Longrightarrow> digit_val c < 10"
  by (auto simp: isDigit_of_char digit_val_def)

lemma digits_val_less: "list_all isDigit s \<Longrightarrow> digits_val s < 10 ^ length s"
proof (induction s rule: rev_induct)
  case (snoc c s)
  then have "digits_val s < 10 ^ length s" "digit_val c < 10" by (simp_all add: digit_val_less)
  then show ?case by (simp add: digits_val_snoc)
qed (simp add: digits_val_def)

text \<open>At most nine digits never overflow the 31 bits the loops test for.\<close>

lemma digits_val_31:
  assumes "list_all isDigit s" and "length s \<le> 9"
  shows "digits_val s < 2 ^ 31"
proof -
  have "digits_val s < 10 ^ length s" by (rule digits_val_less [OF assms(1)])
  also have "\<dots> \<le> 10 ^ 9" using assms(2) by (intro power_increasing) simp_all
  finally show ?thesis by simp
qed

lemma take_bit_small: "n < 2 ^ 31 \<Longrightarrow> take_bit 31 (int n) = int n"
  by (simp add: take_bit_int_eq_self_iff)

lemma isDigits_iff: "isDigits s \<longleftrightarrow> s \<noteq> [] \<and> length s \<le> 9 \<and> list_all isDigit s"
  using digits_val_31 [of s]
  by (auto simp: isDigits_def isDigits_range_def digits_loop_val take_bit_small split: option.splits if_splits)

lemma parseDigits_eq:
  assumes "s \<noteq> []" and "length s \<le> 9"
  shows "parseDigits s = Inr (if list_all isDigit s then int (digits_val s) else 0)"
  using assms digits_val_31 [of s]
  by (simp add: parseDigits_def parseDigits_range_def digits_loop_val take_bit_small)

section \<open>Sizes of memory\<close>

lemma shift_mem_eq:
  "shift_mem str n mem =
    (if unat mem * 2 ^ n < 2 ^ 64 then Inr (word_of_nat (unat mem * 2 ^ n))
     else Inl (IOError (''Global::readMem: Could not parse amount of memory (too large): '' @ str)))"
proof (induction n arbitrary: mem)
  case 0
  show ?case using unsigned_less [of mem] by simp
next
  case (Suc n)
  have u: "unat (push_bit 1 mem) = unat mem * 2 mod 2 ^ 64"
    by (simp add: push_bit_eq_mult unat_word_ariths)
  have m: "unat mem < 2 ^ 64" using unsigned_less [of mem] by simp
  show ?case
  proof (cases "unat mem * 2 < 2 ^ 64")
    case True
    then have v: "unat (push_bit 1 mem) = unat mem * 2" using u by simp
    then have "\<not> push_bit 1 mem < mem" by (simp add: word_less_nat_alt)
    then show ?thesis using Suc [of "push_bit 1 mem"] v by (simp add: Let_def mult.assoc)
  next
    case False
    then have "unat mem * 2 mod 2 ^ 64 = unat mem * 2 - 2 ^ 64" using m by (simp add: mod_if)
    then have "push_bit 1 mem < mem" using u m False by (simp add: word_less_nat_alt)
    moreover have "\<not> unat mem * 2 ^ Suc n < 2 ^ 64"
    proof -
      have "unat mem * 2 * 1 \<le> unat mem * 2 * 2 ^ n" by (intro mult_left_mono) simp_all
      then have "\<not> unat mem * 2 * 2 ^ n < 2 ^ 64" using False by linarith
      then show ?thesis by (simp add: mult.assoc)
    qed
    ultimately show ?thesis by (simp add: Let_def)
  qed
qed

lemma find_upt_shift: "find P [k..<k + n] = map_option ((+) k) (find (\<lambda>i. P (k + i)) [0..<n])"
proof -
  have "[k..<k + n] = map ((+) k) [0..<n]" by (induction n) auto
  moreover have "find P (map f xs) = map_option f (find (P \<circ> f) xs)" for f :: "nat \<Rightarrow> nat" and xs
    by (induction xs) auto
  ultimately show ?thesis by (simp add: comp_def)
qed

lemma find_first_of_append:
  assumes "set p \<inter> set cs = {}"
  shows "find_first_of (p @ s) cs = map_option ((+) (length p)) (find_first_of s cs)"
proof -
  let ?P = "\<lambda>i. (p @ s) ! i \<in> set cs"
  have fa: "find Q (xs @ ys) = (case find Q xs of None \<Rightarrow> find Q ys | Some x \<Rightarrow> Some x)" for Q :: "nat \<Rightarrow> bool" and xs ys
    by (induction xs) auto
  have "find ?P [0..<length p] = None"
    using assms by (auto simp: find_None_iff nth_append dest: nth_mem)
  then have "find ?P ([0..<length p] @ xs) = find ?P xs" for xs
    unfolding fa [of ?P "[0..<length p]" xs] by simp
  moreover have u: "[0..<length (p @ s)] = [0..<length p] @ [length p..<length p + length s]"
    using upt_add_eq_append [of 0 "length p" "length s"] by simp
  ultimately have "find ?P [0..<length (p @ s)] = find ?P [length p..<length p + length s]"
    unfolding u by blast
  also have "\<dots> = map_option ((+) (length p)) (find (\<lambda>i. ?P (length p + i)) [0..<length s])"
    by (rule find_upt_shift)
  finally show ?thesis by (simp add: find_first_of_def nth_append)
qed

lemma find_first_of_simps:
  "find_first_of [] cs = None"
  "find_first_of (c # s) cs = (if c \<in> set cs then Some 0 else map_option Suc (find_first_of s cs))"
proof -
  have "[0..<length (c # s)] = 0 # map Suc [0..<length s]" by (simp add: map_Suc_upt upt_conv_Cons del: upt_Suc)
  moreover have "(+) (Suc 0) = Suc" by auto
  ultimately show "find_first_of (c # s) cs = (if c \<in> set cs then Some 0 else map_option Suc (find_first_of s cs))"
    using find_first_of_append [of "[c]" cs s] by (simp add: find_first_of_def del: upt_Suc)
qed (simp add: find_first_of_def)

definition mem_units :: "(string \<times> nat) list" where
  "mem_units = [(''K'', 10), (''KB'', 10), (''M'', 20), (''MB'', 20), (''G'', 30), (''GB'', 30),
     (''T'', 40), (''TB'', 40), (''P'', 50), (''PB'', 50), (''B'', 0), ('''', 0)]"

lemma mem_suffix_unit:
  assumes "(u, k) \<in> set mem_units" and "list_all isDigit ds" and "2 \<le> length (ds @ u)" and "ds \<noteq> []"
  shows "mem_suffix (ds @ u) = (ds, k)"
proof -
  have c: "c \<in> set ds \<Longrightarrow> (of_char c :: nat) < 60" for c
    using assms(2) by (auto simp: list_all_iff isDigit_of_char)
  have "find_first_of (ds @ u) cs = map_option ((+) (length ds)) (find_first_of u cs)"
    if "list_all (\<lambda>c. 60 \<le> (of_char c :: nat)) cs" for cs
    using that c by (intro find_first_of_append) (fastforce simp: list_all_iff)
  then have f: "find_first_of (ds @ u) ''K'' = map_option ((+) (length ds)) (find_first_of u ''K'')"
    "find_first_of (ds @ u) ''KB'' = map_option ((+) (length ds)) (find_first_of u ''KB'')"
    "find_first_of (ds @ u) ''M'' = map_option ((+) (length ds)) (find_first_of u ''M'')"
    "find_first_of (ds @ u) ''MB'' = map_option ((+) (length ds)) (find_first_of u ''MB'')"
    "find_first_of (ds @ u) ''G'' = map_option ((+) (length ds)) (find_first_of u ''G'')"
    "find_first_of (ds @ u) ''GB'' = map_option ((+) (length ds)) (find_first_of u ''GB'')"
    "find_first_of (ds @ u) ''T'' = map_option ((+) (length ds)) (find_first_of u ''T'')"
    "find_first_of (ds @ u) ''TB'' = map_option ((+) (length ds)) (find_first_of u ''TB'')"
    "find_first_of (ds @ u) ''P'' = map_option ((+) (length ds)) (find_first_of u ''P'')"
    "find_first_of (ds @ u) ''PB'' = map_option ((+) (length ds)) (find_first_of u ''PB'')"
    "find_first_of (ds @ u) ''B'' = map_option ((+) (length ds)) (find_first_of u ''B'')"
    by simp_all
  obtain n where l: "length ds = Suc n" using assms(4) by (cases ds) simp_all
  show ?thesis
    using assms(1,3) l unfolding mem_units_def mem_suffix_def Let_def f
    by (simp only: list.set insert_iff empty_iff prod.inject)
       (elim disjE conjE; simp add: find_first_of_simps)
qed

lemma nat_to_string_length: "0 < k \<Longrightarrow> n < 10 ^ k \<Longrightarrow> length (nat_to_string n) \<le> k"
proof (induction n arbitrary: k rule: nat_to_string.induct)
  case (1 n)
  show ?case
  proof (cases "n < 10")
    case True
    then show ?thesis using "1.prems"(1) by (simp add: nat_to_string.simps [of n])
  next
    case False
    then have "k \<noteq> 1" using "1.prems"(2) by auto
    then obtain j where j: "k = Suc j" "0 < j" using "1.prems"(1) by (cases k) auto
    then have "n div 10 < 10 ^ j" using "1.prems"(2) by (simp add: less_mult_imp_div_less mult.commute)
    then show ?thesis using "1.IH" [OF False j(2)] False j(1) by (simp add: nat_to_string.simps [of n])
  qed
qed

lemma nat_to_string_long: "10 \<le> n \<Longrightarrow> 2 \<le> length (nat_to_string n)"
  using nat_to_string_digits [of "n div 10"] by (simp add: nat_to_string.simps [of n] Suc_le_eq)

lemma readMem_unit:
  assumes "(u, k) \<in> set mem_units" and "n < 10 ^ 9" and "u = [] \<Longrightarrow> 10 \<le> n"
  shows "readMem (nat_to_string n @ u) =
    (if n * 2 ^ k < 2 ^ 64 then Inr (word_of_nat (n * 2 ^ k))
     else Inl (IOError (''Global::readMem: Could not parse amount of memory (too large): '' @ nat_to_string n @ u)))"
proof -
  let ?d = "nat_to_string n"
  note d = nat_to_string_digits [of n]
  have l9: "length ?d \<le> 9" using nat_to_string_length [of 9 n] assms(2) by simp
  have "2 \<le> length (?d @ u)"
    using d nat_to_string_long [of n] assms(3) by (cases u) (auto simp: Suc_le_eq)
  moreover from this have "mem_suffix (?d @ u) = (?d, k)" using mem_suffix_unit [OF assms(1)] d by blast
  moreover have "isDigits ?d" using d l9 by (simp add: isDigits_iff)
  moreover have "unat (word_of_nat n :: u64) = n" using assms(2) by (simp add: unat_of_nat take_bit_nat_eq_self)
  ultimately show ?thesis
    by (simp add: readMem_def shift_mem_eq digits_val_nat_to_string)
qed

end
