(* ===== verification/LocText.thy ===== *)
theory LocText
  imports BoardIO NumberText BoardInv
begin

text \<open>
  Points as text: what \<open>Location::toString\<close> writes, \<open>Location::tryOfString\<close> reads, on boards of
  every size whose points fit the 16-bit type \<open>Loc\<close>.
\<close>

section \<open>Coordinates\<close>

definition fits :: "int \<Rightarrow> int \<Rightarrow> bool" where
  "fits xs ys \<longleftrightarrow> (xs + 1) * (ys + 1) < 2 ^ 15"

lemma scaled_le: "0 \<le> k \<Longrightarrow> 1 \<le> c \<Longrightarrow> k \<le> c * (k :: int)"
  using mult_right_mono [of 1 c k] by simp

lemma on_board_coords:
  assumes "on_board xs ys l" and "fits xs ys"
  obtains x y where "0 \<le> x" "x < xs" "0 \<le> y" "y < ys" "getX l xs = x" "getY l xs = y" "getLoc x y xs = l"
    "xs + 2 \<le> l" "ys < 2 ^ 15"
proof -
  from assms(1) obtain x y where xy: "0 \<le> x" "x < xs" "0 \<le> y" "y < ys" and l: "l = (x + 1) + (y + 1) * (xs + 1)"
    by (auto simp: on_board_def)
  have "(y + 1) * (xs + 1) \<le> ys * (xs + 1)" using xy by (intro mult_right_mono) auto
  then have "l \<le> (xs + 1) * (ys + 1)" using xy l by (simp add: algebra_simps)
  moreover have "xs + 2 \<le> l" using scaled_le [of "xs + 1" "y + 1"] l xy by linarith
  ultimately have r: "xs + 2 \<le> l" "l < 2 ^ 15" using assms(2) unfolding fits_def by linarith+
  have y15: "ys < 2 ^ 15" using scaled_le [of "ys + 1" "xs + 1"] assms(2) xy unfolding fits_def by linarith
  have p: "0 < xs + 1" "0 < l" using xy r by simp_all
  have d: "l div (xs + 1) = y + 1" "l mod (xs + 1) = x + 1"
    using xy unfolding l by (simp_all add: div_pos_pos_trivial mod_pos_pos_trivial)
  have "getX l xs = x" "getY l xs = y"
    using p xy d by (simp_all add: getX_def getY_def smod_int_alt_def signed_divide_int_def)
  moreover have "getLoc x y xs = l"
    unfolding getLoc_def l [symmetric] using r xy by (intro to_loc_id) auto
  ultimately show thesis using that xy r y15 by blast
qed

section \<open>Words\<close>

lemma isEqualCaseInsensitive_map: "isEqualCaseInsensitive s t \<longleftrightarrow> map tolower s = map tolower t"
  unfolding isEqualCaseInsensitive_def by (induction s t rule: list_induct2') auto

text \<open>A text that starts with a parenthesis or ends with a digit is not a pass.\<close>

lemma not_pass:
  assumes "s \<noteq> []" and "hd s = CHR ''('' \<or> isDigit (last s)"
  shows "\<not> isEqualCaseInsensitive s ''pass'' \<and> \<not> isEqualCaseInsensitive s ''pss''"
proof -
  have t: "tolower (last s) = last s" if "isDigit (last s)"
    using that by (simp add: isDigit_def tolower_def less_eq_char_def)
  have "tolower (hd s) = hd t \<and> tolower (last s) = last t" if "map tolower s = t" for t
    using that assms(1) by (auto simp: hd_map last_map)
  then show ?thesis
    using assms(2) t unfolding isEqualCaseInsensitive_map
    by (fastforce simp: tolower_def isDigit_def less_eq_char_def)
qed

lemma coordinate_letter:
  assumes "0 \<le> n" and "n < 25"
  shows "tryParseLetterCoordinate (xChar ! nat n) = Some n" "isAlpha (xChar ! nat n)"
proof -
  have "\<forall>n\<in>set [0..<25]. tryParseLetterCoordinate (xChar ! n) = Some (int n) \<and> isAlpha (xChar ! n)"
    by code_simp
  moreover have "nat n \<in> set [0..<25]" using assms by simp
  ultimately have "tryParseLetterCoordinate (xChar ! nat n) = Some (int (nat n)) \<and> isAlpha (xChar ! nat n)"
    by blast
  then show "tryParseLetterCoordinate (xChar ! nat n) = Some n" "isAlpha (xChar ! nat n)"
    using assms(1) by simp_all
qed

lemma intToString_ends:
  assumes "0 \<le> n"
  shows "intToString n \<noteq> []" "isDigit (hd (intToString n))" "isDigit (last (intToString n))" "list_all isDigit (intToString n)"
  using assms nat_to_string_digits [of "nat n"] by (auto simp: intToString_def list_all_iff)

lemma isAlpha_facts: "isAlpha c \<Longrightarrow> c \<notin> set whitespace_chars \<and> c \<noteq> CHR ''(''"
  by (auto simp: whitespace_chars_def isAlpha_def less_eq_char_def)

lemma isDigit_facts: "isDigit c \<Longrightarrow> \<not> isAlpha c \<and> c \<notin> set whitespace_chars \<and> c \<noteq> CHR '','' "
  by (auto simp: whitespace_chars_def isDigit_def isAlpha_def less_eq_char_def)

section \<open>Points\<close>

lemma tryOfString_letters:
  assumes "0 \<le> x" "x < xs" "0 \<le> y" "y < ys" "ys < 2 ^ 15" and "xs \<le> 625"
  shows "tryOfString ((if x \<le> 24 then [xChar ! nat x] else [xChar ! nat (x div 25 - 1), xChar ! nat (x mod 25)])
      @ intToString (ys - y)) xs ys = Some (getLoc x y xs)" (is "tryOfString ?s xs ys = _")
proof -
  note e = intToString_ends [of "ys - y"]
  have q: "0 \<le> x div 25 - 1 \<and> x div 25 - 1 < 25" if "24 < x" using that assms by auto
  have a: "isAlpha (hd ?s)" using coordinate_letter(2) [of x] coordinate_letter(2) [OF conjunct1 conjunct2, OF q q] assms by auto
  have d: "isDigit (last ?s)" using e assms by auto
  have "trim ?s = ?s" using a d isAlpha_facts isDigit_facts by (intro trim_word) auto
  moreover have "2 \<le> length ?s" using e(1) assms by (cases "intToString (ys - y)") auto
  moreover have "\<not> isEqualCaseInsensitive ?s ''pass'' \<and> \<not> isEqualCaseInsensitive ?s ''pss''"
    using d by (intro not_pass) auto
  moreover have "?s ! 0 \<noteq> CHR ''(''" using a isAlpha_facts by (auto simp: hd_conv_nth)
  ultimately have "tryOfString ?s xs ys = tryOfString_letter ?s xs ys"
    by (simp add: tryOfString_def Let_def)
  also have "\<dots> = Some (getLoc x y xs)"
  proof -
    have t: "tryStringToInt (intToString (ys - y)) = Some (ys - y)"
      using assms by (intro tryStringToInt_print) auto
    have h: "\<not> isAlpha (intToString (ys - y) ! 0)"
      using e assms isDigit_facts by (simp add: hd_conv_nth)
    show ?thesis
    proof (cases "x \<le> 24")
      case True
      then show ?thesis
        using t h coordinate_letter [of x] assms by (simp add: tryOfString_letter_def)
    next
      case False
      then have x: "(x div 25 - 1 + 1) * 25 + x mod 25 = x" by simp
      show ?thesis
        using False t q coordinate_letter [of "x div 25 - 1"] coordinate_letter [of "x mod 25"] assms x
        by (simp add: tryOfString_letter_def)
    qed
  qed
  finally show ?thesis .
qed

lemma tryOfString_mach:
  assumes "- (2 ^ 31) \<le> x" "x \<le> 2 ^ 31 - 1" "- (2 ^ 31) \<le> y" "y \<le> 2 ^ 31 - 1"
  shows "tryOfString (''('' @ intToString x @ '','' @ intToString y @ '')'') xs ys = Some (getLoc x y xs)"
    (is "tryOfString ?s xs ys = _")
proof -
  have l: "last ?s = CHR '')''" by simp
  have "trim ?s = ?s" using l by (intro trim_word) (auto simp: whitespace_chars_def)
  moreover have "\<not> isEqualCaseInsensitive ?s ''pass'' \<and> \<not> isEqualCaseInsensitive ?s ''pss''"
    by (intro not_pass) auto
  ultimately have "tryOfString ?s xs ys = tryOfString_pair ?s xs" by (simp add: tryOfString_def Let_def)
  moreover have "split (intToString x @ '','' @ intToString y) (CHR '','') = [intToString x, intToString y]"
    using int_text.split_prints [of "CHR '',''" "[x, y]"] assms
    by (simp add: breaks_def isAlpha_def isDigit_def less_eq_char_def)
  moreover have "take (length ?s - 2) (drop 1 ?s) = intToString x @ '','' @ intToString y" by simp
  ultimately show ?thesis
    using l assms by (simp add: tryOfString_pair_def Let_def tryStringToInt_print)
qed

lemma Location_roundtrip:
  assumes "on_board xs ys l" and "fits xs ys"
  shows "tryOfString (Location_toString l xs ys) xs ys = Some l"
proof -
  obtain x y where xy: "0 \<le> x" "x < xs" "0 \<le> y" "y < ys" and g: "getX l xs = x" "getY l xs = y" "getLoc x y xs = l"
    and r: "xs + 2 \<le> l" "ys < 2 ^ 15"
    using on_board_coords [OF assms] by blast
  have n: "l \<noteq> PASS_LOC" "l \<noteq> NULL_LOC" using xy r by (auto simp: PASS_LOC_def NULL_LOC_def)
  have "x < 2 ^ 15"
    using scaled_le [of "xs + 1" "ys + 1"] assms(2) xy unfolding fits_def mult.commute [of "xs + 1"] by linarith
  then have m: "tryOfString (Location_toStringMach l xs) xs ys = Some l"
    using tryOfString_mach [of x y xs ys] xy r n g by (simp add: Location_toStringMach_def)
  show ?thesis
    using m tryOfString_letters [OF xy r(2)] xy n g by (auto simp: Location_toString_def Let_def)
qed

lemma tryOfString_pass: "tryOfString ''pass'' xs ys = Some PASS_LOC"
proof -
  have "trim ''pass'' = ''pass''" by (rule trim_word) (simp_all add: whitespace_chars_def)
  then show ?thesis by (simp add: tryOfString_def isEqualCaseInsensitive_def)
qed

lemma tryOfString_null: "tryOfString ''null'' xs ys = None"
proof -
  have "trim ''null'' = ''null''" by (rule trim_word) (simp_all add: whitespace_chars_def)
  moreover have "tryStringToInt ''ll'' = None" by code_simp
  moreover have "isAlpha CHR ''u''" by (simp add: isAlpha_def less_eq_char_def)
  moreover have "tolower CHR ''u'' \<noteq> tolower CHR ''a''" by code_simp
  ultimately show ?thesis
    by (simp add: tryOfString_def Let_def isEqualCaseInsensitive_def tryOfString_letter_def split: option.split)
qed

lemma allow_null_roundtrip:
  assumes "on_board xs ys l \<and> fits xs ys \<or> l = PASS_LOC \<or> l = NULL_LOC"
  shows "tryOfStringAllowNull (Location_toString l xs ys) xs ys = Some l"
proof (cases "l = PASS_LOC \<or> l = NULL_LOC")
  case True
  then show ?thesis
    by (auto simp: tryOfStringAllowNull_def Location_toString_def Location_toStringMach_def tryOfString_pass
        PASS_LOC_def NULL_LOC_def)
next
  case False
  then have t: "tryOfString (Location_toString l xs ys) xs ys = Some l"
    using assms Location_roundtrip by blast
  then have "Location_toString l xs ys \<noteq> ''null''" using tryOfString_null [of xs ys] by auto
  then show ?thesis using t by (simp add: tryOfStringAllowNull_def)
qed

section \<open>Points as words\<close>

definition plain_loc :: "int \<Rightarrow> int \<Rightarrow> loc \<Rightarrow> bool" where
  "plain_loc xs ys l \<longleftrightarrow> l = PASS_LOC \<or> on_board xs ys l \<and> fits xs ys \<and> xs \<le> 625"

lemma plain_loc_parse: "plain_loc xs ys l \<Longrightarrow> tryOfString (Location_toString l xs ys) xs ys = Some l"
  using Location_roundtrip [of xs ys l] tryOfString_pass [of xs ys]
  by (cases "xs \<le> 625") (auto simp: plain_loc_def Location_toString_def Location_toStringMach_def Let_def)

lemma plain_loc_word:
  assumes "plain_loc xs ys l" and "xs \<le> 625"
  shows "is_word (Location_toString l xs ys)"
proof (cases "l = PASS_LOC")
  case True
  then show ?thesis using assms by (simp add: Location_toString_def is_word_def isAlpha_def less_eq_char_def)
next
  case False
  then have o: "on_board xs ys l" "fits xs ys" using assms by (auto simp: plain_loc_def)
  obtain x y where xy: "0 \<le> x" "x < xs" "0 \<le> y" "y < ys" and g: "getX l xs = x" "getY l xs = y"
    and r: "xs + 2 \<le> l"
    using on_board_coords [OF o] by blast
  have q: "0 \<le> x div 25 - 1 \<and> x div 25 - 1 < 25" if "24 < x" using that xy assms by auto
  have "l \<noteq> NULL_LOC" using r xy by (auto simp: NULL_LOC_def)
  moreover have "is_word (c # s)" if "isAlpha c" "is_word s" for c s using that by (simp add: is_word_def)
  ultimately show ?thesis
    using False xy g assms q coordinate_letter(2) [of x] coordinate_letter(2) [of "x mod 25"]
      coordinate_letter(2) [of "x div 25 - 1"] intToString_word
    by (auto simp: Location_toString_def Let_def)
qed

interpretation loc_text: word_form "\<lambda>l. plain_loc xs ys l \<and> xs \<le> 625" "\<lambda>l. Location_toString l xs ys"
  "\<lambda>s. tryOfString s xs ys" breaks for xs ys
  by unfold_locales (use is_wordD [OF plain_loc_word] in \<open>auto simp: plain_loc_parse breaks_white\<close>)

lemma parseSequence_printed:
  assumes "list_all (plain_loc (x_size b) (y_size b)) ls" and "x_size b \<le> 625"
  shows "parseSequence (join (CHR '' '') (map (\<lambda>l. Location_toString l (x_size b) (y_size b)) ls)) b = Inr ls"
proof -
  let ?p = "\<lambda>l. Location_toString l (x_size b) (y_size b)"
  let ?s = "join (CHR '' '') (map ?p ls)"
  let ?ok = "\<lambda>l. plain_loc (x_size b) (y_size b) l \<and> x_size b \<le> 625"
  have v: "list_all ?ok ls"
    using assms by (simp add: list_all_iff)
  have w: "l \<in> set ls \<Longrightarrow> is_word (?p l)" for l using v plain_loc_word by (auto simp: list_all_iff)
  have ends: "hd (join d ws) \<notin> set whitespace_chars \<and> last (join d ws) \<notin> set whitespace_chars \<and> join d ws \<noteq> []"
    if "ws \<noteq> []" "list_all is_word ws" for d ws
    using that
  proof (induction d ws rule: join.induct)
    case (2 d u)
    then show ?case
      using is_wordD [of u] breaks_white by (auto dest: hd_in_set last_in_set)
  next
    case (3 d u v ws)
    then show ?case
      using is_wordD [of u] breaks_white by (auto dest: hd_in_set)
  qed simp
  have pieces: "split (trim ?s) (CHR '' '') = map ?p ls"
  proof (cases "ls = []")
    case True
    then show ?thesis by (simp add: split_def trim_no_white)
  next
    case False
    then have "trim ?s = ?s" using ends [of "map ?p ls"] w by (intro trim_word) (auto simp: list_all_iff)
    then show ?thesis
      using loc_text.split_prints [OF _ v False] by (simp add: breaks_def isAlpha_def isDigit_def less_eq_char_def)
  qed
  have one: "trim (?p l) = ?p l \<and> ?p l \<noteq> [] \<and> Location_ofString (?p l) (x_size b) (y_size b) = Inr l"
    if "l \<in> set ls" for l
    using that v w trim_is_word is_wordD(2) by (auto simp: list_all_iff Location_ofString_def plain_loc_parse)
  have "foldR (\<lambda>piece locs.
         let piece = trim piece
         in if piece = [] then Inr locs
            else case Location_ofString piece (x_size b) (y_size b) of
              Inl e \<Rightarrow> Inl e | Inr l \<Rightarrow> Inr (locs @ [l])) (map ?p ls) done = Inr (done @ ls)" for "done"
    using one by (induction ls arbitrary: "done") simp_all
  from this [of "[]"] show ?thesis by (simp add: parseSequence_def pieces)
qed

end
