(* ===== verification/RulesText.thy ===== *)
theory RulesText
  imports Rules NumberText
begin

text \<open>
  Rules as text: the legacy rule strings that \<open>Rules::toStringNoKomi\<close> writes are read back by
  the parser, whatever the JSON library does.
\<close>

section \<open>Strings without blanks\<close>

definition clean :: "string \<Rightarrow> bool" where
  "clean s \<longleftrightarrow> list_all (\<lambda>c. c \<notin> set whitespace_chars) s"

lemma clean_simps [simp]:
  "clean []" "clean (c # s) \<longleftrightarrow> c \<notin> set whitespace_chars \<and> clean s" "clean (s @ t) \<longleftrightarrow> clean s \<and> clean t"
  by (simp_all add: clean_def)

lemma trim_clean: "clean s \<Longrightarrow> trim s = s"
  by (rule trim_no_white) (auto simp: clean_def list_all_iff)

section \<open>One option\<close>

text \<open>Taking a prefix off a string without blanks.\<close>

fun strip :: "string \<Rightarrow> string \<Rightarrow> string option" where
  "strip s [] = Some s"
| "strip [] (d # p) = None"
| "strip (c # s) (d # p) = (if c = d then strip s p else None)"

fun pick :: "string \<Rightarrow> (string \<times> 'a) list \<Rightarrow> ('a \<times> string) option" where
  "pick s [] = None"
| "pick s ((p, v) # ps) = (case strip s p of Some t \<Rightarrow> Some (v, t) | None \<Rightarrow> pick s ps)"

lemma strip_append: "strip s p = Some t \<longleftrightarrow> s = p @ t"
  by (induction s p rule: strip.induct) auto

lemma startsWithAndStrip_clean:
  assumes "clean s"
  shows "startsWithAndStrip s p = (case strip s p of Some t \<Rightarrow> (True, t) | None \<Rightarrow> (False, s))"
proof (cases "strip s p")
  case None
  then have "\<nexists>t. s = p @ t" using strip_append [of s p] by auto
  then have "\<not> (length p \<le> length s \<and> take (length p) s = p)" by (metis append_take_drop_id)
  then show ?thesis using None by (auto simp: startsWithAndStrip_def Let_def trim_clean assms)
next
  case (Some t)
  then have "s = p @ t" by (simp add: strip_append)
  then show ?thesis using Some assms by (simp add: startsWithAndStrip_def Let_def trim_clean)
qed

lemma pick_option_clean: "clean s \<Longrightarrow> pick_option s ps = pick s ps"
  by (induction s ps rule: pick.induct) (simp_all add: startsWithAndStrip_clean split: option.split)

section \<open>One option\<close>

lemma step_option:
  assumes "clean (p @ q)" and "strip (p @ q) ''komi'' = None"
    and "pick (p @ q) [(''ko'', 0 :: nat), (''scoring'', 1), (''score'', 2), (''tax'', 3), (''sui'', 4),
                     (''button'', 5), (''whb'', 6), (''fpok'', 7)] = Some (k, q)"
  shows "legacy_step so ak (p @ q, r, ks, t) =
    (case (if k = 0 then
             pick q (map (\<lambda>(p, x). (p, (r\<lparr>koRule := x\<rparr>, t)))
               [(''SIMPLE'', KO_SIMPLE), (''POSITIONAL'', KO_POSITIONAL),
                (''SITUATIONAL'', KO_SITUATIONAL), (''SPIGHT'', KO_SPIGHT)])
           else if k = 1 \<or> k = 2 then
             pick q (map (\<lambda>(p, x). (p, (r\<lparr>scoringRule := x\<rparr>, t)))
               [(''AREA'', SCORING_AREA), (''TERRITORY'', SCORING_TERRITORY)])
           else if k = 3 then
             pick q (map (\<lambda>(p, x). (p, (r\<lparr>taxRule := x\<rparr>, True)))
               [(''NONE'', TAX_NONE), (''SEKI'', TAX_SEKI), (''ALL'', TAX_ALL)])
           else if k = 4 then
             pick q (map (\<lambda>(p, x). (p, (r\<lparr>multiStoneSuicideLegal := x\<rparr>, t))) [(''1'', True), (''0'', False)])
           else if k = 5 then
             pick q (map (\<lambda>(p, x). (p, (r\<lparr>rules_hasButton := x\<rparr>, t))) [(''1'', True), (''0'', False)])
           else if k = 6 then
             pick q (map (\<lambda>(p, x). (p, (r\<lparr>whiteHandicapBonusRule := x\<rparr>, t)))
               [(''0'', WHB_ZERO), (''N-1'', WHB_N_MINUS_ONE), (''N'', WHB_N)])
           else
             pick q (map (\<lambda>(p, x). (p, (r\<lparr>friendlyPassOk := x\<rparr>, t))) [(''1'', True), (''0'', False)]))
     of None \<Rightarrow> Inl (IOError (''Could not parse rules: '' @ so)) | Some ((r, tax), s) \<Rightarrow> Inr (s, r, ks, tax))"
proof -
  have "clean q" using assms(1) by simp
  show ?thesis
    unfolding legacy_step_def legacy_option_def Let_def prod.case startsWithAndStrip_clean [OF assms(1)] assms(2)
      option.case if_False pick_option_clean [OF assms(1)] assms(3) pick_option_clean [OF \<open>clean q\<close>]
    by (rule refl)
qed

lemma step_ko:
  assumes "k \<in> {KO_SIMPLE, KO_POSITIONAL, KO_SITUATIONAL, KO_SPIGHT}" and "clean rest"
  shows "legacy_step so ak (''ko'' @ writeKoRule k @ rest, r, ks, t) = Inr (rest, r\<lparr>koRule := k\<rparr>, ks, t)"
  using assms by (subst step_option [where k = 0]) (auto simp: writeKoRule_def rule_consts whitespace_chars_def)

lemma step_score:
  assumes "k \<in> {SCORING_AREA, SCORING_TERRITORY}" and "clean rest"
  shows "legacy_step so ak (''score'' @ writeScoringRule k @ rest, r, ks, t) = Inr (rest, r\<lparr>scoringRule := k\<rparr>, ks, t)"
  using assms by (subst step_option [where k = 2]) (auto simp: writeScoringRule_def rule_consts whitespace_chars_def)

lemma step_tax:
  assumes "k \<in> {TAX_NONE, TAX_SEKI, TAX_ALL}" and "clean rest"
  shows "legacy_step so ak (''tax'' @ writeTaxRule k @ rest, r, ks, t) = Inr (rest, r\<lparr>taxRule := k\<rparr>, ks, True)"
  using assms by (subst step_option [where k = 3]) (auto simp: writeTaxRule_def rule_consts whitespace_chars_def)

lemma step_flags:
  assumes "clean rest"
  shows "legacy_step so ak (''sui'' @ show_bit v @ rest, r, ks, t) = Inr (rest, r\<lparr>multiStoneSuicideLegal := v\<rparr>, ks, t)"
    "legacy_step so ak (''button'' @ show_bit v @ rest, r, ks, t) = Inr (rest, r\<lparr>rules_hasButton := v\<rparr>, ks, t)"
    "legacy_step so ak (''fpok'' @ show_bit v @ rest, r, ks, t) = Inr (rest, r\<lparr>friendlyPassOk := v\<rparr>, ks, t)"
  using assms
  by ((subst step_option [where k = 4]; auto simp: show_bit_def whitespace_chars_def),
      (subst step_option [where k = 5]; auto simp: show_bit_def whitespace_chars_def),
      (subst step_option [where k = 7]; auto simp: show_bit_def whitespace_chars_def))

lemma step_whb:
  assumes "k \<in> {WHB_ZERO, WHB_N, WHB_N_MINUS_ONE}" and "clean rest" and "rest = [] \<or> hd rest \<noteq> CHR ''-''"
  shows "legacy_step so ak (''whb'' @ writeWhiteHandicapBonusRule k @ rest, r, ks, t) =
    Inr (rest, r\<lparr>whiteHandicapBonusRule := k\<rparr>, ks, t)"
  using assms
  by (cases rest; subst step_option [where k = 6])
     (auto simp: writeWhiteHandicapBonusRule_def rule_consts whitespace_chars_def)

section \<open>The whole string\<close>

lemma legacy_loop_step:
  "s \<noteq> [] \<Longrightarrow> legacy_step so ak (s, x) = Inr st \<Longrightarrow> legacy_loop so ak (s, x) = legacy_loop so ak st"
  by (simp add: legacy_loop.simps [of so ak "(s, x)"])

lemma legacy_loop_done: "legacy_loop so ak ([], x) = Inr ([], x)"
  by (simp add: legacy_loop.simps)

lemma clean_names:
  "clean (writeKoRule k)" "clean (writeScoringRule k)" "clean (writeTaxRule k)"
  "clean (writeWhiteHandicapBonusRule k)" "clean (show_bit v)"
  by (auto simp: writeKoRule_def writeScoringRule_def writeTaxRule_def writeWhiteHandicapBonusRule_def
      show_bit_def whitespace_chars_def)

lemma legacy_loop_printed:
  assumes "rules_ok r"
  shows "legacy_loop so ak (toStringNoKomi r, getTrompTaylorish, False, False) =
    Inr ([], r\<lparr>komi := 15 / 2\<rparr>, False, True)"
proof -
  let ?q = "getTrompTaylorish\<lparr>koRule := koRule r, scoringRule := scoringRule r, taxRule := taxRule r,
     multiStoneSuicideLegal := multiStoneSuicideLegal r\<rparr>"
  let ?f = "if friendlyPassOk r then ''fpok'' @ show_bit True @ [] else []"
  let ?w = "if whiteHandicapBonusRule r \<noteq> WHB_ZERO
      then ''whb'' @ writeWhiteHandicapBonusRule (whiteHandicapBonusRule r) @ ?f else ?f"
  let ?b = "if rules_hasButton r then ''button'' @ show_bit True @ ?w else ?w"
  have c: "clean ?f" "clean ?w" "clean ?b" by (auto simp: clean_names whitespace_chars_def)
  have f: "legacy_loop so ak (?f, p, False, True) = Inr ([], p\<lparr>friendlyPassOk := friendlyPassOk r\<rparr>, False, True)"
    if "\<not> friendlyPassOk p" for p
  proof (cases "friendlyPassOk r")
    case True
    then show ?thesis by (simp only: if_True) (subst legacy_loop_step [OF _ step_flags(3)], simp_all add: legacy_loop_done)
  next
    case False
    then have "p\<lparr>friendlyPassOk := friendlyPassOk r\<rparr> = p" using that by simp
    then show ?thesis using False by (simp add: legacy_loop_done)
  qed
  have w: "legacy_loop so ak (?w, p, False, True) = Inr ([], p\<lparr>whiteHandicapBonusRule := whiteHandicapBonusRule r,
      friendlyPassOk := friendlyPassOk r\<rparr>, False, True)"
    if "\<not> friendlyPassOk p" "whiteHandicapBonusRule p = WHB_ZERO" for p
  proof (cases "whiteHandicapBonusRule r = WHB_ZERO")
    case True
    then have "p\<lparr>whiteHandicapBonusRule := whiteHandicapBonusRule r\<rparr> = p" using that by simp
    then show ?thesis using True f [of p] that by simp
  next
    case False
    have "legacy_step so ak (''whb'' @ writeWhiteHandicapBonusRule (whiteHandicapBonusRule r) @ ?f, p, False, True) =
      Inr (?f, p\<lparr>whiteHandicapBonusRule := whiteHandicapBonusRule r\<rparr>, False, True)"
      using assms c(1) by (intro step_whb) (auto simp: rules_ok_def)
    from legacy_loop_step [OF _ this] show ?thesis using False f that by simp
  qed
  have b: "legacy_loop so ak (?b, p, False, True) = Inr ([], p\<lparr>rules_hasButton := rules_hasButton r,
      whiteHandicapBonusRule := whiteHandicapBonusRule r, friendlyPassOk := friendlyPassOk r\<rparr>, False, True)"
    if "\<not> friendlyPassOk p" "whiteHandicapBonusRule p = WHB_ZERO" "\<not> rules_hasButton p" for p
  proof (cases "rules_hasButton r")
    case True
    from legacy_loop_step [OF _ step_flags(2) [OF c(2), of so ak True p False True]] True
    show ?thesis using w that by simp
  next
    case False
    then have "p\<lparr>rules_hasButton := rules_hasButton r\<rparr> = p" using that by simp
    then show ?thesis using False w [of p] that by simp
  qed
  have s: "toStringNoKomi r = ''ko'' @ writeKoRule (koRule r) @ ''score'' @ writeScoringRule (scoringRule r) @
     ''tax'' @ writeTaxRule (taxRule r) @ ''sui'' @ show_bit (multiStoneSuicideLegal r) @ ?b"
    by (simp add: toStringNoKomi_def)
  have "legacy_loop so ak (toStringNoKomi r, getTrompTaylorish, False, False) = legacy_loop so ak (?b, ?q, False, True)"
    unfolding s
    using assms c(3)
    by (subst legacy_loop_step [OF _ step_ko], (simp_all add: rules_ok_def clean_names whitespace_chars_def)[3])
       (subst legacy_loop_step [OF _ step_score], (simp_all add: rules_ok_def clean_names whitespace_chars_def)[3],
        subst legacy_loop_step [OF _ step_tax], (simp_all add: rules_ok_def clean_names whitespace_chars_def)[3],
        subst legacy_loop_step [OF _ step_flags(1)], (simp_all add: rules_ok_def clean_names whitespace_chars_def)[2],
        simp)
  also have "\<dots> = Inr ([], r\<lparr>komi := 15 / 2\<rparr>, False, True)"
    by (subst b) (simp_all add: getTrompTaylorish_def Rules_default_def)
  finally show ?thesis .
qed

lemma not_named:
  assumes "take 3 n \<in> {''kos'', ''kop''}"
  shows "named_rules n = None"
proof -
  have "n \<noteq> m" if "take 3 m \<noteq> ''kos''" "take 3 m \<noteq> ''kop''" for m using assms that by auto
  then show ?thesis by (simp add: named_rules_def)
qed

lemma tolower_white: "tolower c \<in> set whitespace_chars \<Longrightarrow> c \<in> set whitespace_chars"
proof (cases "CHR ''A'' \<le> c \<and> c \<le> CHR ''Z''")
  case True
  then have "(of_char (tolower c) :: nat) = of_char c + 32" "65 \<le> (of_char c :: nat)"
    by (simp_all add: tolower_def less_eq_char_def)
  moreover have "d \<in> set whitespace_chars \<Longrightarrow> (of_char d :: nat) \<le> 32" for d by (auto simp: whitespace_chars_def)
  ultimately show "tolower c \<in> set whitespace_chars \<Longrightarrow> c \<in> set whitespace_chars" by fastforce
next
  case False
  then have "tolower c = c" unfolding tolower_def by (rule if_not_P)
  then show "tolower c \<in> set whitespace_chars \<Longrightarrow> c \<in> set whitespace_chars" by simp
qed

lemma clean_toLower: "clean s \<Longrightarrow> clean (toLower s)"
  using tolower_white by (auto simp: clean_def toLower_def list_all_iff)

lemma parse_printed:
  assumes "rules_ok r"
  shows "\<exists>k. parseRulesHelper json_parse (toStringNoKomi r) ak = Inr (r\<lparr>komi := k\<rparr>)"
proof -
  have "clean (toStringNoKomi r)" by (auto simp: toStringNoKomi_def clean_names whitespace_chars_def)
  then have t: "trim (toStringNoKomi r) = toStringNoKomi r" "trim (toLower (toStringNoKomi r)) = toLower (toStringNoKomi r)"
    by (simp_all add: trim_clean clean_toLower)
  have n: "named_rules (toLower (toStringNoKomi r)) = None"
  proof (rule not_named)
    have "take 3 (toStringNoKomi r) \<in> {''koS'', ''koP''}"
      using assms by (auto simp: rules_ok_def toStringNoKomi_def writeKoRule_def rule_consts)
    moreover have "take 3 (toLower s) = toLower (take 3 s)" for s by (simp add: toLower_def take_map)
    moreover have "toLower ''koS'' = ''kos''" "toLower ''koP'' = ''kop''"
      by code_simp+
    ultimately show "take 3 (toLower (toStringNoKomi r)) \<in> {''kos'', ''kop''}" by auto
  qed
  obtain k where "fill_defaults True False (r\<lparr>komi := 15 / 2\<rparr>) = r\<lparr>komi := k\<rparr>"
    by (cases "scoringRule r = SCORING_TERRITORY"; cases "rules_hasButton r") (auto simp: fill_defaults_def)
  moreover have "toStringNoKomi r \<noteq> []" "hd (toStringNoKomi r) \<noteq> CHR 0x7B" by (simp_all add: toStringNoKomi_def)
  ultimately show ?thesis
    using legacy_loop_printed [OF assms]
    by (auto simp: parseRulesHelper_def t n parse_legacy_rules_def map_result_def)
qed

end
