(* ===== verification/TextProps.thy ===== *)
theory TextProps
  imports LocText RulesText
begin

text \<open>
  The properties of the text forms: what is printed is read back, sizes of memory are exact or
  refused, and the two parsers that accept what they should refuse.
\<close>

section \<open>Round trips\<close>

text \<open>
  C20: Points survive being written and read. On a board of any size whose points fit the 16-bit
  type, whatever \<open>Location::toString\<close> writes for a point of the board (a letter and a number, two
  letters and a number on wide boards, coordinates in parentheses on very wide ones), for a pass
  or for no point at all, \<open>Location::tryOfStringAllowNull\<close> reads back as the same point.
\<close>

theorem location_text_roundtrip:
  assumes "on_board xs ys l \<and> fits xs ys \<or> l = PASS_LOC \<or> l = NULL_LOC"
  shows "tryOfStringAllowNull (Location_toString l xs ys) xs ys = Some l"
  by (rule allow_null_roundtrip [OF assms])

theorem location_text_roundtrip_witness:
  "tryOfStringAllowNull (Location_toString 21 19 19) 19 19 = Some 21 \<and>
   tryOfStringAllowNull (Location_toString 832 800 3) 800 3 = Some 832 \<and>
   Location_toString 832 800 3 = ''(30,0)''"
proof (intro conjI)
  have "on_board 19 19 21" unfolding on_board_def by (rule exI [of _ 0], rule exI [of _ 0]) simp
  then show "tryOfStringAllowNull (Location_toString 21 19 19) 19 19 = Some 21"
    by (intro location_text_roundtrip) (simp add: fits_def)
  have "on_board 800 3 832" unfolding on_board_def by (rule exI [of _ 30], rule exI [of _ 0]) simp
  then show "tryOfStringAllowNull (Location_toString 832 800 3) 800 3 = Some 832"
    by (intro location_text_roundtrip) (simp add: fits_def)
  show "Location_toString 832 800 3 = ''(30,0)''" by code_simp
qed

text \<open>
  C21: A sequence of moves, passes included, written with blanks between the points, is read
  back by \<open>Location::parseSequence\<close>.
\<close>

theorem move_sequence_roundtrip:
  assumes "list_all (plain_loc (x_size b) (y_size b)) ls" and "x_size b \<le> 625"
  shows "parseSequence (concat_strings (map (\<lambda>l. Location_toString l (x_size b) (y_size b)) ls) '' '') b = Inr ls"
  unfolding concat_strings_join by (rule parseSequence_printed [OF assms])

theorem move_sequence_roundtrip_witness:
  "parseSequence ''A9 pass B9'' (undefined\<lparr>x_size := 9, y_size := 9\<rparr>) = Inr [11, PASS_LOC, 12]"
proof -
  have o: "on_board 9 9 11" "on_board 9 9 12"
    unfolding on_board_def by (rule exI [of _ 0], rule exI [of _ 0], simp) (rule exI [of _ 1], rule exI [of _ 0], simp)
  let ?b = "undefined\<lparr>x_size := 9, y_size := 9\<rparr> :: board"
  have "list_all (plain_loc (x_size ?b) (y_size ?b)) [11, PASS_LOC, 12]"
    using o by (simp add: plain_loc_def fits_def)
  from move_sequence_roundtrip [OF this]
  have "parseSequence (concat_strings (map (\<lambda>l. Location_toString l 9 9) [11, PASS_LOC, 12]) '' '') ?b = Inr [11, PASS_LOC, 12]"
    by simp
  moreover have "concat_strings (map (\<lambda>l. Location_toString l 9 9) [11, PASS_LOC, 12]) '' '' = ''A9 pass B9''"
    by code_simp
  ultimately show ?thesis by simp
qed

text \<open>
  C22: Rules survive being written and read. For rules with valid fields, whatever the JSON
  library does, the string of \<open>Rules::toStringNoKomi\<close> given to \<open>Rules::parseRulesWithoutKomi\<close>
  with the komi of the rules yields the rules.
\<close>

theorem rules_text_roundtrip:
  assumes "rules_ok r"
  shows "parseRulesWithoutKomi json_parse (toStringNoKomi r) (komi r) = Inr r"
proof -
  obtain k where "parseRulesHelper json_parse (toStringNoKomi r) False = Inr (r\<lparr>komi := k\<rparr>)"
    using parse_printed [OF assms] by blast
  then show ?thesis by (simp add: parseRulesWithoutKomi_def map_result_def)
qed

theorem rules_text_roundtrip_witness:
  "parseRulesWithoutKomi (\<lambda>_. None) ''koPOSITIONALscoreAREAtaxNONEsui1button1whbN-1'' 7 =
     Inr (getTrompTaylorish\<lparr>rules_hasButton := True, whiteHandicapBonusRule := WHB_N_MINUS_ONE, komi := 7\<rparr>)"
proof -
  let ?r = "getTrompTaylorish\<lparr>rules_hasButton := True, whiteHandicapBonusRule := WHB_N_MINUS_ONE, komi := 7\<rparr>"
  have "rules_ok ?r" by (simp add: rules_ok_def getTrompTaylorish_def)
  from rules_text_roundtrip [OF this, of "\<lambda>_. None"]
  have "parseRulesWithoutKomi (\<lambda>_. None) (toStringNoKomi ?r) 7 = Inr ?r" by simp
  moreover have "toStringNoKomi ?r = ''koPOSITIONALscoreAREAtaxNONEsui1button1whbN-1''" by code_simp
  ultimately show ?thesis by simp
qed

text \<open>
  The hexadecimal text of a 128-bit hash is read back: \<open>Hash128::ofString\<close> inverts
  \<open>Hash128::toString\<close>.
\<close>

theorem hash_text_roundtrip:
  "Hash128_ofString (Hash128_toString h) = Inr h"
  by (rule Hash128_ofString_print)

section \<open>Bounds\<close>

text \<open>
  Sizes of memory are exact or refused. A number below 10^9 with one of the units of
  \<open>Global::readMem\<close> is read as the number times the power of two of the unit when that is below
  2^64, and refused as too large otherwise: the shifting loop never loses a bit unnoticed.
\<close>

theorem memory_size_exact:
  assumes "(u, k) \<in> set mem_units" and "n < 10 ^ 9" and "u = [] \<Longrightarrow> 10 \<le> n"
  shows "readMem (nat_to_string n @ u) =
    (if n * 2 ^ k < 2 ^ 64 then Inr (word_of_nat (n * 2 ^ k))
     else Inl (IOError (''Global::readMem: Could not parse amount of memory (too large): '' @ nat_to_string n @ u)))"
  by (rule readMem_unit [OF assms])

theorem memory_size_exact_witness:
  "readMem ''16PB'' = Inr (2 ^ 54) \<and> (\<exists>e. readMem ''16384P'' = Inl e)"
proof -
  have "nat_to_string 16 = ''16''" "nat_to_string 16384 = ''16384''"
    by (simp_all add: nat_to_string.simps digit_char_def char_of_def bit_0)
  moreover have "readMem (nat_to_string 16 @ ''PB'') = Inr (word_of_nat (16 * 2 ^ 50))"
    by (subst memory_size_exact [where k = 50]) (simp_all add: mem_units_def)
  moreover have "\<exists>e. readMem (nat_to_string 16384 @ ''P'') = Inl e"
    by (subst memory_size_exact [where k = 50]) (simp_all add: mem_units_def)
  ultimately show ?thesis by simp
qed

section \<open>Parsers that accept too much\<close>

text \<open>
  C23: \<open>Global::parseDigits\<close> answers zero, and reports no error, for every string of one to nine
  characters that are not all digits, although \<open>Global::isDigits\<close> refuses them.
\<close>

theorem parseDigits_accepts_garbage:
  assumes "s \<noteq> []" and "length s \<le> 9" and "\<not> list_all isDigit s"
  shows "parseDigits s = Inr 0 \<and> \<not> isDigits s"
  using assms by (simp add: parseDigits_eq isDigits_iff)

theorem parseDigits_accepts_garbage_witness:
  "parseDigits ''12x'' = Inr 0 \<and> \<not> isDigits ''12x''"
  by (rule parseDigits_accepts_garbage) (simp_all add: isDigit_def less_eq_char_def)

text \<open>
  C24: \<open>Location::tryOfString\<close> does not test coordinates in parentheses against the board: any two
  32-bit numbers are accepted, and give the number of a point that need not be on the board.
\<close>

theorem pair_not_bounded:
  assumes "- (2 ^ 31) \<le> x" "x \<le> 2 ^ 31 - 1" "- (2 ^ 31) \<le> y" "y \<le> 2 ^ 31 - 1"
  shows "tryOfString (''('' @ intToString x @ '','' @ intToString y @ '')'') xs ys = Some (getLoc x y xs)"
  by (rule tryOfString_mach [OF assms])

theorem pair_not_bounded_witness:
  "tryOfString ''(19,0)'' 19 19 = Some 40 \<and> \<not> on_board 19 19 40 \<and> tryOfString ''U19'' 19 19 = None"
proof (intro conjI)
  have s: "''('' @ intToString 19 @ '','' @ intToString 0 @ '')'' = ''(19,0)''" "getLoc 19 0 19 = 40" by code_simp+
  show "tryOfString ''(19,0)'' 19 19 = Some 40" using pair_not_bounded [of 19 0 19 19] unfolding s by simp
  show "\<not> on_board 19 19 40" by (auto simp: on_board_def) presburger
  show "tryOfString ''U19'' 19 19 = None" by code_simp
qed

end
