(* ===== verification/BoardBuild.thy ===== *)
theory BoardBuild
  imports BoardSetup
begin

text \<open>
  Setting and removing single stones. The reference notion is on colours: a position is
  \<open>lively\<close> when every stone's group has a liberty. Stones of a lively position can be put on the
  board in any order without a capture or suicide in between, which is why removing a chain and
  replaying its other stones removes just one stone.
\<close>

section \<open>Lively positions\<close>

definition lively :: "int \<Rightarrow> (loc \<Rightarrow> color) \<Rightarrow> bool" where
  "lively xs c \<longleftrightarrow> (\<forall>l. is_stone (c l) \<longrightarrow> has_liberty xs c l)"

definition part_of :: "(loc \<Rightarrow> color) \<Rightarrow> (loc \<Rightarrow> color) \<Rightarrow> bool" where
  "part_of c d \<longleftrightarrow> (\<forall>l. c l = d l \<or> c l = C_EMPTY \<and> is_stone (d l))"

lemma part_of_refl [simp]: "part_of c c"
  by (simp add: part_of_def)

lemma has_liberty_neighbour:
  "m \<in> group xs c l \<Longrightarrow> adjacent xs m e \<Longrightarrow> c e = C_EMPTY \<Longrightarrow> has_liberty xs c l"
  by (auto simp: has_liberty_def)

lemma group_step: "m \<in> group xs c l \<Longrightarrow> adjacent xs m v \<Longrightarrow> c m = c l \<Longrightarrow> c v = c l \<Longrightarrow> v \<in> group xs c l"
  unfolding group_def by (auto intro: rtrancl_into_rtrancl)

lemma part_lively:
  assumes d: "lively xs d" and c: "part_of c d"
  shows "lively xs c"
  unfolding lively_def
proof (intro allI impI)
  fix l assume s: "is_stone (c l)"
  then have cl: "c l = d l" using c by (metis is_stone_simps(3) part_of_def)
  then obtain m e where m: "m \<in> group xs d l" and e: "adjacent xs m e" "d e = C_EMPTY"
    using d s by (auto simp: lively_def has_liberty_def)
  have ce: "c e = C_EMPTY" using e c by (metis is_stone_simps(3) part_of_def)
  have "(l, m) \<in> {(u, v). adjacent xs u v \<and> d u = d l \<and> d v = d l}\<^sup>*" using m by (simp add: group_def)
  then have "has_liberty xs c l \<or> m \<in> group xs c l \<and> c m = c l"
  proof (induction rule: rtrancl_induct)
    case base
    then show ?case by (simp add: group_def)
  next
    case (step u v)
    then have a: "adjacent xs u v" "d v = d l" by simp_all
    show ?case
    proof (cases "c v = C_EMPTY")
      case True
      then show ?thesis using step.IH has_liberty_neighbour a by blast
    next
      case False
      then have "c v = c l" using a cl c by (metis part_of_def)
      then show ?thesis using step.IH group_step a by metis
    qed
  qed
  then show "has_liberty xs c l" using has_liberty_neighbour e ce by blast
qed

lemma live_lively:
  assumes "live_board Z b"
  shows "lively (x_size b) (colors b)"
  unfolding lively_def
proof (intro allI impI)
  fix l assume s: "is_stone (colors b l)"
  have c: "chains_ok b (\<lambda>_. 0)" and g: "geom_ok b" and mx: "max_ok b {}"
    and n: "\<And>h. h \<in> heads b \<Longrightarrow> 0 < num_liberties (chain_data b h)"
    using assms by (simp_all add: live_board_def core_def)
  have "libs_of b (chain_of b (chain_head b l)) \<noteq> {}"
    using chains_ok_chain [OF c chains_ok_head [OF c s]] n [OF chains_ok_head [OF c s]]
    by (auto simp: chain_ok_def)
  then show "has_liberty (x_size b) (colors b) l"
    by (subst has_liberty_chain [OF c s]) (use mx s in \<open>auto simp: max_ok_def\<close>)
qed

section \<open>Quiet moves\<close>

text \<open>A move captures nothing and is no suicide exactly when it leaves a lively position.\<close>

lemma tt_clear_lively: "lively xs c \<Longrightarrow> is_stone p \<Longrightarrow> tt_clear xs p c = c"
  by (auto simp: tt_clear_def lively_def fun_eq_iff)

lemma quiet_iff:
  assumes m: "move_at Z b l p"
  shows "lively (x_size b) ((colors b)(l := p)) \<longleftrightarrow> \<not> isSuicide b l p \<and> \<not> wouldBeCapture b l p"
proof -
  let ?c = "(colors b)(l := p)"
  have p: "is_stone p" using m by (simp add: move_at_def)
  have "tt_clear (x_size b) (getOpp p) ?c = ?c" if "tt_captured (x_size b) l p (colors b) = {}"
    using that by (auto simp: tt_captured_def tt_clear_def fun_eq_iff)
  then have "lively (x_size b) ?c \<longleftrightarrow> tt_captured (x_size b) l p (colors b) = {} \<and> tt_suicided (x_size b) l p (colors b) = {}"
    using p stone_colors [OF _ p] tt_clear_lively [of "x_size b" ?c "getOpp p"]
    by (auto simp: lively_def tt_suicided_def tt_captured_def Let_def) (metis getOpp_simps(4))+
  then show ?thesis unfolding wouldBeCapture_eq [OF m] isSuicide_eq [OF m] by blast
qed

lemma quiet_move:
  assumes m: "move_at Z b l p" and lv: "lively (x_size b) ((colors b)(l := p))"
  shows "\<exists>b'. playMoveAssumeLegal Z l p b = Some b' \<and> wf_board Z b' \<and> x_size b' = x_size b \<and> y_size b' = y_size b \<and>
    colors b' = (colors b)(l := p) \<and> numBlackCaptures b' = numBlackCaptures b \<and> numWhiteCaptures b' = numWhiteCaptures b"
proof -
  have p: "is_stone p" using m by (simp add: move_at_def)
  have t: "tt_captured (x_size b) l p (colors b) = {}" "tt_suicided (x_size b) l p (colors b) = {}"
    using iffD1 [OF quiet_iff [OF m] lv] unfolding wouldBeCapture_eq [OF m] isSuicide_eq [OF m] by auto
  have "tt_play (x_size b) l p (colors b) = (colors b)(l := p)"
    using tt_clear_lively [OF lv] p by (simp add: tt_play_def)
  then show ?thesis
    using playMove_total [of Z b l p, unfolded t if_cancel] m by (auto simp: move_at_def)
qed

text \<open>Replaying stones of a lively position, in any order.\<close>

lemma replay:
  assumes "live_board Z b" and "lively (x_size b) d" and "part_of (colors b) d" and "is_stone p"
    and "distinct ls" and "\<And>l. l \<in> set ls \<Longrightarrow> d l = p \<and> colors b l = C_EMPTY"
  shows "\<exists>b'. foldM (\<lambda>l b. playMoveAssumeLegal Z l p b) ls b = Some b' \<and> live_board Z b' \<and> (ls \<noteq> [] \<longrightarrow> wf_board Z b') \<and>
    (ls = [] \<longrightarrow> b' = b) \<and> x_size b' = x_size b \<and> y_size b' = y_size b \<and>
    colors b' = (\<lambda>l. if l \<in> set ls then p else colors b l) \<and>
    numBlackCaptures b' = numBlackCaptures b \<and> numWhiteCaptures b' = numWhiteCaptures b"
  using assms
proof (induction ls arbitrary: b)
  case Nil
  then show ?case by simp
next
  case (Cons l ls)
  have g: "geom_ok b" using Cons.prems(1) by (simp add: live_board_def core_def)
  have "move_at Z b l p"
    using Cons.prems geom_empty_on_board [OF g] by (simp add: move_at_def)
  moreover have part: "part_of ((colors b)(l := p)) d" using Cons.prems by (auto simp: part_of_def)
  ultimately obtain b1 where b1: "playMoveAssumeLegal Z l p b = Some b1" "wf_board Z b1" "x_size b1 = x_size b"
      "y_size b1 = y_size b" "colors b1 = (colors b)(l := p)" "numBlackCaptures b1 = numBlackCaptures b"
      "numWhiteCaptures b1 = numWhiteCaptures b"
    using quiet_move part_lively [OF Cons.prems(2) part] by blast
  have "\<exists>b'. foldM (\<lambda>l b. playMoveAssumeLegal Z l p b) ls b1 = Some b' \<and> live_board Z b' \<and> (ls \<noteq> [] \<longrightarrow> wf_board Z b') \<and>
    (ls = [] \<longrightarrow> b' = b1) \<and> x_size b' = x_size b1 \<and> y_size b' = y_size b1 \<and>
    colors b' = (\<lambda>l. if l \<in> set ls then p else colors b1 l) \<and>
    numBlackCaptures b' = numBlackCaptures b1 \<and> numWhiteCaptures b' = numWhiteCaptures b1"
  proof (rule Cons.IH)
    show "live_board Z b1" using b1(2) by (simp add: wf_board_live)
    show "lively (x_size b1) d" "part_of (colors b1) d" using Cons.prems(2) part b1(3,5) by simp_all
    show "is_stone p" "distinct ls" using Cons.prems(4,5) by simp_all
    show "d m = p \<and> colors b1 m = C_EMPTY" if "m \<in> set ls" for m
      using that Cons.prems(5,6) b1(5) by auto
  qed
  then show ?case using b1 by (cases "ls = []") (auto simp: wf_board_live fun_eq_iff)
qed

section \<open>Removing one stone\<close>

lemma lively_without:
  assumes "lively xs c" and p: "is_stone (c l)"
  shows "lively xs (c(l := C_EMPTY))"
  using part_lively [OF assms(1)] p by (simp add: part_of_def)

lemma foldM_skip:
  "foldM (\<lambda>x s. if x \<noteq> a then f x s else Some s) xs s = foldM f (filter (\<lambda>x. x \<noteq> a) xs) s"
proof (induction xs arbitrary: s)
  case (Cons x xs)
  have "foldM (\<lambda>x s. if x \<noteq> a then f x s else Some s) xs = foldM f (filter (\<lambda>x. x \<noteq> a) xs)"
    using Cons.IH by (rule ext)
  then show ?case by simp
qed simp

text \<open>The points of a chain, collected by walking around it.\<close>

lemma collect_chain:
  assumes "chains_ok b off" and "is_stone (colors b l)"
  obtains ps where "walk_all (\<lambda>_. next_in_chain b) (\<lambda>cur locs. locs @ [cur]) l [] = Some (l # ps)"
    "distinct (l # ps)" "set (l # ps) = chain_of b (chain_head b l)"
proof -
  from chain_ring [OF assms] obtain ps
    where r: "ring (next_in_chain b) l ps" and s: "set (l # ps) = chain_of b (chain_head b l)" by blast
  have "fold (\<lambda>cur locs. locs @ [cur]) xs acc = acc @ xs" for xs acc :: "loc list"
    by (induction xs arbitrary: acc) auto
  then have "walk_all (\<lambda>_. next_in_chain b) (\<lambda>cur locs. locs @ [cur]) l [] = Some (l # ps)"
    using walk_all_ring [OF r, where I = "\<lambda>_. True" and body = "\<lambda>cur locs. locs @ [cur]" and nxt = "\<lambda>_. next_in_chain b" and s = "[]"]
    by simp
  then show thesis using that r s by (simp add: ring_def)
qed

text \<open>The board without a whole chain.\<close>

lemma live_without_chain:
  assumes live: "live_board Z b" and s: "is_stone (colors b l)"
  shows "\<exists>b'. removeChain Z l b = Some (b', int (card (chain_of b (chain_head b l)))) \<and> live_board Z b' \<and>
    x_size b' = x_size b \<and> y_size b' = y_size b \<and>
    colors b' = (\<lambda>m. if m \<in> chain_of b (chain_head b l) then C_EMPTY else colors b m) \<and>
    numBlackCaptures b' = numBlackCaptures b \<and> numWhiteCaptures b' = numWhiteCaptures b"
proof -
  let ?h = "chain_head b l" let ?S = "chain_of b ?h" let ?r = "removed Z (getOpp (colors b l)) ?S b"
  have core: "core Z (\<lambda>_. 0) {} b" and n: "\<And>h. h \<in> heads b \<Longrightarrow> 0 < num_liberties (chain_data b h)"
    using live by (simp_all add: live_board_def)
  then have c: "chains_ok b (\<lambda>_. 0)" and mx: "max_ok b {}" by (simp_all add: core_def)
  have hh: "?h \<in> heads b" by (rule chains_ok_head [OF c s])
  have ch: "colors b ?h = colors b l" by (rule head_color [OF c s])
  have "v \<in> ?S" if "u \<in> ?S" "adjacent (x_size b) u v" "colors b v = colors b u" for u v
    using that mx by (auto simp: chain_of_def max_ok_def)
  from core_removed [OF core hh refl this] have "core Z (\<lambda>_. 0) {} ?r" unfolding ch .
  moreover have "0 < num_liberties (chain_data ?r h)" if "h \<in> heads ?r" for h
    using that n [of h] heads_removed [of ?S b ?h] by simp
  ultimately have "live_board Z ?r" by (simp add: live_board_def)
  then show ?thesis using removeChain_eq [OF core s] by (intro exI [of _ ?r]) simp
qed

lemma removeSingleStone_spec:
  assumes live: "live_board Z b" and s: "is_stone (colors b l)"
  shows "\<exists>b'. removeSingleStone Z l b = Some b' \<and> live_board Z b' \<and> x_size b' = x_size b \<and> y_size b' = y_size b \<and>
    colors b' = (colors b)(l := C_EMPTY) \<and>
    numBlackCaptures b' = numBlackCaptures b \<and> numWhiteCaptures b' = numWhiteCaptures b"
proof -
  let ?S = "chain_of b (chain_head b l)" let ?d = "(colors b)(l := C_EMPTY)" let ?p = "colors b l"
  have c: "chains_ok b (\<lambda>_. 0)" using live by (simp add: live_board_def core_def)
  note ok = chains_ok_chain [OF c chains_ok_head [OF c s]]
  obtain ps where w: "walk_all (\<lambda>_. next_in_chain b) (\<lambda>cur locs. locs @ [cur]) l [] = Some (l # ps)"
    and d: "distinct (l # ps)" and ps: "set (l # ps) = ?S"
    using collect_chain [OF c s] by blast
  have n: "int (length (l # ps)) = num_locs (chain_data b (chain_head b l))"
    using ok d ps by (metis chain_ok_def distinct_card)
  obtain b1 where b1: "removeChain Z l b = Some (b1, int (card ?S))" "live_board Z b1" "x_size b1 = x_size b"
      "y_size b1 = y_size b" "colors b1 = (\<lambda>m. if m \<in> ?S then C_EMPTY else colors b m)"
      "numBlackCaptures b1 = numBlackCaptures b" "numWhiteCaptures b1 = numWhiteCaptures b"
    using live_without_chain [OF live s] by blast
  have col: "colors b m = ?p" if "m \<in> ?S" for m
    using chain_ok_color [OF ok that] head_color [OF c s] by simp
  have "\<exists>b'. foldM (\<lambda>l b. playMoveAssumeLegal Z l ?p b) ps b1 = Some b' \<and> live_board Z b' \<and> (ps \<noteq> [] \<longrightarrow> wf_board Z b') \<and>
    (ps = [] \<longrightarrow> b' = b1) \<and> x_size b' = x_size b1 \<and> y_size b' = y_size b1 \<and>
    colors b' = (\<lambda>l. if l \<in> set ps then ?p else colors b1 l) \<and>
    numBlackCaptures b' = numBlackCaptures b1 \<and> numWhiteCaptures b' = numWhiteCaptures b1"
  proof (rule replay)
    show "live_board Z b1" by fact
    show "lively (x_size b1) ?d" using lively_without [OF live_lively [OF live] s] b1 by simp
    show "part_of (colors b1) ?d" unfolding part_of_def b1(5) using chain_of_mem [OF s] by (auto simp: chain_of_def)
    show "?d m = ?p \<and> colors b1 m = C_EMPTY" if "m \<in> set ps" for m
      using that d ps col [of m] b1(5) by auto
  qed (use d s in auto)
  then obtain b' where "foldM (\<lambda>l b. playMoveAssumeLegal Z l ?p b) ps b1 = Some b'" "live_board Z b'"
      "x_size b' = x_size b" "y_size b' = y_size b" "colors b' = (\<lambda>l. if l \<in> set ps then ?p else colors b1 l)"
      "numBlackCaptures b' = numBlackCaptures b" "numWhiteCaptures b' = numWhiteCaptures b"
    unfolding b1(3,4,6,7) by blast
  moreover have "(\<lambda>m. if m \<in> set ps then ?p else colors b1 m) = ?d"
  proof
    fix m show "(if m \<in> set ps then ?p else colors b1 m) = ?d m"
      using ps d col [of m] unfolding b1(5) by (cases "m = l"; cases "m \<in> set ps") auto
  qed
  moreover have "filter (\<lambda>x. x \<noteq> l) (l # ps) = ps" using d by (auto simp: filter_id_conv)
  ultimately show ?thesis
    unfolding removeSingleStone_def Let_def w using n b1(1) by (simp add: foldM_skip)
qed

lemma live_null_wf: "live_board Z b \<Longrightarrow> wf_board Z (b\<lparr>ko_loc := NULL_LOC\<rparr>)"
  using core_cong [of "b\<lparr>ko_loc := NULL_LOC\<rparr>" b Z "\<lambda>_. 0" "{}"] heads_cong [of "b\<lparr>ko_loc := NULL_LOC\<rparr>" b]
  by (simp add: wf_board_live live_board_def)

section \<open>Setting one stone\<close>

text \<open>What \<open>setStone\<close> does to the colours.\<close>

definition set_colors :: "int \<Rightarrow> (loc \<Rightarrow> color) \<Rightarrow> loc \<Rightarrow> color \<Rightarrow> loc \<Rightarrow> color" where
  "set_colors xs c l col =
     (if c l = col then c
      else if c l = C_EMPTY then (if tt_suicided xs l col c = {l} then c else tt_play xs l col c)
      else let c = c(l := C_EMPTY)
           in if col = C_EMPTY \<or> tt_suicided xs l col c \<noteq> {} then c else tt_play xs l col c)"

lemma setStone_spec:
  assumes wf: "wf_board Z b" and l: "colors b l \<noteq> C_WALL" and c: "col \<noteq> C_WALL"
  shows "\<exists>b'. setStone Z l col b = Some (b', True) \<and> wf_board Z b' \<and> ko_loc b' = NULL_LOC \<and>
    x_size b' = x_size b \<and> y_size b' = y_size b \<and> colors b' = set_colors (x_size b) (colors b) l col"
proof -
  have live: "live_board Z b" using wf by (simp add: wf_board_live)
  have ob: "on_board (x_size b) (y_size b) l" using on_board_iff [OF wf] l by blast
  have r: "0 \<le> l" "l < MAX_ARR_SIZE" using on_board_in_array [OF wf ob] by simp_all
  have col: "is_stone col \<or> col = C_EMPTY" using c by (cases col) simp_all
  let ?post = "\<lambda>r. \<exists>b'. r = Some b' \<and> live_board Z b' \<and> x_size b' = x_size b \<and> y_size b' = y_size b \<and>
    colors b' = set_colors (x_size b) (colors b) l col"
  let ?body = "if colors b l = col then Some b
           else if colors b l = C_EMPTY then
             (if \<not> isIllegalSuicide b l col True then playMoveAssumeLegal Z l col b else Some b)
           else if col = C_EMPTY then removeSingleStone Z l b
           else Option.bind (removeSingleStone Z l b)
                  (\<lambda>b. if \<not> isSuicide b l col then playMoveAssumeLegal Z l col b else Some b)"
  have play: "P (playMoveAssumeLegal Z l col b1)"
    if "live_board Z b1" "colors b1 l = C_EMPTY" "is_stone col" "x_size b1 = x_size b" "y_size b1 = y_size b"
      "P = (\<lambda>r. \<exists>b'. r = Some b' \<and> live_board Z b' \<and> x_size b' = x_size b \<and> y_size b' = y_size b \<and>
          colors b' = tt_play (x_size b) l col (colors b1))" for b1 P
    using playMove_total [of Z b1 l col] that ob by (auto simp: wf_board_live)
  have "?post ?body"
  proof (cases "colors b l = col")
    case True
    then show ?thesis using live by (simp add: set_colors_def)
  next
    case ne: False
    show ?thesis
    proof (cases "colors b l = C_EMPTY")
      case True
      then have s: "is_stone col" using ne col by auto
      have m: "move_at Z b l col" using live ob True s by (simp add: move_at_def)
      show ?thesis
        using play [OF live True s] ne True s live unfolding isIllegalSuicide_eq [OF m]
        by (auto simp: set_colors_def)
    next
      case False
      then have s: "is_stone (colors b l)" using l by (cases "colors b l") auto
      obtain b1 where b1: "removeSingleStone Z l b = Some b1" "live_board Z b1" "x_size b1 = x_size b"
          "y_size b1 = y_size b" "colors b1 = (colors b)(l := C_EMPTY)"
        using removeSingleStone_spec [OF live s] by blast
      show ?thesis
      proof (cases "col = C_EMPTY")
        case True
        then show ?thesis using b1 ne False by (simp add: set_colors_def)
      next
        case f: False
        then have sc: "is_stone col" using col by blast
        have e: "colors b1 l = C_EMPTY" using b1 by simp
        have m: "move_at Z b1 l col" using b1 e ob sc by (simp add: move_at_def)
        show ?thesis
          using play [OF b1(2) e sc b1(3,4)] ne False f b1 isSuicide_eq [OF m]
          by (auto simp: set_colors_def Let_def)
      qed
    qed
  qed
  then obtain b' where b': "?body = Some b'" "live_board Z b'" "x_size b' = x_size b" "y_size b' = y_size b"
    "colors b' = set_colors (x_size b) (colors b) l col" by blast
  have "setStone Z l col b = Some (b'\<lparr>ko_loc := NULL_LOC\<rparr>, True)"
    unfolding setStone_def b'(1) using r l col by (auto simp: stone_cases)
  then show ?thesis using b' live_null_wf [OF b'(2)] by simp
qed

section \<open>Setting stones that must have liberties\<close>

lemma wf_same_ko:
  assumes "live_board Z b'" and "wf_board Z b" and "colors b' = colors b" "x_size b' = x_size b" "y_size b' = y_size b"
  shows "wf_board Z (b'\<lparr>ko_loc := ko_loc b\<rparr>)"
proof -
  have "ko_ok (b'\<lparr>ko_loc := ko_loc b\<rparr>)" using assms(2-5) by (simp add: wf_board_def ko_ok_def)
  moreover have "live_board Z (b'\<lparr>ko_loc := ko_loc b\<rparr>)"
    using assms(1) core_cong [of "b'\<lparr>ko_loc := ko_loc b\<rparr>" b' Z "\<lambda>_. 0" "{}"] heads_cong [of "b'\<lparr>ko_loc := ko_loc b\<rparr>" b']
    by (simp add: live_board_def)
  ultimately show ?thesis by (simp add: wf_board_live)
qed

lemma setStoneFailIfNoLibs_spec:
  assumes wf: "wf_board Z b" and l: "colors b l \<noteq> C_WALL" and c: "col \<noteq> C_WALL"
  defines "d \<equiv> (colors b)(l := col)"
  shows "\<exists>b'. setStoneFailIfNoLibs Z l col b = Some (b', lively (x_size b) d) \<and> wf_board Z b' \<and>
    x_size b' = x_size b \<and> y_size b' = y_size b \<and>
    numBlackCaptures b' = numBlackCaptures b \<and> numWhiteCaptures b' = numWhiteCaptures b \<and>
    colors b' = (if lively (x_size b) d then d else colors b) \<and>
    ko_loc b' = (if lively (x_size b) d then NULL_LOC else ko_loc b)"
proof -
  have live: "live_board Z b" using wf by (simp add: wf_board_live)
  have lv: "lively (x_size b) (colors b)" by (rule live_lively [OF live])
  have ob: "on_board (x_size b) (y_size b) l" using on_board_iff [OF wf] l by blast
  have r: "\<not> (l < 0 \<or> MAX_ARR_SIZE \<le> l \<or> colors b l = C_WALL)" using on_board_in_array [OF wf ob] l by simp
  have col: "is_stone col \<or> col = C_EMPTY" using c by (cases col) simp_all
  then have r2: "\<not> (col \<noteq> C_BLACK \<and> col \<noteq> C_WHITE \<and> col \<noteq> C_EMPTY)" by (auto simp: stone_cases)
  note start = setStoneFailIfNoLibs_def [of Z l col b] Let_def if_not_P [OF r] if_not_P [OF r2]
  show ?thesis
  proof (cases "colors b l = col")
    case True
    then have "d = colors b" by (simp add: d_def fun_upd_idem)
    then show ?thesis unfolding start using True lv live_null_wf [OF live] by simp
  next
    case ne: False
    show ?thesis
    proof (cases "colors b l = C_EMPTY")
      case True
      then have m: "move_at Z b l col" using live ob ne col by (auto simp: move_at_def)
      show ?thesis
      proof (cases "lively (x_size b) d")
        case q: True
        then obtain b' where b': "playMoveAssumeLegal Z l col b = Some b'" "wf_board Z b'" "x_size b' = x_size b"
            "y_size b' = y_size b" "colors b' = d" "numBlackCaptures b' = numBlackCaptures b"
            "numWhiteCaptures b' = numWhiteCaptures b"
          using quiet_move [OF m] unfolding d_def by blast
        then have "wf_board Z (b'\<lparr>ko_loc := NULL_LOC\<rparr>)" using wf_clear_ko by blast
        then show ?thesis unfolding start using ne True q b' quiet_iff [OF m] by (simp add: d_def)
      next
        case False
        then show ?thesis unfolding start using ne True wf quiet_iff [OF m] by (auto simp: d_def)
      qed
    next
      case False
      then have s: "is_stone (colors b l)" using l by (cases "colors b l") auto
      obtain b1 where b1: "removeSingleStone Z l b = Some b1" "live_board Z b1" "x_size b1 = x_size b"
          "y_size b1 = y_size b" "colors b1 = (colors b)(l := C_EMPTY)"
          "numBlackCaptures b1 = numBlackCaptures b" "numWhiteCaptures b1 = numWhiteCaptures b"
        using removeSingleStone_spec [OF live s] by blast
      show ?thesis
      proof (cases "col = C_EMPTY")
        case True
        then have "lively (x_size b) d" using lively_without [OF lv s] by (simp add: d_def)
        then show ?thesis unfolding start using True ne b1 live_null_wf [OF b1(2)] by (simp add: d_def)
      next
        case f: False
        then have sc: "is_stone col" using col by blast
        have opp: "colors b l = getOpp col" using s sc ne stone_colors [of "colors b l" col] by auto
        have e: "colors b1 l = C_EMPTY" using b1 by simp
        have m: "move_at Z b1 l col" and m': "move_at Z b1 l (getOpp col)"
          using b1 e ob sc by (simp_all add: move_at_def)
        have undone: "(colors b1)(l := getOpp col) = colors b" and d1: "(colors b1)(l := col) = d"
          using b1(5) opp by (auto simp: d_def)
        show ?thesis
        proof (cases "lively (x_size b) d")
          case q: True
          then obtain b' where b': "playMoveAssumeLegal Z l col b1 = Some b'" "wf_board Z b'" "x_size b' = x_size b"
              "y_size b' = y_size b" "colors b' = d" "numBlackCaptures b' = numBlackCaptures b"
              "numWhiteCaptures b' = numWhiteCaptures b"
            using quiet_move [OF m] d1 b1 by auto
          then have "wf_board Z (b'\<lparr>ko_loc := NULL_LOC\<rparr>)" using wf_clear_ko by blast
          then show ?thesis
            unfolding start using ne False f q b1(1) b' quiet_iff [OF m] d1 b1(3) opp by simp
        next
          case q: False
          obtain b' where b': "playMoveAssumeLegal Z l (getOpp col) b1 = Some b'" "wf_board Z b'" "x_size b' = x_size b"
              "y_size b' = y_size b" "colors b' = colors b" "numBlackCaptures b' = numBlackCaptures b"
              "numWhiteCaptures b' = numWhiteCaptures b"
            using quiet_move [OF m'] undone lv b1 by auto
          then have "wf_board Z (b'\<lparr>ko_loc := ko_loc b\<rparr>)" using wf by (intro wf_same_ko) (simp_all add: wf_board_live)
          then show ?thesis
            unfolding start using ne False f q b1(1) b' quiet_iff [OF m] d1 b1(3) opp by auto
        qed
      qed
    qed
  qed
qed

lemma setStoneFailIfNoLibs_bad:
  assumes "l < 0 \<or> MAX_ARR_SIZE \<le> l \<or> colors b l = C_WALL \<or> col = C_WALL"
  shows "setStoneFailIfNoLibs Z l col b = Some (b, False)"
  using assms by (auto simp: setStoneFailIfNoLibs_def)

section \<open>Setting many stones\<close>

definition apply_stones :: "(loc \<times> color) list \<Rightarrow> (loc \<Rightarrow> color) \<Rightarrow> loc \<Rightarrow> color" where
  "apply_stones ps c = fold (\<lambda>(l, col) c. c(l := col)) ps c"

lemma apply_stones_simps [simp]:
  "apply_stones [] c = c" "apply_stones ((l, col) # ps) c = apply_stones ps (c(l := col))"
  by (simp_all add: apply_stones_def)

definition placeable :: "board \<Rightarrow> loc \<times> color \<Rightarrow> bool" where
  "placeable b = (\<lambda>(l, col). on_board (x_size b) (y_size b) l \<and> col \<noteq> C_WALL)"

text \<open>
  The loops of \<open>setStonesFailIfNoLibs\<close>: success means that every stone was placed, and they
  succeed if every position on the way is lively.
\<close>

lemma set_all_spec:
  assumes "wf_board Z b"
  shows "\<exists>b' ok. set_all Z ps b = Some (b', ok) \<and> wf_board Z b' \<and> x_size b' = x_size b \<and> y_size b' = y_size b \<and>
    numBlackCaptures b' = numBlackCaptures b \<and> numWhiteCaptures b' = numWhiteCaptures b \<and>
    (ok \<longrightarrow> list_all (placeable b) ps \<and> colors b' = apply_stones ps (colors b)) \<and>
    (list_all (placeable b) ps \<and> (\<forall>n\<le>length ps. lively (x_size b) (apply_stones (take n ps) (colors b))) \<longrightarrow> ok)"
  using assms
proof (induction ps arbitrary: b)
  case Nil
  then show ?case by (intro exI [of _ b] exI [of _ True]) simp
next
  case (Cons p ps)
  obtain l col where p: "p = (l, col)" by (cases p)
  show ?case
  proof (cases "placeable b p")
    case False
    then have "l < 0 \<or> MAX_ARR_SIZE \<le> l \<or> colors b l = C_WALL \<or> col = C_WALL"
      using on_board_iff [OF Cons.prems, of l] by (auto simp: placeable_def p)
    from setStoneFailIfNoLibs_bad [OF this] show ?thesis
      using False Cons.prems by (intro exI [of _ b] exI [of _ False]) (simp add: p)
  next
    case True
    then have l: "colors b l \<noteq> C_WALL" "col \<noteq> C_WALL"
      using on_board_iff [OF Cons.prems, of l] by (simp_all add: placeable_def p)
    let ?d = "(colors b)(l := col)"
    obtain b1 where b1: "setStoneFailIfNoLibs Z l col b = Some (b1, lively (x_size b) ?d)" "wf_board Z b1"
      "x_size b1 = x_size b" "y_size b1 = y_size b"
      "numBlackCaptures b1 = numBlackCaptures b" "numWhiteCaptures b1 = numWhiteCaptures b"
      "colors b1 = (if lively (x_size b) ?d then ?d else colors b)"
      using setStoneFailIfNoLibs_spec [OF Cons.prems l] by blast
    show ?thesis
    proof (cases "lively (x_size b) ?d")
      case False
      have "\<not> (\<forall>n\<le>length (p # ps). lively (x_size b) (apply_stones (take n (p # ps)) (colors b)))"
        using False by (auto simp: p intro!: exI [of _ 1])
      then show ?thesis using False b1 by (auto simp: p)
    next
      case q: True
      then have c1: "colors b1 = ?d" using b1(7) by simp
      have pl: "placeable b1 = placeable b" using b1(3,4) by (simp add: placeable_def)
      obtain b' ok where r: "set_all Z ps b1 = Some (b', ok)" "wf_board Z b'" "x_size b' = x_size b1" "y_size b' = y_size b1"
        "numBlackCaptures b' = numBlackCaptures b1" "numWhiteCaptures b' = numWhiteCaptures b1"
        "ok \<longrightarrow> list_all (placeable b1) ps \<and> colors b' = apply_stones ps (colors b1)"
        "list_all (placeable b1) ps \<and> (\<forall>n\<le>length ps. lively (x_size b1) (apply_stones (take n ps) (colors b1))) \<longrightarrow> ok"
        using Cons.IH [OF b1(2)] by blast
      have "lively (x_size b) (apply_stones (take n ps) ?d)"
        if "\<forall>n\<le>length (p # ps). lively (x_size b) (apply_stones (take n (p # ps)) (colors b))" "n \<le> length ps" for n
        using that(1) [rule_format, of "Suc n"] that(2) by (simp add: p)
      then have "list_all (placeable b) (p # ps) \<and>
          (\<forall>n\<le>length (p # ps). lively (x_size b) (apply_stones (take n (p # ps)) (colors b))) \<longrightarrow> ok"
        using r(8) by (simp add: pl c1 b1(3))
      then show ?thesis
        using q b1 r(1-7) True by (intro exI [of _ b'] exI [of _ ok]) (simp add: p pl c1)
    qed
  qed
qed

lemma apply_stones_map_of:
  "distinct (map fst ps) \<Longrightarrow> apply_stones ps c l = (case map_of ps l of Some col \<Rightarrow> col | None \<Rightarrow> c l)"
proof (induction ps arbitrary: c)
  case (Cons p ps)
  obtain k v where p: "p = (k, v)" by (cases p)
  have "map_of ps k = None" using Cons.prems by (simp add: p map_of_eq_None_iff)
  then show ?case using Cons by (auto simp: p split: option.split)
qed simp

text \<open>Taking stones off, then putting stones on: every position on the way is part of a lively one.\<close>

lemma apply_clear: "apply_stones (map (\<lambda>l. (l, C_EMPTY)) ls) c = (\<lambda>l. if l \<in> set ls then C_EMPTY else c l)"
  by (induction ls arbitrary: c) (auto simp: fun_eq_iff)

lemma clear_part:
  assumes "\<And>l. l \<in> set ls \<Longrightarrow> c l \<noteq> C_WALL"
  shows "part_of (apply_stones (map (\<lambda>l. (l, C_EMPTY)) ls) c) c"
  using assms unfolding apply_clear by (auto simp: part_of_def is_stone_def) (metis color.exhaust)

lemma fill_part:
  assumes d: "distinct (map fst ps)" and c: "\<And>l. l \<in> set (map fst ps) \<Longrightarrow> c l = C_EMPTY"
    and w: "\<And>l col. (l, col) \<in> set ps \<Longrightarrow> col \<noteq> C_WALL"
  shows "part_of (apply_stones (take n ps) c) (apply_stones ps c)"
  unfolding part_of_def
proof (intro allI)
  fix l
  have dn: "distinct (map fst (take n ps))" using d by (simp add: take_map [symmetric] distinct_take)
  have ps: "ps = take n ps @ drop n ps" by simp
  show "apply_stones (take n ps) c l = apply_stones ps c l \<or>
    apply_stones (take n ps) c l = C_EMPTY \<and> is_stone (apply_stones ps c l)"
  proof (cases "map_of (take n ps) l")
    case (Some col)
    then have "map_of ps l = Some col"
      by (subst ps) (simp only: map_of_append map_add_def, use d in \<open>auto split: option.split
          dest!: map_of_SomeD simp: eq_key_imp_eq_value\<close>)
    then show ?thesis using Some by (simp add: apply_stones_map_of d dn)
  next
    case None
    show ?thesis
    proof (cases "map_of ps l")
      case (Some col)
      then have "(l, col) \<in> set ps" by (rule map_of_SomeD)
      then have "c l = C_EMPTY" "col \<noteq> C_WALL" using c w by force+
      then show ?thesis using None Some by (cases col) (simp_all add: apply_stones_map_of d dn)
    next
      case f: None
      then show ?thesis using None by (simp add: apply_stones_map_of d dn)
    qed
  qed
qed

text \<open>A list of placements is accepted exactly when it names distinct points of the board and leaves a lively position.\<close>

definition stones_of :: "Move list \<Rightarrow> (loc \<times> color) list" where
  "stones_of placements = map (\<lambda>m. (mv_loc m, mv_pla m)) placements"

lemma setStonesFailIfNoLibs_spec:
  fixes ms :: "Move list"
  assumes wf: "wf_board Z b"
  defines "d \<equiv> apply_stones (stones_of ms) (colors b)"
  shows "\<exists>b' ok. setStonesFailIfNoLibs Z ms b = Some (b', ok) \<and> wf_board Z b' \<and>
    x_size b' = x_size b \<and> y_size b' = y_size b \<and>
    numBlackCaptures b' = numBlackCaptures b \<and> numWhiteCaptures b' = numWhiteCaptures b \<and>
    (ok \<longleftrightarrow> distinct (map mv_loc ms) \<and> list_all (placeable b) (stones_of ms) \<and> lively (x_size b) d) \<and>
    (ok \<longrightarrow> colors b' = d)"
proof (cases "distinct (map mv_loc ms)")
  case False
  then show ?thesis using wf by (intro exI [of _ b] exI [of _ False]) (simp add: setStonesFailIfNoLibs_def)
next
  case True
  let ?es = "map (\<lambda>l. (l, C_EMPTY)) (map mv_loc ms)" let ?ps = "stones_of ms"
  have es: "map (\<lambda>m. (mv_loc m, C_EMPTY)) ms = ?es" by simp
  have lv: "lively (x_size b) (colors b)" using live_lively [of Z b] wf by (simp add: wf_board_live)
  obtain b1 ok1 where r1: "set_all Z ?es b = Some (b1, ok1)" "wf_board Z b1" "x_size b1 = x_size b" "y_size b1 = y_size b"
    "numBlackCaptures b1 = numBlackCaptures b" "numWhiteCaptures b1 = numWhiteCaptures b"
    "ok1 \<longrightarrow> list_all (placeable b) ?es \<and> colors b1 = apply_stones ?es (colors b)"
    "list_all (placeable b) ?es \<and> (\<forall>n\<le>length ?es. lively (x_size b) (apply_stones (take n ?es) (colors b))) \<longrightarrow> ok1"
    using set_all_spec [OF wf, of ?es] by blast
  have ok1: "ok1 \<longleftrightarrow> list_all (placeable b) ?es"
  proof
    assume a: "list_all (placeable b) ?es"
    have "lively (x_size b) (apply_stones (take n ?es) (colors b))" for n
      unfolding take_map
      using a on_board_iff [OF wf] set_take_subset [of n "map mv_loc ms"]
      by (intro part_lively [OF lv] clear_part) (auto simp: list_all_iff placeable_def take_map)
    then show ok1 using r1(8) a by blast
  qed (use r1(7) in blast)
  have bad: "\<not> list_all (placeable b) ?ps" if "\<not> ok1"
    using that unfolding ok1 by (auto simp: list_all_iff placeable_def stones_of_def)
  show ?thesis
  proof (cases ok1)
    case False
    moreover have "setStonesFailIfNoLibs Z ms b = Some (b1, False)"
      unfolding setStonesFailIfNoLibs_def es r1(1) using True False by simp
    ultimately show ?thesis
      using r1(2-6) bad by (intro exI [of _ b1] exI [of _ False] conjI) simp_all
  next
    case o1: True
    have c1: "colors b1 = apply_stones ?es (colors b)" using r1(7) o1 by blast
    have dist: "distinct (map fst ?ps)" "distinct (map fst ?es)" using True by (simp_all add: stones_of_def comp_def)
    have dom: "set (map fst ?ps) = set (map mv_loc ms)" by (auto simp: stones_of_def)
    have e1: "colors b1 l = (if l \<in> set (map mv_loc ms) then C_EMPTY else colors b l)" for l
      unfolding c1 apply_clear by simp
    have d: "apply_stones ?ps (colors b1) = d"
    proof
      fix l
      have "map_of ?ps l = None \<Longrightarrow> l \<notin> set (map mv_loc ms)" using dom by (simp add: map_of_eq_None_iff)
      then show "apply_stones ?ps (colors b1) l = d l"
        by (auto simp: d_def apply_stones_map_of [OF dist(1)] e1 split: option.split)
    qed
    have pl: "placeable b1 = placeable b" using r1(3,4) by (simp add: placeable_def)
    obtain b2 ok2 where r2: "set_all Z ?ps b1 = Some (b2, ok2)" "wf_board Z b2" "x_size b2 = x_size b1" "y_size b2 = y_size b1"
      "numBlackCaptures b2 = numBlackCaptures b1" "numWhiteCaptures b2 = numWhiteCaptures b1"
      "ok2 \<longrightarrow> list_all (placeable b1) ?ps \<and> colors b2 = apply_stones ?ps (colors b1)"
      "list_all (placeable b1) ?ps \<and> (\<forall>n\<le>length ?ps. lively (x_size b1) (apply_stones (take n ?ps) (colors b1))) \<longrightarrow> ok2"
      using set_all_spec [OF r1(2), of ?ps] by blast
    have "ok2 \<longleftrightarrow> list_all (placeable b) ?ps \<and> lively (x_size b) d"
    proof
      assume a: "list_all (placeable b) ?ps \<and> lively (x_size b) d"
      have "part_of (apply_stones (take n ?ps) (colors b1)) d" for n
        unfolding d [symmetric] using a e1 dom
        by (intro fill_part dist) (auto simp: list_all_iff placeable_def)
      then show ok2 using r2(8) a part_lively by (auto simp: pl r1(3))
    next
      assume ok2
      then show "list_all (placeable b) ?ps \<and> lively (x_size b) d"
        using r2 live_lively [of Z b2] by (auto simp: pl d r1(3) wf_board_live)
    qed
    moreover have "setStonesFailIfNoLibs Z ms b = Some (b2, ok2)"
      unfolding setStonesFailIfNoLibs_def es stones_of_def [symmetric] r1(1) using True o1 r2(1) by simp
    moreover have "ok2 \<longrightarrow> colors b2 = d" using r2(7) unfolding d by blast
    ultimately show ?thesis
      using True r2(2-6) unfolding r1(3-6) by (intro exI [of _ b2] exI [of _ ok2] conjI) simp_all
  qed
qed

end
