(* ===== verification/BoardText.thy ===== *)
theory BoardText
  imports BoardBuild LocText
begin

text \<open>
  Boards as text: what \<open>Board::toJson\<close> writes, \<open>Board::ofJson\<close> reads back as the same position.
  The parser puts the stones down one by one with \<open>setStoneFailIfNoLibs\<close>; that none of them is
  refused on the way is a fact about parts of lively positions.
\<close>

section \<open>Printing\<close>

definition row_text :: "board \<Rightarrow> int \<Rightarrow> string" where
  "row_text b y = map (\<lambda>x. colorToChar (colors b (getLoc x y (x_size b)))) [0..x_size b - 1]"

lemma toStringSimple_rows:
  "toStringSimple b d = concat (map (\<lambda>w. w @ [d]) (map (row_text b) [0..y_size b - 1]))"
proof -
  have row: "fold (\<lambda>x s. s @ [f x]) xs s = s @ map f xs" for f :: "int \<Rightarrow> char" and xs s
    by (induction xs arbitrary: s) simp_all
  have "fold (\<lambda>y s. fold (\<lambda>x s. s @ [colorToChar (colors b (getLoc x y (x_size b)))]) [0..x_size b - 1] s @ [d]) ys s =
    s @ concat (map (\<lambda>w. w @ [d]) (map (row_text b) ys))" for ys s
    by (induction ys arbitrary: s) (simp_all add: row row_text_def)
  from this [of "[0..y_size b - 1]" "[]"] show ?thesis by (simp add: toStringSimple_def)
qed

lemma board_char:
  "c = CHR ''X'' \<or> c = CHR ''O'' \<or> c = CHR ''.'' \<Longrightarrow> c \<notin> set whitespace_chars \<and> \<not> isDigit c \<and> c \<noteq> CHR ''|''"
  by (auto simp: whitespace_chars_def isDigit_def less_eq_char_def)

lemma row_text_chars:
  assumes "wf_board Z b" and "0 \<le> y" and "y < y_size b" and "c \<in> set (row_text b y)"
  shows "c = CHR ''X'' \<or> c = CHR ''O'' \<or> c = CHR ''.''"
proof -
  have m: "x_size b \<le> MAX_LEN" "y_size b \<le> MAX_LEN" using assms(1) by (simp_all add: wf_board_def core_def geom_ok_def)
  obtain x where x: "0 \<le> x" "x < x_size b" "c = colorToChar (colors b (getLoc x y (x_size b)))"
    using assms(4) by (auto simp: row_text_def)
  have "on_board (x_size b) (y_size b) (getLoc x y (x_size b))"
    using getLoc_eq [OF x(1,2) assms(2,3) m] x assms(2,3) by (auto simp: on_board_def)
  then have "colors b (getLoc x y (x_size b)) \<noteq> C_WALL" using on_board_iff [OF assms(1)] by blast
  then show ?thesis using x(3) by (cases "colors b (getLoc x y (x_size b))") simp_all
qed

section \<open>Parsing what was printed\<close>

text \<open>The board so far, with the rows above \<open>y\<close> and the points of row \<open>y\<close> outside \<open>xs\<close> done.\<close>

definition parsing :: "zobrist \<Rightarrow> board \<Rightarrow> int \<Rightarrow> int list \<Rightarrow> board \<Rightarrow> bool" where
  "parsing Z b y xs b' \<longleftrightarrow> wf_board Z b' \<and> x_size b' = x_size b \<and> y_size b' = y_size b \<and>
     numBlackCaptures b' = 0 \<and> numWhiteCaptures b' = 0 \<and> ko_loc b' = NULL_LOC \<and> part_of (colors b') (colors b) \<and>
     (\<forall>x' y'. 0 \<le> x' \<and> x' < x_size b \<and> 0 \<le> y' \<and> y' < y_size b \<and> (y' < y \<or> y' = y \<and> x' \<notin> set xs) \<longrightarrow>
        colors b' (getLoc x' y' (x_size b)) = colors b (getLoc x' y' (x_size b)))"

lemma parse_char_step:
  assumes wf: "wf_board Z b" and y: "0 \<le> y" "y < y_size b" and x: "0 \<le> x" "x < x_size b"
    and p: "parsing Z b y (x # xs) b'"
  shows "\<exists>b''. parse_char Z (row_text b y) (x_size b) y x b' = Some (Inr b'') \<and> parsing Z b y xs b''"
proof -
  let ?l = "getLoc x y (x_size b)"
  have m: "x_size b \<le> MAX_LEN" "y_size b \<le> MAX_LEN" using wf by (simp_all add: wf_board_def core_def geom_ok_def)
  have ob: "on_board (x_size b) (y_size b) ?l"
    using getLoc_eq [OF x y m] x y by (auto simp: on_board_def)
  have xs': "x_size b' = x_size b" "wf_board Z b'" "y_size b' = y_size b" using p by (simp_all add: parsing_def)
  have part: "part_of (colors b') (colors b)" using p by (simp add: parsing_def)
  have len: "int (length (row_text b y)) = x_size b" using x by (simp add: row_text_def)
  have ch: "row_text b y ! nat x = colorToChar (colors b ?l)" using x by (simp add: row_text_def)
  have w: "colors b ?l \<noteq> C_WALL" "colors b' ?l \<noteq> C_WALL"
    using ob on_board_iff [OF wf] on_board_iff [OF xs'(2)] xs' by simp_all
  let ?d = "(colors b')(?l := colors b ?l)"
  have part': "part_of ?d (colors b)" using part by (simp add: part_of_def)
  have lv: "lively (x_size b') ?d"
    using part_lively [OF live_lively [of Z b] part'] wf xs'(1) by (simp add: wf_board_live)
  obtain b1 where b1: "setStoneFailIfNoLibs Z ?l (colors b ?l) b' = Some (b1, True)" "wf_board Z b1"
    "x_size b1 = x_size b" "y_size b1 = y_size b" "numBlackCaptures b1 = numBlackCaptures b'"
    "numWhiteCaptures b1 = numWhiteCaptures b'" "colors b1 = ?d" "ko_loc b1 = NULL_LOC"
    using setStoneFailIfNoLibs_spec [OF xs'(2) w(2,1)] lv xs' by auto
  have fin: "parsing Z b y xs b''"
    if b'': "wf_board Z b''" "x_size b'' = x_size b" "y_size b'' = y_size b" "numBlackCaptures b'' = numBlackCaptures b'"
      "numWhiteCaptures b'' = numWhiteCaptures b'" "colors b'' = ?d" "ko_loc b'' = NULL_LOC" for b''
    using p b'' part' unfolding parsing_def by auto
  show ?thesis
  proof (cases "colors b ?l = C_EMPTY")
    case True
    then have "colors b' ?l = C_EMPTY" using part by (metis part_of_def is_stone_simps(3))
    then have "?d = colors b'" using True by (simp add: fun_upd_idem)
    then have "parsing Z b y xs b'" using fin [of b'] p by (simp add: parsing_def)
    then show ?thesis using True len ch by (simp add: parse_char_def xs'(1) Let_def)
  next
    case False
    then have "colors b ?l = P_BLACK \<or> colors b ?l = P_WHITE" using w by (cases "colors b ?l") simp_all
    then show ?thesis
      using fin [OF b1(2-8)] b1(1) len ch by (auto simp: parse_char_def xs'(1) Let_def)
  qed
qed

lemma parse_line_step:
  assumes wf: "wf_board Z b" and y: "0 \<le> y" "y < y_size b" and ls: "lines ! nat y = row_text b y"
    and p: "parsing Z b y [0..x_size b - 1] b'"
  shows "\<exists>b''. parse_line Z lines (x_size b) y b' = Some (Inr b'') \<and> parsing Z b (y + 1) [0..x_size b - 1] b''"
proof -
  note ch = row_text_chars [OF wf y]
  have t: "trim (row_text b y) = row_text b y"
    using ch board_char by (intro trim_no_white) blast
  have "dropWhile isDigit (row_text b y) = row_text b y"
    using ch board_char by (cases "row_text b y") auto
  moreover have "int (length (row_text b y)) = x_size b"
    using wf by (simp add: row_text_def wf_board_def core_def geom_ok_def)
  ultimately have pl: "parse_line Z lines (x_size b) y b' = foldRM (parse_char Z (row_text b y) (x_size b) y) [0..x_size b - 1] b'"
    by (simp add: parse_line_def ls t)
  have "\<exists>t. foldRM (parse_char Z (row_text b y) (x_size b) y) [0..x_size b - 1] b' = Some (Inr t) \<and>
    (set [] \<subseteq> {0..<x_size b} \<and> parsing Z b y [] t)"
  proof (rule foldRM_total)
    show "set [0..x_size b - 1] \<subseteq> {0..<x_size b} \<and> parsing Z b y [0..x_size b - 1] b'" using p by auto
    show "\<exists>v. parse_char Z (row_text b y) (x_size b) y x u = Some (Inr v) \<and> set xs \<subseteq> {0..<x_size b} \<and> parsing Z b y xs v"
      if "set (x # xs) \<subseteq> {0..<x_size b} \<and> parsing Z b y (x # xs) u" for x xs u
      using parse_char_step [OF wf y, of x xs u] that by auto
  qed
  then obtain b'' where "parse_line Z lines (x_size b) y b' = Some (Inr b'')" "parsing Z b y [] b''" unfolding pl by blast
  moreover from this(2) have "parsing Z b (y + 1) [0..x_size b - 1] b''"
    unfolding parsing_def by (auto simp: not_less le_less)
  ultimately show ?thesis by blast
qed

lemma parseBoard_printed:
  assumes wf: "wf_board Z b"
  shows "\<exists>b'. parseBoard Z b0 (x_size b) (y_size b) (toStringSimple b (CHR ''|'')) (CHR ''|'') = Some (Inr b') \<and>
    wf_board Z b' \<and> x_size b' = x_size b \<and> y_size b' = y_size b \<and> colors b' = colors b \<and>
    ko_loc b' = NULL_LOC \<and> numBlackCaptures b' = 0 \<and> numWhiteCaptures b' = 0"
proof -
  let ?rows = "map (row_text b) [0..y_size b - 1]"
  have g: "0 \<le> x_size b" "x_size b \<le> MAX_LEN" "0 \<le> y_size b" "y_size b \<le> MAX_LEN"
    using wf by (simp_all add: wf_board_def core_def geom_ok_def)
  obtain e where e: "Board_init Z b0 (x_size b) (y_size b) = Inr e" using Board_init_ok g by blast
  note f = Board_init_facts [OF e]
  have ch: "c = CHR ''X'' \<or> c = CHR ''O'' \<or> c = CHR ''.''" if w: "w \<in> set ?rows" and c: "c \<in> set w" for w c
  proof -
    obtain y where "0 \<le> y" "y < y_size b" "c \<in> set (row_text b y)" using w c by auto
    then show ?thesis by (rule row_text_chars [OF wf])
  qed
  have "trim (toStringSimple b (CHR ''|'')) = toStringSimple b (CHR ''|'')"
  proof (rule trim_no_white)
    have "c \<notin> set whitespace_chars" if "w \<in> set ?rows" "c \<in> set w" for w c using board_char ch [OF that] by blast
    moreover have "CHR ''|'' \<notin> set whitespace_chars" by (simp add: whitespace_chars_def)
    moreover have "set (toStringSimple b (CHR ''|'')) \<subseteq> (\<Union>w\<in>set ?rows. set w) \<union> {CHR ''|''}"
      by (auto simp: toStringSimple_rows)
    ultimately show "set (toStringSimple b (CHR ''|'')) \<inter> set whitespace_chars = {}" by blast
  qed
  moreover have "list_all (\<lambda>w. CHR ''|'' \<notin> set w) ?rows" unfolding list_all_iff using ch board_char by blast
  ultimately have sp: "split (trim (toStringSimple b (CHR ''|''))) (CHR ''|'') = ?rows"
    by (simp only: toStringSimple_rows split_terminated)
  have len: "int (length ?rows) = y_size b" using g by simp
  have pb: "parseBoard Z b0 (x_size b) (y_size b) (toStringSimple b (CHR ''|'')) (CHR ''|'') =
      foldRM (parse_line Z ?rows (x_size b)) [0..y_size b - 1] e"
    unfolding parseBoard_def e sum.case sp Let_def using len by simp
  have upto_step: "ys = [y + 1..y_size b - 1] \<and> 0 \<le> y \<and> y < y_size b" if "y # ys = [k..y_size b - 1]" "0 \<le> k" for y ys k
    using that by (cases "k \<le> y_size b - 1") (auto simp: upto_rec1)
  have "\<exists>t. foldRM (parse_line Z ?rows (x_size b)) [0..y_size b - 1] e = Some (Inr t) \<and>
    (\<exists>k. [] = [k..y_size b - 1] \<and> 0 \<le> k \<and> parsing Z b k [0..x_size b - 1] t)"
  proof (rule foldRM_total)
    have "part_of (colors e) (colors b)"
      unfolding part_of_def
    proof
      fix l show "colors e l = colors b l \<or> colors e l = C_EMPTY \<and> is_stone (colors b l)"
        using on_board_iff [OF wf, of l] unfolding f(7) by (cases "colors b l") simp_all
    qed
    then have "parsing Z b 0 [0..x_size b - 1] e"
      using f Board_init_wf [OF e] by (auto simp: parsing_def)
    then show "\<exists>k. [0..y_size b - 1] = [k..y_size b - 1] \<and> 0 \<le> k \<and> parsing Z b k [0..x_size b - 1] e" by blast
  next
    fix y ys u assume "\<exists>k. y # ys = [k..y_size b - 1] \<and> 0 \<le> k \<and> parsing Z b k [0..x_size b - 1] u"
    then obtain k where k: "y # ys = [k..y_size b - 1]" "0 \<le> k" "parsing Z b k [0..x_size b - 1] u" by blast
    have yk: "y = k" using k(1) by (cases "k \<le> y_size b - 1") (auto simp: upto_rec1)
    note s = upto_step [OF k(1,2)]
    have "?rows ! nat y = row_text b y" using s by simp
    from parse_line_step [OF wf _ _ this, of u] s k yk
    show "\<exists>v. parse_line Z ?rows (x_size b) y u = Some (Inr v) \<and>
        (\<exists>k. ys = [k..y_size b - 1] \<and> 0 \<le> k \<and> parsing Z b k [0..x_size b - 1] v)"
      by (metis add_increasing2 zero_le_one)
  qed
  then obtain b' k where r: "foldRM (parse_line Z ?rows (x_size b)) [0..y_size b - 1] e = Some (Inr b')"
    and k: "[] = [k..y_size b - 1]" and p: "parsing Z b k [0..x_size b - 1] b'" by blast
  have k': "y_size b \<le> k" using k by (cases "k \<le> y_size b - 1") (auto simp: upto_rec1)
  have pf: "wf_board Z b'" "x_size b' = x_size b" "y_size b' = y_size b" using p by (simp_all add: parsing_def)
  have "colors b' l = colors b l" for l
  proof (cases "on_board (x_size b) (y_size b) l")
    case True
    then obtain x y where xy: "0 \<le> x" "x < x_size b" "0 \<le> y" "y < y_size b" "l = getLoc x y (x_size b)"
      using getLoc_eq [of _ "x_size b" _ "y_size b"] g by (auto simp: on_board_def)
    then have "y < k" using k' by simp
    then show ?thesis using p xy by (auto simp: parsing_def)
  next
    case False
    then show ?thesis using on_board_iff [OF wf, of l] on_board_iff [OF pf(1), of l] pf by auto
  qed
  then have "colors b' = colors b" by (rule ext)
  then show ?thesis using r p unfolding pb by (auto simp: parsing_def)
qed

text \<open>The whole object.\<close>

lemma board_json_roundtrip:
  assumes wf: "wf_board Z b"
  shows "\<exists>b'. Board_ofJson Z b0 (Board_toJson b) = Some (Inr b') \<and> wf_board Z b' \<and>
    x_size b' = x_size b \<and> y_size b' = y_size b \<and> colors b' = colors b \<and> ko_loc b' = ko_loc b \<and>
    numBlackCaptures b' = numBlackCaptures b \<and> numWhiteCaptures b' = numWhiteCaptures b \<and> pos_hash b' = pos_hash b"
proof -
  obtain b' where b': "parseBoard Z b0 (x_size b) (y_size b) (toStringSimple b (CHR ''|'')) (CHR ''|'') = Some (Inr b')"
    "wf_board Z b'" "x_size b' = x_size b" "y_size b' = y_size b" "colors b' = colors b" "ko_loc b' = NULL_LOC"
    using parseBoard_printed [OF wf] by blast
  have m: "0 \<le> x_size b" "x_size b \<le> MAX_LEN" "0 \<le> y_size b" "y_size b \<le> MAX_LEN"
    using wf by (simp_all add: wf_board_def core_def geom_ok_def)
  have "(x_size b + 1) * (y_size b + 1) \<le> 20 * 20" using m by (intro mult_mono) (simp_all add: MAX_LEN_def)
  then have fits: "fits (x_size b) (y_size b)" by (simp add: fits_def)
  let ?s = "Location_toString (ko_loc b) (x_size b) (y_size b)"
  have "ko_loc b = NULL_LOC \<or> on_board (x_size b) (y_size b) (ko_loc b)" using wf by (auto simp: wf_board_def ko_ok_def)
  then have "tryOfStringAllowNull ?s (x_size b) (y_size b) = Some (ko_loc b)" using allow_null_roundtrip fits by blast
  then have ko: "Location_ofStringAllowNull ?s (x_size b') (y_size b') = Inr (ko_loc b)"
    by (simp add: Location_ofStringAllowNull_def b')
  let ?b = "b'\<lparr>ko_loc := ko_loc b, numBlackCaptures := numBlackCaptures b, numWhiteCaptures := numWhiteCaptures b\<rparr>"
  have "ko_ok ?b" using wf b' by (simp add: wf_board_def ko_ok_def)
  then have "wf_board Z ?b" using b'(2) by (intro wf_board_cong [of ?b b']) simp_all
  moreover have "pos_hash b' = pos_hash b" using wf b' by (simp add: wf_board_def core_def hash_ok_def)
  ultimately show ?thesis
    using b' ko by (intro exI [of _ ?b]) (simp add: Board_ofJson_def Board_toJson_def setSimpleKoLoc_def)
qed

end
