(* ===== verification/BoardCheck.thy ===== *)
theory BoardCheck
  imports BoardText "HOL-Library.Multiset"
begin

text \<open>
  The board's self-check. \<open>checkConsistency\<close> walks every chain, recounts its liberties with
  \<open>findLiberties\<close> and recomputes the hash; on every well-formed board it finds nothing to
  complain about, and the walks it makes end.
\<close>

section \<open>Walks that may stop early\<close>

lemma walk_chain_total:
  assumes "path nx cur (cur # xs) start" and "start \<notin> set xs" and "I (cur # xs) s"
    and "\<And>x ys s. I (x # ys) s \<Longrightarrow> x \<in> set (cur # xs) \<Longrightarrow> \<exists>t. body x s = Inr t \<and> nxt t x = nx x \<and> I ys t"
  shows "\<exists>t. walk_chain nxt body start cur s = Some (Inr t) \<and> I [] t"
  using assms
proof (induction xs arbitrary: cur s)
  case Nil
  then obtain t where "body cur s = Inr t" "nxt t cur = nx cur" "I [] t" by fastforce
  then show ?case using Nil.prems(1) by (simp add: walk_chain.simps)
next
  case (Cons x xs)
  from Cons.prems(4) [OF Cons.prems(3)] obtain t where t: "body cur s = Inr t" "nxt t cur = nx cur" "I (x # xs) t" by auto
  from Cons.prems(1) have x: "nx cur = x" and p: "path nx x (x # xs) start" by auto
  from Cons.prems(2) have "x \<noteq> start" and st: "start \<notin> set xs" by auto
  have "\<exists>u. walk_chain nxt body start x t = Some (Inr u) \<and> I [] u"
    by (rule Cons.IH [OF p st t(3)]) (use Cons.prems(4) in auto)
  then show ?case using t x \<open>x \<noteq> start\<close> by (subst walk_chain.simps) simp
qed

section \<open>Finding liberties\<close>

text \<open>The part of the buffer that is being filled.\<close>

definition segment_of :: "nat \<Rightarrow> loc list \<times> int \<Rightarrow> loc list" where
  "segment_of s = (\<lambda>(buf, n). take (nat n) (drop s buf))"

definition listed :: "nat \<Rightarrow> loc list \<Rightarrow> loc set \<Rightarrow> loc list \<times> int \<Rightarrow> bool" where
  "listed s pre L = (\<lambda>(buf, n). 0 \<le> n \<and> int s + n \<le> int (length buf) \<and> take s buf = pre \<and>
     distinct (segment_of s (buf, n)) \<and> set (segment_of s (buf, n)) = L)"

lemma listed_count: "listed s pre L (buf, n) \<Longrightarrow> n = int (card L)"
  by (auto simp: listed_def segment_of_def distinct_card)

lemma buf_put_take:
  assumes "i \<le> length buf"
  shows "take (Suc i) (buf_put (int i) v buf) = take i buf @ [v]" "Suc i \<le> length (buf_put (int i) v buf)"
proof -
  let ?b = "if i \<ge> length buf then buf @ replicate (length buf * 3 div 2 + 64 - length buf) 0 else buf"
  have l: "i < length ?b" and t: "take i ?b = take i buf" using assms by auto
  have "buf_put (int i) v buf = ?b[i := v]" by (simp add: buf_put_def Let_def)
  then show "take (Suc i) (buf_put (int i) v buf) = take i buf @ [v]" "Suc i \<le> length (buf_put (int i) v buf)"
    using l t by (simp_all add: take_Suc_conv_app_nth del: if_split)
qed

lemma findLiberties_adj_listed:
  assumes "listed s pre L st"
  shows "listed s pre (L \<union> {e. e = lib \<and> colors b e = C_EMPTY}) (findLiberties_adj b (int s) (int s) lib st)"
proof -
  obtain buf n where st: "st = (buf, n)" by (cases st)
  have n: "0 \<le> n" "int s + n \<le> int (length buf)" and pre: "take s buf = pre"
    and d: "distinct (segment_of s (buf, n))" and L: "set (segment_of s (buf, n)) = L"
    using assms by (simp_all add: listed_def st)
  have seg: "segment_of s (buf, n) = map (\<lambda>j. buf ! nat j) [int s..int s + n - 1]"
  proof (rule nth_equalityI)
    show "length (segment_of s (buf, n)) = length (map (\<lambda>j. buf ! nat j) [int s..int s + n - 1])"
      using n by (auto simp: segment_of_def)
    fix i assume "i < length (segment_of s (buf, n))"
    then have "i < nat n" "s + i < length buf" using n by (auto simp: segment_of_def)
    then show "segment_of s (buf, n) ! i = map (\<lambda>j. buf ! nat j) [int s..int s + n - 1] ! i"
      using n by (simp add: segment_of_def nat_add_distrib)
  qed
  then have dup: "list_ex (\<lambda>j. buf_get buf j = lib) [int s..int s + n - 1] \<longleftrightarrow> lib \<in> L"
    unfolding L [symmetric] seg by (auto simp: list_ex_iff buf_get_def)
  show ?thesis
  proof (cases "colors b lib = C_EMPTY \<and> lib \<notin> L")
    case False
    then have "findLiberties_adj b (int s) (int s) lib st = st"
      by (auto simp: findLiberties_adj_def st dup)
    moreover have "L \<union> {e. e = lib \<and> colors b e = C_EMPTY} = L" using False by auto
    ultimately show ?thesis using assms by simp
  next
    case True
    let ?k = "s + nat n"
    let ?buf = "buf_put (int ?k) lib buf"
    have k: "?k \<le> length buf" using n by simp
    note put = buf_put_take [OF k, of lib]
    have r: "findLiberties_adj b (int s) (int s) lib st = (?buf, n + 1)"
      using True dup n by (simp add: findLiberties_adj_def st)
    have "take s ?buf = pre"
    proof -
      have "take s ?buf = take s (take (Suc ?k) ?buf)" by simp
      also have "\<dots> = take s (take ?k buf @ [lib])" unfolding put(1) ..
      finally show ?thesis using pre k by simp
    qed
    moreover have "segment_of s (?buf, n + 1) = segment_of s (buf, n) @ [lib]"
    proof -
      have "segment_of s (?buf, n + 1) = drop s (take (Suc ?k) ?buf)"
        using n by (simp add: segment_of_def drop_take nat_add_distrib)
      also have "\<dots> = drop s (take ?k buf @ [lib])" unfolding put(1) ..
      finally show ?thesis using k by (simp add: segment_of_def drop_take)
    qed
    ultimately show ?thesis
      using d L True n put(2) unfolding r by (auto simp: listed_def)
  qed
qed

lemma findLiberties_adjs_listed:
  "listed s pre L st \<Longrightarrow> listed s pre (L \<union> {e \<in> set ls. colors b e = C_EMPTY}) (fold (findLiberties_adj b (int s) (int s)) ls st)"
proof (induction ls arbitrary: L st)
  case (Cons a ls)
  have "L \<union> {e. e = a \<and> colors b e = C_EMPTY} \<union> {e\<in>set ls. colors b e = C_EMPTY} = L \<union> {e\<in>set (a # ls). colors b e = C_EMPTY}"
    by auto
  then show ?case using Cons.IH [OF findLiberties_adj_listed [OF Cons.prems, where lib = a and b = b]] by simp
qed simp

text \<open>It appends exactly the liberties of the chain, each once, and answers their number.\<close>

lemma findLiberties_spec:
  assumes core: "core Z off E b" and st: "is_stone (colors b l)" and s: "s \<le> length buf"
  shows "\<exists>buf'. findLiberties b l buf (int s) (int s) = Some (buf', int (card (libs_of b (chain_of b (chain_head b l))))) \<and>
    listed s (take s buf) (libs_of b (chain_of b (chain_head b l))) (buf', int (card (libs_of b (chain_of b (chain_head b l)))))"
proof -
  let ?S = "chain_of b (chain_head b l)"
  have c: "chains_ok b off" and g: "geom_ok b" using core by (simp_all add: core_def)
  from chain_ring [OF c st] obtain ps where r: "ring (next_in_chain b) l ps" and ps: "set (l # ps) = ?S" by blast
  let ?body = "\<lambda>cur st. fold (findLiberties_adj b (int s) (int s)) (adj4 b cur) st"
  have w: "findLiberties b l buf (int s) (int s) = Some (fold ?body (l # ps) (buf, 0))"
    unfolding findLiberties_def by (rule walk_all_ring [OF r, where I = "\<lambda>_. True"]) simp_all
  have "listed s (take s buf) (libs_of b (set xs)) (fold ?body xs (buf, 0))" for xs
  proof (induction xs rule: rev_induct)
    case Nil
    then show ?case using s by (simp add: listed_def segment_of_def libs_of_def)
  next
    case (snoc x xs)
    have "libs_of b (set xs) \<union> {e\<in>set (adj4 b x). colors b e = C_EMPTY} = libs_of b (set (xs @ [x]))"
      by (auto simp: libs_of_def adj4_adjs [OF g] set_adjs)
    then show ?case using findLiberties_adjs_listed [OF snoc.IH, where ls = "adj4 b x" and b = b] by simp
  qed
  from this [of "l # ps"] have li: "listed s (take s buf) (libs_of b ?S) (fold ?body (l # ps) (buf, 0))"
    unfolding ps .
  obtain buf' n where f: "fold ?body (l # ps) (buf, 0) = (buf', n)" by (cases "fold ?body (l # ps) (buf, 0)")
  from li [unfolded f] have "n = int (card (libs_of b ?S))" by (rule listed_count)
  then show ?thesis using w li unfolding f by blast
qed

section \<open>Checking a chain\<close>

lemma card_on_board: "0 \<le> xs \<Longrightarrow> 0 \<le> ys \<Longrightarrow> int (card {l. on_board xs ys l}) = xs * ys"
proof -
  assume a: "0 \<le> xs" "0 \<le> ys"
  have "length (locs_of xs ys) = nat xs * nat ys"
    by (simp add: locs_of_def length_concat comp_def sum_list_triv)
  then show ?thesis using a distinct_card [OF distinct_locs_of, of xs ys] by (simp add: set_locs_of)
qed

text \<open>Liberties counted with repetition are at least the liberties.\<close>

lemma libs_le_pseudo:
  "card (libs_of b (set ls)) \<le> (\<Sum>l\<leftarrow>ls. card (libs_of b {l}))"
proof (induction ls)
  case (Cons l ls)
  have "libs_of b (set (l # ls)) = libs_of b {l} \<union> libs_of b (set ls)" by (auto simp: libs_of_def)
  then show ?case using Cons card_Un_le [of "libs_of b {l}" "libs_of b (set ls)"] by simp
qed (simp add: libs_of_def)

lemma checkChain_ok:
  assumes wf: "wf_board Z b" and st: "is_stone (colors b l)"
  shows "\<exists>checked'. checkChainConsistency b l checked = Some (Inr checked')"
proof -
  let ?h = "chain_head b l" let ?S = "chain_of b ?h" let ?pla = "colors b l"
  have core: "core Z (\<lambda>_. 0) {} b" and pos: "0 < num_liberties (chain_data b ?h)"
    using wf st chains_ok_head [of b "\<lambda>_. 0" l] by (simp_all add: wf_board_def core_def)
  then have c: "chains_ok b (\<lambda>_. 0)" and g: "geom_ok b" by (simp_all add: core_def)
  note ok = chains_ok_chain [OF c chains_ok_head [OF c st]]
  have gm: "0 \<le> x_size b" "x_size b \<le> MAX_LEN" "0 \<le> y_size b" "y_size b \<le> MAX_LEN" using g by (simp_all add: geom_ok_def)
  have col: "colors b m = ?pla \<and> chain_head b m = ?h" if "m \<in> ?S" for m
    using chain_ok_color [OF ok that] head_color [OF c st] that by (simp add: chain_of_def)
  obtain ps where r: "ring (next_in_chain b) l ps" and ps: "set (l # ps) = ?S" using chain_ring [OF c st] by blast
  have d: "distinct (l # ps)" and path: "path (next_in_chain b) (next_in_chain b l) ps l" using r by (simp_all add: ring_def)
  have range: "0 \<le> m \<and> m < MAX_ARR_SIZE" if "m \<in> ?S" for m
    using that chain_of_subset [OF g] on_board_in_array [OF wf] by blast
  have next_in: "next_in_chain b m \<in> ?S" if m: "m \<in> ?S" for m
  proof -
    have "is_stone (colors b m)" "chain_head b m = ?h" using m by (simp_all add: chain_of_def)
    then obtain qs where "ring (next_in_chain b) m qs" "set (m # qs) = ?S" using chain_ring [OF c, of m] by auto
    then show ?thesis by (cases qs) (auto simp: ring_def)
  qed
  have "card ?S \<le> card {m. on_board (x_size b) (y_size b) m}" by (intro card_mono chain_of_subset [OF g]) simp
  also have "int \<dots> = x_size b * y_size b" by (rule card_on_board [OF gm(1,3)])
  finally have cS: "int (card ?S) \<le> MAX_PLAY_SIZE"
    using mult_mono [of "x_size b" MAX_LEN "y_size b" MAX_LEN] gm by (simp add: MAX_PLAY_SIZE_def MAX_LEN_def)
  have xs1: "1 \<le> x_size b" using on_board_xs [OF geom_stone_on_board [OF g st]] .
  define I where "I = (\<lambda>rem (s :: loc set \<times> int \<times> int \<times> bool). \<exists>dn. dn @ rem = l # ps \<and> fst (snd s) = int (length dn) \<and>
    fst (snd (snd s)) = int (\<Sum>m\<leftarrow>dn. card (libs_of b {m})) \<and> snd (snd (snd s)) = (?h \<in> set dn))"
  have "\<exists>t. walk_chain (\<lambda>_. next_in_chain b) (check_chain_body b ?pla ?h) l l (checked, 0, 0, False) = Some (Inr t) \<and> I [] t"
  proof (rule walk_chain_total [where nx = "next_in_chain b"])
    show "path (next_in_chain b) l (l # ps) l" using path by simp
    show "l \<notin> set ps" using d by simp
    show "I (l # ps) (checked, 0, 0, False)" by (auto simp: I_def)
    fix x ys and s :: "loc set \<times> int \<times> int \<times> bool"
    assume i: "I (x # ys) s" and "x \<in> set (l # ps)"
    then have x: "x \<in> ?S" using ps by blast
    obtain ch cnt psd fnd where s: "s = (ch, cnt, psd, fnd)" by (cases s)
    obtain dn where dn: "dn @ x # ys = l # ps" "cnt = int (length dn)" "psd = int (\<Sum>m\<leftarrow>dn. card (libs_of b {m}))"
      "fnd = (?h \<in> set dn)" using i by (auto simp: I_def s)
    have "length (dn @ [x]) \<le> length (l # ps)" unfolding dn(1) [symmetric] by simp
    then have "cnt + 1 \<le> MAX_PLAY_SIZE" using distinct_card [OF d] cS ps dn(2) by simp
    then have "check_chain_body b ?pla ?h x s =
        Inr (insert x ch, cnt + 1, psd + getNumImmediateLiberties b x, fnd \<or> x = ?h)"
      using col [OF x] range [OF next_in [OF x]] by (simp add: check_chain_body_def s Let_def not_less not_le)
    moreover have "I ys (insert x ch, cnt + 1, psd + getNumImmediateLiberties b x, fnd \<or> x = ?h)"
      unfolding I_def using dn getNumImmediateLiberties_eq [OF g xs1, of x] by (intro exI [of _ "dn @ [x]"]) auto
    ultimately show "\<exists>t. check_chain_body b ?pla ?h x s = Inr t \<and> next_in_chain b x = next_in_chain b x \<and> I ys t" by blast
  qed
  then obtain ch cnt psd fnd where w: "walk_chain (\<lambda>_. next_in_chain b) (check_chain_body b ?pla ?h) l l (checked, 0, 0, False) =
      Some (Inr (ch, cnt, psd, fnd))" and i: "I [] (ch, cnt, psd, fnd)" by auto
  have f: "cnt = int (card ?S)" "psd = int (\<Sum>m\<leftarrow>l # ps. card (libs_of b {m}))" "fnd = (?h \<in> set (l # ps))"
    using i distinct_card [OF d] ps by (auto simp: I_def)
  have fnd: "fnd" using f(3) chain_of_self [OF chains_ok_head [OF c st]] unfolding ps by simp
  have nl: "num_liberties (chain_data b ?h) = int (card (libs_of b ?S))" using ok by (simp add: chain_ok_def)
  have "num_liberties (chain_data b ?h) \<le> psd"
    using libs_le_pseudo [of b "l # ps"] unfolding f(2) nl ps by simp
  moreover obtain buf where "findLiberties b l [] 0 0 = Some (buf, int (card (libs_of b ?S)))"
    using findLiberties_spec [OF core st, of 0 "[]"] by auto
  moreover have "owner (chain_data b ?h) = ?pla" "num_locs (chain_data b ?h) = cnt"
    using ok f(1) head_color [OF c st] by (simp_all add: chain_ok_def)
  ultimately show ?thesis using w fnd pos nl by (simp add: checkChainConsistency_def Let_def)
qed

section \<open>The whole check\<close>

lemma hxor_list_remove1: "x \<in> set xs \<Longrightarrow> hxor_list xs = hxor x (hxor_list (remove1 x xs))"
  by (induction xs) (auto simp: hxor_ac)

lemma hxor_list_mset: "mset xs = mset ys \<Longrightarrow> hxor_list xs = hxor_list ys"
proof (induction xs arbitrary: ys)
  case (Cons x xs)
  then have "set ys = insert x (set xs)" by (metis list.set(2) mset_eq_setD)
  moreover have "mset xs = mset (remove1 x ys)" using Cons.prems by (metis add_mset_remove_trivial mset.simps(2) mset_remove1)
  ultimately have "x \<in> set ys" "mset xs = mset (remove1 x ys)" by simp_all
  then have "hxor_list xs = hxor_list (remove1 x ys)" "x \<in> set ys" using Cons.IH by blast+
  then show ?case using hxor_list_remove1 [of x ys] by simp
qed simp

lemma hxor_list_filter: "hxor_list (map f xs) = hxor_list (map f (filter (\<lambda>x. f x \<noteq> hash128_zero) xs))"
  by (induction xs) auto

text \<open>The sum over a larger list of distinct points is the same if the others contribute nothing.\<close>

lemma hxor_list_superset:
  assumes "distinct xs" "distinct ys" "set ys \<subseteq> set xs" "\<And>x. x \<in> set xs - set ys \<Longrightarrow> f x = hash128_zero"
  shows "hxor_list (map f xs) = hxor_list (map f ys)"
proof -
  have "mset (filter (\<lambda>x. f x \<noteq> hash128_zero) xs) = mset (filter (\<lambda>x. f x \<noteq> hash128_zero) ys)"
    using assms by (subst set_eq_iff_mset_eq_distinct [symmetric]) auto
  then have "hxor_list (map f (filter (\<lambda>x. f x \<noteq> hash128_zero) xs)) = hxor_list (map f (filter (\<lambda>x. f x \<noteq> hash128_zero) ys))"
    by (intro hxor_list_mset) (metis mset_map)
  then show ?thesis by (metis hxor_list_filter)
qed

lemma coords_iff:
  assumes "0 \<le> l" "0 \<le> xs"
  shows "\<not> (getX l xs < 0 \<or> xs \<le> getX l xs \<or> getY l xs < 0 \<or> ys \<le> getY l xs) \<longleftrightarrow> on_board xs ys l"
proof -
  have e: "getX l xs = l mod (xs + 1) - 1" "getY l xs = l div (xs + 1) - 1"
    using assms by (simp_all add: getX_def getY_def smod_int_alt_def signed_divide_int_def sgn_if)
  show ?thesis
  proof
    assume "on_board xs ys l"
    then obtain x y where xy: "0 \<le> x" "x < xs" "0 \<le> y" "y < ys" "l = (x + 1) + (y + 1) * (xs + 1)"
      by (auto simp: on_board_def)
    then have "l div (xs + 1) = y + 1" "l mod (xs + 1) = x + 1"
      by (simp_all add: div_pos_pos_trivial mod_pos_pos_trivial)
    then show "\<not> (getX l xs < 0 \<or> xs \<le> getX l xs \<or> getY l xs < 0 \<or> ys \<le> getY l xs)" using xy e by simp
  next
    assume "\<not> (getX l xs < 0 \<or> xs \<le> getX l xs \<or> getY l xs < 0 \<or> ys \<le> getY l xs)"
    moreover have "l = (getX l xs + 1) + (getY l xs + 1) * (xs + 1)"
      using mod_div_mult_eq [of l "xs + 1"] unfolding e by simp
    ultimately show "on_board xs ys l" unfolding on_board_def by (intro exI [of _ "getX l xs"] exI [of _ "getY l xs"]) simp
  qed
qed

lemma checkConsistency_ok:
  assumes wf: "wf_board Z b" and Z: "\<And>l. 0 \<le> l \<Longrightarrow> l < MAX_ARR_SIZE \<Longrightarrow> ZOBRIST_BOARD_HASH Z l C_EMPTY = hash128_zero"
  shows "checkConsistency Z b = Some (Inr ())"
proof -
  have g: "geom_ok b" and h: "hash_ok Z b" and ko: "ko_ok b" using wf by (simp_all add: wf_board_def core_def)
  have gm: "0 \<le> x_size b" "x_size b \<le> MAX_LEN" "0 \<le> y_size b" "y_size b \<le> MAX_LEN" using g by (simp_all add: geom_ok_def)
  let ?base = "hxor (ZOBRIST_SIZE_X_HASH Z (x_size b)) (ZOBRIST_SIZE_Y_HASH Z (y_size b))"
  let ?f = "\<lambda>l. stone_hash Z l (colors b l)"
  let ?locs = "[0..MAX_ARR_SIZE - 1]"
  have point: "\<exists>ch'. check_point Z b l (ch, hs) = Some (Inr (ch', hxor hs (?f l)))" if "0 \<le> l" for l ch hs
  proof (cases "is_stone (colors b l)")
    case True
    obtain ch' where "(if l \<notin> ch then checkChainConsistency b l ch else Some (Inr ch)) = Some (Inr ch')"
      using checkChain_ok [OF wf True, of ch] by (cases "l \<in> ch") auto
    moreover have "on_board (x_size b) (y_size b) l" by (rule geom_stone_on_board [OF g True])
    moreover from this have "ZOBRIST_BOARD_HASH Z l C_EMPTY = hash128_zero" using on_board_in_array [OF wf] Z by blast
    ultimately show ?thesis
      using True coords_iff [OF that gm(1), of "y_size b"]
      by (auto simp: check_point_def Let_def stone_cases stone_hash_def)
  next
    case False
    then have "colors b l = C_EMPTY \<or> colors b l = C_WALL" by (cases "colors b l") simp_all
    then show ?thesis
      using coords_iff [OF that gm(1), of "y_size b"] on_board_iff [OF wf, of l]
      by (auto simp: check_point_def Let_def stone_hash_def)
  qed
  have "\<exists>ch. foldRM (check_point Z b) ls (c0, hs) = Some (Inr (ch, hxor hs (hxor_list (map ?f ls))))"
    if "\<forall>l\<in>set ls. 0 \<le> l" for ls c0 hs
    using that
  proof (induction ls arbitrary: c0 hs)
    case (Cons l ls)
    obtain ch where "check_point Z b l (c0, hs) = Some (Inr (ch, hxor hs (?f l)))"
      using point [of l c0 hs] Cons.prems by auto
    then show ?case using Cons.IH [of ch "hxor hs (?f l)"] Cons.prems by (simp add: hxor_assoc)
  qed simp
  then obtain ch where "foldRM (check_point Z b) ?locs ({}, ?base) = Some (Inr (ch, hxor ?base (hxor_list (map ?f ?locs))))"
    by fastforce
  moreover have "hxor ?base (hxor_list (map ?f ?locs)) = pos_hash b"
  proof -
    have "hxor_list (map ?f ?locs) = hxor_list (map ?f (locs_of (x_size b) (y_size b)))"
    proof (rule hxor_list_superset)
      show "set (locs_of (x_size b) (y_size b)) \<subseteq> set ?locs"
        using on_board_in_array [OF wf] by (auto simp: set_locs_of)
      show "?f x = hash128_zero" if "x \<in> set ?locs - set (locs_of (x_size b) (y_size b))" for x
        using that geom_stone_on_board [OF g, of x] by (auto simp: set_locs_of stone_hash_def)
    qed (simp_all add: distinct_locs_of)
    then show ?thesis using h by (simp add: hash_ok_def position_hash_def)
  qed
  moreover have "check_ko b = Inr ()"
  proof (cases "ko_loc b = NULL_LOC")
    case False
    then have o: "on_board (x_size b) (y_size b) (ko_loc b)" and n: "libs_of b {ko_loc b} = {}"
      using ko by (auto simp: ko_ok_def libs_of_def)
    moreover have "0 \<le> ko_loc b" using on_board_in_array [OF wf o] by simp
    ultimately show ?thesis
      using coords_iff [OF _ gm(1), of "ko_loc b" "y_size b"] getNumImmediateLiberties_eq [OF g on_board_xs [OF o], of "ko_loc b"]
      by (simp add: check_ko_def Let_def)
  qed (simp add: check_ko_def)
  moreover have "adj_offsets b = getAdjacentOffsets (x_size b)" using g by (simp add: geom_ok_def)
  ultimately show ?thesis by (simp add: checkConsistency_def list_ex_iff)
qed

text \<open>The tables that \<open>initHash\<close> fills have no hash for an empty point, whatever the generator yields.\<close>

lemma fold_keeps: "(\<And>x s. g (f x s) = g s) \<Longrightarrow> g (fold f xs s) = g s"
  by (induction xs arbitrary: s) simp_all

lemma init_keeps:
  "ZOBRIST_BOARD_HASH (fst (init_second next i j s)) = ZOBRIST_BOARD_HASH (fst s)"
  "ZOBRIST_BOARD_HASH (fst (init_size next k s)) = ZOBRIST_BOARD_HASH (fst s)"
  "ZOBRIST_BOARD_HASH (fst (init_hash2 next i j s)) = ZOBRIST_BOARD_HASH (fst s)"
  by (simp_all add: init_second_def init_size_def init_hash2_def Let_def split: prod.split)

lemma init_board_loc_empty:
  "ZOBRIST_BOARD_HASH (fst (init_board_loc next i s)) l C_EMPTY =
     (if l = i then hash128_zero else ZOBRIST_BOARD_HASH (fst s) l C_EMPTY)"
proof -
  have e: "ZOBRIST_BOARD_HASH (fst (init_board_color next i j s)) l C_EMPTY =
      (if l = i \<and> j = C_EMPTY then hash128_zero else ZOBRIST_BOARD_HASH (fst s) l C_EMPTY)" for j s
    by (auto simp: init_board_color_def hash128_zero_def split: prod.split)
  have f: "fst (init_board_loc next i s) = (fst (fold (init_board_color next i) all_colors s))
      \<lparr>ZOBRIST_KO_LOC_HASH := ZOBRIST_KO_LOC_HASH (fst (init_board_loc next i s))\<rparr>"
    by (simp add: init_board_loc_def split: prod.split)
  have "ZOBRIST_BOARD_HASH (fst (init_board_loc next i s)) = ZOBRIST_BOARD_HASH (fst (fold (init_board_color next i) all_colors s))"
    by (subst f) simp
  then show ?thesis by (simp add: all_colors_def e)
qed

lemma initHash_empty:
  assumes "0 \<le> l" and "l < MAX_ARR_SIZE"
  shows "ZOBRIST_BOARD_HASH (initHash rand_init next Z) l C_EMPTY = hash128_zero"
proof -
  let ?B = "\<lambda>s :: zobrist \<times> 'a. ZOBRIST_BOARD_HASH (fst s)"
  have locs: "ZOBRIST_BOARD_HASH (fst (fold (init_board_loc next) ls s)) l C_EMPTY =
      (if l \<in> set ls then hash128_zero else ZOBRIST_BOARD_HASH (fst s) l C_EMPTY)" for ls s
    by (induction ls arbitrary: s) (simp_all add: init_board_loc_empty)
  have k: "?B (fold (\<lambda>i. fold (init_second next i) all_colors) ls s) = ?B s"
    "?B (fold (init_size next) ks s) = ?B s"
    "?B (fold (\<lambda>i. fold (init_hash2 next i) all_colors) ls s) = ?B s" for ls ks s
    by (rule fold_keeps [where g = ?B], (rule fold_keeps [where g = ?B])?, simp add: init_keeps)+
  show ?thesis
    using assms k locs unfolding initHash_def Let_def by (auto simp: case_prod_beta)
qed

lemma isEqualForTesting_eq:
  assumes "wf_board Z b" "wf_board Z c"
    "\<And>l. 0 \<le> l \<Longrightarrow> l < MAX_ARR_SIZE \<Longrightarrow> ZOBRIST_BOARD_HASH Z l C_EMPTY = hash128_zero"
  shows "isEqualForTesting Z b c caps ko = Some (Inr
    (x_size b = x_size c \<and> y_size b = y_size c \<and> colors b = colors c \<and> (ko \<longrightarrow> ko_loc b = ko_loc c) \<and>
     (caps \<longrightarrow> numBlackCaptures b = numBlackCaptures c \<and> numWhiteCaptures b = numWhiteCaptures c)))"
proof -
  have "colors b = colors c" if "x_size b = x_size c" "y_size b = y_size c" "\<forall>l\<in>set [0..MAX_ARR_SIZE - 1]. colors b l = colors c l"
  proof
    fix l show "colors b l = colors c l"
      using that on_board_iff [OF assms(1), of l] on_board_iff [OF assms(2), of l] on_board_in_array [OF assms(1), of l]
      by (cases "on_board (x_size b) (y_size b) l") auto
  qed
  moreover have "pos_hash b = pos_hash c" if "x_size b = x_size c" "y_size b = y_size c" "colors b = colors c"
    using assms(1,2) that by (simp add: wf_board_def core_def hash_ok_def)
  ultimately show ?thesis
    using assms by (auto simp: isEqualForTesting_def checkConsistency_ok list_all_iff)
qed

end
