(* ===== verification/PositionProps.thy ===== *)
theory PositionProps
  imports BoardCheck Demo
begin

text \<open>
  The properties of editing, writing, reading and checking positions, with instances on small
  boards.
\<close>

lemma small_stones:
  "wf_board demo_zobrist (demo 3 [(5, C_WHITE), (6, C_BLACK)])"
  "colors (demo 3 [(5, C_WHITE), (6, C_BLACK)]) 5 = C_WHITE" "colors (demo 3 [(5, C_WHITE), (6, C_BLACK)]) 6 = C_BLACK"
  "x_size (demo 3 [(5, C_WHITE), (6, C_BLACK)]) = 3" "y_size (demo 3 [(5, C_WHITE), (6, C_BLACK)]) = 3"
  by (simp_all add: demo_wf, code_simp, code_simp)

section \<open>Editing\<close>

text \<open>
  \<open>Board::removeSingleStone\<close> removes one stone. It takes the whole chain off and replays its
  other stones; on a well-formed board this returns, none of the replayed moves captures
  anything or is suicide, exactly the one point becomes empty, the capture counts stay, and the
  board is well formed but for the simple ko point, which the callers clear.
\<close>

theorem removeSingleStone_exact:
  assumes "wf_board Z b" and "is_stone (colors b l)"
  shows "\<exists>b'. removeSingleStone Z l b = Some b' \<and> wf_board Z (b'\<lparr>ko_loc := NULL_LOC\<rparr>) \<and>
    colors b' = (colors b)(l := C_EMPTY) \<and>
    numBlackCaptures b' = numBlackCaptures b \<and> numWhiteCaptures b' = numWhiteCaptures b"
  using removeSingleStone_spec [of Z b l] live_null_wf assms by (fastforce simp: wf_board_live)

theorem removeSingleStone_exact_witness:
  "\<exists>b'. removeSingleStone demo_zobrist 6 (demo 3 [(5, C_WHITE), (6, C_BLACK)]) = Some b' \<and>
     colors b' 5 = C_WHITE \<and> colors b' 6 = C_EMPTY"
proof -
  have "is_stone (colors (demo 3 [(5, C_WHITE), (6, C_BLACK)]) 6)" unfolding small_stones by simp
  from removeSingleStone_exact [OF small_stones(1) this] show ?thesis using small_stones(2) by auto
qed

text \<open>
  C25: \<open>Board::setStone\<close> is total and does to the colours what \<open>set_colors\<close> says: nothing where
  the colour is there already; on an empty point a move by the rules, unless it would only remove
  itself; emptying a point removes the stone; and replacing a stone removes it and makes the
  move, unless that is suicide of any number of stones. Multi-stone suicide is thus played on an
  empty point but not on a point that held a stone.
\<close>

theorem setStone_exact:
  assumes "wf_board Z b" and "colors b l \<noteq> C_WALL" and "col \<noteq> C_WALL"
  shows "\<exists>b'. setStone Z l col b = Some (b', True) \<and> wf_board Z b' \<and> ko_loc b' = NULL_LOC \<and>
    colors b' = set_colors (x_size b) (colors b) l col"
  using setStone_spec [OF assms] by blast

theorem setStone_exact_witness:
  "\<exists>b'. setStone demo_zobrist 6 C_EMPTY (demo 3 [(5, C_WHITE), (6, C_BLACK)]) = Some (b', True) \<and>
     colors b' 6 = C_EMPTY"
proof -
  have "colors (demo 3 [(5, C_WHITE), (6, C_BLACK)]) 6 \<noteq> C_WALL" unfolding small_stones by simp
  from setStone_exact [OF small_stones(1) this, of C_EMPTY] show ?thesis
    using small_stones(3) by (auto simp: set_colors_def)
qed

text \<open>
  C26: \<open>Board::setStonesFailIfNoLibs\<close> accepts a list of placements exactly when it should. It
  returns on every list; it answers true if and only if the points are distinct points of the
  board, the colours are stones or empty, and in the position that results every chain has a
  liberty; then the board has that position. No order of the list makes a good position fail on
  the way. In every case the board stays well formed and no capture is counted.
\<close>

theorem setStonesFailIfNoLibs_exact:
  assumes "wf_board Z b"
  shows "\<exists>b' ok. setStonesFailIfNoLibs Z ms b = Some (b', ok) \<and> wf_board Z b' \<and>
    numBlackCaptures b' = numBlackCaptures b \<and> numWhiteCaptures b' = numWhiteCaptures b \<and>
    (ok \<longleftrightarrow> distinct (map mv_loc ms) \<and> list_all (placeable b) (stones_of ms) \<and>
       lively (x_size b) (apply_stones (stones_of ms) (colors b))) \<and>
    (ok \<longrightarrow> colors b' = apply_stones (stones_of ms) (colors b))"
  using setStonesFailIfNoLibs_spec [OF assms, of ms] by blast

theorem setStonesFailIfNoLibs_exact_witness:
  "(\<exists>b'. setStonesFailIfNoLibs demo_zobrist [\<lparr>mv_loc = 5, mv_pla = C_BLACK\<rparr>, \<lparr>mv_loc = 5, mv_pla = C_WHITE\<rparr>] (fresh 3)
      = Some (b', False)) \<and>
   (\<exists>b'. setStonesFailIfNoLibs demo_zobrist [] (fresh 3) = Some (b', True))"
proof -
  have w: "wf_board demo_zobrist (fresh 3)" by (rule fresh_facts(1)) simp_all
  then have lv: "lively (x_size (fresh 3)) (colors (fresh 3))" using live_lively by (auto simp: wf_board_live)
  from setStonesFailIfNoLibs_exact [OF w, of "[\<lparr>mv_loc = 5, mv_pla = C_BLACK\<rparr>, \<lparr>mv_loc = 5, mv_pla = C_WHITE\<rparr>]"]
    setStonesFailIfNoLibs_exact [OF w, of "[]"] lv
  show ?thesis by (auto simp: stones_of_def)
qed

section \<open>Writing, reading and checking\<close>

text \<open>
  C27: Positions survive JSON. What \<open>Board::toJson\<close> writes for a well-formed board,
  \<open>Board::ofJson\<close> reads as a well-formed board with the same size, colours, simple ko point,
  capture counts and position hash: the parser, which sets the stones down one by one and refuses
  any that has no liberty, refuses none of them.
\<close>

theorem board_json_exact:
  assumes "wf_board Z b"
  shows "\<exists>b'. Board_ofJson Z b0 (Board_toJson b) = Some (Inr b') \<and> wf_board Z b' \<and>
    x_size b' = x_size b \<and> y_size b' = y_size b \<and> colors b' = colors b \<and> ko_loc b' = ko_loc b \<and>
    numBlackCaptures b' = numBlackCaptures b \<and> numWhiteCaptures b' = numWhiteCaptures b \<and> pos_hash b' = pos_hash b"
  by (rule board_json_roundtrip [OF assms])

theorem board_json_exact_witness:
  "\<exists>b'. Board_ofJson demo_zobrist blank_board (Board_toJson (demo 3 [(5, C_WHITE), (6, C_BLACK)])) = Some (Inr b') \<and>
     colors b' 5 = C_WHITE \<and> colors b' 6 = C_BLACK"
  using board_json_exact [OF small_stones(1), of blank_board] small_stones(2,3) by auto

text \<open>
  C28: The self-check never complains about a well-formed board. With the tables that
  \<open>Board::initHash\<close> fills from any generator, \<open>Board::checkConsistency\<close> returns without an error,
  and \<open>Board::isEqualForTesting\<close> of two such boards answers whether size, colours and, if asked,
  captures and ko point are the same.
\<close>

theorem self_check_passes:
  assumes "wf_board Z b" and "wf_board Z c" and "Z = initHash rand_init next Z0"
  shows "checkConsistency Z b = Some (Inr ()) \<and> isEqualForTesting Z b c caps ko = Some (Inr
    (x_size b = x_size c \<and> y_size b = y_size c \<and> colors b = colors c \<and> (ko \<longrightarrow> ko_loc b = ko_loc c) \<and>
     (caps \<longrightarrow> numBlackCaptures b = numBlackCaptures c \<and> numWhiteCaptures b = numWhiteCaptures c)))"
  using checkConsistency_ok [OF assms(1)] isEqualForTesting_eq [OF assms(1,2)] initHash_empty assms(3) by blast

theorem self_check_passes_witness:
  "\<exists>b c. Board_init (initHash (\<lambda>_. 7) (\<lambda>r. (r, r + 1)) demo_zobrist) blank_board 9 9 = Inr b \<and>
     Board_init (initHash (\<lambda>_. 7) (\<lambda>r. (r, r + 1)) demo_zobrist) blank_board 13 13 = Inr c \<and>
     isEqualForTesting (initHash (\<lambda>_. 7) (\<lambda>r. (r, r + 1)) demo_zobrist) b c True True = Some (Inr False)"
proof -
  let ?Z = "initHash (\<lambda>_. 7) (\<lambda>r. (r, r + 1)) demo_zobrist"
  have "\<exists>b. Board_init ?Z blank_board 9 9 = Inr b" "\<exists>c. Board_init ?Z blank_board 13 13 = Inr c"
    unfolding Board_init_ok by (simp_all add: MAX_LEN_def)
  then obtain b c where b: "Board_init ?Z blank_board 9 9 = Inr b" and c: "Board_init ?Z blank_board 13 13 = Inr c"
    by blast
  from self_check_passes [OF Board_init_wf [OF b] Board_init_wf [OF c] refl, of True True]
    Board_init_facts(1) [OF b] Board_init_facts(1) [OF c]
  show ?thesis using b c by auto
qed

text \<open>
  C29: \<open>Board::findLiberties\<close>, from which the ladder search takes its moves, appends to the buffer
  exactly the liberties of the chain, each once, leaves what was in the buffer before alone,
  never writes past its end, and answers their number, which is the count the chain keeps.
\<close>

theorem findLiberties_exact:
  assumes "wf_board Z b" and "is_stone (colors b l)" and "s \<le> length buf"
  shows "\<exists>buf' n. findLiberties b l buf (int s) (int s) = Some (buf', n) \<and> n = getNumLiberties b l \<and>
    int s + n \<le> int (length buf') \<and> take s buf' = take s buf \<and> distinct (take (nat n) (drop s buf')) \<and>
    set (take (nat n) (drop s buf')) = {e. colors b e = C_EMPTY \<and> (\<exists>m\<in>group (x_size b) (colors b) l. adjacent (x_size b) m e)}"
proof -
  have core: "core Z (\<lambda>_. 0) {} b" and c: "chains_ok b (\<lambda>_. 0)" and mx: "max_ok b {}"
    using assms(1) by (simp_all add: wf_board_def core_def)
  have g: "group (x_size b) (colors b) l = chain_of b (chain_head b l)"
    by (rule chain_group [OF c assms(2)]) (use mx assms(2) in \<open>auto simp: max_ok_def\<close>)
  have "getNumLiberties b l = int (card (libs_of b (chain_of b (chain_head b l))))"
    using chains_ok_chain [OF c chains_ok_head [OF c assms(2)]] by (simp add: getNumLiberties_def chain_ok_def)
  then show ?thesis
    using findLiberties_spec [OF core assms(2,3)] by (auto simp: g listed_def segment_of_def libs_of_def)
qed

theorem findLiberties_exact_witness:
  "\<exists>buf' n. findLiberties (demo 3 [(5, C_WHITE), (6, C_BLACK)]) 6 [] 0 0 = Some (buf', n) \<and> n = 2 \<and>
     set (take (nat n) buf') = {7, 10}"
proof -
  let ?b = "demo 3 [(5, C_WHITE), (6, C_BLACK)]"
  have s: "is_stone (colors ?b 6)" unfolding small_stones by simp
  have n: "getNumLiberties ?b 6 = 2" by code_simp
  from findLiberties_exact [OF small_stones(1) s, of 0 "[]"] n
  obtain buf' where r: "findLiberties ?b 6 [] 0 0 = Some (buf', 2)" by auto
  have "map_option (\<lambda>(buf, n). take (nat n) buf) (findLiberties ?b 6 [] 0 0) = Some [7, 10]" by code_simp
  then show ?thesis using r by (auto intro!: exI [of _ buf'] exI [of _ 2])
qed

end
