(* ===== verification/Symmetry.thy ===== *)
theory Symmetry
  imports History
begin

unbundle bit_operations_syntax

text \<open>
  Positions of the policy array and the eight symmetries of the board
  (\<open>neuralnet/nninputs.h\<close>, \<open>neuralnet/nninputs.cpp\<close>): \<open>NNPos\<close> and \<open>SymmetryHelpers\<close>. A symmetry
  is a number of three bits, flip y, flip x and transpose, applied in that order. Arrays of
  floats that are only copied are functions from indices to an arbitrary type.
\<close>

section \<open>Positions\<close>

definition xyToPos :: "int \<Rightarrow> int \<Rightarrow> int \<Rightarrow> int" where
  "xyToPos x y nnXLen = y * nnXLen + x"

definition locToPos :: "loc \<Rightarrow> int \<Rightarrow> int \<Rightarrow> int \<Rightarrow> int" where
  "locToPos loc boardXSize nnXLen nnYLen =
     (if loc = PASS_LOC then nnXLen * nnYLen
      else if loc = NULL_LOC then nnXLen * (nnYLen + 1)
      else getY loc boardXSize * nnXLen + getX loc boardXSize)"

definition posToLoc :: "int \<Rightarrow> int \<Rightarrow> int \<Rightarrow> int \<Rightarrow> int \<Rightarrow> loc" where
  "posToLoc pos boardXSize boardYSize nnXLen nnYLen =
     (if pos = nnXLen * nnYLen then PASS_LOC
      else
        let x = pos smod nnXLen; y = pos sdiv nnXLen
        in if x < 0 \<or> x \<ge> boardXSize \<or> y < 0 \<or> y \<ge> boardYSize then NULL_LOC
           else getLoc x y boardXSize)"

definition getPassPos :: "int \<Rightarrow> int \<Rightarrow> int" where
  "getPassPos nnXLen nnYLen = nnXLen * nnYLen"

definition isPassPos :: "int \<Rightarrow> int \<Rightarrow> int \<Rightarrow> bool" where
  "isPassPos pos nnXLen nnYLen \<longleftrightarrow> pos = nnXLen * nnYLen"

definition getPolicySize :: "int \<Rightarrow> int \<Rightarrow> int" where
  "getPolicySize nnXLen nnYLen = nnXLen * nnYLen + 1"

section \<open>Symmetries\<close>

definition NUM_SYMMETRIES :: int where "NUM_SYMMETRIES = 8"
definition NUM_SYMMETRIES_WITHOUT_TRANSPOSE :: int where "NUM_SYMMETRIES_WITHOUT_TRANSPOSE = 4"

definition isTranspose :: "int \<Rightarrow> bool" where "isTranspose symmetry \<longleftrightarrow> symmetry AND 0x4 \<noteq> 0"
definition isFlipX :: "int \<Rightarrow> bool" where "isFlipX symmetry \<longleftrightarrow> symmetry AND 0x2 \<noteq> 0"
definition isFlipY :: "int \<Rightarrow> bool" where "isFlipY symmetry \<longleftrightarrow> symmetry AND 0x1 \<noteq> 0"

definition invert :: "int \<Rightarrow> int" where
  "invert symmetry = (if symmetry = 5 then 6 else if symmetry = 6 then 5 else symmetry)"

definition compose :: "int \<Rightarrow> int \<Rightarrow> int" where
  "compose firstSymmetry nextSymmetry =
     (let nextSymmetry =
            (if isTranspose firstSymmetry
             then (nextSymmetry AND 0x4) OR drop_bit 1 (nextSymmetry AND 0x2) OR push_bit 1 (nextSymmetry AND 0x1)
             else nextSymmetry)
      in firstSymmetry XOR nextSymmetry)"

definition compose3 :: "int \<Rightarrow> int \<Rightarrow> int \<Rightarrow> int" where
  "compose3 firstSymmetry nextSymmetry nextNextSymmetry =
     compose (compose firstSymmetry nextSymmetry) nextNextSymmetry"

text \<open>\<open>getSymLoc\<close> on coordinates and on points.\<close>

definition getSymLoc_xy :: "int \<Rightarrow> int \<Rightarrow> int \<Rightarrow> int \<Rightarrow> int \<Rightarrow> loc" where
  "getSymLoc_xy x y xSize ySize symmetry =
     (let transpose = symmetry AND 0x4 \<noteq> 0;
          flipX = symmetry AND 0x2 \<noteq> 0;
          flipY = symmetry AND 0x1 \<noteq> 0;
          x = (if flipX then xSize - x - 1 else x);
          y = (if flipY then ySize - y - 1 else y);
          (x, y) = (if transpose then (y, x) else (x, y))
      in getLoc x y (if transpose then ySize else xSize))"

definition getSymLoc :: "loc \<Rightarrow> int \<Rightarrow> int \<Rightarrow> int \<Rightarrow> loc" where
  "getSymLoc loc xSize ySize symmetry =
     (if loc = NULL_LOC \<or> loc = PASS_LOC then loc
      else getSymLoc_xy (getX loc xSize) (getY loc xSize) xSize ySize symmetry)"

definition getSymLoc_xy_board :: "int \<Rightarrow> int \<Rightarrow> board \<Rightarrow> int \<Rightarrow> loc" where
  "getSymLoc_xy_board x y b symmetry = getSymLoc_xy x y (x_size b) (y_size b) symmetry"

definition getSymLoc_board :: "loc \<Rightarrow> board \<Rightarrow> int \<Rightarrow> loc" where
  "getSymLoc_board loc b symmetry =
     (if loc = NULL_LOC \<or> loc = PASS_LOC then loc
      else getSymLoc_xy_board (getX loc (x_size b)) (getY loc (x_size b)) b symmetry)"

text \<open>\<open>for(int y = 0; y < ys; y++) for(int x = 0; x < xs; x++)\<close>\<close>

definition rows_xy :: "int \<Rightarrow> int \<Rightarrow> (int \<times> int) list" where
  "rows_xy xs ys = [(x, y). y \<leftarrow> [0..ys - 1], x \<leftarrow> [0..xs - 1]]"

text \<open>
  \<open>getSymBoard\<close>: \<open>b0\<close> is the object before its constructor runs; \<open>None\<close> is the failed
  \<open>testAssert\<close>.
\<close>

definition sym_point ::
  "zobrist \<Rightarrow> board \<Rightarrow> int \<Rightarrow> int \<times> int \<Rightarrow> board \<times> loc \<Rightarrow> (board \<times> loc) option" where
  "sym_point Z b symmetry = (\<lambda>(x, y) (symBoard, symKoLoc).
     let transpose = symmetry AND 0x4 \<noteq> 0;
         flipX = symmetry AND 0x2 \<noteq> 0;
         flipY = symmetry AND 0x1 \<noteq> 0;
         loc = getLoc x y (x_size b);
         symX = (if flipX then x_size b - x - 1 else x);
         symY = (if flipY then y_size b - y - 1 else y);
         (symX, symY) = (if transpose then (symY, symX) else (symX, symY));
         symLoc = getLoc symX symY (x_size symBoard)
     in Option.bind (setStoneFailIfNoLibs Z symLoc (colors b loc) symBoard)
          (\<lambda>(symBoard, suc). if \<not> suc then None
             else Some (symBoard, if loc = ko_loc b then symLoc else symKoLoc)))"

definition getSymBoard :: "zobrist \<Rightarrow> board \<Rightarrow> board \<Rightarrow> int \<Rightarrow> (error + board) option" where
  "getSymBoard Z b0 b symmetry =
     (let transpose = symmetry AND 0x4 \<noteq> 0
      in case Board_init Z b0 (if transpose then y_size b else x_size b) (if transpose then x_size b else y_size b) of
           Inl e \<Rightarrow> Some (Inl e)
         | Inr symBoard \<Rightarrow>
             Option.bind (foldM (sym_point Z b symmetry) (rows_xy (x_size b) (y_size b)) (symBoard, NULL_LOC))
               (\<lambda>(symBoard, symKoLoc). Some (Inr
                  (if symKoLoc \<noteq> NULL_LOC then setSimpleKoLoc symBoard symKoLoc else symBoard))))"

section \<open>Copying planes\<close>

text \<open>
  The two layouts of \<open>copyWithSymmetry\<close>: the strides and bases are computed from the flips and
  swapped for a transposition.
\<close>

definition new_strides :: "bool \<Rightarrow> bool \<Rightarrow> bool \<Rightarrow> int \<Rightarrow> int \<Rightarrow> int \<Rightarrow> int \<Rightarrow> int \<times> int \<times> int \<times> int" where
  "new_strides flipX flipY tr hSize wSize hStride wStride =
     (let (hBaseNew, hStrideNew) = (if flipY then ((hSize - 1) * hStride, - hStride) else (0, hStride));
          (wBaseNew, wStrideNew) = (if flipX then ((wSize - 1) * wStride, - wStride) else (0, wStride));
          (hStrideNew, wStrideNew) = (if tr then (wStrideNew, hStrideNew) else (hStrideNew, wStrideNew))
      in (hBaseNew, hStrideNew, wBaseNew, wStrideNew))"

definition copyWithSymmetry ::
  "(int \<Rightarrow> 'a) \<Rightarrow> (int \<Rightarrow> 'a) \<Rightarrow> int \<Rightarrow> int \<Rightarrow> int \<Rightarrow> int \<Rightarrow> bool \<Rightarrow> int \<Rightarrow> bool \<Rightarrow> (int \<Rightarrow> 'a)" where
  "copyWithSymmetry src dst nSize hSize wSize cSize useNHWC symmetry reverse =
     (let transpose = symmetry AND 0x4 \<noteq> 0 \<and> hSize = wSize;
          flipX = symmetry AND 0x2 \<noteq> 0;
          flipY = symmetry AND 0x1 \<noteq> 0;
          (flipX, flipY) = (if transpose \<and> \<not> reverse then (flipY, flipX) else (flipX, flipY))
      in if useNHWC then
           (let nStride = hSize * wSize * cSize; hStride = wSize * cSize; wStride = cSize;
                (hBaseNew, hStrideNew, wBaseNew, wStrideNew) =
                  new_strides flipX flipY transpose hSize wSize hStride wStride
            in fold (\<lambda>n. fold (\<lambda>h.
                 let nhOld = n * nStride + h * hStride; nhNew = n * nStride + hBaseNew + h * hStrideNew
                 in fold (\<lambda>w.
                      let nhwOld = nhOld + w * wStride; nhwNew = nhNew + wBaseNew + w * wStrideNew
                      in fold (\<lambda>c dst. dst(nhwNew + c := src (nhwOld + c))) [0..cSize - 1]) [0..wSize - 1])
                 [0..hSize - 1]) [0..nSize - 1] dst)
         else
           (let ncSize = nSize * cSize; ncStride = hSize * wSize; hStride = wSize; wStride = 1;
                (hBaseNew, hStrideNew, wBaseNew, wStrideNew) =
                  new_strides flipX flipY transpose hSize wSize hStride wStride
            in fold (\<lambda>nc. fold (\<lambda>h.
                 let nchOld = nc * ncStride + h * hStride; nchNew = nc * ncStride + hBaseNew + h * hStrideNew
                 in fold (\<lambda>w dst.
                      let nchwOld = nchOld + w * wStride; nchwNew = nchNew + wBaseNew + w * wStrideNew
                      in dst(nchwNew := src nchwOld)) [0..wSize - 1])
                 [0..hSize - 1]) [0..ncSize - 1] dst))"

definition copyInputsWithSymmetry ::
  "(int \<Rightarrow> 'a) \<Rightarrow> (int \<Rightarrow> 'a) \<Rightarrow> int \<Rightarrow> int \<Rightarrow> int \<Rightarrow> int \<Rightarrow> bool \<Rightarrow> int \<Rightarrow> (int \<Rightarrow> 'a)" where
  "copyInputsWithSymmetry src dst nSize hSize wSize cSize useNHWC symmetry =
     copyWithSymmetry src dst nSize hSize wSize cSize useNHWC symmetry False"

definition copyOutputsWithSymmetry ::
  "(int \<Rightarrow> 'a) \<Rightarrow> (int \<Rightarrow> 'a) \<Rightarrow> int \<Rightarrow> int \<Rightarrow> int \<Rightarrow> int \<Rightarrow> (int \<Rightarrow> 'a)" where
  "copyOutputsWithSymmetry src dst nSize hSize wSize symmetry =
     copyWithSymmetry src dst nSize hSize wSize 1 False symmetry True"

section \<open>Equivalent moves\<close>

text \<open>The test that a symmetry maps the position to itself.\<close>

definition isBoardSym :: "board \<Rightarrow> history \<Rightarrow> int \<Rightarrow> bool" where
  "isBoardSym b h symmetry \<longleftrightarrow>
     list_all (\<lambda>(x, y).
       let loc = getLoc x y (x_size b);
           symLoc = getSymLoc_xy_board x y b symmetry;
           isStoneSym = (colors b loc = colors b symLoc);
           isKoRecapBlockedSym = (if encorePhase h > 0 then koRecapBlocked h loc = koRecapBlocked h symLoc else True);
           isSecondEncoreStartColorsSym =
             (if encorePhase h = 2 then secondEncoreStartColors h loc = secondEncoreStartColors h symLoc else True)
       in isStoneSym \<and> isKoRecapBlockedSym \<and> isSecondEncoreStartColorsSym)
     (rows_xy (x_size b) (y_size b))"

text \<open>The body of the two loops that mark: \<open>avoidMoves\<close> is indexed by points when it is not empty.\<close>

definition mark_point :: "board \<Rightarrow> int list \<Rightarrow> int list \<Rightarrow> int \<times> int \<Rightarrow> (loc \<Rightarrow> bool) \<Rightarrow> (loc \<Rightarrow> bool)" where
  "mark_point b avoidMoves validSymmetries = (\<lambda>(x, y) isSymDupLoc.
     let loc = getLoc x y (x_size b)
     in if length avoidMoves > 0 \<and> avoidMoves ! nat loc > 0 then isSymDupLoc
        else fold (\<lambda>symmetry isSymDupLoc.
               if symmetry = 0 then isSymDupLoc
               else
                 let symLoc = getSymLoc_xy_board x y b symmetry
                 in if \<not> isSymDupLoc loc \<and> loc \<noteq> symLoc then isSymDupLoc(symLoc := True) else isSymDupLoc)
             validSymmetries isSymDupLoc)"

definition markDuplicateMoveLocs ::
  "board \<Rightarrow> history \<Rightarrow> int list option \<Rightarrow> int list \<Rightarrow> (loc \<Rightarrow> bool) \<times> int list" where
  "markDuplicateMoveLocs b h onlySymmetries avoidMoves =
     (let isSymDupLoc = (\<lambda>_. False); validSymmetries = [0]
      in if ko_loc b \<noteq> NULL_LOC then (isSymDupLoc, validSymmetries)
         else if list_ex (\<lambda>(x, y). superKoBanned h (getLoc x y (x_size b))) (rows_xy (x_size b) (y_size b))
         then (isSymDupLoc, validSymmetries)
         else
           let symmetrySearchUpperBound =
                 (if x_size b = y_size b then NUM_SYMMETRIES else NUM_SYMMETRIES_WITHOUT_TRANSPOSE);
               validSymmetries = validSymmetries @
                 filter (\<lambda>symmetry. (case onlySymmetries of None \<Rightarrow> True | Some only \<Rightarrow> symmetry \<in> set only)
                                      \<and> isBoardSym b h symmetry)
                   [1..symmetrySearchUpperBound - 1];
               order = (if presumedNextMovePla h = P_BLACK
                        then [(x, y). x \<leftarrow> rev [0..x_size b - 1], y \<leftarrow> [0..y_size b - 1]]
                        else [(x, y). x \<leftarrow> [0..x_size b - 1], y \<leftarrow> rev [0..y_size b - 1]])
           in (fold (mark_point b avoidMoves validSymmetries) order isSymDupLoc, validSymmetries))"

section \<open>Differences of boards\<close>

definition getSymmetryDifference :: "board \<Rightarrow> board \<Rightarrow> int \<Rightarrow> rat \<Rightarrow> rat" where
  "getSymmetryDifference b other symmetry maxDifferenceToReport =
     (case foldR (\<lambda>(x, y) thisDifference.
        let loc = getLoc x y (x_size b); symLoc = getSymLoc_xy_board x y b symmetry
        in if colors b loc \<noteq> colors other symLoc then
             (let thisDifference = thisDifference +
                    (if colors b loc = C_EMPTY \<or> colors other symLoc = C_EMPTY then 1 else 3)
              in if thisDifference > maxDifferenceToReport then Inl maxDifferenceToReport else Inr thisDifference)
           else Inr thisDifference)
        (rows_xy (x_size b) (y_size b)) 0 of Inl r \<Rightarrow> r | Inr r \<Rightarrow> r)"

definition getSymmetryDifferences :: "board \<Rightarrow> board \<Rightarrow> rat \<Rightarrow> (int \<Rightarrow> rat) \<Rightarrow> (int \<Rightarrow> rat)" where
  "getSymmetryDifferences b other maxDifferenceToReport symmetryDifferences =
     (let symmetryDifferences =
            fold (\<lambda>s d. d(s := maxDifferenceToReport)) [0..NUM_SYMMETRIES - 1] symmetryDifferences
      in if x_size b \<noteq> x_size other \<or> y_size b \<noteq> y_size other then symmetryDifferences
         else
           let numSymmetries = (if x_size b \<noteq> y_size b then NUM_SYMMETRIES_WITHOUT_TRANSPOSE else NUM_SYMMETRIES)
           in fold (\<lambda>s d. d(s := getSymmetryDifference b other s maxDifferenceToReport))
                [0..numSymmetries - 1] symmetryDifferences)"

end
