(* ===== verification/SymmetryBoard.thy ===== *)
theory SymmetryBoard
  imports SymmetryLaws
begin

text \<open>
  \<open>getSymBoard\<close>: the image of a well-formed board under a symmetry. Symmetries keep points
  adjacent, so the image of a lively position is lively and no stone is refused on the way.
\<close>

section \<open>Adjacency in coordinates\<close>

lemma adjacent_coords:
  assumes "0 \<le> x" "x < xs" "0 \<le> x'" "x' < xs"
  shows "adjacent xs ((x + 1) + (y + 1) * (xs + 1)) ((x' + 1) + (y' + 1) * (xs + 1)) \<longleftrightarrow>
    \<bar>x - x'\<bar> + \<bar>y - y'\<bar> = 1"
proof
  assume "adjacent xs ((x + 1) + (y + 1) * (xs + 1)) ((x' + 1) + (y' + 1) * (xs + 1))"
  then consider "(x' + 1) + (y' + 1) * (xs + 1) = (x + 1) + y * (xs + 1)"
    | "(x' + 1) + (y' + 1) * (xs + 1) = x + (y + 1) * (xs + 1)"
    | "(x' + 1) + (y' + 1) * (xs + 1) = (x + 2) + (y + 1) * (xs + 1)"
    | "(x' + 1) + (y' + 1) * (xs + 1) = (x + 1) + (y + 2) * (xs + 1)"
    by (auto simp: adjacent_iff algebra_simps)
  then show "\<bar>x - x'\<bar> + \<bar>y - y'\<bar> = 1"
    by cases (drule near_coords; use assms in auto)+
next
  assume "\<bar>x - x'\<bar> + \<bar>y - y'\<bar> = 1"
  then consider "x' = x" "y' = y + 1" | "x' = x" "y' = y - 1" | "x' = x + 1" "y' = y" | "x' = x - 1" "y' = y"
    by (auto simp: abs_if split: if_splits) (linarith+)?
  then show "adjacent xs ((x + 1) + (y + 1) * (xs + 1)) ((x' + 1) + (y' + 1) * (xs + 1))"
    by cases (auto simp: adjacent_iff algebra_simps)
qed

lemma getSymLoc_adjacent:
  assumes l: "on_board xs ys l" and m: "on_board xs ys m" and M: "xs \<le> MAX_LEN" "ys \<le> MAX_LEN"
    and z: "sym_size s (xs, ys) = (xs', ys')" and a: "adjacent xs l m"
  shows "adjacent xs' (getSymLoc l xs ys s) (getSymLoc m xs ys s)"
proof -
  have M': "xs' \<le> MAX_LEN" "ys' \<le> MAX_LEN" using z M by (auto simp: sym_size_def split: if_splits)
  obtain x y where l': "0 \<le> x" "x < xs" "0 \<le> y" "y < ys" "l = getLoc x y xs"
    using getSymLoc_coords [OF l M] by metis
  obtain u v where m': "0 \<le> u" "u < xs" "0 \<le> v" "v < ys" "m = getLoc u v xs"
    using getSymLoc_coords [OF m M] by metis
  have d: "\<bar>x - u\<bar> + \<bar>y - v\<bar> = 1"
    using a adjacent_coords [OF l'(1,2) m'(1,2)] getLoc_eq [OF l'(1-4) M] getLoc_eq [OF m'(1-4) M] l'(5) m'(5) by simp
  obtain p q where pq: "sym_coords s (xs, ys) (x, y) = (p, q)" by fastforce
  obtain p' q' where pq': "sym_coords s (xs, ys) (u, v) = (p', q')" by fastforce
  note r = sym_coords_range [OF l'(1-4) pq z] and r' = sym_coords_range [OF m'(1-4) pq' z]
  have "\<bar>p - p'\<bar> + \<bar>q - q'\<bar> = 1"
    using d pq pq' by (auto simp: sym_coords_def sym_size_def abs_minus_commute split: if_splits)
  moreover have "getSymLoc l xs ys s = getLoc p q xs'" "getSymLoc m xs ys s = getLoc p' q' xs'"
    unfolding getSymLoc_coords(1) [OF l M] getSymLoc_coords(1) [OF m M] getSymLoc_xy_coords
    using getLoc_on_board [OF l'(1-4) M] getLoc_on_board [OF m'(1-4) M] l'(5) m'(5) pq pq' z by simp_all
  ultimately show ?thesis
    using adjacent_coords [OF r(1,2) r'(1,2)] getLoc_eq [OF r M'] getLoc_eq [OF r' M'] by simp
qed

section \<open>The image of a position\<close>

definition sym_colors :: "int \<Rightarrow> int \<Rightarrow> int \<Rightarrow> (loc \<Rightarrow> color) \<Rightarrow> loc \<Rightarrow> color" where
  "sym_colors s xs ys c m =
     (let (xs', ys') = sym_size s (xs, ys)
      in if on_board xs' ys' m then c (getSymLoc m xs' ys' (invert s)) else C_WALL)"

lemma sym_size_invert:
  "sym_size s (xs, ys) = (xs', ys') \<Longrightarrow> 0 \<le> s \<Longrightarrow> s < 8 \<Longrightarrow> sym_size (invert s) (xs', ys') = (xs, ys)"
  using invert_table [of s] by (auto simp: sym_size_def split: if_splits)

lemma invert_invert [simp]: "invert (invert s) = s"
  by (simp add: invert_def)

lemma sym_colors_image:
  assumes l: "on_board xs ys l" and M: "xs \<le> MAX_LEN" "ys \<le> MAX_LEN" and s: "0 \<le> s" "s < 8"
  shows "sym_colors s xs ys c (getSymLoc l xs ys s) = c l"
proof -
  obtain xs' ys' where z: "sym_size s (xs, ys) = (xs', ys')" by fastforce
  have "is_point xs ys l" using l by (simp add: is_point_def)
  then show ?thesis
    using getSymLoc_on_board(1) [OF l M z] getSymLoc_invert [OF _ M z s] by (simp add: sym_colors_def z)
qed

lemma on_board_preimage:
  assumes "on_board xs' ys' m" "xs \<le> MAX_LEN" "ys \<le> MAX_LEN" and z: "sym_size s (xs, ys) = (xs', ys')" and s: "0 \<le> s" "s < 8"
  obtains l where "on_board xs ys l" "m = getSymLoc l xs ys s"
proof -
  have M': "xs' \<le> MAX_LEN" "ys' \<le> MAX_LEN" using z assms(2,3) by (auto simp: sym_size_def split: if_splits)
  note zi = sym_size_invert [OF z s]
  have i: "0 \<le> invert s" "invert s < 8" using invert_table [OF s] by simp_all
  have "is_point xs' ys' m" using assms(1) by (simp add: is_point_def)
  then have "m = getSymLoc (getSymLoc m xs' ys' (invert s)) xs ys s"
    using getSymLoc_invert [OF _ M' zi i] by simp
  then show ?thesis using that getSymLoc_on_board(1) [OF assms(1) M' zi] by blast
qed

lemma sym_colors_lively:
  assumes lv: "lively xs c" and w: "\<And>l. c l = C_WALL \<longleftrightarrow> \<not> on_board xs ys l" and M: "xs \<le> MAX_LEN" "ys \<le> MAX_LEN"
    and s: "0 \<le> s" "s < 8" and z: "sym_size s (xs, ys) = (xs', ys')"
  shows "lively xs' (sym_colors s xs ys c)"
  unfolding lively_def
proof (intro allI impI)
  let ?f = "\<lambda>l. getSymLoc l xs ys s" let ?D = "sym_colors s xs ys c"
  fix m assume m: "is_stone (?D m)"
  then have "on_board xs' ys' m" by (auto simp: sym_colors_def z split: if_splits)
  from on_board_preimage [OF this M z s] obtain l where l: "on_board xs ys l" "m = ?f l" .
  have D: "?D (?f k) = c k" if "on_board xs ys k" for k by (rule sym_colors_image [OF that M s])
  have st: "is_stone (c l)" using m l D by simp
  then obtain k e where k: "k \<in> group xs c l" and e: "adjacent xs k e" "c e = C_EMPTY"
    using lv by (auto simp: lively_def has_liberty_def)
  have "(l, k) \<in> {(u, v). adjacent xs u v \<and> c u = c l \<and> c v = c l}\<^sup>*" using k by (simp add: group_def)
  then have "?f k \<in> group xs' ?D m \<and> c k = c l"
  proof (induction rule: rtrancl_induct)
    case base
    then show ?case by (simp add: group_def l(2))
  next
    case (step u v)
    have ob: "on_board xs ys u" "on_board xs ys v" using step(2) w [of u] w [of v] st by (auto simp: is_stone_def)
    have "adjacent xs' (?f u) (?f v)" using getSymLoc_adjacent [OF ob M z] step by simp
    then show ?case using step group_step [of "?f u" xs' ?D m "?f v"] D ob l by auto
  qed
  moreover have ob: "on_board xs ys k" "on_board xs ys e"
    using calculation st w [of k] w [of e] e(2) by (auto simp: is_stone_def)
  ultimately show "has_liberty xs' ?D m"
    using has_liberty_neighbour [of "?f k" xs' ?D m "?f e"] getSymLoc_adjacent [OF ob M z e(1)] D [OF ob(2)] e(2) by auto
qed

section \<open>The image of a board\<close>

lemma sym_point_coords:
  assumes "sym_coords s (x_size b, y_size b) (x, y) = (x', y')"
  shows "sym_point Z b s (x, y) (sb, ko) =
    Option.bind (setStoneFailIfNoLibs Z (getLoc x' y' (x_size sb)) (colors b (getLoc x y (x_size b))) sb)
      (\<lambda>(sb', suc). if \<not> suc then None
         else Some (sb', if getLoc x y (x_size b) = ko_loc b then getLoc x' y' (x_size sb) else ko))"
  using assms
  by (auto simp: sym_point_def sym_coords_def sym_size_def isTranspose_def isFlipX_def isFlipY_def Let_def
    intro!: bind_option_cong split: if_splits)

text \<open>The image so far, with the points of the list still to come.\<close>

definition imaging :: "zobrist \<Rightarrow> board \<Rightarrow> int \<Rightarrow> int \<times> int \<Rightarrow> (int \<times> int) list \<Rightarrow> board \<times> loc \<Rightarrow> bool" where
  "imaging Z b s z ps = (\<lambda>(b', ko).
     wf_board Z b' \<and> (x_size b', y_size b') = z \<and> numBlackCaptures b' = 0 \<and> numWhiteCaptures b' = 0 \<and>
     ko_loc b' = NULL_LOC \<and> part_of (colors b') (sym_colors s (x_size b) (y_size b) (colors b)) \<and>
     set ps \<subseteq> {0..<x_size b} \<times> {0..<y_size b} \<and> distinct ps \<and>
     (\<forall>x y. 0 \<le> x \<and> x < x_size b \<and> 0 \<le> y \<and> y < y_size b \<and> (x, y) \<notin> set ps \<longrightarrow>
        colors b' (getSymLoc (getLoc x y (x_size b)) (x_size b) (y_size b) s) = colors b (getLoc x y (x_size b))) \<and>
     ko = (if \<exists>x y. 0 \<le> x \<and> x < x_size b \<and> 0 \<le> y \<and> y < y_size b \<and> (x, y) \<notin> set ps \<and> getLoc x y (x_size b) = ko_loc b
           then getSymLoc (ko_loc b) (x_size b) (y_size b) s else NULL_LOC))"

lemma sym_point_step:
  assumes wf: "wf_board Z b" and s: "0 \<le> s" "s < 8" and z: "sym_size s (x_size b, y_size b) = z"
    and I: "imaging Z b s z (p # ps) st"
  shows "\<exists>st'. sym_point Z b s p st = Some st' \<and> imaging Z b s z ps st'"
proof -
  obtain x y where p: "p = (x, y)" by (cases p)
  obtain b' ko where st: "st = (b', ko)" by (cases st)
  obtain xs' ys' where z': "z = (xs', ys')" by (cases z)
  let ?xs = "x_size b" and ?ys = "y_size b" let ?D = "sym_colors s ?xs ?ys (colors b)"
  have M: "?xs \<le> MAX_LEN" "?ys \<le> MAX_LEN" using wf by (simp_all add: wf_board_def core_def geom_ok_def)
  have J: "wf_board Z b'" "x_size b' = xs'" "y_size b' = ys'" "numBlackCaptures b' = 0" "numWhiteCaptures b' = 0"
    "ko_loc b' = NULL_LOC" "part_of (colors b') ?D" "set ps \<subseteq> {0..<?xs} \<times> {0..<?ys}"
    "(x, y) \<notin> set ps" "distinct ps"
    using I by (auto simp: imaging_def st z' p)
  have xy: "0 \<le> x" "x < ?xs" "0 \<le> y" "y < ?ys" using I by (auto simp: imaging_def st p)
  let ?l = "getLoc x y ?xs" let ?m = "getSymLoc ?l ?xs ?ys s"
  note ol = getLoc_on_board [OF xy M]
  obtain x' y' where xy': "sym_coords s (?xs, ?ys) (x, y) = (x', y')" by fastforce
  have m: "?m = getLoc x' y' xs'"
    unfolding getSymLoc_coords(1) [OF ol(1) M] getSymLoc_xy_coords ol(2,3) xy' z z' by simp
  have om: "on_board xs' ys' ?m" using getSymLoc_on_board(1) [OF ol(1) M] z z' by simp
  have Dm: "?D ?m = colors b ?l" by (rule sym_colors_image [OF ol(1) M s])
  have nw: "colors b' ?m \<noteq> C_WALL" "colors b ?l \<noteq> C_WALL"
    using om ol(1) on_board_iff [OF J(1)] on_board_iff [OF wf] J(2,3) by simp_all
  let ?d = "(colors b')(?m := colors b ?l)"
  have part: "part_of ?d ?D" using J(7) Dm by (simp add: part_of_def)
  have "lively ?xs (colors b)" using live_lively [of Z b] wf by (simp add: wf_board_live)
  moreover have "colors b l = C_WALL \<longleftrightarrow> \<not> on_board ?xs ?ys l" for l using on_board_iff [OF wf, of l] by blast
  ultimately have "lively xs' ?D" using sym_colors_lively [OF _ _ M s] z z' by blast
  then have lv: "lively (x_size b') ?d" using part_lively part J(2) by blast
  obtain b1 where b1: "setStoneFailIfNoLibs Z ?m (colors b ?l) b' = Some (b1, True)" "wf_board Z b1"
    "x_size b1 = xs'" "y_size b1 = ys'" "numBlackCaptures b1 = 0" "numWhiteCaptures b1 = 0" "colors b1 = ?d" "ko_loc b1 = NULL_LOC"
    using setStoneFailIfNoLibs_spec [OF J(1) nw] lv J by auto
  let ?ko = "if ?l = ko_loc b then ?m else ko"
  have r: "sym_point Z b s p st = Some (b1, ?ko)"
    unfolding p st sym_point_coords [OF xy'] J(2) using b1(1) m by auto
  have inj: "u = x \<and> v = y" if "getLoc u v ?xs = ?l" "0 \<le> u" "u < ?xs" "0 \<le> v" "v < ?ys" for u v
    using getLoc_on_board [OF that(2-5) M] ol that(1) by simp
  have injm: "u = x \<and> v = y" if "getSymLoc (getLoc u v ?xs) ?xs ?ys s = ?m" "0 \<le> u" "u < ?xs" "0 \<le> v" "v < ?ys" for u v
  proof -
    have "is_point ?xs ?ys (getLoc u v ?xs)" "is_point ?xs ?ys ?l"
      using getLoc_on_board(1) [OF that(2-5) M] ol(1) by (simp_all add: is_point_def)
    then have "getLoc u v ?xs = ?l"
      using getSymLoc_invert [OF _ M _ s] z z' that(1) by metis
    then show ?thesis using inj that by blast
  qed
  have cols: "\<forall>u v. 0 \<le> u \<and> u < ?xs \<and> 0 \<le> v \<and> v < ?ys \<and> (u, v) \<notin> set ps \<longrightarrow>
      ?d (getSymLoc (getLoc u v ?xs) ?xs ?ys s) = colors b (getLoc u v ?xs)"
    using I injm by (fastforce simp: imaging_def st p)
  have kos: "?ko = (if \<exists>u v. 0 \<le> u \<and> u < ?xs \<and> 0 \<le> v \<and> v < ?ys \<and> (u, v) \<notin> set ps \<and> getLoc u v ?xs = ko_loc b
      then getSymLoc (ko_loc b) ?xs ?ys s else NULL_LOC)"
  proof (cases "?l = ko_loc b")
    case True
    have "(x, y) \<notin> set ps" using J(9) by blast
    then show ?thesis using True xy by (metis (no_types, lifting))
  next
    case False
    have "(\<exists>u v. 0 \<le> u \<and> u < ?xs \<and> 0 \<le> v \<and> v < ?ys \<and> (u, v) \<notin> set (p # ps) \<and> getLoc u v ?xs = ko_loc b) \<longleftrightarrow>
      (\<exists>u v. 0 \<le> u \<and> u < ?xs \<and> 0 \<le> v \<and> v < ?ys \<and> (u, v) \<notin> set ps \<and> getLoc u v ?xs = ko_loc b)"
      using False by (auto simp: p)
    then show ?thesis using False I by (simp add: imaging_def st)
  qed
  have "imaging Z b s z ps (b1, ?ko)"
    unfolding imaging_def prod.case using b1(2-8) J(8,10) part cols kos by (simp add: z')
  with r show ?thesis by blast
qed

lemma set_rows_xy: "set (rows_xy xs ys) = {0..<xs} \<times> {0..<ys}"
  by (auto simp: rows_xy_def)

lemma distinct_rows_xy: "distinct (rows_xy xs ys)"
proof -
  have "distinct (concat (map (\<lambda>y. map (\<lambda>x. (x, y)) [0..xs - 1]) zs))" if "distinct zs" for zs :: "int list"
    using that by (induction zs) (auto simp: distinct_map inj_on_def)
  from this [of "[0..ys - 1]"] show ?thesis by (simp add: rows_xy_def)
qed

lemma getSymBoard_spec:
  assumes wf: "wf_board Z b" and s: "0 \<le> s" "s < 8"
  shows "\<exists>b'. getSymBoard Z b0 b s = Some (Inr b') \<and> wf_board Z b' \<and>
    (x_size b', y_size b') = sym_size s (x_size b, y_size b) \<and>
    colors b' = sym_colors s (x_size b) (y_size b) (colors b) \<and>
    ko_loc b' = getSymLoc (ko_loc b) (x_size b) (y_size b) s \<and> numBlackCaptures b' = 0 \<and> numWhiteCaptures b' = 0"
proof -
  let ?xs = "x_size b" and ?ys = "y_size b" let ?D = "sym_colors s ?xs ?ys (colors b)"
  obtain xs' ys' where z: "sym_size s (?xs, ?ys) = (xs', ys')" by fastforce
  have M: "0 \<le> ?xs" "0 \<le> ?ys" "?xs \<le> MAX_LEN" "?ys \<le> MAX_LEN"
    using wf by (simp_all add: wf_board_def core_def geom_ok_def)
  have M': "0 \<le> xs'" "0 \<le> ys'" "xs' \<le> MAX_LEN" "ys' \<le> MAX_LEN"
    using z M by (auto simp: sym_size_def split: if_splits)
  obtain e where e: "Board_init Z b0 xs' ys' = Inr e" using Board_init_ok M' by blast
  note f = Board_init_facts [OF e]
  have sz: "(if s AND 4 \<noteq> 0 then ?ys else ?xs) = xs'" "(if s AND 4 \<noteq> 0 then ?xs else ?ys) = ys'"
    using z by (auto simp: sym_size_def isTranspose_def split: if_splits)
  have w: "colors b l = C_WALL \<longleftrightarrow> \<not> on_board ?xs ?ys l" for l using on_board_iff [OF wf, of l] by blast
  have Dw: "?D m = C_WALL \<longleftrightarrow> \<not> on_board xs' ys' m" for m
  proof (cases "on_board xs' ys' m")
    case True
    from on_board_preimage [OF True M(3,4) z s] obtain l where "on_board ?xs ?ys l" "m = getSymLoc l ?xs ?ys s" .
    then show ?thesis using True w sym_colors_image [OF _ M(3,4) s] by auto
  qed (simp add: sym_colors_def z)
  have "part_of (colors e) ?D" unfolding part_of_def
  proof
    fix m show "colors e m = ?D m \<or> colors e m = C_EMPTY \<and> is_stone (?D m)"
      using Dw [of m] unfolding f(7) by (cases "?D m") simp_all
  qed
  then have I0: "imaging Z b s (xs', ys') (rows_xy ?xs ?ys) (e, NULL_LOC)"
    using f Board_init_wf [OF e] by (auto simp: imaging_def set_rows_xy distinct_rows_xy)
  have "\<exists>t. foldM (sym_point Z b s) (rows_xy ?xs ?ys) (e, NULL_LOC) = Some t \<and> imaging Z b s (xs', ys') [] t"
    by (rule foldM_total [where I = "imaging Z b s (xs', ys')"]) (use I0 sym_point_step [OF wf s z] in blast)+
  then obtain b' ko where r: "foldM (sym_point Z b s) (rows_xy ?xs ?ys) (e, NULL_LOC) = Some (b', ko)"
    and I: "imaging Z b s (xs', ys') [] (b', ko)" by auto
  have J: "wf_board Z b'" "x_size b' = xs'" "y_size b' = ys'" "numBlackCaptures b' = 0" "numWhiteCaptures b' = 0"
    "ko_loc b' = NULL_LOC" "part_of (colors b') ?D"
    using I by (auto simp: imaging_def)
  have all: "\<forall>x y. 0 \<le> x \<and> x < ?xs \<and> 0 \<le> y \<and> y < ?ys \<longrightarrow>
      colors b' (getSymLoc (getLoc x y ?xs) ?xs ?ys s) = colors b (getLoc x y ?xs)"
    using I by (simp add: imaging_def)
  have c: "colors b' = ?D"
  proof
    fix m show "colors b' m = ?D m"
    proof (cases "on_board xs' ys' m")
      case True
      from on_board_preimage [OF True M(3,4) z s] obtain l where l: "on_board ?xs ?ys l" "m = getSymLoc l ?xs ?ys s" .
      note g = getSymLoc_coords(2-6) [OF l(1) M(3,4)]
      have "colors b' (getSymLoc (getLoc (getX l ?xs) (getY l ?xs) ?xs) ?xs ?ys s) = colors b (getLoc (getX l ?xs) (getY l ?xs) ?xs)"
        using all [rule_format, of "getX l ?xs" "getY l ?xs"] g(1-4) by blast
      then show ?thesis using l g(5) sym_colors_image [OF l(1) M(3,4) s] by simp
    next
      case False
      then have "colors b' m = C_WALL" using on_board_iff [OF J(1), of m] J by auto
      moreover have "?D m = C_WALL" using False Dw by blast
      ultimately show ?thesis by simp
    qed
  qed
  have ko: "ko = getSymLoc (ko_loc b) ?xs ?ys s"
  proof (cases "ko_loc b = NULL_LOC")
    case True
    have "getLoc x y ?xs \<noteq> NULL_LOC" if "0 \<le> x" "x < ?xs" "0 \<le> y" "y < ?ys" for x y
      using on_board_range(1) [OF getLoc_on_board(1) [OF that M(3,4)] M(3,4)] by (simp add: NULL_LOC_def)
    then show ?thesis using I True by (auto simp: imaging_def)
  next
    case False
    then have o: "on_board ?xs ?ys (ko_loc b)" using wf by (auto simp: wf_board_def ko_ok_def)
    from getSymLoc_coords(2-6) [OF o M(3,4)]
    have "\<exists>x y. 0 \<le> x \<and> x < ?xs \<and> 0 \<le> y \<and> y < ?ys \<and> getLoc x y ?xs = ko_loc b" by blast
    then show ?thesis using I by (simp add: imaging_def)
  qed
  have kn: "ko = NULL_LOC \<longleftrightarrow> ko_loc b = NULL_LOC"
  proof (cases "ko_loc b = NULL_LOC")
    case False
    then have o: "on_board ?xs ?ys (ko_loc b)" using wf by (auto simp: wf_board_def ko_ok_def)
    from on_board_range(1) [OF getSymLoc_on_board(1) [OF o M(3,4) z] M'(3,4)] False
    show ?thesis by (simp add: ko NULL_LOC_def)
  qed (simp add: ko)
  let ?b = "if ko \<noteq> NULL_LOC then setSimpleKoLoc b' ko else b'"
  have "getSymBoard Z b0 b s = Some (Inr ?b)"
    unfolding getSymBoard_def Let_def sz e using r by simp
  moreover have "ko_ok ?b"
  proof (cases "ko_loc b = NULL_LOC")
    case False
    then have o: "on_board ?xs ?ys (ko_loc b)" and full: "\<And>m. adjacent ?xs (ko_loc b) m \<Longrightarrow> colors b m \<noteq> C_EMPTY"
      using wf by (auto simp: wf_board_def ko_ok_def)
    have ok: "on_board xs' ys' ko" using getSymLoc_on_board(1) [OF o M(3,4) z] ko by simp
    have "?D m \<noteq> C_EMPTY" if a: "adjacent xs' ko m" for m
    proof (cases "on_board xs' ys' m")
      case True
      note zi = sym_size_invert [OF z s]
      from getSymLoc_adjacent [OF ok True M'(3,4) zi a]
      have "adjacent ?xs (ko_loc b) (getSymLoc m xs' ys' (invert s))"
        using getSymLoc_invert [OF _ M(3,4) z s, of "ko_loc b"] o by (simp add: ko is_point_def)
      then show ?thesis using full True by (simp add: sym_colors_def z)
    qed (use Dw [of m] in simp)
    then show ?thesis using ok kn False J c by (simp add: ko_ok_def setSimpleKoLoc_def)
  qed (use kn J in \<open>simp add: ko_ok_def\<close>)
  then have "wf_board Z ?b" using J(1) by (intro wf_board_cong [of ?b b']) (simp_all add: setSimpleKoLoc_def)
  ultimately show ?thesis
    using J c kn ko z by (intro exI [of _ ?b]) (auto simp: setSimpleKoLoc_def)
qed

end
