(* ===== verification/SymmetryPlanes.thy ===== *)
theory SymmetryPlanes
  imports SymmetryBoard
begin

text \<open>
  Copying planes with a symmetry, and the classes of equivalent moves: \<open>copyWithSymmetry\<close> is a
  permutation of the entries that its reverse undoes, and \<open>markDuplicateMoveLocs\<close> leaves exactly
  one move unmarked in every class.
\<close>

section \<open>Loops that write one entry for each index\<close>

text \<open>Nested loops are one loop over the list of all their indices.\<close>

lemma fold_product: "fold (\<lambda>x. fold (f x) ys) xs = fold (\<lambda>(x, y). f x y) (List.product xs ys)"
proof
  fix s show "fold (\<lambda>x. fold (f x) ys) xs s = fold (\<lambda>(x, y). f x y) (List.product xs ys) s"
  proof (induction xs arbitrary: s)
    case (Cons x xs)
    have "fold (f x) ys s = fold (\<lambda>(x, y). f x y) (map (Pair x) ys) s" for s
      by (induction ys arbitrary: s) simp_all
    then show ?case by (simp add: Cons)
  qed simp
qed

lemma fold_write:
  assumes "inj_on k (set xs)"
  shows "fold (\<lambda>x d. d(k x := v x)) xs d i = (if i \<in> k ` set xs then v (the_inv_into (set xs) k i) else d i)"
  using assms
proof (induction xs rule: rev_induct)
  case (snoc x xs)
  have inj: "inj_on k (set xs)" using snoc.prems by (rule inj_on_subset) auto
  show ?case
  proof (cases "i = k x")
    case True
    have "the_inv_into (set (xs @ [x])) k (k x) = x" by (rule the_inv_into_f_f [OF snoc.prems]) simp
    then show ?thesis using True by simp
  next
    case False
    have "the_inv_into (set (xs @ [x])) k i = the_inv_into (set xs) k i" if "i \<in> k ` set xs"
    proof -
      from that obtain u where u: "u \<in> set xs" "i = k u" by blast
      have "the_inv_into (set xs) k (k u) = u" by (rule the_inv_into_f_f [OF inj u(1)])
      moreover have "the_inv_into (set (xs @ [x])) k (k u) = u"
        by (rule the_inv_into_f_f [OF snoc.prems]) (use u in simp)
      ultimately show ?thesis using u by simp
    qed
    then show ?thesis using False snoc.IH [OF inj] by auto
  qed
qed simp

lemma fold_write_at:
  assumes "inj_on k (set xs)" and "x \<in> set xs"
  shows "fold (\<lambda>x d. d(k x := v x)) xs d (k x) = v x"
  using assms by (simp add: fold_write the_inv_into_f_f)

section \<open>Where an entry goes\<close>

definition plane_dest :: "bool \<Rightarrow> bool \<Rightarrow> bool \<Rightarrow> int \<Rightarrow> int \<Rightarrow> int \<times> int \<Rightarrow> int \<times> int" where
  "plane_dest flipX flipY tr H W = (\<lambda>(h, w).
     let (r, c) = (if tr then (w, h) else (h, w))
     in (if flipY then H - 1 - r else r, if flipX then W - 1 - c else c))"

definition nchw :: "int \<Rightarrow> int \<Rightarrow> int \<Rightarrow> int \<times> int \<Rightarrow> int" where
  "nchw H W nc = (\<lambda>(h, w). (w + h * W) + nc * (H * W))"

definition nhwc :: "int \<Rightarrow> int \<Rightarrow> int \<Rightarrow> int \<Rightarrow> int \<Rightarrow> int \<times> int \<Rightarrow> int" where
  "nhwc H W C n c = (\<lambda>(h, w). c + ((w + h * W) + n * (H * W)) * C)"

lemma plane_dest_range:
  assumes "(h, w) \<in> {0..<H} \<times> {0..<W}" and "tr \<Longrightarrow> H = W"
  shows "plane_dest fx fy tr H W (h, w) \<in> {0..<H} \<times> {0..<W}"
  using assms by (auto simp: plane_dest_def)

lemma plane_dest_inverse:
  assumes "tr \<Longrightarrow> H = W"
  shows "plane_dest fx fy tr H W (plane_dest (if tr then fy else fx) (if tr then fx else fy) tr H W p) = p"
  using assms by (cases p) (auto simp: plane_dest_def)

lemma strides_dest:
  assumes "new_strides fx fy tr H W (W * k) k = (hb, hs, wb, ws)" and "tr \<Longrightarrow> H = W"
  shows "hb + h * hs + wb + w * ws =
    (snd (plane_dest fx fy tr H W (h, w)) + fst (plane_dest fx fy tr H W (h, w)) * W) * k"
proof -
  let ?S = "new_strides fx fy tr H W (W * k) k"
  have e: "hb = fst ?S" "hs = fst (snd ?S)" "wb = fst (snd (snd ?S))" "ws = snd (snd (snd ?S))"
    by (simp_all add: assms(1))
  show ?thesis unfolding e using assms(2) by (auto simp: new_strides_def plane_dest_def algebra_simps)
qed

lemma mixed_range:
  assumes "0 \<le> w" "w < W" "0 \<le> h" "h < (H :: int)"
  shows "0 \<le> w + h * W" "w + h * W < H * W"
proof -
  show "0 \<le> w + h * W" using assms by simp
  have "(h + 1) * W \<le> H * W" using assms by (intro mult_right_mono) auto
  then show "w + h * W < H * W" using assms by (simp add: algebra_simps)
qed

lemma inj_nchw: "inj_on (\<lambda>(nc, p). nchw H W nc p) (UNIV \<times> ({0..<H} \<times> {0..<W}))"
proof (rule inj_onI, clarsimp simp: nchw_def)
  fix nc h w nc' h' w' :: int
  assume e: "w + h * W + nc * (H * W) = w' + h' * W + nc' * (H * W)"
    and r: "0 \<le> h" "h < H" "0 \<le> w" "w < W" "0 \<le> h'" "h' < H" "0 \<le> w'" "w' < W"
  have "w + h * W = w' + h' * W \<and> nc = nc'"
    using near_coords [OF e] mixed_range [OF r(3,4,1,2)] mixed_range [OF r(7,8,5,6)] by linarith
  moreover from this have "w = w' \<and> h = h'" using near_coords [of w h W w' h'] r by linarith
  ultimately show "nc = nc' \<and> h = h' \<and> w = w'" by simp
qed

section \<open>The two layouts\<close>

text \<open>The flips \<open>copyWithSymmetry\<close> works with.\<close>

definition plane_sym :: "int \<Rightarrow> bool \<Rightarrow> int \<Rightarrow> int \<Rightarrow> int \<times> int \<Rightarrow> int \<times> int" where
  "plane_sym s reverse H W =
     (let tr = isTranspose s \<and> H = W; sw = tr \<and> \<not> reverse
      in plane_dest (if sw then isFlipY s else isFlipX s) (if sw then isFlipX s else isFlipY s) tr H W)"

lemma plane_sym_range: "p \<in> {0..<H} \<times> {0..<W} \<Longrightarrow> plane_sym s rv H W p \<in> {0..<H} \<times> {0..<W}"
  by (cases p) (auto simp: plane_sym_def Let_def intro!: plane_dest_range)

lemma plane_sym_inverse: "plane_sym s True H W (plane_sym s False H W p) = p"
  using plane_dest_inverse [of "isTranspose s \<and> H = W" H W "isFlipX s" "isFlipY s" p]
  by (auto simp: plane_sym_def Let_def split: if_splits)

lemma plane_sym_inj: "inj_on (plane_sym s rv H W) ({0..<H} \<times> {0..<W})"
  by (rule inj_onI) (auto simp: plane_sym_def plane_dest_def Let_def split: if_splits)

lemma copy_nchw:
  "copyWithSymmetry src dst n H W C False s rv =
     fold (\<lambda>(nc, p) d. d(nchw H W nc (plane_sym s rv H W p) := src (nchw H W nc p)))
       (List.product [0..n * C - 1] (List.product [0..H - 1] [0..W - 1])) dst"
proof -
  let ?tr = "isTranspose s \<and> H = W"
  obtain fx fy where f: "(if ?tr \<and> \<not> rv then (isFlipY s, isFlipX s) else (isFlipX s, isFlipY s)) = (fx, fy)" by fastforce
  obtain hb hs wb ws where st: "new_strides fx fy ?tr H W W 1 = (hb, hs, wb, ws)" by (cases "new_strides fx fy ?tr H W W 1") auto
  have ps: "plane_sym s rv H W = plane_dest fx fy ?tr H W" using f by (auto simp: plane_sym_def Let_def split: if_splits)
  have new: "nc * (H * W) + hb + h * hs + wb + w * ws = nchw H W nc (plane_sym s rv H W (h, w))" for nc h w
  proof -
    obtain h' w' where d: "plane_dest fx fy ?tr H W (h, w) = (h', w')" by fastforce
    have "hb + h * hs + wb + w * ws = (w' + h' * W) * 1"
      using strides_dest [of fx fy ?tr H W 1 hb hs wb ws h w] st d by simp
    then show ?thesis by (simp add: ps d nchw_def)
  qed
  have old: "nc * (H * W) + h * W + w * 1 = nchw H W nc (h, w)" for nc h w by (simp add: nchw_def)
  have pairs: "(\<lambda>(nc, p) d. d(nchw H W nc (plane_sym s rv H W p) := src (nchw H W nc p))) =
      (\<lambda>(nc, h, w) d. d(nchw H W nc (plane_sym s rv H W (h, w)) := src (nchw H W nc (h, w))))"
    by (simp add: fun_eq_iff)
  show ?thesis
    unfolding copyWithSymmetry_def Let_def if_False isTranspose_def [symmetric] isFlipX_def [symmetric] isFlipY_def [symmetric]
      f prod.case st new old
    by (simp only: pairs fold_product [symmetric])
qed

lemma copy_nhwc:
  "copyWithSymmetry src dst n H W C True s rv =
     fold (\<lambda>(k, h, w, c) d. d(nhwc H W C k c (plane_sym s rv H W (h, w)) := src (nhwc H W C k c (h, w))))
       (List.product [0..n - 1] (List.product [0..H - 1] (List.product [0..W - 1] [0..C - 1]))) dst"
proof -
  let ?tr = "isTranspose s \<and> H = W"
  obtain fx fy where f: "(if ?tr \<and> \<not> rv then (isFlipY s, isFlipX s) else (isFlipX s, isFlipY s)) = (fx, fy)" by fastforce
  obtain hb hs wb ws where st: "new_strides fx fy ?tr H W (W * C) C = (hb, hs, wb, ws)" by (cases "new_strides fx fy ?tr H W (W * C) C") auto
  have ps: "plane_sym s rv H W = plane_dest fx fy ?tr H W" using f by (auto simp: plane_sym_def Let_def split: if_splits)
  have new: "k * (H * W * C) + hb + h * hs + wb + w * ws + c = nhwc H W C k c (plane_sym s rv H W (h, w))" for k h w c
  proof -
    obtain h' w' where d: "plane_dest fx fy ?tr H W (h, w) = (h', w')" by fastforce
    have "hb + h * hs + wb + w * ws = (w' + h' * W) * C"
      using strides_dest [OF st, of h w] d by simp
    then show ?thesis by (simp add: ps d nhwc_def algebra_simps)
  qed
  have old: "k * (H * W * C) + h * (W * C) + w * C + c = nhwc H W C k c (h, w)" for k h w c
    by (simp add: nhwc_def algebra_simps)
  show ?thesis
    unfolding copyWithSymmetry_def Let_def if_True isTranspose_def [symmetric] isFlipX_def [symmetric] isFlipY_def [symmetric]
      f prod.case st new old
    by (simp only: fold_product [symmetric])
qed

text \<open>The entries after a copy: a permutation of the planes, and nothing outside them.\<close>

lemma copy_entry:
  assumes "nc \<in> {0..<n * C}" and "p \<in> {0..<H} \<times> {0..<W}"
  shows "copyWithSymmetry src dst n H W C False s rv (nchw H W nc (plane_sym s rv H W p)) = src (nchw H W nc p)"
proof -
  let ?k = "\<lambda>(nc, p). nchw H W nc (plane_sym s rv H W p)" and ?v = "\<lambda>(nc, p). src (nchw H W nc p)"
  let ?L = "List.product [0..n * C - 1] (List.product [0..H - 1] [0..W - 1])"
  have L: "set ?L = {0..<n * C} \<times> ({0..<H} \<times> {0..<W})" by auto
  have inj: "inj_on ?k (set ?L)"
  proof (rule inj_onI, clarify)
    fix a h w a' h' w' assume m: "(a, h, w) \<in> set ?L" "(a', h', w') \<in> set ?L"
      and e: "nchw H W a (plane_sym s rv H W (h, w)) = nchw H W a' (plane_sym s rv H W (h', w'))"
    have d: "(h, w) \<in> {0..<H} \<times> {0..<W}" "(h', w') \<in> {0..<H} \<times> {0..<W}" using m unfolding L by auto
    have "a = a' \<and> plane_sym s rv H W (h, w) = plane_sym s rv H W (h', w')"
      using inj_onD [OF inj_nchw, where x = "(a, plane_sym s rv H W (h, w))" and y = "(a', plane_sym s rv H W (h', w'))"]
        e plane_sym_range [OF d(1)] plane_sym_range [OF d(2)] by simp
    then show "a = a' \<and> (h, w) = (h', w')" using inj_onD [OF plane_sym_inj _ d] by blast
  qed
  have "(nc, p) \<in> set ?L" using assms by (auto simp: L)
  from fold_write_at [OF inj this, of ?v dst] show ?thesis
    unfolding copy_nchw by (simp add: case_prod_unfold)
qed

lemma copy_outside:
  assumes "\<not> (0 \<le> i \<and> i < n * C * (H * W))"
  shows "copyWithSymmetry src dst n H W C False s rv i = dst i"
proof -
  have "nchw H W nc q \<noteq> i" if "nc \<in> {0..<n * C}" "q \<in> {0..<H} \<times> {0..<W}" for nc q
  proof -
    obtain h w where q: "q = (h, w)" "0 \<le> h" "h < H" "0 \<le> w" "w < W" using \<open>q \<in> _\<close> by (cases q) auto
    note r = mixed_range [OF q(4,5,2,3)]
    from mixed_range [OF r, of nc "n * C"] that(1) assms show ?thesis by (auto simp: q(1) nchw_def)
  qed
  then have ne: "nchw H W nc (plane_sym s rv H W p) \<noteq> i" if "nc \<in> {0..<n * C}" "p \<in> {0..<H} \<times> {0..<W}" for nc p
    using that plane_sym_range by blast
  have gen: "fold (\<lambda>(nc, p) d. d(nchw H W nc (plane_sym s rv H W p) := src (nchw H W nc p))) xs d i = d i"
    if "set xs \<subseteq> {0..<n * C} \<times> ({0..<H} \<times> {0..<W})" for xs d
    using that
  proof (induction xs arbitrary: d)
    case (Cons x xs)
    then show ?case using ne [of "fst x" "snd x"] by (cases x) simp
  qed simp
  show ?thesis unfolding copy_nchw by (intro gen) auto
qed

lemma div_below: "0 < P \<Longrightarrow> i < N * P \<Longrightarrow> i div P < (N :: int)"
proof (rule ccontr)
  assume "0 < P" "i < N * P" "\<not> i div P < N"
  then have "N * P \<le> i div P * P" by (intro mult_right_mono) auto
  moreover have "i div P * P + i mod P = i" "0 \<le> i mod P" using \<open>0 < P\<close> by simp_all
  ultimately show False using \<open>i < N * P\<close> by linarith
qed

lemma plane_index:
  assumes "0 \<le> i" "i < N * (H * W)" "0 \<le> H" "0 \<le> W"
  obtains nc p where "nc \<in> {0..<N}" "p \<in> {0..<H} \<times> {0..<W}" "i = nchw H W nc p"
proof -
  have pos: "0 < H * W"
  proof (rule ccontr)
    assume "\<not> 0 < H * W"
    moreover have "0 \<le> H * W" using assms(3,4) by (rule mult_nonneg_nonneg)
    ultimately have z: "H * W = 0" by linarith
    show False using assms(1,2) unfolding z by simp
  qed
  then have W: "0 < W" and H: "0 < H" using assms by (auto simp: zero_less_mult_iff)
  let ?r = "i mod (H * W)"
  have "i div (H * W) < N" by (rule div_below [OF pos assms(2)])
  moreover have "?r div W < H" by (rule div_below [OF W]) (use pos in simp)
  moreover have "i = (?r mod W + ?r div W * W) + i div (H * W) * (H * W)" by (simp only: mod_div_mult_eq)
  ultimately show ?thesis
    using that [of "i div (H * W)" "(?r div W, ?r mod W)"] assms pos W H
    by (auto simp: nchw_def pos_imp_zdiv_nonneg_iff)
qed

lemma copy_back:
  assumes "0 \<le> H" "0 \<le> W"
  shows "copyOutputsWithSymmetry (copyInputsWithSymmetry src d1 n H W C False s) d2 (n * C) H W s i =
    (if 0 \<le> i \<and> i < n * C * (H * W) then src i else d2 i)"
proof (cases "0 \<le> i \<and> i < n * C * (H * W)")
  case True
  then obtain nc p where np: "nc \<in> {0..<n * C}" "p \<in> {0..<H} \<times> {0..<W}" "i = nchw H W nc p"
    using plane_index assms by blast
  let ?q = "plane_sym s False H W p"
  have q: "?q \<in> {0..<H} \<times> {0..<W}" by (rule plane_sym_range [OF np(2)])
  have "nc \<in> {0..<n * C * 1}" using np by simp
  from copy_entry [OF this q, of "copyInputsWithSymmetry src d1 n H W C False s" d2 s True]
    copy_entry [OF np(1,2), of src d1 s False]
  show ?thesis using True by (simp add: copyOutputsWithSymmetry_def copyInputsWithSymmetry_def plane_sym_inverse np(3))
next
  case False
  then have "\<not> (0 \<le> i \<and> i < n * C * 1 * (H * W))" by simp
  from copy_outside [OF this] show ?thesis using False unfolding copyOutputsWithSymmetry_def by auto
qed

section \<open>Classes of equivalent moves\<close>

text \<open>
  The marking loops, for any action of a list of symmetries whose classes \<open>orbit\<close> are symmetric
  and transitive: processing the points one by one, a point that is neither avoided nor marked
  marks the other points of its class.
\<close>

definition marked_by :: "(loc \<Rightarrow> loc set) \<Rightarrow> (loc \<Rightarrow> bool) \<Rightarrow> loc set \<Rightarrow> (loc \<Rightarrow> bool) \<Rightarrow> bool" where
  "marked_by orbit avoid P dup \<longleftrightarrow>
     (\<forall>m. dup m \<longrightarrow> (\<exists>l\<in>P. \<not> avoid l \<and> \<not> dup l \<and> m \<in> orbit l \<and> m \<noteq> l)) \<and>
     (\<forall>l\<in>P. \<not> avoid l \<longrightarrow> \<not> dup l \<longrightarrow> (\<forall>m\<in>orbit l. m \<noteq> l \<longrightarrow> dup m))"

lemma marked_by_step:
  assumes I: "marked_by orbit avoid P dup" and l: "l \<notin> P"
    and sym: "\<And>k. k \<in> P \<Longrightarrow> k \<in> orbit l \<Longrightarrow> l \<in> orbit k"
    and d': "dup' = (if avoid l \<or> dup l then dup else (\<lambda>m. dup m \<or> m \<in> orbit l \<and> m \<noteq> l))"
  shows "marked_by orbit avoid (insert l P) dup'"
proof (cases "avoid l \<or> dup l")
  case True
  then show ?thesis using I d' unfolding marked_by_def by auto
next
  case False
  then have d: "dup' = (\<lambda>m. dup m \<or> m \<in> orbit l \<and> m \<noteq> l)" using d' by simp
  have keep: "\<not> dup' k" if k: "k \<in> P" "\<not> avoid k" "\<not> dup k" for k
  proof
    assume "dup' k"
    then have "k \<in> orbit l" using d k by simp
    then have "l \<in> orbit k" using sym k by blast
    then have "dup l" using I k l unfolding marked_by_def by metis
    then show False using False by simp
  qed
  show ?thesis unfolding marked_by_def
  proof (intro conjI allI impI ballI)
    fix m assume "dup' m"
    then consider "dup m" | "m \<in> orbit l" "m \<noteq> l" using d by auto
    then show "\<exists>k\<in>insert l P. \<not> avoid k \<and> \<not> dup' k \<and> m \<in> orbit k \<and> m \<noteq> k"
    proof cases
      case 1
      then obtain k where "k \<in> P" "\<not> avoid k" "\<not> dup k" "m \<in> orbit k" "m \<noteq> k"
        using I unfolding marked_by_def by blast
      then show ?thesis using keep by blast
    next
      case 2
      then show ?thesis using False d by auto
    qed
  next
    fix k m assume "k \<in> insert l P" "\<not> avoid k" "\<not> dup' k" "m \<in> orbit k" "m \<noteq> k"
    then show "dup' m" using I d unfolding marked_by_def by auto
  qed
qed

lemma marked_by_unique:
  assumes I: "marked_by orbit avoid P dup" and l: "l \<in> P" "\<not> avoid l"
    and refl: "\<And>k. k \<in> P \<Longrightarrow> k \<in> orbit k"
    and sym: "\<And>k m. k \<in> P \<Longrightarrow> m \<in> orbit k \<Longrightarrow> m \<in> P \<and> k \<in> orbit m"
    and trans: "\<And>k m n. k \<in> P \<Longrightarrow> m \<in> orbit k \<Longrightarrow> n \<in> orbit m \<Longrightarrow> n \<in> orbit k"
  shows "\<exists>!k. k \<in> orbit l \<and> \<not> avoid k \<and> \<not> dup k"
proof (rule ex_ex1I)
  show "\<exists>k. k \<in> orbit l \<and> \<not> avoid k \<and> \<not> dup k"
  proof (cases "dup l")
    case True
    then obtain k where "k \<in> P" "\<not> avoid k" "\<not> dup k" "l \<in> orbit k"
      using I unfolding marked_by_def by blast
    then show ?thesis using sym by blast
  qed (use l refl in blast)
next
  fix k m assume "k \<in> orbit l \<and> \<not> avoid k \<and> \<not> dup k" "m \<in> orbit l \<and> \<not> avoid m \<and> \<not> dup m"
  moreover from this have "k \<in> P" "m \<in> orbit k" using sym trans l by blast+
  ultimately show "k = m" using I unfolding marked_by_def by metis
qed

text \<open>What \<open>mark_point\<close> does at one point, with the symmetries other than 0 and the class they give.\<close>

lemma mark_point_eq:
  "mark_point b av vs (x, y) dup =
     (let l = getLoc x y (x_size b)
      in if length av > 0 \<and> av ! nat l > 0 \<or> dup l then dup
         else (\<lambda>m. dup m \<or> m \<in> (\<lambda>s. getSymLoc_xy_board x y b s) ` (set vs - {0}) \<and> m \<noteq> l))"
proof -
  let ?l = "getLoc x y (x_size b)"
  let ?f = "\<lambda>s dup. if s = 0 then dup
     else if \<not> dup ?l \<and> ?l \<noteq> getSymLoc_xy_board x y b s then dup(getSymLoc_xy_board x y b s := True) else dup"
  have "fold ?f ss dup = (if dup ?l then dup
      else (\<lambda>m. dup m \<or> m \<in> (\<lambda>s. getSymLoc_xy_board x y b s) ` (set ss - {0}) \<and> m \<noteq> ?l))" for ss dup
  proof (induction ss arbitrary: dup)
    case (Cons s ss)
    show ?case by (simp add: Cons.IH) (auto simp: fun_eq_iff)
  qed (simp add: fun_eq_iff)
  from this [of vs dup] show ?thesis unfolding mark_point_def Let_def prod.case by (simp split: if_split)
qed

text \<open>The class of a point under the symmetries that were found.\<close>

definition sym_class :: "board \<Rightarrow> int list \<Rightarrow> loc \<Rightarrow> loc set" where
  "sym_class b vs l = (\<lambda>s. getSymLoc l (x_size b) (y_size b) s) ` set vs"

text \<open>A set of symmetries of the board that is closed, as the full search finds it.\<close>

definition sym_closed :: "board \<Rightarrow> int list \<Rightarrow> bool" where
  "sym_closed b vs \<longleftrightarrow> 0 \<in> set vs \<and>
     (\<forall>s\<in>set vs. 0 \<le> s \<and> s < 8 \<and> sym_size s (x_size b, y_size b) = (x_size b, y_size b) \<and>
        invert s \<in> set vs \<and> (\<forall>t\<in>set vs. compose s t \<in> set vs))"

lemma marking_loop:
  assumes M: "x_size b \<le> MAX_LEN" "y_size b \<le> MAX_LEN" and cl: "sym_closed b vs"
    and ord: "distinct ord" "set ord = {0..<x_size b} \<times> {0..<y_size b}"
    and l: "on_board (x_size b) (y_size b) l" "\<not> (length av > 0 \<and> av ! nat l > 0)"
  shows "\<exists>!k. k \<in> sym_class b vs l \<and> \<not> (length av > 0 \<and> av ! nat k > 0) \<and>
    \<not> fold (mark_point b av vs) ord (\<lambda>_. False) k"
proof -
  let ?xs = "x_size b" and ?ys = "y_size b"
  let ?av = "\<lambda>l. length av > 0 \<and> av ! nat l > 0"
  let ?loc = "\<lambda>(x, y). getLoc x y ?xs"
  let ?P = "{l. on_board ?xs ?ys l}"
  have sz: "sym_size s (?xs, ?ys) = (?xs, ?ys)" "0 \<le> s" "s < 8" "invert s \<in> set vs" if "s \<in> set vs" for s
    using cl that by (simp_all add: sym_closed_def)
  have refl: "k \<in> sym_class b vs k" if "on_board ?xs ?ys k" for k
    using cl getSymLoc_zero [of ?xs ?ys k] that M by (force simp: sym_class_def sym_closed_def is_point_def)
  have sym: "m \<in> ?P \<and> k \<in> sym_class b vs m" if k: "k \<in> ?P" and m: "m \<in> sym_class b vs k" for k m
  proof -
    obtain s where s: "s \<in> set vs" "m = getSymLoc k ?xs ?ys s" using m by (auto simp: sym_class_def)
    have "k = getSymLoc m ?xs ?ys (invert s)"
      using getSymLoc_invert [OF _ M sz(1-3) [OF s(1)], of k] k s(2) by (simp add: is_point_def)
    then show ?thesis using getSymLoc_on_board(1) [OF _ M sz(1) [OF s(1)], of k] k s sz(4) by (auto simp: sym_class_def)
  qed
  have trans: "n \<in> sym_class b vs k" if k: "k \<in> ?P" and m: "m \<in> sym_class b vs k" "n \<in> sym_class b vs m" for k m n
  proof -
    obtain s t where s: "s \<in> set vs" "m = getSymLoc k ?xs ?ys s" "t \<in> set vs" "n = getSymLoc m ?xs ?ys t"
      using m by (auto simp: sym_class_def)
    have "n = getSymLoc k ?xs ?ys (compose s t)"
      using getSymLoc_compose [OF _ M sz(1) [OF s(1)], of k t] k s by (simp add: is_point_def)
    then show ?thesis using cl s by (auto simp: sym_class_def sym_closed_def)
  qed
  have inv: "marked_by (sym_class b vs) ?av (?loc ` set ps) (fold (mark_point b av vs) ps (\<lambda>_. False))"
    if "set ps \<subseteq> {0..<?xs} \<times> {0..<?ys}" "distinct ps" for ps
    using that
  proof (induction ps rule: rev_induct)
    case Nil
    then show ?case by (simp add: marked_by_def)
  next
    case (snoc p ps)
    obtain x y where p: "p = (x, y)" by (cases p)
    have xy: "0 \<le> x" "x < ?xs" "0 \<le> y" "y < ?ys" using snoc.prems by (auto simp: p)
    note g = getLoc_on_board [OF xy M]
    let ?d = "fold (mark_point b av vs) ps (\<lambda>_. False)" let ?l = "getLoc x y ?xs"
    have nl: "?l \<notin> ?loc ` set ps"
    proof
      assume "?l \<in> ?loc ` set ps"
      then obtain u v where uv: "(u, v) \<in> set ps" "getLoc u v ?xs = ?l" by auto
      then have "0 \<le> u" "u < ?xs" "0 \<le> v" "v < ?ys" using snoc.prems by auto
      from getLoc_on_board(2,3) [OF this M] uv g(2,3) have "(u, v) = (x, y)" by simp
      then show False using uv snoc.prems by (simp add: p)
    qed
    have eq: "mark_point b av vs p ?d =
      (if ?av ?l \<or> ?d ?l then ?d else (\<lambda>m. ?d m \<or> m \<in> sym_class b vs ?l \<and> m \<noteq> ?l))"
    proof -
      have e: "getSymLoc_xy_board x y b s = getSymLoc ?l ?xs ?ys s" for s
        using getSymLoc_coords(1) [OF g(1) M] g by (simp add: getSymLoc_xy_board_def)
      have "m \<in> (\<lambda>s. getSymLoc_xy_board x y b s) ` (set vs - {0}) \<and> m \<noteq> ?l \<longleftrightarrow> m \<in> sym_class b vs ?l \<and> m \<noteq> ?l" for m
        using getSymLoc_zero [OF _ M, of ?l] g(1) by (auto simp: e sym_class_def is_point_def)
      then show ?thesis unfolding p mark_point_eq Let_def by simp
    qed
    have IH: "marked_by (sym_class b vs) ?av (?loc ` set ps) ?d" using snoc.IH snoc.prems by simp
    have "?l \<in> sym_class b vs k" if "k \<in> ?loc ` set ps" "k \<in> sym_class b vs ?l" for k
      using sym [of ?l k] g(1) that(2) by blast
    from marked_by_step [OF IH nl this eq]
    have "marked_by (sym_class b vs) ?av (insert ?l (?loc ` set ps)) (mark_point b av vs p ?d)" by blast
    then show ?case by (simp add: p)
  qed
  have P: "?loc ` set ord = ?P"
  proof
    show "?loc ` set ord \<subseteq> ?P" using ord(2) getLoc_on_board(1) [OF _ _ _ _ M] by auto
    show "?P \<subseteq> ?loc ` set ord"
    proof clarify
      fix k assume "on_board ?xs ?ys k"
      from getSymLoc_coords(2-6) [OF this M] show "k \<in> ?loc ` set ord"
        using ord(2) by (intro image_eqI [where x = "(getX k ?xs, getY k ?xs)"]) simp_all
    qed
  qed
  have i: "set ord \<subseteq> {0..<?xs} \<times> {0..<?ys}" "distinct ord" using ord by simp_all
  from inv [OF i] have "marked_by (sym_class b vs) ?av ?P (fold (mark_point b av vs) ord (\<lambda>_. False))" unfolding P .
  then show ?thesis
  proof (rule marked_by_unique)
    show "l \<in> ?P" using l(1) by simp
    show "\<not> ?av l" by (rule l(2))
    show "k \<in> sym_class b vs k" if "k \<in> ?P" for k using refl that by simp
    show "m \<in> ?P \<and> k \<in> sym_class b vs m" if "k \<in> ?P" "m \<in> sym_class b vs k" for k m by (rule sym [OF that])
    show "n \<in> sym_class b vs k" if "k \<in> ?P" "m \<in> sym_class b vs k" "n \<in> sym_class b vs m" for k m n by (rule trans [OF that])
  qed
qed

text \<open>The symmetries the full search finds: what is compared at a point, and why they are closed.\<close>

definition sym_view :: "board \<Rightarrow> history \<Rightarrow> loc \<Rightarrow> color \<times> bool \<times> color" where
  "sym_view b h l = (colors b l, encorePhase h > 0 \<and> koRecapBlocked h l,
     if encorePhase h = 2 then secondEncoreStartColors h l else C_EMPTY)"

lemma isBoardSym_iff:
  assumes M: "x_size b \<le> MAX_LEN" "y_size b \<le> MAX_LEN"
  shows "isBoardSym b h s \<longleftrightarrow>
    (\<forall>l. on_board (x_size b) (y_size b) l \<longrightarrow> sym_view b h l = sym_view b h (getSymLoc l (x_size b) (y_size b) s))"
    (is "_ \<longleftrightarrow> (\<forall>l. ?on l \<longrightarrow> ?same l)")
proof -
  have pt: "isBoardSym b h s \<longleftrightarrow> (\<forall>x y. 0 \<le> x \<and> x < x_size b \<and> 0 \<le> y \<and> y < y_size b \<longrightarrow>
      sym_view b h (getLoc x y (x_size b)) = sym_view b h (getSymLoc_xy_board x y b s))"
  proof -
    have "(colors b l = colors b m \<and> (if encorePhase h > 0 then koRecapBlocked h l = koRecapBlocked h m else True) \<and>
        (if encorePhase h = 2 then secondEncoreStartColors h l = secondEncoreStartColors h m else True)) \<longleftrightarrow>
      sym_view b h l = sym_view b h m" for l m
      by (simp add: sym_view_def)
    then show ?thesis unfolding isBoardSym_def Let_def list_all_iff set_rows_xy by auto
  qed
  have e: "getSymLoc_xy_board x y b s = getSymLoc (getLoc x y (x_size b)) (x_size b) (y_size b) s"
    if "0 \<le> x" "x < x_size b" "0 \<le> y" "y < y_size b" for x y
    using getSymLoc_coords(1) [OF getLoc_on_board(1) [OF that M] M] getLoc_on_board(2,3) [OF that M]
    by (simp add: getSymLoc_xy_board_def)
  show ?thesis
  proof
    assume a: "isBoardSym b h s"
    show "\<forall>l. ?on l \<longrightarrow> ?same l"
    proof (intro allI impI)
      fix l assume "?on l"
      note g = getSymLoc_coords(2-6) [OF this M]
      show "?same l" using a [unfolded pt, rule_format, of "getX l (x_size b)" "getY l (x_size b)"] e [OF g(1-4)] g by simp
    qed
  next
    assume "\<forall>l. ?on l \<longrightarrow> ?same l"
    then show "isBoardSym b h s" unfolding pt using getLoc_on_board(1) [OF _ _ _ _ M] e by auto
  qed
qed

text \<open>
  The symmetries of a position: those of the board that carry each point to one with the same
  stone, in the encore with the same ban on recaptures, and in its second phase with the same stone
  at the start of that phase.
\<close>

definition same_at :: "board \<Rightarrow> history \<Rightarrow> loc \<Rightarrow> loc \<Rightarrow> bool" where
  "same_at b h l m \<longleftrightarrow> colors b m = colors b l \<and>
     (encorePhase h > 0 \<longrightarrow> koRecapBlocked h m = koRecapBlocked h l) \<and>
     (encorePhase h = 2 \<longrightarrow> secondEncoreStartColors h m = secondEncoreStartColors h l)"

definition position_symmetry :: "board \<Rightarrow> history \<Rightarrow> int \<Rightarrow> bool" where
  "position_symmetry b h s \<longleftrightarrow> 0 \<le> s \<and> s < 8 \<and> sym_size s (x_size b, y_size b) = (x_size b, y_size b) \<and>
     (\<forall>l. on_board (x_size b) (y_size b) l \<longrightarrow> same_at b h l (getSymLoc l (x_size b) (y_size b) s))"

lemma found_symmetries:
  fixes h :: history
  assumes M: "x_size b \<le> MAX_LEN" "y_size b \<le> MAX_LEN"
  defines "ub \<equiv> if x_size b = y_size b then 8 else 4 :: int"
  shows "sym_closed b (0 # filter (isBoardSym b h) [1..ub - 1])"
    "s \<in> set (0 # filter (isBoardSym b h) [1..ub - 1]) \<longleftrightarrow> position_symmetry b h s"
proof -
  let ?xs = "x_size b" and ?ys = "y_size b"
  have small: "\<not> isTranspose s" if "0 \<le> s" "s < 4" for s :: int
  proof -
    have "s \<in> {0, 1, 2, 3}" using that by auto
    then show ?thesis by (auto simp: isTranspose_def)
  qed
  have sz: "sym_size s (?xs, ?ys) = (?xs, ?ys)" "s < 8" if "0 \<le> s" "s < ub" for s
    using that small [of s] by (auto simp: sym_size_def ub_def split: if_splits)
  have zero: "isBoardSym b h 0" unfolding isBoardSym_iff [OF M] using M by (simp add: is_point_def)
  have mem: "s \<in> set (0 # filter (isBoardSym b h) [1..ub - 1]) \<longleftrightarrow> 0 \<le> s \<and> s < ub \<and> isBoardSym b h s" for s
    using zero by (auto simp: ub_def)
  have comp: "isBoardSym b h (compose s t)" if "0 \<le> s" "s < ub" "isBoardSym b h s" "isBoardSym b h t" for s t
    unfolding isBoardSym_iff [OF M]
  proof (intro allI impI)
    fix l assume l: "on_board ?xs ?ys l"
    note z = sz(1) [OF that(1,2)]
    have "getSymLoc l ?xs ?ys (compose s t) = getSymLoc (getSymLoc l ?xs ?ys s) ?xs ?ys t"
      using getSymLoc_compose [OF _ M z, of l t] l by (simp add: is_point_def)
    then show "sym_view b h l = sym_view b h (getSymLoc l ?xs ?ys (compose s t))"
      using that(3,4) l getSymLoc_on_board(1) [OF l M z] unfolding isBoardSym_iff [OF M] by metis
  qed
  have inv: "isBoardSym b h (invert s)" if "0 \<le> s" "s < ub" "isBoardSym b h s" for s
    unfolding isBoardSym_iff [OF M]
  proof (intro allI impI)
    fix l assume l: "on_board ?xs ?ys l"
    note z = sz [OF that(1,2)]
    have i: "0 \<le> invert s" "invert s < 8" using invert_table [OF that(1) z(2)] by simp_all
    note zi = sym_size_invert [OF z(1) that(1) z(2)]
    have "getSymLoc (getSymLoc l ?xs ?ys (invert s)) ?xs ?ys s = l"
      using getSymLoc_invert [OF _ M zi i, of l] l by (simp add: is_point_def)
    then show "sym_view b h l = sym_view b h (getSymLoc l ?xs ?ys (invert s))"
      using that(3) getSymLoc_on_board(1) [OF l M zi] unfolding isBoardSym_iff [OF M] by metis
  qed
  have bnd: "0 \<le> invert s \<and> invert s < ub" "0 \<le> t \<Longrightarrow> t < ub \<Longrightarrow> 0 \<le> compose s t \<and> compose s t < ub"
    if "0 \<le> s" "s < ub" for s t
    using invert_table [of s] compose_table [of s t] that by (auto simp: ub_def split: if_splits)
  show "sym_closed b (0 # filter (isBoardSym b h) [1..ub - 1])"
    unfolding sym_closed_def
    using bnd inv comp sz by (auto simp only: mem) (auto simp: ub_def zero)
  have big: "s < ub" if "0 \<le> s" "s < 8" "sym_size s (?xs, ?ys) = (?xs, ?ys)" for s
  proof -
    have "isTranspose s" if "4 \<le> s"
    proof -
      have "s \<in> {4, 5, 6, 7}" using that \<open>s < 8\<close> by auto
      then show ?thesis by (auto simp: isTranspose_def)
    qed
    moreover have "?xs = ?ys" if "isTranspose s"
      using \<open>sym_size s (?xs, ?ys) = (?xs, ?ys)\<close> unfolding sym_size_def if_P [OF that] prod.case prod.inject by (rule conjunct2)
    ultimately show ?thesis using \<open>s < 8\<close> unfolding ub_def by (cases "4 \<le> s") simp_all
  qed
  have "isBoardSym b h s \<longleftrightarrow> (\<forall>l. on_board ?xs ?ys l \<longrightarrow> same_at b h l (getSymLoc l ?xs ?ys s))"
    unfolding isBoardSym_iff [OF M] sym_view_def same_at_def by (auto split: if_splits)
  then show "s \<in> set (0 # filter (isBoardSym b h) [1..ub - 1]) \<longleftrightarrow> position_symmetry b h s"
    using big [of s] sz [of s] unfolding mem position_symmetry_def by blast
qed

end
