(* ===== verification/SymmetryProps.thy ===== *)
theory SymmetryProps
  imports SymmetryPlanes Demo
begin

text \<open>The properties of policy positions and symmetries, with instances on small boards.\<close>

section \<open>Positions\<close>

lemma pos_parts:
  assumes "0 \<le> x" "x < nx" "0 \<le> (y :: int)"
  shows "(y * nx + x) smod nx = x" "(y * nx + x) sdiv nx = y"
proof -
  have n: "0 < nx" "0 \<le> y * nx" using assms by simp_all
  then have "0 < y * nx + x \<or> x = 0 \<and> y * nx = 0" using assms(1) by linarith
  then show "(y * nx + x) smod nx = x" "(y * nx + x) sdiv nx = y"
    using assms n by (auto simp: smod_int_alt_def signed_divide_int_def sgn_if)
qed

lemma pos_back:
  assumes "on_board xs ys l" "xs \<le> nx" "ys \<le> ny" "xs \<le> MAX_LEN" "ys \<le> MAX_LEN"
  shows "0 \<le> locToPos l xs nx ny" "locToPos l xs nx ny < nx * ny" "posToLoc (locToPos l xs nx ny) xs ys nx ny = l"
proof -
  note g = getSymLoc_coords(2-6) [OF assms(1,4,5)]
  have n: "l \<noteq> PASS_LOC" "l \<noteq> NULL_LOC"
    using on_board_range(1) [OF assms(1,4,5)] by (auto simp: PASS_LOC_def NULL_LOC_def)
  then have e: "locToPos l xs nx ny = getY l xs * nx + getX l xs" by (simp add: locToPos_def)
  have m: "getX l xs + getY l xs * nx < ny * nx" "0 \<le> getX l xs + getY l xs * nx"
    using mixed_range [of "getX l xs" nx "getY l xs" ny] g assms by auto
  then show r: "0 \<le> locToPos l xs nx ny" "locToPos l xs nx ny < nx * ny" unfolding e by (simp_all add: mult.commute add.commute)
  have "getY l xs * nx + getX l xs \<noteq> nx * ny" using r(2) e by simp
  then show "posToLoc (locToPos l xs nx ny) xs ys nx ny = l"
    unfolding e using g assms pos_parts [of "getX l xs" nx "getY l xs"] by (simp add: posToLoc_def Let_def)
qed

text \<open>
  C30: A point of the board, or a pass, has a position inside the policy array, and
  \<open>NNPos::posToLoc\<close> maps that position back, for every size of the array that the board fits.
\<close>

theorem policy_positions_exact:
  assumes "on_board xs ys l \<or> l = PASS_LOC" and "0 \<le> xs" "xs \<le> nx" "0 \<le> ys" "ys \<le> ny" and "xs \<le> MAX_LEN" "ys \<le> MAX_LEN"
  shows "0 \<le> locToPos l xs nx ny \<and> locToPos l xs nx ny < getPolicySize nx ny \<and>
    (isPassPos (locToPos l xs nx ny) nx ny \<longleftrightarrow> l = PASS_LOC) \<and>
    posToLoc (locToPos l xs nx ny) xs ys nx ny = l"
proof (cases "l = PASS_LOC")
  case True
  then show ?thesis using assms by (simp add: locToPos_def getPolicySize_def isPassPos_def posToLoc_def)
next
  case False
  then have "on_board xs ys l" using assms(1) by simp
  from pos_back [OF this assms(3,5-7)] show ?thesis using False by (simp add: getPolicySize_def isPassPos_def)
qed

theorem policy_positions_exact_witness:
  "locToPos 24 9 19 19 = 22 \<and> posToLoc 22 9 9 19 19 = 24 \<and> posToLoc 361 9 9 19 19 = PASS_LOC"
proof -
  have "on_board 9 9 24" unfolding on_board_def by (rule exI [of _ 3], rule exI [of _ 1]) simp
  then have "posToLoc (locToPos 24 9 19 19) 9 9 19 19 = 24"
    by (intro policy_positions_exact [THEN conjunct2, THEN conjunct2, THEN conjunct2]) (simp_all add: MAX_LEN_def)
  moreover have "locToPos 24 9 19 19 = 22" "posToLoc 361 9 9 19 19 = PASS_LOC" by code_simp+
  ultimately show ?thesis by simp
qed

section \<open>Symmetries\<close>

text \<open>
  C31: The numbers 0 to 7 are a group that acts on the points of every board, square or not:
  applying two symmetries with \<open>getSymLoc\<close> one after the other, the second on the board the first
  leaves, is applying \<open>compose\<close> of them, applying a symmetry and then its \<open>invert\<close> changes
  nothing, and points of the board go to points of the transformed board.
\<close>

theorem symmetries_act:
  assumes "is_point xs ys l" and "xs \<le> MAX_LEN" "ys \<le> MAX_LEN" and "0 \<le> s" "s < NUM_SYMMETRIES" "0 \<le> t" "t < NUM_SYMMETRIES"
    and "(xs', ys') = (if isTranspose s then (ys, xs) else (xs, ys))"
  shows "is_point xs' ys' (getSymLoc l xs ys s) \<and>
    getSymLoc (getSymLoc l xs ys s) xs' ys' t = getSymLoc l xs ys (compose s t) \<and>
    getSymLoc (getSymLoc l xs ys s) xs' ys' (invert s) = l \<and>
    0 \<le> compose s t \<and> compose s t < NUM_SYMMETRIES \<and> compose s (invert s) = 0 \<and> compose (invert s) s = 0"
proof -
  have s: "0 \<le> s" "s < 8" "0 \<le> t" "t < 8" using assms by (simp_all add: NUM_SYMMETRIES_def)
  have z: "sym_size s (xs, ys) = (xs', ys')" using assms(8) by (simp add: sym_size_def split: if_splits)
  have "is_point xs' ys' (getSymLoc l xs ys s)"
    using assms(1) getSymLoc_on_board(1) [OF _ assms(2,3) z] by (auto simp: is_point_def)
  then show ?thesis
    using getSymLoc_compose [OF assms(1-3) z] getSymLoc_invert [OF assms(1-3) z s(1,2)] compose_table(1,2) [OF s]
      invert_table(4,5) [OF s(1,2)] by (simp add: NUM_SYMMETRIES_def)
qed

theorem symmetries_act_witness:
  "getSymLoc 22 19 9 5 = 29 \<and> getSymLoc 29 9 19 6 = 22 \<and> invert 5 = 6"
proof -
  have "on_board 19 9 22" unfolding on_board_def by (rule exI [of _ 1], rule exI [of _ 0]) simp
  then have "is_point 19 9 22" by (simp add: is_point_def)
  from symmetries_act [OF this, of 5 0 9 19] have "getSymLoc (getSymLoc 22 19 9 5) 9 19 (invert 5) = 22"
    by (simp add: MAX_LEN_def NUM_SYMMETRIES_def isTranspose_def)
  moreover have "getSymLoc 22 19 9 5 = 29" "invert 5 = 6" by code_simp+
  ultimately show ?thesis by simp
qed

text \<open>
  C32: \<open>getSymBoard\<close> never fails its assertion: on a well-formed board it returns a well-formed
  board whose sizes, colours and simple ko point are those of the board seen through the
  symmetry, whatever the order in which the stones are set down. The capture counts are not
  carried over: they start at zero.
\<close>

theorem sym_board_exact:
  assumes "wf_board Z b" and "0 \<le> s" "s < NUM_SYMMETRIES"
  shows "\<exists>b'. getSymBoard Z b0 b s = Some (Inr b') \<and> wf_board Z b' \<and>
    (x_size b', y_size b') = (if isTranspose s then (y_size b, x_size b) else (x_size b, y_size b)) \<and>
    (\<forall>l. on_board (x_size b) (y_size b) l \<longrightarrow> colors b' (getSymLoc_board l b s) = colors b l) \<and>
    ko_loc b' = getSymLoc_board (ko_loc b) b s \<and> numBlackCaptures b' = 0 \<and> numWhiteCaptures b' = 0"
proof -
  have s: "0 \<le> s" "s < 8" using assms by (simp_all add: NUM_SYMMETRIES_def)
  have M: "x_size b \<le> MAX_LEN" "y_size b \<le> MAX_LEN" using assms(1) by (simp_all add: wf_board_def core_def geom_ok_def)
  have e: "getSymLoc_board l b s = getSymLoc l (x_size b) (y_size b) s" for l
    by (simp add: getSymLoc_board_def getSymLoc_def getSymLoc_xy_board_def)
  obtain b' where "getSymBoard Z b0 b s = Some (Inr b')" "wf_board Z b'"
    "(x_size b', y_size b') = sym_size s (x_size b, y_size b)"
    "colors b' = sym_colors s (x_size b) (y_size b) (colors b)"
    "ko_loc b' = getSymLoc (ko_loc b) (x_size b) (y_size b) s" "numBlackCaptures b' = 0" "numWhiteCaptures b' = 0"
    using getSymBoard_spec [OF assms(1) s] by blast
  then show ?thesis using sym_colors_image [OF _ M s] by (intro exI [of _ b']) (simp add: e sym_size_def)
qed

theorem sym_board_exact_witness:
  "\<exists>b'. getSymBoard demo_zobrist blank_board (demo 3 [(5, C_WHITE), (6, C_BLACK)]) 4 = Some (Inr b') \<and>
     colors b' 9 = C_BLACK \<and> colors b' 5 = C_WHITE"
proof -
  let ?b = "demo 3 [(5, C_WHITE), (6, C_BLACK)]"
  have f: "wf_board demo_zobrist ?b" by (rule demo_wf) simp_all
  have c: "colors ?b 5 = C_WHITE" "colors ?b 6 = C_BLACK" "x_size ?b = 3" "y_size ?b = 3" by code_simp+
  have o: "on_board 3 3 5" "on_board 3 3 6"
    unfolding on_board_def by (rule exI [of _ 0], rule exI [of _ 0], simp) (rule exI [of _ 1], rule exI [of _ 0], simp)
  have g: "getSymLoc_board 5 ?b 4 = 5" "getSymLoc_board 6 ?b 4 = 9" by code_simp+
  obtain b' where b': "getSymBoard demo_zobrist blank_board ?b 4 = Some (Inr b')"
    "\<forall>l. on_board 3 3 l \<longrightarrow> colors b' (getSymLoc_board l ?b 4) = colors ?b l"
    using sym_board_exact [OF f, of 4 blank_board] unfolding c(3,4) by (auto simp: NUM_SYMMETRIES_def)
  show ?thesis using b'(1) b'(2) [rule_format, OF o(1)] b'(2) [rule_format, OF o(2)] unfolding g c by blast
qed

text \<open>
  C33: The planes a network computes from transformed inputs go back to where they belong:
  \<open>copyOutputsWithSymmetry\<close> after \<open>copyInputsWithSymmetry\<close> with the same symmetry restores every
  entry of every plane, transposing only square planes, and no other entry of the destination is
  written.
\<close>

theorem planes_restored:
  assumes "0 \<le> H" "0 \<le> W"
  shows "copyOutputsWithSymmetry (copyInputsWithSymmetry src d1 n H W C False s) d2 (n * C) H W s i =
    (if 0 \<le> i \<and> i < n * C * (H * W) then src i else d2 i)"
  by (rule copy_back [OF assms])

theorem planes_restored_witness:
  "copyOutputsWithSymmetry (copyInputsWithSymmetry (\<lambda>i. i) (\<lambda>_. -1) 1 2 2 2 False 5) (\<lambda>_. -1) 2 2 2 5 7 = 7 \<and>
   copyOutputsWithSymmetry (copyInputsWithSymmetry (\<lambda>i. i) (\<lambda>_. -1) 1 2 2 2 False 5) (\<lambda>_. -1) 2 2 2 5 8 = -1"
  using planes_restored [of 2 2 "\<lambda>i. i" "\<lambda>_. -1" 1 2 5 "\<lambda>_. -1"] by simp

text \<open>
  C34: \<open>markDuplicateMoveLocs\<close> keeps one move of every class. With a ko or superko ban on the
  board only the identity is reported and nothing is marked. Otherwise, searching all symmetries,
  those it reports are exactly the symmetries of the position: those of the board, a transposing
  one only on a square board, that carry each point to one with the same stone, in the encore with
  the same ban on recaptures and in its second phase with the same stone at the start of that
  phase. They are a group, and in the class of every point that is not to be avoided exactly one
  point that is not to be avoided stays unmarked.
\<close>

theorem one_move_per_class:
  assumes "x_size b \<le> MAX_LEN" "y_size b \<le> MAX_LEN" and "markDuplicateMoveLocs b h None avoid = (dup, valid)"
  shows "if ko_loc b \<noteq> NULL_LOC \<or> (\<exists>l. on_board (x_size b) (y_size b) l \<and> superKoBanned h l)
    then valid = [0] \<and> (\<forall>l. \<not> dup l)
    else (\<forall>s. s \<in> set valid \<longleftrightarrow> position_symmetry b h s) \<and> sym_closed b valid \<and>
      (\<forall>l. on_board (x_size b) (y_size b) l \<and> (avoid = [] \<or> \<not> avoid ! nat l > 0) \<longrightarrow>
         (\<exists>!k. k \<in> sym_class b valid l \<and> (avoid = [] \<or> \<not> avoid ! nat k > 0) \<and> \<not> dup k))"
proof -
  let ?ub = "if x_size b = y_size b then 8 else 4 :: int"
  let ?found = "(\<forall>s. s \<in> set valid \<longleftrightarrow> position_symmetry b h s) \<and> sym_closed b valid \<and>
      (\<forall>l. on_board (x_size b) (y_size b) l \<and> (avoid = [] \<or> \<not> avoid ! nat l > 0) \<longrightarrow>
         (\<exists>!k. k \<in> sym_class b valid l \<and> (avoid = [] \<or> \<not> avoid ! nat k > 0) \<and> \<not> dup k))"
  have many: ?found if v: "valid = 0 # filter (isBoardSym b h) [1..?ub - 1]"
    and d: "dup = fold (mark_point b avoid valid) ord (\<lambda>_. False)"
    and o: "distinct ord" "set ord = {0..<x_size b} \<times> {0..<y_size b}" for ord
  proof -
    have cl: "sym_closed b valid" "\<And>s. s \<in> set valid \<longleftrightarrow> position_symmetry b h s"
      unfolding v by (rule found_symmetries [OF assms(1,2)])+
    have "\<exists>!k. k \<in> sym_class b valid l \<and> (avoid = [] \<or> \<not> avoid ! nat k > 0) \<and> \<not> dup k"
      if l: "on_board (x_size b) (y_size b) l" "avoid = [] \<or> \<not> avoid ! nat l > 0" for l
    proof -
      have "\<not> (length avoid > 0 \<and> avoid ! nat l > 0)" using l(2) by auto
      from marking_loop [OF assms(1,2) cl(1) o l(1) this] show ?thesis using d by simp
    qed
    then show ?thesis using cl by blast
  qed
  have ban: "list_ex (\<lambda>(x, y). superKoBanned h (getLoc x y (x_size b))) (rows_xy (x_size b) (y_size b)) \<longleftrightarrow>
      (\<exists>l. on_board (x_size b) (y_size b) l \<and> superKoBanned h l)"
  proof -
    have "\<exists>x y. 0 \<le> x \<and> x < x_size b \<and> 0 \<le> y \<and> y < y_size b \<and> getLoc x y (x_size b) = l"
      if "on_board (x_size b) (y_size b) l" for l
      using getSymLoc_coords(2-6) [OF that assms(1,2)] by blast
    then show ?thesis
      using getLoc_on_board(1) [OF _ _ _ _ assms(1,2)] unfolding list_ex_iff set_rows_xy by fastforce
  qed
  have orders: "distinct [(x, y). x \<leftarrow> rev [0..x_size b - 1], y \<leftarrow> [0..y_size b - 1]]"
    "distinct [(x, y). x \<leftarrow> [0..x_size b - 1], y \<leftarrow> rev [0..y_size b - 1]]"
  proof -
    have "distinct (concat (map (\<lambda>x. map (Pair x) ys) xs))" if "distinct xs" "distinct ys" for xs ys :: "int list"
      using that by (induction xs) (auto simp: distinct_map inj_on_def)
    from this [of "rev [0..x_size b - 1]" "[0..y_size b - 1]"] this [of "[0..x_size b - 1]" "rev [0..y_size b - 1]"]
    show "distinct [(x, y). x \<leftarrow> rev [0..x_size b - 1], y \<leftarrow> [0..y_size b - 1]]"
      "distinct [(x, y). x \<leftarrow> [0..x_size b - 1], y \<leftarrow> rev [0..y_size b - 1]]" by simp_all
  qed
  have sets: "set [(x, y). x \<leftarrow> rev [0..x_size b - 1], y \<leftarrow> [0..y_size b - 1]] = {0..<x_size b} \<times> {0..<y_size b}"
    "set [(x, y). x \<leftarrow> [0..x_size b - 1], y \<leftarrow> rev [0..y_size b - 1]] = {0..<x_size b} \<times> {0..<y_size b}"
    by auto
  show ?thesis
  proof (cases "ko_loc b \<noteq> NULL_LOC \<or> (\<exists>l. on_board (x_size b) (y_size b) l \<and> superKoBanned h l)")
    case True
    then have "markDuplicateMoveLocs b h None avoid = (\<lambda>_. False, [0])"
      unfolding markDuplicateMoveLocs_def Let_def ban by (auto split: if_splits)
    then have "valid = [0] \<and> (\<forall>l. \<not> dup l)" unfolding assms(3) prod.inject by simp
    then show ?thesis using True by simp
  next
    case False
    let ?cols = "[(x, y). x \<leftarrow> rev [0..x_size b - 1], y \<leftarrow> [0..y_size b - 1]]"
    let ?cols' = "[(x, y). x \<leftarrow> [0..x_size b - 1], y \<leftarrow> rev [0..y_size b - 1]]"
    have "markDuplicateMoveLocs b h None avoid =
      (fold (mark_point b avoid (0 # filter (isBoardSym b h) [1..?ub - 1]))
        (if presumedNextMovePla h = P_BLACK then ?cols else ?cols') (\<lambda>_. False),
       0 # filter (isBoardSym b h) [1..?ub - 1])"
    proof -
      have f: "\<not> ko_loc b \<noteq> NULL_LOC" "\<not> (\<exists>l. on_board (x_size b) (y_size b) l \<and> superKoBanned h l)" using False by blast+
      show ?thesis
        unfolding markDuplicateMoveLocs_def Let_def ban NUM_SYMMETRIES_def NUM_SYMMETRIES_WITHOUT_TRANSPOSE_def
          if_not_P [OF f(1)] if_not_P [OF f(2)] by simp
    qed
    then have v: "valid = 0 # filter (isBoardSym b h) [1..?ub - 1]"
      and d: "dup = fold (mark_point b avoid valid) (if presumedNextMovePla h = P_BLACK then ?cols else ?cols') (\<lambda>_. False)"
      unfolding assms(3) prod.inject by blast+
    have ?found
    proof (cases "presumedNextMovePla h = P_BLACK")
      case True
      show ?thesis by (rule many [OF v _ orders(1) sets(1)]) (simp only: d True if_True simp_thms)
    next
      case False
      show ?thesis by (rule many [OF v _ orders(2) sets(2)]) (simp only: d False if_False)
    qed
    then show ?thesis unfolding if_not_P [OF False] .
  qed
qed

text \<open>A black stone in the corner: the position has the identity and one transposition.\<close>

definition corner_stone :: board where
  "corner_stone = demo 3 [(5, C_BLACK)]"

definition corner_hist :: history where
  "corner_hist = history_blank corner_stone P_WHITE Rules_default
     \<lparr>alwaysComputePassAliveUnderSuicideRules = False, excludeTerritoryAdjacentToAtari = False\<rparr>"

theorem one_move_per_class_witness:
  "\<exists>dup. markDuplicateMoveLocs corner_stone corner_hist None [] = (dup, [0, 4]) \<and>
     position_symmetry corner_stone corner_hist 4 \<and> \<not> position_symmetry corner_stone corner_hist 1 \<and>
     \<not> position_symmetry corner_stone corner_hist 3 \<and> (\<exists>!k. k \<in> {6, 9} \<and> \<not> dup k)"
proof -
  obtain dup valid where m: "markDuplicateMoveLocs corner_stone corner_hist None [] = (dup, valid)" by fastforce
  have z: "x_size corner_stone = 3" "y_size corner_stone = 3" "ko_loc corner_stone = NULL_LOC" by code_simp+
  have h: "\<not> superKoBanned corner_hist l" for l by (simp add: corner_hist_def history_blank_def)
  have "snd (markDuplicateMoveLocs corner_stone corner_hist None []) = [0, 4]" by code_simp
  then have v: "valid = [0, 4]" by (simp add: m)
  have M: "x_size corner_stone \<le> MAX_LEN" "y_size corner_stone \<le> MAX_LEN" by (simp_all add: z MAX_LEN_def)
  have "on_board 3 3 6" unfolding on_board_def by (rule exI [of _ 1], rule exI [of _ 0]) simp
  moreover have "getSymLoc 6 3 3 0 = 6" "getSymLoc 6 3 3 4 = 9" by code_simp+
  then have "sym_class corner_stone [0, 4] 6 = {6, 9}" by (simp add: sym_class_def z)
  moreover have nb: "\<not> (ko_loc corner_stone \<noteq> NULL_LOC \<or>
      (\<exists>l. on_board (x_size corner_stone) (y_size corner_stone) l \<and> superKoBanned corner_hist l))" using z(3) h by simp
  moreover have "\<exists>!k. k \<in> sym_class corner_stone valid 6 \<and> \<not> dup k" if "on_board 3 3 6"
    using one_move_per_class [OF M m, unfolded if_not_P [OF nb], THEN conjunct2, THEN conjunct2, THEN spec, of 6] that
    by (simp add: z(1,2))
  moreover have "position_symmetry corner_stone corner_hist s \<longleftrightarrow> s \<in> set valid" for s
    using one_move_per_class [OF M m, unfolded if_not_P [OF nb], THEN conjunct1] by blast
  ultimately show ?thesis using m v by (intro exI [of _ dup]) simp
qed

end
