(* ===== verification/Flood.thy ===== *)
theory Flood
  imports Prelude
begin

text \<open>
  Recursive flood fills. \<open>addChainHelper\<close> and \<open>rebuildChainHelper\<close> have the same shape: visit a
  point, then call themselves on each neighbour that is still white, threading the point visited
  last. The locale states that shape, and its theorem what such a function does: it returns, and
  its effect is that of visiting the connected component of the start in some order.
\<close>

text \<open>Visiting a list of points one after the other, each with the one before it.\<close>

fun visits :: "(int \<Rightarrow> int \<Rightarrow> 's \<Rightarrow> 's) \<Rightarrow> int \<Rightarrow> int list \<Rightarrow> 's \<Rightarrow> 's" where
  "visits visit t [] s = s"
| "visits visit t (v # vs) s = visits visit v vs (visit t v s)"

lemma visits_append: "visits visit t (as @ bs) s = visits visit (last (t # as)) bs (visits visit t as s)"
  by (induction as arbitrary: t s) auto

definition reach :: "(int \<Rightarrow> int list) \<Rightarrow> int set \<Rightarrow> int \<Rightarrow> int set" where
  "reach near W v = {m. (v, m) \<in> {(u, w). u \<in> W \<and> w \<in> W \<and> w \<in> set (near u)}\<^sup>*}"

lemma reach_refl: "v \<in> reach near W v"
  by (simp add: reach_def)

lemma reach_step: "v \<in> W \<Longrightarrow> x \<in> W \<Longrightarrow> x \<in> set (near v) \<Longrightarrow> reach near W x \<subseteq> reach near W v"
  unfolding reach_def by (auto intro: converse_rtrancl_into_rtrancl)

lemma reach_mono: "W \<subseteq> X \<Longrightarrow> reach near W v \<subseteq> reach near X v"
  unfolding reach_def using rtrancl_mono [of "{(u, w). u \<in> W \<and> w \<in> W \<and> w \<in> set (near u)}"
      "{(u, w). u \<in> X \<and> w \<in> X \<and> w \<in> set (near u)}"] by auto

lemma reach_least:
  assumes "v \<in> V" and "\<And>u w. u \<in> V \<Longrightarrow> w \<in> set (near u) \<Longrightarrow> w \<in> W \<Longrightarrow> w \<in> V"
  shows "reach near W v \<subseteq> V"
proof
  fix m assume "m \<in> reach near W v"
  then have "(v, m) \<in> {(u, w). u \<in> W \<and> w \<in> W \<and> w \<in> set (near u)}\<^sup>*" by (simp add: reach_def)
  then show "m \<in> V" by (induction rule: rtrancl_induct) (use assms in auto)
qed

section \<open>The list such a fill builds\<close>

text \<open>Each visited point is linked to the one visited before it; \<open>addChain\<close> closes the ring.\<close>

fun links :: "int \<Rightarrow> int list \<Rightarrow> (int \<Rightarrow> int) \<Rightarrow> int \<Rightarrow> int" where
  "links t [] nx = nx"
| "links t (v # vs) nx = links v vs (nx(v := t))"

lemma links_other: "x \<notin> set vs \<Longrightarrow> links t vs nx x = nx x"
  by (induction vs arbitrary: t nx) auto

lemma path_links: "distinct vs \<Longrightarrow> path (links t vs nx) (last (t # vs)) (rev vs) t"
  by (induction vs arbitrary: t nx) (auto simp: links_other)

lemma ring_links:
  assumes "distinct (v # vs)"
  shows "ring ((links v (v # vs) nx)(v := last (v # vs))) v (rev vs)"
proof -
  have "path (links v vs (nx(v := v))) (last (v # vs)) (rev vs) v"
    by (rule path_links) (use assms in simp)
  then have "path ((links v vs (nx(v := v)))(v := last (v # vs))) (last (v # vs)) (rev vs) v"
    by (rule path_cong) (use assms in auto)
  then show ?thesis using assms by (simp add: ring_def)
qed

locale flood =
  fixes fill :: "int \<Rightarrow> int \<Rightarrow> 's \<Rightarrow> ('s \<times> int) option"
    and white :: "'s \<Rightarrow> int set"
    and visit :: "int \<Rightarrow> int \<Rightarrow> 's \<Rightarrow> 's"
    and near :: "int \<Rightarrow> int list"
    and ok :: "'s \<Rightarrow> bool"
  assumes fill_unfold: "ok s \<Longrightarrow> fill t v s =
      foldM (\<lambda>a (s, t). if a \<in> white s then fill t a s else Some (s, t)) (near v) (visit t v s, v)"
    and white_visit: "ok s \<Longrightarrow> white (visit t v s) = white s - {v}"
    and ok_visit: "ok s \<Longrightarrow> ok (visit t v s)"
begin

lemma ok_visits: "ok s \<Longrightarrow> ok (visits visit t vs s) \<and> white (visits visit t vs s) = white s - set vs"
  by (induction vs arbitrary: t s) (auto simp: ok_visit white_visit)

lemma fill_visits:
  assumes "ok s" "v \<in> white s" "finite (white s)"
  shows "\<exists>vs. fill t v s = Some (visits visit t (v # vs) s, last (v # vs)) \<and> distinct (v # vs) \<and>
    set (v # vs) \<subseteq> white s \<inter> reach near (white s) v \<and>
    (\<forall>u\<in>set (v # vs). set (near u) \<inter> white s \<subseteq> set (v # vs))"
  using assms
proof (induction "card (white s)" arbitrary: s t v rule: less_induct)
  case less
  let ?W = "white s"
  let ?I = "\<lambda>xs p. set xs \<subseteq> set (near v) \<and> (\<exists>vs. p = (visits visit t (v # vs) s, last (v # vs)) \<and> distinct (v # vs) \<and>
    set (v # vs) \<subseteq> ?W \<inter> reach near ?W v \<and> (\<forall>u\<in>set vs. set (near u) \<inter> ?W \<subseteq> set (v # vs)) \<and>
    set (near v) \<inter> ?W \<subseteq> set xs \<union> set (v # vs))"
  have "\<exists>p. foldM (\<lambda>a (s, t). if a \<in> white s then fill t a s else Some (s, t)) (near v) (visit t v s, v) = Some p \<and> ?I [] p"
  proof (rule foldM_total [where I = ?I])
    show "?I (near v) (visit t v s, v)"
      using less.prems by (intro conjI exI [of _ "[]"]) (auto simp: reach_refl)
  next
    fix x ys p assume I: "?I (x # ys) p"
    then obtain vs where p: "p = (visits visit t (v # vs) s, last (v # vs))" and d: "distinct (v # vs)"
      and sub: "set (v # vs) \<subseteq> ?W \<inter> reach near ?W v" and cl: "\<forall>u\<in>set vs. set (near u) \<inter> ?W \<subseteq> set (v # vs)"
      and nb: "set (near v) \<inter> ?W \<subseteq> set (x # ys) \<union> set (v # vs)" by blast
    have x: "x \<in> set (near v)" "set ys \<subseteq> set (near v)" using I by auto
    let ?s = "visits visit t (v # vs) s" let ?t = "last (v # vs)"
    have ok: "ok ?s" and W: "white ?s = ?W - set (v # vs)" using ok_visits [OF less.prems(1)] by blast+
    show "\<exists>q. (case p of (s, t) \<Rightarrow> if x \<in> white s then fill t x s else Some (s, t)) = Some q \<and> ?I ys q"
    proof (cases "x \<in> white ?s")
      case False
      then have "?I ys p" using p d sub cl nb x W by (intro conjI exI [of _ vs]) auto
      then show ?thesis using False p by auto
    next
      case True
      have "card (white ?s) < card ?W"
        using W less.prems by (intro psubset_card_mono) auto
      moreover have "finite (white ?s)" using W less.prems(3) by simp
      ultimately obtain us where f: "fill ?t x ?s = Some (visits visit ?t (x # us) ?s, last (x # us))"
        and d': "distinct (x # us)" and sub': "set (x # us) \<subseteq> white ?s \<inter> reach near (white ?s) x"
        and cl': "\<forall>u\<in>set (x # us). set (near u) \<inter> white ?s \<subseteq> set (x # us)"
        using less.hyps [OF _ ok True, of ?t] by blast
      let ?vs = "vs @ x # us"
      have "visits visit t (v # ?vs) s = visits visit ?t (x # us) ?s"
        using visits_append [of visit t "v # vs" "x # us" s] by (simp del: visits.simps(2))
      moreover have "reach near (white ?s) x \<subseteq> reach near ?W v"
        using reach_mono [of "white ?s" ?W near x] reach_step [of v ?W x near] less.prems(2) True W x by auto
      ultimately have "?I ys (visits visit ?t (x # us) ?s, last (x # us))"
        using d d' sub sub' cl cl' nb x W
        by (intro conjI exI [of _ ?vs]) (simp, simp, auto)
      then show ?thesis using f True p by auto
    qed
  qed
  then obtain vs where r: "fill t v s = Some (visits visit t (v # vs) s, last (v # vs))"
    and vs: "distinct (v # vs)" "set (v # vs) \<subseteq> ?W \<inter> reach near ?W v"
      "\<forall>u\<in>set vs. set (near u) \<inter> ?W \<subseteq> set (v # vs)" "set (near v) \<inter> ?W \<subseteq> set (v # vs)"
    unfolding fill_unfold [OF less.prems(1)] by fastforce
  show ?case using r vs by (intro exI [of _ vs]) simp
qed

theorem fill_component:
  assumes "ok s" "v \<in> white s" "finite (white s)"
  shows "\<exists>vs. fill t v s = Some (visits visit t (v # vs) s, last (v # vs)) \<and> distinct (v # vs) \<and>
    set (v # vs) = reach near (white s) v"
proof -
  obtain vs where f: "fill t v s = Some (visits visit t (v # vs) s, last (v # vs))" and d: "distinct (v # vs)"
    and sub: "set (v # vs) \<subseteq> white s \<inter> reach near (white s) v"
    and cl: "\<forall>u\<in>set (v # vs). set (near u) \<inter> white s \<subseteq> set (v # vs)"
    using fill_visits [OF assms] by blast
  have "reach near (white s) v \<subseteq> set (v # vs)"
    by (rule reach_least) (use cl in auto)
  then show ?thesis using f d sub by blast
qed

end

end
