(* ===== verification/ChainFill.thy ===== *)
theory ChainFill
  imports Flood BoardOps
begin

text \<open>
  \<open>addChain\<close>: filling an empty region with stones of one colour. When no stone around the region has
  that colour, the region becomes one chain, without liberties, and every other chain's count
  is adjusted.
\<close>

section \<open>Connected regions\<close>

lemma reach_subset: "v \<in> W \<Longrightarrow> reach near W v \<subseteq> W"
  by (rule reach_least)

lemma reach_closed:
  assumes "u \<in> reach near W v" "v \<in> W" "w \<in> set (near u)" "w \<in> W"
  shows "w \<in> reach near W v"
  using assms reach_subset [OF assms(2), of near]
  by (auto simp: reach_def intro: rtrancl_into_rtrancl)

lemma conn_reach:
  assumes "v \<in> W"
  shows "conn xs (reach (adjs xs) W v)"
proof -
  let ?R = "reach (adjs xs) W v"
  have from_v: "(v, m) \<in> (step_in xs ?R)\<^sup>*" if "m \<in> ?R" for m
  proof -
    have "(v, m) \<in> {(u, w). u \<in> W \<and> w \<in> W \<and> w \<in> set (adjs xs u)}\<^sup>*" using that by (simp add: reach_def)
    then have "(v, m) \<in> (step_in xs ?R)\<^sup>* \<and> m \<in> ?R"
    proof (induction rule: rtrancl_induct)
      case base
      then show ?case by (simp add: reach_refl)
    next
      case (step u w)
      then have "w \<in> ?R" using reach_closed [of u "adjs xs" W v w] assms by auto
      moreover have "adjacent xs u w" using step by (simp add: adjacent_def)
      ultimately have "(u, w) \<in> step_in xs ?R" using step by (simp add: step_in_def)
      then show ?case using step \<open>w \<in> ?R\<close> by (auto intro: rtrancl_into_rtrancl)
    qed
    then show ?thesis ..
  qed
  show ?thesis
    unfolding conn_def
    using from_v step_in_rtrancl_sym [OF from_v] by (meson rtrancl_trans)
qed

section \<open>The state after some of the region is filled\<close>

definition filled :: "zobrist \<Rightarrow> player \<Rightarrow> loc \<Rightarrow> loc set \<Rightarrow> (loc \<Rightarrow> loc) \<Rightarrow> board \<Rightarrow> board" where
  "filled Z pla h V nx b =
     (let c = (\<lambda>l. if l \<in> V then pla else colors b l)
      in bump (\<lambda>k. - int (card {l\<in>V. k \<in> adj_heads b l (getOpp pla)}))
           (b\<lparr>colors := c, pos_hash := position_hash Z (x_size b) (y_size b) c,
              chain_head := (\<lambda>l. if l \<in> V then h else chain_head b l), next_in_chain := nx,
              chain_data := (chain_data b)(h := \<lparr>owner = pla, num_locs = int (card V), num_liberties = 0\<rparr>)\<rparr>))"

lemma filled_simps [simp]:
  "x_size (filled Z p h V nx b) = x_size b" "y_size (filled Z p h V nx b) = y_size b"
  "colors (filled Z p h V nx b) = (\<lambda>l. if l \<in> V then p else colors b l)"
  "chain_head (filled Z p h V nx b) = (\<lambda>l. if l \<in> V then h else chain_head b l)"
  "next_in_chain (filled Z p h V nx b) = nx"
  "ko_loc (filled Z p h V nx b) = ko_loc b"
  "numBlackCaptures (filled Z p h V nx b) = numBlackCaptures b"
  "numWhiteCaptures (filled Z p h V nx b) = numWhiteCaptures b"
  "adj_offsets (filled Z p h V nx b) = adj_offsets b"
  "owner (chain_data (filled Z p h V nx b) k) = (if k = h then p else owner (chain_data b k))"
  "num_locs (chain_data (filled Z p h V nx b) k) = (if k = h then int (card V) else num_locs (chain_data b k))"
  "num_liberties (chain_data (filled Z p h V nx b) k) =
     (if k = h then 0 else num_liberties (chain_data b k)) - int (card {l\<in>V. k \<in> adj_heads b l (getOpp p)})"
  "pos_hash (filled Z p h V nx b) =
     position_hash Z (x_size b) (y_size b) (\<lambda>l. if l \<in> V then p else colors b l)"
  by (simp_all add: filled_def Let_def)

text \<open>One call of \<open>addChainHelper\<close>, up to its loop.\<close>

definition fill_visit :: "zobrist \<Rightarrow> loc \<Rightarrow> player \<Rightarrow> loc \<Rightarrow> loc \<Rightarrow> board \<Rightarrow> board" where
  "fill_visit Z head pla tailTarget loc b =
     changeSurroundingLiberties loc (getOpp pla) (-1) (set_next loc tailTarget (add_locs head 1
       (set_head loc head (xor_hash Z loc pla (set_color loc pla b)))))"

lemma fill_visit_simps [simp]:
  "x_size (fill_visit Z h p t l b) = x_size b" "adj_offsets (fill_visit Z h p t l b) = adj_offsets b"
  "colors (fill_visit Z h p t l b) = (colors b)(l := p)"
  by (simp_all add: fill_visit_def changeSurroundingLiberties_bump)

interpretation fill: flood "addChainHelper Z head pla" "\<lambda>b :: board. {a. colors b a = C_EMPTY}" "fill_visit Z head pla"
  "adjs xs" "\<lambda>b. x_size b = xs \<and> adj_offsets b = getAdjacentOffsets xs \<and> is_stone pla"
  for Z head pla xs
proof
  fix s :: board and t v assume s: "x_size s = xs \<and> adj_offsets s = getAdjacentOffsets xs \<and> is_stone pla"
  have 4: "adj4 (fill_visit Z head pla t v s) v = adjs xs v"
    using s by (simp add: adj4_def adjs_def getAdjacentOffsets_def)
  show "addChainHelper Z head pla t v s =
      foldM (\<lambda>a (s, t). if a \<in> {a. colors s a = C_EMPTY} then addChainHelper Z head pla t a s else Some (s, t))
        (adjs xs v) (fill_visit Z head pla t v s, v)"
    by (subst addChainHelper.simps) (simp add: 4 [symmetric] fill_visit_def Let_def cong: foldM_cong)
qed auto

lemma adj_heads_cong:
  assumes "x_size b' = x_size b" "\<And>a. colors b' a = p \<longleftrightarrow> colors b a = p"
    and "\<And>a. colors b a = p \<Longrightarrow> chain_head b' a = chain_head b a"
  shows "adj_heads b' l p = adj_heads b l p"
  unfolding adj_heads_def assms(1,2) using assms(3) by metis

lemma filled_insert:
  assumes "finite V" "v \<notin> V" "on_board (x_size b) (y_size b) v" "is_stone p"
    and e: "\<And>l. l \<in> insert v V \<Longrightarrow> colors b l = C_EMPTY"
    and h: "\<And>l. is_stone (colors b l) \<Longrightarrow> chain_head b l \<noteq> h"
  shows "fill_visit Z h p t v (filled Z p h V nx b) = filled Z p h (insert v V) (nx(v := t)) b"
proof -
  let ?q = "getOpp p" let ?f = "filled Z p h V nx b"
  let ?b1 = "set_next v t (add_locs h 1 (set_head v h (xor_hash Z v p (set_color v p ?f))))"
  have c: "colors ?b1 = (\<lambda>l. if l \<in> insert v V then p else colors b l)" by auto
  have q: "colors ?b1 a = ?q \<longleftrightarrow> colors b a = ?q" for a unfolding c using e [of a] assms(4) by auto
  have "chain_head ?b1 a = chain_head b a" if "colors b a = ?q" for a
    using that e [of a] assms(4) by auto
  then have heads: "adj_heads ?b1 v ?q = adj_heads b v ?q"
    by (intro adj_heads_cong q) auto
  have hash: "pos_hash ?b1 = position_hash Z (x_size b) (y_size b) (colors ?b1)"
    using position_hash_update [OF assms(3), of Z "colors ?f" p] assms(2,4) e [of v]
    by (simp add: stone_hash_def)
  have card: "card {l \<in> insert v V. k \<in> adj_heads b l ?q}
      = card {l\<in>V. k \<in> adj_heads b l ?q} + (if k \<in> adj_heads b v ?q then 1 else 0)" for k
  proof (cases "k \<in> adj_heads b v ?q")
    case True
    then have "{l \<in> insert v V. k \<in> adj_heads b l ?q} = insert v {l\<in>V. k \<in> adj_heads b l ?q}" by auto
    with True assms(1,2) show ?thesis by simp
  next
    case False
    then have "{l \<in> insert v V. k \<in> adj_heads b l ?q} = {l\<in>V. k \<in> adj_heads b l ?q}" by auto
    with False show ?thesis by simp
  qed
  have h0: "h \<notin> adj_heads b l ?q" for l using h assms(4) by (force simp: adj_heads_def)
  have "fill_visit Z h p t v ?f = bump (\<lambda>k. if k \<in> adj_heads b v ?q then -1 else 0) ?b1"
    by (simp only: fill_visit_def changeSurroundingLiberties_bump heads)
  also have "\<dots> = filled Z p h (insert v V) (nx(v := t)) b"
  proof (rule board.equality)
    show "colors (bump (\<lambda>k. if k \<in> adj_heads b v ?q then -1 else 0) ?b1) = colors (filled Z p h (insert v V) (nx(v := t)) b)"
      unfolding bump_simps(3) c unfolding filled_simps(3) ..
    show "pos_hash (bump (\<lambda>k. if k \<in> adj_heads b v ?q then -1 else 0) ?b1) = pos_hash (filled Z p h (insert v V) (nx(v := t)) b)"
      unfolding bump_simps(7) hash c unfolding filled_simps(13) ..
    show "chain_data (bump (\<lambda>k. if k \<in> adj_heads b v ?q then -1 else 0) ?b1) = chain_data (filled Z p h (insert v V) (nx(v := t)) b)"
      by (rule ext, rule ChainData.equality)
        (simp_all only: bump_simps filled_simps card, use h0 assms(1,2) in simp_all)
  qed auto
  finally show ?thesis .
qed

lemma filled_visits:
  assumes "finite V" "distinct vs" "V \<inter> set vs = {}" "is_stone p"
    and "\<And>l. l \<in> V \<union> set vs \<Longrightarrow> colors b l = C_EMPTY" "\<And>l. l \<in> set vs \<Longrightarrow> on_board (x_size b) (y_size b) l"
    and "\<And>l. is_stone (colors b l) \<Longrightarrow> chain_head b l \<noteq> h"
  shows "visits (fill_visit Z h p) t vs (filled Z p h V nx b) = filled Z p h (V \<union> set vs) (links t vs nx) b"
  using assms
proof (induction vs arbitrary: V t nx)
  case Nil
  then show ?case by simp
next
  case (Cons v vs)
  have "fill_visit Z h p t v (filled Z p h V nx b) = filled Z p h (insert v V) (nx(v := t)) b"
    by (rule filled_insert) (use Cons.prems in auto)
  moreover have "visits (fill_visit Z h p) v vs (filled Z p h (insert v V) (nx(v := t)) b) =
      filled Z p h (insert v V \<union> set vs) (links v vs (nx(v := t))) b"
    by (rule Cons.IH) (use Cons.prems in auto)
  ultimately show ?case by simp
qed

section \<open>\<open>addChain\<close>\<close>

definition empty_region :: "board \<Rightarrow> loc \<Rightarrow> loc set" where
  "empty_region b l = reach (adjs (x_size b)) {a. colors b a = C_EMPTY} l"

lemma empty_region_empty: "colors b l = C_EMPTY \<Longrightarrow> m \<in> empty_region b l \<Longrightarrow> colors b m = C_EMPTY"
  unfolding empty_region_def using reach_subset [of l "{a. colors b a = C_EMPTY}"] by auto

lemma empty_region_closed:
  "colors b l = C_EMPTY \<Longrightarrow> m \<in> empty_region b l \<Longrightarrow> adjacent (x_size b) m e \<Longrightarrow> colors b e = C_EMPTY \<Longrightarrow>
    e \<in> empty_region b l"
  unfolding empty_region_def by (rule reach_closed) (auto simp: adjacent_def)

lemma finite_empty_region:
  assumes "geom_ok b" "colors b l = C_EMPTY"
  shows "finite (empty_region b l)"
proof (rule finite_subset [OF _ finite_on_board])
  show "empty_region b l \<subseteq> {m. on_board (x_size b) (y_size b) m}"
    using empty_region_empty [OF assms(2)] geom_empty_on_board [OF assms(1)] by blast
qed

lemma addChain_filled:
  assumes "core Z off E b" "colors b l = C_EMPTY" "is_stone p"
  shows "\<exists>nx ps. addChain Z l p b = Some (filled Z p l (empty_region b l) nx b) \<and>
    ring nx l ps \<and> set (l # ps) = empty_region b l \<and>
    (\<forall>m. m \<notin> empty_region b l \<longrightarrow> nx m = next_in_chain b m)"
proof -
  from assms have g: "geom_ok b" and hs: "hash_ok Z b" and c: "chains_ok b off" by (simp_all add: core_def)
  let ?R = "empty_region b l" let ?W = "{a. colors b a = C_EMPTY}"
  let ?s = "set_chain_data l \<lparr>owner = p, num_locs = 0, num_liberties = 0\<rparr> b"
  have s0: "?s = filled Z p l {} (next_in_chain b) b"
    using hs by (simp add: filled_def set_chain_data_def hash_ok_def bump_zero)
  have "finite {a. colors ?s a = C_EMPTY}"
    by (rule finite_subset [OF _ finite_on_board [of "x_size b" "y_size b"]]) (use geom_empty_on_board [OF g] in auto)
  moreover have "x_size ?s = x_size b \<and> adj_offsets ?s = getAdjacentOffsets (x_size b) \<and> is_stone p"
    using g assms(3) by (simp add: geom_ok_def)
  ultimately obtain vs where f: "addChainHelper Z l p l l ?s =
      Some (visits (fill_visit Z l p) l (l # vs) ?s, last (l # vs))"
    and d: "distinct (l # vs)" and R: "set (l # vs) = ?R"
    using fill.fill_component [where s = ?s and xs = "x_size b" and pla = p and Z = Z and head = l and v = l and t = l]
      assms(2) unfolding empty_region_def by (simp del: visits.simps last.simps set_simps distinct.simps) blast
  have "visits (fill_visit Z l p) l (l # vs) (filled Z p l {} (next_in_chain b) b) =
      filled Z p l ({} \<union> set (l # vs)) (links l (l # vs) (next_in_chain b)) b"
  proof (rule filled_visits)
    show "colors b m = C_EMPTY" if "m \<in> {} \<union> set (l # vs)" for m
      using that R empty_region_empty [OF assms(2)] by auto
    then show "on_board (x_size b) (y_size b) m" if "m \<in> set (l # vs)" for m
      using that geom_empty_on_board [OF g] by auto
    show "chain_head b m \<noteq> l" if "is_stone (colors b m)" for m
      using chains_ok_head [OF c that] assms(2) by (auto simp: heads_def)
  qed (use d assms(3) in auto)
  with f R have "addChainHelper Z l p l l ?s = Some (filled Z p l ?R (links l (l # vs) (next_in_chain b)) b, last (l # vs))"
    by (simp add: s0 del: visits.simps(2) links.simps(2))
  moreover define nx where "nx = (links l (l # vs) (next_in_chain b))(l := last (l # vs))"
  ultimately have "addChain Z l p b = Some (filled Z p l ?R nx b)"
    by (simp add: addChain_def Let_def filled_def set_next_def bump_def)
  moreover have "set (l # rev vs) = ?R" using R by simp
  moreover have "\<forall>m. m \<notin> ?R \<longrightarrow> nx m = next_in_chain b m"
    unfolding nx_def R [symmetric] by (auto simp: links_other)
  moreover have "ring nx l (rev vs)" unfolding nx_def by (rule ring_links [OF d])
  ultimately show ?thesis by blast
qed

lemma core_filled:
  assumes core: "core Z (\<lambda>_. 0) {} b" and l: "colors b l = C_EMPTY" and p: "is_stone p"
    and R: "R = empty_region b l"
    and own: "\<And>m e. m \<in> R \<Longrightarrow> adjacent (x_size b) m e \<Longrightarrow> colors b e \<noteq> p"
    and r: "ring nx l ps" "set (l # ps) = R" "\<And>m. m \<notin> R \<Longrightarrow> nx m = next_in_chain b m"
  shows "core Z (\<lambda>_. 0) {} (filled Z p l R nx b)"
proof -
  from core have g: "geom_ok b" and c: "chains_ok b (\<lambda>_. 0)" and mx: "max_ok b {}" by (simp_all add: core_def)
  let ?b = "filled Z p l R nx b"
  have e: "colors b m = C_EMPTY" if "m \<in> R" for m using that empty_region_empty [OF l] R by simp
  have fin: "finite R" using finite_empty_region [OF g l] R by simp
  have lR: "l \<in> R" using r(2) by auto
  have nl: "chain_head b m \<noteq> l" if "is_stone (colors b m)" for m
    using chains_ok_head [OF c that] l by (auto simp: heads_def)
  have hb: "heads ?b = insert l (heads b)"
    using lR p e nl by (auto simp: heads_def split: if_splits)
  have chl: "chain_of ?b l = R" using p nl by (auto simp: chain_of_def split: if_splits)
  have chk: "chain_of ?b k = chain_of b k" if "k \<noteq> l" for k
    using that e by (auto simp: chain_of_def split: if_splits)
  have nadj: "l \<notin> adj_heads b m (getOpp p)" for m
    using nl p by (force simp: adj_heads_def)
  have "libs_of ?b R = {}"
    using empty_region_closed [OF l] p R by (auto simp: libs_of_def)
  moreover have "conn (x_size b) R" unfolding R empty_region_def by (rule conn_reach) (simp add: l)
  ultimately have okl: "chain_ok ?b 0 l"
    using r(1,2) lR nadj unfolding chain_ok_def chl by (auto simp: chl)
  have "chain_ok ?b 0 k" if k: "k \<in> heads b" for k
  proof -
    from chains_ok_chain [OF c k] have ok: "chain_ok b 0 k" .
    have kl: "k \<noteq> l" using k l by (auto simp: heads_def)
    have dis: "chain_of b k \<inter> R = {}" using e by (auto simp: chain_of_def)
    then have kR: "k \<notin> R" using chain_of_self [OF k] by auto
    have eq: "{m\<in>R. k \<in> adj_heads b m (getOpp p)} = R \<inter> libs_of b (chain_of b k)"
    proof (cases "colors b k = getOpp p")
      case True
      have "colors b a = getOpp p \<longleftrightarrow> is_stone (colors b a)" if "chain_head b a = k" for a
        using that True head_color [OF c, of a] p by (metis getOpp_simps(4))
      then show ?thesis using e by (auto simp: adj_heads_def libs_of_def chain_of_def adjacent_sym)
    next
      case False
      with stone_colors [OF heads_stone [OF k] p] have kp: "colors b k = p" by simp
      have "k \<notin> adj_heads b m (getOpp p)" for m
        using False head_color [OF c] p by (auto simp: adj_heads_def)
      moreover have "m \<notin> libs_of b (chain_of b k)" if "m \<in> R" for m
        using own [OF that] chain_ok_color [OF ok] kp by (auto simp: libs_of_def adjacent_sym)
      ultimately show ?thesis by auto
    qed
    have "libs_of ?b (chain_of b k) = libs_of b (chain_of b k) - R" using p by (auto simp: libs_of_def)
    moreover have "card (libs_of b (chain_of b k) - R) =
        card (libs_of b (chain_of b k)) - card (R \<inter> libs_of b (chain_of b k))"
      using card_Diff_subset_Int [of "libs_of b (chain_of b k)" R] finite_libs_of [OF g, of "chain_of b k"]
      by (simp add: Int_commute)
    moreover have "card (R \<inter> libs_of b (chain_of b k)) \<le> card (libs_of b (chain_of b k))"
      by (rule card_mono) (simp_all add: finite_libs_of [OF g])
    ultimately have libs: "int (card (libs_of ?b (chain_of b k))) =
        int (card (libs_of b (chain_of b k))) - int (card {m\<in>R. k \<in> adj_heads b m (getOpp p)})"
      unfolding eq by simp
    obtain qs where q: "ring (next_in_chain b) k qs" "set (k # qs) = chain_of b k"
      using ok by (auto simp: chain_ok_def)
    have "ring nx k qs"
    proof (rule ring_cong [OF q(1)])
      show "next_in_chain b m = nx m" if "m \<in> set (k # qs)" for m
        using that dis unfolding q(2) by (intro r(3) [symmetric]) auto
    qed
    moreover have "\<forall>m\<in>chain_of b k. m \<notin> R" using dis by auto
    ultimately show ?thesis
      using ok q(2) kl kR libs unfolding chain_ok_def chk [OF kl] by auto
  qed
  with okl have "\<forall>k\<in>heads ?b. chain_ok ?b 0 k" unfolding hb by blast
  moreover have "chain_head ?b m \<in> heads ?b" if "is_stone (colors ?b m)" for m
    unfolding hb using that chains_ok_head [OF c, of m] by (auto split: if_splits)
  ultimately have "chains_ok ?b (\<lambda>_. 0)" by (simp add: chains_ok_def)
  moreover have "geom_ok ?b"
    using g p geom_empty_on_board [OF g e] by (auto simp: geom_ok_def)
  moreover have "max_ok ?b {}"
  proof -
    have "chain_head ?b u = chain_head ?b v"
      if "adjacent (x_size b) u v" "is_stone (colors ?b u)" "colors ?b v = colors ?b u" for u v
      using that own [of u v] own [of v u] mx by (auto simp: max_ok_def adjacent_sym split: if_splits)
    then show ?thesis by (simp add: max_ok_def)
  qed
  ultimately show ?thesis by (simp add: core_def hash_ok_def)
qed

text \<open>What \<open>addChain\<close> does, seen from outside.\<close>

lemma addChain_core:
  assumes "core Z (\<lambda>_. 0) {} b" "colors b l = C_EMPTY" "is_stone p"
    and own: "\<forall>m\<in>empty_region b l. \<forall>e. adjacent (x_size b) m e \<longrightarrow> colors b e \<noteq> p"
  shows "\<exists>b'. addChain Z l p b = Some b' \<and> core Z (\<lambda>_. 0) {} b' \<and>
    colors b' = (\<lambda>m. if m \<in> empty_region b l then p else colors b m) \<and>
    num_locs (chain_data b' (chain_head b' l)) = int (card (empty_region b l)) \<and>
    x_size b' = x_size b \<and> y_size b' = y_size b \<and> ko_loc b' = ko_loc b \<and> adj_offsets b' = adj_offsets b \<and>
    numBlackCaptures b' = numBlackCaptures b \<and> numWhiteCaptures b' = numWhiteCaptures b"
proof -
  obtain nx ps where a: "addChain Z l p b = Some (filled Z p l (empty_region b l) nx b)"
    and r: "ring nx l ps" "set (l # ps) = empty_region b l"
    "\<And>m. m \<notin> empty_region b l \<Longrightarrow> nx m = next_in_chain b m"
    using addChain_filled [OF assms(1-3)] by blast
  have "core Z (\<lambda>_. 0) {} (filled Z p l (empty_region b l) nx b)"
    by (rule core_filled [OF assms(1-3) refl _ r]) (use own in blast)
  moreover have "l \<in> empty_region b l" using r(2) by auto
  ultimately show ?thesis using a by (intro exI [of _ "filled Z p l (empty_region b l) nx b"]) simp
qed

end
