(* ===== verification/ChainRebuild.thy ===== *)
theory ChainRebuild
  imports ChainFill
begin

text \<open>
  \<open>rebuildChain\<close>: stones whose heads were forgotten become a chain again. In a \<open>loose\<close> state some
  stones, the orphans, belong to no chain and have the head \<open>NULL_LOC\<close>; one call makes the
  orphans connected to a point a chain.
\<close>

section \<open>Loose states\<close>

definition loose :: "zobrist \<Rightarrow> board \<Rightarrow> bool" where
  "loose Z b \<longleftrightarrow> geom_ok b \<and> hash_ok Z b \<and>
     (\<forall>l. is_stone (colors b l) \<longrightarrow> chain_head b l \<in> heads b \<or> chain_head b l = NULL_LOC) \<and>
     (\<forall>h\<in>heads b. chain_ok b 0 h) \<and> max_ok b {}"

definition orphans :: "board \<Rightarrow> loc set" where
  "orphans b = chain_of b NULL_LOC"

lemma loose_geom: "loose Z b \<Longrightarrow> geom_ok b"
  by (simp add: loose_def)

lemma on_board_not_null: "geom_ok b \<Longrightarrow> on_board (x_size b) (y_size b) l \<Longrightarrow> l \<noteq> NULL_LOC"
  using on_board_range(1) [of "x_size b" "y_size b" l] by (auto simp: geom_ok_def NULL_LOC_def)

lemma heads_not_null: "geom_ok b \<Longrightarrow> h \<in> heads b \<Longrightarrow> h \<noteq> NULL_LOC"
  using on_board_not_null [OF _ geom_stone_on_board [OF _ heads_stone]] by blast

lemma orphan_iff: "l \<in> orphans b \<longleftrightarrow> is_stone (colors b l) \<and> chain_head b l = NULL_LOC"
  by (simp add: orphans_def chain_of_def)

lemma core_loose: "core Z (\<lambda>_. 0) {} b \<longleftrightarrow> loose Z b \<and> orphans b = {}"
proof
  assume c: "core Z (\<lambda>_. 0) {} b"
  then have "geom_ok b" by (simp add: core_def)
  then have "orphans b = {}"
    using c heads_not_null [of b NULL_LOC] by (auto simp: orphan_iff core_def chains_ok_def)
  then show "loose Z b \<and> orphans b = {}" using c by (simp add: core_def chains_ok_def loose_def)
next
  assume "loose Z b \<and> orphans b = {}"
  then show "core Z (\<lambda>_. 0) {} b"
    unfolding loose_def core_def chains_ok_def using orphan_iff [of _ b] by blast
qed

lemma orphan_not_head:
  assumes "loose Z b" "l \<in> orphans b" "is_stone (colors b m)"
  shows "chain_head b m \<noteq> l"
proof
  assume m: "chain_head b m = l"
  have l: "l \<noteq> NULL_LOC"
    using assms(2) on_board_not_null [OF loose_geom [OF assms(1)] geom_stone_on_board [OF loose_geom [OF assms(1)]]]
    by (auto simp: orphan_iff)
  with assms(1,3) m have "l \<in> heads b" by (auto simp: loose_def)
  then show False using assms(2) l by (simp add: orphan_iff heads_def)
qed

section \<open>The state after some orphans are visited\<close>

definition relinked :: "player \<Rightarrow> loc \<Rightarrow> loc set \<Rightarrow> (loc \<Rightarrow> loc) \<Rightarrow> board \<Rightarrow> board" where
  "relinked pla h V nx b =
     b\<lparr>chain_head := (\<lambda>l. if l \<in> V then h else chain_head b l), next_in_chain := nx,
       chain_data := (chain_data b)(h := \<lparr>owner = pla, num_locs = int (card V),
                                          num_liberties = int (card (libs_of b V))\<rparr>)\<rparr>"

lemma relinked_simps [simp]:
  "x_size (relinked p h V nx b) = x_size b" "y_size (relinked p h V nx b) = y_size b"
  "colors (relinked p h V nx b) = colors b" "pos_hash (relinked p h V nx b) = pos_hash b"
  "chain_head (relinked p h V nx b) = (\<lambda>l. if l \<in> V then h else chain_head b l)"
  "next_in_chain (relinked p h V nx b) = nx" "ko_loc (relinked p h V nx b) = ko_loc b"
  "numBlackCaptures (relinked p h V nx b) = numBlackCaptures b"
  "numWhiteCaptures (relinked p h V nx b) = numWhiteCaptures b"
  "adj_offsets (relinked p h V nx b) = adj_offsets b"
  "chain_data (relinked p h V nx b) = (chain_data b)(h := \<lparr>owner = p, num_locs = int (card V),
     num_liberties = int (card (libs_of b V))\<rparr>)"
  by (simp_all add: relinked_def)

lemma libs_of_relinked [simp]: "libs_of (relinked p h V nx b) S = libs_of b S"
  by (simp add: libs_of_def)

text \<open>One call of \<open>rebuildChainHelper\<close>, up to its loop.\<close>

definition rebuild_visit :: "loc \<Rightarrow> loc \<Rightarrow> loc \<Rightarrow> board \<Rightarrow> board" where
  "rebuild_visit head tailTarget loc b =
     set_next loc tailTarget (add_locs head 1 (set_head loc head (add_liberties head
       (fold (\<lambda>adj n. if colors b adj = C_EMPTY \<and> \<not> isLibertyOf b adj head then n + 1 else n)
          (adjs (x_size b) loc) 0) b)))"

lemma rebuild_visit_simps [simp]:
  "x_size (rebuild_visit h t l b) = x_size b" "colors (rebuild_visit h t l b) = colors b"
  "chain_head (rebuild_visit h t l b) = (chain_head b)(l := h)"
  by (simp_all add: rebuild_visit_def)

interpretation rebuild: flood "rebuildChainHelper head pla"
  "\<lambda>b :: board. {a. colors b a = pla \<and> chain_head b a \<noteq> head}" "rebuild_visit head" "adjs xs"
  "\<lambda>b. x_size b = xs" for head pla xs
proof
  fix s :: board and t v assume s: "x_size s = xs"
  show "rebuildChainHelper head pla t v s =
      foldM (\<lambda>a (s, t). if a \<in> {a. colors s a = pla \<and> chain_head s a \<noteq> head}
        then rebuildChainHelper head pla t a s else Some (s, t)) (adjs xs v) (rebuild_visit head t v s, v)"
    by (subst rebuildChainHelper.simps) (simp add: s rebuild_visit_def Let_def cong: foldM_cong)
qed auto

lemma relinked_insert:
  assumes "finite V" "v \<notin> V" "1 \<le> x_size b" "geom_ok b" "h \<in> insert v V"
    and "\<And>l. l \<in> insert v V \<Longrightarrow> colors b l = colors b h"
    and "\<And>l. colors b l = colors b h \<Longrightarrow> chain_head b l \<noteq> h"
  shows "rebuild_visit h t v (relinked p h V nx b) = relinked p h (insert v V) (nx(v := t)) b"
proof -
  let ?r = "relinked p h V nx b"
  have A: "colors ?r l = colors ?r h \<and> chain_head ?r l = h \<longleftrightarrow> l \<in> V" for l
    using assms(6,7) by auto
  have "fold (\<lambda>adj n. if colors ?r adj = C_EMPTY \<and> \<not> isLibertyOf ?r adj h then n + 1 else n) (adjs (x_size ?r) v) 0
      = int (card (libs_of b (insert v V) - libs_of b V))"
    unfolding fold_count count_new_liberties [OF assms(3) A relinked_simps(3,1), of v] by simp
  moreover have "card (libs_of b V) + card (libs_of b (insert v V) - libs_of b V) = card (libs_of b (insert v V))"
    using card_Un_disjoint [of "libs_of b V" "libs_of b (insert v V) - libs_of b V"] finite_libs_of [OF assms(4)]
      libs_of_Un [of b "{v}" V] by (simp add: Un_absorb1)
  ultimately show ?thesis
    unfolding rebuild_visit_def using assms(1,2)
    by (simp add: relinked_def update_defs fun_eq_iff flip: of_nat_add)
qed

lemma rebuild_visits:
  assumes "finite V" "distinct vs" "V \<inter> set vs = {}" "1 \<le> x_size b" "geom_ok b" "h \<in> insert (hd vs) V"
    and "\<And>l. l \<in> V \<union> set vs \<Longrightarrow> colors b l = colors b h"
    and "\<And>l. colors b l = colors b h \<Longrightarrow> chain_head b l \<noteq> h"
  shows "visits (rebuild_visit h) t vs (relinked p h V nx b) = relinked p h (V \<union> set vs) (links t vs nx) b"
  using assms
proof (induction vs arbitrary: V t nx)
  case Nil
  then show ?case by simp
next
  case (Cons v vs)
  have "rebuild_visit h t v (relinked p h V nx b) = relinked p h (insert v V) (nx(v := t)) b"
    by (rule relinked_insert) (use Cons.prems in auto)
  moreover have "visits (rebuild_visit h) v vs (relinked p h (insert v V) (nx(v := t)) b) =
      relinked p h (insert v V \<union> set vs) (links v vs (nx(v := t))) b"
    by (rule Cons.IH) (use Cons.prems in auto)
  ultimately show ?case by simp
qed

section \<open>\<open>rebuildChain\<close>\<close>

text \<open>The stones connected to a stone through stones of its colour.\<close>

definition stone_region :: "board \<Rightarrow> loc \<Rightarrow> loc set" where
  "stone_region b l = reach (adjs (x_size b)) {a. colors b a = colors b l \<and> chain_head b a \<noteq> l} l"

lemma stone_region_facts:
  assumes "loose Z b" "l \<in> orphans b"
  shows "l \<in> stone_region b l" "stone_region b l \<subseteq> orphans b" "conn (x_size b) (stone_region b l)"
    and "m \<in> stone_region b l \<Longrightarrow> colors b m = colors b l"
    and "m \<in> stone_region b l \<Longrightarrow> adjacent (x_size b) m e \<Longrightarrow> colors b e = colors b m \<Longrightarrow> e \<in> stone_region b l"
proof -
  let ?W = "{a. colors b a = colors b l \<and> chain_head b a \<noteq> l}"
  have st: "is_stone (colors b l)" "chain_head b l = NULL_LOC" using assms(2) by (simp_all add: orphan_iff)
  have l: "l \<in> ?W" using orphan_not_head [OF assms st(1)] by simp
  show "l \<in> stone_region b l" by (simp add: stone_region_def reach_refl)
  show "conn (x_size b) (stone_region b l)" unfolding stone_region_def by (rule conn_reach [OF l])
  have W: "stone_region b l \<subseteq> ?W" unfolding stone_region_def by (rule reach_subset [OF l])
  show col: "colors b m = colors b l" if "m \<in> stone_region b l" for m using that W by auto
  have "stone_region b l \<subseteq> {a \<in> orphans b. colors b a = colors b l}"
    unfolding stone_region_def
    by (rule reach_least) (use assms in \<open>auto simp: loose_def max_ok_def orphan_iff adjacent_def\<close>)
  then show "stone_region b l \<subseteq> orphans b" by blast
  show "e \<in> stone_region b l"
    if "m \<in> stone_region b l" "adjacent (x_size b) m e" "colors b e = colors b m"
  proof -
    have "colors b e = colors b l" using that col by simp
    moreover from this have "chain_head b e \<noteq> l" using orphan_not_head [OF assms, of e] st by simp
    ultimately show ?thesis
      using reach_closed [OF that(1) [unfolded stone_region_def] l, of e] that(2)
      by (auto simp: stone_region_def adjacent_def)
  qed
qed

lemma rebuildChain_relinked:
  assumes b: "loose Z b" and l: "l \<in> orphans b"
  shows "\<exists>nx ps. rebuildChain l (colors b l) b = Some (relinked (colors b l) l (stone_region b l) nx b) \<and>
    ring nx l ps \<and> set (l # ps) = stone_region b l \<and>
    (\<forall>m. m \<notin> stone_region b l \<longrightarrow> nx m = next_in_chain b m)"
proof -
  note g = loose_geom [OF b]
  let ?R = "stone_region b l" let ?p = "colors b l"
  let ?s = "set_chain_data l \<lparr>owner = ?p, num_locs = 0, num_liberties = 0\<rparr> b"
  have st: "is_stone ?p" using l by (simp add: orphan_iff)
  have s0: "?s = relinked ?p l {} (next_in_chain b) b"
    by (simp add: relinked_def set_chain_data_def libs_of_def)
  have nl: "colors b m = ?p \<Longrightarrow> chain_head b m \<noteq> l" for m using orphan_not_head [OF b l, of m] st by simp
  have "{a. colors ?s a = ?p \<and> chain_head ?s a \<noteq> l} \<subseteq> {a. on_board (x_size b) (y_size b) a}"
    using geom_stone_on_board [OF g] st by auto
  then have "finite {a. colors ?s a = ?p \<and> chain_head ?s a \<noteq> l}" by (rule finite_subset) simp
  then obtain vs where f: "rebuildChainHelper l ?p l l ?s =
      Some (visits (rebuild_visit l) l (l # vs) ?s, last (l # vs))"
    and d: "distinct (l # vs)" and R: "set (l # vs) = ?R"
    using rebuild.fill_component [where s = ?s and xs = "x_size b" and pla = ?p and head = l and v = l and t = l] nl
    unfolding stone_region_def by (simp del: visits.simps last.simps set_simps distinct.simps) blast
  have "visits (rebuild_visit l) l (l # vs) (relinked ?p l {} (next_in_chain b) b) =
      relinked ?p l ({} \<union> set (l # vs)) (links l (l # vs) (next_in_chain b)) b"
  proof (rule rebuild_visits)
    show "1 \<le> x_size b" by (rule on_board_xs [OF geom_stone_on_board [OF g st]])
    show "colors b m = ?p" if "m \<in> {} \<union> set (l # vs)" for m
      using that stone_region_facts(4) [OF b l] unfolding R by simp
  qed (use d g nl in auto)
  then have "rebuildChainHelper l ?p l l ?s = Some (relinked ?p l ?R (links l (l # vs) (next_in_chain b)) b, last (l # vs))"
    using f unfolding s0 R by simp
  moreover define nx where "nx = (links l (l # vs) (next_in_chain b))(l := last (l # vs))"
  ultimately have "rebuildChain l ?p b = Some (relinked ?p l ?R nx b)"
    by (simp add: rebuildChain_def Let_def relinked_def set_next_def)
  moreover have "set (l # rev vs) = ?R" using R by simp
  moreover have "\<forall>m. m \<notin> ?R \<longrightarrow> nx m = next_in_chain b m"
    unfolding nx_def R [symmetric] by (auto simp: links_other)
  moreover have "ring nx l (rev vs)" unfolding nx_def by (rule ring_links [OF d])
  ultimately show ?thesis by blast
qed

lemma loose_relinked:
  assumes b: "loose Z b" and l: "l \<in> orphans b" and R: "R = stone_region b l"
    and r: "ring nx l ps" "set (l # ps) = R" "\<And>m. m \<notin> R \<Longrightarrow> nx m = next_in_chain b m"
  shows "loose Z (relinked (colors b l) l R nx b)" "orphans (relinked (colors b l) l R nx b) = orphans b - R"
proof -
  let ?b = "relinked (colors b l) l R nx b"
  note g = loose_geom [OF b] and f = stone_region_facts [OF b l, folded R]
  have st: "is_stone (colors b l)" using l by (simp add: orphan_iff)
  have l0: "l \<noteq> NULL_LOC" by (rule on_board_not_null [OF g geom_stone_on_board [OF g st]])
  note nl = orphan_not_head [OF b l]
  have orph: "is_stone (colors b m) \<and> chain_head b m = NULL_LOC" if "m \<in> R" for m
    using that f(2) by (auto simp: orphan_iff)
  have chl: "chain_of ?b l = R" using orph nl by (auto simp: chain_of_def)
  have dis: "chain_of b k \<inter> R = {}" if "k \<noteq> NULL_LOC" for k
    using that orph by (auto simp: chain_of_def)
  have chk: "chain_of ?b k = chain_of b k" if "k \<noteq> l" "k \<noteq> NULL_LOC" for k
    using that orph by (auto simp: chain_of_def)
  have h0: "k \<noteq> NULL_LOC \<and> k \<noteq> l \<and> k \<notin> R" if "k \<in> heads b" for k
    using that heads_not_null [OF g that] orph [of k] l by (auto simp: heads_def orphan_iff)
  have "m \<in> heads ?b \<longleftrightarrow> m = l \<or> m \<in> heads b" for m
    using f(1) st orph [of m] h0 [of m] by (cases "m \<in> R") (auto simp: heads_def)
  then have hb: "heads ?b = insert l (heads b)" by blast
  show "orphans ?b = orphans b - R" using l0 by (auto simp: orphan_iff split: if_splits)
  have "chain_ok ?b 0 l"
    unfolding chain_ok_def chl libs_of_relinked relinked_simps
    by (intro conjI exI [of _ ps] ballI r(1,2) f(3,4)) simp_all
  moreover have "chain_ok ?b 0 k" if k: "k \<in> heads b" for k
  proof -
    have ok: "chain_ok b 0 k" using b k by (simp add: loose_def)
    then obtain qs where q: "ring (next_in_chain b) k qs" "set (k # qs) = chain_of b k"
      by (auto simp: chain_ok_def)
    have "ring nx k qs"
    proof (rule ring_cong [OF q(1)])
      show "next_in_chain b m = nx m" if "m \<in> set (k # qs)" for m
        using that dis [of k] h0 [OF k] unfolding q(2) by (intro r(3) [symmetric]) auto
    qed
    then show ?thesis
      using ok q(2) h0 [OF k] chk [of k] unfolding chain_ok_def libs_of_relinked by auto
  qed
  moreover have "max_ok ?b {}"
  proof -
    have "chain_head ?b u = chain_head ?b v"
      if "adjacent (x_size b) u v" "is_stone (colors b u)" "colors b v = colors b u" for u v
      using that f(5) [of u v] f(5) [of v u] b by (auto simp: loose_def max_ok_def adjacent_sym)
    then show ?thesis by (simp add: max_ok_def)
  qed
  moreover have "geom_ok ?b" using g by (simp add: geom_ok_def)
  ultimately show "loose Z ?b"
    using b unfolding loose_def hb by (auto simp: hash_ok_def)
qed

text \<open>What \<open>rebuildChain\<close> does, seen from outside.\<close>

lemma rebuildChain_loose:
  assumes "loose Z b" "l \<in> orphans b" "p = colors b l"
  shows "\<exists>b'. rebuildChain l p b = Some b' \<and> loose Z b' \<and> orphans b' \<subseteq> orphans b - {l} \<and>
    colors b' = colors b \<and> x_size b' = x_size b \<and> y_size b' = y_size b \<and> ko_loc b' = ko_loc b \<and>
    adj_offsets b' = adj_offsets b \<and> pos_hash b' = pos_hash b \<and>
    numBlackCaptures b' = numBlackCaptures b \<and> numWhiteCaptures b' = numWhiteCaptures b"
proof -
  obtain nx ps where a: "rebuildChain l p b = Some (relinked (colors b l) l (stone_region b l) nx b)"
    and r: "ring nx l ps" "set (l # ps) = stone_region b l"
    "\<And>m. m \<notin> stone_region b l \<Longrightarrow> nx m = next_in_chain b m"
    using rebuildChain_relinked [OF assms(1,2)] assms(3) by blast
  note lr = loose_relinked [OF assms(1,2) refl r]
  moreover have "l \<in> stone_region b l" using r(2) by auto
  ultimately show ?thesis
    using a by (intro exI [of _ "relinked (colors b l) l (stone_region b l) nx b"]) auto
qed

end
