(* ===== verification/UndoStone.thy ===== *)
theory UndoStone
  imports ChainRebuild
begin

text \<open>
  The last part of \<open>Board::undo\<close>: taking one stone out of its chain. The stone may be the whole
  chain, or a leaf that is unlinked in place, or its chain falls apart and the pieces are rebuilt.
\<close>

section \<open>One stone less, the rest of its chain orphaned\<close>

text \<open>\<open>core\<close> does not read the heads of points without a stone.\<close>

lemma core_heads_cong:
  assumes "x_size b' = x_size b" "y_size b' = y_size b" "colors b' = colors b"
    "chain_data b' = chain_data b" "next_in_chain b' = next_in_chain b" "pos_hash b' = pos_hash b"
    "adj_offsets b' = adj_offsets b" "\<And>l. is_stone (colors b l) \<Longrightarrow> chain_head b' l = chain_head b l"
  shows "core Z off E b' = core Z off E b"
proof -
  have "chain_of b' h = chain_of b h" for h unfolding chain_of_def assms(3) using assms(8) by auto
  moreover have "heads b' = heads b" unfolding heads_def assms(3) using assms(8) by auto
  moreover have "max_ok b' E = max_ok b E" unfolding max_ok_def assms(1,3) using assms(8) by metis
  ultimately show ?thesis
    using assms by (simp add: core_def geom_ok_def hash_ok_def chains_ok_def chain_ok_def libs_of_def)
qed

definition without :: "zobrist \<Rightarrow> player \<Rightarrow> loc \<Rightarrow> board \<Rightarrow> board" where
  "without Z p loc b = removed Z (getOpp p) {loc} b"

lemma without_simps [simp]:
  "x_size (without Z p l b) = x_size b" "y_size (without Z p l b) = y_size b"
  "colors (without Z p l b) = (colors b)(l := C_EMPTY)"
  "chain_head (without Z p l b) = chain_head b" "next_in_chain (without Z p l b) = next_in_chain b"
  "ko_loc (without Z p l b) = ko_loc b" "adj_offsets (without Z p l b) = adj_offsets b"
  "numBlackCaptures (without Z p l b) = numBlackCaptures b"
  "numWhiteCaptures (without Z p l b) = numWhiteCaptures b"
  by (auto simp: without_def)

lemma without_eq:
  assumes "core Z off E b" "is_stone (colors b loc)" "p = colors b loc"
  shows "changeSurroundingLiberties loc (getOpp p) 1 (set_color loc C_EMPTY (xor_hash Z loc (colors b loc) b)) =
    without Z p loc b"
proof -
  have g: "geom_ok b" and h: "hash_ok Z b" using assms(1) by (simp_all add: core_def)
  have "removeChain_body Z (getOpp p) loc (removed Z (getOpp p) {} b, 0) = (removed Z (getOpp p) (insert loc {}) b, 0 + 1)"
    by (rule removed_insert) (use assms geom_stone_on_board [OF g] in auto)
  then show ?thesis
    unfolding removed_empty [OF h] without_def by (simp add: removeChain_body_def Let_def)
qed

lemma loose_without:
  assumes core: "core Z (\<lambda>_. 0) {} b" and s: "is_stone (colors b loc)" and p: "p = colors b loc"
    and C: "C = chain_of b (chain_head b loc)"
  shows "loose Z (rehead C NULL_LOC (without Z p loc b))"
    "orphans (rehead C NULL_LOC (without Z p loc b)) = C - {loc}"
proof -
  let ?h = "chain_head b loc" let ?r = "without Z p loc b" let ?b = "rehead C NULL_LOC ?r"
  from core have g: "geom_ok b" and c: "chains_ok b (\<lambda>_. 0)" and mx: "max_ok b {}" by (simp_all add: core_def)
  have h: "?h \<in> heads b" by (rule chains_ok_head [OF c s])
  have hc: "colors b ?h = p" using head_color [OF c s] p by simp
  have locC: "loc \<in> C" unfolding C by (rule chain_of_mem [OF s])
  have st: "is_stone (colors b m)" if "m \<in> C" for m using that C by (simp add: chain_of_def)
  have nn: "chain_head b m \<noteq> NULL_LOC" if "is_stone (colors b m)" for m
    by (rule heads_not_null [OF g chains_ok_head [OF c that]])
  show "orphans ?b = C - {loc}"
    using st nn by (auto simp: orphan_iff split: if_splits)
  have hC: "k \<notin> C" if "k \<in> heads b" "k \<noteq> ?h" for k
    using that C by (auto simp: chain_of_def heads_def)
  have hb: "heads ?b = heads b - {?h}"
  proof (intro equalityI subsetI)
    fix k assume "k \<in> heads ?b"
    then have k: "k \<noteq> loc" "is_stone (colors b k)" "(if k \<in> C then NULL_LOC else chain_head b k) = k"
      by (auto simp: heads_def split: if_splits)
    then have "k \<notin> C" using on_board_not_null [OF g geom_stone_on_board [OF g k(2)]] by (auto split: if_splits)
    then show "k \<in> heads b - {?h}" using k chain_of_self [OF h] C by (auto simp: heads_def)
  next
    fix k assume "k \<in> heads b - {?h}"
    then show "k \<in> heads ?b" using hC [of k] locC by (auto simp: heads_def)
  qed
  have closed: "m \<in> chain_of b ?h" if "l \<in> {loc}" "adjacent (x_size b) l m" "colors b m = colors b l" for l m
    using that mx s by (auto simp: max_ok_def chain_of_def)
  have "chain_ok ?b 0 k" if "k \<in> heads b" "k \<noteq> ?h" for k
  proof -
    have 1: "chain_ok ?r 0 k" "chain_of ?r k = chain_of b k"
      using chain_ok_removed [OF core h, of "{loc}", OF _ that closed] locC C hc by (simp_all add: without_def)
    have dis: "chain_of b k \<inter> C = {}" unfolding C by (rule chain_of_disjoint [OF that(2)])
    then have "chain_of ?b k = chain_of b k"
      using locC heads_not_null [OF g that(1)] by (auto simp: chain_of_def)
    moreover have "libs_of ?b S = libs_of ?r S" for S by (simp add: libs_of_def)
    ultimately show ?thesis using 1 unfolding chain_ok_def by simp
  qed
  moreover have "chain_head ?b m \<in> heads ?b \<or> chain_head ?b m = NULL_LOC" if "is_stone (colors ?b m)" for m
  proof (cases "m \<in> C")
    case False
    then have "is_stone (colors b m)" using that by (auto split: if_splits)
    then show ?thesis using False chains_ok_head [OF c, of m] unfolding hb by (auto simp: C chain_of_def)
  qed simp
  moreover have "max_ok ?b {}"
  proof -
    have "chain_head ?b u = chain_head ?b v"
      if "adjacent (x_size b) u v" "is_stone (colors ?b u)" "colors ?b v = colors ?b u" for u v
    proof -
      have "colors b v = colors b u" "is_stone (colors b u)" using that by (auto split: if_splits)
      then have "chain_head b u = chain_head b v" "is_stone (colors b v)" using that(1) mx by (auto simp: max_ok_def)
      then show ?thesis using \<open>is_stone (colors b u)\<close> C by (simp add: chain_of_def)
    qed
    then show ?thesis by (simp add: max_ok_def)
  qed
  moreover have "geom_ok ?b" using g geom_stone_on_board [OF g s] by (auto simp: geom_ok_def)
  moreover have "hash_ok Z ?b" by (simp add: hash_ok_def without_def)
  ultimately show "loose Z ?b" unfolding loose_def using hb by auto
qed

section \<open>A stone that is a whole chain\<close>

lemma core_without_single:
  assumes core: "core Z (\<lambda>_. 0) {} b" and s: "is_stone (colors b loc)" and p: "p = colors b loc"
    and C: "chain_of b (chain_head b loc) = {loc}"
  shows "core Z (\<lambda>_. 0) {} (without Z p loc b)"
proof -
  have 1: "core Z (\<lambda>_. 0) {} (rehead {loc} NULL_LOC (without Z p loc b))"
    using loose_without [OF core s p C [symmetric]] by (simp add: core_loose)
  have "core Z (\<lambda>_. 0) {} (without Z p loc b) = core Z (\<lambda>_. 0) {} (rehead {loc} NULL_LOC (without Z p loc b))"
    by (rule core_heads_cong) auto
  then show ?thesis using 1 by simp
qed

section \<open>A chain that falls apart\<close>

lemma fold_set_head: "fold (\<lambda>cur b. set_head cur h b) xs b = rehead (set xs) h b"
proof -
  have "fold (\<lambda>cur b. set_head cur h b) xs (rehead P h b) = rehead (P \<union> set xs) h b" for P
    by (induction xs arbitrary: P) (simp_all add: set_head_rehead)
  from this [of "{}"] show ?thesis by simp
qed

lemma walk_set_head:
  assumes "ring (next_in_chain b) loc ps"
  shows "walk_all next_in_chain (\<lambda>cur b. set_head cur h b) loc b = Some (rehead (set (loc # ps)) h b)"
  unfolding fold_set_head [symmetric]
  by (rule walk_all_ring [OF assms, where I = "\<lambda>s. next_in_chain s = next_in_chain b"]) simp_all

text \<open>Every piece of a chain without one of its stones touches that stone.\<close>

lemma conn_meets:
  assumes "conn xs C" "loc \<in> C" "Q \<subseteq> C - {loc}" "Q \<noteq> {}"
    and closed: "\<And>u v. u \<in> Q \<Longrightarrow> adjacent xs u v \<Longrightarrow> v \<in> C - {loc} \<Longrightarrow> v \<in> Q"
  shows "\<exists>u\<in>Q. adjacent xs loc u"
proof (rule ccontr)
  assume no: "\<not> ?thesis"
  obtain o1 where o: "o1 \<in> Q" using assms(4) by blast
  then have "(o1, loc) \<in> (step_in xs C)\<^sup>*" using assms(1-3) by (auto simp: conn_def)
  then have "loc \<in> Q"
  proof (induction rule: rtrancl_induct)
    case (step u v)
    then show ?case using closed [of u v] no by (auto simp: step_in_def adjacent_sym)
  qed (rule o)
  then show False using assms(3) by blast
qed

lemma undo_split_core:
  assumes core: "core Z (\<lambda>_. 0) {} b" and s: "is_stone (colors b (mr_loc rec))" and p: "mr_pla rec = colors b (mr_loc rec)"
  shows "\<exists>b'. undo_split rec (without Z (mr_pla rec) (mr_loc rec) b) = Some b' \<and> core Z (\<lambda>_. 0) {} b' \<and>
    colors b' = (colors b)(mr_loc rec := C_EMPTY) \<and> x_size b' = x_size b \<and> y_size b' = y_size b \<and>
    ko_loc b' = ko_loc b \<and> numBlackCaptures b' = numBlackCaptures b \<and> numWhiteCaptures b' = numWhiteCaptures b"
proof -
  let ?loc = "mr_loc rec" let ?p = "mr_pla rec" let ?r = "without Z ?p ?loc b"
  define C where "C = chain_of b (chain_head b ?loc)"
  from core have c: "chains_ok b (\<lambda>_. 0)" and g: "geom_ok b" by (simp_all add: core_def)
  obtain ps where ps: "ring (next_in_chain b) ?loc ps" "set (?loc # ps) = C"
    using chain_ring [OF c s] unfolding C_def by blast
  note lo = loose_without [OF core s p C_def]
  let ?b0 = "rehead C NULL_LOC ?r"
  have walk: "walk_all next_in_chain (\<lambda>cur b. set_head cur NULL_LOC b) ?loc ?r = Some ?b0"
    using walk_set_head [of ?r ?loc ps] ps by simp
  have ok: "chain_ok b 0 (chain_head b ?loc)" by (rule chains_ok_chain [OF c chains_ok_head [OF c s]])
  have colC: "colors b m = ?p" if "m \<in> C" for m
    using chain_ok_color [OF ok] that head_color [OF c s] p C_def by simp
  let ?I = "\<lambda>ls b'. set ls \<subseteq> {m. adjacent (x_size b) ?loc m} \<and> loose Z b' \<and> colors b' = colors ?r \<and>
    x_size b' = x_size b \<and> y_size b' = y_size b \<and> ko_loc b' = ko_loc b \<and>
    numBlackCaptures b' = numBlackCaptures b \<and> numWhiteCaptures b' = numWhiteCaptures b \<and>
    orphans b' \<subseteq> C - {?loc} \<and> (\<forall>m. adjacent (x_size b) ?loc m \<longrightarrow> m \<in> orphans b' \<longrightarrow> m \<in> set ls)"
  have "\<exists>b'. foldM (\<lambda>adj b. if colors b adj = ?p \<and> chain_head b adj = NULL_LOC then rebuildChain adj ?p b else Some b)
      (adj4 ?b0 ?loc) ?b0 = Some b' \<and> ?I [] b'"
  proof (rule foldM_total [where I = ?I])
    have "adj4 ?b0 ?loc = adjs (x_size b) ?loc"
      using adj4_adjs [OF loose_geom [OF lo(1)], of ?loc] by simp
    then show "?I (adj4 ?b0 ?loc) ?b0" using lo by (simp add: set_adjs)
  next
    fix a ls b' assume I: "?I (a # ls) b'"
    show "\<exists>b''. (if colors b' a = ?p \<and> chain_head b' a = NULL_LOC then rebuildChain a ?p b' else Some b') = Some b'' \<and> ?I ls b''"
    proof (cases "colors b' a = ?p \<and> chain_head b' a = NULL_LOC")
      case True
      then have a: "a \<in> orphans b'" using s p by (simp add: orphan_iff)
      obtain b'' where b'': "rebuildChain a ?p b' = Some b''" "loose Z b''" "orphans b'' \<subseteq> orphans b' - {a}"
        "colors b'' = colors b'" "x_size b'' = x_size b'" "y_size b'' = y_size b'" "ko_loc b'' = ko_loc b'"
        "numBlackCaptures b'' = numBlackCaptures b'" "numWhiteCaptures b'' = numWhiteCaptures b'"
        using rebuildChain_loose [OF conjunct1 [OF conjunct2 [OF I]] a, of ?p] True by fastforce
      have "?I ls b''" using I b'' by auto
      then show ?thesis using True b''(1) by auto
    next
      case False
      then have "a \<notin> orphans b'" using I colC by (auto simp: orphan_iff split: if_splits)
      then have "?I ls b'" using I by auto
      then show ?thesis using False by auto
    qed
  qed
  then obtain b' where f: "foldM (\<lambda>adj b. if colors b adj = ?p \<and> chain_head b adj = NULL_LOC then rebuildChain adj ?p b else Some b)
      (adj4 ?b0 ?loc) ?b0 = Some b'" and I: "?I [] b'" by blast
  have "orphans b' = {}"
  proof (rule ccontr)
    assume ne: "orphans b' \<noteq> {}"
    have "\<exists>u\<in>orphans b'. adjacent (x_size b) ?loc u"
    proof (rule conn_meets [OF _ _ _ ne])
      show "conn (x_size b) C" using ok by (simp add: chain_ok_def C_def)
      show "?loc \<in> C" unfolding C_def by (rule chain_of_mem [OF s])
      show "v \<in> orphans b'" if uv: "u \<in> orphans b'" "adjacent (x_size b) u v" "v \<in> C - {?loc}" for u v
      proof -
        have "u \<in> C - {?loc}" using uv(1) I by blast
        then have "colors b' v = colors b' u" using uv(3) colC I by simp
        then show ?thesis using uv(1,2) I by (auto simp: loose_def max_ok_def orphan_iff)
      qed
    qed (use I in blast)
    then show False using I by auto
  qed
  then have "core Z (\<lambda>_. 0) {} b'" using I by (simp add: core_loose)
  then show ?thesis using f walk I unfolding undo_split_def by simp
qed

section \<open>A leaf of its chain\<close>

lemma find_prev_path:
  "path nx a (a # xs) z \<Longrightarrow> z \<notin> set xs \<Longrightarrow> find_prev nx z a = Some (last (a # xs))"
proof (induction xs arbitrary: a)
  case Nil
  then show ?case by (simp add: find_prev.simps)
next
  case (Cons x xs)
  then show ?case by (subst find_prev.simps) auto
qed

lemma find_prev_ring:
  assumes "ring nx loc qs" "h \<in> set qs"
  shows "find_prev nx loc h = Some (last qs)"
proof -
  obtain as bs where q: "qs = as @ h # bs" using assms(2) by (auto simp: in_set_conv_decomp)
  then have "path nx h (h # bs) loc" "loc \<notin> set bs" using assms(1) by (auto simp: ring_def)
  then show ?thesis using find_prev_path [of nx h bs loc] q by simp
qed

text \<open>Bypassing one element of a ring.\<close>

lemma ring_bypass:
  assumes "ring nx loc qs" "h \<in> set qs"
  shows "\<exists>ps. ring (nx(last qs := nx loc)) h ps \<and> set (h # ps) = set qs"
proof -
  obtain q rs where q: "qs = q # rs" using assms(2) by (cases qs) auto
  then have n: "nx loc = q" and pth: "path nx q qs loc" and d: "distinct qs" "loc \<notin> set qs"
    using assms(1) by (auto simp: ring_def)
  have "path (nx(last qs := q)) q qs q"
    by (rule path_upd_last [OF pth]) (use q d in auto)
  then have "ring (nx(last qs := q)) q rs" using q d by (simp add: ring_def)
  from ring_rotate [OF this, of h] show ?thesis using assms(2) q n by auto
qed

lemma conn_leaf:
  assumes "conn xs C" and one: "\<And>u v. u \<in> C \<Longrightarrow> v \<in> C \<Longrightarrow> adjacent xs loc u \<Longrightarrow> adjacent xs loc v \<Longrightarrow> u = v"
  shows "conn xs (C - {loc})"
  unfolding conn_def
proof (intro ballI)
  fix a b assume a: "a \<in> C - {loc}" and b: "b \<in> C - {loc}"
  let ?R = "(step_in xs (C - {loc}))\<^sup>*"
  have "(a, b) \<in> (step_in xs C)\<^sup>*" using assms(1) a b by (auto simp: conn_def)
  then have "if b = loc then \<exists>n\<in>C - {loc}. adjacent xs loc n \<and> (a, n) \<in> ?R else (a, b) \<in> ?R"
  proof (induction rule: rtrancl_induct)
    case base
    then show ?case using a by simp
  next
    case (step u v)
    then have uv: "u \<in> C" "v \<in> C" "adjacent xs u v" by (simp_all add: step_in_def)
    consider "u = loc" "v = loc" | "u = loc" "v \<noteq> loc" | "u \<noteq> loc" "v = loc" | "u \<noteq> loc" "v \<noteq> loc" by blast
    then show ?case
    proof cases
      case 1
      then show ?thesis using step.IH by simp
    next
      case 2
      then obtain n where n: "n \<in> C - {loc}" "adjacent xs loc n" "(a, n) \<in> ?R" using step.IH by auto
      then have "n = v" using one [of n v] uv 2 by simp
      then show ?thesis using n 2 by simp
    next
      case 3
      then show ?thesis using step.IH uv by (auto simp: adjacent_sym)
    next
      case 4
      then have "(u, v) \<in> step_in xs (C - {loc})" using uv by (simp add: step_in_def)
      then show ?thesis using 4 step.IH by (auto intro: rtrancl_into_rtrancl)
    qed
  qed
  then show "(a, b) \<in> ?R" using b by auto
qed

text \<open>The part of \<open>undo_unlink\<close> after the head is settled.\<close>

definition unlink_from :: "loc \<Rightarrow> board \<times> loc \<Rightarrow> board option" where
  "unlink_from loc = (\<lambda>(b, head).
     Option.bind (find_prev (next_in_chain b) loc head)
       (\<lambda>cur.
          let b = set_next cur (next_in_chain b loc) b;
              libertyDelta =
                fold (\<lambda>adj n. if colors b adj = C_EMPTY \<and> \<not> isLibertyOf b adj head
                             then n - 1 else n) (adjs (x_size b) loc) 0;
              libertyDelta = libertyDelta + 1;
              b = add_liberties head libertyDelta b;
              b = add_locs head (-1) b
          in Some b))"

lemma undo_unlink_from:
  "undo_unlink loc b =
     Option.bind
       (if chain_head b loc = loc then
          Option.bind (walk_all next_in_chain (\<lambda>cur. set_head cur (next_in_chain b loc)) loc b)
            (\<lambda>b'. Some (set_chain_data (next_in_chain b loc) (chain_data b' loc) b', next_in_chain b loc))
        else Some (b, chain_head b loc)) (unlink_from loc)"
  unfolding undo_unlink_def unlink_from_def Let_def by (cases "chain_head b loc = loc") (simp_all only: if_True if_False)

lemma unlink_from_core:
  assumes core: "core Z (\<lambda>_. 0) {} b" and s: "is_stone (colors b loc)" and p: "p = colors b loc"
    and C: "C = chain_of b (chain_head b loc)" and h: "h \<in> C - {loc}" and conn: "conn (x_size b) (C - {loc})"
    and u: "colors u = (colors b)(loc := C_EMPTY)" "x_size u = x_size b" "y_size u = y_size b"
      "adj_offsets u = adj_offsets b" "next_in_chain u = next_in_chain b"
      "pos_hash u = pos_hash (without Z p loc b)"
      "\<And>l. l \<in> C - {loc} \<Longrightarrow> chain_head u l = h"
      "\<And>l. l \<notin> C \<Longrightarrow> chain_head u l = chain_head b l"
      "chain_data u = (chain_data (without Z p loc b))(h := chain_data (without Z p loc b) (chain_head b loc))"
  shows "\<exists>b'. unlink_from loc (u, h) = Some b' \<and> core Z (\<lambda>_. 0) {} b' \<and> colors b' = colors u \<and>
    x_size b' = x_size u \<and> y_size b' = y_size u \<and> ko_loc b' = ko_loc u \<and>
    numBlackCaptures b' = numBlackCaptures u \<and> numWhiteCaptures b' = numWhiteCaptures u"
proof -
  let ?A = "C - {loc}" let ?w = "without Z p loc b" let ?r = "rehead C NULL_LOC ?w" let ?hd = "chain_head b loc"
  from core have g: "geom_ok b" and c: "chains_ok b (\<lambda>_. 0)" and mx: "max_ok b {}" by (simp_all add: core_def)
  have ok: "chain_ok b 0 ?hd" by (rule chains_ok_chain [OF c chains_ok_head [OF c s]])
  have locC: "loc \<in> C" unfolding C by (rule chain_of_mem [OF s])
  have colC: "colors b m = p" if "m \<in> C" for m
    using chain_ok_color [OF ok] that head_color [OF c s] p C by simp
  have sp: "is_stone p" using s p by simp
  have fC: "finite C" unfolding C by (rule finite_chain_of [OF g])
  note lo = loose_without [OF core s p C]
  have hA: "h \<in> orphans ?r" using h lo(2) by simp
  have ch: "colors ?r h = p" using h colC by simp

  txt \<open>The orphans are one piece.\<close>
  have sr: "stone_region ?r h = ?A"
  proof
    show "stone_region ?r h \<subseteq> ?A" using stone_region_facts(2) [OF lo(1) hA] lo(2) by simp
    show "?A \<subseteq> stone_region ?r h"
    proof
      fix m assume "m \<in> ?A"
      then have "(h, m) \<in> (step_in (x_size b) ?A)\<^sup>*" using conn h by (simp add: conn_def)
      then show "m \<in> stone_region ?r h"
      proof (induction rule: rtrancl_induct)
        case (step y z)
        then show ?case
          using stone_region_facts(5) [OF lo(1) hA step.IH, of z] colC by (auto simp: step_in_def)
      qed (rule stone_region_facts(1) [OF lo(1) hA])
    qed
  qed

  txt \<open>The pointers go round the rest of the chain.\<close>
  obtain qs where q: "ring (next_in_chain b) loc qs" "set (loc # qs) = C"
    using chain_ring [OF c s] unfolding C by blast
  then have qA: "set qs = ?A" by (auto simp: ring_def)
  define nx where "nx = (next_in_chain b)(last qs := next_in_chain b loc)"
  have hq: "h \<in> set qs" using h qA by simp
  obtain ps where ps: "ring nx h ps" "set (h # ps) = ?A"
    using ring_bypass [OF q(1) hq] qA unfolding nx_def by metis
  have "qs \<noteq> []" using hq by (cases qs) simp_all
  from last_in_set [OF this] have lastA: "last qs \<in> ?A" unfolding qA .

  txt \<open>The liberties counted are those of the rest of the chain.\<close>
  obtain n where n: "n \<in> C" "n \<noteq> loc" "adjacent (x_size b) loc n"
  proof -
    have "\<exists>m\<in>?A. adjacent (x_size b) loc m"
      by (rule conn_meets [of "x_size b" C]) (use ok h locC C in \<open>auto simp: chain_ok_def\<close>)
    then show thesis using that by auto
  qed
  let ?b1 = "set_next (last qs) (next_in_chain b loc) u"
  have libsA: "libs_of u S = (if \<exists>a\<in>S. adjacent (x_size b) a loc then insert loc (libs_of b S) else libs_of b S)" for S
    by (auto simp: libs_of_def u)
  have libs1: "libs_of u ?A = insert loc (libs_of b ?A)"
    unfolding libsA using n by (auto simp: adjacent_sym)
  have libs2: "libs_of u (insert loc ?A) = insert loc (libs_of b C)"
    using n locC unfolding libsA by (auto simp: adjacent_sym insert_absorb)
  have nl: "loc \<notin> libs_of b S" for S using s by (auto simp: libs_of_def)
  have Am: "colors ?b1 l = colors ?b1 h \<and> chain_head ?b1 l = h \<longleftrightarrow> l \<in> ?A" for l
  proof
    assume l: "colors ?b1 l = colors ?b1 h \<and> chain_head ?b1 l = h"
    moreover have hp: "colors u h = p" using h colC [of h] by (simp add: u(1))
    ultimately have up: "colors u l = p" "chain_head u l = h" by simp_all
    then have bl: "l \<noteq> loc" "colors b l = p" using sp by (auto simp: u(1) split: if_splits)
    have "l \<in> C"
    proof (rule ccontr)
      assume "l \<notin> C"
      then have "chain_head b l = h" using u(8) [of l] up by simp
      then have "chain_head b h = h" using chains_ok_head [OF c, of l] bl sp by (auto simp: heads_def)
      then show False using h \<open>l \<notin> C\<close> \<open>chain_head b l = h\<close> bl sp unfolding C by (auto simp: chain_of_def)
    qed
    then show "l \<in> ?A" using bl by simp
  next
    assume "l \<in> ?A"
    then show "colors ?b1 l = colors ?b1 h \<and> chain_head ?b1 l = h" using u(1,7) h colC by auto
  qed
  have "1 \<le> x_size u" using on_board_xs [OF geom_stone_on_board [OF g s]] u(2) by simp
  then have count: "length (filter (\<lambda>adj. colors ?b1 adj = C_EMPTY \<and> \<not> isLibertyOf ?b1 adj h) (adjs (x_size ?b1) loc)) =
      card (libs_of u (insert loc ?A) - libs_of u ?A)"
    by (rule count_new_liberties [OF _ Am]) simp_all
  have fin: "finite (libs_of b C)" "finite (libs_of b ?A)" by (rule finite_libs_of [OF g])+
  have "libs_of u (insert loc ?A) - libs_of u ?A = libs_of b C - libs_of b ?A"
    unfolding libs1 libs2 using nl by auto
  moreover have "card (libs_of b C) = card (libs_of b ?A) + card (libs_of b C - libs_of b ?A)"
  proof -
    have "libs_of b ?A \<subseteq> libs_of b C" unfolding libs_of_def by blast
    then show ?thesis
      using card_Diff_subset [OF fin(2)] card_mono [OF fin(1)] by (metis le_add_diff_inverse)
  qed
  moreover have "card (libs_of u ?A) = card (libs_of b ?A) + 1" using libs1 fin nl by simp
  ultimately have libs: "int (card (libs_of b C)) - int (card (libs_of u (insert loc ?A) - libs_of u ?A)) + 1 =
      int (card (libs_of u ?A))" by simp
  have "?hd \<notin> adj_heads b loc (getOpp p)"
  proof
    assume "?hd \<in> adj_heads b loc (getOpp p)"
    then obtain a where "chain_head b a = ?hd" "colors b a = getOpp p" by (auto simp: adj_heads_def)
    then show False using head_color [OF c, of a] head_color [OF c s] p sp by simp
  qed
  then have data: "chain_data u h = \<lparr>owner = p, num_locs = int (card C), num_liberties = int (card (libs_of b C))\<rparr>"
    using ok head_color [OF c s] p C unfolding u(9) by (intro ChainData.equality) (auto simp: chain_ok_def without_def)

  define b' where "b' = add_locs h (-1) (add_liberties h
      (- int (card (libs_of u (insert loc ?A) - libs_of u ?A)) + 1) ?b1)"
  have "unlink_from loc (u, h) = Some b'"
    unfolding unlink_from_def b'_def using find_prev_ring [OF q(1) hq]
    by (simp add: u(5) Let_def fold_count_down count [simplified])
  moreover have "core Z (\<lambda>_. 0) {} b'"
  proof -
    let ?k = "relinked p h ?A nx ?r"
    have nxo: "nx m = next_in_chain ?r m" if "m \<notin> ?A" for m using that lastA by (auto simp: nx_def)
    have "loose Z ?k" "orphans ?k = {}"
      using loose_relinked [OF lo(1) hA sr [symmetric] ps nxo] ch lo(2) by simp_all
    then have "core Z (\<lambda>_. 0) {} ?k" by (simp add: core_loose)
    moreover have "core Z (\<lambda>_. 0) {} b' = core Z (\<lambda>_. 0) {} ?k"
    proof (rule core_heads_cong)
      have "libs_of ?r ?A = libs_of u ?A" by (simp add: libs_of_def u)
      moreover have "card C = card ?A + 1" using card.remove [OF fC locC] by simp
      ultimately show "chain_data b' = chain_data ?k"
        using libs data u(9) unfolding b'_def by (intro ext ChainData.equality) simp_all
      show "chain_head b' l = chain_head ?k l" if "is_stone (colors ?k l)" for l
        using that u(7,8) [of l] by (auto simp: b'_def split: if_splits)
    qed (simp_all add: b'_def u nx_def)
    ultimately show ?thesis by simp
  qed
  ultimately show ?thesis by (intro exI [of _ b']) (simp add: b'_def)
qed

lemma undo_unlink_core:
  assumes core: "core Z (\<lambda>_. 0) {} b" and s: "is_stone (colors b loc)" and p: "p = colors b loc"
    and C: "chain_of b (chain_head b loc) \<noteq> {loc}"
    and one: "card {m. adjacent (x_size b) loc m \<and> colors b m = p} \<le> 1"
  shows "\<exists>b'. undo_unlink loc (without Z p loc b) = Some b' \<and> core Z (\<lambda>_. 0) {} b' \<and>
    colors b' = (colors b)(loc := C_EMPTY) \<and> x_size b' = x_size b \<and> y_size b' = y_size b \<and>
    ko_loc b' = ko_loc b \<and> numBlackCaptures b' = numBlackCaptures b \<and> numWhiteCaptures b' = numWhiteCaptures b"
proof -
  define C where "C = chain_of b (chain_head b loc)"
  let ?w = "without Z p loc b" let ?hd = "chain_head b loc"
  from core have c: "chains_ok b (\<lambda>_. 0)" by (simp add: core_def)
  have ok: "chain_ok b 0 ?hd" by (rule chains_ok_chain [OF c chains_ok_head [OF c s]])
  have colC: "colors b m = p" if "m \<in> C" for m
    using chain_ok_color [OF ok] that head_color [OF c s] p C_def by simp
  let ?N = "{m. adjacent (x_size b) loc m \<and> colors b m = p}"
  have "finite ?N" by (rule finite_subset [OF _ finite_adjacent [of "x_size b" loc]]) auto
  then have 1: "\<forall>x\<in>?N. \<forall>y\<in>?N. x = y" using one by (subst card_le_Suc0_iff_eq [symmetric]) auto
  have conn: "conn (x_size b) (C - {loc})"
  proof (rule conn_leaf)
    show "conn (x_size b) C" using ok by (simp add: chain_ok_def C_def)
    show "u = v" if "u \<in> C" "v \<in> C" "adjacent (x_size b) loc u" "adjacent (x_size b) loc v" for u v
      using 1 that colC by blast
  qed
  obtain qs where q: "ring (next_in_chain b) loc qs" "set (loc # qs) = C"
    using chain_ring [OF c s] unfolding C_def by blast
  have qA: "set qs = C - {loc}" using q by (auto simp: ring_def)
  show ?thesis
  proof (cases "?hd = loc")
    case False
    have "?hd \<in> C - {loc}" using False chain_of_self [OF chains_ok_head [OF c s]] by (simp add: C_def)
    from unlink_from_core [OF core s p C_def this conn, of ?w] show ?thesis
      using False unfolding undo_unlink_from by (simp add: C_def chain_of_def)
  next
    case True
    have "qs \<noteq> []" using qA C q(2) C_def by auto
    then have "next_in_chain b loc \<in> set qs" using q(1) by (cases qs) (auto simp: ring_def)
    then have h: "next_in_chain b loc \<in> C - {loc}" using qA by simp
    let ?h = "next_in_chain b loc" let ?u = "set_chain_data ?h (chain_data ?w loc) (rehead C ?h ?w)"
    have "walk_all next_in_chain (\<lambda>cur. set_head cur ?h) loc ?w = Some (rehead C ?h ?w)"
      using walk_set_head [of ?w loc qs ?h] q by simp
    moreover have "\<exists>b'. unlink_from loc (?u, ?h) = Some b' \<and> core Z (\<lambda>_. 0) {} b' \<and> colors b' = colors ?u \<and>
      x_size b' = x_size ?u \<and> y_size b' = y_size ?u \<and> ko_loc b' = ko_loc ?u \<and>
      numBlackCaptures b' = numBlackCaptures ?u \<and> numWhiteCaptures b' = numWhiteCaptures ?u"
      by (rule unlink_from_core [OF core s p C_def h conn]) (use True in auto)
    ultimately show ?thesis using True unfolding undo_unlink_from by simp
  qed
qed

section \<open>Taking the stone off, whatever its chain\<close>

definition undo_stone :: "zobrist \<Rightarrow> MoveRecord \<Rightarrow> board \<Rightarrow> board option" where
  "undo_stone Z record b =
     (let loc = mr_loc record;
          b = xor_hash Z loc (colors b loc) b;
          b = set_color loc C_EMPTY b;
          b = changeSurroundingLiberties loc (getOpp (mr_pla record)) 1 b
      in if num_locs (chain_data b (chain_head b loc)) > 1 then
           (let numNeighbors =
                  fold (\<lambda>adj n. if colors b adj = mr_pla record then n + 1 else n)
                    (adjs (x_size b) loc) (0 :: int)
            in if numNeighbors \<le> 1 then undo_unlink loc b else undo_split record b)
         else Some b)"

lemma undo_stages:
  "undo Z record b =
     (let b = b\<lparr>ko_loc := mr_ko_loc record\<rparr>
      in if mr_loc record = PASS_LOC then Some b
         else Option.bind (foldM (undo_refill Z record) [0, 1, 2, 3] b) (\<lambda>b.
              Option.bind (undo_suicide Z record b) (undo_stone Z record)))"
  unfolding undo_def undo_stone_def Let_def ..

lemma undo_stone_core:
  assumes core: "core Z (\<lambda>_. 0) {} b" and s: "is_stone (colors b (mr_loc rec))" and p: "mr_pla rec = colors b (mr_loc rec)"
  shows "\<exists>b'. undo_stone Z rec b = Some b' \<and> core Z (\<lambda>_. 0) {} b' \<and>
    colors b' = (colors b)(mr_loc rec := C_EMPTY) \<and> x_size b' = x_size b \<and> y_size b' = y_size b \<and>
    ko_loc b' = ko_loc b \<and> numBlackCaptures b' = numBlackCaptures b \<and> numWhiteCaptures b' = numWhiteCaptures b"
proof -
  let ?loc = "mr_loc rec" let ?p = "mr_pla rec" let ?w = "without Z ?p ?loc b" let ?C = "chain_of b (chain_head b ?loc)"
  from core have g: "geom_ok b" and c: "chains_ok b (\<lambda>_. 0)" by (simp_all add: core_def)
  have w: "changeSurroundingLiberties ?loc (getOpp ?p) 1 (set_color ?loc C_EMPTY (xor_hash Z ?loc (colors b ?loc) b)) = ?w"
    by (rule without_eq [OF core s p])
  have n: "num_locs (chain_data ?w (chain_head ?w ?loc)) = int (card ?C)"
    using chains_ok_chain [OF c chains_ok_head [OF c s]] by (simp add: chain_ok_def without_def)
  have xs: "1 \<le> x_size b" by (rule on_board_xs [OF geom_stone_on_board [OF g s]])
  then have "\<not> adjacent (x_size b) ?loc ?loc" by (intro adjacent_irrefl) simp
  then have eq: "{m. adjacent (x_size b) ?loc m \<and> colors ?w m = ?p} = {m. adjacent (x_size b) ?loc m \<and> colors b m = ?p}"
    using s p by auto
  have k: "fold (\<lambda>adj n. if colors ?w adj = ?p then n + 1 else n) (adjs (x_size ?w) ?loc) (0 :: int) =
      int (card {m. adjacent (x_size b) ?loc m \<and> colors b m = ?p})"
    using length_filter_adjs [OF xs, of "\<lambda>m. colors ?w m = ?p" ?loc] unfolding fold_count eq by simp
  have st: "undo_stone Z rec b =
      (if int (card ?C) > 1 then
         if int (card {m. adjacent (x_size b) ?loc m \<and> colors b m = ?p}) \<le> 1 then undo_unlink ?loc ?w else undo_split rec ?w
       else Some ?w)"
    unfolding undo_stone_def Let_def w n k ..
  have self: "?loc \<in> ?C" by (rule chain_of_mem [OF s])
  show ?thesis
  proof (cases "card ?C > 1")
    case False
    then have "card ?C = 1" using self finite_chain_of [OF g] by (metis card_0_eq empty_iff less_one linorder_neqE_nat)
    then have "?C = {?loc}" using self by (auto simp: card_1_singleton_iff)
    from core_without_single [OF core s p this] show ?thesis unfolding st using False by simp
  next
    case True
    then have C: "?C \<noteq> {?loc}" by auto
    then show ?thesis
      using True undo_unlink_core [OF core s p C] undo_split_core [OF core s p] unfolding st by simp
  qed
qed

end
