(* ===== verification/ChainRegen.thy ===== *)
theory ChainRegen
  imports ChainRebuild BoardBuild
begin

text \<open>
  \<open>regenChainsFromColors\<close> builds chains, counts and hash from the colours alone, whatever the board
  held before; \<open>setStonesTolerant\<close> rests on it.
\<close>

text \<open>A consistent board whose position is lively has no chain without liberties.\<close>

lemma core_lively_live: "core Z (\<lambda>_. 0) {} b \<Longrightarrow> lively (x_size b) (colors b) \<Longrightarrow> live_board Z b"
  unfolding live_board_def
proof (intro conjI ballI)
  fix h assume c: "core Z (\<lambda>_. 0) {} b" and l: "lively (x_size b) (colors b)" and h: "h \<in> heads b"
  have ch: "chains_ok b (\<lambda>_. 0)" and mx: "max_ok b {}" and g: "geom_ok b" using c by (simp_all add: core_def)
  have s: "is_stone (colors b h)" by (rule heads_stone [OF h])
  have "has_liberty (x_size b) (colors b) h" using l s by (simp add: lively_def)
  then have "libs_of b (chain_of b (chain_head b h)) \<noteq> {}"
    by (subst (asm) has_liberty_chain [OF ch s]) (use mx s in \<open>auto simp: max_ok_def\<close>)
  then show "0 < num_liberties (chain_data b h)"
    using chains_ok_chain [OF ch h] finite_libs_of [OF g, of "chain_of b h"] heads_self [OF h]
    by (simp add: chain_ok_def card_gt_0_iff)
qed

section \<open>Building everything from the colours\<close>

lemma is_stone_code: "is_stone c \<longleftrightarrow> c = C_BLACK \<or> c = C_WHITE"
  by (cases c) simp_all

lemma fold_hash_heads:
  "fold (\<lambda>loc b. let c = colors b loc in if c = C_BLACK \<or> c = C_WHITE
      then set_head loc NULL_LOC (xor_hash Z loc c b) else b) ls b =
    b\<lparr>pos_hash := hxor (pos_hash b) (hxor_list (map (\<lambda>l. stone_hash Z l (colors b l)) ls)),
      chain_head := \<lambda>l. if l \<in> set ls \<and> is_stone (colors b l) then NULL_LOC else chain_head b l\<rparr>"
proof (induction ls arbitrary: b)
  case Nil
  then show ?case by simp
next
  case (Cons l ls)
  show ?case
  proof (cases "is_stone (colors b l)")
    case True
    then show ?thesis
      using Cons.IH [of "set_head l NULL_LOC (xor_hash Z l (colors b l) b)"]
      by (auto simp: Let_def is_stone_code [symmetric] stone_hash_def update_defs hxor_assoc fun_eq_iff)
  next
    case False
    then show ?thesis
      using Cons.IH [of b] by (auto simp: Let_def is_stone_code [symmetric] stone_hash_def fun_eq_iff)
  qed
qed

lemma regenChains_core:
  assumes g: "geom_ok b"
  shows "\<exists>b'. regenChainsFromColors Z b = Some b' \<and> core Z (\<lambda>_. 0) {} b' \<and> colors b' = colors b \<and>
    x_size b' = x_size b \<and> y_size b' = y_size b \<and> ko_loc b' = ko_loc b \<and>
    numBlackCaptures b' = numBlackCaptures b \<and> numWhiteCaptures b' = numWhiteCaptures b"
proof -
  have bl: "board_locs b = locs_of (x_size b) (y_size b)"
    using g by (intro board_locs_eq) (simp_all add: geom_ok_def)
  define b0 where "b0 = b\<lparr>pos_hash := position_hash Z (x_size b) (y_size b) (colors b),
      chain_head := \<lambda>l. if l \<in> set (board_locs b) \<and> is_stone (colors b l) then NULL_LOC else chain_head b l\<rparr>"
  have on: "l \<in> set (board_locs b)" if "is_stone (colors b l)" for l
    using geom_stone_on_board [OF g that] by (simp add: bl set_locs_of)
  have "chain_head b0 l = NULL_LOC" if "is_stone (colors b0 l)" for l
    using that on [of l] by (simp add: b0_def)
  moreover have "l \<noteq> NULL_LOC" if "is_stone (colors b0 l)" for l
    using on_board_not_null [OF g geom_stone_on_board [OF g, of l]] that by (simp add: b0_def)
  ultimately have "heads b0 = {}" "\<forall>l. is_stone (colors b0 l) \<longrightarrow> chain_head b0 l = NULL_LOC"
    by (auto simp: heads_def)
  then have lo: "loose Z b0"
    using g by (auto simp: loose_def b0_def hash_ok_def geom_ok_def max_ok_def)
  have orph: "orphans b0 \<subseteq> set (board_locs b)" using on by (auto simp: orphan_iff b0_def)
  let ?f = "\<lambda>loc b. let c = colors b loc in
      if (c = C_BLACK \<or> c = C_WHITE) \<and> chain_head b loc = NULL_LOC then rebuildChain loc c b else Some b"
  let ?I = "\<lambda>ls b'. loose Z b' \<and> orphans b' \<subseteq> set ls \<and> colors b' = colors b \<and> x_size b' = x_size b \<and>
    y_size b' = y_size b \<and> ko_loc b' = ko_loc b \<and> numBlackCaptures b' = numBlackCaptures b \<and>
    numWhiteCaptures b' = numWhiteCaptures b"
  have "\<exists>b'. foldM ?f (board_locs b) b0 = Some b' \<and> ?I [] b'"
  proof (rule foldM_total [where I = ?I])
    show "?I (board_locs b) b0" using lo orph by (simp add: b0_def)
  next
    fix a ls b' assume I: "?I (a # ls) b'"
    show "\<exists>b''. ?f a b' = Some b'' \<and> ?I ls b''"
    proof (cases "a \<in> orphans b'")
      case True
      have "loose Z b'" using I by blast
      from rebuildChain_loose [OF this True refl] obtain b'' where b'': "rebuildChain a (colors b' a) b' = Some b''"
        "loose Z b''" "orphans b'' \<subseteq> orphans b' - {a}" "colors b'' = colors b'" "x_size b'' = x_size b'"
        "y_size b'' = y_size b'" "ko_loc b'' = ko_loc b'" "numBlackCaptures b'' = numBlackCaptures b'"
        "numWhiteCaptures b'' = numWhiteCaptures b'" by blast
      have "?I ls b''" using I b'' by auto
      then show ?thesis using True b''(1) by (auto simp: Let_def orphan_iff is_stone_code)
    next
      case False
      then have "?I ls b'" using I by auto
      then show ?thesis using False by (auto simp: Let_def orphan_iff is_stone_code)
    qed
  qed
  then obtain b' where f: "foldM ?f (board_locs b) b0 = Some b'" and I: "?I [] b'" by blast
  have "regenChainsFromColors Z b = foldM ?f (board_locs b) b0"
  proof -
    let ?h = "b\<lparr>pos_hash := hxor (ZOBRIST_SIZE_X_HASH Z (x_size b)) (ZOBRIST_SIZE_Y_HASH Z (y_size b))\<rparr>"
    have 1: "board_locs ?h = board_locs b" "board_locs b0 = board_locs b" by (simp_all add: board_locs_def b0_def)
    have "fold (\<lambda>loc b. let c = colors b loc in if c = C_BLACK \<or> c = C_WHITE
        then set_head loc NULL_LOC (xor_hash Z loc c b) else b) (board_locs ?h) ?h = b0"
      unfolding 1 fold_hash_heads by (simp add: b0_def position_hash_def bl cong: if_cong)
    then show ?thesis unfolding regenChainsFromColors_def by (simp add: 1 Let_def)
  qed
  then show ?thesis using f I by (auto simp: core_loose)
qed

section \<open>Settling a position\<close>

text \<open>Taking off, at once, every stone whose group has no liberty.\<close>

definition settle :: "int \<Rightarrow> (loc \<Rightarrow> color) \<Rightarrow> loc \<Rightarrow> color" where
  "settle xs c = (\<lambda>l. if is_stone (c l) \<and> \<not> has_liberty xs c l then C_EMPTY else c l)"

lemma has_liberty_step:
  assumes "adjacent xs u v" "c u = c v" "has_liberty xs c u"
  shows "has_liberty xs c v"
proof -
  obtain m e where m: "m \<in> group xs c u" "adjacent xs m e" "c e = C_EMPTY"
    using assms(3) by (auto simp: has_liberty_def)
  have "(u, m) \<in> {(a, b). adjacent xs a b \<and> c a = c v \<and> c b = c v}\<^sup>*"
    using m(1) by (simp add: group_def assms(2))
  moreover have "(v, u) \<in> {(a, b). adjacent xs a b \<and> c a = c v \<and> c b = c v}"
    using assms(1,2) by (simp add: adjacent_sym)
  ultimately have "m \<in> group xs c v" by (simp add: group_def converse_rtrancl_into_rtrancl)
  then show ?thesis using m(2,3) by (auto simp: has_liberty_def)
qed

lemma settle_lively: "lively xs (settle xs c)"
  unfolding lively_def
proof (intro allI impI)
  fix l assume "is_stone (settle xs c l)"
  then have l: "is_stone (c l)" "has_liberty xs c l" "settle xs c l = c l"
    by (auto simp: settle_def split: if_splits)
  then obtain m e where m: "m \<in> group xs c l" and e: "adjacent xs m e" "c e = C_EMPTY"
    by (auto simp: has_liberty_def)
  have "(l, m) \<in> {(u, v). adjacent xs u v \<and> c u = c l \<and> c v = c l}\<^sup>*" using m by (simp add: group_def)
  then have "has_liberty xs c m \<and> c m = c l \<and> m \<in> group xs (settle xs c) l"
  proof (induction rule: rtrancl_induct)
    case base
    then show ?case using l by (simp add: group_def)
  next
    case (step u v)
    then have uv: "adjacent xs u v" "c u = c l" "c v = c l" by simp_all
    have "has_liberty xs c v" using has_liberty_step [OF uv(1), of c] uv step.IH by simp
    moreover have "settle xs c u = c l" "settle xs c v = c l"
      using uv step.IH calculation by (simp_all add: settle_def)
    ultimately show ?case using group_step [of u xs "settle xs c" l v] step.IH uv l(3) by simp
  qed
  then show "has_liberty xs (settle xs c) l"
    using has_liberty_neighbour [OF _ e(1)] e(2) by (auto simp: settle_def)
qed

lemma settle_id: "lively xs c \<Longrightarrow> settle xs c = c"
  by (auto simp: settle_def lively_def fun_eq_iff)

section \<open>\<open>setStonesTolerant\<close>\<close>

lemma fold_place:
  assumes "geom_ok b"
  shows "fold (\<lambda>placement b. let loc = mv_loc placement; color = mv_pla placement
      in if loc < 0 \<or> loc \<ge> MAX_ARR_SIZE \<or> colors b loc = C_WALL then b
         else if color \<noteq> C_EMPTY \<and> color \<noteq> C_BLACK \<and> color \<noteq> C_WHITE then b
         else set_color loc color b) ms b =
    b\<lparr>colors := apply_stones (filter (placeable b) (stones_of ms)) (colors b)\<rparr>"
    and "geom_ok (b\<lparr>colors := apply_stones (filter (placeable b) (stones_of ms)) (colors b)\<rparr>)"
proof -
  let ?step = "\<lambda>placement b. let loc = mv_loc placement; color = mv_pla placement
      in if loc < 0 \<or> loc \<ge> MAX_ARR_SIZE \<or> colors b loc = C_WALL then b
         else if color \<noteq> C_EMPTY \<and> color \<noteq> C_BLACK \<and> color \<noteq> C_WHITE then b
         else set_color loc color b"
  have "fold ?step ms b = b\<lparr>colors := apply_stones (filter (placeable b) (stones_of ms)) (colors b)\<rparr> \<and>
      geom_ok (b\<lparr>colors := apply_stones (filter (placeable b) (stones_of ms)) (colors b)\<rparr>)"
    using assms
  proof (induction ms arbitrary: b)
    case Nil
    then show ?case by (simp add: stones_of_def)
  next
    case (Cons m ms)
    let ?l = "mv_loc m" let ?c = "mv_pla m"
    note g = Cons.prems
    have w: "(?l < 0 \<or> ?l \<ge> MAX_ARR_SIZE \<or> colors b ?l = C_WALL) \<longleftrightarrow> \<not> on_board (x_size b) (y_size b) ?l"
    proof -
      have "x_size b \<le> MAX_LEN" "y_size b \<le> MAX_LEN" using g by (simp_all add: geom_ok_def)
      then show ?thesis
        using geom_wall [OF g, of ?l] on_board_range [of "x_size b" "y_size b" ?l] by force
    qed
    have c: "(?c \<noteq> C_EMPTY \<and> ?c \<noteq> C_BLACK \<and> ?c \<noteq> C_WHITE) \<longleftrightarrow> ?c = C_WALL" by (cases ?c) simp_all
    show ?case
    proof (cases "placeable b (?l, ?c)")
      case True
      let ?b = "set_color ?l ?c b"
      have "geom_ok ?b" using g True by (auto simp: geom_ok_def placeable_def)
      moreover have "placeable ?b = placeable b" by (simp add: placeable_def)
      ultimately show ?thesis
        using Cons.IH [of ?b] True w c
        by (auto simp add: placeable_def stones_of_def Let_def set_color_def fun_upd_def)
    next
      case False
      then show ?thesis
        using Cons.IH [OF g] w c by (auto simp: placeable_def stones_of_def Let_def)
    qed
  qed
  then show "fold ?step ms b = b\<lparr>colors := apply_stones (filter (placeable b) (stones_of ms)) (colors b)\<rparr>"
    "geom_ok (b\<lparr>colors := apply_stones (filter (placeable b) (stones_of ms)) (colors b)\<rparr>)" by blast+
qed

text \<open>The loop that takes off the stones of chains without liberties.\<close>

lemma fold_settle:
  assumes "distinct ls"
  shows "fold (\<lambda>loc (b, numRemoved). let c = colors b loc
      in if (c = C_BLACK \<or> c = C_WHITE) \<and> num_liberties (chain_data b (chain_head b loc)) = 0
         then (set_color loc C_EMPTY b, numRemoved + 1) else (b, numRemoved)) ls (b, n :: int) =
    (let D = {l \<in> set ls. is_stone (colors b l) \<and> num_liberties (chain_data b (chain_head b l)) = 0}
     in (b\<lparr>colors := \<lambda>l. if l \<in> D then C_EMPTY else colors b l\<rparr>, n + int (card D)))"
  using assms
proof (induction ls arbitrary: b n)
  case Nil
  then show ?case by (simp add: Let_def)
next
  case (Cons l ls)
  let ?P = "\<lambda>l. is_stone (colors b l) \<and> num_liberties (chain_data b (chain_head b l)) = 0"
  have l: "l \<notin> set ls" "distinct ls" using Cons.prems by auto
  show ?case
  proof (cases "?P l")
    case True
    let ?b = "set_color l C_EMPTY b"
    have D: "{m \<in> set ls. is_stone (colors ?b m) \<and> num_liberties (chain_data ?b (chain_head ?b m)) = 0} = {m \<in> set ls. ?P m}"
      using l(1) by auto
    have "{m \<in> set (l # ls). ?P m} = insert l {m \<in> set ls. ?P m}" using True by auto
    then show ?thesis
      using True l Cons.IH [OF l(2), of ?b "n + 1"] unfolding D
      by (simp add: Let_def is_stone_code [symmetric] set_color_def fun_eq_iff)
  next
    case False
    then have "{m \<in> set (l # ls). ?P m} = {m \<in> set ls. ?P m}" by auto
    then show ?thesis
      using False Cons.IH [OF l(2), of b n] by (auto simp add: Let_def is_stone_code [symmetric] cong: if_cong)
  qed
qed

lemma core_no_liberty:
  assumes "core Z (\<lambda>_. 0) {} b" "is_stone (colors b l)"
  shows "num_liberties (chain_data b (chain_head b l)) = 0 \<longleftrightarrow> \<not> has_liberty (x_size b) (colors b) l"
proof -
  have c: "chains_ok b (\<lambda>_. 0)" and mx: "max_ok b {}" and g: "geom_ok b" using assms(1) by (simp_all add: core_def)
  have "has_liberty (x_size b) (colors b) l \<longleftrightarrow> libs_of b (chain_of b (chain_head b l)) \<noteq> {}"
    by (rule has_liberty_chain [OF c assms(2)]) (use mx assms(2) in \<open>auto simp: max_ok_def\<close>)
  then show ?thesis
    using chains_ok_chain [OF c chains_ok_head [OF c assms(2)]] finite_libs_of [OF g]
    by (simp add: chain_ok_def)
qed

lemma core_settled_wf:
  assumes "core Z (\<lambda>_. 0) {} b" "colors b = settle (x_size b) c"
  shows "wf_board Z (b\<lparr>ko_loc := NULL_LOC\<rparr>)"
proof -
  have "core Z (\<lambda>_. 0) {} b \<Longrightarrow> lively (x_size b) (colors b) \<Longrightarrow> live_board Z b"
    by (rule core_lively_live)
  then show ?thesis using assms settle_lively [of "x_size b" c] live_null_wf by simp
qed

lemma setStonesTolerant_spec:
  fixes ms :: "Move list"
  assumes g: "geom_ok b"
  defines "c \<equiv> apply_stones (filter (placeable b) (stones_of ms)) (colors b)"
  shows "\<exists>b'. setStonesTolerant Z ms b = Some (b', int (card {l. is_stone (c l) \<and> \<not> has_liberty (x_size b) c l})) \<and>
    wf_board Z b' \<and> colors b' = settle (x_size b) c \<and> x_size b' = x_size b \<and> y_size b' = y_size b \<and>
    ko_loc b' = NULL_LOC \<and> numBlackCaptures b' = numBlackCaptures b \<and> numWhiteCaptures b' = numWhiteCaptures b"
proof -
  let ?xs = "x_size b" let ?D = "{l. is_stone (c l) \<and> \<not> has_liberty ?xs c l}" let ?b0 = "b\<lparr>colors := c\<rparr>"
  have g0: "geom_ok ?b0" using fold_place(2) [OF g] by (simp add: c_def)
  obtain b1 where b1: "regenChainsFromColors Z ?b0 = Some b1" "core Z (\<lambda>_. 0) {} b1" "colors b1 = c"
    "x_size b1 = ?xs" "y_size b1 = y_size b" "numBlackCaptures b1 = numBlackCaptures b" "numWhiteCaptures b1 = numWhiteCaptures b"
    using regenChains_core [OF g0, of Z] by auto
  have g1: "geom_ok b1" using b1(2) by (simp add: core_def)
  have bl: "board_locs b1 = locs_of ?xs (y_size b)"
    using g b1(4,5) by (subst board_locs_eq) (simp_all add: geom_ok_def)
  have on: "on_board ?xs (y_size b) l" if "is_stone (c l)" for l
    using geom_stone_on_board [OF g1, of l] that b1(3-5) by simp
  have D: "{l \<in> set (board_locs b1). is_stone (colors b1 l) \<and> num_liberties (chain_data b1 (chain_head b1 l)) = 0} = ?D"
    using core_no_liberty [OF b1(2)] on by (auto simp: bl set_locs_of b1(3,4))
  let ?n = "int (card ?D)" let ?b2 = "b1\<lparr>colors := settle ?xs c\<rparr>"
  have "distinct (board_locs b1)" unfolding bl by (rule distinct_locs_of)
  note fold = fold_settle [OF this, of b1 0, unfolded D Let_def]
  have "(\<lambda>l. if l \<in> ?D then C_EMPTY else colors b1 l) = settle ?xs c"
    by (auto simp: settle_def b1(3))
  then have fold: "fold (\<lambda>loc (b, numRemoved). if (colors b loc = C_BLACK \<or> colors b loc = C_WHITE) \<and>
        num_liberties (chain_data b (chain_head b loc)) = 0
        then (set_color loc C_EMPTY b, numRemoved + 1) else (b, numRemoved)) (board_locs b1) (b1, 0 :: int) = (?b2, ?n)"
    using fold by simp
  have fin: "finite ?D" by (rule finite_subset [OF _ finite_on_board [of ?xs "y_size b"]]) (use on in auto)
  have "\<exists>b3. (if ?n > 0 then regenChainsFromColors Z ?b2 else Some ?b2) = Some b3 \<and> core Z (\<lambda>_. 0) {} b3 \<and>
    colors b3 = settle ?xs c \<and> x_size b3 = ?xs \<and> y_size b3 = y_size b \<and>
    numBlackCaptures b3 = numBlackCaptures b \<and> numWhiteCaptures b3 = numWhiteCaptures b"
  proof (cases "?n > 0")
    case True
    have "settle ?xs c l = C_WALL \<longleftrightarrow> c l = C_WALL" for l by (simp add: settle_def is_stone_code)
    then have "geom_ok ?b2" using g1 b1(3) by (simp add: geom_ok_def)
    from regenChains_core [OF this, of Z] show ?thesis using True b1 by auto
  next
    case False
    then have "?D = {}" using fin by simp
    then have "settle ?xs c = c" by (auto simp: settle_def)
    moreover from this have "core Z (\<lambda>_. 0) {} ?b2 = core Z (\<lambda>_. 0) {} b1"
      using b1(3) by (intro core_cong) simp_all
    ultimately show ?thesis using False b1 by simp
  qed
  then obtain b3 where b3: "(if ?n > 0 then regenChainsFromColors Z ?b2 else Some ?b2) = Some b3" "core Z (\<lambda>_. 0) {} b3"
    "colors b3 = settle ?xs c" "x_size b3 = ?xs" "y_size b3 = y_size b"
    "numBlackCaptures b3 = numBlackCaptures b" "numWhiteCaptures b3 = numWhiteCaptures b" by blast
  have "setStonesTolerant Z ms b = Some (b3\<lparr>ko_loc := NULL_LOC\<rparr>, ?n)"
    unfolding setStonesTolerant_def fold_place(1) [OF g] c_def [symmetric]
    using fold b3(1) by (simp add: b1(1) Let_def)
  then show ?thesis
    using b3 core_settled_wf [OF b3(2), of c] by (intro exI [of _ "b3\<lparr>ko_loc := NULL_LOC\<rparr>"]) simp
qed

end
