(* ===== verification/Undo.thy ===== *)
theory Undo
  imports UndoStone ChainRegen
begin

text \<open>
  \<open>Board::undo\<close> takes back the last move: from a board with the colours the move left, whatever
  its chains, it restores the position, the ko point, the counts of captures and the hash.
\<close>

section \<open>What the record says\<close>

lemma capture_bits_bit:
  "i < 4 \<Longrightarrow> bit (capture_bits b loc opp) i \<longleftrightarrow>
     colors b (adjs (x_size b) loc ! i) = opp \<and> getNumLiberties b (adjs (x_size b) loc ! i) = 1"
  "(capture_bits b loc opp = 0) \<longleftrightarrow>
     (\<forall>a. adjacent (x_size b) loc a \<longrightarrow> \<not> (colors b a = opp \<and> getNumLiberties b a = 1))"
  "capture_bits b loc opp \<noteq> 0x10"
proof -
  define P where "P i = (colors b (adjs (x_size b) loc ! i) = opp \<and> getNumLiberties b (adjs (x_size b) loc ! i) = 1)" for i
  have c: "capture_bits b loc opp =
      (let w = (if P 0 then 0 OR push_bit 0 1 else 0); w = (if P 1 then w OR push_bit 1 1 else w);
           w = (if P 2 then w OR push_bit 2 1 else w) in (if P 3 then w OR push_bit 3 1 else w))"
    by (simp add: capture_bits_def P_def adjs_def Let_def numeral_3_eq_3 numeral_2_eq_2)
  have i4: "i < 4 \<longleftrightarrow> i = 0 \<or> i = 1 \<or> i = 2 \<or> i = 3" for i :: nat by auto
  show "bit (capture_bits b loc opp) i \<longleftrightarrow> colors b (adjs (x_size b) loc ! i) = opp \<and>
      getNumLiberties b (adjs (x_size b) loc ! i) = 1" if "i < 4"
    unfolding P_def [symmetric] c using that unfolding i4
    by (cases "P 0"; cases "P 1"; cases "P 2"; cases "P 3") auto
  have "(\<forall>a. adjacent (x_size b) loc a \<longrightarrow> \<not> (colors b a = opp \<and> getNumLiberties b a = 1)) \<longleftrightarrow>
      list_all (\<lambda>a. \<not> (colors b a = opp \<and> getNumLiberties b a = 1)) (adjs (x_size b) loc)"
    by (simp add: adjacent_def list_all_iff Ball_def)
  also have "\<dots> \<longleftrightarrow> \<not> P 0 \<and> \<not> P 1 \<and> \<not> P 2 \<and> \<not> P 3"
    unfolding P_def by (simp add: adjs_def numeral_3_eq_3 numeral_2_eq_2)
  finally have "(\<forall>a. adjacent (x_size b) loc a \<longrightarrow> \<not> (colors b a = opp \<and> getNumLiberties b a = 1)) \<longleftrightarrow>
      \<not> P 0 \<and> \<not> P 1 \<and> \<not> P 2 \<and> \<not> P 3" .
  then show "(capture_bits b loc opp = 0) \<longleftrightarrow>
     (\<forall>a. adjacent (x_size b) loc a \<longrightarrow> \<not> (colors b a = opp \<and> getNumLiberties b a = 1))"
    unfolding c by (cases "P 0"; cases "P 1"; cases "P 2"; cases "P 3") auto
  show "capture_bits b loc opp \<noteq> 0x10"
    unfolding c by (cases "P 0"; cases "P 1"; cases "P 2"; cases "P 3") auto
qed

text \<open>The record \<open>playMoveRecorded\<close> makes.\<close>

definition move_record :: "board \<Rightarrow> loc \<Rightarrow> player \<Rightarrow> MoveRecord" where
  "move_record b loc pla =
     \<lparr>mr_pla = pla, mr_loc = loc, mr_ko_loc = ko_loc b,
      mr_capDirs = (if loc \<noteq> PASS_LOC then
        (let capDirs = capture_bits b loc (getOpp pla)
         in if capDirs = 0 \<and> isSuicide b loc pla then 0x10 else capDirs) else 0)\<rparr>"

lemma playMoveRecorded_eq:
  "playMoveRecorded Z loc pla b = map_option (\<lambda>b'. (b', move_record b loc pla)) (playMoveAssumeLegal Z loc pla b)"
  by (cases "playMoveAssumeLegal Z loc pla b") (simp_all add: playMoveRecorded_def move_record_def Let_def)

lemma move_record_simps [simp]:
  "mr_pla (move_record b loc pla) = pla" "mr_loc (move_record b loc pla) = loc"
  "mr_ko_loc (move_record b loc pla) = ko_loc b"
  by (simp_all add: move_record_def)

lemma move_at_not_pass: "move_at Z b loc p \<Longrightarrow> loc \<noteq> PASS_LOC"
  using on_board_range(1) [of "x_size b" "y_size b" loc] move_at_core(1) [of Z b loc p]
  by (auto simp: move_at_def geom_ok_def PASS_LOC_def)

lemma move_record_caps:
  assumes m: "move_at Z b loc p"
  shows "mr_capDirs (move_record b loc p) =
    (if tt_suicided (x_size b) loc p (colors b) \<noteq> {} then 0x10 else capture_bits b loc (getOpp p))"
proof -
  have "capture_bits b loc (getOpp p) = 0" if "tt_suicided (x_size b) loc p (colors b) \<noteq> {}"
    using that tt_captured_if_cleared [OF _ m] captured_neighbour [OF m] unfolding capture_bits_bit(2) by blast
  then show ?thesis
    using isSuicide_eq [OF m] move_at_not_pass [OF m] by (auto simp: move_record_def Let_def)
qed

section \<open>Refilling what was captured\<close>

text \<open>The colours after the move, with the captured stones in \<open>F\<close> back on the board.\<close>

definition refilled :: "board \<Rightarrow> loc \<Rightarrow> player \<Rightarrow> loc set \<Rightarrow> loc \<Rightarrow> color" where
  "refilled b loc p F = (\<lambda>l. if l \<in> tt_captured (x_size b) loc p (colors b) - F then C_EMPTY else ((colors b)(loc := p)) l)"

lemma conn_subset_reach:
  assumes "conn xs S" "v \<in> S" "S \<subseteq> W"
  shows "S \<subseteq> reach (adjs xs) W v"
proof
  fix m assume "m \<in> S"
  then have "(v, m) \<in> (step_in xs S)\<^sup>*" using assms(1,2) by (simp add: conn_def)
  moreover have "step_in xs S \<subseteq> {(u, w). u \<in> W \<and> w \<in> W \<and> w \<in> set (adjs xs u)}"
    using assms(3) by (auto simp: step_in_def adjacent_def)
  ultimately show "m \<in> reach (adjs xs) W v" unfolding reach_def using rtrancl_mono by blast
qed

lemma captured_whole_chain:
  assumes m: "move_at Z b loc p" and l: "l \<in> tt_captured (x_size b) loc p (colors b)"
    and x: "x \<in> chain_of b (chain_head b l)"
  shows "x \<in> tt_captured (x_size b) loc p (colors b)"
proof -
  have "is_stone (colors b l)" using tt_captured_opp [OF l] m by (simp add: move_at_def)
  then have "group (x_size b) (colors b) l = chain_of b (chain_head b l)"
    using move_at_core(4) [OF m] by (intro chain_group [OF move_at_core(3) [OF m]]) (auto simp: max_ok_def)
  then show ?thesis using captured_chain [OF m l] x by simp
qed

lemma refill_region:
  assumes m: "move_at Z b loc p" and a: "a \<in> tt_captured (x_size b) loc p (colors b)" "a \<notin> F"
    and F: "\<forall>u\<in>F. chain_of b (chain_head b u) \<subseteq> F"
    and b': "colors b' = refilled b loc p F" "x_size b' = x_size b"
  shows "empty_region b' a = chain_of b (chain_head b a)"
    and "e \<in> chain_of b (chain_head b a) \<Longrightarrow> adjacent (x_size b) e n \<Longrightarrow> colors b' n \<noteq> getOpp p"
proof -
  let ?S = "chain_of b (chain_head b a)" let ?cap = "tt_captured (x_size b) loc p (colors b)"
  have p: "is_stone p" using m by (simp add: move_at_def)
  have opp: "colors b x = getOpp p" "x \<noteq> loc" if "x \<in> ?cap" for x using tt_captured_opp [OF that] by auto
  have sa: "is_stone (colors b a)" using opp(1) [OF a(1)] p by simp
  have aS: "a \<in> ?S" by (rule chain_of_mem [OF sa])
  have Sc: "x \<in> ?cap" if "x \<in> ?S" for x by (rule captured_whole_chain [OF m a(1) that])
  have "a \<in> chain_of b (chain_head b x)" if "x \<in> ?S" for x using that aS by (simp add: chain_of_def)
  then have SF: "x \<notin> F" if "x \<in> ?S" for x using F that a(2) by blast
  have same: "n \<in> ?S" if "e \<in> ?S" "adjacent (x_size b) e n" "colors b n = getOpp p" for e n
  proof -
    have "chain_head b n = chain_head b e"
      using move_at_core(4) [OF m] that opp(1) [OF Sc [OF that(1)]] p unfolding max_ok_def by fastforce
    then show ?thesis using that p by (simp add: chain_of_def)
  qed
  show "empty_region b' a = ?S"
  proof
    show "empty_region b' a \<subseteq> ?S"
      unfolding empty_region_def b'(2)
    proof (rule reach_least [OF aS])
      fix u w assume u: "u \<in> ?S" and w: "w \<in> set (adjs (x_size b) u)" "w \<in> {x. colors b' x = C_EMPTY}"
      have adj: "adjacent (x_size b) u w" using w by (simp add: adjacent_def)
      have "((colors b)(loc := p)) w \<noteq> C_EMPTY" by (rule captured_neighbours(1) [OF Sc [OF u] adj])
      then have "w \<in> ?cap" using w(2) unfolding b'(1) by (auto simp: refilled_def split: if_splits)
      then show "w \<in> ?S" using same [OF u adj] opp(1) by blast
    qed
    show "?S \<subseteq> empty_region b' a"
      unfolding empty_region_def b'(2)
    proof (rule conn_subset_reach [OF _ aS])
      show "conn (x_size b) ?S" using chain_at(2) [OF m sa] by (simp add: chain_ok_def)
      show "?S \<subseteq> {x. colors b' x = C_EMPTY}" using Sc SF by (auto simp: b'(1) refilled_def)
    qed
  qed
  show "colors b' n \<noteq> getOpp p" if e: "e \<in> ?S" "adjacent (x_size b) e n"
  proof
    assume n: "colors b' n = getOpp p"
    then have "n \<noteq> loc" using opp(2) p by (auto simp: b'(1) refilled_def split: if_splits)
    then have "colors b n = getOpp p" using n p by (auto simp: b'(1) refilled_def split: if_splits)
    from same [OF e this] have "colors b' n = C_EMPTY" using Sc SF by (auto simp: b'(1) refilled_def)
    then show False using n p by simp
  qed
qed

text \<open>The capture counts, less what is put back.\<close>

definition uncounted :: "player \<Rightarrow> int \<Rightarrow> board \<Rightarrow> board \<Rightarrow> bool" where
  "uncounted opp n b b' \<longleftrightarrow> x_size b' = x_size b \<and> y_size b' = y_size b \<and> ko_loc b' = ko_loc b \<and>
     numWhiteCaptures b' = numWhiteCaptures b - (if opp = C_WHITE then n else 0) \<and>
     numBlackCaptures b' = numBlackCaptures b - (if opp = C_WHITE then 0 else n)"

lemma opp_white: "is_stone p \<Longrightarrow> getOpp p = C_WHITE \<longleftrightarrow> p = P_BLACK"
  by (cases p) simp_all

definition refill_inv :: "zobrist \<Rightarrow> board \<Rightarrow> loc \<Rightarrow> player \<Rightarrow> board \<Rightarrow> nat list \<Rightarrow> board \<Rightarrow> bool" where
  "refill_inv Z b loc p b1 is b' \<longleftrightarrow> set is \<subseteq> {..<4} \<and>
     (\<exists>F\<subseteq>tt_captured (x_size b) loc p (colors b).
        (\<forall>u\<in>F. chain_of b (chain_head b u) \<subseteq> F) \<and> core Z (\<lambda>_. 0) {} b' \<and> colors b' = refilled b loc p F \<and>
        uncounted (getOpp p) (int (card F)) b1 b' \<and>
        (\<forall>i<4. i \<notin> set is \<longrightarrow> adjs (x_size b) loc ! i \<in> tt_captured (x_size b) loc p (colors b) \<longrightarrow>
           adjs (x_size b) loc ! i \<in> F))"

lemma undo_refill_inv:
  assumes m: "move_at Z b loc p" and rec: "mr_loc rec = loc" "mr_pla rec = p"
    "\<And>i. i < 4 \<Longrightarrow> bit (mr_capDirs rec) i \<longleftrightarrow> bit (capture_bits b loc (getOpp p)) i"
    and xs: "x_size b1 = x_size b" and I: "refill_inv Z b loc p b1 (i # is) b'"
  shows "\<exists>b''. undo_refill Z rec i b' = Some b'' \<and> refill_inv Z b loc p b1 is b''"
proof -
  let ?cap = "tt_captured (x_size b) loc p (colors b)" let ?a = "adjs (x_size b) loc ! i"
  have p: "is_stone p" using m by (simp add: move_at_def)
  from I obtain F where i: "i < 4" "set is \<subseteq> {..<4}" and F: "F \<subseteq> ?cap"
    "\<forall>u\<in>F. chain_of b (chain_head b u) \<subseteq> F" and core: "core Z (\<lambda>_. 0) {} b'"
    and col: "colors b' = refilled b loc p F" and n: "uncounted (getOpp p) (int (card F)) b1 b'"
    and seen: "\<forall>j<4. j \<notin> set (i # is) \<longrightarrow> adjs (x_size b) loc ! j \<in> ?cap \<longrightarrow> adjs (x_size b) loc ! j \<in> F"
    by (auto simp: refill_inv_def)
  have x': "x_size b' = x_size b" using n xs by (simp add: uncounted_def)
  have "adj_offsets b' = getAdjacentOffsets (x_size b)" using core x' by (simp add: core_def geom_ok_def)
  then have adj: "mr_loc rec + adj_offsets b' ! i = ?a"
    using i(1) by (auto simp: rec getAdjacentOffsets_def adjs_def nth_Cons' less_Suc_eq numeral_eq_Suc)
  have near: "adjacent (x_size b) loc ?a" unfolding adjacent_def by (rule nth_mem) (use i(1) in \<open>simp add: adjs_def\<close>)
  have b: "bit (mr_capDirs rec) i \<longleftrightarrow> colors b ?a = getOpp p \<and> getNumLiberties b ?a = 1"
    using rec(3) [OF i(1)] capture_bits_bit(1) [OF i(1)] by simp
  have capt: "?a \<in> ?cap \<longleftrightarrow> bit (mr_capDirs rec) i"
  proof
    assume a: "?a \<in> ?cap"
    then obtain u where "getNumLiberties b u = 1" "?a \<in> chain_of b (chain_head b u)"
      unfolding captured_iff_head [OF m] by blast
    then show "bit (mr_capDirs rec) i"
      unfolding b using tt_captured_opp(1) [OF a] by (simp add: chain_of_def getNumLiberties_def)
  qed (use b captured_neighbour [OF m near] in blast)
  show ?thesis
  proof (cases "bit (mr_capDirs rec) i \<and> colors b' ?a = C_EMPTY")
    case False
    have "?a \<in> F" if "?a \<in> ?cap"
      using that False capt by (auto simp: col refilled_def split: if_splits)
    then have "\<forall>j<4. j \<notin> set is \<longrightarrow> adjs (x_size b) loc ! j \<in> ?cap \<longrightarrow> adjs (x_size b) loc ! j \<in> F"
      using seen by auto
    then have "refill_inv Z b loc p b1 is b'"
      unfolding refill_inv_def using i F core col n by blast
    then show ?thesis using False unfolding undo_refill_def Let_def adj by auto
  next
    case True
    then have a: "?a \<in> ?cap" using capt by blast
    have aF: "?a \<notin> F" using True tt_captured_opp [OF a] p by (auto simp: col refilled_def)
    let ?S = "chain_of b (chain_head b ?a)"
    note r = refill_region [OF m a aF F(2) col x']
    have S: "empty_region b' ?a = ?S" by (rule r(1))
    have op: "is_stone (getOpp p)" using p by simp
    have own: "\<forall>x\<in>empty_region b' ?a. \<forall>e. adjacent (x_size b') x e \<longrightarrow> colors b' e \<noteq> getOpp p"
      unfolding S x' using r(2) by blast
    obtain b'' where b'': "addChain Z ?a (getOpp p) b' = Some b''" "core Z (\<lambda>_. 0) {} b''"
      "colors b'' = (\<lambda>l. if l \<in> ?S then getOpp p else colors b' l)"
      "num_locs (chain_data b'' (chain_head b'' ?a)) = int (card ?S)"
      "x_size b'' = x_size b'" "y_size b'' = y_size b'" "ko_loc b'' = ko_loc b'"
      "numBlackCaptures b'' = numBlackCaptures b'" "numWhiteCaptures b'' = numWhiteCaptures b'"
      using addChain_core [OF core conjunct2 [OF True] op own] unfolding S by blast
    define b3 where "b3 = (if p = P_BLACK then b''\<lparr>numWhiteCaptures := numWhiteCaptures b'' - int (card ?S)\<rparr>
        else b''\<lparr>numBlackCaptures := numBlackCaptures b'' - int (card ?S)\<rparr>)"
    have Sc: "?S \<subseteq> ?cap" using captured_whole_chain [OF m a] by blast
    have "core Z (\<lambda>_. 0) {} b3 = core Z (\<lambda>_. 0) {} b''" unfolding b3_def by (rule core_cong) auto
    then have "core Z (\<lambda>_. 0) {} b3" using b''(2) by simp
    moreover have "colors b3 = refilled b loc p (F \<union> ?S)"
    proof
      fix l show "colors b3 l = refilled b loc p (F \<union> ?S) l"
        using Sc tt_captured_opp [of l b loc p] by (auto simp: b3_def b''(3) col refilled_def)
    qed
    moreover have "uncounted (getOpp p) (int (card (F \<union> ?S))) b1 b3"
    proof -
      have "finite ?S" by (rule finite_chain_of [OF move_at_core(1) [OF m]])
      moreover have "finite ?cap"
        by (rule finite_subset [OF _ finite_on_board [of "x_size b" "y_size b"]])
          (use tt_captured_opp(1) geom_stone_on_board [OF move_at_core(1) [OF m]] p in fastforce)
      moreover have "F \<inter> ?S = {}"
      proof -
        have "?a \<in> chain_of b (chain_head b x)" if "x \<in> ?S" for x
          using that tt_captured_opp(1) [OF a] p by (simp add: chain_of_def)
        then show ?thesis using F(2) aF by blast
      qed
      ultimately have "card (F \<union> ?S) = card F + card ?S"
        using F(1) by (intro card_Un_disjoint) (auto intro: finite_subset)
      then show ?thesis using n b''(5-9) opp_white [OF p] by (auto simp: b3_def uncounted_def)
    qed
    moreover have "\<forall>u\<in>F \<union> ?S. chain_of b (chain_head b u) \<subseteq> F \<union> ?S"
      using F(2) by (auto simp: chain_of_def)
    moreover have "\<forall>j<4. j \<notin> set is \<longrightarrow> adjs (x_size b) loc ! j \<in> ?cap \<longrightarrow> adjs (x_size b) loc ! j \<in> F \<union> ?S"
    proof -
      have "?a \<in> ?S" using tt_captured_opp(1) [OF a] p by (intro chain_of_mem) simp
      then show ?thesis using seen by auto
    qed
    moreover have "F \<union> ?S \<subseteq> ?cap" using F(1) Sc by blast
    ultimately have "refill_inv Z b loc p b1 is b3"
      unfolding refill_inv_def by (intro conjI exI [of _ "F \<union> ?S"] i(2))
    moreover have "undo_refill Z rec i b' = Some b3"
      using True b''(1,4) unfolding undo_refill_def Let_def adj by (simp add: rec b3_def)
    ultimately show ?thesis by blast
  qed
qed

lemma refill_loop:
  assumes m: "move_at Z b loc p" and rec: "mr_loc rec = loc" "mr_pla rec = p"
    "\<And>i. i < 4 \<Longrightarrow> bit (mr_capDirs rec) i \<longleftrightarrow> bit (capture_bits b loc (getOpp p)) i"
    and core: "core Z (\<lambda>_. 0) {} b1" and xs: "x_size b1 = x_size b" and col: "colors b1 = refilled b loc p {}"
  shows "\<exists>b2. foldM (undo_refill Z rec) [0, 1, 2, 3] b1 = Some b2 \<and> core Z (\<lambda>_. 0) {} b2 \<and>
    colors b2 = (colors b)(loc := p) \<and>
    uncounted (getOpp p) (int (card (tt_captured (x_size b) loc p (colors b)))) b1 b2"
proof -
  let ?cap = "tt_captured (x_size b) loc p (colors b)"
  have "refill_inv Z b loc p b1 [0, 1, 2, 3] b1"
    unfolding refill_inv_def using core col
    by (intro conjI exI [of _ "{}"]) (auto simp: uncounted_def less_Suc_eq numeral_eq_Suc)
  then obtain b2 where f: "foldM (undo_refill Z rec) [0, 1, 2, 3] b1 = Some b2" and I: "refill_inv Z b loc p b1 [] b2"
    using foldM_total [where I = "refill_inv Z b loc p b1" and f = "undo_refill Z rec", OF _ undo_refill_inv [OF m rec xs]] by blast
  from I obtain F where F: "F \<subseteq> ?cap" "\<forall>u\<in>F. chain_of b (chain_head b u) \<subseteq> F" and c2: "core Z (\<lambda>_. 0) {} b2"
    "colors b2 = refilled b loc p F" "uncounted (getOpp p) (int (card F)) b1 b2"
    and all: "\<forall>i<4. adjs (x_size b) loc ! i \<in> ?cap \<longrightarrow> adjs (x_size b) loc ! i \<in> F"
    by (auto simp: refill_inv_def)
  have "?cap \<subseteq> F"
  proof
    fix l assume "l \<in> ?cap"
    then obtain a where a: "adjacent (x_size b) loc a" "colors b a = getOpp p" "getNumLiberties b a = 1"
      "l \<in> chain_of b (chain_head b a)" unfolding captured_iff_head [OF m] by blast
    obtain i where "i < 4" "adjs (x_size b) loc ! i = a"
      using a(1) unfolding adjacent_def in_set_conv_nth by (auto simp: adjs_def numeral_eq_Suc)
    then have "a \<in> F" using all captured_neighbour [OF m a(1-3)] by auto
    then show "l \<in> F" using F(2) a(4) by blast
  qed
  then have FE: "F = ?cap" using F(1) by blast
  have "refilled b loc p F = (colors b)(loc := p)" by (simp add: FE refilled_def fun_eq_iff)
  then show ?thesis using f c2 FE by auto
qed

section \<open>Refilling what the move took of its own\<close>

lemma suicide_loop_skips:
  "mr_capDirs rec = 0x10 \<Longrightarrow> foldM (undo_refill Z rec) [0, 1, 2, 3] b = Some b"
  by (simp add: undo_refill_def Let_def)

lemma undo_suicide_refills:
  assumes m: "move_at Z b loc p" and rec: "mr_loc rec = loc" "mr_pla rec = p" "mr_capDirs rec = 0x10"
    and su: "tt_suicided (x_size b) loc p (colors b) \<noteq> {}"
    and core: "core Z (\<lambda>_. 0) {} b1" and xs: "x_size b1 = x_size b"
    and col: "colors b1 = tt_play (x_size b) loc p (colors b)"
  shows "\<exists>b2. undo_suicide Z rec b1 = Some b2 \<and> core Z (\<lambda>_. 0) {} b2 \<and> colors b2 = (colors b)(loc := p) \<and>
    uncounted p (int (card (tt_suicided (x_size b) loc p (colors b)))) b1 b2"
proof -
  let ?su = "tt_suicided (x_size b) loc p (colors b)" let ?c = "(colors b)(loc := p)"
  have p: "is_stone p" using m by (simp add: move_at_def)
  have cap: "tt_captured (x_size b) loc p (colors b) = {}" using tt_captured_if_cleared [OF _ m] su by blast
  have cl: "cleared b loc p = ?c" unfolding cleared_eq [OF p] cap by (simp add: fun_eq_iff)
  have nl: "\<not> has_liberty (x_size b) ?c loc" and sue: "?su = insert loc (own_chains b loc p)"
    using su tt_suicided_eq [OF m] unfolding cl by (auto split: if_splits)
  then have grp: "?su = group (x_size b) ?c loc" using group_cleared [OF m] unfolding cl by simp
  have col: "colors b1 = (\<lambda>l. if l \<in> ?su then C_EMPTY else ?c l)"
    unfolding col tt_play_eq cl ..
  have sp: "?c x = p" if "x \<in> ?su" for x using that p by (simp add: tt_suicided_def tt_clear_def Let_def split: if_splits)
  have self: "loc \<in> ?su" using sue by simp
  have same: "w \<in> ?su" if "u \<in> ?su" "adjacent (x_size b) u w" "?c w = p" for u w
    using that sp [OF that(1)] group_step [of u "x_size b" ?c loc w] unfolding grp by simp
  have reg: "empty_region b1 loc = ?su"
  proof
    show "empty_region b1 loc \<subseteq> ?su"
      unfolding empty_region_def xs
    proof (rule reach_least [OF self])
      fix u w assume u: "u \<in> ?su" and w: "w \<in> set (adjs (x_size b) u)" "w \<in> {a. colors b1 a = C_EMPTY}"
      show "w \<in> ?su"
      proof (rule ccontr)
        assume "w \<notin> ?su"
        then have "?c w = C_EMPTY" using w(2) by (simp add: col)
        then have "has_liberty (x_size b) ?c loc"
          using u w(1) unfolding grp has_liberty_def adjacent_def by blast
        then show False using nl by simp
      qed
    qed
    show "?su \<subseteq> empty_region b1 loc"
    proof
      fix x assume "x \<in> ?su"
      then have "(loc, x) \<in> {(u, v). adjacent (x_size b) u v \<and> ?c u = ?c loc \<and> ?c v = ?c loc}\<^sup>*"
        unfolding grp group_def by simp
      then have "x \<in> empty_region b1 loc \<and> x \<in> ?su"
      proof (induction rule: rtrancl_induct)
        case base
        then show ?case using self by (simp add: empty_region_def reach_refl)
      next
        case (step u v)
        then have "v \<in> ?su" using same [of u v] by simp
        moreover have "v \<in> empty_region b1 loc"
          using step calculation self xs by (intro empty_region_closed [of b1 loc u v]) (auto simp: col)
        ultimately show ?case by simp
      qed
      then show "x \<in> empty_region b1 loc" ..
    qed
  qed
  have e: "colors b1 loc = C_EMPTY" using self by (simp add: col)
  have own: "colors b1 n \<noteq> p" if "x \<in> ?su" "adjacent (x_size b) x n" for x n
    using same [OF that] p by (auto simp: col)
  obtain b2 where b2: "addChain Z loc p b1 = Some b2" "core Z (\<lambda>_. 0) {} b2"
    "colors b2 = (\<lambda>l. if l \<in> ?su then p else colors b1 l)"
    "num_locs (chain_data b2 (chain_head b2 loc)) = int (card ?su)"
    "x_size b2 = x_size b1" "y_size b2 = y_size b1" "ko_loc b2 = ko_loc b1"
    "numBlackCaptures b2 = numBlackCaptures b1" "numWhiteCaptures b2 = numWhiteCaptures b1"
    using addChain_core [OF core e p] own unfolding reg xs by fastforce
  let ?b = "(if p = P_BLACK then b2\<lparr>numBlackCaptures := numBlackCaptures b2 - int (card ?su)\<rparr>
      else b2\<lparr>numWhiteCaptures := numWhiteCaptures b2 - int (card ?su)\<rparr>)"
  have "undo_suicide Z rec b1 = Some ?b"
    unfolding undo_suicide_def Let_def rec using e b2(1,4) by simp
  moreover have "core Z (\<lambda>_. 0) {} ?b = core Z (\<lambda>_. 0) {} b2" by (rule core_cong) auto
  moreover have "colors ?b = ?c"
  proof
    fix x show "colors ?b x = ?c x" using sp [of x] by (auto simp: b2(3) col)
  qed
  moreover have "uncounted p (int (card ?su)) b1 ?b"
    using b2(5-9) p by (cases p) (auto simp: uncounted_def)
  ultimately show ?thesis using b2(2) by blast
qed

section \<open>Undoing a move\<close>

text \<open>
  The board handed to \<open>undo\<close> need only look as the move left it: its chains may have been built
  in another order, as happens when moves played on top were undone before.
\<close>

definition looks_like :: "board \<Rightarrow> board \<Rightarrow> bool" where
  "looks_like b b' \<longleftrightarrow> x_size b' = x_size b \<and> y_size b' = y_size b \<and> colors b' = colors b \<and>
     numWhiteCaptures b' = numWhiteCaptures b \<and> numBlackCaptures b' = numBlackCaptures b \<and> pos_hash b' = pos_hash b"

lemma undo_spec:
  assumes wf: "wf_board Z b" and m: "move_at Z b loc p"
    and pl: "playMoveAssumeLegal Z loc p b = Some b0" and l: "looks_like b0 b1" and c1: "core Z (\<lambda>_. 0) {} b1"
  shows "\<exists>b2. undo Z (move_record b loc p) b1 = Some b2 \<and> wf_board Z b2 \<and> looks_like b b2 \<and> ko_loc b2 = ko_loc b"
proof -
  let ?rec = "move_record b loc p" let ?c = "(colors b)(loc := p)" let ?su = "tt_suicided (x_size b) loc p (colors b)"
  let ?cap = "tt_captured (x_size b) loc p (colors b)" let ?b1 = "b1\<lparr>ko_loc := ko_loc b\<rparr>"
  have p: "is_stone p" and e: "colors b loc = C_EMPTY" using m by (simp_all add: move_at_def)
  have b1: "x_size b1 = x_size b" "y_size b1 = y_size b" "colors b1 = tt_play (x_size b) loc p (colors b)"
      "numWhiteCaptures b1 = numWhiteCaptures b + int (card (if p = P_BLACK then ?cap else ?su))"
      "numBlackCaptures b1 = numBlackCaptures b + int (card (if p = P_BLACK then ?su else ?cap))"
    using playMove_total [of Z b loc p] m pl l by (auto simp: move_at_def looks_like_def)
  have c1': "core Z (\<lambda>_. 0) {} ?b1" using c1 by (simp add: core_cong [of ?b1 b1])
  note caps = move_record_caps [OF m]
  have "\<exists>b2 b3. foldM (undo_refill Z ?rec) [0, 1, 2, 3] ?b1 = Some b2 \<and> undo_suicide Z ?rec b2 = Some b3 \<and>
    core Z (\<lambda>_. 0) {} b3 \<and> colors b3 = ?c \<and>
    (if ?su = {} then uncounted (getOpp p) (int (card ?cap)) ?b1 b3 else uncounted p (int (card ?su)) ?b1 b3)"
  proof (cases "?su = {}")
    case True
    have "colors ?b1 = refilled b loc p {}"
      using b1(3) tt_play_eq [of b loc p] cleared_eq [OF p, of b loc] True by (simp add: refilled_def fun_eq_iff)
    moreover have "bit (mr_capDirs ?rec) i \<longleftrightarrow> bit (capture_bits b loc (getOpp p)) i" for i
      unfolding caps using True by simp
    moreover have "undo_suicide Z ?rec b2 = Some b2" for b2
      unfolding undo_suicide_def caps using True capture_bits_bit(3) by (simp add: Let_def)
    ultimately show ?thesis
      using refill_loop [OF m, of ?rec ?b1] c1' b1(1) True by auto
  next
    case False
    then have "mr_capDirs ?rec = 0x10" unfolding caps by simp
    then show ?thesis
      using suicide_loop_skips undo_suicide_refills [OF m _ _ _ False c1', of ?rec] b1(1,3) False by simp
  qed
  then obtain b2 b3 where f: "foldM (undo_refill Z ?rec) [0, 1, 2, 3] ?b1 = Some b2" "undo_suicide Z ?rec b2 = Some b3"
    and c3: "core Z (\<lambda>_. 0) {} b3" "colors b3 = ?c"
    and n: "if ?su = {} then uncounted (getOpp p) (int (card ?cap)) ?b1 b3 else uncounted p (int (card ?su)) ?b1 b3"
    by blast
  have "?cap = {} \<or> ?su = {}" using tt_captured_if_cleared [OF _ m] by blast
  then have n3: "x_size b3 = x_size b" "y_size b3 = y_size b" "ko_loc b3 = ko_loc b"
      "numWhiteCaptures b3 = numWhiteCaptures b" "numBlackCaptures b3 = numBlackCaptures b"
    using n b1 opp_white [OF p] p by (cases p; auto simp: uncounted_def split: if_splits)+
  obtain b4 where b4: "undo_stone Z ?rec b3 = Some b4" "core Z (\<lambda>_. 0) {} b4" "colors b4 = ?c(loc := C_EMPTY)"
      "x_size b4 = x_size b3" "y_size b4 = y_size b3" "ko_loc b4 = ko_loc b3"
      "numBlackCaptures b4 = numBlackCaptures b3" "numWhiteCaptures b4 = numWhiteCaptures b3"
    using undo_stone_core [OF c3(1), of ?rec] c3(2) p by auto
  have col: "colors b4 = colors b" using b4(3) e by auto
  have "live_board Z b4"
    using live_lively [of Z b] wf b4 n3 col by (intro core_lively_live) (simp_all add: wf_board_live)
  moreover have "ko_ok b4" using wf b4 n3 col by (simp add: wf_board_def ko_ok_def)
  moreover have "pos_hash b4 = pos_hash b"
    using wf b4 n3 col by (simp add: wf_board_def core_def hash_ok_def)
  moreover have "undo Z ?rec b1 = Some b4"
    unfolding undo_stages using f b4(1) move_at_not_pass [OF m] by (simp add: Let_def del: foldM.simps)
  ultimately show ?thesis using b4 n3 col by (auto simp: wf_board_live looks_like_def)
qed

end
