(* ===== verification/RepBound.thy ===== *)
theory RepBound
  imports ChainFill BoardSetup
begin

text \<open>
  \<open>simpleRepetitionBoundGt\<close>: the flood of \<open>countEmptyHelper\<close> ends, because every step takes a point
  off the queue or marks a new one, and the sum it compares with the bound is the number of stones
  of the chain and of points of the empty regions the chain touches.
\<close>

section \<open>Expanding one point\<close>

text \<open>
  \<open>c0\<close> is what was counted before, \<open>T\<close> the set of points that may be marked; an answer \<open>Inl\<close> means
  that \<open>T\<close> has more points than the bound allows.
\<close>

definition too_many :: "int \<Rightarrow> loc set \<Rightarrow> int \<Rightarrow> bool" where
  "too_many c0 T bound \<longleftrightarrow> c0 + int (card T) > bound"

definition expanded ::
  "board \<Rightarrow> loc list \<Rightarrow> int \<Rightarrow> loc set \<Rightarrow> int \<Rightarrow> loc set \<Rightarrow> loc list \<Rightarrow> int + loc set \<times> int \<times> loc list \<Rightarrow> bool" where
  "expanded b as c0 T bound marks queue r \<longleftrightarrow>
     (case r of
        Inl c \<Rightarrow> too_many c0 T bound
      | Inr (marks', count', queue') \<Rightarrow> marks \<subseteq> marks' \<and> marks' \<subseteq> T \<and>
          count' = c0 + int (card marks') \<and> count' \<le> bound \<and>
          set queue' = set queue \<union> (marks' - marks) \<and>
          card (T - marks') + length queue' = card (T - marks) + length queue \<and>
          (\<forall>a\<in>set as. colors b a = C_EMPTY \<longrightarrow> a \<in> marks'))"

lemma expanded_skip:
  assumes "expanded b as c0 T bound marks queue r" "colors b a \<noteq> C_EMPTY \<or> a \<in> marks"
  shows "expanded b (a # as) c0 T bound marks queue r"
proof (cases r)
  case (Inr st)
  obtain m c q where st: "st = (m, c, q)" by (cases st)
  have "marks \<subseteq> m" using assms(1) by (simp add: expanded_def Inr st)
  then have "colors b a = C_EMPTY \<longrightarrow> a \<in> m" using assms(2) by blast
  then show ?thesis using assms(1) by (simp add: expanded_def Inr st)
qed (use assms(1) in \<open>simp add: expanded_def\<close>)

lemma expanded_mark:
  assumes "expanded b as c0 T bound (insert a marks) (queue @ [a]) r" "finite T" "a \<in> T" "a \<notin> marks"
  shows "expanded b (a # as) c0 T bound marks queue r"
proof -
  have "T - insert a marks = T - marks - {a}" by auto
  then have ct: "card (T - marks) = card (T - insert a marks) + 1"
    using card.remove [of "T - marks" a] assms(2-4) by simp
  show ?thesis
  proof (cases r)
    case (Inl c)
    then show ?thesis using assms(1) by (simp add: expanded_def)
  next
    case (Inr st)
    obtain m c q where st: "st = (m, c, q)" by (cases st)
    have "insert a marks \<subseteq> m" "set q = set (queue @ [a]) \<union> (m - insert a marks)"
      using assms(1) by (simp_all add: expanded_def Inr st)
    moreover from this have "set q = set queue \<union> (m - marks)" using assms(4) by auto
    ultimately show ?thesis using assms(1) ct by (simp add: expanded_def Inr st)
  qed
qed

lemma count_adjs:
  assumes "finite T" "marks \<subseteq> T" "\<forall>a\<in>set as. colors b a = C_EMPTY \<longrightarrow> a \<in> T"
    and "count = c0 + int (card marks)" "count \<le> bound"
  shows "expanded b as c0 T bound marks queue (foldR (count_adj b bound) as (marks, count, queue))"
  using assms
proof (induction as arbitrary: marks count queue)
  case Nil
  then show ?case by (simp add: expanded_def)
next
  case (Cons a as)
  show ?case
  proof (cases "colors b a = C_EMPTY \<and> a \<notin> marks")
    case False
    then have "foldR (count_adj b bound) (a # as) (marks, count, queue) = foldR (count_adj b bound) as (marks, count, queue)"
      by (auto simp: count_adj_def)
    then show ?thesis using expanded_skip [OF Cons.IH] Cons.prems False by simp
  next
    case True
    let ?m = "insert a marks"
    have fin: "finite marks" using Cons.prems(1,2) finite_subset by blast
    have aT: "a \<in> T" using Cons.prems(3) True by simp
    have cm: "card ?m = card marks + 1" using True fin by simp
    show ?thesis
    proof (cases "count + 1 > bound")
      case over: True
      have "card ?m \<le> card T" by (rule card_mono) (use Cons.prems(1,2) aT in auto)
      then have "too_many c0 T bound" using over Cons.prems(4) cm by (simp add: too_many_def)
      then show ?thesis using True over by (simp add: count_adj_def Let_def expanded_def)
    next
      case False
      have "expanded b as c0 T bound ?m (queue @ [a]) (foldR (count_adj b bound) as (?m, count + 1, queue @ [a]))"
        by (rule Cons.IH) (use Cons.prems False aT cm in auto)
      moreover have "foldR (count_adj b bound) (a # as) (marks, count, queue) =
          foldR (count_adj b bound) as (?m, count + 1, queue @ [a])"
        using True False by (simp add: count_adj_def Let_def)
      ultimately show ?thesis using expanded_mark [OF _ Cons.prems(1) aT] True by simp
    qed
  qed
qed

section \<open>One flood\<close>

text \<open>A set of points that contains the empty neighbours of its points.\<close>

definition empty_closed :: "board \<Rightarrow> loc set \<Rightarrow> bool" where
  "empty_closed b S \<longleftrightarrow> (\<forall>u\<in>S. \<forall>v. adjacent (x_size b) u v \<and> colors b v = C_EMPTY \<longrightarrow> v \<in> S)"

definition flooded :: "board \<Rightarrow> int \<Rightarrow> loc set \<Rightarrow> int \<Rightarrow> loc set \<Rightarrow> int + loc set \<times> int \<Rightarrow> bool" where
  "flooded b c0 T bound marks r \<longleftrightarrow>
     (case r of
        Inl c \<Rightarrow> too_many c0 T bound
      | Inr (marks', count') \<Rightarrow> marks \<subseteq> marks' \<and> marks' \<subseteq> T \<and> empty_closed b marks' \<and>
          count' = c0 + int (card marks') \<and> count' \<le> bound)"

lemma flooded_mono: "flooded b c0 T bound m' r \<Longrightarrow> m \<subseteq> m' \<Longrightarrow> flooded b c0 T bound m r"
  unfolding flooded_def by (cases r) auto

lemma count_loop_returns:
  assumes "finite T" "empty_closed b T" "marks \<subseteq> T" "set queue \<subseteq> marks"
    and "\<forall>u\<in>marks - set queue. \<forall>v. adjacent (x_size b) u v \<and> colors b v = C_EMPTY \<longrightarrow> v \<in> marks"
    and "count = c0 + int (card marks)" "count \<le> bound"
  shows "\<exists>r. count_loop b bound marks count queue = Some r \<and> flooded b c0 T bound marks r"
  using assms(3-)
proof (induction "card (T - marks) + length queue" arbitrary: marks count queue rule: less_induct)
  case less
  show ?case
  proof (cases queue)
    case Nil
    then show ?thesis using less.prems by (subst count_loop.simps) (auto simp: empty_closed_def flooded_def)
  next
    case (Cons u rest)
    have "u \<in> T" using less.prems(1,2) Cons by auto
    then have asT: "\<forall>a\<in>set (adjs (x_size b) u). colors b a = C_EMPTY \<longrightarrow> a \<in> T"
      using assms(2) by (auto simp: empty_closed_def adjacent_def)
    note step = count_adjs [OF assms(1) less.prems(1) asT less.prems(4,5), of rest]
    show ?thesis
    proof (cases "foldR (count_adj b bound) (adjs (x_size b) u) (marks, count, rest)")
      case (Inl c)
      then show ?thesis using step Cons by (subst count_loop.simps) (simp add: expanded_def flooded_def)
    next
      case (Inr st)
      obtain m' c' q' where st: "st = (m', c', q')" by (cases st)
      note s = step [unfolded Inr st expanded_def sum.case prod.case]
      have "\<forall>w\<in>m' - set q'. \<forall>v. adjacent (x_size b) w v \<and> colors b v = C_EMPTY \<longrightarrow> v \<in> m'"
      proof (intro ballI allI impI)
        fix w v assume w: "w \<in> m' - set q'" and v: "adjacent (x_size b) w v \<and> colors b v = C_EMPTY"
        have q: "set q' = set rest \<union> (m' - marks)" "marks \<subseteq> m'" using s by blast+
        show "v \<in> m'"
        proof (cases "w = u")
          case True
          then show ?thesis using s v by (simp add: adjacent_def)
        next
          case False
          then have "w \<in> marks - set queue" using w q Cons by auto
          then show ?thesis using less.prems(3) v q(2) by blast
        qed
      qed
      moreover have "set rest \<subseteq> marks" using less.prems(2) Cons by simp
      then have "set q' \<subseteq> m'" using s by blast
      moreover have "card (T - m') + length q' < card (T - marks) + length queue" using s Cons by simp
      ultimately have "\<exists>r. count_loop b bound m' c' q' = Some r \<and> flooded b c0 T bound m' r"
        using conjunct1 [OF conjunct2 [OF s]] conjunct1 [OF conjunct2 [OF conjunct2 [OF s]]]
          conjunct1 [OF conjunct2 [OF conjunct2 [OF conjunct2 [OF s]]]]
        by (intro less.hyps)
      moreover have "count_loop b bound marks count queue = count_loop b bound m' c' q'"
        using Cons Inr st by (subst count_loop.simps) simp
      ultimately show ?thesis using flooded_mono [OF _ conjunct1 [OF s]] by auto
    qed
  qed
qed

text \<open>
  \<open>countEmptyHelper\<close> between calls: the marks are closed, and their number is counted. It adds the
  region of the point it is given.
\<close>

definition counted :: "board \<Rightarrow> int \<Rightarrow> int \<Rightarrow> loc set \<times> int \<Rightarrow> bool" where
  "counted b c0 bound = (\<lambda>(marks, count). finite marks \<and> empty_closed b marks \<and>
     count = c0 + int (card marks) \<and> count \<le> bound)"

lemma countEmptyHelper_adds:
  assumes g: "geom_ok b" and l: "colors b l = C_EMPTY" and c: "counted b c0 bound (marks, count)"
  shows "\<exists>r. countEmptyHelper b l bound (marks, count) = Some r \<and> (case r of
      Inl c \<Rightarrow> too_many c0 (marks \<union> empty_region b l) bound
    | Inr (marks', count') \<Rightarrow> marks' = marks \<union> empty_region b l \<and> counted b c0 bound (marks', count'))"
proof -
  let ?R = "empty_region b l" let ?T = "marks \<union> ?R"
  have fin: "finite marks" and cl: "empty_closed b marks" and n: "count = c0 + int (card marks)" "count \<le> bound"
    using c by (auto simp: counted_def)
  have lR: "l \<in> ?R" by (simp add: empty_region_def reach_refl)
  have finT: "finite ?T" using fin finite_empty_region [OF g l] by simp
  have clT: "empty_closed b ?T"
    using cl empty_region_closed [OF l] unfolding empty_closed_def by blast
  have least: "?R \<subseteq> S" if "l \<in> S" "empty_closed b S" for S
    unfolding empty_region_def
    by (rule reach_least [OF that(1)]) (use that(2) in \<open>auto simp: empty_closed_def adjacent_def\<close>)
  show ?thesis
  proof (cases "l \<in> marks")
    case True
    then have "?T = marks" using least [OF True cl] by blast
    then show ?thesis using True c by (auto simp: countEmptyHelper_def)
  next
    case False
    have cm: "card (insert l marks) = card marks + 1" using False fin by simp
    show ?thesis
    proof (cases "count + 1 > bound")
      case over: True
      have "card (insert l marks) \<le> card ?T" by (rule card_mono [OF finT]) (use lR in auto)
      then have "too_many c0 ?T bound" using over n cm by (simp add: too_many_def)
      then show ?thesis using False over by (auto simp: countEmptyHelper_def Let_def)
    next
      case under: False
      have "\<exists>r. count_loop b bound (insert l marks) (count + 1) [l] = Some r \<and> flooded b c0 ?T bound (insert l marks) r"
        by (rule count_loop_returns [OF finT clT]) (use lR cl cm n under in \<open>auto simp: empty_closed_def\<close>)
      then obtain r where r: "count_loop b bound (insert l marks) (count + 1) [l] = Some r"
        "flooded b c0 ?T bound (insert l marks) r" by blast
      have h: "countEmptyHelper b l bound (marks, count) = Some r"
        using False under r(1) by (simp add: countEmptyHelper_def Let_def)
      show ?thesis
      proof (cases r)
        case (Inl c)
        then show ?thesis using h r(2) by (simp add: flooded_def)
      next
        case (Inr st)
        obtain m' c' where st: "st = (m', c')" by (cases st)
        have m: "insert l marks \<subseteq> m'" "m' \<subseteq> ?T" "empty_closed b m'" "c' = c0 + int (card m')" "c' \<le> bound"
          using r(2) by (auto simp: Inr st flooded_def)
        have "m' = ?T" using m least [of m'] by blast
        moreover have "finite m'" using finite_subset [OF m(2) finT] .
        ultimately show ?thesis using h m by (auto simp: Inr st counted_def)
      qed
    qed
  qed
qed

section \<open>The walk around a chain\<close>

definition regions :: "board \<Rightarrow> loc set \<Rightarrow> loc set" where
  "regions b A = (\<Union>a\<in>{a\<in>A. colors b a = C_EMPTY}. empty_region b a)"

lemma regions_insert:
  "regions b (insert a A) = (if colors b a = C_EMPTY then empty_region b a \<union> regions b A else regions b A)"
  by (auto simp: regions_def)

lemma regions_Un: "regions b (A \<union> B) = regions b A \<union> regions b B"
  by (auto simp: regions_def)

lemma finite_touched:
  assumes "geom_ok b"
  shows "finite (regions b A)"
proof (rule finite_subset [OF _ finite_on_board])
  show "regions b A \<subseteq> {m. on_board (x_size b) (y_size b) m}"
  proof
    fix x assume "x \<in> regions b A"
    then obtain a where "colors b a = C_EMPTY" "x \<in> empty_region b a" by (auto simp: regions_def)
    then show "x \<in> {m. on_board (x_size b) (y_size b) m}"
      using empty_region_empty [of b a x] geom_empty_on_board [OF assms, of x] by simp
  qed
qed

lemma too_many_mono: "too_many c0 S bound \<Longrightarrow> S \<subseteq> T \<Longrightarrow> finite T \<Longrightarrow> too_many c0 T bound"
  using card_mono [of T S] by (simp add: too_many_def)

lemma count_around:
  assumes g: "geom_ok b" and c: "counted b c0 bound st"
  shows "\<exists>r. foldRM (\<lambda>lib st. if colors b lib = C_EMPTY then countEmptyHelper b lib bound st else Some (Inr st)) as st = Some r \<and>
    (case r of Inl c \<Rightarrow> too_many c0 (fst st \<union> regions b (set as)) bound
     | Inr st' \<Rightarrow> fst st' = fst st \<union> regions b (set as) \<and> counted b c0 bound st')"
  using c
proof (induction as arbitrary: st)
  case Nil
  then show ?case by (simp add: regions_def)
next
  case (Cons a as)
  let ?f = "\<lambda>lib st. if colors b lib = C_EMPTY then countEmptyHelper b lib bound st else Some (Inr st)"
  obtain m n where st: "st = (m, n)" by (cases st)
  show ?case
  proof (cases "colors b a = C_EMPTY")
    case False
    then have eq: "regions b (set (a # as)) = regions b (set as)" by (simp add: regions_insert)
    show ?thesis using Cons.IH [OF Cons.prems] False unfolding eq by simp
  next
    case True
    have fin: "finite (m \<union> regions b A)" for A
      using Cons.prems finite_touched [OF g] by (simp add: st counted_def)
    obtain r where r: "countEmptyHelper b a bound (m, n) = Some r"
      "case r of Inl c \<Rightarrow> too_many c0 (m \<union> empty_region b a) bound
       | Inr (m', n') \<Rightarrow> m' = m \<union> empty_region b a \<and> counted b c0 bound (m', n')"
      using countEmptyHelper_adds [OF g True, of c0 bound m n] Cons.prems st by blast
    show ?thesis
    proof (cases r)
      case (Inl c)
      have "too_many c0 (m \<union> regions b (set (a # as))) bound"
        by (rule too_many_mono [OF _ _ fin, where S = "m \<union> empty_region b a"])
          (use r(2) True in \<open>auto simp: Inl regions_insert\<close>)
      then show ?thesis using r(1) True by (simp add: st Inl)
    next
      case (Inr st1)
      obtain m1 n1 where st1: "st1 = (m1, n1)" by (cases st1)
      have m1: "m1 = m \<union> empty_region b a" "counted b c0 bound (m1, n1)" using r(2) by (auto simp add: Inr st1)
      then have eq: "fst (m1, n1) \<union> regions b (set as) = fst st \<union> regions b (set (a # as))"
        using True by (auto simp: st regions_insert)
      show ?thesis
        using Cons.IH [OF m1(2), unfolded eq] r(1) True by (simp only: foldRM.simps st Inr st1) simp
    qed
  qed
qed

lemma repetition_walk_path:
  assumes g: "geom_ok b" and "counted b c0 bound st"
    and "path (next_in_chain b) cur (cur # xs) loc" "loc \<notin> set xs"
  shows "repetition_walk b loc bound cur st =
    Some (too_many c0 (fst st \<union> regions b (\<Union>m\<in>set (cur # xs). {a. adjacent (x_size b) m a})) bound)"
  using assms(2-)
proof (induction xs arbitrary: cur st)
  case Nil
  let ?A = "{a. adjacent (x_size b) cur a}"
  have s: "set (adj4 b cur) = ?A" using adj4_adjs [OF g] by (simp add: set_adjs)
  obtain r where r: "foldRM (\<lambda>lib st. if colors b lib = C_EMPTY then countEmptyHelper b lib bound st else Some (Inr st)) (adj4 b cur) st = Some r"
    "case r of Inl c \<Rightarrow> too_many c0 (fst st \<union> regions b ?A) bound
     | Inr st' \<Rightarrow> fst st' = fst st \<union> regions b ?A \<and> counted b c0 bound st'"
    using count_around [OF g Nil.prems(1), of "adj4 b cur"] unfolding s by blast
  have "too_many c0 (fst st \<union> regions b ?A) bound \<longleftrightarrow> (case r of Inl c \<Rightarrow> True | Inr st \<Rightarrow> False)"
    using r(2) by (cases r) (auto simp: counted_def too_many_def)
  then show ?case
    using r(1) Nil.prems(2) by (subst repetition_walk.simps) (cases r; simp)
next
  case (Cons x xs)
  let ?A = "{a. adjacent (x_size b) cur a}" let ?B = "\<Union>m\<in>set (x # xs). {a. adjacent (x_size b) m a}"
  have s: "set (adj4 b cur) = ?A" using adj4_adjs [OF g] by (simp add: set_adjs)
  have all: "(\<Union>m\<in>set (cur # x # xs). {a. adjacent (x_size b) m a}) = ?A \<union> ?B" by simp
  obtain r where r: "foldRM (\<lambda>lib st. if colors b lib = C_EMPTY then countEmptyHelper b lib bound st else Some (Inr st)) (adj4 b cur) st = Some r"
    "case r of Inl c \<Rightarrow> too_many c0 (fst st \<union> regions b ?A) bound
     | Inr st' \<Rightarrow> fst st' = fst st \<union> regions b ?A \<and> counted b c0 bound st'"
    using count_around [OF g Cons.prems(1), of "adj4 b cur"] unfolding s by blast
  have nx: "next_in_chain b cur = x" "x \<noteq> loc" "path (next_in_chain b) x (x # xs) loc" "loc \<notin> set xs"
    using Cons.prems(2,3) by auto
  show ?case
  proof (cases r)
    case (Inl c)
    have "finite (fst st \<union> regions b (?A \<union> ?B))"
      using Cons.prems(1) finite_touched [OF g] by (auto simp: counted_def split: prod.splits)
    then have "too_many c0 (fst st \<union> regions b (?A \<union> ?B)) bound"
    proof (rule too_many_mono [rotated 2])
      show "too_many c0 (fst st \<union> regions b ?A) bound" using r(2) by (simp add: Inl)
    qed (unfold regions_Un, blast)
    then show ?thesis using r(1) unfolding all by (subst repetition_walk.simps) (simp add: Inl)
  next
    case (Inr st')
    have st': "fst st' = fst st \<union> regions b ?A" "counted b c0 bound st'" using r(2) by (simp_all add: Inr)
    have "repetition_walk b loc bound cur st = repetition_walk b loc bound x st'"
      using r(1) nx by (subst repetition_walk.simps) (simp add: Inr)
    then show ?thesis
      using Cons.IH [OF st'(2) nx(3,4)] unfolding all st'(1) regions_Un by (simp add: Un_assoc)
  qed
qed

section \<open>The whole question\<close>

text \<open>The stones of the group at a point, plus the points of the empty regions it touches.\<close>

definition repetition_sum :: "board \<Rightarrow> loc \<Rightarrow> int" where
  "repetition_sum b loc =
     (if colors b loc = C_EMPTY then int (card (empty_region b loc))
      else let G = group (x_size b) (colors b) loc
           in int (card G) + int (card (regions b (\<Union>m\<in>G. {a. adjacent (x_size b) m a}))))"

lemma simpleRepetitionBoundGt_eq:
  assumes wf: "wf_board Z b" and on: "on_board (x_size b) (y_size b) loc"
  shows "simpleRepetitionBoundGt b loc bound = Some (repetition_sum b loc > bound)"
proof -
  have core: "core Z (\<lambda>_. 0) {} b" using wf by (simp add: wf_board_def)
  then have g: "geom_ok b" and c: "chains_ok b (\<lambda>_. 0)" and mx: "max_ok b {}" by (simp_all add: core_def)
  have np: "loc \<noteq> NULL_LOC" "loc \<noteq> PASS_LOC" using on_board_in_array [OF wf on] by auto
  show ?thesis
  proof (cases "colors b loc = C_EMPTY")
    case True
    have fin: "finite (empty_region b loc)" by (rule finite_empty_region [OF g True])
    have "loc \<in> empty_region b loc" by (simp add: empty_region_def reach_refl)
    then have pos: "0 < card (empty_region b loc)" using fin card_gt_0_iff by blast
    show ?thesis
    proof (cases "bound < 0")
      case True
      have "countEmptyHelper b loc bound ({}, 0) = Some (Inl 1)" using True by (simp add: countEmptyHelper_def)
      then show ?thesis
        using True \<open>colors b loc = C_EMPTY\<close> np pos by (simp add: simpleRepetitionBoundGt_def repetition_sum_def)
    next
      case False
      then have "counted b 0 bound ({}, 0)" by (simp add: counted_def empty_closed_def)
      from countEmptyHelper_adds [OF g True this] obtain r where r: "countEmptyHelper b loc bound ({}, 0) = Some r"
        "case r of Inl c \<Rightarrow> too_many 0 ({} \<union> empty_region b loc) bound
         | Inr (m', n') \<Rightarrow> m' = {} \<union> empty_region b loc \<and> counted b 0 bound (m', n')" by blast
      then have "(case r of Inl _ \<Rightarrow> True | Inr _ \<Rightarrow> False) \<longleftrightarrow> int (card (empty_region b loc)) > bound"
        by (cases r) (auto simp: too_many_def counted_def)
      then show ?thesis using r(1) np True by (simp add: simpleRepetitionBoundGt_def repetition_sum_def)
    qed
  next
    case False
    then have s: "is_stone (colors b loc)"
      using geom_wall [OF g, of loc] on by (cases "colors b loc") simp_all
    let ?h = "chain_head b loc" let ?C = "chain_of b ?h" let ?N = "\<Union>m\<in>?C. {a. adjacent (x_size b) m a}"
    have ok: "chain_ok b 0 ?h" by (rule chains_ok_chain [OF c chains_ok_head [OF c s]])
    have n: "num_locs (chain_data b ?h) = int (card ?C)" "num_liberties (chain_data b ?h) = int (card (libs_of b ?C))"
      using ok by (simp_all add: chain_ok_def)
    have grp: "group (x_size b) (colors b) loc = ?C"
      by (rule chain_group [OF c s]) (use mx s in \<open>auto simp: max_ok_def\<close>)
    have sum: "repetition_sum b loc = int (card ?C) + int (card (regions b ?N))"
      using False by (simp add: repetition_sum_def grp Let_def)
    have "libs_of b ?C \<subseteq> regions b ?N"
    proof
      fix e assume "e \<in> libs_of b ?C"
      then show "e \<in> regions b ?N"
        by (auto simp: libs_of_def regions_def empty_region_def reach_refl intro!: exI [of _ e])
    qed
    then have le: "card (libs_of b ?C) \<le> card (regions b ?N)" by (rule card_mono [OF finite_touched [OF g]])
    show ?thesis
    proof (cases "int (card ?C) + int (card (libs_of b ?C)) > bound")
      case True
      then show ?thesis using False np le by (simp add: simpleRepetitionBoundGt_def n sum)
    next
      case under: False
      then have "counted b (int (card ?C)) bound ({}, int (card ?C))" by (simp add: counted_def empty_closed_def)
      moreover obtain ps where ps: "ring (next_in_chain b) loc ps" "set (loc # ps) = ?C"
        using chain_ring [OF c s] by blast
      ultimately have "repetition_walk b loc bound loc ({}, int (card ?C)) =
          Some (too_many (int (card ?C)) (fst ({} :: loc set, int (card ?C)) \<union> regions b (\<Union>m\<in>set (loc # ps). {a. adjacent (x_size b) m a})) bound)"
        by (intro repetition_walk_path [OF g]) (auto simp: ring_def)
      then show ?thesis
        unfolding ps(2) using False under np by (simp add: simpleRepetitionBoundGt_def n sum too_many_def)
    qed
  qed
qed

end
