(* ===== verification/ChainProps.thy ===== *)
theory ChainProps
  imports Undo RepBound Demo
begin

text \<open>
  The properties of undoing moves, of building chains from colours and of the repetition bound,
  with instances on small boards.
\<close>

section \<open>Undoing\<close>

text \<open>A stack of records, the last move first, as a search keeps it while it explores.\<close>

fun record_all :: "zobrist \<Rightarrow> (loc \<times> player) list \<Rightarrow> board \<Rightarrow> (board \<times> MoveRecord list) option" where
  "record_all Z [] b = Some (b, [])"
| "record_all Z ((loc, pla) # ms) b =
     (if is_stone pla \<and> (loc = PASS_LOC \<or> colors b loc = C_EMPTY)
      then Option.bind (playMoveRecorded Z loc pla b) (\<lambda>(b, record).
             Option.bind (record_all Z ms b) (\<lambda>(b, records). Some (b, records @ [record])))
      else None)"

lemma undo_pass: "undo Z (move_record b PASS_LOC p) b' = Some (b'\<lparr>ko_loc := ko_loc b\<rparr>)"
  by (simp add: undo_stages Let_def)

lemma record_all_step:
  assumes "record_all Z ((loc, p) # ms) b = Some (b', rs)"
  obtains b1 rs' where "is_stone p" "loc = PASS_LOC \<or> colors b loc = C_EMPTY"
    "playMoveAssumeLegal Z loc p b = Some b1" "record_all Z ms b1 = Some (b', rs')" "rs = rs' @ [move_record b loc p]"
  using assms by (auto simp: playMoveRecorded_eq split: if_splits bind_splits)

text \<open>
  C35: Taking moves back restores the position. Any sequence of moves on empty points or
  passes, captures and multi-stone suicides included, is undone by \<open>Board::undo\<close> with its records
  in reverse order: the calls return, and the size, the colours, the simple ko point, both capture
  counts and the position hash are those of the start, on a well-formed board. (The chains may have
  other heads, so the board need not be the same object.)
\<close>

theorem undo_restores:
  assumes "wf_board Z b" and "record_all Z ms b = Some (b', records)"
  shows "\<exists>b''. foldM (undo Z) records b' = Some b'' \<and> wf_board Z b'' \<and>
    x_size b'' = x_size b \<and> y_size b'' = y_size b \<and> colors b'' = colors b \<and> ko_loc b'' = ko_loc b \<and>
    numBlackCaptures b'' = numBlackCaptures b \<and> numWhiteCaptures b'' = numWhiteCaptures b \<and> pos_hash b'' = pos_hash b"
  using assms
proof (induction ms arbitrary: b records)
  case Nil
  then show ?case by auto
next
  case (Cons m ms)
  obtain loc p where m: "m = (loc, p)" by (cases m)
  obtain b1 rs where r: "is_stone p" "loc = PASS_LOC \<or> colors b loc = C_EMPTY"
    "playMoveAssumeLegal Z loc p b = Some b1" "record_all Z ms b1 = Some (b', rs)" "records = rs @ [move_record b loc p]"
    using record_all_step Cons.prems(2) unfolding m by blast
  have wf1: "wf_board Z b1"
  proof (cases "loc = PASS_LOC")
    case True
    then show ?thesis using r(3) wf_clear_ko [OF Cons.prems(1)] by (simp add: playMoveAssumeLegal_def)
  next
    case False
    then show ?thesis using played [OF move_atI [OF Cons.prems(1) _ r(1)], of loc] r(2,3) by auto
  qed
  obtain c where c: "foldM (undo Z) rs b' = Some c" "wf_board Z c" "looks_like b1 c"
    using Cons.IH [OF wf1 r(4)] by (auto simp: looks_like_def)
  have "\<exists>d. undo Z (move_record b loc p) c = Some d \<and> wf_board Z d \<and> looks_like b d \<and> ko_loc d = ko_loc b"
  proof (cases "loc = PASS_LOC")
    case True
    let ?d = "c\<lparr>ko_loc := ko_loc b\<rparr>"
    have l: "looks_like b ?d" using c(3) r(3) True by (auto simp add: looks_like_def playMoveAssumeLegal_def)
    have "ko_ok ?d" using Cons.prems(1) l by (simp add: wf_board_def ko_ok_def looks_like_def)
    then have "wf_board Z ?d" by (intro wf_board_cong [OF _ _ _ _ _ _ _ _ _ c(2)]) simp_all
    then show ?thesis using l True by (simp add: undo_pass)
  next
    case False
    then have "move_at Z b loc p" using move_atI [OF Cons.prems(1) _ r(1)] r(2) by blast
    from undo_spec [OF Cons.prems(1) this r(3) c(3)] c(2) show ?thesis by (simp add: wf_board_def)
  qed
  then show ?case using c(1) by (auto simp: r(5) foldM_append looks_like_def)
qed

text \<open>On a 3x3 board Black takes the white corner stone, White passes, Black fills the corner.\<close>

definition taken_corner :: board where
  "taken_corner = demo 3 [(5, C_WHITE), (6, C_BLACK)]"

theorem undo_restores_witness:
  "\<exists>b' records b''. record_all demo_zobrist [(9, C_BLACK), (PASS_LOC, C_WHITE), (5, C_BLACK)] taken_corner = Some (b', records) \<and>
    (colors b' 5, numWhiteCaptures b') = (C_BLACK, 1) \<and> foldM (undo demo_zobrist) records b' = Some b'' \<and>
    colors b'' = colors taken_corner \<and> numWhiteCaptures b'' = numWhiteCaptures taken_corner"
proof -
  have "map_option (\<lambda>(b, _). (colors b 5, numWhiteCaptures b))
      (record_all demo_zobrist [(9, C_BLACK), (PASS_LOC, C_WHITE), (5, C_BLACK)] taken_corner) = Some (C_BLACK, 1)"
    by code_simp
  then obtain b' records where r: "record_all demo_zobrist [(9, C_BLACK), (PASS_LOC, C_WHITE), (5, C_BLACK)] taken_corner = Some (b', records)"
    "(colors b' 5, numWhiteCaptures b') = (C_BLACK, 1)" by auto
  have "wf_board demo_zobrist taken_corner" by (simp add: taken_corner_def demo_wf)
  from undo_restores [OF this r(1)] r show ?thesis by blast
qed

section \<open>Chains from colours\<close>

text \<open>
  C36: \<open>Board::setStonesTolerant\<close> needs nothing but the walls and the colours of the board: whatever
  the chains, counts and hash held before, it returns a well-formed board whose colours are the
  old ones with the placements applied in order (those off the board or of no stone's colour and not
  empty are ignored) and then with all stones of groups without liberties removed at once; it
  returns their number and clears the ko point. The capture counts stay.
\<close>

theorem setStonesTolerant_exact:
  fixes placements :: "Move list"
  assumes "geom_ok b"
  shows "let c = apply_stones (filter (placeable b) (stones_of placements)) (colors b);
             dead = {l. is_stone (c l) \<and> \<not> has_liberty (x_size b) c l}
         in \<exists>b'. setStonesTolerant Z placements b = Some (b', int (card dead)) \<and> wf_board Z b' \<and>
              colors b' = (\<lambda>l. if l \<in> dead then C_EMPTY else c l) \<and>
              x_size b' = x_size b \<and> y_size b' = y_size b \<and> ko_loc b' = NULL_LOC \<and>
              numBlackCaptures b' = numBlackCaptures b \<and> numWhiteCaptures b' = numWhiteCaptures b"
proof -
  have "settle xs c = (\<lambda>l. if l \<in> {l. is_stone (c l) \<and> \<not> has_liberty xs c l} then C_EMPTY else c l)" for xs c
    by (simp add: settle_def)
  then show ?thesis using setStonesTolerant_spec [OF assms, of Z placements] by (simp add: Let_def)
qed

text \<open>On a 1x2 board two touching stones of opposite colours have no liberties: both go.\<close>

definition narrow :: board where
  "narrow = (case Board_init demo_zobrist blank_board 2 1 of Inr b \<Rightarrow> b | Inl _ \<Rightarrow> blank_board)"

definition narrow_stones :: "Move list" where
  "narrow_stones = [\<lparr>mv_loc = 4, mv_pla = C_BLACK\<rparr>, \<lparr>mv_loc = 5, mv_pla = C_WHITE\<rparr>, \<lparr>mv_loc = 0, mv_pla = C_WHITE\<rparr>]"

theorem setStonesTolerant_exact_witness:
  "\<exists>b' n. setStonesTolerant demo_zobrist narrow_stones narrow = Some (b', n) \<and> wf_board demo_zobrist b' \<and>
    map_option snd (setStonesTolerant demo_zobrist narrow_stones narrow) = Some 2"
proof -
  have "Board_init demo_zobrist blank_board 2 1 = Inr narrow"
    using Board_init_ok [of demo_zobrist blank_board 2 1] by (auto simp: narrow_def MAX_LEN_def)
  then have "wf_board demo_zobrist narrow" by (rule Board_init_wf)
  then have "geom_ok narrow" by (simp add: wf_board_def core_def)
  moreover have "map_option snd (setStonesTolerant demo_zobrist narrow_stones narrow) = Some 2" by code_simp
  ultimately show ?thesis
    using setStonesTolerant_exact [of narrow narrow_stones demo_zobrist] by (auto simp: Let_def)
qed

section \<open>The repetition bound\<close>

text \<open>
  C37: \<open>Board::simpleRepetitionBoundGt\<close> terminates with the exact answer at every point of a
  well-formed board and for every bound, negative ones included: whether the number of stones of
  the group there plus the number of points of all empty regions the group touches (each region
  once) exceeds the bound; at an empty point, whether its region does.
\<close>

theorem repetition_bound_exact:
  assumes "wf_board Z b" and "on_board (x_size b) (y_size b) loc"
  shows "simpleRepetitionBoundGt b loc bound = Some (repetition_sum b loc > bound)"
  by (rule simpleRepetitionBoundGt_eq [OF assms])

theorem repetition_bound_exact_witness:
  "simpleRepetitionBoundGt taken_corner 6 7 = Some (repetition_sum taken_corner 6 > 7) \<and>
   repetition_sum taken_corner 6 = 8"
proof -
  have wf: "wf_board demo_zobrist taken_corner" by (simp add: taken_corner_def demo_wf)
  have on: "on_board (x_size taken_corner) (y_size taken_corner) 6" by code_simp
  note at = repetition_bound_exact [OF wf on]
  have "simpleRepetitionBoundGt taken_corner 6 7 = Some True" "simpleRepetitionBoundGt taken_corner 6 8 = Some False"
    by code_simp+
  then show ?thesis using at [of 7] at [of 8] by simp
qed

end
