(* ===== verification/LadderRuns.thy ===== *)
theory LadderRuns
  imports Undo BoardCheck
begin

text \<open>
  The questions the ladder search asks always have an answer on a consistent board: the walks along
  chains end, and the lists of moves stay inside the buffer, which only grows.
\<close>

section \<open>Walks that may stop early\<close>

lemma walk_chain_some:
  assumes "path nx cur (cur # xs) start" "start \<notin> set xs"
  shows "\<exists>r. walk_chain (\<lambda>_. nx) body start cur s = Some r"
  using assms
proof (induction xs arbitrary: cur s)
  case Nil
  then show ?case by (subst walk_chain.simps) (auto split: sum.split)
next
  case (Cons x xs)
  from Cons.prems(1) have x: "nx cur = x" and p: "path nx x (x # xs) start" by auto
  from Cons.prems(2) have "x \<noteq> start" and st: "start \<notin> set xs" by auto
  then show ?case
    using Cons.IH [OF p st] x by (subst walk_chain.simps) (auto split: sum.split)
qed

lemma walk_chain_stone:
  assumes "chains_ok b off" "is_stone (colors b l)"
  shows "\<exists>r. walk_chain (\<lambda>_. next_in_chain b) body l l s = Some r"
proof -
  obtain ps where "ring (next_in_chain b) l ps" using chain_ring [OF assms] by blast
  then show ?thesis by (intro walk_chain_some) (auto simp: ring_def)
qed

lemma foldRM_some:
  assumes "\<And>x s. x \<in> set xs \<Longrightarrow> \<exists>r. f x s = Some r"
  shows "\<exists>r. foldRM f xs s = Some r"
  using assms
proof (induction xs arbitrary: s)
  case (Cons x xs)
  obtain r where r: "f x s = Some r" using Cons.prems [of x s] by auto
  show ?case
  proof (cases r)
    case (Inr t)
    then show ?thesis using r Cons.IH [of t] Cons.prems by auto
  qed (use r in simp)
qed simp

lemma bind_some: "\<exists>r. m = Some r \<Longrightarrow> (\<And>r. \<exists>v. f r = Some v) \<Longrightarrow> \<exists>v. Option.bind m f = Some v"
  by auto

lemma hasLibertyGainingCaptures_returns:
  assumes "chains_ok b off" "is_stone (colors b l)"
  shows "\<exists>v. hasLibertyGainingCaptures b l = Some v"
  unfolding hasLibertyGainingCaptures_def Let_def by (intro bind_some walk_chain_stone [OF assms]) simp

lemma getNumLibertiesAfterPlay_returns:
  assumes c: "chains_ok b off" and p: "is_stone p"
  shows "\<exists>n. getNumLibertiesAfterPlay b l p mx = Some n"
proof -
  have *: "\<exists>n. (case foldRM (\<lambda>adj (libs, cn). if colors b adj = p then
        (if chain_head b adj \<in> set cn then Some (Inr (libs, cn))
         else Option.bind (walk_chain (\<lambda>_. next_in_chain b) (body libs) adj adj libs)
                (\<lambda>v. Some (case v of Inl r \<Rightarrow> Inl r | Inr libs' \<Rightarrow> Inr (libs', cn @ [chain_head b adj]))))
        else Some (Inr (libs, cn))) as st of
      None \<Rightarrow> None | Some (Inl r) \<Rightarrow> Some r | Some (Inr (libs, cn)) \<Rightarrow> Some (int (length libs))) = Some n"
    for body :: "loc list \<Rightarrow> loc \<Rightarrow> loc list \<Rightarrow> int + loc list" and as st
  proof -
    have "\<exists>r. foldRM (\<lambda>adj (libs, cn). if colors b adj = p then
        (if chain_head b adj \<in> set cn then Some (Inr (libs, cn))
         else Option.bind (walk_chain (\<lambda>_. next_in_chain b) (body libs) adj adj libs)
                (\<lambda>v. Some (case v of Inl r \<Rightarrow> Inl r | Inr libs' \<Rightarrow> Inr (libs', cn @ [chain_head b adj]))))
        else Some (Inr (libs, cn))) as st = Some r"
    proof (rule foldRM_some)
      fix a and s :: "loc list \<times> loc list"
      obtain libs cn where s: "s = (libs, cn)" by (cases s)
      obtain w where "walk_chain (\<lambda>_. next_in_chain b) (body libs) a a libs = Some w" if "colors b a = p"
        using walk_chain_stone [OF c, of a "body libs" libs] p by auto
      then show "\<exists>r. (case s of (libs, cn) \<Rightarrow> if colors b a = p then
          (if chain_head b a \<in> set cn then Some (Inr (libs, cn))
           else Option.bind (walk_chain (\<lambda>_. next_in_chain b) (body libs) a a libs)
                  (\<lambda>v. Some (case v of Inl r \<Rightarrow> Inl r | Inr libs' \<Rightarrow> Inr (libs', cn @ [chain_head b a]))))
          else Some (Inr (libs, cn))) = Some r"
        unfolding s by (cases "colors b a = p") auto
    qed
    then show ?thesis by (auto split: sum.split)
  qed
  show ?thesis
    unfolding getNumLibertiesAfterPlay_def Let_def by (auto split: sum.split intro: *)
qed

section \<open>Lists of moves in the buffer\<close>

text \<open>\<open>n\<close> entries from \<open>k\<close> on lie inside the buffer.\<close>

definition inside :: "int \<Rightarrow> loc list \<times> int \<Rightarrow> bool" where
  "inside k = (\<lambda>(buf, n). 0 \<le> n \<and> k + n \<le> int (length buf))"

lemma length_buf_put: "length buf \<le> length (buf_put i v buf)" "0 \<le> i \<Longrightarrow> i \<le> int (length buf) \<Longrightarrow> i < int (length (buf_put i v buf))"
  by (auto simp: buf_put_def Let_def)

lemma findLiberties_adj_inside:
  assumes "inside k st" "0 \<le> k"
  shows "inside k (findLiberties_adj b s k lib st) \<and> length (fst st) \<le> length (fst (findLiberties_adj b s k lib st))"
proof -
  obtain buf n where st: "st = (buf, n)" by (cases st)
  have n: "0 \<le> k + n" "k + n \<le> int (length buf)" "0 \<le> n" using assms by (auto simp: st inside_def)
  from length_buf_put(2) [OF n(1,2), of lib] n length_buf_put(1) [of buf "k + n" lib]
  show ?thesis by (auto simp: st inside_def findLiberties_adj_def Let_def)
qed

lemma fold_inside:
  assumes "\<And>x st. inside k st \<Longrightarrow> inside k (f x st) \<and> length (fst st) \<le> length (fst (f x st))" "inside k st"
  shows "inside k (fold f xs st) \<and> length (fst st) \<le> length (fst (fold f xs st))"
  using assms(2)
proof (induction xs arbitrary: st)
  case (Cons x xs)
  note 1 = assms(1) [OF Cons.prems, of x]
  then show ?case using Cons.IH [of "f x st"] order_trans by fastforce
qed simp

lemma findLiberties_returns:
  assumes "chains_ok b off" "is_stone (colors b l)" "0 \<le> k" "k \<le> int (length buf)"
  shows "\<exists>buf' n. findLiberties b l buf s k = Some (buf', n) \<and> inside k (buf', n) \<and> length buf \<le> length buf'"
proof -
  obtain ps where r: "ring (next_in_chain b) l ps" using chain_ring [OF assms(1,2)] by blast
  let ?body = "\<lambda>cur st. fold (findLiberties_adj b s k) (adj4 b cur) st"
  have w: "findLiberties b l buf s k = Some (fold ?body (l # ps) (buf, 0))"
    unfolding findLiberties_def by (rule walk_all_ring [OF r, where I = "\<lambda>_. True"]) simp_all
  have "inside k (fold ?body (l # ps) (buf, 0)) \<and> length (fst (buf, 0 :: int)) \<le> length (fst (fold ?body (l # ps) (buf, 0)))"
    by (intro fold_inside findLiberties_adj_inside) (use assms(3,4) in \<open>auto simp: inside_def\<close>)
  then show ?thesis using w by (cases "fold ?body (l # ps) (buf, 0)") auto
qed

definition grown :: "int \<Rightarrow> loc list \<Rightarrow> loc list \<times> int \<Rightarrow> bool" where
  "grown k buf st \<longleftrightarrow> inside k st \<and> length buf \<le> length (fst st)"

lemma gaining_adj_returns:
  assumes "chains_ok b off" "is_stone opp" "0 \<le> k" "grown k buf0 (buf, n)"
  shows "\<exists>buf' n' hs'. gaining_adj b opp s k a (buf, n, hs) = Some (buf', n', hs') \<and> grown k buf0 (buf', n')"
proof (cases "colors b a = opp \<and> num_liberties (chain_data b (chain_head b a)) = 1 \<and> chain_head b a \<notin> set hs")
  case True
  have "0 \<le> k + n" "k + n \<le> int (length buf)" using assms(3,4) by (auto simp: grown_def inside_def)
  then obtain buf' m where f: "findLiberties b a buf s (k + n) = Some (buf', m)" "inside (k + n) (buf', m)"
    "length buf \<le> length buf'"
    using findLiberties_returns [OF assms(1), of a] True assms(2) by blast
  then have "grown k buf0 (buf', n + m)" using assms(4) by (auto simp: grown_def inside_def)
  then show ?thesis using True f(1) by (simp add: gaining_adj_def Let_def)
next
  case False
  then show ?thesis using assms(4) by (auto simp: gaining_adj_def Let_def)
qed

lemma gaining_walk_returns:
  assumes c: "chains_ok b off" "is_stone opp" "0 \<le> k"
    and "path (next_in_chain b) cur (cur # xs) loc" "loc \<notin> set xs" "grown k buf0 (buf, n)"
  shows "\<exists>buf' n' hs'. gaining_walk b opp s k loc cur (buf, n, hs) = Some (buf', n', hs') \<and> grown k buf0 (buf', n')"
  using assms(4-)
proof (induction xs arbitrary: cur buf n hs)
  case (Nil cur buf n hs)
  have "\<exists>t. foldM (gaining_adj b opp s k) (adj4 b cur) (buf, n, hs) = Some t \<and> grown k buf0 (fst t, fst (snd t))"
    by (rule foldM_total [where I = "\<lambda>_ t. grown k buf0 (fst t, fst (snd t))"])
      (use Nil.prems gaining_adj_returns [OF c] in \<open>fastforce+\<close>)
  then show ?case using Nil.prems(1) by (subst gaining_walk.simps) auto
next
  case (Cons x xs cur buf n hs)
  have nx: "next_in_chain b cur = x" "x \<noteq> loc" "path (next_in_chain b) x (x # xs) loc" "loc \<notin> set xs"
    using Cons.prems(1,2) by auto
  have "\<exists>t. foldM (gaining_adj b opp s k) (adj4 b cur) (buf, n, hs) = Some t \<and> grown k buf0 (fst t, fst (snd t))"
    by (rule foldM_total [where I = "\<lambda>_ t. grown k buf0 (fst t, fst (snd t))"])
      (use Cons.prems gaining_adj_returns [OF c] in \<open>fastforce+\<close>)
  then obtain buf1 n1 hs1 where t: "foldM (gaining_adj b opp s k) (adj4 b cur) (buf, n, hs) = Some (buf1, n1, hs1)"
    "grown k buf0 (buf1, n1)" by auto
  show ?case
    using Cons.IH [OF nx(3,4) t(2), of hs1] t(1) nx(1,2) by (subst gaining_walk.simps) simp
qed

lemma findLibertyGainingCaptures_returns:
  assumes c: "chains_ok b off" and l: "is_stone (colors b l)" and k: "0 \<le> k" "k \<le> int (length buf)"
  shows "\<exists>buf' n. findLibertyGainingCaptures b l buf s k = Some (buf', n) \<and> grown k buf (buf', n)"
proof -
  obtain ps where r: "ring (next_in_chain b) l ps" using chain_ring [OF c l] by blast
  have "\<exists>buf' n' hs'. gaining_walk b (getOpp (colors b l)) s k l l (buf, 0, []) = Some (buf', n', hs') \<and> grown k buf (buf', n')"
    by (rule gaining_walk_returns [OF c _ k(1), where xs = ps])
      (use l r k in \<open>auto simp: ring_def grown_def inside_def\<close>)
  then show ?thesis by (auto simp: findLibertyGainingCaptures_def)
qed

section \<open>The lists of moves of a level\<close>

text \<open>What the generators yield: a verdict, or a list inside the buffer, which only grew.\<close>

definition moves_ok :: "int \<Rightarrow> loc list \<Rightarrow> bool \<times> loc list + loc list \<times> int \<Rightarrow> bool" where
  "moves_ok start buf r \<longleftrightarrow>
     (case r of Inl (_, buf') \<Rightarrow> length buf \<le> length buf' | Inr st \<Rightarrow> grown start buf st)"

lemma defender_moves_returns:
  assumes "chains_ok b off" "is_stone (colors b l)" "0 \<le> k" "k \<le> int (length buf)"
  shows "\<exists>r. defender_moves b l p k buf = Some r \<and> moves_ok k buf r"
proof -
  obtain buf0 n0 where 0: "findLibertyGainingCaptures b l buf k k = Some (buf0, n0)" "grown k buf (buf0, n0)"
    using findLibertyGainingCaptures_returns [OF assms] by blast
  then have "0 \<le> k + n0" "k + n0 \<le> int (length buf0)" using assms(3) by (auto simp: grown_def inside_def)
  then obtain buf1 n1 where 1: "findLiberties b l buf0 k (k + n0) = Some (buf1, n1)" "inside (k + n0) (buf1, n1)"
    "length buf0 \<le> length buf1" using findLiberties_returns [OF assms(1,2)] by blast
  have g: "grown k buf (buf1, n0 + n1)" using 0(2) 1(2,3) by (auto simp: grown_def inside_def)
  obtain lo up where bd: "getBoundNumLibertiesAfterPlay b (buf_get buf1 (k + (n0 + n1) - 1)) p = (lo, up)"
    by fastforce
  show ?thesis
    unfolding defender_moves_def using 0(1) 1(1) g bd
    by (auto simp: Let_def moves_ok_def grown_def)
qed

lemma double_ko_death_returns:
  assumes "chains_ok b off" "is_stone p" "is_stone (colors b l)"
  shows "\<exists>v. double_ko_death b l p m0 m1 l0 l1 = Some v"
proof -
  obtain n0 n1 g where "getNumLibertiesAfterPlay b m0 p 3 = Some n0" "getNumLibertiesAfterPlay b m1 p 3 = Some n1"
    "hasLibertyGainingCaptures b l = Some g"
    using getNumLibertiesAfterPlay_returns [OF assms(1,2)] hasLibertyGainingCaptures_returns [OF assms(1,3)] by metis
  then show ?thesis by (simp add: double_ko_death_def Let_def ex_bool_eq)
qed

lemma attacker_moves_returns:
  assumes core: "core Z off E b" and l: "is_stone (colors b l)" and p: "is_stone p"
    and two: "card (libs_of b (chain_of b (chain_head b l))) = 2" and k: "0 \<le> k" "k \<le> int (length buf)"
  shows "\<exists>r. attacker_moves b l p k buf = Some r \<and> moves_ok k buf r"
proof -
  have c: "chains_ok b off" using core by (simp add: core_def)
  have s: "int (nat k) = k" "nat k \<le> length buf" using k by auto
  obtain buf1 where 1: "findLiberties b l buf k k = Some (buf1, 2)"
    using findLiberties_spec [OF core l s(2)] two s(1) by auto
  then have g: "grown k buf (buf1, 2)" using findLiberties_returns [OF c l k, of k] by (auto simp: grown_def)
  let ?m0 = "buf_get buf1 k" let ?m1 = "buf_get buf1 (k + 1)"
  obtain dk where dk: "double_ko_death b l p ?m0 ?m1 (getNumImmediateLiberties b ?m0) (getNumImmediateLiberties b ?m1) = Some dk"
    using double_ko_death_returns [OF c p l] by blast
  have one: "grown k buf (buf1, 1)" "grown k buf (buf_put k v buf1, 1)"
      "grown k buf (buf_put (k + 1) w (buf_put k v buf1), 2)" for v w
    using g length_buf_put(1) [of buf1 k v] length_buf_put(1) [of "buf_put k v buf1" "k + 1" w]
    by (auto simp: grown_def inside_def)
  show ?thesis
    unfolding attacker_moves_def using 1 dk g one
    by (simp add: Let_def moves_ok_def) (auto simp: grown_def)
qed

end
