(* ===== verification/LadderTotal.thy ===== *)
theory LadderTotal
  imports LadderRuns
begin

text \<open>
  The ladder search returns and leaves the board as it was. The invariant of its loop says which moves of
  the stack are on the board: those of the levels below the current one, and that of the current
  level itself while its result is being awaited.
\<close>

section \<open>Moves played and not yet undone\<close>

definition liberty_count :: "board \<Rightarrow> loc \<Rightarrow> nat" where
  "liberty_count b loc =
     card {e. colors b e = C_EMPTY \<and> (\<exists>m\<in>group (x_size b) (colors b) loc. adjacent (x_size b) m e)}"

lemma liberty_count_cong: "looks_like b b' \<Longrightarrow> liberty_count b' loc = liberty_count b loc"
  by (simp add: looks_like_def liberty_count_def)

lemma liberty_count_eq:
  assumes "core Z (\<lambda>_. 0) {} b" "is_stone (colors b loc)"
  shows "num_liberties (chain_data b (chain_head b loc)) = int (liberty_count b loc)"
    "card (libs_of b (chain_of b (chain_head b loc))) = liberty_count b loc"
proof -
  have c: "chains_ok b (\<lambda>_. 0)" and mx: "max_ok b {}" using assms(1) by (simp_all add: core_def)
  have grp: "group (x_size b) (colors b) loc = chain_of b (chain_head b loc)"
    by (rule chain_group [OF c assms(2)]) (use mx assms(2) in \<open>auto simp: max_ok_def\<close>)
  show "card (libs_of b (chain_of b (chain_head b loc))) = liberty_count b loc"
    by (simp add: liberty_count_def grp libs_of_def)
  then show "num_liberties (chain_data b (chain_head b loc)) = int (liberty_count b loc)"
    using chains_ok_chain [OF c chains_ok_head [OF c assms(2)]] by (simp add: chain_ok_def)
qed

definition same_board :: "board \<Rightarrow> board \<Rightarrow> bool" where
  "same_board b b' \<longleftrightarrow> looks_like b b' \<and> ko_loc b' = ko_loc b"

text \<open>Well formed, with a stone of the defender on the point the search is about.\<close>

definition good :: "zobrist \<Rightarrow> loc \<Rightarrow> player \<Rightarrow> board \<Rightarrow> bool" where
  "good Z loc pla b \<longleftrightarrow> wf_board Z b \<and> colors b loc = pla"

definition defends :: "bool \<Rightarrow> int \<Rightarrow> bool" where
  "defends defenderFirst i \<longleftrightarrow> (defenderFirst \<and> i mod 2 = 0) \<or> (\<not> defenderFirst \<and> i mod 2 = 1)"

definition mover :: "player \<Rightarrow> bool \<Rightarrow> int \<Rightarrow> player" where
  "mover pla defenderFirst i = (if defends defenderFirst i then pla else getOpp pla)"

fun played_from ::
  "zobrist \<Rightarrow> loc \<Rightarrow> player \<Rightarrow> bool \<Rightarrow> (int \<Rightarrow> MoveRecord) \<Rightarrow> board \<Rightarrow> nat \<Rightarrow> board \<Rightarrow> bool" where
  "played_from Z loc pla df rs root 0 b \<longleftrightarrow> good Z loc pla b \<and> same_board root b"
| "played_from Z loc pla df rs root (Suc k) b \<longleftrightarrow> good Z loc pla b \<and>
     (\<exists>c mv b1. played_from Z loc pla df rs root k c \<and> (mv = PASS_LOC \<or> colors c mv = C_EMPTY) \<and>
        playMoveAssumeLegal Z mv (mover pla df (int k)) c = Some b1 \<and>
        rs (int k) = move_record c mv (mover pla df (int k)) \<and> looks_like b1 b \<and>
        (\<not> defends df (int k) \<longrightarrow> liberty_count c loc = 2))"

lemma looks_like_trans: "looks_like a b \<Longrightarrow> looks_like b c \<Longrightarrow> looks_like a c"
  by (simp add: looks_like_def)

lemma played_from_good: "played_from Z loc pla df rs root k b \<Longrightarrow> good Z loc pla b"
  by (cases k) simp_all

lemma played_from_swap:
  "played_from Z loc pla df rs root k c \<Longrightarrow> good Z loc pla d \<Longrightarrow> same_board c d \<Longrightarrow>
   played_from Z loc pla df rs root k d"
  by (cases k) (auto simp: same_board_def intro: looks_like_trans)

lemma played_from_cong:
  "(\<And>i. 0 \<le> i \<Longrightarrow> i < int k \<Longrightarrow> rs' i = rs i) \<Longrightarrow>
   played_from Z loc pla df rs' root k b = played_from Z loc pla df rs root k b"
  by (induction k arbitrary: b) simp_all

lemma good_core: "good Z loc pla b \<Longrightarrow> core Z (\<lambda>_. 0) {} b"
  by (simp add: good_def wf_board_def)

lemma undo_record:
  assumes wf: "wf_board Z c" and p: "is_stone p" and mv: "mv = PASS_LOC \<or> colors c mv = C_EMPTY"
    and pl: "playMoveAssumeLegal Z mv p c = Some b1" and b: "wf_board Z b" "looks_like b1 b"
  shows "\<exists>d. undo Z (move_record c mv p) b = Some d \<and> wf_board Z d \<and> same_board c d"
proof (cases "mv = PASS_LOC")
  case True
  let ?d = "b\<lparr>ko_loc := ko_loc c\<rparr>"
  have l: "looks_like c ?d" using b(2) pl True by (auto simp: looks_like_def playMoveAssumeLegal_def)
  have "ko_ok ?d" using wf l by (simp add: wf_board_def ko_ok_def looks_like_def)
  then have "wf_board Z ?d" by (intro wf_board_cong [OF _ _ _ _ _ _ _ _ _ b(1)]) simp_all
  then show ?thesis using l True by (simp add: undo_stages Let_def same_board_def)
next
  case False
  then have "move_at Z c mv p" using move_atI [OF wf _ p] mv by blast
  from undo_spec [OF wf this pl b(2)] b(1) show ?thesis by (auto simp: wf_board_def same_board_def)
qed

lemma undo_played:
  assumes p: "is_stone pla" and pf: "played_from Z loc pla df rs root (Suc k) b"
  shows "\<exists>d. undo Z (rs (int k)) b = Some d \<and> played_from Z loc pla df rs root k d \<and>
    (\<not> defends df (int k) \<longrightarrow> liberty_count d loc = 2)"
proof -
  let ?p = "mover pla df (int k)"
  from pf obtain c mv b1 where g: "good Z loc pla b" and c: "played_from Z loc pla df rs root k c"
    and mv: "mv = PASS_LOC \<or> colors c mv = C_EMPTY" and pl: "playMoveAssumeLegal Z mv ?p c = Some b1"
    and rs: "rs (int k) = move_record c mv ?p" and l: "looks_like b1 b"
    and two: "\<not> defends df (int k) \<longrightarrow> liberty_count c loc = 2" by auto
  have gc: "good Z loc pla c" by (rule played_from_good [OF c])
  have "is_stone ?p" using p by (simp add: mover_def)
  then obtain d where d: "undo Z (rs (int k)) b = Some d" "wf_board Z d" "same_board c d"
    using undo_record [OF _ _ mv pl _ l] gc g rs by (auto simp: good_def)
  then have "good Z loc pla d" using gc by (simp add: good_def same_board_def looks_like_def)
  then show ?thesis
    using d played_from_swap [OF c _ d(3)] two liberty_count_cong [of c d loc] by (auto simp: same_board_def)
qed

lemma unwind_played:
  assumes p: "is_stone pla" and "played_from Z loc pla df rs root k b"
  shows "\<exists>d. foldM (\<lambda>i b. undo Z (rs i) b) (rev [0..int k - 1]) b = Some d \<and> played_from Z loc pla df rs root 0 d"
  using assms(2)
proof (induction k arbitrary: b)
  case 0
  then show ?case by simp
next
  case (Suc k)
  obtain d where d: "undo Z (rs (int k)) b = Some d" "played_from Z loc pla df rs root k d"
    using undo_played [OF p Suc.prems] by blast
  have "rev [0..int (Suc k) - 1] = int k # rev [0..int k - 1]"
    using upto_rec2 [of 0 "int k"] by simp
  then show ?case using d Suc.IH [OF d(2)] by simp
qed

text \<open>A legal move of the search leaves the defender's stone on the board.\<close>

lemma search_move_good:
  assumes g: "good Z loc pla b" and p: "is_stone pla" and leg: "isLegal b mv (mover pla df i) False"
    and two: "\<not> defends df i \<longrightarrow> liberty_count b loc = 2"
  shows "\<exists>b1. playMoveRecorded Z mv (mover pla df i) b = Some (b1, move_record b mv (mover pla df i)) \<and>
    playMoveAssumeLegal Z mv (mover pla df i) b = Some b1 \<and> good Z loc pla b1 \<and> (mv = PASS_LOC \<or> colors b mv = C_EMPTY)"
proof (cases "mv = PASS_LOC")
  case True
  then show ?thesis
    using g wf_clear_ko [of Z b] by (simp add: playMoveRecorded_eq playMoveAssumeLegal_def good_def)
next
  case False
  let ?p = "mover pla df i"
  have wf: "wf_board Z b" and col: "colors b loc = pla" using g by (simp_all add: good_def)
  from isLegal_eq [OF wf, of mv ?p False] leg False have e: "colors b mv = C_EMPTY" and sp: "is_stone ?p"
    and ns: "tt_suicided (x_size b) mv ?p (colors b) = {}" by auto
  have m: "move_at Z b mv ?p" by (rule move_atI [OF wf e sp])
  obtain b1 where b1: "playMoveAssumeLegal Z mv ?p b = Some b1" "wf_board Z b1"
    "colors b1 = tt_play (x_size b) mv ?p (colors b)" by (rule played [OF m]) blast
  have "loc \<notin> tt_captured (x_size b) mv ?p (colors b)"
  proof
    assume l: "loc \<in> tt_captured (x_size b) mv ?p (colors b)"
    then have "colors b loc = getOpp ?p" using tt_captured_opp by blast
    then have d: "\<not> defends df i" using col by (auto simp: mover_def)
    obtain a where a: "getNumLiberties b a = 1" "loc \<in> chain_of b (chain_head b a)"
      using l unfolding captured_iff_head [OF m] by blast
    have "getNumLiberties b loc = int (liberty_count b loc)"
      using liberty_count_eq(1) [OF good_core [OF g]] col p by (simp add: getNumLiberties_def)
    then show False using a d two by (simp add: getNumLiberties_def chain_of_def)
  qed
  then have "colors b1 loc = pla"
    using col e p b1(3) unfolding tt_play_eq cleared_eq [OF sp] ns by auto
  then show ?thesis using b1 e by (simp add: playMoveRecorded_eq good_def)
qed

section \<open>The invariant of the loop\<close>

definition level_ok :: "ladder \<Rightarrow> int \<Rightarrow> bool" where
  "level_ok s j \<longleftrightarrow> 0 \<le> moveListCur s j \<and> moveListCur s j < moveListLens s j \<and>
     0 \<le> moveListStarts s j \<and> moveListStarts s j + moveListLens s j \<le> int (length (ld_buf s))"

definition on_stack :: "zobrist \<Rightarrow> loc \<Rightarrow> player \<Rightarrow> bool \<Rightarrow> board \<Rightarrow> ladder \<Rightarrow> nat \<Rightarrow> bool" where
  "on_stack Z loc pla df root s k \<longleftrightarrow> played_from Z loc pla df (ld_records s) root k (ld_board s)"

definition ladder_inv :: "zobrist \<Rightarrow> loc \<Rightarrow> player \<Rightarrow> bool \<Rightarrow> board \<Rightarrow> int \<Rightarrow> ladder \<Rightarrow> bool" where
  "ladder_inv Z loc pla df root depth s \<longleftrightarrow> stackIdx s < depth \<and> (\<forall>j. 0 \<le> j \<and> j < stackIdx s \<longrightarrow> level_ok s j) \<and>
     (if stackIdx s < 0 then stackIdx s = -1 \<and> on_stack Z loc pla df root s 0
      else if moveListCur s (stackIdx s) = -1 then
        on_stack Z loc pla df root s (nat (stackIdx s)) \<and>
        0 \<le> moveListStarts s (stackIdx s) \<and> moveListStarts s (stackIdx s) \<le> int (length (ld_buf s))
      else level_ok s (stackIdx s) \<and> stackIdx s < depth - 1 \<and>
        (if returnedFromDeeper s
         then searchNodeCount s < MAX_LADDER_SEARCH_NODE_BUDGET \<and> on_stack Z loc pla df root s (Suc (nat (stackIdx s)))
         else on_stack Z loc pla df root s (nat (stackIdx s)) \<and>
              (\<not> defends df (stackIdx s) \<longrightarrow> liberty_count (ld_board s) loc = 2)))"

text \<open>A level whose list is there and whose current move is about to be tried.\<close>

definition ready :: "zobrist \<Rightarrow> loc \<Rightarrow> player \<Rightarrow> bool \<Rightarrow> board \<Rightarrow> int \<Rightarrow> ladder \<Rightarrow> bool" where
  "ready Z loc pla df root depth s \<longleftrightarrow> 0 \<le> stackIdx s \<and> stackIdx s < depth - 1 \<and>
     (\<forall>j. 0 \<le> j \<and> j < stackIdx s \<longrightarrow> level_ok s j) \<and>
     0 \<le> moveListCur s (stackIdx s) \<and> 0 \<le> moveListLens s (stackIdx s) \<and> 0 \<le> moveListStarts s (stackIdx s) \<and>
     moveListStarts s (stackIdx s) + moveListLens s (stackIdx s) \<le> int (length (ld_buf s)) \<and>
     on_stack Z loc pla df root s (nat (stackIdx s)) \<and>
     (\<not> defends df (stackIdx s) \<longrightarrow> liberty_count (ld_board s) loc = 2) \<and>
     searchNodeCount s < MAX_LADDER_SEARCH_NODE_BUDGET"

lemma ladder_pop_inv:
  assumes "0 \<le> stackIdx s" "stackIdx s < depth" "\<forall>j. 0 \<le> j \<and> j < stackIdx s \<longrightarrow> level_ok s j"
    "on_stack Z loc pla df root s (nat (stackIdx s))" "searchNodeCount s < MAX_LADDER_SEARCH_NODE_BUDGET"
  shows "ladder_inv Z loc pla df root depth (ladder_pop v s)"
proof (cases "stackIdx s = 0")
  case True
  then show ?thesis using assms by (auto simp add: ladder_inv_def ladder_pop_def on_stack_def)
next
  case False
  have 1: "level_ok s (stackIdx s - 1)" using assms(1,3) False by simp
  then have "moveListCur s (stackIdx s - 1) \<noteq> -1" by (simp add: level_ok_def)
  moreover have "Suc (nat (stackIdx s - 1)) = nat (stackIdx s)" using assms(1) False by simp
  moreover have "level_ok (ladder_pop v s) j = level_ok s j" for j by (simp add: level_ok_def ladder_pop_def)
  ultimately show ?thesis
    using assms 1 False unfolding ladder_inv_def by (simp add: ladder_pop_def on_stack_def)
qed

text \<open>Deeper or less nodes left, fewer levels, or fewer moves left on the level.\<close>

definition ladder_order :: "(ladder \<times> ladder) set" where
  "ladder_order = measures
     [\<lambda>s. nat (MAX_LADDER_SEARCH_NODE_BUDGET - searchNodeCount s), \<lambda>s. nat (stackIdx s + 1),
      \<lambda>s. if moveListCur s (stackIdx s) = -1 then 1 else 0,
      \<lambda>s. nat (moveListLens s (stackIdx s) - moveListCur s (stackIdx s))]"

lemma wf_ladder_order: "wf ladder_order"
  by (simp add: ladder_order_def)

lemma ladder_pop_order: "0 \<le> stackIdx s \<Longrightarrow> (ladder_pop v s, s) \<in> ladder_order"
  by (simp add: ladder_order_def ladder_pop_def)

lemma level_ok_grow: "level_ok s j \<Longrightarrow> length (ld_buf s) \<le> length buf \<Longrightarrow> level_ok (s\<lparr>ld_buf := buf\<rparr>) j"
  by (simp add: level_ok_def)

lemma ladder_enter_ok:
  assumes p: "is_stone pla" and i: "0 \<le> stackIdx s" "stackIdx s < depth - 1"
    and lv: "\<forall>j. 0 \<le> j \<and> j < stackIdx s \<longrightarrow> level_ok s j"
    and st: "on_stack Z loc pla df root s (nat (stackIdx s))"
    and start: "0 \<le> moveListStarts s (stackIdx s)" "moveListStarts s (stackIdx s) \<le> int (length (ld_buf s))"
    and n: "searchNodeCount s < MAX_LADDER_SEARCH_NODE_BUDGET"
  shows "\<exists>r. ladder_enter loc pla (defends df (stackIdx s)) s = Some r \<and> (case r of
      Inl s' \<Rightarrow> ladder_inv Z loc pla df root depth s' \<and> (s', s) \<in> ladder_order
    | Inr s' \<Rightarrow> ready Z loc pla df root depth s' \<and> searchNodeCount s' = searchNodeCount s \<and> stackIdx s' = stackIdx s \<and>
        moveListCur s' (stackIdx s) = 0)"
proof -
  let ?i = "stackIdx s" let ?d = "defends df ?i" let ?b = "ld_board s" let ?k = "moveListStarts s ?i"
  have g: "good Z loc pla ?b" using st played_from_good by (auto simp: on_stack_def)
  then have core: "core Z (\<lambda>_. 0) {} ?b" by (rule good_core)
  then have c: "chains_ok ?b (\<lambda>_. 0)" by (simp add: core_def)
  have sl: "is_stone (colors ?b loc)" using g p by (simp add: good_def)
  note lc = liberty_count_eq [OF core sl]
  have pop: "ladder_inv Z loc pla df root depth (ladder_pop v (s\<lparr>ld_buf := buf\<rparr>)) \<and>
      (ladder_pop v (s\<lparr>ld_buf := buf\<rparr>), s) \<in> ladder_order" if "length (ld_buf s) \<le> length buf" for v buf
  proof
    show "ladder_inv Z loc pla df root depth (ladder_pop v (s\<lparr>ld_buf := buf\<rparr>))"
      by (rule ladder_pop_inv) (use i lv st n that in \<open>auto simp: on_stack_def level_ok_def\<close>)
    show "(ladder_pop v (s\<lparr>ld_buf := buf\<rparr>), s) \<in> ladder_order"
      using i by (simp add: ladder_order_def ladder_pop_def)
  qed
  have pop0: "ladder_inv Z loc pla df root depth (ladder_pop v s) \<and> (ladder_pop v s, s) \<in> ladder_order" for v
    using pop [of "ld_buf s" v] by simp
  let ?L = "num_liberties (chain_data ?b (chain_head ?b loc))"
  show ?thesis
  proof (cases "\<not> ?d \<and> (?L \<le> 1 \<or> ?L \<ge> 3) \<or> ?d \<and> (?L \<ge> 2 \<or> ko_loc ?b \<noteq> NULL_LOC)")
    case True
    then show ?thesis using pop0 by (auto simp: ladder_enter_def Let_def)
  next
    case False
    have "\<exists>r. (if ?d then defender_moves ?b loc pla ?k (ld_buf s) else attacker_moves ?b loc pla ?k (ld_buf s)) = Some r \<and>
        moves_ok ?k (ld_buf s) r"
    proof (cases ?d)
      case True
      then show ?thesis using defender_moves_returns [OF c sl start] by simp
    next
      case False
      then have "card (libs_of ?b (chain_of ?b (chain_head ?b loc))) = 2"
        using \<open>\<not> (_ \<or> _)\<close> lc by auto
      then show ?thesis using attacker_moves_returns [OF core sl p _ start] False by simp
    qed
    then obtain r where r: "(if ?d then defender_moves ?b loc pla ?k (ld_buf s) else attacker_moves ?b loc pla ?k (ld_buf s)) = Some r"
      "moves_ok ?k (ld_buf s) r" by blast
    have e: "ladder_enter loc pla ?d s = Some (case r of Inl (v, buf) \<Rightarrow> Inl (ladder_pop v (s\<lparr>ld_buf := buf\<rparr>))
        | Inr (buf, len) \<Rightarrow> Inr (s\<lparr>ld_buf := buf, moveListLens := (moveListLens s)(?i := len),
                                      moveListCur := (moveListCur s)(?i := 0)\<rparr>))"
      using False r(1) unfolding ladder_enter_def Let_def by (auto split: sum.split)
    show ?thesis
    proof (cases r)
      case (Inl vb)
      then show ?thesis using e r(2) pop by (cases vb) (simp add: moves_ok_def)
    next
      case (Inr bl)
      obtain buf len where bl: "bl = (buf, len)" by (cases bl)
      have gr: "0 \<le> len" "?k + len \<le> int (length buf)" "length (ld_buf s) \<le> length buf"
        using r(2) by (simp_all add: Inr bl moves_ok_def grown_def inside_def)
      let ?s = "s\<lparr>ld_buf := buf, moveListLens := (moveListLens s)(?i := len), moveListCur := (moveListCur s)(?i := 0)\<rparr>"
      have "\<forall>j. 0 \<le> j \<and> j < ?i \<longrightarrow> level_ok ?s j"
      proof (intro allI impI)
        fix j assume "0 \<le> j \<and> j < ?i"
        then show "level_ok ?s j" using lv gr(3) by (auto simp: level_ok_def)
      qed
      moreover have "liberty_count ?b loc = 2" if "\<not> ?d" using that False lc(1) by auto
      ultimately have "ready Z loc pla df root depth ?s"
        using i st n start(1) gr unfolding ready_def on_stack_def by simp
      then show ?thesis using e by (simp add: Inr bl)
    qed
  qed
qed

end
