(* ===== verification/LadderLoop.thy ===== *)
theory LadderLoop
  imports LadderTotal
begin

text \<open>
  One turn of the ladder search keeps the invariant and comes nearer to the end, so the loop
  returns; what is left on the board when it does.
\<close>

section \<open>Coming back to a level and trying its next move\<close>

lemma ladder_return_ok:
  assumes p: "is_stone pla" and inv: "ladder_inv Z loc pla df root depth s" and i: "0 \<le> stackIdx s"
    and cur: "moveListCur s (stackIdx s) \<noteq> -1" and n: "searchNodeCount s < MAX_LADDER_SEARCH_NODE_BUDGET"
  shows "\<exists>r. ladder_return Z (defends df (stackIdx s)) s = Some r \<and> (case r of
      Inl s' \<Rightarrow> ladder_inv Z loc pla df root depth s' \<and> (s', s) \<in> ladder_order
    | Inr s' \<Rightarrow> ready Z loc pla df root depth s' \<and> searchNodeCount s' = searchNodeCount s \<and> stackIdx s' = stackIdx s \<and>
        moveListLens s' = moveListLens s \<and> moveListCur s' (stackIdx s) = moveListCur s (stackIdx s) + 1)"
proof -
  let ?i = "stackIdx s"
  have lv: "level_ok s ?i" and d: "?i < depth - 1" and lower: "\<forall>j. 0 \<le> j \<and> j < ?i \<longrightarrow> level_ok s j"
    using inv i cur by (auto simp: ladder_inv_def)
  have "\<exists>b. (if returnedFromDeeper s then Option.bind (undo Z (ld_records s ?i) (ld_board s)) (\<lambda>b. Some (s\<lparr>ld_board := b\<rparr>))
        else Some s) = Some (s\<lparr>ld_board := b\<rparr>) \<and> played_from Z loc pla df (ld_records s) root (nat ?i) b \<and>
      (\<not> defends df ?i \<longrightarrow> liberty_count b loc = 2)"
  proof (cases "returnedFromDeeper s")
    case True
    then have st: "played_from Z loc pla df (ld_records s) root (Suc (nat ?i)) (ld_board s)"
      using inv i cur by (simp add: ladder_inv_def on_stack_def)
    obtain d where "undo Z (ld_records s ?i) (ld_board s) = Some d"
      "played_from Z loc pla df (ld_records s) root (nat ?i) d" "\<not> defends df ?i \<longrightarrow> liberty_count d loc = 2"
      using undo_played [OF p st] i by auto
    then show ?thesis using True by auto
  next
    case False
    then show ?thesis using inv i cur by (intro exI [of _ "ld_board s"]) (simp add: ladder_inv_def on_stack_def)
  qed
  then obtain b where b: "(if returnedFromDeeper s then Option.bind (undo Z (ld_records s ?i) (ld_board s)) (\<lambda>b. Some (s\<lparr>ld_board := b\<rparr>))
        else Some s) = Some (s\<lparr>ld_board := b\<rparr>)" "played_from Z loc pla df (ld_records s) root (nat ?i) b"
    "\<not> defends df ?i \<longrightarrow> liberty_count b loc = 2" by blast
  let ?t = "s\<lparr>ld_board := b\<rparr>"
  have "ladder_inv Z loc pla df root depth (ladder_pop (returnValue s) ?t)"
    by (rule ladder_pop_inv) (use i d lower b n in \<open>auto simp: on_stack_def level_ok_def\<close>)
  then have pop: "ladder_inv Z loc pla df root depth (?t\<lparr>returnedFromDeeper := True, stackIdx := ?i - 1\<rparr>)"
    by (simp add: ladder_pop_def)
  have "(?t\<lparr>returnedFromDeeper := True, stackIdx := ?i - 1\<rparr>, s) \<in> ladder_order"
    using i by (simp add: ladder_order_def)
  moreover have "ready Z loc pla df root depth (?t\<lparr>moveListCur := (moveListCur s)(?i := moveListCur s ?i + 1)\<rparr>)"
    using i d lower lv b n by (auto simp: ready_def on_stack_def level_ok_def)
  ultimately show ?thesis
    using pop lv b(1) unfolding ladder_return_def by (simp add: level_ok_def)
qed

lemma ladder_move_ok:
  assumes p: "is_stone pla" and r: "ready Z loc pla df root depth s"
  shows "\<exists>s'. ladder_move Z pla (defends df (stackIdx s)) s = Some s' \<and> ladder_inv Z loc pla df root depth s' \<and>
    (stackIdx s' = stackIdx s - 1 \<and> searchNodeCount s' = searchNodeCount s \<or>
     stackIdx s' = stackIdx s \<and> searchNodeCount s' = searchNodeCount s \<and> moveListCur s' = moveListCur s \<and>
       moveListLens s' = moveListLens s \<and> moveListCur s (stackIdx s) < moveListLens s (stackIdx s) \<or>
     searchNodeCount s' = searchNodeCount s + 1)"
proof -
  let ?i = "stackIdx s" let ?d = "defends df ?i"
  have i: "0 \<le> ?i" "?i < depth - 1" and lower: "\<forall>j. 0 \<le> j \<and> j < ?i \<longrightarrow> level_ok s j"
    and st: "on_stack Z loc pla df root s (nat ?i)" and n: "searchNodeCount s < MAX_LADDER_SEARCH_NODE_BUDGET"
    and two: "\<not> ?d \<longrightarrow> liberty_count (ld_board s) loc = 2" and cur0: "0 \<le> moveListCur s ?i"
    using r by (auto simp: ready_def)
  show ?thesis
  proof (cases "moveListCur s ?i \<ge> moveListLens s ?i")
    case True
    have "ladder_inv Z loc pla df root depth (ladder_pop ?d s)"
      by (rule ladder_pop_inv) (use i lower st n in auto)
    then show ?thesis using True by (simp add: ladder_move_def Let_def ladder_pop_def)
  next
    case False
    then have lv: "level_ok s ?i" using r by (simp add: ready_def level_ok_def)
    let ?m = "buf_get (ld_buf s) (moveListStarts s ?i + moveListCur s ?i)"
    have mv: "(if ?d then pla else getOpp pla) = mover pla df ?i" by (simp add: mover_def)
    show ?thesis
    proof (cases "isLegal (ld_board s) ?m (mover pla df ?i) False")
      case ill: False
      have "ladder_inv Z loc pla df root depth (s\<lparr>returnValue := ?d, returnedFromDeeper := False\<rparr>)"
        using i lower st two lv cur0 by (auto simp: ladder_inv_def level_ok_def on_stack_def)
      then show ?thesis using False ill by (simp add: ladder_move_def Let_def mv)
    next
      case leg: True
      have g: "good Z loc pla (ld_board s)" using st played_from_good by (auto simp: on_stack_def)
      obtain b1 where b1: "playMoveRecorded Z ?m (mover pla df ?i) (ld_board s) = Some (b1, move_record (ld_board s) ?m (mover pla df ?i))"
        "playMoveAssumeLegal Z ?m (mover pla df ?i) (ld_board s) = Some b1" "good Z loc pla b1"
        "?m = PASS_LOC \<or> colors (ld_board s) ?m = C_EMPTY"
        using search_move_good [OF g p leg two] by blast
      let ?r = "move_record (ld_board s) ?m (mover pla df ?i)"
      let ?s = "s\<lparr>ld_board := b1, ld_records := (ld_records s)(?i := ?r),
          searchNodeCount := searchNodeCount s + 1, stackIdx := ?i + 1,
          moveListCur := (moveListCur s)(?i + 1 := - 1),
          moveListStarts := (moveListStarts s)(?i + 1 := moveListStarts s ?i + moveListLens s ?i),
          moveListLens := (moveListLens s)(?i + 1 := 0)\<rparr>"
      have e: "ladder_move Z pla ?d s = Some ?s"
        using False leg b1(1) by (simp add: ladder_move_def Let_def mv)
      have "played_from Z loc pla df ((ld_records s)(?i := ?r)) root (nat ?i) (ld_board s)"
        using st i(1) played_from_cong [of "nat ?i" "(ld_records s)(?i := ?r)" "ld_records s"]
        by (auto simp: on_stack_def)
      then have "on_stack Z loc pla df root ?s (Suc (nat ?i))"
        using b1 two i(1) by (auto simp: on_stack_def looks_like_def)
      moreover have "nat (?i + 1) = Suc (nat ?i)" using i(1) by simp
      moreover have "\<forall>j. 0 \<le> j \<and> j < ?i + 1 \<longrightarrow> level_ok ?s j"
      proof (intro allI impI)
        fix j assume "0 \<le> j \<and> j < ?i + 1"
        then have "level_ok s j" "j \<noteq> ?i + 1" using lower lv by (cases "j = ?i"; simp)+
        then show "level_ok ?s j" by (simp add: level_ok_def)
      qed
      moreover have "0 \<le> moveListStarts s ?i + moveListLens s ?i" using lv by (simp add: level_ok_def)
      ultimately have "ladder_inv Z loc pla df root depth ?s"
        using i lv unfolding ladder_inv_def by (simp add: level_ok_def)
      then show ?thesis using e by simp
    qed
  qed
qed

section \<open>One turn, and the loop\<close>

text \<open>The depth limit and the node budget met by one state.\<close>

definition both_limits :: "int \<Rightarrow> ladder \<Rightarrow> bool" where
  "both_limits depth s \<longleftrightarrow> depth - 1 \<le> stackIdx s \<and> MAX_LADDER_SEARCH_NODE_BUDGET \<le> searchNodeCount s"

text \<open>What the search may answer and leave: with the ko point put back, or, out of nodes, without.\<close>

definition ladder_result :: "zobrist \<Rightarrow> loc \<Rightarrow> player \<Rightarrow> board \<Rightarrow> loc \<Rightarrow> bool \<Rightarrow> board \<Rightarrow> bool" where
  "ladder_result Z loc pla root savedKo v b \<longleftrightarrow>
     (\<exists>c. good Z loc pla c \<and> same_board root c \<and> (b = c\<lparr>ko_loc := savedKo\<rparr> \<or> \<not> v \<and> b = c))"

lemma ladder_turn_ok:
  assumes p: "is_stone pla" and inv: "ladder_inv Z loc pla df root depth s" and depth: "1 \<le> depth"
    and lim: "\<not> both_limits depth s"
  shows "\<exists>r. ladder_turn Z loc pla df savedKo depth s = Some r \<and> (case r of
      Inl (v, b, buf) \<Rightarrow> ladder_result Z loc pla root savedKo v b
    | Inr s' \<Rightarrow> ladder_inv Z loc pla df root depth s' \<and> (s', s) \<in> ladder_order)"
proof -
  let ?i = "stackIdx s"
  consider "?i < 0" | "0 \<le> ?i" "depth - 1 \<le> ?i"
    | "0 \<le> ?i" "?i < depth - 1" "MAX_LADDER_SEARCH_NODE_BUDGET \<le> searchNodeCount s"
    | "0 \<le> ?i" "?i < depth - 1" "searchNodeCount s < MAX_LADDER_SEARCH_NODE_BUDGET" by linarith
  then show ?thesis
  proof cases
    case 1
    then have "?i = -1" "good Z loc pla (ld_board s)" "same_board root (ld_board s)"
      using inv by (simp_all add: ladder_inv_def on_stack_def)
    then show ?thesis by (auto simp: ladder_turn_def ladder_result_def)
  next
    case 2
    have "ladder_inv Z loc pla df root depth (ladder_pop True s)"
      by (rule ladder_pop_inv) (use 2 inv lim in \<open>auto simp: ladder_inv_def both_limits_def split: if_splits\<close>)
    then show ?thesis using 2 ladder_pop_order [of s True] by (simp add: ladder_turn_def)
  next
    case 3
    then have "on_stack Z loc pla df root s (nat ?i)" using inv by (auto simp: ladder_inv_def split: if_splits)
    then obtain d where "ladder_unwind Z s = Some d" "good Z loc pla d" "same_board root d"
      using unwind_played [OF p] 3(1) by (fastforce simp: on_stack_def ladder_unwind_def)
    then show ?thesis using 3 by (auto simp: ladder_turn_def ladder_result_def)
  next
    case 4
    let ?d = "defends df ?i"
    let ?first = "if moveListCur s ?i = - 1 then ladder_enter loc pla ?d s else ladder_return Z ?d s"
    have t: "ladder_turn Z loc pla df savedKo depth s = Option.bind ?first (\<lambda>r. case r of
        Inl s \<Rightarrow> Some (Inr s) | Inr s \<Rightarrow> Option.bind (ladder_move Z pla ?d s) (\<lambda>s. Some (Inr s)))"
      using 4 unfolding ladder_turn_def defends_def Let_def by simp
    have "\<exists>r. ?first = Some r \<and> (case r of
        Inl s' \<Rightarrow> ladder_inv Z loc pla df root depth s' \<and> (s', s) \<in> ladder_order
      | Inr s' \<Rightarrow> ready Z loc pla df root depth s' \<and> searchNodeCount s' = searchNodeCount s \<and> stackIdx s' = ?i \<and>
          (moveListCur s ?i = -1 \<or> moveListLens s' = moveListLens s \<and> moveListCur s' ?i = moveListCur s ?i + 1))"
    proof (cases "moveListCur s ?i = -1")
      case True
      obtain r where "ladder_enter loc pla ?d s = Some r" "case r of
          Inl s' \<Rightarrow> ladder_inv Z loc pla df root depth s' \<and> (s', s) \<in> ladder_order
        | Inr s' \<Rightarrow> ready Z loc pla df root depth s' \<and> searchNodeCount s' = searchNodeCount s \<and> stackIdx s' = ?i \<and>
            moveListCur s' ?i = 0"
        using ladder_enter_ok [OF p 4(1,2) _ _ _ _ 4(3), of Z loc df root] inv 4(1) True
        by (auto simp: ladder_inv_def)
      then show ?thesis using True by (auto split: sum.splits)
    next
      case False
      show ?thesis using ladder_return_ok [OF p inv 4(1) False 4(3)] False by (auto split: sum.splits)
    qed
    then obtain r where r: "?first = Some r" "case r of
        Inl s' \<Rightarrow> ladder_inv Z loc pla df root depth s' \<and> (s', s) \<in> ladder_order
      | Inr s' \<Rightarrow> ready Z loc pla df root depth s' \<and> searchNodeCount s' = searchNodeCount s \<and> stackIdx s' = ?i \<and>
          (moveListCur s ?i = -1 \<or> moveListLens s' = moveListLens s \<and> moveListCur s' ?i = moveListCur s ?i + 1)"
      by blast
    show ?thesis
    proof (cases r)
      case (Inl s')
      then show ?thesis using t r by simp
    next
      case (Inr s1)
      then have s1: "ready Z loc pla df root depth s1" "searchNodeCount s1 = searchNodeCount s" "stackIdx s1 = ?i"
        "moveListCur s ?i = -1 \<or> moveListLens s1 = moveListLens s \<and> moveListCur s1 ?i = moveListCur s ?i + 1"
        using r(2) by simp_all
      then have c0: "0 \<le> moveListCur s1 ?i" by (simp add: ready_def)
      from ladder_move_ok [OF p s1(1)] obtain s' where s': "ladder_move Z pla ?d s1 = Some s'"
        "ladder_inv Z loc pla df root depth s'"
        "stackIdx s' = stackIdx s1 - 1 \<and> searchNodeCount s' = searchNodeCount s1 \<or>
         stackIdx s' = stackIdx s1 \<and> searchNodeCount s' = searchNodeCount s1 \<and> moveListCur s' = moveListCur s1 \<and>
           moveListLens s' = moveListLens s1 \<and> moveListCur s1 (stackIdx s1) < moveListLens s1 (stackIdx s1) \<or>
         searchNodeCount s' = searchNodeCount s1 + 1"
        unfolding s1(3) by blast
      have "(s', s) \<in> ladder_order"
        using s'(3) s1(2-4) c0 4 unfolding ladder_order_def by (auto simp: in_measures)
      then show ?thesis using t r(1) s' by (simp add: Inr)
    qed
  qed
qed

inductive ladder_reach :: "zobrist \<Rightarrow> loc \<Rightarrow> player \<Rightarrow> bool \<Rightarrow> loc \<Rightarrow> int \<Rightarrow> ladder \<Rightarrow> ladder \<Rightarrow> bool"
  for Z loc pla df savedKo depth where
  here: "ladder_reach Z loc pla df savedKo depth s s"
| turn: "ladder_turn Z loc pla df savedKo depth s = Some (Inr s1) \<Longrightarrow> ladder_reach Z loc pla df savedKo depth s1 s2 \<Longrightarrow>
    ladder_reach Z loc pla df savedKo depth s s2"

lemma ladder_loop_returns:
  assumes p: "is_stone pla" and depth: "1 \<le> depth" and "ladder_inv Z loc pla df root depth s"
    and "\<forall>t. ladder_reach Z loc pla df savedKo depth s t \<longrightarrow> \<not> both_limits depth t"
  shows "\<exists>v b buf. ladder_loop Z loc pla df savedKo depth s = Some (v, b, buf) \<and> ladder_result Z loc pla root savedKo v b"
  using assms(3,4)
proof (induction s rule: wf_induct_rule [OF wf_ladder_order])
  case (1 s)
  have "\<not> both_limits depth s" using 1(3) here by blast
  from ladder_turn_ok [OF p 1(2) depth this, of savedKo] obtain r
    where r: "ladder_turn Z loc pla df savedKo depth s = Some r" and rs: "case r of
        Inl (v, b, buf) \<Rightarrow> ladder_result Z loc pla root savedKo v b
      | Inr s' \<Rightarrow> ladder_inv Z loc pla df root depth s' \<and> (s', s) \<in> ladder_order" by blast
  show ?case
  proof (cases r)
    case (Inl v)
    then show ?thesis using r rs by (cases v) (subst ladder_loop.simps, simp)
  next
    case (Inr s')
    have "\<forall>t. ladder_reach Z loc pla df savedKo depth s' t \<longrightarrow> \<not> both_limits depth t"
      using 1(3) turn r Inr by blast
    then show ?thesis using 1(1) [of s'] rs r Inr by (subst ladder_loop.simps) simp
  qed
qed

end
