(* ===== verification/LadderProps.thy ===== *)
theory LadderProps
  imports LadderLoop Demo
begin

text \<open>
  The properties of the two entry points of the ladder search, with instances on small boards.
\<close>

section \<open>The search from either side\<close>

text \<open>The state in which \<open>searchIsLadderCaptured\<close> enters its loop, and the size of its stack.\<close>

definition ladder_start :: "bool \<Rightarrow> board \<Rightarrow> loc list \<Rightarrow> ladder" where
  "ladder_start defenderFirst b buf =
     \<lparr>ld_board = (if defenderFirst then b\<lparr>ko_loc := NULL_LOC\<rparr> else b), ld_buf = buf,
      moveListStarts = (\<lambda>_. 0), moveListLens = (\<lambda>_. 0), moveListCur = (\<lambda>_. - 1),
      ld_records = (\<lambda>_. \<lparr>mr_pla = C_EMPTY, mr_loc = 0, mr_ko_loc = 0, mr_capDirs = 0\<rparr>),
      stackIdx = 0, searchNodeCount = 0, returnValue = False, returnedFromDeeper = False\<rparr>"

definition ladder_depth :: "board \<Rightarrow> int" where
  "ladder_depth b = x_size b * y_size b * 3 div 2 + 1"

text \<open>Some turn of the search starts at the depth limit with the nodes used up.\<close>

definition limits_met :: "zobrist \<Rightarrow> loc \<Rightarrow> bool \<Rightarrow> board \<Rightarrow> loc list \<Rightarrow> bool" where
  "limits_met Z loc defenderFirst b buf \<longleftrightarrow>
     (\<exists>s. ladder_reach Z loc (colors b loc) defenderFirst (ko_loc b) (ladder_depth b) (ladder_start defenderFirst b buf) s \<and>
        both_limits (ladder_depth b) s)"

lemma search_ok:
  assumes wf: "wf_board Z b" and lim: "\<not> limits_met Z loc df b buf"
  shows "\<exists>v b' buf'. searchIsLadderCaptured Z loc df (b, buf) = Some (v, b', buf') \<and> wf_board Z b' \<and> looks_like b b' \<and>
    (ko_loc b' = ko_loc b \<or> df \<and> \<not> v \<and> ko_loc b' = NULL_LOC)"
proof (cases "loc < 0 \<or> loc \<ge> MAX_ARR_SIZE \<or> (colors b loc \<noteq> C_BLACK \<and> colors b loc \<noteq> C_WHITE) \<or>
    num_liberties (chain_data b (chain_head b loc)) > 2 \<or> (df \<and> num_liberties (chain_data b (chain_head b loc)) > 1)")
  case True
  then show ?thesis using wf by (auto simp: searchIsLadderCaptured_def looks_like_def)
next
  case False
  let ?p = "colors b loc" let ?r = "if df then b\<lparr>ko_loc := NULL_LOC\<rparr> else b"
  let ?s = "ladder_start df b buf"
  have p: "is_stone ?p" using False by (auto simp: is_stone_def)
  have g: "good Z loc ?p ?r" using wf wf_clear_ko [OF wf] by (simp add: good_def)
  have d: "1 \<le> ladder_depth b"
    using wf by (simp add: ladder_depth_def wf_board_def core_def geom_ok_def)
  have inv: "ladder_inv Z loc ?p df ?r (ladder_depth b) ?s"
    using g d unfolding ladder_inv_def by (auto simp: on_stack_def ladder_start_def same_board_def looks_like_def)
  have "searchIsLadderCaptured Z loc df (b, buf) = ladder_loop Z loc ?p df (ko_loc b) (ladder_depth b) ?s"
    using False unfolding searchIsLadderCaptured_def Let_def by (auto simp add: ladder_start_def ladder_depth_def)
  moreover obtain v b' buf' where "ladder_loop Z loc ?p df (ko_loc b) (ladder_depth b) ?s = Some (v, b', buf')"
    "ladder_result Z loc ?p ?r (ko_loc b) v b'"
    using ladder_loop_returns [OF p d inv, of "ko_loc b"] lim unfolding limits_met_def by blast
  moreover have "wf_board Z b' \<and> looks_like b b' \<and> (ko_loc b' = ko_loc b \<or> df \<and> \<not> v \<and> ko_loc b' = NULL_LOC)"
    if r: "ladder_result Z loc ?p ?r (ko_loc b) v b'" for v b'
  proof -
    from r obtain c where c: "wf_board Z c" "same_board ?r c" "b' = c\<lparr>ko_loc := ko_loc b\<rparr> \<or> \<not> v \<and> b' = c"
      by (auto simp: ladder_result_def good_def)
    then have l: "looks_like b c" by (auto simp: same_board_def looks_like_def)
    have "ko_ok (c\<lparr>ko_loc := ko_loc b\<rparr>)" using wf l by (simp add: wf_board_def ko_ok_def looks_like_def)
    then have "wf_board Z (c\<lparr>ko_loc := ko_loc b\<rparr>)" by (intro wf_board_cong [OF _ _ _ _ _ _ _ _ _ c(1)]) simp_all
    then show ?thesis using c l by (auto simp: same_board_def looks_like_def split: if_splits)
  qed
  ultimately show ?thesis by auto
qed


text \<open>A search that ends within \<open>n\<close> turns and meets both limits in none of them.\<close>

fun ends_within :: "zobrist \<Rightarrow> loc \<Rightarrow> player \<Rightarrow> bool \<Rightarrow> loc \<Rightarrow> int \<Rightarrow> nat \<Rightarrow> ladder \<Rightarrow> bool" where
  "ends_within Z loc pla df savedKo depth 0 s = False"
| "ends_within Z loc pla df savedKo depth (Suc n) s \<longleftrightarrow> \<not> both_limits depth s \<and>
     (case ladder_turn Z loc pla df savedKo depth s of
        None \<Rightarrow> False
      | Some (Inl _) \<Rightarrow> True
      | Some (Inr s') \<Rightarrow> ends_within Z loc pla df savedKo depth n s')"

lemma ends_within_reach:
  "ladder_reach Z loc pla df savedKo depth s t \<Longrightarrow> ends_within Z loc pla df savedKo depth n s \<Longrightarrow> \<not> both_limits depth t"
proof (induction arbitrary: n rule: ladder_reach.induct)
  case (here s)
  then show ?case by (cases n) simp_all
next
  case (turn s s1 s2)
  from turn.prems turn.hyps(1) have "\<exists>m. ends_within Z loc pla df savedKo depth m s1" by (cases n) auto
  then obtain m where "ends_within Z loc pla df savedKo depth m s1" ..
  then show ?case by (rule turn.IH)
qed

lemma ends_within_limits:
  "ends_within Z loc (colors b loc) df (ko_loc b) (ladder_depth b) n (ladder_start df b buf) \<Longrightarrow> \<not> limits_met Z loc df b buf"
  using ends_within_reach by (fastforce simp: limits_met_def)

text \<open>On a 3x3 board a black stone in the corner, a white one in the middle.\<close>

definition ladder_board :: board where
  "ladder_board = demo 3 [(5, C_BLACK), (10, C_WHITE)]"

lemma ladder_board_wf: "wf_board demo_zobrist ladder_board"
  by (simp add: ladder_board_def demo_wf)


section \<open>The attacker first against two liberties\<close>

text \<open>
  The searches that the attacker's function makes: one after each of the two moves at the chain's
  liberties that is legal, the second from what the first try leaves. \<open>attack_limits\<close> says that one
  of these very searches meets both its limits.
\<close>

definition try_limits :: "zobrist \<Rightarrow> loc \<Rightarrow> player \<Rightarrow> loc \<Rightarrow> board \<times> loc list \<Rightarrow> bool" where
  "try_limits Z loc pla mv = (\<lambda>(b, buf). isLegal b mv pla False \<and>
     (case playMoveAssumeLegal Z mv pla b of None \<Rightarrow> False | Some b1 \<Rightarrow> limits_met Z loc True b1 buf))"

definition attack_limits :: "zobrist \<Rightarrow> loc \<Rightarrow> board \<times> loc list \<Rightarrow> bool" where
  "attack_limits Z loc = (\<lambda>(b, buf). liberty_count b loc = 2 \<and> is_stone (colors b loc) \<and>
     (case findLiberties b loc buf 0 0 of
        None \<Rightarrow> False
      | Some (buf, n) \<Rightarrow>
          let opp = getOpp (colors b loc); move0 = buf_get buf 0; move1 = buf_get buf 1
          in try_limits Z loc opp move0 (b, buf) \<or>
             (case try_ladder_move Z loc opp move0 (b, buf) of
                None \<Rightarrow> False
              | Some (works, b, buf) \<Rightarrow> try_limits Z loc opp move1 (b, buf))))"

lemma try_ok:
  assumes g: "good Z loc pla b" and p: "is_stone pla" and two: "liberty_count b loc = 2"
    and lim: "\<not> try_limits Z loc (getOpp pla) mv (b, buf)"
  shows "\<exists>v b' buf'. try_ladder_move Z loc (getOpp pla) mv (b, buf) = Some (v, b', buf') \<and> good Z loc pla b' \<and>
    same_board b b' \<and> (v \<longrightarrow> isLegal b mv (getOpp pla) False)"
proof (cases "isLegal b mv (getOpp pla) False")
  case False
  then show ?thesis using g by (auto simp: try_ladder_move_def same_board_def looks_like_def)
next
  case True
  have m: "mover pla True 1 = getOpp pla" by (simp add: mover_def defends_def)
  obtain b1 where b1: "playMoveRecorded Z mv (getOpp pla) b = Some (b1, move_record b mv (getOpp pla))"
    "playMoveAssumeLegal Z mv (getOpp pla) b = Some b1" "good Z loc pla b1" "mv = PASS_LOC \<or> colors b mv = C_EMPTY"
    using search_move_good [OF g p, of mv True 1] True two m by auto
  obtain v b2 buf2 where b2: "searchIsLadderCaptured Z loc True (b1, buf) = Some (v, b2, buf2)" "wf_board Z b2" "looks_like b1 b2"
    using search_ok [of Z b1 loc True buf] b1(2,3) lim True by (auto simp: good_def try_limits_def)
  obtain d where d: "undo Z (move_record b mv (getOpp pla)) b2 = Some d" "wf_board Z d" "same_board b d"
    using undo_record [OF _ _ b1(4,2) b2(2,3)] g p by (auto simp: good_def)
  then have "good Z loc pla d" using g by (simp add: good_def same_board_def looks_like_def)
  then show ?thesis using True b1 b2 d by (simp add: try_ladder_move_def)
qed

lemma isLegal_same:
  assumes "good Z loc pla b" "good Z loc pla c" "same_board b c"
  shows "isLegal c mv p multi = isLegal b mv p multi"
  using assms isLegal_eq [of Z b mv p multi] isLegal_eq [of Z c mv p multi]
  by (simp add: good_def same_board_def looks_like_def)

text \<open>The two first entries of a buffer are the liberties listed there.\<close>

lemma two_liberties:
  assumes core: "core Z (\<lambda>_. 0) {} b" and l: "is_stone (colors b loc)"
    and two: "num_liberties (chain_data b (chain_head b loc)) = 2"
  obtains buf' where "findLiberties b loc buf 0 0 = Some (buf', 2)"
    "{buf_get buf' 0, buf_get buf' 1} = libs_of b (chain_of b (chain_head b loc))"
proof -
  have card: "card (libs_of b (chain_of b (chain_head b loc))) = 2"
    using two liberty_count_eq [OF core l] by simp
  from findLiberties_spec [OF core l, of 0 buf] card obtain buf'
    where f: "findLiberties b loc buf 0 0 = Some (buf', 2)"
      and ls: "listed 0 [] (libs_of b (chain_of b (chain_head b loc))) (buf', 2)" by auto
  from ls have len: "2 \<le> length buf'" and s: "set (take 2 buf') = libs_of b (chain_of b (chain_head b loc))"
    by (simp_all add: listed_def segment_of_def)
  obtain x y zs where "buf' = x # y # zs" using len by (metis Suc_le_length_iff numeral_2_eq_2)
  then show thesis using that [OF f] s by (simp add: buf_get_def)
qed

lemma attack_ok:
  assumes wf: "wf_board Z b"
    and lim: "\<not> attack_limits Z loc (b, buf)"
  shows "\<exists>v b' buf' moves. searchIsLadderCapturedAttackerFirst2Libs Z loc (b, buf, workingMoves) = Some (v, b', buf', moves) \<and>
    wf_board Z b' \<and> same_board b b' \<and>
    (if v then moves \<noteq> [] \<and> (\<forall>m\<in>set moves. isLegal b m (getOpp (colors b loc)) False \<and> colors b m = C_EMPTY \<and>
                (\<exists>l\<in>group (x_size b) (colors b) loc. adjacent (x_size b) l m))
     else moves = workingMoves)"
proof (cases "loc < 0 \<or> loc \<ge> MAX_ARR_SIZE \<or> (colors b loc \<noteq> C_BLACK \<and> colors b loc \<noteq> C_WHITE) \<or>
    num_liberties (chain_data b (chain_head b loc)) \<noteq> 2")
  case True
  then have "searchIsLadderCapturedAttackerFirst2Libs Z loc (b, buf, workingMoves) = Some (False, b, buf, workingMoves)"
    by (auto simp: searchIsLadderCapturedAttackerFirst2Libs_def)
  then show ?thesis using wf by (auto simp: same_board_def looks_like_def)
next
  case False
  let ?p = "colors b loc" let ?o = "getOpp ?p"
  have p: "is_stone ?p" and two: "num_liberties (chain_data b (chain_head b loc)) = 2"
    using False by (auto simp: is_stone_def)
  have core: "core Z (\<lambda>_. 0) {} b" and c: "chains_ok b (\<lambda>_. 0)" and mx: "max_ok b {}"
    using wf by (simp_all add: wf_board_def core_def)
  have lc: "liberty_count b loc = 2" using liberty_count_eq(1) [OF core p] two by simp
  have grp: "group (x_size b) (colors b) loc = chain_of b (chain_head b loc)"
    by (rule chain_group [OF c p]) (use mx p in \<open>auto simp: max_ok_def\<close>)
  obtain buf0 where f: "findLiberties b loc buf 0 0 = Some (buf0, 2)"
    "{buf_get buf0 0, buf_get buf0 1} = libs_of b (chain_of b (chain_head b loc))"
    by (rule two_liberties [OF core p two])
  let ?m0 = "buf_get buf0 0" let ?m1 = "buf_get buf0 1"
  have lib: "colors b m = C_EMPTY \<and> (\<exists>l\<in>group (x_size b) (colors b) loc. adjacent (x_size b) l m)" if "m = ?m0 \<or> m = ?m1" for m
    using that f(2) by (auto simp: grp libs_of_def)
  have g: "good Z loc ?p b" using wf by (simp add: good_def)
  have lim0: "\<not> try_limits Z loc ?o ?m0 (b, buf0)"
    using lim lc p f(1) by (auto simp: attack_limits_def Let_def)
  obtain v0 b1 buf1 where 1: "try_ladder_move Z loc ?o ?m0 (b, buf0) = Some (v0, b1, buf1)" "good Z loc ?p b1" "same_board b b1"
    "v0 \<longrightarrow> isLegal b ?m0 ?o False"
    using try_ok [OF g p lc, of ?m0 buf0] lim0 by blast
  have lim1: "\<not> try_limits Z loc ?o ?m1 (b1, buf1)"
    using lim 1(1) lc p f(1) by (simp add: attack_limits_def Let_def)
  have lc1: "liberty_count b1 loc = 2" using lc liberty_count_cong [of b b1 loc] 1(3) by (simp add: same_board_def)
  obtain v1 b2 buf2 where 2: "try_ladder_move Z loc ?o ?m1 (b1, buf1) = Some (v1, b2, buf2)" "good Z loc ?p b2" "same_board b1 b2"
    "v1 \<longrightarrow> isLegal b1 ?m1 ?o False"
    using try_ok [OF 1(2) p lc1, of ?m1 buf1] lim1 by blast
  have s2: "same_board b b2" using 1(3) 2(3) by (auto simp: same_board_def intro: looks_like_trans)
  have r: "searchIsLadderCapturedAttackerFirst2Libs Z loc (b, buf, workingMoves) =
      Some (if v0 \<or> v1 then (True, b2, buf2, (if v0 then [?m0] else []) @ (if v1 then [?m1] else []))
            else (False, b2, buf2, workingMoves))"
    using False f(1) 1(1) 2(1) by (auto simp add: searchIsLadderCapturedAttackerFirst2Libs_def Let_def)
  have leg: "v0 \<longrightarrow> isLegal b ?m0 ?o False" "v1 \<longrightarrow> isLegal b ?m1 ?o False"
    using 1(4) 2(4) isLegal_same [OF g 1(2,3)] by auto
  have "wf_board Z b2" using 2(2) by (simp add: good_def)
  then show ?thesis using r s2 leg lib by (cases "v0 \<or> v1") auto
qed

text \<open>
  C39: \<open>Board::searchIsLadderCapturedAttackerFirst2Libs\<close> ends with an answer, its \<open>assert\<close>
  holds, and it leaves the position as it found it: a well-formed board with the old sizes,
  colours, capture counts, hash and ko point. If the answer is yes, \<open>workingMoves\<close> is not empty and
  each move in it is a liberty of the chain at which the opponent may move; otherwise
  \<open>workingMoves\<close> is untouched. Excepted is a run in which one of the two searches it makes is at its
  depth limit at the very turn its node budget is used up (\<open>attack_limits\<close>).
\<close>

theorem ladder_attack_returns:
  assumes wf: "wf_board Z b" and lim: "\<not> attack_limits Z loc (b, buf)"
  shows "\<exists>v b' buf' moves. searchIsLadderCapturedAttackerFirst2Libs Z loc (b, buf, workingMoves) = Some (v, b', buf', moves) \<and>
     wf_board Z b' \<and> same_board b b' \<and>
     (if v then moves \<noteq> [] \<and> (\<forall>m\<in>set moves. isLegal b m (getOpp (colors b loc)) False \<and> colors b m = C_EMPTY \<and>
                 (\<exists>l\<in>group (x_size b) (colors b) loc. adjacent (x_size b) l m))
      else moves = workingMoves)"
  by (rule attack_ok [OF wf lim])

text \<open>Both searches of a run end within \<open>n\<close> turns.\<close>

definition try_ends :: "nat \<Rightarrow> zobrist \<Rightarrow> loc \<Rightarrow> player \<Rightarrow> loc \<Rightarrow> board \<times> loc list \<Rightarrow> bool" where
  "try_ends n Z loc pla mv = (\<lambda>(b, buf). \<not> isLegal b mv pla False \<or>
     (case playMoveAssumeLegal Z mv pla b of None \<Rightarrow> True | Some b1 \<Rightarrow>
        ends_within Z loc (colors b1 loc) True (ko_loc b1) (ladder_depth b1) n (ladder_start True b1 buf)))"

definition attack_ends :: "nat \<Rightarrow> zobrist \<Rightarrow> loc \<Rightarrow> board \<times> loc list \<Rightarrow> bool" where
  "attack_ends n Z loc = (\<lambda>(b, buf).
     case findLiberties b loc buf 0 0 of
       None \<Rightarrow> True
     | Some (buf, k) \<Rightarrow>
         let opp = getOpp (colors b loc); move0 = buf_get buf 0; move1 = buf_get buf 1
         in try_ends n Z loc opp move0 (b, buf) \<and>
            (case try_ladder_move Z loc opp move0 (b, buf) of
               None \<Rightarrow> True
             | Some (works, b, buf) \<Rightarrow> try_ends n Z loc opp move1 (b, buf)))"

lemma try_ends_limits: "try_ends n Z loc pla mv s \<Longrightarrow> \<not> try_limits Z loc pla mv s"
  using ends_within_limits by (auto simp: try_ends_def try_limits_def split: option.splits)

lemma attack_ends_limits: "attack_ends n Z loc s \<Longrightarrow> \<not> attack_limits Z loc s"
  using try_ends_limits by (fastforce simp: attack_ends_def attack_limits_def Let_def split: option.splits)

lemma ladder_board_attack: "attack_ends 40 demo_zobrist 5 (ladder_board, [])"
  by code_simp

theorem ladder_attack_returns_witness:
  "\<exists>b' buf' moves. searchIsLadderCapturedAttackerFirst2Libs demo_zobrist 5 (ladder_board, [], [99]) = Some (True, b', buf', moves) \<and>
     moves = [6, 9] \<and> wf_board demo_zobrist b' \<and> same_board ladder_board b' \<and>
     (\<forall>m\<in>{6, 9}. isLegal ladder_board m C_WHITE False)"
proof -
  have "map_option (\<lambda>(v, b, buf, moves). (v, moves)) (searchIsLadderCapturedAttackerFirst2Libs demo_zobrist 5 (ladder_board, [], [99])) =
     Some (True, [6, 9])" by code_simp
  moreover have "getOpp (colors ladder_board 5) = C_WHITE" by code_simp
  ultimately show ?thesis
    using ladder_attack_returns [OF ladder_board_wf attack_ends_limits [OF ladder_board_attack], of "[99]"] by auto
qed

end
