(* ===== verification/LocalPattern.thy ===== *)
theory LocalPattern
  imports Symmetry
begin

text \<open>
  Hashes of the stones around a point (\<open>search/localpattern.h\<close>, \<open>search/localpattern.cpp\<close>), also
  as they would be on a mirrored board with colours exchanged. The vectors of random hashes are
  functions of the index; \<open>None\<close> is a failed assertion.
\<close>

definition NUM_BOARD_COLORS :: int where "NUM_BOARD_COLORS = 4"

record LocalPatternHasher =
  lp_xSize :: int
  lp_ySize :: int
  zobristLocalPattern :: "int \<Rightarrow> hash128"
  zobristPla :: "int \<Rightarrow> hash128"
  zobristAtari :: "int \<Rightarrow> hash128"

text \<open>\<open>(int)board.colors[loc]\<close>\<close>

fun color_int :: "color \<Rightarrow> int" where
  "color_int C_EMPTY = 0"
| "color_int C_BLACK = 1"
| "color_int C_WHITE = 2"
| "color_int C_WALL = 3"

text \<open>\<open>LocalPatternHasher::init\<close>, for any generator with \<open>nextUInt64\<close> as \<open>next\<close>.\<close>

definition init_pattern ::
  "('r \<Rightarrow> u64 \<times> 'r) \<Rightarrow> int \<Rightarrow> LocalPatternHasher \<times> 'r \<Rightarrow> LocalPatternHasher \<times> 'r" where
  "init_pattern next k = (\<lambda>(H, r). let (h, r) = nextHash next r
     in (H\<lparr>zobristLocalPattern := (zobristLocalPattern H)(k := h)\<rparr>, r))"

definition init_pla ::
  "('r \<Rightarrow> u64 \<times> 'r) \<Rightarrow> int \<Rightarrow> LocalPatternHasher \<times> 'r \<Rightarrow> LocalPatternHasher \<times> 'r" where
  "init_pla next i = (\<lambda>(H, r). let (h, r) = nextHash next r
     in (H\<lparr>zobristPla := (zobristPla H)(i := h)\<rparr>, r))"

definition init_atari ::
  "('r \<Rightarrow> u64 \<times> 'r) \<Rightarrow> int \<Rightarrow> LocalPatternHasher \<times> 'r \<Rightarrow> LocalPatternHasher \<times> 'r" where
  "init_atari next k = (\<lambda>(H, r). let (h, r) = nextHash next r
     in (H\<lparr>zobristAtari := (zobristAtari H)(k := h)\<rparr>, r))"

definition LocalPatternHasher_init ::
  "('r \<Rightarrow> u64 \<times> 'r) \<Rightarrow> int \<Rightarrow> int \<Rightarrow> LocalPatternHasher \<times> 'r \<Rightarrow> (LocalPatternHasher \<times> 'r) option" where
  "LocalPatternHasher_init next x y = (\<lambda>(H, r).
     let H = H\<lparr>lp_xSize := x, lp_ySize := y\<rparr>
     in if \<not> (x > 0 \<and> x smod 2 = 1) then None
        else if \<not> (y > 0 \<and> y smod 2 = 1) then None
        else
          let s = fold (\<lambda>i. fold (\<lambda>dy. fold (\<lambda>dx. init_pattern next (i * y * x + dy * x + dx)) [0..x - 1]) [0..y - 1])
                    [0..NUM_BOARD_COLORS - 1] (H, r);
              s = fold (init_pla next) [0..NUM_BOARD_COLORS - 1] s
          in Some (fold (\<lambda>dy. fold (\<lambda>dx. init_atari next (dy * x + dx)) [0..x - 1]) [0..y - 1] s))"

text \<open>The range of offsets in one direction: \<open>if(x < xRadius) ... else if(x >= x_size-xRadius) ...\<close>\<close>

definition window_range :: "int \<Rightarrow> int \<Rightarrow> int \<Rightarrow> int \<times> int" where
  "window_range x radius len =
     (if x < radius then (- x, radius)
      else if x \<ge> len - radius then (- radius, len - 1 - x)
      else (- radius, radius))"

text \<open>The two nested loops over the window around a point.\<close>

definition over_window ::
  "LocalPatternHasher \<Rightarrow> board \<Rightarrow> loc \<Rightarrow> (int \<Rightarrow> int \<Rightarrow> hash128 \<Rightarrow> hash128) \<Rightarrow> hash128 \<Rightarrow> hash128" where
  "over_window H b loc f hash =
     (let xRadius = lp_xSize H sdiv 2; yRadius = lp_ySize H sdiv 2;
          x = getX loc (x_size b); y = getY loc (x_size b);
          (dxMin, dxMax) = window_range x xRadius (x_size b);
          (dyMin, dyMax) = window_range y yRadius (y_size b)
      in fold (\<lambda>dy. fold (\<lambda>dx. f dx dy) [dxMin..dxMax]) [dyMin..dyMax] hash)"

definition in_atari :: "board \<Rightarrow> loc \<Rightarrow> bool" where
  "in_atari b loc \<longleftrightarrow> (colors b loc = P_BLACK \<or> colors b loc = P_WHITE) \<and> getNumLiberties b loc = 1"

definition getHash :: "LocalPatternHasher \<Rightarrow> board \<Rightarrow> loc \<Rightarrow> player \<Rightarrow> hash128 option" where
  "getHash H b loc pla =
     (let hash = zobristPla H (color_int pla)
      in if loc \<noteq> PASS_LOC \<and> loc \<noteq> NULL_LOC then
           let dxi = adj_offsets b ! 2; dyi = adj_offsets b ! 3
           in if dxi \<noteq> 1 \<or> dyi \<noteq> x_size b + 1 then None
              else Some (over_window H b loc (\<lambda>dx dy hash.
                     let loc2 = to_loc (loc + dx * dxi + dy * dyi);
                         y2 = dy + lp_ySize H sdiv 2;
                         x2 = dx + lp_xSize H sdiv 2;
                         xy2 = y2 * lp_xSize H + x2;
                         hash = hxor hash (zobristLocalPattern H (color_int (colors b loc2) * lp_xSize H * lp_ySize H + xy2))
                     in if in_atari b loc2 then hxor hash (zobristAtari H xy2) else hash) hash)
         else Some hash)"

definition getHashWithSym ::
  "LocalPatternHasher \<Rightarrow> board \<Rightarrow> loc \<Rightarrow> player \<Rightarrow> int \<Rightarrow> bool \<Rightarrow> hash128 option" where
  "getHashWithSym H b loc pla symmetry flipColors =
     (let symPla = (if flipColors then getOpp pla else pla);
          hash = zobristPla H (color_int symPla)
      in if loc \<noteq> PASS_LOC \<and> loc \<noteq> NULL_LOC then
           let dxi = adj_offsets b ! 2; dyi = adj_offsets b ! 3;
               transpose = isTranspose symmetry; flipX = isFlipX symmetry; flipY = isFlipY symmetry
           in if dxi \<noteq> 1 \<or> dyi \<noteq> x_size b + 1 then None
              else Some (over_window H b loc (\<lambda>dx dy hash.
                     let loc2 = to_loc (loc + dx * dxi + dy * dyi);
                         y2 = dy + lp_ySize H sdiv 2;
                         x2 = dx + lp_xSize H sdiv 2;
                         symX2 = (if flipX then lp_xSize H - x2 - 1 else x2);
                         symY2 = (if flipY then lp_ySize H - y2 - 1 else y2);
                         symXY2 = (if transpose then symX2 * lp_ySize H + symY2 else symY2 * lp_xSize H + symX2);
                         symColor = (if colors b loc2 = P_BLACK \<or> colors b loc2 = P_WHITE
                                     then color_int (if flipColors then getOpp (colors b loc2) else colors b loc2)
                                     else color_int (colors b loc2));
                         hash = hxor hash (zobristLocalPattern H (symColor * lp_xSize H * lp_ySize H + symXY2))
                     in if in_atari b loc2 then hxor hash (zobristAtari H symXY2) else hash) hash)
         else Some hash)"

end
