(* ===== verification/PatternBonus.thy ===== *)
theory PatternBonus
  imports LocalPattern Moves
begin

text \<open>
  The table of bonuses for local patterns (\<open>search/patternbonustable.cpp\<close>): its keys, its lookup,
  and adding a bonus for a move or for all moves of a game under every symmetry. A bonus is a
  double in the code; here it is of any type with the addition \<open>fadd\<close> and the zero \<open>fzero\<close>, so
  nothing depends on rounding.
\<close>

text \<open>The static tables of the file: \<open>patternHasher\<close> and \<open>ZOBRIST_MOVE_LOCS\<close>.\<close>

record PatternStatics =
  patternHasher :: LocalPatternHasher
  ZOBRIST_MOVE_LOCS :: "loc \<Rightarrow> hash128"

text \<open>\<open>initIfNeeded\<close>, at its first call; \<open>rand_init\<close> seeds the generator with a string.\<close>

definition initIfNeeded ::
  "(string \<Rightarrow> 'r) \<Rightarrow> ('r \<Rightarrow> u64 \<times> 'r) \<Rightarrow> PatternStatics \<Rightarrow> PatternStatics option" where
  "initIfNeeded rand_init next S =
     Option.bind (LocalPatternHasher_init next 9 9 (patternHasher S, rand_init ''PatternBonusTable ZOBRIST STUFF''))
       (\<lambda>(H, _).
         let (S, _) = fold (\<lambda>i (S, r). let (h, r) = nextHash next r
                              in (S\<lparr>ZOBRIST_MOVE_LOCS := (ZOBRIST_MOVE_LOCS S)(i := h)\<rparr>, r))
                        [0..MAX_ARR_SIZE - 1]
                        (S\<lparr>patternHasher := H\<rparr>,
                         rand_init ''Reseed PatternBonusTable zobrist so that zobrists don't change when Board::MAX_ARR_SIZE changes'')
         in Some S)"

text \<open>\<open>PatternBonusTable\<close>: the vector of maps \<open>entries\<close>.\<close>

type_synonym 'd bonus_table = "(hash128 \<rightharpoonup> 'd) list"

definition PatternBonusTable_new :: "nat \<Rightarrow> 'd bonus_table" where
  "PatternBonusTable_new numShards = replicate numShards (\<lambda>_. None)"

text \<open>\<open>None\<close> where the pattern hash fails its assertions; the zero hash means no bonus.\<close>

definition bonus_hash ::
  "zobrist \<Rightarrow> PatternStatics \<Rightarrow> player \<Rightarrow> loc \<Rightarrow> board \<Rightarrow> hash128 option" where
  "bonus_hash Z S pla moveLoc b =
     (if moveLoc = NULL_LOC \<or> moveLoc = PASS_LOC \<or> wouldBeKoCapture b moveLoc pla then Some hash128_zero
      else Option.bind (getHash (patternHasher S) b moveLoc pla) (\<lambda>hash.
             let hash = hxor hash (ZOBRIST_MOVE_LOCS S moveLoc);
                 hash = hxor hash (ZOBRIST_SIZE_X_HASH Z (x_size b));
                 hash = hxor hash (ZOBRIST_SIZE_Y_HASH Z (y_size b))
             in Some hash))"

text \<open>\<open>hash.hash0 % entries.size()\<close>; no value without entries.\<close>

definition bonus_shard :: "'d bonus_table \<Rightarrow> hash128 \<Rightarrow> nat option" where
  "bonus_shard t hash = (if length t = 0 then None else Some (unat (hash0 hash) mod length t))"

definition bonus_get :: "'d \<Rightarrow> 'd bonus_table \<Rightarrow> hash128 \<Rightarrow> 'd option" where
  "bonus_get fzero t hash =
     (if hash = hash128_zero then Some fzero
      else Option.bind (bonus_shard t hash) (\<lambda>i. case (t ! i) hash of None \<Rightarrow> Some fzero | Some e \<Rightarrow> Some e))"

definition bonus_get_move ::
  "'d \<Rightarrow> zobrist \<Rightarrow> PatternStatics \<Rightarrow> 'd bonus_table \<Rightarrow> player \<Rightarrow> loc \<Rightarrow> board \<Rightarrow> 'd option" where
  "bonus_get_move fzero Z S t pla moveLoc b = Option.bind (bonus_hash Z S pla moveLoc b) (bonus_get fzero t)"

text \<open>\<open>subMap[hash].utilityBonus += bonus\<close>; a new entry starts from \<open>fzero\<close>.\<close>

definition addBonus ::
  "('d \<Rightarrow> 'd \<Rightarrow> 'd) \<Rightarrow> 'd \<Rightarrow> zobrist \<Rightarrow> PatternStatics \<Rightarrow> player \<Rightarrow> loc \<Rightarrow> board \<Rightarrow> 'd \<Rightarrow> int \<Rightarrow> bool \<Rightarrow>
   'd bonus_table \<times> hash128 set \<Rightarrow> ('d bonus_table \<times> hash128 set) option" where
  "addBonus fadd fzero Z S pla moveLoc b bonus symmetry flipColors = (\<lambda>(t, hashesThisGame).
     if moveLoc = NULL_LOC \<or> moveLoc = PASS_LOC \<or> wouldBeKoCapture b moveLoc pla then Some (t, hashesThisGame)
     else
       Option.bind (getHashWithSym (patternHasher S) b moveLoc pla symmetry flipColors) (\<lambda>hash.
       let hash = hxor hash (ZOBRIST_MOVE_LOCS S (getSymLoc moveLoc (x_size b) (y_size b) symmetry));
           hash = (if isTranspose symmetry
                   then hxor (hxor hash (ZOBRIST_SIZE_X_HASH Z (y_size b))) (ZOBRIST_SIZE_Y_HASH Z (x_size b))
                   else hxor (hxor hash (ZOBRIST_SIZE_X_HASH Z (x_size b))) (ZOBRIST_SIZE_Y_HASH Z (y_size b)))
       in if hash \<in> hashesThisGame then Some (t, hashesThisGame)
          else
            let hashesThisGame = insert hash hashesThisGame
            in Option.bind (bonus_shard t hash) (\<lambda>i.
                 let old = (case (t ! i) hash of None \<Rightarrow> fzero | Some e \<Rightarrow> e)
                 in Some (t[i := (t ! i)(hash \<mapsto> fadd old bonus)], hashesThisGame))))"

text \<open>The loops over both colourings and all eight symmetries.\<close>

definition all_images :: "(bool \<times> int) list" where
  "all_images = [(flipColors, symmetry). flipColors \<leftarrow> [False, True], symmetry \<leftarrow> [0..7]]"

definition addBonus_images ::
  "('d \<Rightarrow> 'd \<Rightarrow> 'd) \<Rightarrow> 'd \<Rightarrow> zobrist \<Rightarrow> PatternStatics \<Rightarrow> player \<Rightarrow> loc \<Rightarrow> board \<Rightarrow> 'd \<Rightarrow>
   'd bonus_table \<times> hash128 set \<Rightarrow> ('d bonus_table \<times> hash128 set) option" where
  "addBonus_images fadd fzero Z S pla moveLoc b bonus s =
     foldM (\<lambda>(flipColors, symmetry). addBonus fadd fzero Z S pla moveLoc b bonus symmetry flipColors) all_images s"

text \<open>One turn of the replay: \<open>Inl\<close> is the \<open>break\<close>.\<close>

definition bonus_turn ::
  "('d \<Rightarrow> 'd \<Rightarrow> 'd) \<Rightarrow> 'd \<Rightarrow> zobrist \<Rightarrow> PatternStatics \<Rightarrow> 'd \<Rightarrow> player \<Rightarrow> Move \<Rightarrow>
   (board \<times> history) \<times> 'd bonus_table \<times> hash128 set \<Rightarrow>
   ('d bonus_table \<times> hash128 set + (board \<times> history) \<times> 'd bonus_table \<times> hash128 set) option" where
  "bonus_turn fadd fzero Z S bonus onlyPla m = (\<lambda>(bh, s).
     Option.bind (makeBoardMoveTolerant Z (mv_loc m) (mv_pla m) bh) (\<lambda>(bh, suc).
       if \<not> suc then Some (Inl s)
       else if onlyPla = C_EMPTY \<or> onlyPla = mv_pla m then
         Option.bind (getRecentBoard (snd bh) 1) (\<lambda>b.
         Option.bind (addBonus_images fadd fzero Z S (mv_pla m) (mv_loc m) b bonus s) (\<lambda>s. Some (Inr (bh, s))))
       else Some (Inr (bh, s))))"

definition addBonusForGameMoves ::
  "('d \<Rightarrow> 'd \<Rightarrow> 'd) \<Rightarrow> 'd \<Rightarrow> zobrist \<Rightarrow> PatternStatics \<Rightarrow> history \<Rightarrow> 'd \<Rightarrow> player \<Rightarrow> 'd bonus_table \<Rightarrow> 'd bonus_table option" where
  "addBonusForGameMoves fadd fzero Z S game bonus onlyPla t =
     Option.bind (BoardHistory_new Z (initialBoard game) (initialPla game) (hist_rules game)
                    (initialEncorePhase game) (modes game)) (\<lambda>hist.
     Option.bind (foldRM (bonus_turn fadd fzero Z S bonus onlyPla) (moveHistory game) ((initialBoard game, hist), t, {}))
       (\<lambda>r. Some (case r of Inl (t, _) \<Rightarrow> t | Inr (_, t, _) \<Rightarrow> t)))"

text \<open>The overload for the moves of both players.\<close>

definition addBonusForAllGameMoves ::
  "('d \<Rightarrow> 'd \<Rightarrow> 'd) \<Rightarrow> 'd \<Rightarrow> zobrist \<Rightarrow> PatternStatics \<Rightarrow> history \<Rightarrow> 'd \<Rightarrow> 'd bonus_table \<Rightarrow> 'd bonus_table option" where
  "addBonusForAllGameMoves fadd fzero Z S game bonus t = addBonusForGameMoves fadd fzero Z S game bonus C_EMPTY t"

end
