(* ===== verification/PatternLaws.thy ===== *)
theory PatternLaws
  imports PatternBonus SymmetryBoard LadderTotal
begin

text \<open>
  Local patterns under symmetries and exchange of colours: groups, liberties and ko captures of
  the image of a board are the images of those of the board, and so are the windows of a
  pattern where the board is large enough.
\<close>

section \<open>The image of a board, colours exchanged or not\<close>

definition flip_color :: "bool \<Rightarrow> color \<Rightarrow> color" where
  "flip_color f c = (if f \<and> is_stone c then getOpp c else c)"

lemma flip_color_simps [simp]:
  "flip_color f C_EMPTY = C_EMPTY" "flip_color f C_WALL = C_WALL" "is_stone (flip_color f c) = is_stone c"
  "flip_color f (flip_color f c) = c" "flip_color f c = flip_color f d \<longleftrightarrow> c = d" "flip_color f c = C_EMPTY \<longleftrightarrow> c = C_EMPTY"
  by (cases c; cases d; simp add: flip_color_def is_stone_def)+

lemma flip_color_opp: "is_stone p \<Longrightarrow> flip_color f (getOpp p) = getOpp (flip_color f p)"
  by (cases p) (simp_all add: flip_color_def is_stone_def)

definition image_of :: "zobrist \<Rightarrow> int \<Rightarrow> bool \<Rightarrow> board \<Rightarrow> board \<Rightarrow> bool" where
  "image_of Z s f b b' \<longleftrightarrow> wf_board Z b \<and> wf_board Z b' \<and> 0 \<le> s \<and> s < 8 \<and>
     (x_size b', y_size b') = sym_size s (x_size b, y_size b) \<and>
     (\<forall>l. on_board (x_size b) (y_size b) l \<longrightarrow>
        colors b' (getSymLoc l (x_size b) (y_size b) s) = flip_color f (colors b l))"

abbreviation (input) sym_loc :: "int \<Rightarrow> board \<Rightarrow> loc \<Rightarrow> loc" where
  "sym_loc s b l \<equiv> getSymLoc l (x_size b) (y_size b) s"

lemma wf_sizes:
  assumes "wf_board Z b"
  shows "x_size b \<le> MAX_LEN" "y_size b \<le> MAX_LEN"
    "colors b l = C_WALL \<longleftrightarrow> \<not> on_board (x_size b) (y_size b) l"
    "is_stone (colors b l) \<Longrightarrow> on_board (x_size b) (y_size b) l"
    "colors b l = C_EMPTY \<Longrightarrow> on_board (x_size b) (y_size b) l"
proof -
  have g: "geom_ok b" using assms by (simp add: wf_board_def core_def)
  then show "x_size b \<le> MAX_LEN" "y_size b \<le> MAX_LEN" and w: "colors b l = C_WALL \<longleftrightarrow> \<not> on_board (x_size b) (y_size b) l"
    by (simp_all add: geom_ok_def)
  show "is_stone (colors b l) \<Longrightarrow> on_board (x_size b) (y_size b) l" "colors b l = C_EMPTY \<Longrightarrow> on_board (x_size b) (y_size b) l"
    using w by (auto simp: is_stone_def)
qed

lemma image_points:
  assumes i: "image_of Z s f b b'"
  shows "on_board (x_size b) (y_size b) l \<Longrightarrow> on_board (x_size b') (y_size b') (sym_loc s b l)"
    "on_board (x_size b) (y_size b) l \<Longrightarrow> sym_loc (invert s) b' (sym_loc s b l) = l"
    "on_board (x_size b) (y_size b) l \<Longrightarrow> on_board (x_size b) (y_size b) m \<Longrightarrow> adjacent (x_size b) l m \<Longrightarrow>
      adjacent (x_size b') (sym_loc s b l) (sym_loc s b m)"
    "sym_size s (x_size b, y_size b) = (x_size b', y_size b')"
proof -
  have wf: "wf_board Z b" and s: "0 \<le> s" "s < 8" and z: "sym_size s (x_size b, y_size b) = (x_size b', y_size b')"
    using i by (simp_all add: image_of_def)
  note M = wf_sizes(1,2) [OF wf]
  show "sym_size s (x_size b, y_size b) = (x_size b', y_size b')" by (rule z)
  show "on_board (x_size b) (y_size b) l \<Longrightarrow> on_board (x_size b') (y_size b') (sym_loc s b l)"
    by (rule getSymLoc_on_board(1) [OF _ M z])
  show "on_board (x_size b) (y_size b) l \<Longrightarrow> sym_loc (invert s) b' (sym_loc s b l) = l"
    by (rule getSymLoc_invert [OF _ M z s]) (simp add: is_point_def)
  show "on_board (x_size b) (y_size b) l \<Longrightarrow> on_board (x_size b) (y_size b) m \<Longrightarrow> adjacent (x_size b) l m \<Longrightarrow>
      adjacent (x_size b') (sym_loc s b l) (sym_loc s b m)"
    by (rule getSymLoc_adjacent [OF _ _ M z])
qed

lemma image_inverse:
  assumes i: "image_of Z s f b b'"
  shows "image_of Z (invert s) f b' b"
proof -
  have wf: "wf_board Z b" and s: "0 \<le> s" "s < 8" and z: "sym_size s (x_size b, y_size b) = (x_size b', y_size b')"
    and c: "\<And>l. on_board (x_size b) (y_size b) l \<Longrightarrow> colors b' (sym_loc s b l) = flip_color f (colors b l)"
    using i by (simp_all add: image_of_def)
  have "colors b (sym_loc (invert s) b' m) = flip_color f (colors b' m)" if m: "on_board (x_size b') (y_size b') m" for m
  proof -
    obtain l where "on_board (x_size b) (y_size b) l" "m = sym_loc s b l"
      by (rule on_board_preimage [OF m wf_sizes(1,2) [OF wf] z s])
    then show ?thesis using c image_points(2) [OF i] by simp
  qed
  then show ?thesis using i sym_size_invert [OF z s] invert_table [OF s] by (simp add: image_of_def)
qed

lemma image_back:
  assumes "image_of Z s f b b'" "on_board (x_size b') (y_size b') m"
  obtains l where "on_board (x_size b) (y_size b) l" "m = sym_loc s b l"
  using image_points(1,2) [OF image_inverse [OF assms(1)] assms(2)] by auto

lemma image_color: "image_of Z s f b b' \<Longrightarrow> on_board (x_size b) (y_size b) l \<Longrightarrow> colors b' (sym_loc s b l) = flip_color f (colors b l)"
  by (simp add: image_of_def)

lemma image_group_subset:
  assumes i: "image_of Z s f b b'" and l: "is_stone (colors b l)" and m: "m \<in> group (x_size b) (colors b) l"
  shows "sym_loc s b m \<in> group (x_size b') (colors b') (sym_loc s b l) \<and> is_stone (colors b m)"
proof -
  have wf: "wf_board Z b" using i by (simp add: image_of_def)
  note ob = wf_sizes(4) [OF wf]
  have "(l, m) \<in> {(u, v). adjacent (x_size b) u v \<and> colors b u = colors b l \<and> colors b v = colors b l}\<^sup>*"
    using m by (simp add: group_def)
  then have "sym_loc s b m \<in> group (x_size b') (colors b') (sym_loc s b l) \<and> colors b m = colors b l"
  proof (induction rule: rtrancl_induct)
    case base
    then show ?case by (simp add: group_def)
  next
    case (step u v)
    have "on_board (x_size b) (y_size b) u" "on_board (x_size b) (y_size b) v" "on_board (x_size b) (y_size b) l"
      using step(2) ob l by auto
    then show ?case
      using step image_points(3) [OF i, of u v] image_color [OF i]
        group_step [of "sym_loc s b u" "x_size b'" "colors b'" "sym_loc s b l" "sym_loc s b v"] by auto
  qed
  then show ?thesis using l by simp
qed

lemma image_group:
  assumes i: "image_of Z s f b b'" and l: "is_stone (colors b l)"
  shows "group (x_size b') (colors b') (sym_loc s b l) = sym_loc s b ` group (x_size b) (colors b) l"
proof
  have wf: "wf_board Z b" using i by (simp add: image_of_def)
  have ob: "on_board (x_size b) (y_size b) l" by (rule wf_sizes(4) [OF wf l])
  show "sym_loc s b ` group (x_size b) (colors b) l \<subseteq> group (x_size b') (colors b') (sym_loc s b l)"
    using image_group_subset [OF i l] by blast
  show "group (x_size b') (colors b') (sym_loc s b l) \<subseteq> sym_loc s b ` group (x_size b) (colors b) l"
  proof
    fix m assume m: "m \<in> group (x_size b') (colors b') (sym_loc s b l)"
    have "is_stone (colors b' (sym_loc s b l))" using image_color [OF i ob] l by simp
    note 1 = image_group_subset [OF image_inverse [OF i] this m]
    have wf': "wf_board Z b'" using i by (simp add: image_of_def)
    have "on_board (x_size b') (y_size b') m" by (rule wf_sizes(4) [OF wf']) (use 1 in simp)
    then have "sym_loc s b (sym_loc (invert s) b' m) = m"
      using image_points(2) [OF image_inverse [OF i], of m] by simp
    then show "m \<in> sym_loc s b ` group (x_size b) (colors b) l"
      using 1 image_points(2) [OF i ob] by (metis image_eqI)
  qed
qed

lemma image_inj: "image_of Z s f b b' \<Longrightarrow> inj_on (sym_loc s b) {l. on_board (x_size b) (y_size b) l}"
  by (rule inj_on_inverseI [of _ "sym_loc (invert s) b'"]) (simp add: image_points(2))

lemma image_liberties:
  assumes i: "image_of Z s f b b'" and l: "is_stone (colors b l)"
  shows "liberty_count b' (sym_loc s b l) = liberty_count b l"
proof -
  have wf: "wf_board Z b" "wf_board Z b'" using i by (simp_all add: image_of_def)
  let ?g = "group (x_size b) (colors b) l"
  let ?L = "{e. colors b e = C_EMPTY \<and> (\<exists>m\<in>?g. adjacent (x_size b) m e)}"
  let ?L' = "{e. colors b' e = C_EMPTY \<and> (\<exists>m\<in>group (x_size b') (colors b') (sym_loc s b l). adjacent (x_size b') m e)}"
  have g: "on_board (x_size b) (y_size b) m" if "m \<in> ?g" for m
    using image_group_subset [OF i l that] wf_sizes(4) [OF wf(1)] by blast
  have "?L' = sym_loc s b ` ?L"
  proof
    show "sym_loc s b ` ?L \<subseteq> ?L'"
    proof
      fix e' assume "e' \<in> sym_loc s b ` ?L"
      then obtain e m where e: "e' = sym_loc s b e" "colors b e = C_EMPTY" "m \<in> ?g" "adjacent (x_size b) m e" by blast
      have ob: "on_board (x_size b) (y_size b) e" by (rule wf_sizes(5) [OF wf(1) e(2)])
      then show "e' \<in> ?L'"
        using e image_color [OF i ob] image_points(3) [OF i g ob e(4)] unfolding image_group [OF i l] by auto
    qed
    show "?L' \<subseteq> sym_loc s b ` ?L"
    proof
      fix e' assume "e' \<in> ?L'"
      then obtain m where e: "colors b' e' = C_EMPTY" and m: "m \<in> ?g" "adjacent (x_size b') (sym_loc s b m) e'"
        unfolding image_group [OF i l] by blast
      have ob': "on_board (x_size b') (y_size b') e'" by (rule wf_sizes(5) [OF wf(2) e])
      obtain e0 where e0: "on_board (x_size b) (y_size b) e0" "e' = sym_loc s b e0" by (rule image_back [OF i ob'])
      have "adjacent (x_size b) m e0"
        using image_points(3) [OF image_inverse [OF i] image_points(1) [OF i g [OF m(1)]] ob' m(2)]
          image_points(2) [OF i] e0 g [OF m(1)] by simp
      then show "e' \<in> sym_loc s b ` ?L" using e0 e m(1) image_color [OF i e0(1)] by auto
    qed
  qed
  moreover have "inj_on (sym_loc s b) ?L"
    by (rule inj_on_subset [OF image_inj [OF i]]) (use wf_sizes(5) [OF wf(1)] in auto)
  ultimately show ?thesis by (simp add: liberty_count_def card_image)
qed

lemma wf_chain_counts:
  assumes wf: "wf_board Z b" and l: "is_stone (colors b l)"
  shows "getNumLiberties b l = int (liberty_count b l)"
    "num_locs (chain_data b (chain_head b l)) = int (card (group (x_size b) (colors b) l))"
proof -
  have core: "core Z (\<lambda>_. 0) {} b" and c: "chains_ok b (\<lambda>_. 0)" and mx: "max_ok b {}"
    using wf by (simp_all add: wf_board_def core_def)
  show "getNumLiberties b l = int (liberty_count b l)"
    using liberty_count_eq(1) [OF core l] by (simp add: getNumLiberties_def)
  have "group (x_size b) (colors b) l = chain_of b (chain_head b l)"
    by (rule chain_group [OF c l]) (use mx l in \<open>auto simp: max_ok_def\<close>)
  then show "num_locs (chain_data b (chain_head b l)) = int (card (group (x_size b) (colors b) l))"
    using chains_ok_chain [OF c chains_ok_head [OF c l]] by (simp add: chain_ok_def)
qed

lemma image_counts:
  assumes i: "image_of Z s f b b'" and l: "is_stone (colors b l)"
  shows "getNumLiberties b' (sym_loc s b l) = getNumLiberties b l"
    "num_locs (chain_data b' (chain_head b' (sym_loc s b l))) = num_locs (chain_data b (chain_head b l))"
proof -
  have wf: "wf_board Z b" "wf_board Z b'" using i by (simp_all add: image_of_def)
  have l': "is_stone (colors b' (sym_loc s b l))" using image_color [OF i wf_sizes(4) [OF wf(1) l]] l by simp
  note 1 = wf_chain_counts [OF wf(1) l] and 2 = wf_chain_counts [OF wf(2) l']
  show "getNumLiberties b' (sym_loc s b l) = getNumLiberties b l"
    using 1(1) 2(1) image_liberties [OF i l] by simp
  have "inj_on (sym_loc s b) (group (x_size b) (colors b) l)"
    by (rule inj_on_subset [OF image_inj [OF i]]) (use image_group_subset [OF i l] wf_sizes(4) [OF wf(1)] in blast)
  then show "num_locs (chain_data b' (chain_head b' (sym_loc s b l))) = num_locs (chain_data b (chain_head b l))"
    using 1(2) 2(2) image_group [OF i l] by (simp add: card_image)
qed

lemma image_atari:
  "image_of Z s f b b' \<Longrightarrow> on_board (x_size b) (y_size b) l \<Longrightarrow> in_atari b' (sym_loc s b l) = in_atari b l"
  using image_counts(1) [of Z s f b b' l] image_color [of Z s f b b' l]
  by (cases "is_stone (colors b l)") (auto simp: in_atari_def is_stone_def flip_color_def)

section \<open>Ko captures\<close>

lemma ko_fold:
  assumes "\<forall>a\<in>set as. P a \<longrightarrow> a \<noteq> NULL_LOC"
  shows "foldR (\<lambda>adj k. if bad adj then Inl () else if P adj then (if k \<noteq> NULL_LOC then Inl () else Inr adj) else Inr k) as k = Inr r \<longleftrightarrow>
    (\<forall>a\<in>set as. \<not> bad a) \<and> (if k = NULL_LOC then filter P as = [] \<and> r = NULL_LOC \<or> filter P as = [r] else filter P as = [] \<and> r = k)"
  using assms by (induction as arbitrary: k) (auto split: if_splits)

lemma filter_single:
  assumes "distinct as"
  shows "filter P as = [r] \<longleftrightarrow> {a \<in> set as. P a} = {r}"
proof -
  have "xs = [r] \<longleftrightarrow> set xs = {r}" if "distinct xs" for xs :: "'a list"
    using that by (cases xs rule: remdups_adj.cases) auto
  from this [of "filter P as"] show ?thesis using assms by simp
qed

lemma image_single:
  assumes "inj_on g S"
  shows "g ` S = {y} \<longleftrightarrow> (\<exists>x. S = {x} \<and> y = g x)"
proof
  assume e: "g ` S = {y}"
  then obtain x where x: "x \<in> S" "g x = y" by blast
  have "z = x" if "z \<in> S" for z using e x that inj_onD [OF assms, of z x] by blast
  then show "\<exists>x. S = {x} \<and> y = g x" using x by blast
qed auto

definition ko_targets :: "board \<Rightarrow> loc \<Rightarrow> player \<Rightarrow> loc set" where
  "ko_targets b loc opp = {a. adjacent (x_size b) loc a \<and> colors b a = opp \<and> getNumLiberties b a = 1}"

lemma wouldBeKoCapture_iff:
  assumes wf: "wf_board Z b" and p: "is_stone pla" and ob: "on_board (x_size b) (y_size b) loc"
  shows "wouldBeKoCapture b loc pla \<longleftrightarrow> colors b loc = C_EMPTY \<and>
    (\<forall>a. adjacent (x_size b) loc a \<and> on_board (x_size b) (y_size b) a \<longrightarrow> colors b a = getOpp pla) \<and>
    (\<exists>a. ko_targets b loc (getOpp pla) = {a} \<and> num_locs (chain_data b (chain_head b a)) = 1)"
proof -
  let ?o = "getOpp pla" let ?as = "adjs (x_size b) loc"
  let ?P = "\<lambda>a. colors b a = ?o \<and> getNumLiberties b a = 1"
  let ?bad = "\<lambda>a. colors b a \<noteq> C_WALL \<and> colors b a \<noteq> ?o"
  have g: "geom_ok b" using wf by (simp add: wf_board_def core_def)
  have x: "0 < x_size b" using ob by (auto simp: on_board_def)
  have d: "distinct ?as" using x by (simp add: adjs_def)
  have so: "is_stone ?o" using p by simp
  have nn: "a \<noteq> NULL_LOC" if "?P a" for a
    using that wf_sizes(4) [OF wf, of a] so on_board_in_array [OF wf, of a] by (auto simp: on_board_def NULL_LOC_def)
  have scan: "ko_scan b loc ?o = foldR (\<lambda>adj k. if ?bad adj then Inl () else if ?P adj then
      (if k \<noteq> NULL_LOC then Inl () else Inr adj) else Inr k) ?as NULL_LOC"
    unfolding ko_scan_def adj4_adjs [OF g] by simp
  have "ko_scan b loc ?o = Inr r \<longleftrightarrow> (\<forall>a\<in>set ?as. \<not> ?bad a) \<and> (filter ?P ?as = [] \<and> r = NULL_LOC \<or> filter ?P ?as = [r])" for r
    unfolding scan by (subst ko_fold) (use nn in auto)
  moreover have "filter ?P ?as = [r] \<longleftrightarrow> ko_targets b loc ?o = {r}" for r
    unfolding filter_single [OF d] by (simp add: ko_targets_def adjacent_def)
  moreover have "r \<noteq> NULL_LOC" if "ko_targets b loc ?o = {r}" for r
    using that nn by (auto simp: ko_targets_def)
  ultimately have "(\<exists>r. ko_scan b loc ?o = Inr r \<and> r \<noteq> NULL_LOC \<and> num_locs (chain_data b (chain_head b r)) = 1) \<longleftrightarrow>
      (\<forall>a\<in>set ?as. \<not> ?bad a) \<and> (\<exists>a. ko_targets b loc ?o = {a} \<and> num_locs (chain_data b (chain_head b a)) = 1)"
    by blast
  moreover have "(\<forall>a\<in>set ?as. \<not> ?bad a) \<longleftrightarrow>
      (\<forall>a. adjacent (x_size b) loc a \<and> on_board (x_size b) (y_size b) a \<longrightarrow> colors b a = ?o)"
    using wf_sizes(3) [OF wf] by (auto simp: adjacent_def)
  moreover have "wouldBeKoCapture b loc pla \<longleftrightarrow> colors b loc = C_EMPTY \<and>
      (\<exists>r. ko_scan b loc ?o = Inr r \<and> r \<noteq> NULL_LOC \<and> num_locs (chain_data b (chain_head b r)) = 1)"
    by (auto simp: wouldBeKoCapture_def split: sum.split)
  ultimately show ?thesis by simp
qed

lemma image_targets:
  assumes i: "image_of Z s f b b'" and p: "is_stone p" and ob: "on_board (x_size b) (y_size b) loc"
  shows "ko_targets b' (sym_loc s b loc) (flip_color f p) = sym_loc s b ` ko_targets b loc p"
proof
  have wf: "wf_board Z b" "wf_board Z b'" using i by (simp_all add: image_of_def)
  show "sym_loc s b ` ko_targets b loc p \<subseteq> ko_targets b' (sym_loc s b loc) (flip_color f p)"
  proof
    fix a' assume "a' \<in> sym_loc s b ` ko_targets b loc p"
    then obtain a where a: "a' = sym_loc s b a" "adjacent (x_size b) loc a" "colors b a = p" "getNumLiberties b a = 1"
      by (auto simp: ko_targets_def)
    have oa: "on_board (x_size b) (y_size b) a" by (rule wf_sizes(4) [OF wf(1)]) (use a p in simp)
    then show "a' \<in> ko_targets b' (sym_loc s b loc) (flip_color f p)"
      using a p image_points(3) [OF i ob oa] image_color [OF i oa] image_counts(1) [OF i, of a] by (simp add: ko_targets_def)
  qed
  show "ko_targets b' (sym_loc s b loc) (flip_color f p) \<subseteq> sym_loc s b ` ko_targets b loc p"
  proof
    fix a' assume "a' \<in> ko_targets b' (sym_loc s b loc) (flip_color f p)"
    then have a': "adjacent (x_size b') (sym_loc s b loc) a'" "colors b' a' = flip_color f p" "getNumLiberties b' a' = 1"
      by (auto simp: ko_targets_def)
    have oa': "on_board (x_size b') (y_size b') a'" by (rule wf_sizes(4) [OF wf(2)]) (use a' p in simp)
    obtain a where a: "on_board (x_size b) (y_size b) a" "a' = sym_loc s b a" by (rule image_back [OF i oa'])
    have "adjacent (x_size b) loc a"
      using image_points(3) [OF image_inverse [OF i] image_points(1) [OF i ob] oa' a'(1)] image_points(2) [OF i] ob a by simp
    moreover have "colors b a = p" using a'(2) image_color [OF i a(1)] a(2) by simp
    ultimately show "a' \<in> sym_loc s b ` ko_targets b loc p"
      using a a'(3) p image_counts(1) [OF i, of a] by (auto simp: ko_targets_def)
  qed
qed

lemma image_ko_capture:
  assumes i: "image_of Z s f b b'" and p: "is_stone pla" and ob: "on_board (x_size b) (y_size b) loc"
  shows "wouldBeKoCapture b' (sym_loc s b loc) (flip_color f pla) = wouldBeKoCapture b loc pla"
proof -
  have wf: "wf_board Z b" "wf_board Z b'" using i by (simp_all add: image_of_def)
  note ob' = image_points(1) [OF i ob]
  let ?o = "getOpp pla"
  have so: "is_stone ?o" "is_stone (flip_color f pla)" using p by simp_all
  have o': "getOpp (flip_color f pla) = flip_color f ?o" using flip_color_opp [OF p] by simp
  have "(\<forall>a. adjacent (x_size b') (sym_loc s b loc) a \<and> on_board (x_size b') (y_size b') a \<longrightarrow> colors b' a = flip_color f ?o) \<longleftrightarrow>
      (\<forall>a. adjacent (x_size b) loc a \<and> on_board (x_size b) (y_size b) a \<longrightarrow> colors b a = ?o)" (is "?l = ?r")
  proof
    assume l: ?l
    show ?r
    proof (intro allI impI)
      fix a assume a: "adjacent (x_size b) loc a \<and> on_board (x_size b) (y_size b) a"
      then have "colors b' (sym_loc s b a) = flip_color f ?o"
        using l image_points(1) [OF i, of a] image_points(3) [OF i ob, of a] by blast
      then show "colors b a = ?o" using image_color [OF i, of a] a by simp
    qed
  next
    assume r: ?r
    show ?l
    proof (intro allI impI)
      fix a' assume a': "adjacent (x_size b') (sym_loc s b loc) a' \<and> on_board (x_size b') (y_size b') a'"
      obtain a where a: "on_board (x_size b) (y_size b) a" "a' = sym_loc s b a" using image_back [OF i] a' by blast
      then have "adjacent (x_size b) loc a"
        using image_points(3) [OF image_inverse [OF i] ob', of a'] a' image_points(2) [OF i] ob by simp
      then show "colors b' a' = flip_color f ?o" using r a image_color [OF i a(1)] by simp
    qed
  qed
  moreover have "(\<exists>a. ko_targets b' (sym_loc s b loc) (flip_color f ?o) = {a} \<and> num_locs (chain_data b' (chain_head b' a)) = 1) \<longleftrightarrow>
      (\<exists>a. ko_targets b loc ?o = {a} \<and> num_locs (chain_data b (chain_head b a)) = 1)"
  proof -
    have st: "a \<in> ko_targets b loc ?o \<Longrightarrow> is_stone (colors b a)" for a using so by (auto simp: ko_targets_def)
    have "inj_on (sym_loc s b) (ko_targets b loc ?o)"
      by (rule inj_on_subset [OF image_inj [OF i]]) (use st wf_sizes(4) [OF wf(1)] in blast)
    then have "ko_targets b' (sym_loc s b loc) (flip_color f ?o) = {a'} \<longleftrightarrow>
        (\<exists>a. ko_targets b loc ?o = {a} \<and> a' = sym_loc s b a)" for a'
      unfolding image_targets [OF i so(1) ob] by (rule image_single)
    then show ?thesis using image_counts(2) [OF i st] by auto
  qed
  moreover have "colors b' (sym_loc s b loc) = C_EMPTY \<longleftrightarrow> colors b loc = C_EMPTY"
    using image_color [OF i ob] by simp
  ultimately show ?thesis
    unfolding wouldBeKoCapture_iff [OF wf(1) p ob] wouldBeKoCapture_iff [OF wf(2) so(2) ob'] o' by simp
qed

section \<open>Windows\<close>

text \<open>The offsets from the point \<open>(x, y)\<close> that stay in the window and on the board.\<close>

definition stays :: "int \<Rightarrow> int \<Rightarrow> int \<Rightarrow> int \<Rightarrow> bool" where
  "stays r len x d \<longleftrightarrow> \<bar>d\<bar> \<le> r \<and> 0 \<le> x + d \<and> x + d < len"

lemma stays_flip: "stays r len (len - x - 1) (- d) = stays r len x d"
  by (auto simp: stays_def)

definition window :: "int \<Rightarrow> int \<Rightarrow> int \<times> int \<Rightarrow> int \<times> int \<Rightarrow> (int \<times> int) set" where
  "window rx ry = (\<lambda>(xs, ys) (x, y). {(dx, dy). stays rx xs x dx \<and> stays ry ys y dy})"

definition offsets :: "int \<times> int \<Rightarrow> int \<times> int \<Rightarrow> (int \<times> int) list" where
  "offsets = (\<lambda>(a, b) (c, d). concat (map (\<lambda>dy. map (\<lambda>dx. (dx, dy)) [a..b]) [c..d]))"

lemma set_offsets: "set (offsets (a, b) (c, d)) = {a..b} \<times> {c..d}"
  by (auto simp: offsets_def)

lemma distinct_offsets: "distinct (offsets (a, b) (c, d))"
proof -
  have "distinct (concat (map (\<lambda>dy. map (\<lambda>dx. (dx, dy)) [a..b]) zs))" if "distinct zs" for zs :: "int list"
    using that by (induction zs) (auto simp: distinct_map inj_on_def)
  from this [of "[c..d]"] show ?thesis by (simp add: offsets_def)
qed

lemma fold_offsets:
  "fold (\<lambda>dy. fold (\<lambda>dx hash. hxor hash (t (dx, dy))) [a..b]) [c..d] hash = hxor hash (hxor_list (map t (offsets (a, b) (c, d))))"
proof -
  have row: "fold (\<lambda>dx hash. hxor hash (t (dx, dy))) xs h = hxor h (hxor_list (map (\<lambda>dx. t (dx, dy)) xs))" for dy xs h
    by (induction xs arbitrary: h) (simp_all add: hxor_ac)
  have "fold (\<lambda>dy. fold (\<lambda>dx hash. hxor hash (t (dx, dy))) [a..b]) zs h =
      hxor h (hxor_list (map t (concat (map (\<lambda>dy. map (\<lambda>dx. (dx, dy)) [a..b]) zs))))" for zs h
    by (induction zs arbitrary: h) (simp_all add: row comp_def hxor_ac)
  then show ?thesis by (simp add: offsets_def)
qed

lemma window_range_set:
  assumes "0 \<le> r" "2 * r \<le> len" "0 \<le> x" "x < len"
  shows "{fst (window_range x r len)..snd (window_range x r len)} = {d. stays r len x d}"
  using assms by (auto simp: window_range_def stays_def)

lemma hxor_list_image:
  assumes "distinct xs" "distinct ys" "set ys = g ` set xs" "inj_on g (set xs)" "\<forall>x\<in>set xs. t' (g x) = t x"
  shows "hxor_list (map t' ys) = hxor_list (map t xs)"
proof (rule hxor_list_mset)
  have "mset ys = mset (map g xs)"
    using assms(1-4) by (metis image_mset_mset_set mset_map mset_set_set)
  moreover have "map t' (map g xs) = map t xs" using assms(5) by simp
  ultimately show "mset (map t' ys) = mset (map t xs)" by (metis mset_map)
qed

text \<open>How a symmetry moves an offset.\<close>

definition sym_offset :: "int \<Rightarrow> int \<times> int \<Rightarrow> int \<times> int" where
  "sym_offset s = (\<lambda>(dx, dy). let dx' = (if isFlipX s then - dx else dx); dy' = (if isFlipY s then - dy else dy)
     in if isTranspose s then (dy', dx') else (dx', dy'))"

lemma inj_sym_offset: "inj (sym_offset s)"
  by (auto simp: inj_def sym_offset_def Let_def split: if_splits)

lemma sym_coords_offset:
  "sym_coords s (xs, ys) (x, y) = (x', y') \<Longrightarrow> sym_offset s (dx, dy) = (dx', dy') \<Longrightarrow>
   sym_coords s (xs, ys) (x + dx, y + dy) = (x' + dx', y' + dy')"
  by (auto simp: sym_coords_def sym_size_def sym_offset_def Let_def split: if_splits)

lemma window_image:
  assumes "sym_coords s z p = p'" "sym_size s z = z'" "isTranspose s \<longrightarrow> rx = ry"
  shows "window rx ry z' p' = sym_offset s ` window rx ry z p"
proof -
  obtain xs ys x y where zp: "z = (xs, ys)" "p = (x, y)" by fastforce
  have 1: "d \<in> window rx ry z p \<longleftrightarrow> sym_offset s d \<in> window rx ry z' p'" for d
    unfolding assms(1) [symmetric] assms(2) [symmetric] using assms(3)
    by (cases d; cases "isTranspose s"; cases "isFlipX s"; cases "isFlipY s")
      (auto simp: window_def zp sym_coords_def sym_size_def sym_offset_def stays_flip)
  have "\<exists>d. sym_offset s d = e" for e
  proof -
    obtain u v where e: "e = (u, v)" by (cases e)
    let ?dx = "if isTranspose s then v else u" let ?dy = "if isTranspose s then u else v"
    have "sym_offset s (if isFlipX s then - ?dx else ?dx, if isFlipY s then - ?dy else ?dy) = e"
      by (cases "isTranspose s"; cases "isFlipX s"; cases "isFlipY s") (simp_all add: sym_offset_def e)
    then show ?thesis ..
  qed
  then show ?thesis unfolding set_eq_iff image_iff using 1 by metis
qed

section \<open>The hash as a sum over the window\<close>

text \<open>A hasher of odd sizes whose window fits twice its radius into the board.\<close>

definition hasher_ok :: "LocalPatternHasher \<Rightarrow> int \<Rightarrow> int \<Rightarrow> board \<Rightarrow> bool" where
  "hasher_ok H rx ry b \<longleftrightarrow> lp_xSize H = 2 * rx + 1 \<and> lp_ySize H = 2 * ry + 1 \<and> 0 \<le> rx \<and> 0 \<le> ry \<and>
     2 * rx \<le> x_size b \<and> 2 * ry \<le> y_size b"

definition cell :: "LocalPatternHasher \<Rightarrow> bool \<Rightarrow> board \<Rightarrow> loc \<Rightarrow> int \<Rightarrow> hash128" where
  "cell H f b l k = hxor (zobristLocalPattern H (color_int (flip_color f (colors b l)) * lp_xSize H * lp_ySize H + k))
     (if in_atari b l then zobristAtari H k else hash128_zero)"

definition around :: "board \<Rightarrow> loc \<Rightarrow> int \<times> int \<Rightarrow> loc" where
  "around b loc = (\<lambda>(dx, dy). to_loc (loc + dx + dy * (x_size b + 1)))"

text \<open>The index of an offset in the tables of the hasher.\<close>

definition pattern_index :: "LocalPatternHasher \<Rightarrow> int \<Rightarrow> int \<Rightarrow> int \<times> int \<Rightarrow> int" where
  "pattern_index H rx ry = (\<lambda>(dx, dy). (dy + ry) * lp_xSize H + (dx + rx))"

definition window_list :: "int \<Rightarrow> int \<Rightarrow> board \<Rightarrow> loc \<Rightarrow> (int \<times> int) list" where
  "window_list rx ry b loc = offsets (window_range (getX loc (x_size b)) rx (x_size b)) (window_range (getY loc (x_size b)) ry (y_size b))"

lemma window_list:
  assumes wf: "wf_board Z b" and ob: "on_board (x_size b) (y_size b) loc" and h: "hasher_ok H rx ry b"
  shows "distinct (window_list rx ry b loc)"
    "set (window_list rx ry b loc) = window rx ry (x_size b, y_size b) (getX loc (x_size b), getY loc (x_size b))"
proof -
  note c = getSymLoc_coords(2-5) [OF ob wf_sizes(1,2) [OF wf]]
  let ?rx = "window_range (getX loc (x_size b)) rx (x_size b)" let ?ry = "window_range (getY loc (x_size b)) ry (y_size b)"
  obtain p q u v where r: "?rx = (p, q)" "?ry = (u, v)" by fastforce
  show "distinct (window_list rx ry b loc)" by (simp add: window_list_def r distinct_offsets)
  show "set (window_list rx ry b loc) = window rx ry (x_size b, y_size b) (getX loc (x_size b), getY loc (x_size b))"
    using window_range_set [of rx "x_size b" "getX loc (x_size b)"] window_range_set [of ry "y_size b" "getY loc (x_size b)"] h c
    by (auto simp: window_list_def r set_offsets window_def hasher_ok_def)
qed

lemma around_window:
  assumes wf: "wf_board Z b" and ob: "on_board (x_size b) (y_size b) loc"
    and d: "(dx, dy) \<in> window rx ry (x_size b, y_size b) (getX loc (x_size b), getY loc (x_size b))"
  shows "around b loc (dx, dy) = getLoc (getX loc (x_size b) + dx) (getY loc (x_size b) + dy) (x_size b)"
    "on_board (x_size b) (y_size b) (around b loc (dx, dy))"
proof -
  note M = wf_sizes(1,2) [OF wf]
  let ?x = "getX loc (x_size b)" let ?y = "getY loc (x_size b)"
  note c = getSymLoc_coords(2-6) [OF ob M]
  have r: "0 \<le> ?x + dx" "?x + dx < x_size b" "0 \<le> ?y + dy" "?y + dy < y_size b"
    using d by (simp_all add: window_def stays_def)
  have "loc = (?x + 1) + (?y + 1) * (x_size b + 1)" using c(5) getLoc_eq [OF c(1-4) M] by simp
  then have e: "loc + dx + dy * (x_size b + 1) = (?x + dx + 1) + (?y + dy + 1) * (x_size b + 1)"
    by (simp add: algebra_simps)
  show 1: "around b loc (dx, dy) = getLoc (?x + dx) (?y + dy) (x_size b)"
    unfolding around_def getLoc_def prod.case e ..
  show "on_board (x_size b) (y_size b) (around b loc (dx, dy))"
    unfolding 1 by (rule getLoc_on_board(1) [OF r M])
qed

lemma half_odd: "0 \<le> r \<Longrightarrow> (2 * r + 1) sdiv 2 = (r :: int)"
  by (simp add: signed_divide_int_def)

lemma over_window_sum:
  assumes "\<And>dx dy hash. g dx dy hash = hxor hash (t (dx, dy))" "lp_xSize H = 2 * rx + 1" "lp_ySize H = 2 * ry + 1" "0 \<le> rx" "0 \<le> ry"
  shows "over_window H b loc g hash = hxor hash (hxor_list (map t (window_list rx ry b loc)))"
proof -
  have "g = (\<lambda>dx dy hash. hxor hash (t (dx, dy)))" using assms(1) by (intro ext)
  then show ?thesis
    using fold_offsets [of t] half_odd [OF assms(4)] half_odd [OF assms(5)]
    by (simp add: over_window_def window_list_def Let_def assms(2,3) split: prod.split)
qed

lemma board_offsets:
  assumes "wf_board Z b"
  shows "adj_offsets b ! 2 = 1" "adj_offsets b ! 3 = x_size b + 1"
  using assms by (simp_all add: wf_board_def core_def geom_ok_def getAdjacentOffsets_def)

lemma on_board_special: "on_board xs ys l \<Longrightarrow> l \<noteq> PASS_LOC \<and> l \<noteq> NULL_LOC"
  using mult_right_mono [of 1 "_ + 1" "xs + 1"] by (fastforce simp: on_board_def PASS_LOC_def NULL_LOC_def)

lemma sym_index:
  assumes "isTranspose s \<longrightarrow> rx = ry" "lp_xSize H = 2 * rx + 1" "lp_ySize H = 2 * ry + 1"
  shows "(if isTranspose s
      then (if isFlipX s then lp_xSize H - (dx + rx) - 1 else dx + rx) * lp_ySize H +
           (if isFlipY s then lp_ySize H - (dy + ry) - 1 else dy + ry)
      else (if isFlipY s then lp_ySize H - (dy + ry) - 1 else dy + ry) * lp_xSize H +
           (if isFlipX s then lp_xSize H - (dx + rx) - 1 else dx + rx)) = pattern_index H rx ry (sym_offset s (dx, dy))"
  using assms by (cases "isTranspose s"; cases "isFlipX s"; cases "isFlipY s")
    (simp_all add: pattern_index_def sym_offset_def algebra_simps)

lemma hasher_ok_sizes:
  assumes "hasher_ok H rx ry b"
  shows "lp_xSize H = 2 * rx + 1" "lp_ySize H = 2 * ry + 1" "0 \<le> rx" "0 \<le> ry"
    "lp_xSize H sdiv 2 = rx" "lp_ySize H sdiv 2 = ry"
  using assms half_odd by (simp_all add: hasher_ok_def)

lemma if_atari_hxor: "(if c then hxor h k else h) = hxor h (if c then k else hash128_zero)"
  by simp

lemma getHash_sum:
  assumes wf: "wf_board Z b" and ob: "on_board (x_size b) (y_size b) loc" and h: "hasher_ok H rx ry b"
  shows "getHash H b loc pla = Some (hxor (zobristPla H (color_int pla))
    (hxor_list (map (\<lambda>d. cell H False b (around b loc d) (pattern_index H rx ry d)) (window_list rx ry b loc))))"
proof -
  note r = hasher_ok_sizes [OF h]
  show ?thesis
    unfolding getHash_def Let_def board_offsets [OF wf] r(5,6) if_atari_hxor using on_board_special [OF ob]
    by (simp, intro over_window_sum [OF _ r(1-4)])
      (simp add: cell_def around_def pattern_index_def flip_color_def hxor_assoc)
qed

lemma getHashWithSym_sum:
  assumes wf: "wf_board Z b" and ob: "on_board (x_size b) (y_size b) loc" and h: "hasher_ok H rx ry b"
    and sq: "isTranspose s \<longrightarrow> rx = ry" and p: "is_stone pla"
  shows "getHashWithSym H b loc pla s f = Some (hxor (zobristPla H (color_int (flip_color f pla)))
    (hxor_list (map (\<lambda>d. cell H f b (around b loc d) (pattern_index H rx ry (sym_offset s d))) (window_list rx ry b loc))))"
proof -
  note r = hasher_ok_sizes [OF h]
  have col: "(if c = P_BLACK \<or> c = P_WHITE then color_int (if f then getOpp c else c) else color_int c) = color_int (flip_color f c)" for c
    by (cases c) (simp_all add: flip_color_def is_stone_def)
  have pl: "(if f then getOpp pla else pla) = flip_color f pla" using p by (simp add: flip_color_def)
  show ?thesis
    unfolding getHashWithSym_def Let_def board_offsets [OF wf] col pl r(5,6) sym_index [OF sq r(1,2)] if_atari_hxor
    using on_board_special [OF ob]
    by (simp, intro over_window_sum [OF _ r(1-4)]) (simp add: cell_def around_def hxor_assoc)
qed

section \<open>The hash of the image\<close>

lemma image_coords:
  assumes i: "image_of Z s f b b'" and ob: "on_board (x_size b) (y_size b) loc"
  shows "sym_coords s (x_size b, y_size b) (getX loc (x_size b), getY loc (x_size b)) =
    (getX (sym_loc s b loc) (x_size b'), getY (sym_loc s b loc) (x_size b'))"
proof -
  have wf: "wf_board Z b" using i by (simp add: image_of_def)
  show ?thesis using getSymLoc_on_board(2) [OF ob wf_sizes(1,2) [OF wf] image_points(4) [OF i]] by simp
qed

lemma image_around:
  assumes i: "image_of Z s f b b'" and ob: "on_board (x_size b) (y_size b) loc"
    and d: "d \<in> window rx ry (x_size b, y_size b) (getX loc (x_size b), getY loc (x_size b))"
    and d': "sym_offset s d \<in> window rx' ry' (x_size b', y_size b') (getX (sym_loc s b loc) (x_size b'), getY (sym_loc s b loc) (x_size b'))"
  shows "around b' (sym_loc s b loc) (sym_offset s d) = sym_loc s b (around b loc d)"
    "on_board (x_size b) (y_size b) (around b loc d)"
proof -
  have wf: "wf_board Z b" "wf_board Z b'" using i by (simp_all add: image_of_def)
  note M = wf_sizes(1,2) [OF wf(1)] and z = image_points(4) [OF i]
  obtain dx dy where d1: "d = (dx, dy)" by (cases d)
  obtain dx' dy' where d2: "sym_offset s d = (dx', dy')" by fastforce
  let ?x = "getX loc (x_size b)" let ?y = "getY loc (x_size b)"
  let ?x' = "getX (sym_loc s b loc) (x_size b')" let ?y' = "getY (sym_loc s b loc) (x_size b')"
  note a = around_window [OF wf(1) ob d [unfolded d1]]
  note a' = around_window [OF wf(2) image_points(1) [OF i ob] d' [unfolded d2]]
  have r: "0 \<le> ?x + dx" "?x + dx < x_size b" "0 \<le> ?y + dy" "?y + dy < y_size b"
    using d by (simp_all add: d1 window_def stays_def)
  have "sym_coords s (x_size b, y_size b) (?x + dx, ?y + dy) = (?x' + dx', ?y' + dy')"
    by (rule sym_coords_offset [OF image_coords [OF i ob] d2 [unfolded d1]])
  then have "sym_loc s b (around b loc d) = getLoc (?x' + dx') (?y' + dy') (x_size b')"
    unfolding getSymLoc_coords(1) [OF a(2) M, folded d1] getSymLoc_xy_coords
    using a(1) getLoc_on_board(2,3) [OF r M] z by (simp add: d1)
  then show "around b' (sym_loc s b loc) (sym_offset s d) = sym_loc s b (around b loc d)" using a'(1) d2 by simp
  show "on_board (x_size b) (y_size b) (around b loc d)" using a(2) by (simp add: d1)
qed

lemma image_hasher:
  assumes i: "image_of Z s f b b'" and h: "hasher_ok H rx ry b" and sq: "isTranspose s \<longrightarrow> rx = ry"
  shows "hasher_ok H rx ry b'"
  using image_points(4) [OF i] h sq by (auto simp: hasher_ok_def sym_size_def split: if_splits)

lemma image_hash:
  assumes i: "image_of Z s f b b'" and ob: "on_board (x_size b) (y_size b) loc" and h: "hasher_ok H rx ry b"
    and sq: "isTranspose s \<longrightarrow> rx = ry" and p: "is_stone pla"
  shows "getHashWithSym H b loc pla s f = getHash H b' (sym_loc s b loc) (flip_color f pla)"
proof -
  have wf: "wf_board Z b" "wf_board Z b'" using i by (simp_all add: image_of_def)
  note ob' = image_points(1) [OF i ob] and h' = image_hasher [OF i h sq]
  note w = window_list [OF wf(1) ob h] and w' = window_list [OF wf(2) ob' h']
  have im: "set (window_list rx ry b' (sym_loc s b loc)) = sym_offset s ` set (window_list rx ry b loc)"
    unfolding w(2) w'(2) by (rule window_image [OF image_coords [OF i ob] image_points(4) [OF i] sq])
  have "\<forall>d\<in>set (window_list rx ry b loc).
      cell H False b' (around b' (sym_loc s b loc) (sym_offset s d)) (pattern_index H rx ry (sym_offset s d)) =
      cell H f b (around b loc d) (pattern_index H rx ry (sym_offset s d))"
  proof
    fix d assume d: "d \<in> set (window_list rx ry b loc)"
    then have d': "sym_offset s d \<in> set (window_list rx ry b' (sym_loc s b loc))" unfolding im by (rule imageI)
    note a = image_around [OF i ob d [unfolded w(2)] d' [unfolded w'(2)]]
    show "cell H False b' (around b' (sym_loc s b loc) (sym_offset s d)) (pattern_index H rx ry (sym_offset s d)) =
        cell H f b (around b loc d) (pattern_index H rx ry (sym_offset s d))"
      unfolding cell_def a(1) image_color [OF i a(2)] image_atari [OF i a(2)] by (simp add: flip_color_def [of False])
  qed
  then have "hxor_list (map (\<lambda>d. cell H False b' (around b' (sym_loc s b loc) d) (pattern_index H rx ry d)) (window_list rx ry b' (sym_loc s b loc))) =
      hxor_list (map (\<lambda>d. cell H f b (around b loc d) (pattern_index H rx ry (sym_offset s d))) (window_list rx ry b loc))"
    by (rule hxor_list_image [OF w(1) w'(1) im inj_on_subset [OF inj_sym_offset subset_UNIV]])
  then show ?thesis
    unfolding getHashWithSym_sum [OF wf(1) ob h sq p] getHash_sum [OF wf(2) ob' h'] by simp
qed

end
