(* ===== verification/PatternProps.thy ===== *)
theory PatternProps
  imports PatternLaws Demo
begin

text \<open>The property of the pattern bonuses, with an instance and the boards it leaves out.\<close>

text \<open>
  C40: A bonus added for a move is found at every image of the position. On a board of at least 8
  by 8 points, adding a bonus for a move under a symmetry and an exchange of colours
  (\<open>PatternBonusTable::addBonus\<close>) returns, and looking the same move up on the mirrored board, with
  the colours exchanged, gives the old bonus and the new one added; unless the move
  takes a ko, the pattern was met before in this game, or its hash is zero: then the lookup gives
  what it gave before. Lookups with any other hash do not change.
\<close>

theorem bonus_found:
  assumes "image_of Z s flip b b'" and "on_board (x_size b) (y_size b) loc" and "is_stone pla"
    and "lp_xSize (patternHasher S) = 9" and "lp_ySize (patternHasher S) = 9" and "8 \<le> x_size b" and "8 \<le> y_size b"
    and "t \<noteq> []"
  shows "\<exists>t' seen' key old.
    bonus_hash Z S (flip_color flip pla) (getSymLoc loc (x_size b) (y_size b) s) b' = Some key \<and>
    addBonus fadd fzero Z S pla loc b bonus s flip (t, seen) = Some (t', seen') \<and>
    bonus_get_move fzero Z S t (flip_color flip pla) (getSymLoc loc (x_size b) (y_size b) s) b' = Some old \<and>
    bonus_get_move fzero Z S t' (flip_color flip pla) (getSymLoc loc (x_size b) (y_size b) s) b' =
      Some (if wouldBeKoCapture b loc pla \<or> key \<in> seen \<or> key = hash128_zero then old else fadd old bonus) \<and>
    (\<forall>k. k \<noteq> key \<longrightarrow> bonus_get fzero t' k = bonus_get fzero t k)"
proof -
  let ?l = "getSymLoc loc (x_size b) (y_size b) s" let ?p = "flip_color flip pla"
  have h: "hasher_ok (patternHasher S) 4 4 b" using assms(4-7) by (simp add: hasher_ok_def)
  note ob' = image_points(1) [OF assms(1,2)]
  note sp = on_board_special [OF assms(2)] on_board_special [OF ob']
  have get: "\<exists>old. bonus_get fzero t k = Some old" for k
    using assms(8) by (cases "(t ! (unat (hash0 k) mod length t)) k") (simp_all add: bonus_get_def bonus_shard_def)
  show ?thesis
  proof (cases "wouldBeKoCapture b loc pla")
    case True
    then have "bonus_hash Z S ?p ?l b' = Some hash128_zero"
      using image_ko_capture [OF assms(1,3,2)] by (simp add: bonus_hash_def)
    then show ?thesis using True get by (simp add: addBonus_def bonus_get_move_def)
  next
    case False
    have wf: "wf_board Z b'" using assms(1) by (simp add: image_of_def)
    obtain g where g: "getHash (patternHasher S) b' ?l ?p = Some g"
      using getHash_sum [OF wf ob' image_hasher [OF assms(1) h]] by blast
    then have g2: "getHashWithSym (patternHasher S) b loc pla s flip = Some g"
      using image_hash [OF assms(1,2) h _ assms(3)] by simp
    let ?key = "hxor (hxor (hxor g (ZOBRIST_MOVE_LOCS S ?l)) (ZOBRIST_SIZE_X_HASH Z (x_size b'))) (ZOBRIST_SIZE_Y_HASH Z (y_size b'))"
    have key: "bonus_hash Z S ?p ?l b' = Some ?key"
      using False sp g image_ko_capture [OF assms(1,3,2)] by (simp add: bonus_hash_def Let_def)
    have key2: "(if isTranspose s
          then hxor (hxor (hxor g (ZOBRIST_MOVE_LOCS S ?l)) (ZOBRIST_SIZE_X_HASH Z (y_size b))) (ZOBRIST_SIZE_Y_HASH Z (x_size b))
          else hxor (hxor (hxor g (ZOBRIST_MOVE_LOCS S ?l)) (ZOBRIST_SIZE_X_HASH Z (x_size b))) (ZOBRIST_SIZE_Y_HASH Z (y_size b))) = ?key"
      using image_points(4) [OF assms(1)] by (auto simp: sym_size_def split: if_splits)
    let ?i = "unat (hash0 ?key) mod length t"
    let ?old = "case (t ! ?i) ?key of None \<Rightarrow> fzero | Some e \<Rightarrow> e"
    let ?t = "t[?i := (t ! ?i)(?key \<mapsto> fadd ?old bonus)]"
    have add: "addBonus fadd fzero Z S pla loc b bonus s flip (t, seen) =
        (if ?key \<in> seen then Some (t, seen) else Some (?t, insert ?key seen))"
      unfolding addBonus_def Let_def g2 using False sp assms(8) by (simp add: key2 bonus_shard_def)
    have i: "?i < length t" using assms(8) by simp
    have same: "bonus_get fzero ?t k = bonus_get fzero t k" if "k \<noteq> ?key" for k
      using that i by (cases "unat (hash0 k) mod length t = ?i") (simp_all add: bonus_get_def bonus_shard_def)
    have new: "bonus_get fzero ?t ?key = Some (if ?key = hash128_zero then fzero else fadd ?old bonus)"
      using i assms(8) by (simp add: bonus_get_def bonus_shard_def)
    have old: "bonus_get fzero t ?key = Some (if ?key = hash128_zero then fzero else ?old)"
      using assms(8) by (simp add: bonus_get_def bonus_shard_def split: option.split)
    show ?thesis
      unfolding bonus_get_move_def key add using False same new old by (cases "?key \<in> seen") simp_all
  qed
qed

text \<open>Tables that tell the cells of a window apart.\<close>

definition demo_hasher :: LocalPatternHasher where
  "demo_hasher = \<lparr>lp_xSize = 9, lp_ySize = 9, zobristLocalPattern = (\<lambda>k. Hash128 (word_of_int k) (word_of_int (k * k))),
     zobristPla = (\<lambda>c. Hash128 0 (push_bit 40 (word_of_int c))), zobristAtari = (\<lambda>k. Hash128 (push_bit 40 (word_of_int k)) 0)\<rparr>"

definition demo_statics :: PatternStatics where
  "demo_statics = \<lparr>patternHasher = demo_hasher, ZOBRIST_MOVE_LOCS = (\<lambda>l. Hash128 (push_bit 20 (word_of_int l)) 0)\<rparr>"

text \<open>A move beside a stone on a 9x9 board, looked up on the board turned by symmetry 5.\<close>

definition pattern_board :: board where
  "pattern_board = demo 9 [(33, C_BLACK), (43, C_WHITE)]"

lemma pattern_board_facts:
  "wf_board demo_zobrist pattern_board" "x_size pattern_board = 9" "y_size pattern_board = 9"
  by (simp_all add: pattern_board_def demo_wf)

theorem bonus_found_witness:
  "\<exists>b' t' seen' key old.
    getSymBoard demo_zobrist blank_board pattern_board 5 = Some (Inr b') \<and>
    bonus_hash demo_zobrist demo_statics C_BLACK (getSymLoc 34 9 9 5) b' = Some key \<and>
    addBonus (+) 0 demo_zobrist demo_statics C_BLACK 34 pattern_board (7 :: int) 5 False (PatternBonusTable_new 16, {}) = Some (t', seen') \<and>
    bonus_get_move 0 demo_zobrist demo_statics (PatternBonusTable_new 16) C_BLACK (getSymLoc 34 9 9 5) b' = Some old \<and>
    bonus_get_move 0 demo_zobrist demo_statics t' C_BLACK (getSymLoc 34 9 9 5) b' =
      Some (if wouldBeKoCapture pattern_board 34 C_BLACK \<or> key \<in> {} \<or> key = hash128_zero then old else old + 7)"
proof -
  note pb = pattern_board_facts
  obtain b' where b': "getSymBoard demo_zobrist blank_board pattern_board 5 = Some (Inr b')" "wf_board demo_zobrist b'"
    "(x_size b', y_size b') = sym_size 5 (9, 9)" "colors b' = sym_colors 5 9 9 (colors pattern_board)"
    using getSymBoard_spec [OF pb(1), of 5 blank_board] unfolding pb(2,3) by auto
  have img: "image_of demo_zobrist 5 False pattern_board b'"
    unfolding image_of_def pb(2,3) using pb(1) b'(2-4) sym_colors_image [of 9 9 _ 5 "colors pattern_board"]
    by (simp add: flip_color_def MAX_LEN_def)
  have "on_board 9 9 34" by code_simp
  then have "\<exists>t' seen' key old.
      bonus_hash demo_zobrist demo_statics (flip_color False C_BLACK) (getSymLoc 34 9 9 5) b' = Some key \<and>
      addBonus (+) 0 demo_zobrist demo_statics C_BLACK 34 pattern_board (7 :: int) 5 False (PatternBonusTable_new 16, {}) = Some (t', seen') \<and>
      bonus_get_move 0 demo_zobrist demo_statics (PatternBonusTable_new 16) (flip_color False C_BLACK) (getSymLoc 34 9 9 5) b' = Some old \<and>
      bonus_get_move 0 demo_zobrist demo_statics t' (flip_color False C_BLACK) (getSymLoc 34 9 9 5) b' =
        Some (if wouldBeKoCapture pattern_board 34 C_BLACK \<or> key \<in> {} \<or> key = hash128_zero then old else old + 7) \<and>
      (\<forall>k. k \<noteq> key \<longrightarrow> bonus_get 0 t' k = bonus_get 0 (PatternBonusTable_new 16) k)"
    using bonus_found [OF img, of 34 C_BLACK demo_statics "PatternBonusTable_new 16" "(+)" 0 7 "{}"] pb(2,3)
    by (simp add: demo_statics_def demo_hasher_def PatternBonusTable_new_def)
  then show ?thesis using b'(1) by (auto simp: flip_color_def)
qed

text \<open>
  On smaller boards the window is cut at one side only, so the hash under a symmetry is not that of
  the image: on the empty 3x3 board, a corner and its mirror image.
\<close>

lemma small_board_pattern:
  "image_of demo_zobrist 2 False (fresh 3) (fresh 3) \<and>
   getHashWithSym demo_hasher (fresh 3) 5 C_BLACK 2 False \<noteq> getHash demo_hasher (fresh 3) (getSymLoc 5 3 3 2) C_BLACK"
proof
  have "\<forall>l\<in>set (locs_of 3 3). on_board 3 3 (getSymLoc l 3 3 2)" by code_simp
  then show "image_of demo_zobrist 2 False (fresh 3) (fresh 3)"
    using fresh_facts [of 3] by (simp add: image_of_def set_locs_of flip_color_def sym_size_def sym_bits)
  show "getHashWithSym demo_hasher (fresh 3) 5 C_BLACK 2 False \<noteq> getHash demo_hasher (fresh 3) (getSymLoc 5 3 3 2) C_BLACK"
    by code_simp
qed

end
