(* ===== verification/NNFeatures.thy ===== *)
theory NNFeatures
  imports Symmetry Moves Ladder BoardArea
begin

text \<open>
  The input row of the network (\<open>neuralnet/nninputs.cpp\<close>): \<open>MiscNNInputParams\<close>, the cache key
  \<open>NNInputs::getHash\<close>, \<open>iterLadders\<close> and version 7 of the features, \<open>fillRowV7\<close>. The two
  arrays of floats are functions of the index into rational numbers: all spatial features are 0 or
  1, and of the global ones the numbers are those before rounding to floats. \<open>None\<close> is a failed
  assertion, unreachable code or a write beyond a local array.
\<close>

section \<open>Parameters\<close>

record MiscNNInputParams =
  drawEquivalentWinsForWhite :: rat
  conservativePassAndIsRoot :: bool
  enablePassingHacks :: bool
  playoutDoublingAdvantage :: rat
  nnPolicyTemperature :: rat
  avoidMYTDaggerHack :: bool
  nn_symmetry :: int
  policyOptimism :: rat
  maxHistory :: int
  passAliveSuicideRulesOverride :: int
  excludeTerritoryAdjAtariOverride :: int

definition MiscNNInputParams_default :: MiscNNInputParams where
  "MiscNNInputParams_default =
     \<lparr>drawEquivalentWinsForWhite = 1 / 2, conservativePassAndIsRoot = False, enablePassingHacks = False,
      playoutDoublingAdvantage = 0, nnPolicyTemperature = 1, avoidMYTDaggerHack = False,
      nn_symmetry = - 1, policyOptimism = 0, maxHistory = 1000,
      passAliveSuicideRulesOverride = - 1, excludeTerritoryAdjAtariOverride = - 1\<rparr>"

definition ZOBRIST_CONSERVATIVE_PASS :: hash128 where
  "ZOBRIST_CONSERVATIVE_PASS = Hash128 0x0c2b96f4b8ae2da9 0x5a14dee208fec0ed"
definition ZOBRIST_FRIENDLY_PASS :: hash128 where
  "ZOBRIST_FRIENDLY_PASS = Hash128 0xe750505a66f7c5c2 0x7a83139bf632d6c4"
definition ZOBRIST_PASSING_HACKS :: hash128 where
  "ZOBRIST_PASSING_HACKS = Hash128 0x9c89f4fd3ce5a92c 0x268c9aff79c64d00"
definition ZOBRIST_PLAYOUT_DOUBLINGS :: hash128 where
  "ZOBRIST_PLAYOUT_DOUBLINGS = Hash128 0xa5e6114d380bfc1d 0x4160557f1222f4ad"
definition ZOBRIST_NN_POLICY_TEMP :: hash128 where
  "ZOBRIST_NN_POLICY_TEMP = Hash128 0xebcbdfeec6f4334b 0xb85e43ee243b5ad2"
definition ZOBRIST_AVOID_MYTDAGGER_HACK :: hash128 where
  "ZOBRIST_AVOID_MYTDAGGER_HACK = Hash128 0x612d22ec402ce054 0x0db915c49de527ae"
definition ZOBRIST_POLICY_OPTIMISM :: hash128 where
  "ZOBRIST_POLICY_OPTIMISM = Hash128 0x88415c85c2801955 0x39bdf76b2aaa5eb1"
definition ZOBRIST_ZERO_HISTORY :: hash128 where
  "ZOBRIST_ZERO_HISTORY = Hash128 0x78f02afdd1aa4910 0xda78d550486fe978"

definition getAlwaysComputePassAliveUnderSuicideRules :: "MiscNNInputParams \<Rightarrow> history \<Rightarrow> bool" where
  "getAlwaysComputePassAliveUnderSuicideRules p h =
     (if passAliveSuicideRulesOverride p \<ge> 0 then passAliveSuicideRulesOverride p \<noteq> 0
      else alwaysComputePassAliveUnderSuicideRules (modes h))"

definition getExcludeTerritoryAdjacentToAtari :: "MiscNNInputParams \<Rightarrow> history \<Rightarrow> bool" where
  "getExcludeTerritoryAdjacentToAtari p h =
     (if excludeTerritoryAdjAtariOverride p \<ge> 0 then excludeTerritoryAdjAtariOverride p \<noteq> 0
      else excludeTerritoryAdjacentToAtari (modes h))"

definition getModes :: "MiscNNInputParams \<Rightarrow> history \<Rightarrow> BoardHistoryModes" where
  "getModes p h =
     \<lparr>alwaysComputePassAliveUnderSuicideRules = getAlwaysComputePassAliveUnderSuicideRules p h,
      excludeTerritoryAdjacentToAtari = getExcludeTerritoryAdjacentToAtari p h\<rparr>"

definition getSuicideLegalForPassAlive :: "MiscNNInputParams \<Rightarrow> history \<Rightarrow> bool" where
  "getSuicideLegalForPassAlive p h \<longleftrightarrow>
     multiStoneSuicideLegal (hist_rules h) \<or> getAlwaysComputePassAliveUnderSuicideRules p h"

section \<open>The cache key\<close>

text \<open>The part of the key for a pass that would end the phase.\<close>

definition pass_part_hash ::
  "zobrist \<Rightarrow> board \<Rightarrow> history \<Rightarrow> player \<Rightarrow> MiscNNInputParams \<Rightarrow> hash128 \<Rightarrow> hash128 option" where
  "pass_part_hash Z b h nextPlayer p hash =
     Option.bind (passWouldEndPhase Z h b nextPlayer) (\<lambda>ends.
       if ends then
         let hash = hxor hash ZOBRIST_PASS_ENDS_PHASE;
             hash = hxor_if (conservativePassAndIsRoot p) ZOBRIST_CONSERVATIVE_PASS hash
         in Option.bind (shouldSuppressEndGameFromFriendlyPass Z h b nextPlayer) (\<lambda>suppress.
              let hash = hxor_if suppress ZOBRIST_FRIENDLY_PASS hash
              in Some (hxor_if (enablePassingHacks p) ZOBRIST_PASSING_HACKS hash))
       else Some hash)"

text \<open>The parts for the numeric parameters: \<open>(uint64_t)(int64_t)(v * scale)\<close>.\<close>

definition param_part_hash :: "MiscNNInputParams \<Rightarrow> hash128 \<Rightarrow> hash128" where
  "param_part_hash p hash =
     (let hash = (if playoutDoublingAdvantage p \<noteq> 0 then
                    (let d = word_of_int (trunc (playoutDoublingAdvantage p * 256))
                     in hxor (Hash128 (hash0 hash + splitMix64 d) (hash1 hash + basicLCong d)) ZOBRIST_PLAYOUT_DOUBLINGS)
                  else hash);
          hash = (if nnPolicyTemperature p \<noteq> 1 then
                    (let d = word_of_int (trunc (nnPolicyTemperature p * 2048));
                         h0 = hash0 hash XOR basicLCong2 d;
                         h1 = splitMix64 (hash1 hash + d);
                         h0 = h0 + h1
                     in hxor (Hash128 h0 h1) ZOBRIST_NN_POLICY_TEMP)
                  else hash);
          hash = hxor_if (avoidMYTDaggerHack p) ZOBRIST_AVOID_MYTDAGGER_HACK hash
      in if policyOptimism p > 0 then
           (let hash = hxor hash ZOBRIST_POLICY_OPTIMISM;
                d = word_of_int (trunc (policyOptimism p * 1024));
                h0 = rrmxmx (splitMix64 (hash0 hash) + d);
                h1 = rrmxmx (hash1 hash + h0 + d)
            in Hash128 h0 h1)
         else hash)"

definition NNInputs_getHash ::
  "zobrist \<Rightarrow> board \<Rightarrow> history \<Rightarrow> player \<Rightarrow> MiscNNInputParams \<Rightarrow> hash128 option" where
  "NNInputs_getHash Z b h nextPlayer p =
     Option.bind (getSituationRulesAndKoHashModes Z b h nextPlayer (drawEquivalentWinsForWhite p) (getModes p h)) (\<lambda>hash.
     Option.bind (pass_part_hash Z b h nextPlayer p hash) (\<lambda>hash.
       let hash = hxor_if (isGameFinished h \<or> isPastNormalPhaseEnd h) ZOBRIST_GAME_IS_OVER hash;
           hash = (if maxHistory p \<le> 0
                   then Hash128 (hash0 hash + hash0 ZOBRIST_ZERO_HISTORY) (hash1 hash + hash1 ZOBRIST_ZERO_HISTORY)
                   else hash)
       in Some (param_part_hash p hash)))"

section \<open>Rows\<close>

definition NUM_FEATURES_SPATIAL_V7 :: int where "NUM_FEATURES_SPATIAL_V7 = 22"
definition NUM_FEATURES_GLOBAL_V7 :: int where "NUM_FEATURES_GLOBAL_V7 = 19"
definition KOMI_CLIP_RADIUS :: rat where "KOMI_CLIP_RADIUS = 20"
definition MAX_BOARD_LEN :: int where "MAX_BOARD_LEN = MAX_LEN"
definition MAX_BOARD_AREA :: int where "MAX_BOARD_AREA = MAX_BOARD_LEN * MAX_BOARD_LEN"

type_synonym row = "int \<Rightarrow> rat"

definition setRowBin :: "row \<Rightarrow> int \<Rightarrow> int \<Rightarrow> rat \<Rightarrow> int \<Rightarrow> int \<Rightarrow> row" where
  "setRowBin rowBin pos feature v posStride featureStride = rowBin(pos * posStride + feature * featureStride := v)"

text \<open>\<open>std::fill(row, row + n, 0.0f)\<close>\<close>

definition fill_zero :: "int \<Rightarrow> row \<Rightarrow> row" where
  "fill_zero n row = (\<lambda>i. if 0 \<le> i \<and> i < n then 0 else row i)"

text \<open>The strides \<open>posStride\<close> and \<open>featureStride\<close> of the two layouts.\<close>

definition row_strides :: "int \<Rightarrow> int \<Rightarrow> bool \<Rightarrow> int \<times> int" where
  "row_strides nnXLen nnYLen useNHWC =
     (if useNHWC then (NUM_FEATURES_SPATIAL_V7, 1) else (1, nnXLen * nnYLen))"

section \<open>Ladders of a board\<close>

text \<open>
  \<open>iterLadders\<close> with its callback as a function on a state: the state of the loop is the board
  \<open>copy\<close>, the buffer, \<open>workingMoves\<close>, the chain heads solved with their values, and the state
  of the callback.
\<close>

type_synonym 's ladder_scan = "board \<times> loc list \<times> loc list \<times> (loc \<times> bool) list \<times> 's"

definition iter_search ::
  "zobrist \<Rightarrow> loc \<Rightarrow> int \<Rightarrow> board \<Rightarrow> loc list \<Rightarrow> loc list \<Rightarrow> (bool \<times> board \<times> loc list \<times> loc list) option" where
  "iter_search Z loc libs copy buf workingMoves =
     (if libs = 1
      then map_option (\<lambda>(v, copy, buf). (v, copy, buf, workingMoves)) (searchIsLadderCaptured Z loc True (copy, buf))
      else searchIsLadderCapturedAttackerFirst2Libs Z loc (copy, buf, []))"

definition iter_point ::
  "zobrist \<Rightarrow> board \<Rightarrow> int \<Rightarrow> (loc \<Rightarrow> int \<Rightarrow> loc list \<Rightarrow> 's \<Rightarrow> 's option) \<Rightarrow> int \<times> int \<Rightarrow> 's ladder_scan \<Rightarrow> 's ladder_scan option" where
  "iter_point Z b nnXLen f = (\<lambda>(x, y) (copy, buf, workingMoves, solved, s).
     let loc = getLoc x y (x_size b); stone = colors b loc
     in if stone = P_BLACK \<or> stone = P_WHITE then
          let libs = getNumLiberties b loc
          in if libs = 1 \<or> libs = 2 then
               let pos = xyToPos x y nnXLen; head = chain_head b loc
               in case find (\<lambda>e. fst e = head) solved of
                    Some (_, value) \<Rightarrow>
                      if value then Option.bind (f loc pos [] s) (\<lambda>s. Some (copy, buf, [], solved, s))
                      else Some (copy, buf, workingMoves, solved, s)
                  | None \<Rightarrow>
                      Option.bind (iter_search Z loc libs copy buf workingMoves)
                        (\<lambda>(laddered, copy, buf, workingMoves).
                          if int (length solved) \<ge> MAX_PLAY_SIZE then None
                          else
                            let solved = solved @ [(head, laddered)]
                            in if laddered
                               then Option.bind (f loc pos workingMoves s) (\<lambda>s. Some (copy, buf, workingMoves, solved, s))
                               else Some (copy, buf, workingMoves, solved, s))
             else Some (copy, buf, workingMoves, solved, s)
        else Some (copy, buf, workingMoves, solved, s))"

definition iterLadders ::
  "zobrist \<Rightarrow> board \<Rightarrow> int \<Rightarrow> (loc \<Rightarrow> int \<Rightarrow> loc list \<Rightarrow> 's \<Rightarrow> 's option) \<Rightarrow> 's \<Rightarrow> 's option" where
  "iterLadders Z b nnXLen f s =
     Option.bind (foldM (iter_point Z b nnXLen f) (rows_xy (x_size b) (y_size b)) (b, [], [], [], s))
       (\<lambda>(_, _, _, _, s). Some s)"

section \<open>Version 7: spatial features\<close>

text \<open>Features 0 to 5: the board, stones and liberties.\<close>

definition fill_stones :: "board \<Rightarrow> player \<Rightarrow> int \<Rightarrow> int \<Rightarrow> int \<Rightarrow> row \<Rightarrow> row" where
  "fill_stones b pla nnXLen posStride featureStride rowBin =
     (let opp = getOpp pla
      in fold (\<lambda>(x, y) rowBin.
           let pos = xyToPos x y nnXLen;
               loc = getLoc x y (x_size b);
               rowBin = setRowBin rowBin pos 0 1 posStride featureStride;
               stone = colors b loc;
               rowBin = (if stone = pla then setRowBin rowBin pos 1 1 posStride featureStride
                         else if stone = opp then setRowBin rowBin pos 2 1 posStride featureStride else rowBin)
           in if stone = pla \<or> stone = opp then
                let libs = getNumLiberties b loc
                in if libs = 1 then setRowBin rowBin pos 3 1 posStride featureStride
                   else if libs = 2 then setRowBin rowBin pos 4 1 posStride featureStride
                   else if libs = 3 then setRowBin rowBin pos 5 1 posStride featureStride
                   else rowBin
              else rowBin) (rows_xy (x_size b) (y_size b)) rowBin)"

text \<open>Features 6 and 7: points banned by a ko rule, in the main phase and in the encore.\<close>

definition fill_ko :: "board \<Rightarrow> history \<Rightarrow> int \<Rightarrow> int \<Rightarrow> int \<Rightarrow> int \<Rightarrow> row \<Rightarrow> row" where
  "fill_ko b h nnXLen nnYLen posStride featureStride rowBin =
     (let xSize = x_size b
      in if encorePhase h = 0 then
           let rowBin = (if ko_loc b \<noteq> NULL_LOC
                         then setRowBin rowBin (locToPos (ko_loc b) xSize nnXLen nnYLen) 6 1 posStride featureStride else rowBin)
           in fold (\<lambda>(x, y) rowBin.
                let loc = getLoc x y xSize
                in if superKoBanned h loc \<and> loc \<noteq> ko_loc b
                   then setRowBin rowBin (locToPos loc xSize nnXLen nnYLen) 6 1 posStride featureStride else rowBin)
                (rows_xy xSize (y_size b)) rowBin
         else
           fold (\<lambda>(x, y) rowBin.
             let loc = getLoc x y xSize;
                 pos = locToPos loc xSize nnXLen nnYLen;
                 rowBin = (if superKoBanned h loc then setRowBin rowBin pos 6 1 posStride featureStride else rowBin)
             in if koRecapBlocked h loc then setRowBin rowBin pos 7 1 posStride featureStride else rowBin)
             (rows_xy xSize (y_size b)) rowBin)"

text \<open>\<open>area\<close>, \<open>hasAreaFeature\<close> and \<open>groupTaxAdjustmentForPla\<close>.\<close>

definition area_feature ::
  "board \<Rightarrow> history \<Rightarrow> player \<Rightarrow> MiscNNInputParams \<Rightarrow> ((loc \<Rightarrow> color) option \<times> int) option" where
  "area_feature b h pla p =
     (let scoring = scoringRule (hist_rules h); tax = taxRule (hist_rules h)
      in if scoring = SCORING_AREA \<and> tax = TAX_NONE then
           map_option (\<lambda>area. (Some area, 0)) (calculateArea b True True True (getSuicideLegalForPassAlive p h))
         else
           Option.bind
             (if scoring = SCORING_AREA \<and> (tax = TAX_SEKI \<or> tax = TAX_ALL) then Some (True, False, True)
              else if scoring = SCORING_TERRITORY \<and> tax = TAX_NONE then
                Some (if encorePhase h \<ge> 2 then (True, True, False) else (False, False, False))
              else if scoring = SCORING_TERRITORY \<and> (tax = TAX_SEKI \<or> tax = TAX_ALL) then
                Some (if encorePhase h \<ge> 2 then (True, False, False) else (False, False, False))
              else None)
             (\<lambda>(hasAreaFeature, keepTerritories, keepStones).
               if hasAreaFeature then
                 map_option (\<lambda>(area, count). (Some area,
                     if tax = TAX_ALL then (if pla = P_WHITE then - 2 * count else 2 * count) else 0))
                   (calculateIndependentLifeArea b keepTerritories keepStones
                      (getExcludeTerritoryAdjacentToAtari p h) (getSuicideLegalForPassAlive p h))
               else Some (None, 0)))"

text \<open>Features 18 and 19, with \<open>boardScoreForPla\<close>.\<close>

definition fill_area ::
  "board \<Rightarrow> history \<Rightarrow> player \<Rightarrow> (loc \<Rightarrow> color) \<Rightarrow> int \<Rightarrow> int \<Rightarrow> int \<Rightarrow> int \<Rightarrow> row \<times> int \<Rightarrow> row \<times> int" where
  "fill_area b h pla area nnXLen nnYLen posStride featureStride s =
     (let opp = getOpp pla
      in fold (\<lambda>(x, y) (rowBin, score).
           let loc = getLoc x y (x_size b);
               pos = locToPos loc (x_size b) nnXLen nnYLen
           in if area loc = pla then (setRowBin rowBin pos 18 1 posStride featureStride, score + 1)
              else if area loc = opp then (setRowBin rowBin pos 19 1 posStride featureStride, score - 1)
              else if scoringRule (hist_rules h) = SCORING_TERRITORY then
                (if colors b loc = pla \<and> secondEncoreStartColors h loc = pla
                 then (setRowBin rowBin pos 18 1 posStride featureStride, score + 1)
                 else if colors b loc = opp \<and> secondEncoreStartColors h loc = opp
                 then (setRowBin rowBin pos 19 1 posStride featureStride, score - 1)
                 else (rowBin, score))
              else (rowBin, score)) (rows_xy (x_size b) (y_size b)) s)"

text \<open>The area features and \<open>finalPhaseAndGameEndWouldNotBeWin\<close>.\<close>

definition area_part ::
  "board \<Rightarrow> history \<Rightarrow> player \<Rightarrow> MiscNNInputParams \<Rightarrow> int \<Rightarrow> int \<Rightarrow> int \<Rightarrow> int \<Rightarrow> row \<Rightarrow> (row \<times> bool) option" where
  "area_part b h pla p nnXLen nnYLen posStride featureStride rowBin =
     Option.bind (area_feature b h pla p) (\<lambda>(area, groupTax).
       case area of
         None \<Rightarrow> Some (rowBin, False)
       | Some area \<Rightarrow>
           let (rowBin, score) = fill_area b h pla area nnXLen nnYLen posStride featureStride (rowBin, groupTax)
           in Option.bind (currentSelfKomi h pla (drawEquivalentWinsForWhite p)) (\<lambda>selfKomi.
                Some (rowBin, of_int score + selfKomi \<le> 0)))"

text \<open>\<open>maxTurnsOfHistoryToInclude\<close> and \<open>suppressPassWouldEndPhase\<close>.\<close>

definition history_turns ::
  "zobrist \<Rightarrow> board \<Rightarrow> history \<Rightarrow> player \<Rightarrow> MiscNNInputParams \<Rightarrow> bool \<Rightarrow> (int \<times> bool) option" where
  "history_turns Z b h nextPlayer p finalPhaseAndGameEndWouldNotBeWin =
     Option.bind (passWouldEndGame Z h b nextPlayer) (\<lambda>endsGame.
     Option.bind
       (if \<not> endsGame then Some False
        else if conservativePassAndIsRoot p then Some True
        else map_option (\<lambda>v. v \<or> enablePassingHacks p \<and> finalPhaseAndGameEndWouldNotBeWin)
               (shouldSuppressEndGameFromFriendlyPass Z h b nextPlayer)) (\<lambda>suppress.
     let n = (if suppress then 0 else if isGameFinished h \<or> isPastNormalPhaseEnd h then 1 else 5)
     in Some (min n (maxHistory p), suppress)))"

text \<open>
  Features 9 to 13 and the first five global ones: the nested tests for the last, the second last, ...
  fifth last move are one recursion; \<open>k\<close> is the number of tests left and \<open>i\<close> the turns included so far.
\<close>

primrec fill_history ::
  "board \<Rightarrow> Move list \<Rightarrow> int \<Rightarrow> int \<Rightarrow> int \<Rightarrow> int \<Rightarrow> int \<Rightarrow> nat \<Rightarrow> player \<Rightarrow> int \<Rightarrow> row \<times> row \<Rightarrow> (row \<times> row) \<times> int" where
  "fill_history b ms amount nnXLen nnYLen posStride featureStride 0 mover i rows = (rows, i)"
| "fill_history b ms amount nnXLen nnYLen posStride featureStride (Suc k) mover i rows =
     (if amount \<ge> i + 1 \<and> mv_pla (ms ! (length ms - nat (i + 1))) = mover then
        let prevLoc = mv_loc (ms ! (length ms - nat (i + 1)));
            (rowBin, rowGlobal) = rows;
            rows = (if prevLoc = PASS_LOC then (rowBin, rowGlobal(i := 1))
                    else if prevLoc \<noteq> NULL_LOC
                    then (setRowBin rowBin (locToPos prevLoc (x_size b) nnXLen nnYLen) (9 + i) 1 posStride featureStride, rowGlobal)
                    else (rowBin, rowGlobal))
        in fill_history b ms amount nnXLen nnYLen posStride featureStride k (getOpp mover) (i + 1) rows
      else (rows, i))"

definition history_part ::
  "board \<Rightarrow> history \<Rightarrow> player \<Rightarrow> int \<Rightarrow> int \<Rightarrow> int \<Rightarrow> int \<Rightarrow> int \<Rightarrow> row \<times> row \<Rightarrow> ((row \<times> row) \<times> int) option" where
  "history_part b h opp maxTurns nnXLen nnYLen posStride featureStride rows =
     (if maxTurns > 0 then
        let ms = moveHistory h
        in if \<not> int (length ms) \<ge> numApproxValidTurnsThisPhase h then None
           else Some (fill_history b ms (min maxTurns (numApproxValidTurnsThisPhase h)) nnXLen nnYLen
                        posStride featureStride 5 opp 0 rows)
      else Some (rows, 0))"

text \<open>\<open>addLadderFeature\<close>, and the callbacks for the two earlier boards.\<close>

definition addLadderFeature ::
  "board \<Rightarrow> player \<Rightarrow> int \<Rightarrow> int \<Rightarrow> int \<Rightarrow> int \<Rightarrow> loc \<Rightarrow> int \<Rightarrow> loc list \<Rightarrow> row \<Rightarrow> row option" where
  "addLadderFeature b opp nnXLen nnYLen posStride featureStride loc pos workingMoves rowBin =
     (if \<not> (colors b loc = P_BLACK \<or> colors b loc = P_WHITE) then None
      else if \<not> (0 \<le> pos \<and> pos < MAX_BOARD_AREA) then None
      else
        let rowBin = setRowBin rowBin pos 14 1 posStride featureStride
        in Some (if colors b loc = opp \<and> getNumLiberties b loc > 1
                 then fold (\<lambda>m rowBin. setRowBin rowBin (locToPos m (x_size b) nnXLen nnYLen) 17 1 posStride featureStride)
                        workingMoves rowBin
                 else rowBin))"

definition addPrevLadderFeature ::
  "board \<Rightarrow> int \<Rightarrow> int \<Rightarrow> int \<Rightarrow> loc \<Rightarrow> int \<Rightarrow> loc list \<Rightarrow> row \<Rightarrow> row option" where
  "addPrevLadderFeature prevBoard feature posStride featureStride loc pos workingMoves rowBin =
     (if \<not> (colors prevBoard loc = P_BLACK \<or> colors prevBoard loc = P_WHITE) then None
      else if \<not> (0 \<le> pos \<and> pos < MAX_BOARD_AREA) then None
      else Some (setRowBin rowBin pos feature 1 posStride featureStride))"

definition ladder_part ::
  "zobrist \<Rightarrow> board \<Rightarrow> history \<Rightarrow> player \<Rightarrow> int \<Rightarrow> int \<Rightarrow> int \<Rightarrow> int \<Rightarrow> int \<Rightarrow> row \<Rightarrow> row option" where
  "ladder_part Z b h opp turns nnXLen nnYLen posStride featureStride rowBin =
     Option.bind (iterLadders Z b nnXLen (addLadderFeature b opp nnXLen nnYLen posStride featureStride) rowBin) (\<lambda>rowBin.
     Option.bind (if turns < 1 then Some b else getRecentBoard h 1) (\<lambda>prevBoard.
     Option.bind (iterLadders Z prevBoard nnXLen (addPrevLadderFeature prevBoard 15 posStride featureStride) rowBin) (\<lambda>rowBin.
     Option.bind (if turns < 2 then Some prevBoard else getRecentBoard h 2) (\<lambda>prevPrevBoard.
       iterLadders Z prevPrevBoard nnXLen (addPrevLadderFeature prevPrevBoard 16 posStride featureStride) rowBin))))"

text \<open>Features 20 and 21: the stones at the start of the second encore.\<close>

definition fill_encore :: "board \<Rightarrow> history \<Rightarrow> player \<Rightarrow> int \<Rightarrow> int \<Rightarrow> int \<Rightarrow> int \<Rightarrow> row \<Rightarrow> row" where
  "fill_encore b h pla nnXLen nnYLen posStride featureStride rowBin =
     (if encorePhase h \<ge> 2 then
        fold (\<lambda>(x, y) rowBin.
          let loc = getLoc x y (x_size b);
              pos = locToPos loc (x_size b) nnXLen nnYLen
          in if secondEncoreStartColors h loc = pla then setRowBin rowBin pos 20 1 posStride featureStride
             else if secondEncoreStartColors h loc = getOpp pla then setRowBin rowBin pos 21 1 posStride featureStride
             else rowBin) (rows_xy (x_size b) (y_size b)) rowBin
      else rowBin)"

section \<open>Version 7: global features\<close>

text \<open>Komi, clipped, and features 5 to 13: rules and phase.\<close>

definition clip_komi :: "board \<Rightarrow> rat \<Rightarrow> rat" where
  "clip_komi b selfKomi =
     (let bArea = of_int (x_size b * y_size b);
          selfKomi = (if selfKomi > bArea + KOMI_CLIP_RADIUS then bArea + KOMI_CLIP_RADIUS else selfKomi)
      in if selfKomi < - bArea - KOMI_CLIP_RADIUS then - bArea - KOMI_CLIP_RADIUS else selfKomi)"

definition fill_rules :: "history \<Rightarrow> row \<Rightarrow> row option" where
  "fill_rules h rowGlobal =
     (let r = hist_rules h
      in Option.bind
           (if koRule r = KO_SIMPLE then Some rowGlobal
            else if koRule r = KO_POSITIONAL \<or> koRule r = KO_SPIGHT then Some (rowGlobal(6 := 1, 7 := 1 / 2))
            else if koRule r = KO_SITUATIONAL then Some (rowGlobal(6 := 1, 7 := - 1 / 2))
            else None) (\<lambda>rowGlobal.
         let rowGlobal = (if multiStoneSuicideLegal r then rowGlobal(8 := 1) else rowGlobal)
         in Option.bind
              (if scoringRule r = SCORING_AREA then Some rowGlobal
               else if scoringRule r = SCORING_TERRITORY then Some (rowGlobal(9 := 1))
               else None) (\<lambda>rowGlobal.
            Option.bind
              (if taxRule r = TAX_NONE then Some rowGlobal
               else if taxRule r = TAX_SEKI then Some (rowGlobal(10 := 1))
               else if taxRule r = TAX_ALL then Some (rowGlobal(10 := 1, 11 := 1))
               else None) (\<lambda>rowGlobal.
            let rowGlobal = (if encorePhase h > 0 then rowGlobal(12 := 1) else rowGlobal)
            in Some (if encorePhase h > 1 then rowGlobal(13 := 1) else rowGlobal)))))"

text \<open>Feature 18: the triangle wave of the komi's parity.\<close>

definition komi_wave :: "board \<Rightarrow> rat \<Rightarrow> rat option" where
  "komi_wave b selfKomi =
     (let drawableKomisAreEven = ((x_size b * y_size b) smod 2 = 0);
          komiFloor = (if drawableKomisAreEven then of_int \<lfloor>selfKomi / 2\<rfloor> * 2
                       else of_int \<lfloor>(selfKomi - 1) / 2\<rfloor> * 2 + 1);
          delta = selfKomi - komiFloor
      in if \<not> delta \<ge> - 1 / 10000 then None
         else if \<not> delta \<le> 2 + 1 / 10000 then None
         else
           let delta = (if delta < 0 then 0 else delta);
               delta = (if delta > 2 then 2 else delta)
           in Some (if delta < 1 / 2 then delta else if delta < 3 / 2 then 1 - delta else delta - 2))"

definition fill_global ::
  "zobrist \<Rightarrow> board \<Rightarrow> history \<Rightarrow> player \<Rightarrow> MiscNNInputParams \<Rightarrow> bool \<Rightarrow> row \<Rightarrow> row option" where
  "fill_global Z b h nextPlayer p suppressPassWouldEndPhase rowGlobal =
     Option.bind (currentSelfKomi h nextPlayer (drawEquivalentWinsForWhite p)) (\<lambda>selfKomi.
       let selfKomi = clip_komi b selfKomi;
           rowGlobal = rowGlobal(5 := selfKomi / 20)
       in Option.bind (fill_rules h rowGlobal) (\<lambda>rowGlobal.
          Option.bind (if suppressPassWouldEndPhase then Some False else passWouldEndPhase Z h b nextPlayer) (\<lambda>ends.
            let rowGlobal = rowGlobal(14 := (if ends then 1 else 0));
                rowGlobal = (if playoutDoublingAdvantage p \<noteq> 0
                             then rowGlobal(15 := 1, 16 := 1 / 2 * playoutDoublingAdvantage p) else rowGlobal);
                rowGlobal = (if hasButton h then rowGlobal(17 := 1) else rowGlobal)
            in if scoringRule (hist_rules h) = SCORING_AREA \<or> encorePhase h \<ge> 2
               then Option.bind (komi_wave b selfKomi) (\<lambda>wave. Some (rowGlobal(18 := wave)))
               else Some rowGlobal)))"

section \<open>The row\<close>

definition fillRowV7 ::
  "zobrist \<Rightarrow> board \<Rightarrow> history \<Rightarrow> player \<Rightarrow> MiscNNInputParams \<Rightarrow> int \<Rightarrow> int \<Rightarrow> bool \<Rightarrow> row \<times> row \<Rightarrow> (row \<times> row) option" where
  "fillRowV7 Z b h nextPlayer p nnXLen nnYLen useNHWC = (\<lambda>(rowBin, rowGlobal).
     if \<not> (nnXLen \<le> MAX_BOARD_LEN \<and> nnYLen \<le> MAX_BOARD_LEN \<and> x_size b \<le> nnXLen \<and> y_size b \<le> nnYLen) then None
     else
       let rowBin = fill_zero (NUM_FEATURES_SPATIAL_V7 * nnXLen * nnYLen) rowBin;
           rowGlobal = fill_zero NUM_FEATURES_GLOBAL_V7 rowGlobal;
           pla = nextPlayer; opp = getOpp pla;
           (posStride, featureStride) = row_strides nnXLen nnYLen useNHWC;
           rowBin = fill_stones b pla nnXLen posStride featureStride rowBin;
           rowBin = fill_ko b h nnXLen nnYLen posStride featureStride rowBin
       in Option.bind (area_part b h pla p nnXLen nnYLen posStride featureStride rowBin) (\<lambda>(rowBin, notWin).
          Option.bind (history_turns Z b h nextPlayer p notWin) (\<lambda>(maxTurns, suppress).
          Option.bind (history_part b h opp maxTurns nnXLen nnYLen posStride featureStride (rowBin, rowGlobal))
            (\<lambda>((rowBin, rowGlobal), turns).
          Option.bind (ladder_part Z b h opp turns nnXLen nnYLen posStride featureStride rowBin) (\<lambda>rowBin.
            let rowBin = fill_encore b h pla nnXLen nnYLen posStride featureStride rowBin
            in Option.bind (fill_global Z b h nextPlayer p suppress rowGlobal) (\<lambda>rowGlobal.
                 Some (rowBin, rowGlobal)))))))"

end
