(* ===== verification/NNRows.thy ===== *)
theory NNRows
  imports NNFeatures SymmetryBoard
begin

text \<open>
  The spatial row as a set of marked cells. Every step of \<open>fillRowV7\<close> writes ones at cells that
  stand for a feature and a point of the board; \<open>planes\<close> is the set of the cells where a feature
  holds, and a loop over the points marks such a set.
\<close>

section \<open>Marks\<close>

definition marks :: "int \<Rightarrow> int \<Rightarrow> (int \<times> int) set \<Rightarrow> row \<Rightarrow> row" where
  "marks posStride featureStride M row = (\<lambda>i. if \<exists>(p, f)\<in>M. p * posStride + f * featureStride = i then 1 else row i)"

definition planes :: "board \<Rightarrow> int \<Rightarrow> (int \<Rightarrow> loc \<Rightarrow> bool) \<Rightarrow> (int \<times> int) set" where
  "planes b nnXLen P =
     {(xyToPos x y nnXLen, f) | x y f. 0 \<le> x \<and> x < x_size b \<and> 0 \<le> y \<and> y < y_size b \<and> P f (getLoc x y (x_size b))}"

lemma setRowBin_marks: "setRowBin row p f 1 posStride featureStride = marks posStride featureStride {(p, f)} row"
  by (rule ext) (simp add: setRowBin_def marks_def)

lemma marks_empty [simp]: "marks posStride featureStride {} row = row"
  by (simp add: marks_def)

lemma marks_marks: "marks posStride featureStride M (marks posStride featureStride N row) = marks posStride featureStride (M \<union> N) row"
  by (rule ext) (auto simp: marks_def)

lemma fold_marks:
  "fold (\<lambda>a. marks posStride featureStride (F a)) as row = marks posStride featureStride (\<Union>a\<in>set as. F a) row"
proof (induction as arbitrary: row)
  case (Cons a as)
  then show ?case by (simp add: marks_marks Un_commute)
qed simp

lemma planes_Un: "planes b nnXLen P \<union> planes b nnXLen Q = planes b nnXLen (\<lambda>f l. P f l \<or> Q f l)"
  by (auto simp: planes_def)

lemma planes_empty: "planes b nnXLen (\<lambda>f l. False) = {}"
  by (simp add: planes_def)

lemma planes_cong:
  assumes z: "x_size b' = x_size b" "y_size b' = y_size b" "x_size b \<le> MAX_LEN" "y_size b \<le> MAX_LEN"
    and e: "\<And>f l. on_board (x_size b) (y_size b) l \<Longrightarrow> P f l = Q f l"
  shows "planes b' nnXLen P = planes b nnXLen Q"
proof -
  have "P f (getLoc x y (x_size b)) = Q f (getLoc x y (x_size b))"
    if "0 \<le> x" "x < x_size b" "0 \<le> y" "y < y_size b" for x y f
    by (rule e [OF getLoc_on_board(1) [OF that z(3,4)]])
  then show ?thesis by (simp add: planes_def z(1,2) cong: conj_cong)
qed

text \<open>A loop over the points whose step marks the features of its point.\<close>

definition cells :: "board \<Rightarrow> int \<Rightarrow> (int \<Rightarrow> loc \<Rightarrow> bool) \<Rightarrow> int \<times> int \<Rightarrow> (int \<times> int) set" where
  "cells b nnXLen P = (\<lambda>(x, y). {xyToPos x y nnXLen} \<times> {f. P f (getLoc x y (x_size b))})"

lemma Union_cells: "(\<Union>a\<in>set (rows_xy (x_size b) (y_size b)). cells b nnXLen P a) = planes b nnXLen P"
proof (intro set_eqI iffI)
  fix c assume "c \<in> (\<Union>a\<in>set (rows_xy (x_size b) (y_size b)). cells b nnXLen P a)"
  then show "c \<in> planes b nnXLen P" by (fastforce simp: set_rows_xy cells_def planes_def)
next
  fix c assume "c \<in> planes b nnXLen P"
  then obtain x y f where "c \<in> cells b nnXLen P (x, y)" "(x, y) \<in> set (rows_xy (x_size b) (y_size b))"
    by (auto simp: set_rows_xy cells_def planes_def)
  then show "c \<in> (\<Union>a\<in>set (rows_xy (x_size b) (y_size b)). cells b nnXLen P a)" by blast
qed

lemma fold_points_marks:
  assumes "\<And>x y row. 0 \<le> x \<Longrightarrow> x < x_size b \<Longrightarrow> 0 \<le> y \<Longrightarrow> y < y_size b \<Longrightarrow>
    step (x, y) row = marks posStride featureStride (cells b nnXLen P (x, y)) row"
  shows "fold step (rows_xy (x_size b) (y_size b)) row = marks posStride featureStride (planes b nnXLen P) row"
proof -
  have "fold step (rows_xy (x_size b) (y_size b)) row =
      fold (\<lambda>a. marks posStride featureStride (cells b nnXLen P a)) (rows_xy (x_size b) (y_size b)) row"
    using assms by (intro fold_cong refl ext) (auto simp: set_rows_xy)
  then show ?thesis by (simp add: fold_marks Union_cells)
qed

text \<open>A single point.\<close>

lemma locToPos_xy:
  assumes "on_board xs ys l" "xs \<le> MAX_LEN" "ys \<le> MAX_LEN"
  shows "locToPos l xs nnXLen nnYLen = xyToPos (getX l xs) (getY l xs) nnXLen"
  using on_board_range(1) [OF assms] by (simp add: locToPos_def xyToPos_def PASS_LOC_def NULL_LOC_def)

lemma locToPos_getLoc:
  assumes "0 \<le> x" "x < xs" "0 \<le> y" "y < ys" "xs \<le> MAX_LEN" "ys \<le> MAX_LEN"
  shows "locToPos (getLoc x y xs) xs nnXLen nnYLen = xyToPos x y nnXLen"
  using getLoc_on_board [OF assms] locToPos_xy [OF getLoc_on_board(1) [OF assms] assms(5,6)] by simp

lemma single_plane:
  assumes "on_board (x_size b) (y_size b) l" "x_size b \<le> MAX_LEN" "y_size b \<le> MAX_LEN"
  shows "{(locToPos l (x_size b) nnXLen nnYLen, f)} = planes b nnXLen (\<lambda>g m. g = f \<and> m = l)"
  using getSymLoc_coords(2-6) [OF assms] getLoc_on_board(2,3) [OF _ _ _ _ assms(2,3)]
  by (auto simp: planes_def locToPos_xy [OF assms])

section \<open>Cells and indices\<close>

definition cell_index :: "int \<Rightarrow> int \<Rightarrow> bool \<Rightarrow> int \<Rightarrow> int \<Rightarrow> int \<Rightarrow> int" where
  "cell_index nnXLen nnYLen useNHWC x y f =
     (if useNHWC then xyToPos x y nnXLen * NUM_FEATURES_SPATIAL_V7 + f else xyToPos x y nnXLen + f * (nnXLen * nnYLen))"

lemma cell_strides:
  assumes "row_strides nnXLen nnYLen useNHWC = (posStride, featureStride)"
  shows "xyToPos x y nnXLen * posStride + f * featureStride = cell_index nnXLen nnYLen useNHWC x y f"
  using assms by (auto simp: row_strides_def cell_index_def split: if_splits)

lemma pos_range:
  assumes "0 \<le> x" "x < nnXLen" "0 \<le> y" "y < (nnYLen :: int)"
  shows "0 \<le> xyToPos x y nnXLen" "xyToPos x y nnXLen < nnXLen * nnYLen"
proof -
  have "xyToPos x y nnXLen < (y + 1) * nnXLen" using assms by (simp add: xyToPos_def algebra_simps)
  also have "\<dots> \<le> nnYLen * nnXLen" using assms by (intro mult_right_mono) auto
  finally show "xyToPos x y nnXLen < nnXLen * nnYLen" by (simp add: mult.commute)
  show "0 \<le> xyToPos x y nnXLen" using assms by (simp add: xyToPos_def)
qed

lemma digits_range:
  assumes "0 \<le> a" "a < m" "0 \<le> c" "c < (n :: int)"
  shows "0 \<le> a + c * m" "a + c * m < m * n"
proof -
  have "a + c * m < (c + 1) * m" using assms by (simp add: algebra_simps)
  also have "\<dots> \<le> n * m" using assms by (intro mult_right_mono) auto
  finally show "a + c * m < m * n" by (simp add: mult.commute)
  show "0 \<le> a + c * m" using assms by simp
qed

lemma cell_range:
  assumes "0 \<le> x" "x < nnXLen" "0 \<le> y" "y < nnYLen" "0 \<le> f" "f < NUM_FEATURES_SPATIAL_V7"
  shows "0 \<le> cell_index nnXLen nnYLen useNHWC x y f"
    "cell_index nnXLen nnYLen useNHWC x y f < NUM_FEATURES_SPATIAL_V7 * nnXLen * nnYLen"
  using digits_range [OF assms(5,6) pos_range [OF assms(1-4)]] digits_range [OF pos_range [OF assms(1-4)] assms(5,6)]
  by (auto simp: cell_index_def mult.commute mult.left_commute add.commute)

lemma cell_inj:
  assumes a: "0 \<le> x" "x < nnXLen" "0 \<le> y" "y < nnYLen" "0 \<le> f" "f < NUM_FEATURES_SPATIAL_V7"
    and a': "0 \<le> x'" "x' < nnXLen" "0 \<le> y'" "y' < nnYLen" "0 \<le> f'" "f' < NUM_FEATURES_SPATIAL_V7"
    and e: "cell_index nnXLen nnYLen useNHWC x y f = cell_index nnXLen nnYLen useNHWC x' y' f'"
  shows "x = x' \<and> y = y' \<and> f = f'"
proof -
  note r = pos_range [OF a(1-4)] pos_range [OF a'(1-4)]
  have "f = f' \<and> xyToPos x y nnXLen = xyToPos x' y' nnXLen"
  proof (cases useNHWC)
    case True
    show ?thesis
      by (rule near_coords [of _ _ NUM_FEATURES_SPATIAL_V7]) (use e True a a' in \<open>auto simp: cell_index_def\<close>)
  next
    case False
    have "xyToPos x y nnXLen = xyToPos x' y' nnXLen \<and> f = f'"
      by (rule near_coords [of _ _ "nnXLen * nnYLen"]) (use e False r in \<open>auto simp: cell_index_def\<close>)
    then show ?thesis by blast
  qed
  moreover have "x = x' \<and> y = y'" if "xyToPos x y nnXLen = xyToPos x' y' nnXLen"
    by (rule near_coords [of _ _ nnXLen]) (use that a a' in \<open>auto simp: xyToPos_def add.commute\<close>)
  ultimately show ?thesis by blast
qed

section \<open>What the spatial row holds\<close>

definition row_holds ::
  "board \<Rightarrow> int \<Rightarrow> int \<Rightarrow> bool \<Rightarrow> (int \<Rightarrow> loc \<Rightarrow> bool) \<Rightarrow> row \<Rightarrow> row \<Rightarrow> bool" where
  "row_holds b nnXLen nnYLen useNHWC P old new \<longleftrightarrow>
     (\<forall>i. i < 0 \<or> NUM_FEATURES_SPATIAL_V7 * nnXLen * nnYLen \<le> i \<longrightarrow> new i = old i) \<and>
     (\<forall>x y f. 0 \<le> x \<and> x < nnXLen \<and> 0 \<le> y \<and> y < nnYLen \<and> 0 \<le> f \<and> f < NUM_FEATURES_SPATIAL_V7 \<longrightarrow>
        new (cell_index nnXLen nnYLen useNHWC x y f) =
          (if x < x_size b \<and> y < y_size b \<and> P f (getLoc x y (x_size b)) then 1 else 0))"

lemma row_holds_at:
  "row_holds b nnXLen nnYLen useNHWC P old new \<Longrightarrow> 0 \<le> x \<Longrightarrow> x < nnXLen \<Longrightarrow> 0 \<le> y \<Longrightarrow> y < nnYLen \<Longrightarrow> 0 \<le> f \<Longrightarrow>
   f < NUM_FEATURES_SPATIAL_V7 \<Longrightarrow> new (cell_index nnXLen nnYLen useNHWC x y f) =
     (if x < x_size b \<and> y < y_size b \<and> P f (getLoc x y (x_size b)) then 1 else 0)"
  by (simp add: row_holds_def)

lemma marked_row:
  fixes row :: row
  assumes z: "x_size b \<le> nnXLen" "y_size b \<le> nnYLen" and P: "\<forall>f l. P f l \<longrightarrow> 0 \<le> f \<and> f < NUM_FEATURES_SPATIAL_V7"
    and s: "row_strides nnXLen nnYLen useNHWC = (posStride, featureStride)"
  shows "row_holds b nnXLen nnYLen useNHWC P row
    (marks posStride featureStride (planes b nnXLen P) (fill_zero (NUM_FEATURES_SPATIAL_V7 * nnXLen * nnYLen) row))"
proof -
  define row' where "row' = marks posStride featureStride (planes b nnXLen P) (fill_zero (NUM_FEATURES_SPATIAL_V7 * nnXLen * nnYLen) row)"
  have c: "(\<exists>(p, f)\<in>planes b nnXLen P. p * posStride + f * featureStride = j) \<longleftrightarrow>
      (\<exists>x y f. 0 \<le> x \<and> x < x_size b \<and> 0 \<le> y \<and> y < y_size b \<and> P f (getLoc x y (x_size b)) \<and>
        cell_index nnXLen nnYLen useNHWC x y f = j)" for j
    unfolding planes_def cell_strides [OF s, symmetric] by blast
  have e: "row' j = (if \<exists>x y f. 0 \<le> x \<and> x < x_size b \<and> 0 \<le> y \<and> y < y_size b \<and> P f (getLoc x y (x_size b)) \<and>
      cell_index nnXLen nnYLen useNHWC x y f = j then 1 else fill_zero (NUM_FEATURES_SPATIAL_V7 * nnXLen * nnYLen) row j)" for j
    unfolding row'_def marks_def c ..
  have out: "row' i = row i" if "i < 0 \<or> NUM_FEATURES_SPATIAL_V7 * nnXLen * nnYLen \<le> i" for i
  proof -
    have "\<not> (\<exists>x y f. 0 \<le> x \<and> x < x_size b \<and> 0 \<le> y \<and> y < y_size b \<and> P f (getLoc x y (x_size b)) \<and>
        cell_index nnXLen nnYLen useNHWC x y f = i)"
    proof (intro notI, elim exE conjE)
      fix x y f assume "0 \<le> x" "x < x_size b" "0 \<le> y" "y < y_size b" "P f (getLoc x y (x_size b))"
        "cell_index nnXLen nnYLen useNHWC x y f = i"
      then show False using cell_range [of x nnXLen y nnYLen f useNHWC] P z that by fastforce
    qed
    then show ?thesis using that by (auto simp: e fill_zero_def)
  qed
  have "row' (cell_index nnXLen nnYLen useNHWC x y f) =
        (if x < x_size b \<and> y < y_size b \<and> P f (getLoc x y (x_size b)) then 1 else 0)"
    if a: "0 \<le> x" "x < nnXLen" "0 \<le> y" "y < nnYLen" "0 \<le> f" "f < NUM_FEATURES_SPATIAL_V7" for x y f
  proof -
    have "(\<exists>u v g. 0 \<le> u \<and> u < x_size b \<and> 0 \<le> v \<and> v < y_size b \<and> P g (getLoc u v (x_size b)) \<and>
        cell_index nnXLen nnYLen useNHWC u v g = cell_index nnXLen nnYLen useNHWC x y f) \<longleftrightarrow>
      x < x_size b \<and> y < y_size b \<and> P f (getLoc x y (x_size b))"
    proof
      assume "\<exists>u v g. 0 \<le> u \<and> u < x_size b \<and> 0 \<le> v \<and> v < y_size b \<and> P g (getLoc u v (x_size b)) \<and>
        cell_index nnXLen nnYLen useNHWC u v g = cell_index nnXLen nnYLen useNHWC x y f"
      then obtain u v g where u: "0 \<le> u" "u < x_size b" "0 \<le> v" "v < y_size b" "P g (getLoc u v (x_size b))"
        "cell_index nnXLen nnYLen useNHWC u v g = cell_index nnXLen nnYLen useNHWC x y f" by blast
      have "u = x \<and> v = y \<and> g = f" by (rule cell_inj [OF _ _ _ _ _ _ a u(6)]) (use u P z in fastforce)+
      then show "x < x_size b \<and> y < y_size b \<and> P f (getLoc x y (x_size b))" using u by blast
    qed (use a in blast)
    then show ?thesis using cell_range [OF a, of useNHWC] by (simp add: e fill_zero_def)
  qed
  with out show ?thesis unfolding row'_def [symmetric] row_holds_def by blast
qed

end
