(* ===== verification/NNLadders.thy ===== *)
theory NNLadders
  imports NNFeatures LadderProps SymmetryBoard
begin

text \<open>
  \<open>iterLadders\<close> as its sequence of calls: whatever the callback does, it is called on the
  stones with one or two liberties whose chain a search found in a ladder, row by row, each once,
  and the searches leave the board they share with the position it had.
\<close>

definition ladder_stone :: "board \<Rightarrow> loc \<Rightarrow> bool" where
  "ladder_stone b l \<longleftrightarrow> is_stone (colors b l) \<and> (liberty_count b l = 1 \<or> liberty_count b l = 2)"

text \<open>
  The run of the loop without its callback: the answers it has on record at the end, and the one
  exception, that a search which the loop makes, from the board and buffer that the searches before
  it left, meets both its limits.
\<close>

abbreviation silent :: "loc \<Rightarrow> int \<Rightarrow> loc list \<Rightarrow> unit \<Rightarrow> unit option" where
  "silent \<equiv> \<lambda>loc pos moves s. Some s"

definition ladder_scan :: "zobrist \<Rightarrow> board \<Rightarrow> (loc \<times> bool) list option" where
  "ladder_scan Z b = map_option (\<lambda>(copy, buf, workingMoves, solved, s). solved)
     (foldM (iter_point Z b 0 silent) (rows_xy (x_size b) (y_size b)) (b, [], [], [], ()))"

definition search_limits :: "zobrist \<Rightarrow> loc \<Rightarrow> int \<Rightarrow> board \<Rightarrow> loc list \<Rightarrow> bool" where
  "search_limits Z l libs copy buf \<longleftrightarrow>
     (if libs = 1 then limits_met Z l True copy buf else attack_limits Z l (copy, buf))"

definition point_limits :: "zobrist \<Rightarrow> board \<Rightarrow> int \<times> int \<Rightarrow> unit ladder_scan \<Rightarrow> bool" where
  "point_limits Z b = (\<lambda>(x, y) (copy, buf, workingMoves, solved, s).
     let l = getLoc x y (x_size b)
     in ladder_stone b l \<and> chain_head b l \<notin> fst ` set solved \<and> search_limits Z l (getNumLiberties b l) copy buf)"

fun scan_limits :: "zobrist \<Rightarrow> board \<Rightarrow> (int \<times> int) list \<Rightarrow> unit ladder_scan \<Rightarrow> bool" where
  "scan_limits Z b [] st \<longleftrightarrow> False"
| "scan_limits Z b (p # ps) st \<longleftrightarrow> point_limits Z b p st \<or>
     (case iter_point Z b 0 silent p st of None \<Rightarrow> False | Some st' \<Rightarrow> scan_limits Z b ps st')"

definition ladder_limits :: "zobrist \<Rightarrow> board \<Rightarrow> bool" where
  "ladder_limits Z b \<longleftrightarrow> scan_limits Z b (rows_xy (x_size b) (y_size b)) (b, [], [], [], ())"

lemma no_stones_no_limits:
  assumes "\<And>l. \<not> ladder_stone b l"
  shows "\<not> ladder_limits Z b"
proof -
  have "\<not> scan_limits Z b ps st" for ps st
    by (induction ps arbitrary: st) (auto simp: point_limits_def assms split: option.splits)
  then show ?thesis by (simp add: ladder_limits_def)
qed

text \<open>
  What a call says of its stone and its list of moves: for a chain of two liberties each move is
  one of them, and legal for the attacker but for a simple ko.
\<close>

definition ladder_call :: "board \<Rightarrow> loc \<Rightarrow> loc list \<Rightarrow> bool" where
  "ladder_call b l moves \<longleftrightarrow> ladder_stone b l \<and>
     (liberty_count b l = 2 \<longrightarrow>
        (\<forall>m\<in>set moves. isLegal (b\<lparr>ko_loc := NULL_LOC\<rparr>) m (getOpp (colors b l)) False \<and> colors b m = C_EMPTY \<and>
           (\<exists>k\<in>group (x_size b) (colors b) l. adjacent (x_size b) k m)))"

definition call_ladder :: "board \<Rightarrow> int \<Rightarrow> (loc \<Rightarrow> int \<Rightarrow> loc list \<Rightarrow> 's \<Rightarrow> 's option) \<Rightarrow> (int \<times> int) \<times> loc list \<Rightarrow> 's \<Rightarrow> 's option" where
  "call_ladder b nnXLen f = (\<lambda>((x, y), moves). f (getLoc x y (x_size b)) (xyToPos x y nnXLen) moves)"

section \<open>One search\<close>

lemma getNumLiberties_eq:
  assumes "wf_board Z b" "is_stone (colors b l)"
  shows "getNumLiberties b l = int (liberty_count b l)"
proof -
  have "core Z (\<lambda>_. 0) {} b" using assms(1) by (simp add: wf_board_def)
  then show ?thesis using liberty_count_eq(1) [OF _ assms(2)] by (simp add: getNumLiberties_def)
qed

lemma looks_like_group: "looks_like b c \<Longrightarrow> group (x_size c) (colors c) l = group (x_size b) (colors b) l"
  by (simp add: looks_like_def)

lemma isLegal_forget_ko:
  assumes "wf_board Z b" "wf_board Z c" "looks_like b c" "isLegal c m p multi"
  shows "isLegal (b\<lparr>ko_loc := NULL_LOC\<rparr>) m p multi"
proof -
  have n: "colors b NULL_LOC = C_WALL"
    using assms(1) on_board_range(1) [of "x_size b" "y_size b" NULL_LOC] by (fastforce simp: wf_board_def core_def geom_ok_def NULL_LOC_def)
  show ?thesis
    using assms(4) isLegal_eq [OF assms(2), of m p multi] isLegal_eq [OF wf_clear_ko [OF assms(1)], of m p multi] assms(3) n
    by (auto simp: looks_like_def)
qed

lemma iter_search_ok:
  assumes wf: "wf_board Z b" and c: "wf_board Z c" "looks_like b c" and l: "ladder_stone b l"
    and lim: "\<not> search_limits Z l (int (liberty_count b l)) c buf"
  shows "\<exists>v c' buf' moves. iter_search Z l (int (liberty_count b l)) c buf wm = Some (v, c', buf', moves) \<and>
    wf_board Z c' \<and> looks_like b c' \<and> (v \<longrightarrow> ladder_call b l moves \<and> (liberty_count b l = 2 \<longrightarrow> moves \<noteq> []))"
proof (cases "liberty_count b l = 1")
  case True
  have "\<not> limits_met Z l True c buf" using lim True by (simp add: search_limits_def)
  then obtain v c' buf' where "searchIsLadderCaptured Z l True (c, buf) = Some (v, c', buf')" "wf_board Z c'" "looks_like c c'"
    using search_ok [OF c(1)] by blast
  then show ?thesis using True c(2) l by (auto simp: iter_search_def ladder_call_def intro: looks_like_trans)
next
  case False
  have col: "colors c l = colors b l" using c(2) by (simp add: looks_like_def)
  have "\<not> attack_limits Z l (c, buf)" using lim False by (simp add: search_limits_def)
  then obtain v c' buf' moves where r: "searchIsLadderCapturedAttackerFirst2Libs Z l (c, buf, []) = Some (v, c', buf', moves)"
    "wf_board Z c'" "same_board c c'"
    and mv: "if v then moves \<noteq> [] \<and> (\<forall>m\<in>set moves. isLegal c m (getOpp (colors c l)) False \<and> colors c m = C_EMPTY \<and>
                (\<exists>k\<in>group (x_size c) (colors c) l. adjacent (x_size c) k m)) else moves = []"
    using attack_ok [OF c(1), of l buf "[]"] by blast
  have "v \<longrightarrow> ladder_call b l moves \<and> moves \<noteq> []"
    using mv l c(2) isLegal_forget_ko [OF wf c] by (auto simp: ladder_call_def col looks_like_group) (auto simp: looks_like_def)
  then show ?thesis using False r c(2) by (auto simp: iter_search_def same_board_def intro: looks_like_trans)
qed

section \<open>The scan\<close>

text \<open>A search started in the chain of head \<open>h\<close>, in the position of the board, answers \<open>v\<close>.\<close>

definition search_says :: "zobrist \<Rightarrow> board \<Rightarrow> loc \<Rightarrow> bool \<Rightarrow> bool" where
  "search_says Z b h v \<longleftrightarrow>
     (\<exists>l c buf wm r. chain_head b l = h \<and> ladder_stone b l \<and> wf_board Z c \<and> looks_like b c \<and>
        iter_search Z l (int (liberty_count b l)) c buf wm = Some (v, r))"

definition scan_ok :: "zobrist \<Rightarrow> board \<Rightarrow> board \<Rightarrow> (loc \<times> bool) list \<Rightarrow> bool" where
  "scan_ok Z b c solved \<longleftrightarrow> wf_board Z c \<and> looks_like b c \<and> distinct (map fst solved) \<and>
     fst ` set solved \<subseteq> chain_head b ` {l. ladder_stone b l} \<and> (\<forall>(h, v)\<in>set solved. search_says Z b h v)"

text \<open>The heads on record are fewer than the array holds, as long as one is missing.\<close>

lemma solved_room:
  assumes wf: "wf_board Z b" and s: "scan_ok Z b c solved" and l: "ladder_stone b l" and n: "chain_head b l \<notin> fst ` set solved"
  shows "int (length solved) < MAX_PLAY_SIZE"
proof -
  let ?O = "{l. on_board (x_size b) (y_size b) l}" let ?H = "chain_head b ` {l. ladder_stone b l}"
  have g: "geom_ok b" using wf by (simp add: wf_board_def core_def)
  have sub: "{l. ladder_stone b l} \<subseteq> ?O" using geom_stone_on_board [OF g] by (auto simp: ladder_stone_def)
  have fin: "finite {l. ladder_stone b l}" by (rule finite_subset [OF sub]) simp
  have "fst ` set solved \<subset> ?H" using s l n by (auto simp: scan_ok_def)
  then have "card (fst ` set solved) < card ?H" using fin by (intro psubset_card_mono) auto
  also have "card ?H \<le> card {l. ladder_stone b l}" by (rule card_image_le [OF fin])
  also have "\<dots> \<le> card ?O" by (rule card_mono [OF _ sub]) simp
  finally have c: "card (fst ` set solved) < card ?O" .
  have "length solved = card (fst ` set solved)" using s distinct_card [of "map fst solved"] by (simp add: scan_ok_def)
  moreover have z: "0 \<le> x_size b" "x_size b \<le> MAX_LEN" "0 \<le> y_size b" "y_size b \<le> MAX_LEN" using g by (simp_all add: geom_ok_def)
  moreover have "x_size b * y_size b \<le> MAX_PLAY_SIZE" unfolding MAX_PLAY_SIZE_def
    using z by (intro mult_mono) (auto simp: MAX_LEN_def)
  ultimately show ?thesis using c card_on_board [OF z(1,3)] by linarith
qed

lemma find_solved:
  assumes "distinct (map fst solved)"
  shows "find (\<lambda>e. fst e = h) solved = Some e \<longleftrightarrow> e \<in> set solved \<and> fst e = h"
    "find (\<lambda>e. fst e = h) solved = None \<longleftrightarrow> h \<notin> fst ` set solved"
  using assms by (induction solved) auto

text \<open>One point: at most one call, and a head on record if there is a chain to decide.\<close>

lemma iter_point_ok:
  fixes nnXLen x y :: int
  assumes wf: "wf_board Z b" and s: "scan_ok Z b c solved"
    and lim: "\<not> point_limits Z b (x, y) (c, buf, wm, solved, ())"
  defines "l \<equiv> getLoc x y (x_size b)"
  shows "\<exists>calls c' buf' wm' new. scan_ok Z b c' (solved @ new) \<and>
    (\<forall>f s. iter_point Z b nnXLen f (x, y) (c, buf, wm, solved, s) =
       map_option (\<lambda>s. (c', buf', wm', solved @ new, s)) (foldM (call_ladder b nnXLen f) calls s)) \<and>
    iter_point Z b 0 silent (x, y) (c, buf, wm, solved, ()) = Some (c', buf', wm', solved @ new, ()) \<and>
    map fst calls = (if ladder_stone b l \<and> (chain_head b l, True) \<in> set (solved @ new) then [(x, y)] else []) \<and>
    (\<forall>(p, moves)\<in>set calls. ladder_call b l moves) \<and>
    (ladder_stone b l \<longrightarrow> chain_head b l \<in> fst ` set (solved @ new)) \<and>
    (\<forall>(h, v)\<in>set new. v \<longrightarrow> chain_head b l = h \<and> (\<exists>(p, moves)\<in>set calls. liberty_count b l = 2 \<longrightarrow> moves \<noteq> []))"
proof (cases "ladder_stone b l")
  case False
  have "getNumLiberties b l = int (liberty_count b l)" if "is_stone (colors b l)"
    by (rule getNumLiberties_eq [OF wf that])
  then have "iter_point Z b n f (x, y) (c, buf, wm, solved, s) = Some (c, buf, wm, solved, s)"
    "iter_point Z b n silent (x, y) (c, buf, wm, solved, ()) = Some (c, buf, wm, solved, ())" for n f and s :: 'a
    using False by (auto simp: iter_point_def l_def ladder_stone_def is_stone_def Let_def)
  then show ?thesis using s False
    by (intro exI [of _ "[]"] exI [of _ c] exI [of _ buf] exI [of _ wm]) simp
next
  case True
  then have st: "is_stone (colors b l)" by (simp add: ladder_stone_def)
  have n: "getNumLiberties b l = int (liberty_count b l)" by (rule getNumLiberties_eq [OF wf st])
  have d: "distinct (map fst solved)" using s by (simp add: scan_ok_def)
  show ?thesis
  proof (cases "find (\<lambda>e. fst e = chain_head b l) solved")
    case (Some e)
    then obtain v where e: "e = (chain_head b l, v)" "(chain_head b l, v) \<in> set solved"
      using find_solved(1) [OF d] by (cases e) auto
    then have v: "(chain_head b l, True) \<in> set solved \<longleftrightarrow> v"
      using d by (metis (full_types) eq_key_imp_eq_value)
    have "iter_point Z b nnXLen f (x, y) (c, buf, wm, solved, s) =
        map_option (\<lambda>s. (c, buf, if v then [] else wm, solved, s))
          (foldM (call_ladder b nnXLen f) (if v then [((x, y), [])] else []) s)" for f and s :: 'a
      using True Some e n st
      by (cases "f l (xyToPos x y nnXLen) [] s")
        (auto simp: iter_point_def l_def ladder_stone_def is_stone_def Let_def call_ladder_def)
    moreover have "iter_point Z b 0 silent (x, y) (c, buf, wm, solved, ()) = Some (c, buf, if v then [] else wm, solved, ())"
      using True Some e n st by (auto simp: iter_point_def l_def ladder_stone_def is_stone_def Let_def)
    moreover have "ladder_call b l []" using True by (simp add: ladder_call_def)
    moreover have "chain_head b l \<in> fst ` set solved" using e(2) by force
    ultimately show ?thesis using s True v
      by (intro exI [of _ "if v then [((x, y), [])] else []"] exI [of _ c] exI [of _ buf]
          exI [of _ "if v then [] else wm"] exI [of _ "[]"]) auto
  next
    case None
    then have h: "chain_head b l \<notin> fst ` set solved" using find_solved(2) [OF d] by blast
    have room: "int (length solved) < MAX_PLAY_SIZE" by (rule solved_room [OF wf s True h])
    have c: "wf_board Z c" "looks_like b c" using s by (simp_all add: scan_ok_def)
    have sl: "\<not> search_limits Z l (int (liberty_count b l)) c buf"
      using lim True h by (simp add: point_limits_def l_def [symmetric] n Let_def)
    obtain v c' buf' moves where r: "iter_search Z l (int (liberty_count b l)) c buf wm = Some (v, c', buf', moves)"
      "wf_board Z c'" "looks_like b c'" "v \<longrightarrow> ladder_call b l moves \<and> (liberty_count b l = 2 \<longrightarrow> moves \<noteq> [])"
      using iter_search_ok [OF wf c True sl] by blast
    then have says: "search_says Z b (chain_head b l) v" using True c unfolding search_says_def by blast
    have ok: "scan_ok Z b c' (solved @ [(chain_head b l, v)])"
      using s r h True says by (auto simp: scan_ok_def)
    have "iter_point Z b nnXLen f (x, y) (c, buf, wm, solved, s) =
        map_option (\<lambda>s. (c', buf', moves, solved @ [(chain_head b l, v)], s))
          (foldM (call_ladder b nnXLen f) (if v then [((x, y), moves)] else []) s)" for f and s :: 'a
      using True None n st r(1) room
      by (cases "f l (xyToPos x y nnXLen) moves s")
        (auto simp: iter_point_def l_def ladder_stone_def is_stone_def Let_def call_ladder_def)
    moreover have "iter_point Z b 0 silent (x, y) (c, buf, wm, solved, ()) =
        Some (c', buf', moves, solved @ [(chain_head b l, v)], ())"
      using True None n st r(1) room by (auto simp: iter_point_def l_def ladder_stone_def is_stone_def Let_def)
    moreover have "(chain_head b l, True) \<in> set (solved @ [(chain_head b l, v)]) \<longleftrightarrow> v" using h by force
    ultimately show ?thesis using ok True r(4)
      by (intro exI [of _ "if v then [((x, y), moves)] else []"] exI [of _ c'] exI [of _ buf']
          exI [of _ moves] exI [of _ "[(chain_head b l, v)]"]) auto
  qed
qed

lemma foldM_map_option:
  assumes "\<And>s. g s = map_option k (foldM F calls s)" "\<And>s. foldM G pts (k s) = map_option j (foldM F calls' s)"
  shows "Option.bind (g s) (foldM G pts) = map_option j (foldM F (calls @ calls') s)"
  using assms by (cases "foldM F calls s") (auto simp: foldM_append)

definition scan_call :: "board \<Rightarrow> (loc \<times> bool) list \<Rightarrow> int \<times> int \<Rightarrow> bool" where
  "scan_call b solved = (\<lambda>(x, y). let l = getLoc x y (x_size b) in ladder_stone b l \<and> (chain_head b l, True) \<in> set solved)"

lemma scan_call_final:
  assumes "ladder_stone b (getLoc x y (x_size b)) \<Longrightarrow> chain_head b (getLoc x y (x_size b)) \<in> fst ` set solved"
    "distinct (map fst (solved @ new))"
  shows "scan_call b (solved @ new) (x, y) \<longleftrightarrow> scan_call b solved (x, y)"
  using assms by (auto simp: scan_call_def Let_def) (force dest: eq_key_imp_eq_value)+

text \<open>Some call of a captured chain carries a move, if the chain has two liberties.\<close>

definition first_call :: "board \<Rightarrow> loc \<Rightarrow> ((int \<times> int) \<times> loc list) list \<Rightarrow> bool" where
  "first_call b h calls \<longleftrightarrow> (\<exists>((x, y), moves)\<in>set calls. chain_head b (getLoc x y (x_size b)) = h \<and>
     (liberty_count b (getLoc x y (x_size b)) = 2 \<longrightarrow> moves \<noteq> []))"

lemma first_call_mono: "first_call b h calls \<Longrightarrow> set calls \<subseteq> set calls' \<Longrightarrow> first_call b h calls'"
  unfolding first_call_def by blast

lemma iter_points_ok:
  assumes wf: "wf_board Z b" and s: "scan_ok Z b c solved" and lim: "\<not> scan_limits Z b pts (c, buf, wm, solved, ())"
  shows "\<exists>calls c' buf' wm' new. scan_ok Z b c' (solved @ new) \<and>
    foldM (iter_point Z b 0 silent) pts (c, buf, wm, solved, ()) = Some (c', buf', wm', solved @ new, ()) \<and>
    (\<forall>f (s :: 's). foldM (iter_point Z b nnXLen f) pts (c, buf, wm, solved, s) =
       map_option (\<lambda>s. (c', buf', wm', solved @ new, s)) (foldM (call_ladder b nnXLen f) calls s)) \<and>
    map fst calls = filter (scan_call b (solved @ new)) pts \<and>
    (\<forall>((x, y), moves)\<in>set calls. ladder_call b (getLoc x y (x_size b)) moves) \<and>
    (\<forall>(x, y)\<in>set pts. ladder_stone b (getLoc x y (x_size b)) \<longrightarrow>
       chain_head b (getLoc x y (x_size b)) \<in> fst ` set (solved @ new)) \<and>
    (\<forall>(h, v)\<in>set new. v \<longrightarrow> first_call b h calls)"
  using s lim
proof (induction pts arbitrary: c buf wm solved)
  case Nil
  then show ?case by (intro exI [of _ "[]"] exI [of _ c] exI [of _ buf] exI [of _ wm]) simp
next
  case (Cons p pts)
  obtain x y where p: "p = (x, y)" by fastforce
  let ?l = "getLoc x y (x_size b)"
  have lim1: "\<not> point_limits Z b (x, y) (c, buf, wm, solved, ())" using Cons.prems(2) by (simp add: p)
  from iter_point_ok [where 'a = 's, OF wf Cons.prems(1) lim1, of nnXLen] obtain calls1 c1 buf1 wm1 new1 where
    1: "scan_ok Z b c1 (solved @ new1)"
    "\<And>f (s :: 's). iter_point Z b nnXLen f (x, y) (c, buf, wm, solved, s) =
       map_option (\<lambda>s. (c1, buf1, wm1, solved @ new1, s)) (foldM (call_ladder b nnXLen f) calls1 s)"
    "map fst calls1 = (if scan_call b (solved @ new1) (x, y) then [(x, y)] else [])"
    "\<forall>(p, moves)\<in>set calls1. ladder_call b ?l moves"
    "ladder_stone b ?l \<Longrightarrow> chain_head b ?l \<in> fst ` set (solved @ new1)"
    "iter_point Z b 0 silent (x, y) (c, buf, wm, solved, ()) = Some (c1, buf1, wm1, solved @ new1, ())"
    "\<forall>(h, v)\<in>set new1. v \<longrightarrow> chain_head b ?l = h \<and> (\<exists>(p, moves)\<in>set calls1. liberty_count b ?l = 2 \<longrightarrow> moves \<noteq> [])"
    unfolding scan_call_def Let_def prod.case by blast
  have lim2: "\<not> scan_limits Z b pts (c1, buf1, wm1, solved @ new1, ())" using Cons.prems(2) 1(6) by (simp add: p)
  from Cons.IH [OF 1(1) lim2] obtain calls2 c2 buf2 wm2 new2 where
    2: "scan_ok Z b c2 ((solved @ new1) @ new2)"
    "\<And>f (s :: 's). foldM (iter_point Z b nnXLen f) pts (c1, buf1, wm1, solved @ new1, s) =
       map_option (\<lambda>s. (c2, buf2, wm2, (solved @ new1) @ new2, s)) (foldM (call_ladder b nnXLen f) calls2 s)"
    "map fst calls2 = filter (scan_call b ((solved @ new1) @ new2)) pts"
    "\<forall>((x, y), moves)\<in>set calls2. ladder_call b (getLoc x y (x_size b)) moves"
    "\<forall>(x, y)\<in>set pts. ladder_stone b (getLoc x y (x_size b)) \<longrightarrow>
       chain_head b (getLoc x y (x_size b)) \<in> fst ` set ((solved @ new1) @ new2)"
    "foldM (iter_point Z b 0 silent) pts (c1, buf1, wm1, solved @ new1, ()) = Some (c2, buf2, wm2, (solved @ new1) @ new2, ())"
    "\<forall>(h, v)\<in>set new2. v \<longrightarrow> first_call b h calls2"
    by blast
  have run: "foldM (iter_point Z b nnXLen f) (p # pts) (c, buf, wm, solved, s) =
      map_option (\<lambda>s. (c2, buf2, wm2, solved @ new1 @ new2, s)) (foldM (call_ladder b nnXLen f) (calls1 @ calls2) s)" for f and s :: 's
    using foldM_map_option [of "\<lambda>s. iter_point Z b nnXLen f (x, y) (c, buf, wm, solved, s)", OF 1(2) 2(2)] by (simp add: p)
  have k: "scan_call b ((solved @ new1) @ new2) (x, y) \<longleftrightarrow> scan_call b (solved @ new1) (x, y)"
    by (rule scan_call_final) (use 1(5) 2(1) in \<open>auto simp: scan_ok_def\<close>)
  have at: "ladder_call b ?l moves" if "((u, v), moves) \<in> set calls1" "(u, v) = (x, y)" for u v moves
    using that 1(4) by blast
  have eq: "q = (x, y)" if "(q, moves) \<in> set calls1" for q moves
  proof -
    have "q \<in> set (map fst calls1)" using that by force
    then show ?thesis unfolding 1(3) by (simp split: if_splits)
  qed
  have "\<forall>((x, y), moves)\<in>set (calls1 @ calls2). ladder_call b (getLoc x y (x_size b)) moves"
    using 2(4) 1(4) eq by fastforce
  moreover have "map fst (calls1 @ calls2) = filter (scan_call b (solved @ new1 @ new2)) (p # pts)"
    using 1(3) 2(3) k by (simp add: p)
  moreover have "\<forall>(x, y)\<in>set (p # pts). ladder_stone b (getLoc x y (x_size b)) \<longrightarrow>
       chain_head b (getLoc x y (x_size b)) \<in> fst ` set (solved @ new1 @ new2)"
    using 1(5) 2(5) by (auto simp: p)
  moreover have "foldM (iter_point Z b 0 silent) (p # pts) (c, buf, wm, solved, ()) = Some (c2, buf2, wm2, solved @ new1 @ new2, ())"
    using 1(6) 2(6) by (simp add: p)
  moreover have "\<forall>(h, v)\<in>set (new1 @ new2). v \<longrightarrow> first_call b h (calls1 @ calls2)"
  proof -
    have "first_call b h calls1" if "(h, True) \<in> set new1" for h
    proof -
      have "chain_head b ?l = h \<and> (\<exists>(p, moves)\<in>set calls1. liberty_count b ?l = 2 \<longrightarrow> moves \<noteq> [])"
        using bspec [OF 1(7) that] by simp
      then obtain a where h: "chain_head b ?l = h" and a: "a \<in> set calls1" "liberty_count b ?l = 2 \<longrightarrow> snd a \<noteq> []"
        by (elim conjE bexE) (simp add: split_beta)
      obtain q moves where "a = (q, moves)" by (rule prod.exhaust)
      then have q: "(q, moves) \<in> set calls1" "liberty_count b ?l = 2 \<longrightarrow> moves \<noteq> []" using a by simp_all
      have "((x, y), moves) \<in> set calls1" using q(1) eq [OF q(1)] by simp
      then show ?thesis unfolding first_call_def by (rule bexI [rotated]) (use h q(2) in simp)
    qed
    then have "first_call b h (calls1 @ calls2)" if "(h, True) \<in> set new1" for h
      by (rule first_call_mono) (use that in simp_all)
    moreover have "first_call b h (calls1 @ calls2)" if "(h, True) \<in> set new2" for h
    proof -
      have "first_call b h calls2" using bspec [OF 2(7) that] by simp
      then show ?thesis by (rule first_call_mono) simp
    qed
    ultimately show ?thesis by auto
  qed
  ultimately show ?case using 2(1) run
    by (intro exI [of _ "calls1 @ calls2"] exI [of _ c2] exI [of _ buf2] exI [of _ wm2] exI [of _ "new1 @ new2"]) simp
qed

text \<open>The whole scan: every chain has one answer on record, and it is one of a search.\<close>

definition scan_answers :: "zobrist \<Rightarrow> board \<Rightarrow> (loc \<times> bool) list \<Rightarrow> bool" where
  "scan_answers Z b solved \<longleftrightarrow> ladder_scan Z b = Some solved \<and> distinct (map fst solved) \<and>
     fst ` set solved = chain_head b ` {l. ladder_stone b l} \<and> (\<forall>(h, v)\<in>set solved. search_says Z b h v)"

lemma iterLadders_run:
  assumes wf: "wf_board Z b" and lim: "\<not> ladder_limits Z b"
  shows "\<exists>solved calls. scan_answers Z b solved \<and>
    (\<forall>f (s :: 's). iterLadders Z b nnXLen f s = foldM (call_ladder b nnXLen f) calls s) \<and>
    map fst calls = filter (scan_call b solved) (rows_xy (x_size b) (y_size b)) \<and>
    (\<forall>((x, y), moves)\<in>set calls. ladder_call b (getLoc x y (x_size b)) moves) \<and>
    (\<forall>(h, v)\<in>set solved. v \<longrightarrow> first_call b h calls)"
proof -
  have "scan_ok Z b b []" using wf by (simp add: scan_ok_def looks_like_def)
  from iter_points_ok [where 's = 's, OF wf this lim [unfolded ladder_limits_def], of nnXLen]
  obtain calls c' buf' wm' solved where
    s: "scan_ok Z b c' solved"
    and q: "foldM (iter_point Z b 0 silent) (rows_xy (x_size b) (y_size b)) (b, [], [], [], ()) = Some (c', buf', wm', solved, ())"
    and r: "\<And>f (s :: 's). foldM (iter_point Z b nnXLen f) (rows_xy (x_size b) (y_size b)) (b, [], [], [], s) =
       map_option (\<lambda>s. (c', buf', wm', solved, s)) (foldM (call_ladder b nnXLen f) calls s)"
    and m: "map fst calls = filter (scan_call b solved) (rows_xy (x_size b) (y_size b))"
    and c: "\<forall>((x, y), moves)\<in>set calls. ladder_call b (getLoc x y (x_size b)) moves"
    and h: "\<forall>(x, y)\<in>set (rows_xy (x_size b) (y_size b)). ladder_stone b (getLoc x y (x_size b)) \<longrightarrow>
       chain_head b (getLoc x y (x_size b)) \<in> fst ` set solved"
    and n: "\<forall>(h, v)\<in>set solved. v \<longrightarrow> first_call b h calls"
    unfolding append_Nil by blast
  have "chain_head b l \<in> fst ` set solved" if l: "ladder_stone b l" for l
  proof -
    have g: "geom_ok b" using wf by (simp add: wf_board_def core_def)
    then have "on_board (x_size b) (y_size b) l" using l geom_stone_on_board [OF g] by (simp add: ladder_stone_def)
    moreover have "x_size b \<le> MAX_LEN" "y_size b \<le> MAX_LEN" using g by (simp_all add: geom_ok_def)
    ultimately obtain x y where "(x, y) \<in> set (rows_xy (x_size b) (y_size b))" "getLoc x y (x_size b) = l"
      using getSymLoc_coords(2-6) [of "x_size b" "y_size b" l] unfolding set_rows_xy by fastforce
    then show ?thesis using h l by fastforce
  qed
  then have "scan_answers Z b solved"
    using s q unfolding scan_answers_def scan_ok_def ladder_scan_def by auto
  moreover have "iterLadders Z b nnXLen f s = foldM (call_ladder b nnXLen f) calls s" for f and s :: 's
    unfolding iterLadders_def r by (cases "foldM (call_ladder b nnXLen f) calls s") simp_all
  ultimately show ?thesis using m c n by blast
qed

section \<open>Evaluating the exception\<close>

text \<open>Every search of the loop ends within \<open>n\<close> turns.\<close>

definition search_ends :: "nat \<Rightarrow> zobrist \<Rightarrow> loc \<Rightarrow> int \<Rightarrow> board \<Rightarrow> loc list \<Rightarrow> bool" where
  "search_ends n Z l libs copy buf =
     (if libs = 1 then ends_within Z l (colors copy l) True (ko_loc copy) (ladder_depth copy) n (ladder_start True copy buf)
      else attack_ends n Z l (copy, buf))"

definition point_ends :: "nat \<Rightarrow> zobrist \<Rightarrow> board \<Rightarrow> int \<times> int \<Rightarrow> unit ladder_scan \<Rightarrow> bool" where
  "point_ends n Z b = (\<lambda>(x, y) (copy, buf, workingMoves, solved, s).
     let l = getLoc x y (x_size b); libs = getNumLiberties b l
     in is_stone (colors b l) \<and> (libs = 1 \<or> libs = 2) \<and> find (\<lambda>e. fst e = chain_head b l) solved = None \<longrightarrow>
        search_ends n Z l libs copy buf)"

fun scan_ends :: "nat \<Rightarrow> zobrist \<Rightarrow> board \<Rightarrow> (int \<times> int) list \<Rightarrow> unit ladder_scan \<Rightarrow> bool" where
  "scan_ends n Z b [] st \<longleftrightarrow> True"
| "scan_ends n Z b (p # ps) st \<longleftrightarrow> point_ends n Z b p st \<and>
     (case iter_point Z b 0 silent p st of None \<Rightarrow> True | Some st' \<Rightarrow> scan_ends n Z b ps st')"

lemma point_ends_limits:
  assumes "wf_board Z b" "point_ends n Z b p st"
  shows "\<not> point_limits Z b p st"
proof -
  obtain x y where p: "p = (x, y)" by fastforce
  obtain copy buf wm solved where st: "st = (copy, buf, wm, solved, ())" by (metis old.unit.exhaust prod_cases5)
  show ?thesis
  proof
    let ?l = "getLoc x y (x_size b)"
    assume "point_limits Z b p st"
    then have l: "ladder_stone b ?l" "chain_head b ?l \<notin> fst ` set solved" "search_limits Z ?l (getNumLiberties b ?l) copy buf"
      by (auto simp: point_limits_def p st Let_def)
    have "find (\<lambda>e. fst e = chain_head b ?l) solved = None" using l(2) by (force simp: find_None_iff)
    moreover have n: "getNumLiberties b ?l = int (liberty_count b ?l)"
      by (rule getNumLiberties_eq [OF assms(1)]) (use l(1) in \<open>simp add: ladder_stone_def\<close>)
    ultimately have "search_ends n Z ?l (getNumLiberties b ?l) copy buf"
      using assms(2) l(1) by (auto simp: point_ends_def p st Let_def ladder_stone_def)
    then show False using l(3) ends_within_limits attack_ends_limits
      by (auto simp: search_ends_def search_limits_def split: if_splits)
  qed
qed

lemma scan_ends_limits:
  assumes "wf_board Z b" "scan_ends n Z b (rows_xy (x_size b) (y_size b)) (b, [], [], [], ())"
  shows "\<not> ladder_limits Z b"
proof -
  have "scan_ends n Z b ps st \<Longrightarrow> \<not> scan_limits Z b ps st" for ps st
    by (induction ps arbitrary: st) (auto split: option.splits dest: point_ends_limits [OF assms(1)])
  then show ?thesis using assms(2) by (simp add: ladder_limits_def)
qed

end
