(* ===== verification/NNPlanes.thy ===== *)
theory NNPlanes
  imports NNRows NNLadders HistoryTrail
begin

text \<open>
  Each part of \<open>fillRowV7\<close> as the planes it marks: stones and liberties, ko bans, area, the
  last moves, ladders and the stones of the second encore.
\<close>

section \<open>Stones and ko bans\<close>

definition stone_plane :: "board \<Rightarrow> player \<Rightarrow> int \<Rightarrow> loc \<Rightarrow> bool" where
  "stone_plane b pla f l \<longleftrightarrow> f = 0 \<or> f = 1 \<and> colors b l = pla \<or> f = 2 \<and> colors b l = getOpp pla \<or>
     (f = 3 \<or> f = 4 \<or> f = 5) \<and> is_stone (colors b l) \<and> int (liberty_count b l) = f - 2"

lemma marks_cong: "M = N \<Longrightarrow> marks posStride featureStride M row = marks posStride featureStride N row"
  by simp

lemma fill_stones_planes:
  assumes wf: "wf_board Z b" and p: "is_stone pla"
  shows "fill_stones b pla nnXLen posStride featureStride row =
    marks posStride featureStride (planes b nnXLen (stone_plane b pla)) row"
  unfolding fill_stones_def Let_def
proof (rule fold_points_marks, goal_cases)
  case (1 x y row)
  let ?l = "getLoc x y (x_size b)"
  have o: "getOpp pla \<noteq> pla" "is_stone (getOpp pla)" using p by (cases pla; simp)+
  show ?case
  proof (cases "is_stone (colors b ?l)")
    case True
    then have c: "colors b ?l = pla \<or> colors b ?l = getOpp pla" using p by (cases pla; cases "colors b ?l") auto
    have n: "getNumLiberties b ?l = int (liberty_count b ?l)" by (rule getNumLiberties_eq [OF wf True])
    show ?thesis using c o True unfolding n prod.case
      by (auto simp: setRowBin_marks marks_marks cells_def stone_plane_def intro!: marks_cong)
  next
    case False
    then have "colors b ?l \<noteq> pla" "colors b ?l \<noteq> getOpp pla" using p o(2) by auto
    then show ?thesis using False by (auto simp: setRowBin_marks cells_def stone_plane_def intro!: marks_cong)
  qed
qed

definition ko_plane :: "board \<Rightarrow> history \<Rightarrow> int \<Rightarrow> loc \<Rightarrow> bool" where
  "ko_plane b h f l \<longleftrightarrow>
     (if encorePhase h = 0 then f = 6 \<and> (l = ko_loc b \<or> superKoBanned h l)
      else f = 6 \<and> superKoBanned h l \<or> f = 7 \<and> koRecapBlocked h l)"

lemma fill_ko_planes:
  assumes wf: "wf_board Z b"
  shows "fill_ko b h nnXLen nnYLen posStride featureStride row =
    marks posStride featureStride (planes b nnXLen (ko_plane b h)) row"
proof -
  have z: "x_size b \<le> MAX_LEN" "y_size b \<le> MAX_LEN" and k: "ko_ok b"
    using wf by (simp_all add: wf_board_def core_def geom_ok_def)
  show ?thesis
  proof (cases "encorePhase h = 0")
    case True
    let ?row = "if ko_loc b \<noteq> NULL_LOC then setRowBin row (locToPos (ko_loc b) (x_size b) nnXLen nnYLen) 6 1 posStride featureStride else row"
    let ?P = "\<lambda>f l. f = (6 :: int) \<and> superKoBanned h l \<and> l \<noteq> ko_loc b"
    have "fill_ko b h nnXLen nnYLen posStride featureStride row = marks posStride featureStride (planes b nnXLen ?P) ?row"
      unfolding fill_ko_def Let_def if_P [OF True]
    proof (rule fold_points_marks, goal_cases)
      case (1 x y row)
      then show ?case using z by (auto simp: setRowBin_marks cells_def locToPos_getLoc intro!: marks_cong)
    qed
    also have "?row = marks posStride featureStride (planes b nnXLen (\<lambda>f l. f = 6 \<and> l = ko_loc b)) row"
    proof (cases "ko_loc b = NULL_LOC")
      case True
      have "planes b nnXLen (\<lambda>f l. f = 6 \<and> l = ko_loc b) = planes b nnXLen (\<lambda>f l. False)"
        by (rule planes_cong) (use z on_board_range(1) [of "x_size b" "y_size b" 0] True in \<open>auto simp: NULL_LOC_def\<close>)
      then show ?thesis using True by (simp add: planes_empty)
    next
      case False
      then have "on_board (x_size b) (y_size b) (ko_loc b)" using k by (simp add: ko_ok_def)
      then show ?thesis using False z by (simp add: setRowBin_marks single_plane)
    qed
    finally have r: "fill_ko b h nnXLen nnYLen posStride featureStride row =
        marks posStride featureStride (planes b nnXLen (\<lambda>f l. ?P f l \<or> f = 6 \<and> l = ko_loc b)) row"
      unfolding marks_marks planes_Un .
    have "(\<lambda>f l. ?P f l \<or> f = 6 \<and> l = ko_loc b) = ko_plane b h" using True by (auto simp: ko_plane_def fun_eq_iff)
    then show ?thesis using r by simp
  next
    case False
    show ?thesis
      unfolding fill_ko_def Let_def if_not_P [OF False]
    proof (rule fold_points_marks, goal_cases)
      case (1 x y row)
      then show ?case using z False
        by (auto simp: setRowBin_marks marks_marks cells_def locToPos_getLoc ko_plane_def intro!: marks_cong)
    qed
  qed
qed

section \<open>Area\<close>

definition area_owner :: "board \<Rightarrow> history \<Rightarrow> (loc \<Rightarrow> color) \<Rightarrow> loc \<Rightarrow> color" where
  "area_owner b h area l =
     (if is_stone (area l) then area l
      else if scoringRule (hist_rules h) = SCORING_TERRITORY \<and> colors b l = secondEncoreStartColors h l then colors b l
      else C_EMPTY)"

definition area_plane :: "board \<Rightarrow> history \<Rightarrow> player \<Rightarrow> (loc \<Rightarrow> color) \<Rightarrow> int \<Rightarrow> loc \<Rightarrow> bool" where
  "area_plane b h pla area f l \<longleftrightarrow>
     f = 18 \<and> area_owner b h area l = pla \<or> f = 19 \<and> area_owner b h area l = getOpp pla"

text \<open>A loop over the points that marks features and adds up a score.\<close>

lemma fold_points_score:
  fixes w :: "loc \<Rightarrow> int"
  assumes z: "x_size b \<le> MAX_LEN" "y_size b \<le> MAX_LEN"
    and step: "\<And>x y row n. 0 \<le> x \<Longrightarrow> x < x_size b \<Longrightarrow> 0 \<le> y \<Longrightarrow> y < y_size b \<Longrightarrow>
      step (x, y) (row, n) = (marks posStride featureStride (cells b nnXLen P (x, y)) row, n + w (getLoc x y (x_size b)))"
  shows "fold step (rows_xy (x_size b) (y_size b)) (row, n) =
    (marks posStride featureStride (planes b nnXLen P) row, n + sum_list (map w (locs_of (x_size b) (y_size b))))"
proof -
  have "fold step as (row, n) = (fold (\<lambda>a. marks posStride featureStride (cells b nnXLen P a)) as row,
      n + sum_list (map (\<lambda>(x, y). w (getLoc x y (x_size b))) as))"
    if "set as \<subseteq> set (rows_xy (x_size b) (y_size b))" for as
    using that
  proof (induction as arbitrary: row n)
    case (Cons a as)
    obtain x y where a: "a = (x, y)" by fastforce
    then show ?case using step [of x y row n] Cons by (auto simp: set_rows_xy)
  qed simp
  from this [of "rows_xy (x_size b) (y_size b)"]
  have "fold step (rows_xy (x_size b) (y_size b)) (row, n) = (marks posStride featureStride (planes b nnXLen P) row,
      n + sum_list (map (\<lambda>(x, y). w (getLoc x y (x_size b))) (rows_xy (x_size b) (y_size b))))"
    by (simp add: fold_marks Union_cells)
  moreover have "map (\<lambda>(x, y). w (getLoc x y (x_size b))) (rows_xy (x_size b) (y_size b)) = map w (locs_of (x_size b) (y_size b))"
    using z by (auto simp: rows_xy_def locs_of_def map_concat comp_def getLoc_eq intro!: arg_cong [where f = concat] map_cong)
  ultimately show ?thesis by simp
qed

text \<open>The margin: the points owned by one side less those owned by the other.\<close>

definition points_owned :: "board \<Rightarrow> history \<Rightarrow> (loc \<Rightarrow> color) \<Rightarrow> color \<Rightarrow> int" where
  "points_owned b h area c = int (card {l. on_board (x_size b) (y_size b) l \<and> area_owner b h area l = c})"

lemma sum_list_owned:
  assumes "p \<noteq> q"
  shows "sum_list (map (\<lambda>l. if area_owner b h area l = p then 1 else if area_owner b h area l = q then - 1 else 0)
    (locs_of (x_size b) (y_size b))) = points_owned b h area p - points_owned b h area q"
proof -
  have "sum_list (map (\<lambda>l. if area_owner b h area l = p then 1 else if area_owner b h area l = q then - 1 else 0) ls) =
      int (length (filter (\<lambda>l. area_owner b h area l = p) ls)) - int (length (filter (\<lambda>l. area_owner b h area l = q) ls))" for ls
    using assms by (induction ls) auto
  moreover have "int (length (filter (\<lambda>l. area_owner b h area l = c) (locs_of (x_size b) (y_size b)))) = points_owned b h area c" for c
    unfolding points_owned_def
    using distinct_card [of "filter (\<lambda>l. area_owner b h area l = c) (locs_of (x_size b) (y_size b))"]
    by (simp add: distinct_locs_of set_locs_of)
  ultimately show ?thesis by simp
qed

lemma fill_area_planes:
  assumes wf: "wf_board Z b" and p: "is_stone pla"
  shows "fill_area b h pla area nnXLen nnYLen posStride featureStride (row, n) =
    (marks posStride featureStride (planes b nnXLen (area_plane b h pla area)) row,
     n + (points_owned b h area pla - points_owned b h area (getOpp pla)))"
proof -
  have z: "x_size b \<le> MAX_LEN" "y_size b \<le> MAX_LEN" using wf by (simp_all add: wf_board_def core_def geom_ok_def)
  have o: "getOpp pla \<noteq> pla" "is_stone (getOpp pla)" using p by (cases pla; simp)+
  note own = sum_list_owned [OF o(1) [symmetric], of b h area]
  show ?thesis
    unfolding fill_area_def Let_def own [symmetric]
  proof (rule fold_points_score [OF z], goal_cases)
    case (1 x y row n)
    let ?l = "getLoc x y (x_size b)"
    have "is_stone (area ?l) \<longleftrightarrow> area ?l = pla \<or> area ?l = getOpp pla" using p by (cases pla; cases "area ?l") auto
    moreover have "\<not> is_stone C_EMPTY" by simp
    ultimately show ?case using 1 z p o
      by (auto simp: setRowBin_marks marks_marks cells_def locToPos_getLoc area_plane_def area_owner_def intro!: marks_cong)
  qed
qed

section \<open>The second encore\<close>

definition encore_plane :: "history \<Rightarrow> player \<Rightarrow> int \<Rightarrow> loc \<Rightarrow> bool" where
  "encore_plane h pla f l \<longleftrightarrow> encorePhase h \<ge> 2 \<and>
     (f = 20 \<and> secondEncoreStartColors h l = pla \<or> f = 21 \<and> secondEncoreStartColors h l = getOpp pla)"

lemma fill_encore_planes:
  assumes wf: "wf_board Z b" and p: "is_stone pla"
  shows "fill_encore b h pla nnXLen nnYLen posStride featureStride row =
    marks posStride featureStride (planes b nnXLen (encore_plane h pla)) row"
proof (cases "encorePhase h \<ge> 2")
  case True
  have z: "x_size b \<le> MAX_LEN" "y_size b \<le> MAX_LEN" using wf by (simp_all add: wf_board_def core_def geom_ok_def)
  have o: "getOpp pla \<noteq> pla" using p by (cases pla) simp_all
  show ?thesis unfolding fill_encore_def Let_def if_P [OF True]
  proof (rule fold_points_marks, goal_cases)
    case (1 x y row)
    then show ?case using z o True
      by (auto simp: setRowBin_marks cells_def locToPos_getLoc encore_plane_def intro!: marks_cong)
  qed
next
  case False
  then have "planes b nnXLen (encore_plane h pla) = {}" by (simp add: planes_def encore_plane_def)
  then show ?thesis using False by (simp add: fill_encore_def)
qed

section \<open>Ladders\<close>

lemma foldM_marks:
  assumes "\<And>a row. a \<in> set as \<Longrightarrow> F a row = Some (marks posStride featureStride (G a) row)"
  shows "foldM F as row = Some (marks posStride featureStride (\<Union>a\<in>set as. G a) row)"
  using assms
proof (induction as arbitrary: row)
  case (Cons a as)
  then show ?case by (simp add: marks_marks Un_commute)
qed simp

lemma planes_UN: "(\<Union>a\<in>A. planes b nnXLen (P a)) = planes b nnXLen (\<lambda>f l. \<exists>a\<in>A. P a f l)"
  unfolding planes_def by blast

text \<open>
  The stones on which \<open>iterLadders\<close> calls back: whole chains, as the answers that its run has on
  record say.
\<close>

definition laddered_stones :: "zobrist \<Rightarrow> board \<Rightarrow> loc set \<Rightarrow> bool" where
  "laddered_stones Z b S \<longleftrightarrow>
     (\<exists>solved. scan_answers Z b solved \<and> S = {l. ladder_stone b l \<and> (chain_head b l, True) \<in> set solved})"

definition working_moves :: "board \<Rightarrow> player \<Rightarrow> loc set \<Rightarrow> loc set \<Rightarrow> bool" where
  "working_moves b opp S W \<longleftrightarrow>
     (\<forall>m\<in>W. \<exists>l\<in>S. colors b l = opp \<and> liberty_count b l = 2 \<and> colors b m = C_EMPTY \<and>
        (\<exists>k\<in>group (x_size b) (colors b) l. adjacent (x_size b) k m) \<and>
        isLegal (b\<lparr>ko_loc := NULL_LOC\<rparr>) m (getOpp opp) False) \<and>
     (\<forall>l\<in>S. colors b l = opp \<and> liberty_count b l = 2 \<longrightarrow>
        (\<exists>m\<in>W. \<exists>k\<in>group (x_size b) (colors b) l. adjacent (x_size b) k m))"

definition call_points :: "board \<Rightarrow> ((int \<times> int) \<times> loc list) list \<Rightarrow> loc set" where
  "call_points b calls = (\<lambda>(x, y). getLoc x y (x_size b)) ` set (map fst calls)"

lemma call_points_stones:
  assumes wf: "wf_board Z b" and c: "map fst calls = filter (scan_call b solved) (rows_xy (x_size b) (y_size b))"
  shows "call_points b calls = {l. ladder_stone b l \<and> (chain_head b l, True) \<in> set solved}"
proof (intro set_eqI iffI)
  fix l assume "l \<in> call_points b calls"
  then show "l \<in> {l. ladder_stone b l \<and> (chain_head b l, True) \<in> set solved}"
    unfolding call_points_def c by (auto simp: scan_call_def Let_def)
next
  fix l assume l: "l \<in> {l. ladder_stone b l \<and> (chain_head b l, True) \<in> set solved}"
  have g: "geom_ok b" using wf by (simp add: wf_board_def core_def)
  have "on_board (x_size b) (y_size b) l" using l geom_stone_on_board [OF g] by (simp add: ladder_stone_def)
  moreover have "x_size b \<le> MAX_LEN" "y_size b \<le> MAX_LEN" using g by (simp_all add: geom_ok_def)
  ultimately have "(getX l (x_size b), getY l (x_size b)) \<in> set (rows_xy (x_size b) (y_size b))"
    "getLoc (getX l (x_size b)) (getY l (x_size b)) (x_size b) = l"
    using getSymLoc_coords(2-6) [of "x_size b" "y_size b" l] unfolding set_rows_xy by simp_all
  then show "l \<in> call_points b calls" using l unfolding call_points_def c
    by (force simp: scan_call_def Let_def intro: rev_image_eqI)
qed

text \<open>Stones of the same chain.\<close>

lemma same_chain:
  assumes wf: "wf_board Z b" and l: "is_stone (colors b l)" "is_stone (colors b k)" and h: "chain_head b k = chain_head b l"
  shows "group (x_size b) (colors b) k = group (x_size b) (colors b) l" "colors b k = colors b l"
    "liberty_count b k = liberty_count b l"
proof -
  have c: "chains_ok b (\<lambda>_. 0)" and mx: "max_ok b {}" using wf by (simp_all add: wf_board_def core_def)
  have "group (x_size b) (colors b) i = chain_of b (chain_head b i)" if i: "is_stone (colors b i)" for i
    by (rule chain_group [OF c i]) (use mx i in \<open>auto simp: max_ok_def\<close>)
  then show g: "group (x_size b) (colors b) k = group (x_size b) (colors b) l" using l h by simp
  then have "k \<in> group (x_size b) (colors b) l" using self_in_group by metis
  then have "(l, k) \<in> {(u, v). adjacent (x_size b) u v \<and> colors b u = colors b l \<and> colors b v = colors b l}\<^sup>*" by (simp add: group_def)
  then show "colors b k = colors b l" by (induction rule: rtrancl_induct) auto
  show "liberty_count b k = liberty_count b l" by (simp add: liberty_count_def g)
qed

lemma pos_below:
  assumes "0 \<le> x" "x < xs" "0 \<le> y" "y < ys" "xs \<le> nnXLen" "ys \<le> nnYLen" "nnXLen \<le> MAX_BOARD_LEN" "nnYLen \<le> MAX_BOARD_LEN"
  shows "0 \<le> xyToPos x y nnXLen \<and> xyToPos x y nnXLen < MAX_BOARD_AREA"
proof -
  have "nnXLen * nnYLen \<le> MAX_BOARD_AREA"
    using assms by (auto simp: MAX_BOARD_AREA_def intro!: mult_mono)
  then show ?thesis using pos_range [of x nnXLen y nnYLen] assms by simp
qed

lemma addLadder_call:
  assumes wf: "wf_board Z b" and o: "is_stone opp"
    and n: "nnXLen \<le> MAX_BOARD_LEN" "nnYLen \<le> MAX_BOARD_LEN" "x_size b \<le> nnXLen" "y_size b \<le> nnYLen"
    and p: "0 \<le> x" "x < x_size b" "0 \<le> y" "y < y_size b" and c: "ladder_call b (getLoc x y (x_size b)) moves"
  shows "call_ladder b nnXLen (addLadderFeature b opp nnXLen nnYLen posStride featureStride) ((x, y), moves) row =
    Some (marks posStride featureStride (planes b nnXLen (\<lambda>f l. f = 14 \<and> l = getLoc x y (x_size b) \<or>
      f = 17 \<and> colors b (getLoc x y (x_size b)) = opp \<and> liberty_count b (getLoc x y (x_size b)) = 2 \<and> l \<in> set moves)) row)"
proof -
  let ?l = "getLoc x y (x_size b)"
  have g: "geom_ok b" using wf by (simp add: wf_board_def core_def)
  have z: "x_size b \<le> MAX_LEN" "y_size b \<le> MAX_LEN" using g by (simp_all add: geom_ok_def)
  have st: "is_stone (colors b ?l)" using c by (simp add: ladder_call_def ladder_stone_def)
  have lib: "getNumLiberties b ?l > 1 \<longleftrightarrow> liberty_count b ?l = 2"
    using getNumLiberties_eq [OF wf st] c by (auto simp: ladder_call_def ladder_stone_def)
  have pos: "0 \<le> xyToPos x y nnXLen \<and> xyToPos x y nnXLen < MAX_BOARD_AREA" by (rule pos_below [OF p n(3,4,1,2)])
  have one: "{(xyToPos x y nnXLen, 14)} = planes b nnXLen (\<lambda>f l. f = 14 \<and> l = ?l)"
    using single_plane [OF getLoc_on_board(1) [OF p z] z, of nnXLen nnYLen 14] p z by (simp add: locToPos_getLoc)
  have mv: "fold (\<lambda>m. marks posStride featureStride {(locToPos m (x_size b) nnXLen nnYLen, 17)}) moves row' =
      marks posStride featureStride (planes b nnXLen (\<lambda>f l. f = 17 \<and> l \<in> set moves)) row'" if "liberty_count b ?l = 2" for row'
  proof -
    have "{(locToPos m (x_size b) nnXLen nnYLen, 17)} = planes b nnXLen (\<lambda>f l. f = 17 \<and> l = m)" if "m \<in> set moves" for m
    proof (rule single_plane [OF _ z])
      show "on_board (x_size b) (y_size b) m"
        using c that \<open>liberty_count b ?l = 2\<close> geom_empty_on_board [OF g] by (simp add: ladder_call_def)
    qed
    then have "(\<Union>m\<in>set moves. {(locToPos m (x_size b) nnXLen nnYLen, 17)}) = planes b nnXLen (\<lambda>f l. \<exists>m\<in>set moves. f = 17 \<and> l = m)"
      by (simp add: planes_UN)
    moreover have "(\<lambda>f l. \<exists>m\<in>set moves. f = 17 \<and> l = m) = (\<lambda>f l. f = (17 :: int) \<and> l \<in> set moves)" by (auto simp: fun_eq_iff)
    ultimately show ?thesis by (simp only: fold_marks)
  qed
  have st': "colors b ?l = P_BLACK \<or> colors b ?l = P_WHITE" using st by (auto simp: is_stone_def)
  show ?thesis
  proof (cases "colors b ?l = opp \<and> liberty_count b ?l = 2")
    case True
    then show ?thesis using st' pos lib mv
      by (simp add: call_ladder_def addLadderFeature_def setRowBin_marks one marks_marks planes_Un Un_commute disj_commute)
  next
    case False
    then have "(\<lambda>f l. f = 14 \<and> l = ?l \<or> f = 17 \<and> colors b ?l = opp \<and> liberty_count b ?l = 2 \<and> l \<in> set moves) =
        (\<lambda>f l. f = (14 :: int) \<and> l = ?l)" by (auto simp: fun_eq_iff)
    then show ?thesis using st' pos lib False
      by (auto simp: call_ladder_def addLadderFeature_def setRowBin_marks one)
  qed
qed

lemma addPrevLadder_call:
  assumes wf: "wf_board Z b"
    and n: "nnXLen \<le> MAX_BOARD_LEN" "nnYLen \<le> MAX_BOARD_LEN" "x_size b \<le> nnXLen" "y_size b \<le> nnYLen"
    and p: "0 \<le> x" "x < x_size b" "0 \<le> y" "y < y_size b" and c: "ladder_call b (getLoc x y (x_size b)) moves"
  shows "call_ladder b nnXLen (addPrevLadderFeature b feature posStride featureStride) ((x, y), moves) row =
    Some (marks posStride featureStride (planes b nnXLen (\<lambda>f l. f = feature \<and> l = getLoc x y (x_size b))) row)"
proof -
  let ?l = "getLoc x y (x_size b)"
  have z: "x_size b \<le> MAX_LEN" "y_size b \<le> MAX_LEN" using wf by (simp_all add: wf_board_def core_def geom_ok_def)
  have "colors b ?l = P_BLACK \<or> colors b ?l = P_WHITE" using c by (auto simp: ladder_call_def ladder_stone_def is_stone_def)
  moreover have "{(xyToPos x y nnXLen, feature)} = planes b nnXLen (\<lambda>f l. f = feature \<and> l = ?l)"
    using single_plane [OF getLoc_on_board(1) [OF p z] z, of nnXLen 0 feature] p z by (simp add: locToPos_getLoc)
  ultimately show ?thesis using pos_below [OF p n(3,4,1,2)]
    by (auto simp: call_ladder_def addPrevLadderFeature_def setRowBin_marks)
qed

lemma ladder_scan_planes:
  fixes F :: "loc \<Rightarrow> int \<Rightarrow> loc list \<Rightarrow> row \<Rightarrow> row option"
  assumes wf: "wf_board Z b" and lim: "\<not> ladder_limits Z b"
    and F: "\<forall>x y moves row. 0 \<le> x \<and> x < x_size b \<and> 0 \<le> y \<and> y < y_size b \<and> ladder_call b (getLoc x y (x_size b)) moves \<longrightarrow>
      call_ladder b nnXLen F ((x, y), moves) row = Some (marks posStride featureStride (planes b nnXLen (Q (getLoc x y (x_size b)) moves)) row)"
  shows "\<exists>calls. (\<forall>(l, moves)\<in>calls. ladder_call b l moves) \<and> laddered_stones Z b (fst ` calls) \<and>
    (\<forall>l\<in>fst ` calls. \<exists>a\<in>calls. ladder_stone b (fst a) \<and> chain_head b (fst a) = chain_head b l \<and>
       (liberty_count b (fst a) = 2 \<longrightarrow> snd a \<noteq> [])) \<and>
    (\<forall>row. iterLadders Z b nnXLen F row =
       Some (marks posStride featureStride (planes b nnXLen (\<lambda>f l. \<exists>(k, moves)\<in>calls. Q k moves f l)) row))"
proof -
  from iterLadders_run [where 's = row, OF wf lim, of nnXLen] obtain solved calls where
    ans: "scan_answers Z b solved"
    and r: "\<And>f (s :: row). iterLadders Z b nnXLen f s = foldM (call_ladder b nnXLen f) calls s"
    and m: "map fst calls = filter (scan_call b solved) (rows_xy (x_size b) (y_size b))"
    and c: "\<forall>((x, y), moves)\<in>set calls. ladder_call b (getLoc x y (x_size b)) moves"
    and first: "\<forall>(h, v)\<in>set solved. v \<longrightarrow> first_call b h calls"
    by blast
  let ?at = "\<lambda>((x, y), moves). (getLoc x y (x_size b), moves)"
  have "call_ladder b nnXLen F a row = Some (marks posStride featureStride (planes b nnXLen (case ?at a of (k, moves) \<Rightarrow> Q k moves)) row)"
    if a: "a \<in> set calls" for a row
  proof -
    obtain x y moves where x: "a = ((x, y), moves)" by (metis surj_pair)
    then have "(x, y) \<in> set (map fst calls)" using a by force
    then have "0 \<le> x" "x < x_size b" "0 \<le> y" "y < y_size b" unfolding m by (auto simp: set_rows_xy)
    then show ?thesis using F c a x by fastforce
  qed
  from foldM_marks [OF this] have "iterLadders Z b nnXLen F row =
      Some (marks posStride featureStride (planes b nnXLen (\<lambda>f l. \<exists>a\<in>set calls. (case ?at a of (k, moves) \<Rightarrow> Q k moves) f l)) row)" for row
    unfolding r planes_UN by simp
  moreover have "(\<lambda>f l. \<exists>a\<in>set calls. (case ?at a of (k, moves) \<Rightarrow> Q k moves) f l) = (\<lambda>f l. \<exists>(k, moves)\<in>?at ` set calls. Q k moves f l)"
    by (auto simp: fun_eq_iff split_beta)
  moreover have calls: "\<forall>(l, moves)\<in>?at ` set calls. ladder_call b l moves" using c by (auto simp: split_beta)
  moreover have "fst ` ?at ` set calls = call_points b calls"
    unfolding call_points_def set_map image_image by (intro image_cong refl) (simp add: split_beta)
  then have S: "fst ` ?at ` set calls = {l. ladder_stone b l \<and> (chain_head b l, True) \<in> set solved}"
    using call_points_stones [OF wf m] by simp
  then have "laddered_stones Z b (fst ` ?at ` set calls)"
    unfolding laddered_stones_def using ans by (intro exI [of _ solved] conjI)
  moreover have "\<forall>l\<in>fst ` ?at ` set calls. \<exists>a\<in>?at ` set calls. ladder_stone b (fst a) \<and> chain_head b (fst a) = chain_head b l \<and>
       (liberty_count b (fst a) = 2 \<longrightarrow> snd a \<noteq> [])"
  proof
    fix l assume "l \<in> fst ` ?at ` set calls"
    then have "(chain_head b l, True) \<in> set solved" unfolding S by simp
    from bspec [OF first this] have "first_call b (chain_head b l) calls" by simp
    then obtain a where a: "a \<in> set calls" "chain_head b (fst (?at a)) = chain_head b l"
      "liberty_count b (fst (?at a)) = 2 \<longrightarrow> snd (?at a) \<noteq> []"
      unfolding first_call_def by (elim bexE) (simp add: split_beta)
    have "?at a \<in> ?at ` set calls" using a(1) by (rule imageI)
    moreover from bspec [OF calls this] have "ladder_stone b (fst (?at a))" by (simp add: split_beta ladder_call_def)
    ultimately show "\<exists>a\<in>?at ` set calls. ladder_stone b (fst a) \<and> chain_head b (fst a) = chain_head b l \<and>
       (liberty_count b (fst a) = 2 \<longrightarrow> snd a \<noteq> [])" using a(2,3) by (intro bexI [of _ "?at a"] conjI)
  qed
  ultimately show ?thesis by (intro exI [of _ "?at ` set calls"]) simp
qed

lemma ladder_planes_now:
  assumes wf: "wf_board Z b" and lim: "\<not> ladder_limits Z b" and o: "is_stone opp"
    and n: "nnXLen \<le> MAX_BOARD_LEN" "nnYLen \<le> MAX_BOARD_LEN" "x_size b \<le> nnXLen" "y_size b \<le> nnYLen"
  shows "\<exists>S W. laddered_stones Z b S \<and> working_moves b opp S W \<and>
    (\<forall>row. iterLadders Z b nnXLen (addLadderFeature b opp nnXLen nnYLen posStride featureStride) row =
       Some (marks posStride featureStride (planes b nnXLen (\<lambda>f l. f = 14 \<and> l \<in> S \<or> f = 17 \<and> l \<in> W)) row))"
proof -
  let ?Q = "\<lambda>k moves f l. f = 14 \<and> l = k \<or> f = 17 \<and> colors b k = opp \<and> liberty_count b k = 2 \<and> l \<in> set moves"
  have F: "\<forall>x y moves row. 0 \<le> x \<and> x < x_size b \<and> 0 \<le> y \<and> y < y_size b \<and> ladder_call b (getLoc x y (x_size b)) moves \<longrightarrow>
      call_ladder b nnXLen (addLadderFeature b opp nnXLen nnYLen posStride featureStride) ((x, y), moves) row =
      Some (marks posStride featureStride (planes b nnXLen (?Q (getLoc x y (x_size b)) moves)) row)"
    using addLadder_call [OF wf o n] by blast
  from ladder_scan_planes [where Q = ?Q, OF wf lim F] obtain calls where
    c: "\<forall>(l, moves)\<in>calls. ladder_call b l moves" "laddered_stones Z b (fst ` calls)"
    and first: "\<forall>l\<in>fst ` calls. \<exists>a\<in>calls. ladder_stone b (fst a) \<and> chain_head b (fst a) = chain_head b l \<and>
       (liberty_count b (fst a) = 2 \<longrightarrow> snd a \<noteq> [])"
    and r: "\<And>row. iterLadders Z b nnXLen (addLadderFeature b opp nnXLen nnYLen posStride featureStride) row =
      Some (marks posStride featureStride (planes b nnXLen (\<lambda>f l. \<exists>(k, moves)\<in>calls. f = 14 \<and> l = k \<or>
        f = 17 \<and> colors b k = opp \<and> liberty_count b k = 2 \<and> l \<in> set moves)) row)" by blast
  let ?W = "{m. \<exists>(k, moves)\<in>calls. colors b k = opp \<and> liberty_count b k = 2 \<and> m \<in> set moves}"
  have "(\<lambda>f l. \<exists>(k, moves)\<in>calls. f = 14 \<and> l = k \<or> f = 17 \<and> colors b k = opp \<and> liberty_count b k = 2 \<and> l \<in> set moves) =
      (\<lambda>f l. f = (14 :: int) \<and> l \<in> fst ` calls \<or> f = 17 \<and> l \<in> ?W)"
    (is "?A = ?B")
  proof (intro ext)
    fix f l show "?A f l = ?B f l" by (cases "f = 14") (auto simp: image_iff split_beta)
  qed
  moreover have "working_moves b opp (fst ` calls) ?W"
    unfolding working_moves_def
  proof (intro conjI ballI impI)
    fix m assume "m \<in> ?W"
    then obtain k moves where k: "(k, moves) \<in> calls" "colors b k = opp" "liberty_count b k = 2" "m \<in> set moves" by blast
    then have "ladder_call b k moves" using c(1) by blast
    then have "colors b m = C_EMPTY \<and> (\<exists>k'\<in>group (x_size b) (colors b) k. adjacent (x_size b) k' m) \<and>
        isLegal (b\<lparr>ko_loc := NULL_LOC\<rparr>) m (getOpp opp) False"
      using k unfolding ladder_call_def by simp
    then show "\<exists>l\<in>fst ` calls. colors b l = opp \<and> liberty_count b l = 2 \<and> colors b m = C_EMPTY \<and>
        (\<exists>k\<in>group (x_size b) (colors b) l. adjacent (x_size b) k m) \<and> isLegal (b\<lparr>ko_loc := NULL_LOC\<rparr>) m (getOpp opp) False"
      using k by (intro bexI [of _ k]) (simp_all add: rev_image_eqI)
  next
    fix l assume l: "l \<in> fst ` calls" "colors b l = opp \<and> liberty_count b l = 2"
    obtain a where a: "a \<in> calls" "ladder_stone b (fst a)" "chain_head b (fst a) = chain_head b l"
      "liberty_count b (fst a) = 2 \<longrightarrow> snd a \<noteq> []" using bspec [OF first l(1)] by (elim bexE conjE)
    obtain k moves where k: "a = (k, moves)" by (rule prod.exhaust)
    have st: "is_stone (colors b l)" "is_stone (colors b k)" using o l(2) a(2) by (simp_all add: ladder_stone_def k)
    note same = same_chain [OF wf st a(3) [unfolded k fst_conv]]
    have two: "colors b k = opp" "liberty_count b k = 2" using same l(2) by simp_all
    then obtain m where m: "m \<in> set moves" using a(4) by (cases moves) (auto simp: k)
    have W: "m \<in> ?W" using a(1) two m unfolding k by blast
    have "ladder_call b k moves" using bspec [OF c(1) a(1)] by (simp add: k)
    then have "\<exists>k'\<in>group (x_size b) (colors b) k. adjacent (x_size b) k' m" using two m unfolding ladder_call_def by simp
    then show "\<exists>m\<in>?W. \<exists>k\<in>group (x_size b) (colors b) l. adjacent (x_size b) k m"
      unfolding same(1) by (intro bexI [OF _ W])
  qed
  ultimately show ?thesis using c(2) r by (intro exI [of _ "fst ` calls"] exI [of _ ?W]) simp
qed

lemma ladder_planes_before:
  assumes wf: "wf_board Z b" and lim: "\<not> ladder_limits Z b"
    and n: "nnXLen \<le> MAX_BOARD_LEN" "nnYLen \<le> MAX_BOARD_LEN" "x_size b \<le> nnXLen" "y_size b \<le> nnYLen"
  shows "\<exists>S. laddered_stones Z b S \<and>
    (\<forall>row. iterLadders Z b nnXLen (addPrevLadderFeature b feature posStride featureStride) row =
       Some (marks posStride featureStride (planes b nnXLen (\<lambda>f l. f = feature \<and> l \<in> S)) row))"
proof -
  have F: "\<forall>x y moves row. 0 \<le> x \<and> x < x_size b \<and> 0 \<le> y \<and> y < y_size b \<and> ladder_call b (getLoc x y (x_size b)) moves \<longrightarrow>
      call_ladder b nnXLen (addPrevLadderFeature b feature posStride featureStride) ((x, y), moves) row =
      Some (marks posStride featureStride (planes b nnXLen ((\<lambda>k moves f l. f = feature \<and> l = k) (getLoc x y (x_size b)) moves)) row)"
    using addPrevLadder_call [OF wf n] by blast
  from ladder_scan_planes [where Q = "\<lambda>k moves f l. f = feature \<and> l = k", OF wf lim F] obtain calls :: "(loc \<times> loc list) set" where
    c: "laddered_stones Z b (fst ` calls)"
    and r: "\<And>row. iterLadders Z b nnXLen (addPrevLadderFeature b feature posStride featureStride) row =
      Some (marks posStride featureStride (planes b nnXLen (\<lambda>f l. \<exists>(k, moves)\<in>calls. f = feature \<and> l = k)) row)" by blast
  have "(\<lambda>f l. \<exists>(k, moves)\<in>calls. f = feature \<and> l = k) = (\<lambda>f l. f = feature \<and> l \<in> fst ` calls)"
    by (intro ext) force
  then show ?thesis using c r by (intro exI [of _ "fst ` calls"]) simp
qed

text \<open>The boards of the three scans.\<close>

definition ladder_boards :: "board \<Rightarrow> history \<Rightarrow> int \<Rightarrow> (board \<times> board) option" where
  "ladder_boards b h turns =
     Option.bind (if turns < 1 then Some b else getRecentBoard h 1) (\<lambda>prevBoard.
       map_option (Pair prevBoard) (if turns < 2 then Some prevBoard else getRecentBoard h 2))"

lemma ladder_boards_ok:
  assumes "wf_board Z b" "hist_ok Z b h" "trail_ok Z (x_size b) (y_size b) h"
  shows "\<exists>c d. ladder_boards b h turns = Some (c, d) \<and> wf_board Z c \<and> wf_board Z d \<and>
    x_size c = x_size b \<and> y_size c = y_size b \<and> x_size d = x_size b \<and> y_size d = y_size b"
proof -
  have "1 < NUM_RECENT_BOARDS" "2 < NUM_RECENT_BOARDS" by (simp_all add: NUM_RECENT_BOARDS_def)
  then obtain c d where "getRecentBoard h 1 = Some c" "wf_board Z c" "x_size c = x_size b" "y_size c = y_size b"
    "getRecentBoard h 2 = Some d" "wf_board Z d" "x_size d = x_size b" "y_size d = y_size b"
    using recent_board [OF assms(2,3)] by (metis zero_le_numeral zero_le_one)
  then show ?thesis using assms(1) by (auto simp: ladder_boards_def)
qed

lemma ladder_part_planes:
  assumes wf: "wf_board Z b" "wf_board Z c" "wf_board Z d" and o: "is_stone opp"
    and bs: "ladder_boards b h turns = Some (c, d)"
    and z: "x_size c = x_size b" "y_size c = y_size b" "x_size d = x_size b" "y_size d = y_size b"
    and lim: "\<not> ladder_limits Z b" "\<not> ladder_limits Z c" "\<not> ladder_limits Z d"
    and n: "nnXLen \<le> MAX_BOARD_LEN" "nnYLen \<le> MAX_BOARD_LEN" "x_size b \<le> nnXLen" "y_size b \<le> nnYLen"
  shows "\<exists>S W T U. laddered_stones Z b S \<and> working_moves b opp S W \<and> laddered_stones Z c T \<and> laddered_stones Z d U \<and>
    (\<forall>row. ladder_part Z b h opp turns nnXLen nnYLen posStride featureStride row =
       Some (marks posStride featureStride (planes b nnXLen (\<lambda>f l. f = 14 \<and> l \<in> S \<or> f = 17 \<and> l \<in> W \<or> f = 15 \<and> l \<in> T \<or> f = 16 \<and> l \<in> U)) row))"
proof -
  obtain S W where 1: "laddered_stones Z b S" "working_moves b opp S W"
    "\<And>row. iterLadders Z b nnXLen (addLadderFeature b opp nnXLen nnYLen posStride featureStride) row =
       Some (marks posStride featureStride (planes b nnXLen (\<lambda>f l. f = 14 \<and> l \<in> S \<or> f = 17 \<and> l \<in> W)) row)"
    using ladder_planes_now [OF wf(1) lim(1) o n] by blast
  have nc: "x_size c \<le> nnXLen" "y_size c \<le> nnYLen" "x_size d \<le> nnXLen" "y_size d \<le> nnYLen" using n z by simp_all
  have same: "planes c nnXLen P = planes b nnXLen P" "planes d nnXLen P = planes b nnXLen P" for P
    using z by (simp_all add: planes_def)
  obtain T where 2: "laddered_stones Z c T"
    "\<And>row. iterLadders Z c nnXLen (addPrevLadderFeature c 15 posStride featureStride) row =
       Some (marks posStride featureStride (planes c nnXLen (\<lambda>f l. f = 15 \<and> l \<in> T)) row)"
    using ladder_planes_before [OF wf(2) lim(2) n(1,2) nc(1,2)] by blast
  obtain U where 3: "laddered_stones Z d U"
    "\<And>row. iterLadders Z d nnXLen (addPrevLadderFeature d 16 posStride featureStride) row =
       Some (marks posStride featureStride (planes d nnXLen (\<lambda>f l. f = 16 \<and> l \<in> U)) row)"
    using ladder_planes_before [OF wf(3) lim(3) n(1,2) nc(3,4)] by blast
  have e: "(if turns < 1 then Some b else getRecentBoard h 1) = Some c"
    "(if turns < 2 then Some c else getRecentBoard h 2) = Some d"
    using bs by (auto simp: ladder_boards_def bind_eq_Some_conv simp del: split_paired_Ex)
  have "ladder_part Z b h opp turns nnXLen nnYLen posStride featureStride row =
       Some (marks posStride featureStride (planes b nnXLen (\<lambda>f l. f = 16 \<and> l \<in> U) \<union> planes b nnXLen (\<lambda>f l. f = 15 \<and> l \<in> T) \<union>
         planes b nnXLen (\<lambda>f l. f = 14 \<and> l \<in> S \<or> f = 17 \<and> l \<in> W)) row)" for row
    unfolding ladder_part_def 1(3) e bind.bind_lunit 2(2) 3(2) same marks_marks Un_assoc ..
  moreover have "planes b nnXLen (\<lambda>f l. f = 16 \<and> l \<in> U) \<union> planes b nnXLen (\<lambda>f l. f = 15 \<and> l \<in> T) \<union>
      planes b nnXLen (\<lambda>f l. f = 14 \<and> l \<in> S \<or> f = 17 \<and> l \<in> W) =
    planes b nnXLen (\<lambda>f l. f = 14 \<and> l \<in> S \<or> f = 17 \<and> l \<in> W \<or> f = 15 \<and> l \<in> T \<or> f = 16 \<and> l \<in> U)"
    unfolding planes_Un by (rule arg_cong [where f = "planes b nnXLen"]) (auto simp: fun_eq_iff)
  ultimately show ?thesis using 1(1,2) 2(1) 3(1) by (intro exI [of _ S] exI [of _ W] exI [of _ T] exI [of _ U]) simp
qed

end
