(* ===== verification/NNTotal.thy ===== *)
theory NNTotal
  imports NNPlanes
begin

text \<open>
  The rest of \<open>fillRowV7\<close>: the last moves, the area and the global features, and the row as a
  whole, with the planes of every part together.
\<close>

section \<open>The last moves\<close>

text \<open>The \<open>i\<close>-th last move, counted from 0.\<close>

definition turn_at :: "Move list \<Rightarrow> int \<Rightarrow> Move" where
  "turn_at ms i = ms ! (length ms - nat (i + 1))"

text \<open>\<open>t\<close> is the number of last moves, at most \<open>k\<close> from the \<open>i\<close>-th on, that alternate from \<open>first\<close>.\<close>

definition mover_at :: "player \<Rightarrow> int \<Rightarrow> player" where
  "mover_at first j = (if even j then first else getOpp first)"

definition turns_from :: "Move list \<Rightarrow> int \<Rightarrow> player \<Rightarrow> nat \<Rightarrow> int \<Rightarrow> int \<Rightarrow> bool" where
  "turns_from ms amount first k i t \<longleftrightarrow> i \<le> t \<and> t \<le> i + int k \<and>
     (\<forall>j. i \<le> j \<and> j < t \<longrightarrow> j < amount \<and> mv_pla (turn_at ms j) = mover_at first (j - i)) \<and>
     (t < i + int k \<longrightarrow> \<not> (t < amount \<and> mv_pla (turn_at ms t) = mover_at first (t - i)))"

definition move_plane :: "board \<Rightarrow> Move list \<Rightarrow> int \<Rightarrow> int \<Rightarrow> int \<Rightarrow> loc \<Rightarrow> bool" where
  "move_plane b ms i t f l \<longleftrightarrow>
     i \<le> f - 9 \<and> f - 9 < t \<and> l = mv_loc (turn_at ms (f - 9)) \<and> on_board (x_size b) (y_size b) l"

definition pass_turns :: "Move list \<Rightarrow> int \<Rightarrow> int \<Rightarrow> row \<Rightarrow> row" where
  "pass_turns ms i t g = (\<lambda>j. if i \<le> j \<and> j < t \<and> mv_loc (turn_at ms j) = PASS_LOC then 1 else g j)"

lemma turns_from_Suc:
  assumes "is_stone first" "i < amount" "mv_pla (turn_at ms i) = first" "turns_from ms amount (getOpp first) k (i + 1) t"
  shows "turns_from ms amount first (Suc k) i t"
proof -
  have m: "mover_at (getOpp first) (j - (i + 1)) = mover_at first (j - i)" for j
    using assms(1) by (cases first) (auto simp: mover_at_def)
  have t: "i + 1 \<le> t" "t \<le> i + 1 + int k"
    "\<And>j. i + 1 \<le> j \<Longrightarrow> j < t \<Longrightarrow> j < amount \<and> mv_pla (turn_at ms j) = mover_at first (j - i)"
    "t < i + 1 + int k \<Longrightarrow> \<not> (t < amount \<and> mv_pla (turn_at ms t) = mover_at first (t - i))"
    using assms(4) unfolding turns_from_def m by blast+
  have "j < amount \<and> mv_pla (turn_at ms j) = mover_at first (j - i)" if "i \<le> j" "j < t" for j
    using that t(3) [of j] assms(2,3) by (cases "j = i") (auto simp: mover_at_def)
  then show ?thesis using t(1,2,4) by (auto simp: turns_from_def)
qed

lemma move_plane_Suc:
  assumes "i < t" "mv_loc (turn_at ms i) = l"
  shows "(\<lambda>f m. move_plane b ms (i + 1) t f m \<or> f = 9 + i \<and> m = l \<and> on_board (x_size b) (y_size b) l) = move_plane b ms i t"
proof -
  have "i \<le> f - 9 \<longleftrightarrow> i + 1 \<le> f - 9 \<or> f = 9 + i" for f by linarith
  then show ?thesis using assms by (auto simp: move_plane_def fun_eq_iff)
qed

lemma pass_turns_Suc:
  "i < t \<Longrightarrow> pass_turns ms (i + 1) t (if mv_loc (turn_at ms i) = PASS_LOC then g(i := 1) else g) = pass_turns ms i t g"
proof -
  have "i + 1 \<le> j \<longleftrightarrow> i \<le> j \<and> j \<noteq> i" for j by linarith
  then show "i < t \<Longrightarrow> ?thesis" by (auto simp: pass_turns_def fun_eq_iff)
qed

lemma fill_history_planes:
  assumes z: "x_size b \<le> MAX_LEN" "y_size b \<le> MAX_LEN" and o: "is_stone first" and i: "0 \<le> i"
    and ms: "\<forall>m\<in>set ms. mv_loc m = PASS_LOC \<or> on_board (x_size b) (y_size b) (mv_loc m)" and n: "amount \<le> int (length ms)"
  shows "\<exists>t. turns_from ms amount first k i t \<and>
    (\<forall>row. fill_history b ms amount nnXLen nnYLen posStride featureStride k first i (row, g) =
      ((marks posStride featureStride (planes b nnXLen (move_plane b ms i t)) row, pass_turns ms i t g), t))"
  using o i
proof (induction k arbitrary: first i g)
  case 0
  have "planes b nnXLen (move_plane b ms i i) = {}" by (auto simp: planes_def move_plane_def)
  then show ?case by (intro exI [of _ i]) (auto simp: turns_from_def pass_turns_def)
next
  case (Suc k)
  let ?m = "ms ! (length ms - nat (i + 1))"
  show ?case
  proof (cases "amount \<ge> i + 1 \<and> mv_pla ?m = first")
    case False
    have "planes b nnXLen (move_plane b ms i i) = {}" by (auto simp: planes_def move_plane_def)
    then show ?thesis using False
      by (intro exI [of _ i]) (auto simp: turns_from_def pass_turns_def turn_at_def mover_at_def)
  next
    case True
    let ?l = "mv_loc ?m"
    have "length ms - nat (i + 1) < length ms" using True n Suc.prems(2) by linarith
    then have l: "?l = PASS_LOC \<or> on_board (x_size b) (y_size b) ?l" using ms nth_mem by blast
    let ?row = "\<lambda>row. marks posStride featureStride (planes b nnXLen (\<lambda>f m. f = 9 + i \<and> m = ?l \<and> on_board (x_size b) (y_size b) ?l)) row"
    let ?g = "if ?l = PASS_LOC then g(i := 1) else g"
    have one: "(if ?l = PASS_LOC then (row, g(i := 1)) else if ?l \<noteq> NULL_LOC
        then (setRowBin row (locToPos ?l (x_size b) nnXLen nnYLen) (9 + i) 1 posStride featureStride, g) else (row, g)) = (?row row, ?g)" for row
    proof (cases "?l = PASS_LOC")
      case True
      then have "\<not> on_board (x_size b) (y_size b) ?l" using on_board_range(1) [OF _ z, of ?l] by (auto simp: PASS_LOC_def)
      then show ?thesis using True by (simp add: planes_empty)
    next
      case False
      then have o: "on_board (x_size b) (y_size b) ?l" using l by blast
      then have "?l \<noteq> NULL_LOC" using on_board_range(1) [OF _ z, of ?l] by (auto simp: NULL_LOC_def)
      then show ?thesis using False o single_plane [OF o z, of nnXLen nnYLen "9 + i"] by (simp add: setRowBin_marks)
    qed
    have "is_stone (getOpp first)" using Suc.prems(1) by (cases first) simp_all
    from Suc.IH [OF this, of "i + 1" ?g] Suc.prems(2) obtain t where
      t: "turns_from ms amount (getOpp first) k (i + 1) t"
      "\<And>row. fill_history b ms amount nnXLen nnYLen posStride featureStride k (getOpp first) (i + 1) (row, ?g) =
        ((marks posStride featureStride (planes b nnXLen (move_plane b ms (i + 1) t)) row, pass_turns ms (i + 1) t ?g), t)"
      by auto
    have lt: "i < t" using t(1) by (simp add: turns_from_def)
    have "fill_history b ms amount nnXLen nnYLen posStride featureStride (Suc k) first i (row, g) =
        ((marks posStride featureStride (planes b nnXLen (move_plane b ms i t)) row, pass_turns ms i t g), t)" for row
      unfolding fill_history.simps(2) if_P [OF True] Let_def prod.case one t(2) marks_marks planes_Un
        move_plane_Suc [OF lt, unfolded turn_at_def, OF refl] pass_turns_Suc [OF lt, unfolded turn_at_def] ..
    then show ?thesis using turns_from_Suc [OF Suc.prems(1) _ _ t(1)] True by (auto simp: turn_at_def)
  qed
qed

lemma history_part_planes:
  assumes z: "x_size b \<le> MAX_LEN" "y_size b \<le> MAX_LEN" and o: "is_stone opp" and h: "trail_ok Z (x_size b) (y_size b) h"
  shows "\<exists>t. turns_from (moveHistory h) (min maxTurns (numApproxValidTurnsThisPhase h)) opp 5 0 t \<and>
    (\<forall>row. history_part b h opp maxTurns nnXLen nnYLen posStride featureStride (row, g) =
      Some ((marks posStride featureStride (planes b nnXLen (move_plane b (moveHistory h) 0 t)) row,
        pass_turns (moveHistory h) 0 t g), t))"
proof (cases "maxTurns > 0")
  case True
  from h have "numApproxValidTurnsThisPhase h \<le> int (length (moveHistory h))"
    "\<forall>m\<in>set (moveHistory h). mv_loc m = PASS_LOC \<or> on_board (x_size b) (y_size b) (mv_loc m)" by (simp_all add: trail_ok_def)
  then show ?thesis using True
      fill_history_planes [OF z o order_refl, of "moveHistory h" "min maxTurns (numApproxValidTurnsThisPhase h)" 5 nnXLen nnYLen
        posStride featureStride g]
    by (auto simp: history_part_def)
next
  case False
  have "planes b nnXLen (move_plane b (moveHistory h) 0 0) = {}" by (auto simp: planes_def move_plane_def)
  then show ?thesis using False
    by (intro exI [of _ 0]) (auto simp: history_part_def turns_from_def pass_turns_def)
qed

section \<open>The area\<close>

lemma area_feature_total:
  assumes wf: "wf_board Z b" and r: "rules_ok (hist_rules h)"
  shows "\<exists>area tax. area_feature b h pla p = Some (area, tax)"
proof -
  let ?m = "getSuicideLegalForPassAlive p h" let ?e = "getExcludeTerritoryAdjacentToAtari p h"
  obtain a0 where a: "calculateArea b True True True ?m = Some a0" using calculateArea_eq [OF wf] by simp
  note I = calculateIndependentLifeArea_total [OF wf, of _ _ ?e ?m]
  obtain a1 c1 a2 c2 a3 c3 where "calculateIndependentLifeArea b False True ?e ?m = Some (a1, c1)"
    "calculateIndependentLifeArea b True False ?e ?m = Some (a2, c2)"
    "calculateIndependentLifeArea b False False ?e ?m = Some (a3, c3)"
    using I [of False True] I [of True False] I [of False False] by blast
  moreover have "(scoringRule (hist_rules h) = SCORING_AREA \<or> scoringRule (hist_rules h) = SCORING_TERRITORY) \<and>
      (taxRule (hist_rules h) = TAX_NONE \<or> taxRule (hist_rules h) = TAX_SEKI \<or> taxRule (hist_rules h) = TAX_ALL)"
    using r by (auto simp: rules_ok_def)
  ultimately show ?thesis using a
    by (elim conjE disjE) (simp_all add: area_feature_def)
qed

definition area_planes :: "board \<Rightarrow> history \<Rightarrow> player \<Rightarrow> (loc \<Rightarrow> color) option \<Rightarrow> int \<Rightarrow> loc \<Rightarrow> bool" where
  "area_planes b h pla area f l = (case area of None \<Rightarrow> False | Some a \<Rightarrow> area_plane b h pla a f l)"

lemma self_komi_total: "is_stone pla \<Longrightarrow> \<exists>k. currentSelfKomi h pla d = Some k"
  by (cases pla) (auto simp: currentSelfKomi_def Let_def)

text \<open>
  \<open>finalPhaseAndGameEndWouldNotBeWin\<close>: where the area is a feature, the margin of the player's
  points, with the tax on his groups and his komi, is not positive.
\<close>

definition would_not_win :: "board \<Rightarrow> history \<Rightarrow> player \<Rightarrow> MiscNNInputParams \<Rightarrow> bool" where
  "would_not_win b h pla mp =
     (case (area_feature b h pla mp, currentSelfKomi h pla (drawEquivalentWinsForWhite mp)) of
        (Some (Some area, tax), Some selfKomi) \<Rightarrow>
          of_int (tax + (points_owned b h area pla - points_owned b h area (getOpp pla))) + selfKomi \<le> 0
      | _ \<Rightarrow> False)"

lemma area_part_planes:
  assumes wf: "wf_board Z b" and r: "rules_ok (hist_rules h)" and p: "is_stone pla"
  shows "\<exists>area tax. area_feature b h pla mp = Some (area, tax) \<and>
    area_part b h pla mp nnXLen nnYLen posStride featureStride row =
      Some (marks posStride featureStride (planes b nnXLen (area_planes b h pla area)) row, would_not_win b h pla mp)"
proof -
  obtain area tax where a: "area_feature b h pla mp = Some (area, tax)" using area_feature_total [OF wf r] by blast
  obtain k where k: "currentSelfKomi h pla (drawEquivalentWinsForWhite mp) = Some k" using self_komi_total [OF p] by blast
  show ?thesis
  proof (cases area)
    case None
    then show ?thesis using a by (simp add: area_part_def area_planes_def [abs_def] planes_empty would_not_win_def)
  next
    case (Some ar)
    then show ?thesis using a k
      by (simp add: area_part_def area_planes_def [abs_def] fill_area_planes [OF wf p] would_not_win_def)
  qed
qed

section \<open>The global features\<close>

lemma pass_tests_total:
  assumes "rules_ok (hist_rules h)"
  shows "\<exists>v. passWouldEndPhase Z h b p = Some v" "\<exists>v. passWouldEndGame Z h b p = Some v"
    "\<exists>v. shouldSuppressEndGameFromFriendlyPass Z h b p = Some v"
proof -
  obtain n where "newConsecutiveEndingPassesAfterPass h = Some n" using newConsecutive_total [OF assms] by blast
  then show "\<exists>v. passWouldEndPhase Z h b p = Some v" "\<exists>v. passWouldEndGame Z h b p = Some v"
    "\<exists>v. shouldSuppressEndGameFromFriendlyPass Z h b p = Some v"
    by (simp_all add: passWouldEndPhase_def passWouldEndGame_def shouldSuppressEndGameFromFriendlyPass_def)
      (metis option.inject)?
qed

lemma history_turns_total:
  assumes "rules_ok (hist_rules h)"
  shows "\<exists>n s. history_turns Z b h p mp notWin = Some (n, s) \<and> n \<le> 5 \<and> n \<le> maxHistory mp"
  using pass_tests_total(2,3) [OF assms, of Z b p] by (auto simp: history_turns_def Let_def)

lemma komi_wave_total: "\<exists>w. komi_wave b k = Some w \<and> \<bar>w\<bar> \<le> 1 / 2"
proof -
  have f: "0 \<le> k - of_int \<lfloor>k / 2\<rfloor> * 2" "k - of_int \<lfloor>k / 2\<rfloor> * 2 < 2"
    "0 \<le> k - (of_int \<lfloor>(k - 1) / 2\<rfloor> * 2 + 1)" "k - (of_int \<lfloor>(k - 1) / 2\<rfloor> * 2 + 1) < 2"
    using floor_correct [of "k / 2"] floor_correct [of "(k - 1) / 2"] by (auto simp: field_simps)
  define d where "d = k - (if (x_size b * y_size b) smod 2 = 0 then of_int \<lfloor>k / 2\<rfloor> * 2 else of_int \<lfloor>(k - 1) / 2\<rfloor> * 2 + 1)"
  have d: "0 \<le> d" "d < 2" using f unfolding d_def by (simp_all split: if_split)
  have "komi_wave b k = Some (if d < 1 / 2 then d else if d < 3 / 2 then 1 - d else d - 2)"
    using d unfolding komi_wave_def Let_def d_def [symmetric] by simp
  then show ?thesis using d by (auto simp: abs_if)
qed

lemma clip_komi_bound: "0 \<le> x_size b * y_size b \<Longrightarrow> \<bar>clip_komi b k\<bar> \<le> of_int (x_size b * y_size b) + KOMI_CLIP_RADIUS"
  unfolding clip_komi_def Let_def KOMI_CLIP_RADIUS_def by (auto simp: abs_if simp del: of_int_mult)

text \<open>Steps that set some of the features 6 to 14, 17 to a half or to one.\<close>

definition flags_set :: "int set \<Rightarrow> row \<Rightarrow> row \<Rightarrow> bool" where
  "flags_set J g g' \<longleftrightarrow> (\<forall>j. g' j = g j \<or> j \<in> J \<and> (\<bar>g' j\<bar> = 1 / 2 \<or> g' j = 1 \<or> g' j = 0))"

lemma flags_set_refl: "flags_set J g g" by (simp add: flags_set_def)

lemma flags_set_upd: "flags_set J g g' \<Longrightarrow> j \<in> J \<Longrightarrow> \<bar>v\<bar> = 1 / 2 \<or> v = 1 \<or> v = 0 \<Longrightarrow> flags_set J g (g'(j := v))"
  by (auto simp: flags_set_def)

lemma flags_set_if: "flags_set J g g' \<Longrightarrow> (c \<Longrightarrow> flags_set J g g'') \<Longrightarrow> flags_set J g (if c then g'' else g')"
  by simp

lemma fill_rules_total:
  assumes "rules_ok (hist_rules h)" "{6..13} \<subseteq> J"
  shows "\<exists>g'. fill_rules h g = Some g' \<and> flags_set J g g'"
proof -
  let ?r = "hist_rules h"
  have J: "6 \<in> J" "7 \<in> J" "8 \<in> J" "9 \<in> J" "10 \<in> J" "11 \<in> J" "12 \<in> J" "13 \<in> J" using assms(2) by auto
  define g1 where "g1 = (if koRule ?r = KO_SIMPLE then g
    else g(6 := 1, 7 := if koRule ?r = KO_SITUATIONAL then - 1 / 2 else 1 / 2))"
  define g2 where "g2 = (if multiStoneSuicideLegal ?r then g1(8 := 1) else g1)"
  define g3 where "g3 = (if scoringRule ?r = SCORING_AREA then g2 else g2(9 := 1))"
  define g4 where "g4 = (if taxRule ?r = TAX_NONE then g3 else if taxRule ?r = TAX_SEKI then g3(10 := 1) else g3(10 := 1, 11 := 1))"
  define g5 where "g5 = (if encorePhase h > 0 then g4(12 := 1) else g4)"
  have 1: "flags_set J g g1" unfolding g1_def using J by (auto intro!: flags_set_refl flags_set_upd)
  have 2: "flags_set J g g2" unfolding g2_def using 1 J by (auto intro!: flags_set_upd)
  have 3: "flags_set J g g3" unfolding g3_def using 2 J by (auto intro!: flags_set_upd)
  have 4: "flags_set J g g4" unfolding g4_def using 3 J by (auto intro!: flags_set_upd)
  have 5: "flags_set J g g5" unfolding g5_def using 4 J by (auto intro!: flags_set_upd)
  have ko: "(if koRule ?r = KO_SIMPLE then Some g
            else if koRule ?r = KO_POSITIONAL \<or> koRule ?r = KO_SPIGHT then Some (g(6 := 1, 7 := 1 / 2))
            else if koRule ?r = KO_SITUATIONAL then Some (g(6 := 1, 7 := - 1 / 2))
            else None) = Some g1"
  proof -
    have "koRule ?r = KO_SIMPLE \<or> koRule ?r = KO_POSITIONAL \<or> koRule ?r = KO_SITUATIONAL \<or> koRule ?r = KO_SPIGHT"
      using assms(1) by (auto simp: rules_ok_def)
    then show ?thesis unfolding g1_def
      by (elim disjE) (simp_all add: KO_SIMPLE_def KO_POSITIONAL_def KO_SITUATIONAL_def KO_SPIGHT_def)
  qed
  have sc: "(if scoringRule ?r = SCORING_AREA then Some g2
               else if scoringRule ?r = SCORING_TERRITORY then Some (g2(9 := 1)) else None) = Some g3"
    using assms(1) unfolding g3_def by (auto simp: rules_ok_def)
  have tx: "(if taxRule ?r = TAX_NONE then Some g3 else if taxRule ?r = TAX_SEKI then Some (g3(10 := 1))
               else if taxRule ?r = TAX_ALL then Some (g3(10 := 1, 11 := 1)) else None) = Some g4"
    using assms(1) unfolding g4_def by (auto simp: rules_ok_def)
  have "fill_rules h g = Some (if encorePhase h > 1 then g5(13 := 1) else g5)"
    unfolding fill_rules_def Let_def ko bind.bind_lunit g2_def [symmetric] sc tx g5_def [symmetric] ..
  moreover have "flags_set J g (if encorePhase h > 1 then g5(13 := 1) else g5)"
    using 5 J by (auto intro!: flags_set_upd)
  ultimately show ?thesis by blast
qed

lemma flags_set_trans: "flags_set J g g1 \<Longrightarrow> flags_set J g1 g2 \<Longrightarrow> flags_set J g g2"
  unfolding flags_set_def by metis

text \<open>The bounds of the global features: komi, doubling advantage, komi wave, and flags.\<close>

definition global_bound :: "board \<Rightarrow> MiscNNInputParams \<Rightarrow> int \<Rightarrow> rat" where
  "global_bound b mp j =
     (if j = 5 then (of_int (x_size b * y_size b) + KOMI_CLIP_RADIUS) / 20
      else if j = 16 then \<bar>playoutDoublingAdvantage mp\<bar> / 2
      else if j = 18 then 1 / 2 else 1)"

lemma fill_global_total:
  assumes wf: "wf_board Z b" and r: "rules_ok (hist_rules h)" and p: "is_stone pla"
    and g: "\<forall>j. 0 \<le> j \<and> j < 5 \<longrightarrow> g j = 0 \<or> g j = 1" "\<forall>j. 5 \<le> j \<and> j < 19 \<longrightarrow> g j = 0"
  shows "\<exists>g'. fill_global Z b h pla mp suppress g = Some g' \<and> (\<forall>j. j < 5 \<or> 19 \<le> j \<longrightarrow> g' j = g j) \<and>
    (\<forall>j. 0 \<le> j \<and> j < 19 \<longrightarrow> \<bar>g' j\<bar> \<le> global_bound b mp j)"
proof -
  let ?J = "{6..13} \<union> {14, 15, 17 :: int}"
  have sz: "0 \<le> x_size b * y_size b" using wf by (simp add: wf_board_def core_def geom_ok_def)
  obtain k where k: "currentSelfKomi h pla (drawEquivalentWinsForWhite mp) = Some k" using self_komi_total [OF p] by blast
  let ?k = "clip_komi b k" let ?g0 = "g(5 := ?k / 20)"
  obtain g1 where g1: "fill_rules h ?g0 = Some g1" "flags_set ?J ?g0 g1" using fill_rules_total [OF r, of ?J ?g0] by auto
  obtain e where e: "(if suppress then Some False else passWouldEndPhase Z h b pla) = Some e"
    using pass_tests_total(1) [OF r, of Z b pla] by (cases suppress) auto
  obtain w where w: "komi_wave b ?k = Some w" "\<bar>w\<bar> \<le> 1 / 2" using komi_wave_total by blast
  define g2 where "g2 = g1(14 := if e then 1 else 0)"
  define g3 where "g3 = (if playoutDoublingAdvantage mp \<noteq> 0 then g2(15 := 1, 16 := 1 / 2 * playoutDoublingAdvantage mp) else g2)"
  define g4 where "g4 = (if hasButton h then g3(17 := 1) else g3)"
  define g5 where "g5 = (if scoringRule (hist_rules h) = SCORING_AREA \<or> encorePhase h \<ge> 2 then g4(18 := w) else g4)"
  have run: "fill_global Z b h pla mp suppress g = Some g5"
    unfolding fill_global_def k bind.bind_lunit Let_def g1(1) e g2_def [symmetric] g3_def [symmetric] g4_def [symmetric] w(1) g5_def
    by simp
  have 2: "flags_set ?J ?g0 g2" unfolding g2_def using g1(2) by (auto intro!: flags_set_upd)
  have at: "g5 j = (if j = 18 \<and> (scoringRule (hist_rules h) = SCORING_AREA \<or> encorePhase h \<ge> 2) then w
      else if j = 17 \<and> hasButton h then 1
      else if j = 16 \<and> playoutDoublingAdvantage mp \<noteq> 0 then 1 / 2 * playoutDoublingAdvantage mp
      else if j = 15 \<and> playoutDoublingAdvantage mp \<noteq> 0 then 1 else g2 j)" for j
    by (simp add: g5_def g4_def g3_def)
  have out: "g2 j = ?g0 j" if "j \<notin> ?J" for j using 2 that unfolding flags_set_def by blast
  have "g5 j = g j" if "j < 5 \<or> 19 \<le> j" for j using out [of j] that by (auto simp: at)
  moreover have "\<bar>g5 j\<bar> \<le> global_bound b mp j" if j: "0 \<le> j" "j < 19" for j
  proof -
    consider "j < 5" | "j = 5" | "j \<in> ?J" | "j = 16" | "j = 18" using j by force
    then show ?thesis
    proof cases
      case 1
      then show ?thesis using out [of j] g(1) j by (auto simp: at global_bound_def)
    next
      case 2
      then show ?thesis using out [of 5] clip_komi_bound [OF sz, of k] by (simp add: at global_bound_def divide_right_mono)
    next
      case 3
      then have "?g0 j = 0" using g(2) by auto
      then have "g2 j = 0 \<or> \<bar>g2 j\<bar> = 1 / 2 \<or> g2 j = 1" using 2 unfolding flags_set_def by metis
      then show ?thesis using 3 by (auto simp: at global_bound_def)
    next
      case 4
      then show ?thesis using out [of 16] g(2) by (simp add: at global_bound_def abs_mult)
    next
      case 5
      then show ?thesis using out [of 18] g(2) w(2) by (simp add: at global_bound_def)
    qed
  qed
  ultimately show ?thesis using run by blast
qed

end
