(* ===== verification/NNRow.thy ===== *)
theory NNRow
  imports NNTotal
begin

text \<open>
  The row as a whole: in every state of a game \<open>fillRowV7\<close> returns the planes of its parts, unless
  a ladder search that it makes meets both its limits.
\<close>

section \<open>The planes\<close>

definition ladder_plane :: "loc set \<Rightarrow> loc set \<Rightarrow> loc set \<Rightarrow> loc set \<Rightarrow> int \<Rightarrow> loc \<Rightarrow> bool" where
  "ladder_plane S W T U f l \<longleftrightarrow> f = 14 \<and> l \<in> S \<or> f = 17 \<and> l \<in> W \<or> f = 15 \<and> l \<in> T \<or> f = 16 \<and> l \<in> U"

definition v7_plane ::
  "board \<Rightarrow> history \<Rightarrow> player \<Rightarrow> (loc \<Rightarrow> color) option \<Rightarrow> int \<Rightarrow> (int \<Rightarrow> loc \<Rightarrow> bool) \<Rightarrow> int \<Rightarrow> loc \<Rightarrow> bool" where
  "v7_plane b h pla area t L f l \<longleftrightarrow>
     stone_plane b pla f l \<or> ko_plane b h f l \<or> area_planes b h pla area f l \<or>
     move_plane b (moveHistory h) 0 t f l \<or> L f l \<or> encore_plane h pla f l"

lemma v7_plane_range:
  assumes "v7_plane b h pla area t (ladder_plane S W T U) f l" "t \<le> 5"
  shows "0 \<le> f \<and> f < NUM_FEATURES_SPATIAL_V7"
  using assms unfolding v7_plane_def
  by (auto simp: stone_plane_def ko_plane_def area_planes_def area_plane_def move_plane_def ladder_plane_def encore_plane_def
      NUM_FEATURES_SPATIAL_V7_def split: if_splits option.splits)

section \<open>The row\<close>

text \<open>
  The number of last moves in the row: those allowed by \<open>history_turns\<close> and valid in this phase, as
  far as the players alternate.
\<close>

definition turns_included :: "zobrist \<Rightarrow> board \<Rightarrow> history \<Rightarrow> player \<Rightarrow> MiscNNInputParams \<Rightarrow> int \<Rightarrow> bool" where
  "turns_included Z b h pla mp t \<longleftrightarrow>
     (\<exists>maxTurns suppress. history_turns Z b h pla mp (would_not_win b h pla mp) = Some (maxTurns, suppress) \<and>
        turns_from (moveHistory h) (min maxTurns (numApproxValidTurnsThisPhase h)) (getOpp pla) 5 0 t)"

text \<open>
  The one exception: one of the ladder searches that the row makes, on the board or on the boards
  of its other two scans, meets both its limits.
\<close>

definition row_limits :: "zobrist \<Rightarrow> board \<Rightarrow> history \<Rightarrow> player \<Rightarrow> MiscNNInputParams \<Rightarrow> bool" where
  "row_limits Z b h pla mp \<longleftrightarrow> ladder_limits Z b \<or>
     (\<exists>t c d. turns_included Z b h pla mp t \<and> ladder_boards b h t = Some (c, d) \<and> (ladder_limits Z c \<or> ladder_limits Z d))"

lemma ladder_boards_limits:
  assumes "turns_included Z b h pla mp t" "ladder_boards b h t = Some (c, d)" "\<not> row_limits Z b h pla mp"
  shows "\<not> ladder_limits Z b" "\<not> ladder_limits Z c" "\<not> ladder_limits Z d"
  using assms by (auto simp: row_limits_def)

text \<open>The scans are of the board and of recent boards.\<close>

lemma no_row_limits:
  assumes "\<not> ladder_limits Z b" "\<And>i c. getRecentBoard h i = Some c \<Longrightarrow> \<not> ladder_limits Z c"
  shows "\<not> row_limits Z b h pla mp"
  using assms by (auto simp: row_limits_def ladder_boards_def bind_eq_Some_conv split: if_splits)

text \<open>The parts of a row, with everything they depend on.\<close>

definition row_parts ::
  "zobrist \<Rightarrow> board \<Rightarrow> history \<Rightarrow> player \<Rightarrow> MiscNNInputParams \<Rightarrow> (loc \<Rightarrow> color) option \<Rightarrow> int \<Rightarrow>
   loc set \<Rightarrow> loc set \<Rightarrow> loc set \<Rightarrow> loc set \<Rightarrow> bool" where
  "row_parts Z b h pla mp area t S W T U \<longleftrightarrow>
     (\<exists>tax. area_feature b h pla mp = Some (area, tax)) \<and> turns_included Z b h pla mp t \<and>
     laddered_stones Z b S \<and> working_moves b (getOpp pla) S W \<and>
     (\<exists>c d. ladder_boards b h t = Some (c, d) \<and> wf_board Z c \<and> wf_board Z d \<and>
        laddered_stones Z c T \<and> laddered_stones Z d U)"

lemma fillRowV7_parts:
  assumes gs: "game_state Z (b, h)" and p: "is_stone pla" and lim: "\<not> row_limits Z b h pla mp"
    and n: "nnXLen \<le> MAX_BOARD_LEN" "nnYLen \<le> MAX_BOARD_LEN" "x_size b \<le> nnXLen" "y_size b \<le> nnYLen"
  shows "\<exists>area t S W T U row' g'. row_parts Z b h pla mp area t S W T U \<and> 0 \<le> t \<and> t \<le> 5 \<and>
    fillRowV7 Z b h pla mp nnXLen nnYLen useNHWC (row, g) = Some (row', g') \<and>
    row_holds b nnXLen nnYLen useNHWC (v7_plane b h pla area t (ladder_plane S W T U)) row row' \<and>
    (\<forall>j. j < 0 \<or> NUM_FEATURES_GLOBAL_V7 \<le> j \<longrightarrow> g' j = g j) \<and>
    (\<forall>j. 0 \<le> j \<and> j < 5 \<longrightarrow> g' j = (if j < t \<and> mv_loc (turn_at (moveHistory h) j) = PASS_LOC then 1 else 0)) \<and>
    (\<forall>j. 0 \<le> j \<and> j < NUM_FEATURES_GLOBAL_V7 \<longrightarrow> \<bar>g' j\<bar> \<le> global_bound b mp j)"
proof -
  have h: "hist_ok Z b h" "rules_ok (hist_rules h)" using game_state_ok [OF gs] by simp_all
  have wf: "wf_board Z b" using h(1) by (simp add: hist_ok_def game_core_def)
  have tr: "trail_ok Z (x_size b) (y_size b) h" by (rule game_state_trail [OF gs])
  have z: "x_size b \<le> MAX_LEN" "y_size b \<le> MAX_LEN" using wf by (simp_all add: wf_board_def core_def geom_ok_def)
  have o: "is_stone (getOpp pla)" using p by (cases pla) simp_all
  obtain ps fs where s: "row_strides nnXLen nnYLen useNHWC = (ps, fs)" by fastforce
  let ?row = "fill_zero (NUM_FEATURES_SPATIAL_V7 * nnXLen * nnYLen) row" let ?g = "fill_zero NUM_FEATURES_GLOBAL_V7 g"
  let ?notWin = "would_not_win b h pla mp"
  obtain area tax where a: "area_feature b h pla mp = Some (area, tax)"
    "area_part b h pla mp nnXLen nnYLen ps fs (fill_ko b h nnXLen nnYLen ps fs (fill_stones b pla nnXLen ps fs ?row)) =
       Some (marks ps fs (planes b nnXLen (area_planes b h pla area)) (fill_ko b h nnXLen nnYLen ps fs (fill_stones b pla nnXLen ps fs ?row)), ?notWin)"
    using area_part_planes [OF wf h(2) p] by blast
  obtain mx sup where m: "history_turns Z b h pla mp ?notWin = Some (mx, sup)" using history_turns_total [OF h(2)] by blast
  let ?ms = "moveHistory h"
  obtain t where t: "turns_from ?ms (min mx (numApproxValidTurnsThisPhase h)) (getOpp pla) 5 0 t"
    "\<And>row. history_part b h (getOpp pla) mx nnXLen nnYLen ps fs (row, ?g) =
      Some ((marks ps fs (planes b nnXLen (move_plane b ?ms 0 t)) row, pass_turns ?ms 0 t ?g), t)"
    using history_part_planes [OF z o tr] by blast
  have ti: "turns_included Z b h pla mp t" unfolding turns_included_def using m t(1) by blast
  have t5: "0 \<le> t" "t \<le> 5" using t(1) by (simp_all add: turns_from_def)
  obtain c d where cd: "ladder_boards b h t = Some (c, d)" "wf_board Z c" "wf_board Z d"
    "x_size c = x_size b" "y_size c = y_size b" "x_size d = x_size b" "y_size d = y_size b"
    using ladder_boards_ok [OF wf h(1) tr] by blast
  obtain S W T U where l: "laddered_stones Z b S" "working_moves b (getOpp pla) S W" "laddered_stones Z c T" "laddered_stones Z d U"
    "\<And>row. ladder_part Z b h (getOpp pla) t nnXLen nnYLen ps fs row =
       Some (marks ps fs (planes b nnXLen (\<lambda>f l. f = 14 \<and> l \<in> S \<or> f = 17 \<and> l \<in> W \<or> f = 15 \<and> l \<in> T \<or> f = 16 \<and> l \<in> U)) row)"
    using ladder_part_planes [OF wf cd(2,3) o cd(1,4-7) ladder_boards_limits [OF ti cd(1) lim] n] by blast
  have passes: "\<forall>j. 0 \<le> j \<and> j < 5 \<longrightarrow> pass_turns ?ms 0 t ?g j = 0 \<or> pass_turns ?ms 0 t ?g j = 1"
    "\<forall>j. 5 \<le> j \<and> j < 19 \<longrightarrow> pass_turns ?ms 0 t ?g j = 0"
    using t5 by (simp_all add: pass_turns_def fill_zero_def NUM_FEATURES_GLOBAL_V7_def)
  obtain g' where g: "fill_global Z b h pla mp sup (pass_turns ?ms 0 t ?g) = Some g'"
    "\<forall>j. j < 5 \<or> 19 \<le> j \<longrightarrow> g' j = pass_turns ?ms 0 t ?g j" "\<forall>j. 0 \<le> j \<and> j < 19 \<longrightarrow> \<bar>g' j\<bar> \<le> global_bound b mp j"
    using fill_global_total [OF wf h(2) p passes, where mp = mp and suppress = sup] by blast
  let ?row' = "marks ps fs (planes b nnXLen (v7_plane b h pla area t (ladder_plane S W T U))) ?row"
  have plane: "(\<lambda>f l. (((((encore_plane h pla f l \<or> (f = 14 \<and> l \<in> S \<or> f = 17 \<and> l \<in> W \<or> f = 15 \<and> l \<in> T \<or> f = 16 \<and> l \<in> U)) \<or>
      move_plane b ?ms 0 t f l) \<or> area_planes b h pla area f l) \<or> ko_plane b h f l) \<or> stone_plane b pla f l)) =
    v7_plane b h pla area t (ladder_plane S W T U)"
    by (auto simp: fun_eq_iff v7_plane_def ladder_plane_def)
  have run: "fillRowV7 Z b h pla mp nnXLen nnYLen useNHWC (row, g) = Some (?row', g')"
    using n a(2) m t(2) l(5) g(1) plane
    by (simp add: fillRowV7_def s fill_ko_planes [OF wf] fill_stones_planes [OF wf p] fill_encore_planes [OF wf p]
        marks_marks planes_Un)
  have holds: "row_holds b nnXLen nnYLen useNHWC (v7_plane b h pla area t (ladder_plane S W T U)) row ?row'"
    by (rule marked_row [OF n(3,4) _ s]) (use v7_plane_range t5(2) in blast)
  have "row_parts Z b h pla mp area t S W T U" unfolding row_parts_def using a(1) ti l(1-4) cd(1-3) by blast
  moreover have "\<forall>j. j < 0 \<or> NUM_FEATURES_GLOBAL_V7 \<le> j \<longrightarrow> g' j = g j"
    using g(2) t5 by (auto simp: pass_turns_def fill_zero_def NUM_FEATURES_GLOBAL_V7_def)
  moreover have "\<forall>j. 0 \<le> j \<and> j < 5 \<longrightarrow> g' j = (if j < t \<and> mv_loc (turn_at ?ms j) = PASS_LOC then 1 else 0)"
    using g(2) by (auto simp: pass_turns_def fill_zero_def NUM_FEATURES_GLOBAL_V7_def)
  moreover have "\<forall>j. 0 \<le> j \<and> j < NUM_FEATURES_GLOBAL_V7 \<longrightarrow> \<bar>g' j\<bar> \<le> global_bound b mp j"
    using g(3) by (simp add: NUM_FEATURES_GLOBAL_V7_def)
  ultimately show ?thesis using run holds t5 by blast
qed

end
