(* ===== verification/NNProps.thy ===== *)
theory NNProps
  imports NNRow GameProps
begin

text \<open>
  The properties of the network's input row, with instances on a board of one stone, after one move,
  and on a board with a ladder.
\<close>

section \<open>A board without ladders\<close>

lemma new_hist_recent: "getRecentBoard (new_hist b) i = Some c \<Longrightarrow> c = b"
proof -
  have "clear demo_zobrist b P_BLACK Rules_default 0 (history_blank b P_BLACK Rules_default demo_modes) = Some (new_hist b)"
    using new_hist_new by (simp add: BoardHistory_new_def)
  from clear_cases(2) [OF this] show "getRecentBoard (new_hist b) i = Some c \<Longrightarrow> c = b"
    by (auto simp: getRecentBoard_def clear_fields_def history_blank_def NUM_RECENT_BOARDS_def split: if_splits)
qed

definition center_board :: board where
  "center_board = demo 3 [(10, C_BLACK)]"

lemma center_wf: "wf_board demo_zobrist center_board" "x_size center_board = 3" "y_size center_board = 3"
  by (simp_all add: center_board_def demo_wf)

lemma center_no_ladder: "\<not> ladder_stone center_board l"
proof
  assume l: "ladder_stone center_board l"
  then have st: "is_stone (colors center_board l)" by (simp add: ladder_stone_def)
  have "geom_ok center_board" using center_wf(1) by (simp add: wf_board_def core_def)
  from geom_stone_on_board [OF this st] have "l \<in> set (locs_of 3 3)" by (simp add: center_wf set_locs_of)
  moreover have "\<forall>l\<in>set (locs_of 3 3). is_stone (colors center_board l) \<longrightarrow> getNumLiberties center_board l = 4" by code_simp
  ultimately have "getNumLiberties center_board l = 4" using st by blast
  then show False using getNumLiberties_eq [OF center_wf(1) st] l by (auto simp: ladder_stone_def)
qed

lemma center_no_limits: "\<not> row_limits demo_zobrist center_board (new_hist center_board) pla mp"
  by (rule no_row_limits) (use new_hist_recent no_stones_no_limits [OF center_no_ladder] in blast)+

lemma center_sizes: "3 \<le> MAX_BOARD_LEN" "x_size center_board \<le> 3" "y_size center_board \<le> 3"
  by (simp_all add: center_wf MAX_BOARD_LEN_def MAX_LEN_def)

lemma black_stone: "is_stone C_BLACK" and white_stone: "is_stone C_WHITE" by simp_all

lemmas center_instance = new_hist_game [OF center_wf(1)] black_stone center_sizes(1) center_sizes(1) center_sizes(2,3)

section \<open>A game of one move\<close>

text \<open>Black plays in the middle of an empty 3x3 board.\<close>

definition after_move :: "board \<times> history" where
  "after_move = (case makeBoardMoveAssumeLegal demo_zobrist 10 C_BLACK None False (fresh 3, new_hist (fresh 3)) of
     Some s \<Rightarrow> s | None \<Rightarrow> (fresh 3, new_hist (fresh 3)))"

lemma after_move_game:
  "game_state demo_zobrist after_move" "fst after_move = center_board"
  "moveHistory (snd after_move) = [\<lparr>mv_loc = 10, mv_pla = C_BLACK\<rparr>]" "numApproxValidTurnsThisPhase (snd after_move) = 1"
  "\<And>i c. getRecentBoard (snd after_move) i = Some c \<Longrightarrow> c = center_board \<or> c = fresh 3"
  "passWouldEndGame demo_zobrist (snd after_move) b C_WHITE = Some False"
proof -
  let ?b = "fresh 3" let ?h = "new_hist (fresh 3)"
  have wf: "wf_board demo_zobrist ?b" by (rule fresh_facts(1)) simp_all
  note g = new_hist_game [OF wf]
  have core: "game_core demo_zobrist ?b ?h" using game_state_ok(1) [OF g] by (simp add: hist_ok_def)
  have "colors ?b 10 = C_EMPTY" by code_simp
  then have pl: "playable ?b ?h 10 C_BLACK" by (simp add: playable_def)
  obtain b' h' where m: "makeBoardMoveAssumeLegal demo_zobrist 10 C_BLACK None False (?b, ?h) = Some (b', h')"
    using move_total [OF core game_state_ok(2) [OF g] pl black_stone table_for_None] by blast
  then have a: "after_move = (b', h')" by (simp add: after_move_def)
  have "clear demo_zobrist ?b P_BLACK Rules_default 0 (history_blank ?b P_BLACK Rules_default demo_modes) = Some ?h"
    using new_hist_new by (simp add: BoardHistory_new_def)
  from clear_cases(2) [OF this] have h: "encorePhase ?h = 0" "moveHistory ?h = []" "numApproxValidTurnsThisPhase (started ?h) = 0"
    "\<And>i. recentBoards ?h i = ?b" "hist_rules ?h = Rules_default"
    by (auto simp: clear_fields_def history_blank_def started_def clear_result_def cap_valid_turns_def)
  note k = main_phase_move [OF m _ h(1)]
  show "game_state demo_zobrist after_move"
    unfolding a by (rule game_state_step [OF g make_move [OF black_stone pl table_for_None m]])
  have "isLegal ?b 10 C_BLACK True" by code_simp
  then show c: "fst after_move = center_board"
    using k(1) by (simp add: a center_board_def demo_def play_all_def playMove_def PASS_LOC_def)
  show "moveHistory (snd after_move) = [\<lparr>mv_loc = 10, mv_pla = C_BLACK\<rparr>]" "numApproxValidTurnsThisPhase (snd after_move) = 1"
    using k(2,3) h by (simp_all add: a PASS_LOC_def)
  have r: "hist_rules h' = Rules_default" "encorePhase h' = 0"
    using move_rules [OF core pl black_stone m] move_phase [OF core pl black_stone _ m] h(1,5) by (simp_all add: PASS_LOC_def)
  show "passWouldEndGame demo_zobrist (snd after_move) b C_WHITE = Some False"
    using k(5) r by (simp add: a PASS_LOC_def passWouldEndGame_def passWouldEndPhase_def newConsecutiveEndingPassesAfterPass_def
        wouldBeSpightlikeEndingPass_def phaseHasSpightlikeEndingAndPassHistoryClearing_def Rules_default_def rule_consts)
  show "c = center_board \<or> c = fresh 3" if "getRecentBoard (snd after_move) i = Some c" for i c
    using that k(4) h(4) c by (auto simp: a getRecentBoard_def PASS_LOC_def split: if_splits)
qed

lemma after_move_no_limits: "\<not> row_limits demo_zobrist (fst after_move) (snd after_move) pla mp"
proof (rule no_row_limits)
  have "\<not> ladder_stone (fresh 3) l" for l
    using fresh_facts(4) [of 3] by (auto simp: ladder_stone_def)
  then show "\<not> ladder_limits demo_zobrist c" if "getRecentBoard (snd after_move) i = Some c" for i c
    using after_move_game(5) [OF that] no_stones_no_limits center_no_ladder by metis
qed (simp add: after_move_game(2) no_stones_no_limits center_no_ladder)

section \<open>The row is written in place\<close>

text \<open>
  C16: Version 7 of the network's input stays in its arrays. In every state of a game, for either
  player, any parameters and both layouts, with lengths of at most 19 that hold the board,
  \<open>NNInputs::fillRowV7\<close> returns: no assertion fails, no local array is left and no unreachable
  branch taken. It writes only inside the \<open>22 * nnXLen * nnYLen\<close> and the 19 floats of its rows,
  every spatial feature is 0 or 1 and is 0 off the board, and the global features keep to their
  bounds: the clipped komi within the board's area and 20 over 20, the komi wave within a half, the
  flags within 1. The one exception (\<open>row_limits\<close>) is a row one of whose own ladder searches, on
  the boards it scans, is at its depth limit at the very turn its node budget is used up; the
  program then returns without undoing its moves and the scan goes on from a board in disorder.
\<close>

theorem network_row_in_place:
  assumes "game_state Z (b, h)" and "is_stone pla"
    and "nnXLen \<le> MAX_BOARD_LEN" "nnYLen \<le> MAX_BOARD_LEN" "x_size b \<le> nnXLen" "y_size b \<le> nnYLen"
    and "\<not> row_limits Z b h pla mp"
  shows "\<exists>row' g'.
    fillRowV7 Z b h pla mp nnXLen nnYLen useNHWC (row, g) = Some (row', g') \<and>
    (\<forall>i. i < 0 \<or> NUM_FEATURES_SPATIAL_V7 * nnXLen * nnYLen \<le> i \<longrightarrow> row' i = row i) \<and>
    (\<forall>x y f. 0 \<le> x \<and> x < nnXLen \<and> 0 \<le> y \<and> y < nnYLen \<and> 0 \<le> f \<and> f < NUM_FEATURES_SPATIAL_V7 \<longrightarrow>
       row' (cell_index nnXLen nnYLen useNHWC x y f) = 0 \<or>
       row' (cell_index nnXLen nnYLen useNHWC x y f) = 1 \<and> x < x_size b \<and> y < y_size b) \<and>
    (\<forall>j. j < 0 \<or> NUM_FEATURES_GLOBAL_V7 \<le> j \<longrightarrow> g' j = g j) \<and>
    (\<forall>j. 0 \<le> j \<and> j < NUM_FEATURES_GLOBAL_V7 \<longrightarrow> \<bar>g' j\<bar> \<le> global_bound b mp j)"
proof -
  from fillRowV7_parts [OF assms(1,2,7,3-6), of useNHWC row g] obtain P row' g' where
    "fillRowV7 Z b h pla mp nnXLen nnYLen useNHWC (row, g) = Some (row', g')"
    and "row_holds b nnXLen nnYLen useNHWC P row row'"
    and "\<forall>j. j < 0 \<or> NUM_FEATURES_GLOBAL_V7 \<le> j \<longrightarrow> g' j = g j"
    and "\<forall>j. 0 \<le> j \<and> j < NUM_FEATURES_GLOBAL_V7 \<longrightarrow> \<bar>g' j\<bar> \<le> global_bound b mp j" by blast
  then show ?thesis unfolding row_holds_def by (intro exI [of _ row'] exI [of _ g']) (simp split: if_split)
qed

theorem network_row_in_place_witness:
  "\<exists>row' g'. fillRowV7 demo_zobrist center_board (new_hist center_board) C_BLACK MiscNNInputParams_default 3 3 False (\<lambda>_. 7, \<lambda>_. 7) =
     Some (row', g') \<and> row' 198 = 7 \<and> g' 19 = 7 \<and> \<bar>g' 18\<bar> \<le> 1 / 2"
proof -
  obtain row' g' where run: "fillRowV7 demo_zobrist center_board (new_hist center_board) C_BLACK MiscNNInputParams_default 3 3 False
      (\<lambda>_. 7, \<lambda>_. 7) = Some (row', g')"
    and out: "\<forall>i. i < 0 \<or> NUM_FEATURES_SPATIAL_V7 * 3 * 3 \<le> i \<longrightarrow> row' i = 7" "\<forall>j. j < 0 \<or> NUM_FEATURES_GLOBAL_V7 \<le> j \<longrightarrow> g' j = 7"
    and bound: "\<forall>j. 0 \<le> j \<and> j < NUM_FEATURES_GLOBAL_V7 \<longrightarrow> \<bar>g' j\<bar> \<le> global_bound center_board MiscNNInputParams_default j"
    using network_row_in_place [OF center_instance center_no_limits, of MiscNNInputParams_default False "\<lambda>_. 7" "\<lambda>_. 7"] by blast
  have "\<bar>g' 18\<bar> \<le> global_bound center_board MiscNNInputParams_default 18"
    using bound [THEN spec, of 18] by (simp add: NUM_FEATURES_GLOBAL_V7_def)
  then have "\<bar>g' 18\<bar> \<le> 1 / 2" by (simp add: global_bound_def)
  moreover have "row' 198 = 7" "g' 19 = 7" using out by (simp_all add: NUM_FEATURES_SPATIAL_V7_def NUM_FEATURES_GLOBAL_V7_def)
  ultimately show ?thesis using run by blast
qed

section \<open>The planes of the position\<close>

definition position_plane :: "board \<Rightarrow> history \<Rightarrow> player \<Rightarrow> (loc \<Rightarrow> color) option \<Rightarrow> int \<Rightarrow> loc \<Rightarrow> bool" where
  "position_plane b h pla area f l \<longleftrightarrow>
     f = 0 \<or> f = 1 \<and> colors b l = pla \<or> f = 2 \<and> colors b l = getOpp pla \<or>
     (f = 3 \<or> f = 4 \<or> f = 5) \<and> is_stone (colors b l) \<and> int (liberty_count b l) = f - 2 \<or>
     f = 6 \<and> (superKoBanned h l \<or> encorePhase h = 0 \<and> l = ko_loc b) \<or>
     f = 7 \<and> encorePhase h \<noteq> 0 \<and> koRecapBlocked h l \<or>
     area_planes b h pla area f l \<or> encore_plane h pla f l"

text \<open>
  C17: The planes of the position are exact. The features 0 to 8 and 18 to 21 that
  \<open>NNInputs::fillRowV7\<close> writes hold, at every cell of the array, exactly: the board; the stones of
  the player and of the opponent; the stones of chains with one, two or three liberties, counted
  on the board; the points where a ko rule forbids a move and those where a recapture is
  blocked in the encore; the area of either side as the scoring code computes it, with the stones
  that have stood since the start of the second encore; and these stones.
\<close>

theorem network_planes_exact:
  assumes "game_state Z (b, h)" and "is_stone pla"
    and "nnXLen \<le> MAX_BOARD_LEN" "nnYLen \<le> MAX_BOARD_LEN" "x_size b \<le> nnXLen" "y_size b \<le> nnYLen"
    and "\<not> row_limits Z b h pla mp"
  shows "\<exists>row' g' area tax.
    fillRowV7 Z b h pla mp nnXLen nnYLen useNHWC (row, g) = Some (row', g') \<and>
    area_feature b h pla mp = Some (area, tax) \<and>
    (\<forall>x y f. 0 \<le> x \<and> x < nnXLen \<and> 0 \<le> y \<and> y < nnYLen \<and> (0 \<le> f \<and> f \<le> 8 \<or> 18 \<le> f \<and> f \<le> 21) \<longrightarrow>
       row' (cell_index nnXLen nnYLen useNHWC x y f) =
         (if x < x_size b \<and> y < y_size b \<and> position_plane b h pla area f (getLoc x y (x_size b)) then 1 else 0))"
proof -
  from fillRowV7_parts [OF assms(1,2,7,3-6), of useNHWC row g] obtain area t S W T U row' g' where
    p: "row_parts Z b h pla mp area t S W T U" "t \<le> 5"
    and r: "fillRowV7 Z b h pla mp nnXLen nnYLen useNHWC (row, g) = Some (row', g')"
    and w: "row_holds b nnXLen nnYLen useNHWC (v7_plane b h pla area t (ladder_plane S W T U)) row row'" by blast
  obtain tax where a: "area_feature b h pla mp = Some (area, tax)" using p(1) by (auto simp: row_parts_def)
  have v: "v7_plane b h pla area t (ladder_plane S W T U) f l = position_plane b h pla area f l"
    if "0 \<le> f \<and> f \<le> 8 \<or> 18 \<le> f \<and> f \<le> 21" for f :: int and l
  proof -
    have "\<not> move_plane b (moveHistory h) 0 t f l" "\<not> ladder_plane S W T U f l"
      using that p(2) by (auto simp: move_plane_def ladder_plane_def)
    moreover have "ko_plane b h f l \<longleftrightarrow> f = 6 \<and> (superKoBanned h l \<or> encorePhase h = 0 \<and> l = ko_loc b) \<or>
        f = 7 \<and> encorePhase h \<noteq> 0 \<and> koRecapBlocked h l"
      unfolding ko_plane_def by (cases "encorePhase h = 0") auto
    ultimately show ?thesis unfolding v7_plane_def position_plane_def stone_plane_def by simp
  qed
  show ?thesis
  proof (intro exI conjI allI impI)
    fix x y f :: int assume f: "0 \<le> x \<and> x < nnXLen \<and> 0 \<le> y \<and> y < nnYLen \<and> (0 \<le> f \<and> f \<le> 8 \<or> 18 \<le> f \<and> f \<le> 21)"
    then have e: "v7_plane b h pla area t (ladder_plane S W T U) f l = position_plane b h pla area f l" for l by (intro v) blast
    show "row' (cell_index nnXLen nnYLen useNHWC x y f) =
        (if x < x_size b \<and> y < y_size b \<and> position_plane b h pla area f (getLoc x y (x_size b)) then 1 else 0)"
      unfolding e [symmetric] by (rule row_holds_at [OF w]) (use f in \<open>auto simp: NUM_FEATURES_SPATIAL_V7_def\<close>)
  qed (rule r, rule a)
qed

theorem network_planes_exact_witness:
  "\<exists>row' g'. fillRowV7 demo_zobrist center_board (new_hist center_board) C_WHITE MiscNNInputParams_default 5 4 True (\<lambda>_. 7, \<lambda>_. 7) =
     Some (row', g') \<and> row' (cell_index 5 4 True 1 1 2) = 1 \<and> row' (cell_index 5 4 True 1 1 1) = 0 \<and>
     row' (cell_index 5 4 True 4 3 0) = 0"
proof -
  have n: "5 \<le> MAX_BOARD_LEN" "4 \<le> MAX_BOARD_LEN" "x_size center_board \<le> 5" "y_size center_board \<le> 4"
    by (simp_all add: center_wf MAX_BOARD_LEN_def MAX_LEN_def)
  from network_planes_exact [OF new_hist_game [OF center_wf(1)] white_stone n center_no_limits,
      of MiscNNInputParams_default True "\<lambda>_. 7" "\<lambda>_. 7"]
  obtain row' g' area where
    r: "fillRowV7 demo_zobrist center_board (new_hist center_board) C_WHITE MiscNNInputParams_default 5 4 True (\<lambda>_. 7, \<lambda>_. 7) = Some (row', g')"
    and c: "\<forall>x y f. 0 \<le> x \<and> x < 5 \<and> 0 \<le> y \<and> y < 4 \<and> (0 \<le> f \<and> f \<le> 8 \<or> 18 \<le> f \<and> f \<le> 21) \<longrightarrow>
       row' (cell_index 5 4 True x y f) =
         (if x < x_size center_board \<and> y < y_size center_board \<and>
             position_plane center_board (new_hist center_board) C_WHITE area f (getLoc x y (x_size center_board)) then 1 else 0)"
    by blast
  have k: "colors center_board (getLoc 1 1 3) = C_BLACK" by code_simp
  have "row' (cell_index 5 4 True 1 1 2) = 1" "row' (cell_index 5 4 True 1 1 1) = 0" "row' (cell_index 5 4 True 4 3 0) = 0"
    using c [THEN spec, THEN spec, THEN spec, of 1 1 2] c [THEN spec, THEN spec, THEN spec, of 1 1 1]
      c [THEN spec, THEN spec, THEN spec, of 4 3 0] k
    by (simp_all add: center_wf position_plane_def area_planes_def area_plane_def encore_plane_def split: option.splits)
  then show ?thesis using r by blast
qed

section \<open>The last moves\<close>

text \<open>
  C18: The last moves are where they were played. Of the features 9 to 13 of
  \<open>NNInputs::fillRowV7\<close>, the \<open>i\<close>-th has a single one, at the point of the \<open>i\<close>-th last
  move, if this move was on the board, was made by the right player in alternation from the opponent
  on, and is not older than the history of this phase and the limits that passes and the parameter
  \<open>maxHistory\<close> put on it, where with \<open>enablePassingHacks\<close> a pass that would end the game counts by
  the margin of the area, komi and tax; otherwise it is zero everywhere. The \<open>i\<close>-th global feature is
  1 if instead this move was a pass. Excepted is a row one of whose ladder searches meets both its
  limits at the same turn (\<open>row_limits\<close>).
\<close>

theorem network_moves_exact:
  assumes "game_state Z (b, h)" and "is_stone pla"
    and "nnXLen \<le> MAX_BOARD_LEN" "nnYLen \<le> MAX_BOARD_LEN" "x_size b \<le> nnXLen" "y_size b \<le> nnYLen"
    and "\<not> row_limits Z b h pla mp"
  shows "\<exists>row' g' t.
    fillRowV7 Z b h pla mp nnXLen nnYLen useNHWC (row, g) = Some (row', g') \<and>
    turns_included Z b h pla mp t \<and> 0 \<le> t \<and> t \<le> 5 \<and>
    (\<forall>x y i. 0 \<le> x \<and> x < nnXLen \<and> 0 \<le> y \<and> y < nnYLen \<and> 0 \<le> i \<and> i < 5 \<longrightarrow>
       row' (cell_index nnXLen nnYLen useNHWC x y (9 + i)) =
         (if i < t \<and> x < x_size b \<and> y < y_size b \<and> mv_loc (turn_at (moveHistory h) i) = getLoc x y (x_size b) then 1 else 0)) \<and>
    (\<forall>i. 0 \<le> i \<and> i < 5 \<longrightarrow> g' i = (if i < t \<and> mv_loc (turn_at (moveHistory h) i) = PASS_LOC then 1 else 0))"
proof -
  from fillRowV7_parts [OF assms(1,2,7,3-6), of useNHWC row g] obtain area t S W T U row' g' where
    p: "row_parts Z b h pla mp area t S W T U" "0 \<le> t" "t \<le> 5"
    and r: "fillRowV7 Z b h pla mp nnXLen nnYLen useNHWC (row, g) = Some (row', g')"
    and w: "row_holds b nnXLen nnYLen useNHWC (v7_plane b h pla area t (ladder_plane S W T U)) row row'"
    and g: "\<forall>j. 0 \<le> j \<and> j < 5 \<longrightarrow> g' j = (if j < t \<and> mv_loc (turn_at (moveHistory h) j) = PASS_LOC then 1 else 0)" by blast
  have z: "x_size b \<le> MAX_LEN" "y_size b \<le> MAX_LEN"
    using game_state_ok(1) [OF assms(1)] by (simp_all add: hist_ok_def game_core_def wf_board_def core_def geom_ok_def)
  have v: "v7_plane b h pla area t (ladder_plane S W T U) (9 + i) l \<longleftrightarrow>
      i < t \<and> l = mv_loc (turn_at (moveHistory h) i) \<and> on_board (x_size b) (y_size b) l" if "0 \<le> i" "i < 5" for i :: int and l
    using that by (simp add: v7_plane_def stone_plane_def ko_plane_def area_planes_def area_plane_def encore_plane_def
        ladder_plane_def move_plane_def split: option.splits)
  show ?thesis
  proof (intro exI conjI)
    show "\<forall>x y i. 0 \<le> x \<and> x < nnXLen \<and> 0 \<le> y \<and> y < nnYLen \<and> 0 \<le> i \<and> i < 5 \<longrightarrow>
       row' (cell_index nnXLen nnYLen useNHWC x y (9 + i)) =
         (if i < t \<and> x < x_size b \<and> y < y_size b \<and> mv_loc (turn_at (moveHistory h) i) = getLoc x y (x_size b) then 1 else 0)"
    proof (intro allI impI)
      fix x y i :: int assume i: "0 \<le> x \<and> x < nnXLen \<and> 0 \<le> y \<and> y < nnYLen \<and> 0 \<le> i \<and> i < 5"
      then have "on_board (x_size b) (y_size b) (getLoc x y (x_size b))" if "x < x_size b" "y < y_size b"
        using that getLoc_on_board(1) z by blast
      then show "row' (cell_index nnXLen nnYLen useNHWC x y (9 + i)) =
          (if i < t \<and> x < x_size b \<and> y < y_size b \<and> mv_loc (turn_at (moveHistory h) i) = getLoc x y (x_size b) then 1 else 0)"
        using row_holds_at [OF w, of x y "9 + i"] v i by (auto simp: NUM_FEATURES_SPATIAL_V7_def)
    qed
  qed (use r p g in \<open>auto simp: row_parts_def\<close>)
qed

theorem network_moves_exact_witness:
  "\<exists>row' g'. fillRowV7 demo_zobrist (fst after_move) (snd after_move) C_WHITE MiscNNInputParams_default 3 3 False (\<lambda>_. 7, \<lambda>_. 7) =
     Some (row', g') \<and> row' (cell_index 3 3 False 1 1 9) = 1 \<and> row' (cell_index 3 3 False 0 1 9) = 0 \<and>
     row' (cell_index 3 3 False 1 1 10) = 0 \<and> g' 0 = 0"
proof -
  let ?h = "snd after_move"
  have g: "game_state demo_zobrist (fst after_move, ?h)" using after_move_game(1) by simp
  have n: "x_size (fst after_move) \<le> 3" "y_size (fst after_move) \<le> 3" by (simp_all add: after_move_game(2) center_wf)
  from network_moves_exact [OF g white_stone center_sizes(1,1) n after_move_no_limits,
      of MiscNNInputParams_default False "\<lambda>_. 7" "\<lambda>_. 7"]
  obtain row' g' t where
    r: "fillRowV7 demo_zobrist (fst after_move) ?h C_WHITE MiscNNInputParams_default 3 3 False (\<lambda>_. 7, \<lambda>_. 7) = Some (row', g')"
    and t: "turns_included demo_zobrist (fst after_move) ?h C_WHITE MiscNNInputParams_default t" "0 \<le> t"
    and c: "\<forall>x y i. 0 \<le> x \<and> x < 3 \<and> 0 \<le> y \<and> y < 3 \<and> 0 \<le> i \<and> i < 5 \<longrightarrow>
       row' (cell_index 3 3 False x y (9 + i)) = (if i < t \<and> x < x_size (fst after_move) \<and> y < y_size (fst after_move) \<and>
           mv_loc (turn_at (moveHistory ?h) i) = getLoc x y (x_size (fst after_move)) then 1 else 0)"
    and p: "\<forall>i. 0 \<le> i \<and> i < 5 \<longrightarrow> g' i = (if i < t \<and> mv_loc (turn_at (moveHistory ?h) i) = PASS_LOC then 1 else 0)"
    by blast
  obtain mx sup where mx: "history_turns demo_zobrist (fst after_move) ?h C_WHITE MiscNNInputParams_default
      (would_not_win (fst after_move) ?h C_WHITE MiscNNInputParams_default) = Some (mx, sup)"
    and tf: "turns_from (moveHistory ?h) (min mx 1) C_BLACK 5 0 t"
    using t(1) by (auto simp: turns_included_def after_move_game(4))
  have last: "turn_at (moveHistory ?h) 0 = \<lparr>mv_loc = 10, mv_pla = C_BLACK\<rparr>" by (simp add: turn_at_def after_move_game(3))
  have "\<not> (1 < t)"
  proof
    assume "1 < t"
    moreover have "\<forall>j. 0 \<le> j \<and> j < t \<longrightarrow> j < min mx 1" using tf by (simp add: turns_from_def)
    ultimately show False by (auto dest: spec [of _ 1])
  qed
  moreover have "0 < t" if "1 \<le> mx"
    using tf that t(2) last by (cases "t = 0") (auto simp: turns_from_def mover_at_def)
  moreover have "1 \<le> mx"
    using mx after_move_game(6) [of "fst after_move"] by (auto simp: history_turns_def MiscNNInputParams_default_def)
  ultimately have t1: "t = 1" by linarith
  have "getLoc 1 1 3 = 10" "getLoc 0 1 3 = 9" by code_simp+
  then have "row' (cell_index 3 3 False 1 1 9) = 1" "row' (cell_index 3 3 False 0 1 9) = 0" "row' (cell_index 3 3 False 1 1 10) = 0"
    using c [THEN spec, THEN spec, THEN spec, of 1 1 0] c [THEN spec, THEN spec, THEN spec, of 0 1 0]
      c [THEN spec, THEN spec, THEN spec, of 1 1 1] t1 last
    by (simp_all add: after_move_game(2) center_wf)
  moreover have "g' 0 = 0" using p last by (simp add: PASS_LOC_def)
  ultimately show ?thesis using r by blast
qed

section \<open>Ladders\<close>

text \<open>
  C19: The ladder planes are the answers of the searches. Feature 14 of
  \<open>NNInputs::fillRowV7\<close> marks whole chains: exactly the stones with one or two liberties whose chain
  the run of \<open>iterLadders\<close> has on record as captured, where the record holds each such chain once and
  every entry is the answer of a search for it in the position of the board. Features 15 and 16 are
  the same for the boards of one and two moves ago, or of the last one before that is included.
  Feature 17 marks only empty liberties of the opponent's marked chains with two liberties, at which
  the player may move but for a simple ko, and at least one of each such chain. Excepted is a row
  one of whose ladder searches meets both its limits at the same turn (\<open>row_limits\<close>).
\<close>

theorem network_ladders_exact:
  assumes "game_state Z (b, h)" and "is_stone pla"
    and "nnXLen \<le> MAX_BOARD_LEN" "nnYLen \<le> MAX_BOARD_LEN" "x_size b \<le> nnXLen" "y_size b \<le> nnYLen"
    and "\<not> row_limits Z b h pla mp"
  shows "\<exists>row' g' t c d S W T U.
    fillRowV7 Z b h pla mp nnXLen nnYLen useNHWC (row, g) = Some (row', g') \<and>
    turns_included Z b h pla mp t \<and> ladder_boards b h t = Some (c, d) \<and>
    laddered_stones Z b S \<and> laddered_stones Z c T \<and> laddered_stones Z d U \<and> working_moves b (getOpp pla) S W \<and>
    (\<forall>x y f. 0 \<le> x \<and> x < nnXLen \<and> 0 \<le> y \<and> y < nnYLen \<and> 14 \<le> f \<and> f \<le> 17 \<longrightarrow>
       row' (cell_index nnXLen nnYLen useNHWC x y f) =
         (if x < x_size b \<and> y < y_size b \<and> ladder_plane S W T U f (getLoc x y (x_size b)) then 1 else 0))"
proof -
  from fillRowV7_parts [OF assms(1,2,7,3-6), of useNHWC row g] obtain area t S W T U row' g' where
    p: "row_parts Z b h pla mp area t S W T U" "t \<le> 5"
    and r: "fillRowV7 Z b h pla mp nnXLen nnYLen useNHWC (row, g) = Some (row', g')"
    and w: "row_holds b nnXLen nnYLen useNHWC (v7_plane b h pla area t (ladder_plane S W T U)) row row'" by blast
  obtain c d where cd: "ladder_boards b h t = Some (c, d)" "laddered_stones Z c T" "laddered_stones Z d U"
    using p(1) by (auto simp: row_parts_def)
  have v: "v7_plane b h pla area t (ladder_plane S W T U) f l = ladder_plane S W T U f l" if "14 \<le> f \<and> f \<le> 17" for f :: int and l
    using that p(2) by (auto simp: v7_plane_def stone_plane_def ko_plane_def area_planes_def area_plane_def encore_plane_def
        move_plane_def split: option.splits)
  have "\<forall>x y f. 0 \<le> x \<and> x < nnXLen \<and> 0 \<le> y \<and> y < nnYLen \<and> 14 \<le> f \<and> f \<le> 17 \<longrightarrow>
       row' (cell_index nnXLen nnYLen useNHWC x y f) =
         (if x < x_size b \<and> y < y_size b \<and> ladder_plane S W T U f (getLoc x y (x_size b)) then 1 else 0)"
  proof (intro allI impI)
    fix x y f :: int assume f: "0 \<le> x \<and> x < nnXLen \<and> 0 \<le> y \<and> y < nnYLen \<and> 14 \<le> f \<and> f \<le> 17"
    then have e: "v7_plane b h pla area t (ladder_plane S W T U) f l = ladder_plane S W T U f l" for l by (intro v) blast
    show "row' (cell_index nnXLen nnYLen useNHWC x y f) =
        (if x < x_size b \<and> y < y_size b \<and> ladder_plane S W T U f (getLoc x y (x_size b)) then 1 else 0)"
      unfolding e [symmetric] by (rule row_holds_at [OF w]) (use f in \<open>auto simp: NUM_FEATURES_SPATIAL_V7_def\<close>)
  qed
  with p(1) r cd show ?thesis unfolding row_parts_def by blast
qed

text \<open>A black stone in the corner that White can capture in a ladder, at the start of a game.\<close>

lemma ladder_board_sizes: "x_size ladder_board = 3" "y_size ladder_board = 3"
  by (simp_all add: ladder_board_def demo_wf)

lemma ladder_board_ends: "scan_ends 40 demo_zobrist ladder_board (rows_xy 3 3) (ladder_board, [], [], [], ())"
  by code_simp

lemma ladder_board_scan: "ladder_scan demo_zobrist ladder_board = Some [(5, True)]"
  by code_simp

lemma ladder_board_limits: "\<not> row_limits demo_zobrist ladder_board (new_hist ladder_board) pla mp"
proof -
  have l: "\<not> ladder_limits demo_zobrist ladder_board"
    by (rule scan_ends_limits [OF ladder_board_wf, where n = 40]) (simp only: ladder_board_sizes ladder_board_ends)
  show ?thesis
  proof (rule no_row_limits [OF l])
    show "\<not> ladder_limits demo_zobrist c" if "getRecentBoard (new_hist ladder_board) i = Some c" for i c
      unfolding new_hist_recent [OF that] by (rule l)
  qed
qed

lemma ladder_board_stones:
  "colors ladder_board l = C_BLACK \<longleftrightarrow> l = 5" "chain_head ladder_board 5 = 5" "ladder_stone ladder_board 5"
  "liberty_count ladder_board 5 = 2" "ladder_stone ladder_board l \<and> chain_head ladder_board l = 5 \<Longrightarrow> l = 5"
proof -
  have g: "geom_ok ladder_board" using ladder_board_wf by (simp add: wf_board_def core_def)
  have o: "l \<in> set (locs_of 3 3)" if "is_stone (colors ladder_board l)" for l
    using geom_stone_on_board [OF g that] by (simp add: ladder_board_sizes set_locs_of)
  have k: "\<forall>l\<in>set (locs_of 3 3). (colors ladder_board l = C_BLACK \<longleftrightarrow> l = 5) \<and>
      (is_stone (colors ladder_board l) \<longrightarrow> chain_head ladder_board l = 5 \<longrightarrow> l = 5)" by code_simp
  have c: "colors ladder_board 5 = C_BLACK" by code_simp
  show "colors ladder_board l = C_BLACK \<longleftrightarrow> l = 5" using k o [of l] c by auto
  show "chain_head ladder_board 5 = 5" by code_simp
  have "getNumLiberties ladder_board 5 = 2" by code_simp
  then show n: "liberty_count ladder_board 5 = 2" using getNumLiberties_eq [OF ladder_board_wf, of 5] c by simp
  show "ladder_stone ladder_board 5" using n c by (simp add: ladder_stone_def)
  show "l = 5" if "ladder_stone ladder_board l \<and> chain_head ladder_board l = 5"
    using that k o [of l] by (auto simp: ladder_stone_def)
qed

theorem network_ladders_exact_witness:
  "\<exists>row' g'. fillRowV7 demo_zobrist ladder_board (new_hist ladder_board) C_WHITE MiscNNInputParams_default 3 3 True (\<lambda>_. 7, \<lambda>_. 7) =
     Some (row', g') \<and> row' (cell_index 3 3 True 0 0 14) = 1 \<and> row' (cell_index 3 3 True 1 1 14) = 0 \<and>
     (row' (cell_index 3 3 True 1 0 17) = 1 \<or> row' (cell_index 3 3 True 0 1 17) = 1) \<and> row' (cell_index 3 3 True 2 2 17) = 0"
proof -
  have n: "x_size ladder_board \<le> 3" "y_size ladder_board \<le> 3" by (simp_all add: ladder_board_sizes)
  from network_ladders_exact [OF new_hist_game [OF ladder_board_wf] white_stone center_sizes(1,1) n ladder_board_limits,
      of MiscNNInputParams_default True "\<lambda>_. 7" "\<lambda>_. 7"]
  obtain row' g' S T U W where
    r: "fillRowV7 demo_zobrist ladder_board (new_hist ladder_board) C_WHITE MiscNNInputParams_default 3 3 True (\<lambda>_. 7, \<lambda>_. 7) = Some (row', g')"
    and s: "laddered_stones demo_zobrist ladder_board S" "working_moves ladder_board (getOpp C_WHITE) S W"
    and c: "\<forall>x y f. 0 \<le> x \<and> x < 3 \<and> 0 \<le> y \<and> y < 3 \<and> 14 \<le> f \<and> f \<le> 17 \<longrightarrow>
       row' (cell_index 3 3 True x y f) = (if x < x_size ladder_board \<and> y < y_size ladder_board \<and>
           ladder_plane S W T U f (getLoc x y (x_size ladder_board)) then 1 else 0)" by blast
  have "S = {l. ladder_stone ladder_board l \<and> chain_head ladder_board l = 5}"
    using s(1) ladder_board_scan by (elim laddered_stones_def [THEN iffD1, THEN exE]) (simp add: scan_answers_def)
  also have "\<dots> = {5}" using ladder_board_stones(2,3,5) by (intro set_eqI iffI) simp_all
  finally have S: "S = {5}" .
  have grp: "k = 5" if "k \<in> group 3 (colors ladder_board) 5" for k
  proof -
    from that have "(5, k) \<in> {(u, v). adjacent 3 u v \<and> colors ladder_board u = colors ladder_board 5 \<and>
        colors ladder_board v = colors ladder_board 5}\<^sup>*" by (simp add: group_def)
    then show "k = 5" by (induction rule: rtrancl_induct) (auto simp: iffD2 [OF ladder_board_stones(1) refl] ladder_board_stones(1))
  qed
  have W: "colors ladder_board m = C_EMPTY \<and> adjacent 3 5 m" if "m \<in> W" for m
    using s(2) that grp unfolding working_moves_def S by (auto simp: ladder_board_sizes)
  have "\<exists>m. m \<in> W"
    using s(2) ladder_board_stones(1,4) unfolding working_moves_def S by (auto simp: ladder_board_sizes)
  then obtain m where "m \<in> W" ..
  have "colors ladder_board 1 \<noteq> C_EMPTY" "colors ladder_board 4 \<noteq> C_EMPTY" by code_simp+
  then have "m = 6 \<or> m = 9" "15 \<notin> W"
    using W [OF \<open>m \<in> W\<close>] W [of 15] by (auto simp: adjacent_def adjs_def)
  moreover have "getLoc 0 0 3 = 5" "getLoc 1 1 3 = 10" "getLoc 1 0 3 = 6" "getLoc 0 1 3 = 9" "getLoc 2 2 3 = 15" by code_simp+
  ultimately have "row' (cell_index 3 3 True 0 0 14) = 1" "row' (cell_index 3 3 True 1 1 14) = 0"
    "row' (cell_index 3 3 True 1 0 17) = 1 \<or> row' (cell_index 3 3 True 0 1 17) = 1" "row' (cell_index 3 3 True 2 2 17) = 0"
    using c [THEN spec, THEN spec, THEN spec, of 0 0 14] c [THEN spec, THEN spec, THEN spec, of 1 1 14]
      c [THEN spec, THEN spec, THEN spec, of 1 0 17] c [THEN spec, THEN spec, THEN spec, of 0 1 17]
      c [THEN spec, THEN spec, THEN spec, of 2 2 17] S \<open>m \<in> W\<close>
    by (auto simp: ladder_plane_def ladder_board_sizes)
  then show ?thesis using r by blast
qed

end
