(* ===== verification/Spec2Isabelle.thy ===== *)
theory Spec2Isabelle
  imports BoardProps BoardArea BoardIO Moves GameProps KoTable TextProps PositionProps SymmetryProps ChainProps
    LadderProps PatternProps NNProps
begin

text \<open>
  A verification development for the core of the Go engine under \<open>src/cpp\<close>: the board and its
  incremental bookkeeping, the rules of a game with its history, scoring, the text forms of all
  of these, and the symmetries and features through which networks see a position.

  \<^bold>\<open>The program.\<close> A \<open>Board\<close> (\<open>game/board.h\<close>, \<open>game/board.cpp\<close>) keeps the colours of the points and,
  redundantly, the chains of stones: circular lists through \<open>next_in_chain\<close>, a head for each
  stone, counts of stones and liberties at the head, a 128-bit Zobrist hash, the simple ko point
  and capture counts, all updated move by move. A \<open>BoardHistory\<close> (\<open>game/boardhistory.cpp\<close>) follows a
  game on such a board: superko over the hashes of earlier positions (optionally through a hash
  table built at the root of a search), the phases of territory scoring with their own ko rules,
  passes, the button, handicap bonuses, scoring and the end of the game. \<open>Rules\<close> (\<open>game/rules.cpp\<close>)
  are a record with several text forms; \<open>game/graphhash.cpp\<close> hashes states for the search graph;
  \<open>core/global.cpp\<close> and \<open>core/hash.cpp\<close> supply strings and mixers; \<open>neuralnet/nninputs.cpp\<close> maps
  points to entries of the policy array, applies the eight symmetries to points, boards and
  planes, and fills the input rows of a network from a board and its history; \<open>search/localpattern.cpp\<close> and \<open>search/patternbonustable.cpp\<close> give the search bonuses for
  moves that repeat a local pattern up to symmetry.

  \<^bold>\<open>Conventions of the model.\<close> Each operation is one definition with the name it has in the code,
  helper loops have names of their own. State is passed explicitly in records with the fields
  of the classes. \<open>None\<close> is a failed \<open>assert\<close> or a loop that does not end, so a theorem that an
  operation returns says \<open>Some\<close>; a thrown exception is \<open>Inl\<close> with its class and message.
  Walks along \<open>next_in_chain\<close> may loop on a corrupt list, so they are \<open>partial_function (option)\<close>
  (\<open>walk_chain\<close> in Prelude); no operation runs on fuel. A \<open>Loc\<close> is an integer, with the cast to
  16 bits written out (\<open>to_loc\<close>) where the code casts; hashes are 64-bit words. Arrays of fixed
  size are functions of the index, and what the code leaves uninitialised keeps the value of
  the object before. Scores and komi are rational numbers: they are multiples of one half of a
  size that the code's floats hold exactly; the few other numbers of the network's input are
  those before rounding. A random generator is a parameter of the definitions
  that use one, and so is the JSON library where rules are read.

  \<^bold>\<open>Theories: models.\<close>
  \<^item> HashModel, GlobalStrings: mixers, \<open>Hash128\<close>, the string functions of \<open>core\<close>.
  \<^item> Board, Chains, BoardEdit, BoardArea, Ladder, BoardIO: \<open>game/board.cpp\<close>. Board has the state, the
    tables and the queries; Chains plays, records and undoes moves; BoardEdit sets and removes
    stones; BoardArea is Benson's algorithm and the areas built on it; Ladder the ladder search with
    its explicit stack and node budget; BoardIO the self-check, text and JSON.
  \<^item> Rules: \<open>game/rules.cpp\<close>. History, Scoring, Moves: \<open>game/boardhistory.cpp\<close> and
    \<open>game/graphhash.cpp\<close>.
  \<^item> Symmetry: the namespaces \<open>NNPos\<close> and \<open>SymmetryHelpers\<close> of \<open>neuralnet/nninputs\<close>.
  \<^item> NNFeatures: the cache key and the input row of the network (version 7), with the loop over ladders.
  \<^item> LocalPattern, PatternBonus: \<open>search/localpattern.cpp\<close> and \<open>search/patternbonustable.cpp\<close>, the hashes of
    the stones around a point and the search's table of bonuses for them.

  \<^bold>\<open>Theories: proofs.\<close>
  \<^item> Prelude: loops over lists in the option monad, the walk along a chain, rings of pointers.
  \<^item> BoardInv states the invariant \<open>wf_board\<close> (geometry, chains, hash, liberties, ko point) in layers;
    BoardOps gives the effect of merging and removing chains; BoardPlay shows that a move keeps the
    invariant and does to the colours what the rules of Go say (\<open>tt_play\<close>: place, clear the
    opponent, clear oneself); BoardQueries that the questions asked without playing agree with that;
    BoardSetup, BoardBuild: fresh boards and setting stones, where a position is \<open>lively\<close> when
    every chain has a liberty; BoardCheck: the self-check and the lists of liberties.
  \<^item> Flood states the recursive fills of \<open>addChainHelper\<close> and \<open>rebuildChainHelper\<close> as a locale: such a
    fill visits a connected component. ChainFill and ChainRebuild interpret it and say what
    \<open>addChain\<close> and \<open>rebuildChain\<close> do to the chains; ChainRegen that chains built from colours are
    right whatever was there; UndoStone and Undo that a move is taken back; RepBound that the
    floods of the repetition bound end with the exact sum.
  \<^item> LadderRuns shows that the scans and move lists of the ladder search return; LadderTotal states which
    moves of its stack are on the board and LadderLoop that every turn keeps this and comes
    nearer to the end (nodes left, then levels, then moves of a level). The one run that the
    properties of ladders and of the network's rows except is named by predicates over the very
    searches that the program makes (\<open>limits_met\<close>, \<open>attack_limits\<close>, \<open>ladder_limits\<close>, \<open>row_limits\<close>): a
    search is at its depth limit at the turn its node budget is used up, and the code then
    returns without undoing its moves. \<open>ends_within\<close>, \<open>attack_ends\<close> and \<open>scan_ends\<close> refute them by evaluation.
  \<^item> Benson states unconditional life on sets of chains and regions; BensonFlood, BensonScan,
    BensonLoop, BensonArea refine the arrays of \<open>calculateAreaForPla\<close> to it, loop by loop.
  \<^item> HistoryInv, HistoryStep, HistoryGame, GameTotal: the invariant of a history, its preservation by
    each part of a move, the states a client reaches (\<open>client_step\<close>), and that moves and scoring
    always return there. KoTable: the bucket index of the ko table.
  \<^item> TextLaws, NumberText, LocText, RulesText, BoardText: laws of splitting, trimming and printing
    (locales \<open>text_form\<close> and \<open>word_form\<close>, interpreted on numbers, booleans, hashes and points) and the
    round trips built from them.
  \<^item> SymmetryLaws, SymmetryBoard, SymmetryPlanes: the group, its action on points, boards and planes,
    and the classes of equivalent moves. PatternLaws: groups, liberties and ko captures of the image
    of a board, colours exchanged or not, and the hash of a pattern as a sum over its window.
  \<^item> HistoryTrail: the recent boards and the moves of every game state are boards and points of its
    size. HistorySeen: a run of a game with its situations, of which the history keeps the hashes and
    the marks of every stone; superko bans the moves that repeat one of them.
  \<^item> NNRows describes a row as the set of its marked cells; NNLadders turns \<open>iterLadders\<close> into the
    list of its calls; NNPlanes, NNTotal give the planes of each part of \<open>fillRowV7\<close> and NNRow puts
    them together.
  \<^item> Demo holds the small boards at which theorems with hypotheses are instantiated.
  \<^item> BoardProps, GameProps, TextProps, PositionProps, SymmetryProps, ChainProps, LadderProps,
    PatternProps, NNProps: the properties, numbered, each followed by an instance.

  \<^bold>\<open>What is not modelled.\<close> Tree search (the rest of \<open>search\<close>), network evaluation, the older versions of its
  features, training data, the SGF reader and the programs built on them: they are floating-point, concurrent
  or input and output, and are listed part by part in the manifest. Of \<open>core\<close>, the generator,
  message digests, timers, threads, logging and configuration files. Printing of floating-point
  numbers and of debug dumps.
\<close>

end
